(* ===== verification/Prelude.thy ===== *)
theory Prelude
  imports Main "HOL-Library.Word" "HOL-Library.Monad_Syntax"
begin

unbundle bit_operations_syntax

text \<open>
  Shared vocabulary of the development: the machine types of \<^verbatim>\<open>include/rtdef.h\<close>, its error
  codes, the assertion \<^verbatim>\<open>RT_ASSERT\<close>, and the generic facts on lists, options and words that
  the component theories use. The collections declared here are extended by every component:
  \<open>kupd\<close> holds the record-update projections of the kernel state, \<open>frame\<close> the facts
  that an operation leaves a part of the state alone.
\<close>

named_theorems kupd \<open>projections of the kernel update functions\<close>
named_theorems frame \<open>parts of the state an operation leaves unchanged\<close>

section \<open>Machine types and error codes\<close>

type_synonym u8 = "8 word"
type_synonym u16 = "16 word"
type_synonym u32 = "32 word"
type_synonym rt_err_t = int

abbreviation (input) RT_EOK :: rt_err_t where "RT_EOK \<equiv> 0"
abbreviation (input) RT_ERROR :: rt_err_t where "RT_ERROR \<equiv> 1"
abbreviation (input) RT_ETIMEOUT :: rt_err_t where "RT_ETIMEOUT \<equiv> 2"
abbreviation (input) RT_EFULL :: rt_err_t where "RT_EFULL \<equiv> 3"
abbreviation (input) RT_EEMPTY :: rt_err_t where "RT_EEMPTY \<equiv> 4"
abbreviation (input) RT_ENOMEM :: rt_err_t where "RT_ENOMEM \<equiv> 5"
abbreviation (input) RT_ENOSYS :: rt_err_t where "RT_ENOSYS \<equiv> 6"
abbreviation (input) RT_EBUSY :: rt_err_t where "RT_EBUSY \<equiv> 7"
abbreviation (input) RT_EINTR :: rt_err_t where "RT_EINTR \<equiv> 9"
abbreviation (input) RT_EINVAL :: rt_err_t where "RT_EINVAL \<equiv> 10"

abbreviation (input) RT_TICK_MAX :: u32 where "RT_TICK_MAX \<equiv> 0xffffffff"
abbreviation (input) RT_WAITING_FOREVER :: u32 where "RT_WAITING_FOREVER \<equiv> - 1"
abbreviation (input) RT_WAITING_NO :: u32 where "RT_WAITING_NO \<equiv> 0"

text \<open>\<^verbatim>\<open>RT_ALIGN\<close>.\<close>

definition RT_ALIGN :: "u32 \<Rightarrow> u32 \<Rightarrow> u32" where
  "RT_ALIGN sz align = (sz + align - 1) AND NOT (align - 1)"

section \<open>Assertions\<close>

text \<open>
  \<^verbatim>\<open>RT_ASSERT\<close> calls \<^verbatim>\<open>rt_assert_handler\<close>, which never returns, when its condition is
  false. A kernel function that can trip one returns an option: \<open>None\<close> is the failed
  assertion (or the dereference of a null pointer), and the state is lost with it.
\<close>

definition rt_assert :: "bool \<Rightarrow> unit option" where
  "rt_assert b = (if b then Some () else None)"

lemma rt_assert_simps [simp]:
  "rt_assert True = Some ()"
  "rt_assert False = None"
  "b \<Longrightarrow> rt_assert b = Some ()"
  "\<not> b \<Longrightarrow> rt_assert b = None"
  by (simp_all add: rt_assert_def)

lemma bind_rt_assert [simp]: "Option.bind (rt_assert b) f = (if b then f () else None)"
  by (simp add: rt_assert_def)

lemma bind_eq_SomeE:
  assumes "Option.bind m f = Some y"
  obtains x where "m = Some x" "f x = Some y"
  using assms by (cases m) auto

section \<open>Lists\<close>

lemma find_eq_mem: "List.find (\<lambda>c. c = t) xs = (if t \<in> set xs then Some t else None)"
  by (induction xs) auto

lemma removeAll_distinct_append:
  "distinct (xs @ y # ys) \<Longrightarrow> removeAll y (xs @ y # ys) = xs @ ys"
  by simp

lemma removeAll_not_mem [simp]: "x \<notin> set xs \<Longrightarrow> removeAll x xs = xs"
  by (induction xs) auto

lemma removeAll_hd: "distinct xs \<Longrightarrow> xs \<noteq> [] \<Longrightarrow> removeAll (hd xs) xs = tl xs"
  by (cases xs) auto

lemma nth_list_update_ne: "i \<noteq> j \<Longrightarrow> xs[i := v] ! j = xs ! j"
  by simp

lemma distinct_mset_size_le:
  "distinct xs \<Longrightarrow> set xs \<subseteq> {..<n} \<Longrightarrow> length xs \<le> n"
  by (metis card_lessThan card_mono distinct_card finite_lessThan)

section \<open>Words\<close>

text \<open>Replacing the bits under a mask and reading them back, as every write of
  \<^verbatim>\<open>thread->stat\<close> does.\<close>

lemma mask_replace_read:
  fixes a m x :: "'a::len word"
  assumes "a AND m = a"
  shows "(a OR (x AND NOT m)) AND m = a"
proof (rule bit_word_eqI)
  fix n assume "n < LENGTH('a)"
  from assms have "bit a n \<longrightarrow> bit m n"
    by (metis bit_and_iff)
  then show "bit ((a OR (x AND NOT m)) AND m) n = bit a n"
    by (auto simp: bit_simps)
qed

lemma mask_replace_keep:
  fixes a m x :: "'a::len word"
  assumes "a AND m = a" and "m AND q = 0"
  shows "(a OR (x AND NOT m)) AND q = x AND q"
proof (rule bit_word_eqI)
  fix n assume n: "n < LENGTH('a)"
  from assms(1) have am: "bit a n \<longrightarrow> bit m n"
    by (metis bit_and_iff)
  from assms(2) have "\<not> bit (m AND q) n" by simp
  then have "bit m n \<longrightarrow> \<not> bit q n" by (simp add: bit_and_iff)
  with am n show "bit ((a OR (x AND NOT m)) AND q) n = bit (x AND q) n"
    by (auto simp: bit_simps)
qed

lemma bit_one_shift [simp]:
  "bit (push_bit p 1 :: 'a::len word) q \<longleftrightarrow> q = p \<and> p < LENGTH('a)"
  by (auto simp: bit_simps)

lemma word_neq_0_bit: "(w :: 'a::len word) \<noteq> 0 \<longleftrightarrow> (\<exists>n < LENGTH('a). bit w n)"
  by (metis bit_0_eq bit_imp_le_length bit_word_eqI bot_apply bot_bool_def)

lemma unat_less_2_32: "unat (x :: u32) < 4294967296"
  using unsigned_less [of x] by simp

lemma unat_add_no_wrap:
  "unat (a :: 'a::len word) + unat b < 2 ^ LENGTH('a) \<Longrightarrow> unat (a + b) = unat a + unat b"
  by (simp add: unat_word_ariths)

lemma unat_Suc_no_wrap:
  "unat (a :: 'a::len word) + 1 < 2 ^ LENGTH('a) \<Longrightarrow> unat (a + 1) = unat a + 1"
  by (metis add.commute unat_add_no_wrap unsigned_1)

lemma unat_pred: "(a :: 'a::len word) \<noteq> 0 \<Longrightarrow> unat (a - 1) = unat a - 1"
  by (simp add: unat_minus_one)

lemma unat_sub_u32:
  "unat (x - y :: u32) = (if unat y \<le> unat x then unat x - unat y
     else 4294967296 + unat x - unat y)"
  by (simp add: unat_sub_if' add.commute [of 4294967296])

lemma unat_minus_1 [simp]:
  "unat (- 1 :: u8) = 255" "unat (- 1 :: u16) = 65535" "unat (- 1 :: u32) = 4294967295"
  by (simp_all add: unsigned_minus_1_eq_mask mask_eq_exp_minus_1)

lemma unat_ucast_u8 [simp]: "unat (ucast (x :: u8) :: u32) = unat x"
  "unat (ucast (x :: u8) :: u16) = unat x"
proof -
  have "unat x < 2 ^ 8" using unsigned_less [of x] by simp
  then show "unat (ucast x :: u32) = unat x" "unat (ucast x :: u16) = unat x"
    by (simp_all add: unsigned_ucast_eq take_bit_nat_def)
qed

lemma unat_ucast_u16 [simp]: "unat (ucast (x :: u16) :: u32) = unat x"
proof -
  have "unat x < 2 ^ 16" using unsigned_less [of x] by simp
  then show ?thesis by (simp add: unsigned_ucast_eq take_bit_nat_def)
qed

end
