(* ===== verification/RtList.thy ===== *)
theory RtList
  imports Prelude
begin

text \<open>
  The intrusive lists of \<^verbatim>\<open>include/rtservice.h\<close>. A heap maps the address of a list node to
  its \<^verbatim>\<open>next\<close> and \<^verbatim>\<open>prev\<close> pointers, and every inline function is the sequence of pointer
  writes of the source. \<open>dlist h l xs\<close> says that the ring through the head \<open>l\<close> holds the
  nodes \<open>xs\<close> in order. The locale \<open>node_store\<close> is the contract the kernel relies on (a
  family of named lists in which a node is on one list at most), and the pointer heap is an
  interpretation of it. The kernel theories work with that family directly.
\<close>

section \<open>Doubly linked lists\<close>

record heap =
  nxt :: "nat \<Rightarrow> nat"
  prv :: "nat \<Rightarrow> nat"

definition set_next :: "nat \<Rightarrow> nat \<Rightarrow> heap \<Rightarrow> heap" where
  "set_next a v h = h\<lparr>nxt := (nxt h)(a := v)\<rparr>"

definition set_prev :: "nat \<Rightarrow> nat \<Rightarrow> heap \<Rightarrow> heap" where
  "set_prev a v h = h\<lparr>prv := (prv h)(a := v)\<rparr>"

definition rt_list_init :: "nat \<Rightarrow> heap \<Rightarrow> heap" where
  "rt_list_init l h = set_next l l (set_prev l l h)"

definition rt_list_insert_after :: "nat \<Rightarrow> nat \<Rightarrow> heap \<Rightarrow> heap" where
  "rt_list_insert_after l n h =
     (let h1 = set_prev (nxt h l) n h;
          h2 = set_next n (nxt h1 l) h1;
          h3 = set_next l n h2
      in set_prev n l h3)"

definition rt_list_insert_before :: "nat \<Rightarrow> nat \<Rightarrow> heap \<Rightarrow> heap" where
  "rt_list_insert_before l n h =
     (let h1 = set_next (prv h l) n h;
          h2 = set_prev n (prv h1 l) h1;
          h3 = set_prev l n h2
      in set_next n l h3)"

definition rt_list_remove :: "nat \<Rightarrow> heap \<Rightarrow> heap" where
  "rt_list_remove n h =
     (let h1 = set_prev (nxt h n) (prv h n) h;
          h2 = set_next (prv h1 n) (nxt h1 n) h1
      in set_next n n (set_prev n n h2))"

definition rt_list_isempty :: "nat \<Rightarrow> heap \<Rightarrow> bool" where
  "rt_list_isempty l h \<longleftrightarrow> nxt h l = l"

text \<open>The counting loop may run for ever on a heap that holds no ring, so it is partial.\<close>

partial_function (option) rt_list_len_loop :: "nat \<Rightarrow> nat \<Rightarrow> u32 \<Rightarrow> heap \<Rightarrow> u32 option" where
  "rt_list_len_loop l p len h =
     (if nxt h p \<noteq> l then rt_list_len_loop l (nxt h p) (len + 1) h else Some len)"

definition rt_list_len :: "nat \<Rightarrow> heap \<Rightarrow> u32 option" where
  "rt_list_len l h = rt_list_len_loop l l 0 h"

section \<open>Singly linked lists\<close>

text \<open>The address 0 is \<^verbatim>\<open>RT_NULL\<close>; only \<^verbatim>\<open>next\<close> is used.\<close>

definition rt_slist_init :: "nat \<Rightarrow> heap \<Rightarrow> heap" where
  "rt_slist_init l h = set_next l 0 h"

partial_function (option) rt_slist_tail :: "nat \<Rightarrow> heap \<Rightarrow> nat option" where
  "rt_slist_tail l h = (if nxt h l \<noteq> 0 then rt_slist_tail (nxt h l) h else Some l)"

definition rt_slist_append :: "nat \<Rightarrow> nat \<Rightarrow> heap \<Rightarrow> heap option" where
  "rt_slist_append l n h =
     do { node \<leftarrow> rt_slist_tail l h; Some (set_next n 0 (set_next node n h)) }"

definition rt_slist_insert :: "nat \<Rightarrow> nat \<Rightarrow> heap \<Rightarrow> heap" where
  "rt_slist_insert l n h = (let h1 = set_next n (nxt h l) h in set_next l n h1)"

partial_function (option) rt_slist_len_loop :: "nat \<Rightarrow> u32 \<Rightarrow> heap \<Rightarrow> u32 option" where
  "rt_slist_len_loop p len h =
     (if p \<noteq> 0 then rt_slist_len_loop (nxt h p) (len + 1) h else Some len)"

definition rt_slist_len :: "nat \<Rightarrow> heap \<Rightarrow> u32 option" where
  "rt_slist_len l h = rt_slist_len_loop (nxt h l) 0 h"

partial_function (option) rt_slist_find_prev :: "nat \<Rightarrow> nat \<Rightarrow> heap \<Rightarrow> nat option" where
  "rt_slist_find_prev node n h =
     (if nxt h node \<noteq> 0 \<and> nxt h node \<noteq> n then rt_slist_find_prev (nxt h node) n h
      else Some node)"

definition rt_slist_remove :: "nat \<Rightarrow> nat \<Rightarrow> heap \<Rightarrow> heap option" where
  "rt_slist_remove l n h =
     do { node \<leftarrow> rt_slist_find_prev l n h;
          Some (if nxt h node \<noteq> 0 then set_next node (nxt h (nxt h node)) h else h) }"

definition rt_slist_first :: "nat \<Rightarrow> heap \<Rightarrow> nat" where
  "rt_slist_first l h = nxt h l"

definition rt_slist_isempty :: "nat \<Rightarrow> heap \<Rightarrow> bool" where
  "rt_slist_isempty l h \<longleftrightarrow> nxt h l = 0"

section \<open>What a ring holds\<close>

fun chain :: "heap \<Rightarrow> nat \<Rightarrow> nat list \<Rightarrow> nat \<Rightarrow> bool" where
  "chain h a [] b \<longleftrightarrow> nxt h a = b \<and> prv h b = a"
| "chain h a (x # xs) b \<longleftrightarrow> nxt h a = x \<and> prv h x = a \<and> chain h x xs b"

definition dlist :: "heap \<Rightarrow> nat \<Rightarrow> nat list \<Rightarrow> bool" where
  "dlist h l xs \<longleftrightarrow> distinct (l # xs) \<and> chain h l xs l"

fun slist :: "heap \<Rightarrow> nat \<Rightarrow> nat list \<Rightarrow> bool" where
  "slist h l [] \<longleftrightarrow> l \<noteq> 0 \<and> nxt h l = 0"
| "slist h l (x # xs) \<longleftrightarrow> l \<noteq> 0 \<and> nxt h l = x \<and> slist h x xs"

text \<open>\<open>lists_rep h H A\<close>: every head of \<open>H\<close> is a ring that holds \<open>A l\<close>, and no node or
  head is shared between two rings.\<close>

definition lists_rep :: "heap \<Rightarrow> nat set \<Rightarrow> (nat \<Rightarrow> nat list) \<Rightarrow> bool" where
  "lists_rep h H A \<longleftrightarrow>
     (\<forall>l \<in> H. dlist h l (A l)) \<and>
     (\<forall>l \<in> H. \<forall>m \<in> H. l \<noteq> m \<longrightarrow> set (l # A l) \<inter> set (m # A m) = {})"

section \<open>Pointer lemmas\<close>

lemma heap_simps [simp]:
  "nxt (set_next a v h) = (nxt h)(a := v)" "prv (set_next a v h) = prv h"
  "prv (set_prev a v h) = (prv h)(a := v)" "nxt (set_prev a v h) = nxt h"
  by (simp_all add: set_next_def set_prev_def)

lemma chain_append:
  "chain h a (xs @ y # ys) b \<longleftrightarrow> chain h a xs y \<and> chain h y ys b"
  by (induction xs arbitrary: a) auto

lemma chain_cong:
  assumes "\<And>x. x \<in> set (a # xs) \<Longrightarrow> nxt h' x = nxt h x"
    and "\<And>x. x \<in> set (xs @ [b]) \<Longrightarrow> prv h' x = prv h x"
  shows "chain h' a xs b = chain h a xs b"
  using assms by (induction xs arbitrary: a) auto

lemma dlist_cong:
  assumes "\<And>x. x \<in> set (l # xs) \<Longrightarrow> nxt h' x = nxt h x \<and> prv h' x = prv h x"
  shows "dlist h' l xs = dlist h l xs"
proof -
  have "chain h' l xs l = chain h l xs l" by (rule chain_cong) (use assms in auto)
  then show ?thesis by (simp add: dlist_def)
qed

lemma chain_last: "chain h a xs b \<Longrightarrow> prv h b = last (a # xs)"
  by (induction xs arbitrary: a) (auto split: if_splits)

lemma chain_first: "chain h a xs b \<Longrightarrow> nxt h a = hd (xs @ [b])"
  by (cases xs) auto

lemma dlist_prv_nxt:
  assumes "dlist h l (xs @ y # ys)"
  shows "prv h y = last (l # xs)" "nxt h y = hd (ys @ [l])"
  using assms chain_last [of h l xs y] chain_first [of h y ys l]
  by (auto simp: dlist_def chain_append)

text \<open>Both insertions put a node between two neighbours; removal joins them again.\<close>

definition link3 :: "nat \<Rightarrow> nat \<Rightarrow> nat \<Rightarrow> heap \<Rightarrow> heap" where
  "link3 a n b h =
     h\<lparr>nxt := (nxt h)(a := n, n := b), prv := (prv h)(b := n, n := a)\<rparr>"

lemma link3_simps [simp]:
  "nxt (link3 a n b h) = (nxt h)(a := n, n := b)"
  "prv (link3 a n b h) = (prv h)(b := n, n := a)"
  by (simp_all add: link3_def)

lemma insert_after_link3:
  assumes "nxt h l = b" "n \<noteq> l" "n \<noteq> b"
  shows "rt_list_insert_after l n h = link3 l n b h"
  using assms
  by (intro heap.equality) (auto simp: rt_list_insert_after_def Let_def fun_eq_iff)

lemma insert_before_link3:
  assumes "prv h l = a" "n \<noteq> l" "n \<noteq> a"
  shows "rt_list_insert_before l n h = link3 a n l h"
  using assms
  by (intro heap.equality) (auto simp: rt_list_insert_before_def Let_def fun_eq_iff)

lemma chain_insert:
  assumes "chain h a (xs @ ys) b" "n \<notin> set (a # xs @ ys @ [b])"
    and "distinct (a # xs @ ys)" "b \<notin> set (xs @ ys)"
  shows "chain (link3 (last (a # xs)) n (hd (ys @ [b])) h) a (xs @ n # ys) b"
  using assms
proof (induction xs arbitrary: a)
  case Nil
  show ?case
  proof (cases ys)
    case Nil
    with Nil.prems show ?thesis by auto
  next
    case (Cons y zs)
    have "chain (link3 a n y h) y zs b = chain h y zs b"
      by (rule chain_cong) (use Nil.prems Cons in auto)
    with Nil.prems Cons show ?thesis by auto
  qed
next
  case (Cons x xs)
  have "chain (link3 (last (x # xs)) n (hd (ys @ [b])) h) x (xs @ n # ys) b"
    by (rule Cons.IH) (use Cons.prems in auto)
  moreover have "last (x # xs) \<noteq> a" using Cons.prems(3) last_in_set [of "x # xs"] by auto
  moreover have "hd (ys @ [b]) \<noteq> x" using Cons.prems(3,4) by (cases ys) auto
  ultimately show ?case using Cons.prems by auto
qed

lemma dlist_insert:
  assumes "dlist h l (xs @ ys)" "n \<notin> set (l # xs @ ys)"
  shows "dlist (link3 (last (l # xs)) n (hd (ys @ [l])) h) l (xs @ n # ys)"
  using assms chain_insert [of h l xs ys l n] by (auto simp: dlist_def)

definition unlink :: "nat \<Rightarrow> nat \<Rightarrow> nat \<Rightarrow> heap \<Rightarrow> heap" where
  "unlink a n b h =
     h\<lparr>nxt := (nxt h)(a := b, n := n), prv := (prv h)(b := a, n := n)\<rparr>"

lemma unlink_simps [simp]:
  "nxt (unlink a n b h) = (nxt h)(a := b, n := n)"
  "prv (unlink a n b h) = (prv h)(b := a, n := n)"
  by (simp_all add: unlink_def)

lemma remove_unlink:
  "prv h n \<noteq> n \<Longrightarrow> nxt h n \<noteq> n \<Longrightarrow> rt_list_remove n h = unlink (prv h n) n (nxt h n) h"
  by (intro heap.equality) (auto simp: rt_list_remove_def Let_def fun_eq_iff)

lemma chain_delete:
  assumes "chain h a (xs @ n # ys) b" "n \<noteq> a" "n \<noteq> b"
    and "distinct (a # xs @ n # ys)" "b \<notin> set (xs @ ys)"
  shows "chain (unlink (last (a # xs)) n (hd (ys @ [b])) h) a (xs @ ys) b"
  using assms
proof (induction xs arbitrary: a)
  case Nil
  show ?case
  proof (cases ys)
    case Nil
    with Nil.prems show ?thesis by auto
  next
    case (Cons y zs)
    have "chain (unlink a n y h) y zs b = chain h y zs b"
      by (rule chain_cong) (use Nil.prems Cons in auto)
    with Nil.prems Cons show ?thesis by auto
  qed
next
  case (Cons x xs)
  have "chain (unlink (last (x # xs)) n (hd (ys @ [b])) h) x (xs @ ys) b"
    by (rule Cons.IH) (use Cons.prems in auto)
  moreover have "last (x # xs) \<noteq> a" using Cons.prems(4) last_in_set [of "x # xs"] by auto
  moreover have "hd (ys @ [b]) \<noteq> x" using Cons.prems(4,5) by (cases ys) auto
  ultimately show ?case using Cons.prems by auto
qed

lemma dlist_remove_node:
  assumes "dlist h l (xs @ n # ys)"
  shows "rt_list_remove n h = unlink (last (l # xs)) n (hd (ys @ [l])) h"
    and "dlist (rt_list_remove n h) l (xs @ ys)"
proof -
  from assms have d: "distinct (l # xs @ n # ys)" and c: "chain h l (xs @ n # ys) l"
    by (simp_all add: dlist_def)
  have "last (l # xs) \<noteq> n" using d last_in_set [of "l # xs"] by auto
  moreover have "hd (ys @ [l]) \<noteq> n" using d by (cases ys) auto
  ultimately show eq: "rt_list_remove n h = unlink (last (l # xs)) n (hd (ys @ [l])) h"
    using remove_unlink [of h n] dlist_prv_nxt [OF assms] by simp
  show "dlist (rt_list_remove n h) l (xs @ ys)"
    unfolding eq dlist_def using chain_delete [OF c] d by auto
qed

lemma dlist_nonmember_frame:
  assumes "dlist h l xs" "a \<notin> set (l # xs)" "b \<notin> set (l # xs)" "n \<notin> set (l # xs)"
  shows "dlist (link3 a n b h) l xs" "dlist (unlink a n b h) l xs"
proof -
  have "dlist (link3 a n b h) l xs = dlist h l xs" by (rule dlist_cong) (use assms in auto)
  with assms(1) show "dlist (link3 a n b h) l xs" by simp
  have "dlist (unlink a n b h) l xs = dlist h l xs" by (rule dlist_cong) (use assms in auto)
  with assms(1) show "dlist (unlink a n b h) l xs" by simp
qed

section \<open>The inline functions on rings\<close>

lemma rt_list_init_dlist: "dlist (rt_list_init l h) l []"
  by (simp add: rt_list_init_def dlist_def)

lemma dlist_last: "dlist h l xs \<Longrightarrow> prv h l = last (l # xs)"
  by (auto simp: dlist_def dest: chain_last)

lemma dlist_first: "dlist h l xs \<Longrightarrow> nxt h l = hd (xs @ [l])"
  by (auto simp: dlist_def dest: chain_first)

lemma rt_list_isempty_iff: "dlist h l xs \<Longrightarrow> rt_list_isempty l h \<longleftrightarrow> xs = []"
  by (cases xs) (auto simp: rt_list_isempty_def dlist_def)

lemma rt_list_insert_before_node:
  assumes "dlist h l (xs @ y # ys)" "n \<notin> set (l # xs @ y # ys)"
  shows "rt_list_insert_before y n h = link3 (last (l # xs)) n y h"
    and "dlist (rt_list_insert_before y n h) l (xs @ n # y # ys)"
proof -
  have "last (l # xs) \<in> set (l # xs)" by (rule last_in_set) simp
  with assms(2) show eq: "rt_list_insert_before y n h = link3 (last (l # xs)) n y h"
    by (intro insert_before_link3) (auto simp: dlist_prv_nxt [OF assms(1)])
  show "dlist (rt_list_insert_before y n h) l (xs @ n # y # ys)"
    unfolding eq using dlist_insert [of h l xs "y # ys" n] assms by simp
qed

lemma rt_list_insert_before_head:
  assumes "dlist h l xs" "n \<notin> set (l # xs)"
  shows "rt_list_insert_before l n h = link3 (last (l # xs)) n l h"
    and "dlist (rt_list_insert_before l n h) l (xs @ [n])"
proof -
  have "last (l # xs) \<in> set (l # xs)" by (rule last_in_set) simp
  with assms show eq: "rt_list_insert_before l n h = link3 (last (l # xs)) n l h"
    by (intro insert_before_link3) (auto dest: dlist_last)
  show "dlist (rt_list_insert_before l n h) l (xs @ [n])"
    unfolding eq using dlist_insert [of h l xs "[]" n] assms by simp
qed

lemma rt_list_insert_after_head:
  assumes "dlist h l xs" "n \<notin> set (l # xs)"
  shows "rt_list_insert_after l n h = link3 l n (hd (xs @ [l])) h"
    and "dlist (rt_list_insert_after l n h) l (n # xs)"
proof -
  show eq: "rt_list_insert_after l n h = link3 l n (hd (xs @ [l])) h"
    using assms by (intro insert_after_link3) (auto dest: dlist_first simp: hd_append)
  show "dlist (rt_list_insert_after l n h) l (n # xs)"
    unfolding eq using dlist_insert [of h l "[]" xs n] assms by simp
qed

lemma rt_list_len_loop_chain:
  assumes "chain h p xs l" "l \<notin> set xs"
  shows "rt_list_len_loop l p len h = Some (len + of_nat (length xs))"
  using assms
  by (induction xs arbitrary: p len) (auto simp: rt_list_len_loop.simps algebra_simps)

section \<open>The contract of a family of lists\<close>

text \<open>
  A store of named lists over which a node may move: the operations the kernel uses on
  \<^verbatim>\<open>thread->tlist\<close> and \<^verbatim>\<open>object->list\<close>. \<open>rep s A\<close> says that the store \<open>s\<close> holds the lists
  \<open>A\<close>.
\<close>

locale node_store =
  fixes rep :: "'s \<Rightarrow> ('l \<Rightarrow> 'n list) \<Rightarrow> bool"
    and heads :: "'l set"
    and nodes :: "'n set"
    and push_back :: "'l \<Rightarrow> 'n \<Rightarrow> 's \<Rightarrow> 's"
    and push_front :: "'l \<Rightarrow> 'n \<Rightarrow> 's \<Rightarrow> 's"
    and insert_at :: "'n \<Rightarrow> 'n \<Rightarrow> 's \<Rightarrow> 's"
    and drop_node :: "'n \<Rightarrow> 's \<Rightarrow> 's"
    and is_empty :: "'l \<Rightarrow> 's \<Rightarrow> bool"
  assumes rep_distinct: "rep s A \<Longrightarrow> l \<in> heads \<Longrightarrow> distinct (A l)"
    and rep_disjoint: "rep s A \<Longrightarrow> l \<in> heads \<Longrightarrow> m \<in> heads \<Longrightarrow> l \<noteq> m \<Longrightarrow>
      set (A l) \<inter> set (A m) = {}"
    and rep_nodes: "rep s A \<Longrightarrow> l \<in> heads \<Longrightarrow> set (A l) \<subseteq> nodes"
    and rep_push_back: "rep s A \<Longrightarrow> l \<in> heads \<Longrightarrow> n \<in> nodes \<Longrightarrow>
      (\<forall>m \<in> heads. n \<notin> set (A m)) \<Longrightarrow> rep (push_back l n s) (A(l := A l @ [n]))"
    and rep_push_front: "rep s A \<Longrightarrow> l \<in> heads \<Longrightarrow> n \<in> nodes \<Longrightarrow>
      (\<forall>m \<in> heads. n \<notin> set (A m)) \<Longrightarrow> rep (push_front l n s) (A(l := n # A l))"
    and rep_insert_at: "rep s A \<Longrightarrow> l \<in> heads \<Longrightarrow> n \<in> nodes \<Longrightarrow>
      (\<forall>m \<in> heads. n \<notin> set (A m)) \<Longrightarrow> A l = xs @ y # ys \<Longrightarrow>
      rep (insert_at y n s) (A(l := xs @ n # y # ys))"
    and rep_drop: "rep s A \<Longrightarrow> l \<in> heads \<Longrightarrow> n \<in> set (A l) \<Longrightarrow>
      rep (drop_node n s) (A(l := removeAll n (A l)))"
    and rep_is_empty: "rep s A \<Longrightarrow> l \<in> heads \<Longrightarrow> is_empty l s \<longleftrightarrow> A l = []"
begin

text \<open>Moving a node from one list to the end of another (a thread that leaves a wait list
  for a ready queue).\<close>

lemma move_back:
  assumes "rep s A" "l \<in> heads" "m \<in> heads" "l \<noteq> m" "n \<in> set (A l)"
  shows "rep (push_back m n (drop_node n s)) (A(l := removeAll n (A l), m := A m @ [n]))"
proof -
  have r: "rep (drop_node n s) (A(l := removeAll n (A l)))"
    using assms(1,2,5) by (rule rep_drop)
  have out: "n \<notin> set (A p)" if "p \<in> heads" "p \<noteq> l" for p
    using rep_disjoint [OF assms(1) that(1) assms(2) that(2)] assms(5) by auto
  have "rep (push_back m n (drop_node n s))
      ((A(l := removeAll n (A l)))(m := (A(l := removeAll n (A l))) m @ [n]))"
    by (rule rep_push_back [OF r assms(3)]) (use rep_nodes [OF assms(1,2)] assms(5) out in auto)
  with assms(4) show ?thesis by simp
qed

text \<open>Taking the first node until none is left (waking every waiter).\<close>

lemma drain:
  assumes "rep s A" "l \<in> heads"
  shows "rep (fold drop_node (A l) s) (A(l := []))"
proof -
  have "rep s A \<Longrightarrow> A l = xs \<Longrightarrow> rep (fold drop_node xs s) (A(l := []))" for xs
  proof (induction xs arbitrary: s A)
    case Nil
    then show ?case by (simp add: fun_upd_idem)
  next
    case (Cons x xs)
    have "distinct (x # xs)" using rep_distinct [OF Cons.prems(1) assms(2)] Cons.prems(2) by simp
    then have "rep (drop_node x s) (A(l := xs))"
      using rep_drop [OF Cons.prems(1) assms(2), of x] Cons.prems(2) by simp
    from Cons.IH [OF this] show ?case by (simp add: fun_upd_def cong: if_cong)
  qed
  with assms(1) show ?thesis by blast
qed

end

section \<open>The pointer heap keeps the contract\<close>

lemma lists_repD:
  assumes "lists_rep h H A" "l \<in> H"
  shows "dlist h l (A l)" "distinct (A l)" "l \<notin> set (A l)" "set (A l) \<inter> H = {}"
proof -
  show "dlist h l (A l)" using assms by (simp add: lists_rep_def)
  then show "distinct (A l)" and notin: "l \<notin> set (A l)" by (simp_all add: dlist_def)
  show "set (A l) \<inter> H = {}"
  proof -
    have "m \<notin> set (A l)" if "m \<in> H" for m
    proof (cases "m = l")
      case True
      with notin show ?thesis by simp
    next
      case False
      with assms that have "set (l # A l) \<inter> set (m # A m) = {}" by (simp add: lists_rep_def)
      then show ?thesis by auto
    qed
    then show ?thesis by blast
  qed
qed

lemma lists_rep_disjoint:
  "lists_rep h H A \<Longrightarrow> l \<in> H \<Longrightarrow> m \<in> H \<Longrightarrow> l \<noteq> m \<Longrightarrow> set (l # A l) \<inter> set (m # A m) = {}"
  unfolding lists_rep_def by blast

lemma lists_rep_link3:
  assumes rep: "lists_rep h H A" and l: "l \<in> H" and n: "n \<notin> H" "\<forall>m \<in> H. n \<notin> set (A m)"
    and ab: "a \<in> set (l # A l)" "b \<in> set (l # A l)"
    and new: "dlist (link3 a n b h) l B" "set B = insert n (set (A l))"
  shows "lists_rep (link3 a n b h) H (A(l := B))"
proof -
  have other: "dlist (link3 a n b h) m (A m)" if "m \<in> H" "m \<noteq> l" for m
    by (rule dlist_nonmember_frame)
      (use lists_repD(1) [OF rep that(1)] lists_rep_disjoint [OF rep that(1) l that(2)] ab n that
        in auto)
  show ?thesis unfolding lists_rep_def
  proof (intro conjI ballI impI)
    fix m assume "m \<in> H"
    with other new show "dlist (link3 a n b h) m ((A(l := B)) m)" by auto
  next
    fix m p assume mp: "m \<in> H" "p \<in> H" "m \<noteq> p"
    have "set (m # A m) \<inter> set (p # A p) = {}" by (rule lists_rep_disjoint [OF rep mp])
    with new(2) n mp show "set (m # (A(l := B)) m) \<inter> set (p # (A(l := B)) p) = {}" by auto
  qed
qed

lemma lists_rep_remove:
  assumes rep: "lists_rep h H A" and l: "l \<in> H" and n: "n \<in> set (A l)"
  shows "lists_rep (rt_list_remove n h) H (A(l := removeAll n (A l)))"
proof -
  from n obtain xs ys where A: "A l = xs @ n # ys" by (auto simp: in_set_conv_decomp)
  have dl: "dlist h l (xs @ n # ys)" using lists_repD(1) [OF rep l] A by simp
  note eq = dlist_remove_node(1) [OF dl] and new = dlist_remove_node(2) [OF dl]
  have d: "distinct (xs @ n # ys)" using lists_repD(2) [OF rep l] A by simp
  have ends: "last (l # xs) \<in> set (l # A l)" "hd (ys @ [l]) \<in> set (l # A l)"
    using last_in_set [of "l # xs"] by (auto simp: A hd_append)
  have other: "dlist (rt_list_remove n h) m (A m)" if "m \<in> H" "m \<noteq> l" for m
    unfolding eq
    by (rule dlist_nonmember_frame)
      (use lists_repD(1) [OF rep that(1)] lists_rep_disjoint [OF rep that(1) l that(2)] ends n
        in auto)
  show ?thesis unfolding lists_rep_def
  proof (intro conjI ballI impI)
    fix m assume "m \<in> H"
    with other new d A show "dlist (rt_list_remove n h) m ((A(l := removeAll n (A l))) m)" by auto
  next
    fix m p assume mp: "m \<in> H" "p \<in> H" "m \<noteq> p"
    have "set (m # A m) \<inter> set (p # A p) = {}" by (rule lists_rep_disjoint [OF rep mp])
    then show "set (m # (A(l := removeAll n (A l))) m) \<inter> set (p # (A(l := removeAll n (A l))) p) = {}"
      by auto
  qed
qed

interpretation ptr: node_store "\<lambda>h A. lists_rep h H A" H "- H"
  rt_list_insert_before rt_list_insert_after rt_list_insert_before rt_list_remove rt_list_isempty
  for H
proof unfold_locales
  fix h A l m assume "lists_rep h H A" "l \<in> H" "m \<in> H" "l \<noteq> m"
  then show "set (A l) \<inter> set (A m) = {}" using lists_rep_disjoint by fastforce
next
  fix h A l n assume *: "lists_rep h H A" "l \<in> H" "n \<in> - H" "\<forall>m\<in>H. n \<notin> set (A m)"
  have out: "n \<notin> set (l # A l)" using * by auto
  show "lists_rep (rt_list_insert_before l n h) H (A(l := A l @ [n]))"
    using rt_list_insert_before_head [OF lists_repD(1) [OF *(1,2)] out] last_in_set [of "l # A l"]
    by (auto intro!: lists_rep_link3 [OF *(1,2)] simp: * simp del: last.simps)
       (use * in auto)
  show "lists_rep (rt_list_insert_after l n h) H (A(l := n # A l))"
    using rt_list_insert_after_head [OF lists_repD(1) [OF *(1,2)] out]
    by (auto intro!: lists_rep_link3 [OF *(1,2)] simp: * hd_append) (use * in auto)
next
  fix h A l n xs y ys
  assume *: "lists_rep h H A" "l \<in> H" "n \<in> - H" "\<forall>m\<in>H. n \<notin> set (A m)" "A l = xs @ y # ys"
  have dl: "dlist h l (xs @ y # ys)" using lists_repD(1) [OF *(1,2)] *(5) by simp
  have out: "n \<notin> set (l # xs @ y # ys)" using * by auto
  show "lists_rep (rt_list_insert_before y n h) H (A(l := xs @ n # y # ys))"
    using rt_list_insert_before_node [OF dl out] last_in_set [of "l # xs"]
    by (auto intro!: lists_rep_link3 [OF *(1,2)] simp: *(5) simp del: last.simps) (use * in auto)
qed (auto dest: lists_repD lists_rep_remove rt_list_isempty_iff)

section \<open>Singly linked lists hold sequences\<close>

lemma slist_cong:
  "(\<And>x. x \<in> set (l # xs) \<Longrightarrow> nxt h' x = nxt h x) \<Longrightarrow> slist h' l xs = slist h l xs"
  by (induction xs arbitrary: l) auto

lemma slist_nonzero: "slist h l xs \<Longrightarrow> l \<noteq> 0 \<and> 0 \<notin> set xs"
proof (induction xs arbitrary: l)
  case (Cons x xs)
  with Cons.IH [of x] show ?case by auto
qed simp

lemma rt_slist_tail_last: "slist h l xs \<Longrightarrow> rt_slist_tail l h = Some (last (l # xs))"
proof (induction xs arbitrary: l)
  case Nil
  then show ?case by (simp add: rt_slist_tail.simps)
next
  case (Cons x xs)
  then show ?case using slist_nonzero [of h x xs] by (simp add: rt_slist_tail.simps [of l])
qed

lemma slist_append_last:
  assumes "slist h l xs" "distinct (l # xs)" "n \<notin> set (l # xs)" "n \<noteq> 0"
  shows "slist (set_next n 0 (set_next (last (l # xs)) n h)) l (xs @ [n])"
  using assms
proof (induction xs arbitrary: l)
  case (Cons x xs)
  have "last (x # xs) \<in> set (x # xs)" by (rule last_in_set) simp
  with Cons show ?case by auto
qed auto

lemma rt_slist_find_prev_split:
  assumes "slist h l (xs @ n # ys)" "n \<notin> set xs"
  shows "rt_slist_find_prev l n h = Some (last (l # xs))"
  using assms
proof (induction xs arbitrary: l)
  case Nil
  then show ?case by (simp add: rt_slist_find_prev.simps)
next
  case (Cons x xs)
  then show ?case using slist_nonzero [of h x "xs @ n # ys"]
    by (simp add: rt_slist_find_prev.simps [of l])
qed

lemma rt_slist_find_prev_absent:
  assumes "slist h l xs" "n \<notin> set xs"
  shows "rt_slist_find_prev l n h = Some (last (l # xs)) \<and> nxt h (last (l # xs)) = 0"
  using assms
proof (induction xs arbitrary: l)
  case Nil
  then show ?case by (simp add: rt_slist_find_prev.simps)
next
  case (Cons x xs)
  then show ?case using slist_nonzero [of h x xs]
    by (simp add: rt_slist_find_prev.simps [of l])
qed

lemma slist_split:
  "slist h l (xs @ n # ys) \<Longrightarrow> nxt h (last (l # xs)) = n \<and> slist h n ys"
  by (induction xs arbitrary: l) auto

lemma slist_delete:
  assumes "slist h l (xs @ n # ys)" "distinct (l # xs @ n # ys)"
  shows "slist (set_next (last (l # xs)) (nxt h n) h) l (xs @ ys)"
  using assms
proof (induction xs arbitrary: l)
  case Nil
  show ?case
  proof (cases ys)
    case (Cons y zs)
    have "slist (set_next l y h) y zs = slist h y zs"
      by (rule slist_cong) (use Nil.prems Cons in auto)
    with Nil.prems Cons show ?thesis by auto
  qed (use Nil.prems in auto)
next
  case (Cons x xs)
  have "last (x # xs) \<in> set (x # xs)" by (rule last_in_set) simp
  with Cons show ?case by auto
qed

lemma rt_slist_remove_correct:
  assumes "slist h l xs" "distinct (l # xs)"
  shows "\<exists>h'. rt_slist_remove l n h = Some h' \<and> slist h' l (remove1 n xs)"
proof (cases "n \<in> set xs")
  case True
  then obtain us vs where xs: "xs = us @ n # vs" "n \<notin> set us"
    by (metis split_list_first)
  with assms have "nxt h (last (l # us)) = n" "n \<noteq> 0"
    using slist_split [of h l us n vs] slist_nonzero [of h l xs] by auto
  moreover have "slist (set_next (last (l # us)) (nxt h n) h) l (us @ vs)"
    by (rule slist_delete) (use assms xs in simp_all)
  ultimately show ?thesis
    using rt_slist_find_prev_split [of h l us n vs] assms xs
    by (auto simp: rt_slist_remove_def remove1_append)
next
  case False
  with assms rt_slist_find_prev_absent [of h l xs n] show ?thesis
    by (auto simp: rt_slist_remove_def remove1_idem)
qed

lemma rt_slist_len_loop_slist:
  "slist h l xs \<Longrightarrow> rt_slist_len_loop (nxt h l) c h = Some (c + of_nat (length xs))"
proof (induction xs arbitrary: l c)
  case Nil
  then show ?case by (simp add: rt_slist_len_loop.simps)
next
  case (Cons x xs)
  then show ?case using slist_nonzero [of h x xs]
    by (simp add: rt_slist_len_loop.simps [of x] algebra_simps)
qed

section \<open>Properties\<close>

text \<open>The pointer code moves a node between two rings as a list program would: after
  \<^verbatim>\<open>rt_list_remove\<close> and \<^verbatim>\<open>rt_list_insert_before\<close>, the node has left its ring, is last in the
  other one, every other ring of the family is as before, and no ring is broken.\<close>

theorem rt_list_move_refines:
  assumes "lists_rep h H A" "l \<in> H" "m \<in> H" "l \<noteq> m" "n \<in> set (A l)"
  shows "lists_rep (rt_list_insert_before m n (rt_list_remove n h)) H
           (A(l := removeAll n (A l), m := A m @ [n]))"
  using assms by (rule ptr.move_back)

theorem rt_list_move_refines_witness:
  "lists_rep (rt_list_insert_before 1 5
       (rt_list_remove 5 (rt_list_insert_before 0 6 (rt_list_insert_before 0 5
         (rt_list_init 0 (rt_list_init 1 \<lparr>nxt = (\<lambda>_. 0), prv = (\<lambda>_. 0)\<rparr>)))))) {0, 1}
     (((\<lambda>l. if l = 0 then [5, 6] else [])(0 := [6])) (1 := [5]))"
proof -
  let ?h = "rt_list_insert_before 0 6 (rt_list_insert_before 0 5
         (rt_list_init 0 (rt_list_init 1 \<lparr>nxt = (\<lambda>_. 0), prv = (\<lambda>_. 0)\<rparr>)))"
  have "lists_rep ?h {0, 1} (\<lambda>l. if l = 0 then [5, 6] else [])"
    by (simp add: lists_rep_def dlist_def rt_list_insert_before_def rt_list_init_def Let_def)
  from rt_list_move_refines [OF this, of 0 1 5] show ?thesis by simp
qed

text \<open>The loops of the list header return on every well-formed list, with the expected
  result: \<^verbatim>\<open>rt_list_len\<close> and \<^verbatim>\<open>rt_slist_len\<close> count the nodes (modulo 2 to the 32),
  \<^verbatim>\<open>rt_slist_append\<close> adds the node at the end, and \<^verbatim>\<open>rt_slist_remove\<close> deletes the node when it
  is there and changes nothing when it is not.\<close>

theorem rt_list_loops_total:
  assumes "dlist h l xs" and "slist h s ys" "distinct (s # ys)" and "n \<notin> set (s # ys)" "n \<noteq> 0"
  shows "rt_list_len l h = Some (of_nat (length xs)) \<and>
    rt_slist_len s h = Some (of_nat (length ys)) \<and>
    (\<exists>h'. rt_slist_append s n h = Some h' \<and> slist h' s (ys @ [n])) \<and>
    (\<exists>h'. rt_slist_remove s m h = Some h' \<and> slist h' s (remove1 m ys))"
proof (intro conjI)
  show "rt_list_len l h = Some (of_nat (length xs))"
    using assms(1) rt_list_len_loop_chain [of h l xs l 0] by (simp add: rt_list_len_def dlist_def)
  show "rt_slist_len s h = Some (of_nat (length ys))"
    using rt_slist_len_loop_slist [OF assms(2), of 0] by (simp add: rt_slist_len_def)
  show "\<exists>h'. rt_slist_append s n h = Some h' \<and> slist h' s (ys @ [n])"
    using slist_append_last [OF assms(2-5)] rt_slist_tail_last [OF assms(2)]
    by (simp add: rt_slist_append_def)
  show "\<exists>h'. rt_slist_remove s m h = Some h' \<and> slist h' s (remove1 m ys)"
    by (rule rt_slist_remove_correct [OF assms(2,3)])
qed

theorem rt_list_loops_total_witness:
  "rt_list_len 1 \<lparr>nxt = (\<lambda>_. 0)(1 := 2, 2 := 1, 5 := 6), prv = (\<lambda>_. 0)(1 := 2, 2 := 1)\<rparr> = Some 1
   \<and> rt_slist_len 5 \<lparr>nxt = (\<lambda>_. 0)(1 := 2, 2 := 1, 5 := 6), prv = (\<lambda>_. 0)(1 := 2, 2 := 1)\<rparr> = Some 1"
proof -
  let ?h = "\<lparr>nxt = (\<lambda>_. 0)(1 := 2, 2 := 1, 5 := 6), prv = (\<lambda>_. 0)(1 := 2, 2 := 1)\<rparr>"
  have "dlist ?h 1 [2]" "slist ?h 5 [6]" by (simp_all add: dlist_def)
  from rt_list_loops_total [OF this, of 7] show ?thesis by simp
qed

end
