(* ===== verification/KState.thy ===== *)
theory KState
  imports RtList
begin

text \<open>
  The kernel state: the structures of \<^verbatim>\<open>include/rtdef.h\<close> as records, one map per kind of
  object from its address to its structure, the thread lists as a family indexed by list head,
  and the globals of \<^verbatim>\<open>scheduler.c\<close>, \<^verbatim>\<open>timer.c\<close> and \<^verbatim>\<open>object.c\<close>. The configuration is that of
  \<^verbatim>\<open>rtconfig.h\<close>: two CPUs (\<^verbatim>\<open>RT_USING_SMP\<close>), 32 priorities, one skip-list level, assertions on.
  A section between \<^verbatim>\<open>rt_hw_interrupt_disable\<close> and \<^verbatim>\<open>rt_hw_interrupt_enable\<close> is atomic (on SMP
  it holds the lock of all CPUs), so the pair leaves no trace in the model; theory \<open>Cpu\<close> shows
  that it restores the state. Hook pointers are null, and the contents of thread stacks are not
  part of the state.
\<close>

section \<open>Constants\<close>

abbreviation (input) RT_THREAD_INIT :: u8 where "RT_THREAD_INIT \<equiv> 0"
abbreviation (input) RT_THREAD_READY :: u8 where "RT_THREAD_READY \<equiv> 1"
abbreviation (input) RT_THREAD_SUSPEND :: u8 where "RT_THREAD_SUSPEND \<equiv> 2"
abbreviation (input) RT_THREAD_RUNNING :: u8 where "RT_THREAD_RUNNING \<equiv> 3"
abbreviation (input) RT_THREAD_CLOSE :: u8 where "RT_THREAD_CLOSE \<equiv> 4"
abbreviation (input) RT_THREAD_STAT_MASK :: u8 where "RT_THREAD_STAT_MASK \<equiv> 7"
abbreviation (input) RT_THREAD_STAT_YIELD :: u8 where "RT_THREAD_STAT_YIELD \<equiv> 8"
abbreviation (input) RT_THREAD_STAT_SIGNAL_PENDING :: u8 where "RT_THREAD_STAT_SIGNAL_PENDING \<equiv> 0x40"
abbreviation (input) RT_THREAD_STAT_SIGNAL_MASK :: u8 where "RT_THREAD_STAT_SIGNAL_MASK \<equiv> 0xf0"

abbreviation (input) RT_CPUS_NR :: u8 where "RT_CPUS_NR \<equiv> 2"
abbreviation (input) RT_CPU_DETACHED :: u8 where "RT_CPU_DETACHED \<equiv> 2"
abbreviation (input) RT_CPU_MASK :: u32 where "RT_CPU_MASK \<equiv> 3"
abbreviation (input) RT_THREAD_PRIORITY_MAX :: u8 where "RT_THREAD_PRIORITY_MAX \<equiv> 32"
abbreviation (input) RT_TICK_PER_SECOND :: u32 where "RT_TICK_PER_SECOND \<equiv> 100"
abbreviation (input) RT_NAME_MAX :: nat where "RT_NAME_MAX \<equiv> 8"

abbreviation (input) RT_TIMER_FLAG_ACTIVATED :: u8 where "RT_TIMER_FLAG_ACTIVATED \<equiv> 1"
abbreviation (input) RT_TIMER_FLAG_ONE_SHOT :: u8 where "RT_TIMER_FLAG_ONE_SHOT \<equiv> 0"
abbreviation (input) RT_TIMER_FLAG_PERIODIC :: u8 where "RT_TIMER_FLAG_PERIODIC \<equiv> 2"
abbreviation (input) RT_TIMER_FLAG_SOFT_TIMER :: u8 where "RT_TIMER_FLAG_SOFT_TIMER \<equiv> 4"

abbreviation (input) RT_IPC_FLAG_FIFO :: u8 where "RT_IPC_FLAG_FIFO \<equiv> 0"
abbreviation (input) RT_IPC_FLAG_PRIO :: u8 where "RT_IPC_FLAG_PRIO \<equiv> 1"
abbreviation (input) RT_IPC_CMD_RESET :: int where "RT_IPC_CMD_RESET \<equiv> 1"

abbreviation (input) RT_EVENT_FLAG_AND :: u8 where "RT_EVENT_FLAG_AND \<equiv> 1"
abbreviation (input) RT_EVENT_FLAG_OR :: u8 where "RT_EVENT_FLAG_OR \<equiv> 2"
abbreviation (input) RT_EVENT_FLAG_CLEAR :: u8 where "RT_EVENT_FLAG_CLEAR \<equiv> 4"

abbreviation (input) RT_Object_Class_Thread :: u8 where "RT_Object_Class_Thread \<equiv> 1"
abbreviation (input) RT_Object_Class_Semaphore :: u8 where "RT_Object_Class_Semaphore \<equiv> 2"
abbreviation (input) RT_Object_Class_Mutex :: u8 where "RT_Object_Class_Mutex \<equiv> 3"
abbreviation (input) RT_Object_Class_Event :: u8 where "RT_Object_Class_Event \<equiv> 4"
abbreviation (input) RT_Object_Class_MailBox :: u8 where "RT_Object_Class_MailBox \<equiv> 5"
abbreviation (input) RT_Object_Class_MessageQueue :: u8 where "RT_Object_Class_MessageQueue \<equiv> 6"
abbreviation (input) RT_Object_Class_MemHeap :: u8 where "RT_Object_Class_MemHeap \<equiv> 7"
abbreviation (input) RT_Object_Class_MemPool :: u8 where "RT_Object_Class_MemPool \<equiv> 8"
abbreviation (input) RT_Object_Class_Device :: u8 where "RT_Object_Class_Device \<equiv> 9"
abbreviation (input) RT_Object_Class_Timer :: u8 where "RT_Object_Class_Timer \<equiv> 10"
abbreviation (input) RT_Object_Class_Unknown :: u8 where "RT_Object_Class_Unknown \<equiv> 12"
abbreviation (input) RT_Object_Class_Static :: u8 where "RT_Object_Class_Static \<equiv> 0x80"

section \<open>Structures\<close>

text \<open>The address of an object: one allocated or declared on its own, or one of the two timers
  embedded in the thread at an address.\<close>

datatype oid = Obj nat | ThreadTimer nat | PeriodTimer nat

text \<open>Code pointers: the entry of a thread and the callback of a timer. The kernel's own
  functions are named; every other one is a number.\<close>

datatype code_ptr = Periodic_task_f | Timer_entry | Code nat

datatype timeout_fn = Thread_timeout | Thread_timer_f | User_timeout nat

record rt_object =
  o_name :: string
  o_type :: u8
  o_flag :: u8

record rt_timer =
  timeout_func :: timeout_fn
  tm_parameter :: nat
  tm_init_tick :: u32
  timeout_tick :: u32

record rt_thread =
  entry :: code_ptr
  entry_callback :: "code_ptr option"
  parameter :: nat
  stack_addr :: nat
  stack_size :: u32
  error :: rt_err_t
  stat :: u8
  bind_cpu :: u8
  oncpu :: u8
  scheduler_lock_nest :: u16
  cpus_lock_nest :: u16
  critical_lock_nest :: u16
  current_priority :: u8
  init_priority :: u8
  number_mask :: u32
  period :: u32
  event_set :: u32
  event_info :: u8
  init_tick :: u32
  remaining_tick :: u32
  cleanup :: "code_ptr option"

record rt_cpu =
  current_thread :: "nat option"
  irq_nest :: u16
  irq_switch_flag :: u8
  cpu_current_priority :: u8
  priority_group :: u32
  tick :: u32

record rt_semaphore =
  sem_value :: u16

record rt_mutex =
  mutex_value :: u16
  original_priority :: u8
  hold :: u8
  owner :: "nat option"

record rt_event =
  ev_set :: u32

record rt_mailbox =
  msg_pool :: "u32 list"
  mb_size :: u16
  mb_entry :: u16
  in_offset :: u16
  out_offset :: u16

text \<open>The pool of a message queue is a sequence of slots; a message pointer is a slot number, and
  each slot has its \<^verbatim>\<open>next\<close> pointer and the bytes behind it.\<close>

record rt_messagequeue =
  mq_next :: "nat \<Rightarrow> nat option"
  mq_data :: "nat \<Rightarrow> u8 list"
  msg_size :: u16
  max_msgs :: u16
  mq_entry :: u16
  msg_queue_head :: "nat option"
  msg_queue_tail :: "nat option"
  msg_queue_free :: "nat option"

text \<open>The heads of the lists a thread's \<^verbatim>\<open>tlist\<close> node can be on.\<close>

datatype lid = Ready nat | CpuReady nat nat | Defunct | Suspend nat | SuspendSender nat

record kernel =
  obj :: "oid \<Rightarrow> rt_object"
  thr :: "nat \<Rightarrow> rt_thread"
  tmr :: "oid \<Rightarrow> rt_timer"
  cpus :: "nat \<Rightarrow> rt_cpu"
  tlists :: "lid \<Rightarrow> nat list"
  containers :: "u8 \<Rightarrow> oid list"
  timer_list :: "oid list"
  soft_timer_list :: "oid list"
  random_nr :: u32
  ready_priority_group :: u32
  ipi :: "nat \<Rightarrow> bool"
  timer_thread :: nat
  sems :: "nat \<Rightarrow> rt_semaphore"
  mutexes :: "nat \<Rightarrow> rt_mutex"
  events :: "nat \<Rightarrow> rt_event"
  mbs :: "nat \<Rightarrow> rt_mailbox"
  mqs :: "nat \<Rightarrow> rt_messagequeue"

abbreviation upd_thr :: "nat \<Rightarrow> (rt_thread \<Rightarrow> rt_thread) \<Rightarrow> kernel \<Rightarrow> kernel" where
  "upd_thr t f k \<equiv> k\<lparr>thr := (thr k)(t := f (thr k t))\<rparr>"

abbreviation upd_obj :: "oid \<Rightarrow> (rt_object \<Rightarrow> rt_object) \<Rightarrow> kernel \<Rightarrow> kernel" where
  "upd_obj x f k \<equiv> k\<lparr>obj := (obj k)(x := f (obj k x))\<rparr>"

abbreviation upd_tmr :: "oid \<Rightarrow> (rt_timer \<Rightarrow> rt_timer) \<Rightarrow> kernel \<Rightarrow> kernel" where
  "upd_tmr x f k \<equiv> k\<lparr>tmr := (tmr k)(x := f (tmr k x))\<rparr>"

abbreviation upd_cpu :: "nat \<Rightarrow> (rt_cpu \<Rightarrow> rt_cpu) \<Rightarrow> kernel \<Rightarrow> kernel" where
  "upd_cpu c f k \<equiv> k\<lparr>cpus := (cpus k)(c := f (cpus k c))\<rparr>"

text \<open>\<^verbatim>\<open>rt_thread_self\<close> and the context checks of \<^verbatim>\<open>include/rtdebug.h\<close>.\<close>

definition rt_thread_self :: "nat \<Rightarrow> kernel \<Rightarrow> nat option" where
  "rt_thread_self c k = current_thread (cpus k c)"

definition not_in_interrupt :: "nat \<Rightarrow> kernel \<Rightarrow> bool" where
  "not_in_interrupt c k \<longleftrightarrow> irq_nest (cpus k c) = 0"

definition in_thread_context :: "nat \<Rightarrow> kernel \<Rightarrow> bool" where
  "in_thread_context c k \<longleftrightarrow> rt_thread_self c k \<noteq> None \<and> not_in_interrupt c k"

text \<open>\<^verbatim>\<open>thread->stat & RT_THREAD_STAT_MASK\<close>, and the write
  \<^verbatim>\<open>thread->stat = s | (thread->stat & ~RT_THREAD_STAT_MASK)\<close>.\<close>

definition stat_of :: "rt_thread \<Rightarrow> u8" where
  "stat_of x = stat x AND RT_THREAD_STAT_MASK"

definition set_stat :: "u8 \<Rightarrow> rt_thread \<Rightarrow> rt_thread" where
  "set_stat s x = x\<lparr>stat := s OR (stat x AND NOT RT_THREAD_STAT_MASK)\<rparr>"

text \<open>The zero-initialised memory a structure starts from: static data, and what
  \<^verbatim>\<open>rt_object_allocate\<close> leaves after its \<^verbatim>\<open>rt_memset\<close>.\<close>

definition zero_object :: rt_object where
  "zero_object = \<lparr>o_name = [], o_type = 0, o_flag = 0\<rparr>"

definition zero_timer :: rt_timer where
  "zero_timer = \<lparr>timeout_func = User_timeout 0, tm_parameter = 0, tm_init_tick = 0, timeout_tick = 0\<rparr>"

definition zero_thread :: rt_thread where
  "zero_thread = \<lparr>entry = Code 0, entry_callback = None, parameter = 0, stack_addr = 0,
     stack_size = 0, error = 0, stat = 0, bind_cpu = 0, oncpu = 0, scheduler_lock_nest = 0,
     cpus_lock_nest = 0, critical_lock_nest = 0, current_priority = 0, init_priority = 0,
     number_mask = 0, period = 0, event_set = 0, event_info = 0, init_tick = 0,
     remaining_tick = 0, cleanup = None\<rparr>"

definition zero_cpu :: rt_cpu where
  "zero_cpu = \<lparr>current_thread = None, irq_nest = 0, irq_switch_flag = 0,
     cpu_current_priority = 0, priority_group = 0, tick = 0\<rparr>"

definition zero_mq :: rt_messagequeue where
  "zero_mq = \<lparr>mq_next = (\<lambda>_. None), mq_data = (\<lambda>_. []), msg_size = 0, max_msgs = 0,
     mq_entry = 0, msg_queue_head = None, msg_queue_tail = None, msg_queue_free = None\<rparr>"

definition zero_kernel :: kernel where
  "zero_kernel = \<lparr>obj = (\<lambda>_. zero_object), thr = (\<lambda>_. zero_thread), tmr = (\<lambda>_. zero_timer),
     cpus = (\<lambda>_. zero_cpu), tlists = (\<lambda>_. []), containers = (\<lambda>_. []), timer_list = [],
     soft_timer_list = [], random_nr = 0, ready_priority_group = 0, ipi = (\<lambda>_. False),
     timer_thread = 0, sems = (\<lambda>_. \<lparr>sem_value = 0\<rparr>),
     mutexes = (\<lambda>_. \<lparr>mutex_value = 0, original_priority = 0, hold = 0, owner = None\<rparr>),
     events = (\<lambda>_. \<lparr>ev_set = 0\<rparr>),
     mbs = (\<lambda>_. \<lparr>msg_pool = [], mb_size = 0, mb_entry = 0, in_offset = 0, out_offset = 0\<rparr>),
     mqs = (\<lambda>_. zero_mq)\<rparr>"

lemmas zero_defs = zero_kernel_def zero_cpu_def zero_thread_def zero_timer_def zero_object_def
  zero_mq_def

section \<open>The thread lists\<close>

definition tlist_insert_before :: "lid \<Rightarrow> nat \<Rightarrow> kernel \<Rightarrow> kernel" where
  "tlist_insert_before l t k = k\<lparr>tlists := (tlists k)(l := tlists k l @ [t])\<rparr>"

definition tlist_insert_after :: "lid \<Rightarrow> nat \<Rightarrow> kernel \<Rightarrow> kernel" where
  "tlist_insert_after l t k = k\<lparr>tlists := (tlists k)(l := t # tlists k l)\<rparr>"

fun ins_before :: "'a \<Rightarrow> 'a \<Rightarrow> 'a list \<Rightarrow> 'a list" where
  "ins_before y n [] = []"
| "ins_before y n (x # xs) = (if x = y then n # x # xs else x # ins_before y n xs)"

definition tlist_insert_before_node :: "nat \<Rightarrow> nat \<Rightarrow> kernel \<Rightarrow> kernel" where
  "tlist_insert_before_node y t k = k\<lparr>tlists := (\<lambda>l. ins_before y t (tlists k l))\<rparr>"

definition tlist_remove :: "nat \<Rightarrow> kernel \<Rightarrow> kernel" where
  "tlist_remove t k = k\<lparr>tlists := (\<lambda>l. removeAll t (tlists k l))\<rparr>"

definition tlist_isempty :: "lid \<Rightarrow> kernel \<Rightarrow> bool" where
  "tlist_isempty l k \<longleftrightarrow> tlists k l = []"

text \<open>A node is on one list at most, and once.\<close>

definition tlists_ok :: "(lid \<Rightarrow> nat list) \<Rightarrow> bool" where
  "tlists_ok A \<longleftrightarrow>
     (\<forall>l. distinct (A l)) \<and> (\<forall>l m. l \<noteq> m \<longrightarrow> set (A l) \<inter> set (A m) = {})"

section \<open>Lemmas\<close>

lemma stat_of_set_stat_gen: "s AND 7 = s \<Longrightarrow> stat_of (set_stat s x) = s"
  using mask_replace_read [of s 7 "stat x"] by (simp add: stat_of_def set_stat_def)

lemma set_stat_yield_gen:
  "s AND 7 = s \<Longrightarrow> stat (set_stat s x) AND RT_THREAD_STAT_YIELD = stat x AND RT_THREAD_STAT_YIELD"
  using mask_replace_keep [of s 7 8 "stat x"] by (simp add: set_stat_def)

lemma stat_of_set_stat [simp]:
  "stat_of (set_stat RT_THREAD_READY x) = RT_THREAD_READY"
  "stat_of (set_stat RT_THREAD_SUSPEND x) = RT_THREAD_SUSPEND"
  "stat_of (set_stat RT_THREAD_RUNNING x) = RT_THREAD_RUNNING"
  by (rule stat_of_set_stat_gen, simp)+

lemma set_stat_yield [simp]:
  "stat (set_stat RT_THREAD_READY x) AND RT_THREAD_STAT_YIELD = stat x AND RT_THREAD_STAT_YIELD"
  "stat (set_stat RT_THREAD_SUSPEND x) AND RT_THREAD_STAT_YIELD = stat x AND RT_THREAD_STAT_YIELD"
  "stat (set_stat RT_THREAD_RUNNING x) AND RT_THREAD_STAT_YIELD = stat x AND RT_THREAD_STAT_YIELD"
  by (rule set_stat_yield_gen, simp)+

lemma set_stat_frame [simp]:
  "entry (set_stat s x) = entry x" "entry_callback (set_stat s x) = entry_callback x"
  "parameter (set_stat s x) = parameter x" "error (set_stat s x) = error x"
  "bind_cpu (set_stat s x) = bind_cpu x" "oncpu (set_stat s x) = oncpu x"
  "scheduler_lock_nest (set_stat s x) = scheduler_lock_nest x"
  "cpus_lock_nest (set_stat s x) = cpus_lock_nest x"
  "critical_lock_nest (set_stat s x) = critical_lock_nest x"
  "current_priority (set_stat s x) = current_priority x"
  "init_priority (set_stat s x) = init_priority x" "number_mask (set_stat s x) = number_mask x"
  "period (set_stat s x) = period x" "event_set (set_stat s x) = event_set x"
  "event_info (set_stat s x) = event_info x" "cleanup (set_stat s x) = cleanup x"
  by (simp_all add: set_stat_def)

lemma ins_before_absent [simp]: "y \<notin> set xs \<Longrightarrow> ins_before y n xs = xs"
  by (induction xs) auto

lemma ins_before_split [simp]:
  "y \<notin> set xs \<Longrightarrow> ins_before y n (xs @ y # ys) = xs @ n # y # ys"
  by (induction xs) auto

lemma tlists_okD:
  assumes "tlists_ok A"
  shows "distinct (A l)" "x \<in> set (A l) \<Longrightarrow> x \<in> set (A m) \<Longrightarrow> l = m"
  using assms unfolding tlists_ok_def by blast+

lemma tlists_okI:
  assumes "\<And>l. distinct (A l)"
    and "\<And>l m x. x \<in> set (A l) \<Longrightarrow> x \<in> set (A m) \<Longrightarrow> l = m"
  shows "tlists_ok A"
  using assms unfolding tlists_ok_def by blast

lemma tlists_ok_insert:
  assumes "tlists_ok A" "\<And>l. n \<notin> set (A l)" "distinct B" "set B = insert n (set (A l))"
  shows "tlists_ok (A(l := B))"
proof (rule tlists_okI)
  fix p show "distinct ((A(l := B)) p)" using assms(3) tlists_okD(1) [OF assms(1)] by simp
next
  fix p q x assume "x \<in> set ((A(l := B)) p)" "x \<in> set ((A(l := B)) q)"
  then show "p = q" using assms(2,4) tlists_okD(2) [OF assms(1)] by (auto split: if_splits)
qed

lemma tlists_ok_append: "tlists_ok A \<Longrightarrow> \<forall>l. n \<notin> set (A l) \<Longrightarrow> tlists_ok (A(l := A l @ [n]))"
  by (rule tlists_ok_insert [where n = n]) (auto dest: tlists_okD(1) [of A l])

lemma tlists_ok_cons: "tlists_ok A \<Longrightarrow> \<forall>l. n \<notin> set (A l) \<Longrightarrow> tlists_ok (A(l := n # A l))"
  by (rule tlists_ok_insert [where n = n]) (auto dest: tlists_okD(1) [of A l])

lemma tlists_ok_removeAll: "tlists_ok A \<Longrightarrow> tlists_ok (\<lambda>l. removeAll n (A l))"
  unfolding tlists_ok_def by (auto simp: distinct_removeAll)

text \<open>In a well-formed family, removing a node from every list and removing it from the list
  it is on is the same.\<close>

lemma tlists_remove_from:
  assumes "tlists_ok A" "n \<in> set (A l)"
  shows "(\<lambda>m. removeAll n (A m)) = A(l := removeAll n (A l))"
proof
  fix m
  show "removeAll n (A m) = (A(l := removeAll n (A l))) m"
    using tlists_okD(2) [OF assms(1), of n m l] assms(2)
    by (cases "m = l") (simp, metis fun_upd_apply removeAll_not_mem)
qed

lemma tlists_remove_absent: "(\<And>l. n \<notin> set (A l)) \<Longrightarrow> (\<lambda>m. removeAll n (A m)) = A"
  by (simp add: fun_eq_iff)

interpretation kl: node_store "\<lambda>(k :: kernel) A. tlists k = A \<and> tlists_ok A" UNIV UNIV
  tlist_insert_before tlist_insert_after tlist_insert_before_node tlist_remove tlist_isempty
proof unfold_locales
  fix k :: kernel and A l n assume "tlists k = A \<and> tlists_ok A" "\<forall>m\<in>UNIV. n \<notin> set (A m)"
  moreover from this have "tlists_ok (A(l := A l @ [n]))" "tlists_ok (A(l := n # A l))"
    by (simp_all add: tlists_ok_append tlists_ok_cons)
  ultimately show "tlists (tlist_insert_before l n k) = A(l := A l @ [n]) \<and> tlists_ok (A(l := A l @ [n]))"
    and "tlists (tlist_insert_after l n k) = A(l := n # A l) \<and> tlists_ok (A(l := n # A l))"
    by (simp_all add: tlist_insert_before_def tlist_insert_after_def)
next
  fix k :: kernel and A l n xs y ys
  assume *: "tlists k = A \<and> tlists_ok A" "\<forall>m\<in>UNIV. n \<notin> set (A m)" "A l = xs @ y # ys"
  then have ok: "tlists_ok A" by simp
  have d: "distinct (xs @ y # ys)" using tlists_okD(1) [OF ok, of l] *(3) by simp
  have "y \<notin> set (A m)" if "m \<noteq> l" for m using tlists_okD(2) [OF ok, of y m l] that *(3) by auto
  then have "ins_before y n (A m) = (A(l := xs @ n # y # ys)) m" for m
    using d *(3) by (cases "m = l") auto
  moreover have "tlists_ok (A(l := xs @ n # y # ys))"
    by (rule tlists_ok_insert [OF ok, of n]) (use * d in \<open>auto dest: spec [of _ l]\<close>)
  ultimately show "tlists (tlist_insert_before_node y n k) = A(l := xs @ n # y # ys) \<and>
      tlists_ok (A(l := xs @ n # y # ys))"
    using * by (simp add: tlist_insert_before_node_def fun_eq_iff)
next
  fix k :: kernel and A l n assume *: "tlists k = A \<and> tlists_ok A" "n \<in> set (A l)"
  then show "tlists (tlist_remove n k) = A(l := removeAll n (A l)) \<and> tlists_ok (A(l := removeAll n (A l)))"
    using tlists_remove_from [of A n l] tlists_ok_removeAll [of A n] by (simp add: tlist_remove_def)
next
  fix k :: kernel and A and l m :: lid assume "tlists k = A \<and> tlists_ok A" "l \<noteq> m"
  then show "set (A l) \<inter> set (A m) = {}" using tlists_okD(2) [of A _ l m] by blast
qed (simp_all add: tlists_okD(1) tlist_isempty_def)

end
