(* ===== verification/Cpu.thy ===== *)
theory Cpu
  imports KState
begin

text \<open>
  The CPU lock of \<^verbatim>\<open>src/cpu.c\<close>, which \<^verbatim>\<open>rt_hw_interrupt_disable\<close> and \<^verbatim>\<open>rt_hw_interrupt_enable\<close>
  name on SMP, and the interrupt nesting counter of \<^verbatim>\<open>src/irq.c\<close>. The spin lock itself is
  hardware; what the kernel state keeps are the nesting counters of the current thread. The
  lemma \<open>cpus_lock_unlock\<close> is why the other theories leave balanced pairs out.
\<close>

definition rt_cpus_lock :: "nat \<Rightarrow> kernel \<Rightarrow> kernel" where
  "rt_cpus_lock c k =
     (case current_thread (cpus k c) of
        None \<Rightarrow> k
      | Some t \<Rightarrow>
          (let lock_nest = cpus_lock_nest (thr k t);
               k1 = upd_thr t (\<lambda>x. x\<lparr>cpus_lock_nest := cpus_lock_nest x + 1\<rparr>) k
           in if lock_nest = 0
              then upd_thr t (\<lambda>x. x\<lparr>scheduler_lock_nest := scheduler_lock_nest x + 1\<rparr>) k1
              else k1))"

definition rt_cpus_unlock :: "nat \<Rightarrow> kernel \<Rightarrow> kernel" where
  "rt_cpus_unlock c k =
     (case current_thread (cpus k c) of
        None \<Rightarrow> k
      | Some t \<Rightarrow>
          (let k1 = upd_thr t (\<lambda>x. x\<lparr>cpus_lock_nest := cpus_lock_nest x - 1\<rparr>) k
           in if cpus_lock_nest (thr k1 t) = 0
              then upd_thr t (\<lambda>x. x\<lparr>scheduler_lock_nest := scheduler_lock_nest x - 1\<rparr>) k1
              else k1))"

definition rt_cpus_lock_status_restore :: "nat \<Rightarrow> nat \<Rightarrow> kernel \<Rightarrow> kernel" where
  "rt_cpus_lock_status_restore c t k = upd_cpu c (\<lambda>p. p\<lparr>current_thread := Some t\<rparr>) k"

definition rt_preempt_disable :: "nat \<Rightarrow> kernel \<Rightarrow> kernel" where
  "rt_preempt_disable c k =
     (case rt_thread_self c k of
        None \<Rightarrow> k
      | Some t \<Rightarrow> upd_thr t (\<lambda>x. x\<lparr>scheduler_lock_nest := scheduler_lock_nest x + 1\<rparr>) k)"

definition rt_interrupt_enter :: "nat \<Rightarrow> kernel \<Rightarrow> kernel" where
  "rt_interrupt_enter c k = upd_cpu c (\<lambda>p. p\<lparr>irq_nest := irq_nest p + 1\<rparr>) k"

definition rt_interrupt_leave :: "nat \<Rightarrow> kernel \<Rightarrow> kernel" where
  "rt_interrupt_leave c k = upd_cpu c (\<lambda>p. p\<lparr>irq_nest := irq_nest p - 1\<rparr>) k"

definition rt_interrupt_get_nest :: "nat \<Rightarrow> kernel \<Rightarrow> u8" where
  "rt_interrupt_get_nest c k = ucast (irq_nest (cpus k c))"

lemma cpus_lock_unlock:
  assumes "\<And>t. current_thread (cpus k c) = Some t \<Longrightarrow> cpus_lock_nest (thr k t) \<noteq> - 1"
  shows "rt_cpus_unlock c (rt_cpus_lock c k) = k"
proof (cases "current_thread (cpus k c)")
  case None
  then show ?thesis by (simp add: rt_cpus_lock_def rt_cpus_unlock_def)
next
  case (Some t)
  have "thr k t = thr k t\<lparr>cpus_lock_nest := cpus_lock_nest (thr k t)\<rparr>" by simp
  with Some assms show ?thesis
    by (auto simp: rt_cpus_lock_def rt_cpus_unlock_def Let_def intro!: kernel.equality)
qed

text \<open>The pair of calls that brackets a kernel section restores the kernel state, at every
  nesting depth below the counter's maximum: the lock leaves no trace, whether it was held
  before or not.\<close>

theorem cpus_lock_balanced:
  assumes "rt_thread_self c k = Some t" "unat (cpus_lock_nest (thr k t)) < 65535"
  shows "rt_cpus_unlock c (rt_cpus_lock c k) = k \<and>
    scheduler_lock_nest (thr (rt_cpus_lock c k) t) =
      scheduler_lock_nest (thr k t) + (if cpus_lock_nest (thr k t) = 0 then 1 else 0)"
proof
  have "cpus_lock_nest (thr k t) \<noteq> - 1" using assms(2) by auto
  then show "rt_cpus_unlock c (rt_cpus_lock c k) = k"
    by (intro cpus_lock_unlock) (use assms(1) in \<open>simp add: rt_thread_self_def\<close>)
  show "scheduler_lock_nest (thr (rt_cpus_lock c k) t) =
      scheduler_lock_nest (thr k t) + (if cpus_lock_nest (thr k t) = 0 then 1 else 0)"
    using assms(1) by (simp add: rt_cpus_lock_def rt_thread_self_def Let_def)
qed

theorem cpus_lock_balanced_witness:
  "rt_cpus_unlock 0 (rt_cpus_lock 0 (upd_cpu 0 (\<lambda>p. p\<lparr>current_thread := Some 7\<rparr>) zero_kernel)) =
     upd_cpu 0 (\<lambda>p. p\<lparr>current_thread := Some 7\<rparr>) zero_kernel"
  by (rule conjunct1, rule cpus_lock_balanced [of _ _ 7])
    (simp_all add: zero_defs rt_thread_self_def)

end
