(* ===== verification/KObject.thy ===== *)
theory KObject
  imports Cpu
begin

text \<open>
  Kernel objects (\<^verbatim>\<open>src/object.c\<close>): the header every kernel structure starts with, and the
  container lists, one per class. Memory comes from \<^verbatim>\<open>RT_KERNEL_MALLOC\<close>; the address it returns
  (\<open>None\<close> for \<^verbatim>\<open>RT_NULL\<close>) is an argument of the operations that allocate, because the allocator
  may block and is shared with every other thread. Names are sequences of at most
  \<^verbatim>\<open>RT_NAME_MAX\<close> characters without the terminating zero.
\<close>

section \<open>Operations\<close>

definition rt_object_classes :: "u8 list" where
  "rt_object_classes =
     [RT_Object_Class_Thread, RT_Object_Class_Semaphore, RT_Object_Class_Mutex,
      RT_Object_Class_Event, RT_Object_Class_MailBox, RT_Object_Class_MessageQueue,
      RT_Object_Class_MemHeap, RT_Object_Class_MemPool, RT_Object_Class_Device,
      RT_Object_Class_Timer]"

text \<open>The container of a class is named by the class itself.\<close>

definition rt_object_get_information :: "u8 \<Rightarrow> u8 option" where
  "rt_object_get_information type = List.find (\<lambda>c. c = type) rt_object_classes"

definition rt_object_init :: "oid \<Rightarrow> u8 \<Rightarrow> string \<Rightarrow> kernel \<Rightarrow> kernel option" where
  "rt_object_init x type name k = do {
     information \<leftarrow> rt_object_get_information type;
     rt_assert (\<forall>y \<in> set (containers k information). y \<noteq> x);
     let k1 = upd_obj x (\<lambda>ob. ob\<lparr>o_type := type OR RT_Object_Class_Static,
                                  o_name := take RT_NAME_MAX name\<rparr>) k;
     Some (k1\<lparr>containers := (containers k1)(information := x # containers k1 information)\<rparr>) }"

definition container_remove :: "oid \<Rightarrow> kernel \<Rightarrow> kernel" where
  "container_remove x k = k\<lparr>containers := (\<lambda>c. removeAll x (containers k c))\<rparr>"

definition rt_object_detach :: "oid \<Rightarrow> kernel \<Rightarrow> kernel" where
  "rt_object_detach x k = container_remove x (upd_obj x (\<lambda>ob. ob\<lparr>o_type := 0\<rparr>) k)"

text \<open>\<^verbatim>\<open>rt_memset(object, 0, information->object_size)\<close>: the structure at the address.\<close>

definition memset_object :: "u8 \<Rightarrow> nat \<Rightarrow> kernel \<Rightarrow> kernel" where
  "memset_object type a k =
     (let k0 = upd_obj (Obj a) (\<lambda>_. zero_object) k in
      if type = RT_Object_Class_Thread then
        k0\<lparr>thr := (thr k0)(a := zero_thread),
           obj := (obj k0)(ThreadTimer a := zero_object, PeriodTimer a := zero_object),
           tmr := (tmr k0)(ThreadTimer a := zero_timer, PeriodTimer a := zero_timer)\<rparr>
      else if type = RT_Object_Class_Semaphore then k0\<lparr>sems := (sems k0)(a := \<lparr>sem_value = 0\<rparr>)\<rparr>
      else if type = RT_Object_Class_Mutex then
        k0\<lparr>mutexes := (mutexes k0)
             (a := \<lparr>mutex_value = 0, original_priority = 0, hold = 0, owner = None\<rparr>)\<rparr>
      else if type = RT_Object_Class_Event then k0\<lparr>events := (events k0)(a := \<lparr>ev_set = 0\<rparr>)\<rparr>
      else if type = RT_Object_Class_MailBox then
        k0\<lparr>mbs := (mbs k0)
             (a := \<lparr>msg_pool = [], mb_size = 0, mb_entry = 0, in_offset = 0, out_offset = 0\<rparr>)\<rparr>
      else if type = RT_Object_Class_MessageQueue then k0\<lparr>mqs := (mqs k0)(a := zero_mq)\<rparr>
      else if type = RT_Object_Class_Timer then k0\<lparr>tmr := (tmr k0)(Obj a := zero_timer)\<rparr>
      else k0)"

definition rt_object_allocate ::
    "nat \<Rightarrow> u8 \<Rightarrow> string \<Rightarrow> nat option \<Rightarrow> kernel \<Rightarrow> (nat option \<times> kernel) option" where
  "rt_object_allocate c type name malloc k = do {
     rt_assert (not_in_interrupt c k);
     information \<leftarrow> rt_object_get_information type;
     (case malloc of
        None \<Rightarrow> Some (None, k)
      | Some a \<Rightarrow>
          (let k1 = upd_obj (Obj a) (\<lambda>ob. ob\<lparr>o_type := type, o_flag := 0,
                                             o_name := take RT_NAME_MAX name\<rparr>)
                      (memset_object type a k)
           in Some (Some a, k1\<lparr>containers := (containers k1)
                                  (information := Obj a # containers k1 information)\<rparr>))) }"

definition rt_object_is_systemobject :: "oid \<Rightarrow> kernel \<Rightarrow> bool" where
  "rt_object_is_systemobject x k \<longleftrightarrow> o_type (obj k x) AND RT_Object_Class_Static \<noteq> 0"

definition rt_object_delete :: "oid \<Rightarrow> kernel \<Rightarrow> kernel option" where
  "rt_object_delete x k = do {
     rt_assert (\<not> (o_type (obj k x) AND RT_Object_Class_Static \<noteq> 0));
     Some (container_remove x (upd_obj x (\<lambda>ob. ob\<lparr>o_type := 0\<rparr>) k)) }"

definition rt_object_get_type :: "oid \<Rightarrow> kernel \<Rightarrow> u8" where
  "rt_object_get_type x k = o_type (obj k x) AND NOT RT_Object_Class_Static"

definition rt_object_find :: "nat \<Rightarrow> string option \<Rightarrow> u8 \<Rightarrow> kernel \<Rightarrow> oid option option" where
  "rt_object_find c name type k =
     (case name of
        None \<Rightarrow> Some None
      | Some s \<Rightarrow>
          (if type > RT_Object_Class_Unknown then Some None
           else do {
             rt_assert (not_in_interrupt c k);
             information \<leftarrow> rt_object_get_information type;
             Some (List.find (\<lambda>x. take RT_NAME_MAX (o_name (obj k x)) = take RT_NAME_MAX s)
                     (containers k information)) }))"

section \<open>Lemmas\<close>

text \<open>Containers hold each object once, and an object of a container has the class of the
  container in its header.\<close>

definition containers_ok :: "kernel \<Rightarrow> bool" where
  "containers_ok k \<longleftrightarrow>
     (\<forall>c. distinct (containers k c)) \<and>
     (\<forall>c. \<forall>x \<in> set (containers k c). rt_object_get_type x k = c)"

lemma rt_object_get_information_eq:
  "rt_object_get_information type = (if type \<in> set rt_object_classes then Some type else None)"
  by (simp add: rt_object_get_information_def find_eq_mem)

lemma type_static_class [simp]:
  "type \<in> set rt_object_classes \<Longrightarrow>
     (type OR RT_Object_Class_Static) AND - 129 = type"
  "type \<in> set rt_object_classes \<Longrightarrow> type AND - 129 = type"
  "type \<in> set rt_object_classes \<Longrightarrow> type AND RT_Object_Class_Static = 0"
  by (auto simp: rt_object_classes_def)

lemma obj_memset_object [simp]:
  "obj (memset_object type a k) (Obj x) = (if x = a then zero_object else obj k (Obj x))"
  "containers (memset_object type a k) = containers k"
  by (auto simp: memset_object_def Let_def)

lemma rt_object_allocate_Some:
  assumes "not_in_interrupt c k" "type \<in> set rt_object_classes"
  shows "rt_object_allocate c type name (Some a) k =
    Some (Some a, (memset_object type a k)
      \<lparr>obj := (obj (memset_object type a k))
         (Obj a := \<lparr>o_name = take RT_NAME_MAX name, o_type = type, o_flag = 0\<rparr>),
       containers := (containers k)(type := Obj a # containers k type)\<rparr>)"
  using assms
  by (simp add: rt_object_allocate_def rt_object_get_information_eq Let_def zero_object_def)

lemma rt_object_allocate_None:
  "not_in_interrupt c k \<Longrightarrow> type \<in> set rt_object_classes \<Longrightarrow>
     rt_object_allocate c type name None k = Some (None, k)"
  by (simp add: rt_object_allocate_def rt_object_get_information_eq)

section \<open>Properties\<close>

text \<open>Allocating an object at a fresh address, in thread context, cannot fail an assertion:
  the object is then found under its (truncated) name in its class, has that class and is not a
  static object; deleting it takes it out again, so that the containers are what they were, and
  no other object's header has changed.\<close>

theorem object_allocate_find_delete:
  assumes "not_in_interrupt c k" "type \<in> set rt_object_classes"
    and "\<forall>cl. Obj a \<notin> set (containers k cl)"
  obtains k1 k2 where "rt_object_allocate c type name (Some a) k = Some (Some a, k1)"
    and "rt_object_find c (Some name) type k1 = Some (Some (Obj a))"
    and "rt_object_get_type (Obj a) k1 = type" "\<not> rt_object_is_systemobject (Obj a) k1"
    and "rt_object_delete (Obj a) k1 = Some k2"
    and "containers k2 = containers k" "\<forall>b. b \<noteq> a \<longrightarrow> obj k2 (Obj b) = obj k (Obj b)"
proof -
  let ?m = "memset_object type a k"
  let ?k1 = "?m\<lparr>obj := (obj ?m)(Obj a := \<lparr>o_name = take RT_NAME_MAX name, o_type = type, o_flag = 0\<rparr>),
       containers := (containers k)(type := Obj a # containers k type)\<rparr>"
  have nest: "not_in_interrupt c ?k1"
    using assms(1) by (simp add: not_in_interrupt_def memset_object_def Let_def)
  have rem: "(\<lambda>cl. removeAll (Obj a) (((containers k)(type := Obj a # containers k type)) cl)) = containers k"
    using assms(3) by (auto simp: fun_eq_iff)
  have le: "type \<le> RT_Object_Class_Unknown" using assms(2) by (auto simp: rt_object_classes_def)
  show ?thesis
  proof
    show "rt_object_allocate c type name (Some a) k = Some (Some a, ?k1)"
      using assms(1,2) by (rule rt_object_allocate_Some)
    show "rt_object_find c (Some name) type ?k1 = Some (Some (Obj a))"
      using nest le assms(2)
      by (simp add: rt_object_find_def rt_object_get_information_eq not_less)
    show "rt_object_get_type (Obj a) ?k1 = type" "\<not> rt_object_is_systemobject (Obj a) ?k1"
      using assms(2) by (simp_all add: rt_object_get_type_def rt_object_is_systemobject_def)
    let ?k2 = "container_remove (Obj a) (upd_obj (Obj a) (\<lambda>ob. ob\<lparr>o_type := 0\<rparr>) ?k1)"
    show "rt_object_delete (Obj a) ?k1 = Some ?k2"
      using assms(2) by (simp add: rt_object_delete_def)
    show "containers ?k2 = containers k" using rem by (simp add: container_remove_def)
    show "\<forall>b. b \<noteq> a \<longrightarrow> obj ?k2 (Obj b) = obj k (Obj b)" by (simp add: container_remove_def)
  qed
qed

theorem object_allocate_find_delete_witness:
  "\<exists>k1. rt_object_allocate 0 RT_Object_Class_MailBox ''irq_out'' (Some 64) zero_kernel = Some (Some 64, k1)
    \<and> rt_object_find 0 (Some ''irq_out'') RT_Object_Class_MailBox k1 = Some (Some (Obj 64))"
  by (rule object_allocate_find_delete [of 0 zero_kernel RT_Object_Class_MailBox 64 "''irq_out''"])
     (auto simp: zero_defs not_in_interrupt_def rt_object_classes_def)

end
