(* ===== verification/TimerCore.thy ===== *)
theory TimerCore
  imports KObject
begin

text \<open>
  Timers (\<^verbatim>\<open>src/timer.c\<close>), up to what needs the scheduler: creation, start, stop, control, and the
  order of the timer lists. With \<^verbatim>\<open>RT_TIMER_SKIP_LIST_LEVEL\<close> at its default 1 a timer has one row
  and each timer list is a single list; the loop over the rows runs once. Ticks are 32-bit words and
  the comparisons of the source are the wrapping subtractions it writes.
\<close>

abbreviation (input) HALF_TICK_MAX :: u32 where "HALF_TICK_MAX \<equiv> 0x7fffffff"

section \<open>Operations\<close>

definition rt_tick_get :: "kernel \<Rightarrow> u32" where
  "rt_tick_get k = tick (cpus k 0)"

definition rt_timer_init_fields ::
    "oid \<Rightarrow> timeout_fn \<Rightarrow> nat \<Rightarrow> u32 \<Rightarrow> u8 \<Rightarrow> kernel \<Rightarrow> kernel" where
  "rt_timer_init_fields x timeout param time flag k =
     (let k1 = upd_obj x (\<lambda>ob. ob\<lparr>o_flag := flag AND NOT RT_TIMER_FLAG_ACTIVATED\<rparr>) k
      in upd_tmr x (\<lambda>_. \<lparr>timeout_func = timeout, tm_parameter = param, tm_init_tick = time,
                         timeout_tick = 0\<rparr>) k1)"

definition rt_timer_init ::
    "oid \<Rightarrow> string \<Rightarrow> timeout_fn \<Rightarrow> nat \<Rightarrow> u32 \<Rightarrow> u8 \<Rightarrow> kernel \<Rightarrow> kernel option" where
  "rt_timer_init x name timeout param time flag k = do {
     k1 \<leftarrow> rt_object_init x RT_Object_Class_Timer name k;
     Some (rt_timer_init_fields x timeout param time flag k1) }"

definition rt_timer_list_next_timeout :: "oid list \<Rightarrow> kernel \<Rightarrow> u32" where
  "rt_timer_list_next_timeout ts k =
     (case ts of [] \<Rightarrow> RT_TICK_MAX | t # _ \<Rightarrow> timeout_tick (tmr k t))"

definition rt_timer_next_timeout_tick :: "kernel \<Rightarrow> u32" where
  "rt_timer_next_timeout_tick k = rt_timer_list_next_timeout (timer_list k) k"

definition rt_timer_remove :: "oid \<Rightarrow> kernel \<Rightarrow> kernel" where
  "rt_timer_remove x k =
     k\<lparr>timer_list := removeAll x (timer_list k), soft_timer_list := removeAll x (soft_timer_list k)\<rparr>"

definition is_timer :: "oid \<Rightarrow> kernel \<Rightarrow> bool" where
  "is_timer x k \<longleftrightarrow> rt_object_get_type x k = RT_Object_Class_Timer"

definition rt_timer_detach :: "oid \<Rightarrow> kernel \<Rightarrow> kernel option" where
  "rt_timer_detach x k = do {
     rt_assert (is_timer x k);
     rt_assert (rt_object_is_systemobject x k);
     Some (rt_object_detach x (rt_timer_remove x k)) }"

definition rt_timer_create ::
    "nat \<Rightarrow> string \<Rightarrow> timeout_fn \<Rightarrow> nat \<Rightarrow> u32 \<Rightarrow> u8 \<Rightarrow> nat option \<Rightarrow> kernel \<Rightarrow>
     (nat option \<times> kernel) option" where
  "rt_timer_create c name timeout param time flag malloc k = do {
     (a, k1) \<leftarrow> rt_object_allocate c RT_Object_Class_Timer name malloc k;
     (case a of
        None \<Rightarrow> Some (None, k1)
      | Some t \<Rightarrow> Some (Some t, rt_timer_init_fields (Obj t) timeout param time flag k1)) }"

definition rt_timer_delete :: "oid \<Rightarrow> kernel \<Rightarrow> kernel option" where
  "rt_timer_delete x k = do {
     rt_assert (is_timer x k);
     rt_assert (\<not> rt_object_is_systemobject x k);
     rt_object_delete x (rt_timer_remove x k) }"

text \<open>The search of \<^verbatim>\<open>rt_timer_start\<close> for the place of a timer: walk while the timers are due
  no later, stop in front of the first that is due later.\<close>

fun timer_insert :: "(oid \<Rightarrow> u32) \<Rightarrow> oid \<Rightarrow> oid list \<Rightarrow> oid list" where
  "timer_insert due n [] = [n]"
| "timer_insert due n (t # ts) =
     (if due t - due n = 0 then t # timer_insert due n ts
      else if due t - due n < HALF_TICK_MAX then n # t # ts
      else t # timer_insert due n ts)"

text \<open>\<^verbatim>\<open>rt_timer_start\<close> up to the wake-up of the timer thread, which is in theory \<open>Thread\<close>.\<close>

definition rt_timer_start_core :: "oid \<Rightarrow> kernel \<Rightarrow> kernel option" where
  "rt_timer_start_core x k = do {
     rt_assert (is_timer x k);
     let k1 = upd_obj x (\<lambda>ob. ob\<lparr>o_flag := o_flag ob AND NOT RT_TIMER_FLAG_ACTIVATED\<rparr>)
                (rt_timer_remove x k);
     rt_assert (tm_init_tick (tmr k1 x) < HALF_TICK_MAX);
     let k2 = upd_tmr x (\<lambda>t. t\<lparr>timeout_tick := rt_tick_get k1 + tm_init_tick t\<rparr>) k1;
     let due = (\<lambda>t. timeout_tick (tmr k2 t));
     let k3 = (if o_flag (obj k2 x) AND RT_TIMER_FLAG_SOFT_TIMER \<noteq> 0
               then k2\<lparr>soft_timer_list := timer_insert due x (soft_timer_list k2)\<rparr>
               else k2\<lparr>timer_list := timer_insert due x (timer_list k2)\<rparr>);
     let k4 = k3\<lparr>random_nr := random_nr k3 + 1\<rparr>;
     Some (upd_obj x (\<lambda>ob. ob\<lparr>o_flag := o_flag ob OR RT_TIMER_FLAG_ACTIVATED\<rparr>) k4) }"

definition rt_timer_stop :: "oid \<Rightarrow> kernel \<Rightarrow> (rt_err_t \<times> kernel) option" where
  "rt_timer_stop x k = do {
     rt_assert (is_timer x k);
     if o_flag (obj k x) AND RT_TIMER_FLAG_ACTIVATED = 0 then Some (- RT_ERROR, k)
     else Some (RT_EOK, upd_obj x (\<lambda>ob. ob\<lparr>o_flag := o_flag ob AND NOT RT_TIMER_FLAG_ACTIVATED\<rparr>)
                          (rt_timer_remove x k)) }"

text \<open>\<^verbatim>\<open>rt_timer_control\<close>: the commands with what their argument points to, and what it points to
  after the call.\<close>

datatype timer_cmd = Ctrl_set_time | Ctrl_get_time | Ctrl_set_oneshot | Ctrl_set_periodic | Ctrl_other

definition rt_timer_control ::
    "oid \<Rightarrow> timer_cmd \<Rightarrow> u32 \<Rightarrow> kernel \<Rightarrow> (rt_err_t \<times> u32 \<times> kernel) option" where
  "rt_timer_control x cmd arg k = do {
     rt_assert (is_timer x k);
     Some (RT_EOK,
       (case cmd of
          Ctrl_get_time \<Rightarrow> (tm_init_tick (tmr k x), k)
        | Ctrl_set_time \<Rightarrow> (arg, upd_tmr x (\<lambda>t. t\<lparr>tm_init_tick := arg\<rparr>) k)
        | Ctrl_set_oneshot \<Rightarrow>
            (arg, upd_obj x (\<lambda>ob. ob\<lparr>o_flag := o_flag ob AND NOT RT_TIMER_FLAG_PERIODIC\<rparr>) k)
        | Ctrl_set_periodic \<Rightarrow>
            (arg, upd_obj x (\<lambda>ob. ob\<lparr>o_flag := o_flag ob OR RT_TIMER_FLAG_PERIODIC\<rparr>) k)
        | Ctrl_other \<Rightarrow> (arg, k))) }"

section \<open>The order of a timer list\<close>

text \<open>
  Ticks wrap, so due times are compared relative to a base: \<open>offset b d\<close> is how far the due
  time \<open>d\<close> lies after the base \<open>b\<close>. A list is in order over a base when its timers are due
  within half the tick range and in ascending order of their offsets.
\<close>

definition offset :: "u32 \<Rightarrow> u32 \<Rightarrow> nat" where
  "offset b d = unat (d - b)"

definition timers_in_order :: "u32 \<Rightarrow> (oid \<Rightarrow> u32) \<Rightarrow> oid list \<Rightarrow> bool" where
  "timers_in_order b due ts \<longleftrightarrow>
     (\<forall>t \<in> set ts. offset b (due t) < 0x7fffffff) \<and> sorted (map (\<lambda>t. offset b (due t)) ts)"

lemma unat_diff_offset:
  "unat (d - n) = (if offset b n \<le> offset b d then offset b d - offset b n
                   else 4294967296 + offset b d - offset b n)"
proof -
  have "unat (d - n) = unat ((d - b) - (n - b))" by simp
  also have "\<dots> = (if offset b n \<le> offset b d then offset b d - offset b n
                   else 4294967296 + offset b d - offset b n)"
    unfolding offset_def by (rule unat_sub_u32)
  finally show ?thesis .
qed

lemma due_later_iff:
  assumes "offset b d < 0x7fffffff" "offset b n < 0x7fffffff"
  shows "d - n = 0 \<longleftrightarrow> offset b d = offset b n"
    and "d - n \<noteq> 0 \<and> d - n < HALF_TICK_MAX \<longleftrightarrow> offset b n < offset b d"
proof -
  show eq: "d - n = 0 \<longleftrightarrow> offset b d = offset b n" by (auto simp: offset_def word_unat_eq_iff [symmetric])
  show "d - n \<noteq> 0 \<and> d - n < HALF_TICK_MAX \<longleftrightarrow> offset b n < offset b d"
  proof (cases "offset b n \<le> offset b d")
    case True
    with unat_diff_offset [of d n b] have "d - n < HALF_TICK_MAX"
      using assms by (simp add: word_less_nat_alt)
    with True eq show ?thesis by auto
  next
    case False
    with unat_diff_offset [of d n b] assms have "\<not> d - n < HALF_TICK_MAX"
      by (simp add: word_less_nat_alt)
    with False show ?thesis by auto
  qed
qed

lemma timer_insert_split:
  assumes "timers_in_order b due ts" "offset b (due n) < 0x7fffffff"
  obtains ys zs where "ts = ys @ zs" "timer_insert due n ts = ys @ n # zs"
    and "\<forall>y \<in> set ys. offset b (due y) \<le> offset b (due n)"
    and "\<forall>z \<in> set zs. offset b (due n) < offset b (due z)"
  using assms
proof (induction ts arbitrary: thesis)
  case Nil
  then show ?case by fastforce
next
  case (Cons t ts)
  have later: "due t - due n \<noteq> 0 \<and> due t - due n < HALF_TICK_MAX \<longleftrightarrow>
      offset b (due n) < offset b (due t)"
    by (rule due_later_iff(2)) (use Cons.prems in \<open>auto simp: timers_in_order_def\<close>)
  show ?case
  proof (cases "offset b (due n) < offset b (due t)")
    case True
    with later Cons.prems show ?thesis
      by (intro Cons.prems(1) [of "[]" "t # ts"]) (fastforce simp: timers_in_order_def)+
  next
    case False
    then have step: "timer_insert due n (t # ts) = t # timer_insert due n ts" using later by auto
    from Cons.prems(2) have "timers_in_order b due ts" by (simp add: timers_in_order_def)
    then obtain ys zs where "ts = ys @ zs" "timer_insert due n ts = ys @ n # zs"
      "\<forall>y \<in> set ys. offset b (due y) \<le> offset b (due n)"
      "\<forall>z \<in> set zs. offset b (due n) < offset b (due z)"
      using Cons.IH Cons.prems(3) by blast
    with step False show ?thesis by (intro Cons.prems(1) [of "t # ys" zs]) auto
  qed
qed

lemma timer_insert_in_order:
  assumes "timers_in_order b due ts" "offset b (due n) < 0x7fffffff"
  shows "timers_in_order b due (timer_insert due n ts)"
proof -
  obtain ys zs where *: "ts = ys @ zs" "timer_insert due n ts = ys @ n # zs"
    "\<forall>y \<in> set ys. offset b (due y) \<le> offset b (due n)"
    "\<forall>z \<in> set zs. offset b (due n) < offset b (due z)"
    using timer_insert_split [OF assms] .
  from * assms show ?thesis by (fastforce simp: timers_in_order_def sorted_append)
qed

lemma set_timer_insert [simp]: "set (timer_insert due n ts) = insert n (set ts)"
  by (induction ts) auto

lemma timers_in_order_cong:
  "(\<And>t. t \<in> set ts \<Longrightarrow> f t = g t) \<Longrightarrow> timers_in_order b f ts = timers_in_order b g ts"
  by (auto simp: timers_in_order_def cong: map_cong)

lemma sorted_map_removeAll: "sorted (map f ts) \<Longrightarrow> sorted (map f (removeAll x ts))"
  by (induction ts) auto

lemma timers_in_order_removeAll:
  "timers_in_order b due ts \<Longrightarrow> timers_in_order b due (removeAll x ts)"
  by (auto simp: timers_in_order_def sorted_map_removeAll)

end
