(* ===== verification/Sched.thy ===== *)
theory Sched
  imports TimerCore
begin

text \<open>
  The scheduler (\<^verbatim>\<open>src/scheduler.c\<close>, the \<^verbatim>\<open>RT_USING_SMP\<close> branches with 32 priorities), the bit scan it
  uses (\<^verbatim>\<open>__rt_ffs\<close> of \<^verbatim>\<open>src/kservice.c\<close>), and the two operations of \<^verbatim>\<open>src/thread.c\<close> that move a thread
  in and out of the ready queues. An argument \<open>c\<close> is the CPU that executes the call
  (\<^verbatim>\<open>rt_hw_cpu_id()\<close>). An inter-processor interrupt is recorded as pending in \<open>ipi\<close>.

  \<^verbatim>\<open>rt_schedule\<close> ends where control passes to the next thread: the context switch makes it the
  current thread of the CPU. What follows in the source (the signal check of the thread that is
  switched back in) is in theory \<open>Signal\<close>. The check of stack bounds
  needs stack contents and is not modelled either.
\<close>

section \<open>Finding the lowest set bit\<close>

definition lowest_bit_bitmap :: "nat list" where
  "lowest_bit_bitmap =
    [0, 0, 1, 0, 2, 0, 1, 0, 3, 0, 1, 0, 2, 0, 1, 0,
     4, 0, 1, 0, 2, 0, 1, 0, 3, 0, 1, 0, 2, 0, 1, 0,
     5, 0, 1, 0, 2, 0, 1, 0, 3, 0, 1, 0, 2, 0, 1, 0,
     4, 0, 1, 0, 2, 0, 1, 0, 3, 0, 1, 0, 2, 0, 1, 0,
     6, 0, 1, 0, 2, 0, 1, 0, 3, 0, 1, 0, 2, 0, 1, 0,
     4, 0, 1, 0, 2, 0, 1, 0, 3, 0, 1, 0, 2, 0, 1, 0,
     5, 0, 1, 0, 2, 0, 1, 0, 3, 0, 1, 0, 2, 0, 1, 0,
     4, 0, 1, 0, 2, 0, 1, 0, 3, 0, 1, 0, 2, 0, 1, 0,
     7, 0, 1, 0, 2, 0, 1, 0, 3, 0, 1, 0, 2, 0, 1, 0,
     4, 0, 1, 0, 2, 0, 1, 0, 3, 0, 1, 0, 2, 0, 1, 0,
     5, 0, 1, 0, 2, 0, 1, 0, 3, 0, 1, 0, 2, 0, 1, 0,
     4, 0, 1, 0, 2, 0, 1, 0, 3, 0, 1, 0, 2, 0, 1, 0,
     6, 0, 1, 0, 2, 0, 1, 0, 3, 0, 1, 0, 2, 0, 1, 0,
     4, 0, 1, 0, 2, 0, 1, 0, 3, 0, 1, 0, 2, 0, 1, 0,
     5, 0, 1, 0, 2, 0, 1, 0, 3, 0, 1, 0, 2, 0, 1, 0,
     4, 0, 1, 0, 2, 0, 1, 0, 3, 0, 1, 0, 2, 0, 1, 0]"

definition rt_ffs :: "u32 \<Rightarrow> nat" where
  "rt_ffs val =
     (if val = 0 then 0
      else if val AND 0xff \<noteq> 0 then lowest_bit_bitmap ! unat (val AND 0xff) + 1
      else if val AND 0xff00 \<noteq> 0
        then lowest_bit_bitmap ! unat (drop_bit 8 (val AND 0xff00)) + 9
      else if val AND 0xff0000 \<noteq> 0
        then lowest_bit_bitmap ! unat (drop_bit 16 (val AND 0xff0000)) + 17
      else lowest_bit_bitmap ! unat (drop_bit 24 (val AND 0xff000000)) + 25)"

section \<open>Operations\<close>

definition rt_hw_ipi_send :: "u32 \<Rightarrow> kernel \<Rightarrow> kernel" where
  "rt_hw_ipi_send cpu_mask k = k\<lparr>ipi := (\<lambda>c. ipi k c \<or> bit cpu_mask c)\<rparr>"

text \<open>The list entry of an empty list is no thread, so the result is an option.\<close>

definition get_highest_priority_thread :: "nat \<Rightarrow> kernel \<Rightarrow> (nat \<times> u32) option" where
  "get_highest_priority_thread c k =
     (let highest_ready_priority = of_nat (rt_ffs (ready_priority_group k)) - 1;
          local_highest_ready_priority = of_nat (rt_ffs (priority_group (cpus k c))) - 1
      in if highest_ready_priority < local_highest_ready_priority
         then (case tlists k (Ready (unat highest_ready_priority)) of
                 [] \<Rightarrow> None | t # _ \<Rightarrow> Some (t, highest_ready_priority))
         else (case tlists k (CpuReady c (unat local_highest_ready_priority)) of
                 [] \<Rightarrow> None | t # _ \<Rightarrow> Some (t, local_highest_ready_priority)))"

definition rt_schedule_insert_thread :: "nat \<Rightarrow> nat \<Rightarrow> kernel \<Rightarrow> kernel" where
  "rt_schedule_insert_thread c t k =
     (if oncpu (thr k t) \<noteq> RT_CPU_DETACHED then upd_thr t (set_stat RT_THREAD_RUNNING) k
      else
        (let k1 = upd_thr t (set_stat RT_THREAD_READY) k;
             x = thr k1 t
         in if bind_cpu x = RT_CPUS_NR then
              rt_hw_ipi_send (RT_CPU_MASK XOR push_bit c 1)
                (tlist_insert_before (Ready (unat (current_priority x))) t
                  (k1\<lparr>ready_priority_group := ready_priority_group k1 OR number_mask x\<rparr>))
            else
              (let b = unat (bind_cpu x);
                   k2 = tlist_insert_before (CpuReady b (unat (current_priority x))) t
                          (upd_cpu b (\<lambda>p. p\<lparr>priority_group := priority_group p OR number_mask x\<rparr>) k1)
               in if c \<noteq> b then rt_hw_ipi_send (push_bit b 1) k2 else k2)))"

definition rt_schedule_remove_thread :: "nat \<Rightarrow> kernel \<Rightarrow> kernel" where
  "rt_schedule_remove_thread t k =
     (let k1 = tlist_remove t k;
          x = thr k1 t;
          p = unat (current_priority x)
      in if bind_cpu x = RT_CPUS_NR then
           (if tlist_isempty (Ready p) k1
            then k1\<lparr>ready_priority_group := ready_priority_group k1 AND NOT (number_mask x)\<rparr> else k1)
         else
           (let b = unat (bind_cpu x)
            in if tlist_isempty (CpuReady b p) k1
               then upd_cpu b (\<lambda>q. q\<lparr>priority_group := priority_group q AND NOT (number_mask x)\<rparr>) k1
               else k1))"

definition is_thread :: "nat \<Rightarrow> kernel \<Rightarrow> bool" where
  "is_thread t k \<longleftrightarrow> rt_object_get_type (Obj t) k = RT_Object_Class_Thread"

definition rt_thread_suspend :: "nat \<Rightarrow> nat \<Rightarrow> kernel \<Rightarrow> (rt_err_t \<times> kernel) option" where
  "rt_thread_suspend c t k = do {
     rt_assert (is_thread t k);
     let st = stat_of (thr k t);
     if st \<noteq> RT_THREAD_READY \<and> st \<noteq> RT_THREAD_RUNNING then Some (- RT_ERROR, k)
     else do {
       rt_assert (st = RT_THREAD_RUNNING \<longrightarrow> rt_thread_self c k = Some t);
       let k1 = upd_thr t (set_stat RT_THREAD_SUSPEND) (rt_schedule_remove_thread t k);
       (_, k2) \<leftarrow> rt_timer_stop (ThreadTimer t) k1;
       Some (RT_EOK, k2) } }"

definition rt_thread_resume :: "nat \<Rightarrow> nat \<Rightarrow> kernel \<Rightarrow> (rt_err_t \<times> kernel) option" where
  "rt_thread_resume c t k = do {
     rt_assert (is_thread t k);
     if stat_of (thr k t) \<noteq> RT_THREAD_SUSPEND then Some (- RT_ERROR, k)
     else do {
       (_, k1) \<leftarrow> rt_timer_stop (ThreadTimer t) (tlist_remove t k);
       Some (RT_EOK, rt_schedule_insert_thread c t k1) } }"

text \<open>A suspended thread with a pending signal is made runnable before the choice.\<close>

definition signal_wakeup :: "nat \<Rightarrow> nat \<Rightarrow> kernel \<Rightarrow> kernel option" where
  "signal_wakeup c cur k =
     (if stat_of (thr k cur) = RT_THREAD_SUSPEND \<and>
         (stat (thr k cur) AND RT_THREAD_STAT_SIGNAL_MASK) AND RT_THREAD_STAT_SIGNAL_PENDING \<noteq> 0
      then map_option snd (rt_thread_resume c cur k)
      else Some k)"

text \<open>The choice and the switch, common to \<^verbatim>\<open>rt_schedule\<close> and \<^verbatim>\<open>rt_scheduler_do_irq_switch\<close>.\<close>

definition schedule_switch :: "nat \<Rightarrow> nat \<Rightarrow> kernel \<Rightarrow> kernel option" where
  "schedule_switch c cur k =
     (if ready_priority_group k \<noteq> 0 \<or> priority_group (cpus k c) \<noteq> 0 then do {
        (to, prio) \<leftarrow> get_highest_priority_thread c k;
        let k2 = upd_thr cur (\<lambda>x. x\<lparr>oncpu := RT_CPU_DETACHED\<rparr>) k;
        let (to_thread, k3) =
          (if stat_of (thr k2 cur) = RT_THREAD_RUNNING then
             (if ucast (current_priority (thr k2 cur)) < prio then (cur, k2)
              else if ucast (current_priority (thr k2 cur)) = prio \<and>
                      stat (thr k2 cur) AND RT_THREAD_STAT_YIELD = 0 then (cur, k2)
              else (to, rt_schedule_insert_thread c cur
                          (upd_thr cur (\<lambda>x. x\<lparr>stat := stat x AND NOT RT_THREAD_STAT_YIELD\<rparr>) k2)))
           else (to, k2));
        let k4 = upd_thr to_thread (\<lambda>x. x\<lparr>oncpu := of_nat c\<rparr>) k3;
        Some (if to_thread \<noteq> cur then
                rt_cpus_lock_status_restore c to_thread
                  (upd_thr to_thread (set_stat RT_THREAD_RUNNING)
                    (rt_schedule_remove_thread to_thread
                      (upd_cpu c (\<lambda>p. p\<lparr>cpu_current_priority := ucast prio\<rparr>) k4)))
              else k4) }
      else Some k)"

text \<open>The scheduler lock is 1 inside \<^verbatim>\<open>rt_schedule\<close>'s own critical section exactly when it is
  0 outside.\<close>

definition rt_schedule :: "nat \<Rightarrow> kernel \<Rightarrow> kernel option" where
  "rt_schedule c k =
     (if irq_nest (cpus k c) \<noteq> 0 then Some (upd_cpu c (\<lambda>p. p\<lparr>irq_switch_flag := 1\<rparr>) k)
      else do {
        cur \<leftarrow> current_thread (cpus k c);
        k1 \<leftarrow> signal_wakeup c cur k;
        if scheduler_lock_nest (thr k1 cur) + 1 = 1 then schedule_switch c cur k1 else Some k1 })"

definition rt_scheduler_ipi_handler :: "nat \<Rightarrow> kernel \<Rightarrow> kernel option" where
  "rt_scheduler_ipi_handler c k = rt_schedule c k"

definition rt_scheduler_do_irq_switch :: "nat \<Rightarrow> kernel \<Rightarrow> kernel option" where
  "rt_scheduler_do_irq_switch c k = do {
     cur \<leftarrow> current_thread (cpus k c);
     k1 \<leftarrow> signal_wakeup c cur k;
     if irq_switch_flag (cpus k1 c) = 0 then Some k1
     else if scheduler_lock_nest (thr k1 cur) + 1 = 1 \<and> irq_nest (cpus k1 c) = 0
     then schedule_switch c cur (upd_cpu c (\<lambda>p. p\<lparr>irq_switch_flag := 0\<rparr>) k1)
     else Some k1 }"

definition rt_system_scheduler_init :: "kernel \<Rightarrow> kernel" where
  "rt_system_scheduler_init k =
     k\<lparr>tlists := (\<lambda>l. case l of Ready p \<Rightarrow> if p < 32 then [] else tlists k l
                  | CpuReady c p \<Rightarrow> if c < 2 \<and> p < 32 then [] else tlists k l
                  | Defunct \<Rightarrow> [] | _ \<Rightarrow> tlists k l),
       cpus := (\<lambda>c. if c < 2 then (cpus k c)\<lparr>irq_switch_flag := 0, cpu_current_priority := 31,
                     current_thread := None, priority_group := 0\<rparr> else cpus k c),
       ready_priority_group := 0\<rparr>"

definition rt_system_scheduler_start :: "nat \<Rightarrow> kernel \<Rightarrow> kernel option" where
  "rt_system_scheduler_start c k = do {
     (to_thread, prio) \<leftarrow> get_highest_priority_thread c k;
     let k1 = upd_thr to_thread (\<lambda>x. x\<lparr>oncpu := of_nat c\<rparr>) k;
     Some (rt_cpus_lock_status_restore c to_thread
            (upd_thr to_thread (\<lambda>x. x\<lparr>stat := RT_THREAD_RUNNING\<rparr>)
              (rt_schedule_remove_thread to_thread k1))) }"

definition rt_enter_critical :: "nat \<Rightarrow> kernel \<Rightarrow> kernel" where
  "rt_enter_critical c k =
     (case current_thread (cpus k c) of
        None \<Rightarrow> k
      | Some t \<Rightarrow> upd_thr t (\<lambda>x. x\<lparr>critical_lock_nest := critical_lock_nest x + 1,
                                    scheduler_lock_nest := scheduler_lock_nest x + 1\<rparr>) k)"

definition rt_exit_critical :: "nat \<Rightarrow> kernel \<Rightarrow> kernel option" where
  "rt_exit_critical c k =
     (case current_thread (cpus k c) of
        None \<Rightarrow> Some k
      | Some t \<Rightarrow>
          (let k1 = upd_thr t (\<lambda>x. x\<lparr>scheduler_lock_nest := scheduler_lock_nest x - 1,
                                     critical_lock_nest := critical_lock_nest x - 1\<rparr>) k
           in if scheduler_lock_nest (thr k1 t) \<le> 0 then rt_schedule c k1 else Some k1))"

definition rt_critical_level :: "nat \<Rightarrow> kernel \<Rightarrow> u16 option" where
  "rt_critical_level c k = do {
     t \<leftarrow> current_thread (cpus k c);
     Some (critical_lock_nest (thr k t)) }"

definition rt_preempt_enable :: "nat \<Rightarrow> kernel \<Rightarrow> kernel option" where
  "rt_preempt_enable c k =
     (case rt_thread_self c k of
        None \<Rightarrow> Some k
      | Some t \<Rightarrow>
          rt_schedule c (upd_thr t (\<lambda>x. x\<lparr>scheduler_lock_nest := scheduler_lock_nest x - 1\<rparr>) k))"

section \<open>The bit scan\<close>

text \<open>The reference: count the trailing zeros one by one.\<close>

function low_bit :: "nat \<Rightarrow> nat" where
  "low_bit n = (if n = 0 \<or> odd n then 0 else Suc (low_bit (n div 2)))"
  by pat_completeness auto
termination
  by (relation "measure id") auto

declare low_bit.simps [simp del]

lemma low_bit_numeral [simp]:
  "low_bit 0 = 0" "low_bit (Suc 0) = 0" "low_bit 1 = 0"
  "low_bit (numeral (Num.Bit1 n)) = 0"
  "low_bit (numeral (Num.Bit0 n)) = Suc (low_bit (numeral n))"
  by (simp_all add: low_bit.simps)

lemma low_bit_lowest: "n \<noteq> 0 \<Longrightarrow> bit n (low_bit n) \<and> (\<forall>j < low_bit n. \<not> bit n j)"
proof (induction n rule: low_bit.induct)
  case (1 n)
  show ?case
  proof (cases "odd n")
    case True
    then show ?thesis by (simp add: low_bit.simps [of n] bit_0)
  next
    case False
    with "1" have IH: "bit (n div 2) (low_bit (n div 2))" "\<forall>j < low_bit (n div 2). \<not> bit (n div 2) j"
      by auto
    from False "1.prems" have "low_bit n = Suc (low_bit (n div 2))" by (simp add: low_bit.simps [of n])
    moreover have "\<not> bit n j" if "j < Suc (low_bit (n div 2))" for j
      using that IH(2) False by (cases j) (auto simp: bit_0 bit_Suc)
    ultimately show ?thesis using IH(1) by (simp add: bit_Suc)
  qed
qed

lemma lowest_bit_bitmap_map: "lowest_bit_bitmap = map low_bit [0..<256]"
proof -
  have "[0..<256] = 0 # 1 # [2..<256]" by (simp add: upt_conv_Cons numeral_2_eq_2)
  then show ?thesis by (simp add: lowest_bit_bitmap_def upt_rec_numeral)
qed

lemma lowest_bit_bitmap_nth: "n < 256 \<Longrightarrow> lowest_bit_bitmap ! n = low_bit n"
  by (simp add: lowest_bit_bitmap_map)

lemma byte_take_bit: "(x :: u32) AND 0xff = take_bit 8 x"
  by (simp add: take_bit_eq_mask mask_eq_exp_minus_1)

lemma byte_of_mask:
  fixes v :: u32
  shows "drop_bit 8 (v AND 0xff00) = take_bit 8 (drop_bit 8 v)"
    "drop_bit 16 (v AND 0xff0000) = take_bit 8 (drop_bit 16 v)"
    "drop_bit 24 (v AND 0xff000000) = take_bit 8 (drop_bit 24 v)"
  by (simp_all add: drop_bit_and byte_take_bit)

lemma byte_zero_iff:
  fixes v :: u32
  shows "take_bit 8 (drop_bit s v) = 0 \<longleftrightarrow> (\<forall>j < 8. \<not> bit v (s + j))"
proof -
  have "take_bit 8 (drop_bit s v) = 0 \<longleftrightarrow> (\<forall>j. \<not> (j < 8 \<and> bit v (s + j)))"
    unfolding bit_eq_iff by (auto simp: bit_take_bit_iff bit_drop_bit_eq dest: bit_imp_le_length)
  then show ?thesis by blast
qed

lemma and_shifted_byte:
  fixes v :: u32
  shows "v AND push_bit s (mask 8) = push_bit s (take_bit 8 (drop_bit s v))"
  by (rule bit_word_eqI)
    (auto simp: bit_push_bit_iff bit_and_iff bit_mask_iff bit_take_bit_iff bit_drop_bit_eq)

lemma mask_byte_zero_iff:
  fixes v :: u32
  shows "v AND 0xff00 = 0 \<longleftrightarrow> take_bit 8 (drop_bit 8 v) = 0"
    and "v AND 0xff0000 = 0 \<longleftrightarrow> take_bit 8 (drop_bit 16 v) = 0"
proof -
  have m: "push_bit 8 (mask 8 :: u32) = 0xff00" "push_bit 16 (mask 8 :: u32) = 0xff0000"
    by (simp_all add: mask_eq_exp_minus_1)
  show "v AND 0xff00 = 0 \<longleftrightarrow> take_bit 8 (drop_bit 8 v) = 0"
    using byte_of_mask(1) [of v] and_shifted_byte [of v 8, unfolded m] by auto
  show "v AND 0xff0000 = 0 \<longleftrightarrow> take_bit 8 (drop_bit 16 v) = 0"
    using byte_of_mask(2) [of v] and_shifted_byte [of v 16, unfolded m] by auto
qed

lemma byte_low_bit:
  fixes v :: u32
  assumes "take_bit 8 (drop_bit s v) \<noteq> 0" "\<forall>j < s. \<not> bit v j" "s \<le> 24"
  defines "n \<equiv> unat (take_bit 8 (drop_bit s v))"
  shows "low_bit n + s < 32 \<and> bit v (low_bit n + s) \<and> (\<forall>j < low_bit n + s. \<not> bit v j)"
    and "lowest_bit_bitmap ! n = low_bit n"
proof -
  have bits: "bit n j \<longleftrightarrow> j < 8 \<and> bit v (s + j)" for j
    unfolding n_def bit_unsigned_iff
    by (auto simp: bit_take_bit_iff bit_drop_bit_eq dest: bit_imp_le_length)
  have "n \<noteq> 0" using assms(1) by (simp add: n_def unat_eq_0)
  from low_bit_lowest [OF this]
  have low: "bit n (low_bit n)" "\<forall>j < low_bit n. \<not> bit n j" by auto
  with bits have b: "low_bit n < 8" "bit v (s + low_bit n)" by auto
  have "\<not> bit v j" if j: "j < low_bit n + s" for j
  proof (cases "j < s")
    case False
    with j have "j - s < low_bit n" by simp
    with low(2) bits [of "j - s"] b(1) False show ?thesis by auto
  qed (use assms(2) in simp)
  with b assms(3) show "low_bit n + s < 32 \<and> bit v (low_bit n + s) \<and> (\<forall>j < low_bit n + s. \<not> bit v j)"
    by (simp add: add.commute)
  have "n < 2 ^ 8" unfolding n_def unsigned_take_bit_eq by (rule take_bit_nat_less_exp)
  then show "lowest_bit_bitmap ! n = low_bit n" by (intro lowest_bit_bitmap_nth) simp
qed

text \<open>What the scan returns: one more than the position of the lowest set bit.\<close>

lemma rt_ffs_lowest:
  assumes "v \<noteq> 0"
  shows "\<exists>p < 32. rt_ffs v = Suc p \<and> bit v p \<and> (\<forall>j < p. \<not> bit v j)"
proof -
  let ?b = "\<lambda>s. take_bit 8 (drop_bit s v)"
  have z: "\<forall>j < s + 8. \<not> bit v j" if "\<forall>j < s. \<not> bit v j" "?b s = 0" for s
  proof (intro allI impI)
    fix j assume "j < s + 8"
    then show "\<not> bit v j"
      using that byte_zero_iff [of s v] by (cases "j < s") (auto dest: spec [of _ "j - s"])
  qed
  have found: ?thesis
    if "?b s \<noteq> 0" "\<forall>j < s. \<not> bit v j" "s \<le> 24"
      and "rt_ffs v = lowest_bit_bitmap ! unat (?b s) + s + 1" for s
    using byte_low_bit [OF that(1-3)] that(4) by auto
  have zero: "\<forall>j < 0. \<not> bit v j" by simp
  consider (b0) "?b 0 \<noteq> 0" | (b1) "?b 0 = 0" "?b 8 \<noteq> 0" | (b2) "?b 0 = 0" "?b 8 = 0" "?b 16 \<noteq> 0"
    | (b3) "?b 0 = 0" "?b 8 = 0" "?b 16 = 0" by blast
  then show ?thesis
  proof cases
    case b0
    show ?thesis
      by (rule found [OF b0 zero]) (use b0 assms in \<open>simp_all add: rt_ffs_def byte_take_bit\<close>)
  next
    case b1
    show ?thesis
      by (rule found [OF b1(2)])
        (use b1 assms z [OF zero b1(1)] in \<open>simp_all add: rt_ffs_def byte_take_bit mask_byte_zero_iff byte_of_mask\<close>)
  next
    case b2
    have "\<forall>j < 8. \<not> bit v j" using z [OF zero b2(1)] by simp
    from z [OF this b2(2)] have "\<forall>j < 16. \<not> bit v j" by simp
    then show ?thesis
      by (rule found [OF b2(3)])
        (use b2 assms in \<open>simp_all add: rt_ffs_def byte_take_bit mask_byte_zero_iff byte_of_mask\<close>)
  next
    case b3
    have "\<forall>j < 8. \<not> bit v j" using z [OF zero b3(1)] by simp
    from z [OF this b3(2)] have "\<forall>j < 16. \<not> bit v j" by simp
    from z [OF this b3(3)] have low: "\<forall>j < 24. \<not> bit v j" by simp
    have "?b 24 \<noteq> 0"
    proof
      assume "?b 24 = 0"
      from z [OF low this] have "\<forall>j < 32. \<not> bit v j" by simp
      with assms word_neq_0_bit [of v] show False by auto
    qed
    then show ?thesis
      by (rule found [OF _ low])
        (use b3 assms in \<open>simp_all add: rt_ffs_def byte_take_bit mask_byte_zero_iff byte_of_mask\<close>)
  qed
qed

end
