(* ===== verification/SchedInv.thy ===== *)
theory SchedInv
  imports Sched
begin

text \<open>
  The invariant of the scheduler and that its operations keep it: the bitmaps say which ready
  queues are non-empty, a queued thread is READY, detached from every CPU and on the queue of its
  own priority and CPU binding, every READY thread is queued, waiting threads are SUSPENDED, and a
  CPU's current thread is on that CPU. The invariant is relative to a set of threads that an
  operation is in the middle of moving.
\<close>

section \<open>The invariant\<close>

definition prio_ok :: "rt_thread \<Rightarrow> bool" where
  "prio_ok x \<longleftrightarrow> number_mask x = push_bit (unat (current_priority x)) 1 \<and>
     unat (current_priority x) < 32 \<and> unat (bind_cpu x) \<le> 2"

definition home :: "rt_thread \<Rightarrow> lid" where
  "home x = (if bind_cpu x = RT_CPUS_NR then Ready (unat (current_priority x))
             else CpuReady (unat (bind_cpu x)) (unat (current_priority x)))"

fun is_rq :: "lid \<Rightarrow> bool" where
  "is_rq (Ready p) \<longleftrightarrow> True"
| "is_rq (CpuReady c p) \<longleftrightarrow> True"
| "is_rq _ \<longleftrightarrow> False"

fun is_wq :: "lid \<Rightarrow> bool" where
  "is_wq (Suspend h) \<longleftrightarrow> True"
| "is_wq (SuspendSender h) \<longleftrightarrow> True"
| "is_wq _ \<longleftrightarrow> False"

definition started :: "rt_thread \<Rightarrow> bool" where
  "started x \<longleftrightarrow> stat_of x \<in> {RT_THREAD_READY, RT_THREAD_SUSPEND, RT_THREAD_RUNNING}"

text \<open>A bitmap has the bits of the non-empty queues.\<close>

definition bitmap_ok :: "u32 \<Rightarrow> (nat \<Rightarrow> nat list) \<Rightarrow> bool" where
  "bitmap_ok g Q \<longleftrightarrow> (\<forall>p. bit g p \<longleftrightarrow> Q p \<noteq> [])"

definition bits_ok :: "kernel \<Rightarrow> bool" where
  "bits_ok k \<longleftrightarrow>
     bitmap_ok (ready_priority_group k) (\<lambda>p. tlists k (Ready p)) \<and>
     (\<forall>c < 2. bitmap_ok (priority_group (cpus k c)) (\<lambda>p. tlists k (CpuReady c p))) \<and>
     (\<forall>c \<ge> 2. \<forall>p. tlists k (CpuReady c p) = [])"

definition queued_ok :: "kernel \<Rightarrow> bool" where
  "queued_ok k \<longleftrightarrow>
     (\<forall>l t. is_rq l \<longrightarrow> t \<in> set (tlists k l) \<longrightarrow>
        l = home (thr k t) \<and> prio_ok (thr k t) \<and> stat_of (thr k t) = RT_THREAD_READY \<and>
        oncpu (thr k t) = RT_CPU_DETACHED) \<and>
     (\<forall>l t. is_wq l \<longrightarrow> t \<in> set (tlists k l) \<longrightarrow> stat_of (thr k t) = RT_THREAD_SUSPEND) \<and>
     (\<forall>t. t \<in> set (tlists k Defunct) \<longrightarrow> stat_of (thr k t) = RT_THREAD_CLOSE)"

text \<open>A thread that has been initialised and not started yet.\<close>

definition fresh_ok :: "rt_thread \<Rightarrow> bool" where
  "fresh_ok x \<longleftrightarrow> oncpu x = RT_CPU_DETACHED \<and> unat (bind_cpu x) \<le> 2 \<and> unat (init_priority x) < 32"

definition thread_ok :: "nat \<Rightarrow> kernel \<Rightarrow> bool" where
  "thread_ok t k \<longleftrightarrow>
     (started (thr k t) \<longrightarrow>
        prio_ok (thr k t) \<and>
        (stat_of (thr k t) = RT_THREAD_READY \<longrightarrow> t \<in> set (tlists k (home (thr k t)))) \<and>
        (stat_of (thr k t) = RT_THREAD_RUNNING \<longrightarrow> oncpu (thr k t) \<noteq> RT_CPU_DETACHED) \<and>
        (oncpu (thr k t) \<noteq> RT_CPU_DETACHED \<longrightarrow>
           (\<exists>c < 2. oncpu (thr k t) = of_nat c \<and> current_thread (cpus k c) = Some t))) \<and>
     (is_thread t k \<and> stat_of (thr k t) = RT_THREAD_INIT \<longrightarrow> fresh_ok (thr k t)) \<and>
     (\<forall>c < 2. current_thread (cpus k c) = Some t \<longrightarrow>
        oncpu (thr k t) = of_nat c \<and> stat_of (thr k t) \<noteq> RT_THREAD_INIT)"

definition sched_inv_ex :: "nat set \<Rightarrow> kernel \<Rightarrow> bool" where
  "sched_inv_ex X k \<longleftrightarrow>
     tlists_ok (tlists k) \<and> bits_ok k \<and> queued_ok k \<and> (\<forall>t. t \<notin> X \<longrightarrow> thread_ok t k)"

abbreviation sched_inv :: "kernel \<Rightarrow> bool" where
  "sched_inv k \<equiv> sched_inv_ex {} k"

lemmas inv_defs = sched_inv_ex_def bits_ok_def queued_ok_def thread_ok_def

lemma sched_inv_exD:
  assumes "sched_inv_ex X k"
  shows "tlists_ok (tlists k)" "bits_ok k" "queued_ok k" "t \<notin> X \<Longrightarrow> thread_ok t k"
  using assms by (simp_all add: sched_inv_ex_def)

lemma sched_inv_ex_mono: "sched_inv_ex X k \<Longrightarrow> X \<subseteq> Y \<Longrightarrow> sched_inv_ex Y k"
  unfolding sched_inv_ex_def by blast

lemma sched_inv_ex_drop: "sched_inv_ex (insert t X) k \<Longrightarrow> thread_ok t k \<Longrightarrow> sched_inv_ex X k"
  unfolding sched_inv_ex_def by (metis insert_iff)

lemma of_nat_cpu_inj:
  "a < 2 \<Longrightarrow> b < 2 \<Longrightarrow> (of_nat a :: u8) = of_nat b \<Longrightarrow> a = b"
  "a < 2 \<Longrightarrow> (of_nat a :: u8) \<noteq> RT_CPU_DETACHED"
  by (auto simp: numeral_2_eq_2 less_Suc_eq)

lemma home_rq [simp]: "is_rq (home x)" "\<not> is_wq (home x)"
  by (simp_all add: home_def)

text \<open>The state of a thread that is on no queue: what an operation that moves a thread needs.\<close>

definition off_lists :: "nat \<Rightarrow> kernel \<Rightarrow> bool" where
  "off_lists t k \<longleftrightarrow> (\<forall>l. t \<notin> set (tlists k l))"

lemma off_lists_remove [simp]: "off_lists t (tlist_remove t k)"
  by (simp add: off_lists_def tlist_remove_def)

lemma get_type_simps [simp]:
  "rt_object_get_type y (thr_update f k) = rt_object_get_type y k"
  "rt_object_get_type y (tlists_update f2 k) = rt_object_get_type y k"
  "rt_object_get_type y (cpus_update f3 k) = rt_object_get_type y k"
  "rt_object_get_type y (ready_priority_group_update f4 k) = rt_object_get_type y k"
  "rt_object_get_type y (ipi_update f5 k) = rt_object_get_type y k"
  by (simp_all add: rt_object_get_type_def)

lemma is_thread_simps [simp]:
  "is_thread t (thr_update f k) = is_thread t k"
  "is_thread t (tlists_update f2 k) = is_thread t k"
  "is_thread t (cpus_update f3 k) = is_thread t k"
  "is_thread t (ready_priority_group_update f4 k) = is_thread t k"
  "is_thread t (ipi_update f5 k) = is_thread t k"
  by (simp_all add: is_thread_def)

section \<open>Lists and bitmaps under removal and insertion\<close>

lemma tlist_simps [simp]:
  "thr (tlist_remove t k) = thr k" "cpus (tlist_remove t k) = cpus k"
  "ready_priority_group (tlist_remove t k) = ready_priority_group k"
  "obj (tlist_remove t k) = obj k" "tmr (tlist_remove t k) = tmr k"
  "tlists (tlist_remove t k) = (\<lambda>l. removeAll t (tlists k l))"
  "thr (tlist_insert_before l t k) = thr k" "cpus (tlist_insert_before l t k) = cpus k"
  "ready_priority_group (tlist_insert_before l t k) = ready_priority_group k"
  "obj (tlist_insert_before l t k) = obj k" "tmr (tlist_insert_before l t k) = tmr k"
  "tlists (tlist_insert_before l t k) = (tlists k)(l := tlists k l @ [t])"
  by (simp_all add: tlist_remove_def tlist_insert_before_def)

lemma ipi_simps [simp]:
  "thr (rt_hw_ipi_send m k) = thr k" "cpus (rt_hw_ipi_send m k) = cpus k"
  "ready_priority_group (rt_hw_ipi_send m k) = ready_priority_group k"
  "obj (rt_hw_ipi_send m k) = obj k" "tmr (rt_hw_ipi_send m k) = tmr k"
  "tlists (rt_hw_ipi_send m k) = tlists k"
  by (simp_all add: rt_hw_ipi_send_def)

text \<open>The invariant only reads the fields these give.\<close>

lemma sched_inv_ex_cong:
  assumes "tlists k' = tlists k" "thr k' = thr k" "ready_priority_group k' = ready_priority_group k"
    and "\<And>c. current_thread (cpus k' c) = current_thread (cpus k c) \<and>
             priority_group (cpus k' c) = priority_group (cpus k c)"
    and "\<And>t. is_thread t k' = is_thread t k"
  shows "sched_inv_ex X k' = sched_inv_ex X k"
  using assms by (simp add: inv_defs)

lemma rq_member_unique:
  assumes "tlists_ok A" "t \<in> set (A l)" "l \<noteq> m"
  shows "t \<notin> set (A m)"
  using tlists_okD(2) [OF assms(1,2)] assms(3) by blast

text \<open>Removing a thread from its queue: the bit of the queue goes with the last thread.\<close>

lemma remove_thread_lists [simp]:
  "tlists (rt_schedule_remove_thread t k) = (\<lambda>l. removeAll t (tlists k l))"
  "thr (rt_schedule_remove_thread t k) = thr k"
  "current_thread (cpus (rt_schedule_remove_thread t k) c) = current_thread (cpus k c)"
  "irq_nest (cpus (rt_schedule_remove_thread t k) c) = irq_nest (cpus k c)"
  "tick (cpus (rt_schedule_remove_thread t k) c) = tick (cpus k c)"
  "obj (rt_schedule_remove_thread t k) = obj k" "tmr (rt_schedule_remove_thread t k) = tmr k"
  by (simp_all add: rt_schedule_remove_thread_def Let_def)

lemma remove_thread_get_type [simp]:
  "rt_object_get_type y (rt_schedule_remove_thread t k) = rt_object_get_type y k"
  "rt_object_get_type y (rt_schedule_insert_thread c t k) = rt_object_get_type y k"
  "rt_object_get_type y (tlist_remove t k) = rt_object_get_type y k"
  by (simp_all add: rt_schedule_remove_thread_def rt_schedule_insert_thread_def Let_def
      tlist_remove_def tlist_insert_before_def rt_hw_ipi_send_def)

lemma remove_thread_is_thread [simp]:
  "is_thread s (rt_schedule_remove_thread t k) = is_thread s k"
  "is_thread s (rt_schedule_insert_thread c t k) = is_thread s k"
  "is_thread s (tlist_remove t k) = is_thread s k"
  by (simp_all add: is_thread_def)

lemma bitmap_clear:
  assumes "bitmap_ok g Q" "m = push_bit p 1" "\<And>q. q \<noteq> p \<Longrightarrow> Q' q = Q q" "Q' p = []"
  shows "bitmap_ok (g AND NOT m) Q'"
  unfolding bitmap_ok_def
proof
  fix q
  have "q < 32" if "bit g q" using bit_imp_le_length [OF that] by simp
  with assms show "bit (g AND NOT m) q \<longleftrightarrow> Q' q \<noteq> []"
    by (cases "q = p") (auto simp: bitmap_ok_def bit_simps)
qed

lemma bitmap_keep:
  assumes "bitmap_ok g Q" "\<And>q. Q' q = [] \<longleftrightarrow> Q q = []"
  shows "bitmap_ok g Q'"
  using assms by (simp add: bitmap_ok_def)

lemma bitmap_set:
  assumes "bitmap_ok g Q" "m = push_bit p 1" "p < 32" "\<And>q. q \<noteq> p \<Longrightarrow> Q' q = Q q" "Q' p \<noteq> []"
  shows "bitmap_ok (g OR m) Q'"
  unfolding bitmap_ok_def
proof
  fix q
  show "bit (g OR m) q \<longleftrightarrow> Q' q \<noteq> []"
    using assms by (cases "q = p") (auto simp: bitmap_ok_def bit_simps)
qed

lemma bits_ok_remove:
  assumes "bits_ok k" "queued_ok k" "prio_ok (thr k t)"
  shows "bits_ok (rt_schedule_remove_thread t k)"
proof -
  let ?x = "thr k t" let ?p = "unat (current_priority ?x)"
  let ?k = "rt_schedule_remove_thread t k"
  have other: "removeAll t (tlists k l) = tlists k l" if "is_rq l" "l \<noteq> home ?x" for l
  proof -
    have "t \<notin> set (tlists k l)" using assms(2) that unfolding queued_ok_def by blast
    then show ?thesis by simp
  qed
  have mask: "number_mask ?x = push_bit ?p 1" using assms(3) by (simp add: prio_ok_def)
  note b = assms(1) [unfolded bits_ok_def]
  have keep: "bitmap_ok g (\<lambda>p. removeAll t (Q p))"
    if "bitmap_ok g Q" "\<And>q. q \<noteq> ?p \<Longrightarrow> removeAll t (Q q) = Q q" "removeAll t (Q ?p) \<noteq> []" for g Q
    using that(1) by (rule bitmap_keep) (use that(2,3) in \<open>metis removeAll.simps(1)\<close>)
  show ?thesis
  proof (cases "bind_cpu ?x = RT_CPUS_NR")
    case True
    then have h: "home ?x = Ready ?p" by (simp add: home_def)
    have "bitmap_ok (ready_priority_group ?k) (\<lambda>p. removeAll t (tlists k (Ready p)))"
    proof (cases "removeAll t (tlists k (Ready ?p)) = []")
      case em: True
      have "bitmap_ok (ready_priority_group k AND NOT (number_mask ?x)) (\<lambda>p. removeAll t (tlists k (Ready p)))"
        by (rule bitmap_clear [OF _ mask]) (use b em other h in auto)
      with True em show ?thesis by (simp add: rt_schedule_remove_thread_def Let_def tlist_isempty_def)
    next
      case ne: False
      then have "ready_priority_group ?k = ready_priority_group k"
        using True by (simp add: rt_schedule_remove_thread_def Let_def tlist_isempty_def)
      with keep [of _ "\<lambda>p. tlists k (Ready p)"] b ne other h show ?thesis by simp
    qed
    moreover have "cpus ?k = cpus k"
      using True by (simp add: rt_schedule_remove_thread_def Let_def)
    ultimately show ?thesis using b h other by (simp add: bits_ok_def)
  next
    case False
    let ?b = "unat (bind_cpu ?x)"
    from False have h: "home ?x = CpuReady ?b ?p" by (simp add: home_def)
    have lt: "?b < 2"
      using False assms(3) by (auto simp: prio_ok_def le_less word_unat_eq_iff)
    have "bitmap_ok (priority_group (cpus ?k ?b)) (\<lambda>p. removeAll t (tlists k (CpuReady ?b p)))"
    proof (cases "removeAll t (tlists k (CpuReady ?b ?p)) = []")
      case em: True
      have "bitmap_ok (priority_group (cpus k ?b) AND NOT (number_mask ?x))
          (\<lambda>p. removeAll t (tlists k (CpuReady ?b p)))"
        by (rule bitmap_clear [OF _ mask]) (use b em other h lt in auto)
      with False em show ?thesis by (simp add: rt_schedule_remove_thread_def Let_def tlist_isempty_def)
    next
      case ne: False
      then have "cpus ?k = cpus k"
        using False by (simp add: rt_schedule_remove_thread_def Let_def tlist_isempty_def)
      with keep [of _ "\<lambda>p. tlists k (CpuReady ?b p)"] b ne other h lt show ?thesis by simp
    qed
    moreover have rpg: "ready_priority_group ?k = ready_priority_group k" and "\<And>c. c \<noteq> ?b \<Longrightarrow> cpus ?k c = cpus k c"
      using False by (simp_all add: rt_schedule_remove_thread_def Let_def)
    moreover have "removeAll t (tlists k (CpuReady c p)) = tlists k (CpuReady c p)" if "c \<noteq> ?b" for c p
      using other that h by simp
    ultimately have "bitmap_ok (priority_group (cpus ?k c)) (\<lambda>p. removeAll t (tlists k (CpuReady c p)))"
      if "c < 2" for c using b that by (cases "c = ?b") simp_all
    then show ?thesis using b h other rpg by (simp add: bits_ok_def)
  qed
qed

lemma bind_cpu_lt: "prio_ok x \<Longrightarrow> bind_cpu x \<noteq> RT_CPUS_NR \<Longrightarrow> unat (bind_cpu x) < 2"
  by (auto simp: prio_ok_def le_less word_unat_eq_iff)

lemma insert_thread_detached:
  assumes "oncpu (thr k t) = RT_CPU_DETACHED"
  shows "tlists (rt_schedule_insert_thread c t k) =
      (tlists k)(home (thr k t) := tlists k (home (thr k t)) @ [t])"
    and "thr (rt_schedule_insert_thread c t k) = (thr k)(t := set_stat RT_THREAD_READY (thr k t))"
  using assms by (simp_all add: rt_schedule_insert_thread_def Let_def home_def)

lemma insert_thread_oncpu:
  assumes "oncpu (thr k t) \<noteq> RT_CPU_DETACHED"
  shows "rt_schedule_insert_thread c t k = upd_thr t (set_stat RT_THREAD_RUNNING) k"
  using assms by (simp add: rt_schedule_insert_thread_def)

lemma insert_thread_frame [simp]:
  "current_thread (cpus (rt_schedule_insert_thread c t k) d) = current_thread (cpus k d)"
  "irq_nest (cpus (rt_schedule_insert_thread c t k) d) = irq_nest (cpus k d)"
  "obj (rt_schedule_insert_thread c t k) = obj k" "tmr (rt_schedule_insert_thread c t k) = tmr k"
  by (simp_all add: rt_schedule_insert_thread_def Let_def)

lemma insert_thread_thr:
  "thr (rt_schedule_insert_thread c t k) = (thr k)(t := set_stat
     (if oncpu (thr k t) = RT_CPU_DETACHED then RT_THREAD_READY else RT_THREAD_RUNNING) (thr k t))"
  by (simp add: insert_thread_detached insert_thread_oncpu)

lemma bits_ok_insert:
  assumes "bits_ok k" "prio_ok (thr k t)" "oncpu (thr k t) = RT_CPU_DETACHED"
  shows "bits_ok (rt_schedule_insert_thread c t k)"
proof -
  let ?x = "thr k t" let ?p = "unat (current_priority ?x)"
  let ?k = "rt_schedule_insert_thread c t k"
  have m: "number_mask ?x = push_bit ?p 1" "?p < 32" using assms(2) by (simp_all add: prio_ok_def)
  note b = assms(1) [unfolded bits_ok_def]
  note lists = insert_thread_detached(1) [OF assms(3)] home_def
  show ?thesis
  proof (cases "bind_cpu ?x = RT_CPUS_NR")
    case True
    have "bitmap_ok (ready_priority_group k OR number_mask ?x) (\<lambda>p. tlists ?k (Ready p))"
      by (rule bitmap_set [OF conjunct1 [OF b] m])
        (use True in \<open>simp_all add: lists\<close>)
    moreover from True have "ready_priority_group ?k = ready_priority_group k OR number_mask ?x"
      "cpus ?k = cpus k"
      using assms(3) by (simp_all add: rt_schedule_insert_thread_def Let_def)
    ultimately show ?thesis using True b by (simp add: bits_ok_def lists)
  next
    case False
    let ?b = "unat (bind_cpu ?x)"
    have lt: "?b < 2" using assms(2) False by (rule bind_cpu_lt)
    with b have "bitmap_ok (priority_group (cpus k ?b)) (\<lambda>p. tlists k (CpuReady ?b p))" by simp
    then have "bitmap_ok (priority_group (cpus k ?b) OR number_mask ?x) (\<lambda>p. tlists ?k (CpuReady ?b p))"
      by (rule bitmap_set [OF _ m]) (use False in \<open>simp_all add: lists\<close>)
    moreover from False have "ready_priority_group ?k = ready_priority_group k"
      "\<And>d. priority_group (cpus ?k d) =
         (if d = ?b then priority_group (cpus k ?b) OR number_mask ?x else priority_group (cpus k d))"
      using assms(3) by (simp_all add: rt_schedule_insert_thread_def Let_def)
    ultimately show ?thesis using False b lt by (simp add: bits_ok_def lists)
  qed
qed

section \<open>What moving a thread keeps\<close>

lemma off_lists_by_stat:
  assumes "queued_ok k"
    and "stat_of (thr k t) \<notin> {RT_THREAD_READY, RT_THREAD_SUSPEND, RT_THREAD_CLOSE}"
  shows "off_lists t k"
  unfolding off_lists_def
proof
  fix l
  have "is_rq l \<or> is_wq l \<or> l = Defunct" by (cases l) auto
  then show "t \<notin> set (tlists k l)" using assms unfolding queued_ok_def by blast
qed

lemma running_off_lists: "queued_ok k \<Longrightarrow> stat_of (thr k t) = RT_THREAD_RUNNING \<Longrightarrow> off_lists t k"
  by (rule off_lists_by_stat) simp_all

lemma thread_ok_cong:
  assumes "thr k' t = thr k t"
    and "\<And>c. current_thread (cpus k' c) = Some t \<longleftrightarrow> current_thread (cpus k c) = Some t"
    and "\<And>l. t \<in> set (tlists k' l) \<longleftrightarrow> t \<in> set (tlists k l)"
    and "is_thread t k' = is_thread t k"
  shows "thread_ok t k' = thread_ok t k"
  using assms by (simp add: thread_ok_def)

lemma queued_ok_off: "queued_ok k \<Longrightarrow> stat_of (thr k t) \<noteq> RT_THREAD_READY \<Longrightarrow> is_rq l \<Longrightarrow> t \<notin> set (tlists k l)"
  unfolding queued_ok_def by blast

lemma queued_okD:
  assumes "queued_ok k" "is_rq l" "t \<in> set (tlists k l)"
  shows "l = home (thr k t)" "prio_ok (thr k t)" "stat_of (thr k t) = RT_THREAD_READY"
    "oncpu (thr k t) = RT_CPU_DETACHED"
  using assms unfolding queued_ok_def by blast+

lemma sched_inv_remove:
  assumes "sched_inv_ex X k" "prio_ok (thr k t)"
  shows "sched_inv_ex (insert t X) (rt_schedule_remove_thread t k)"
proof -
  note i = sched_inv_exD [OF assms(1)]
  have "queued_ok (rt_schedule_remove_thread t k)" using i(3) by (simp add: queued_ok_def)
  moreover have "thread_ok s (rt_schedule_remove_thread t k)" if "s \<notin> insert t X" for s
    using i(4) [of s] that thread_ok_cong [of "rt_schedule_remove_thread t k" s k] by simp
  ultimately show ?thesis
    using i(1) bits_ok_remove [OF i(2,3) assms(2)]
    by (simp add: sched_inv_ex_def tlists_ok_removeAll)
qed

lemma sched_inv_unwait:
  assumes "sched_inv_ex X k" "stat_of (thr k t) \<noteq> RT_THREAD_READY"
  shows "sched_inv_ex (insert t X) (tlist_remove t k)"
proof -
  note i = sched_inv_exD [OF assms(1)]
  have rq: "removeAll t (tlists k l) = tlists k l" if "is_rq l" for l
    using queued_ok_off [OF i(3) assms(2) that] by simp
  have "queued_ok (tlist_remove t k)" using i(3) by (simp add: queued_ok_def)
  moreover have "thread_ok s (tlist_remove t k)" if "s \<notin> insert t X" for s
    using i(4) [of s] that thread_ok_cong [of "tlist_remove t k" s k] by simp
  moreover have "bits_ok (tlist_remove t k)" using i(2) rq by (simp add: bits_ok_def)
  ultimately show ?thesis using i(1) by (simp add: sched_inv_ex_def tlists_ok_removeAll)
qed

lemma sched_inv_upd:
  assumes "sched_inv_ex X k" "off_lists t k"
  shows "sched_inv_ex (insert t X) (upd_thr t f k)"
proof -
  note i = sched_inv_exD [OF assms(1)]
  have "queued_ok (upd_thr t f k)" using i(3) assms(2) by (simp add: queued_ok_def off_lists_def)
  moreover have "thread_ok s (upd_thr t f k)" if "s \<notin> insert t X" for s
    using i(4) [of s] that thread_ok_cong [of "upd_thr t f k" s k] by simp
  ultimately show ?thesis using i(1,2) by (simp add: sched_inv_ex_def bits_ok_def)
qed

lemma sched_inv_upd_stat:
  assumes "sched_inv_ex X k" "\<And>l. is_rq l \<Longrightarrow> t \<notin> set (tlists k l)"
    and "stat_of (f (thr k t)) = stat_of (thr k t)"
  shows "sched_inv_ex (insert t X) (upd_thr t f k)"
proof -
  note i = sched_inv_exD [OF assms(1)]
  have "queued_ok (upd_thr t f k)"
    using i(3) assms(2,3) by (simp add: queued_ok_def started_def)
  moreover have "thread_ok s (upd_thr t f k)" if "s \<notin> insert t X" for s
    using i(4) [of s] that thread_ok_cong [of "upd_thr t f k" s k] by simp
  ultimately show ?thesis using i(1,2) by (simp add: sched_inv_ex_def bits_ok_def)
qed

lemma sched_inv_insert:
  assumes "sched_inv_ex X k" "off_lists t k" "prio_ok (thr k t)" "oncpu (thr k t) = RT_CPU_DETACHED"
  shows "sched_inv_ex (insert t X) (rt_schedule_insert_thread c t k)"
proof -
  let ?k = "rt_schedule_insert_thread c t k" let ?h = "home (thr k t)"
  note i = sched_inv_exD [OF assms(1)]
  note ins = insert_thread_detached [OF assms(4), of c]
  have h: "home (set_stat RT_THREAD_READY (thr k t)) = ?h" by (simp add: home_def)
  have p: "prio_ok (set_stat RT_THREAD_READY (thr k t))" using assms(3) by (simp add: prio_ok_def)
  have "queued_ok ?k"
    unfolding queued_ok_def
  proof (intro conjI allI impI; (elim conjE)?)
    fix l s assume "is_wq l" "s \<in> set (tlists ?k l)"
    then have "l \<noteq> ?h" "s \<in> set (tlists k l)" by (auto simp: ins split: if_splits)
    with i(3) assms(2) \<open>is_wq l\<close> show "stat_of (thr ?k s) = RT_THREAD_SUSPEND"
      by (auto simp: ins queued_ok_def off_lists_def)
  next
    fix s assume "s \<in> set (tlists ?k Defunct)"
    moreover have "?h \<noteq> Defunct" by (simp add: home_def)
    ultimately show "stat_of (thr ?k s) = RT_THREAD_CLOSE"
      using i(3) assms(2) by (auto simp: ins queued_ok_def off_lists_def)
  next
    fix l s assume l: "is_rq l" "s \<in> set (tlists ?k l)"
    show "l = home (thr ?k s)" "prio_ok (thr ?k s)" "stat_of (thr ?k s) = RT_THREAD_READY"
      "oncpu (thr ?k s) = RT_CPU_DETACHED"
      using l queued_okD [OF i(3), of l s] assms(2,4) p h
      by (auto simp: ins off_lists_def split: if_splits)
  qed
  moreover have "thread_ok s ?k" if "s \<notin> insert t X" for s
    using i(4) [of s] that thread_ok_cong [of ?k s k] by (simp add: ins)
  moreover have "tlists_ok (tlists ?k)"
    using tlists_ok_append [OF i(1), of t ?h] assms(2) by (simp add: ins off_lists_def)
  ultimately show ?thesis using bits_ok_insert [OF i(2) assms(3,4)] by (simp add: sched_inv_ex_def)
qed

lemma thread_ok_inserted:
  assumes "prio_ok (thr k t)" "oncpu (thr k t) = RT_CPU_DETACHED"
    and "\<And>d. d < 2 \<Longrightarrow> current_thread (cpus k d) \<noteq> Some t"
  shows "thread_ok t (rt_schedule_insert_thread c t k)"
proof -
  note ins = insert_thread_detached [OF assms(2), of c]
  have "home (set_stat RT_THREAD_READY (thr k t)) = home (thr k t)" by (simp add: home_def)
  with assms show ?thesis by (simp add: thread_ok_def ins prio_ok_def)
qed

lemma timer_stop_frame:
  assumes "rt_timer_stop x k = Some (r, k')"
  shows "tlists k' = tlists k" "thr k' = thr k" "cpus k' = cpus k" "tmr k' = tmr k"
    "ready_priority_group k' = ready_priority_group k" "containers k' = containers k"
    "rt_object_get_type y k' = rt_object_get_type y k" "is_thread t k' = is_thread t k"
    "o_type (obj k' y) = o_type (obj k y)"
  using assms by (auto simp: is_thread_def rt_timer_stop_def rt_timer_remove_def rt_object_get_type_def
      rt_assert_def split: if_splits)

lemma sched_inv_timer_stop:
  "rt_timer_stop x k = Some (r, k') \<Longrightarrow> sched_inv_ex X k' = sched_inv_ex X k"
  by (rule sched_inv_ex_cong) (simp_all add: timer_stop_frame)

text \<open>A started thread outside the exceptions: where it is, by its state.\<close>

lemma thread_okD:
  assumes "thread_ok t k" "started (thr k t)"
  shows "prio_ok (thr k t)"
    and "stat_of (thr k t) = RT_THREAD_RUNNING \<Longrightarrow> oncpu (thr k t) \<noteq> RT_CPU_DETACHED"
    and "oncpu (thr k t) \<noteq> RT_CPU_DETACHED \<Longrightarrow>
      \<exists>c < 2. oncpu (thr k t) = of_nat c \<and> current_thread (cpus k c) = Some t"
  using assms by (simp_all add: thread_ok_def)

lemma sched_inv_defunct:
  assumes "sched_inv_ex X k" "off_lists t k" "stat_of (thr k t) = RT_THREAD_CLOSE"
  shows "sched_inv_ex X (tlist_insert_after Defunct t k)"
proof -
  let ?k = "tlist_insert_after Defunct t k"
  note i = sched_inv_exD [OF assms(1)]
  have "bits_ok ?k" using i(2) by (simp add: bits_ok_def tlist_insert_after_def)
  moreover have "queued_ok ?k"
    using i(3) assms(3) by (auto simp: queued_ok_def tlist_insert_after_def)
  moreover have "tlists_ok (tlists ?k)"
    using tlists_ok_cons [OF i(1), of t Defunct] assms(2) by (simp add: off_lists_def tlist_insert_after_def)
  moreover have "thread_ok s ?k" if "s \<notin> X" for s
    using i(4) [OF that] by (auto simp: thread_ok_def tlist_insert_after_def home_def)
  ultimately show ?thesis by (simp add: sched_inv_ex_def)
qed

lemma sched_inv_fewer_objects:
  assumes "tlists k' = tlists k" "thr k' = thr k" "ready_priority_group k' = ready_priority_group k"
    and "cpus k' = cpus k" "\<And>t. is_thread t k' \<Longrightarrow> is_thread t k" "sched_inv_ex X k"
  shows "sched_inv_ex X k'"
  using assms by (auto simp: inv_defs)

lemma sched_inv_wait:
  assumes "sched_inv_ex X k" "off_lists t k" "stat_of (thr k t) = RT_THREAD_SUSPEND" "is_wq l"
    and "distinct B" "set B = insert t (set (tlists k l))"
  shows "sched_inv_ex X (k\<lparr>tlists := (tlists k)(l := B)\<rparr>)"
proof -
  let ?k = "k\<lparr>tlists := (tlists k)(l := B)\<rparr>"
  note i = sched_inv_exD [OF assms(1)]
  have rq: "is_rq m \<Longrightarrow> m \<noteq> l" for m using assms(4) by (cases l) auto
  have "bits_ok ?k" using i(2) rq by (simp add: bits_ok_def)
  moreover have "queued_ok ?k" using i(3) assms(3,4,6) rq unfolding queued_ok_def by auto
  moreover have "tlists_ok (tlists ?k)"
    using tlists_ok_insert [OF i(1), of t B l] assms(2,5,6) by (simp add: off_lists_def)
  moreover have "thread_ok s ?k" if "s \<notin> X" for s
    using i(4) [OF that] rq by (simp add: thread_ok_def)
  ultimately show ?thesis by (simp add: sched_inv_ex_def)
qed

section \<open>Suspending and resuming\<close>

lemma suspendE:
  assumes "rt_thread_suspend c t k = Some (r, k')"
  obtains (error) "r = - RT_ERROR" "k' = k"
    "stat_of (thr k t) \<noteq> RT_THREAD_READY" "stat_of (thr k t) \<noteq> RT_THREAD_RUNNING"
  | (moved) r' where "r = RT_EOK" "started (thr k t)"
    "rt_timer_stop (ThreadTimer t)
       (upd_thr t (set_stat RT_THREAD_SUSPEND) (rt_schedule_remove_thread t k)) = Some (r', k')"
  using assms that
  by (auto simp: rt_thread_suspend_def started_def Let_def elim!: bind_eq_SomeE split: if_splits)

lemma resumeE:
  assumes "rt_thread_resume c t k = Some (r, k')"
  obtains (error) "r = - RT_ERROR" "k' = k" "stat_of (thr k t) \<noteq> RT_THREAD_SUSPEND"
  | (moved) r' k1 where "r = RT_EOK" "stat_of (thr k t) = RT_THREAD_SUSPEND"
    "rt_timer_stop (ThreadTimer t) (tlist_remove t k) = Some (r', k1)"
    "k' = rt_schedule_insert_thread c t k1"
  using assms that
  by (auto simp: rt_thread_resume_def elim!: bind_eq_SomeE split: if_splits)

lemma suspend_effect:
  assumes "rt_thread_suspend c t k = Some (r, k')"
  shows "r = RT_EOK \<Longrightarrow> stat_of (thr k' t) = RT_THREAD_SUSPEND \<and> off_lists t k'"
    and "r \<noteq> RT_EOK \<Longrightarrow> k' = k" "s \<noteq> t \<Longrightarrow> thr k' s = thr k s"
    and "current_thread (cpus k' d) = current_thread (cpus k d)" "oncpu (thr k' u) = oncpu (thr k u)"
    "irq_nest (cpus k' d) = irq_nest (cpus k d)" "rt_object_get_type y k' = rt_object_get_type y k"
  using assms
  by (auto elim!: suspendE simp: off_lists_def timer_stop_frame)

lemma suspend_keeps:
  assumes "sched_inv k" "rt_thread_suspend c t k = Some (r, k')"
  shows "sched_inv k'"
  using assms(2)
proof (cases rule: suspendE)
  case (moved r')
  let ?k1 = "upd_thr t (set_stat RT_THREAD_SUSPEND) (rt_schedule_remove_thread t k)"
  have ok: "thread_ok t k" using sched_inv_exD(4) [OF assms(1)] by simp
  have off: "off_lists t (rt_schedule_remove_thread t k)" by (simp add: off_lists_def)
  have "sched_inv_ex {t} ?k1"
    using sched_inv_upd [OF sched_inv_remove [OF assms(1) thread_okD(1) [OF ok moved(2)]] off] by simp
  moreover have "thread_ok t ?k1"
    using ok moved(2) by (simp add: thread_ok_def prio_ok_def)
  ultimately have "sched_inv ?k1" by (rule sched_inv_ex_drop)
  then show ?thesis using sched_inv_timer_stop [OF moved(3)] by simp
qed (use assms(1) in simp)

lemma resume_effect:
  assumes "rt_thread_resume c t k = Some (r, k')"
  shows "r = RT_EOK \<Longrightarrow> stat_of (thr k' t) =
           (if oncpu (thr k t) = RT_CPU_DETACHED then RT_THREAD_READY else RT_THREAD_RUNNING)"
    and "r \<noteq> RT_EOK \<Longrightarrow> k' = k" "s \<noteq> t \<Longrightarrow> thr k' s = thr k s"
    and "current_thread (cpus k' d) = current_thread (cpus k d)" "oncpu (thr k' u) = oncpu (thr k u)"
    "irq_nest (cpus k' d) = irq_nest (cpus k d)" "rt_object_get_type y k' = rt_object_get_type y k"
  using assms by (auto elim!: resumeE simp: timer_stop_frame insert_thread_thr)

text \<open>Waking a suspended thread, once it is off its wait queue.\<close>

lemma insert_woken:
  assumes "sched_inv_ex {t} k" "off_lists t k" "thread_ok t k" "stat_of (thr k t) = RT_THREAD_SUSPEND"
  shows "sched_inv (rt_schedule_insert_thread c t k)"
proof -
  let ?k = "rt_schedule_insert_thread c t k"
  have s: "started (thr k t)" using assms(4) by (simp add: started_def)
  have "sched_inv_ex {t} ?k \<and> thread_ok t ?k"
  proof (cases "oncpu (thr k t) = RT_CPU_DETACHED")
    case det: True
    then have p: "prio_ok (thr k t)" "oncpu (thr k t) = RT_CPU_DETACHED"
      using thread_okD(1) [OF assms(3) s] by simp_all
    have "current_thread (cpus k d) \<noteq> Some t" if "d < 2" for d
      using assms(3) that det of_nat_cpu_inj(2) [OF that] by (auto simp: thread_ok_def)
    with sched_inv_insert [OF assms(1,2) p, of c] thread_ok_inserted [OF p, of c]
    show ?thesis by simp
  next
    case on: False
    then have k': "?k = upd_thr t (set_stat RT_THREAD_RUNNING) k" by (rule insert_thread_oncpu)
    have "thread_ok t ?k" using assms(3) s on by (simp add: k' thread_ok_def prio_ok_def)
    with sched_inv_upd [OF assms(1,2)] show ?thesis by (simp add: k')
  qed
  then show ?thesis using sched_inv_ex_drop [of t "{}" ?k] by simp
qed

lemma resume_keeps:
  assumes "sched_inv k" "rt_thread_resume c t k = Some (r, k')"
  shows "sched_inv k'"
  using assms(2)
proof (cases rule: resumeE)
  case (moved r' k1)
  note fr = timer_stop_frame [OF moved(3)]
  have "thread_ok t k" using sched_inv_exD(4) [OF assms(1)] by simp
  then have "thread_ok t k1"
    using moved(2) by (simp add: thread_ok_def fr)
  moreover have "sched_inv_ex {t} k1"
    using sched_inv_unwait [OF assms(1), of t] moved(2) sched_inv_timer_stop [OF moved(3)] by simp
  moreover have "off_lists t k1" by (simp add: off_lists_def fr)
  ultimately show ?thesis using insert_woken [of t k1 c] moved(2,4) by (simp add: fr)
qed (use assms(1) in simp)

section \<open>The choice of the next thread\<close>

lemma ffs_prio:
  assumes "bitmap_ok g Q"
  shows "g = 0 \<and> of_nat (rt_ffs g) - 1 = (- 1 :: u32) \<and> (\<forall>q. Q q = []) \<or>
    (\<exists>p < 32. g \<noteq> 0 \<and> of_nat (rt_ffs g) - 1 = (of_nat p :: u32) \<and> Q p \<noteq> [] \<and> (\<forall>q < p. Q q = []))"
proof (cases "g = 0")
  case True
  then show ?thesis using assms by (simp add: bitmap_ok_def rt_ffs_def)
next
  case False
  then obtain p where "p < 32" "rt_ffs g = Suc p" "bit g p" "\<forall>j < p. \<not> bit g j"
    using rt_ffs_lowest by blast
  with False assms show ?thesis by (auto simp: bitmap_ok_def)
qed

text \<open>The threads CPU \<open>c\<close> may run next, by priority.\<close>

definition eligible :: "nat \<Rightarrow> kernel \<Rightarrow> nat \<Rightarrow> nat set" where
  "eligible c k p = set (tlists k (Ready p)) \<union> set (tlists k (CpuReady c p))"

lemma of_nat_less_u32: "p < 32 \<Longrightarrow> q < 32 \<Longrightarrow> ((of_nat p :: u32) < of_nat q) = (p < q)"
  by (simp add: word_less_nat_alt unat_of_nat)

lemma unat_of_nat_prio [simp]: "p < 32 \<Longrightarrow> unat (of_nat p :: u32) = p"
  by (simp add: unat_of_nat)

lemma of_nat_less_max: "p < 32 \<Longrightarrow> (of_nat p :: u32) < - 1" "p < 32 \<Longrightarrow> \<not> (- 1 :: u32) < of_nat p"
  by (simp_all add: word_less_nat_alt)

lemma get_highest_spec:
  assumes "bits_ok k" "c < 2" "ready_priority_group k \<noteq> 0 \<or> priority_group (cpus k c) \<noteq> 0"
  obtains t p ts l where "get_highest_priority_thread c k = Some (t, of_nat p)" "p < 32"
    and "l = Ready p \<or> l = CpuReady c p" "tlists k l = t # ts" "\<forall>q < p. eligible c k q = {}"
proof -
  note b = assms(1) [unfolded bits_ok_def]
  note g = ffs_prio [OF conjunct1 [OF b]]
  from b assms(2) have "bitmap_ok (priority_group (cpus k c)) (\<lambda>p. tlists k (CpuReady c p))" by simp
  note l = ffs_prio [OF this]
  show ?thesis
  proof (cases "ready_priority_group k = 0")
    case True
    with g l assms(3) obtain p t ts where
      *: "p < 32" "of_nat (rt_ffs (priority_group (cpus k c))) - 1 = (of_nat p :: u32)"
      "tlists k (CpuReady c p) = t # ts" "\<forall>q < p. tlists k (CpuReady c q) = []"
      "of_nat (rt_ffs (ready_priority_group k)) - 1 = (- 1 :: u32)" "\<forall>q. tlists k (Ready q) = []"
      by (auto simp: neq_Nil_conv)
    show ?thesis
      by (rule that [of t p "CpuReady c p" ts])
        (use * in \<open>simp_all add: get_highest_priority_thread_def Let_def of_nat_less_max eligible_def\<close>)
  next
    case False
    with g obtain p t ts where
      *: "p < 32" "of_nat (rt_ffs (ready_priority_group k)) - 1 = (of_nat p :: u32)"
      "tlists k (Ready p) = t # ts" "\<forall>q < p. tlists k (Ready q) = []"
      by (auto simp: neq_Nil_conv)
    from l consider (none) "of_nat (rt_ffs (priority_group (cpus k c))) - 1 = (- 1 :: u32)"
        "\<forall>q. tlists k (CpuReady c q) = []"
      | (some) p' t' ts' where "p' < 32" "of_nat (rt_ffs (priority_group (cpus k c))) - 1 = (of_nat p' :: u32)"
        "tlists k (CpuReady c p') = t' # ts'" "\<forall>q < p'. tlists k (CpuReady c q) = []"
      by (auto simp: neq_Nil_conv)
    then show ?thesis
    proof cases
      case none
      show ?thesis
        by (rule that [of t p "Ready p" ts])
          (use * none in \<open>simp_all add: get_highest_priority_thread_def Let_def of_nat_less_max eligible_def\<close>)
    next
      case some
      show ?thesis
      proof (cases "p < p'")
        case True
        show ?thesis
          by (rule that [of t p "Ready p" ts])
            (use * some True in \<open>simp_all add: get_highest_priority_thread_def Let_def of_nat_less_u32 eligible_def\<close>)
      next
        case False
        show ?thesis
          by (rule that [of t' p' "CpuReady c p'" ts'])
            (use * some False in \<open>simp_all add: get_highest_priority_thread_def Let_def of_nat_less_u32 eligible_def\<close>)
      qed
    qed
  qed
qed

section \<open>The switch\<close>

text \<open>A thread that is current on a CPU and the threads on the ready queues are different.\<close>

lemma current_oncpu:
  assumes "sched_inv k" "c < 2" "current_thread (cpus k c) = Some t"
  shows "oncpu (thr k t) = of_nat c"
  using sched_inv_exD(4) [OF assms(1), of t] assms(2,3) by (simp add: thread_ok_def)

lemma current_not_queued:
  assumes "sched_inv k" "c < 2" "current_thread (cpus k c) = Some t" "is_rq l"
  shows "t \<notin> set (tlists k l)"
proof
  assume "t \<in> set (tlists k l)"
  with assms(4) have "oncpu (thr k t) = RT_CPU_DETACHED"
    using queued_okD [OF sched_inv_exD(3) [OF assms(1)]] by blast
  moreover note current_oncpu [OF assms(1-3)]
  ultimately show False using of_nat_cpu_inj(2) [OF assms(2)] by simp
qed

lemma current_unique:
  assumes "sched_inv k" "c < 2" "d < 2"
    and "current_thread (cpus k c) = Some t" "current_thread (cpus k d) = Some t"
  shows "c = d"
proof -
  have "(of_nat c :: u8) = of_nat d"
    using current_oncpu [OF assms(1,2,4)] current_oncpu [OF assms(1,3,5)] by simp
  then show ?thesis by (rule of_nat_cpu_inj(1) [OF assms(2,3)])
qed

definition give_cpu :: "nat \<Rightarrow> nat \<Rightarrow> u32 \<Rightarrow> kernel \<Rightarrow> kernel" where
  "give_cpu c t prio k =
     rt_cpus_lock_status_restore c t
       (upd_thr t (set_stat RT_THREAD_RUNNING)
         (rt_schedule_remove_thread t
           (upd_cpu c (\<lambda>p. p\<lparr>cpu_current_priority := ucast prio\<rparr>)
             (upd_thr t (\<lambda>x. x\<lparr>oncpu := of_nat c\<rparr>) k))))"

lemma give_cpu_simps:
  "thr (give_cpu c t prio k) = (thr k)(t := set_stat RT_THREAD_RUNNING (thr k t\<lparr>oncpu := of_nat c\<rparr>))"
  "tlists (give_cpu c t prio k) = (\<lambda>l. removeAll t (tlists k l))"
  "current_thread (cpus (give_cpu c t prio k) d) =
     (if d = c then Some t else current_thread (cpus k d))"
  by (simp_all add: give_cpu_def rt_cpus_lock_status_restore_def)

lemma prio_ok_frame [simp]:
  "prio_ok (set_stat s x) = prio_ok x" "prio_ok (x\<lparr>oncpu := b\<rparr>) = prio_ok x"
  "prio_ok (x\<lparr>stat := b2\<rparr>) = prio_ok x"
  "home (set_stat s x) = home x" "home (x\<lparr>oncpu := b\<rparr>) = home x" "home (x\<lparr>stat := b2\<rparr>) = home x"
  "stat_of (x\<lparr>oncpu := b\<rparr>) = stat_of x"
  by (simp_all add: prio_ok_def home_def stat_of_def)

lemma give_cpu_is_thread [simp]: "is_thread s (give_cpu c t prio k) = is_thread s k"
  by (simp add: give_cpu_def rt_cpus_lock_status_restore_def)

lemma give_cpu_inv:
  assumes "sched_inv_ex {u} k" "c < 2" "t \<in> set (tlists k l)" "is_rq l" "u \<noteq> t"
    and "\<And>d. d < 2 \<Longrightarrow> current_thread (cpus k d) \<noteq> Some t"
    and "\<And>d. d < 2 \<Longrightarrow> d \<noteq> c \<Longrightarrow> current_thread (cpus k d) \<noteq> Some u"
    and "current_thread (cpus k c) = None \<or> current_thread (cpus k c) = Some u"
    and "oncpu (thr k u) = RT_CPU_DETACHED" "stat_of (thr k u) \<noteq> RT_THREAD_INIT" "started (thr k u) \<Longrightarrow> prio_ok (thr k u) \<and>
      stat_of (thr k u) \<noteq> RT_THREAD_RUNNING \<and>
      (stat_of (thr k u) = RT_THREAD_READY \<longrightarrow> u \<in> set (tlists k (home (thr k u))))"
  shows "sched_inv (give_cpu c t prio k)"
proof -
  note i = sched_inv_exD [OF assms(1)]
  note q = queued_okD [OF i(3) assms(4,3)]
  have rm: "sched_inv_ex {t, u} (rt_schedule_remove_thread t k)"
    using sched_inv_remove [OF assms(1) q(2)] by simp
  have "bits_ok (give_cpu c t prio k)"
  proof -
    have "bits_ok (rt_schedule_remove_thread t k)" using rm by (simp add: sched_inv_ex_def)
    moreover have "ready_priority_group (give_cpu c t prio k) =
        ready_priority_group (rt_schedule_remove_thread t k)"
      "priority_group (cpus (give_cpu c t prio k) d) =
        priority_group (cpus (rt_schedule_remove_thread t k) d)" for d
      by (simp_all add: give_cpu_def rt_cpus_lock_status_restore_def rt_schedule_remove_thread_def
          Let_def tlist_isempty_def)
    ultimately show ?thesis by (simp add: bits_ok_def give_cpu_simps)
  qed
  moreover have "queued_ok (give_cpu c t prio k)"
    using i(3) by (simp add: queued_ok_def give_cpu_simps)
  moreover have "thread_ok s (give_cpu c t prio k)" for s
  proof -
    consider "s = t" | "s = u" "s \<noteq> t" | "s \<noteq> u" "s \<noteq> t" by blast
    then show ?thesis
    proof cases
      case 1
      then show ?thesis using q assms(2,6) of_nat_cpu_inj(2) [OF assms(2)]
        by (auto simp: thread_ok_def give_cpu_simps)
    next
      case 2
      then show ?thesis using assms(5,7,9-11)
        by (auto simp: thread_ok_def give_cpu_simps)
    next
      case 3
      then have "thread_ok s k" using i(4) by simp
      moreover have "thread_ok s (give_cpu c t prio k) = thread_ok s k"
        by (rule thread_ok_cong) (use 3 assms(8) in \<open>auto simp: give_cpu_simps\<close>)
      ultimately show ?thesis by simp
    qed
  qed
  ultimately show ?thesis using i(1) by (simp add: sched_inv_ex_def give_cpu_simps tlists_ok_removeAll)
qed

lemma schedule_switch_cases:
  assumes "sched_inv k" "c < 2" "current_thread (cpus k c) = Some cur"
  obtains (idle) "schedule_switch c cur k = Some k" "\<forall>p. eligible c k p = {}"
  | (keep) p where "schedule_switch c cur k = Some k" "stat_of (thr k cur) = RT_THREAD_RUNNING"
      "\<forall>q < p. eligible c k q = {}" "eligible c k p \<noteq> {}"
      "unat (current_priority (thr k cur)) < p \<or>
        unat (current_priority (thr k cur)) = p \<and> stat (thr k cur) AND RT_THREAD_STAT_YIELD = 0"
  | (switch) to p ts l k3 where "schedule_switch c cur k = Some (give_cpu c to (of_nat p) k3)" "p < 32"
      "l = Ready p \<or> l = CpuReady c p" "tlists k l = to # ts" "\<forall>q < p. eligible c k q = {}"
      "k3 = (if stat_of (thr k cur) = RT_THREAD_RUNNING
             then rt_schedule_insert_thread c cur (upd_thr cur
                    (\<lambda>x. x\<lparr>oncpu := RT_CPU_DETACHED, stat := stat x AND NOT RT_THREAD_STAT_YIELD\<rparr>) k)
             else upd_thr cur (\<lambda>x. x\<lparr>oncpu := RT_CPU_DETACHED\<rparr>) k)"
      "stat_of (thr k cur) = RT_THREAD_RUNNING \<Longrightarrow> p < unat (current_priority (thr k cur)) \<or>
         p = unat (current_priority (thr k cur)) \<and> stat (thr k cur) AND RT_THREAD_STAT_YIELD \<noteq> 0"
proof (cases "ready_priority_group k \<noteq> 0 \<or> priority_group (cpus k c) \<noteq> 0")
  case False
  note b = sched_inv_exD(2) [OF assms(1), unfolded bits_ok_def]
  have "eligible c k p = {}" for p
    using False b assms(2) by (auto simp: eligible_def bitmap_ok_def)
  moreover have "schedule_switch c cur k = Some k" using False by (simp add: schedule_switch_def)
  ultimately show ?thesis using idle by blast
next
  case True
  obtain to p ts l where h: "get_highest_priority_thread c k = Some (to, of_nat p)" "p < 32"
    "l = Ready p \<or> l = CpuReady c p" "tlists k l = to # ts" "\<forall>q < p. eligible c k q = {}"
    using get_highest_spec [OF sched_inv_exD(2) [OF assms(1)] assms(2) True] .
  from current_oncpu [OF assms] have same: "upd_thr cur (\<lambda>x. x\<lparr>oncpu := of_nat c\<rparr>) (upd_thr cur (\<lambda>x. x\<lparr>oncpu := RT_CPU_DETACHED\<rparr>) k) = k"
    by (simp add: kernel.equality fun_eq_iff)
  have ne: "to \<noteq> cur" using current_not_queued [OF assms, of l] h(3,4) by auto
  let ?pc = "unat (current_priority (thr k cur))"
  have lt: "(ucast (current_priority (thr k cur)) < (of_nat p :: u32)) = (?pc < p)"
    "(ucast (current_priority (thr k cur)) = (of_nat p :: u32)) = (?pc = p)"
    using h(2) by (simp_all add: word_less_nat_alt word_unat_eq_iff)
  show ?thesis
  proof (cases "stat_of (thr k cur) = RT_THREAD_RUNNING \<and>
      (?pc < p \<or> ?pc = p \<and> stat (thr k cur) AND RT_THREAD_STAT_YIELD = 0)")
    case k: True
    with True h(1) lt same have "schedule_switch c cur k = Some k"
      by (auto simp: schedule_switch_def Let_def)
    moreover have "eligible c k p \<noteq> {}" using h(3,4) by (auto simp: eligible_def)
    ultimately show ?thesis using k h(5) by (intro keep [of p]) auto
  next
    case sw: False
    show ?thesis
    proof (rule switch [OF _ h(2-5)])
      show "schedule_switch c cur k = Some (give_cpu c to (of_nat p)
        (if stat_of (thr k cur) = RT_THREAD_RUNNING
             then rt_schedule_insert_thread c cur (upd_thr cur
                    (\<lambda>x. x\<lparr>oncpu := RT_CPU_DETACHED, stat := stat x AND NOT RT_THREAD_STAT_YIELD\<rparr>) k)
             else upd_thr cur (\<lambda>x. x\<lparr>oncpu := RT_CPU_DETACHED\<rparr>) k))"
        using True h(1) lt sw ne by (auto simp: schedule_switch_def Let_def give_cpu_def)
    qed (use sw in auto)
  qed
qed

lemma stat_of_clear_yield [simp]:
  "stat_of (x\<lparr>oncpu := b, stat := stat x AND - 9\<rparr>) = stat_of x"
  by (simp add: stat_of_def and.assoc)

lemma prio_ok_oncpu_stat [simp]:
  "prio_ok (x\<lparr>oncpu := b, stat := b2\<rparr>) = prio_ok x" "home (x\<lparr>oncpu := b, stat := b2\<rparr>) = home x"
  by (simp_all add: prio_ok_def home_def)

text \<open>The outgoing thread: requeued when it was running, only taken off its CPU otherwise.\<close>

lemma requeue_current:
  assumes "sched_inv k" "c < 2" "current_thread (cpus k c) = Some cur"
  defines "k3 \<equiv> (if stat_of (thr k cur) = RT_THREAD_RUNNING
             then rt_schedule_insert_thread c cur (upd_thr cur
                    (\<lambda>x. x\<lparr>oncpu := RT_CPU_DETACHED, stat := stat x AND NOT RT_THREAD_STAT_YIELD\<rparr>) k)
             else upd_thr cur (\<lambda>x. x\<lparr>oncpu := RT_CPU_DETACHED\<rparr>) k)"
  shows "sched_inv_ex {cur} k3"
    and "oncpu (thr k3 cur) = RT_CPU_DETACHED \<and> stat_of (thr k3 cur) \<noteq> RT_THREAD_INIT"
    and "\<And>s. s \<noteq> cur \<Longrightarrow> thr k3 s = thr k s"
    and "\<And>d. current_thread (cpus k3 d) = current_thread (cpus k d)"
    and "tlists k3 = (if stat_of (thr k cur) = RT_THREAD_RUNNING
           then (tlists k)(home (thr k cur) := tlists k (home (thr k cur)) @ [cur]) else tlists k)"
    and "started (thr k3 cur) \<Longrightarrow> prio_ok (thr k3 cur) \<and> stat_of (thr k3 cur) \<noteq> RT_THREAD_RUNNING \<and>
      (stat_of (thr k3 cur) = RT_THREAD_READY \<longrightarrow> cur \<in> set (tlists k3 (home (thr k3 cur))))"
proof -
  let ?f = "\<lambda>x. x\<lparr>oncpu := RT_CPU_DETACHED, stat := stat x AND NOT RT_THREAD_STAT_YIELD\<rparr>"
  let ?k2 = "upd_thr cur ?f k"
  have ok: "thread_ok cur k" using sched_inv_exD(4) [OF assms(1)] by simp
  have rq: "cur \<notin> set (tlists k l)" if "is_rq l" for l
    using current_not_queued [OF assms(1-3) that] .
  have run: "started (thr k cur)" if "stat_of (thr k cur) = RT_THREAD_RUNNING"
    using that by (simp add: started_def)
  show "sched_inv_ex {cur} k3"
  proof (cases "stat_of (thr k cur) = RT_THREAD_RUNNING")
    case True
    have off: "off_lists cur ?k2"
      using running_off_lists [OF sched_inv_exD(3) [OF assms(1)] True] by (simp add: off_lists_def)
    have "sched_inv_ex {cur} ?k2"
      using sched_inv_upd_stat [OF assms(1) rq, of ?f] by simp
    from sched_inv_insert [OF this off, of c] thread_okD(1) [OF ok run [OF True]] True
    show ?thesis by (simp add: k3_def)
  next
    case False
    then show ?thesis
      using sched_inv_upd_stat [OF assms(1) rq, of "\<lambda>x. x\<lparr>oncpu := RT_CPU_DETACHED\<rparr>"]
      by (simp add: k3_def)
  qed
  have "stat_of (thr k cur) \<noteq> RT_THREAD_INIT" using ok assms(2,3) by (simp add: thread_ok_def)
  then show "oncpu (thr k3 cur) = RT_CPU_DETACHED \<and> stat_of (thr k3 cur) \<noteq> RT_THREAD_INIT"
    by (simp add: k3_def insert_thread_thr)
  show "thr k3 s = thr k s" if "s \<noteq> cur" for s using that by (simp add: k3_def insert_thread_thr)
  show "current_thread (cpus k3 d) = current_thread (cpus k d)" for d by (simp add: k3_def)
  show "tlists k3 = (if stat_of (thr k cur) = RT_THREAD_RUNNING
           then (tlists k)(home (thr k cur) := tlists k (home (thr k cur)) @ [cur]) else tlists k)"
    by (simp add: k3_def insert_thread_detached(1))
  assume s: "started (thr k3 cur)"
  then have "started (thr k cur)" using run by (auto simp: k3_def started_def split: if_splits)
  with ok have "prio_ok (thr k cur)"
    "stat_of (thr k cur) = RT_THREAD_READY \<longrightarrow> cur \<in> set (tlists k (home (thr k cur)))"
    by (simp_all add: thread_ok_def)
  then show "prio_ok (thr k3 cur) \<and> stat_of (thr k3 cur) \<noteq> RT_THREAD_RUNNING \<and>
      (stat_of (thr k3 cur) = RT_THREAD_READY \<longrightarrow> cur \<in> set (tlists k3 (home (thr k3 cur))))"
    by (simp add: k3_def insert_thread_thr insert_thread_detached(1))
qed

text \<open>The outcome of the switch: total, keeps the invariant, and the CPU then runs a thread that
  no thread waiting for it precedes.\<close>

definition runs_highest :: "nat \<Rightarrow> kernel \<Rightarrow> bool" where
  "runs_highest c k \<longleftrightarrow> (\<exists>u. current_thread (cpus k c) = Some u \<and>
     (\<forall>p. eligible c k p \<noteq> {} \<longrightarrow>
        stat_of (thr k u) = RT_THREAD_RUNNING \<and> unat (current_priority (thr k u)) \<le> p))"

lemma schedule_switch_correct:
  assumes "sched_inv k" "c < 2" "current_thread (cpus k c) = Some cur"
  shows "\<exists>k'. schedule_switch c cur k = Some k' \<and> sched_inv k' \<and> runs_highest c k' \<and>
    (\<forall>d. d \<noteq> c \<longrightarrow> current_thread (cpus k' d) = current_thread (cpus k d))"
  using assms
proof (cases rule: schedule_switch_cases)
  case idle
  then show ?thesis using assms by (simp add: runs_highest_def)
next
  case (keep p)
  have "unat (current_priority (thr k cur)) \<le> q" if "eligible c k q \<noteq> {}" for q
    using that keep(3,5) by (metis le_trans less_imp_le not_le order_refl)
  with keep assms show ?thesis by (simp add: runs_highest_def)
next
  case (switch to p ts l k3)
  note rc = requeue_current [OF assms, folded switch(6)]
  have l: "is_rq l" using switch(3) by auto
  have tk: "to \<in> set (tlists k l)" using switch(4) by simp
  note q = queued_okD [OF sched_inv_exD(3) [OF assms(1)] l tk]
  have ne: "cur \<noteq> to" using current_not_queued [OF assms l] tk by auto
  have t3: "to \<in> set (tlists k3 l)" using tk by (auto simp: rc(5))
  have free: "current_thread (cpus k d) \<noteq> Some to" if "d < 2" for d
    using current_not_queued [OF assms(1) that _ l] tk by blast
  have solo: "current_thread (cpus k d) \<noteq> Some cur" if "d < 2" "d \<noteq> c" for d
    using current_unique [OF assms(1,2) that(1) assms(3)] that(2) by blast
  let ?k = "give_cpu c to (of_nat p) k3"
  have "sched_inv ?k"
    by (rule give_cpu_inv [OF rc(1) assms(2) t3 l ne]) (use free solo assms(3) rc in auto)
  moreover have "unat (current_priority (thr k to)) = p"
    using q(1) switch(3) by (auto simp: home_def split: if_splits)
  moreover have "p \<le> r" if "eligible c ?k r \<noteq> {}" for r
  proof (rule ccontr)
    assume r: "\<not> p \<le> r"
    with switch(5) have em: "eligible c k r = {}" by simp
    have "home (thr k cur) \<noteq> Ready r \<and> home (thr k cur) \<noteq> CpuReady c r"
      if "stat_of (thr k cur) = RT_THREAD_RUNNING"
      using switch(7) [OF that] r by (auto simp: home_def)
    with em have "eligible c ?k r = {}"
      by (auto simp: eligible_def give_cpu_simps rc(5))
    with that show False by simp
  qed
  ultimately show ?thesis
    using switch(1) rc(3) [of to] rc(4) ne
    by (auto simp: runs_highest_def give_cpu_simps)
qed

lemma resume_total:
  assumes "is_thread t k" "is_timer (ThreadTimer t) k"
  shows "\<exists>r k'. rt_thread_resume c t k = Some (r, k')"
  using assms by (auto simp: rt_thread_resume_def rt_timer_stop_def is_timer_def)

lemma signal_wakeup_correct:
  assumes "sched_inv k" "is_thread t k" "is_timer (ThreadTimer t) k"
  obtains k' where "signal_wakeup c t k = Some k'" "sched_inv k'"
    and "\<And>d. current_thread (cpus k' d) = current_thread (cpus k d)"
    and "\<And>s. scheduler_lock_nest (thr k' s) = scheduler_lock_nest (thr k s)"
proof -
  obtain r k' where r: "rt_thread_resume c t k = Some (r, k')" using resume_total [OF assms(2,3)] by blast
  have "scheduler_lock_nest (thr k' s) = scheduler_lock_nest (thr k s)" for s
    using r by (auto elim!: resumeE simp: timer_stop_frame insert_thread_thr)
  with r resume_keeps [OF assms(1) r] resume_effect(4) [OF r] assms(1) show ?thesis
    by (cases "signal_wakeup c t k = Some k") (auto simp: signal_wakeup_def split: if_splits intro: that)
qed

section \<open>A state\<close>

text \<open>A state for the examples: on CPU 0 thread 1 runs at priority 10 with status byte \<open>st\<close>, thread 2
  is ready at priority \<open>p\<close> and free to run anywhere, CPU 1 has not started.\<close>

definition demo_thread :: "u8 \<Rightarrow> u8 \<Rightarrow> u8 \<Rightarrow> rt_thread" where
  "demo_thread st prio c = zero_thread\<lparr>stat := st, current_priority := prio, init_priority := prio,
     number_mask := push_bit (unat prio) 1, bind_cpu := RT_CPUS_NR, oncpu := c\<rparr>"

definition demo_state :: "u8 \<Rightarrow> u8 \<Rightarrow> kernel" where
  "demo_state st p = zero_kernel
     \<lparr>thr := (\<lambda>_. zero_thread)(1 := demo_thread st 10 0,
                              2 := demo_thread RT_THREAD_READY p RT_CPU_DETACHED),
      tlists := (\<lambda>_. [])(Ready (unat p) := [2]), ready_priority_group := push_bit (unat p) 1,
      cpus := (\<lambda>_. zero_cpu)(0 := zero_cpu\<lparr>current_thread := Some 1\<rparr>),
      obj := (\<lambda>x. case x of Obj t \<Rightarrow>
                     if t = 1 \<or> t = 2 then zero_object\<lparr>o_type := RT_Object_Class_Thread\<rparr> else zero_object
                 | _ \<Rightarrow> zero_object\<lparr>o_type := RT_Object_Class_Timer\<rparr>)\<rparr>"

definition demo_kernel :: kernel where
  "demo_kernel = demo_state RT_THREAD_RUNNING 5"

lemmas demo_defs = demo_kernel_def demo_state_def demo_thread_def zero_defs stat_of_def started_def

lemma demo_state_inv:
  assumes "st AND 7 = RT_THREAD_RUNNING" "unat p < 32"
  shows "sched_inv (demo_state st p)"
proof -
  have "bitmap_ok (push_bit (unat p) 1) (\<lambda>q. if q = unat p then [2] else [])"
    unfolding bitmap_ok_def bit_one_shift using assms(2) by simp
  moreover have "bitmap_ok 0 (\<lambda>_. [])" by (simp add: bitmap_ok_def)
  ultimately have "bits_ok (demo_state st p)" by (simp add: bits_ok_def demo_defs)
  moreover have "tlists_ok (tlists (demo_state st p))" by (auto simp: tlists_ok_def demo_defs)
  moreover have "queued_ok (demo_state st p)"
    using assms by (auto simp: queued_ok_def home_def prio_ok_def demo_defs)
  moreover have "thread_ok t (demo_state st p)" for t
    using assms by (simp add: thread_ok_def home_def prio_ok_def is_thread_def rt_object_get_type_def demo_defs)
  ultimately show ?thesis by (simp add: sched_inv_ex_def)
qed

lemma demo_inv: "sched_inv demo_kernel"
  unfolding demo_kernel_def by (rule demo_state_inv) simp_all

section \<open>Properties\<close>

text \<open>C4. Outside interrupts and with the scheduler unlocked, \<^verbatim>\<open>rt_schedule\<close> returns, keeps the
  scheduler invariant (bitmaps, queues, thread states and CPU assignment agree), leaves the other
  CPU's current thread alone, and leaves its own CPU running a thread that no ready thread the CPU
  may run, neither global nor bound to it, precedes in priority.\<close>

theorem rt_schedule_runs_highest:
  assumes "sched_inv k" "c < 2" "current_thread (cpus k c) = Some cur"
    and "irq_nest (cpus k c) = 0" "scheduler_lock_nest (thr k cur) = 0"
    and "is_thread cur k" "is_timer (ThreadTimer cur) k"
  shows "\<exists>k'. rt_schedule c k = Some k' \<and> sched_inv k' \<and> runs_highest c k' \<and>
    (\<forall>d. d \<noteq> c \<longrightarrow> current_thread (cpus k' d) = current_thread (cpus k d))"
proof -
  obtain k1 where k1: "signal_wakeup c cur k = Some k1" "sched_inv k1"
    "\<And>d. current_thread (cpus k1 d) = current_thread (cpus k d)"
    "\<And>s. scheduler_lock_nest (thr k1 s) = scheduler_lock_nest (thr k s)"
    using signal_wakeup_correct [OF assms(1,6,7)] by blast
  from k1(3) assms(3) have "current_thread (cpus k1 c) = Some cur" by simp
  from schedule_switch_correct [OF k1(2) assms(2) this] k1 assms(3-5) show ?thesis
    by (simp add: rt_schedule_def)
qed

theorem rt_schedule_runs_highest_witness:
  "\<exists>k'. rt_schedule 0 demo_kernel = Some k' \<and> sched_inv k' \<and> runs_highest 0 k'"
  using rt_schedule_runs_highest [OF demo_inv, of 0 1]
  by (auto simp: demo_defs is_thread_def is_timer_def rt_object_get_type_def)

end
