(* ===== verification/Thread.thy ===== *)
theory Thread
  imports SchedInv
begin

text \<open>
  Threads (\<^verbatim>\<open>src/thread.c\<close>), the part of the timers that runs or wakes threads (\<^verbatim>\<open>src/timer.c\<close>) and
  the clock (\<^verbatim>\<open>src/clock.c\<close>). The callbacks of timers that are not the kernel's own are the
  parameter \<open>user\<close> of the definitions that call them: callback number, CPU, parameter and state to
  the state after the call (\<open>None\<close> when it does not return). The memory the allocator returns is an
  argument, as in theory \<open>KObject\<close>. A call that blocks its own thread is split where the thread
  stops: \<open>_enter\<close> is the code up to the switch, \<open>_resume\<close> the code after it.
\<close>

section \<open>Starting a timer\<close>

definition rt_timer_start :: "nat \<Rightarrow> oid \<Rightarrow> kernel \<Rightarrow> kernel option" where
  "rt_timer_start c x k = do {
     k1 \<leftarrow> rt_timer_start_core x k;
     if o_flag (obj k1 x) AND RT_TIMER_FLAG_SOFT_TIMER \<noteq> 0 \<and>
        stat_of (thr k1 (timer_thread k1)) = RT_THREAD_SUSPEND
     then do {
       (_, k2) \<leftarrow> rt_thread_resume c (timer_thread k1) k1;
       rt_schedule c k2 }
     else Some k1 }"

section \<open>Creating, starting and ending threads\<close>

text \<open>\<^verbatim>\<open>_rt_thread_init\<close>. The list node of the thread is initialised to be on no list.\<close>

definition thread_init_fields ::
    "nat \<Rightarrow> code_ptr \<Rightarrow> nat \<Rightarrow> nat \<Rightarrow> u32 \<Rightarrow> u8 \<Rightarrow> u32 \<Rightarrow> kernel \<Rightarrow> kernel option" where
  "thread_init_fields t ent param stack_start stacksize priority ticks k = do {
     rt_assert (priority < RT_THREAD_PRIORITY_MAX);
     rt_timer_init (ThreadTimer t) (o_name (obj k (Obj t))) Thread_timeout t 0 RT_TIMER_FLAG_ONE_SHOT
       (upd_thr t (\<lambda>x. x\<lparr>entry := ent, parameter := param, stack_addr := stack_start,
          stack_size := stacksize, init_priority := priority, current_priority := priority,
          number_mask := 0, init_tick := ticks, remaining_tick := ticks, error := RT_EOK,
          stat := RT_THREAD_INIT, bind_cpu := RT_CPUS_NR, oncpu := RT_CPU_DETACHED,
          scheduler_lock_nest := 0, cpus_lock_nest := 0, critical_lock_nest := 0,
          cleanup := None\<rparr>) k) }"

definition rt_thread_init ::
    "nat \<Rightarrow> string \<Rightarrow> code_ptr \<Rightarrow> nat \<Rightarrow> nat \<Rightarrow> u32 \<Rightarrow> u8 \<Rightarrow> u32 \<Rightarrow> kernel \<Rightarrow> kernel option" where
  "rt_thread_init t name ent param stack_start stacksize priority ticks k = do {
     rt_assert (stack_start \<noteq> 0);
     k1 \<leftarrow> rt_object_init (Obj t) RT_Object_Class_Thread name k;
     thread_init_fields t ent param stack_start stacksize priority ticks k1 }"

definition rt_thread_create ::
    "nat \<Rightarrow> string \<Rightarrow> code_ptr \<Rightarrow> nat \<Rightarrow> u32 \<Rightarrow> u8 \<Rightarrow> u32 \<Rightarrow> nat option \<Rightarrow> nat option \<Rightarrow> kernel \<Rightarrow>
     (nat option \<times> kernel) option" where
  "rt_thread_create c name ent param stacksize priority ticks malloc malloc_stack k = do {
     (a, k1) \<leftarrow> rt_object_allocate c RT_Object_Class_Thread name malloc k;
     (case a of
        None \<Rightarrow> Some (None, k1)
      | Some t \<Rightarrow>
          (case malloc_stack of
             None \<Rightarrow> map_option (\<lambda>k2. (None, k2)) (rt_object_delete (Obj t) k1)
           | Some stack_start \<Rightarrow>
               map_option (\<lambda>k2. (Some t, k2))
                 (thread_init_fields t ent param stack_start stacksize priority ticks k1))) }"

text \<open>The thread is dereferenced without a null check when the period is not zero.\<close>

definition rt_thread_create_periodic ::
    "nat \<Rightarrow> string \<Rightarrow> code_ptr \<Rightarrow> nat \<Rightarrow> u32 \<Rightarrow> u8 \<Rightarrow> u32 \<Rightarrow> u32 \<Rightarrow> nat option \<Rightarrow> nat option \<Rightarrow>
     kernel \<Rightarrow> (nat option \<times> kernel) option" where
  "rt_thread_create_periodic c name ent param stacksize priority ticks per malloc malloc_stack k = do {
     (a, k1) \<leftarrow> rt_thread_create c name (if per \<noteq> 0 then Periodic_task_f else ent) param stacksize
                  priority ticks malloc malloc_stack k;
     if per = 0 then Some (a, k1)
     else do {
       t \<leftarrow> a;
       let k2 = upd_thr t (\<lambda>x. x\<lparr>period := per, entry_callback := Some ent\<rparr>) k1;
       k3 \<leftarrow> rt_timer_init (PeriodTimer t) name Thread_timer_f t per RT_TIMER_FLAG_PERIODIC k2;
       Some (Some t, k3) } }"

text \<open>\<^verbatim>\<open>__rt_thread_startup\<close>.\<close>

definition thread_startup :: "nat \<Rightarrow> nat \<Rightarrow> kernel \<Rightarrow> kernel option" where
  "thread_startup c t k = do {
     rt_assert (stat_of (thr k t) = RT_THREAD_INIT);
     rt_assert (is_thread t k);
     let k1 = upd_thr t (\<lambda>x. x\<lparr>current_priority := init_priority x,
                               number_mask := push_bit (unat (init_priority x)) 1,
                               stat := RT_THREAD_SUSPEND\<rparr>) k;
     (_, k2) \<leftarrow> rt_thread_resume c t k1;
     if rt_thread_self c k2 \<noteq> None then rt_schedule c k2 else Some k2 }"

definition rt_thread_startup :: "nat \<Rightarrow> nat \<Rightarrow> kernel \<Rightarrow> kernel option" where
  "rt_thread_startup c t k =
     (if period (thr k t) = 0 then thread_startup c t k else rt_timer_start c (PeriodTimer t) k)"

definition defunct_or_detach :: "nat \<Rightarrow> kernel \<Rightarrow> kernel" where
  "defunct_or_detach t k =
     (if rt_object_is_systemobject (Obj t) k \<and> cleanup (thr k t) = None
      then rt_object_detach (Obj t) k else tlist_insert_after Defunct t k)"

definition rt_thread_exit :: "nat \<Rightarrow> kernel \<Rightarrow> kernel option" where
  "rt_thread_exit c k = do {
     t \<leftarrow> rt_thread_self c k;
     let k1 = upd_thr t (\<lambda>x. x\<lparr>stat := RT_THREAD_CLOSE\<rparr>) (rt_schedule_remove_thread t k);
     k2 \<leftarrow> rt_timer_detach (ThreadTimer t) k1;
     rt_schedule c (defunct_or_detach t k2) }"

definition remove_if_started :: "nat \<Rightarrow> kernel \<Rightarrow> kernel" where
  "remove_if_started t k =
     (if stat_of (thr k t) \<noteq> RT_THREAD_INIT then rt_schedule_remove_thread t k else k)"

definition rt_thread_detach :: "nat \<Rightarrow> kernel \<Rightarrow> kernel option" where
  "rt_thread_detach t k = do {
     rt_assert (is_thread t k);
     rt_assert (rt_object_is_systemobject (Obj t) k);
     k1 \<leftarrow> rt_timer_detach (ThreadTimer t) (remove_if_started t k);
     Some (defunct_or_detach t (upd_thr t (\<lambda>x. x\<lparr>stat := RT_THREAD_CLOSE\<rparr>) k1)) }"

definition rt_thread_delete :: "nat \<Rightarrow> kernel \<Rightarrow> kernel option" where
  "rt_thread_delete t k = do {
     rt_assert (is_thread t k);
     rt_assert (\<not> rt_object_is_systemobject (Obj t) k);
     k1 \<leftarrow> rt_timer_detach (ThreadTimer t) (remove_if_started t k);
     Some (tlist_insert_after Defunct t (upd_thr t (\<lambda>x. x\<lparr>stat := RT_THREAD_CLOSE\<rparr>) k1)) }"

section \<open>Yielding, sleeping and priorities\<close>

definition rt_thread_yield :: "nat \<Rightarrow> kernel \<Rightarrow> kernel option" where
  "rt_thread_yield c k = rt_schedule c k"

text \<open>The suspension of a sleeping thread, with its timer set to the time to sleep.\<close>

definition suspend_for :: "nat \<Rightarrow> nat \<Rightarrow> u32 \<Rightarrow> kernel \<Rightarrow> kernel option" where
  "suspend_for c t time k = do {
     (_, k1) \<leftarrow> rt_thread_suspend c t k;
     (_, _, k2) \<leftarrow> rt_timer_control (ThreadTimer t) Ctrl_set_time time k1;
     k3 \<leftarrow> rt_timer_start c (ThreadTimer t) k2;
     rt_schedule c k3 }"

definition rt_thread_sleep_enter :: "nat \<Rightarrow> u32 \<Rightarrow> kernel \<Rightarrow> (nat \<times> kernel) option" where
  "rt_thread_sleep_enter c time k = do {
     t \<leftarrow> rt_thread_self c k;
     rt_assert (is_thread t k);
     k1 \<leftarrow> suspend_for c t time k;
     Some (t, k1) }"

definition rt_thread_sleep_resume :: "nat \<Rightarrow> kernel \<Rightarrow> rt_err_t \<times> kernel" where
  "rt_thread_sleep_resume t k =
     (RT_EOK, if error (thr k t) = - RT_ETIMEOUT then upd_thr t (\<lambda>x. x\<lparr>error := RT_EOK\<rparr>) k else k)"

definition rt_thread_delay :: "nat \<Rightarrow> u32 \<Rightarrow> kernel \<Rightarrow> (nat \<times> kernel) option" where
  "rt_thread_delay c time k = rt_thread_sleep_enter c time k"

text \<open>\<open>Inl\<close> is the call that returns at once, with the new value of \<^verbatim>\<open>*tick\<close>; \<open>Inr\<close> the blocked
  thread and the value the code puts into \<^verbatim>\<open>*tick\<close> for the timer.\<close>

definition rt_thread_delay_until_enter ::
    "nat \<Rightarrow> u32 \<Rightarrow> u32 \<Rightarrow> kernel \<Rightarrow> ((u32 \<times> kernel) + (nat \<times> u32 \<times> kernel)) option" where
  "rt_thread_delay_until_enter c last_tick inc_tick k = do {
     t \<leftarrow> rt_thread_self c k;
     rt_assert (is_thread t k);
     if rt_tick_get k - last_tick < inc_tick then do {
       let wait = rt_tick_get k - last_tick + inc_tick;
       k1 \<leftarrow> suspend_for c t wait k;
       Some (Inr (t, wait, k1)) }
     else Some (Inl (rt_tick_get k, k)) }"

definition rt_thread_delay_until_resume :: "nat \<Rightarrow> kernel \<Rightarrow> rt_err_t \<times> u32 \<times> kernel" where
  "rt_thread_delay_until_resume t k =
     (let (_, k1) = rt_thread_sleep_resume t k in (RT_EOK, rt_tick_get k1, k1))"

text \<open>\<^verbatim>\<open>rt_tick_from_millisecond\<close>: the argument is a signed 32-bit integer, the arithmetic of the
  other branch is that of \<^verbatim>\<open>int\<close>.\<close>

definition rt_tick_from_millisecond :: "32 word \<Rightarrow> u32" where
  "rt_tick_from_millisecond ms =
     (if sint ms < 0 then RT_WAITING_FOREVER
      else of_int (100 * (sint ms div 1000)) + of_int ((100 * (sint ms mod 1000) + 999) div 1000))"

definition rt_thread_mdelay :: "nat \<Rightarrow> 32 word \<Rightarrow> kernel \<Rightarrow> (nat \<times> kernel) option" where
  "rt_thread_mdelay c ms k = rt_thread_sleep_enter c (rt_tick_from_millisecond ms) k"

definition set_priority :: "u8 \<Rightarrow> rt_thread \<Rightarrow> rt_thread" where
  "set_priority p x = x\<lparr>current_priority := p, number_mask := push_bit (unat p) 1\<rparr>"

definition change_priority :: "nat \<Rightarrow> nat \<Rightarrow> u8 \<Rightarrow> kernel \<Rightarrow> kernel" where
  "change_priority c t p k =
     (if stat_of (thr k t) = RT_THREAD_READY
      then rt_schedule_insert_thread c t (upd_thr t (set_priority p) (rt_schedule_remove_thread t k))
      else upd_thr t (set_priority p) k)"

datatype thread_cmd =
  Ctrl_change_priority u8 | Ctrl_startup | Ctrl_close | Ctrl_bind_cpu u8 | Ctrl_thread_other

definition rt_thread_control ::
    "nat \<Rightarrow> nat \<Rightarrow> thread_cmd \<Rightarrow> kernel \<Rightarrow> (rt_err_t \<times> kernel) option" where
  "rt_thread_control c t cmd k = do {
     rt_assert (is_thread t k);
     (case cmd of
        Ctrl_change_priority p \<Rightarrow> Some (RT_EOK, change_priority c t p k)
      | Ctrl_startup \<Rightarrow> map_option (\<lambda>k'. (RT_EOK, k')) (rt_thread_startup c t k)
      | Ctrl_close \<Rightarrow> map_option (\<lambda>k'. (RT_EOK, k')) (rt_thread_delete t k)
      | Ctrl_bind_cpu cpu \<Rightarrow>
          Some (if stat_of (thr k t) \<noteq> RT_THREAD_INIT then (RT_ERROR, k)
                else (RT_EOK, upd_thr t (\<lambda>x. x\<lparr>bind_cpu :=
                        if cpu > RT_CPUS_NR then RT_CPUS_NR else cpu\<rparr>) k))
      | Ctrl_thread_other \<Rightarrow> Some (RT_EOK, k)) }"

definition rt_thread_find :: "nat \<Rightarrow> string \<Rightarrow> kernel \<Rightarrow> (oid option \<times> kernel) option" where
  "rt_thread_find c name k = do {
     let self = rt_thread_self c k;
     let k1 = (if self \<noteq> None then rt_enter_critical c k else k);
     information \<leftarrow> rt_object_get_information RT_Object_Class_Thread;
     let found = List.find (\<lambda>x. o_name (obj k1 x) = take RT_NAME_MAX name) (containers k1 information);
     k2 \<leftarrow> (if rt_thread_self c k1 \<noteq> None then rt_exit_critical c k1 else Some k1);
     Some (found, k2) }"

section \<open>Timeouts\<close>

definition rt_thread_timeout :: "nat \<Rightarrow> nat \<Rightarrow> kernel \<Rightarrow> kernel option" where
  "rt_thread_timeout c t k = do {
     rt_assert (stat_of (thr k t) = RT_THREAD_SUSPEND);
     rt_assert (is_thread t k);
     rt_schedule c
       (rt_schedule_insert_thread c t
         (tlist_remove t (upd_thr t (\<lambda>x. x\<lparr>error := - RT_ETIMEOUT\<rparr>) k))) }"

definition rt_thread_timer_f :: "nat \<Rightarrow> nat \<Rightarrow> kernel \<Rightarrow> kernel option" where
  "rt_thread_timer_f c t k =
     (let st = stat_of (thr k t) in
      if st = RT_THREAD_INIT then thread_startup c t k
      else if st = RT_THREAD_SUSPEND then do {
        (_, k1) \<leftarrow> rt_thread_resume c t k;
        if rt_thread_self c k1 \<noteq> None then rt_schedule c k1 else Some k1 }
      else do {
        (_, k1) \<leftarrow> rt_timer_stop (PeriodTimer t) k;
        rt_thread_delete t k1 })"

type_synonym user_callback = "nat \<Rightarrow> nat \<Rightarrow> nat \<Rightarrow> kernel \<Rightarrow> kernel option"

definition call_timeout :: "user_callback \<Rightarrow> nat \<Rightarrow> oid \<Rightarrow> kernel \<Rightarrow> kernel option" where
  "call_timeout user c x k =
     (case timeout_func (tmr k x) of
        Thread_timeout \<Rightarrow> rt_thread_timeout c (tm_parameter (tmr k x)) k
      | Thread_timer_f \<Rightarrow> rt_thread_timer_f c (tm_parameter (tmr k x)) k
      | User_timeout n \<Rightarrow> user n c (tm_parameter (tmr k x)) k)"

definition timer_due :: "u32 \<Rightarrow> oid \<Rightarrow> kernel \<Rightarrow> bool" where
  "timer_due now x k \<longleftrightarrow> now - timeout_tick (tmr k x) < HALF_TICK_MAX"

definition deactivate :: "oid \<Rightarrow> kernel \<Rightarrow> kernel" where
  "deactivate x k = upd_obj x (\<lambda>ob. ob\<lparr>o_flag := o_flag ob AND NOT RT_TIMER_FLAG_ACTIVATED\<rparr>) k"

text \<open>What follows a callback: a periodic timer that is still active starts again.\<close>

definition timer_rearm :: "nat \<Rightarrow> oid \<Rightarrow> kernel \<Rightarrow> kernel option" where
  "timer_rearm c x k =
     (let k1 = deactivate x k in
      if o_flag (obj k x) AND RT_TIMER_FLAG_PERIODIC \<noteq> 0 \<and>
         o_flag (obj k x) AND RT_TIMER_FLAG_ACTIVATED \<noteq> 0
      then rt_timer_start c x k1 else Some k1)"

partial_function (option) timer_check_loop ::
    "user_callback \<Rightarrow> nat \<Rightarrow> u32 \<Rightarrow> kernel \<Rightarrow> kernel option" where
  "timer_check_loop user c now k =
     (case timer_list k of
        [] \<Rightarrow> Some k
      | x # _ \<Rightarrow>
          if timer_due now x k then do {
            k1 \<leftarrow> call_timeout user c x (rt_timer_remove x k);
            k2 \<leftarrow> timer_rearm c x k1;
            timer_check_loop user c (rt_tick_get k1) k2 }
          else Some k)"

definition rt_timer_check :: "user_callback \<Rightarrow> nat \<Rightarrow> kernel \<Rightarrow> kernel option" where
  "rt_timer_check user c k = timer_check_loop user c (rt_tick_get k) k"

text \<open>The loop over the soft timers keeps a pointer to the node after the one it handles: the next
  node on the list, \<open>None\<close> for the list head, and the node itself when it has been removed.\<close>

fun node_after :: "'a \<Rightarrow> 'a list \<Rightarrow> 'a option" where
  "node_after x [] = Some x"
| "node_after x (y # ys) = (if x = y then (case ys of [] \<Rightarrow> None | z # _ \<Rightarrow> Some z) else node_after x ys)"

partial_function (option) soft_timer_loop ::
    "user_callback \<Rightarrow> nat \<Rightarrow> u32 \<Rightarrow> oid option \<Rightarrow> kernel \<Rightarrow> kernel option" where
  "soft_timer_loop user c now n k =
     (case n of
        None \<Rightarrow> Some k
      | Some x \<Rightarrow>
          if timer_due now x k then do {
            let n1 = node_after x (soft_timer_list k);
            k1 \<leftarrow> rt_exit_critical c (rt_timer_remove x k);
            k2 \<leftarrow> call_timeout user c x k1;
            k3 \<leftarrow> timer_rearm c x (rt_enter_critical c k2);
            soft_timer_loop user c (rt_tick_get k2) n1 k3 }
          else Some k)"

definition rt_soft_timer_check :: "user_callback \<Rightarrow> nat \<Rightarrow> kernel \<Rightarrow> kernel option" where
  "rt_soft_timer_check user c k = do {
     let k1 = rt_enter_critical c k;
     k2 \<leftarrow> soft_timer_loop user c (rt_tick_get k)
             (case soft_timer_list k1 of [] \<Rightarrow> None | x # _ \<Rightarrow> Some x) k1;
     rt_exit_critical c k2 }"

text \<open>One round of \<^verbatim>\<open>rt_thread_timer_entry\<close>: what the timer thread does before it checks the soft
  timers (\<open>rt_soft_timer_check\<close> is the rest of the round), waiting without a limit or for the time to
  the next timeout.\<close>

definition timer_entry_wait :: "nat \<Rightarrow> kernel \<Rightarrow> kernel option" where
  "timer_entry_wait c k =
     (let next_timeout = rt_timer_list_next_timeout (soft_timer_list k) k in
      if next_timeout = RT_TICK_MAX then do {
        t \<leftarrow> rt_thread_self c k;
        (_, k1) \<leftarrow> rt_thread_suspend c t k;
        rt_schedule c k1 }
      else if next_timeout - rt_tick_get k < HALF_TICK_MAX
      then map_option snd (rt_thread_delay c (next_timeout - rt_tick_get k) k)
      else Some k)"

definition rt_system_timer_init :: "kernel \<Rightarrow> kernel" where
  "rt_system_timer_init k = k\<lparr>timer_list := []\<rparr>"

definition rt_system_timer_thread_init :: "nat \<Rightarrow> nat \<Rightarrow> kernel \<Rightarrow> kernel option" where
  "rt_system_timer_thread_init c stack_start k = do {
     let k1 = k\<lparr>soft_timer_list := []\<rparr>;
     k2 \<leftarrow> rt_thread_init (timer_thread k1) ''timer'' Timer_entry 0 stack_start 1024 4 10 k1;
     rt_thread_startup c (timer_thread k2) k2 }"

section \<open>The clock\<close>

definition rt_tick_set :: "u32 \<Rightarrow> kernel \<Rightarrow> kernel" where
  "rt_tick_set v k = upd_cpu 0 (\<lambda>p. p\<lparr>tick := v\<rparr>) k"

definition rt_tick_increase :: "user_callback \<Rightarrow> nat \<Rightarrow> kernel \<Rightarrow> kernel option" where
  "rt_tick_increase user c k = do {
     let k1 = upd_cpu c (\<lambda>p. p\<lparr>tick := tick p + 1\<rparr>) k;
     t \<leftarrow> rt_thread_self c k1;
     let k2 = upd_thr t (\<lambda>x. x\<lparr>remaining_tick := remaining_tick x - 1\<rparr>) k1;
     k3 \<leftarrow> (if remaining_tick (thr k2 t) = 0
            then rt_thread_yield c (upd_thr t (\<lambda>x. x\<lparr>remaining_tick := init_tick x,
                                                     stat := stat x OR RT_THREAD_STAT_YIELD\<rparr>) k2)
            else Some k2);
     rt_timer_check user c k3 }"

end
