(* ===== verification/ThreadInv.thy ===== *)
theory ThreadInv
  imports Thread
begin

text \<open>
  What the thread operations keep: each of them preserves the scheduler invariant, so every state
  that a sequence of kernel calls from both CPUs reaches has it (the step relation \<open>sched_step\<close>).
  Then the behaviour of the operations one by one.
\<close>

section \<open>Each operation keeps the invariant\<close>

lemma signal_wakeup_keeps:
  "sched_inv k \<Longrightarrow> signal_wakeup c t k = Some k' \<Longrightarrow> sched_inv k'"
  by (auto simp: signal_wakeup_def resume_keeps split: if_splits)

lemma signal_wakeup_current:
  "signal_wakeup c t k = Some k' \<Longrightarrow> current_thread (cpus k' d) = current_thread (cpus k d)"
  by (auto simp: signal_wakeup_def resume_effect(4) split: if_splits)

lemma sched_inv_cpu_fields:
  "sched_inv_ex X (upd_cpu c (\<lambda>p. p\<lparr>irq_switch_flag := v\<rparr>) k) = sched_inv_ex X k"
  "sched_inv_ex X (upd_cpu c (\<lambda>p. p\<lparr>tick := w\<rparr>) k) = sched_inv_ex X k"
  "sched_inv_ex X (upd_cpu c (\<lambda>p. p\<lparr>irq_nest := n\<rparr>) k) = sched_inv_ex X k"
  by (rule sched_inv_ex_cong; simp)+

lemma schedule_switch_keeps:
  assumes "sched_inv k" "c < 2" "current_thread (cpus k c) = Some cur" "schedule_switch c cur k = Some k'"
  shows "sched_inv k'"
  using schedule_switch_correct [OF assms(1-3)] assms(4) by auto

lemma rt_schedule_keeps:
  assumes "sched_inv k" "c < 2" "rt_schedule c k = Some k'"
  shows "sched_inv k'"
proof (cases "irq_nest (cpus k c) = 0")
  case False
  with assms show ?thesis by (auto simp: rt_schedule_def sched_inv_cpu_fields)
next
  case True
  with assms(3) obtain cur k1 where cur: "current_thread (cpus k c) = Some cur"
    "signal_wakeup c cur k = Some k1"
    "(if scheduler_lock_nest (thr k1 cur) + 1 = 1 then schedule_switch c cur k1 else Some k1) = Some k'"
    unfolding rt_schedule_def by (auto elim!: bind_eq_SomeE)
  have "sched_inv k1" "current_thread (cpus k1 c) = Some cur"
    using signal_wakeup_keeps [OF assms(1) cur(2)] signal_wakeup_current [OF cur(2)] cur(1) by auto
  with cur(3) schedule_switch_keeps [OF _ assms(2)] show ?thesis by (auto split: if_splits)
qed

lemma irq_switch_keeps:
  assumes "sched_inv k" "c < 2" "rt_scheduler_do_irq_switch c k = Some k'"
  shows "sched_inv k'"
proof -
  from assms(3) obtain cur k1 where cur: "current_thread (cpus k c) = Some cur"
    "signal_wakeup c cur k = Some k1"
    unfolding rt_scheduler_do_irq_switch_def by (auto elim!: bind_eq_SomeE)
  let ?k2 = "upd_cpu c (\<lambda>p. p\<lparr>irq_switch_flag := 0\<rparr>) k1"
  have k1: "sched_inv k1" "current_thread (cpus k1 c) = Some cur"
    using signal_wakeup_keeps [OF assms(1) cur(2)] signal_wakeup_current [OF cur(2)] cur(1) by auto
  then have k2: "sched_inv ?k2" "current_thread (cpus ?k2 c) = Some cur"
    by (simp_all add: sched_inv_cpu_fields)
  have "k' = k1 \<or> schedule_switch c cur ?k2 = Some k'"
    using assms(3) cur by (auto simp: rt_scheduler_do_irq_switch_def split: if_splits)
  then show ?thesis using k1(1) schedule_switch_keeps [OF k2(1) assms(2) k2(2)] by auto
qed

lemma thread_startup_keeps:
  assumes "sched_inv k" "c < 2" "thread_startup c t k = Some k'"
  shows "sched_inv k'"
proof -
  let ?k1 = "upd_thr t (\<lambda>x. x\<lparr>current_priority := init_priority x,
                 number_mask := push_bit (unat (init_priority x)) 1, stat := RT_THREAD_SUSPEND\<rparr>) k"
  from assms(3) obtain r k2 where s: "stat_of (thr k t) = RT_THREAD_INIT" "is_thread t k"
    "rt_thread_resume c t ?k1 = Some (r, k2)"
    "(if rt_thread_self c k2 \<noteq> None then rt_schedule c k2 else Some k2) = Some k'"
    by (auto simp: thread_startup_def Let_def elim!: bind_eq_SomeE split: if_splits)
  have ok: "thread_ok t k" using sched_inv_exD(4) [OF assms(1)] by simp
  with s have f: "fresh_ok (thr k t)" "\<And>c. c < 2 \<Longrightarrow> current_thread (cpus k c) \<noteq> Some t"
    by (auto simp: thread_ok_def)
  have "off_lists t k" using sched_inv_exD(3) [OF assms(1)] s(1) by (simp add: off_lists_by_stat)
  from sched_inv_upd [OF assms(1) this] have "sched_inv_ex {t} ?k1" by simp
  moreover have "thread_ok t ?k1"
    using f by (simp add: thread_ok_def fresh_ok_def prio_ok_def stat_of_def)
  ultimately have "sched_inv ?k1" by (rule sched_inv_ex_drop)
  from resume_keeps [OF this s(3)] have "sched_inv k2" .
  with s(4) rt_schedule_keeps [OF _ assms(2)] show ?thesis by (auto split: if_splits)
qed

lemma timer_detach_frame:
  assumes "rt_timer_detach x k = Some k'"
  shows "tlists k' = tlists k" "thr k' = thr k" "cpus k' = cpus k"
    "ready_priority_group k' = ready_priority_group k"
    "is_thread t k' \<Longrightarrow> is_thread t k"
proof -
  show "tlists k' = tlists k" "thr k' = thr k" "cpus k' = cpus k"
    "ready_priority_group k' = ready_priority_group k"
    using assms by (auto simp: rt_timer_detach_def rt_object_detach_def container_remove_def
        rt_timer_remove_def split: if_splits)
  show "is_thread t k' \<Longrightarrow> is_thread t k"
    using assms by (auto simp: rt_timer_detach_def rt_object_detach_def container_remove_def is_thread_def
        rt_timer_remove_def rt_object_get_type_def split: if_splits)
qed

lemma object_detach_frame:
  "tlists (rt_object_detach x k) = tlists k" "thr (rt_object_detach x k) = thr k"
  "cpus (rt_object_detach x k) = cpus k"
  "ready_priority_group (rt_object_detach x k) = ready_priority_group k"
  "is_thread t (rt_object_detach x k) \<Longrightarrow> is_thread t k"
  by (auto simp: rt_object_detach_def container_remove_def is_thread_def rt_object_get_type_def split: if_splits)

lemma defunct_or_detach_keeps:
  assumes "sched_inv k" "off_lists t k" "stat_of (thr k t) = RT_THREAD_CLOSE"
  shows "sched_inv (defunct_or_detach t k)"
  using assms sched_inv_defunct [OF assms]
  by (auto simp: defunct_or_detach_def object_detach_frame intro: sched_inv_fewer_objects)

text \<open>Taking a thread out for good: off its queue, timer detached, state CLOSE.\<close>

lemma close_thread_keeps:
  assumes "sched_inv k" "started (thr k t) \<or> stat_of (thr k t) = RT_THREAD_INIT"
    and "rt_timer_detach x (remove_if_started t k) = Some k1"
  shows "sched_inv (upd_thr t (\<lambda>x. x\<lparr>stat := RT_THREAD_CLOSE\<rparr>) k1)"
    and "off_lists t (upd_thr t (\<lambda>x. x\<lparr>stat := RT_THREAD_CLOSE\<rparr>) k1)"
proof -
  note fr = timer_detach_frame [OF assms(3)]
  have ok: "thread_ok t k" using sched_inv_exD(4) [OF assms(1)] by simp
  have "sched_inv_ex {t} (remove_if_started t k) \<and> off_lists t (remove_if_started t k)"
  proof (cases "stat_of (thr k t) = RT_THREAD_INIT")
    case True
    then show ?thesis using off_lists_by_stat [OF sched_inv_exD(3) [OF assms(1)], of t]
        sched_inv_ex_mono [OF assms(1), of "{t}"] by (simp add: remove_if_started_def)
  next
    case False
    with assms(2) have "prio_ok (thr k t)" using thread_okD(1) [OF ok] by simp
    from sched_inv_remove [OF assms(1) this] False show ?thesis
      by (simp add: remove_if_started_def off_lists_def)
  qed
  then have k1: "sched_inv_ex {t} k1" "off_lists t k1"
    using sched_inv_fewer_objects [of k1 "remove_if_started t k" "{t}"] fr by (auto simp: off_lists_def)
  let ?k = "upd_thr t (\<lambda>x. x\<lparr>stat := RT_THREAD_CLOSE\<rparr>) k1"
  show "off_lists t ?k" using k1(2) by (simp add: off_lists_def)
  have "thr k1 t = thr k t" "\<And>c. current_thread (cpus k1 c) = current_thread (cpus k c)"
    by (simp_all add: fr remove_if_started_def)
  with ok have "thread_ok t ?k" by (simp add: thread_ok_def started_def stat_of_def)
  with sched_inv_upd [OF k1] show "sched_inv ?k" using sched_inv_ex_drop [of t "{}" ?k] by simp
qed

lemma thread_delete_keeps:
  assumes "sched_inv k" "started (thr k t) \<or> stat_of (thr k t) = RT_THREAD_INIT"
    and "rt_thread_delete t k = Some k'"
  shows "sched_inv k'"
proof -
  from assms(3) obtain k1 where k1: "rt_timer_detach (ThreadTimer t) (remove_if_started t k) = Some k1"
    "k' = tlist_insert_after Defunct t (upd_thr t (\<lambda>x. x\<lparr>stat := RT_THREAD_CLOSE\<rparr>) k1)"
    by (auto simp: rt_thread_delete_def elim!: bind_eq_SomeE split: if_splits)
  from close_thread_keeps [OF assms(1,2) k1(1)] k1(2) show ?thesis
    by (auto intro!: sched_inv_defunct simp: stat_of_def)
qed

lemma thread_detach_keeps:
  assumes "sched_inv k" "started (thr k t) \<or> stat_of (thr k t) = RT_THREAD_INIT"
    and "rt_thread_detach t k = Some k'"
  shows "sched_inv k'"
proof -
  from assms(3) obtain k1 where k1: "rt_timer_detach (ThreadTimer t) (remove_if_started t k) = Some k1"
    "k' = defunct_or_detach t (upd_thr t (\<lambda>x. x\<lparr>stat := RT_THREAD_CLOSE\<rparr>) k1)"
    by (auto simp: rt_thread_detach_def elim!: bind_eq_SomeE split: if_splits)
  from close_thread_keeps [OF assms(1,2) k1(1)] k1(2) show ?thesis
    by (auto intro!: defunct_or_detach_keeps simp: stat_of_def)
qed

lemma thread_exit_keeps:
  assumes "sched_inv k" "c < 2" "rt_thread_self c k = Some t" "started (thr k t)"
    and "rt_thread_exit c k = Some k'"
  shows "sched_inv k'"
proof -
  let ?f = "\<lambda>x :: rt_thread. x\<lparr>stat := RT_THREAD_CLOSE\<rparr>"
  from assms(3,5) obtain k2 where k2: "rt_timer_detach (ThreadTimer t) (upd_thr t ?f (rt_schedule_remove_thread t k)) = Some k2"
    "rt_schedule c (defunct_or_detach t k2) = Some k'"
    by (auto simp: rt_thread_exit_def elim!: bind_eq_SomeE)
  note fr = timer_detach_frame [OF k2(1)]
  let ?k1 = "upd_thr t ?f (rt_schedule_remove_thread t k)"
  have ok: "thread_ok t k" using sched_inv_exD(4) [OF assms(1)] by simp
  have off: "off_lists t (rt_schedule_remove_thread t k)" by (simp add: off_lists_def)
  have "sched_inv_ex {t} ?k1"
    using sched_inv_upd [OF sched_inv_remove [OF assms(1) thread_okD(1) [OF ok assms(4)]] off] by simp
  moreover have "thread_ok t ?k1" using ok by (simp add: thread_ok_def started_def stat_of_def)
  ultimately have "sched_inv ?k1" by (rule sched_inv_ex_drop)
  then have "sched_inv k2" using sched_inv_fewer_objects [OF fr(1,2,4,3)] fr(5) by blast
  moreover have "off_lists t k2" "stat_of (thr k2 t) = RT_THREAD_CLOSE"
    by (simp_all add: fr off_lists_def stat_of_def)
  ultimately have "sched_inv (defunct_or_detach t k2)" by (rule defunct_or_detach_keeps)
  from rt_schedule_keeps [OF this assms(2) k2(2)] show ?thesis .
qed

lemma set_priority_frame [simp]:
  "stat_of (set_priority p x) = stat_of x" "oncpu (set_priority p x) = oncpu x"
  "bind_cpu (set_priority p x) = bind_cpu x" "init_priority (set_priority p x) = init_priority x"
  "current_priority (set_priority p x) = p" "number_mask (set_priority p x) = push_bit (unat p) 1"
  "started (set_priority p x) = started x" "fresh_ok (set_priority p x) = fresh_ok x"
  by (simp_all add: set_priority_def stat_of_def started_def fresh_ok_def)

lemma change_priority_keeps:
  assumes "sched_inv k" "unat p < 32"
  shows "sched_inv (change_priority c t p k)"
proof -
  note i = sched_inv_exD [OF assms(1)]
  have ok: "thread_ok t k" using i(4) by simp
  have new: "prio_ok (set_priority p (thr k t))" if "prio_ok (thr k t)"
    using that assms(2) by (simp add: prio_ok_def)
  show ?thesis
  proof (cases "stat_of (thr k t) = RT_THREAD_READY")
    case True
    then have s: "started (thr k t)" by (simp add: started_def)
    with ok True have q: "t \<in> set (tlists k (home (thr k t)))" by (simp add: thread_ok_def)
    note qd = queued_okD [OF i(3) home_rq(1) q]
    let ?k1 = "upd_thr t (set_priority p) (rt_schedule_remove_thread t k)"
    have "off_lists t (rt_schedule_remove_thread t k)" by (simp add: off_lists_def)
    from sched_inv_upd [OF sched_inv_remove [OF assms(1) qd(2)] this]
    have inv1: "sched_inv_ex {t} ?k1" by simp
    have p1: "off_lists t ?k1" "prio_ok (thr ?k1 t)" "oncpu (thr ?k1 t) = RT_CPU_DETACHED"
      using new [OF qd(2)] qd(4) by (simp_all add: off_lists_def)
    have "current_thread (cpus ?k1 d) \<noteq> Some t" if "d < 2" for d
      using current_not_queued [OF assms(1) that _ home_rq(1)] q by fastforce
    from sched_inv_insert [OF inv1 p1] thread_ok_inserted [OF p1(2,3) this]
    have "sched_inv (rt_schedule_insert_thread c t ?k1)" by (intro sched_inv_ex_drop [of t "{}"]) simp_all
    with True show ?thesis by (simp add: change_priority_def)
  next
    case False
    have "sched_inv_ex {t} (upd_thr t (set_priority p) k)"
      using sched_inv_upd_stat [OF assms(1) queued_ok_off [OF i(3) False], of "set_priority p"] by simp
    moreover have "thread_ok t (upd_thr t (set_priority p) k)"
      using ok False new by (simp add: thread_ok_def)
    ultimately have "sched_inv (upd_thr t (set_priority p) k)" by (rule sched_inv_ex_drop)
    with False show ?thesis by (simp add: change_priority_def)
  qed
qed

lemma bind_cpu_keeps:
  assumes "sched_inv k" "stat_of (thr k t) = RT_THREAD_INIT" "unat b \<le> 2"
  shows "sched_inv (upd_thr t (\<lambda>x. x\<lparr>bind_cpu := b\<rparr>) k)"
proof (rule sched_inv_ex_drop)
  note i = sched_inv_exD [OF assms(1)]
  have "off_lists t k" using off_lists_by_stat [OF i(3)] assms(2) by simp
  from sched_inv_upd [OF assms(1) this] show "sched_inv_ex {t} (upd_thr t (\<lambda>x. x\<lparr>bind_cpu := b\<rparr>) k)" by simp
  show "thread_ok t (upd_thr t (\<lambda>x. x\<lparr>bind_cpu := b\<rparr>) k)"
    using i(4) [of t] assms(2,3) by (simp add: thread_ok_def started_def stat_of_def fresh_ok_def)
qed

lemma sched_inv_thread_field:
  assumes "sched_inv k"
    and "\<And>x. stat_of (f x) = stat_of x \<and> oncpu (f x) = oncpu x \<and> bind_cpu (f x) = bind_cpu x \<and>
      init_priority (f x) = init_priority x \<and> current_priority (f x) = current_priority x \<and>
      number_mask (f x) = number_mask x"
  shows "sched_inv (upd_thr t f k)"
proof -
  have same: "started (f x) = started x" "prio_ok (f x) = prio_ok x" "home (f x) = home x"
    "fresh_ok (f x) = fresh_ok x" for x
    using assms(2) by (simp_all add: started_def prio_ok_def home_def fresh_ok_def)
  with assms show ?thesis
    by (auto simp: sched_inv_ex_def bits_ok_def queued_ok_def thread_ok_def)
qed

lemma thread_timeout_keeps:
  assumes "sched_inv k" "c < 2" "rt_thread_timeout c t k = Some k'"
  shows "sched_inv k'"
proof -
  let ?k1 = "upd_thr t (\<lambda>x. x\<lparr>error := - RT_ETIMEOUT\<rparr>) k"
  from assms(3) have s: "stat_of (thr k t) = RT_THREAD_SUSPEND"
    "rt_schedule c (rt_schedule_insert_thread c t (tlist_remove t ?k1)) = Some k'"
    by (auto simp: rt_thread_timeout_def split: if_splits)
  have k1: "sched_inv ?k1" by (rule sched_inv_thread_field [OF assms(1)]) (simp add: stat_of_def)
  have "stat_of (thr ?k1 t) = RT_THREAD_SUSPEND" using s(1) by (simp add: stat_of_def)
  with sched_inv_unwait [OF k1, of t] sched_inv_exD(4) [OF k1, of t]
  have "sched_inv (rt_schedule_insert_thread c t (tlist_remove t ?k1))"
    by (intro insert_woken) (simp_all add: thread_ok_def stat_of_def off_lists_def)
  from rt_schedule_keeps [OF this assms(2) s(2)] show ?thesis .
qed

lemma timer_start_core_frame:
  assumes "rt_timer_start_core x k = Some k'"
  shows "tlists k' = tlists k" "thr k' = thr k" "cpus k' = cpus k"
    "ready_priority_group k' = ready_priority_group k" "is_thread t k' = is_thread t k"
    "timer_thread k' = timer_thread k" "sched_inv_ex X k' = sched_inv_ex X k"
proof -
  show fr: "tlists k' = tlists k" "thr k' = thr k" "cpus k' = cpus k"
    "ready_priority_group k' = ready_priority_group k" "is_thread t k' = is_thread t k"
    "timer_thread k' = timer_thread k" for t
    using assms by (auto simp: rt_timer_start_core_def rt_timer_remove_def is_thread_def
        rt_object_get_type_def Let_def split: if_splits)
  show "sched_inv_ex X k' = sched_inv_ex X k" by (rule sched_inv_ex_cong) (simp_all add: fr)
qed

lemma timer_start_keeps:
  assumes "sched_inv k" "c < 2" "rt_timer_start c x k = Some k'"
  shows "sched_inv k'"
proof -
  from assms(3) obtain k1 where k1: "rt_timer_start_core x k = Some k1"
    unfolding rt_timer_start_def by (elim bind_eq_SomeE)
  have inv: "sched_inv k1" using timer_start_core_frame(7) [OF k1] assms(1) by simp
  show ?thesis
  proof (cases "o_flag (obj k1 x) AND RT_TIMER_FLAG_SOFT_TIMER \<noteq> 0 \<and>
        stat_of (thr k1 (timer_thread k1)) = RT_THREAD_SUSPEND")
    case True
    with assms(3) k1 obtain r k2 where "rt_thread_resume c (timer_thread k1) k1 = Some (r, k2)"
      "rt_schedule c k2 = Some k'" by (auto simp: rt_timer_start_def elim!: bind_eq_SomeE)
    then show ?thesis using resume_keeps [OF inv] rt_schedule_keeps [OF _ assms(2)] by blast
  next
    case False
    with assms(3) k1 inv show ?thesis by (auto simp: rt_timer_start_def)
  qed
qed

lemma thread_timer_f_keeps:
  assumes "sched_inv k" "c < 2" "started (thr k t) \<or> stat_of (thr k t) = RT_THREAD_INIT"
    and "rt_thread_timer_f c t k = Some k'"
  shows "sched_inv k'"
proof -
  consider (init) "stat_of (thr k t) = RT_THREAD_INIT" | (wake) "stat_of (thr k t) = RT_THREAD_SUSPEND"
    | (close) "stat_of (thr k t) \<noteq> RT_THREAD_INIT" "stat_of (thr k t) \<noteq> RT_THREAD_SUSPEND" by blast
  then show ?thesis
  proof cases
    case init
    with assms(4) show ?thesis
      by (intro thread_startup_keeps [OF assms(1,2)]) (simp add: rt_thread_timer_f_def)
  next
    case wake
    with assms(4) obtain r k1 where "rt_thread_resume c t k = Some (r, k1)"
      "(if rt_thread_self c k1 \<noteq> None then rt_schedule c k1 else Some k1) = Some k'"
      by (auto simp: rt_thread_timer_f_def elim!: bind_eq_SomeE)
    then show ?thesis using resume_keeps [OF assms(1)] rt_schedule_keeps [OF _ assms(2)]
      by (metis option.inject)
  next
    case close
    with assms(4) obtain r k1 where k1: "rt_timer_stop (PeriodTimer t) k = Some (r, k1)"
      "rt_thread_delete t k1 = Some k'"
      by (auto simp: rt_thread_timer_f_def elim!: bind_eq_SomeE)
    have "sched_inv k1" using sched_inv_timer_stop [OF k1(1)] assms(1) by simp
    then show ?thesis
      by (rule thread_delete_keeps) (use assms(3) k1 in \<open>simp_all add: timer_stop_frame [OF k1(1)]\<close>)
  qed
qed

lemma suspend_for_keeps:
  assumes "sched_inv k" "c < 2" "suspend_for c t time k = Some k'"
  shows "sched_inv k'"
proof -
  from assms(3) obtain r k1 r2 a k2 k3 where s: "rt_thread_suspend c t k = Some (r, k1)"
    "rt_timer_control (ThreadTimer t) Ctrl_set_time time k1 = Some (r2, a, k2)"
    "rt_timer_start c (ThreadTimer t) k2 = Some k3" "rt_schedule c k3 = Some k'"
    by (auto simp: suspend_for_def elim!: bind_eq_SomeE)
  have "sched_inv k1" by (rule suspend_keeps [OF assms(1) s(1)])
  moreover have "sched_inv k2 = sched_inv k1"
    using s(2) by (intro sched_inv_ex_cong)
      (auto simp: rt_timer_control_def is_thread_def rt_object_get_type_def split: if_splits)
  ultimately show ?thesis
    using timer_start_keeps [OF _ assms(2) s(3)] rt_schedule_keeps [OF _ assms(2) s(4)] by blast
qed

section \<open>Creating a thread and starting the scheduler\<close>

lemma sched_inv_new_thread:
  assumes "sched_inv k" "off_lists t k" "\<And>c. c < 2 \<Longrightarrow> current_thread (cpus k c) \<noteq> Some t"
    and "tlists k' = tlists k" "ready_priority_group k' = ready_priority_group k" "cpus k' = cpus k"
    and "\<And>s. s \<noteq> t \<Longrightarrow> thr k' s = thr k s \<and> is_thread s k' = is_thread s k"
    and "stat_of (thr k' t) = RT_THREAD_INIT" "is_thread t k' \<Longrightarrow> fresh_ok (thr k' t)"
  shows "sched_inv k'"
proof -
  note i = sched_inv_exD [OF assms(1)]
  have nt: "s \<noteq> t" if "s \<in> set (tlists k l)" for s l using assms(2) that by (auto simp: off_lists_def)
  have "queued_ok k'"
    using i(3) assms(4,7) nt unfolding queued_ok_def by (metis (no_types, lifting))
  moreover have "bits_ok k'" using i(2) assms(4-6) by (simp add: bits_ok_def)
  moreover have "thread_ok s k'" for s
  proof (cases "s = t")
    case True
    then show ?thesis using assms(3,6,8,9) by (simp add: thread_ok_def started_def)
  next
    case False
    then show ?thesis using i(4) [of s] thread_ok_cong [of k' s k] assms(4,6,7) by simp
  qed
  ultimately show ?thesis using i(1) assms(4) by (simp add: sched_inv_ex_def)
qed

lemma timer_init_frame:
  assumes "rt_timer_init x name fn a time flag k = Some k'"
  shows "tlists k' = tlists k" "thr k' = thr k" "cpus k' = cpus k"
    "ready_priority_group k' = ready_priority_group k"
    "x \<noteq> Obj t \<Longrightarrow> is_thread t k' = is_thread t k"
  using assms by (auto simp: rt_timer_init_def rt_object_init_def rt_timer_init_fields_def is_thread_def
      rt_object_get_type_def Let_def elim!: bind_eq_SomeE split: if_splits)

lemma memset_thread_frame:
  "tlists (memset_object RT_Object_Class_Thread a k) = tlists k"
  "cpus (memset_object RT_Object_Class_Thread a k) = cpus k"
  "ready_priority_group (memset_object RT_Object_Class_Thread a k) = ready_priority_group k"
  "thr (memset_object RT_Object_Class_Thread a k) = (thr k)(a := zero_thread)"
  "obj (memset_object RT_Object_Class_Thread a k) (Obj b) = (if b = a then zero_object else obj k (Obj b))"
  by (simp_all add: memset_object_def Let_def)

lemma thread_create_keeps:
  assumes "sched_inv k" "\<And>a. malloc = Some a \<Longrightarrow> off_lists a k \<and>
      (\<forall>c < 2. current_thread (cpus k c) \<noteq> Some a)"
    and "rt_thread_create c name ent param sz prio ticks malloc stack k = Some (r, k')"
  shows "sched_inv k'"
proof (cases malloc)
  case None
  with assms show ?thesis
    by (auto simp: rt_thread_create_def rt_object_allocate_def elim!: bind_eq_SomeE split: if_splits)
next
  case (Some a)
  from assms(3) Some obtain k1 where k1: "rt_object_allocate c RT_Object_Class_Thread name (Some a) k = Some (Some a, k1)"
    by (auto simp: rt_thread_create_def rt_object_allocate_def Let_def elim!: bind_eq_SomeE split: if_splits)
  then have al: "tlists k1 = tlists k" "cpus k1 = cpus k" "ready_priority_group k1 = ready_priority_group k"
    "thr k1 = (thr k)(a := zero_thread)" "\<And>s. s \<noteq> a \<Longrightarrow> is_thread s k1 = is_thread s k"
    by (auto simp: rt_object_allocate_def is_thread_def rt_object_get_type_def memset_thread_frame
        elim!: bind_eq_SomeE split: if_splits)
  note new = sched_inv_new_thread [OF assms(1), of a k']
  show ?thesis
  proof (cases stack)
    case None
    with assms(3) Some k1 have "rt_object_delete (Obj a) k1 = Some k'"
      by (auto simp: rt_thread_create_def)
    then have "tlists k' = tlists k1" "cpus k' = cpus k1" "ready_priority_group k' = ready_priority_group k1"
      "thr k' = thr k1" "\<And>s. s \<noteq> a \<Longrightarrow> is_thread s k' = is_thread s k1" "\<not> is_thread a k'"
      by (auto simp: rt_object_delete_def container_remove_def is_thread_def rt_object_get_type_def split: if_splits)
    with al assms(2) [OF Some] show ?thesis
      by (intro new) (auto simp: zero_thread_def stat_of_def)
  next
    case (Some st)
    with assms(3) \<open>malloc = Some a\<close> k1
    have "thread_init_fields a ent param st sz prio ticks k1 = Some k'" by (auto simp: rt_thread_create_def)
    then obtain k2 where p: "prio < 32"
      and k2: "rt_timer_init (ThreadTimer a) (o_name (obj k1 (Obj a))) Thread_timeout a 0 0 k2 = Some k'"
      "tlists k2 = tlists k1" "cpus k2 = cpus k1" "ready_priority_group k2 = ready_priority_group k1"
      "\<And>s. s \<noteq> a \<Longrightarrow> thr k2 s = thr k1 s" "obj k2 = obj k1"
      "stat (thr k2 a) = RT_THREAD_INIT" "init_priority (thr k2 a) = prio"
      "bind_cpu (thr k2 a) = RT_CPUS_NR" "oncpu (thr k2 a) = RT_CPU_DETACHED"
      by (auto simp: thread_init_fields_def split: if_splits)
    note fr = timer_init_frame [OF k2(1)]
    have "is_thread s k2 = is_thread s k1" for s by (simp add: is_thread_def rt_object_get_type_def k2)
    with al k2 fr p assms(2) [OF \<open>malloc = Some a\<close>] show ?thesis
      by (intro new) (auto simp: stat_of_def fresh_ok_def word_less_nat_alt)
  qed
qed

lemma get_highest_queued:
  assumes "sched_inv k" "c < 2" "get_highest_priority_thread c k = Some (t, prio)"
  obtains l where "is_rq l" "t \<in> set (tlists k l)"
proof -
  have "tlists k (Ready n) = t # ts \<Longrightarrow> thesis" "tlists k (CpuReady c n) = t # ts \<Longrightarrow> thesis" for n ts
    using that [of "Ready n"] that [of "CpuReady c n"] by simp_all
  then show thesis
    using assms(3) by (auto simp: get_highest_priority_thread_def Let_def split: if_splits list.splits)
qed

lemma scheduler_start_keeps:
  assumes "sched_inv k" "c < 2" "current_thread (cpus k c) = None"
    and "rt_system_scheduler_start c k = Some k'"
  shows "sched_inv k'"
proof -
  from assms(4) obtain t prio where h: "get_highest_priority_thread c k = Some (t, prio)"
    and k': "k' = rt_cpus_lock_status_restore c t
        (upd_thr t (\<lambda>x. x\<lparr>stat := RT_THREAD_RUNNING\<rparr>)
          (rt_schedule_remove_thread t (upd_thr t (\<lambda>x. x\<lparr>oncpu := of_nat c\<rparr>) k)))"
    by (auto simp: rt_system_scheduler_start_def elim!: bind_eq_SomeE)
  obtain l where l: "is_rq l" "t \<in> set (tlists k l)" by (rule get_highest_queued [OF assms(1,2) h])
  note q = queued_okD [OF sched_inv_exD(3) [OF assms(1)] l]
  let ?k1 = "upd_thr t (\<lambda>x. x\<lparr>oncpu := of_nat c, stat := RT_THREAD_RUNNING\<rparr>) (rt_schedule_remove_thread t k)"
  have "off_lists t (rt_schedule_remove_thread t k)" by (simp add: off_lists_def)
  from sched_inv_upd [OF sched_inv_remove [OF assms(1) q(2)] this] have inv1: "sched_inv_ex {t} ?k1" by simp
  have same: "thr k' = thr ?k1" "tlists k' = tlists ?k1" "ready_priority_group k' = ready_priority_group ?k1"
    "priority_group (cpus k' d) = priority_group (cpus ?k1 d)"
    "current_thread (cpus k' d) = (if d = c then Some t else current_thread (cpus ?k1 d))"
    "is_thread s k' = is_thread s ?k1" for d s
    unfolding k' by (simp_all add: rt_cpus_lock_status_restore_def rt_schedule_remove_thread_def Let_def tlist_isempty_def)
  note i1 = sched_inv_exD [OF inv1]
  have "thread_ok s k'" if "s \<noteq> t" for s
  proof -
    have "thread_ok s k' = thread_ok s ?k1"
      by (rule thread_ok_cong) (use same that assms(3) in auto)
    then show ?thesis using i1(4) [of s] that by simp
  qed
  moreover have "current_thread (cpus k d) \<noteq> Some t" if "d < 2" for d
    using current_not_queued [OF assms(1) that _ l(1)] l(2) by blast
  then have "thread_ok t k'"
    using assms(2) q(2) of_nat_cpu_inj(2) [OF assms(2)] same by (auto simp: thread_ok_def stat_of_def)
  moreover have "bits_ok k'" using i1(2) same by (simp add: bits_ok_def)
  moreover have "queued_ok k'" using i1(3) same by (simp add: queued_ok_def)
  ultimately show ?thesis using i1(1) same unfolding sched_inv_ex_def by metis
qed

lemma zero_inv: "sched_inv zero_kernel"
  by (simp add: sched_inv_ex_def bits_ok_def bitmap_ok_def queued_ok_def thread_ok_def tlists_ok_def
      started_def is_thread_def rt_object_get_type_def stat_of_def zero_defs)

section \<open>Reachable states\<close>

text \<open>
  The calls that create, move and end threads, made on either CPU in any order. The premises are
  the conditions of use of the calls: an allocator returns memory that no thread uses, priorities
  are below 32, and a thread that is closed or detached has been initialised and not closed before.
\<close>

inductive sched_step :: "kernel \<Rightarrow> kernel \<Rightarrow> bool" where
  schedule: "c < 2 \<Longrightarrow> rt_schedule c k = Some k' \<Longrightarrow> sched_step k k'"
| irq_switch: "c < 2 \<Longrightarrow> rt_scheduler_do_irq_switch c k = Some k' \<Longrightarrow> sched_step k k'"
| irq_enter: "sched_step k (rt_interrupt_enter c k)"
| irq_leave: "sched_step k (rt_interrupt_leave c k)"
| start: "c < 2 \<Longrightarrow> current_thread (cpus k c) = None \<Longrightarrow>
    rt_system_scheduler_start c k = Some k' \<Longrightarrow> sched_step k k'"
| create: "(\<And>a. malloc = Some a \<Longrightarrow> off_lists a k \<and> (\<forall>c < 2. current_thread (cpus k c) \<noteq> Some a)) \<Longrightarrow>
    rt_thread_create c name ent param sz prio ticks malloc stack k = Some (r, k') \<Longrightarrow> sched_step k k'"
| startup: "c < 2 \<Longrightarrow> rt_thread_startup c t k = Some k' \<Longrightarrow> sched_step k k'"
| suspend: "rt_thread_suspend c t k = Some (r, k') \<Longrightarrow> sched_step k k'"
| resume: "rt_thread_resume c t k = Some (r, k') \<Longrightarrow> sched_step k k'"
| sleep: "c < 2 \<Longrightarrow> rt_thread_sleep_enter c time k = Some (t, k') \<Longrightarrow> sched_step k k'"
| timeout: "c < 2 \<Longrightarrow> rt_thread_timeout c t k = Some k' \<Longrightarrow> sched_step k k'"
| period: "c < 2 \<Longrightarrow> started (thr k t) \<or> stat_of (thr k t) = RT_THREAD_INIT \<Longrightarrow>
    rt_thread_timer_f c t k = Some k' \<Longrightarrow> sched_step k k'"
| priority: "unat p < 32 \<Longrightarrow> rt_thread_control c t (Ctrl_change_priority p) k = Some (r, k') \<Longrightarrow> sched_step k k'"
| bind: "rt_thread_control c t (Ctrl_bind_cpu b) k = Some (r, k') \<Longrightarrow> sched_step k k'"
| delete: "started (thr k t) \<or> stat_of (thr k t) = RT_THREAD_INIT \<Longrightarrow>
    rt_thread_delete t k = Some k' \<Longrightarrow> sched_step k k'"
| detach: "started (thr k t) \<or> stat_of (thr k t) = RT_THREAD_INIT \<Longrightarrow>
    rt_thread_detach t k = Some k' \<Longrightarrow> sched_step k k'"
| exit: "c < 2 \<Longrightarrow> rt_thread_self c k = Some t \<Longrightarrow> started (thr k t) \<Longrightarrow>
    rt_thread_exit c k = Some k' \<Longrightarrow> sched_step k k'"

lemma sched_step_keeps: "sched_step k k' \<Longrightarrow> sched_inv k \<Longrightarrow> sched_inv k'"
proof (induction rule: sched_step.induct)
  case (irq_enter k c)
  then show ?case by (simp add: rt_interrupt_enter_def sched_inv_cpu_fields)
next
  case (irq_leave k c)
  then show ?case by (simp add: rt_interrupt_leave_def sched_inv_cpu_fields)
next
  case (startup c t k k')
  then show ?case
    using thread_startup_keeps [of k c t k'] timer_start_keeps [of k c "PeriodTimer t" k']
    by (simp add: rt_thread_startup_def split: if_splits)
next
  case (sleep c time k t k')
  then have "suspend_for c t time k = Some k'"
    by (auto simp: rt_thread_sleep_enter_def elim!: bind_eq_SomeE split: if_splits)
  with sleep suspend_for_keeps [of k c t time k'] show ?case by simp
next
  case (priority p c t k r k')
  then show ?case using change_priority_keeps [of k p c t]
    by (auto simp: rt_thread_control_def split: if_splits)
next
  case (bind c t b k r k')
  have "unat (if b > RT_CPUS_NR then RT_CPUS_NR else b) \<le> 2" by (simp add: not_less word_le_nat_alt)
  with bind bind_cpu_keeps [of k t] show ?case by (auto simp: rt_thread_control_def split: if_splits)
qed (blast intro: rt_schedule_keeps irq_switch_keeps scheduler_start_keeps thread_create_keeps
    suspend_keeps resume_keeps thread_timeout_keeps thread_timer_f_keeps thread_delete_keeps
    thread_detach_keeps thread_exit_keeps)+

lemma reachable_inv: "sched_step\<^sup>*\<^sup>* zero_kernel k \<Longrightarrow> sched_inv k"
  by (induction rule: rtranclp_induct) (auto intro: zero_inv sched_step_keeps)

section \<open>A boot sequence\<close>

lemmas boot_defs = rt_thread_create_def rt_object_allocate_def rt_object_get_information_def rt_object_classes_def
  memset_object_def thread_init_fields_def rt_timer_init_def rt_object_init_def rt_timer_init_fields_def
  rt_thread_startup_def thread_startup_def rt_thread_resume_def rt_timer_stop_def is_thread_def is_timer_def
  rt_object_get_type_def rt_schedule_insert_thread_def rt_hw_ipi_send_def tlist_insert_before_def
  tlist_remove_def rt_thread_self_def not_in_interrupt_def Let_def set_stat_def stat_of_def zero_defs

lemma boot_run:
  "\<exists>k1 k2. rt_thread_create 0 ''main'' (Code 1) 0 2048 10 20 (Some 5) (Some 64) zero_kernel = Some (Some 5, k1) \<and>
     rt_thread_startup 0 5 k1 = Some k2 \<and> rt_thread_self 0 k2 = None \<and>
     tlists k2 (Ready 10) = [5] \<and> stat_of (thr k2 5) = RT_THREAD_READY"
  by (simp add: boot_defs)

section \<open>Properties\<close>



text \<open>Time slicing: when the running thread's slice is used up (its yield flag is set), no thread
  of a higher priority is ready and one of the same priority is, the switch gives the CPU to a thread
  of that priority, and the thread that ran goes to the end of its queue, behind every other one.\<close>

theorem time_slice_rotates:
  assumes "sched_inv k" "c < 2" "current_thread (cpus k c) = Some cur"
    and "stat_of (thr k cur) = RT_THREAD_RUNNING" "stat (thr k cur) AND RT_THREAD_STAT_YIELD \<noteq> 0"
    and "\<forall>q < unat (current_priority (thr k cur)). eligible c k q = {}"
    and "eligible c k (unat (current_priority (thr k cur))) \<noteq> {}"
  shows "\<exists>k' to. schedule_switch c cur k = Some k' \<and> to \<noteq> cur \<and> current_thread (cpus k' c) = Some to \<and>
    current_priority (thr k to) = current_priority (thr k cur) \<and>
    tlists k' (home (thr k cur)) = removeAll to (tlists k (home (thr k cur))) @ [cur]"
  using assms(1-3)
proof (cases rule: schedule_switch_cases)
  case idle
  then show ?thesis using assms(7) by blast
next
  case (keep p)
  then show ?thesis using assms(5-7) by (metis linorder_neqE_nat)
next
  case (switch to p ts l k3)
  note rc = requeue_current [OF assms(1-3), folded switch(6)]
  have l: "is_rq l" "to \<in> set (tlists k l)" using switch(3,4) by auto
  have ne: "to \<noteq> cur" using current_not_queued [OF assms(1-3) l(1)] l(2) by auto
  have "eligible c k p \<noteq> {}" using switch(3,4) by (auto simp: eligible_def)
  with switch(7) [OF assms(4)] assms(6) have p: "p = unat (current_priority (thr k cur))" by blast
  have "home (thr k to) = l" using queued_okD(1) [OF sched_inv_exD(3) [OF assms(1)] l] by simp
  with switch(3) p have "current_priority (thr k to) = current_priority (thr k cur)"
    by (auto simp: home_def word_unat_eq_iff split: if_splits)
  with ne switch(1) rc(5) assms(4) show ?thesis by (simp add: give_cpu_simps)
qed

theorem time_slice_rotates_witness:
  "\<exists>k' to. schedule_switch 0 1 (demo_state 11 10) = Some k' \<and> to \<noteq> 1 \<and>
     current_thread (cpus k' 0) = Some to"
  using time_slice_rotates [OF demo_state_inv [of 11 10], of 0 1] by (auto simp: eligible_def demo_defs)

text \<open>\<^verbatim>\<open>rt_thread_yield\<close> called by a thread that still has time left keeps the CPU unless a thread
  of strictly higher priority is ready: threads of the same priority do not get to run, although
  the comment of the function says that the processor is yielded.\<close>

theorem yield_keeps_equal_priority:
  assumes "sched_inv k" "c < 2" "current_thread (cpus k c) = Some cur"
    and "irq_nest (cpus k c) = 0" "scheduler_lock_nest (thr k cur) = 0"
    and "stat_of (thr k cur) = RT_THREAD_RUNNING" "stat (thr k cur) AND RT_THREAD_STAT_YIELD = 0"
    and "\<forall>q < unat (current_priority (thr k cur)). eligible c k q = {}"
  shows "rt_thread_yield c k = Some k"
proof -
  have "schedule_switch c cur k = Some k"
    using assms(1-3)
  proof (cases rule: schedule_switch_cases)
    case (switch to p ts l k3)
    have "eligible c k p \<noteq> {}" using switch(3,4) by (auto simp: eligible_def)
    with switch(7) [OF assms(6)] assms(7,8) show ?thesis by blast
  qed simp_all
  with assms(3-6) show ?thesis by (simp add: rt_thread_yield_def rt_schedule_def signal_wakeup_def)
qed

theorem yield_keeps_equal_priority_witness:
  "eligible 0 (demo_state RT_THREAD_RUNNING 10) 10 = {2} \<and>
   rt_thread_yield 0 (demo_state RT_THREAD_RUNNING 10) = Some (demo_state RT_THREAD_RUNNING 10)"
  using yield_keeps_equal_priority [OF demo_state_inv [of 3 10], of 0 1]
  by (auto simp: eligible_def demo_defs)

text \<open>C36. Deleting a thread takes its sleep timer off the timer list and leaves its period timer
  there; when that timer's callback runs in the state left by the deletion, it trips an assertion
  (the sleep timer is detached a second time), which halts the system.\<close>

theorem periodic_delete_then_fire_asserts:
  assumes "rt_thread_delete t k = Some k'"
  shows "rt_thread_timer_f c t k' = None \<and> timer_list k' = removeAll (ThreadTimer t) (timer_list k)"
proof -
  from assms obtain k1 where k1: "rt_timer_detach (ThreadTimer t) (remove_if_started t k) = Some k1"
    "k' = tlist_insert_after Defunct t (upd_thr t (\<lambda>x. x\<lparr>stat := RT_THREAD_CLOSE\<rparr>) k1)"
    by (auto simp: rt_thread_delete_def elim!: bind_eq_SomeE split: if_splits)
  have t1: "o_type (obj k1 (ThreadTimer t)) = 0" "timer_list k1 = removeAll (ThreadTimer t) (timer_list k)"
    using k1(1) by (auto simp: rt_timer_detach_def rt_object_detach_def container_remove_def rt_timer_remove_def
        remove_if_started_def rt_schedule_remove_thread_def tlist_remove_def Let_def split: if_splits)
  have "rt_thread_delete t k2 = None" if "rt_timer_stop (PeriodTimer t) k' = Some (r, k2)" for r k2
  proof -
    have "o_type (obj k2 (ThreadTimer t)) = 0"
      using that t1 k1(2) by (auto simp: rt_timer_stop_def rt_timer_remove_def tlist_insert_after_def split: if_splits)
    then have "\<not> is_timer (ThreadTimer t) (remove_if_started t k2)"
      by (simp add: is_timer_def rt_object_get_type_def remove_if_started_def)
    then show ?thesis by (simp add: rt_thread_delete_def rt_timer_detach_def)
  qed
  moreover have "stat_of (thr k' t) = RT_THREAD_CLOSE"
    by (simp add: k1(2) tlist_insert_after_def stat_of_def)
  ultimately have "rt_thread_timer_f c t k' = None"
    by (cases "rt_timer_stop (PeriodTimer t) k'") (auto simp: rt_thread_timer_f_def)
  with t1(2) k1(2) show ?thesis by (simp add: tlist_insert_after_def)
qed

theorem periodic_delete_then_fire_asserts_witness:
  "\<exists>k'. rt_thread_delete 2 (upd_obj (ThreadTimer 2) (\<lambda>ob. ob\<lparr>o_type := RT_Object_Class_Timer OR RT_Object_Class_Static\<rparr>)
      demo_kernel) = Some k' \<and> rt_thread_timer_f 0 2 k' = None"
proof -
  let ?k = "upd_obj (ThreadTimer 2) (\<lambda>ob. ob\<lparr>o_type := RT_Object_Class_Timer OR RT_Object_Class_Static\<rparr>) demo_kernel"
  have "\<exists>k'. rt_thread_delete 2 ?k = Some k'"
    by (simp add: rt_thread_delete_def rt_timer_detach_def is_thread_def is_timer_def rt_object_get_type_def
        rt_object_is_systemobject_def remove_if_started_def rt_schedule_remove_thread_def tlist_remove_def
        tlist_isempty_def Let_def demo_defs)
  then show ?thesis using periodic_delete_then_fire_asserts [of 2 ?k _ 0] by blast
qed

end
