(* ===== verification/TimerProps.thy ===== *)
theory TimerProps
  imports ThreadInv
begin

text \<open>
  The timers and the clock: the order of the timer list, what a timer interrupt does with the
  timers that are due, the conversion of milliseconds, and the deadline of a relative delay.
\<close>

section \<open>Sleep timers and user timers\<close>

text \<open>A thread sleeps or waits with its own one-shot timer on the list and is SUSPENDED.\<close>

definition sleep_timer_ok :: "kernel \<Rightarrow> nat \<Rightarrow> bool" where
  "sleep_timer_ok k t \<longleftrightarrow>
     timeout_func (tmr k (ThreadTimer t)) = Thread_timeout \<and> tm_parameter (tmr k (ThreadTimer t)) = t \<and>
     is_thread t k \<and> stat_of (thr k t) = RT_THREAD_SUSPEND \<and>
     o_flag (obj k (ThreadTimer t)) AND RT_TIMER_FLAG_PERIODIC = 0"

text \<open>A hard timer with a callback of its own, whose period fits the window that starts at the
  base \<open>b\<close>.\<close>

definition user_timer_ok :: "u32 \<Rightarrow> kernel \<Rightarrow> oid \<Rightarrow> bool" where
  "user_timer_ok b k x \<longleftrightarrow>
     (\<exists>n. timeout_func (tmr k x) = User_timeout n) \<and> is_timer x k \<and>
     o_flag (obj k x) AND RT_TIMER_FLAG_SOFT_TIMER = 0 \<and> tm_init_tick (tmr k x) \<noteq> 0 \<and>
     offset b (rt_tick_get k) + unat (tm_init_tick (tmr k x)) < 0x7fffffff"

definition timer_wf :: "u32 \<Rightarrow> nat \<Rightarrow> kernel \<Rightarrow> bool" where
  "timer_wf b c k \<longleftrightarrow>
     irq_nest (cpus k c) \<noteq> 0 \<and> distinct (timer_list k) \<and>
     timers_in_order b (\<lambda>x. timeout_tick (tmr k x)) (timer_list k) \<and>
     offset b (rt_tick_get k) < 0x7fffffff \<and>
     (\<forall>x \<in> set (timer_list k). (\<exists>t. x = ThreadTimer t \<and> sleep_timer_ok k t) \<or> user_timer_ok b k x)"

text \<open>A callback that returns and leaves timers, threads and CPUs alone.\<close>

definition quiet :: "user_callback \<Rightarrow> bool" where
  "quiet user \<longleftrightarrow> (\<forall>n c p k. \<exists>k'. user n c p k = Some k' \<and> timer_list k' = timer_list k \<and>
     tmr k' = tmr k \<and> obj k' = obj k \<and> thr k' = thr k \<and> cpus k' = cpus k)"

section \<open>One expiry\<close>

lemma timer_due_iff:
  assumes "offset b (timeout_tick (tmr k x)) < 0x7fffffff" "offset b now < 0x7fffffff"
  shows "timer_due now x k \<longleftrightarrow> offset b (timeout_tick (tmr k x)) \<le> offset b now"
  using due_later_iff [OF assms(2,1)] by (auto simp: timer_due_def)

lemma insert_thread_timers [simp]:
  "timer_list (rt_schedule_insert_thread c t k) = timer_list k"
  "soft_timer_list (rt_schedule_insert_thread c t k) = soft_timer_list k"
  "tick (cpus (rt_schedule_insert_thread c t k) d) = tick (cpus k d)"
  by (simp_all add: rt_schedule_insert_thread_def tlist_insert_before_def rt_hw_ipi_send_def Let_def)

lemma thread_timeout_in_irq:
  assumes "irq_nest (cpus k c) \<noteq> 0" "stat_of (thr k t) = RT_THREAD_SUSPEND" "is_thread t k"
  obtains k' where "rt_thread_timeout c t k = Some k'" "timer_list k' = timer_list k" "tmr k' = tmr k"
    "obj k' = obj k" "rt_tick_get k' = rt_tick_get k" "irq_nest (cpus k' c) = irq_nest (cpus k c)"
    "\<And>s. s \<noteq> t \<Longrightarrow> thr k' s = thr k s" "stat_of (thr k' t) \<noteq> RT_THREAD_SUSPEND"
    "error (thr k' t) = - RT_ETIMEOUT"
proof -
  let ?k1 = "rt_schedule_insert_thread c t (tlist_remove t (upd_thr t (\<lambda>x. x\<lparr>error := - RT_ETIMEOUT\<rparr>) k))"
  have "rt_thread_timeout c t k = Some (upd_cpu c (\<lambda>p. p\<lparr>irq_switch_flag := 1\<rparr>) ?k1)"
    using assms by (simp add: rt_thread_timeout_def rt_schedule_def)
  then show ?thesis
    by (rule that) (simp_all add: insert_thread_thr rt_tick_get_def tlist_remove_def)
qed

lemma is_timer_cong: "obj k' x = obj k x \<Longrightarrow> is_timer x k' = is_timer x k"
  by (simp add: is_timer_def rt_object_get_type_def)

lemma is_thread_cong: "obj k' (Obj t) = obj k (Obj t) \<Longrightarrow> is_thread t k' = is_thread t k"
  by (simp add: is_thread_def rt_object_get_type_def)

lemma flag_rearm [simp]:
  fixes f :: u8
  shows "(f AND - 2) AND RT_TIMER_FLAG_SOFT_TIMER = f AND RT_TIMER_FLAG_SOFT_TIMER"
    "((f AND - 2) OR 1) AND RT_TIMER_FLAG_SOFT_TIMER = f AND RT_TIMER_FLAG_SOFT_TIMER"
    "((f AND - 2) AND - 2) = f AND - 2"
    "(f AND - 2) AND RT_TIMER_FLAG_PERIODIC = f AND RT_TIMER_FLAG_PERIODIC"
  by (simp_all add: and.assoc bit.conj_disj_distrib2)

lemma timer_start_core_hard:
  assumes "is_timer x k" "o_flag (obj k x) AND RT_TIMER_FLAG_SOFT_TIMER = 0"
    and "tm_init_tick (tmr k x) < HALF_TICK_MAX"
  obtains k' where "rt_timer_start_core x k = Some k'"
    "tmr k' = (tmr k)(x := (tmr k x)\<lparr>timeout_tick := rt_tick_get k + tm_init_tick (tmr k x)\<rparr>)"
    "timer_list k' = timer_insert (\<lambda>y. timeout_tick (tmr k' y)) x (removeAll x (timer_list k))"
    "\<And>y. y \<noteq> x \<Longrightarrow> obj k' y = obj k y" "is_timer x k'"
    "o_flag (obj k' x) AND RT_TIMER_FLAG_SOFT_TIMER = 0" "thr k' = thr k" "cpus k' = cpus k"
proof -
  note d = rt_timer_start_core_def rt_timer_remove_def is_timer_def rt_object_get_type_def
      rt_tick_get_def Let_def
  obtain k' where k': "rt_timer_start_core x k = Some k'" using assms by (simp add: d)
  show ?thesis by (rule that [OF k']) (use k' assms in \<open>auto simp: d\<close>)
qed

lemma distinct_timer_insert: "n \<notin> set ts \<Longrightarrow> distinct ts \<Longrightarrow> distinct (timer_insert due n ts)"
  by (induction ts) auto

lemma offset_add:
  assumes "offset b n + unat i < 0x7fffffff"
  shows "offset b (n + i) = offset b n + unat i"
proof -
  have e: "n + i - b = (n - b) + i" by simp
  show ?thesis unfolding offset_def e by (rule unat_add_no_wrap) (use assms in \<open>simp add: offset_def\<close>)
qed

lemma timer_remove_simps [simp]:
  "tmr (rt_timer_remove x k) = tmr k" "obj (rt_timer_remove x k) = obj k" "thr (rt_timer_remove x k) = thr k"
  "cpus (rt_timer_remove x k) = cpus k" "rt_tick_get (rt_timer_remove x k) = rt_tick_get k"
  "timer_list (rt_timer_remove x k) = removeAll x (timer_list k)"
  "is_thread t (rt_timer_remove x k) = is_thread t k"
  by (simp_all add: rt_timer_remove_def rt_tick_get_def is_thread_def rt_object_get_type_def)

definition timer_entry_ok :: "u32 \<Rightarrow> kernel \<Rightarrow> oid \<Rightarrow> bool" where
  "timer_entry_ok b k x \<longleftrightarrow> (\<exists>t. x = ThreadTimer t \<and> sleep_timer_ok k t) \<or> user_timer_ok b k x"

text \<open>The states around the handling of timer \<open>x\<close> differ in that timer and, for a sleep timer, in
  the thread that it wakes.\<close>

definition same_but :: "oid \<Rightarrow> kernel \<Rightarrow> kernel \<Rightarrow> bool" where
  "same_but x k k' \<longleftrightarrow>
     (\<forall>y. y \<noteq> x \<longrightarrow> tmr k' y = tmr k y \<and> obj k' y = obj k y) \<and>
     (\<forall>t. is_thread t k' = is_thread t k) \<and> (\<forall>t. x \<noteq> ThreadTimer t \<longrightarrow> thr k' t = thr k t) \<and>
     rt_tick_get k' = rt_tick_get k"

lemma same_but_sleep:
  "same_but x k k' \<Longrightarrow> x \<noteq> ThreadTimer t \<Longrightarrow> sleep_timer_ok k t \<Longrightarrow> sleep_timer_ok k' t"
  by (simp add: same_but_def sleep_timer_ok_def)

lemma same_but_entry:
  assumes "same_but x k k'" "y \<noteq> x" "timer_entry_ok b k y"
  shows "timer_entry_ok b k' y"
  using assms
  by (auto simp: same_but_def timer_entry_ok_def sleep_timer_ok_def user_timer_ok_def is_timer_def
      rt_object_get_type_def)

text \<open>What one round of the loop leaves: the other timers of the list, and timer \<open>x\<close> off the list or,
  when it is periodic, on it for later.\<close>

definition round_done :: "u32 \<Rightarrow> nat \<Rightarrow> oid \<Rightarrow> oid list \<Rightarrow> kernel \<Rightarrow> kernel \<Rightarrow> bool" where
  "round_done b c x xs k k' \<longleftrightarrow>
     same_but x k k' \<and> timer_wf b c k' \<and> set (timer_list k') - {x} = set xs \<and>
     (x \<in> set (timer_list k') \<longrightarrow> \<not> timer_due (rt_tick_get k) x k') \<and>
     (\<forall>t. x = ThreadTimer t \<longrightarrow> sleep_timer_ok k t \<longrightarrow>
        stat_of (thr k' t) \<noteq> RT_THREAD_SUSPEND \<and> error (thr k' t) = - RT_ETIMEOUT \<and>
        x \<notin> set (timer_list k'))"

lemma timer_wf_tail:
  assumes "timer_wf b c k" "timer_list k = x # xs"
  shows "irq_nest (cpus k c) \<noteq> 0" "timers_in_order b (\<lambda>x. timeout_tick (tmr k x)) xs"
    "offset b (rt_tick_get k) < 0x7fffffff" "\<And>y. y \<in> set xs \<Longrightarrow> timer_entry_ok b k y"
    "timer_entry_ok b k x" "x \<notin> set xs" "distinct xs" "removeAll x (timer_list k) = xs"
  using assms by (auto simp: timer_wf_def timers_in_order_def timer_entry_ok_def)

lemma timer_wf_dropped:
  assumes "timer_wf b c k" "timer_list k = x # xs" "same_but x k k'"
    and "timer_list k' = xs" "irq_nest (cpus k' c) = irq_nest (cpus k c)"
  shows "timer_wf b c k'"
proof -
  note w = timer_wf_tail [OF assms(1,2)]
  have "timer_entry_ok b k' y" if "y \<in> set xs" for y
    using same_but_entry [OF assms(3) _ w(4) [OF that]] w(6) that by auto
  moreover have "timers_in_order b (\<lambda>x. timeout_tick (tmr k' x)) xs"
    using w(2,6) assms(3)
    by (subst timers_in_order_cong [of _ _ "\<lambda>y. timeout_tick (tmr k y)"]) (auto simp: same_but_def)
  moreover have "rt_tick_get k' = rt_tick_get k" using assms(3) by (simp add: same_but_def)
  ultimately show ?thesis using w(1,3,7) assms(4,5) by (auto simp: timer_wf_def timer_entry_ok_def)
qed

lemma deactivate_simps [simp]:
  "is_thread t (deactivate x k) = is_thread t k" "rt_tick_get (deactivate x k) = rt_tick_get k"
  "is_timer y (deactivate x k) = is_timer y k" "tmr (deactivate x k) = tmr k" "thr (deactivate x k) = thr k"
  "cpus (deactivate x k) = cpus k" "timer_list (deactivate x k) = timer_list k"
  "y \<noteq> x \<Longrightarrow> obj (deactivate x k) y = obj k y"
  "o_flag (obj (deactivate x k) x) AND RT_TIMER_FLAG_SOFT_TIMER = o_flag (obj k x) AND RT_TIMER_FLAG_SOFT_TIMER"
  by (simp_all add: deactivate_def is_thread_def is_timer_def rt_object_get_type_def rt_tick_get_def)

lemma sleep_round:
  assumes "timer_wf b c k" "timer_list k = ThreadTimer t # xs" "sleep_timer_ok k t"
  obtains k1 k2 where "call_timeout user c (ThreadTimer t) (rt_timer_remove (ThreadTimer t) k) = Some k1"
    "timer_rearm c (ThreadTimer t) k1 = Some k2" "rt_tick_get k1 = rt_tick_get k"
    "round_done b c (ThreadTimer t) xs k k2"
proof -
  let ?x = "ThreadTimer t" let ?k0 = "rt_timer_remove ?x k"
  note w = timer_wf_tail [OF assms(1,2)]
  have "irq_nest (cpus ?k0 c) \<noteq> 0" "stat_of (thr ?k0 t) = RT_THREAD_SUSPEND" "is_thread t ?k0"
    using w(1) assms(3) by (simp_all add: sleep_timer_ok_def)
  from thread_timeout_in_irq [OF this] obtain k1 where
    k1: "rt_thread_timeout c t ?k0 = Some k1" "timer_list k1 = timer_list ?k0" "tmr k1 = tmr ?k0"
    "obj k1 = obj ?k0" "rt_tick_get k1 = rt_tick_get ?k0" "irq_nest (cpus k1 c) = irq_nest (cpus ?k0 c)"
    "\<And>s. s \<noteq> t \<Longrightarrow> thr k1 s = thr ?k0 s" "stat_of (thr k1 t) \<noteq> RT_THREAD_SUSPEND"
    "error (thr k1 t) = - RT_ETIMEOUT" by blast
  have call: "call_timeout user c ?x ?k0 = Some k1"
    using assms(3) k1(1) by (simp add: call_timeout_def sleep_timer_ok_def)
  have rearm: "timer_rearm c ?x k1 = Some (deactivate ?x k1)"
    using assms(3) k1(4) by (simp add: timer_rearm_def sleep_timer_ok_def)
  have thd: "is_thread s k1 = is_thread s k" for s using k1(4) by (intro is_thread_cong) simp
  have sb: "same_but ?x k (deactivate ?x k1)" using k1 thd by (simp add: same_but_def)
  from timer_wf_dropped [OF assms(1,2) this] w k1 have "timer_wf b c (deactivate ?x k1)" by simp
  with sb w k1 have "round_done b c ?x xs k (deactivate ?x k1)" by (auto simp: round_done_def)
  with that [OF call rearm] k1(5) show ?thesis by simp
qed

lemma same_but_user:
  assumes "is_timer x k" "is_timer x k'" "thr k' = thr k" "cpus k' = cpus k"
    and "\<And>y. y \<noteq> x \<Longrightarrow> tmr k' y = tmr k y \<and> obj k' y = obj k y"
  shows "same_but x k k'"
proof -
  have "is_thread s k' = is_thread s k" for s
  proof (cases "x = Obj s")
    case True
    then show ?thesis using assms(1,2) by (simp add: is_thread_def is_timer_def)
  qed (rule is_thread_cong, use assms(5) in auto)
  then show ?thesis using assms by (simp add: same_but_def rt_tick_get_def)
qed

text \<open>A periodic timer that starts again: on the list at its place, due one period from now.\<close>

definition restarted :: "oid \<Rightarrow> oid list \<Rightarrow> kernel \<Rightarrow> kernel \<Rightarrow> bool" where
  "restarted x xs k k' \<longleftrightarrow>
     tmr k' = (tmr k)(x := (tmr k x)\<lparr>timeout_tick := rt_tick_get k + tm_init_tick (tmr k x)\<rparr>) \<and>
     timer_list k' = timer_insert (\<lambda>y. timeout_tick (tmr k' y)) x xs \<and>
     (\<forall>y. y \<noteq> x \<longrightarrow> obj k' y = obj k y) \<and> is_timer x k' \<and>
     o_flag (obj k' x) AND RT_TIMER_FLAG_SOFT_TIMER = 0 \<and> thr k' = thr k \<and> cpus k' = cpus k"

lemma restart_spec:
  assumes "timer_wf b c k" "timer_list k = x # xs" "user_timer_ok b k x"
    and "timer_list k1 = xs" "tmr k1 = tmr k" "obj k1 = obj k" "thr k1 = thr k" "cpus k1 = cpus k"
  obtains k2 where "rt_timer_start_core x (deactivate x k1) = Some k2" "restarted x xs k k2"
proof -
  let ?k1 = "deactivate x k1"
  note w = timer_wf_tail [OF assms(1,2)]
  have pre: "is_timer x ?k1" "o_flag (obj ?k1 x) AND RT_TIMER_FLAG_SOFT_TIMER = 0"
    "tm_init_tick (tmr ?k1 x) < HALF_TICK_MAX"
    using assms(3,5,6) is_timer_cong [of k1 x k] by (simp_all add: user_timer_ok_def word_less_nat_alt)
  obtain k2 where "rt_timer_start_core x ?k1 = Some k2"
    "tmr k2 = (tmr ?k1)(x := (tmr ?k1 x)\<lparr>timeout_tick := rt_tick_get ?k1 + tm_init_tick (tmr ?k1 x)\<rparr>)"
    "timer_list k2 = timer_insert (\<lambda>y. timeout_tick (tmr k2 y)) x (removeAll x (timer_list ?k1))"
    "\<And>y. y \<noteq> x \<Longrightarrow> obj k2 y = obj ?k1 y" "is_timer x k2"
    "o_flag (obj k2 x) AND RT_TIMER_FLAG_SOFT_TIMER = 0" "thr k2 = thr ?k1" "cpus k2 = cpus ?k1"
    using timer_start_core_hard [OF pre] by blast
  moreover have "rt_tick_get k1 = rt_tick_get k" using assms(8) by (simp add: rt_tick_get_def)
  ultimately show ?thesis using that w(6) assms(4-8) by (simp add: restarted_def)
qed

lemma round_done_restart:
  assumes "timer_wf b c k" "timer_list k = x # xs" "user_timer_ok b k x" "restarted x xs k k2"
    and "\<And>t. x = ThreadTimer t \<Longrightarrow> \<not> sleep_timer_ok k t"
  shows "round_done b c x xs k k2"
proof -
  let ?i = "tm_init_tick (tmr k x)"
  note w = timer_wf_tail [OF assms(1,2)]
  note r = assms(4) [unfolded restarted_def]
  have lt: "offset b (rt_tick_get k) + unat ?i < 0x7fffffff" "?i \<noteq> 0" "is_timer x k"
    using assms(3) by (simp_all add: user_timer_ok_def)
  have tick: "rt_tick_get k2 = rt_tick_get k" using r by (simp add: rt_tick_get_def)
  have off: "offset b (timeout_tick (tmr k2 x)) = offset b (rt_tick_get k) + unat ?i"
    using offset_add [OF lt(1)] r by simp
  have sb: "same_but x k k2" by (rule same_but_user) (use r lt in auto)
  have "timers_in_order b (\<lambda>y. timeout_tick (tmr k2 y)) xs"
    using w(2,6) r by (subst timers_in_order_cong [of _ _ "\<lambda>y. timeout_tick (tmr k y)"]) auto
  then have ord: "timers_in_order b (\<lambda>y. timeout_tick (tmr k2 y)) (timer_list k2)"
    using r off lt(1) timer_insert_in_order [of b "\<lambda>y. timeout_tick (tmr k2 y)" xs x] by simp
  have "timer_entry_ok b k2 y" if "y \<in> set xs" for y
    using same_but_entry [OF sb _ w(4) [OF that]] w(6) that by auto
  moreover have "timer_entry_ok b k2 x"
    using assms(3) r tick by (simp add: timer_entry_ok_def user_timer_ok_def)
  ultimately have "timer_wf b c k2"
    using w(1,3,6,7) r ord tick by (auto simp: timer_wf_def timer_entry_ok_def distinct_timer_insert)
  moreover have "\<not> timer_due (rt_tick_get k) x k2"
    using timer_due_iff [of b k2 x "rt_tick_get k"] off lt w(3) by (simp add: unat_eq_0)
  ultimately show ?thesis using sb r w(6) assms(5) by (auto simp: round_done_def)
qed

lemma user_round:
  assumes "quiet user" "timer_wf b c k" "timer_list k = x # xs" "user_timer_ok b k x"
  obtains k1 k2 where "call_timeout user c x (rt_timer_remove x k) = Some k1"
    "timer_rearm c x k1 = Some k2" "rt_tick_get k1 = rt_tick_get k" "round_done b c x xs k k2"
proof -
  let ?k0 = "rt_timer_remove x k"
  note w = timer_wf_tail [OF assms(2,3)]
  obtain n where n: "timeout_func (tmr k x) = User_timeout n" using assms(4) by (auto simp: user_timer_ok_def)
  obtain k1 where k1: "user n c (tm_parameter (tmr k x)) ?k0 = Some k1" "timer_list k1 = timer_list ?k0"
    "tmr k1 = tmr ?k0" "obj k1 = obj ?k0" "thr k1 = thr ?k0" "cpus k1 = cpus ?k0"
    using assms(1) unfolding quiet_def by metis
  have call: "call_timeout user c x ?k0 = Some k1" using n k1(1) by (simp add: call_timeout_def)
  have tick1: "rt_tick_get k1 = rt_tick_get k" using k1(6) by (simp add: rt_tick_get_def)
  have tm: "is_timer x k" "is_timer x k1"
    using assms(4) k1(4) is_timer_cong [of k1 x k] by (simp_all add: user_timer_ok_def)
  have nt: "\<not> sleep_timer_ok k t" if "x = ThreadTimer t" for t using n that by (simp add: sleep_timer_ok_def)
  show ?thesis
  proof (cases "o_flag (obj k x) AND RT_TIMER_FLAG_PERIODIC \<noteq> 0 \<and> o_flag (obj k x) AND RT_TIMER_FLAG_ACTIVATED \<noteq> 0")
    case False
    then have rearm: "timer_rearm c x k1 = Some (deactivate x k1)" using k1(4) by (auto simp: timer_rearm_def)
    have sb: "same_but x k (deactivate x k1)" by (rule same_but_user) (use tm k1 in auto)
    from timer_wf_dropped [OF assms(2,3) this] w k1 have "timer_wf b c (deactivate x k1)" by simp
    with sb w k1 nt have "round_done b c x xs k (deactivate x k1)" by (auto simp: round_done_def)
    with that [OF call rearm tick1] show ?thesis .
  next
    case True
    obtain k2 where k2: "rt_timer_start_core x (deactivate x k1) = Some k2" "restarted x xs k k2"
      using restart_spec [OF assms(2-4), of k1] k1 w(8) by auto
    have "timer_rearm c x k1 = Some k2"
      using True k1(4) k2 by (simp add: timer_rearm_def rt_timer_start_def restarted_def)
    from that [OF call this tick1] round_done_restart [OF assms(2-4) k2(2) nt] show ?thesis by blast
  qed
qed

section \<open>The timer interrupt\<close>

text \<open>What the check does with the timers of the list.\<close>

definition check_done :: "u32 \<Rightarrow> nat \<Rightarrow> kernel \<Rightarrow> kernel \<Rightarrow> bool" where
  "check_done b c k k' \<longleftrightarrow>
     (let now = rt_tick_get k in
      timer_wf b c k' \<and> rt_tick_get k' = now \<and> (\<forall>y \<in> set (timer_list k'). \<not> timer_due now y k') \<and>
      (\<forall>y \<in> set (timer_list k). \<not> timer_due now y k \<longrightarrow> y \<in> set (timer_list k') \<and> tmr k' y = tmr k y) \<and>
      (\<forall>t. ThreadTimer t \<in> set (timer_list k) \<longrightarrow> sleep_timer_ok k t \<longrightarrow> timer_due now (ThreadTimer t) k \<longrightarrow>
         stat_of (thr k' t) \<noteq> RT_THREAD_SUSPEND \<and> error (thr k' t) = - RT_ETIMEOUT) \<and>
      (\<forall>t. ThreadTimer t \<notin> set (timer_list k) \<longrightarrow> thr k' t = thr k t))"

lemma check_done_step:
  assumes "timer_wf b c k" "timer_list k = x # xs" "timer_due (rt_tick_get k) x k"
    and "round_done b c x xs k k2" "check_done b c k2 k'"
  shows "check_done b c k k'"
proof -
  let ?now = "rt_tick_get k"
  note w = timer_wf_tail [OF assms(1,2)]
  have sb: "same_but x k k2" and tl: "set (timer_list k2) - {x} = set xs"
    using assms(4) by (simp_all add: round_done_def)
  have tick: "rt_tick_get k2 = ?now" using sb by (simp add: same_but_def)
  have due: "timer_due ?now y k2 = timer_due ?now y k" "tmr k2 y = tmr k y" if "y \<noteq> x" for y
    using sb that by (simp_all add: same_but_def timer_due_def)
  note d = assms(5) [unfolded check_done_def Let_def tick]
  have "y \<in> set (timer_list k') \<and> tmr k' y = tmr k y" if "y \<in> set (timer_list k)" "\<not> timer_due ?now y k" for y
  proof -
    have "y \<noteq> x" "y \<in> set xs" using that assms(2,3) by auto
    with tl d that(2) due [of y] show ?thesis by auto
  qed
  moreover have "stat_of (thr k' t) \<noteq> RT_THREAD_SUSPEND \<and> error (thr k' t) = - RT_ETIMEOUT"
    if "ThreadTimer t \<in> set (timer_list k)" "sleep_timer_ok k t" "timer_due ?now (ThreadTimer t) k" for t
  proof (cases "x = ThreadTimer t")
    case True
    then have "stat_of (thr k2 t) \<noteq> RT_THREAD_SUSPEND" "error (thr k2 t) = - RT_ETIMEOUT"
      "ThreadTimer t \<notin> set (timer_list k2)" using assms(4) that(2) by (simp_all add: round_done_def)
    with d show ?thesis by simp
  next
    case False
    with that assms(2) tl have "ThreadTimer t \<in> set (timer_list k2)" by auto
    with d same_but_sleep [OF sb False that(2)] due [of "ThreadTimer t"] that(3) False show ?thesis by auto
  qed
  moreover have "thr k' t = thr k t" if "ThreadTimer t \<notin> set (timer_list k)" for t
  proof -
    have "x \<noteq> ThreadTimer t" "ThreadTimer t \<notin> set (timer_list k2)" using that assms(2) tl by auto
    with d sb show ?thesis by (simp add: same_but_def)
  qed
  ultimately show ?thesis using d by (simp add: check_done_def)
qed

lemma none_due:
  assumes "timer_wf b c k" "\<And>x xs. timer_list k = x # xs \<Longrightarrow> \<not> timer_due (rt_tick_get k) x k"
    and "y \<in> set (timer_list k)"
  shows "\<not> timer_due (rt_tick_get k) y k"
proof -
  obtain x xs where x: "timer_list k = x # xs" using assms(3) by (cases "timer_list k") auto
  let ?o = "\<lambda>y. offset b (timeout_tick (tmr k y))"
  have "?o x < 0x7fffffff" "?o y < 0x7fffffff" "?o x \<le> ?o y" "offset b (rt_tick_get k) < 0x7fffffff"
    using assms(1,3) x by (auto simp: timer_wf_def timers_in_order_def)
  with timer_due_iff [of b k x] timer_due_iff [of b k y] assms(2) [OF x] show ?thesis by auto
qed

lemma timer_check_total:
  assumes "quiet user" "timer_wf b c k"
  shows "\<exists>k'. timer_check_loop user c (rt_tick_get k) k = Some k' \<and> check_done b c k k'"
  using assms(2)
proof (induction "card {y \<in> set (timer_list k). timer_due (rt_tick_get k) y k}" arbitrary: k rule: less_induct)
  case less
  let ?now = "rt_tick_get k"
  show ?case
  proof (cases "\<exists>x xs. timer_list k = x # xs \<and> timer_due ?now x k")
    case False
    have "timer_check_loop user c ?now k = Some k"
      using False by (subst timer_check_loop.simps) (auto split: list.split)
    moreover have "\<not> timer_due ?now y k" if "y \<in> set (timer_list k)" for y
      using none_due [OF less.prems _ that] False by blast
    ultimately show ?thesis using less.prems by (auto simp: check_done_def)
  next
    case True
    then obtain x xs where x: "timer_list k = x # xs" "timer_due ?now x k" by blast
    note w = timer_wf_tail [OF less.prems x(1)]
    obtain k1 k2 where k2: "call_timeout user c x (rt_timer_remove x k) = Some k1" "timer_rearm c x k1 = Some k2"
      "rt_tick_get k1 = ?now" "round_done b c x xs k k2"
      using w(5) sleep_round [OF less.prems] user_round [OF assms(1) less.prems x(1)] x(1)
      unfolding timer_entry_ok_def by metis
    have wf2: "timer_wf b c k2" and tick: "rt_tick_get k2 = ?now"
      using k2(4) by (simp_all add: round_done_def same_but_def)
    have "{y \<in> set (timer_list k2). timer_due ?now y k2} \<subset> {y \<in> set (timer_list k). timer_due ?now y k}"
      using k2(4) x w(6) by (auto simp: round_done_def same_but_def timer_due_def)
    then have "card {y \<in> set (timer_list k2). timer_due (rt_tick_get k2) y k2} <
        card {y \<in> set (timer_list k). timer_due ?now y k}"
      unfolding tick by (intro psubset_card_mono) simp_all
    from less.hyps [OF this wf2, unfolded tick] obtain k' where
      "timer_check_loop user c ?now k2 = Some k'" "check_done b c k2 k'" by blast
    with check_done_step [OF less.prems x k2(4)] k2 x show ?thesis
      by (subst timer_check_loop.simps) simp
  qed
qed

section \<open>Properties\<close>


definition sleeping :: kernel where
  "sleeping = (demo_state RT_THREAD_RUNNING 5)
     \<lparr>thr := (thr demo_kernel)(2 := demo_thread RT_THREAD_SUSPEND 5 RT_CPU_DETACHED),
      tlists := (\<lambda>_. []), ready_priority_group := 0,
      cpus := (\<lambda>_. zero_cpu)(0 := zero_cpu\<lparr>current_thread := Some 1, irq_nest := 1, tick := 7\<rparr>),
      tmr := (\<lambda>_. zero_timer)(ThreadTimer 2 := \<lparr>timeout_func = Thread_timeout, tm_parameter = 2,
        tm_init_tick = 3, timeout_tick = 7\<rparr>),
      timer_list := [ThreadTimer 2]\<rparr>"


text \<open>C26. Starting a timer puts it at its place: when the list is in order relative to a base tick and
  the new due time is within the window, the list with the timer added is in order again, contains
  the same other timers, and the first timer, whose time \<^verbatim>\<open>rt_timer_next_timeout_tick\<close> returns, is
  due no later than any other, also when the tick counter wraps around in between.\<close>

theorem timer_start_keeps_order:
  assumes "is_timer x k" "o_flag (obj k x) AND RT_TIMER_FLAG_SOFT_TIMER = 0"
    and "timers_in_order b (\<lambda>y. timeout_tick (tmr k y)) (timer_list k)"
    and "offset b (rt_tick_get k) + unat (tm_init_tick (tmr k x)) < 0x7fffffff"
  shows "\<exists>k'. rt_timer_start c x k = Some k' \<and>
    timers_in_order b (\<lambda>y. timeout_tick (tmr k' y)) (timer_list k') \<and>
    set (timer_list k') = insert x (set (timer_list k)) \<and>
    timeout_tick (tmr k' x) = rt_tick_get k + tm_init_tick (tmr k x) \<and>
    (\<forall>y \<in> set (timer_list k'). offset b (rt_timer_next_timeout_tick k') \<le> offset b (timeout_tick (tmr k' y)))"
proof -
  let ?i = "tm_init_tick (tmr k x)"
  have "?i < HALF_TICK_MAX" using assms(4) by (simp add: word_less_nat_alt)
  from timer_start_core_hard [OF assms(1,2) this] obtain k' where k': "rt_timer_start_core x k = Some k'"
    "tmr k' = (tmr k)(x := (tmr k x)\<lparr>timeout_tick := rt_tick_get k + ?i\<rparr>)"
    "timer_list k' = timer_insert (\<lambda>y. timeout_tick (tmr k' y)) x (removeAll x (timer_list k))"
    "o_flag (obj k' x) AND RT_TIMER_FLAG_SOFT_TIMER = 0" by blast
  have "timers_in_order b (\<lambda>y. timeout_tick (tmr k y)) (removeAll x (timer_list k))"
    using assms(3) by (rule timers_in_order_removeAll)
  then have "timers_in_order b (\<lambda>y. timeout_tick (tmr k' y)) (removeAll x (timer_list k))"
    by (subst timers_in_order_cong [of _ _ "\<lambda>y. timeout_tick (tmr k y)"]) (auto simp: k'(2))
  then have ord: "timers_in_order b (\<lambda>y. timeout_tick (tmr k' y)) (timer_list k')"
    unfolding k'(3) by (rule timer_insert_in_order) (use offset_add [OF assms(4)] assms(4) k'(2) in simp)
  have "rt_timer_start c x k = Some k'" using k'(1,4) by (simp add: rt_timer_start_def)
  moreover have "set (timer_list k') = insert x (set (timer_list k))" unfolding k'(3) by auto
  moreover have "offset b (rt_timer_next_timeout_tick k') \<le> offset b (timeout_tick (tmr k' y))"
    if "y \<in> set (timer_list k')" for y
    using ord that by (cases "timer_list k'")
      (auto simp: timers_in_order_def rt_timer_next_timeout_tick_def rt_timer_list_next_timeout_def)
  ultimately show ?thesis using ord k'(2) by simp
qed

theorem timer_start_keeps_order_witness:
  "\<exists>k'. rt_timer_start 0 (ThreadTimer 1) sleeping = Some k' \<and>
     set (timer_list k') = {ThreadTimer 1, ThreadTimer 2} \<and>
     timers_in_order 0 (\<lambda>y. timeout_tick (tmr k' y)) (timer_list k')"
  using timer_start_keeps_order [of "ThreadTimer 1" sleeping 0 0]
  by (auto simp: sleeping_def is_timer_def rt_object_get_type_def timers_in_order_def offset_def
      rt_tick_get_def demo_defs)

text \<open>\<^verbatim>\<open>rt_tick_from_millisecond\<close> rounds up: a non-negative time of \<open>n\<close> ms becomes the least number
  of 10 ms ticks that is not shorter, without overflow, and a negative one waits forever.\<close>

theorem tick_from_millisecond_ceiling:
  "uint (rt_tick_from_millisecond ms) =
     (if sint ms < 0 then uint RT_WAITING_FOREVER else (sint ms + 9) div 10)"
proof -
  have d: "100 * (s div 1000) + (100 * (s mod 1000) + 999) div 1000 = (s + 9) div 10" for s :: int
  proof -
    let ?q = "s div 1000" let ?r = "s mod 1000"
    have "(100 * ?r + 999) div 1000 = (100 * ?r + 999) div 100 div 10" by (simp add: zdiv_zmult2_eq [symmetric])
    also have "(100 * ?r + 999) div 100 = ?r + 9" by simp
    finally have "100 * ?q + (100 * ?r + 999) div 1000 = 100 * ?q + (?r + 9) div 10" by simp
    also have "\<dots> = (10 * (100 * ?q) + (?r + 9)) div 10" by (rule div_mult_self4 [symmetric]) simp
    also have "10 * (100 * ?q) + (?r + 9) = s + 9" by simp
    finally show ?thesis .
  qed
  have eq: "rt_tick_from_millisecond ms =
     (if sint ms < 0 then RT_WAITING_FOREVER else of_int ((sint ms + 9) div 10))"
    unfolding rt_tick_from_millisecond_def of_int_add [symmetric] d ..
  have "sint ms < 2 ^ 31" using sint_lt [of ms] by simp
  then show ?thesis by (simp add: eq uint_word_of_int)
qed

text \<open>\<^verbatim>\<open>rt_thread_delay_until\<close> puts the thread to sleep for the time that has already passed since
  \<^verbatim>\<open>*tick\<close> plus the increment; its comment promises a wake-up at \<^verbatim>\<open>*tick + inc_tick\<close>, so the thread
  oversleeps by twice the time that had passed.\<close>

theorem delay_until_oversleeps:
  assumes "rt_thread_delay_until_enter c last_tick inc k = Some (Inr (t, wait, k'))"
    and "unat (rt_tick_get k - last_tick) + unat inc < 0x80000000"
  shows "unat wait = unat (last_tick + inc - rt_tick_get k) + 2 * unat (rt_tick_get k - last_tick)"
proof -
  have sum: "unat (p + i) = unat (i - p) + 2 * unat p" if "p < i" "unat p + unat i < 0x80000000" for p i :: u32
    using that by (simp add: unat_add_no_wrap unat_sub_u32 word_less_nat_alt)
  have w: "wait = rt_tick_get k - last_tick + inc" "rt_tick_get k - last_tick < inc"
    using assms(1) by (auto simp: rt_thread_delay_until_enter_def Let_def elim!: bind_eq_SomeE split: if_splits)
  have e: "last_tick + inc - rt_tick_get k = inc - (rt_tick_get k - last_tick)" by simp
  show ?thesis unfolding e w(1) using w(2) assms(2) by (rule sum)
qed

lemma delay_until_demo:
  "\<exists>k'. rt_thread_delay_until_enter 0 4 10 (rt_tick_set 7 demo_kernel) = Some (Inr (1, 13, k'))"
  by (simp add: rt_thread_delay_until_enter_def rt_tick_set_def suspend_for_def rt_thread_suspend_def
      rt_timer_control_def rt_timer_start_def rt_timer_start_core_def rt_timer_stop_def rt_timer_remove_def
      rt_schedule_def signal_wakeup_def schedule_switch_def get_highest_priority_thread_def rt_ffs_def
      lowest_bit_bitmap_def rt_schedule_remove_thread_def tlist_remove_def tlist_isempty_def
      rt_cpus_lock_status_restore_def is_thread_def is_timer_def rt_object_get_type_def rt_thread_self_def
      rt_tick_get_def set_stat_def Let_def demo_defs)

theorem delay_until_oversleeps_witness:
  "\<exists>k'. rt_thread_delay_until_enter 0 4 10 (rt_tick_set 7 demo_kernel) = Some (Inr (1, 13, k')) \<and>
     unat (13 :: u32) = unat (4 + 10 - 7 :: u32) + 2 * unat (7 - 4 :: u32)"
proof -
  have "rt_tick_get (rt_tick_set 7 demo_kernel) = 7" by (simp add: rt_tick_get_def rt_tick_set_def)
  with delay_until_demo delay_until_oversleeps [of 0 4 10 "rt_tick_set 7 demo_kernel" 1 13]
  show ?thesis by auto
qed

end
