(* ===== verification/Ipc.thy ===== *)
theory Ipc
  imports TimerProps
begin

text \<open>
  What the IPC objects of \<^verbatim>\<open>src/ipc.c\<close> share: putting the calling thread on a wait queue, in order of
  arrival or of priority, waking the first waiter, and waking all of them. A call that blocks is
  split where its thread stops: the function up to \<^verbatim>\<open>rt_schedule\<close> returns \<open>Wait\<close> with the local
  variables that live across the switch, and a \<open>_resume\<close> function is the code after it.
\<close>

section \<open>Operations\<close>

datatype 'w outcome = Ret rt_err_t | Wait 'w

text \<open>The search of the priority queue: in front of the first waiter of lower priority.\<close>

fun prio_place :: "(nat \<Rightarrow> u8) \<Rightarrow> u8 \<Rightarrow> nat list \<Rightarrow> nat option" where
  "prio_place prio p [] = None"
| "prio_place prio p (s # ss) = (if p < prio s then Some s else prio_place prio p ss)"

definition rt_ipc_list_suspend :: "nat \<Rightarrow> lid \<Rightarrow> nat \<Rightarrow> u8 \<Rightarrow> kernel \<Rightarrow> kernel option" where
  "rt_ipc_list_suspend c l t flag k = do {
     (_, k1) \<leftarrow> rt_thread_suspend c t k;
     Some (if flag = RT_IPC_FLAG_FIFO then tlist_insert_before l t k1
           else if flag = RT_IPC_FLAG_PRIO then
             (case prio_place (\<lambda>s. current_priority (thr k1 s)) (current_priority (thr k1 t)) (tlists k1 l) of
                Some s \<Rightarrow> tlist_insert_before_node s t k1
              | None \<Rightarrow> tlist_insert_before l t k1)
           else k1) }"

text \<open>The first thread of the list; the callers check that there is one.\<close>

definition rt_ipc_list_resume :: "nat \<Rightarrow> lid \<Rightarrow> kernel \<Rightarrow> kernel option" where
  "rt_ipc_list_resume c l k =
     (case tlists k l of [] \<Rightarrow> None | t # _ \<Rightarrow> map_option snd (rt_thread_resume c t k))"

partial_function (option) rt_ipc_list_resume_all :: "nat \<Rightarrow> lid \<Rightarrow> kernel \<Rightarrow> kernel option" where
  "rt_ipc_list_resume_all c l k =
     (case tlists k l of
        [] \<Rightarrow> Some k
      | t # _ \<Rightarrow> do {
          (_, k1) \<leftarrow> rt_thread_resume c t (upd_thr t (\<lambda>x. x\<lparr>error := - RT_ERROR\<rparr>) k);
          rt_ipc_list_resume_all c l k1 })"

text \<open>Blocking: suspend on the list, arm the thread's timer when the time is positive (as a signed
  number), and switch.\<close>

definition wait_on :: "nat \<Rightarrow> lid \<Rightarrow> nat \<Rightarrow> u8 \<Rightarrow> u32 \<Rightarrow> kernel \<Rightarrow> kernel option" where
  "wait_on c l t flag timeout k = do {
     k1 \<leftarrow> rt_ipc_list_suspend c l t flag k;
     k2 \<leftarrow> (if 0 < sint timeout then do {
              (_, _, k') \<leftarrow> rt_timer_control (ThreadTimer t) Ctrl_set_time timeout k1;
              rt_timer_start c (ThreadTimer t) k' }
            else Some k1);
     rt_schedule c k2 }"

text \<open>The time left after a wake-up, as \<^verbatim>\<open>rt_mb_recv\<close> and its siblings compute it.\<close>

definition remaining_timeout :: "u32 \<Rightarrow> u32 \<Rightarrow> u32 \<Rightarrow> u32" where
  "remaining_timeout timeout start now =
     (if 0 < sint timeout then
        (let left = timeout - (now - start) in if sint left < 0 then 0 else left)
      else timeout)"

definition set_error :: "nat \<Rightarrow> rt_err_t \<Rightarrow> kernel \<Rightarrow> kernel" where
  "set_error t e k = upd_thr t (\<lambda>x. x\<lparr>error := e\<rparr>) k"

text \<open>The head of an IPC object's own list is emptied when the object is initialised.\<close>

definition rt_ipc_object_init :: "nat \<Rightarrow> kernel \<Rightarrow> kernel" where
  "rt_ipc_object_init a k = k\<lparr>tlists := (tlists k)(Suspend a := [])\<rparr>"

definition sender_list_init :: "nat \<Rightarrow> kernel \<Rightarrow> kernel" where
  "sender_list_init a k = k\<lparr>tlists := (tlists k)(SuspendSender a := [])\<rparr>"

definition has_class :: "u8 \<Rightarrow> nat \<Rightarrow> kernel \<Rightarrow> bool" where
  "has_class cl a k \<longleftrightarrow> rt_object_get_type (Obj a) k = cl"

definition set_flag :: "nat \<Rightarrow> u8 \<Rightarrow> kernel \<Rightarrow> kernel" where
  "set_flag a flag k = upd_obj (Obj a) (\<lambda>ob. ob\<lparr>o_flag := flag\<rparr>) k"

section \<open>The order of a wait queue\<close>

text \<open>A priority queue: ascending priority numbers, that is the most urgent thread first.\<close>

definition prio_sorted :: "(nat \<Rightarrow> u8) \<Rightarrow> nat list \<Rightarrow> bool" where
  "prio_sorted prio ts \<longleftrightarrow> sorted (map prio ts)"

lemma prio_place_None: "prio_place prio p ts = None \<longleftrightarrow> (\<forall>s \<in> set ts. \<not> p < prio s)"
  by (induction ts) auto

lemma prio_place_Some:
  assumes "prio_place prio p ts = Some s"
  obtains xs ys where "ts = xs @ s # ys" "s \<notin> set xs" "p < prio s" "\<forall>x \<in> set xs. prio x \<le> p"
  using assms
proof (induction ts arbitrary: thesis)
  case (Cons u us)
  show ?case
  proof (cases "p < prio u")
    case True
    with Cons.prems show ?thesis by (intro Cons.prems(1) [of "[]" us]) auto
  next
    case False
    with Cons.prems(2) have "prio_place prio p us = Some s" by simp
    then obtain xs ys where "us = xs @ s # ys" "s \<notin> set xs" "p < prio s" "\<forall>x \<in> set xs. prio x \<le> p"
      using Cons.IH by blast
    with False show ?thesis by (intro Cons.prems(1) [of "u # xs" ys]) auto
  qed
qed simp

text \<open>The place of a new waiter of priority \<open>p\<close>: behind everyone at least as urgent.\<close>

fun prio_insert :: "(nat \<Rightarrow> u8) \<Rightarrow> nat \<Rightarrow> nat list \<Rightarrow> nat list" where
  "prio_insert prio t [] = [t]"
| "prio_insert prio t (s # ss) = (if prio t < prio s then t # s # ss else s # prio_insert prio t ss)"

lemma set_prio_insert [simp]: "set (prio_insert prio t ts) = insert t (set ts)"
  by (induction ts) auto

lemma distinct_prio_insert: "t \<notin> set ts \<Longrightarrow> distinct ts \<Longrightarrow> distinct (prio_insert prio t ts)"
  by (induction ts) auto

lemma prio_insert_sorted: "prio_sorted prio ts \<Longrightarrow> prio_sorted prio (prio_insert prio t ts)"
  unfolding prio_sorted_def by (induction ts) auto

lemma prio_place_less: "prio_place prio p ts = Some s \<Longrightarrow> p < prio s \<and> s \<in> set ts"
  by (induction ts) (auto split: if_splits)

lemma prio_insert_eq:
  "prio_insert prio t ts =
     (case prio_place prio (prio t) ts of Some s \<Rightarrow> ins_before s t ts | None \<Rightarrow> ts @ [t])"
  by (induction ts) (auto split: option.split dest: prio_place_less)

definition enqueue :: "u8 \<Rightarrow> (nat \<Rightarrow> u8) \<Rightarrow> nat \<Rightarrow> nat list \<Rightarrow> nat list" where
  "enqueue flag prio t ts = (if flag = RT_IPC_FLAG_PRIO then prio_insert prio t ts else ts @ [t])"

lemma suspend_running:
  assumes "sched_inv k" "stat_of (thr k t) = RT_THREAD_RUNNING" "rt_thread_suspend c t k = Some (r, k')"
  shows "tlists k' = tlists k" "current_priority (thr k' s) = current_priority (thr k s)"
    "stat_of (thr k' t) = RT_THREAD_SUSPEND" "off_lists t k'" "rt_tick_get k' = rt_tick_get k"
    "error (thr k' s) = error (thr k s)"
proof -
  obtain r' where st: "rt_timer_stop (ThreadTimer t)
      (upd_thr t (set_stat RT_THREAD_SUSPEND) (rt_schedule_remove_thread t k)) = Some (r', k')"
    using assms(2,3) by (elim suspendE) simp_all
  note fr = timer_stop_frame [OF st]
  have off: "t \<notin> set (tlists k l)" for l
    using running_off_lists [OF sched_inv_exD(3) [OF assms(1)] assms(2)] by (simp add: off_lists_def)
  show "tlists k' = tlists k" "current_priority (thr k' s) = current_priority (thr k s)"
    "stat_of (thr k' t) = RT_THREAD_SUSPEND" "off_lists t k'" "rt_tick_get k' = rt_tick_get k"
    "error (thr k' s) = error (thr k s)"
    using off by (simp_all add: fr off_lists_def rt_tick_get_def)
qed

text \<open>A thread that blocks: it is SUSPENDED and on the wait queue, at its place.\<close>

lemma list_suspend_spec:
  assumes "sched_inv k" "rt_ipc_list_suspend c l t flag k = Some k'"
    and "flag = RT_IPC_FLAG_FIFO \<or> flag = RT_IPC_FLAG_PRIO"
    and "is_wq l" "stat_of (thr k t) = RT_THREAD_RUNNING"
  obtains r k1 where "rt_thread_suspend c t k = Some (r, k1)"
    "k' = k1\<lparr>tlists := (tlists k)(l := enqueue flag (\<lambda>s. current_priority (thr k s)) t (tlists k l))\<rparr>"
    "sched_inv k'" "stat_of (thr k' t) = RT_THREAD_SUSPEND"
proof -
  from assms(2) obtain r k1 where s: "rt_thread_suspend c t k = Some (r, k1)"
    "k' = (if flag = RT_IPC_FLAG_FIFO then tlist_insert_before l t k1
           else if flag = RT_IPC_FLAG_PRIO then
             (case prio_place (\<lambda>s. current_priority (thr k1 s)) (current_priority (thr k1 t)) (tlists k1 l) of
                Some s \<Rightarrow> tlist_insert_before_node s t k1
              | None \<Rightarrow> tlist_insert_before l t k1)
           else k1)"
    by (auto simp: rt_ipc_list_suspend_def elim!: bind_eq_SomeE)
  note sr = suspend_running [OF assms(1,5) s(1)]
  have inv1: "sched_inv k1" by (rule suspend_keeps [OF assms(1) s(1)])
  let ?B = "enqueue flag (\<lambda>s. current_priority (thr k s)) t (tlists k l)"
  have node: "(\<lambda>m. ins_before s t (tlists k m)) = (tlists k)(l := ins_before s t (tlists k l))"
    if "s \<in> set (tlists k l)" for s
    using rq_member_unique [OF sched_inv_exD(1) [OF assms(1)] that] by (auto simp: fun_eq_iff)
  have k': "k' = k1\<lparr>tlists := (tlists k)(l := ?B)\<rparr>"
    using assms(3) prio_place_less [of _ _ "tlists k l"] node
    by (auto simp: s(2) sr(1,2) enqueue_def prio_insert_eq tlist_insert_before_def
        tlist_insert_before_node_def split: option.split)
  have off: "t \<notin> set (tlists k l)" using sr(4) by (simp add: off_lists_def sr(1))
  have dB: "distinct ?B" "set ?B = insert t (set (tlists k l))"
    using off tlists_okD(1) [OF sched_inv_exD(1) [OF assms(1)], of l]
    by (auto simp: enqueue_def distinct_prio_insert)
  have "sched_inv (k1\<lparr>tlists := (tlists k1)(l := ?B)\<rparr>)"
    by (rule sched_inv_wait [OF inv1 sr(4,3) assms(4) dB(1)]) (simp add: dB(2) sr(1))
  then have "sched_inv k'" by (simp add: k' sr(1))
  moreover have "stat_of (thr k' t) = RT_THREAD_SUSPEND" using sr(3) by (simp add: k')
  ultimately show ?thesis using that [OF s(1) k'] by simp
qed

section \<open>Waking waiters\<close>

text \<open>The threads of a wait queue are live objects with their timers.\<close>

definition waiters_live :: "lid \<Rightarrow> kernel \<Rightarrow> bool" where
  "waiters_live l k \<longleftrightarrow> (\<forall>t \<in> set (tlists k l). is_thread t k \<and> is_timer (ThreadTimer t) k)"

lemma is_timer_thread_cong:
  "rt_object_get_type (ThreadTimer t) k' = rt_object_get_type (ThreadTimer t) k \<Longrightarrow>
     is_timer (ThreadTimer t) k' = is_timer (ThreadTimer t) k"
  by (simp add: is_timer_def)

lemma insert_thread_wq:
  assumes "is_wq m"
  shows "tlists (rt_schedule_insert_thread c t k) m = tlists k m"
proof (cases "oncpu (thr k t) = RT_CPU_DETACHED")
  case True
  have "m \<noteq> home (thr k t)" using assms by (cases m) (auto simp: home_def)
  then show ?thesis by (simp add: insert_thread_detached(1) [OF True])
next
  case False
  then show ?thesis by (simp add: insert_thread_oncpu)
qed

lemma resume_waiter:
  assumes "sched_inv k" "t \<in> set (tlists k l)" "is_wq l" "is_thread t k" "is_timer (ThreadTimer t) k"
  obtains k' where "rt_thread_resume c t k = Some (RT_EOK, k')" "sched_inv k'"
    "\<And>m. is_wq m \<Longrightarrow> tlists k' m = removeAll t (tlists k m)"
    "stat_of (thr k' t) \<noteq> RT_THREAD_SUSPEND" "error (thr k' t) = error (thr k t)"
    "\<And>s. s \<noteq> t \<Longrightarrow> thr k' s = thr k s"
    "\<And>s. current_priority (thr k' s) = current_priority (thr k s)"
    "\<And>y. rt_object_get_type y k' = rt_object_get_type y k"
    "\<And>d. current_thread (cpus k' d) = current_thread (cpus k d)"
    "\<And>d. irq_nest (cpus k' d) = irq_nest (cpus k d)"
    "\<And>y. o_type (obj k' y) = o_type (obj k y)"
proof -
  have st: "stat_of (thr k t) = RT_THREAD_SUSPEND"
    using sched_inv_exD(3) [OF assms(1)] assms(2,3) by (simp add: queued_ok_def)
  obtain r k' where k': "rt_thread_resume c t k = Some (r, k')" using resume_total [OF assms(4,5)] by blast
  obtain r' k1 where k1: "r = RT_EOK" "rt_timer_stop (ThreadTimer t) (tlist_remove t k) = Some (r', k1)"
    "k' = rt_schedule_insert_thread c t k1"
    using k' st by (elim resumeE) simp_all
  note fr = timer_stop_frame [OF k1(2)]
  note e = resume_effect [OF k']
  have "tlists k' m = removeAll t (tlists k m)" if "is_wq m" for m
    using insert_thread_wq [OF that] by (simp add: k1(3) fr)
  moreover have "stat_of (thr k' t) \<noteq> RT_THREAD_SUSPEND" using e(1) [OF k1(1)] by simp
  moreover have "error (thr k' t) = error (thr k t)" "current_priority (thr k' s) = current_priority (thr k s)" for s
    by (simp_all add: k1(3) insert_thread_thr fr)
  moreover have "o_type (obj k' y) = o_type (obj k y)" for y by (simp add: k1(3) fr)
  ultimately show ?thesis using that k' k1(1) resume_keeps [OF assms(1) k'] e by blast
qed

lemma list_resume_spec:
  assumes "sched_inv k" "tlists k l = t # ts" "is_wq l" "waiters_live l k"
  obtains k' where "rt_ipc_list_resume c l k = Some k'" "rt_thread_resume c t k = Some (RT_EOK, k')" "sched_inv k'"
    "tlists k' l = ts" "stat_of (thr k' t) \<noteq> RT_THREAD_SUSPEND" "error (thr k' t) = error (thr k t)"
    "\<And>s. s \<noteq> t \<Longrightarrow> thr k' s = thr k s"
    "\<And>d. current_thread (cpus k' d) = current_thread (cpus k d)"
proof -
  have t: "t \<in> set (tlists k l)" "is_thread t k" "is_timer (ThreadTimer t) k"
    using assms(2,4) by (auto simp: waiters_live_def)
  have ts: "removeAll t (tlists k l) = ts"
    using tlists_okD(1) [OF sched_inv_exD(1) [OF assms(1)], of l] assms(2) by simp
  obtain k' where k': "rt_thread_resume c t k = Some (RT_EOK, k')" "sched_inv k'"
    "\<And>m. is_wq m \<Longrightarrow> tlists k' m = removeAll t (tlists k m)"
    "stat_of (thr k' t) \<noteq> RT_THREAD_SUSPEND" "error (thr k' t) = error (thr k t)"
    "\<And>s. s \<noteq> t \<Longrightarrow> thr k' s = thr k s" "\<And>d. current_thread (cpus k' d) = current_thread (cpus k d)"
    using resume_waiter [OF assms(1) t(1) assms(3) t(2,3)] by metis
  from k'(1) assms(2) have "rt_ipc_list_resume c l k = Some k'" by (simp add: rt_ipc_list_resume_def)
  with that k' ts k'(3) [OF assms(3)] show ?thesis by simp
qed

lemma sched_inv_set_error [simp]: "sched_inv (upd_thr t (\<lambda>x. x\<lparr>error := e\<rparr>) k) = sched_inv k"
proof
  assume "sched_inv (upd_thr t (\<lambda>x. x\<lparr>error := e\<rparr>) k)"
  then have "sched_inv (upd_thr t (\<lambda>x. x\<lparr>error := error (thr k t)\<rparr>) (upd_thr t (\<lambda>x. x\<lparr>error := e\<rparr>) k))"
    by (rule sched_inv_thread_field) (simp add: stat_of_def)
  then show "sched_inv k" by (simp add: fun_upd_idem)
next
  assume "sched_inv k"
  then show "sched_inv (upd_thr t (\<lambda>x. x\<lparr>error := e\<rparr>) k)"
    by (rule sched_inv_thread_field) (simp add: stat_of_def)
qed

text \<open>Waking all: the loop ends, the queue is empty, and every thread that waited is awake with the
  error code.\<close>

definition all_woken :: "lid \<Rightarrow> kernel \<Rightarrow> kernel \<Rightarrow> bool" where
  "all_woken l k k' \<longleftrightarrow>
     tlists k' l = [] \<and> (\<forall>m. is_wq m \<longrightarrow> m \<noteq> l \<longrightarrow> tlists k' m = tlists k m) \<and>
     (\<forall>t \<in> set (tlists k l). stat_of (thr k' t) \<noteq> RT_THREAD_SUSPEND \<and> error (thr k' t) = - RT_ERROR) \<and>
     (\<forall>t. t \<notin> set (tlists k l) \<longrightarrow> thr k' t = thr k t) \<and>
     (\<forall>y. o_type (obj k' y) = o_type (obj k y)) \<and>
     (\<forall>d. current_thread (cpus k' d) = current_thread (cpus k d))"

lemma resume_all_total:
  assumes "sched_inv k" "is_wq l" "waiters_live l k"
  shows "\<exists>k'. rt_ipc_list_resume_all c l k = Some k' \<and> sched_inv k' \<and> all_woken l k k'"
  using assms
proof (induction "tlists k l" arbitrary: k)
  case Nil
  from Nil.hyps have e: "tlists k l = []" by simp
  then have "rt_ipc_list_resume_all c l k = Some k"
    by (subst rt_ipc_list_resume_all.simps) simp
  with Nil.prems(1) e show ?case by (simp add: all_woken_def)
next
  case (Cons t ts)
  let ?k0 = "upd_thr t (\<lambda>x. x\<lparr>error := - RT_ERROR\<rparr>) k"
  from Cons.hyps(2) have l: "tlists k l = t # ts" by simp
  have d: "t \<notin> set ts" using tlists_okD(1) [OF sched_inv_exD(1) [OF Cons.prems(1)], of l] l by simp
  have t: "t \<in> set (tlists ?k0 l)" "is_thread t ?k0" "is_timer (ThreadTimer t) ?k0"
    using Cons.prems(3) l by (auto simp: waiters_live_def is_timer_def)
  have inv0: "sched_inv ?k0" using Cons.prems(1) by simp
  obtain k1 where k1: "rt_thread_resume c t ?k0 = Some (RT_EOK, k1)" "sched_inv k1"
    "\<And>m. is_wq m \<Longrightarrow> tlists k1 m = removeAll t (tlists ?k0 m)"
    "stat_of (thr k1 t) \<noteq> RT_THREAD_SUSPEND" "error (thr k1 t) = error (thr ?k0 t)"
    "\<And>s. s \<noteq> t \<Longrightarrow> thr k1 s = thr ?k0 s"
    "\<And>y. rt_object_get_type y k1 = rt_object_get_type y ?k0"
    "\<And>d. current_thread (cpus k1 d) = current_thread (cpus ?k0 d)"
    "\<And>y. o_type (obj k1 y) = o_type (obj ?k0 y)"
    by (rule resume_waiter [OF inv0 t(1) Cons.prems(2) t(2,3), of c]) metis
  have l1: "tlists k1 l = ts" using k1(3) [OF Cons.prems(2)] l d by simp
  have o1: "tlists k1 m = tlists k m" if "is_wq m" "m \<noteq> l" for m
  proof -
    have "t \<notin> set (tlists k m)"
      using rq_member_unique [OF sched_inv_exD(1) [OF Cons.prems(1)], of t l m] l that(2) by simp
    then show ?thesis using k1(3) [OF that(1)] by simp
  qed
  have "waiters_live l k1"
    using Cons.prems(3) l l1 k1(7) by (auto simp: waiters_live_def is_timer_def is_thread_def)
  from Cons.hyps(1) [OF _ k1(2) Cons.prems(2) this] l1 obtain k' where
    k': "rt_ipc_list_resume_all c l k1 = Some k'" "sched_inv k'" "all_woken l k1 k'" by auto
  have "rt_ipc_list_resume_all c l k = Some k'"
    using l k1(1) k'(1) by (subst rt_ipc_list_resume_all.simps) simp
  moreover have "all_woken l k k'"
    using k'(3) k1 l1 l d o1 by (auto simp: all_woken_def)
  ultimately show ?case using k'(2) by blast
qed

end
