(* ===== verification/IpcFrame.thy ===== *)
theory IpcFrame
  imports Ipc
begin

text \<open>
  Scheduling and the IPC objects do not interfere: what the kernel does with threads and timers
  leaves the state of semaphores, mutexes, events, mailboxes and message queues alone, and a switch
  leaves the wait queues alone.
\<close>

definition ipc_part ::
    "kernel \<Rightarrow> (nat \<Rightarrow> rt_semaphore) \<times> (nat \<Rightarrow> rt_mutex) \<times> (nat \<Rightarrow> rt_event) \<times>
               (nat \<Rightarrow> rt_mailbox) \<times> (nat \<Rightarrow> rt_messagequeue)" where
  "ipc_part k = (sems k, mutexes k, events k, mbs k, mqs k)"

lemma wq_lists: "is_wq (Suspend a)" "is_wq (SuspendSender a)"
  by simp_all

lemma ipc_partD:
  assumes "ipc_part k' = ipc_part k"
  shows "sems k' = sems k" "mutexes k' = mutexes k" "events k' = events k" "mbs k' = mbs k" "mqs k' = mqs k"
  using assms by (simp_all add: ipc_part_def)

lemma ipc_upd [simp]:
  "ipc_part (thr_update f1 k) = ipc_part k" "ipc_part (cpus_update f2 k) = ipc_part k"
  "ipc_part (tlists_update f3 k) = ipc_part k" "ipc_part (obj_update f4 k) = ipc_part k"
  "ipc_part (tmr_update f5 k) = ipc_part k" "ipc_part (ready_priority_group_update f6 k) = ipc_part k"
  "ipc_part (timer_list_update f7 k) = ipc_part k" "ipc_part (soft_timer_list_update f8 k) = ipc_part k"
  "ipc_part (random_nr_update f9 k) = ipc_part k" "ipc_part (ipi_update f10 k) = ipc_part k"
  "ipc_part (containers_update f11 k) = ipc_part k"
  by (simp_all add: ipc_part_def)

lemma ipc_prim [simp]:
  "ipc_part (tlist_remove t k) = ipc_part k" "ipc_part (tlist_insert_before l t k) = ipc_part k"
  "ipc_part (tlist_insert_before_node s t k) = ipc_part k" "ipc_part (rt_hw_ipi_send m k) = ipc_part k"
  "ipc_part (rt_timer_remove x k) = ipc_part k" "ipc_part (rt_cpus_lock_status_restore c t k) = ipc_part k"
  "ipc_part (rt_schedule_remove_thread t k) = ipc_part k"
  "ipc_part (rt_schedule_insert_thread c t k) = ipc_part k"
  "ipc_part (change_priority c t p k) = ipc_part k" "ipc_part (set_error t e k) = ipc_part k"
  by (simp_all add: tlist_remove_def tlist_insert_before_def tlist_insert_before_node_def rt_hw_ipi_send_def
      rt_timer_remove_def rt_cpus_lock_status_restore_def rt_schedule_remove_thread_def
      rt_schedule_insert_thread_def change_priority_def set_error_def Let_def)

lemma ipc_timer [frame]:
  "rt_timer_stop x k = Some (r, k') \<Longrightarrow> ipc_part k' = ipc_part k"
  "rt_timer_start_core x k = Some k' \<Longrightarrow> ipc_part k' = ipc_part k"
  "rt_timer_control x cmd a k = Some (r, b, k') \<Longrightarrow> ipc_part k' = ipc_part k"
  by (auto simp: rt_timer_stop_def rt_timer_start_core_def rt_timer_control_def Let_def
      split: if_splits timer_cmd.splits)

lemma ipc_suspend [frame]: "rt_thread_suspend c t k = Some (r, k') \<Longrightarrow> ipc_part k' = ipc_part k"
  by (elim suspendE) (simp_all add: ipc_timer)

lemma ipc_resume [frame]: "rt_thread_resume c t k = Some (r, k') \<Longrightarrow> ipc_part k' = ipc_part k"
  by (elim resumeE) (simp_all add: ipc_timer)

lemma ipc_signal [frame]: "signal_wakeup c t k = Some k' \<Longrightarrow> ipc_part k' = ipc_part k"
  by (auto simp: signal_wakeup_def ipc_resume split: if_splits)

lemma ipc_switch [frame]: "schedule_switch c t k = Some k' \<Longrightarrow> ipc_part k' = ipc_part k"
  by (auto simp: schedule_switch_def Let_def elim!: bind_eq_SomeE split: if_splits)

lemma ipc_schedule [frame]:
  assumes "rt_schedule c k = Some k'"
  shows "ipc_part k' = ipc_part k"
proof (cases "irq_nest (cpus k c) = 0")
  case True
  with assms obtain cur k1 where "signal_wakeup c cur k = Some k1"
    "(if scheduler_lock_nest (thr k1 cur) + 1 = 1 then schedule_switch c cur k1 else Some k1) = Some k'"
    by (auto simp: rt_schedule_def elim!: bind_eq_SomeE)
  then show ?thesis using ipc_signal ipc_switch by (metis option.inject)
qed (use assms in \<open>auto simp: rt_schedule_def\<close>)

lemma ipc_timer_start [frame]:
  assumes "rt_timer_start c x k = Some k'"
  shows "ipc_part k' = ipc_part k"
  using assms ipc_timer(2) ipc_resume ipc_schedule
  by (auto simp: rt_timer_start_def elim!: bind_eq_SomeE split: if_splits)

lemma ipc_list_suspend [frame]: "rt_ipc_list_suspend c l t flag k = Some k' \<Longrightarrow> ipc_part k' = ipc_part k"
  by (auto simp: rt_ipc_list_suspend_def ipc_suspend elim!: bind_eq_SomeE split: option.splits)

lemma ipc_list_resume [frame]: "rt_ipc_list_resume c l k = Some k' \<Longrightarrow> ipc_part k' = ipc_part k"
  by (auto simp: rt_ipc_list_resume_def ipc_resume split: list.splits)

lemma ipc_resume_all [frame]:
  assumes "rt_ipc_list_resume_all c l k = Some k'"
  shows "ipc_part k' = ipc_part k"
proof (rule rt_ipc_list_resume_all.raw_induct [of "\<lambda>c l k k'. ipc_part k' = ipc_part k" c l k k', OF _ assms])
  fix f c l k k'
  assume f: "\<And>c l k k'. f c l k = Some k' \<Longrightarrow> ipc_part k' = ipc_part k"
    and b: "(case tlists k l of [] \<Rightarrow> Some k
      | t # _ \<Rightarrow> rt_thread_resume c t (upd_thr t (\<lambda>x. x\<lparr>error := - RT_ERROR\<rparr>) k) \<bind> (\<lambda>(_, k1). f c l k1)) = Some k'"
  show "ipc_part k' = ipc_part k"
  proof (cases "tlists k l")
    case (Cons t ts)
    with b obtain r k1 where "rt_thread_resume c t (upd_thr t (\<lambda>x. x\<lparr>error := - RT_ERROR\<rparr>) k) = Some (r, k1)"
      "f c l k1 = Some k'" by (auto elim!: bind_eq_SomeE)
    then show ?thesis using f ipc_resume by fastforce
  qed (use b in simp)
qed

section \<open>Scheduling and priorities\<close>

lemma prio_resume [frame]:
  "rt_thread_resume c t k = Some (r, k') \<Longrightarrow> current_priority (thr k' s) = current_priority (thr k s)"
  by (elim resumeE) (simp_all add: timer_stop_frame insert_thread_thr)

lemma prio_suspend [frame]:
  "rt_thread_suspend c t k = Some (r, k') \<Longrightarrow> current_priority (thr k' s) = current_priority (thr k s)"
  by (elim suspendE) (simp_all add: timer_stop_frame)

lemma prio_switch [frame]:
  "schedule_switch c t k = Some k' \<Longrightarrow> current_priority (thr k' s) = current_priority (thr k s)"
  by (auto simp: schedule_switch_def rt_cpus_lock_status_restore_def insert_thread_thr Let_def
      elim!: bind_eq_SomeE split: if_splits)

lemma prio_schedule [frame]:
  assumes "rt_schedule c k = Some k'"
  shows "current_priority (thr k' s) = current_priority (thr k s)"
proof (cases "irq_nest (cpus k c) = 0")
  case True
  with assms obtain cur k1 where k1: "signal_wakeup c cur k = Some k1"
    "(if scheduler_lock_nest (thr k1 cur) + 1 = 1 then schedule_switch c cur k1 else Some k1) = Some k'"
    by (auto simp: rt_schedule_def elim!: bind_eq_SomeE)
  have "current_priority (thr k1 s) = current_priority (thr k s)"
    using k1(1) prio_resume by (auto simp: signal_wakeup_def split: if_splits)
  with k1(2) show ?thesis using prio_switch by (metis option.inject)
qed (use assms in \<open>auto simp: rt_schedule_def\<close>)

section \<open>Switching and the wait queues\<close>

lemma schedule_switch_wq:
  assumes "sched_inv k" "c < 2" "current_thread (cpus k c) = Some cur" "schedule_switch c cur k = Some k'" "is_wq m"
  shows "tlists k' m = tlists k m"
  using assms(1-3)
proof (cases rule: schedule_switch_cases)
  case (switch to p ts l k3)
  note rc = requeue_current [OF assms(1-3), folded switch(6)]
  have l: "is_rq l" "to \<in> set (tlists k l)" "l \<noteq> m" using switch(3,4) assms(5) by auto
  have "to \<notin> set (tlists k m)"
    using rq_member_unique [OF sched_inv_exD(1) [OF assms(1)] l(2,3)] .
  moreover have "m \<noteq> home (thr k cur)" using assms(5) home_rq(2) by metis
  moreover have "k' = give_cpu c to (of_nat p) k3" using assms(4) switch(1) by simp
  ultimately show ?thesis using rc(5) by (simp add: give_cpu_simps)
qed (use assms(4) in simp_all)

text \<open>A pending signal wakes the thread that is about to wait; without one a switch leaves the
  wait queues alone.\<close>

definition no_signal :: "rt_thread \<Rightarrow> bool" where
  "no_signal x \<longleftrightarrow> (stat x AND RT_THREAD_STAT_SIGNAL_MASK) AND RT_THREAD_STAT_SIGNAL_PENDING = 0"

lemma schedule_wq:
  assumes "sched_inv k" "c < 2" "rt_schedule c k = Some k'" "is_wq m"
    and "\<And>t. current_thread (cpus k c) = Some t \<Longrightarrow> no_signal (thr k t)"
  shows "tlists k' m = tlists k m"
proof (cases "irq_nest (cpus k c) = 0")
  case True
  with assms(3) obtain cur where cur: "current_thread (cpus k c) = Some cur"
    by (auto simp: rt_schedule_def elim!: bind_eq_SomeE)
  then have "signal_wakeup c cur k = Some k" using assms(5) by (simp add: signal_wakeup_def no_signal_def)
  with True assms(3) cur have "k' = k \<or> schedule_switch c cur k = Some k'"
    by (auto simp: rt_schedule_def split: if_splits)
  then show ?thesis using schedule_switch_wq [OF assms(1,2) cur _ assms(4)] by auto
qed (use assms(3) in \<open>auto simp: rt_schedule_def\<close>)

text \<open>Blocking and waking leave pending signals and the kind of a timer alone.\<close>

lemma set_stat_no_signal: "no_signal (set_stat RT_THREAD_SUSPEND x) = no_signal x"
proof -
  have "stat (set_stat RT_THREAD_SUSPEND x) AND 0x40 = stat x AND 0x40"
    using mask_replace_keep [of 2 7 "0x40" "stat x"] by (simp add: set_stat_def)
  then show ?thesis by (simp add: no_signal_def and.assoc)
qed

lemma set_stat_no_signal':
  "no_signal (set_stat RT_THREAD_READY x) = no_signal x" "no_signal (set_stat RT_THREAD_RUNNING x) = no_signal x"
proof -
  have "stat (set_stat RT_THREAD_READY x) AND 0x40 = stat x AND 0x40"
    "stat (set_stat RT_THREAD_RUNNING x) AND 0x40 = stat x AND 0x40"
    using mask_replace_keep [of 1 7 "0x40" "stat x"] mask_replace_keep [of 3 7 "0x40" "stat x"]
    by (simp_all add: set_stat_def)
  then show "no_signal (set_stat RT_THREAD_READY x) = no_signal x"
    "no_signal (set_stat RT_THREAD_RUNNING x) = no_signal x" by (simp_all add: no_signal_def and.assoc)
qed

lemma resume_no_signal:
  "rt_thread_resume c t k = Some (r, k') \<Longrightarrow> no_signal (thr k' s) = no_signal (thr k s)"
  by (elim resumeE) (simp_all add: timer_stop_frame insert_thread_thr set_stat_no_signal')

lemma suspend_no_signal:
  "rt_thread_suspend c t k = Some (r, k') \<Longrightarrow> no_signal (thr k' s) = no_signal (thr k s)"
  by (elim suspendE) (simp_all add: timer_stop_frame set_stat_no_signal)

lemma timer_start_hard:
  assumes "rt_timer_start c x k = Some k'" "o_flag (obj k x) AND RT_TIMER_FLAG_SOFT_TIMER = 0"
  shows "rt_timer_start_core x k = Some k'"
proof -
  from assms(1) obtain k1 where k1: "rt_timer_start_core x k = Some k1"
    unfolding rt_timer_start_def by (elim bind_eq_SomeE)
  then have "o_flag (obj k1 x) AND RT_TIMER_FLAG_SOFT_TIMER = 0"
    using assms(2) by (auto simp: rt_timer_start_core_def Let_def split: if_splits)
  with assms(1) k1 show ?thesis by (simp add: rt_timer_start_def)
qed

lemma suspend_soft_flag:
  assumes "rt_thread_suspend c t k = Some (r, k')"
  shows "o_flag (obj k' x) AND RT_TIMER_FLAG_SOFT_TIMER = o_flag (obj k x) AND RT_TIMER_FLAG_SOFT_TIMER"
  using assms by (elim suspendE) (auto simp: rt_timer_stop_def split: if_splits)

text \<open>Arming the thread's timer changes nothing but timers.\<close>

lemma arm_timer_frame:
  assumes "(if 0 < sint timeout then do {
              (_, _, k') \<leftarrow> rt_timer_control (ThreadTimer t) Ctrl_set_time timeout k1;
              rt_timer_start c (ThreadTimer t) k' }
            else Some k1) = Some k2"
    and "o_flag (obj k1 (ThreadTimer t)) AND RT_TIMER_FLAG_SOFT_TIMER = 0"
  shows "tlists k2 = tlists k1" "thr k2 = thr k1" "cpus k2 = cpus k1" "sched_inv k2 = sched_inv k1"
    "rt_tick_get k2 = rt_tick_get k1" "is_thread s k2 = is_thread s k1"
proof -
  have "tlists k2 = tlists k1 \<and> thr k2 = thr k1 \<and> cpus k2 = cpus k1 \<and>
    ready_priority_group k2 = ready_priority_group k1 \<and> (\<forall>s. is_thread s k2 = is_thread s k1)"
  proof (cases "0 < sint timeout")
    case True
    with assms(1) obtain k0 where k0: "rt_timer_control (ThreadTimer t) Ctrl_set_time timeout k1 = Some (0, timeout, k0)"
      "rt_timer_start c (ThreadTimer t) k0 = Some k2"
      by (auto simp: rt_timer_control_def split: if_splits)
    then have e: "k0 = upd_tmr (ThreadTimer t) (\<lambda>x. x\<lparr>tm_init_tick := timeout\<rparr>) k1"
      by (auto simp: rt_timer_control_def split: if_splits)
    have "rt_timer_start_core (ThreadTimer t) k0 = Some k2"
      by (rule timer_start_hard [OF k0(2)]) (simp add: e assms(2))
    from timer_start_core_frame [OF this] show ?thesis by (simp add: e is_thread_def rt_object_get_type_def)
  qed (use assms(1) in simp)
  then show "tlists k2 = tlists k1" "thr k2 = thr k1" "cpus k2 = cpus k1"
    "rt_tick_get k2 = rt_tick_get k1" "is_thread s k2 = is_thread s k1" and "sched_inv k2 = sched_inv k1"
    by (simp_all add: rt_tick_get_def, intro sched_inv_ex_cong) simp_all
qed

section \<open>Calls from a running CPU\<close>

text \<open>The CPU runs a thread that is a live object, so a switch cannot fail.\<close>

definition cpu_live :: "nat \<Rightarrow> kernel \<Rightarrow> bool" where
  "cpu_live c k \<longleftrightarrow> c < 2 \<and> (\<exists>t. current_thread (cpus k c) = Some t \<and> is_thread t k \<and>
     is_timer (ThreadTimer t) k \<and> no_signal (thr k t))"

lemma schedule_total:
  assumes "sched_inv k" "cpu_live c k"
  obtains k' where "rt_schedule c k = Some k'" "sched_inv k'" "ipc_part k' = ipc_part k"
    "\<And>m. is_wq m \<Longrightarrow> tlists k' m = tlists k m"
proof -
  from assms(2) obtain t where t: "current_thread (cpus k c) = Some t" "no_signal (thr k t)" "c < 2"
    by (auto simp: cpu_live_def)
  have "signal_wakeup c t k = Some k" using t(2) by (simp add: signal_wakeup_def no_signal_def)
  then have "\<exists>k'. rt_schedule c k = Some k'"
    using schedule_switch_correct [OF assms(1) t(3,1)] t(1) by (auto simp: rt_schedule_def)
  then obtain k' where k': "rt_schedule c k = Some k'" ..
  show ?thesis
    by (rule that [OF k' rt_schedule_keeps [OF assms(1) t(3) k'] ipc_schedule [OF k']])
      (use schedule_wq [OF assms(1) t(3) k'] t in auto)
qed

text \<open>The running thread of a CPU that may block: its timer is a hard one.\<close>

definition may_block :: "nat \<Rightarrow> nat \<Rightarrow> kernel \<Rightarrow> bool" where
  "may_block c t k \<longleftrightarrow> c < 2 \<and> current_thread (cpus k c) = Some t \<and> irq_nest (cpus k c) = 0 \<and>
     is_thread t k \<and> is_timer (ThreadTimer t) k \<and> no_signal (thr k t) \<and>
     stat_of (thr k t) = RT_THREAD_RUNNING \<and>
     o_flag (obj k (ThreadTimer t)) AND RT_TIMER_FLAG_SOFT_TIMER = 0"

lemma may_blockD:
  assumes "may_block c t k"
  shows "c < 2" "current_thread (cpus k c) = Some t" "is_thread t k" "is_timer (ThreadTimer t) k"
    "no_signal (thr k t)" "stat_of (thr k t) = RT_THREAD_RUNNING" "rt_thread_self c k = Some t"
    "o_flag (obj k (ThreadTimer t)) AND RT_TIMER_FLAG_SOFT_TIMER = 0" "in_thread_context c k"
  using assms by (simp_all add: may_block_def rt_thread_self_def in_thread_context_def not_in_interrupt_def)

lemma suspend_total:
  assumes "may_block c t k"
  shows "\<exists>r k'. rt_thread_suspend c t k = Some (r, k')"
  using may_blockD [OF assms] by (auto simp: rt_thread_suspend_def rt_timer_stop_def is_timer_def Let_def)

lemma suspend_types: "rt_thread_suspend c t k = Some (r, k') \<Longrightarrow> is_timer x k' = is_timer x k"
  by (simp add: is_timer_def suspend_effect(7))

lemma unat_of_positive: "0 < sint (w :: u32) \<Longrightarrow> unat w < 2 ^ 31"
proof -
  assume p: "0 < sint w"
  have "sint w < 2 ^ 31" using sint_lt [of w] by simp
  moreover have "uint w = sint w mod 2 ^ 32" by (simp add: uint_sint take_bit_eq_mod)
  ultimately show ?thesis using p by (simp add: unat_eq_nat_uint)
qed

lemma arm_timer_total:
  assumes "is_timer (ThreadTimer t) k1" "timeout \<noteq> 0x7fffffff"
    "o_flag (obj k1 (ThreadTimer t)) AND RT_TIMER_FLAG_SOFT_TIMER = 0"
  shows "\<exists>k2. (if 0 < sint timeout then do {
              (_, _, k') \<leftarrow> rt_timer_control (ThreadTimer t) Ctrl_set_time timeout k1;
              rt_timer_start c (ThreadTimer t) k' }
            else Some k1) = Some k2 \<and> (\<forall>x. is_timer x k2 = is_timer x k1)"
proof (cases "0 < sint timeout")
  case True
  let ?k = "upd_tmr (ThreadTimer t) (\<lambda>x. x\<lparr>tm_init_tick := timeout\<rparr>) k1"
  have "unat timeout < 2 ^ 31" using True by (rule unat_of_positive)
  moreover have "unat timeout \<noteq> 0x7fffffff" using assms(2) by (simp add: word_unat_eq_iff)
  ultimately have "tm_init_tick (tmr ?k (ThreadTimer t)) < HALF_TICK_MAX" by (simp add: word_less_nat_alt)
  moreover have "is_timer (ThreadTimer t) ?k" "o_flag (obj ?k (ThreadTimer t)) AND RT_TIMER_FLAG_SOFT_TIMER = 0"
    using assms(1,3) by (simp_all add: is_timer_def rt_object_get_type_def)
  ultimately obtain k2 where k2: "rt_timer_start_core (ThreadTimer t) ?k = Some k2"
    "\<And>y. y \<noteq> ThreadTimer t \<Longrightarrow> obj k2 y = obj ?k y" "is_timer (ThreadTimer t) k2"
    "o_flag (obj k2 (ThreadTimer t)) AND RT_TIMER_FLAG_SOFT_TIMER = 0"
    using timer_start_core_hard [of "ThreadTimer t" ?k] by blast
  have "is_timer x k2 = is_timer x k1" for x
    using k2(2,3) assms(1) is_timer_cong [of k2 x k1] by (cases "x = ThreadTimer t") simp_all
  with True k2 assms(1) show ?thesis by (simp add: rt_timer_start_def rt_timer_control_def)
qed simp

text \<open>Blocking, for any place \<open>B\<close> that the thread takes on the queue.\<close>

lemma block_total:
  assumes "sched_inv k" "may_block c t k" "timeout \<noteq> 0x7fffffff" "is_wq l"
    and "rt_thread_suspend c t k = Some (r, k0)" "distinct B" "set B = insert t (set (tlists k l))"
  obtains k2 k' where "(if 0 < sint timeout then do {
              (_, _, k') \<leftarrow> rt_timer_control (ThreadTimer t) Ctrl_set_time timeout (k0\<lparr>tlists := (tlists k)(l := B)\<rparr>);
              rt_timer_start c (ThreadTimer t) k' }
            else Some (k0\<lparr>tlists := (tlists k)(l := B)\<rparr>)) = Some k2"
    "rt_schedule c k2 = Some k'" "sched_inv k'" "ipc_part k' = ipc_part k"
    "tlists k' l = B" "\<And>m. is_wq m \<Longrightarrow> m \<noteq> l \<Longrightarrow> tlists k' m = tlists k m"
    "\<And>s. current_priority (thr k' s) = current_priority (thr k s)"
proof -
  note mb = may_blockD [OF assms(2)]
  note sr = suspend_running [OF assms(1) mb(6) assms(5)]
  define k1 where "k1 = k0\<lparr>tlists := (tlists k)(l := B)\<rparr>"
  have "sched_inv (k0\<lparr>tlists := (tlists k0)(l := B)\<rparr>)"
    by (rule sched_inv_wait [OF suspend_keeps [OF assms(1,5)] sr(4,3) assms(4,6)]) (simp add: assms(7) sr(1))
  then have inv1: "sched_inv k1" by (simp add: k1_def sr(1))
  have pre: "is_timer (ThreadTimer t) k1" "o_flag (obj k1 (ThreadTimer t)) AND RT_TIMER_FLAG_SOFT_TIMER = 0"
    using mb(4,8) suspend_types [OF assms(5)] suspend_soft_flag [OF assms(5)] by (simp_all add: k1_def is_timer_def)
  obtain k2 where k2: "(if 0 < sint timeout then do {
              (_, _, k') \<leftarrow> rt_timer_control (ThreadTimer t) Ctrl_set_time timeout k1;
              rt_timer_start c (ThreadTimer t) k' }
            else Some k1) = Some k2" "\<forall>x. is_timer x k2 = is_timer x k1"
    using arm_timer_total [OF pre(1) assms(3) pre(2)] by blast
  note a = arm_timer_frame [OF k2(1) pre(2)]
  have "is_thread t k1" using mb(3) suspend_effect(7) [OF assms(5)] by (simp add: k1_def is_thread_def)
  then have "cpu_live c k2"
    using mb k2(2) pre(1) suspend_effect(4) [OF assms(5)] suspend_no_signal [OF assms(5)]
    by (simp add: cpu_live_def a k1_def)
  moreover have "sched_inv k2" using inv1 by (simp add: a)
  ultimately obtain k' where k': "rt_schedule c k2 = Some k'" "sched_inv k'" "ipc_part k' = ipc_part k2"
    "\<And>m. is_wq m \<Longrightarrow> tlists k' m = tlists k2 m" using schedule_total by metis
  have "ipc_part k2 = ipc_part k1"
    using k2(1) ipc_timer(3) ipc_timer_start by (auto elim!: bind_eq_SomeE split: if_splits)
  then have "ipc_part k' = ipc_part k" using k'(3) ipc_suspend [OF assms(5)] by (simp add: k1_def)
  moreover have "current_priority (thr k' s) = current_priority (thr k s)" for s
    using prio_schedule [OF k'(1), of s] prio_suspend [OF assms(5), of s] by (simp add: a k1_def)
  ultimately show ?thesis using that [OF k2(1) [unfolded k1_def] k'(1,2)] k'(4) assms(4) by (simp add: a k1_def)
qed

lemma wait_on_total:
  assumes "sched_inv k" "may_block c t k" "timeout \<noteq> 0x7fffffff" "is_wq l"
    and "flag = RT_IPC_FLAG_FIFO \<or> flag = RT_IPC_FLAG_PRIO"
  obtains k' where "wait_on c l t flag timeout k = Some k'" "sched_inv k'" "ipc_part k' = ipc_part k"
    "tlists k' l = enqueue flag (\<lambda>s. current_priority (thr k s)) t (tlists k l)"
    "\<And>m. is_wq m \<Longrightarrow> m \<noteq> l \<Longrightarrow> tlists k' m = tlists k m"
    "\<And>s. current_priority (thr k' s) = current_priority (thr k s)"
proof -
  note mb = may_blockD [OF assms(2)]
  let ?B = "enqueue flag (\<lambda>s. current_priority (thr k s)) t (tlists k l)"
  obtain k1 where s: "rt_ipc_list_suspend c l t flag k = Some k1"
    using suspend_total [OF assms(2)] by (auto simp: rt_ipc_list_suspend_def)
  obtain r k0 where k0: "rt_thread_suspend c t k = Some (r, k0)" "k1 = k0\<lparr>tlists := (tlists k)(l := ?B)\<rparr>"
    by (rule list_suspend_spec [OF assms(1) s assms(5,4) mb(6)]) blast
  have "t \<notin> set (tlists k l)"
    using suspend_running(1,4) [OF assms(1) mb(6) k0(1)] by (simp add: off_lists_def)
  then have B: "distinct ?B" "set ?B = insert t (set (tlists k l))"
    using tlists_okD(1) [OF sched_inv_exD(1) [OF assms(1)], of l] by (auto simp: enqueue_def distinct_prio_insert)
  obtain k2 k' where k': "(if 0 < sint timeout then do {
              (_, _, k') \<leftarrow> rt_timer_control (ThreadTimer t) Ctrl_set_time timeout k1;
              rt_timer_start c (ThreadTimer t) k' }
            else Some k1) = Some k2" "rt_schedule c k2 = Some k'" "sched_inv k'" "ipc_part k' = ipc_part k"
    "tlists k' l = ?B" "\<And>m. is_wq m \<Longrightarrow> m \<noteq> l \<Longrightarrow> tlists k' m = tlists k m"
    "\<And>s. current_priority (thr k' s) = current_priority (thr k s)"
    unfolding k0(2) by (rule block_total [OF assms(1-4) k0(1) B]) blast
  from s k'(1,2) have "wait_on c l t flag timeout k = Some k'" by (simp add: wait_on_def)
  from that [OF this k'(3-7)] show ?thesis .
qed

lemma set_error_simps [simp]:
  "sems (set_error t e k) = sems k" "mutexes (set_error t e k) = mutexes k" "events (set_error t e k) = events k"
  "mbs (set_error t e k) = mbs k" "mqs (set_error t e k) = mqs k" "tlists (set_error t e k) = tlists k"
  "obj (set_error t e k) = obj k" "cpus (set_error t e k) = cpus k" "is_thread s (set_error t e k) = is_thread s k"
  "current_priority (thr (set_error t e k) s) = current_priority (thr k s)"
  "s \<noteq> t \<Longrightarrow> thr (set_error t e k) s = thr k s" "error (thr (set_error t e k) t) = e"
  by (simp_all add: set_error_def)

lemma may_block_set_error:
  "may_block c t (set_error s e k) = may_block c t k"
  "sched_inv (set_error s e k) = sched_inv k"
  by (simp_all add: may_block_def set_error_def no_signal_def stat_of_def is_timer_def is_thread_def
      rt_object_get_type_def)

text \<open>Waking the first waiter and switching: the queue loses its first thread, and the other wait
  queues and all IPC objects are as before.\<close>

lemma wake_schedule:
  assumes "sched_inv k" "cpu_live c k" "tlists k l = t # ts" "is_wq l" "waiters_live l k"
  obtains k1 k2 where "rt_ipc_list_resume c l k = Some k1" "rt_schedule c k1 = Some k2" "sched_inv k2"
    "ipc_part k2 = ipc_part k" "tlists k2 l = ts" "\<And>m. is_wq m \<Longrightarrow> m \<noteq> l \<Longrightarrow> tlists k2 m = tlists k m"
    "stat_of (thr k1 t) \<noteq> RT_THREAD_SUSPEND" "error (thr k1 t) = error (thr k t)"
    "\<And>s. current_priority (thr k2 s) = current_priority (thr k s)"
proof -
  have t: "t \<in> set (tlists k l)" "is_thread t k" "is_timer (ThreadTimer t) k"
    using assms(3,5) by (auto simp: waiters_live_def)
  obtain k1 where k1: "rt_thread_resume c t k = Some (RT_EOK, k1)" "sched_inv k1"
    "\<And>m. is_wq m \<Longrightarrow> tlists k1 m = removeAll t (tlists k m)"
    "stat_of (thr k1 t) \<noteq> RT_THREAD_SUSPEND" "error (thr k1 t) = error (thr k t)"
    "\<And>y. rt_object_get_type y k1 = rt_object_get_type y k"
    "\<And>d. current_thread (cpus k1 d) = current_thread (cpus k d)"
    by (rule resume_waiter [OF assms(1) t(1) assms(4) t(2,3), of c]) metis
  have lr: "rt_ipc_list_resume c l k = Some k1" using k1(1) assms(3) by (simp add: rt_ipc_list_resume_def)
  have "cpu_live c k1"
    using assms(2) k1(6,7) resume_no_signal [OF k1(1)] by (auto simp: cpu_live_def is_thread_def is_timer_def)
  then obtain k2 where k2: "rt_schedule c k1 = Some k2" "sched_inv k2" "ipc_part k2 = ipc_part k1"
    "\<And>m. is_wq m \<Longrightarrow> tlists k2 m = tlists k1 m" using schedule_total [OF k1(2)] by metis
  have "tlists k2 l = ts"
    using k2(4) [OF assms(4)] k1(3) [OF assms(4)] tlists_okD(1) [OF sched_inv_exD(1) [OF assms(1)], of l] assms(3)
    by simp
  moreover have "tlists k2 m = tlists k m" if "is_wq m" "m \<noteq> l" for m
    using k2(4) [OF that(1)] k1(3) [OF that(1)] that(2)
      rq_member_unique [OF sched_inv_exD(1) [OF assms(1)] t(1)] by simp
  moreover have "ipc_part k2 = ipc_part k" using k2(3) ipc_resume [OF k1(1)] by simp
  moreover have "current_priority (thr k2 s) = current_priority (thr k s)" for s
    using prio_schedule [OF k2(1)] prio_resume [OF k1(1)] by simp
  ultimately show ?thesis using that [OF lr k2(1,2)] k1(4,5) by blast
qed

section \<open>States for the examples\<close>

text \<open>The example state with an object at address 7; and the same with thread 2 waiting.\<close>

definition demo_object :: "u8 \<Rightarrow> kernel" where
  "demo_object cl = upd_obj (Obj 7) (\<lambda>ob. ob\<lparr>o_type := cl\<rparr>) demo_kernel"

definition demo_wait :: "u8 \<Rightarrow> lid \<Rightarrow> kernel" where
  "demo_wait cl l = (demo_object cl)
     \<lparr>thr := (thr demo_kernel)(2 := demo_thread RT_THREAD_SUSPEND 5 RT_CPU_DETACHED),
      tlists := (\<lambda>_. [])(l := [2]), ready_priority_group := 0\<rparr>"

lemma demo_object_inv:
  assumes "cl AND NOT RT_Object_Class_Static \<noteq> RT_Object_Class_Thread"
  shows "sched_inv (demo_object cl)"
proof -
  have "sched_inv (demo_object cl) = sched_inv demo_kernel"
    by (rule sched_inv_ex_cong)
      (use assms in \<open>auto simp: demo_object_def is_thread_def rt_object_get_type_def demo_defs\<close>)
  then show ?thesis using demo_inv by simp
qed

lemma demo_wait_inv:
  assumes "cl AND NOT RT_Object_Class_Static \<noteq> RT_Object_Class_Thread" "is_wq l"
  shows "sched_inv (demo_wait cl l)"
proof -
  have rq: "Ready q \<noteq> l" "CpuReady c q \<noteq> l" "Defunct \<noteq> l" "is_rq m \<Longrightarrow> m \<noteq> l" for q c m
    using assms(2) by (cases l; auto)+
  have "bitmap_ok 0 (\<lambda>_. [])" by (simp add: bitmap_ok_def)
  then have "bits_ok (demo_wait cl l)"
    using rq by (simp add: bits_ok_def demo_wait_def demo_object_def demo_defs)
  moreover have "tlists_ok (tlists (demo_wait cl l))" by (auto simp: tlists_ok_def demo_wait_def)
  moreover have "queued_ok (demo_wait cl l)"
    using rq by (auto simp: queued_ok_def demo_wait_def demo_defs)
  moreover have "thread_ok t (demo_wait cl l)" for t
    using assms(1) by (simp add: thread_ok_def home_def prio_ok_def is_thread_def rt_object_get_type_def
        demo_wait_def demo_object_def demo_defs)
  ultimately show ?thesis by (simp add: sched_inv_ex_def)
qed

lemma demo_may_block: "may_block 0 1 (demo_object cl)" "cpu_live 0 (demo_object cl)"
  by (simp_all add: may_block_def cpu_live_def demo_object_def is_thread_def is_timer_def
      rt_object_get_type_def no_signal_def demo_defs)

lemma demo_wait_live: "cpu_live 0 (demo_wait cl l)" "may_block 0 1 (demo_wait cl l)" "waiters_live m (demo_wait cl l)"
  by (simp_all add: may_block_def cpu_live_def waiters_live_def demo_wait_def demo_object_def is_thread_def is_timer_def
      rt_object_get_type_def no_signal_def demo_defs)

end
