(* ===== verification/Sem.thy ===== *)
theory Sem
  imports IpcFrame
begin

text \<open>
  Semaphores (\<^verbatim>\<open>src/ipc.c\<close>). A semaphore is a 16-bit count and a wait queue; its abstraction is the
  count with the queue, and each operation is related to the one on the abstraction. The count is
  not guarded against overflow.
\<close>

section \<open>Operations\<close>

definition set_sem :: "nat \<Rightarrow> u16 \<Rightarrow> kernel \<Rightarrow> kernel" where
  "set_sem a v k = k\<lparr>sems := (sems k)(a := \<lparr>sem_value = v\<rparr>)\<rparr>"

definition rt_sem_init :: "nat \<Rightarrow> string \<Rightarrow> u32 \<Rightarrow> u8 \<Rightarrow> kernel \<Rightarrow> (rt_err_t \<times> kernel) option" where
  "rt_sem_init a name v flag k = do {
     rt_assert (v < 0x10000);
     k1 \<leftarrow> rt_object_init (Obj a) RT_Object_Class_Semaphore name k;
     Some (RT_EOK, set_flag a flag (set_sem a (ucast v) (rt_ipc_object_init a k1))) }"

definition rt_sem_detach :: "nat \<Rightarrow> nat \<Rightarrow> kernel \<Rightarrow> (rt_err_t \<times> kernel) option" where
  "rt_sem_detach c a k = do {
     rt_assert (has_class RT_Object_Class_Semaphore a k);
     rt_assert (rt_object_is_systemobject (Obj a) k);
     k1 \<leftarrow> rt_ipc_list_resume_all c (Suspend a) k;
     Some (RT_EOK, rt_object_detach (Obj a) k1) }"

definition rt_sem_create ::
    "nat \<Rightarrow> string \<Rightarrow> u32 \<Rightarrow> u8 \<Rightarrow> nat option \<Rightarrow> kernel \<Rightarrow> (nat option \<times> kernel) option" where
  "rt_sem_create c name v flag malloc k = do {
     rt_assert (not_in_interrupt c k);
     rt_assert (v < 0x10000);
     (s, k1) \<leftarrow> rt_object_allocate c RT_Object_Class_Semaphore name malloc k;
     (case s of
        None \<Rightarrow> Some (None, k1)
      | Some a \<Rightarrow> Some (Some a, set_flag a flag (set_sem a (ucast v) (rt_ipc_object_init a k1)))) }"

definition rt_sem_delete :: "nat \<Rightarrow> nat \<Rightarrow> kernel \<Rightarrow> (rt_err_t \<times> kernel) option" where
  "rt_sem_delete c a k = do {
     rt_assert (not_in_interrupt c k);
     rt_assert (has_class RT_Object_Class_Semaphore a k);
     rt_assert (\<not> rt_object_is_systemobject (Obj a) k);
     k1 \<leftarrow> rt_ipc_list_resume_all c (Suspend a) k;
     k2 \<leftarrow> rt_object_delete (Obj a) k1;
     Some (RT_EOK, k2) }"

text \<open>\<open>Wait t\<close>: thread \<open>t\<close> is blocked; \<open>rt_sem_take_resume\<close> is what it returns when it runs again.\<close>

definition rt_sem_take :: "nat \<Rightarrow> nat \<Rightarrow> u32 \<Rightarrow> kernel \<Rightarrow> (nat outcome \<times> kernel) option" where
  "rt_sem_take c a time k = do {
     rt_assert (has_class RT_Object_Class_Semaphore a k);
     if sem_value (sems k a) > 0 then Some (Ret RT_EOK, set_sem a (sem_value (sems k a) - 1) k)
     else if time = 0 then Some (Ret (- RT_ETIMEOUT), k)
     else do {
       rt_assert (in_thread_context c k);
       t \<leftarrow> rt_thread_self c k;
       k1 \<leftarrow> wait_on c (Suspend a) t (o_flag (obj k (Obj a))) time (set_error t RT_EOK k);
       Some (Wait t, k1) } }"

definition rt_sem_take_resume :: "nat \<Rightarrow> kernel \<Rightarrow> rt_err_t" where
  "rt_sem_take_resume t k = (if error (thr k t) \<noteq> RT_EOK then error (thr k t) else RT_EOK)"

definition rt_sem_trytake :: "nat \<Rightarrow> nat \<Rightarrow> kernel \<Rightarrow> (nat outcome \<times> kernel) option" where
  "rt_sem_trytake c a k = rt_sem_take c a 0 k"

definition rt_sem_release :: "nat \<Rightarrow> nat \<Rightarrow> kernel \<Rightarrow> (rt_err_t \<times> kernel) option" where
  "rt_sem_release c a k = do {
     rt_assert (has_class RT_Object_Class_Semaphore a k);
     if \<not> tlist_isempty (Suspend a) k then do {
       k1 \<leftarrow> rt_ipc_list_resume c (Suspend a) k;
       k2 \<leftarrow> rt_schedule c k1;
       Some (RT_EOK, k2) }
     else Some (RT_EOK, set_sem a (sem_value (sems k a) + 1) k) }"

definition rt_sem_control :: "nat \<Rightarrow> nat \<Rightarrow> int \<Rightarrow> u32 \<Rightarrow> kernel \<Rightarrow> (rt_err_t \<times> kernel) option" where
  "rt_sem_control c a cmd arg k = do {
     rt_assert (has_class RT_Object_Class_Semaphore a k);
     if cmd = RT_IPC_CMD_RESET then do {
       k1 \<leftarrow> rt_ipc_list_resume_all c (Suspend a) k;
       k2 \<leftarrow> rt_schedule c (set_sem a (ucast arg) k1);
       Some (RT_EOK, k2) }
     else Some (- RT_ERROR, k) }"

section \<open>The abstraction\<close>

text \<open>The count and the waiting threads, most urgent or longest waiting first.\<close>

type_synonym sem_state = "nat \<times> nat list"

definition sem_abs :: "nat \<Rightarrow> kernel \<Rightarrow> sem_state" where
  "sem_abs a k = (unat (sem_value (sems k a)), tlists k (Suspend a))"

fun sem_release_spec :: "sem_state \<Rightarrow> sem_state" where
  "sem_release_spec (v, t # ts) = (v, ts)"
| "sem_release_spec (v, []) = ((v + 1) mod 65536, [])"

fun sem_take_spec :: "(nat list \<Rightarrow> nat list) \<Rightarrow> sem_state \<Rightarrow> sem_state" where
  "sem_take_spec enq (Suc v, ts) = (v, ts)"
| "sem_take_spec enq (0, ts) = (0, enq ts)"

text \<open>Nobody waits while the count is positive.\<close>

fun sem_ok :: "sem_state \<Rightarrow> bool" where
  "sem_ok (v, ts) \<longleftrightarrow> v = 0 \<or> ts = []"

lemma sem_spec_ok: "sem_ok s \<Longrightarrow> sem_ok (sem_release_spec s)" "sem_ok s \<Longrightarrow> sem_ok (sem_take_spec enq s)"
  by (cases s rule: sem_release_spec.cases; auto) (cases "(enq, s)" rule: sem_take_spec.cases; auto)

lemma set_sem_simps [simp]:
  "sem_value (sems (set_sem a v k) a) = v" "tlists (set_sem a v k) = tlists k" "thr (set_sem a v k) = thr k"
  "cpus (set_sem a v k) = cpus k" "obj (set_sem a v k) = obj k" "sched_inv (set_sem a v k) = sched_inv k"
proof -
  show "sched_inv (set_sem a v k) = sched_inv k"
    by (rule sched_inv_ex_cong) (simp_all add: set_sem_def is_thread_def rt_object_get_type_def)
qed (simp_all add: set_sem_def)

lemma sem_frame: "ipc_part k' = ipc_part k \<Longrightarrow> sems k' = sems k"
  by (rule ipc_partD(1))

section \<open>Properties\<close>



text \<open>\<^verbatim>\<open>rt_sem_take\<close> implements its specification and cannot fail: a positive count goes down by one
  and the call returns; with a count of zero a call without waiting time returns \<^verbatim>\<open>-RT_ETIMEOUT\<close> and
  changes nothing, and any other call puts the thread on the queue, behind those that waited before
  (FIFO) or behind those at least as urgent (priority order).\<close>

theorem sem_take_refines:
  assumes "sched_inv k" "may_block c t k" "has_class RT_Object_Class_Semaphore a k" "time \<noteq> 0x7fffffff"
    and "o_flag (obj k (Obj a)) = RT_IPC_FLAG_FIFO \<or> o_flag (obj k (Obj a)) = RT_IPC_FLAG_PRIO"
  shows "\<exists>r k'. rt_sem_take c a time k = Some (r, k') \<and> sched_inv k' \<and>
    (if time = 0 \<and> sem_value (sems k a) = 0 then r = Ret (- RT_ETIMEOUT) \<and> k' = k
     else r = (if sem_value (sems k a) = 0 then Wait t else Ret RT_EOK) \<and>
       sem_abs a k' = sem_take_spec (enqueue (o_flag (obj k (Obj a))) (\<lambda>s. current_priority (thr k s)) t) (sem_abs a k))"
proof (cases "sem_value (sems k a) = 0")
  case False
  then obtain n where n: "unat (sem_value (sems k a)) = Suc n" by (cases "unat (sem_value (sems k a))") (auto simp: unat_eq_0)
  have "unat (sem_value (sems k a) - 1) = n" using unat_pred [OF False] n by simp
  with False n assms(1,3) show ?thesis by (simp add: rt_sem_take_def sem_abs_def word_neq_0_conv)
next
  case zero: True
  show ?thesis
  proof (cases "time = 0")
    case True
    with zero assms(1,3) show ?thesis by (simp add: rt_sem_take_def)
  next
    case False
    let ?k = "set_error t RT_EOK k"
    have inv: "sched_inv ?k" "may_block c t ?k" using assms(1,2) by (simp_all add: may_block_set_error)
    obtain k' where k': "wait_on c (Suspend a) t (o_flag (obj k (Obj a))) time ?k = Some k'" "sched_inv k'"
      "ipc_part k' = ipc_part ?k" "tlists k' (Suspend a) = enqueue (o_flag (obj k (Obj a)))
        (\<lambda>s. current_priority (thr ?k s)) t (tlists ?k (Suspend a))"
      by (rule wait_on_total [OF inv assms(4) wq_lists(1) assms(5)]) blast
    note mb = may_blockD [OF assms(2)]
    have "sems k' = sems k" using sem_frame [OF k'(3)] by simp
    with zero False k' mb assms(3) show ?thesis
      by (simp add: rt_sem_take_def sem_abs_def may_block_set_error)
  qed
qed

theorem sem_take_refines_witness:
  "\<exists>k'. rt_sem_take 0 7 5 (demo_object RT_Object_Class_Semaphore) = Some (Wait 1, k') \<and> sem_abs 7 k' = (0, [1])"
  using sem_take_refines [OF demo_object_inv demo_may_block(1), of RT_Object_Class_Semaphore 7 5]
  by (auto simp: has_class_def rt_object_get_type_def demo_object_def sem_abs_def enqueue_def demo_defs)

text \<open>Deleting a semaphore in thread context cannot fail an assertion or loop: it wakes every thread
  that waits for it, each with error \<^verbatim>\<open>-RT_ERROR\<close> (which its \<^verbatim>\<open>rt_sem_take\<close> then returns), leaves the
  other wait queues alone, and takes the object out of its container.\<close>

theorem sem_delete_wakes_all:
  assumes "sched_inv k" "not_in_interrupt c k" "has_class RT_Object_Class_Semaphore a k"
    and "\<not> rt_object_is_systemobject (Obj a) k" "waiters_live (Suspend a) k"
  shows "\<exists>k'. rt_sem_delete c a k = Some (RT_EOK, k') \<and> sched_inv k' \<and> tlists k' (Suspend a) = [] \<and>
    (\<forall>t \<in> set (tlists k (Suspend a)). stat_of (thr k' t) \<noteq> RT_THREAD_SUSPEND \<and>
       rt_sem_take_resume t k' = - RT_ERROR) \<and>
    (\<forall>m. is_wq m \<longrightarrow> m \<noteq> Suspend a \<longrightarrow> tlists k' m = tlists k m) \<and>
    (\<forall>cl. Obj a \<notin> set (containers k' cl))"
proof -
  obtain k1 where k1: "rt_ipc_list_resume_all c (Suspend a) k = Some k1" "sched_inv k1" "all_woken (Suspend a) k k1"
    using resume_all_total [OF assms(1) wq_lists(1) assms(5)] by blast
  let ?k2 = "container_remove (Obj a) (upd_obj (Obj a) (\<lambda>ob. ob\<lparr>o_type := 0\<rparr>) k1)"
  have "rt_object_delete (Obj a) k1 = Some ?k2"
    using k1(3) assms(4) by (simp add: all_woken_def rt_object_delete_def rt_object_is_systemobject_def)
  then have "rt_sem_delete c a k = Some (RT_EOK, ?k2)"
    using assms(2-4) k1(1) by (simp add: rt_sem_delete_def)
  moreover have "sched_inv ?k2"
    by (rule sched_inv_fewer_objects [OF _ _ _ _ _ k1(2)])
      (auto simp: container_remove_def is_thread_def rt_object_get_type_def split: if_splits)
  ultimately show ?thesis
    using k1(3) by (auto simp: all_woken_def container_remove_def rt_sem_take_resume_def)
qed

theorem sem_delete_wakes_all_witness:
  "\<exists>k'. rt_sem_delete 0 7 (demo_wait RT_Object_Class_Semaphore (Suspend 7)) = Some (RT_EOK, k') \<and>
     rt_sem_take_resume 2 k' = - RT_ERROR \<and> stat_of (thr k' 2) \<noteq> RT_THREAD_SUSPEND"
  using sem_delete_wakes_all [OF demo_wait_inv _ _ _ demo_wait_live(3), of RT_Object_Class_Semaphore "Suspend 7" 0 7]
  by (auto simp: has_class_def rt_object_get_type_def rt_object_is_systemobject_def not_in_interrupt_def
      demo_wait_def demo_object_def demo_defs)

end
