(* ===== verification/Mutex.thy ===== *)
theory Mutex
  imports Sem
begin

text \<open>
  Mutexes (\<^verbatim>\<open>src/ipc.c\<close>): recursive locks with an owner, handed over to the first waiter on release, with
  priority inheritance: a thread that blocks lends its priority to the owner, and the owner gets its
  own priority back when it releases. The recursion counter is 8 bits wide and not guarded.
\<close>

section \<open>Operations\<close>

definition upd_mutex :: "nat \<Rightarrow> (rt_mutex \<Rightarrow> rt_mutex) \<Rightarrow> kernel \<Rightarrow> kernel" where
  "upd_mutex a f k = k\<lparr>mutexes := (mutexes k)(a := f (mutexes k a))\<rparr>"

definition new_mutex :: rt_mutex where
  "new_mutex = \<lparr>mutex_value = 1, original_priority = 0xff, hold = 0, owner = None\<rparr>"

definition rt_mutex_init :: "nat \<Rightarrow> string \<Rightarrow> u8 \<Rightarrow> kernel \<Rightarrow> (rt_err_t \<times> kernel) option" where
  "rt_mutex_init a name flag k = do {
     k1 \<leftarrow> rt_object_init (Obj a) RT_Object_Class_Mutex name k;
     Some (RT_EOK, set_flag a flag (upd_mutex a (\<lambda>_. new_mutex) (rt_ipc_object_init a k1))) }"

definition rt_mutex_detach :: "nat \<Rightarrow> nat \<Rightarrow> kernel \<Rightarrow> (rt_err_t \<times> kernel) option" where
  "rt_mutex_detach c a k = do {
     rt_assert (has_class RT_Object_Class_Mutex a k);
     rt_assert (rt_object_is_systemobject (Obj a) k);
     k1 \<leftarrow> rt_ipc_list_resume_all c (Suspend a) k;
     Some (RT_EOK, rt_object_detach (Obj a) k1) }"

definition rt_mutex_create ::
    "nat \<Rightarrow> string \<Rightarrow> u8 \<Rightarrow> nat option \<Rightarrow> kernel \<Rightarrow> (nat option \<times> kernel) option" where
  "rt_mutex_create c name flag malloc k = do {
     rt_assert (not_in_interrupt c k);
     (m, k1) \<leftarrow> rt_object_allocate c RT_Object_Class_Mutex name malloc k;
     (case m of
        None \<Rightarrow> Some (None, k1)
      | Some a \<Rightarrow> Some (Some a, set_flag a flag (upd_mutex a (\<lambda>_. new_mutex) (rt_ipc_object_init a k1)))) }"

definition rt_mutex_delete :: "nat \<Rightarrow> nat \<Rightarrow> kernel \<Rightarrow> (rt_err_t \<times> kernel) option" where
  "rt_mutex_delete c a k = do {
     rt_assert (not_in_interrupt c k);
     rt_assert (has_class RT_Object_Class_Mutex a k);
     rt_assert (\<not> rt_object_is_systemobject (Obj a) k);
     k1 \<leftarrow> rt_ipc_list_resume_all c (Suspend a) k;
     k2 \<leftarrow> rt_object_delete (Obj a) k1;
     Some (RT_EOK, k2) }"

text \<open>Lending the priority of thread \<open>t\<close> to the owner, when it is the more urgent one.\<close>

definition inherit_priority :: "nat \<Rightarrow> nat \<Rightarrow> nat \<Rightarrow> kernel \<Rightarrow> kernel option" where
  "inherit_priority c a t k = do {
     ow \<leftarrow> owner (mutexes k a);
     if current_priority (thr k t) < current_priority (thr k ow)
     then map_option snd (rt_thread_control c ow (Ctrl_change_priority (current_priority (thr k t))) k)
     else Some k }"

text \<open>The code from the label \<^verbatim>\<open>__again\<close> up to the switch.\<close>

definition mutex_try :: "nat \<Rightarrow> nat \<Rightarrow> nat \<Rightarrow> u32 \<Rightarrow> kernel \<Rightarrow> (nat outcome \<times> kernel) option" where
  "mutex_try c a t time k =
     (if mutex_value (mutexes k a) > 0 then
        Some (Ret RT_EOK,
          upd_mutex a (\<lambda>m. m\<lparr>mutex_value := mutex_value m - 1, owner := Some t,
                             original_priority := current_priority (thr k t), hold := hold m + 1\<rparr>) k)
      else if time = 0 then Some (Ret (- RT_ETIMEOUT), set_error t (- RT_ETIMEOUT) k)
      else do {
        k1 \<leftarrow> inherit_priority c a t k;
        k2 \<leftarrow> wait_on c (Suspend a) t (o_flag (obj k1 (Obj a))) time k1;
        Some (Wait t, k2) })"

definition rt_mutex_take :: "nat \<Rightarrow> nat \<Rightarrow> u32 \<Rightarrow> kernel \<Rightarrow> (nat outcome \<times> kernel) option" where
  "rt_mutex_take c a time k = do {
     rt_assert (in_thread_context c k);
     rt_assert (has_class RT_Object_Class_Mutex a k);
     t \<leftarrow> rt_thread_self c k;
     let k1 = set_error t RT_EOK k;
     if owner (mutexes k1 a) = Some t
     then Some (Ret RT_EOK, upd_mutex a (\<lambda>m. m\<lparr>hold := hold m + 1\<rparr>) k1)
     else mutex_try c a t time k1 }"

text \<open>What a blocked thread does when it runs again; after a signal it tries once more.\<close>

definition rt_mutex_take_resume ::
    "nat \<Rightarrow> nat \<Rightarrow> nat \<Rightarrow> u32 \<Rightarrow> kernel \<Rightarrow> (nat outcome \<times> kernel) option" where
  "rt_mutex_take_resume c a t time k =
     (if error (thr k t) \<noteq> RT_EOK then
        (if error (thr k t) = - RT_EINTR then mutex_try c a t time k
         else Some (Ret (error (thr k t)), k))
      else Some (Ret RT_EOK, k))"

definition restore_priority :: "nat \<Rightarrow> nat \<Rightarrow> nat \<Rightarrow> kernel \<Rightarrow> kernel option" where
  "restore_priority c a t k =
     (if original_priority (mutexes k a) \<noteq> current_priority (thr k t)
      then map_option snd (rt_thread_control c t (Ctrl_change_priority (original_priority (mutexes k a))) k)
      else Some k)"

definition rt_mutex_release :: "nat \<Rightarrow> nat \<Rightarrow> kernel \<Rightarrow> (rt_err_t \<times> kernel) option" where
  "rt_mutex_release c a k = do {
     rt_assert (has_class RT_Object_Class_Mutex a k);
     rt_assert (in_thread_context c k);
     t \<leftarrow> rt_thread_self c k;
     if owner (mutexes k a) \<noteq> Some t then Some (- RT_ERROR, set_error t (- RT_ERROR) k)
     else do {
       let k1 = upd_mutex a (\<lambda>m. m\<lparr>hold := hold m - 1\<rparr>) k;
       if hold (mutexes k1 a) \<noteq> 0 then Some (RT_EOK, k1)
       else do {
         k2 \<leftarrow> restore_priority c a t k1;
         (case tlists k2 (Suspend a) of
            [] \<Rightarrow> Some (RT_EOK, upd_mutex a (\<lambda>m. m\<lparr>mutex_value := mutex_value m + 1, owner := None,
                                                  original_priority := 0xff\<rparr>) k2)
          | w # _ \<Rightarrow> do {
              let k3 = upd_mutex a (\<lambda>m. m\<lparr>owner := Some w, original_priority := current_priority (thr k2 w),
                                         hold := hold m + 1\<rparr>) k2;
              k4 \<leftarrow> rt_ipc_list_resume c (Suspend a) k3;
              k5 \<leftarrow> rt_schedule c k4;
              Some (RT_EOK, k5) }) } } }"

definition rt_mutex_control :: "nat \<Rightarrow> kernel \<Rightarrow> (rt_err_t \<times> kernel) option" where
  "rt_mutex_control a k = do {
     rt_assert (has_class RT_Object_Class_Mutex a k);
     Some (- RT_ERROR, k) }"

section \<open>The abstraction\<close>

text \<open>The owner, how many times it holds the mutex, and the waiting threads.\<close>

type_synonym mutex_state = "nat option \<times> nat \<times> nat list"

definition mutex_abs :: "nat \<Rightarrow> kernel \<Rightarrow> mutex_state" where
  "mutex_abs a k = (owner (mutexes k a), unat (hold (mutexes k a)), tlists k (Suspend a))"

fun mutex_take_spec :: "nat \<Rightarrow> (nat list \<Rightarrow> nat list) \<Rightarrow> mutex_state \<Rightarrow> mutex_state" where
  "mutex_take_spec t enq (None, n, ws) = (Some t, 1, ws)"
| "mutex_take_spec t enq (Some ow, n, ws) = (if ow = t then (Some ow, n + 1, ws) else (Some ow, n, enq ws))"

fun mutex_release_spec :: "nat \<Rightarrow> mutex_state \<Rightarrow> mutex_state" where
  "mutex_release_spec t (ow, n, ws) =
     (if ow \<noteq> Some t then (ow, n, ws)
      else if n > 1 then (ow, n - 1, ws)
      else (case ws of [] \<Rightarrow> (None, 0, []) | w # ws' \<Rightarrow> (Some w, 1, ws')))"

text \<open>Free and unclaimed, or owned and held; nobody waits for a free mutex.\<close>

definition mutex_ok :: "nat \<Rightarrow> kernel \<Rightarrow> bool" where
  "mutex_ok a k \<longleftrightarrow>
     (case owner (mutexes k a) of
        None \<Rightarrow> mutex_value (mutexes k a) = 1 \<and> hold (mutexes k a) = 0 \<and> tlists k (Suspend a) = []
      | Some ow \<Rightarrow> mutex_value (mutexes k a) = 0 \<and> hold (mutexes k a) \<noteq> 0 \<and>
          ow \<notin> set (tlists k (Suspend a)))"

lemma mutex_ok_set_error [simp]: "mutex_ok a (set_error t e k) = mutex_ok a k"
  by (simp add: mutex_ok_def split: option.split)

lemma upd_mutex_simps [simp]:
  "mutexes (upd_mutex a f k) a = f (mutexes k a)" "tlists (upd_mutex a f k) = tlists k"
  "thr (upd_mutex a f k) = thr k" "cpus (upd_mutex a f k) = cpus k" "obj (upd_mutex a f k) = obj k"
  "sched_inv (upd_mutex a f k) = sched_inv k" "cpu_live c (upd_mutex a f k) = cpu_live c k"
  "waiters_live l (upd_mutex a f k) = waiters_live l k" "may_block c t (upd_mutex a f k) = may_block c t k"
  "is_thread t (upd_mutex a f k) = is_thread t k" "has_class cl b (upd_mutex a f k) = has_class cl b k"
proof -
  show "sched_inv (upd_mutex a f k) = sched_inv k"
    by (rule sched_inv_ex_cong) (simp_all add: upd_mutex_def is_thread_def rt_object_get_type_def)
qed (simp_all add: upd_mutex_def cpu_live_def waiters_live_def may_block_def is_thread_def is_timer_def
      has_class_def rt_object_get_type_def)

section \<open>Priority changes\<close>

lemma insert_remove_wq:
  "is_wq m \<Longrightarrow> stat_of (thr k t) = RT_THREAD_READY \<Longrightarrow> queued_ok k \<Longrightarrow>
     tlists (change_priority c t p k) m = tlists k m"
proof -
  assume m: "is_wq m" and st: "stat_of (thr k t) = RT_THREAD_READY" and q: "queued_ok k"
  have "t \<notin> set (tlists k m)" using m st q by (auto simp: queued_ok_def)
  then show ?thesis using st m by (simp add: change_priority_def insert_thread_wq)
qed

lemma change_priority_frame:
  assumes "sched_inv k"
  shows "s \<noteq> t \<Longrightarrow> thr (change_priority c t p k) s = thr k s"
    and "current_priority (thr (change_priority c t p k) s) = (if s = t then p else current_priority (thr k s))"
    and "is_wq m \<Longrightarrow> tlists (change_priority c t p k) m = tlists k m"
    and "obj (change_priority c t p k) = obj k" "is_thread u (change_priority c t p k) = is_thread u k"
    and "current_thread (cpus (change_priority c t p k) d) = current_thread (cpus k d)"
    and "irq_nest (cpus (change_priority c t p k) d) = irq_nest (cpus k d)"
    and "mutexes (change_priority c t p k) = mutexes k"
proof -
  show "is_wq m \<Longrightarrow> tlists (change_priority c t p k) m = tlists k m"
    using insert_remove_wq sched_inv_exD(3) [OF assms]
    by (cases "stat_of (thr k t) = RT_THREAD_READY") (simp_all add: change_priority_def)
  show "mutexes (change_priority c t p k) = mutexes k" by (rule ipc_partD(2)) simp
qed (simp_all add: change_priority_def insert_thread_thr)

lemma stat_change_priority:
  "stat_of (thr (change_priority c t p k) s) = stat_of (thr k s) \<or> s = t"
  by (simp add: change_priority_def insert_thread_thr)

lemma no_signal_change_priority [simp]: "no_signal (set_priority p x) = no_signal x"
  by (simp add: no_signal_def set_priority_def)

lemma may_block_change_priority:
  assumes "sched_inv k" "may_block c t k" "ow \<noteq> t"
  shows "may_block c t (change_priority c ow p k)"
  using assms(2) change_priority_frame [OF assms(1)] assms(3)
  by (simp add: may_block_def is_timer_def rt_object_get_type_def)

lemma cpu_live_change_priority:
  assumes "sched_inv k" "cpu_live c k"
  shows "cpu_live c (change_priority c' t p k)"
proof -
  have "no_signal (thr (change_priority c' t p k) s) = no_signal (thr k s)" for s
    by (simp add: change_priority_def insert_thread_thr set_stat_no_signal')
  then show ?thesis using assms(2) change_priority_frame [OF assms(1), where t = t and p = p and c = c']
    by (simp add: cpu_live_def is_timer_def rt_object_get_type_def)
qed

lemma thread_control_priority:
  "is_thread t k \<Longrightarrow> rt_thread_control c t (Ctrl_change_priority p) k = Some (RT_EOK, change_priority c t p k)"
  by (simp add: rt_thread_control_def)

definition boosted :: "nat \<Rightarrow> nat \<Rightarrow> kernel \<Rightarrow> nat \<Rightarrow> u8" where
  "boosted ow t k s =
     (if s = ow \<and> current_priority (thr k t) < current_priority (thr k ow)
      then current_priority (thr k t) else current_priority (thr k s))"

lemma inherit_priority_spec:
  assumes "sched_inv k" "may_block c t k" "owner (mutexes k a) = Some ow" "ow \<noteq> t" "is_thread ow k"
  obtains k1 where "inherit_priority c a t k = Some k1" "sched_inv k1" "may_block c t k1"
    "mutexes k1 = mutexes k" "obj k1 = obj k" "\<And>m. is_wq m \<Longrightarrow> tlists k1 m = tlists k m"
    "(\<lambda>s. current_priority (thr k1 s)) = boosted ow t k"
proof (cases "current_priority (thr k t) < current_priority (thr k ow)")
  case True
  let ?p = "current_priority (thr k t)" let ?k = "change_priority c ow ?p k"
  note f = change_priority_frame [OF assms(1), where t = ow and p = ?p and c = c]
  have "started (thr k t)" using may_blockD(6) [OF assms(2)] by (simp add: started_def)
  with sched_inv_exD(4) [OF assms(1), of t] have "unat ?p < 32" by (simp add: thread_ok_def prio_ok_def)
  from change_priority_keeps [OF assms(1) this] have "sched_inv ?k" .
  moreover have "inherit_priority c a t k = Some ?k"
    using True assms(3,5) by (simp add: inherit_priority_def thread_control_priority)
  ultimately show ?thesis
    using that [of ?k] f(2-4,8) may_block_change_priority [OF assms(1,2,4)] True
    by (simp add: boosted_def fun_eq_iff)
next
  case False
  with assms that [of k] show ?thesis by (simp add: inherit_priority_def boosted_def fun_eq_iff)
qed

lemma mutex_frame: "ipc_part k' = ipc_part k \<Longrightarrow> mutexes k' = mutexes k"
  by (rule ipc_partD(2))

lemma hold_Suc: "unat h < 255 \<Longrightarrow> unat (h + 1 :: u8) = unat h + 1 \<and> h + 1 \<noteq> 0"
  using unat_Suc_no_wrap [of h] by (auto simp: unat_eq_0 [symmetric] simp del: unat_eq_0)

text \<open>Blocking on a mutex that another thread owns.\<close>

lemma mutex_block:
  assumes "sched_inv k" "may_block c t k" "mutex_ok a k" "owner (mutexes k a) = Some ow" "ow \<noteq> t" "is_thread ow k"
    and "time \<noteq> 0" "time \<noteq> 0x7fffffff"
    and "o_flag (obj k (Obj a)) = RT_IPC_FLAG_FIFO \<or> o_flag (obj k (Obj a)) = RT_IPC_FLAG_PRIO"
  obtains k' where "mutex_try c a t time k = Some (Wait t, k')" "sched_inv k'" "mutex_ok a k'"
    "mutex_abs a k' = (Some ow, unat (hold (mutexes k a)),
       enqueue (o_flag (obj k (Obj a))) (boosted ow t k) t (tlists k (Suspend a)))"
    "\<And>s. current_priority (thr k' s) = boosted ow t k s"
proof -
  have v: "mutex_value (mutexes k a) = 0" "hold (mutexes k a) \<noteq> 0" "ow \<notin> set (tlists k (Suspend a))"
    using assms(3,4) by (simp_all add: mutex_ok_def)
  obtain k1 where k1: "inherit_priority c a t k = Some k1" "sched_inv k1" "may_block c t k1"
    "mutexes k1 = mutexes k" "obj k1 = obj k" "\<And>m. is_wq m \<Longrightarrow> tlists k1 m = tlists k m"
    "(\<lambda>s. current_priority (thr k1 s)) = boosted ow t k"
    by (rule inherit_priority_spec [OF assms(1,2,4-6)]) blast
  have fl: "o_flag (obj k1 (Obj a)) = RT_IPC_FLAG_FIFO \<or> o_flag (obj k1 (Obj a)) = RT_IPC_FLAG_PRIO"
    using assms(9) by (simp add: k1(5))
  obtain k' where k': "wait_on c (Suspend a) t (o_flag (obj k1 (Obj a))) time k1 = Some k'" "sched_inv k'"
    "ipc_part k' = ipc_part k1" "tlists k' (Suspend a) = enqueue (o_flag (obj k1 (Obj a)))
       (\<lambda>s. current_priority (thr k1 s)) t (tlists k1 (Suspend a))"
    "\<And>s. current_priority (thr k' s) = current_priority (thr k1 s)"
    by (rule wait_on_total [OF k1(2,3) assms(8) wq_lists(1) fl]) blast
  have m: "mutexes k' = mutexes k" using mutex_frame [OF k'(3)] k1(4) by simp
  have q: "tlists k' (Suspend a) = enqueue (o_flag (obj k (Obj a))) (boosted ow t k) t (tlists k (Suspend a))"
    using k'(4) k1(6) [OF wq_lists(1)] by (simp add: k1(5,7))
  have "mutex_try c a t time k = Some (Wait t, k')"
    using v(1) assms(7) k1(1) k'(1) by (simp add: mutex_try_def)
  moreover have "mutex_ok a k'"
    using v assms(4,5) by (auto simp: mutex_ok_def m q enqueue_def)
  moreover have "current_priority (thr k' s) = boosted ow t k s" for s
    using k'(5) fun_cong [OF k1(7)] by simp
  ultimately show ?thesis using that k'(2) assms(4) by (simp add: mutex_abs_def m q)
qed

section \<open>States for the examples\<close>

text \<open>A mutex at address 7: on its own, with thread 1 running; and owned by thread 1 with thread 2
  waiting.\<close>

definition demo_lock :: "nat option \<Rightarrow> u8 \<Rightarrow> rt_mutex" where
  "demo_lock ow n = \<lparr>mutex_value = (if n = 0 then 1 else 0), original_priority = 9, hold = n, owner = ow\<rparr>"

definition demo_mutex :: "nat option \<Rightarrow> u8 \<Rightarrow> kernel" where
  "demo_mutex ow n = upd_mutex 7 (\<lambda>_. demo_lock ow n)
     (upd_obj (Obj 7) (\<lambda>ob. ob\<lparr>o_type := RT_Object_Class_Mutex\<rparr>) (demo_state RT_THREAD_RUNNING 20))"

definition demo_mutex_wait :: "u8 \<Rightarrow> kernel" where
  "demo_mutex_wait n = upd_mutex 7 (\<lambda>_. demo_lock (Some 1) n) (demo_wait RT_Object_Class_Mutex (Suspend 7))"

lemma demo_mutex_inv: "sched_inv (demo_mutex ow n)"
proof -
  have "sched_inv (upd_obj (Obj 7) (\<lambda>ob. ob\<lparr>o_type := RT_Object_Class_Mutex\<rparr>) (demo_state RT_THREAD_RUNNING 20))
      = sched_inv (demo_state RT_THREAD_RUNNING 20)"
    by (rule sched_inv_ex_cong) (auto simp: is_thread_def rt_object_get_type_def demo_defs)
  then show ?thesis using demo_state_inv [of RT_THREAD_RUNNING 20] by (simp add: demo_mutex_def)
qed

lemma demo_mutex_wait_inv: "sched_inv (demo_mutex_wait n)"
  by (simp add: demo_mutex_wait_def demo_wait_inv)

lemma demo_mutex_simps:
  "mutexes (demo_mutex ow n) 7 = demo_lock ow n" "tlists (demo_mutex ow n) (Suspend 7) = []"
  "owner (demo_lock ow n) = ow" "hold (demo_lock ow n) = n"
  "is_thread 2 (demo_mutex ow n)" "o_flag (obj (demo_mutex ow n) (Obj 7)) = 0"
  "current_priority (thr (demo_mutex ow n) 1) = 10" "current_priority (thr (demo_mutex ow n) 2) = 20"
  by (simp_all add: demo_mutex_def demo_lock_def is_thread_def rt_object_get_type_def demo_defs)

lemma demo_mutex_facts:
  "may_block 0 1 (demo_mutex ow n)" "has_class RT_Object_Class_Mutex 7 (demo_mutex ow n)"
  "ow = None \<longleftrightarrow> n = 0 \<Longrightarrow> mutex_ok 7 (demo_mutex ow n)"
  using demo_mutex_simps(2) [of ow n]
  by (auto simp: may_block_def no_signal_def is_thread_def is_timer_def demo_mutex_def has_class_def
      rt_object_get_type_def mutex_ok_def demo_lock_def demo_defs split: option.split)

lemma demo_mutex_wait_facts:
  "cpu_live 0 (demo_mutex_wait n)" "rt_thread_self 0 (demo_mutex_wait n) = Some 1"
  "not_in_interrupt 0 (demo_mutex_wait n)" "is_thread 1 (demo_mutex_wait n)"
  "has_class RT_Object_Class_Mutex 7 (demo_mutex_wait n)" "waiters_live (Suspend 7) (demo_mutex_wait n)"
proof -
  show "cpu_live 0 (demo_mutex_wait n)" "waiters_live (Suspend 7) (demo_mutex_wait n)"
    by (simp_all only: demo_mutex_wait_def upd_mutex_simps demo_wait_live)
qed (simp_all add: demo_mutex_wait_def rt_thread_self_def not_in_interrupt_def has_class_def
      is_thread_def rt_object_get_type_def demo_wait_def demo_object_def demo_defs)

lemma demo_mutex_wait_simps:
  "mutexes (demo_mutex_wait n) 7 = demo_lock (Some 1) n" "tlists (demo_mutex_wait n) (Suspend 7) = [2]"
  "owner (demo_lock ow n) = ow" "hold (demo_lock ow n) = n" "original_priority (demo_lock ow n) = 9"
  "n \<noteq> 0 \<Longrightarrow> mutex_ok 7 (demo_mutex_wait n)"
  by (simp_all add: demo_mutex_wait_def demo_wait_def demo_lock_def mutex_ok_def)

section \<open>Properties\<close>

text \<open>C16. \<^verbatim>\<open>rt_mutex_take\<close> implements its specification and cannot fail: a free mutex becomes the caller's, the
  owner's own call counts up, and any other call waits in the queue or, without waiting time, returns
  \<^verbatim>\<open>-RT_ETIMEOUT\<close> with the mutex unchanged. The mutex and scheduler invariants are kept.\<close>

theorem mutex_take_refines:
  assumes "sched_inv k" "may_block c t k" "has_class RT_Object_Class_Mutex a k" "mutex_ok a k"
    and "\<forall>ow. owner (mutexes k a) = Some ow \<longrightarrow> is_thread ow k" "unat (hold (mutexes k a)) < 255" "time \<noteq> 0x7fffffff"
    and "o_flag (obj k (Obj a)) = RT_IPC_FLAG_FIFO \<or> o_flag (obj k (Obj a)) = RT_IPC_FLAG_PRIO"
  shows "\<exists>r k'. rt_mutex_take c a time k = Some (r, k') \<and> sched_inv k' \<and> mutex_ok a k' \<and>
    (if owner (mutexes k a) \<notin> {None, Some t} \<and> time = 0
     then r = Ret (- RT_ETIMEOUT) \<and> mutex_abs a k' = mutex_abs a k
     else r = (if owner (mutexes k a) \<in> {None, Some t} then Ret RT_EOK else Wait t) \<and>
       mutex_abs a k' = mutex_take_spec t
         (enqueue (o_flag (obj k (Obj a))) (boosted (the (owner (mutexes k a))) t k) t) (mutex_abs a k))"
proof -
  note mb = may_blockD [OF assms(2)]
  let ?k = "set_error t RT_EOK k"
  have k: "sched_inv ?k" "may_block c t ?k" "mutex_ok a ?k"
    using assms(1,2,4) by (simp_all add: may_block_set_error)
  have b: "boosted ow t ?k = boosted ow t k" for ow by (simp add: boosted_def fun_eq_iff)
  note h = hold_Suc [OF assms(6)]
  note take = rt_mutex_take_def mb(7,9) assms(3)
  consider (free) "owner (mutexes k a) = None" | (mine) "owner (mutexes k a) = Some t"
    | (other) ow where "owner (mutexes k a) = Some ow" "ow \<noteq> t" by (cases "owner (mutexes k a)") auto
  then show ?thesis
  proof cases
    case free
    then have "mutex_value (mutexes k a) = 1" "hold (mutexes k a) = 0" "tlists k (Suspend a) = []"
      using assms(4) by (simp_all add: mutex_ok_def)
    with free k(1) show ?thesis by (simp add: take mutex_try_def mutex_abs_def mutex_ok_def)
  next
    case mine
    with assms(4) h k(1) show ?thesis by (simp add: take mutex_abs_def mutex_ok_def)
  next
    case other
    then have v: "mutex_value (mutexes k a) = 0" using assms(4) by (simp add: mutex_ok_def)
    show ?thesis
    proof (cases "time = 0")
      case True
      with other v assms(1,4) show ?thesis
        by (simp add: take mutex_try_def mutex_abs_def mutex_ok_def may_block_set_error)
    next
      case False
      obtain k' where k': "mutex_try c a t time ?k = Some (Wait t, k')" "sched_inv k'" "mutex_ok a k'"
        "mutex_abs a k' = (Some ow, unat (hold (mutexes ?k a)),
           enqueue (o_flag (obj ?k (Obj a))) (boosted ow t ?k) t (tlists ?k (Suspend a)))"
        by (rule mutex_block [OF k, of ow time]) (use other assms(5,7,8) False in auto)
      with False other show ?thesis by (simp add: take mutex_abs_def b)
    qed
  qed
qed

theorem mutex_take_refines_witness:
  "\<exists>k'. rt_mutex_take 0 7 5 (demo_mutex None 0) = Some (Ret RT_EOK, k') \<and> mutex_abs 7 k' = (Some 1, 1, [])"
  using mutex_take_refines [OF demo_mutex_inv demo_mutex_facts(1,2) demo_mutex_facts(3), of None 0 5]
  by (auto simp: demo_mutex_simps mutex_abs_def)

text \<open>C17. Priority inheritance: when a thread blocks on a mutex that a less urgent thread owns, the
  owner runs at the waiter's priority from then on, so the owner is never less urgent than the
  thread it delays; every other thread keeps its priority.\<close>

theorem mutex_priority_inheritance:
  assumes "sched_inv k" "may_block c t k" "has_class RT_Object_Class_Mutex a k" "mutex_ok a k"
    and "owner (mutexes k a) = Some ow" "ow \<noteq> t" "is_thread ow k" "time \<noteq> 0" "time \<noteq> 0x7fffffff"
    and "o_flag (obj k (Obj a)) = RT_IPC_FLAG_FIFO \<or> o_flag (obj k (Obj a)) = RT_IPC_FLAG_PRIO"
  shows "\<exists>k'. rt_mutex_take c a time k = Some (Wait t, k') \<and>
    current_priority (thr k' ow) = min (current_priority (thr k ow)) (current_priority (thr k t)) \<and>
    (\<forall>s. s \<noteq> ow \<longrightarrow> current_priority (thr k' s) = current_priority (thr k s))"
proof -
  note mb = may_blockD [OF assms(2)]
  let ?k = "set_error t RT_EOK k"
  have k: "sched_inv ?k" "may_block c t ?k" "mutex_ok a ?k"
    using assms(1,2,4) by (simp_all add: may_block_set_error)
  obtain k' where k': "mutex_try c a t time ?k = Some (Wait t, k')"
    "\<And>s. current_priority (thr k' s) = boosted ow t ?k s"
    by (rule mutex_block [OF k, of ow time]) (use assms(5-10) in auto)
  have "rt_mutex_take c a time k = Some (Wait t, k')"
    using k'(1) assms(3,5,6) mb(7,9) by (simp add: rt_mutex_take_def)
  then show ?thesis using k'(2) by (auto simp: boosted_def min_def)
qed

theorem mutex_priority_inheritance_witness:
  "\<exists>k'. rt_mutex_take 0 7 5 (demo_mutex (Some 2) 1) = Some (Wait 1, k') \<and>
     current_priority (thr k' 2) = 10"
  using mutex_priority_inheritance [OF demo_mutex_inv demo_mutex_facts(1,2) demo_mutex_facts(3), of "Some 2" 1 2 5]
  by (auto simp: demo_mutex_simps demo_mutex_simps(7) [simplified])

lemma restore_priority_spec:
  assumes "sched_inv k" "cpu_live c k" "is_thread t k" "unat (original_priority (mutexes k a)) < 32"
  obtains k1 where "restore_priority c a t k = Some k1" "sched_inv k1" "cpu_live c k1" "mutexes k1 = mutexes k"
    "obj k1 = obj k" "\<And>m. is_wq m \<Longrightarrow> tlists k1 m = tlists k m"
    "\<And>s. current_priority (thr k1 s) = (if s = t then original_priority (mutexes k a) else current_priority (thr k s))"
proof (cases "original_priority (mutexes k a) = current_priority (thr k t)")
  case True
  with assms that [of k] show ?thesis by (simp add: restore_priority_def)
next
  case False
  let ?k = "change_priority c t (original_priority (mutexes k a)) k"
  note f = change_priority_frame [OF assms(1), where t = t and p = "original_priority (mutexes k a)" and c = c]
  have "restore_priority c a t k = Some ?k"
    using False assms(3) by (simp add: restore_priority_def thread_control_priority)
  then show ?thesis
    using that [of ?k] f(2-4,8) change_priority_keeps [OF assms(1,4)] cpu_live_change_priority [OF assms(1,2)]
    by simp
qed

text \<open>C6. \<^verbatim>\<open>rt_mutex_release\<close> implements its specification and cannot fail: a thread that is not the owner
  gets \<^verbatim>\<open>-RT_ERROR\<close> and changes nothing; the owner's inner releases count down; its last release
  gives it back the priority it had when it took the mutex and hands the mutex to the first waiter,
  which then owns it once, or frees it when nobody waits.\<close>

theorem mutex_release_refines:
  assumes "sched_inv k" "cpu_live c k" "rt_thread_self c k = Some t" "not_in_interrupt c k" "is_thread t k"
    and "has_class RT_Object_Class_Mutex a k" "mutex_ok a k" "waiters_live (Suspend a) k"
    and "owner (mutexes k a) = Some t \<longrightarrow> unat (original_priority (mutexes k a)) < 32"
  shows "\<exists>r k'. rt_mutex_release c a k = Some (r, k') \<and> sched_inv k' \<and> mutex_ok a k' \<and>
    mutex_abs a k' = mutex_release_spec t (mutex_abs a k) \<and>
    r = (if owner (mutexes k a) = Some t then RT_EOK else - RT_ERROR) \<and>
    (owner (mutexes k a) = Some t \<and> hold (mutexes k a) = 1 \<longrightarrow>
       current_priority (thr k' t) = original_priority (mutexes k a))"
proof -
  note rel = rt_mutex_release_def in_thread_context_def assms(3,4,6)
  show ?thesis
  proof (cases "owner (mutexes k a) = Some t")
    case False
    with assms(1,7) show ?thesis by (simp add: rel may_block_set_error mutex_abs_def)
  next
    case own: True
    then have v: "mutex_value (mutexes k a) = 0" "hold (mutexes k a) \<noteq> 0" "t \<notin> set (tlists k (Suspend a))"
      using assms(7) by (simp_all add: mutex_ok_def)
    let ?k1 = "upd_mutex a (\<lambda>m. m\<lparr>hold := hold m - 1\<rparr>) k"
    have h: "unat (hold (mutexes k a) - 1) = unat (hold (mutexes k a)) - 1" "unat (hold (mutexes k a)) \<noteq> 0"
      using unat_pred [OF v(2)] v(2) by (simp_all add: unat_eq_0)
    show ?thesis
    proof (cases "hold (mutexes k a) = 1")
      case False
      have "hold (mutexes k a) - 1 \<noteq> 0" using False by simp
      moreover have "unat (hold (mutexes k a)) > 1"
      proof (rule ccontr)
        assume "\<not> unat (hold (mutexes k a)) > 1"
        with h(2) have "unat (hold (mutexes k a)) = unat (1 :: u8)" by simp
        with False show False by (simp add: word_unat_eq_iff)
      qed
      ultimately show ?thesis using own assms(1) v h False by (simp add: rel mutex_abs_def mutex_ok_def)
    next
      case one: True
      have pr: "unat (original_priority (mutexes ?k1 a)) < 32" using assms(9) own by simp
      obtain k2 where k2: "restore_priority c a t ?k1 = Some k2" "sched_inv k2" "cpu_live c k2"
        "mutexes k2 = mutexes ?k1" "obj k2 = obj ?k1" "\<And>m. is_wq m \<Longrightarrow> tlists k2 m = tlists ?k1 m"
        "\<And>s. current_priority (thr k2 s) = (if s = t then original_priority (mutexes ?k1 a) else current_priority (thr ?k1 s))"
        by (rule restore_priority_spec [of ?k1 c t a]) (use assms(1,2,5) pr in auto)
      have wq: "tlists k2 (Suspend a) = tlists k (Suspend a)" using k2(6) [OF wq_lists(1)] by simp
      have mu: "mutexes k2 a = (mutexes k a)\<lparr>hold := 0\<rparr>" using k2(4) one by simp
      have pt: "current_priority (thr k2 t) = original_priority (mutexes k a)" using k2(7) [of t] by simp
      show ?thesis
      proof (cases "tlists k (Suspend a)")
        case Nil
        with own one k2(1,2) v h wq mu pt show ?thesis by (simp add: rel mutex_abs_def mutex_ok_def)
      next
        case (Cons w ws)
        let ?k3 = "upd_mutex a (\<lambda>m. m\<lparr>owner := Some w, original_priority := current_priority (thr k2 w),
                                     hold := hold m + 1\<rparr>) k2"
        have c3: "tlists ?k3 (Suspend a) = w # ws" using wq Cons by simp
        have w3: "waiters_live (Suspend a) ?k3"
          using assms(8) k2(5) wq by (simp add: waiters_live_def is_thread_def is_timer_def rt_object_get_type_def)
        obtain k4 k5 where k5: "rt_ipc_list_resume c (Suspend a) ?k3 = Some k4" "rt_schedule c k4 = Some k5"
          "sched_inv k5" "ipc_part k5 = ipc_part ?k3" "tlists k5 (Suspend a) = ws"
          "\<And>s. current_priority (thr k5 s) = current_priority (thr ?k3 s)"
          by (rule wake_schedule [of ?k3 c, OF _ _ c3 wq_lists(1) w3]) (use k2(2,3) in auto)
        have m5: "mutexes k5 a = (mutexes k a)\<lparr>owner := Some w, original_priority := current_priority (thr k2 w), hold := 1\<rparr>"
          using mutex_frame [OF k5(4)] mu by simp
        have "w \<notin> set ws" using tlists_okD(1) [OF sched_inv_exD(1) [OF assms(1)], of "Suspend a"] Cons by simp
        then have "mutex_ok a k5" using v(1) by (simp add: mutex_ok_def m5 k5(5))
        moreover have "rt_mutex_release c a k = Some (RT_EOK, k5)"
          using own one k2(1) wq Cons k5(1,2) by (simp add: rel)
        ultimately show ?thesis using own one Cons k5(3,5,6) pt by (simp add: mutex_abs_def m5)
      qed
    qed
  qed
qed

theorem mutex_release_refines_witness:
  "\<exists>k'. rt_mutex_release 0 7 (demo_mutex_wait 1) = Some (RT_EOK, k') \<and> mutex_abs 7 k' = (Some 2, 1, [])"
  using mutex_release_refines [OF demo_mutex_wait_inv demo_mutex_wait_facts(1-5) _ demo_mutex_wait_facts(6), of 1]
  by (auto simp: demo_mutex_wait_simps mutex_abs_def)

text \<open>C35. A wait that a signal interrupted can deadlock: the retry does not reset the thread's error, so when
  the owner has meanwhile handed the mutex over, the woken thread still sees \<^verbatim>\<open>-RT_EINTR\<close>, tries again
  and waits for the mutex that it owns itself.\<close>

theorem mutex_retry_waits_for_itself:
  assumes "sched_inv k" "may_block c t k" "error (thr k t) = - RT_EINTR"
    and "owner (mutexes k a) = Some t" "mutex_value (mutexes k a) = 0" "time \<noteq> 0" "time \<noteq> 0x7fffffff"
    and "o_flag (obj k (Obj a)) = RT_IPC_FLAG_FIFO \<or> o_flag (obj k (Obj a)) = RT_IPC_FLAG_PRIO"
  shows "\<exists>k'. rt_mutex_take_resume c a t time k = Some (Wait t, k') \<and>
    owner (mutexes k' a) = Some t \<and> t \<in> set (tlists k' (Suspend a))"
proof -
  obtain k' where k': "wait_on c (Suspend a) t (o_flag (obj k (Obj a))) time k = Some k'" "ipc_part k' = ipc_part k"
    "tlists k' (Suspend a) = enqueue (o_flag (obj k (Obj a))) (\<lambda>s. current_priority (thr k s)) t (tlists k (Suspend a))"
    by (rule wait_on_total [OF assms(1,2,7) wq_lists(1) assms(8)]) blast
  have "mutexes k' = mutexes k" by (rule mutex_frame [OF k'(2)])
  moreover have "inherit_priority c a t k = Some k" using assms(4) by (simp add: inherit_priority_def)
  ultimately show ?thesis
    using assms(3-6) k'(1,3) by (simp add: rt_mutex_take_resume_def mutex_try_def enqueue_def)
qed

theorem mutex_retry_waits_for_itself_witness:
  "\<exists>k'. rt_mutex_take_resume 0 7 1 5 (set_error 1 (- RT_EINTR) (demo_mutex (Some 1) 1)) = Some (Wait 1, k') \<and>
     owner (mutexes k' 7) = Some 1 \<and> 1 \<in> set (tlists k' (Suspend 7))"
  by (rule mutex_retry_waits_for_itself)
    (use demo_mutex_facts(1) [of "Some 1" 1] demo_mutex_inv [of "Some 1" 1] in
      \<open>simp_all add: may_block_set_error demo_mutex_simps demo_lock_def\<close>)

end
