(* ===== verification/Event.thy ===== *)
theory Event
  imports Mutex
begin

text \<open>
  Event sets (\<^verbatim>\<open>src/ipc.c\<close>): 32 flags that threads wait for, all of a set (AND) or any of it (OR),
  optionally clearing what they received. \<^verbatim>\<open>rt_event_send\<close> scans the wait queue once, in order, with
  the flags as the earlier waiters left them; the scan is related to a function on the flags and
  the queue, and it leaves nobody waiting whose condition holds.
\<close>

section \<open>Operations\<close>

definition set_event :: "nat \<Rightarrow> u32 \<Rightarrow> kernel \<Rightarrow> kernel" where
  "set_event a v k = k\<lparr>events := (events k)(a := \<lparr>ev_set = v\<rparr>)\<rparr>"

definition rt_event_init :: "nat \<Rightarrow> string \<Rightarrow> u8 \<Rightarrow> kernel \<Rightarrow> (rt_err_t \<times> kernel) option" where
  "rt_event_init a name flag k = do {
     k1 \<leftarrow> rt_object_init (Obj a) RT_Object_Class_Event name k;
     Some (RT_EOK, set_event a 0 (rt_ipc_object_init a (set_flag a flag k1))) }"

definition rt_event_detach :: "nat \<Rightarrow> nat \<Rightarrow> kernel \<Rightarrow> (rt_err_t \<times> kernel) option" where
  "rt_event_detach c a k = do {
     rt_assert (has_class RT_Object_Class_Event a k);
     rt_assert (rt_object_is_systemobject (Obj a) k);
     k1 \<leftarrow> rt_ipc_list_resume_all c (Suspend a) k;
     Some (RT_EOK, rt_object_detach (Obj a) k1) }"

definition rt_event_create ::
    "nat \<Rightarrow> string \<Rightarrow> u8 \<Rightarrow> nat option \<Rightarrow> kernel \<Rightarrow> (nat option \<times> kernel) option" where
  "rt_event_create c name flag malloc k = do {
     rt_assert (not_in_interrupt c k);
     (e, k1) \<leftarrow> rt_object_allocate c RT_Object_Class_Event name malloc k;
     (case e of
        None \<Rightarrow> Some (None, k1)
      | Some a \<Rightarrow> Some (Some a, set_event a 0 (rt_ipc_object_init a (set_flag a flag k1)))) }"

definition rt_event_delete :: "nat \<Rightarrow> nat \<Rightarrow> kernel \<Rightarrow> (rt_err_t \<times> kernel) option" where
  "rt_event_delete c a k = do {
     rt_assert (has_class RT_Object_Class_Event a k);
     rt_assert (\<not> rt_object_is_systemobject (Obj a) k);
     rt_assert (not_in_interrupt c k);
     k1 \<leftarrow> rt_ipc_list_resume_all c (Suspend a) k;
     k2 \<leftarrow> rt_object_delete (Obj a) k1;
     Some (RT_EOK, k2) }"

text \<open>The scan of the wait queue. The next node is read before the thread leaves the list, so the
  scan goes over the threads that waited when it began.\<close>

fun event_send_loop :: "nat \<Rightarrow> nat \<Rightarrow> nat list \<Rightarrow> bool \<Rightarrow> kernel \<Rightarrow> (bool \<times> kernel) option" where
  "event_send_loop c a [] need k = Some (need, k)"
| "event_send_loop c a (t # ts) need k =
     (let x = thr k t; ev = ev_set (events k a);
          (status, k1) =
            (if event_info x AND RT_EVENT_FLAG_AND \<noteq> 0 then (event_set x AND ev = event_set x, k)
             else if event_info x AND RT_EVENT_FLAG_OR \<noteq> 0 then
               (if event_set x AND ev \<noteq> 0 then (True, upd_thr t (\<lambda>y. y\<lparr>event_set := event_set y AND ev\<rparr>) k)
                else (False, k))
             else (False, k))
      in if status then do {
           let k2 = (if event_info (thr k1 t) AND RT_EVENT_FLAG_CLEAR \<noteq> 0
                     then set_event a (ev_set (events k1 a) AND NOT (event_set (thr k1 t))) k1 else k1);
           (_, k3) \<leftarrow> rt_thread_resume c t k2;
           event_send_loop c a ts True k3 }
         else event_send_loop c a ts need k1)"

definition rt_event_send :: "nat \<Rightarrow> nat \<Rightarrow> u32 \<Rightarrow> kernel \<Rightarrow> (rt_err_t \<times> kernel) option" where
  "rt_event_send c a v k = do {
     rt_assert (has_class RT_Object_Class_Event a k);
     if v = 0 then Some (- RT_ERROR, k)
     else do {
       let k1 = set_event a (ev_set (events k a) OR v) k;
       (need, k2) \<leftarrow> event_send_loop c a (tlists k1 (Suspend a)) False k1;
       k3 \<leftarrow> (if need then rt_schedule c k2 else Some k2);
       Some (RT_EOK, k3) } }"

text \<open>The second component of the result is what is written through \<^verbatim>\<open>recved\<close> when it is not null.\<close>

definition rt_event_recv ::
    "nat \<Rightarrow> nat \<Rightarrow> u32 \<Rightarrow> u8 \<Rightarrow> u32 \<Rightarrow> kernel \<Rightarrow> (nat outcome \<times> u32 option \<times> kernel) option" where
  "rt_event_recv c a v opt timeout k = do {
     rt_assert (in_thread_context c k);
     rt_assert (has_class RT_Object_Class_Event a k);
     if v = 0 then Some (Ret (- RT_ERROR), None, k)
     else do {
       t \<leftarrow> rt_thread_self c k;
       let k1 = set_error t RT_EOK k;
       let ev = ev_set (events k1 a);
       status \<leftarrow> (if opt AND RT_EVENT_FLAG_AND \<noteq> 0 then Some (ev AND v = v)
                  else if opt AND RT_EVENT_FLAG_OR \<noteq> 0 then Some (ev AND v \<noteq> 0)
                  else None);
       if status then
         Some (Ret (error (thr k1 t)), Some (ev AND v),
               if opt AND RT_EVENT_FLAG_CLEAR \<noteq> 0 then set_event a (ev AND NOT v) k1 else k1)
       else if timeout = 0 then Some (Ret (- RT_ETIMEOUT), None, set_error t (- RT_ETIMEOUT) k1)
       else do {
         k2 \<leftarrow> wait_on c (Suspend a) t (o_flag (obj k1 (Obj a))) timeout
                (upd_thr t (\<lambda>x. x\<lparr>event_set := v, event_info := opt\<rparr>) k1);
         Some (Wait t, None, k2) } } }"

definition rt_event_recv_resume :: "nat \<Rightarrow> kernel \<Rightarrow> rt_err_t \<times> u32 option" where
  "rt_event_recv_resume t k =
     (if error (thr k t) \<noteq> RT_EOK then (error (thr k t), None) else (error (thr k t), Some (event_set (thr k t))))"

definition rt_event_control :: "nat \<Rightarrow> nat \<Rightarrow> int \<Rightarrow> kernel \<Rightarrow> (rt_err_t \<times> kernel) option" where
  "rt_event_control c a cmd k = do {
     rt_assert (has_class RT_Object_Class_Event a k);
     if cmd = RT_IPC_CMD_RESET then do {
       k1 \<leftarrow> rt_ipc_list_resume_all c (Suspend a) k;
       k2 \<leftarrow> rt_schedule c (set_event a 0 k1);
       Some (RT_EOK, k2) }
     else Some (- RT_ERROR, k) }"

section \<open>The abstraction\<close>

text \<open>What a waiter asked for, whether the flags satisfy it, what it receives, and the scan of a
  queue: the flags left, the threads that go on waiting, and the others with what they receive.\<close>

definition wait_info :: "rt_thread \<Rightarrow> u32 \<times> u8" where
  "wait_info x = (event_set x, event_info x)"

fun event_met :: "u32 \<Rightarrow> u32 \<times> u8 \<Rightarrow> bool" where
  "event_met ev (v, opt) \<longleftrightarrow>
     (if opt AND RT_EVENT_FLAG_AND \<noteq> 0 then v AND ev = v
      else opt AND RT_EVENT_FLAG_OR \<noteq> 0 \<and> v AND ev \<noteq> 0)"

fun event_left :: "u32 \<Rightarrow> u32 \<times> u8 \<Rightarrow> u32" where
  "event_left ev (v, opt) = (if opt AND RT_EVENT_FLAG_CLEAR \<noteq> 0 then ev AND NOT v else ev)"

fun event_given :: "u32 \<Rightarrow> u32 \<times> u8 \<Rightarrow> u32" where
  "event_given ev (v, opt) = (if opt AND RT_EVENT_FLAG_AND \<noteq> 0 then v else v AND ev)"

fun event_scan :: "(nat \<Rightarrow> u32 \<times> u8) \<Rightarrow> u32 \<Rightarrow> nat list \<Rightarrow> (u32 \<times> nat list) \<times> (nat \<times> u32) list" where
  "event_scan w ev [] = ((ev, []), [])"
| "event_scan w ev (t # ts) =
     (if event_met ev (w t) then
        (let (s, gs) = event_scan w (event_left ev (w t)) ts in (s, (t, event_given ev (w t)) # gs))
      else (let ((ev', rs), gs) = event_scan w ev ts in ((ev', t # rs), gs)))"

definition event_abs :: "nat \<Rightarrow> kernel \<Rightarrow> u32 \<times> nat list" where
  "event_abs a k = (ev_set (events k a), tlists k (Suspend a))"

text \<open>Nobody waits for what is there.\<close>

definition event_ok :: "nat \<Rightarrow> kernel \<Rightarrow> bool" where
  "event_ok a k \<longleftrightarrow> (\<forall>t \<in> set (tlists k (Suspend a)). \<not> event_met (ev_set (events k a)) (wait_info (thr k t)))"

lemma bit_subset_and: "(ev' :: u32) AND ev = ev' \<Longrightarrow> v AND ev' = v \<Longrightarrow> v AND ev = v"
  by (metis and.assoc and.commute)

lemma event_met_mono:
  assumes "ev' AND ev = ev'" "event_met ev' w"
  shows "event_met ev w"
proof (cases w)
  case (Pair v opt)
  have "v AND ev \<noteq> 0" if "v AND ev' \<noteq> 0"
  proof
    assume "v AND ev = 0"
    then have "v AND (ev' AND ev) = 0" by (metis and.left_commute and_zero_eq)
    with assms(1) that show False by simp
  qed
  with assms bit_subset_and [OF assms(1)] Pair show ?thesis by (auto split: if_splits)
qed

lemma event_left_subset: "event_left ev w AND ev = event_left ev w"
  by (cases w) (auto simp: and.assoc and.commute and.left_commute)

lemma event_scan_subset: "fst (fst (event_scan w ev ts)) AND ev = fst (fst (event_scan w ev ts))"
proof (induction ts arbitrary: ev)
  case (Cons t ts)
  then show ?case
    using bit_subset_and [OF event_left_subset, of "fst (fst (event_scan w (event_left ev (w t)) ts))" ev "w t"] Cons
    by (auto simp: split_beta Let_def)
qed simp

lemma event_scan_unmet:
  "t \<in> set (snd (fst (event_scan w ev ts))) \<Longrightarrow> \<not> event_met (fst (fst (event_scan w ev ts))) (w t)"
proof (induction ts arbitrary: ev)
  case (Cons u us)
  show ?case
  proof (cases "event_met ev (w u)")
    case False
    have "\<not> event_met (fst (fst (event_scan w ev us))) (w u)"
      using False event_met_mono [OF event_scan_subset] by blast
    with False Cons show ?thesis by (auto simp: split_beta Let_def)
  qed (use Cons in \<open>auto simp: split_beta\<close>)
qed simp

lemma event_scan_sets:
  "set (snd (fst (event_scan w ev ts))) \<subseteq> set ts" "fst ` set (snd (event_scan w ev ts)) \<subseteq> set ts"
proof -
  show "set (snd (fst (event_scan w ev ts))) \<subseteq> set ts"
    by (induction ts arbitrary: ev) (auto simp: split_beta Let_def)
  show "fst ` set (snd (event_scan w ev ts)) \<subseteq> set ts"
    by (induction ts arbitrary: ev) (auto simp: split_beta Let_def)
qed

lemma event_scan_disjoint:
  "distinct ts \<Longrightarrow> set (snd (fst (event_scan w ev ts))) \<inter> fst ` set (snd (event_scan w ev ts)) = {}"
proof (induction ts arbitrary: ev)
  case (Cons t ts)
  have "t \<notin> set (snd (fst (event_scan w e ts)))" "t \<notin> fst ` set (snd (event_scan w e ts))" for e
    using Cons.prems event_scan_sets [of w e ts] by auto
  with Cons show ?case by (simp add: split_beta Let_def)
qed simp

lemma event_scan_cong: "(\<And>t. t \<in> set ts \<Longrightarrow> w t = w' t) \<Longrightarrow> event_scan w ev ts = event_scan w' ev ts"
  by (induction ts arbitrary: ev) auto

section \<open>What a thread waits for is its own\<close>

definition wait_part :: "rt_thread \<Rightarrow> (u32 \<times> u8) \<times> rt_err_t" where
  "wait_part x = (wait_info x, error x)"

lemma wait_part_simps [simp]:
  "wait_part (set_stat s x) = wait_part x" "wait_part (x\<lparr>oncpu := n\<rparr>) = wait_part x"
  "wait_part (x\<lparr>cpus_lock_nest := h\<rparr>) = wait_part x" "wait_part (x\<lparr>scheduler_lock_nest := h\<rparr>) = wait_part x"
  "wait_part (x\<lparr>stat := b\<rparr>) = wait_part x"
  by (simp_all add: wait_part_def wait_info_def)

lemma wait_resume:
  "rt_thread_resume c t k = Some (r, k') \<Longrightarrow> wait_part (thr k' s) = wait_part (thr k s)"
  by (elim resumeE) (simp_all add: timer_stop_frame insert_thread_thr)

lemma wait_suspend:
  "rt_thread_suspend c t k = Some (r, k') \<Longrightarrow> wait_part (thr k' s) = wait_part (thr k s)"
  by (elim suspendE) (simp_all add: timer_stop_frame)

lemma wait_switch:
  "schedule_switch c t k = Some k' \<Longrightarrow> wait_part (thr k' s) = wait_part (thr k s)"
  by (auto simp: schedule_switch_def rt_cpus_lock_status_restore_def insert_thread_thr Let_def
      elim!: bind_eq_SomeE split: if_splits)

lemma wait_schedule:
  assumes "rt_schedule c k = Some k'"
  shows "wait_part (thr k' s) = wait_part (thr k s)"
proof (cases "irq_nest (cpus k c) = 0")
  case True
  with assms obtain cur k1 where k1: "signal_wakeup c cur k = Some k1"
    "(if scheduler_lock_nest (thr k1 cur) + 1 = 1 then schedule_switch c cur k1 else Some k1) = Some k'"
    by (auto simp: rt_schedule_def elim!: bind_eq_SomeE)
  have "wait_part (thr k1 s) = wait_part (thr k s)"
    using k1(1) wait_resume by (auto simp: signal_wakeup_def split: if_splits)
  with k1(2) show ?thesis using wait_switch by (metis option.inject)
qed (use assms in \<open>auto simp: rt_schedule_def\<close>)

lemma wait_wait_on:
  assumes "wait_on c l t flag timeout k = Some k'" "o_flag (obj k (ThreadTimer t)) AND RT_TIMER_FLAG_SOFT_TIMER = 0"
  shows "wait_part (thr k' s) = wait_part (thr k s)"
proof -
  from assms obtain k1 k2 where k: "rt_ipc_list_suspend c l t flag k = Some k1"
    "(if 0 < sint timeout then do {
              (_, _, k') \<leftarrow> rt_timer_control (ThreadTimer t) Ctrl_set_time timeout k1;
              rt_timer_start c (ThreadTimer t) k' }
            else Some k1) = Some k2" "rt_schedule c k2 = Some k'"
    by (auto simp: wait_on_def elim!: bind_eq_SomeE)
  from k(1) obtain r k0 where k0: "rt_thread_suspend c t k = Some (r, k0)" "thr k1 = thr k0" "obj k1 = obj k0"
    by (auto simp: rt_ipc_list_suspend_def tlist_insert_before_def tlist_insert_before_node_def
        elim!: bind_eq_SomeE split: option.split)
  have "o_flag (obj k1 (ThreadTimer t)) AND RT_TIMER_FLAG_SOFT_TIMER = 0"
    using suspend_soft_flag [OF k0(1)] assms(2) by (simp add: k0(3))
  from arm_timer_frame(2) [OF k(2) this] show ?thesis
    using wait_schedule [OF k(3)] wait_suspend [OF k0(1)] by (simp add: k0(2))
qed

section \<open>The scan of the wait queue\<close>

lemma set_event_simps [simp]:
  "ev_set (events (set_event a v k) a) = v" "tlists (set_event a v k) = tlists k" "thr (set_event a v k) = thr k"
  "cpus (set_event a v k) = cpus k" "obj (set_event a v k) = obj k" "sched_inv (set_event a v k) = sched_inv k"
  "cpu_live c (set_event a v k) = cpu_live c k" "waiters_live l (set_event a v k) = waiters_live l k"
  "has_class cl b (set_event a v k) = has_class cl b k" "is_thread t (set_event a v k) = is_thread t k"
  "is_timer x (set_event a v k) = is_timer x k"
proof -
  show "sched_inv (set_event a v k) = sched_inv k"
    by (rule sched_inv_ex_cong) (simp_all add: set_event_def is_thread_def rt_object_get_type_def)
qed (simp_all add: set_event_def cpu_live_def waiters_live_def is_thread_def is_timer_def
      has_class_def rt_object_get_type_def)

lemma sched_inv_event_set:
  assumes "sched_inv k"
  shows "sched_inv (upd_thr t (\<lambda>y. y\<lparr>event_set := v\<rparr>) k)"
    "sched_inv (upd_thr t (\<lambda>y. y\<lparr>event_set := v, event_info := w\<rparr>) k)"
  using assms by (auto intro!: sched_inv_thread_field simp: stat_of_def)

text \<open>A waiter whose condition holds: it is given its flags and wakes up.\<close>

definition event_give :: "nat \<Rightarrow> nat \<Rightarrow> kernel \<Rightarrow> kernel" where
  "event_give a t k =
     set_event a (event_left (ev_set (events k a)) (wait_info (thr k t)))
       (upd_thr t (\<lambda>y. y\<lparr>event_set := event_given (ev_set (events k a)) (wait_info (thr k t))\<rparr>) k)"

lemma and_not_and: "(ev :: u32) AND (NOT v OR NOT ev) = ev AND NOT v"
  by (simp add: bit_eq_iff bit_simps) blast

lemma set_event_same: "set_event a (ev_set (events k a)) k = k"
proof -
  have "\<lparr>ev_set = ev_set (events k a)\<rparr> = events k a" by simp
  then show ?thesis by (simp add: set_event_def fun_upd_idem)
qed

lemma event_send_step:
  "event_send_loop c a (t # ts) need k =
     (if event_met (ev_set (events k a)) (wait_info (thr k t)) then do {
        (_, k3) \<leftarrow> rt_thread_resume c t (event_give a t k);
        event_send_loop c a ts True k3 }
      else event_send_loop c a ts need k)"
  using set_event_same [of a k]
  by (auto simp: Let_def wait_info_def event_give_def and_not_and set_event_def fun_upd_idem)

lemma event_give_simps [simp]:
  "tlists (event_give a t k) = tlists k" "cpus (event_give a t k) = cpus k" "obj (event_give a t k) = obj k"
  "ev_set (events (event_give a t k) a) = event_left (ev_set (events k a)) (wait_info (thr k t))"
  "s \<noteq> t \<Longrightarrow> thr (event_give a t k) s = thr k s"
  "is_thread s (event_give a t k) = is_thread s k" "is_timer x (event_give a t k) = is_timer x k"
  "error (thr (event_give a t k) t) = error (thr k t)"
  "event_set (thr (event_give a t k) t) = event_given (ev_set (events k a)) (wait_info (thr k t))"
  by (simp_all add: event_give_def is_thread_def is_timer_def rt_object_get_type_def)

lemma event_give_inv: "sched_inv k \<Longrightarrow> sched_inv (event_give a t k)" "cpu_live c k \<Longrightarrow> cpu_live c (event_give a t k)"
  by (auto simp: event_give_def sched_inv_event_set cpu_live_def is_thread_def is_timer_def
      rt_object_get_type_def no_signal_def)

lemma event_wake:
  assumes "sched_inv k" "cpu_live c k" "waiters_live (Suspend a) k" "tlists k (Suspend a) = ds @ t # ts" "error (thr k t) = RT_EOK"
  obtains k1 where "rt_thread_resume c t (event_give a t k) = Some (RT_EOK, k1)" "sched_inv k1" "cpu_live c k1"
    "waiters_live (Suspend a) k1" "tlists k1 (Suspend a) = ds @ ts"
    "ev_set (events k1 a) = event_left (ev_set (events k a)) (wait_info (thr k t))"
    "\<And>s. s \<noteq> t \<Longrightarrow> thr k1 s = thr k s" "stat_of (thr k1 t) \<noteq> RT_THREAD_SUSPEND"
    "rt_event_recv_resume t k1 = (RT_EOK, Some (event_given (ev_set (events k a)) (wait_info (thr k t))))"
proof -
  let ?k = "event_give a t k"
  have d: "t \<notin> set ds" "t \<notin> set ts"
    using tlists_okD(1) [OF sched_inv_exD(1) [OF assms(1)], of "Suspend a"] assms(4) by auto
  have i: "sched_inv ?k" "cpu_live c ?k" using assms(1,2) by (simp_all add: event_give_inv)
  have t: "t \<in> set (tlists ?k (Suspend a))" "is_thread t ?k" "is_timer (ThreadTimer t) ?k"
    using assms(3,4) by (auto simp: waiters_live_def)
  obtain k1 where k1: "rt_thread_resume c t ?k = Some (RT_EOK, k1)" "sched_inv k1"
    "\<And>m. is_wq m \<Longrightarrow> tlists k1 m = removeAll t (tlists ?k m)"
    "stat_of (thr k1 t) \<noteq> RT_THREAD_SUSPEND" "error (thr k1 t) = error (thr ?k t)"
    "\<And>s. s \<noteq> t \<Longrightarrow> thr k1 s = thr ?k s"
    "\<And>y. rt_object_get_type y k1 = rt_object_get_type y ?k"
    "\<And>d. current_thread (cpus k1 d) = current_thread (cpus ?k d)"
    by (rule resume_waiter [OF i(1) t(1) wq_lists(1) t(2,3), of c]) metis
  have l: "tlists k1 (Suspend a) = ds @ ts" using k1(3) [OF wq_lists(1)] assms(4) d by simp
  have live: "cpu_live c k1" "waiters_live (Suspend a) k1"
    using i(2) k1(7,8) resume_no_signal [OF k1(1)] assms(3,4) l
    by (auto simp: cpu_live_def waiters_live_def is_thread_def is_timer_def rt_object_get_type_def)
  have ev1: "ev_set (events k1 a) = event_left (ev_set (events k a)) (wait_info (thr k t))"
    using ipc_partD(3) [OF ipc_resume [OF k1(1)]] by simp
  have "event_set (thr k1 t) = event_set (thr ?k t)"
    using wait_resume [OF k1(1), of t] by (simp add: wait_part_def wait_info_def)
  then show ?thesis
    using that [OF k1(1,2) live l ev1 _ k1(4)] k1(5,6) assms(5) by (simp add: rt_event_recv_resume_def)
qed

lemma event_loop_spec:
  assumes "sched_inv k" "cpu_live c k" "waiters_live (Suspend a) k"
    and "tlists k (Suspend a) = ds @ ts" "\<forall>t \<in> set ts. error (thr k t) = RT_EOK"
    and "event_scan (\<lambda>t. wait_info (thr k t)) (ev_set (events k a)) ts = ((ev', rs), gs)"
  shows "\<exists>k'. event_send_loop c a ts need k = Some (need \<or> gs \<noteq> [], k') \<and> sched_inv k' \<and> cpu_live c k' \<and>
    ev_set (events k' a) = ev' \<and> tlists k' (Suspend a) = ds @ rs \<and>
    (\<forall>t. t \<notin> fst ` set gs \<longrightarrow> thr k' t = thr k t) \<and>
    (\<forall>(t, v) \<in> set gs. rt_event_recv_resume t k' = (RT_EOK, Some v) \<and> stat_of (thr k' t) \<noteq> RT_THREAD_SUSPEND)"
  using assms
proof (induction ts arbitrary: k ds need ev' rs gs)
  case Nil
  then show ?case by auto
next
  case (Cons t ts)
  let ?w = "\<lambda>t. wait_info (thr k t)"
  have d: "t \<notin> set ts"
    using tlists_okD(1) [OF sched_inv_exD(1) [OF Cons.prems(1)], of "Suspend a"] Cons.prems(4) by auto
  show ?case
  proof (cases "event_met (ev_set (events k a)) (?w t)")
    case False
    then obtain rs' where rs': "rs = t # rs'" "event_scan ?w (ev_set (events k a)) ts = ((ev', rs'), gs)"
      using Cons.prems(6) by (auto simp: split_beta Let_def prod_eq_iff)
    from Cons.IH [OF Cons.prems(1-3) _ _ rs'(2), of "ds @ [t]" need] Cons.prems(4,5) False rs'(1)
    show ?thesis by (simp add: event_send_step del: event_send_loop.simps)
  next
    case True
    let ?g = "event_given (ev_set (events k a)) (?w t)"
    have et: "error (thr k t) = RT_EOK" using Cons.prems(5) by simp
    obtain k1 where k1: "rt_thread_resume c t (event_give a t k) = Some (RT_EOK, k1)" "sched_inv k1" "cpu_live c k1"
      "waiters_live (Suspend a) k1" "tlists k1 (Suspend a) = ds @ ts"
      "ev_set (events k1 a) = event_left (ev_set (events k a)) (?w t)"
      "\<And>s. s \<noteq> t \<Longrightarrow> thr k1 s = thr k s" "stat_of (thr k1 t) \<noteq> RT_THREAD_SUSPEND"
      "rt_event_recv_resume t k1 = (RT_EOK, Some ?g)"
      by (rule event_wake [OF Cons.prems(1-4) et]) blast
    obtain gs' where gs: "gs = (t, ?g) # gs'"
      "event_scan ?w (event_left (ev_set (events k a)) (?w t)) ts = ((ev', rs), gs')"
      using Cons.prems(6) True by (auto simp: split_beta Let_def prod_eq_iff)
    have "event_scan (\<lambda>s. wait_info (thr k1 s)) (ev_set (events k1 a)) ts = ((ev', rs), gs')"
      unfolding k1(6) gs(2) [symmetric] using d k1(7) by (intro event_scan_cong) metis
    moreover have "\<forall>s \<in> set ts. error (thr k1 s) = RT_EOK" using Cons.prems(5) k1(7) d by (metis list.set_intros(2))
    ultimately obtain k' where k': "event_send_loop c a ts True k1 = Some (True, k')" "sched_inv k'" "cpu_live c k'"
      "ev_set (events k' a) = ev'" "tlists k' (Suspend a) = ds @ rs"
      "\<forall>s. s \<notin> fst ` set gs' \<longrightarrow> thr k' s = thr k1 s"
      "\<forall>(s, v) \<in> set gs'. rt_event_recv_resume s k' = (RT_EOK, Some v) \<and> stat_of (thr k' s) \<noteq> RT_THREAD_SUSPEND"
      using Cons.IH [OF k1(2-5), of ev' rs gs' True] by auto
    have "t \<notin> fst ` set gs'"
      using event_scan_sets(2) [of ?w "event_left (ev_set (events k a)) (?w t)" ts] d gs(2) by auto
    then have "thr k' t = thr k1 t" using k'(6) by blast
    then have "rt_event_recv_resume t k' = rt_event_recv_resume t k1" by (simp add: rt_event_recv_resume_def)
    with k1(8,9) \<open>thr k' t = thr k1 t\<close>
    have "rt_event_recv_resume t k' = (RT_EOK, Some ?g)" "stat_of (thr k' t) \<noteq> RT_THREAD_SUSPEND" by simp_all
    then show ?thesis
      using True k1(1,7) k' unfolding gs(1)
      by (auto simp: event_send_step simp del: event_send_loop.simps)
  qed
qed

section \<open>Properties\<close>

text \<open>C23. \<^verbatim>\<open>rt_event_send\<close> of a non-empty set cannot fail and implements one scan of the wait queue in order: the
  flags left and the threads still waiting are those of the scan, each woken thread's \<^verbatim>\<open>rt_event_recv\<close>
  returns \<^verbatim>\<open>RT_EOK\<close> with the flags the scan gives it, the scheduler invariant holds, and nobody is left
  waiting whose condition the remaining flags satisfy.\<close>

theorem event_send_refines:
  assumes "sched_inv k" "cpu_live c k" "has_class RT_Object_Class_Event a k" "waiters_live (Suspend a) k"
    and "v \<noteq> 0" "\<forall>t \<in> set (tlists k (Suspend a)). error (thr k t) = RT_EOK"
    and "event_scan (\<lambda>t. wait_info (thr k t)) (ev_set (events k a) OR v) (tlists k (Suspend a)) = (s, gs)"
  shows "\<exists>k'. rt_event_send c a v k = Some (RT_EOK, k') \<and> sched_inv k' \<and> event_abs a k' = s \<and> event_ok a k' \<and>
    (\<forall>(t, u) \<in> set gs. rt_event_recv_resume t k' = (RT_EOK, Some u))"
proof -
  let ?k = "set_event a (ev_set (events k a) OR v) k"
  obtain ev rs where s: "s = (ev, rs)" by (cases s)
  obtain k1 where k1: "event_send_loop c a (tlists k (Suspend a)) False ?k = Some (gs \<noteq> [], k1)" "sched_inv k1"
    "cpu_live c k1" "ev_set (events k1 a) = ev" "tlists k1 (Suspend a) = rs"
    "\<forall>t. t \<notin> fst ` set gs \<longrightarrow> thr k1 t = thr k t"
    "\<forall>(t, u) \<in> set gs. rt_event_recv_resume t k1 = (RT_EOK, Some u)"
    using event_loop_spec [of ?k c a "[]" "tlists k (Suspend a)" ev rs gs False] assms s by fastforce
  obtain k2 where k2: "(if gs \<noteq> [] then rt_schedule c k1 else Some k1) = Some k2" "sched_inv k2"
    "ipc_part k2 = ipc_part k1" "tlists k2 (Suspend a) = rs" "\<And>t. wait_part (thr k2 t) = wait_part (thr k1 t)"
  proof (cases "gs = []")
    case False
    obtain k2 where "rt_schedule c k1 = Some k2" "sched_inv k2" "ipc_part k2 = ipc_part k1"
      "\<And>m. is_wq m \<Longrightarrow> tlists k2 m = tlists k1 m" by (rule schedule_total [OF k1(2,3)]) blast
    with False that [of k2] wait_schedule k1(5) wq_lists(1) show ?thesis by simp
  qed (use k1(2,5) that in simp)
  have "rt_event_send c a v k = Some (RT_EOK, k2)"
    using assms(3,5) k1(1) k2(1) by (simp add: rt_event_send_def)
  moreover have e: "event_abs a k2 = s" using ipc_partD(3) [OF k2(3)] k1(4) k2(4) s by (simp add: event_abs_def)
  moreover have "rt_event_recv_resume t k2 = rt_event_recv_resume t k1" for t
    using k2(5) [of t] by (simp add: rt_event_recv_resume_def wait_part_def wait_info_def)
  moreover have "event_ok a k2" unfolding event_ok_def
  proof
    fix t assume t: "t \<in> set (tlists k2 (Suspend a))"
    have d: "distinct (tlists k (Suspend a))" by (rule tlists_okD(1) [OF sched_inv_exD(1) [OF assms(1)]])
    have "t \<notin> fst ` set gs"
      using event_scan_disjoint [OF d, of "\<lambda>t. wait_info (thr k t)" "ev_set (events k a) OR v"] t k2(4) assms(7) s by auto
    then have "wait_info (thr k2 t) = wait_info (thr k t)" using k2(5) [of t] k1(6) by (simp add: wait_part_def)
    moreover have "\<not> event_met ev (wait_info (thr k t))"
      using event_scan_unmet [of t "\<lambda>t. wait_info (thr k t)" "ev_set (events k a) OR v" "tlists k (Suspend a)"] t k2(4)
        assms(7) s by simp
    ultimately show "\<not> event_met (ev_set (events k2 a)) (wait_info (thr k2 t))" using e s by (simp add: event_abs_def)
  qed
  ultimately show ?thesis using k2(2) k1(7) by auto
qed

text \<open>The example: thread 2 waits for one of the flags 1 and 2, and clears what it gets.\<close>

definition demo_event :: kernel where
  "demo_event = upd_thr 2 (\<lambda>x. x\<lparr>event_set := 3, event_info := RT_EVENT_FLAG_OR OR RT_EVENT_FLAG_CLEAR\<rparr>)
     (set_event 7 0 (demo_wait RT_Object_Class_Event (Suspend 7)))"

lemma demo_event_facts:
  "sched_inv demo_event" "cpu_live 0 demo_event" "has_class RT_Object_Class_Event 7 demo_event"
  "waiters_live (Suspend 7) demo_event"
proof -
  show "sched_inv demo_event"
    unfolding demo_event_def by (rule sched_inv_event_set(2)) (simp add: demo_wait_inv)
qed (simp_all add: demo_event_def cpu_live_def waiters_live_def demo_wait_def demo_object_def is_thread_def
      is_timer_def has_class_def rt_object_get_type_def no_signal_def demo_defs)

lemma demo_event_simps:
  "tlists demo_event (Suspend 7) = [2]" "ev_set (events demo_event 7) = 0" "error (thr demo_event 2) = 0"
  "wait_info (thr demo_event 2) = (3, 6)"
  by (simp_all add: demo_event_def wait_info_def demo_wait_def demo_object_def demo_defs set_event_def)

theorem event_send_refines_witness:
  "\<exists>k'. rt_event_send 0 7 6 demo_event = Some (RT_EOK, k') \<and> event_abs 7 k' = (4, []) \<and>
     rt_event_recv_resume 2 k' = (RT_EOK, Some 2)"
  using event_send_refines [OF demo_event_facts, of 6 "(4, [])" "[(2, 2)]"]
  by (auto simp: demo_event_simps)

lemma event_recv_unfold:
  assumes "has_class RT_Object_Class_Event a k" "v \<noteq> 0"
    and "opt AND RT_EVENT_FLAG_AND \<noteq> 0 \<or> opt AND RT_EVENT_FLAG_OR \<noteq> 0"
    and "in_thread_context c k" "rt_thread_self c k = Some t"
  shows "rt_event_recv c a v opt timeout k =
    (let ev = ev_set (events k a); k1 = set_error t RT_EOK k in
     if event_met ev (v, opt) then Some (Ret RT_EOK, Some (ev AND v), set_event a (event_left ev (v, opt)) k1)
     else if timeout = 0 then Some (Ret (- RT_ETIMEOUT), None, set_error t (- RT_ETIMEOUT) k1)
     else do {
       k2 \<leftarrow> wait_on c (Suspend a) t (o_flag (obj k (Obj a))) timeout
              (upd_thr t (\<lambda>x. x\<lparr>event_set := v, event_info := opt\<rparr>) k1);
       Some (Wait t, None, k2) })"
proof -
  let ?ev = "ev_set (events k a)"
  have status: "(if opt AND RT_EVENT_FLAG_AND \<noteq> 0 then Some (?ev AND v = v)
      else if opt AND RT_EVENT_FLAG_OR \<noteq> 0 then Some (?ev AND v \<noteq> 0) else None) = Some (event_met ?ev (v, opt))"
    using assms(3) by (auto simp: and.commute)
  have left: "set_event a (event_left ?ev (v, opt)) (set_error t RT_EOK k) =
      (if opt AND RT_EVENT_FLAG_CLEAR \<noteq> 0 then set_event a (?ev AND NOT v) (set_error t RT_EOK k) else set_error t RT_EOK k)"
    using set_event_same [of a "set_error t RT_EOK k"] by simp
  show ?thesis
    using assms(1,2,4,5)
    by (simp add: rt_event_recv_def Let_def status left cong: if_cong split del: if_split del: event_met.simps event_left.simps)
qed

text \<open>\<^verbatim>\<open>rt_event_recv\<close> cannot fail on a non-empty set and a legal option: when the flags satisfy the caller it
  returns the flags it asked for, clearing them if so wished; otherwise it returns \<^verbatim>\<open>-RT_ETIMEOUT\<close> at once
  when it may not wait, or joins the wait queue. That nobody waits for what is there is kept.\<close>

theorem event_recv_refines:
  assumes "sched_inv k" "may_block c t k" "has_class RT_Object_Class_Event a k" "event_ok a k" "v \<noteq> 0"
    and "opt AND RT_EVENT_FLAG_AND \<noteq> 0 \<or> opt AND RT_EVENT_FLAG_OR \<noteq> 0" "timeout \<noteq> 0x7fffffff"
    and "o_flag (obj k (Obj a)) = RT_IPC_FLAG_FIFO \<or> o_flag (obj k (Obj a)) = RT_IPC_FLAG_PRIO"
  shows "\<exists>r w k'. rt_event_recv c a v opt timeout k = Some (r, w, k') \<and> sched_inv k' \<and> event_ok a k' \<and>
    (if event_met (ev_set (events k a)) (v, opt)
     then r = Ret RT_EOK \<and> w = Some (ev_set (events k a) AND v) \<and>
       event_abs a k' = (event_left (ev_set (events k a)) (v, opt), tlists k (Suspend a))
     else if timeout = 0 then r = Ret (- RT_ETIMEOUT) \<and> event_abs a k' = event_abs a k
     else r = Wait t \<and> event_abs a k' = (ev_set (events k a),
       enqueue (o_flag (obj k (Obj a))) (\<lambda>s. current_priority (thr k s)) t (tlists k (Suspend a))))"
proof -
  let ?ev = "ev_set (events k a)" let ?k = "set_error t RT_EOK k"
  note mb = may_blockD [OF assms(2)]
  have wi: "wait_info (thr (set_error t e k1) s) = wait_info (thr k1 s)" for e k1 s
    by (simp add: wait_info_def set_error_def)
  note recv = event_recv_unfold [OF assms(3,5,6) mb(9,7)]
  show ?thesis
  proof (cases "event_met ?ev (v, opt)")
    case True
    have "\<not> event_met (event_left ?ev (v, opt)) (wait_info (thr k s))" if "s \<in> set (tlists k (Suspend a))" for s
    proof
      assume "event_met (event_left ?ev (v, opt)) (wait_info (thr k s))"
      from event_met_mono [OF event_left_subset this] that assms(4) show False unfolding event_ok_def by blast
    qed
    with True assms(1,4) show ?thesis
      by (simp add: recv event_abs_def event_ok_def may_block_set_error wi Let_def del: event_met.simps event_left.simps)
  next
    case False
    show ?thesis
    proof (cases "timeout = 0")
      case True
      with False assms(1,4) show ?thesis
        by (simp add: recv event_abs_def event_ok_def may_block_set_error wi Let_def del: event_met.simps)
    next
      case t0: False
      let ?k1 = "upd_thr t (\<lambda>x. x\<lparr>event_set := v, event_info := opt\<rparr>) ?k"
      have inv: "sched_inv ?k1" using assms(1) by (intro sched_inv_event_set) (simp add: may_block_set_error)
      have mb1: "may_block c t ?k1"
        using mb by (simp add: may_block_def set_error_def no_signal_def stat_of_def is_timer_def is_thread_def
            rt_object_get_type_def not_in_interrupt_def in_thread_context_def)
      obtain k' where k': "wait_on c (Suspend a) t (o_flag (obj k (Obj a))) timeout ?k1 = Some k'" "sched_inv k'"
        "ipc_part k' = ipc_part ?k1" "tlists k' (Suspend a) = enqueue (o_flag (obj k (Obj a)))
          (\<lambda>s. current_priority (thr ?k1 s)) t (tlists ?k1 (Suspend a))"
        by (rule wait_on_total [OF inv mb1 assms(7) wq_lists(1) assms(8)]) blast
      have prio: "(\<lambda>s. current_priority (thr ?k1 s)) = (\<lambda>s. current_priority (thr k s))"
        by (auto simp: set_error_def)
      have q: "tlists k' (Suspend a) = enqueue (o_flag (obj k (Obj a))) (\<lambda>s. current_priority (thr k s)) t (tlists k (Suspend a))"
        using k'(4) unfolding prio by simp
      have w: "wait_info (thr k' s) = (if s = t then (v, opt) else wait_info (thr k s))" for s
        using wait_wait_on [OF k'(1), of s] mb(8) by (auto simp: wait_part_def wait_info_def set_error_def)
      have "events k' = events k" using ipc_partD(3) [OF k'(3)] by simp
      moreover from this have "event_ok a k'"
        using assms(4) False w by (auto simp: event_ok_def q enqueue_def)
      ultimately show ?thesis using False t0 k'(1,2) q by (simp add: recv event_abs_def Let_def del: event_met.simps)
    qed
  qed
qed

theorem event_recv_refines_witness:
  "\<exists>w k'. rt_event_recv 0 7 3 RT_EVENT_FLAG_AND 5 (demo_object RT_Object_Class_Event) = Some (Wait 1, w, k') \<and>
     event_abs 7 k' = (0, [1])"
proof -
  have "event_ok 7 (demo_object RT_Object_Class_Event)" by (simp add: event_ok_def demo_object_def demo_defs)
  from event_recv_refines [OF demo_object_inv demo_may_block(1) _ this, of 3 RT_EVENT_FLAG_AND 5] show ?thesis
    by (auto simp: has_class_def rt_object_get_type_def demo_object_def event_abs_def enqueue_def demo_defs)
qed

end
