(* ===== verification/Fifo.thy ===== *)
theory Fifo
  imports Prelude
begin

text \<open>
  The contract of a bounded first-in first-out store, as the mailbox and the message queue of
  \<^verbatim>\<open>src/ipc.c\<close> implement it: tests for full and empty, one operation that stores and one that fetches, each
  only called when its test allows it. What is fetched may be more than what was stored (a message
  slot has the bytes of earlier messages behind the new ones), so the contract relates the two.
  Every sequence of guarded operations is then a run of an ordinary queue.
\<close>

text \<open>Positions of a ring of \<open>n\<close> places, counted from \<open>b\<close>, are different.\<close>

lemma ring_distinct:
  assumes "i < j" "j < (n :: nat)"
  shows "(b + i) mod n \<noteq> (b + j) mod n"
proof
  assume "(b + i) mod n = (b + j) mod n"
  then have "n dvd (b + j) - (b + i)" using assms(1) by (metis add_le_cancel_left less_imp_le mod_eq_dvd_iff_nat)
  then have "n dvd j - i" by simp
  with assms show False using nat_dvd_not_less [of "j - i" n] by simp
qed

datatype 'v fifo_op = Put 'v | Get

text \<open>The operations of the code in sequence, each behind its test.\<close>

fun fifo_run ::
    "('s \<Rightarrow> bool) \<Rightarrow> ('s \<Rightarrow> bool) \<Rightarrow> ('v \<Rightarrow> 's \<Rightarrow> 's option) \<Rightarrow> ('s \<Rightarrow> ('w \<times> 's) option) \<Rightarrow>
     'v fifo_op list \<Rightarrow> 's \<Rightarrow> ('w list \<times> 's) option" where
  "fifo_run full none put get [] s = Some ([], s)"
| "fifo_run full none put get (Put v # ops) s =
     (if full s then fifo_run full none put get ops s
      else put v s \<bind> fifo_run full none put get ops)"
| "fifo_run full none put get (Get # ops) s =
     (if none s then fifo_run full none put get ops s
      else do {
        (w, s') \<leftarrow> get s;
        (ws, s'') \<leftarrow> fifo_run full none put get ops s';
        Some (w # ws, s'') })"

text \<open>The queue they implement.\<close>

fun queue_run :: "nat \<Rightarrow> 'v fifo_op list \<Rightarrow> 'v list \<Rightarrow> 'v list \<times> 'v list" where
  "queue_run n [] q = ([], q)"
| "queue_run n (Put v # ops) q = queue_run n ops (if length q = n then q else q @ [v])"
| "queue_run n (Get # ops) q =
     (case q of [] \<Rightarrow> queue_run n ops [] | v # vs \<Rightarrow> (let (ws, q') = queue_run n ops vs in (v # ws, q')))"

fun put_values :: "'v fifo_op list \<Rightarrow> 'v list" where
  "put_values [] = []"
| "put_values (Put v # ops) = v # put_values ops"
| "put_values (Get # ops) = put_values ops"

locale bounded_fifo =
  fixes inv :: "'s \<Rightarrow> bool" and contents :: "'s \<Rightarrow> 'w list" and capacity :: "'s \<Rightarrow> nat"
    and fits :: "'s \<Rightarrow> 'v \<Rightarrow> bool" and stored :: "'v \<Rightarrow> 'w \<Rightarrow> bool"
    and full :: "'s \<Rightarrow> bool" and none :: "'s \<Rightarrow> bool"
    and put :: "'v \<Rightarrow> 's \<Rightarrow> 's option" and get :: "'s \<Rightarrow> ('w \<times> 's) option"
  assumes bounded: "inv s \<Longrightarrow> length (contents s) \<le> capacity s"
    and full_iff: "inv s \<Longrightarrow> full s \<longleftrightarrow> length (contents s) = capacity s"
    and none_iff: "inv s \<Longrightarrow> none s \<longleftrightarrow> contents s = []"
    and put_law: "inv s \<Longrightarrow> length (contents s) < capacity s \<Longrightarrow> fits s v \<Longrightarrow>
      \<exists>s' w. put v s = Some s' \<and> inv s' \<and> contents s' = contents s @ [w] \<and> stored v w \<and>
        capacity s' = capacity s \<and> fits s' = fits s"
    and get_law: "inv s \<Longrightarrow> contents s = w # ws \<Longrightarrow>
      \<exists>s'. get s = Some (w, s') \<and> inv s' \<and> contents s' = ws \<and> capacity s' = capacity s \<and> fits s' = fits s"
begin

lemma run_refines:
  assumes "inv s" "list_all2 stored q (contents s)" "\<forall>v \<in> set (put_values ops). fits s v"
  shows "\<exists>ws s'. fifo_run full none put get ops s = Some (ws, s') \<and> inv s' \<and> capacity s' = capacity s \<and>
    list_all2 stored (fst (queue_run (capacity s) ops q)) ws \<and>
    list_all2 stored (snd (queue_run (capacity s) ops q)) (contents s')"
  using assms
proof (induction ops arbitrary: s q rule: put_values.induct)
  case 1
  then show ?case by simp
next
  case (2 v ops)
  have len: "length q = length (contents s)" by (rule list_all2_lengthD [OF "2.prems"(2)])
  show ?case
  proof (cases "full s")
    case True
    then have "length q = capacity s" using full_iff [OF "2.prems"(1)] len by simp
    with True "2.IH" [OF "2.prems"(1,2)] "2.prems"(3) show ?thesis by simp
  next
    case False
    then have l: "length (contents s) < capacity s"
      using full_iff [OF "2.prems"(1)] bounded [OF "2.prems"(1)] by simp
    have "fits s v" using "2.prems"(3) by simp
    from put_law [OF "2.prems"(1) l this] obtain s1 w where s1: "put v s = Some s1" "inv s1"
      "contents s1 = contents s @ [w]" "stored v w" "capacity s1 = capacity s" "fits s1 = fits s" by blast
    have "list_all2 stored (q @ [v]) (contents s1)"
      using "2.prems"(2) s1(3,4) by (simp add: list_all2_appendI)
    from "2.IH" [OF s1(2) this] "2.prems"(3) s1 False len l show ?thesis by simp
  qed
next
  case (3 ops)
  show ?case
  proof (cases "contents s")
    case Nil
    then have "q = []" "none s" using "3.prems"(2) none_iff [OF "3.prems"(1)] by simp_all
    with "3.IH" [OF "3.prems"(1,2)] "3.prems"(3) show ?thesis by simp
  next
    case (Cons w ws)
    then obtain v vs where q: "q = v # vs" "stored v w" "list_all2 stored vs ws"
      using "3.prems"(2) by (cases q) auto
    from get_law [OF "3.prems"(1) Cons] obtain s1 where s1: "get s = Some (w, s1)" "inv s1" "contents s1 = ws"
      "capacity s1 = capacity s" "fits s1 = fits s" by blast
    have "list_all2 stored vs (contents s1)" using q(3) s1(3) by simp
    from "3.IH" [OF s1(2) this] "3.prems"(3) s1(4,5) obtain us s2 where
      "fifo_run full none put get ops s1 = Some (us, s2)" "inv s2" "capacity s2 = capacity s"
      "list_all2 stored (fst (queue_run (capacity s) ops vs)) us"
      "list_all2 stored (snd (queue_run (capacity s) ops vs)) (contents s2)" by auto
    with q(1,2) s1(1) Cons none_iff [OF "3.prems"(1)] show ?thesis by (simp add: split_beta)
  qed
qed

end

end
