(* ===== verification/Mailbox.thy ===== *)
theory Mailbox
  imports Event Fifo
begin

text \<open>
  Mailboxes (\<^verbatim>\<open>src/ipc.c\<close>): a ring of 32-bit mails with a wait queue for receivers and one for senders. The
  pool is a list of words; an access past its end has no result. The ring implements a bounded
  queue (an interpretation of \<open>bounded_fifo\<close>), and sending and receiving are related to that queue
  together with the two wait queues.
\<close>

section \<open>Operations\<close>

definition upd_mb :: "nat \<Rightarrow> rt_mailbox \<Rightarrow> kernel \<Rightarrow> kernel" where
  "upd_mb a m k = k\<lparr>mbs := (mbs k)(a := m)\<rparr>"

text \<open>The pool is the memory behind the pointer handed over, or what \<^verbatim>\<open>RT_KERNEL_MALLOC\<close> returned.\<close>

definition rt_mb_init :: "nat \<Rightarrow> string \<Rightarrow> u32 list \<Rightarrow> u32 \<Rightarrow> u8 \<Rightarrow> kernel \<Rightarrow> (rt_err_t \<times> kernel) option" where
  "rt_mb_init a name pool sz flag k = do {
     k1 \<leftarrow> rt_object_init (Obj a) RT_Object_Class_MailBox name k;
     let k2 = rt_ipc_object_init a (set_flag a flag k1);
     let k3 = upd_mb a \<lparr>msg_pool = pool, mb_size = ucast sz, mb_entry = 0, in_offset = 0, out_offset = 0\<rparr> k2;
     Some (RT_EOK, sender_list_init a k3) }"

definition rt_mb_detach :: "nat \<Rightarrow> nat \<Rightarrow> kernel \<Rightarrow> (rt_err_t \<times> kernel) option" where
  "rt_mb_detach c a k = do {
     rt_assert (has_class RT_Object_Class_MailBox a k);
     rt_assert (rt_object_is_systemobject (Obj a) k);
     k1 \<leftarrow> rt_ipc_list_resume_all c (Suspend a) k;
     k2 \<leftarrow> rt_ipc_list_resume_all c (SuspendSender a) k1;
     Some (RT_EOK, rt_object_detach (Obj a) k2) }"

definition rt_mb_create ::
    "nat \<Rightarrow> string \<Rightarrow> u32 \<Rightarrow> u8 \<Rightarrow> nat option \<Rightarrow> u32 list option \<Rightarrow> kernel \<Rightarrow> (nat option \<times> kernel) option" where
  "rt_mb_create c name sz flag malloc pool k = do {
     rt_assert (not_in_interrupt c k);
     (mb, k1) \<leftarrow> rt_object_allocate c RT_Object_Class_MailBox name malloc k;
     (case mb of
        None \<Rightarrow> Some (None, k1)
      | Some a \<Rightarrow> do {
          let k2 = rt_ipc_object_init a (set_flag a flag k1);
          (case pool of
             None \<Rightarrow> do {
               k3 \<leftarrow> rt_object_delete (Obj a) k2;
               Some (None, k3) }
           | Some p \<Rightarrow> Some (Some a, sender_list_init a
               (upd_mb a \<lparr>msg_pool = p, mb_size = ucast sz, mb_entry = 0, in_offset = 0, out_offset = 0\<rparr> k2))) }) }"

definition rt_mb_delete :: "nat \<Rightarrow> nat \<Rightarrow> kernel \<Rightarrow> (rt_err_t \<times> kernel) option" where
  "rt_mb_delete c a k = do {
     rt_assert (not_in_interrupt c k);
     rt_assert (has_class RT_Object_Class_MailBox a k);
     rt_assert (\<not> rt_object_is_systemobject (Obj a) k);
     k1 \<leftarrow> rt_ipc_list_resume_all c (Suspend a) k;
     k2 \<leftarrow> rt_ipc_list_resume_all c (SuspendSender a) k1;
     k3 \<leftarrow> rt_object_delete (Obj a) (upd_mb a ((mbs k2 a)\<lparr>msg_pool := []\<rparr>) k2);
     Some (RT_EOK, k3) }"

text \<open>Storing and fetching a mail: the lines after the waiting loop, up to waking the other side.\<close>

definition mb_full :: "rt_mailbox \<Rightarrow> bool" where
  "mb_full m \<longleftrightarrow> mb_entry m = mb_size m"

definition mb_empty :: "rt_mailbox \<Rightarrow> bool" where
  "mb_empty m \<longleftrightarrow> mb_entry m = 0"

definition next_offset :: "u16 \<Rightarrow> u16 \<Rightarrow> u16" where
  "next_offset sz i = (if i + 1 \<ge> sz then 0 else i + 1)"

definition mb_store :: "u32 \<Rightarrow> rt_mailbox \<Rightarrow> rt_mailbox option" where
  "mb_store v m =
     (if unat (in_offset m) < length (msg_pool m)
      then Some (m\<lparr>msg_pool := (msg_pool m)[unat (in_offset m) := v],
                   in_offset := next_offset (mb_size m) (in_offset m), mb_entry := mb_entry m + 1\<rparr>)
      else None)"

definition mb_fetch :: "rt_mailbox \<Rightarrow> (u32 \<times> rt_mailbox) option" where
  "mb_fetch m =
     (if unat (out_offset m) < length (msg_pool m)
      then Some (msg_pool m ! unat (out_offset m),
                 m\<lparr>out_offset := next_offset (mb_size m) (out_offset m), mb_entry := mb_entry m - 1\<rparr>)
      else None)"

text \<open>Waking the first thread of the other side's queue, if any, and switching.\<close>

definition wake_first :: "nat \<Rightarrow> lid \<Rightarrow> kernel \<Rightarrow> kernel option" where
  "wake_first c l k =
     (if \<not> tlist_isempty l k then do {
        k1 \<leftarrow> rt_ipc_list_resume c l k;
        rt_schedule c k1 }
      else Some k)"

text \<open>What a blocked call keeps across the switch: the thread, its time left and when it began.\<close>

type_synonym waiting = "nat \<times> u32 \<times> u32"

definition mb_send_loop ::
    "nat \<Rightarrow> nat \<Rightarrow> nat option \<Rightarrow> u32 \<Rightarrow> u32 \<Rightarrow> kernel \<Rightarrow> (waiting outcome \<times> kernel) option" where
  "mb_send_loop c a th v timeout k =
     (if mb_full (mbs k a) then do {
        t \<leftarrow> th;
        let k1 = set_error t RT_EOK k;
        if timeout = 0 then Some (Ret (- RT_EFULL), k1)
        else do {
          rt_assert (in_thread_context c k1);
          k2 \<leftarrow> wait_on c (SuspendSender a) t (o_flag (obj k1 (Obj a))) timeout k1;
          Some (Wait (t, timeout, rt_tick_get k1), k2) } }
      else do {
        m \<leftarrow> mb_store v (mbs k a);
        k1 \<leftarrow> wake_first c (Suspend a) (upd_mb a m k);
        Some (Ret RT_EOK, k1) })"

definition rt_mb_send_wait ::
    "nat \<Rightarrow> nat \<Rightarrow> u32 \<Rightarrow> u32 \<Rightarrow> kernel \<Rightarrow> (waiting outcome \<times> kernel) option" where
  "rt_mb_send_wait c a v timeout k = do {
     rt_assert (has_class RT_Object_Class_MailBox a k);
     if mb_full (mbs k a) \<and> timeout = 0 then Some (Ret (- RT_EFULL), k)
     else mb_send_loop c a (rt_thread_self c k) v timeout k }"

definition rt_mb_send_resume ::
    "nat \<Rightarrow> nat \<Rightarrow> u32 \<Rightarrow> waiting \<Rightarrow> kernel \<Rightarrow> (waiting outcome \<times> kernel) option" where
  "rt_mb_send_resume c a v w k = (case w of (t, timeout, start) \<Rightarrow>
     if error (thr k t) \<noteq> RT_EOK then Some (Ret (error (thr k t)), k)
     else mb_send_loop c a (Some t) v (remaining_timeout timeout start (rt_tick_get k)) k)"

definition rt_mb_send :: "nat \<Rightarrow> nat \<Rightarrow> u32 \<Rightarrow> kernel \<Rightarrow> (waiting outcome \<times> kernel) option" where
  "rt_mb_send c a v k = rt_mb_send_wait c a v 0 k"

text \<open>The second component of a receiver's result is what is written through \<^verbatim>\<open>value\<close>.\<close>

definition mb_recv_loop ::
    "nat \<Rightarrow> nat \<Rightarrow> nat option \<Rightarrow> u32 \<Rightarrow> kernel \<Rightarrow> (waiting outcome \<times> u32 option \<times> kernel) option" where
  "mb_recv_loop c a th timeout k =
     (if mb_empty (mbs k a) then do {
        t \<leftarrow> th;
        let k1 = set_error t RT_EOK k;
        if timeout = 0 then Some (Ret (- RT_ETIMEOUT), None, set_error t (- RT_ETIMEOUT) k1)
        else do {
          rt_assert (in_thread_context c k1);
          k2 \<leftarrow> wait_on c (Suspend a) t (o_flag (obj k1 (Obj a))) timeout k1;
          Some (Wait (t, timeout, rt_tick_get k1), None, k2) } }
      else do {
        (v, m) \<leftarrow> mb_fetch (mbs k a);
        k1 \<leftarrow> wake_first c (SuspendSender a) (upd_mb a m k);
        Some (Ret RT_EOK, Some v, k1) })"

definition rt_mb_recv ::
    "nat \<Rightarrow> nat \<Rightarrow> u32 \<Rightarrow> kernel \<Rightarrow> (waiting outcome \<times> u32 option \<times> kernel) option" where
  "rt_mb_recv c a timeout k = do {
     rt_assert (has_class RT_Object_Class_MailBox a k);
     if mb_empty (mbs k a) \<and> timeout = 0 then Some (Ret (- RT_ETIMEOUT), None, k)
     else mb_recv_loop c a (rt_thread_self c k) timeout k }"

definition rt_mb_recv_resume ::
    "nat \<Rightarrow> nat \<Rightarrow> waiting \<Rightarrow> kernel \<Rightarrow> (waiting outcome \<times> u32 option \<times> kernel) option" where
  "rt_mb_recv_resume c a w k = (case w of (t, timeout, start) \<Rightarrow>
     if error (thr k t) \<noteq> RT_EOK then Some (Ret (error (thr k t)), None, k)
     else mb_recv_loop c a (Some t) (remaining_timeout timeout start (rt_tick_get k)) k)"

definition rt_mb_control :: "nat \<Rightarrow> nat \<Rightarrow> int \<Rightarrow> kernel \<Rightarrow> (rt_err_t \<times> kernel) option" where
  "rt_mb_control c a cmd k = do {
     rt_assert (has_class RT_Object_Class_MailBox a k);
     if cmd = RT_IPC_CMD_RESET then do {
       k1 \<leftarrow> rt_ipc_list_resume_all c (Suspend a) k;
       k2 \<leftarrow> rt_ipc_list_resume_all c (SuspendSender a) k1;
       k3 \<leftarrow> rt_schedule c (upd_mb a ((mbs k2 a)\<lparr>mb_entry := 0, in_offset := 0, out_offset := 0\<rparr>) k2);
       Some (RT_EOK, k3) }
     else Some (- RT_ERROR, k) }"

section \<open>The ring is a queue\<close>

definition mb_contents :: "rt_mailbox \<Rightarrow> u32 list" where
  "mb_contents m = map (\<lambda>i. msg_pool m ! ((unat (out_offset m) + i) mod unat (mb_size m))) [0..<unat (mb_entry m)]"

definition mb_ok :: "rt_mailbox \<Rightarrow> bool" where
  "mb_ok m \<longleftrightarrow> mb_size m \<noteq> 0 \<and> unat (mb_size m) \<le> length (msg_pool m) \<and> mb_entry m \<le> mb_size m \<and>
     out_offset m < mb_size m \<and>
     unat (in_offset m) = (unat (out_offset m) + unat (mb_entry m)) mod unat (mb_size m)"

lemma next_offset:
  assumes "i < sz"
  shows "unat (next_offset sz i) = (unat i + 1) mod unat sz" "next_offset sz i < sz"
proof -
  have b: "unat i < unat sz" "unat sz < 65536" using assms unsigned_less [of sz, where 'a = nat] by (simp_all add: word_less_nat_alt)
  then have s: "unat (i + 1) = unat i + 1" by (simp add: unat_word_ariths)
  show "unat (next_offset sz i) = (unat i + 1) mod unat sz"
  proof (cases "i + 1 \<ge> sz")
    case True
    with s b(1) have "unat i + 1 = unat sz" by (simp add: word_le_nat_alt)
    with True show ?thesis by (simp add: next_offset_def)
  next
    case False
    with s have "unat i + 1 < unat sz" by (simp add: word_le_nat_alt)
    with False s show ?thesis by (simp add: next_offset_def)
  qed
  show "next_offset sz i < sz"
    using assms by (auto simp: next_offset_def not_le intro: le_less_trans [of 0 i])
qed

lemma mb_length [simp]: "length (mb_contents m) = unat (mb_entry m)"
  by (simp add: mb_contents_def)

lemma mb_okD:
  assumes "mb_ok m"
  shows "unat (out_offset m) < length (msg_pool m)" "unat (in_offset m) < length (msg_pool m)"
    "in_offset m < mb_size m" "out_offset m < mb_size m" "0 < unat (mb_size m)"
    "unat (mb_entry m) \<le> unat (mb_size m)" "unat (mb_size m) \<le> length (msg_pool m)"
proof -
  show z: "0 < unat (mb_size m)" using assms by (simp add: mb_ok_def word_neq_0_conv unat_gt_0)
  have i: "unat (in_offset m) < unat (mb_size m)" using assms z by (simp add: mb_ok_def)
  then show "in_offset m < mb_size m" by (simp add: word_less_nat_alt)
  from i show "unat (in_offset m) < length (msg_pool m)"
    using assms by (elim less_le_trans) (simp add: mb_ok_def)
  show "unat (out_offset m) < length (msg_pool m)" "out_offset m < mb_size m"
    "unat (mb_entry m) \<le> unat (mb_size m)" "unat (mb_size m) \<le> length (msg_pool m)"
    using assms by (simp_all add: mb_ok_def word_less_nat_alt word_le_nat_alt)
qed

lemma mb_store_ok:
  assumes "mb_ok m" "\<not> mb_full m"
  shows "\<exists>m'. mb_store v m = Some m' \<and> mb_ok m' \<and> mb_contents m' = mb_contents m @ [v] \<and> mb_size m' = mb_size m"
proof -
  note d = mb_okD [OF assms(1)]
  let ?n = "unat (mb_size m)" let ?o = "unat (out_offset m)" let ?e = "unat (mb_entry m)"
  have e: "?e < ?n" using d(6) assms(2) by (simp add: mb_full_def word_unat_eq_iff le_neq_implies_less)
  have n: "?n < 65536" using unsigned_less [of "mb_size m", where 'a = nat] by simp
  have suc: "unat (mb_entry m + 1) = ?e + 1" using e n by (simp add: unat_word_ariths)
  have i: "unat (in_offset m) = (?o + ?e) mod ?n" using assms(1) by (simp add: mb_ok_def)
  let ?m = "m\<lparr>msg_pool := (msg_pool m)[unat (in_offset m) := v],
              in_offset := next_offset (mb_size m) (in_offset m), mb_entry := mb_entry m + 1\<rparr>"
  have keep: "(msg_pool m)[unat (in_offset m) := v] ! ((?o + j) mod ?n) = msg_pool m ! ((?o + j) mod ?n)"
    if "j < ?e" for j
    using ring_distinct [OF that e, of ?o] by (intro nth_list_update_neq) (simp add: i)
  have "mb_contents ?m = mb_contents m @ [v]"
    using d(2) by (auto simp: mb_contents_def suc keep i [symmetric])
  moreover have "mb_ok ?m"
    using assms(1) suc e next_offset(1) [OF d(3)] i
    by (simp add: mb_ok_def word_le_nat_alt mod_simps)
  ultimately show ?thesis using d(2) by (simp add: mb_store_def)
qed

lemma mb_fetch_ok:
  assumes "mb_ok m" "mb_contents m = v # vs"
  shows "\<exists>m'. mb_fetch m = Some (v, m') \<and> mb_ok m' \<and> mb_contents m' = vs \<and> mb_size m' = mb_size m"
proof -
  note d = mb_okD [OF assms(1)]
  let ?n = "unat (mb_size m)" let ?o = "unat (out_offset m)"
  obtain e where e: "unat (mb_entry m) = Suc e" using mb_length [of m] assms(2) by (metis length_Cons)
  then have nz: "mb_entry m \<noteq> 0" by auto
  have pred: "unat (mb_entry m - 1) = e" using unat_pred [OF nz] e by simp
  have o: "?o mod ?n = ?o" using d(4) by (simp add: word_less_nat_alt)
  let ?m = "m\<lparr>out_offset := next_offset (mb_size m) (out_offset m), mb_entry := mb_entry m - 1\<rparr>"
  have "mb_contents m = msg_pool m ! ?o # map (\<lambda>i. msg_pool m ! ((?o + Suc i) mod ?n)) [0..<e]"
    by (simp add: mb_contents_def e o upt_rec [of 0] map_Suc_upt [symmetric] del: upt_Suc)
  moreover have "mb_contents ?m = map (\<lambda>i. msg_pool m ! ((?o + Suc i) mod ?n)) [0..<e]"
    using next_offset(1) [OF d(4)] by (simp add: mb_contents_def pred mod_simps)
  moreover have "mb_ok ?m"
    using assms(1) next_offset [OF d(4)] pred e d(6) by (simp add: mb_ok_def word_le_nat_alt mod_simps)
  ultimately show ?thesis using d(1) assms(2) by (simp add: mb_fetch_def)
qed

interpretation mb_ring: bounded_fifo mb_ok mb_contents "\<lambda>m. unat (mb_size m)" "\<lambda>_ _. True" "(=)" mb_full mb_empty mb_store mb_fetch
proof
  fix m :: rt_mailbox and v w :: u32 and ws
  assume ok: "mb_ok m"
  show "length (mb_contents m) \<le> unat (mb_size m)" using mb_okD(6) [OF ok] by simp
  show "mb_full m \<longleftrightarrow> length (mb_contents m) = unat (mb_size m)" by (simp add: mb_full_def word_unat_eq_iff)
  show "mb_empty m \<longleftrightarrow> mb_contents m = []" by (simp add: mb_empty_def mb_contents_def unat_eq_0)
  show "\<exists>m' w. mb_store v m = Some m' \<and> mb_ok m' \<and> mb_contents m' = mb_contents m @ [w] \<and> v = w \<and>
      unat (mb_size m') = unat (mb_size m) \<and> (\<lambda>_. True) = (\<lambda>_. True)"
    if "length (mb_contents m) < unat (mb_size m)"
    using mb_store_ok [OF ok, of v] that by (auto simp: mb_full_def word_unat_eq_iff)
  show "\<exists>m'. mb_fetch m = Some (w, m') \<and> mb_ok m' \<and> mb_contents m' = ws \<and>
      unat (mb_size m') = unat (mb_size m) \<and> (\<lambda>_. True) = (\<lambda>_. True)" if "mb_contents m = w # ws"
    using mb_fetch_ok [OF ok that] by auto
qed

section \<open>Mails and waiting threads\<close>

text \<open>The mails, the receivers and the senders that wait.\<close>

definition mb_abs :: "nat \<Rightarrow> kernel \<Rightarrow> u32 list \<times> nat list \<times> nat list" where
  "mb_abs a k = (mb_contents (mbs k a), tlists k (Suspend a), tlists k (SuspendSender a))"

lemma upd_mb_simps [simp]:
  "mbs (upd_mb a m k) a = m" "tlists (upd_mb a m k) = tlists k" "thr (upd_mb a m k) = thr k"
  "cpus (upd_mb a m k) = cpus k" "obj (upd_mb a m k) = obj k" "sched_inv (upd_mb a m k) = sched_inv k"
  "cpu_live c (upd_mb a m k) = cpu_live c k" "waiters_live l (upd_mb a m k) = waiters_live l k"
proof -
  show "sched_inv (upd_mb a m k) = sched_inv k"
    by (rule sched_inv_ex_cong) (simp_all add: upd_mb_def is_thread_def rt_object_get_type_def)
qed (simp_all add: upd_mb_def cpu_live_def waiters_live_def is_thread_def is_timer_def rt_object_get_type_def)

lemma may_block_live: "may_block c t k \<Longrightarrow> cpu_live c k"
  by (auto simp: may_block_def cpu_live_def)

lemma wake_first_spec:
  assumes "sched_inv k" "cpu_live c k" "is_wq l" "waiters_live l k"
  obtains k' where "wake_first c l k = Some k'" "sched_inv k'" "ipc_part k' = ipc_part k"
    "tlists k' l = tl (tlists k l)" "\<And>m. is_wq m \<Longrightarrow> m \<noteq> l \<Longrightarrow> tlists k' m = tlists k m"
proof (cases "tlists k l")
  case Nil
  with that [of k] assms(1) show ?thesis by (simp add: wake_first_def tlist_isempty_def)
next
  case (Cons t ts)
  obtain k1 k2 where "rt_ipc_list_resume c l k = Some k1" "rt_schedule c k1 = Some k2" "sched_inv k2"
    "ipc_part k2 = ipc_part k" "tlists k2 l = ts" "\<And>m. is_wq m \<Longrightarrow> m \<noteq> l \<Longrightarrow> tlists k2 m = tlists k m"
    by (rule wake_schedule [OF assms(1,2) Cons assms(3,4)]) blast
  with that [of k2] Cons show ?thesis by (simp add: wake_first_def tlist_isempty_def)
qed

text \<open>Blocking on one of the two queues leaves the mails and the other queue alone.\<close>

lemma block_spec:
  assumes "sched_inv k" "may_block c t k" "timeout \<noteq> 0x7fffffff" "is_wq l"
    and "flag = RT_IPC_FLAG_FIFO \<or> flag = RT_IPC_FLAG_PRIO"
  obtains k' where "wait_on c l t flag timeout (set_error t RT_EOK k) = Some k'" "sched_inv k'" "ipc_part k' = ipc_part k"
    "tlists k' l = enqueue flag (\<lambda>s. current_priority (thr k s)) t (tlists k l)"
    "\<And>m. is_wq m \<Longrightarrow> m \<noteq> l \<Longrightarrow> tlists k' m = tlists k m"
proof -
  let ?k = "set_error t RT_EOK k"
  have i: "sched_inv ?k" "may_block c t ?k" using assms(1,2) by (simp_all add: may_block_set_error)
  obtain k' where "wait_on c l t flag timeout ?k = Some k'" "sched_inv k'" "ipc_part k' = ipc_part ?k"
    "tlists k' l = enqueue flag (\<lambda>s. current_priority (thr ?k s)) t (tlists ?k l)"
    "\<And>m. is_wq m \<Longrightarrow> m \<noteq> l \<Longrightarrow> tlists k' m = tlists ?k m"
    by (rule wait_on_total [OF i assms(3-5)]) blast
  then show ?thesis using that by simp
qed

lemma rt_tick_get_set_error [simp]: "rt_tick_get (set_error t e k) = rt_tick_get k"
  by (simp add: rt_tick_get_def)

lemma in_context_set_error [simp]: "in_thread_context c (set_error t e k) = in_thread_context c k"
  by (simp add: in_thread_context_def rt_thread_self_def not_in_interrupt_def)

definition flag_ok :: "nat \<Rightarrow> kernel \<Rightarrow> bool" where
  "flag_ok a k \<longleftrightarrow> o_flag (obj k (Obj a)) = RT_IPC_FLAG_FIFO \<or> o_flag (obj k (Obj a)) = RT_IPC_FLAG_PRIO"

lemma mb_send_loop_full:
  assumes "sched_inv k" "may_block c t k" "timeout \<noteq> 0x7fffffff" "timeout \<noteq> 0" "flag_ok a k" "mb_full (mbs k a)"
  obtains k' where "mb_send_loop c a (Some t) v timeout k = Some (Wait (t, timeout, rt_tick_get k), k')" "sched_inv k'"
    "mbs k' = mbs k" "mb_abs a k' = (mb_contents (mbs k a), tlists k (Suspend a),
       enqueue (o_flag (obj k (Obj a))) (\<lambda>s. current_priority (thr k s)) t (tlists k (SuspendSender a)))"
proof -
  obtain k' where k': "wait_on c (SuspendSender a) t (o_flag (obj k (Obj a))) timeout (set_error t RT_EOK k) = Some k'"
    "sched_inv k'" "ipc_part k' = ipc_part k"
    "tlists k' (SuspendSender a) = enqueue (o_flag (obj k (Obj a))) (\<lambda>s. current_priority (thr k s)) t (tlists k (SuspendSender a))"
    "\<And>m. is_wq m \<Longrightarrow> m \<noteq> SuspendSender a \<Longrightarrow> tlists k' m = tlists k m"
    by (rule block_spec [OF assms(1-3) wq_lists(2) assms(5) [unfolded flag_ok_def]]) blast
  have "mbs k' = mbs k" by (rule ipc_partD(4) [OF k'(3)])
  then show ?thesis
    using that [of k'] k'(1,2,4) k'(5) [OF wq_lists(1)] may_blockD(9) [OF assms(2)] assms(4,6)
    by (simp add: mb_send_loop_def mb_abs_def)
qed

lemma mb_send_loop_room:
  assumes "sched_inv k" "cpu_live c k" "mb_ok (mbs k a)" "waiters_live (Suspend a) k" "\<not> mb_full (mbs k a)"
  obtains k' where "mb_send_loop c a th v timeout k = Some (Ret RT_EOK, k')" "sched_inv k'" "mb_ok (mbs k' a)"
    "mb_abs a k' = (mb_contents (mbs k a) @ [v], tl (tlists k (Suspend a)), tlists k (SuspendSender a))"
    "mb_size (mbs k' a) = mb_size (mbs k a)"
proof -
  obtain m where m: "mb_store v (mbs k a) = Some m" "mb_ok m" "mb_contents m = mb_contents (mbs k a) @ [v]"
    "mb_size m = mb_size (mbs k a)"
    using mb_store_ok [OF assms(3,5)] by blast
  let ?k = "upd_mb a m k"
  have i: "sched_inv ?k" "cpu_live c ?k" "waiters_live (Suspend a) ?k" using assms(1,2,4) by simp_all
  obtain k' where k': "wake_first c (Suspend a) ?k = Some k'" "sched_inv k'" "ipc_part k' = ipc_part ?k"
    "tlists k' (Suspend a) = tl (tlists ?k (Suspend a))"
    "\<And>l. is_wq l \<Longrightarrow> l \<noteq> Suspend a \<Longrightarrow> tlists k' l = tlists ?k l"
    by (rule wake_first_spec [OF i(1,2) wq_lists(1) i(3)]) blast
  have "mbs k' a = m" using ipc_partD(4) [OF k'(3)] by simp
  then show ?thesis
    using that [of k'] k'(1,2,4) k'(5) [OF wq_lists(2)] m assms(5) by (simp add: mb_send_loop_def mb_abs_def)
qed

lemma mb_recv_loop_empty:
  assumes "sched_inv k" "may_block c t k" "timeout \<noteq> 0x7fffffff" "timeout \<noteq> 0" "flag_ok a k" "mb_empty (mbs k a)"
  obtains k' where "mb_recv_loop c a (Some t) timeout k = Some (Wait (t, timeout, rt_tick_get k), None, k')" "sched_inv k'"
    "mbs k' = mbs k" "mb_abs a k' = (mb_contents (mbs k a),
       enqueue (o_flag (obj k (Obj a))) (\<lambda>s. current_priority (thr k s)) t (tlists k (Suspend a)),
       tlists k (SuspendSender a))"
proof -
  obtain k' where k': "wait_on c (Suspend a) t (o_flag (obj k (Obj a))) timeout (set_error t RT_EOK k) = Some k'"
    "sched_inv k'" "ipc_part k' = ipc_part k"
    "tlists k' (Suspend a) = enqueue (o_flag (obj k (Obj a))) (\<lambda>s. current_priority (thr k s)) t (tlists k (Suspend a))"
    "\<And>m. is_wq m \<Longrightarrow> m \<noteq> Suspend a \<Longrightarrow> tlists k' m = tlists k m"
    by (rule block_spec [OF assms(1-3) wq_lists(1) assms(5) [unfolded flag_ok_def]]) blast
  have "mbs k' = mbs k" by (rule ipc_partD(4) [OF k'(3)])
  then show ?thesis
    using that [of k'] k'(1,2,4) k'(5) [OF wq_lists(2)] may_blockD(9) [OF assms(2)] assms(4,6)
    by (simp add: mb_recv_loop_def mb_abs_def)
qed

lemma mb_recv_loop_mail:
  assumes "sched_inv k" "cpu_live c k" "mb_ok (mbs k a)" "waiters_live (SuspendSender a) k" "mb_contents (mbs k a) = v # vs"
  obtains k' where "mb_recv_loop c a th timeout k = Some (Ret RT_EOK, Some v, k')" "sched_inv k'" "mb_ok (mbs k' a)"
    "mb_abs a k' = (vs, tlists k (Suspend a), tl (tlists k (SuspendSender a)))"
    "mb_size (mbs k' a) = mb_size (mbs k a)"
proof -
  obtain m where m: "mb_fetch (mbs k a) = Some (v, m)" "mb_ok m" "mb_contents m = vs" "mb_size m = mb_size (mbs k a)"
    using mb_fetch_ok [OF assms(3,5)] by blast
  let ?k = "upd_mb a m k"
  have i: "sched_inv ?k" "cpu_live c ?k" "waiters_live (SuspendSender a) ?k" using assms(1,2,4) by simp_all
  obtain k' where k': "wake_first c (SuspendSender a) ?k = Some k'" "sched_inv k'" "ipc_part k' = ipc_part ?k"
    "tlists k' (SuspendSender a) = tl (tlists ?k (SuspendSender a))"
    "\<And>l. is_wq l \<Longrightarrow> l \<noteq> SuspendSender a \<Longrightarrow> tlists k' l = tlists ?k l"
    by (rule wake_first_spec [OF i(1,2) wq_lists(2) i(3)]) blast
  have "mbs k' a = m" using ipc_partD(4) [OF k'(3)] by simp
  moreover have "\<not> mb_empty (mbs k a)" using mb_ring.none_iff [OF assms(3)] assms(5) by simp
  ultimately show ?thesis
    using that [of k'] k'(1,2,4) k'(5) [OF wq_lists(1)] m by (simp add: mb_recv_loop_def mb_abs_def)
qed

section \<open>States for the examples\<close>

text \<open>A mailbox of two mails at address 7 with the mails \<open>q\<close>; on its own, and with thread 2 waiting.\<close>

definition demo_ring :: "u32 list \<Rightarrow> rt_mailbox" where
  "demo_ring q = \<lparr>msg_pool = q @ [0, 0], mb_size = 2, mb_entry = of_nat (length q),
     in_offset = of_nat (length q) mod 2, out_offset = 0\<rparr>"

definition demo_mailbox :: "u32 list \<Rightarrow> kernel" where
  "demo_mailbox q = upd_mb 7 (demo_ring q) (demo_object RT_Object_Class_MailBox)"

definition demo_mailbox_wait :: "lid \<Rightarrow> u32 list \<Rightarrow> kernel" where
  "demo_mailbox_wait l q = upd_mb 7 (demo_ring q) (demo_wait RT_Object_Class_MailBox l)"

lemma demo_mailbox_facts:
  "sched_inv (demo_mailbox q)" "cpu_live 0 (demo_mailbox q)" "has_class RT_Object_Class_MailBox 7 (demo_mailbox q)"
  "mbs (demo_mailbox q) 7 = demo_ring q" "waiters_live l (demo_mailbox q)" "may_block 0 1 (demo_mailbox q)"
  "flag_ok 7 (demo_mailbox q)" "o_flag (obj (demo_mailbox q) (Obj 7)) = 0" "tlists (demo_mailbox q) (Suspend a) = []"
  "tlists (demo_mailbox q) (SuspendSender a) = []"
proof -
  show "sched_inv (demo_mailbox q)" "cpu_live 0 (demo_mailbox q)"
    by (simp_all add: demo_mailbox_def demo_object_inv demo_may_block)
  show "may_block 0 1 (demo_mailbox q)"
    using demo_may_block(1) [of RT_Object_Class_MailBox]
    by (simp add: demo_mailbox_def may_block_def upd_mb_def is_thread_def is_timer_def rt_object_get_type_def)
  show "waiters_live l (demo_mailbox q)"
    by (simp add: demo_mailbox_def waiters_live_def demo_object_def is_thread_def is_timer_def rt_object_get_type_def
        demo_defs)
qed (simp_all add: demo_mailbox_def has_class_def rt_object_get_type_def demo_object_def flag_ok_def demo_defs)

lemma demo_mailbox_wait_facts:
  "is_wq l \<Longrightarrow> sched_inv (demo_mailbox_wait l q)" "cpu_live 0 (demo_mailbox_wait l q)"
  "has_class RT_Object_Class_MailBox 7 (demo_mailbox_wait l q)" "mbs (demo_mailbox_wait l q) 7 = demo_ring q"
  "waiters_live m (demo_mailbox_wait l q)" "tlists (demo_mailbox_wait l q) = (\<lambda>_. [])(l := [2])"
proof -
  show "sched_inv (demo_mailbox_wait l q)" if "is_wq l" using that by (simp add: demo_mailbox_wait_def demo_wait_inv)
  show "cpu_live 0 (demo_mailbox_wait l q)" "waiters_live m (demo_mailbox_wait l q)"
    by (simp_all only: demo_mailbox_wait_def upd_mb_simps demo_wait_live)
qed (simp_all add: demo_mailbox_wait_def has_class_def rt_object_get_type_def demo_wait_def demo_object_def demo_defs)

lemma demo_ring_ok:
  "mb_ok (demo_ring [])" "mb_ok (demo_ring [v])" "mb_ok (demo_ring [v, w])" "mb_size (demo_ring q) = 2"
  "mb_contents (demo_ring []) = []" "mb_contents (demo_ring [v]) = [v]" "mb_contents (demo_ring [v, w]) = [v, w]"
  by (simp_all add: demo_ring_def mb_ok_def mb_contents_def upt_rec [of _ 2] upt_rec [of 0 1])

section \<open>Properties\<close>

text \<open>C7. Sending implements the bounded queue and cannot fail: with room, the mail is stored last, the
  longest waiting or most urgent receiver is woken, and the call returns, from an interrupt too;
  with a full mailbox it returns \<^verbatim>\<open>-RT_EFULL\<close> at once when it may not wait, and otherwise joins the
  senders' queue. The mailbox and scheduler invariants are kept.\<close>

theorem mb_send_refines:
  assumes "sched_inv k" "cpu_live c k" "has_class RT_Object_Class_MailBox a k" "mb_ok (mbs k a)" "waiters_live (Suspend a) k"
    and "timeout = 0 \<or> may_block c t k \<and> timeout \<noteq> 0x7fffffff \<and> flag_ok a k"
  shows "\<exists>r k'. rt_mb_send_wait c a v timeout k = Some (r, k') \<and> sched_inv k' \<and> mb_ok (mbs k' a) \<and>
    (if length (mb_contents (mbs k a)) < unat (mb_size (mbs k a))
     then r = Ret RT_EOK \<and>
       mb_abs a k' = (mb_contents (mbs k a) @ [v], tl (tlists k (Suspend a)), tlists k (SuspendSender a))
     else if timeout = 0 then r = Ret (- RT_EFULL) \<and> k' = k
     else r = Wait (t, timeout, rt_tick_get k) \<and>
       mb_abs a k' = (mb_contents (mbs k a), tlists k (Suspend a),
         enqueue (o_flag (obj k (Obj a))) (\<lambda>s. current_priority (thr k s)) t (tlists k (SuspendSender a))))"
proof (cases "mb_full (mbs k a)")
  case False
  then have "length (mb_contents (mbs k a)) < unat (mb_size (mbs k a))"
    using mb_ring.full_iff [OF assms(4)] mb_ring.bounded [OF assms(4)] by simp
  then show ?thesis
    using mb_send_loop_room [OF assms(1,2,4,5) False, of "rt_thread_self c k" v timeout] False assms(3)
    by (fastforce simp: rt_mb_send_wait_def)
next
  case True
  then have l: "length (mb_contents (mbs k a)) = unat (mb_size (mbs k a))"
    using mb_ring.full_iff [OF assms(4)] by simp
  show ?thesis
  proof (cases "timeout = 0")
    case t0: True
    with True assms(1,3,4) l show ?thesis by (simp add: rt_mb_send_wait_def)
  next
    case False
    then have b: "may_block c t k" "timeout \<noteq> 0x7fffffff" "flag_ok a k" using assms(6) by simp_all
    obtain k' where k': "mb_send_loop c a (Some t) v timeout k = Some (Wait (t, timeout, rt_tick_get k), k')" "sched_inv k'"
      "mbs k' = mbs k" "mb_abs a k' = (mb_contents (mbs k a), tlists k (Suspend a),
         enqueue (o_flag (obj k (Obj a))) (\<lambda>s. current_priority (thr k s)) t (tlists k (SuspendSender a)))"
      by (rule mb_send_loop_full [OF assms(1) b(1,2) False b(3) True]) blast
    with False True assms(3,4) l may_blockD(7) [OF b(1)] show ?thesis by (simp add: rt_mb_send_wait_def)
  qed
qed

theorem mb_send_refines_witness:
  "\<exists>k'. rt_mb_send_wait 0 7 9 0 (demo_mailbox_wait (Suspend 7) [5]) = Some (Ret RT_EOK, k') \<and> mb_abs 7 k' = ([5, 9], [], [])"
  using mb_send_refines [OF demo_mailbox_wait_facts(1-3) _ demo_mailbox_wait_facts(5), of "Suspend 7" "[5]" 0 1 9]
  by (auto simp: demo_mailbox_wait_facts(4,6) demo_ring_ok)

text \<open>Receiving implements the bounded queue and cannot fail: with mail, the oldest one is delivered and the
  first waiting sender is woken; with an empty mailbox it returns \<^verbatim>\<open>-RT_ETIMEOUT\<close> at once when it may not
  wait, and otherwise joins the receivers' queue. The mailbox and scheduler invariants are kept.\<close>

theorem mb_recv_refines:
  assumes "sched_inv k" "cpu_live c k" "has_class RT_Object_Class_MailBox a k" "mb_ok (mbs k a)" "waiters_live (SuspendSender a) k"
    and "timeout = 0 \<or> may_block c t k \<and> timeout \<noteq> 0x7fffffff \<and> flag_ok a k"
  shows "\<exists>r w k'. rt_mb_recv c a timeout k = Some (r, w, k') \<and> sched_inv k' \<and> mb_ok (mbs k' a) \<and>
    (case mb_contents (mbs k a) of
       v # vs \<Rightarrow> r = Ret RT_EOK \<and> w = Some v \<and>
         mb_abs a k' = (vs, tlists k (Suspend a), tl (tlists k (SuspendSender a)))
     | [] \<Rightarrow> w = None \<and>
         (if timeout = 0 then r = Ret (- RT_ETIMEOUT) \<and> k' = k
          else r = Wait (t, timeout, rt_tick_get k) \<and>
            mb_abs a k' = ([], enqueue (o_flag (obj k (Obj a))) (\<lambda>s. current_priority (thr k s)) t (tlists k (Suspend a)),
              tlists k (SuspendSender a))))"
proof (cases "mb_contents (mbs k a)")
  case (Cons v vs)
  then have "\<not> mb_empty (mbs k a)" using mb_ring.none_iff [OF assms(4)] by simp
  then show ?thesis
    using mb_recv_loop_mail [OF assms(1,2,4,5) Cons, of "rt_thread_self c k" timeout] assms(3) Cons
    by (fastforce simp: rt_mb_recv_def)
next
  case Nil
  then have e: "mb_empty (mbs k a)" using mb_ring.none_iff [OF assms(4)] by simp
  show ?thesis
  proof (cases "timeout = 0")
    case True
    with e assms(1,3,4) Nil show ?thesis by (simp add: rt_mb_recv_def)
  next
    case False
    then have b: "may_block c t k" "timeout \<noteq> 0x7fffffff" "flag_ok a k" using assms(6) by simp_all
    obtain k' where k': "mb_recv_loop c a (Some t) timeout k = Some (Wait (t, timeout, rt_tick_get k), None, k')" "sched_inv k'"
      "mbs k' = mbs k" "mb_abs a k' = (mb_contents (mbs k a),
         enqueue (o_flag (obj k (Obj a))) (\<lambda>s. current_priority (thr k s)) t (tlists k (Suspend a)),
         tlists k (SuspendSender a))"
      by (rule mb_recv_loop_empty [OF assms(1) b(1,2) False b(3) e]) blast
    with False e assms(3,4) Nil may_blockD(7) [OF b(1)] show ?thesis by (simp add: rt_mb_recv_def)
  qed
qed

theorem mb_recv_refines_witness:
  "\<exists>k'. rt_mb_recv 0 7 10 (demo_mailbox []) = Some (Wait (1, 10, rt_tick_get (demo_mailbox [])), None, k') \<and>
     mb_abs 7 k' = ([], [1], [])"
  using mb_recv_refines [OF demo_mailbox_facts(1-3) _ demo_mailbox_facts(5), of "[]" 10 1]
  by (auto simp: demo_mailbox_facts(4,6-10) demo_mailbox_facts(6) [simplified] demo_ring_ok enqueue_def)

text \<open>The ring of a mailbox is a first-in first-out queue over any sequence of stores and fetches, also when
  its offsets go round: from an empty mailbox, no access is out of bounds and the mails come out
  exactly as from a queue of the mailbox's size.\<close>

theorem mailbox_fifo_trace:
  assumes "mb_ok m" "mb_contents m = q"
  shows "\<exists>m'. fifo_run mb_full mb_empty mb_store mb_fetch ops m = Some (fst (queue_run (unat (mb_size m)) ops q), m') \<and>
    mb_ok m' \<and> mb_contents m' = snd (queue_run (unat (mb_size m)) ops q)"
  using mb_ring.run_refines [OF assms(1), of q ops] assms(2) by (auto simp: list.rel_eq)

theorem mailbox_fifo_trace_witness:
  "\<exists>m'. fifo_run mb_full mb_empty mb_store mb_fetch [Put 8, Get, Put 5, Put 6, Put 7, Get]
       \<lparr>msg_pool = [0, 0], mb_size = 2, mb_entry = 0, in_offset = 0, out_offset = 0\<rparr> = Some ([8, 5], m') \<and>
     mb_contents m' = [6]"
  using mailbox_fifo_trace [of "\<lparr>msg_pool = [0, 0], mb_size = 2, mb_entry = 0, in_offset = 0, out_offset = 0\<rparr>" "[]"
      "[Put 8, Get, Put 5, Put 6, Put 7, Get]"]
  by (auto simp: mb_ok_def mb_contents_def)

lemma sint_u32:
  "unat (w :: u32) < 2 ^ 31 \<Longrightarrow> sint w = int (unat w)"
  "2 ^ 31 \<le> unat (w :: u32) \<Longrightarrow> sint w < 0"
proof -
  have s: "sint w = (uint w + 2 ^ 31) mod 2 ^ 32 - 2 ^ 31"
    by (simp add: sint_uint signed_take_bit_eq_take_bit_shift take_bit_eq_mod)
  have u: "unat w < 2 ^ 31 \<longleftrightarrow> uint w < 2 ^ 31" "0 \<le> uint w" "uint w < 2 ^ 32"
  proof -
    have "unat w < 2 ^ 31 \<longleftrightarrow> int (unat w) < int (2 ^ 31)" by (simp only: of_nat_less_iff)
    then show "unat w < 2 ^ 31 \<longleftrightarrow> uint w < 2 ^ 31" by simp
  qed (use uint_lt2p [of w] in simp_all)
  show "sint w = int (unat w)" if "unat w < 2 ^ 31"
  proof -
    have "(uint w + 2 ^ 31) mod 2 ^ 32 = uint w + 2 ^ 31" using that u by (intro mod_pos_pos_trivial) simp_all
    with s show ?thesis by simp
  qed
  show "sint w < 0" if "2 ^ 31 \<le> unat w"
  proof -
    have "(uint w + 2 ^ 31) mod 2 ^ 32 = (uint w + 2 ^ 31 - 2 ^ 32) mod 2 ^ 32"
      by (rule minus_mod_self2 [symmetric])
    also have "\<dots> = uint w + 2 ^ 31 - 2 ^ 32" using that u by (intro mod_pos_pos_trivial) simp_all
    finally show ?thesis using s u(3) by simp
  qed
qed

text \<open>The time a sender or receiver may still wait after a wake-up is its time before less the ticks that
  passed, and zero when none is left, also when the tick counter went round in between.\<close>

theorem waiting_time_left:
  assumes "0 < sint timeout" "unat (now - start) < 2 ^ 31"
  shows "unat (remaining_timeout timeout start now) = unat timeout - unat (now - start)"
proof -
  let ?d = "now - start"
  have t: "unat timeout < 2 ^ 31" using assms(1) by (rule unat_of_positive)
  show ?thesis
  proof (cases "?d \<le> timeout")
    case True
    then have "unat (timeout - ?d) = unat timeout - unat ?d" by (rule unat_sub)
    moreover from this have "sint (timeout - ?d) = int (unat (timeout - ?d))" using t by (intro sint_u32(1)) simp
    ultimately show ?thesis using assms(1) by (simp add: remaining_timeout_def Let_def)
  next
    case False
    then have l: "unat timeout < unat ?d" by (simp add: word_le_nat_alt)
    have "unat (timeout - ?d) = 2 ^ 32 + unat timeout - unat ?d"
      using False by (simp add: unat_sub_if_size word_le_nat_alt word_size)
    then have "sint (timeout - ?d) < 0" using assms(2) by (intro sint_u32(2)) simp
    with l assms(1) show ?thesis by (simp add: remaining_timeout_def Let_def)
  qed
qed

theorem waiting_time_left_witness: "unat (remaining_timeout 10 0xfffffffe 3) = 5"
  using waiting_time_left [of 10 3 "0xfffffffe"] by simp

end
