(* ===== verification/MsgQueue.thy ===== *)
theory MsgQueue
  imports Mailbox
begin

text \<open>
  Message queues (\<^verbatim>\<open>src/ipc.c\<close>). The pool is divided into slots of one message each; the slots form a singly
  linked list of messages with a head and a tail pointer and a list of free slots. A sender takes a
  free slot, fills it with interrupts enabled, and links it; a receiver unlinks a slot, copies it
  out with interrupts enabled, and frees it. Each of these sections is an operation here, so that
  every interleaving of them can be considered.
\<close>

section \<open>Slots and their lists\<close>

definition upd_mq :: "nat \<Rightarrow> rt_messagequeue \<Rightarrow> kernel \<Rightarrow> kernel" where
  "upd_mq a m k = k\<lparr>mqs := (mqs k)(a := m)\<rparr>"

text \<open>The loop that puts every slot on the free list.\<close>

definition mq_free_slot :: "nat \<Rightarrow> rt_messagequeue \<Rightarrow> rt_messagequeue" where
  "mq_free_slot s m = m\<lparr>mq_next := (mq_next m)(s := msg_queue_free m), msg_queue_free := Some s\<rparr>"

definition mq_init_slots :: "rt_messagequeue \<Rightarrow> rt_messagequeue" where
  "mq_init_slots m = fold mq_free_slot [0..<unat (max_msgs m)] m"

text \<open>The sections of a send: take a free slot, fill it, link it at the end or, for an urgent message,
  in front.\<close>

definition mq_alloc :: "rt_messagequeue \<Rightarrow> (nat \<times> rt_messagequeue) option" where
  "mq_alloc m = (case msg_queue_free m of
       None \<Rightarrow> None
     | Some s \<Rightarrow> Some (s, m\<lparr>msg_queue_free := mq_next m s\<rparr>))"

definition mq_copy :: "nat \<Rightarrow> u8 list \<Rightarrow> rt_messagequeue \<Rightarrow> rt_messagequeue option" where
  "mq_copy s buf m =
     (if length buf \<le> length (mq_data m s)
      then Some (m\<lparr>mq_data := (mq_data m)(s := buf @ drop (length buf) (mq_data m s))\<rparr>) else None)"

definition mq_fill :: "nat \<Rightarrow> u8 list \<Rightarrow> rt_messagequeue \<Rightarrow> rt_messagequeue option" where
  "mq_fill s buf m = mq_copy s buf (m\<lparr>mq_next := (mq_next m)(s := None)\<rparr>)"

definition mq_link :: "nat \<Rightarrow> rt_messagequeue \<Rightarrow> rt_messagequeue" where
  "mq_link s m =
     (let m1 = (case msg_queue_tail m of
                  Some u \<Rightarrow> m\<lparr>mq_next := (mq_next m)(u := Some s)\<rparr>
                | None \<Rightarrow> m)
      in m1\<lparr>msg_queue_tail := Some s,
            msg_queue_head := (if msg_queue_head m1 = None then Some s else msg_queue_head m1),
            mq_entry := mq_entry m1 + 1\<rparr>)"

definition mq_push :: "nat \<Rightarrow> rt_messagequeue \<Rightarrow> rt_messagequeue" where
  "mq_push s m = m\<lparr>mq_next := (mq_next m)(s := msg_queue_head m), msg_queue_head := Some s,
     msg_queue_tail := (if msg_queue_tail m = None then Some s else msg_queue_tail m),
     mq_entry := mq_entry m + 1\<rparr>"

text \<open>The sections of a receive: unlink the first message, copy it out, free its slot.\<close>

definition mq_unlink :: "rt_messagequeue \<Rightarrow> (nat \<times> rt_messagequeue) option" where
  "mq_unlink m = (case msg_queue_head m of
       None \<Rightarrow> None
     | Some s \<Rightarrow> Some (s, m\<lparr>msg_queue_head := mq_next m s,
         msg_queue_tail := (if msg_queue_tail m = Some s then None else msg_queue_tail m),
         mq_entry := mq_entry m - 1\<rparr>))"

definition mq_read :: "u32 \<Rightarrow> nat \<Rightarrow> rt_messagequeue \<Rightarrow> u8 list" where
  "mq_read sz s m = take (unat (if sz > ucast (msg_size m) then ucast (msg_size m) else sz)) (mq_data m s)"

section \<open>Operations\<close>

definition new_mq :: "u32 \<Rightarrow> u16 \<Rightarrow> (nat \<Rightarrow> u8 list) \<Rightarrow> rt_messagequeue" where
  "new_mq sz n pool = mq_init_slots
     \<lparr>mq_next = (\<lambda>_. None), mq_data = pool, msg_size = ucast (RT_ALIGN sz 4), max_msgs = n, mq_entry = 0,
      msg_queue_head = None, msg_queue_tail = None, msg_queue_free = None\<rparr>"

text \<open>\<open>pool\<close> is what the memory of the slots holds.\<close>

definition rt_mq_init ::
    "nat \<Rightarrow> string \<Rightarrow> (nat \<Rightarrow> u8 list) \<Rightarrow> u32 \<Rightarrow> u32 \<Rightarrow> u8 \<Rightarrow> kernel \<Rightarrow> (rt_err_t \<times> kernel) option" where
  "rt_mq_init a name pool sz pool_size flag k = do {
     k1 \<leftarrow> rt_object_init (Obj a) RT_Object_Class_MessageQueue name k;
     let k2 = rt_ipc_object_init a (set_flag a flag k1);
     let slot = (ucast (ucast (RT_ALIGN sz 4) :: u16) + 4 :: u32);
     Some (RT_EOK, sender_list_init a (upd_mq a (new_mq sz (ucast (pool_size div slot)) pool) k2)) }"

definition rt_mq_detach :: "nat \<Rightarrow> nat \<Rightarrow> kernel \<Rightarrow> (rt_err_t \<times> kernel) option" where
  "rt_mq_detach c a k = do {
     rt_assert (has_class RT_Object_Class_MessageQueue a k);
     rt_assert (rt_object_is_systemobject (Obj a) k);
     k1 \<leftarrow> rt_ipc_list_resume_all c (Suspend a) k;
     k2 \<leftarrow> rt_ipc_list_resume_all c (SuspendSender a) k1;
     Some (RT_EOK, rt_object_detach (Obj a) k2) }"

definition rt_mq_create ::
    "nat \<Rightarrow> string \<Rightarrow> u32 \<Rightarrow> u32 \<Rightarrow> u8 \<Rightarrow> nat option \<Rightarrow> (nat \<Rightarrow> u8 list) option \<Rightarrow> kernel \<Rightarrow>
     (nat option \<times> kernel) option" where
  "rt_mq_create c name sz n flag malloc pool k = do {
     rt_assert (not_in_interrupt c k);
     (mq, k1) \<leftarrow> rt_object_allocate c RT_Object_Class_MessageQueue name malloc k;
     (case mq of
        None \<Rightarrow> Some (None, k1)
      | Some a \<Rightarrow> do {
          let k2 = rt_ipc_object_init a (set_flag a flag k1);
          (case pool of
             None \<Rightarrow> do {
               k3 \<leftarrow> rt_object_delete (Obj a) k2;
               Some (None, k3) }
           | Some p \<Rightarrow> Some (Some a, sender_list_init a (upd_mq a (new_mq sz (ucast n) p) k2))) }) }"

definition rt_mq_delete :: "nat \<Rightarrow> nat \<Rightarrow> kernel \<Rightarrow> (rt_err_t \<times> kernel) option" where
  "rt_mq_delete c a k = do {
     rt_assert (not_in_interrupt c k);
     rt_assert (has_class RT_Object_Class_MessageQueue a k);
     rt_assert (\<not> rt_object_is_systemobject (Obj a) k);
     k1 \<leftarrow> rt_ipc_list_resume_all c (Suspend a) k;
     k2 \<leftarrow> rt_ipc_list_resume_all c (SuspendSender a) k1;
     k3 \<leftarrow> rt_object_delete (Obj a) (upd_mq a ((mqs k2 a)\<lparr>mq_data := (\<lambda>_. [])\<rparr>) k2);
     Some (RT_EOK, k3) }"

text \<open>The rest of a send once there is a free slot, and the loop that waits for one.\<close>

definition mq_send_rest :: "nat \<Rightarrow> nat \<Rightarrow> u8 list \<Rightarrow> kernel \<Rightarrow> (waiting outcome \<times> kernel) option" where
  "mq_send_rest c a buf k = do {
     (s, m1) \<leftarrow> mq_alloc (mqs k a);
     m2 \<leftarrow> mq_fill s buf m1;
     k1 \<leftarrow> wake_first c (Suspend a) (upd_mq a (mq_link s m2) k);
     Some (Ret RT_EOK, k1) }"

definition mq_send_loop ::
    "nat \<Rightarrow> nat \<Rightarrow> nat option \<Rightarrow> u8 list \<Rightarrow> u32 \<Rightarrow> kernel \<Rightarrow> (waiting outcome \<times> kernel) option" where
  "mq_send_loop c a th buf timeout k =
     (if msg_queue_free (mqs k a) = None then do {
        t \<leftarrow> th;
        let k1 = set_error t RT_EOK k;
        if timeout = 0 then Some (Ret (- RT_EFULL), k1)
        else do {
          rt_assert (in_thread_context c k1);
          k2 \<leftarrow> wait_on c (SuspendSender a) t (o_flag (obj k1 (Obj a))) timeout k1;
          Some (Wait (t, timeout, rt_tick_get k1), k2) } }
      else mq_send_rest c a buf k)"

definition rt_mq_send_wait ::
    "nat \<Rightarrow> nat \<Rightarrow> u8 list \<Rightarrow> u32 \<Rightarrow> kernel \<Rightarrow> (waiting outcome \<times> kernel) option" where
  "rt_mq_send_wait c a buf timeout k = do {
     rt_assert (has_class RT_Object_Class_MessageQueue a k);
     rt_assert (length buf \<noteq> 0);
     if length buf > unat (msg_size (mqs k a)) then Some (Ret (- RT_ERROR), k)
     else if msg_queue_free (mqs k a) = None \<and> timeout = 0 then Some (Ret (- RT_EFULL), k)
     else mq_send_loop c a (rt_thread_self c k) buf timeout k }"

definition rt_mq_send_resume ::
    "nat \<Rightarrow> nat \<Rightarrow> u8 list \<Rightarrow> waiting \<Rightarrow> kernel \<Rightarrow> (waiting outcome \<times> kernel) option" where
  "rt_mq_send_resume c a buf w k = (case w of (t, timeout, start) \<Rightarrow>
     if error (thr k t) \<noteq> RT_EOK then Some (Ret (error (thr k t)), k)
     else mq_send_loop c a (Some t) buf (remaining_timeout timeout start (rt_tick_get k)) k)"

definition rt_mq_send :: "nat \<Rightarrow> nat \<Rightarrow> u8 list \<Rightarrow> kernel \<Rightarrow> (waiting outcome \<times> kernel) option" where
  "rt_mq_send c a buf k = rt_mq_send_wait c a buf 0 k"

definition rt_mq_urgent :: "nat \<Rightarrow> nat \<Rightarrow> u8 list \<Rightarrow> kernel \<Rightarrow> (rt_err_t \<times> kernel) option" where
  "rt_mq_urgent c a buf k = do {
     rt_assert (has_class RT_Object_Class_MessageQueue a k);
     rt_assert (length buf \<noteq> 0);
     if length buf > unat (msg_size (mqs k a)) then Some (- RT_ERROR, k)
     else if msg_queue_free (mqs k a) = None then Some (- RT_EFULL, k)
     else do {
       (s, m1) \<leftarrow> mq_alloc (mqs k a);
       m2 \<leftarrow> mq_copy s buf m1;
       k1 \<leftarrow> wake_first c (Suspend a) (upd_mq a (mq_push s m2) k);
       Some (RT_EOK, k1) } }"

text \<open>The second component of a receiver's result is what is copied into its buffer.\<close>

definition mq_recv_rest ::
    "nat \<Rightarrow> nat \<Rightarrow> u32 \<Rightarrow> kernel \<Rightarrow> (waiting outcome \<times> u8 list option \<times> kernel) option" where
  "mq_recv_rest c a sz k = do {
     (s, m1) \<leftarrow> mq_unlink (mqs k a);
     k1 \<leftarrow> wake_first c (SuspendSender a) (upd_mq a (mq_free_slot s m1) k);
     Some (Ret RT_EOK, Some (mq_read sz s m1), k1) }"

definition mq_recv_loop ::
    "nat \<Rightarrow> nat \<Rightarrow> nat option \<Rightarrow> u32 \<Rightarrow> u32 \<Rightarrow> kernel \<Rightarrow> (waiting outcome \<times> u8 list option \<times> kernel) option" where
  "mq_recv_loop c a th sz timeout k =
     (if mq_entry (mqs k a) = 0 then do {
        rt_assert (in_thread_context c k);
        t \<leftarrow> th;
        let k1 = set_error t RT_EOK k;
        if timeout = 0 then Some (Ret (- RT_ETIMEOUT), None, set_error t (- RT_ETIMEOUT) k1)
        else do {
          k2 \<leftarrow> wait_on c (Suspend a) t (o_flag (obj k1 (Obj a))) timeout k1;
          Some (Wait (t, timeout, rt_tick_get k1), None, k2) } }
      else mq_recv_rest c a sz k)"

definition rt_mq_recv ::
    "nat \<Rightarrow> nat \<Rightarrow> u32 \<Rightarrow> u32 \<Rightarrow> kernel \<Rightarrow> (waiting outcome \<times> u8 list option \<times> kernel) option" where
  "rt_mq_recv c a sz timeout k = do {
     rt_assert (has_class RT_Object_Class_MessageQueue a k);
     rt_assert (sz \<noteq> 0);
     if mq_entry (mqs k a) = 0 \<and> timeout = 0 then Some (Ret (- RT_ETIMEOUT), None, k)
     else mq_recv_loop c a (rt_thread_self c k) sz timeout k }"

definition rt_mq_recv_resume ::
    "nat \<Rightarrow> nat \<Rightarrow> u32 \<Rightarrow> waiting \<Rightarrow> kernel \<Rightarrow> (waiting outcome \<times> u8 list option \<times> kernel) option" where
  "rt_mq_recv_resume c a sz w k = (case w of (t, timeout, start) \<Rightarrow>
     if error (thr k t) \<noteq> RT_EOK then Some (Ret (error (thr k t)), None, k)
     else mq_recv_loop c a (Some t) sz (remaining_timeout timeout start (rt_tick_get k)) k)"

text \<open>The loop of the reset that frees every message.\<close>

partial_function (option) mq_reset_loop :: "rt_messagequeue \<Rightarrow> rt_messagequeue option" where
  "mq_reset_loop m =
     (case msg_queue_head m of
        None \<Rightarrow> Some m
      | Some s \<Rightarrow> mq_reset_loop (mq_free_slot s (m\<lparr>msg_queue_head := mq_next m s,
          msg_queue_tail := (if msg_queue_tail m = Some s then None else msg_queue_tail m)\<rparr>)))"

definition rt_mq_control :: "nat \<Rightarrow> nat \<Rightarrow> int \<Rightarrow> kernel \<Rightarrow> (rt_err_t \<times> kernel) option" where
  "rt_mq_control c a cmd k = do {
     rt_assert (has_class RT_Object_Class_MessageQueue a k);
     if cmd = RT_IPC_CMD_RESET then do {
       k1 \<leftarrow> rt_ipc_list_resume_all c (Suspend a) k;
       k2 \<leftarrow> rt_ipc_list_resume_all c (SuspendSender a) k1;
       m \<leftarrow> mq_reset_loop (mqs k2 a);
       k3 \<leftarrow> rt_schedule c (upd_mq a (m\<lparr>mq_entry := 0\<rparr>) k2);
       Some (RT_EOK, k3) }
     else Some (- RT_ERROR, k) }"

section \<open>The linked lists\<close>

text \<open>The slots from a pointer on, and the walk along the list with a bound on its length.\<close>

primrec slots_from :: "(nat \<Rightarrow> nat option) \<Rightarrow> nat option \<Rightarrow> nat list \<Rightarrow> bool" where
  "slots_from nx p [] \<longleftrightarrow> p = None"
| "slots_from nx p (s # ss) \<longleftrightarrow> p = Some s \<and> slots_from nx (nx s) ss"

fun walk :: "nat \<Rightarrow> (nat \<Rightarrow> nat option) \<Rightarrow> nat option \<Rightarrow> nat list" where
  "walk (Suc n) nx (Some s) = s # walk n nx (nx s)"
| "walk _ _ _ = []"

lemma walk_slots: "slots_from nx p ss \<Longrightarrow> length ss \<le> n \<Longrightarrow> walk n nx p = ss"
proof (induction ss arbitrary: n p)
  case (Cons s ss)
  then show ?case by (cases n) auto
qed (cases n; simp)

lemma slots_from_upd [simp]: "s \<notin> set ss \<Longrightarrow> slots_from (nx(s := q)) p ss = slots_from nx p ss"
  by (induction ss arbitrary: p) auto

lemma slots_from_snoc:
  "slots_from nx p (ss @ [u]) \<Longrightarrow> u \<notin> set ss \<Longrightarrow> s \<notin> set (ss @ [u]) \<Longrightarrow> nx s = None \<Longrightarrow>
     slots_from (nx(u := Some s)) p (ss @ [u, s])"
  by (induction ss arbitrary: p) auto

lemma slots_from_None [simp]: "slots_from nx None ss \<longleftrightarrow> ss = []"
  by (cases ss) auto

definition mq_queue :: "rt_messagequeue \<Rightarrow> nat list" where
  "mq_queue m = walk (unat (max_msgs m)) (mq_next m) (msg_queue_head m)"

definition mq_frees :: "rt_messagequeue \<Rightarrow> nat list" where
  "mq_frees m = walk (unat (max_msgs m)) (mq_next m) (msg_queue_free m)"

text \<open>What the code keeps: both lists end, the tail pointer is the last message, and the slots are
  divided among the messages, the free list and those that some thread is filling or reading
  (\<open>fl\<close>).\<close>

definition mq_lists :: "rt_messagequeue \<Rightarrow> nat list \<Rightarrow> nat list \<Rightarrow> nat list \<Rightarrow> bool" where
  "mq_lists m qs fs fl \<longleftrightarrow>
     slots_from (mq_next m) (msg_queue_head m) qs \<and> slots_from (mq_next m) (msg_queue_free m) fs \<and>
     msg_queue_tail m = (if qs = [] then None else Some (last qs)) \<and>
     distinct (qs @ fs @ fl) \<and> set (qs @ fs @ fl) = {0..<unat (max_msgs m)} \<and>
     unat (mq_entry m) = length qs \<and>
     (\<forall>s < unat (max_msgs m). length (mq_data m s) = unat (msg_size m))"

definition mq_ok :: "nat list \<Rightarrow> rt_messagequeue \<Rightarrow> bool" where
  "mq_ok fl m \<longleftrightarrow> mq_lists m (mq_queue m) (mq_frees m) fl"

definition mq_contents :: "rt_messagequeue \<Rightarrow> u8 list list" where
  "mq_contents m = map (mq_data m) (mq_queue m)"

lemma mq_lists_length: "mq_lists m qs fs fl \<Longrightarrow> length qs + length fs + length fl = unat (max_msgs m)"
proof -
  assume l: "mq_lists m qs fs fl"
  then have "length (qs @ fs @ fl) = card {0..<unat (max_msgs m)}"
    by (metis distinct_card mq_lists_def)
  then show ?thesis by simp
qed

lemma mq_lists_unique:
  assumes "mq_lists m qs fs fl"
  shows "mq_queue m = qs" "mq_frees m = fs" "mq_ok fl m"
proof -
  show q: "mq_queue m = qs" "mq_frees m = fs"
    unfolding mq_queue_def mq_frees_def using assms mq_lists_length [OF assms]
    by (auto simp: mq_lists_def intro!: walk_slots)
  show "mq_ok fl m" using assms by (simp add: mq_ok_def q)
qed

text \<open>What each section does to the lists.\<close>

lemma mq_alloc_lists:
  assumes "mq_lists m qs (s # fs) fl"
  shows "mq_alloc m = Some (s, m\<lparr>msg_queue_free := mq_next m s\<rparr>)"
    "mq_lists (m\<lparr>msg_queue_free := mq_next m s\<rparr>) qs fs (s # fl)"
  using assms by (auto simp: mq_lists_def mq_alloc_def)

lemma mq_alloc_none: "mq_lists m qs fs fl \<Longrightarrow> msg_queue_free m = None \<longleftrightarrow> fs = []"
  by (cases fs) (auto simp: mq_lists_def)

lemma mq_entry_zero: "mq_lists m qs fs fl \<Longrightarrow> mq_entry m = 0 \<longleftrightarrow> qs = []"
  by (auto simp: mq_lists_def unat_eq_0 [symmetric])

lemma mq_in_flight:
  assumes "mq_lists m qs fs fl" "s \<in> set fl"
  shows "s < unat (max_msgs m)" "s \<notin> set qs" "s \<notin> set fs" "length (mq_data m s) = unat (msg_size m)"
    "length qs < unat (max_msgs m)"
proof -
  have "s \<in> {0..<unat (max_msgs m)}" using assms unfolding mq_lists_def by (metis Un_iff set_append)
  then show s: "s < unat (max_msgs m)" by simp
  show "s \<notin> set qs" "s \<notin> set fs" using assms by (auto simp: mq_lists_def)
  show "length (mq_data m s) = unat (msg_size m)" using assms(1) s by (simp add: mq_lists_def)
  have "length fl > 0" by (rule length_pos_if_in_set [OF assms(2)])
  then show "length qs < unat (max_msgs m)" using mq_lists_length [OF assms(1)] by linarith
qed

lemma mq_copy_lists:
  assumes "mq_lists m qs fs fl" "s \<in> set fl" "length buf \<le> unat (msg_size m)"
  obtains m' where "mq_copy s buf m = Some m'" "mq_lists m' qs fs fl" "mq_next m' = mq_next m"
    "mq_data m' = (mq_data m)(s := buf @ drop (length buf) (mq_data m s))" "msg_size m' = msg_size m" "max_msgs m' = max_msgs m"
  using assms mq_in_flight [OF assms(1,2)] by (auto simp: mq_copy_def mq_lists_def)

lemma mq_fill_lists:
  assumes "mq_lists m qs fs fl" "s \<in> set fl" "length buf \<le> unat (msg_size m)"
  obtains m' where "mq_fill s buf m = Some m'" "mq_lists m' qs fs fl" "mq_next m' = (mq_next m)(s := None)"
    "mq_data m' = (mq_data m)(s := buf @ drop (length buf) (mq_data m s))" "msg_size m' = msg_size m" "max_msgs m' = max_msgs m"
proof -
  let ?m = "m\<lparr>mq_next := (mq_next m)(s := None)\<rparr>"
  have "mq_lists ?m qs fs fl" using assms(1) mq_in_flight(2,3) [OF assms(1,2)] by (simp add: mq_lists_def)
  then obtain m' where "mq_copy s buf ?m = Some m'" "mq_lists m' qs fs fl" "mq_next m' = mq_next ?m"
    "mq_data m' = (mq_data ?m)(s := buf @ drop (length buf) (mq_data ?m s))" "msg_size m' = msg_size ?m" "max_msgs m' = max_msgs ?m"
    by (rule mq_copy_lists [of ?m qs fs fl s buf]) (use assms(2,3) in auto)
  then show ?thesis using that by (simp add: mq_fill_def)
qed

lemma mq_entry_Suc:
  assumes "mq_lists m qs fs fl" "s \<in> set fl"
  shows "unat (mq_entry m + 1) = length qs + 1"
proof -
  have "unat (max_msgs m) < 65536" using unsigned_less [of "max_msgs m", where 'a = nat] by simp
  moreover have "unat (mq_entry m) = length qs" using assms(1) by (simp add: mq_lists_def)
  ultimately show ?thesis using mq_in_flight(5) [OF assms] by (simp add: unat_word_ariths)
qed

lemma flight_removed:
  assumes "distinct (qs @ fs @ fl)" "s \<in> set fl" "set (qs @ fs @ fl) = A"
  shows "distinct ((s # qs) @ fs @ remove1 s fl)" "set ((s # qs) @ fs @ remove1 s fl) = A"
    "distinct ((qs @ [s]) @ fs @ remove1 s fl)" "set ((qs @ [s]) @ fs @ remove1 s fl) = A"
    "distinct (qs @ (s # fs) @ remove1 s fl)" "set (qs @ (s # fs) @ remove1 s fl) = A"
  using assms by (auto simp: set_remove1_eq distinct_remove1)

lemma mq_link_lists:
  assumes "mq_lists m qs fs fl" "s \<in> set fl" "mq_next m s = None"
  shows "mq_lists (mq_link s m) (qs @ [s]) fs (remove1 s fl)" "mq_data (mq_link s m) = mq_data m"
    "msg_size (mq_link s m) = msg_size m" "max_msgs (mq_link s m) = max_msgs m"
proof -
  note f = mq_in_flight [OF assms(1,2)] and e = mq_entry_Suc [OF assms(1,2)]
  have r: "distinct ((qs @ [s]) @ fs @ remove1 s fl)" "set ((qs @ [s]) @ fs @ remove1 s fl) = {0..<unat (max_msgs m)}"
    using flight_removed(3,4) [OF _ assms(2), of qs fs] assms(1) by (simp_all add: mq_lists_def)
  show "mq_lists (mq_link s m) (qs @ [s]) fs (remove1 s fl)"
  proof (cases qs rule: rev_cases)
    case Nil
    with assms r e show ?thesis by (auto simp: mq_lists_def mq_link_def Let_def)
  next
    case (snoc us u)
    have u: "u \<notin> set us" "u \<noteq> s" "s \<notin> set us" "u \<notin> set fs" using assms(1) f(2) snoc by (auto simp: mq_lists_def)
    have tl: "msg_queue_tail m = Some u" "msg_queue_head m \<noteq> None" using assms(1) snoc by (cases us; auto simp: mq_lists_def)+
    have "slots_from ((mq_next m)(u := Some s)) (msg_queue_head m) (us @ [u, s])"
      by (rule slots_from_snoc) (use assms(1,3) u snoc in \<open>auto simp: mq_lists_def\<close>)
    with assms(1) r e u tl snoc show ?thesis by (auto simp: mq_lists_def mq_link_def Let_def)
  qed
qed (auto simp: mq_link_def Let_def split: option.split)

lemma mq_push_lists:
  assumes "mq_lists m qs fs fl" "s \<in> set fl"
  shows "mq_lists (mq_push s m) (s # qs) fs (remove1 s fl)"
proof -
  note f = mq_in_flight [OF assms] and e = mq_entry_Suc [OF assms]
  have "distinct ((s # qs) @ fs @ remove1 s fl)" "set ((s # qs) @ fs @ remove1 s fl) = {0..<unat (max_msgs m)}"
    using flight_removed(1,2) [OF _ assms(2), of qs fs] assms(1) by (simp_all add: mq_lists_def)
  with assms(1) f e show ?thesis by (auto simp: mq_lists_def mq_push_def)
qed

lemma mq_unlink_lists:
  assumes "mq_lists m (s # qs) fs fl"
  obtains m' where "mq_unlink m = Some (s, m')" "mq_lists m' qs fs (s # fl)" "mq_data m' = mq_data m"
    "msg_size m' = msg_size m" "max_msgs m' = max_msgs m"
proof -
  let ?m = "m\<lparr>msg_queue_head := mq_next m s, msg_queue_tail := (if msg_queue_tail m = Some s then None else msg_queue_tail m),
      mq_entry := mq_entry m - 1\<rparr>"
  have u: "unat (mq_entry m) = Suc (length qs)" using assms by (simp add: mq_lists_def)
  then have "mq_entry m \<noteq> 0" by auto
  from unat_pred [OF this] u have "unat (mq_entry m - 1) = length qs" by simp
  moreover have "s \<noteq> last qs" if "qs \<noteq> []" using assms that by (auto simp: mq_lists_def)
  ultimately have "mq_lists ?m qs fs (s # fl)" using assms by (auto simp: mq_lists_def)
  moreover have "mq_unlink m = Some (s, ?m)" using assms by (simp add: mq_lists_def mq_unlink_def)
  ultimately show ?thesis using that by simp
qed

lemma mq_free_lists:
  assumes "mq_lists m qs fs fl" "s \<in> set fl"
  shows "mq_lists (mq_free_slot s m) qs (s # fs) (remove1 s fl)"
proof -
  have "distinct (qs @ (s # fs) @ remove1 s fl)" "set (qs @ (s # fs) @ remove1 s fl) = {0..<unat (max_msgs m)}"
    using flight_removed(5,6) [OF _ assms(2), of qs fs] assms(1) by (simp_all add: mq_lists_def)
  with assms(1) mq_in_flight [OF assms] show ?thesis by (auto simp: mq_lists_def mq_free_slot_def)
qed

section \<open>A new queue\<close>

lemma fold_free_frame:
  "msg_queue_head (fold mq_free_slot ss m) = msg_queue_head m" "msg_queue_tail (fold mq_free_slot ss m) = msg_queue_tail m"
  "mq_data (fold mq_free_slot ss m) = mq_data m" "msg_size (fold mq_free_slot ss m) = msg_size m"
  "max_msgs (fold mq_free_slot ss m) = max_msgs m" "mq_entry (fold mq_free_slot ss m) = mq_entry m"
  by (induction ss arbitrary: m) (simp_all add: mq_free_slot_def)

lemma fold_free_slots:
  assumes "distinct ss" "slots_from (mq_next m) (msg_queue_free m) fs" "set ss \<inter> set fs = {}"
  shows "slots_from (mq_next (fold mq_free_slot ss m)) (msg_queue_free (fold mq_free_slot ss m)) (rev ss @ fs)"
  using assms
proof (induction ss arbitrary: m fs)
  case (Cons s ss)
  have "slots_from (mq_next (mq_free_slot s m)) (msg_queue_free (mq_free_slot s m)) (s # fs)"
    using Cons.prems by (simp add: mq_free_slot_def)
  from Cons.IH [OF _ this] Cons.prems show ?case by simp
qed simp

definition pool_ok :: "u32 \<Rightarrow> u16 \<Rightarrow> (nat \<Rightarrow> u8 list) \<Rightarrow> bool" where
  "pool_ok sz n pool \<longleftrightarrow> (\<forall>s < unat n. length (pool s) = unat (ucast (RT_ALIGN sz 4) :: u16))"

lemma new_mq_lists:
  assumes "pool_ok sz n pool"
  shows "mq_lists (new_mq sz n pool) [] (rev [0..<unat n]) []"
proof -
  let ?m = "\<lparr>mq_next = (\<lambda>_. None), mq_data = pool, msg_size = ucast (RT_ALIGN sz 4), max_msgs = n, mq_entry = 0,
      msg_queue_head = None, msg_queue_tail = None, msg_queue_free = None\<rparr>"
  have "slots_from (mq_next (fold mq_free_slot [0..<unat n] ?m)) (msg_queue_free (fold mq_free_slot [0..<unat n] ?m)) (rev [0..<unat n] @ [])"
    by (rule fold_free_slots) simp_all
  then show ?thesis
    using assms by (simp add: new_mq_def mq_init_slots_def mq_lists_def fold_free_frame pool_ok_def)
qed

section \<open>The queue of messages\<close>

definition mq_put :: "u8 list \<Rightarrow> rt_messagequeue \<Rightarrow> rt_messagequeue option" where
  "mq_put buf m = do {
     (s, m1) \<leftarrow> mq_alloc m;
     m2 \<leftarrow> mq_fill s buf m1;
     Some (mq_link s m2) }"

definition mq_get :: "rt_messagequeue \<Rightarrow> (u8 list \<times> rt_messagequeue) option" where
  "mq_get m = do {
     (s, m1) \<leftarrow> mq_unlink m;
     Some (mq_data m1 s, mq_free_slot s m1) }"

text \<open>A slot holds a message when it begins with it.\<close>

definition holds :: "u8 list \<Rightarrow> u8 list \<Rightarrow> bool" where
  "holds buf d \<longleftrightarrow> take (length buf) d = buf"

lemma mq_contents_lists: "mq_lists m qs fs fl \<Longrightarrow> mq_contents m = map (mq_data m) qs"
  using mq_lists_unique(1) by (simp add: mq_contents_def)

lemma mq_okE:
  assumes "mq_ok fl m"
  obtains qs fs where "mq_lists m qs fs fl" "mq_contents m = map (mq_data m) qs"
  using assms mq_contents_lists by (auto simp: mq_ok_def)

text \<open>Sending while other threads hold the slots \<open>fl\<close>.\<close>

lemma mq_put_ok:
  assumes "mq_ok fl m" "msg_queue_free m \<noteq> None" "length buf \<le> unat (msg_size m)"
  obtains m' d where "mq_put buf m = Some m'" "mq_ok fl m'" "mq_contents m' = mq_contents m @ [d]" "holds buf d"
    "length d = unat (msg_size m)" "msg_size m' = msg_size m" "max_msgs m' = max_msgs m"
proof -
  obtain qs fs0 where l0: "mq_lists m qs fs0 fl" "mq_contents m = map (mq_data m) qs" using assms(1) by (rule mq_okE)
  obtain s fs where f: "fs0 = s # fs" using mq_alloc_none [OF l0(1)] assms(2) by (cases fs0) auto
  let ?m1 = "m\<lparr>msg_queue_free := mq_next m s\<rparr>"
  have a: "mq_alloc m = Some (s, ?m1)" and l1: "mq_lists ?m1 qs fs (s # fl)"
    using mq_alloc_lists [of m qs s fs fl] l0(1) f by simp_all
  obtain m2 where m2: "mq_fill s buf ?m1 = Some m2" "mq_lists m2 qs fs (s # fl)" "mq_next m2 = (mq_next ?m1)(s := None)"
    "mq_data m2 = (mq_data ?m1)(s := buf @ drop (length buf) (mq_data ?m1 s))" "msg_size m2 = msg_size ?m1" "max_msgs m2 = max_msgs ?m1"
    by (rule mq_fill_lists [OF l1, of s buf]) (use assms(3) in simp_all)
  note l3 = mq_link_lists [OF m2(2), of s]
  have fr: "mq_lists (mq_link s m2) (qs @ [s]) fs fl" using l3(1) m2(3) by simp
  have "s \<notin> set qs" using mq_in_flight(2) [OF l1] by simp
  then have "mq_contents (mq_link s m2) = mq_contents m @ [buf @ drop (length buf) (mq_data m s)]"
    using mq_contents_lists [OF fr] l3(2) m2(3,4) l0(2) by simp
  moreover have "length (mq_data m s) = unat (msg_size m)" using mq_in_flight(4) [OF l1, of s] by simp
  ultimately show ?thesis
    using that a m2(1,3,5,6) l3(3,4) mq_lists_unique(3) [OF fr] assms(3)
    by (simp add: mq_put_def holds_def)
qed

lemma mq_get_ok:
  assumes "mq_ok fl m" "mq_contents m = d # ds"
  obtains s m1 where "mq_unlink m = Some (s, m1)" "mq_data m1 s = d" "msg_size m1 = msg_size m"
    "mq_ok fl (mq_free_slot s m1)" "mq_contents (mq_free_slot s m1) = ds"
    "msg_size (mq_free_slot s m1) = msg_size m" "max_msgs (mq_free_slot s m1) = max_msgs m"
proof -
  obtain qs0 fs where l0: "mq_lists m qs0 fs fl" "mq_contents m = map (mq_data m) qs0" using assms(1) by (rule mq_okE)
  obtain s qs where q: "qs0 = s # qs" "mq_data m s = d" "map (mq_data m) qs = ds" using l0(2) assms(2) by (cases qs0) auto
  obtain m1 where m1: "mq_unlink m = Some (s, m1)" "mq_lists m1 qs fs (s # fl)" "mq_data m1 = mq_data m"
    "msg_size m1 = msg_size m" "max_msgs m1 = max_msgs m"
    by (rule mq_unlink_lists [of m s qs fs fl]) (use l0(1) q(1) in auto)
  have f: "mq_lists (mq_free_slot s m1) qs (s # fs) fl" using mq_free_lists [OF m1(2), of s] by simp
  have fr: "mq_data (mq_free_slot s m1) = mq_data m1" "msg_size (mq_free_slot s m1) = msg_size m1"
    "max_msgs (mq_free_slot s m1) = max_msgs m1" by (simp_all add: mq_free_slot_def)
  show ?thesis
    using that [OF m1(1)] m1(3-5) q fr mq_lists_unique(3) [OF f] mq_contents_lists [OF f] by simp
qed

lemma mq_full_iff: "mq_ok [] m \<Longrightarrow> msg_queue_free m = None \<longleftrightarrow> length (mq_contents m) = unat (max_msgs m)"
  by (elim mq_okE) (use mq_alloc_none mq_lists_length in fastforce)

lemma mq_empty_iff: "mq_ok fl m \<Longrightarrow> mq_entry m = 0 \<longleftrightarrow> mq_contents m = []"
  by (elim mq_okE) (simp add: mq_entry_zero)

lemma mq_bounded: "mq_ok fl m \<Longrightarrow> length (mq_contents m) \<le> unat (max_msgs m)"
  by (elim mq_okE) (use mq_lists_length in fastforce)

interpretation mq_fifo: bounded_fifo "mq_ok []" mq_contents "\<lambda>m. unat (max_msgs m)" "\<lambda>m buf. length buf \<le> unat (msg_size m)"
  holds "\<lambda>m. msg_queue_free m = None" "\<lambda>m. mq_entry m = 0" mq_put mq_get
proof
  fix m :: rt_messagequeue and v w :: "u8 list" and ws
  assume ok: "mq_ok [] m"
  show "length (mq_contents m) \<le> unat (max_msgs m)" by (rule mq_bounded [OF ok])
  show "msg_queue_free m = None \<longleftrightarrow> length (mq_contents m) = unat (max_msgs m)" by (rule mq_full_iff [OF ok])
  show "mq_entry m = 0 \<longleftrightarrow> mq_contents m = []" by (rule mq_empty_iff [OF ok])
  show "\<exists>m' d. mq_put v m = Some m' \<and> mq_ok [] m' \<and> mq_contents m' = mq_contents m @ [d] \<and> holds v d \<and>
      unat (max_msgs m') = unat (max_msgs m) \<and>
      (\<lambda>buf. length buf \<le> unat (msg_size m')) = (\<lambda>buf. length buf \<le> unat (msg_size m))"
    if "length (mq_contents m) < unat (max_msgs m)" "length v \<le> unat (msg_size m)"
  proof -
    have "msg_queue_free m \<noteq> None" using mq_full_iff [OF ok] that(1) by simp
    then show ?thesis by (rule mq_put_ok [OF ok _ that(2)]) auto
  qed
  show "\<exists>m'. mq_get m = Some (w, m') \<and> mq_ok [] m' \<and> mq_contents m' = ws \<and> unat (max_msgs m') = unat (max_msgs m) \<and>
      (\<lambda>buf. length buf \<le> unat (msg_size m')) = (\<lambda>buf. length buf \<le> unat (msg_size m))"
    if "mq_contents m = w # ws"
    by (rule mq_get_ok [OF ok that]) (auto simp: mq_get_def)
qed

end
