(* ===== verification/MsgQueueProps.thy ===== *)
theory MsgQueueProps
  imports MsgQueue
begin

text \<open>
  The properties of message queues: every interleaving of the sections of senders and receivers
  keeps the slots apart and delivers what was sent, in order; the calls implement a bounded queue
  with its wait queues; the reset ends and frees everything.
\<close>

section \<open>Interleaved senders and receivers\<close>

text \<open>What a thread does with the slot it holds: it has just taken it; it has filled it, to be linked at the
  end or in front; or it reads a message it has unlinked.\<close>

datatype phase = Fresh | Filled "u8 list" | Urgent "u8 list" | Taken "u8 list"

text \<open>One section of some thread. The last argument is the sequence of messages the senders linked and no
  receiver has unlinked.\<close>

inductive mq_section ::
    "rt_messagequeue \<Rightarrow> (nat \<times> phase) list \<Rightarrow> u8 list list \<Rightarrow>
     rt_messagequeue \<Rightarrow> (nat \<times> phase) list \<Rightarrow> u8 list list \<Rightarrow> bool" where
  alloc: "mq_alloc m = Some (s, m') \<Longrightarrow> mq_section m fl q m' ((s, Fresh) # fl) q"
| fill: "mq_fill s buf m = Some m' \<Longrightarrow> length buf \<le> unat (msg_size m) \<Longrightarrow>
     mq_section m (xs @ (s, Fresh) # ys) q m' (xs @ (s, Filled buf) # ys) q"
| copy: "mq_copy s buf m = Some m' \<Longrightarrow> length buf \<le> unat (msg_size m) \<Longrightarrow>
     mq_section m (xs @ (s, Fresh) # ys) q m' (xs @ (s, Urgent buf) # ys) q"
| link: "mq_section m (xs @ (s, Filled buf) # ys) q (mq_link s m) (xs @ ys) (q @ [buf])"
| push: "mq_section m (xs @ (s, Urgent buf) # ys) q (mq_push s m) (xs @ ys) (buf # q)"
| unlink: "mq_unlink m = Some (s, m') \<Longrightarrow> mq_entry m \<noteq> 0 \<Longrightarrow>
     mq_section m fl (buf # q) m' ((s, Taken buf) # fl) q"
| free: "mq_section m (xs @ (s, Taken buf) # ys) q (mq_free_slot s m) (xs @ ys) q"

inductive mq_run ::
    "rt_messagequeue \<Rightarrow> rt_messagequeue \<Rightarrow> (nat \<times> phase) list \<Rightarrow> u8 list list \<Rightarrow> bool" for m0 where
  start: "mq_run m0 m0 [] []"
| step: "mq_run m0 m fl q \<Longrightarrow> mq_section m fl q m' fl' q' \<Longrightarrow> mq_run m0 m' fl' q'"

inductive_cases mq_sectionE: "mq_section m fl q m' fl' q'"

fun phase_ok :: "rt_messagequeue \<Rightarrow> nat \<times> phase \<Rightarrow> bool" where
  "phase_ok m (s, Fresh) \<longleftrightarrow> True"
| "phase_ok m (s, Filled buf) \<longleftrightarrow> mq_next m s = None \<and> holds buf (mq_data m s)"
| "phase_ok m (s, Urgent buf) \<longleftrightarrow> holds buf (mq_data m s)"
| "phase_ok m (s, Taken buf) \<longleftrightarrow> holds buf (mq_data m s)"

definition flight_inv :: "rt_messagequeue \<Rightarrow> (nat \<times> phase) list \<Rightarrow> u8 list list \<Rightarrow> bool" where
  "flight_inv m fl q \<longleftrightarrow> (\<exists>qs fs. mq_lists m qs fs (map fst fl) \<and> list_all2 holds q (map (mq_data m) qs)) \<and>
     (\<forall>x \<in> set fl. phase_ok m x)"

lemma phase_ok_cong:
  "mq_next m' (fst x) = mq_next m (fst x) \<Longrightarrow> mq_data m' (fst x) = mq_data m (fst x) \<Longrightarrow> phase_ok m' x = phase_ok m x"
  by (cases x; cases "snd x") auto

lemma holds_written: "holds buf (buf @ d)"
  by (simp add: holds_def)

lemma flight_distinct:
  assumes "mq_lists m qs fs (map fst (xs @ (s, p) # ys))"
  shows "s \<notin> fst ` set xs" "s \<notin> fst ` set ys" "remove1 s (map fst (xs @ (s, p) # ys)) = map fst (xs @ ys)"
    "s \<in> set (map fst (xs @ (s, p) # ys))"
  using assms by (auto simp: mq_lists_def remove1_append)

text \<open>Changing only the data and the link of the slot at hand leaves the others as they are.\<close>

lemma others_ok:
  assumes "\<forall>x \<in> set (xs @ (s, p) # ys). phase_ok m x" "s \<notin> fst ` set xs" "s \<notin> fst ` set ys"
    and "\<And>u. u \<noteq> s \<Longrightarrow> u \<in> fst ` set (xs @ ys) \<Longrightarrow> mq_next m' u = mq_next m u \<and> mq_data m' u = mq_data m u"
  shows "\<forall>x \<in> set (xs @ ys). phase_ok m' x"
proof
  fix x assume x: "x \<in> set (xs @ ys)"
  then have "fst x \<noteq> s" "fst x \<in> fst ` set (xs @ ys)" using assms(2,3) by auto
  from assms(4) [OF this] phase_ok_cong [of m' x m] have "phase_ok m' x = phase_ok m x" by blast
  then show "phase_ok m' x" using assms(1) x by auto
qed

lemma section_written:
  assumes "flight_inv m (xs @ (s, Fresh) # ys) q" "length buf \<le> unat (msg_size m)"
    and "mq_lists m' qs fs (map fst (xs @ (s, Fresh) # ys))" "mq_lists m qs fs (map fst (xs @ (s, Fresh) # ys))"
    and "mq_data m' = (mq_data m)(s := buf @ drop (length buf) (mq_data m s))"
    and "\<And>u. u \<noteq> s \<Longrightarrow> mq_next m' u = mq_next m u" "phase_ok m' (s, p)"
  shows "flight_inv m' (xs @ (s, p) # ys) q"
proof -
  note d = flight_distinct [OF assms(4)]
  obtain qs' fs' where l: "mq_lists m qs' fs' (map fst (xs @ (s, Fresh) # ys))" "list_all2 holds q (map (mq_data m) qs')"
    using assms(1) by (auto simp: flight_inv_def)
  have "qs' = qs" using mq_lists_unique(1) [OF l(1)] mq_lists_unique(1) [OF assms(4)] by simp
  moreover have "s \<notin> set qs" by (rule mq_in_flight(2) [OF assms(4) d(4)])
  ultimately have "list_all2 holds q (map (mq_data m') qs)" using l(2) assms(5) by simp
  moreover have "\<forall>x \<in> set (xs @ ys). phase_ok m' x"
    by (rule others_ok [where m = m and s = s and p = Fresh]) (use assms(1,5,6) d in \<open>auto simp: flight_inv_def\<close>)
  ultimately show ?thesis using assms(3,7) unfolding flight_inv_def by auto
qed

lemma link_next: "msg_queue_tail m \<noteq> Some u \<Longrightarrow> mq_next (mq_link s m) u = mq_next m u"
  by (auto simp: mq_link_def Let_def split: option.split)

text \<open>A slot that leaves the hands of its thread, to the queue or to the free list.\<close>

lemma section_released:
  assumes "mq_lists m qs fs (map fst (xs @ (s, p) # ys))" "\<forall>x \<in> set (xs @ (s, p) # ys). phase_ok m x"
    and "mq_lists m' qs' fs' (remove1 s (map fst (xs @ (s, p) # ys)))" "mq_data m' = mq_data m"
    and "\<And>u. u \<noteq> s \<Longrightarrow> u \<notin> set qs \<Longrightarrow> mq_next m' u = mq_next m u" "list_all2 holds q (map (mq_data m) qs')"
  shows "flight_inv m' (xs @ ys) q"
proof -
  note d = flight_distinct [OF assms(1)]
  have "\<forall>x \<in> set (xs @ ys). phase_ok m' x"
  proof (rule others_ok [OF assms(2) d(1,2)])
    fix u assume "u \<noteq> s" "u \<in> fst ` set (xs @ ys)"
    moreover from this have "u \<in> set (map fst (xs @ (s, p) # ys))" by auto
    ultimately show "mq_next m' u = mq_next m u \<and> mq_data m' u = mq_data m u"
      using assms(4,5) mq_in_flight(2) [OF assms(1)] by auto
  qed
  then show ?thesis using assms(3,4,6) unfolding flight_inv_def d(3) by auto
qed

lemma section_alloc:
  assumes "flight_inv m fl q" "mq_alloc m = Some (s, m')"
  shows "flight_inv m' ((s, Fresh) # fl) q"
proof -
  obtain qs fs where l: "mq_lists m qs fs (map fst fl)" "list_all2 holds q (map (mq_data m) qs)" "\<forall>x \<in> set fl. phase_ok m x"
    using assms(1) by (auto simp: flight_inv_def)
  then obtain fs' where fs: "fs = s # fs'" using assms(2) by (cases fs) (auto simp: mq_lists_def mq_alloc_def)
  then have m': "m' = m\<lparr>msg_queue_free := mq_next m s\<rparr>" "mq_lists m' qs fs' (s # map fst fl)"
    using mq_alloc_lists [of m qs s fs' "map fst fl"] l(1) assms(2) by auto
  moreover have "phase_ok m' x = phase_ok m x" for x by (rule phase_ok_cong) (simp_all add: m'(1))
  ultimately show ?thesis using l(2,3) by (auto simp: flight_inv_def)
qed

lemma section_unlink:
  assumes "flight_inv m fl (buf # q)" "mq_unlink m = Some (s, m')"
  shows "flight_inv m' ((s, Taken buf) # fl) q"
proof -
  obtain qs0 fs where l: "mq_lists m qs0 fs (map fst fl)" "list_all2 holds (buf # q) (map (mq_data m) qs0)"
    "\<forall>x \<in> set fl. phase_ok m x" using assms(1) by (auto simp: flight_inv_def)
  then obtain u qs where qs: "qs0 = u # qs" "holds buf (mq_data m u)" "list_all2 holds q (map (mq_data m) qs)"
    by (cases qs0) auto
  obtain m1 where m1: "mq_unlink m = Some (u, m1)" "mq_lists m1 qs fs (u # map fst fl)" "mq_data m1 = mq_data m"
    by (rule mq_unlink_lists [of m u qs fs "map fst fl"]) (use l(1) qs(1) in auto)
  then have e: "m1 = m'" "u = s" "mq_next m' = mq_next m" using assms(2) by (auto simp: mq_unlink_def split: option.splits)
  have "phase_ok m' x = phase_ok m x" for x by (rule phase_ok_cong) (use m1(3) e in simp_all)
  then show ?thesis using l(3) m1(2,3) qs(2,3) e unfolding flight_inv_def by auto
qed

lemma section_keeps:
  assumes "mq_section m fl q m' fl' q'" "flight_inv m fl q"
  shows "flight_inv m' fl' q'"
  using assms
proof (cases rule: mq_section.cases)
  case (alloc s)
  then show ?thesis using section_alloc assms(2) by blast
next
  case (fill s buf xs ys)
  from assms(2) obtain qs fs where l: "mq_lists m qs fs (map fst (xs @ (s, Fresh) # ys))"
    unfolding fill by (auto simp: flight_inv_def)
  obtain m1 where m1: "mq_fill s buf m = Some m1" "mq_lists m1 qs fs (map fst (xs @ (s, Fresh) # ys))"
    "mq_next m1 = (mq_next m)(s := None)" "mq_data m1 = (mq_data m)(s := buf @ drop (length buf) (mq_data m s))"
    by (rule mq_fill_lists [OF l, of s buf]) (use fill in auto)
  with fill show ?thesis
    using section_written [OF assms(2) [unfolded fill] fill(5) m1(2) l m1(4), of "Filled buf"] by (simp add: holds_written)
next
  case (copy s buf xs ys)
  from assms(2) obtain qs fs where l: "mq_lists m qs fs (map fst (xs @ (s, Fresh) # ys))"
    unfolding copy by (auto simp: flight_inv_def)
  obtain m1 where m1: "mq_copy s buf m = Some m1" "mq_lists m1 qs fs (map fst (xs @ (s, Fresh) # ys))"
    "mq_next m1 = mq_next m" "mq_data m1 = (mq_data m)(s := buf @ drop (length buf) (mq_data m s))"
    by (rule mq_copy_lists [OF l, of s buf]) (use copy in auto)
  with copy show ?thesis
    using section_written [OF assms(2) [unfolded copy] copy(5) m1(2) l m1(4), of "Urgent buf"] by (simp add: holds_written)
next
  case (link xs s buf ys)
  from assms(2) obtain qs fs where l: "mq_lists m qs fs (map fst (xs @ (s, Filled buf) # ys))"
    "list_all2 holds q (map (mq_data m) qs)" "\<forall>x \<in> set (xs @ (s, Filled buf) # ys). phase_ok m x"
    unfolding link by (auto simp: flight_inv_def)
  have s: "mq_next m s = None" "holds buf (mq_data m s)" using l(3) by auto
  note k = mq_link_lists [OF l(1) flight_distinct(4) [OF l(1)] s(1)]
  have n: "mq_next (mq_link s m) u = mq_next m u" if "u \<notin> set qs" for u
    by (rule link_next) (use l(1) that last_in_set [of qs] in \<open>auto simp: mq_lists_def\<close>)
  have "list_all2 holds (q @ [buf]) (map (mq_data m) (qs @ [s]))" using l(2) s(2) by (simp add: list_all2_appendI)
  from section_released [OF l(1,3) k(1,2) n this] show ?thesis by (simp add: link)
next
  case (push xs s buf ys)
  from assms(2) obtain qs fs where l: "mq_lists m qs fs (map fst (xs @ (s, Urgent buf) # ys))"
    "list_all2 holds q (map (mq_data m) qs)" "\<forall>x \<in> set (xs @ (s, Urgent buf) # ys). phase_ok m x"
    unfolding push by (auto simp: flight_inv_def)
  have "list_all2 holds (buf # q) (map (mq_data m) (s # qs))" using l(2,3) by simp
  from section_released [OF l(1,3) mq_push_lists [OF l(1) flight_distinct(4) [OF l(1)]] _ _ this] show ?thesis
    by (simp add: push mq_push_def)
next
  case (unlink s buf)
  then show ?thesis using section_unlink assms(2) by blast
next
  case (free xs s buf ys)
  from assms(2) obtain qs fs where l: "mq_lists m qs fs (map fst (xs @ (s, Taken buf) # ys))"
    "list_all2 holds q (map (mq_data m) qs)" "\<forall>x \<in> set (xs @ (s, Taken buf) # ys). phase_ok m x"
    unfolding free by (auto simp: flight_inv_def)
  from section_released [OF l(1,3) mq_free_lists [OF l(1) flight_distinct(4) [OF l(1)]] _ _ l(2)] show ?thesis
    by (simp add: free mq_free_slot_def)
qed

lemma run_inv: "mq_run m0 m fl q \<Longrightarrow> flight_inv m0 [] [] \<Longrightarrow> flight_inv m fl q"
  by (induction rule: mq_run.induct) (auto intro: section_keeps)

lemma new_mq_inv: "pool_ok sz n pool \<Longrightarrow> flight_inv (new_mq sz n pool) [] []"
  using new_mq_lists [of sz n pool] by (auto simp: flight_inv_def)

section \<open>Calls on a message queue\<close>

definition mq_abs :: "nat \<Rightarrow> kernel \<Rightarrow> u8 list list \<times> nat list \<times> nat list" where
  "mq_abs a k = (mq_contents (mqs k a), tlists k (Suspend a), tlists k (SuspendSender a))"

lemma upd_mq_simps [simp]:
  "mqs (upd_mq a m k) a = m" "tlists (upd_mq a m k) = tlists k" "thr (upd_mq a m k) = thr k"
  "cpus (upd_mq a m k) = cpus k" "obj (upd_mq a m k) = obj k" "sched_inv (upd_mq a m k) = sched_inv k"
  "cpu_live c (upd_mq a m k) = cpu_live c k" "waiters_live l (upd_mq a m k) = waiters_live l k"
proof -
  show "sched_inv (upd_mq a m k) = sched_inv k"
    by (rule sched_inv_ex_cong) (simp_all add: upd_mq_def is_thread_def rt_object_get_type_def)
qed (simp_all add: upd_mq_def cpu_live_def waiters_live_def is_thread_def is_timer_def rt_object_get_type_def)

lemma mq_send_rest_put:
  "mq_send_rest c a buf k = do {
     m \<leftarrow> mq_put buf (mqs k a);
     k1 \<leftarrow> wake_first c (Suspend a) (upd_mq a m k);
     Some (Ret RT_EOK, k1) }"
  by (cases "mq_alloc (mqs k a)") (auto simp: mq_send_rest_def mq_put_def)

lemma unat_u16_u32: "unat (ucast (w :: u16) :: u32) = unat w"
proof -
  have "unat w < 2 ^ 16" using unsigned_less [of w, where 'a = nat] by simp
  then show ?thesis by (simp add: unsigned_ucast_eq take_bit_nat_eq_self_iff)
qed

text \<open>Waking one side after the queue has changed.\<close>

lemma wake_after:
  assumes "sched_inv k" "cpu_live c k" "waiters_live l k" "is_wq l"
  obtains k' where "wake_first c l (upd_mq a m k) = Some k'" "sched_inv k'" "mqs k' a = m"
    "tlists k' l = tl (tlists k l)" "\<And>j. is_wq j \<Longrightarrow> j \<noteq> l \<Longrightarrow> tlists k' j = tlists k j"
proof -
  let ?k = "upd_mq a m k"
  have i: "sched_inv ?k" "cpu_live c ?k" "waiters_live l ?k" using assms(1-3) by simp_all
  obtain k' where k': "wake_first c l ?k = Some k'" "sched_inv k'" "ipc_part k' = ipc_part ?k"
    "tlists k' l = tl (tlists ?k l)" "\<And>j. is_wq j \<Longrightarrow> j \<noteq> l \<Longrightarrow> tlists k' j = tlists ?k j"
    by (rule wake_first_spec [OF i(1,2) assms(4) i(3)]) blast
  have "mqs k' a = m" using ipc_partD(5) [OF k'(3)] by simp
  with that k' show ?thesis by simp
qed

lemma mq_send_room:
  assumes "sched_inv k" "cpu_live c k" "mq_ok fl (mqs k a)" "waiters_live (Suspend a) k"
    and "msg_queue_free (mqs k a) \<noteq> None" "length buf \<le> unat (msg_size (mqs k a))"
  obtains k' d where "mq_send_rest c a buf k = Some (Ret RT_EOK, k')" "sched_inv k'" "mq_ok fl (mqs k' a)" "holds buf d"
    "mq_abs a k' = (mq_contents (mqs k a) @ [d], tl (tlists k (Suspend a)), tlists k (SuspendSender a))"
proof -
  obtain m d where m: "mq_put buf (mqs k a) = Some m" "mq_ok fl m" "mq_contents m = mq_contents (mqs k a) @ [d]" "holds buf d"
    by (rule mq_put_ok [OF assms(3,5,6)]) blast
  obtain k' where k': "wake_first c (Suspend a) (upd_mq a m k) = Some k'" "sched_inv k'" "mqs k' a = m"
    "tlists k' (Suspend a) = tl (tlists k (Suspend a))" "\<And>j. is_wq j \<Longrightarrow> j \<noteq> Suspend a \<Longrightarrow> tlists k' j = tlists k j"
    by (rule wake_after [OF assms(1,2,4) wq_lists(1), of a m]) blast
  show ?thesis
    by (rule that [of k' d]) (use m k' k'(5) [OF wq_lists(2)] in \<open>simp_all add: mq_send_rest_put mq_abs_def\<close>)
qed

lemma mq_recv_message:
  assumes "sched_inv k" "cpu_live c k" "mq_ok fl (mqs k a)" "waiters_live (SuspendSender a) k" "mq_contents (mqs k a) = d # ds"
  obtains k' where "mq_recv_rest c a sz k = Some (Ret RT_EOK, Some (take (min (unat sz) (unat (msg_size (mqs k a)))) d), k')"
    "sched_inv k'" "mq_ok fl (mqs k' a)" "mq_abs a k' = (ds, tlists k (Suspend a), tl (tlists k (SuspendSender a)))"
proof -
  obtain s m1 where m: "mq_unlink (mqs k a) = Some (s, m1)" "mq_data m1 s = d" "msg_size m1 = msg_size (mqs k a)"
    "mq_ok fl (mq_free_slot s m1)" "mq_contents (mq_free_slot s m1) = ds"
    by (rule mq_get_ok [OF assms(3,5)]) blast
  obtain k' where k': "wake_first c (SuspendSender a) (upd_mq a (mq_free_slot s m1) k) = Some k'" "sched_inv k'"
    "mqs k' a = mq_free_slot s m1" "tlists k' (SuspendSender a) = tl (tlists k (SuspendSender a))"
    "\<And>j. is_wq j \<Longrightarrow> j \<noteq> SuspendSender a \<Longrightarrow> tlists k' j = tlists k j"
    by (rule wake_after [OF assms(1,2,4) wq_lists(2), of a "mq_free_slot s m1"]) blast
  have "unat (if sz > ucast (msg_size m1) then ucast (msg_size m1) else sz :: u32) = min (unat sz) (unat (msg_size m1))"
    by (simp add: word_less_nat_alt unat_u16_u32 min_def)
  then have "mq_read sz s m1 = take (min (unat sz) (unat (msg_size (mqs k a)))) d"
    by (simp add: mq_read_def m(2,3))
  then show ?thesis
    by (intro that [of k']) (use m k' k'(5) [OF wq_lists(1)] in \<open>simp_all add: mq_recv_rest_def mq_abs_def\<close>)
qed

section \<open>The reset\<close>

lemma mq_reset_lists:
  assumes "mq_lists (m\<lparr>mq_entry := e\<rparr>) qs fs fl"
  shows "\<exists>m'. mq_reset_loop m = Some m' \<and> mq_lists (m'\<lparr>mq_entry := 0\<rparr>) [] (rev qs @ fs) fl"
  using assms
proof (induction qs arbitrary: m e fs)
  case Nil
  then have "msg_queue_head m = None" "e = 0" by (simp_all add: mq_lists_def unat_eq_0)
  with Nil show ?case by (subst mq_reset_loop.simps) simp
next
  case (Cons s qs)
  let ?m1 = "m\<lparr>msg_queue_head := mq_next m s, msg_queue_tail := (if msg_queue_tail m = Some s then None else msg_queue_tail m)\<rparr>"
  obtain m' where m': "mq_unlink (m\<lparr>mq_entry := e\<rparr>) = Some (s, m')" "mq_lists m' qs fs (s # fl)"
    by (rule mq_unlink_lists [OF Cons.prems]) blast
  have h: "msg_queue_head m = Some s" using Cons.prems by (simp add: mq_lists_def)
  with m'(1) have "m' = ?m1\<lparr>mq_entry := e - 1\<rparr>" by (auto simp: mq_unlink_def)
  then have "mq_free_slot s m' = (mq_free_slot s ?m1)\<lparr>mq_entry := e - 1\<rparr>" by (simp add: mq_free_slot_def)
  with mq_free_lists [OF m'(2), of s] have "mq_lists ((mq_free_slot s ?m1)\<lparr>mq_entry := e - 1\<rparr>) qs (s # fs) fl" by simp
  from Cons.IH [OF this] h show ?case by (subst mq_reset_loop.simps) simp
qed

text \<open>Waking all waiters leaves the running thread as it is.\<close>

definition runs_on :: "nat \<Rightarrow> nat \<Rightarrow> kernel \<Rightarrow> bool" where
  "runs_on c t k \<longleftrightarrow> cpu_live c k \<and> current_thread (cpus k c) = Some t \<and> stat_of (thr k t) = RT_THREAD_RUNNING"

lemma may_block_runs: "may_block c t k \<Longrightarrow> runs_on c t k"
  by (simp add: runs_on_def may_block_live) (simp add: may_block_def)

lemma all_woken_live:
  assumes "sched_inv k" "runs_on c t k" "is_wq l" "all_woken l k k1"
  shows "runs_on c t k1" "waiters_live m k \<Longrightarrow> is_wq m \<Longrightarrow> m \<noteq> l \<Longrightarrow> waiters_live m k1"
proof -
  have ty: "is_thread s k1 = is_thread s k" "is_timer x k1 = is_timer x k" for s x
    using assms(4) by (auto simp: all_woken_def is_thread_def is_timer_def rt_object_get_type_def)
  have "t \<notin> set (tlists k l)"
    using sched_inv_exD(3) [OF assms(1)] assms(2,3) by (auto simp: queued_ok_def runs_on_def)
  then have "thr k1 t = thr k t" using assms(4) by (simp add: all_woken_def)
  with assms(2,4) show "runs_on c t k1" by (auto simp: cpu_live_def ty all_woken_def runs_on_def)
  show "waiters_live m k1" if "waiters_live m k" "is_wq m" "m \<noteq> l"
    using that assms(4) by (simp add: waiters_live_def ty all_woken_def)
qed

section \<open>States for the examples\<close>

text \<open>A queue of one message of four bytes at address 7, empty; with thread 2 waiting on \<open>l\<close>.\<close>

definition demo_mq :: rt_messagequeue where
  "demo_mq = new_mq 4 1 (\<lambda>_. [0, 0, 0, 0])"

definition demo_queue :: kernel where
  "demo_queue = upd_mq 7 demo_mq (demo_object RT_Object_Class_MessageQueue)"

definition demo_queue_wait :: "lid \<Rightarrow> kernel" where
  "demo_queue_wait l = upd_mq 7 demo_mq (demo_wait RT_Object_Class_MessageQueue l)"

lemma demo_mq_facts:
  "mq_lists demo_mq [] [0] []" "mq_ok [] demo_mq" "mq_contents demo_mq = []" "msg_size demo_mq = 4" "max_msgs demo_mq = 1"
  "msg_queue_free demo_mq = Some 0"
proof -
  have "pool_ok 4 1 (\<lambda>_. [0, 0, 0, 0])" by (simp add: pool_ok_def RT_ALIGN_def)
  from new_mq_lists [OF this] show l: "mq_lists demo_mq [] [0] []" by (simp add: upt_rec demo_mq_def)
  from mq_lists_unique(3) [OF l] mq_contents_lists [OF l] show "mq_ok [] demo_mq" "mq_contents demo_mq = []" by simp_all
qed (simp_all add: demo_mq_def new_mq_def mq_init_slots_def mq_free_slot_def RT_ALIGN_def)

lemma demo_queue_facts:
  "sched_inv demo_queue" "cpu_live 0 demo_queue" "has_class RT_Object_Class_MessageQueue 7 demo_queue"
  "mqs demo_queue 7 = demo_mq" "waiters_live l demo_queue" "may_block 0 1 demo_queue"
  "flag_ok 7 demo_queue" "o_flag (obj demo_queue (Obj 7)) = 0" "tlists demo_queue (Suspend a) = []"
  "tlists demo_queue (SuspendSender a) = []"
proof -
  show "sched_inv demo_queue" "cpu_live 0 demo_queue"
    by (simp_all add: demo_queue_def demo_object_inv demo_may_block)
  show "may_block 0 1 demo_queue"
    using demo_may_block(1) [of RT_Object_Class_MessageQueue]
    by (simp add: demo_queue_def may_block_def upd_mq_def is_thread_def is_timer_def rt_object_get_type_def)
  show "waiters_live l demo_queue"
    by (simp add: demo_queue_def waiters_live_def demo_object_def is_thread_def is_timer_def rt_object_get_type_def
        demo_defs)
qed (simp_all add: demo_queue_def has_class_def rt_object_get_type_def demo_object_def flag_ok_def demo_defs)

lemma demo_queue_wait_facts:
  "is_wq l \<Longrightarrow> sched_inv (demo_queue_wait l)" "cpu_live 0 (demo_queue_wait l)"
  "has_class RT_Object_Class_MessageQueue 7 (demo_queue_wait l)" "mqs (demo_queue_wait l) 7 = demo_mq"
  "waiters_live m (demo_queue_wait l)" "tlists (demo_queue_wait l) = (\<lambda>_. [])(l := [2])" "may_block 0 1 (demo_queue_wait l)"
proof -
  show "sched_inv (demo_queue_wait l)" if "is_wq l" using that by (simp add: demo_queue_wait_def demo_wait_inv)
  show "cpu_live 0 (demo_queue_wait l)" "waiters_live m (demo_queue_wait l)"
    by (simp_all only: demo_queue_wait_def upd_mq_simps demo_wait_live)
  show "may_block 0 1 (demo_queue_wait l)"
    using demo_wait_live(2) [of RT_Object_Class_MessageQueue l]
    by (simp add: demo_queue_wait_def may_block_def upd_mq_def is_thread_def is_timer_def rt_object_get_type_def)
qed (simp_all add: demo_queue_wait_def has_class_def rt_object_get_type_def demo_wait_def demo_object_def demo_defs)

section \<open>Properties\<close>

text \<open>C8. Senders and receivers of a message queue may interleave in any way, also while they fill or read
  their slots with interrupts enabled: from a new queue, in every reachable state no slot is lost or
  used twice, the linked messages are the messages sent and not yet received, in order (urgent ones
  in front), what a receiver is reading is the message it took, and a queue with a positive count
  has a message to take.\<close>

theorem mq_interleaving_safe:
  assumes "pool_ok sz n pool" "mq_run (new_mq sz n pool) m fl q"
  shows "mq_ok (map fst fl) m \<and> list_all2 holds q (mq_contents m) \<and>
    (\<forall>s buf. (s, Taken buf) \<in> set fl \<longrightarrow> holds buf (mq_data m s)) \<and> (mq_entry m \<noteq> 0 \<longrightarrow> mq_unlink m \<noteq> None)"
proof -
  obtain qs fs where l: "mq_lists m qs fs (map fst fl)" "list_all2 holds q (map (mq_data m) qs)"
    "\<forall>x \<in> set fl. phase_ok m x"
    using run_inv [OF assms(2) new_mq_inv [OF assms(1)]] by (auto simp: flight_inv_def)
  have "holds buf (mq_data m s)" if "(s, Taken buf) \<in> set fl" for s buf using l(3) that by auto
  moreover have "mq_unlink m \<noteq> None" if "mq_entry m \<noteq> 0"
    using that l(1) mq_entry_zero [OF l(1)] by (cases qs) (auto simp: mq_lists_def mq_unlink_def)
  ultimately show ?thesis
    using mq_lists_unique(3) [OF l(1)] mq_contents_lists [OF l(1)] l(2) by simp
qed

theorem mq_interleaving_safe_witness:
  "\<exists>m. mq_run (new_mq 4 2 (\<lambda>_. [0, 0, 0, 0])) m [(1, Filled [7])] [] \<and> mq_ok [1] m"
proof -
  let ?m0 = "new_mq 4 2 (\<lambda>_. [0, 0, 0, 0])"
  have p: "pool_ok 4 2 (\<lambda>_. [0, 0, 0, 0])" by (simp add: pool_ok_def RT_ALIGN_def)
  have l: "mq_lists ?m0 [] [1, 0] []" using new_mq_lists [OF p] by (simp add: upt_rec)
  let ?m1 = "?m0\<lparr>msg_queue_free := mq_next ?m0 1\<rparr>"
  have sz: "msg_size ?m0 = 4" by (simp add: new_mq_def mq_init_slots_def fold_free_frame RT_ALIGN_def)
  note a = mq_alloc_lists [OF l]
  have r1: "mq_run ?m0 ?m1 [(1, Fresh)] []"
    by (rule mq_run.step [OF mq_run.start mq_section.alloc [OF a(1)]])
  obtain m2 where m2: "mq_fill 1 [7] ?m1 = Some m2"
    by (rule mq_fill_lists [OF a(2), of 1 "[7]"]) (simp_all add: sz)
  have "mq_section ?m1 ([] @ (1, Fresh) # []) [] m2 ([] @ (1, Filled [7]) # []) []"
    by (rule mq_section.fill [OF m2]) (simp add: sz)
  then have r2: "mq_run ?m0 m2 [(1, Filled [7])] []" using mq_run.step [OF r1] by simp
  from mq_interleaving_safe [OF p r2] r2 show ?thesis by auto
qed

text \<open>The sections of a message queue in sequence are a bounded first-in first-out queue: for any sequence
  of sends and receives of messages that fit, each received slot begins with the message that a
  queue of \<^verbatim>\<open>max_msgs\<close> messages would deliver.\<close>

theorem mq_fifo_trace:
  assumes "mq_ok [] m" "mq_contents m = []" "\<forall>v \<in> set (put_values ops). length v \<le> unat (msg_size m)"
  shows "\<exists>ws m'. fifo_run (\<lambda>m. msg_queue_free m = None) (\<lambda>m. mq_entry m = 0) mq_put mq_get ops m = Some (ws, m') \<and>
    mq_ok [] m' \<and> list_all2 holds (fst (queue_run (unat (max_msgs m)) ops [])) ws \<and>
    list_all2 holds (snd (queue_run (unat (max_msgs m)) ops [])) (mq_contents m')"
  using mq_fifo.run_refines [OF assms(1) _ assms(3), of "[]"] assms(2) by auto

theorem mq_fifo_trace_witness:
  "\<exists>ws m'. fifo_run (\<lambda>m. msg_queue_free m = None) (\<lambda>m. mq_entry m = 0) mq_put mq_get [Put [1, 2], Get] demo_mq = Some (ws, m') \<and>
     list_all2 holds [[1, 2]] ws"
  using mq_fifo_trace [OF demo_mq_facts(2,3), of "[Put [1, 2], Get]"] demo_mq_facts(4,5)
  by (auto simp del: fifo_run.simps)

text \<open>\<^verbatim>\<open>rt_mq_send_wait\<close> cannot fail on a message that is not empty: a message longer than a slot is refused
  with \<^verbatim>\<open>-RT_ERROR\<close>; with a free slot the message is queued last and the first waiting receiver is
  woken; without one the call returns \<^verbatim>\<open>-RT_EFULL\<close> at once or joins the senders' queue.\<close>

theorem mq_send_refines:
  assumes "sched_inv k" "cpu_live c k" "has_class RT_Object_Class_MessageQueue a k" "mq_ok fl (mqs k a)"
    and "waiters_live (Suspend a) k" "buf \<noteq> []" "timeout = 0 \<or> may_block c t k \<and> timeout \<noteq> 0x7fffffff \<and> flag_ok a k"
  shows "\<exists>r k'. rt_mq_send_wait c a buf timeout k = Some (r, k') \<and> sched_inv k' \<and> mq_ok fl (mqs k' a) \<and>
    (if length buf > unat (msg_size (mqs k a)) then r = Ret (- RT_ERROR) \<and> k' = k
     else if msg_queue_free (mqs k a) \<noteq> None then
       r = Ret RT_EOK \<and> (\<exists>d. holds buf d \<and>
         mq_abs a k' = (mq_contents (mqs k a) @ [d], tl (tlists k (Suspend a)), tlists k (SuspendSender a)))
     else if timeout = 0 then r = Ret (- RT_EFULL) \<and> k' = k
     else r = Wait (t, timeout, rt_tick_get k) \<and>
       mq_abs a k' = (mq_contents (mqs k a), tlists k (Suspend a),
         enqueue (o_flag (obj k (Obj a))) (\<lambda>s. current_priority (thr k s)) t (tlists k (SuspendSender a))))"
proof -
  note send = rt_mq_send_wait_def assms(3)
  consider (long) "length buf > unat (msg_size (mqs k a))"
    | (room) "length buf \<le> unat (msg_size (mqs k a))" "msg_queue_free (mqs k a) \<noteq> None"
    | (full) "length buf \<le> unat (msg_size (mqs k a))" "msg_queue_free (mqs k a) = None" "timeout = 0"
    | (wait) "length buf \<le> unat (msg_size (mqs k a))" "msg_queue_free (mqs k a) = None" "timeout \<noteq> 0" by fastforce
  then show ?thesis
  proof cases
    case room
    obtain k' d where "mq_send_rest c a buf k = Some (Ret RT_EOK, k')" "sched_inv k'" "mq_ok fl (mqs k' a)" "holds buf d"
      "mq_abs a k' = (mq_contents (mqs k a) @ [d], tl (tlists k (Suspend a)), tlists k (SuspendSender a))"
      by (rule mq_send_room [OF assms(1,2,4,5) room(2,1)]) blast
    with room assms(6) show ?thesis by (auto simp: send mq_send_loop_def)
  next
    case wait
    then have b: "may_block c t k" "timeout \<noteq> 0x7fffffff" "flag_ok a k" using assms(7) by simp_all
    obtain k' where k': "wait_on c (SuspendSender a) t (o_flag (obj k (Obj a))) timeout (set_error t RT_EOK k) = Some k'"
      "sched_inv k'" "ipc_part k' = ipc_part k"
      "tlists k' (SuspendSender a) = enqueue (o_flag (obj k (Obj a))) (\<lambda>s. current_priority (thr k s)) t (tlists k (SuspendSender a))"
      "\<And>m. is_wq m \<Longrightarrow> m \<noteq> SuspendSender a \<Longrightarrow> tlists k' m = tlists k m"
      by (rule block_spec [OF assms(1) b(1,2) wq_lists(2) b(3) [unfolded flag_ok_def]]) blast
    have "mqs k' = mqs k" by (rule ipc_partD(5) [OF k'(3)])
    with wait assms(4,6) k'(1,2,4) k'(5) [OF wq_lists(1)] may_blockD(7,9) [OF b(1)] show ?thesis
      by (simp add: send mq_send_loop_def mq_abs_def)
  qed (use assms(1,4,6) in \<open>simp_all add: send\<close>)
qed

theorem mq_send_refines_witness:
  "\<exists>d k'. rt_mq_send_wait 0 7 [9] 0 (demo_queue_wait (Suspend 7)) = Some (Ret RT_EOK, k') \<and> holds [9] d \<and>
     mq_abs 7 k' = ([d], [], [])"
  using mq_send_refines [OF demo_queue_wait_facts(1-3) _ demo_queue_wait_facts(5), of "Suspend 7" "[]" "[9]" 0 1]
  by (auto simp: demo_queue_wait_facts(4,6) demo_mq_facts)

text \<open>\<^verbatim>\<open>rt_mq_recv\<close> cannot fail on a non-empty buffer: with a message, the first one is delivered, cut to the
  buffer or to the slot size, its slot is freed and the first waiting sender is woken; without one
  the call returns \<^verbatim>\<open>-RT_ETIMEOUT\<close> at once or joins the receivers' queue.\<close>

theorem mq_recv_refines:
  assumes "sched_inv k" "cpu_live c k" "has_class RT_Object_Class_MessageQueue a k" "mq_ok fl (mqs k a)"
    and "waiters_live (SuspendSender a) k" "sz \<noteq> 0" "timeout = 0 \<or> may_block c t k \<and> timeout \<noteq> 0x7fffffff \<and> flag_ok a k"
  shows "\<exists>r w k'. rt_mq_recv c a sz timeout k = Some (r, w, k') \<and> sched_inv k' \<and> mq_ok fl (mqs k' a) \<and>
    (case mq_contents (mqs k a) of
       d # ds \<Rightarrow> r = Ret RT_EOK \<and> w = Some (take (min (unat sz) (unat (msg_size (mqs k a)))) d) \<and>
         mq_abs a k' = (ds, tlists k (Suspend a), tl (tlists k (SuspendSender a)))
     | [] \<Rightarrow> w = None \<and>
         (if timeout = 0 then r = Ret (- RT_ETIMEOUT) \<and> k' = k
          else r = Wait (t, timeout, rt_tick_get k) \<and>
            mq_abs a k' = ([], enqueue (o_flag (obj k (Obj a))) (\<lambda>s. current_priority (thr k s)) t (tlists k (Suspend a)),
              tlists k (SuspendSender a))))"
proof (cases "mq_contents (mqs k a)")
  case (Cons d ds)
  then have "mq_entry (mqs k a) \<noteq> 0" using mq_empty_iff [OF assms(4)] by simp
  then show ?thesis
    using mq_recv_message [OF assms(1,2,4,5) Cons, of sz] assms(3,6) Cons
    by (fastforce simp: rt_mq_recv_def mq_recv_loop_def)
next
  case Nil
  then have e: "mq_entry (mqs k a) = 0" using mq_empty_iff [OF assms(4)] by simp
  show ?thesis
  proof (cases "timeout = 0")
    case True
    with e assms(1,3,4,6) Nil show ?thesis by (simp add: rt_mq_recv_def)
  next
    case False
    then have b: "may_block c t k" "timeout \<noteq> 0x7fffffff" "flag_ok a k" using assms(7) by simp_all
    obtain k' where k': "wait_on c (Suspend a) t (o_flag (obj k (Obj a))) timeout (set_error t RT_EOK k) = Some k'"
      "sched_inv k'" "ipc_part k' = ipc_part k"
      "tlists k' (Suspend a) = enqueue (o_flag (obj k (Obj a))) (\<lambda>s. current_priority (thr k s)) t (tlists k (Suspend a))"
      "\<And>m. is_wq m \<Longrightarrow> m \<noteq> Suspend a \<Longrightarrow> tlists k' m = tlists k m"
      by (rule block_spec [OF assms(1) b(1,2) wq_lists(1) b(3) [unfolded flag_ok_def]]) blast
    have "mqs k' = mqs k" by (rule ipc_partD(5) [OF k'(3)])
    with False e assms(3,4,6) Nil k'(1,2,4) k'(5) [OF wq_lists(2)] may_blockD(7,9) [OF b(1)] show ?thesis
      by (simp add: rt_mq_recv_def mq_recv_loop_def mq_abs_def)
  qed
qed

theorem mq_recv_refines_witness:
  "\<exists>w k'. rt_mq_recv 0 7 4 10 demo_queue = Some (Wait (1, 10, rt_tick_get demo_queue), w, k') \<and> mq_abs 7 k' = ([], [1], [])"
  using mq_recv_refines [OF demo_queue_facts(1-3) _ demo_queue_facts(5), of "[]" 4 10 1]
  by (auto simp: demo_queue_facts(4,6-10) demo_queue_facts(6) [simplified] demo_mq_facts enqueue_def)

text \<open>Resetting a message queue ends: both wait queues are empty, their threads awake with \<^verbatim>\<open>-RT_ERROR\<close>, no
  message is left, and every slot that no thread holds is free again.\<close>

theorem mq_reset_frees_all:
  assumes "sched_inv k" "may_block c t k" "has_class RT_Object_Class_MessageQueue a k" "mq_ok fl (mqs k a)"
    and "waiters_live (Suspend a) k" "waiters_live (SuspendSender a) k"
  shows "\<exists>k'. rt_mq_control c a RT_IPC_CMD_RESET k = Some (RT_EOK, k') \<and> sched_inv k' \<and> mq_ok fl (mqs k' a) \<and>
    mq_abs a k' = ([], [], []) \<and> length (mq_frees (mqs k' a)) + length fl = unat (max_msgs (mqs k' a))"
proof -
  obtain k1 where k1: "rt_ipc_list_resume_all c (Suspend a) k = Some k1" "sched_inv k1" "all_woken (Suspend a) k k1"
    using resume_all_total [OF assms(1) wq_lists(1) assms(5)] by blast
  have w1: "waiters_live (SuspendSender a) k1" "runs_on c t k1"
    using all_woken_live [OF assms(1) may_block_runs [OF assms(2)] wq_lists(1) k1(3)] assms(6) by auto
  obtain k2 where k2: "rt_ipc_list_resume_all c (SuspendSender a) k1 = Some k2" "sched_inv k2" "all_woken (SuspendSender a) k1 k2"
    using resume_all_total [OF k1(2) wq_lists(2) w1(1)] by blast
  have e2: "tlists k2 (Suspend a) = []" "tlists k2 (SuspendSender a) = []"
    using k1(3) k2(3) wq_lists(1) [of a] by (auto simp: all_woken_def)
  have m2: "mqs k2 = mqs k"
    using ipc_partD(5) [OF ipc_resume_all [OF k1(1)]] ipc_partD(5) [OF ipc_resume_all [OF k2(1)]] by simp
  obtain qs fs where l: "mq_lists (mqs k a) qs fs fl" using assms(4) by (rule mq_okE)
  have "(mqs k a)\<lparr>mq_entry := mq_entry (mqs k a)\<rparr> = mqs k a" by simp
  then obtain m where m: "mq_reset_loop (mqs k a) = Some m" "mq_lists (m\<lparr>mq_entry := 0\<rparr>) [] (rev qs @ fs) fl"
    using mq_reset_lists [where m = "mqs k a" and e = "mq_entry (mqs k a)" and qs = qs and fs = fs and fl = fl] l by auto
  let ?k3 = "upd_mq a (m\<lparr>mq_entry := 0\<rparr>) k2"
  have "cpu_live c k2" using all_woken_live(1) [OF k1(2) w1(2) wq_lists(2) k2(3)] by (simp add: runs_on_def)
  then have i3: "sched_inv ?k3" "cpu_live c ?k3" using k2(2) by simp_all
  obtain k' where k': "rt_schedule c ?k3 = Some k'" "sched_inv k'" "ipc_part k' = ipc_part ?k3"
    "\<And>m. is_wq m \<Longrightarrow> tlists k' m = tlists ?k3 m" by (rule schedule_total [OF i3]) blast
  have mk: "mqs k' a = m\<lparr>mq_entry := 0\<rparr>" using ipc_partD(5) [OF k'(3)] by simp
  have "rt_mq_control c a RT_IPC_CMD_RESET k = Some (RT_EOK, k')"
    using assms(3) k1(1) k2(1) m(1) k'(1) by (simp add: rt_mq_control_def m2)
  moreover have "length (rev qs @ fs) + length fl = unat (max_msgs (m\<lparr>mq_entry := 0\<rparr>))"
    using mq_lists_length [OF m(2)] by simp
  ultimately show ?thesis
    using k'(2) k'(4) [OF wq_lists(1)] k'(4) [OF wq_lists(2)] e2 mq_lists_unique [OF m(2)] mq_contents_lists [OF m(2)]
    by (simp add: mk mq_abs_def)
qed

theorem mq_reset_frees_all_witness:
  "\<exists>k'. rt_mq_control 0 7 RT_IPC_CMD_RESET (demo_queue_wait (Suspend 7)) = Some (RT_EOK, k') \<and> mq_abs 7 k' = ([], [], [])"
  using mq_reset_frees_all [OF demo_queue_wait_facts(1,7,3) _ demo_queue_wait_facts(5,5), of "Suspend 7" "[]"]
  by (auto simp: demo_queue_wait_facts(4) demo_mq_facts)

end
