(* ===== verification/Sps.thy ===== *)
theory Sps
  imports Mailbox
begin

text \<open>
  The Smart Power Switch application (\<^verbatim>\<open>applications/sps.c\<close>, \<^verbatim>\<open>host.c\<close> and \<^verbatim>\<open>target.c\<close>): the switch pings its
  targets and applies the host's commands, the host sends commands and follows the reports, and
  each target answers pings and obeys its power line. The state has the mailboxes that connect
  them, each a ring of theory \<open>Mailbox\<close>; \<open>mb_try_send\<close> and \<open>mb_try_recv\<close> are the calls without waiting, which
  theory \<open>SpsProps\<close> relates to the kernel's. Thread bodies are split into the sections that other
  threads can come between; what a mutex guards is one section. Results of \<^verbatim>\<open>rand\<close> and of
  \<^verbatim>\<open>rt_mutex_take\<close> are arguments, and messages to the console are not modelled.
\<close>

section \<open>State\<close>

datatype sps_pwr_status = SPS_OFF | SPS_ON | SPS_FROZEN

abbreviation (input) SPS_NUM_TARGETS :: nat where "SPS_NUM_TARGETS \<equiv> 4"
abbreviation (input) SPS_PONG_COUNT :: u8 where "SPS_PONG_COUNT \<equiv> 3"

text \<open>\<^verbatim>\<open>struct sps\<close>, \<^verbatim>\<open>struct host\<close> and the array of \<^verbatim>\<open>struct target\<close>; the mailboxes they share are there once.\<close>

record power_system =
  sps_targets :: "sps_pwr_status list"
  targets_pong :: "u8 list"
  irq_out :: rt_mailbox
  irq_in :: rt_mailbox
  mb_ping :: "rt_mailbox list"
  mb_ping_ack :: rt_mailbox
  mb_ping_irq :: rt_mailbox
  gpio :: "rt_mailbox list"
  host_targets :: "sps_pwr_status list"
  target_status :: "sps_pwr_status list"

text \<open>Sending and receiving without waiting; \<open>None\<close> is an access outside the pool.\<close>

definition mb_try_send :: "u32 \<Rightarrow> rt_mailbox \<Rightarrow> (rt_err_t \<times> rt_mailbox) option" where
  "mb_try_send v m =
     (if mb_full m then Some (- RT_EFULL, m) else map_option (\<lambda>m'. (RT_EOK, m')) (mb_store v m))"

definition mb_try_recv :: "rt_mailbox \<Rightarrow> (rt_err_t \<times> u32 option \<times> rt_mailbox) option" where
  "mb_try_recv m =
     (if mb_empty m then Some (- RT_ETIMEOUT, None, m)
      else map_option (\<lambda>(v, m'). (RT_EOK, Some v, m')) (mb_fetch m))"

text \<open>A loop over the targets whose body may fail.\<close>

fun each :: "(nat \<Rightarrow> 's \<Rightarrow> 's option) \<Rightarrow> nat list \<Rightarrow> 's \<Rightarrow> 's option" where
  "each f [] s = Some s"
| "each f (i # is) s = f i s \<bind> each f is"

section \<open>The switch\<close>

text \<open>\<^verbatim>\<open>ping_thread\<close>: ping the targets that are on, read the answers, and find those that have not answered.\<close>

definition ping_send :: "nat \<Rightarrow> power_system \<Rightarrow> power_system option" where
  "ping_send i s =
     (if sps_targets s ! i \<noteq> SPS_ON then Some s
      else do {
        let s1 = s\<lparr>targets_pong := (targets_pong s)[i := targets_pong s ! i + 1]\<rparr>;
        (_, m) \<leftarrow> mb_try_send 1 (mb_ping s1 ! i);
        Some (s1\<lparr>mb_ping := (mb_ping s1)[i := m]\<rparr>) })"

definition pong_received :: "u32 \<Rightarrow> power_system \<Rightarrow> power_system" where
  "pong_received v s =
     (if v > of_nat SPS_NUM_TARGETS - 1 then s else s\<lparr>targets_pong := (targets_pong s)[unat v := 0]\<rparr>)"

partial_function (option) pong_read :: "power_system \<Rightarrow> power_system option" where
  "pong_read s =
     (if mb_empty (mb_ping_ack s) then Some s
      else do {
        (err, v, m) \<leftarrow> mb_try_recv (mb_ping_ack s);
        let s1 = s\<lparr>mb_ping_ack := m\<rparr>;
        (case v of None \<Rightarrow> Some s1 | Some w \<Rightarrow> pong_read (pong_received w s1)) })"

definition ping_check :: "nat \<Rightarrow> bool \<times> u32 \<times> power_system \<Rightarrow> bool \<times> u32 \<times> power_system" where
  "ping_check i x = (case x of (has_changed, msg, s) \<Rightarrow>
     if sps_targets s ! i \<noteq> SPS_ON then (has_changed, msg, s)
     else if targets_pong s ! i < SPS_PONG_COUNT
     then (has_changed, msg OR push_bit i 1, s\<lparr>sps_targets := (sps_targets s)[i := SPS_ON]\<rparr>)
     else (True, msg, s\<lparr>targets_pong := (targets_pong s)[i := 0],
                        sps_targets := (sps_targets s)[i := SPS_FROZEN]\<rparr>))"

definition ping_locked :: "power_system \<Rightarrow> power_system option" where
  "ping_locked s =
     (case fold ping_check [0..<SPS_NUM_TARGETS] (False, 0, s) of (has_changed, msg, s1) \<Rightarrow>
        if has_changed then do {
          (_, m) \<leftarrow> mb_try_send msg (mb_ping_irq s1);
          Some (s1\<lparr>mb_ping_irq := m\<rparr>) }
        else Some s1)"

definition ping_thread :: "rt_err_t \<Rightarrow> power_system \<Rightarrow> power_system option" where
  "ping_thread err s = do {
     s1 \<leftarrow> each ping_send [0..<SPS_NUM_TARGETS] s;
     s2 \<leftarrow> pong_read s1;
     if err \<noteq> 0 then Some s2 else ping_locked s2 }"

text \<open>\<^verbatim>\<open>irq_out_handler\<close>: one report, once there is one. The result of the second call is not used.\<close>

definition irq_out_recv :: "power_system \<Rightarrow> (u32 \<times> power_system) option" where
  "irq_out_recv s = do {
     (v, m) \<leftarrow> mb_fetch (mb_ping_irq s);
     Some (v, s\<lparr>mb_ping_irq := m\<rparr>) }"

definition irq_out_send :: "u32 \<Rightarrow> power_system \<Rightarrow> power_system option" where
  "irq_out_send v s = do {
     (_, m) \<leftarrow> mb_try_send v (irq_out s);
     Some (s\<lparr>irq_out := m\<rparr>) }"

definition irq_out_handler :: "power_system \<Rightarrow> power_system option" where
  "irq_out_handler s = do {
     (v, s1) \<leftarrow> irq_out_recv s;
     irq_out_send v s1 }"

text \<open>\<^verbatim>\<open>irq_in_handler\<close>: one command, once there is one.\<close>

definition power_of :: "u32 \<Rightarrow> sps_pwr_status" where
  "power_of v = (if v = 0 then SPS_OFF else SPS_ON)"

definition irq_in_recv :: "power_system \<Rightarrow> (u32 \<times> power_system) option" where
  "irq_in_recv s = do {
     (v, m) \<leftarrow> mb_fetch (irq_in s);
     Some (v, s\<lparr>irq_in := m\<rparr>) }"

definition gpio_set :: "u32 \<Rightarrow> nat \<Rightarrow> power_system \<Rightarrow> power_system option" where
  "gpio_set targets i s =
     (let new_target = (if targets AND push_bit i 1 \<noteq> 0 then 1 else 0) in
      if (new_target \<noteq> 0) = (sps_targets s ! i \<noteq> SPS_OFF) then Some s
      else do {
        (_, m) \<leftarrow> mb_try_send new_target (gpio s ! i);
        Some (s\<lparr>gpio := (gpio s)[i := m], sps_targets := (sps_targets s)[i := power_of new_target]\<rparr>) })"

definition irq_in_locked :: "u32 \<Rightarrow> power_system \<Rightarrow> power_system option" where
  "irq_in_locked targets s = each (gpio_set targets) [0..<SPS_NUM_TARGETS] s"

definition irq_in_handler :: "rt_err_t \<Rightarrow> power_system \<Rightarrow> power_system option" where
  "irq_in_handler err s = do {
     (v, s1) \<leftarrow> irq_in_recv s;
     if err \<noteq> 0 then Some s1 else irq_in_locked v s1 }"

section \<open>The host\<close>

text \<open>\<^verbatim>\<open>action_thread\<close>: the loop runs to \<^verbatim>\<open>sizeof(targets)\<close>, the four bytes of the command word.\<close>

definition host_choice :: "(nat \<Rightarrow> nat) \<Rightarrow> nat \<Rightarrow> bool \<times> u32 \<times> power_system \<Rightarrow> bool \<times> u32 \<times> power_system" where
  "host_choice rand i x = (case x of (changed, targets, s) \<Rightarrow>
     let (changed1, s1) =
       (if rand i mod 10 \<ge> 9 then
          (True, s\<lparr>host_targets := (host_targets s)[i := if host_targets s ! i = SPS_OFF then SPS_ON else SPS_OFF]\<rparr>)
        else (changed, s))
     in (changed1, if host_targets s1 ! i = SPS_ON then targets OR push_bit i 1 else targets, s1))"

definition action_locked :: "(nat \<Rightarrow> nat) \<Rightarrow> power_system \<Rightarrow> bool \<times> u32 \<times> power_system" where
  "action_locked rand s = fold (host_choice rand) [0..<4] (False, 0, s)"

definition action_send :: "bool \<Rightarrow> u32 \<Rightarrow> power_system \<Rightarrow> power_system option" where
  "action_send changed targets s =
     (if changed then do {
        (_, m) \<leftarrow> mb_try_send targets (irq_in s);
        Some (s\<lparr>irq_in := m\<rparr>) }
      else Some s)"

definition action_thread :: "(nat \<Rightarrow> nat) \<Rightarrow> rt_err_t \<Rightarrow> power_system \<Rightarrow> power_system option" where
  "action_thread rand err s =
     (if err \<noteq> 0 then Some s
      else (case action_locked rand s of (changed, targets, s1) \<Rightarrow> action_send changed targets s1))"

text \<open>\<^verbatim>\<open>feedback_irq_out\<close>: one report, once there is one.\<close>

definition feedback_recv :: "power_system \<Rightarrow> (u32 \<times> power_system) option" where
  "feedback_recv s = do {
     (v, m) \<leftarrow> mb_fetch (irq_out s);
     Some (v, s\<lparr>irq_out := m\<rparr>) }"

definition feedback_mark :: "u32 \<Rightarrow> nat \<Rightarrow> power_system \<Rightarrow> power_system" where
  "feedback_mark targets i s =
     (if drop_bit i targets AND 1 = 0 \<and> host_targets s ! i = SPS_ON
      then s\<lparr>host_targets := (host_targets s)[i := SPS_FROZEN]\<rparr> else s)"

definition feedback_locked :: "u32 \<Rightarrow> power_system \<Rightarrow> power_system" where
  "feedback_locked targets s = fold (feedback_mark targets) [0..<SPS_NUM_TARGETS] s"

definition feedback_irq_out :: "rt_err_t \<Rightarrow> power_system \<Rightarrow> power_system option" where
  "feedback_irq_out err s = do {
     (v, s1) \<leftarrow> feedback_recv s;
     Some (if err \<noteq> 0 then s1 else feedback_locked v s1) }"

section \<open>The targets\<close>

definition do_i_freeze :: "nat \<Rightarrow> u8 \<Rightarrow> bool" where
  "do_i_freeze rnd probability \<longleftrightarrow> \<not> (of_nat (rnd mod 100) \<ge> probability)"

text \<open>The first half of \<^verbatim>\<open>simulation_thread_entry\<close> answers a ping.\<close>

definition target_ping :: "nat \<Rightarrow> power_system \<Rightarrow> power_system option" where
  "target_ping i s =
     (if mb_empty (mb_ping s ! i) then Some s
      else do {
        (err, v, m) \<leftarrow> mb_try_recv (mb_ping s ! i);
        let s1 = s\<lparr>mb_ping := (mb_ping s)[i := m]\<rparr>;
        if err = 0 \<and> v = Some 1 \<and> target_status s1 ! i = SPS_ON then do {
          (_, m1) \<leftarrow> mb_try_send (of_nat i) (mb_ping_ack s1);
          Some (s1\<lparr>mb_ping_ack := m1\<rparr>) }
        else Some s1 })"

text \<open>The second half obeys the power line; \<^verbatim>\<open>gpio_status\<close> is 3 when there is no mail.\<close>

definition target_power :: "bool \<Rightarrow> u32 \<Rightarrow> nat \<Rightarrow> sps_pwr_status \<Rightarrow> sps_pwr_status" where
  "target_power err gpio_status rnd st =
     (case st of
        SPS_ON \<Rightarrow> if \<not> err \<and> gpio_status = 0 then SPS_OFF
                   else if do_i_freeze rnd 1 then SPS_FROZEN else SPS_ON
      | SPS_OFF \<Rightarrow> if \<not> err \<and> gpio_status = 1 then SPS_ON else SPS_OFF
      | SPS_FROZEN \<Rightarrow> if gpio_status = 0 then SPS_OFF else SPS_FROZEN)"

definition target_gpio :: "nat \<Rightarrow> nat \<Rightarrow> power_system \<Rightarrow> power_system option" where
  "target_gpio rnd i s = do {
     (err, v, m) \<leftarrow> mb_try_recv (gpio s ! i);
     Some (s\<lparr>gpio := (gpio s)[i := m],
             target_status := (target_status s)[i := target_power (err \<noteq> 0) (case v of Some w \<Rightarrow> w | None \<Rightarrow> 3) rnd
                                                      (target_status s ! i)]\<rparr>) }"

definition simulation_thread_entry :: "nat \<Rightarrow> nat \<Rightarrow> power_system \<Rightarrow> power_system option" where
  "simulation_thread_entry rnd i s = do {
     s1 \<leftarrow> target_ping i s;
     target_gpio rnd i s1 }"

end
