(* ===== verification/SpsProps.thy ===== *)
theory SpsProps
  imports Sps
begin

text \<open>
  Properties of the Smart Power Switch: the calls without waiting are those of the kernel, every
  interleaving of the threads keeps the mailboxes in bounds and their messages well formed, a round
  of pings does what a table of the targets says, and the host's commands are applied. The last
  section shows what goes wrong when a power line is busy and when a counter is stale.
\<close>

section \<open>Mailboxes with a condition on their mails\<close>

definition mb_has :: "nat \<Rightarrow> (u32 \<Rightarrow> bool) \<Rightarrow> rt_mailbox \<Rightarrow> bool" where
  "mb_has n P m \<longleftrightarrow> mb_ok m \<and> unat (mb_size m) = n \<and> (\<forall>v \<in> set (mb_contents m). P v)"

lemma try_send_has:
  assumes "mb_has n P m" "P v"
  obtains r m' where "mb_try_send v m = Some (r, m')" "mb_has n P m'"
    "if length (mb_contents m) < n then r = RT_EOK \<and> mb_contents m' = mb_contents m @ [v] else r = - RT_EFULL \<and> m' = m"
proof (cases "mb_full m")
  case True
  then have "length (mb_contents m) = n" using assms(1) by (simp add: mb_has_def mb_full_def)
  with True assms(1) that [of "- RT_EFULL" m] show ?thesis by (simp add: mb_try_send_def)
next
  case False
  have ok: "mb_ok m" "unat (mb_size m) = n" using assms(1) by (simp_all add: mb_has_def)
  have l: "length (mb_contents m) < n"
    using mb_ring.bounded [OF ok(1)] mb_ring.full_iff [OF ok(1)] False ok(2) by simp
  obtain m' where m': "mb_store v m = Some m'" "mb_ok m'" "mb_contents m' = mb_contents m @ [v]" "mb_size m' = mb_size m"
    using mb_store_ok [OF ok(1) False] by blast
  with False l assms ok(2) that [of RT_EOK m'] show ?thesis by (simp add: mb_try_send_def mb_has_def)
qed

lemma fetch_has:
  assumes "mb_has n P m" "\<not> mb_empty m"
  obtains v m' where "mb_fetch m = Some (v, m')" "mb_has n P m'" "P v" "mb_contents m = v # mb_contents m'"
proof -
  have ok: "mb_ok m" using assms(1) by (simp add: mb_has_def)
  obtain v vs where c: "mb_contents m = v # vs" using mb_ring.none_iff [OF ok] assms(2) by (cases "mb_contents m") auto
  obtain m' where "mb_fetch m = Some (v, m')" "mb_ok m'" "mb_contents m' = vs" "mb_size m' = mb_size m"
    using mb_fetch_ok [OF ok c] by blast
  with c assms(1) that [of v m'] show ?thesis by (simp add: mb_has_def)
qed

lemma try_recv_has:
  assumes "mb_has n P m"
  obtains (none) "mb_empty m" "mb_try_recv m = Some (- RT_ETIMEOUT, None, m)"
  | (mail) v m' where "mb_try_recv m = Some (RT_EOK, Some v, m')" "mb_has n P m'" "P v" "mb_contents m = v # mb_contents m'"
      "\<not> mb_empty m"
proof (cases "mb_empty m")
  case True
  with none show ?thesis by (simp add: mb_try_recv_def)
next
  case False
  obtain v m' where "mb_fetch m = Some (v, m')" "mb_has n P m'" "P v" "mb_contents m = v # mb_contents m'"
    by (rule fetch_has [OF assms False]) blast
  with False mail show ?thesis by (simp add: mb_try_recv_def)
qed

section \<open>The invariant\<close>

text \<open>Sizes of the arrays and mailboxes, and what the mails may be: a set of targets, an answer with the
  number of a target, a ping, a power level.\<close>

abbreviation target_set :: "u32 \<Rightarrow> bool" where "target_set v \<equiv> v < 16"

definition sys_ok :: "power_system \<Rightarrow> bool" where
  "sys_ok s \<longleftrightarrow>
     length (sps_targets s) = 4 \<and> length (targets_pong s) = 4 \<and> length (host_targets s) = 4 \<and>
     length (target_status s) = 4 \<and> length (mb_ping s) = 4 \<and> length (gpio s) = 4 \<and>
     mb_has 1 target_set (irq_out s) \<and> mb_has 1 target_set (irq_in s) \<and> mb_has 4 target_set (mb_ping_irq s) \<and>
     mb_has 4 (\<lambda>v. v < 4) (mb_ping_ack s) \<and>
     (\<forall>i < 4. mb_has 1 (\<lambda>v. v = 1) (mb_ping s ! i) \<and> mb_has 1 (\<lambda>v. v = 0 \<or> v = 1) (gpio s ! i))"

lemma sys_okD:
  assumes "sys_ok s"
  shows "length (sps_targets s) = 4" "length (targets_pong s) = 4" "length (host_targets s) = 4"
    "length (target_status s) = 4" "length (mb_ping s) = 4" "length (gpio s) = 4"
    "mb_has 1 target_set (irq_out s)" "mb_has 1 target_set (irq_in s)" "mb_has 4 target_set (mb_ping_irq s)"
    "mb_has 4 (\<lambda>v. v < 4) (mb_ping_ack s)" "i < 4 \<Longrightarrow> mb_has 1 (\<lambda>v. v = 1) (mb_ping s ! i)"
    "i < 4 \<Longrightarrow> mb_has 1 (\<lambda>v. v = 0 \<or> v = 1) (gpio s ! i)"
  using assms by (simp_all add: sys_ok_def)

text \<open>Changing one part of the state.\<close>

lemma sys_ok_upd:
  assumes "sys_ok s"
  shows "length xs = 4 \<Longrightarrow> sys_ok (s\<lparr>sps_targets := xs\<rparr>)" "length ps = 4 \<Longrightarrow> sys_ok (s\<lparr>targets_pong := ps\<rparr>)"
    "length xs = 4 \<Longrightarrow> sys_ok (s\<lparr>host_targets := xs\<rparr>)" "length xs = 4 \<Longrightarrow> sys_ok (s\<lparr>target_status := xs\<rparr>)"
    "mb_has 1 target_set m \<Longrightarrow> sys_ok (s\<lparr>irq_out := m\<rparr>)" "mb_has 1 target_set m \<Longrightarrow> sys_ok (s\<lparr>irq_in := m\<rparr>)"
    "mb_has 4 target_set m \<Longrightarrow> sys_ok (s\<lparr>mb_ping_irq := m\<rparr>)" "mb_has 4 (\<lambda>v. v < 4) m \<Longrightarrow> sys_ok (s\<lparr>mb_ping_ack := m\<rparr>)"
    "mb_has 1 (\<lambda>v. v = 1) m \<Longrightarrow> sys_ok (s\<lparr>mb_ping := (mb_ping s)[i := m]\<rparr>)"
    "mb_has 1 (\<lambda>v. v = 0 \<or> v = 1) m \<Longrightarrow> sys_ok (s\<lparr>gpio := (gpio s)[i := m]\<rparr>)"
  using assms by (cases "i < 4"; simp add: sys_ok_def nth_list_update)+

lemma or_bit_target_set:
  assumes "target_set v" "i < 4"
  shows "target_set (v OR push_bit i 1)"
proof -
  have "(w :: u32) < 16 \<longleftrightarrow> take_bit 4 w = w" for w
    by (simp add: word_unat_eq_iff [of "take_bit 4 w"] unsigned_take_bit_eq take_bit_nat_eq_self_iff word_less_nat_alt)
  moreover have "take_bit 4 (push_bit i (1 :: u32)) = push_bit i 1"
  proof -
    have "i = 0 \<or> i = 1 \<or> i = 2 \<or> i = 3" using assms(2) by auto
    then show ?thesis by auto
  qed
  ultimately show ?thesis using assms(1) by (simp add: take_bit_or)
qed

section \<open>Every section keeps the invariant\<close>

lemma ping_send_ok:
  assumes "sys_ok s" "i < 4"
  obtains s' where "ping_send i s = Some s'" "sys_ok s'" "sps_targets s' = sps_targets s" "mb_ping_ack s' = mb_ping_ack s"
    "mb_ping_irq s' = mb_ping_irq s"
    "targets_pong s' = (if sps_targets s ! i = SPS_ON then (targets_pong s)[i := targets_pong s ! i + 1] else targets_pong s)"
proof -
  let ?s = "s\<lparr>targets_pong := (targets_pong s)[i := targets_pong s ! i + 1]\<rparr>"
  have ok: "sys_ok ?s" by (rule sys_ok_upd(2) [OF assms(1)]) (use sys_okD [OF assms(1)] in simp)
  obtain r m where m: "mb_try_send 1 (mb_ping ?s ! i) = Some (r, m)" "mb_has 1 (\<lambda>v. v = 1) m"
    by (rule try_send_has [OF sys_okD(11) [OF ok assms(2)], of 1]) blast+
  have "sys_ok (?s\<lparr>mb_ping := (mb_ping ?s)[i := m]\<rparr>)" by (rule sys_ok_upd(9) [OF ok m(2)])
  with m(1) assms(1) that show ?thesis by (cases "sps_targets s ! i = SPS_ON") (auto simp: ping_send_def)
qed

lemma pong_received_ok: "sys_ok s \<Longrightarrow> sys_ok (pong_received w s)"
  by (simp add: pong_received_def sys_ok_upd(2) sys_okD)

lemma of_nat_target: "i < 4 \<Longrightarrow> unat (w :: u32) < 4 \<Longrightarrow> of_nat i = w \<longleftrightarrow> i = unat w"
  by (simp add: word_unat_eq_iff unsigned_of_nat take_bit_nat_eq_self)

text \<open>Reading the answers ends: the counters of all targets that answered are zero.\<close>

lemma pong_read_ok:
  assumes "sys_ok s" "mb_contents (mb_ping_ack s) = vs"
  obtains s' where "pong_read s = Some s'" "sys_ok s'" "mb_contents (mb_ping_ack s') = []" "sps_targets s' = sps_targets s"
    "mb_ping_irq s' = mb_ping_irq s"
    "\<And>i. i < 4 \<Longrightarrow> targets_pong s' ! i = (if of_nat i \<in> set vs then 0 else targets_pong s ! i)"
  using assms
proof (induction vs arbitrary: s thesis)
  case Nil
  have "mb_empty (mb_ping_ack s)" using Nil(3) sys_okD(10) [OF Nil(2)] mb_ring.none_iff by (simp add: mb_has_def)
  then have "pong_read s = Some s" by (subst pong_read.simps) simp
  with Nil show ?case by simp
next
  case (Cons w vs)
  have ne: "\<not> mb_empty (mb_ping_ack s)" using Cons.prems(3) sys_okD(10) [OF Cons.prems(2)] mb_ring.none_iff by (simp add: mb_has_def)
  obtain v m where m: "mb_fetch (mb_ping_ack s) = Some (v, m)" "mb_has 4 (\<lambda>v. v < 4) m" "v < 4" "mb_contents (mb_ping_ack s) = v # mb_contents m"
    by (rule fetch_has [OF sys_okD(10) [OF Cons.prems(2)] ne]) blast
  then have c: "v = w" "mb_contents m = vs" using Cons.prems(3) by simp_all
  let ?s = "pong_received w (s\<lparr>mb_ping_ack := m\<rparr>)"
  have ok: "sys_ok ?s" by (rule pong_received_ok [OF sys_ok_upd(8) [OF Cons.prems(2) m(2)]])
  have ack: "mb_contents (mb_ping_ack ?s) = vs" using c(2) by (simp add: pong_received_def)
  obtain s' where s': "pong_read ?s = Some s'" "sys_ok s'" "mb_contents (mb_ping_ack s') = []" "sps_targets s' = sps_targets ?s"
    "mb_ping_irq s' = mb_ping_irq ?s"
    "\<And>i. i < 4 \<Longrightarrow> targets_pong s' ! i = (if of_nat i \<in> set vs then 0 else targets_pong ?s ! i)"
    using Cons.IH [OF _ ok ack] by blast
  have w: "unat w < 4" "\<not> (w > 3)" using m(3) c(1) by (simp_all add: word_less_nat_alt)
  have "pong_read s = Some s'"
    using ne m(1) c(1) s'(1) by (subst pong_read.simps) (simp add: mb_try_recv_def)
  moreover have "targets_pong s' ! i = (if of_nat i \<in> set (w # vs) then 0 else targets_pong s ! i)" if "i < 4" for i
  proof -
    have "of_nat i = w \<longleftrightarrow> i = unat w" using that w(1) by (rule of_nat_target)
    then show ?thesis
      using s'(6) [OF that] w sys_okD(2) [OF Cons.prems(2)] that by (auto simp: pong_received_def nth_list_update)
  qed
  ultimately show ?case
    using Cons.prems(1) [of s'] s'(2-5) by (simp add: pong_received_def)
qed

lemma irq_out_ok:
  assumes "sys_ok s"
  shows "\<not> mb_empty (mb_ping_irq s) \<Longrightarrow> \<exists>v s'. irq_out_recv s = Some (v, s') \<and> target_set v \<and> sys_ok s'"
    and "target_set v \<Longrightarrow> \<exists>s'. irq_out_send v s = Some s' \<and> sys_ok s'"
proof -
  assume "\<not> mb_empty (mb_ping_irq s)"
  then obtain v m where "mb_fetch (mb_ping_irq s) = Some (v, m)" "mb_has 4 target_set m" "target_set v"
    by (rule fetch_has [OF sys_okD(9) [OF assms]]) blast
  then show "\<exists>v s'. irq_out_recv s = Some (v, s') \<and> target_set v \<and> sys_ok s'"
    by (simp add: irq_out_recv_def sys_ok_upd(7) [OF assms])
next
  assume "target_set v"
  then obtain r m where "mb_try_send v (irq_out s) = Some (r, m)" "mb_has 1 target_set m"
    by (rule try_send_has [OF sys_okD(7) [OF assms]]) blast
  then show "\<exists>s'. irq_out_send v s = Some s' \<and> sys_ok s'"
    by (simp add: irq_out_send_def sys_ok_upd(5) [OF assms])
qed

lemma irq_in_recv_ok:
  assumes "sys_ok s" "\<not> mb_empty (irq_in s)"
  shows "\<exists>v s'. irq_in_recv s = Some (v, s') \<and> target_set v \<and> sys_ok s'"
proof -
  obtain v m where "mb_fetch (irq_in s) = Some (v, m)" "mb_has 1 target_set m" "target_set v"
    by (rule fetch_has [OF sys_okD(8) [OF assms(1)] assms(2)]) blast
  then show ?thesis by (simp add: irq_in_recv_def sys_ok_upd(6) [OF assms(1)])
qed

section \<open>The check of the answers\<close>

definition missing :: "power_system \<Rightarrow> nat \<Rightarrow> bool" where
  "missing s i \<longleftrightarrow> sps_targets s ! i = SPS_ON \<and> \<not> targets_pong s ! i < SPS_PONG_COUNT"

definition alive :: "power_system \<Rightarrow> nat \<Rightarrow> bool" where
  "alive s i \<longleftrightarrow> sps_targets s ! i = SPS_ON \<and> targets_pong s ! i < SPS_PONG_COUNT"

text \<open>What the loop leaves: the missing targets frozen with their counters reset, and the others as they
  were.\<close>

definition checked :: "nat set \<Rightarrow> power_system \<Rightarrow> power_system \<Rightarrow> bool" where
  "checked A s s' \<longleftrightarrow> sys_ok s' \<and> mb_ping_irq s' = mb_ping_irq s \<and>
     (\<forall>j < 4. sps_targets s' ! j = (if j \<in> A \<and> missing s j then SPS_FROZEN else sps_targets s ! j) \<and>
              targets_pong s' ! j = (if j \<in> A \<and> missing s j then 0 else targets_pong s ! j))"

lemma ping_check_one:
  assumes "sys_ok s" "i < 4" "ping_check i (h, msg, s) = (h', msg', s')"
  shows "checked {i} s s'" "h' \<longleftrightarrow> h \<or> missing s i" "msg' = (if alive s i then msg OR push_bit i 1 else msg)"
proof -
  have l: "length (sps_targets s) = 4" "length (targets_pong s) = 4" using sys_okD [OF assms(1)] by simp_all
  have p: "sys_ok (s\<lparr>sps_targets := (sps_targets s)[i := SPS_ON]\<rparr>)"
    "sys_ok (s\<lparr>targets_pong := (targets_pong s)[i := 0], sps_targets := (sps_targets s)[i := SPS_FROZEN]\<rparr>)"
    using l sys_ok_upd(1) [OF assms(1)] sys_ok_upd(1) [OF sys_ok_upd(2) [OF assms(1)], of "(targets_pong s)[i := 0]"] by simp_all
  show "checked {i} s s'" "h' \<longleftrightarrow> h \<or> missing s i" "msg' = (if alive s i then msg OR push_bit i 1 else msg)"
    using assms l p by (auto simp: ping_check_def checked_def missing_def alive_def nth_list_update split: if_splits)
qed

lemma checked_trans:
  assumes "checked A s s1" "checked B s1 s2" "A \<inter> B = {}"
  shows "checked (A \<union> B) s s2"
proof -
  have "missing s1 j = missing s j" if "j < 4" "j \<notin> A" for j
    using assms(1) that by (simp add: checked_def missing_def)
  then show ?thesis using assms unfolding checked_def by (auto simp: disjoint_iff)
qed

lemma ping_check_loop:
  assumes "sys_ok s" "distinct is" "\<forall>i \<in> set is. i < 4" "fold ping_check is (h, msg, s) = (h', msg', s')" "target_set msg"
  shows "checked (set is) s s' \<and> (h' \<longleftrightarrow> h \<or> (\<exists>i \<in> set is. missing s i)) \<and> target_set msg' \<and>
    (\<forall>j < 32. bit msg' j \<longleftrightarrow> bit msg j \<or> j \<in> set is \<and> alive s j)"
  using assms
proof (induction "is" arbitrary: h msg s)
  case Nil
  then show ?case by (auto simp: checked_def)
next
  case (Cons i "is")
  obtain h1 msg1 s1 where e: "ping_check i (h, msg, s) = (h1, msg1, s1)" using prod_cases3 by blast
  have i: "i < 4" using Cons.prems(3) by simp
  note o = ping_check_one [OF Cons.prems(1) i e]
  have same: "missing s1 j = missing s j" "alive s1 j = alive s j" if "j \<in> set is" for j
    using o(1) that Cons.prems(2,3) by (auto simp: checked_def missing_def alive_def)
  have m1: "target_set msg1" using o(3) or_bit_target_set [OF Cons.prems(5) i] Cons.prems(5) by simp
  have b1: "bit msg1 j \<longleftrightarrow> bit msg j \<or> j = i \<and> alive s i" if "j < 32" for j
    using o(3) that i by (auto simp: bit_simps)
  have r: "checked (set is) s1 s' \<and> (h' \<longleftrightarrow> h1 \<or> (\<exists>i \<in> set is. missing s1 i)) \<and> target_set msg' \<and>
    (\<forall>j < 32. bit msg' j \<longleftrightarrow> bit msg1 j \<or> j \<in> set is \<and> alive s1 j)"
    by (rule Cons.IH [OF _ _ _ _ m1]) (use Cons.prems o(1) e in \<open>auto simp: checked_def\<close>)
  have "checked ({i} \<union> set is) s s'" using checked_trans [OF o(1)] r Cons.prems(2) by simp
  then show ?case using r same o(2) b1 by auto
qed

lemma ping_locked_ok:
  assumes "sys_ok s"
  obtains s' msg where "ping_locked s = Some s'" "sys_ok s'"
    "\<And>j. j < 4 \<Longrightarrow> sps_targets s' ! j = (if missing s j then SPS_FROZEN else sps_targets s ! j) \<and>
       targets_pong s' ! j = (if missing s j then 0 else targets_pong s ! j)"
    "\<And>j. j < 32 \<Longrightarrow> bit msg j \<longleftrightarrow> j < 4 \<and> alive s j"
    "mb_contents (mb_ping_irq s') = mb_contents (mb_ping_irq s) @
       (if (\<exists>j < 4. missing s j) \<and> length (mb_contents (mb_ping_irq s)) < 4 then [msg] else [])"
proof -
  obtain h msg s1 where e: "fold ping_check [0..<4] (False, 0, s) = (h, msg, s1)" using prod_cases3 by blast
  have l: "checked (set [0..<4]) s s1" "h \<longleftrightarrow> (\<exists>i \<in> set [0..<4]. missing s i)" "target_set msg"
    "\<forall>j < 32. bit msg j \<longleftrightarrow> j \<in> set [0..<4] \<and> alive s j"
    using ping_check_loop [OF assms _ _ e] by auto
  have ok: "sys_ok s1" "mb_ping_irq s1 = mb_ping_irq s" using l(1) by (simp_all add: checked_def)
  obtain r m where m: "mb_try_send msg (mb_ping_irq s1) = Some (r, m)" "mb_has 4 target_set m"
    "if length (mb_contents (mb_ping_irq s1)) < 4 then r = RT_EOK \<and> mb_contents m = mb_contents (mb_ping_irq s1) @ [msg]
     else r = - RT_EFULL \<and> m = mb_ping_irq s1"
    by (rule try_send_has [OF sys_okD(9) [OF ok(1)] l(3)]) blast
  let ?s = "if h then s1\<lparr>mb_ping_irq := m\<rparr> else s1"
  have "ping_locked s = Some ?s" using e m(1) by (simp add: ping_locked_def)
  moreover have "sys_ok ?s" using ok(1) sys_ok_upd(7) [OF ok(1) m(2)] by simp
  ultimately show ?thesis
    by (rule that [of ?s msg]) (use l m(3) ok(2) in \<open>auto simp: checked_def\<close>)
qed

section \<open>A round of pings\<close>

lemma ping_check_ack: "fold ping_check is (h, msg, s) = (h', msg', s') \<Longrightarrow> mb_ping_ack s' = mb_ping_ack s"
proof (induction "is" arbitrary: h msg s)
  case (Cons i "is")
  obtain h1 msg1 s1 where e: "ping_check i (h, msg, s) = (h1, msg1, s1)" using prod_cases3 by blast
  then have "mb_ping_ack s1 = mb_ping_ack s" by (auto simp: ping_check_def split: if_splits)
  with Cons e show ?case by simp
qed simp

lemma ping_send_all:
  assumes "sys_ok s" "distinct is" "\<forall>i \<in> set is. i < 4"
  shows "\<exists>s'. each ping_send is s = Some s' \<and> sys_ok s' \<and> sps_targets s' = sps_targets s \<and>
    mb_ping_ack s' = mb_ping_ack s \<and> mb_ping_irq s' = mb_ping_irq s \<and>
    (\<forall>j < 4. targets_pong s' ! j =
       (if j \<in> set is \<and> sps_targets s ! j = SPS_ON then targets_pong s ! j + 1 else targets_pong s ! j))"
  using assms
proof (induction "is" arbitrary: s)
  case (Cons i "is")
  have i: "i < 4" using Cons.prems(3) by simp
  obtain s1 where s1: "ping_send i s = Some s1" "sys_ok s1" "sps_targets s1 = sps_targets s" "mb_ping_ack s1 = mb_ping_ack s"
    "mb_ping_irq s1 = mb_ping_irq s"
    "targets_pong s1 = (if sps_targets s ! i = SPS_ON then (targets_pong s)[i := targets_pong s ! i + 1] else targets_pong s)"
    by (rule ping_send_ok [OF Cons.prems(1) i]) blast
  from Cons.IH [OF s1(2)] Cons.prems(2,3) obtain s' where
    "each ping_send is s1 = Some s'" "sys_ok s'" "sps_targets s' = sps_targets s1" "mb_ping_ack s' = mb_ping_ack s1"
    "mb_ping_irq s' = mb_ping_irq s1" "\<forall>j < 4. targets_pong s' ! j =
       (if j \<in> set is \<and> sps_targets s1 ! j = SPS_ON then targets_pong s1 ! j + 1 else targets_pong s1 ! j)" by auto
  with s1 Cons.prems(2) i sys_okD(2) [OF Cons.prems(1)] show ?case by (auto simp: nth_list_update)
qed simp

text \<open>The counter of a target before the check: zero when it has answered, one more when it was pinged.\<close>

definition pong_count :: "power_system \<Rightarrow> nat \<Rightarrow> u8" where
  "pong_count s j =
     (if of_nat j \<in> set (mb_contents (mb_ping_ack s)) then 0
      else if sps_targets s ! j = SPS_ON then targets_pong s ! j + 1 else targets_pong s ! j)"

definition goes_missing :: "power_system \<Rightarrow> nat \<Rightarrow> bool" where
  "goes_missing s j \<longleftrightarrow> sps_targets s ! j = SPS_ON \<and> \<not> pong_count s j < SPS_PONG_COUNT"

lemma ping_round:
  assumes "sys_ok s"
  obtains s' msg where "ping_thread RT_EOK s = Some s'" "sys_ok s'"
    "\<And>j. j < 4 \<Longrightarrow> sps_targets s' ! j = (if goes_missing s j then SPS_FROZEN else sps_targets s ! j) \<and>
       targets_pong s' ! j = (if goes_missing s j then 0 else pong_count s j)"
    "\<And>j. j < 32 \<Longrightarrow> bit msg j \<longleftrightarrow> j < 4 \<and> sps_targets s ! j = SPS_ON \<and> \<not> goes_missing s j"
    "mb_contents (mb_ping_irq s') = mb_contents (mb_ping_irq s) @
       (if (\<exists>j < 4. goes_missing s j) \<and> length (mb_contents (mb_ping_irq s)) < 4 then [msg] else [])"
    "mb_contents (mb_ping_ack s') = []"
proof -
  obtain s1 where s1: "each ping_send [0..<4] s = Some s1" "sys_ok s1" "sps_targets s1 = sps_targets s"
    "mb_ping_ack s1 = mb_ping_ack s" "mb_ping_irq s1 = mb_ping_irq s"
    "\<forall>j < 4. targets_pong s1 ! j =
       (if j \<in> set [0..<4] \<and> sps_targets s ! j = SPS_ON then targets_pong s ! j + 1 else targets_pong s ! j)"
    using ping_send_all [OF assms, of "[0..<4]"] by auto
  obtain s2 where s2: "pong_read s1 = Some s2" "sys_ok s2" "mb_contents (mb_ping_ack s2) = []" "sps_targets s2 = sps_targets s1"
    "mb_ping_irq s2 = mb_ping_irq s1"
    "\<And>i. i < 4 \<Longrightarrow> targets_pong s2 ! i = (if of_nat i \<in> set (mb_contents (mb_ping_ack s1)) then 0 else targets_pong s1 ! i)"
    by (rule pong_read_ok [OF s1(2) refl]) blast
  have c: "targets_pong s2 ! j = pong_count s j" if "j < 4" for j
    using s2(6) [OF that] s1(4,6) that by (auto simp: pong_count_def)
  have m: "missing s2 j = goes_missing s j" "alive s2 j \<longleftrightarrow> sps_targets s ! j = SPS_ON \<and> \<not> goes_missing s j"
    "sps_targets s2 ! j = sps_targets s ! j" if "j < 4" for j
    using c [OF that] s2(4) s1(3) by (auto simp: missing_def alive_def goes_missing_def)
  obtain s' msg where s': "ping_locked s2 = Some s'" "sys_ok s'"
    "\<And>j. j < 4 \<Longrightarrow> sps_targets s' ! j = (if missing s2 j then SPS_FROZEN else sps_targets s2 ! j) \<and>
       targets_pong s' ! j = (if missing s2 j then 0 else targets_pong s2 ! j)"
    "\<And>j. j < 32 \<Longrightarrow> bit msg j \<longleftrightarrow> j < 4 \<and> alive s2 j"
    "mb_contents (mb_ping_irq s') = mb_contents (mb_ping_irq s2) @
       (if (\<exists>j < 4. missing s2 j) \<and> length (mb_contents (mb_ping_irq s2)) < 4 then [msg] else [])"
    by (rule ping_locked_ok [OF s2(2)]) blast
  have ack: "mb_ping_ack s' = mb_ping_ack s2"
    using s'(1) ping_check_ack by (auto simp: ping_locked_def split: prod.splits if_splits elim!: bind_eq_SomeE)
  show ?thesis
  proof (rule that [of s' msg])
    show "ping_thread RT_EOK s = Some s'" using s1(1) s2(1) s'(1) by (simp add: ping_thread_def)
    show "mb_contents (mb_ping_irq s') = mb_contents (mb_ping_irq s) @
       (if (\<exists>j < 4. goes_missing s j) \<and> length (mb_contents (mb_ping_irq s)) < 4 then [msg] else [])"
      using s'(5) s2(5) s1(5) m(1) by auto
    show "mb_contents (mb_ping_ack s') = []" using ack s2(3) by simp
  qed (use s' m c in auto)
qed

section \<open>Applying a command\<close>

lemma and_bit_iff: "(v :: u32) AND push_bit i 1 \<noteq> 0 \<longleftrightarrow> bit v i"
  by (rule bit_iff_and_push_bit_not_eq_0 [symmetric])

definition commanded :: "u32 \<Rightarrow> nat \<Rightarrow> sps_pwr_status \<Rightarrow> sps_pwr_status" where
  "commanded v i st = (if bit v i then (if st = SPS_OFF then SPS_ON else st) else SPS_OFF)"

definition gpio_after :: "u32 \<Rightarrow> nat \<Rightarrow> sps_pwr_status \<Rightarrow> u32 list \<Rightarrow> u32 list" where
  "gpio_after v i st q =
     (if bit v i = (st \<noteq> SPS_OFF) \<or> q \<noteq> [] then q else [if bit v i then 1 else 0])"

lemma gpio_set_ok:
  assumes "sys_ok s" "i < 4"
  obtains s' where "gpio_set v i s = Some s'" "sys_ok s'"
    "\<And>j. j < 4 \<Longrightarrow> sps_targets s' ! j = (if j = i then commanded v i (sps_targets s ! i) else sps_targets s ! j)"
    "\<And>j. j < 4 \<Longrightarrow> mb_contents (gpio s' ! j) =
       (if j = i then gpio_after v i (sps_targets s ! i) (mb_contents (gpio s ! i)) else mb_contents (gpio s ! j))"
    "targets_pong s' = targets_pong s" "mb_ping_ack s' = mb_ping_ack s"
proof -
  let ?b = "if bit v i then 1 else 0 :: u32"
  note l = sys_okD [OF assms(1)]
  obtain r m where m: "mb_try_send ?b (gpio s ! i) = Some (r, m)" "mb_has 1 (\<lambda>v. v = 0 \<or> v = 1) m"
    "if length (mb_contents (gpio s ! i)) < 1 then r = RT_EOK \<and> mb_contents m = mb_contents (gpio s ! i) @ [?b]
     else r = - RT_EFULL \<and> m = gpio s ! i"
    by (rule try_send_has [OF l(12) [OF assms(2)], of ?b]) auto
  have mc: "mb_contents m = (if mb_contents (gpio s ! i) = [] then [?b] else mb_contents (gpio s ! i))"
    using m(3) by (cases "mb_contents (gpio s ! i)") (simp_all del: mb_length)
  have ok: "sys_ok (s\<lparr>gpio := (gpio s)[i := m], sps_targets := (sps_targets s)[i := power_of ?b]\<rparr>)"
    by (rule sys_ok_upd(1) [OF sys_ok_upd(10) [OF assms(1) m(2)]]) (simp add: l)
  show ?thesis
  proof (cases "bit v i = (sps_targets s ! i \<noteq> SPS_OFF)")
    case True
    then have "gpio_set v i s = Some s" by (simp add: gpio_set_def and_bit_iff Let_def del: push_bit_of_1)
    with True that [of s] assms(1) show ?thesis by (auto simp: commanded_def gpio_after_def)
  next
    case False
    let ?s = "s\<lparr>gpio := (gpio s)[i := m], sps_targets := (sps_targets s)[i := power_of ?b]\<rparr>"
    have "gpio_set v i s = Some ?s" using False m(1) by (auto simp: gpio_set_def and_bit_iff Let_def simp del: push_bit_of_1)
    then show ?thesis
      by (rule that [of ?s, OF _ ok])
        (use False mc l(1,6) assms(2) in \<open>auto simp: nth_list_update commanded_def power_of_def gpio_after_def\<close>)
  qed
qed

lemma gpio_set_all:
  assumes "sys_ok s" "distinct is" "\<forall>i \<in> set is. i < 4"
  shows "\<exists>s'. each (gpio_set v) is s = Some s' \<and> sys_ok s' \<and> targets_pong s' = targets_pong s \<and> mb_ping_ack s' = mb_ping_ack s \<and>
    (\<forall>j < 4. sps_targets s' ! j = (if j \<in> set is then commanded v j (sps_targets s ! j) else sps_targets s ! j) \<and>
       mb_contents (gpio s' ! j) =
         (if j \<in> set is then gpio_after v j (sps_targets s ! j) (mb_contents (gpio s ! j)) else mb_contents (gpio s ! j)))"
  using assms
proof (induction "is" arbitrary: s)
  case (Cons i "is")
  have i: "i < 4" using Cons.prems(3) by simp
  obtain s1 where s1: "gpio_set v i s = Some s1" "sys_ok s1"
    "\<And>j. j < 4 \<Longrightarrow> sps_targets s1 ! j = (if j = i then commanded v i (sps_targets s ! i) else sps_targets s ! j)"
    "\<And>j. j < 4 \<Longrightarrow> mb_contents (gpio s1 ! j) =
       (if j = i then gpio_after v i (sps_targets s ! i) (mb_contents (gpio s ! i)) else mb_contents (gpio s ! j))"
    "targets_pong s1 = targets_pong s" "mb_ping_ack s1 = mb_ping_ack s"
    by (rule gpio_set_ok [OF Cons.prems(1) i]) blast
  from Cons.IH [OF s1(2)] Cons.prems(2,3) obtain s' where
    "each (gpio_set v) is s1 = Some s'" "sys_ok s'" "targets_pong s' = targets_pong s1" "mb_ping_ack s' = mb_ping_ack s1"
    "\<forall>j < 4. sps_targets s' ! j = (if j \<in> set is then commanded v j (sps_targets s1 ! j) else sps_targets s1 ! j) \<and>
       mb_contents (gpio s' ! j) =
         (if j \<in> set is then gpio_after v j (sps_targets s1 ! j) (mb_contents (gpio s1 ! j)) else mb_contents (gpio s1 ! j))"
    by auto
  with s1 Cons.prems(2) i show ?case by auto
qed simp

lemma gpio_set_status: "each (gpio_set v) is s = Some s' \<Longrightarrow> target_status s' = target_status s"
proof (induction "is" arbitrary: s)
  case (Cons i "is")
  then obtain s1 where s1: "gpio_set v i s = Some s1" "each (gpio_set v) is s1 = Some s'" by (auto elim!: bind_eq_SomeE)
  then have "target_status s1 = target_status s"
    by (auto simp: gpio_set_def Let_def elim!: bind_eq_SomeE split: if_splits)
  with Cons.IH [OF s1(2)] show ?case by simp
qed simp

section \<open>The host and the targets\<close>

lemma host_choice_ok:
  assumes "sys_ok s" "i < 4" "target_set v" "host_choice rand i (ch, v, s) = (ch', v', s')"
  shows "sys_ok s' \<and> target_set v'"
  using assms or_bit_target_set [OF assms(3,2)] sys_okD(3) [OF assms(1)]
  by (auto simp: host_choice_def Let_def intro!: sys_ok_upd(3) split: if_splits)

lemma action_locked_ok:
  assumes "sys_ok s" "action_locked rand s = (ch, v, s')"
  shows "sys_ok s' \<and> target_set v"
proof -
  have "sys_ok s' \<and> target_set v'" if "fold (host_choice rand) is (ch, v, s) = (ch', v', s')" "sys_ok s" "target_set v"
    "\<forall>i \<in> set is. i < 4" for "is" ch v s ch' v' s'
    using that
  proof (induction "is" arbitrary: ch v s)
    case (Cons i "is")
    obtain ch1 v1 s1 where e: "host_choice rand i (ch, v, s) = (ch1, v1, s1)" using prod_cases3 by blast
    have "sys_ok s1 \<and> target_set v1" by (rule host_choice_ok [OF _ _ _ e]) (use Cons.prems in auto)
    with Cons e show ?case by simp
  qed simp
  from this [of "[0..<4]" False 0 s ch v s'] assms show ?thesis by (simp add: action_locked_def)
qed

lemma action_send_ok:
  assumes "sys_ok s" "target_set v"
  shows "\<exists>s'. action_send ch v s = Some s' \<and> sys_ok s'"
proof -
  obtain r m where "mb_try_send v (irq_in s) = Some (r, m)" "mb_has 1 target_set m"
    by (rule try_send_has [OF sys_okD(8) [OF assms(1)] assms(2)]) blast
  then show ?thesis using assms(1) by (simp add: action_send_def sys_ok_upd(6) [OF assms(1)])
qed

lemma feedback_recv_ok:
  assumes "sys_ok s" "\<not> mb_empty (irq_out s)"
  shows "\<exists>v s'. feedback_recv s = Some (v, s') \<and> sys_ok s'"
proof -
  obtain v m where "mb_fetch (irq_out s) = Some (v, m)" "mb_has 1 target_set m"
    by (rule fetch_has [OF sys_okD(7) [OF assms(1)] assms(2)]) blast
  then show ?thesis by (simp add: feedback_recv_def sys_ok_upd(5) [OF assms(1)])
qed

lemma feedback_locked_ok: "sys_ok s \<Longrightarrow> sys_ok (feedback_locked v s)"
proof -
  have "sys_ok s \<Longrightarrow> sys_ok (fold (feedback_mark v) is s)" for "is"
  proof (induction "is" arbitrary: s)
    case (Cons i "is")
    have "sys_ok (feedback_mark v i s)"
      using Cons.prems sys_okD(3) [OF Cons.prems] by (simp add: feedback_mark_def sys_ok_upd(3))
    with Cons.IH show ?case by simp
  qed simp
  then show "sys_ok s \<Longrightarrow> sys_ok (feedback_locked v s)" by (simp add: feedback_locked_def)
qed

lemma target_ping_ok:
  assumes "sys_ok s" "i < 4"
  shows "\<exists>s'. target_ping i s = Some s' \<and> sys_ok s'"
  using sys_okD(11) [OF assms]
proof (cases rule: try_recv_has)
  case none
  with assms(1) show ?thesis by (simp add: target_ping_def)
next
  case (mail v m)
  let ?s = "s\<lparr>mb_ping := (mb_ping s)[i := m]\<rparr>"
  have ok: "sys_ok ?s" by (rule sys_ok_upd(9) [OF assms(1) mail(2)])
  have i: "(of_nat i :: u32) < 4" using assms(2) by (simp add: word_less_nat_alt unsigned_of_nat take_bit_nat_eq_self)
  obtain r m1 where "mb_try_send (of_nat i) (mb_ping_ack ?s) = Some (r, m1)" "mb_has 4 (\<lambda>v. v < 4) m1"
    by (rule try_send_has [OF sys_okD(10) [OF ok] i]) blast
  with mail(1,5) ok sys_ok_upd(8) [OF ok] show ?thesis by (simp add: target_ping_def Let_def)
qed

lemma target_gpio_ok:
  assumes "sys_ok s" "i < 4"
  shows "\<exists>s'. target_gpio rnd i s = Some s' \<and> sys_ok s'"
proof -
  obtain r v m where "mb_try_recv (gpio s ! i) = Some (r, v, m)" "mb_has 1 (\<lambda>v. v = 0 \<or> v = 1) m"
    by (rule try_recv_has [OF sys_okD(12) [OF assms]]) (use sys_okD(12) [OF assms] in blast)+
  with sys_ok_upd(4) [OF sys_ok_upd(10) [OF assms(1)]] sys_okD(4) [OF assms(1)] show ?thesis
    by (simp add: target_gpio_def)
qed

section \<open>All threads together\<close>

text \<open>Where each thread is, and the messages the handlers hold between their sections.\<close>

record locals =
  ping_pc :: nat
  out_msg :: "u32 option"
  in_msg :: "u32 option"
  act_msg :: "(bool \<times> u32) option"
  fb_msg :: "u32 option"
  answered :: "nat \<Rightarrow> bool"

inductive power_step :: "power_system \<Rightarrow> locals \<Rightarrow> power_system \<Rightarrow> locals \<Rightarrow> bool" where
  ping_send: "ping_pc l < 4 \<Longrightarrow> ping_send (ping_pc l) s = Some s' \<Longrightarrow> power_step s l s' (l\<lparr>ping_pc := ping_pc l + 1\<rparr>)"
| pong_more: "ping_pc l = 4 \<Longrightarrow> \<not> mb_empty (mb_ping_ack s) \<Longrightarrow> mb_try_recv (mb_ping_ack s) = Some (err, Some w, m) \<Longrightarrow>
     power_step s l (pong_received w (s\<lparr>mb_ping_ack := m\<rparr>)) l"
| pong_none: "ping_pc l = 4 \<Longrightarrow> mb_empty (mb_ping_ack s) \<Longrightarrow> power_step s l s (l\<lparr>ping_pc := 5\<rparr>)"
| ping_lock: "ping_pc l = 5 \<Longrightarrow> ping_locked s = Some s' \<Longrightarrow> power_step s l s' (l\<lparr>ping_pc := 0\<rparr>)"
| ping_skip: "ping_pc l = 5 \<Longrightarrow> power_step s l s (l\<lparr>ping_pc := 0\<rparr>)"
| out_recv: "out_msg l = None \<Longrightarrow> irq_out_recv s = Some (v, s') \<Longrightarrow> \<not> mb_empty (mb_ping_irq s) \<Longrightarrow>
     power_step s l s' (l\<lparr>out_msg := Some v\<rparr>)"
| out_send: "out_msg l = Some v \<Longrightarrow> irq_out_send v s = Some s' \<Longrightarrow> power_step s l s' (l\<lparr>out_msg := None\<rparr>)"
| in_recv: "in_msg l = None \<Longrightarrow> irq_in_recv s = Some (v, s') \<Longrightarrow> \<not> mb_empty (irq_in s) \<Longrightarrow>
     power_step s l s' (l\<lparr>in_msg := Some v\<rparr>)"
| in_lock: "in_msg l = Some v \<Longrightarrow> irq_in_locked v s = Some s' \<Longrightarrow> power_step s l s' (l\<lparr>in_msg := None\<rparr>)"
| in_skip: "in_msg l = Some v \<Longrightarrow> power_step s l s (l\<lparr>in_msg := None\<rparr>)"
| act_lock: "act_msg l = None \<Longrightarrow> action_locked rand s = (ch, v, s') \<Longrightarrow> power_step s l s' (l\<lparr>act_msg := Some (ch, v)\<rparr>)"
| act_send: "act_msg l = Some (ch, v) \<Longrightarrow> action_send ch v s = Some s' \<Longrightarrow> power_step s l s' (l\<lparr>act_msg := None\<rparr>)"
| fb_recv: "fb_msg l = None \<Longrightarrow> feedback_recv s = Some (v, s') \<Longrightarrow> \<not> mb_empty (irq_out s) \<Longrightarrow>
     power_step s l s' (l\<lparr>fb_msg := Some v\<rparr>)"
| fb_lock: "fb_msg l = Some v \<Longrightarrow> power_step s l (feedback_locked v s) (l\<lparr>fb_msg := None\<rparr>)"
| fb_skip: "fb_msg l = Some v \<Longrightarrow> power_step s l s (l\<lparr>fb_msg := None\<rparr>)"
| tgt_ping: "i < 4 \<Longrightarrow> \<not> answered l i \<Longrightarrow> target_ping i s = Some s' \<Longrightarrow>
     power_step s l s' (l\<lparr>answered := (answered l)(i := True)\<rparr>)"
| tgt_gpio: "i < 4 \<Longrightarrow> answered l i \<Longrightarrow> target_gpio rnd i s = Some s' \<Longrightarrow>
     power_step s l s' (l\<lparr>answered := (answered l)(i := False)\<rparr>)"

inductive power_run :: "power_system \<Rightarrow> locals \<Rightarrow> power_system \<Rightarrow> locals \<Rightarrow> bool" for s0 l0 where
  start: "power_run s0 l0 s0 l0"
| more: "power_run s0 l0 s l \<Longrightarrow> power_step s l s' l' \<Longrightarrow> power_run s0 l0 s' l'"

definition locals_ok :: "locals \<Rightarrow> bool" where
  "locals_ok l \<longleftrightarrow> ping_pc l \<le> 5 \<and> (\<forall>v. out_msg l = Some v \<longrightarrow> target_set v) \<and>
     (\<forall>ch v. act_msg l = Some (ch, v) \<longrightarrow> target_set v)"

text \<open>No section reads or writes outside a mailbox.\<close>

definition sections_total :: "power_system \<Rightarrow> bool" where
  "sections_total s \<longleftrightarrow> (\<forall>i < 4. ping_send i s \<noteq> None \<and> target_ping i s \<noteq> None \<and> (\<forall>rnd. target_gpio rnd i s \<noteq> None)) \<and>
     pong_read s \<noteq> None \<and> ping_locked s \<noteq> None \<and> (mb_empty (mb_ping_irq s) \<or> irq_out_recv s \<noteq> None) \<and>
     (\<forall>v. target_set v \<longrightarrow> irq_out_send v s \<noteq> None \<and> (\<forall>ch. action_send ch v s \<noteq> None)) \<and>
     (mb_empty (irq_in s) \<or> irq_in_recv s \<noteq> None) \<and> (\<forall>v. irq_in_locked v s \<noteq> None) \<and>
     (mb_empty (irq_out s) \<or> feedback_recv s \<noteq> None)"

lemma irq_in_locked_ok: "sys_ok s \<Longrightarrow> \<exists>s'. irq_in_locked v s = Some s' \<and> sys_ok s'"
  using gpio_set_all [of s "[0..<4]" v] by (auto simp: irq_in_locked_def)

lemma sys_ok_total:
  assumes "sys_ok s"
  shows "sections_total s"
  unfolding sections_total_def
proof (intro conjI allI impI)
  show "ping_send i s \<noteq> None" "target_ping i s \<noteq> None" "target_gpio rnd i s \<noteq> None" if "i < 4" for i rnd
    using ping_send_ok [OF assms that] target_ping_ok [OF assms that] target_gpio_ok [OF assms that, of rnd] by auto
  show "pong_read s \<noteq> None" using pong_read_ok [OF assms refl] by auto
  show "ping_locked s \<noteq> None" by (rule ping_locked_ok [OF assms]) simp
  show "mb_empty (mb_ping_irq s) \<or> irq_out_recv s \<noteq> None" using irq_out_ok(1) [OF assms] by auto
  show "irq_out_send v s \<noteq> None" "action_send ch v s \<noteq> None" if "target_set v" for v ch
    using irq_out_ok(2) [OF assms that] action_send_ok [OF assms that, of ch] by auto
  show "mb_empty (irq_in s) \<or> irq_in_recv s \<noteq> None" using irq_in_recv_ok [OF assms] by auto
  show "irq_in_locked v s \<noteq> None" for v using irq_in_locked_ok [OF assms, of v] by auto
  show "mb_empty (irq_out s) \<or> feedback_recv s \<noteq> None" using feedback_recv_ok [OF assms] by auto
qed

lemma power_step_keeps:
  assumes "power_step s l s' l'" "sys_ok s" "locals_ok l"
  shows "sys_ok s' \<and> locals_ok l'"
  using assms
proof (cases rule: power_step.cases)
  case ping_send
  then show ?thesis using ping_send_ok [OF assms(2), of "ping_pc l"] assms(3) by (auto simp: locals_ok_def)
next
  case (pong_more err w m)
  have "mb_has 4 (\<lambda>v. v < 4) m"
    using sys_okD(10) [OF assms(2)] by (cases rule: try_recv_has) (use pong_more in auto)
  from pong_received_ok [OF sys_ok_upd(8) [OF assms(2) this]] pong_more assms(3) show ?thesis by simp
next
  case ping_lock
  obtain s1 where "ping_locked s = Some s1" "sys_ok s1" by (rule ping_locked_ok [OF assms(2)]) blast
  with ping_lock assms(3) show ?thesis by (auto simp: locals_ok_def)
next
  case (out_recv v)
  then show ?thesis using irq_out_ok(1) [OF assms(2)] assms(3) by (auto simp: locals_ok_def)
next
  case (out_send v)
  then show ?thesis using irq_out_ok(2) [OF assms(2), of v] assms(3) by (auto simp: locals_ok_def)
next
  case (in_recv v)
  then show ?thesis using irq_in_recv_ok [OF assms(2)] assms(3) by (auto simp: locals_ok_def)
next
  case (in_lock v)
  then show ?thesis using irq_in_locked_ok [OF assms(2), of v] assms(3) by (auto simp: locals_ok_def)
next
  case (act_lock rand ch v)
  then show ?thesis using action_locked_ok [OF assms(2) act_lock(3)] assms(3) by (auto simp: locals_ok_def)
next
  case (act_send ch v)
  then show ?thesis using action_send_ok [OF assms(2), of v ch] assms(3) by (auto simp: locals_ok_def)
next
  case (fb_recv v)
  then show ?thesis using feedback_recv_ok [OF assms(2)] assms(3) by (auto simp: locals_ok_def)
next
  case (fb_lock v)
  then show ?thesis using feedback_locked_ok [OF assms(2)] assms(3) by (auto simp: locals_ok_def)
next
  case (tgt_ping i)
  then show ?thesis using target_ping_ok [OF assms(2), of i] assms(3) by (auto simp: locals_ok_def)
next
  case (tgt_gpio i rnd)
  then show ?thesis using target_gpio_ok [OF assms(2), of i rnd] assms(3) by (auto simp: locals_ok_def)
qed (use assms(2,3) in \<open>auto simp: locals_ok_def\<close>)

lemma power_run_keeps: "power_run s0 l0 s l \<Longrightarrow> sys_ok s0 \<Longrightarrow> locals_ok l0 \<Longrightarrow> sys_ok s \<and> locals_ok l"
  by (induction rule: power_run.induct) (auto dest: power_step_keeps)

section \<open>The state at the start\<close>

text \<open>Mailboxes as \<^verbatim>\<open>rt_mb_create\<close> makes them, with whatever the pools held, and everything off.\<close>

definition fresh_mb :: "nat \<Rightarrow> (nat \<Rightarrow> u32) \<Rightarrow> rt_mailbox" where
  "fresh_mb n junk = \<lparr>msg_pool = map junk [0..<n], mb_size = of_nat n, mb_entry = 0, in_offset = 0, out_offset = 0\<rparr>"

definition power_init :: "(nat \<Rightarrow> nat \<Rightarrow> u32) \<Rightarrow> power_system" where
  "power_init junk = \<lparr>sps_targets = replicate 4 SPS_OFF, targets_pong = replicate 4 0,
     irq_out = fresh_mb 1 (junk 0), irq_in = fresh_mb 1 (junk 1),
     mb_ping = map (\<lambda>i. fresh_mb 1 (junk (4 + i))) [0..<4], mb_ping_ack = fresh_mb 4 (junk 2), mb_ping_irq = fresh_mb 4 (junk 3),
     gpio = map (\<lambda>i. fresh_mb 1 (junk (8 + i))) [0..<4],
     host_targets = replicate 4 SPS_OFF, target_status = replicate 4 SPS_OFF\<rparr>"

definition locals_init :: locals where
  "locals_init = \<lparr>ping_pc = 0, out_msg = None, in_msg = None, act_msg = None, fb_msg = None, answered = (\<lambda>_. False)\<rparr>"

lemma fresh_mb_has: "0 < n \<Longrightarrow> n < 65536 \<Longrightarrow> mb_has n P (fresh_mb n junk)"
  by (simp add: mb_has_def fresh_mb_def mb_ok_def mb_contents_def unsigned_of_nat take_bit_nat_eq_self
      word_less_nat_alt word_unat_eq_iff)

lemma power_init_ok: "sys_ok (power_init junk)" "locals_ok locals_init"
  by (simp_all add: sys_ok_def power_init_def fresh_mb_has locals_ok_def locals_init_def)

lemma kernel_send:
  assumes "sched_inv k" "cpu_live c k" "has_class RT_Object_Class_MailBox a k" "mb_ok (mbs k a)" "waiters_live (Suspend a) k"
  shows "\<exists>r k'. rt_mb_send c a v k = Some (Ret r, k') \<and> mb_try_send v (mbs k a) = Some (r, mbs k' a) \<and>
    (\<forall>b. b \<noteq> a \<longrightarrow> mbs k' b = mbs k b)"
proof (cases "mb_full (mbs k a)")
  case True
  with assms(3) show ?thesis by (simp add: rt_mb_send_def rt_mb_send_wait_def mb_try_send_def)
next
  case False
  obtain m where m: "mb_store v (mbs k a) = Some m" using mb_store_ok [OF assms(4) False] by blast
  let ?k = "upd_mb a m k"
  have i: "sched_inv ?k" "cpu_live c ?k" "waiters_live (Suspend a) ?k" using assms(1,2,5) by simp_all
  obtain k' where k': "wake_first c (Suspend a) ?k = Some k'" "ipc_part k' = ipc_part ?k"
    by (rule wake_first_spec [OF i(1,2) wq_lists(1) i(3)]) blast
  have "mbs k' = mbs ?k" by (rule ipc_partD(4) [OF k'(2)])
  with False m k'(1) assms(3) show ?thesis
    by (simp add: rt_mb_send_def rt_mb_send_wait_def mb_send_loop_def mb_try_send_def upd_mb_def)
qed

lemma kernel_recv:
  assumes "sched_inv k" "cpu_live c k" "has_class RT_Object_Class_MailBox a k" "mb_ok (mbs k a)" "waiters_live (SuspendSender a) k"
  shows "\<exists>r w k'. rt_mb_recv c a RT_WAITING_NO k = Some (Ret r, w, k') \<and> mb_try_recv (mbs k a) = Some (r, w, mbs k' a) \<and>
    (\<forall>b. b \<noteq> a \<longrightarrow> mbs k' b = mbs k b)"
proof (cases "mb_empty (mbs k a)")
  case True
  with assms(3) show ?thesis by (simp add: rt_mb_recv_def mb_try_recv_def)
next
  case False
  then obtain v vs where c: "mb_contents (mbs k a) = v # vs" using mb_ring.none_iff [OF assms(4)] by (cases "mb_contents (mbs k a)") auto
  obtain m where m: "mb_fetch (mbs k a) = Some (v, m)" using mb_fetch_ok [OF assms(4) c] by blast
  let ?k = "upd_mb a m k"
  have i: "sched_inv ?k" "cpu_live c ?k" "waiters_live (SuspendSender a) ?k" using assms(1,2,5) by simp_all
  obtain k' where k': "wake_first c (SuspendSender a) ?k = Some k'" "ipc_part k' = ipc_part ?k"
    by (rule wake_first_spec [OF i(1,2) wq_lists(2) i(3)]) blast
  have "mbs k' = mbs ?k" by (rule ipc_partD(4) [OF k'(2)])
  with False m k'(1) assms(3) show ?thesis
    by (simp add: rt_mb_recv_def mb_recv_loop_def mb_try_recv_def upd_mb_def)
qed

text \<open>The initial state with a status, a counter and a power line for the first target.\<close>

definition demo_power :: "sps_pwr_status \<Rightarrow> u8 \<Rightarrow> u32 list \<Rightarrow> power_system" where
  "demo_power st p line = (power_init (\<lambda>_ _. 0))\<lparr>
     gpio := (gpio (power_init (\<lambda>_ _. 0)))[0 := \<lparr>msg_pool = line @ [0], mb_size = 1, mb_entry = of_nat (length line),
                in_offset = 0, out_offset = 0\<rparr>], target_status := replicate 4 SPS_ON,
     targets_pong := [p, 0, 0, 0], sps_targets := [st, SPS_OFF, SPS_OFF, SPS_OFF]\<rparr>"

lemma demo_power_ok:
  assumes "line = [] \<or> line = [0]"
  shows "sys_ok (demo_power st p line)"
proof -
  have "mb_has 1 (\<lambda>v. v = 0 \<or> v = 1)
      \<lparr>msg_pool = line @ [0], mb_size = 1, mb_entry = of_nat (length line), in_offset = 0, out_offset = 0\<rparr>"
    using assms by (auto simp: mb_has_def mb_ok_def mb_contents_def)
  then show ?thesis
    unfolding demo_power_def by (intro sys_ok_upd(1) sys_ok_upd(2) sys_ok_upd(4) sys_ok_upd(10) power_init_ok) simp_all
qed

lemma demo_power_simps:
  "sps_targets (demo_power st p line) = [st, SPS_OFF, SPS_OFF, SPS_OFF]" "targets_pong (demo_power st p line) = [p, 0, 0, 0]"
  "mb_contents (mb_ping_ack (demo_power st p line)) = []" "target_status (demo_power st p line) = replicate 4 SPS_ON"
  "mb_contents (gpio (demo_power st p [0]) ! 0) = [0]"
  by (simp_all add: demo_power_def power_init_def fresh_mb_def mb_contents_def)

section \<open>Properties\<close>

text \<open>C22. The mailbox calls of the application that do not wait are those of the kernel: from any context,
  \<^verbatim>\<open>rt_mb_send\<close> and \<^verbatim>\<open>rt_mb_recv\<close> with \<^verbatim>\<open>RT_WAITING_NO\<close> return the result and leave the mailbox that the
  operations on the ring give, and leave every other mailbox alone.\<close>

theorem application_calls_are_kernel_calls:
  assumes "sched_inv k" "cpu_live c k" "has_class RT_Object_Class_MailBox a k" "mb_ok (mbs k a)"
    and "waiters_live (Suspend a) k" "waiters_live (SuspendSender a) k"
  shows "(\<exists>r k'. rt_mb_send c a v k = Some (Ret r, k') \<and> mb_try_send v (mbs k a) = Some (r, mbs k' a) \<and>
            (\<forall>b. b \<noteq> a \<longrightarrow> mbs k' b = mbs k b)) \<and>
         (\<exists>r w k'. rt_mb_recv c a RT_WAITING_NO k = Some (Ret r, w, k') \<and> mb_try_recv (mbs k a) = Some (r, w, mbs k' a) \<and>
            (\<forall>b. b \<noteq> a \<longrightarrow> mbs k' b = mbs k b))"
  using kernel_send [OF assms(1-5)] kernel_recv [OF assms(1-4,6)] by blast

theorem application_calls_are_kernel_calls_witness:
  "\<exists>r w k'. rt_mb_recv 0 7 RT_WAITING_NO (demo_mailbox [5]) = Some (Ret r, w, k') \<and>
     mb_try_recv (demo_ring [5]) = Some (r, w, mbs k' 7)"
  using application_calls_are_kernel_calls [OF demo_mailbox_facts(1-3) _ demo_mailbox_facts(5,5), of "[5]" 0]
  by (auto simp: demo_mailbox_facts(4) demo_ring_ok)



text \<open>C2. A round of \<^verbatim>\<open>ping_thread\<close> ends and follows the table: a target that is on and has not answered at the
  third ping in a row or later becomes frozen and its counter is reset; every other target keeps its
  status, with its counter at zero when it answered; and when some target froze, one report is sent
  with the bits of exactly the targets that are still on, if the mailbox has room.\<close>

theorem ping_round_follows_table:
  assumes "sys_ok s"
  shows "\<exists>s' msg. ping_thread RT_EOK s = Some s' \<and> sys_ok s' \<and>
    (\<forall>j < 4. sps_targets s' ! j = (if goes_missing s j then SPS_FROZEN else sps_targets s ! j) \<and>
             targets_pong s' ! j = (if goes_missing s j then 0 else pong_count s j)) \<and>
    (\<forall>j < 32. bit msg j \<longleftrightarrow> j < 4 \<and> sps_targets s ! j = SPS_ON \<and> \<not> goes_missing s j) \<and>
    mb_contents (mb_ping_irq s') = mb_contents (mb_ping_irq s) @
      (if (\<exists>j < 4. goes_missing s j) \<and> length (mb_contents (mb_ping_irq s)) < 4 then [msg] else [])"
proof -
  obtain s' msg where "ping_thread RT_EOK s = Some s'" "sys_ok s'"
    "\<And>j. j < 4 \<Longrightarrow> sps_targets s' ! j = (if goes_missing s j then SPS_FROZEN else sps_targets s ! j) \<and>
       targets_pong s' ! j = (if goes_missing s j then 0 else pong_count s j)"
    "\<And>j. j < 32 \<Longrightarrow> bit msg j \<longleftrightarrow> j < 4 \<and> sps_targets s ! j = SPS_ON \<and> \<not> goes_missing s j"
    "mb_contents (mb_ping_irq s') = mb_contents (mb_ping_irq s) @
       (if (\<exists>j < 4. goes_missing s j) \<and> length (mb_contents (mb_ping_irq s)) < 4 then [msg] else [])"
    by (rule ping_round [OF assms]) blast
  then show ?thesis by (intro exI [of _ s'] exI [of _ msg]) blast
qed

theorem ping_round_follows_table_witness:
  "\<exists>s'. ping_thread RT_EOK (demo_power SPS_ON 2 []) = Some s' \<and> sps_targets s' ! 0 = SPS_FROZEN"
proof -
  have "goes_missing (demo_power SPS_ON 2 []) 0" by (simp add: goes_missing_def pong_count_def demo_power_simps)
  then show ?thesis using ping_round_follows_table [OF demo_power_ok, of "[]" SPS_ON 2] by fastforce
qed



text \<open>C21. The switch applies a command of the host: afterwards a target is recorded as off exactly when its bit is
  clear, a target that was off and is switched on is recorded as on, a frozen one stays frozen while
  its bit is set, and the power line of each target whose state changes gets the new level when it
  is free. The counters of unanswered pings are not touched.\<close>

theorem command_applied:
  assumes "sys_ok s"
  shows "\<exists>s'. irq_in_locked v s = Some s' \<and> sys_ok s' \<and> targets_pong s' = targets_pong s \<and>
    (\<forall>j < 4. sps_targets s' ! j = commanded v j (sps_targets s ! j) \<and>
             mb_contents (gpio s' ! j) = gpio_after v j (sps_targets s ! j) (mb_contents (gpio s ! j)))"
  using gpio_set_all [OF assms, of "[0..<4]" v] by (auto simp: irq_in_locked_def)

theorem command_applied_witness:
  "\<exists>s'. irq_in_locked 1 (demo_power SPS_OFF 0 []) = Some s' \<and> sps_targets s' ! 0 = SPS_ON"
  using command_applied [OF demo_power_ok, of "[]" 1 SPS_OFF 0] by (auto simp: demo_power_simps commanded_def)



text \<open>A command is lost when its power line is busy: with a power-off not yet read by the target, switching
  it on is recorded by the switch but not put on the line, and the target then goes off while the
  switch has it as on.\<close>

theorem busy_line_loses_command:
  assumes "sys_ok s" "j < 4" "sps_targets s ! j = SPS_OFF" "target_status s ! j = SPS_ON" "mb_contents (gpio s ! j) = [0]" "bit v j"
  shows "\<exists>s1 s2. irq_in_locked v s = Some s1 \<and> target_gpio rnd j s1 = Some s2 \<and>
    sps_targets s2 ! j = SPS_ON \<and> target_status s2 ! j = SPS_OFF \<and> mb_contents (gpio s2 ! j) = []"
proof -
  obtain s1 where s1: "irq_in_locked v s = Some s1" "sys_ok s1"
    "\<forall>j < 4. sps_targets s1 ! j = commanded v j (sps_targets s ! j) \<and>
       mb_contents (gpio s1 ! j) = gpio_after v j (sps_targets s ! j) (mb_contents (gpio s ! j))"
    using gpio_set_all [OF assms(1), of "[0..<4]" v] by (auto simp: irq_in_locked_def)
  have t: "target_status s1 = target_status s" using s1(1) gpio_set_status by (simp add: irq_in_locked_def)
  have c: "mb_contents (gpio s1 ! j) = [0]" "sps_targets s1 ! j = SPS_ON"
    using s1(3) assms(2,3,5,6) by (auto simp: commanded_def gpio_after_def)
  have ne: "\<not> mb_empty (gpio s1 ! j)"
    using sys_okD(12) [OF s1(2) assms(2)] c(1) mb_ring.none_iff by (simp add: mb_has_def)
  obtain w m where m: "mb_fetch (gpio s1 ! j) = Some (w, m)" "mb_contents (gpio s1 ! j) = w # mb_contents m"
    by (rule fetch_has [OF sys_okD(12) [OF s1(2) assms(2)] ne]) blast
  show ?thesis
    using s1(1) m c ne t assms(2,4) sys_okD(4,6) [OF s1(2)]
    by (simp add: target_gpio_def mb_try_recv_def target_power_def)
qed

theorem busy_line_loses_command_witness:
  "\<exists>s1 s2. irq_in_locked 1 (demo_power SPS_OFF 0 [0]) = Some s1 \<and> target_gpio 50 0 s1 = Some s2 \<and>
     sps_targets s2 ! 0 = SPS_ON \<and> target_status s2 ! 0 = SPS_OFF"
  using busy_line_loses_command [OF demo_power_ok, of "[0]" 0 SPS_OFF 0 1 50] by (auto simp: demo_power_simps)

end
