(* ===== verification/SpsInit.thy ===== *)
theory SpsInit
  imports SpsProps ThreadInv
begin

text \<open>
  Setting up and taking down the Smart Power Switch (\<^verbatim>\<open>applications/main.c\<close> and the \<^verbatim>\<open>_init\<close>, \<^verbatim>\<open>_start\<close> and \<^verbatim>\<open>_delete\<close>
  functions of \<^verbatim>\<open>sps.c\<close>, \<^verbatim>\<open>host.c\<close> and \<^verbatim>\<open>target.c\<close>) with the kernel's own operations. What the allocator returns
  is an argument, by the number of the creating call in the program; so are the results of \<^verbatim>\<open>rand\<close>.
  Starting a thread can switch away from the caller: \<open>env\<close> is what happens until the caller runs again,
  with the CPU it runs on. The result \<open>None\<close> is a failed assertion, an access outside an array or
  through a null pointer, or a loop without end.
\<close>

section \<open>The structures\<close>

record sps_struct =
  p_irq_in_handler :: "nat option"
  p_irq_out_handler :: "nat option"
  p_ping_thread :: "nat option"
  p_irq_out :: "nat option"
  p_irq_in :: "nat option"
  p_mb_ping :: "nat option list"
  p_mb_ping_ack :: "nat option"
  p_mb_ping_irq :: "nat option"
  p_gpio :: "nat option list"
  p_target_mutex :: "nat option"
  s_targets :: "sps_pwr_status list"
  s_targets_pong :: "u8 list"

record host_struct =
  p_action_thread :: "nat option"
  p_feedback_irq_out_handler :: "nat option"
  h_irq_out :: "nat option"
  h_irq_in :: "nat option"
  h_targets :: "sps_pwr_status list"
  h_target_mutex :: "nat option"

record target_struct =
  p_simulation_thread :: "nat option"
  t_mb_gpio :: "nat option"
  t_mb_ping :: "nat option"
  t_mb_ping_ack :: "nat option"
  t_id :: u8
  t_status :: sps_pwr_status

text \<open>The global variables, which start out as zeros.\<close>

definition zero_sps :: sps_struct where
  "zero_sps = \<lparr>p_irq_in_handler = None, p_irq_out_handler = None, p_ping_thread = None, p_irq_out = None,
     p_irq_in = None, p_mb_ping = replicate 4 None, p_mb_ping_ack = None, p_mb_ping_irq = None,
     p_gpio = replicate 4 None, p_target_mutex = None, s_targets = replicate 4 SPS_OFF, s_targets_pong = replicate 4 0\<rparr>"

definition zero_host :: host_struct where
  "zero_host = \<lparr>p_action_thread = None, p_feedback_irq_out_handler = None, h_irq_out = None, h_irq_in = None,
     h_targets = replicate 4 SPS_OFF, h_target_mutex = None\<rparr>"

definition zero_target :: target_struct where
  "zero_target = \<lparr>p_simulation_thread = None, t_mb_gpio = None, t_mb_ping = None, t_mb_ping_ack = None, t_id = 0,
     t_status = SPS_OFF\<rparr>"

record allocator =
  new_object :: "nat \<Rightarrow> nat option"
  new_stack :: "nat \<Rightarrow> nat option"
  new_pool :: "nat \<Rightarrow> u32 list option"

section \<open>The switch\<close>

definition create_mb :: "nat \<Rightarrow> allocator \<Rightarrow> nat \<Rightarrow> string \<Rightarrow> u32 \<Rightarrow> kernel \<Rightarrow> (nat option \<times> kernel) option" where
  "create_mb c al n name sz k = rt_mb_create c name sz RT_IPC_FLAG_FIFO (new_object al n) (new_pool al n) k"

definition delete_mb :: "nat \<Rightarrow> nat option \<Rightarrow> kernel \<Rightarrow> kernel option" where
  "delete_mb c mb k = do {
     a \<leftarrow> mb;
     (_, k1) \<leftarrow> rt_mb_delete c a k;
     Some k1 }"

definition delete_mutex :: "nat \<Rightarrow> nat option \<Rightarrow> kernel \<Rightarrow> kernel option" where
  "delete_mutex c m k = do {
     a \<leftarrow> m;
     (_, k1) \<leftarrow> rt_mutex_delete c a k;
     Some k1 }"

definition numbered :: "string \<Rightarrow> nat \<Rightarrow> string" where
  "numbered name i = name @ [char_of (48 + i)]"

text \<open>The loop of \<^verbatim>\<open>__sps_init_mailboxes\<close> over the targets; its first result is the value of \<^verbatim>\<open>i\<close> at the label
  \<^verbatim>\<open>mb_delete_ping\<close> when it jumps there.\<close>

fun target_mailboxes ::
    "nat \<Rightarrow> allocator \<Rightarrow> nat list \<Rightarrow> sps_struct \<Rightarrow> kernel \<Rightarrow> (u8 option \<times> sps_struct \<times> kernel) option" where
  "target_mailboxes c al [] p k = Some (None, p, k)"
| "target_mailboxes c al (i # is) p k = do {
     (mb, k1) \<leftarrow> create_mb c al (8 + 2 * i) (numbered ''ping'' i) 1 k;
     let p1 = p\<lparr>p_mb_ping := (p_mb_ping p)[i := mb]\<rparr>;
     if mb = None then Some (Some (of_nat i), p1, k1)
     else do {
       (gp, k2) \<leftarrow> create_mb c al (9 + 2 * i) (numbered ''gpio'' i) 1 k1;
       let p2 = p1\<lparr>p_gpio := (p_gpio p1)[i := gp]\<rparr>;
       if gp = None then Some (Some (of_nat i + 1), p2, k2)
       else target_mailboxes c al is p2 k2 } }"

text \<open>The loop at \<^verbatim>\<open>mb_delete_ping\<close>: \<^verbatim>\<open>j\<close> is an 8-bit unsigned number.\<close>

partial_function (option) mb_delete_ping :: "nat \<Rightarrow> u8 \<Rightarrow> u8 \<Rightarrow> sps_struct \<Rightarrow> kernel \<Rightarrow> kernel option" where
  "mb_delete_ping c i j p k =
     (if j \<ge> 0 then do {
        rt_assert (unat j < SPS_NUM_TARGETS);
        k1 \<leftarrow> delete_mb c (p_mb_ping p ! unat j) k;
        k2 \<leftarrow> (if uint j = uint i - 1 then Some k1 else delete_mb c (p_gpio p ! unat j) k1);
        mb_delete_ping c i (j - 1) p k2 }
      else Some k)"

definition sps_init_mailboxes ::
    "nat \<Rightarrow> allocator \<Rightarrow> sps_struct \<Rightarrow> kernel \<Rightarrow> (rt_err_t \<times> sps_struct \<times> kernel) option" where
  "sps_init_mailboxes c al p k = do {
     (out, k1) \<leftarrow> create_mb c al 4 ''irq_out'' 1 k;
     let p1 = p\<lparr>p_irq_out := out\<rparr>;
     if out = None then Some (RT_ERROR, p1, k1)
     else do {
     (inn, k2) \<leftarrow> create_mb c al 5 ''irq_in'' 1 k1;
     let p2 = p1\<lparr>p_irq_in := inn\<rparr>;
     if inn = None then do {
       d1 \<leftarrow> delete_mb c out k2;
       Some (RT_ERROR, p2, d1) }
     else do {
     (ack, k3) \<leftarrow> create_mb c al 6 ''pingack'' 4 k2;
     let p3 = p2\<lparr>p_mb_ping_ack := ack\<rparr>;
     if ack = None then do {
       d1 \<leftarrow> delete_mb c inn k3;
       d2 \<leftarrow> delete_mb c out d1;
       Some (RT_ERROR, p3, d2) }
     else do {
     (irq, k4) \<leftarrow> create_mb c al 7 ''pingirq'' 4 k3;
     let p4 = p3\<lparr>p_mb_ping_irq := irq\<rparr>;
     if irq = None then do {
       d1 \<leftarrow> delete_mb c ack k4;
       d2 \<leftarrow> delete_mb c inn d1;
       d3 \<leftarrow> delete_mb c out d2;
       Some (RT_ERROR, p4, d3) }
     else do {
     (failed, p5, k5) \<leftarrow> target_mailboxes c al [0..<SPS_NUM_TARGETS] p4 k4;
     (case failed of
        None \<Rightarrow> Some (RT_EOK, p5, k5)
      | Some i \<Rightarrow> do {
          d0 \<leftarrow> mb_delete_ping c i (i - 1) p5 k5;
          d1 \<leftarrow> delete_mb c irq d0;
          d2 \<leftarrow> delete_mb c ack d1;
          d3 \<leftarrow> delete_mb c inn d2;
          d4 \<leftarrow> delete_mb c out d3;
          Some (RT_ERROR, p5, d4) }) } } } } }"

text \<open>Thread entries by number, and \<^verbatim>\<open>&sps\<close> as the parameter 0.\<close>

abbreviation (input) irq_out_entry :: code_ptr where "irq_out_entry \<equiv> Code 1"
abbreviation (input) irq_in_entry :: code_ptr where "irq_in_entry \<equiv> Code 2"
abbreviation (input) ping_entry :: code_ptr where "ping_entry \<equiv> Code 3"
abbreviation (input) action_entry :: code_ptr where "action_entry \<equiv> Code 4"
abbreviation (input) feedback_entry :: code_ptr where "feedback_entry \<equiv> Code 5"
abbreviation (input) simulation_entry :: code_ptr where "simulation_entry \<equiv> Code 6"

definition create_thread :: "nat \<Rightarrow> allocator \<Rightarrow> nat \<Rightarrow> string \<Rightarrow> code_ptr \<Rightarrow> nat \<Rightarrow> kernel \<Rightarrow> (nat option \<times> kernel) option" where
  "create_thread c al n name ent param k =
     rt_thread_create c name ent param 1024 1 1 (new_object al n) (new_stack al n) k"

definition create_periodic ::
    "nat \<Rightarrow> allocator \<Rightarrow> nat \<Rightarrow> string \<Rightarrow> code_ptr \<Rightarrow> nat \<Rightarrow> u32 \<Rightarrow> u32 \<Rightarrow> kernel \<Rightarrow> (nat option \<times> kernel) option" where
  "create_periodic c al n name ent param stk per k =
     rt_thread_create_periodic c name ent param stk 1 1 per (new_object al n) (new_stack al n) k"

definition delete_thread :: "nat option \<Rightarrow> kernel \<Rightarrow> kernel option" where
  "delete_thread th k = do {
     t \<leftarrow> th;
     rt_thread_delete t k }"

definition sps_init_threads ::
    "nat \<Rightarrow> allocator \<Rightarrow> sps_struct \<Rightarrow> kernel \<Rightarrow> (rt_err_t \<times> sps_struct \<times> kernel) option" where
  "sps_init_threads c al p k = do {
     (out, k1) \<leftarrow> create_thread c al 1 ''sps_irq_out'' irq_out_entry 0 k;
     let p1 = p\<lparr>p_irq_out_handler := out\<rparr>;
     if out = None then Some (RT_ERROR, p1, k1)
     else do {
     (inn, k2) \<leftarrow> create_thread c al 2 ''sps_irq_in'' irq_in_entry 0 k1;
     let p2 = p1\<lparr>p_irq_in_handler := inn\<rparr>;
     if inn = None then do {
       d1 \<leftarrow> delete_thread out k2;
       Some (RT_ERROR, p2, d1) }
     else do {
     (ping, k3) \<leftarrow> create_periodic c al 3 ''sps_ping'' ping_entry 0 1024 100 k2;
     let p3 = p2\<lparr>p_ping_thread := ping\<rparr>;
     if ping = None then do {
       d1 \<leftarrow> delete_thread inn k3;
       d2 \<leftarrow> delete_thread out d1;
       Some (RT_ERROR, p3, d2) }
     else Some (RT_EOK, p3, k3) } } }"

definition delete_if_set :: "nat option \<Rightarrow> kernel \<Rightarrow> kernel option" where
  "delete_if_set th k = (case th of None \<Rightarrow> Some k | Some t \<Rightarrow> rt_thread_delete t k)"

definition sps_clear_threads :: "sps_struct \<Rightarrow> kernel \<Rightarrow> kernel option" where
  "sps_clear_threads p k = do {
     k1 \<leftarrow> delete_if_set (p_ping_thread p) k;
     k2 \<leftarrow> delete_if_set (p_irq_in_handler p) k1;
     delete_if_set (p_irq_out_handler p) k2 }"

text \<open>The first result says whether \<^verbatim>\<open>&sps\<close> is returned.\<close>

definition sps_init :: "nat \<Rightarrow> allocator \<Rightarrow> sps_struct \<Rightarrow> kernel \<Rightarrow> (bool \<times> sps_struct \<times> kernel) option" where
  "sps_init c al p k = do {
     (m, k1) \<leftarrow> rt_mutex_create c ''sps_target_mutex'' RT_IPC_FLAG_FIFO (new_object al 0) k;
     let p1 = p\<lparr>p_target_mutex := m\<rparr>;
     if m = None then Some (False, p1, k1)
     else do {
     (err, p2, k2) \<leftarrow> sps_init_threads c al p1 k1;
     if err \<noteq> 0 then do {
       d1 \<leftarrow> delete_mutex c m k2;
       Some (False, p2, d1) }
     else do {
     (err, p3, k3) \<leftarrow> sps_init_mailboxes c al p2 k2;
     if err \<noteq> 0 then do {
       d1 \<leftarrow> sps_clear_threads p3 k3;
       d2 \<leftarrow> delete_mutex c m d1;
       Some (False, p3, d2) }
     else Some (True, p3, k3) } } }"

definition sps_delete :: "nat \<Rightarrow> sps_struct \<Rightarrow> kernel \<Rightarrow> kernel option" where
  "sps_delete c p k = do {
     k1 \<leftarrow> delete_mutex c (p_target_mutex p) k;
     k2 \<leftarrow> each (\<lambda>i k. do {
       k' \<leftarrow> delete_mb c (p_mb_ping p ! i) k;
       delete_mb c (p_gpio p ! i) k' }) [0..<SPS_NUM_TARGETS] k1;
     k3 \<leftarrow> delete_mb c (p_mb_ping_irq p) k2;
     k4 \<leftarrow> delete_mb c (p_mb_ping_ack p) k3;
     k5 \<leftarrow> delete_mb c (p_irq_in p) k4;
     k6 \<leftarrow> delete_mb c (p_irq_out p) k5;
     sps_clear_threads p k6 }"

text \<open>Starting: \<open>n\<close> numbers the call.\<close>

type_synonym environment = "nat \<Rightarrow> kernel \<Rightarrow> (nat \<times> kernel) option"

definition start_thread ::
    "environment \<Rightarrow> nat \<Rightarrow> nat option \<Rightarrow> nat \<times> kernel \<Rightarrow> (rt_err_t \<times> nat \<times> kernel) option" where
  "start_thread env n th x = (case x of (c, k) \<Rightarrow> do {
     t \<leftarrow> th;
     k1 \<leftarrow> rt_thread_startup c t k;
     y \<leftarrow> env n k1;
     Some (RT_EOK, y) })"

definition sps_start :: "environment \<Rightarrow> sps_struct \<Rightarrow> nat \<times> kernel \<Rightarrow> (rt_err_t \<times> nat \<times> kernel) option" where
  "sps_start env p x = do {
     (err, x1) \<leftarrow> start_thread env 0 (p_irq_out_handler p) x;
     if err \<noteq> 0 then Some (err, x1)
     else do {
     (err, x2) \<leftarrow> start_thread env 1 (p_ping_thread p) x1;
     if err \<noteq> 0 then Some (err, x2)
     else start_thread env 2 (p_irq_in_handler p) x2 } }"

section \<open>The host\<close>

definition host_init ::
    "nat \<Rightarrow> allocator \<Rightarrow> nat option \<Rightarrow> nat option \<Rightarrow> host_struct \<Rightarrow> kernel \<Rightarrow> (bool \<times> host_struct \<times> kernel) option" where
  "host_init c al out inn h k = do {
     (act, k1) \<leftarrow> create_periodic c al 16 ''host_action'' action_entry 1 1024 500 k;
     let h1 = h\<lparr>p_action_thread := act\<rparr>;
     if act = None then Some (False, h1, k1)
     else do {
     (fb, k2) \<leftarrow> create_thread c al 17 ''host_irq_out'' feedback_entry 1 k1;
     let h2 = h1\<lparr>p_feedback_irq_out_handler := fb\<rparr>;
     if fb = None then do {
       d1 \<leftarrow> delete_thread act k2;
       Some (False, h2, d1) }
     else do {
     let h3 = h2\<lparr>h_irq_out := out, h_irq_in := inn\<rparr>;
     (m, k3) \<leftarrow> rt_mutex_create c ''host_target_sem'' RT_IPC_FLAG_FIFO (new_object al 18) k2;
     let h4 = h3\<lparr>h_target_mutex := m\<rparr>;
     if m = None then do {
       d1 \<leftarrow> delete_thread fb k3;
       d2 \<leftarrow> delete_thread act d1;
       Some (False, h4, d2) }
     else Some (True, h4, k3) } } }"

definition host_start :: "environment \<Rightarrow> host_struct \<Rightarrow> nat \<times> kernel \<Rightarrow> (rt_err_t \<times> nat \<times> kernel) option" where
  "host_start env h x = do {
     (err, x1) \<leftarrow> start_thread env 3 (p_action_thread h) x;
     if err \<noteq> 0 then Some (err, x1)
     else start_thread env 4 (p_feedback_irq_out_handler h) x1 }"

definition host_delete :: "nat \<Rightarrow> host_struct \<Rightarrow> kernel \<Rightarrow> kernel option" where
  "host_delete c h k = do {
     k1 \<leftarrow> delete_mutex c (h_target_mutex h) k;
     k2 \<leftarrow> delete_if_set (p_feedback_irq_out_handler h) k1;
     delete_if_set (p_action_thread h) k2 }"

section \<open>The targets\<close>

text \<open>\<open>rand\<close> gives the results of the calls of \<^verbatim>\<open>rand\<close>, the next one first.\<close>

partial_function (option) target_period :: "(nat \<Rightarrow> nat) \<Rightarrow> nat \<Rightarrow> u8 option" where
  "target_period rand n =
     (let period = of_nat (rand n mod 100) in
      if period < 10 then target_period rand (n + 1) else Some period)"

definition target_init ::
    "nat \<Rightarrow> allocator \<Rightarrow> (nat \<Rightarrow> nat) \<Rightarrow> nat option \<Rightarrow> nat option \<Rightarrow> nat option \<Rightarrow> nat \<Rightarrow> target_struct \<Rightarrow> kernel \<Rightarrow>
     (rt_err_t \<times> target_struct \<times> kernel) option" where
  "target_init c al rand ping ack gp i tg k = do {
     let t1 = tg\<lparr>t_id := of_nat i, t_mb_ping := ping, t_mb_ping_ack := ack, t_mb_gpio := gp, t_status := SPS_OFF\<rparr>;
     per \<leftarrow> target_period rand 0;
     (th, k1) \<leftarrow> create_periodic c al (19 + i) (numbered ''target'' i) simulation_entry (2 + i) 512 (ucast per) k;
     Some (if th \<noteq> None then RT_EOK else RT_ERROR, t1\<lparr>p_simulation_thread := th\<rparr>, k1) }"

definition target_start :: "environment \<Rightarrow> nat \<Rightarrow> target_struct \<Rightarrow> nat \<times> kernel \<Rightarrow> (rt_err_t \<times> nat \<times> kernel) option" where
  "target_start env n tg x = start_thread env n (p_simulation_thread tg) x"

definition target_delete :: "target_struct \<Rightarrow> kernel \<Rightarrow> kernel option" where
  "target_delete tg k = delete_if_set (p_simulation_thread tg) k"

section \<open>The main function\<close>

fun init_targets ::
    "nat \<Rightarrow> allocator \<Rightarrow> (nat \<Rightarrow> nat \<Rightarrow> nat) \<Rightarrow> sps_struct \<Rightarrow> nat list \<Rightarrow> target_struct list \<Rightarrow> kernel \<Rightarrow>
     (rt_err_t \<times> target_struct list \<times> kernel) option" where
  "init_targets c al rand p [] ts k = Some (RT_EOK, ts, k)"
| "init_targets c al rand p (i # is) ts k = do {
     (err, tg, k1) \<leftarrow> target_init c al (rand i) (p_mb_ping p ! i) (p_mb_ping_ack p) (p_gpio p ! i) i (ts ! i) k;
     if err \<noteq> 0 then Some (err, ts[i := tg], k1)
     else init_targets c al rand p is (ts[i := tg]) k1 }"

fun start_targets ::
    "environment \<Rightarrow> nat list \<Rightarrow> target_struct list \<Rightarrow> nat \<times> kernel \<Rightarrow> (rt_err_t \<times> nat \<times> kernel) option" where
  "start_targets env [] ts x = Some (RT_EOK, x)"
| "start_targets env (i # is) ts x = do {
     (err, x1) \<leftarrow> target_start env (5 + i) (ts ! i) x;
     if err \<noteq> 0 then Some (err, x1) else start_targets env is ts x1 }"

text \<open>The code at the label \<^verbatim>\<open>error_exit\<close>.\<close>

definition main_exit :: "rt_err_t \<Rightarrow> sps_struct \<Rightarrow> host_struct \<Rightarrow> nat \<times> kernel \<Rightarrow> (rt_err_t \<times> nat \<times> kernel) option" where
  "main_exit ret p h x = (case x of (c, k) \<Rightarrow> do {
     k1 \<leftarrow> host_delete c h k;
     k2 \<leftarrow> sps_delete c p k1;
     Some (ret, c, k2) })"

text \<open>The part before the threads are started.\<close>

definition main_setup ::
    "nat \<Rightarrow> allocator \<Rightarrow> (nat \<Rightarrow> nat \<Rightarrow> nat) \<Rightarrow> kernel \<Rightarrow>
     (rt_err_t \<times> sps_struct \<times> host_struct \<times> target_struct list \<times> kernel) option" where
  "main_setup c al rand k = do {
     (ok, p, k1) \<leftarrow> sps_init c al zero_sps k;
     if \<not> ok then Some (RT_ERROR, p, zero_host, replicate SPS_NUM_TARGETS zero_target, k1)
     else do {
     (ok, h, k2) \<leftarrow> host_init c al (p_irq_out p) (p_irq_in p) zero_host k1;
     if \<not> ok then do {
       k3 \<leftarrow> sps_delete c p k2;
       Some (RT_ERROR, p, h, replicate SPS_NUM_TARGETS zero_target, k3) }
     else do {
     (ret, ts, k3) \<leftarrow> init_targets c al rand p [0..<SPS_NUM_TARGETS] (replicate SPS_NUM_TARGETS zero_target) k2;
     if ret \<noteq> 0 then do {
       (ret, _, k4) \<leftarrow> main_exit ret p h (c, k3);
       Some (ret, p, h, ts, k4) }
     else Some (RT_EOK, p, h, ts, k3) } } }"

definition main_start ::
    "environment \<Rightarrow> sps_struct \<Rightarrow> host_struct \<Rightarrow> target_struct list \<Rightarrow> nat \<times> kernel \<Rightarrow> (rt_err_t \<times> nat \<times> kernel) option" where
  "main_start env p h ts x = do {
     (ret, x1) \<leftarrow> sps_start env p x;
     if ret \<noteq> 0 then main_exit ret p h x1
     else do {
     (ret, x2) \<leftarrow> host_start env h x1;
     if ret \<noteq> 0 then main_exit ret p h x2
     else do {
     (ret, x3) \<leftarrow> start_targets env [0..<SPS_NUM_TARGETS] ts x2;
     if ret \<noteq> 0 then main_exit ret p h x3
     else Some (RT_EOK, x3) } } }"

definition main :: "environment \<Rightarrow> nat \<Rightarrow> allocator \<Rightarrow> (nat \<Rightarrow> nat \<Rightarrow> nat) \<Rightarrow> kernel \<Rightarrow> (rt_err_t \<times> nat \<times> kernel) option" where
  "main env c al rand k = do {
     (ret, p, h, ts, k1) \<leftarrow> main_setup c al rand k;
     if ret \<noteq> 0 then Some (ret, c, k1) else main_start env p h ts (c, k1) }"

end
