(* ===== verification/SpsInitProps.thy ===== *)
theory SpsInitProps
  imports SpsInit
begin

text \<open>
  What setting up the Smart Power Switch achieves: with memory for every object, the mailboxes in
  the kernel are those of the initial state from which theory \<open>SpsProps\<close> explores the application, shared
  by the switch, the host and the targets, and every thread is ready to be started. The last section
  shows that the cleanup of a failed setup does not come to an end.
\<close>

section \<open>What a creation leaves alone\<close>

definition ids :: "nat \<Rightarrow> oid set" where
  "ids a = {Obj a, ThreadTimer a, PeriodTimer a}"

text \<open>Memory that no object, thread or list uses.\<close>

definition fresh :: "nat \<Rightarrow> kernel \<Rightarrow> bool" where
  "fresh a k \<longleftrightarrow> off_lists a k \<and> (\<forall>c < 2. current_thread (cpus k c) \<noteq> Some a) \<and>
     tlists k (Suspend a) = [] \<and> tlists k (SuspendSender a) = [] \<and> (\<forall>cl. set (containers k cl) \<inter> ids a = {})"

text \<open>\<open>k'\<close> differs from \<open>k\<close> only in the object \<open>a\<close> and its entry in a container.\<close>

definition touches :: "nat \<Rightarrow> kernel \<Rightarrow> kernel \<Rightarrow> bool" where
  "touches a k k' \<longleftrightarrow> cpus k' = cpus k \<and> tlists k' = tlists k \<and> ready_priority_group k' = ready_priority_group k \<and>
     timer_list k' = timer_list k \<and> soft_timer_list k' = soft_timer_list k \<and>
     (\<forall>b. b \<noteq> a \<longrightarrow> thr k' b = thr k b \<and> mbs k' b = mbs k b \<and> mutexes k' b = mutexes k b) \<and>
     (\<forall>x. x \<notin> ids a \<longrightarrow> obj k' x = obj k x \<and> tmr k' x = tmr k x) \<and>
     (\<forall>cl. set (containers k' cl) \<subseteq> set (containers k cl) \<union> ids a)"

datatype product = Made_mb rt_mailbox | Made_mutex | Made_thread code_ptr nat u32

fun made :: "nat \<Rightarrow> product \<Rightarrow> kernel \<Rightarrow> bool" where
  "made a (Made_mb m) k \<longleftrightarrow> has_class RT_Object_Class_MailBox a k \<and> mbs k a = m \<and>
     tlists k (Suspend a) = [] \<and> tlists k (SuspendSender a) = []"
| "made a Made_mutex k \<longleftrightarrow> has_class RT_Object_Class_Mutex a k \<and> mutexes k a = new_mutex \<and> tlists k (Suspend a) = []"
| "made a (Made_thread ent param per) k \<longleftrightarrow>
     is_thread a k \<and> is_timer (ThreadTimer a) k \<and> stat_of (thr k a) = RT_THREAD_INIT \<and>
     init_priority (thr k a) = 1 \<and> parameter (thr k a) = param \<and> period (thr k a) = per \<and>
     (if per = 0 then entry (thr k a) = ent
      else entry (thr k a) = Periodic_task_f \<and> entry_callback (thr k a) = Some ent \<and> is_timer (PeriodTimer a) k \<and>
           tm_init_tick (tmr k (PeriodTimer a)) = per)"

text \<open>During the setup: the objects \<open>ms\<close> are made, the memory \<open>F\<close> is not used yet.\<close>

definition setup_inv :: "nat \<Rightarrow> (nat \<times> product) list \<Rightarrow> nat set \<Rightarrow> kernel \<Rightarrow> bool" where
  "setup_inv c ms F k \<longleftrightarrow> sched_inv k \<and> not_in_interrupt c k \<and> (\<forall>b \<in> F. fresh b k) \<and>
     (\<forall>(a, s) \<in> set ms. made a s k \<and> a \<notin> F)"

lemma ids_simps [simp]: "Obj b \<in> ids a \<longleftrightarrow> b = a" "ThreadTimer b \<in> ids a \<longleftrightarrow> b = a" "PeriodTimer b \<in> ids a \<longleftrightarrow> b = a"
  by (auto simp: ids_def)

lemma ids_disjoint: "b \<noteq> a \<Longrightarrow> ids b \<inter> ids a = {}"
  by (auto simp: ids_def)

lemma touches_fresh:
  assumes "touches a k k'" "fresh b k" "b \<noteq> a"
  shows "fresh b k'"
proof -
  have "set (containers k' cl) \<inter> ids b = {}" for cl
  proof -
    have "set (containers k' cl) \<subseteq> set (containers k cl) \<union> ids a" using assms(1) by (simp add: touches_def)
    moreover have "set (containers k cl) \<inter> ids b = {}" using assms(2) by (simp add: fresh_def)
    ultimately show ?thesis using ids_disjoint [OF assms(3)] by blast
  qed
  then show ?thesis using assms(1,2) by (simp add: touches_def fresh_def off_lists_def)
qed

lemma touches_made: "touches a k k' \<Longrightarrow> made b s k \<Longrightarrow> b \<noteq> a \<Longrightarrow> made b s k'"
  by (cases s) (auto simp: touches_def has_class_def is_thread_def is_timer_def rt_object_get_type_def)

lemma touches_trans: "touches a k k1 \<Longrightarrow> touches a k1 k' \<Longrightarrow> touches a k k'"
  unfolding touches_def by (simp, blast)

lemma setup_step:
  assumes "setup_inv c ms F k" "a \<in> F" "touches a k k'" "sched_inv k'" "made a s k'"
  shows "setup_inv c ((a, s) # ms) (F - {a}) k'"
proof -
  have "fresh b k'" if "b \<in> F - {a}" for b
    using touches_fresh [OF assms(3)] assms(1) that by (auto simp: setup_inv_def)
  moreover have "made b r k'" "b \<notin> F" if "(b, r) \<in> set ms" for b r
    using touches_made [OF assms(3), of b r] assms(1,2) that by (auto simp: setup_inv_def)
  moreover have "not_in_interrupt c k'"
    using assms(1,3) by (simp add: setup_inv_def touches_def not_in_interrupt_def)
  ultimately show ?thesis using assms(4,5) by (auto simp: setup_inv_def)
qed

text \<open>An object that is not a thread does not matter to the scheduler.\<close>

lemma sched_inv_object:
  assumes "sched_inv k" "tlists k' = tlists k" "thr k' = thr k" "cpus k' = cpus k"
    "ready_priority_group k' = ready_priority_group k" "\<And>t. is_thread t k' \<Longrightarrow> is_thread t k"
  shows "sched_inv k'"
  using assms by (auto simp: sched_inv_ex_def bits_ok_def queued_ok_def thread_ok_def)

section \<open>The creating calls\<close>

lemmas alloc_defs = rt_object_allocate_def rt_object_get_information_def rt_object_classes_def memset_object_def
  rt_ipc_object_init_def sender_list_init_def set_flag_def upd_mb_def upd_mutex_def

lemma create_mb_made:
  assumes "setup_inv c ms F k" "new_object al n = Some a" "a \<in> F" "new_pool al n = Some pool"
  obtains k' where "create_mb c al n name sz k = Some (Some a, k')"
    "setup_inv c ((a, Made_mb \<lparr>msg_pool = pool, mb_size = ucast sz, mb_entry = 0, in_offset = 0, out_offset = 0\<rparr>) # ms) (F - {a}) k'"
proof -
  have f: "fresh a k" "sched_inv k" "not_in_interrupt c k" using assms(1,3) by (auto simp: setup_inv_def)
  obtain k' where k': "create_mb c al n name sz k = Some (Some a, k')"
    using assms(2,4) f(3) by (simp add: create_mb_def rt_mb_create_def alloc_defs Let_def)
  have t: "touches a k k'" and m: "made a (Made_mb \<lparr>msg_pool = pool, mb_size = ucast sz, mb_entry = 0, in_offset = 0, out_offset = 0\<rparr>) k'"
    and "thr k' = thr k" "\<And>t. is_thread t k' \<Longrightarrow> is_thread t k"
    using k' assms(2,4) f
    by (auto simp: create_mb_def rt_mb_create_def alloc_defs Let_def touches_def fresh_def has_class_def
        is_thread_def rt_object_get_type_def fun_upd_idem split: if_splits)
  moreover have "sched_inv k'"
    using t calculation(3,4) by (intro sched_inv_object [OF f(2)]) (auto simp: touches_def)
  ultimately show ?thesis using that [OF k' setup_step [OF assms(1,3) t]] by blast
qed

lemma create_mutex_made:
  assumes "setup_inv c ms F k" "new_object al n = Some a" "a \<in> F"
  obtains k' where "rt_mutex_create c name RT_IPC_FLAG_FIFO (new_object al n) k = Some (Some a, k')"
    "setup_inv c ((a, Made_mutex) # ms) (F - {a}) k'"
proof -
  have f: "fresh a k" "sched_inv k" "not_in_interrupt c k" using assms(1,3) by (auto simp: setup_inv_def)
  obtain k' where k': "rt_mutex_create c name RT_IPC_FLAG_FIFO (new_object al n) k = Some (Some a, k')"
    using assms(2) f(3) by (simp add: rt_mutex_create_def alloc_defs Let_def)
  have t: "touches a k k'" and m: "made a Made_mutex k'"
    and "thr k' = thr k" "\<And>t. is_thread t k' \<Longrightarrow> is_thread t k"
    using k' assms(2) f
    by (auto simp: rt_mutex_create_def alloc_defs Let_def touches_def fresh_def has_class_def
        is_thread_def rt_object_get_type_def fun_upd_idem split: if_splits)
  moreover have "sched_inv k'"
    using t calculation(3,4) by (intro sched_inv_object [OF f(2)]) (auto simp: touches_def)
  ultimately show ?thesis using that [OF k' setup_step [OF assms(1,3) t]] by blast
qed

text \<open>The kernel after the allocation of a thread, and after its initialisation.\<close>

lemmas thread_defs = rt_thread_create_def thread_init_fields_def rt_timer_init_def rt_object_init_def rt_timer_init_fields_def

lemma create_thread_spec:
  assumes "fresh a k" "not_in_interrupt c k"
  obtains k' where "rt_thread_create c name ent param stk 1 1 (Some a) (Some st) k = Some (Some a, k')"
    "touches a k k'" "made a (Made_thread ent param 0) k'" "\<forall>cl. PeriodTimer a \<notin> set (containers k' cl)"
proof -
  have off: "\<forall>y \<in> set (containers k 10). y \<noteq> ThreadTimer a" "\<forall>cl. PeriodTimer a \<notin> set (containers k cl)"
    using assms(1) by (auto simp: fresh_def ids_def)
  obtain k' where k': "rt_thread_create c name ent param stk 1 1 (Some a) (Some st) k = Some (Some a, k')"
    using assms(2) off(1) by (simp add: thread_defs alloc_defs Let_def)
  then have "touches a k k'" "made a (Made_thread ent param 0) k'" "\<forall>cl. PeriodTimer a \<notin> set (containers k' cl)"
    using assms(2) off
    by (auto simp: thread_defs alloc_defs Let_def touches_def is_thread_def is_timer_def zero_thread_def
        rt_object_get_type_def stat_of_def ids_def split: if_splits)
  with that k' show ?thesis by blast
qed

lemma create_thread_made:
  assumes "setup_inv c ms F k" "new_object al n = Some a" "a \<in> F" "new_stack al n = Some st"
  obtains k' where "create_thread c al n name ent param k = Some (Some a, k')"
    "setup_inv c ((a, Made_thread ent param 0) # ms) (F - {a}) k'"
proof -
  have f: "fresh a k" "sched_inv k" "not_in_interrupt c k" using assms(1,3) by (auto simp: setup_inv_def)
  obtain k' where k': "rt_thread_create c name ent param 1024 1 1 (Some a) (Some st) k = Some (Some a, k')"
    "touches a k k'" "made a (Made_thread ent param 0) k'" by (rule create_thread_spec [OF f(1,3)]) blast
  have "sched_inv k'"
    by (rule thread_create_keeps [OF f(2) _ k'(1)]) (use f(1) in \<open>auto simp: fresh_def\<close>)
  then show ?thesis using that [OF _ setup_step [OF assms(1,3) k'(2)]] k'(1,3) assms(2,4) by (simp add: create_thread_def)
qed

lemma period_timer_init:
  assumes "rt_timer_init (PeriodTimer a) name fn a per flag k = Some k'"
  shows "touches a k k'" "tm_init_tick (tmr k' (PeriodTimer a)) = per" "is_timer (PeriodTimer a) k'" "thr k' = thr k"
    "obj k' (Obj a) = obj k (Obj a)" "obj k' (ThreadTimer a) = obj k (ThreadTimer a)"
proof -
  let ?k1 = "upd_obj (PeriodTimer a) (\<lambda>ob. ob\<lparr>o_type := 0x8a, o_name := take 8 name\<rparr>) k"
  have "k' = rt_timer_init_fields (PeriodTimer a) fn a per flag
      (?k1\<lparr>containers := (containers ?k1)(10 := PeriodTimer a # containers ?k1 10)\<rparr>)"
    using assms by (simp add: rt_timer_init_def rt_object_init_def rt_object_get_information_def rt_object_classes_def
        split: if_splits)
  then show "touches a k k'" "tm_init_tick (tmr k' (PeriodTimer a)) = per" "is_timer (PeriodTimer a) k'" "thr k' = thr k"
    "obj k' (Obj a) = obj k (Obj a)" "obj k' (ThreadTimer a) = obj k (ThreadTimer a)"
    by (auto simp: rt_timer_init_fields_def touches_def is_timer_def rt_object_get_type_def)
qed

lemma create_periodic_made:
  assumes "setup_inv c ms F k" "new_object al n = Some a" "a \<in> F" "new_stack al n = Some st" "per \<noteq> 0"
  obtains k' where "create_periodic c al n name ent param stk per k = Some (Some a, k')"
    "setup_inv c ((a, Made_thread ent param per) # ms) (F - {a}) k'"
proof -
  have f: "fresh a k" "sched_inv k" "not_in_interrupt c k" using assms(1,3) by (auto simp: setup_inv_def)
  obtain k1 where k1: "rt_thread_create c name Periodic_task_f param stk 1 1 (Some a) (Some st) k = Some (Some a, k1)"
    "touches a k k1" "made a (Made_thread Periodic_task_f param 0) k1" "\<forall>cl. PeriodTimer a \<notin> set (containers k1 cl)"
    by (rule create_thread_spec [OF f(1,3)]) blast
  let ?k2 = "upd_thr a (\<lambda>x. x\<lparr>period := per, entry_callback := Some ent\<rparr>) k1"
  have "\<forall>y \<in> set (containers k1 10). y \<noteq> PeriodTimer a" using k1(4) by blast
  then obtain k' where k': "rt_timer_init (PeriodTimer a) name Thread_timer_f a per RT_TIMER_FLAG_PERIODIC ?k2 = Some k'"
    by (simp add: rt_timer_init_def rt_object_init_def rt_object_get_information_def rt_object_classes_def)
  have "sched_inv k1"
    by (rule thread_create_keeps [OF f(2) _ k1(1)]) (use f(1) in \<open>auto simp: fresh_def\<close>)
  then have "sched_inv ?k2" by (rule sched_inv_thread_field) (simp add: stat_of_def)
  then have "sched_inv k'"
    by (rule sched_inv_object) (simp_all add: timer_init_frame [OF k'])
  moreover note p = period_timer_init [OF k']
  have "touches a k1 ?k2" by (simp add: touches_def)
  then have "touches a k k'" using touches_trans [OF touches_trans [OF k1(2)] p(1)] by blast
  moreover have "made a (Made_thread ent param per) k'"
    using k1(3) assms(5) p(2-6) by (simp add: is_thread_def is_timer_def rt_object_get_type_def stat_of_def)
  moreover have "create_periodic c al n name ent param stk per k = Some (Some a, k')"
    using k1(1) k' assms(2,4,5) by (simp add: create_periodic_def rt_thread_create_periodic_def)
  ultimately show ?thesis using that setup_step [OF assms(1,3)] by blast
qed

section \<open>The setup\<close>

text \<open>What the creating call with each number makes, in the order of the program.\<close>

definition new_mb :: "u32 \<Rightarrow> u32 list \<Rightarrow> rt_mailbox" where
  "new_mb sz pool = \<lparr>msg_pool = pool, mb_size = ucast sz, mb_entry = 0, in_offset = 0, out_offset = 0\<rparr>"

definition plan :: "allocator \<Rightarrow> (nat \<Rightarrow> u8) \<Rightarrow> nat \<Rightarrow> product" where
  "plan al per n =
     (if n = 0 \<or> n = 18 then Made_mutex
      else if n = 1 then Made_thread irq_out_entry 0 0
      else if n = 2 then Made_thread irq_in_entry 0 0
      else if n = 3 then Made_thread ping_entry 0 100
      else if n < 16 then Made_mb (new_mb (if n = 6 \<or> n = 7 then 4 else 1) (the (new_pool al n)))
      else if n = 16 then Made_thread action_entry 1 500
      else if n = 17 then Made_thread feedback_entry 1 0
      else Made_thread simulation_entry (n - 17) (ucast (per (n - 19))))"

text \<open>Memory for the 23 objects: unused, all different, and pools of the size asked for.\<close>

definition memory_ok :: "allocator \<Rightarrow> kernel \<Rightarrow> bool" where
  "memory_ok al k \<longleftrightarrow> inj_on (new_object al) {0..<23} \<and>
     (\<forall>n < 23. (\<exists>a. new_object al n = Some a \<and> fresh a k) \<and> new_stack al n \<noteq> None \<and>
        (\<exists>pool. new_pool al n = Some pool \<and> length pool = (if n = 6 \<or> n = 7 then 4 else 1)))"

definition addr :: "allocator \<Rightarrow> nat \<Rightarrow> nat" where
  "addr al n = the (new_object al n)"

definition memory_left :: "allocator \<Rightarrow> nat \<Rightarrow> bool" where
  "memory_left al N \<longleftrightarrow> inj_on (addr al) {0..<N} \<and>
     (\<forall>n < N. new_object al n = Some (addr al n) \<and> new_stack al n \<noteq> None \<and> new_pool al n \<noteq> None)"

definition setup_at :: "nat \<Rightarrow> allocator \<Rightarrow> (nat \<Rightarrow> u8) \<Rightarrow> nat \<Rightarrow> nat \<Rightarrow> kernel \<Rightarrow> bool" where
  "setup_at c al per N n k \<longleftrightarrow>
     setup_inv c (map (\<lambda>m. (addr al m, plan al per m)) (rev [0..<n])) (addr al ` {n..<N}) k"

lemma memory_okD:
  assumes "memory_ok al k" "sched_inv k" "not_in_interrupt c k" "N \<le> 23" "\<And>n. n < N \<Longrightarrow> new_object al' n = new_object al n"
    "new_stack al' = new_stack al" "new_pool al' = new_pool al"
  shows "memory_left al' N" "setup_at c al' per N 0 k"
proof -
  have obj: "new_object al n = Some (addr al n)" if "n < 23" for n
    using assms(1) that by (auto simp: memory_ok_def addr_def)
  then have ad: "addr al' n = addr al n" if "n < N" for n using that assms(4,5) by (simp add: addr_def)
  have "inj_on (new_object al) {0..<N}"
    using assms(1,4) by (auto simp: memory_ok_def intro: inj_on_subset)
  then have "inj_on (addr al') {0..<N}" using obj ad assms(4) by (auto simp: inj_on_def)
  moreover have "new_object al' n = Some (addr al' n) \<and> new_stack al' n \<noteq> None \<and> new_pool al' n \<noteq> None \<and> fresh (addr al' n) k"
    if "n < N" for n
  proof -
    have "n < 23" using that assms(4) by simp
    with assms(1) have "(\<exists>a. new_object al n = Some a \<and> fresh a k) \<and> new_stack al n \<noteq> None \<and> (\<exists>pool. new_pool al n = Some pool)"
      unfolding memory_ok_def by blast
    then show ?thesis using obj [OF \<open>n < 23\<close>] ad [OF that] assms(5) [OF that] assms(6,7) by auto
  qed
  ultimately show "memory_left al' N" "setup_at c al' per N 0 k"
    using assms(2,3) by (auto simp: memory_left_def setup_at_def setup_inv_def)
qed

lemma left_minus:
  assumes "memory_left al N" "n < N"
  shows "addr al ` {n..<N} - {addr al n} = addr al ` {Suc n..<N}" "addr al n \<in> addr al ` {n..<N}"
proof -
  have "{n..<N} = insert n {Suc n..<N}" using assms(2) by auto
  moreover have "addr al n \<notin> addr al ` {Suc n..<N}"
    using assms(2) inj_on_image_mem_iff [of "addr al" "{0..<N}" n "{Suc n..<N}"] assms(1) by (auto simp: memory_left_def)
  ultimately show "addr al ` {n..<N} - {addr al n} = addr al ` {Suc n..<N}" "addr al n \<in> addr al ` {n..<N}" by auto
qed

lemma setup_at_Suc:
  assumes "memory_left al N" "n < N" "setup_inv c ((addr al n, plan al per n) # map (\<lambda>m. (addr al m, plan al per m)) (rev [0..<n])) (addr al ` {n..<N} - {addr al n}) k"
  shows "setup_at c al per N (Suc n) k"
  using assms(3) left_minus [OF assms(1,2)] by (simp add: setup_at_def)

text \<open>The four kinds of creating calls, each at its place in the plan.\<close>

lemma mb_at:
  assumes "memory_left al N" "setup_at c al per N n k" "n < N"
    and "plan al per n = Made_mb (new_mb sz (the (new_pool al n)))"
  obtains k' where "create_mb c al n name sz k = Some (Some (addr al n), k')" "setup_at c al per N (Suc n) k'"
proof -
  obtain pool where p: "new_pool al n = Some pool" and a: "new_object al n = Some (addr al n)"
    using assms(1,3) by (auto simp: memory_left_def)
  show ?thesis
    by (rule create_mb_made [OF assms(2) [unfolded setup_at_def] a left_minus(2) [OF assms(1,3)] p, where name = name and sz = sz])
      (use assms(1,3,4) p that setup_at_Suc in \<open>simp add: new_mb_def\<close>)
qed

lemma mutex_at:
  assumes "memory_left al N" "setup_at c al per N n k" "n < N" "plan al per n = Made_mutex"
  obtains k' where "rt_mutex_create c name RT_IPC_FLAG_FIFO (new_object al n) k = Some (Some (addr al n), k')"
    "setup_at c al per N (Suc n) k'"
proof -
  have a: "new_object al n = Some (addr al n)" using assms(1,3) by (auto simp: memory_left_def)
  show ?thesis
    by (rule create_mutex_made [OF assms(2) [unfolded setup_at_def] a left_minus(2) [OF assms(1,3)], where name = name])
      (use assms(1,3,4) that setup_at_Suc in simp)
qed

lemma thread_at:
  assumes "memory_left al N" "setup_at c al per N n k" "n < N" "plan al per n = Made_thread ent param 0"
  obtains k' where "create_thread c al n name ent param k = Some (Some (addr al n), k')" "setup_at c al per N (Suc n) k'"
proof -
  obtain st where st: "new_stack al n = Some st" and a: "new_object al n = Some (addr al n)"
    using assms(1,3) by (auto simp: memory_left_def)
  show ?thesis
    by (rule create_thread_made [OF assms(2) [unfolded setup_at_def] a left_minus(2) [OF assms(1,3)] st, where name = name and ent = ent and param = param])
      (use assms(1,3,4) that setup_at_Suc in simp)
qed

lemma periodic_at:
  assumes "memory_left al N" "setup_at c al per N n k" "n < N" "plan al per n = Made_thread ent param p" "p \<noteq> 0"
  obtains k' where "create_periodic c al n name ent param stk p k = Some (Some (addr al n), k')" "setup_at c al per N (Suc n) k'"
proof -
  obtain st where st: "new_stack al n = Some st" and a: "new_object al n = Some (addr al n)"
    using assms(1,3) by (auto simp: memory_left_def)
  show ?thesis
    by (rule create_periodic_made [OF assms(2) [unfolded setup_at_def] a left_minus(2) [OF assms(1,3)] st assms(5),
          where name = name and ent = ent and param = param and stk = stk])
      (use assms(1,3,4) that setup_at_Suc in simp)
qed

lemma init_threads_ok:
  assumes "memory_left al N" "setup_at c al per N 1 k" "4 \<le> N"
  obtains k' where "sps_init_threads c al p k = Some (RT_EOK, p\<lparr>p_irq_out_handler := Some (addr al 1),
      p_irq_in_handler := Some (addr al 2), p_ping_thread := Some (addr al 3)\<rparr>, k')" "setup_at c al per N 4 k'"
proof -
  obtain k1 where k1: "create_thread c al 1 ''sps_irq_out'' irq_out_entry 0 k = Some (Some (addr al 1), k1)" "setup_at c al per N (Suc 1) k1"
    by (rule thread_at [OF assms(1,2), of irq_out_entry 0]) (use assms(3) in \<open>simp_all add: plan_def\<close>)
  obtain k2 where k2: "create_thread c al 2 ''sps_irq_in'' irq_in_entry 0 k1 = Some (Some (addr al 2), k2)" "setup_at c al per N (Suc 2) k2"
    by (rule thread_at [OF assms(1), of c per 2 k1 irq_in_entry 0]) (use k1(2) assms(3) in \<open>simp_all add: plan_def numeral_2_eq_2\<close>)
  obtain k3 where k3: "create_periodic c al 3 ''sps_ping'' ping_entry 0 1024 100 k2 = Some (Some (addr al 3), k3)" "setup_at c al per N (Suc 3) k3"
    by (rule periodic_at [OF assms(1), of c per 3 k2 ping_entry 0 100]) (use k2(2) assms(3) in \<open>simp_all add: plan_def\<close>)
  from that [of k3] k1(1) k2(1) k3 show ?thesis by (simp add: sps_init_threads_def)
qed

text \<open>The mailboxes of the targets from \<open>i\<close> on.\<close>

lemma target_mailboxes_ok:
  assumes "memory_left al N" "setup_at c al per N (8 + 2 * i) k" "i + d = 4" "length (p_mb_ping p) = 4" "length (p_gpio p) = 4" "16 \<le> N"
  shows "\<exists>k'. target_mailboxes c al [i..<4] p k = Some (None,
      p\<lparr>p_mb_ping := take i (p_mb_ping p) @ map (\<lambda>j. Some (addr al (8 + 2 * j))) [i..<4],
        p_gpio := take i (p_gpio p) @ map (\<lambda>j. Some (addr al (9 + 2 * j))) [i..<4]\<rparr>, k') \<and> setup_at c al per N 16 k'"
  using assms(2-5)
proof (induction d arbitrary: i k p)
  case (Suc d)
  have i: "i < 4" "[i..<4] = i # [Suc i..<4]" using Suc.prems(2) by (simp_all add: upt_conv_Cons)
  obtain k1 where k1: "create_mb c al (8 + 2 * i) (numbered ''ping'' i) 1 k = Some (Some (addr al (8 + 2 * i)), k1)"
    "setup_at c al per N (Suc (8 + 2 * i)) k1"
    by (rule mb_at [OF assms(1) Suc.prems(1)]) (use i assms(6) in \<open>simp_all add: plan_def\<close>)
  obtain k2 where k2: "create_mb c al (9 + 2 * i) (numbered ''gpio'' i) 1 k1 = Some (Some (addr al (9 + 2 * i)), k2)"
    "setup_at c al per N (Suc (9 + 2 * i)) k2"
    by (rule mb_at [OF assms(1), of c per "9 + 2 * i" k1]) (use i k1(2) assms(6) in \<open>simp_all add: plan_def\<close>)
  have "setup_at c al per N (8 + 2 * Suc i) k2" using k2(2) by simp
  from Suc.IH [OF this, of "p\<lparr>p_mb_ping := (p_mb_ping p)[i := Some (addr al (8 + 2 * i))],
      p_gpio := (p_gpio p)[i := Some (addr al (9 + 2 * i))]\<rparr>"] Suc.prems(2-4) i k1(1) k2(1)
  show ?case by (simp add: take_Suc_conv_app_nth)
qed simp

lemma mailboxes_start:
  assumes "memory_left al N" "setup_at c al per N 4 k" "8 \<le> N"
  obtains k1 k2 k3 k4 where "create_mb c al 4 ''irq_out'' 1 k = Some (Some (addr al 4), k1)"
    "create_mb c al 5 ''irq_in'' 1 k1 = Some (Some (addr al 5), k2)"
    "create_mb c al 6 ''pingack'' 4 k2 = Some (Some (addr al 6), k3)"
    "create_mb c al 7 ''pingirq'' 4 k3 = Some (Some (addr al 7), k4)" "setup_at c al per N 8 k4"
proof -
  obtain k1 where k1: "create_mb c al 4 ''irq_out'' 1 k = Some (Some (addr al 4), k1)" "setup_at c al per N (Suc 4) k1"
    by (rule mb_at [OF assms(1,2)]) (use assms(3) in \<open>simp_all add: plan_def\<close>)
  obtain k2 where k2: "create_mb c al 5 ''irq_in'' 1 k1 = Some (Some (addr al 5), k2)" "setup_at c al per N (Suc 5) k2"
    by (rule mb_at [OF assms(1), of c per 5 k1]) (use k1(2) assms(3) in \<open>simp_all add: plan_def\<close>)
  obtain k3 where k3: "create_mb c al 6 ''pingack'' 4 k2 = Some (Some (addr al 6), k3)" "setup_at c al per N (Suc 6) k3"
    by (rule mb_at [OF assms(1), of c per 6 k2]) (use k2(2) assms(3) in \<open>simp_all add: plan_def\<close>)
  obtain k4 where k4: "create_mb c al 7 ''pingirq'' 4 k3 = Some (Some (addr al 7), k4)" "setup_at c al per N (Suc 7) k4"
    by (rule mb_at [OF assms(1), of c per 7 k3]) (use k3(2) assms(3) in \<open>simp_all add: plan_def\<close>)
  from that [OF k1(1) k2(1) k3(1) k4(1)] k4(2) show ?thesis by simp
qed

definition linked_sps :: "allocator \<Rightarrow> sps_struct" where
  "linked_sps al = \<lparr>p_irq_in_handler = Some (addr al 2), p_irq_out_handler = Some (addr al 1), p_ping_thread = Some (addr al 3),
     p_irq_out = Some (addr al 4), p_irq_in = Some (addr al 5), p_mb_ping = map (\<lambda>j. Some (addr al (8 + 2 * j))) [0..<4],
     p_mb_ping_ack = Some (addr al 6), p_mb_ping_irq = Some (addr al 7), p_gpio = map (\<lambda>j. Some (addr al (9 + 2 * j))) [0..<4],
     p_target_mutex = Some (addr al 0), s_targets = replicate 4 SPS_OFF, s_targets_pong = replicate 4 0\<rparr>"

text \<open>The cleanup loop: its condition always holds, and after the first entry the index is 255.\<close>

lemma delete_ping_none: "mb_delete_ping c i j p k = None"
proof (induction "unat j" arbitrary: j k)
  case 0
  then have "j = 0" by (simp add: unat_eq_0)
  moreover have "mb_delete_ping c i (- 1) p k = None" for k
    by (subst mb_delete_ping.simps) simp
  ultimately show ?case by (subst mb_delete_ping.simps) (simp split: bind_splits)
next
  case (Suc n)
  then have "unat (j - 1) = n" by (metis Suc_neq_Zero diff_Suc_1 unat_eq_0 unat_minus_one)
  with Suc.hyps(1) show ?case by (subst mb_delete_ping.simps) (simp split: bind_splits)
qed

text \<open>Up to the mailboxes of the targets.\<close>

definition half_linked :: "allocator \<Rightarrow> sps_struct" where
  "half_linked al = (linked_sps al)\<lparr>p_mb_ping := replicate 4 None, p_gpio := replicate 4 None\<rparr>"

lemma sps_init_prefix:
  assumes "memory_left al N" "setup_at c al per N 0 k" "8 \<le> N"
  obtains m where "setup_at c al per N 8 m"
    "\<And>p k'. target_mailboxes c al [0..<4] (half_linked al) m = Some (None, p, k') \<Longrightarrow> sps_init c al zero_sps k = Some (True, p, k')"
    "\<And>i p k'. target_mailboxes c al [0..<4] (half_linked al) m = Some (Some i, p, k') \<Longrightarrow> sps_init c al zero_sps k = None"
proof -
  obtain k1 where k1: "rt_mutex_create c ''sps_target_mutex'' RT_IPC_FLAG_FIFO (new_object al 0) k = Some (Some (addr al 0), k1)"
    "setup_at c al per N (Suc 0) k1" by (rule mutex_at [OF assms(1,2)]) (use assms(3) in \<open>simp_all add: plan_def\<close>)
  let ?p1 = "zero_sps\<lparr>p_target_mutex := Some (addr al 0)\<rparr>"
  obtain k2 where k2: "sps_init_threads c al ?p1 k1 = Some (RT_EOK, ?p1\<lparr>p_irq_out_handler := Some (addr al 1),
      p_irq_in_handler := Some (addr al 2), p_ping_thread := Some (addr al 3)\<rparr>, k2)" "setup_at c al per N 4 k2"
    by (rule init_threads_ok [OF assms(1), of c per k1]) (use k1(2) assms(3) in simp_all)
  obtain m1 m2 m3 m4 where m: "create_mb c al 4 ''irq_out'' 1 k2 = Some (Some (addr al 4), m1)"
    "create_mb c al 5 ''irq_in'' 1 m1 = Some (Some (addr al 5), m2)"
    "create_mb c al 6 ''pingack'' 4 m2 = Some (Some (addr al 6), m3)"
    "create_mb c al 7 ''pingirq'' 4 m3 = Some (Some (addr al 7), m4)" "setup_at c al per N 8 m4"
    by (rule mailboxes_start [OF assms(1) k2(2) assms(3)]) blast
  have "half_linked al = ?p1\<lparr>p_irq_out_handler := Some (addr al 1), p_irq_in_handler := Some (addr al 2), p_ping_thread := Some (addr al 3),
    p_irq_out := Some (addr al 4), p_irq_in := Some (addr al 5), p_mb_ping_ack := Some (addr al 6), p_mb_ping_irq := Some (addr al 7)\<rparr>"
    by (simp add: half_linked_def linked_sps_def zero_sps_def)
  then show ?thesis
    using that [OF m(5)] k1(1) k2(1) m(1-4) by (simp add: sps_init_def sps_init_mailboxes_def delete_ping_none del: upt_rec_numeral)
qed

lemma sps_init_ok:
  assumes "memory_left al N" "setup_at c al per N 0 k" "16 \<le> N"
  obtains k' where "sps_init c al zero_sps k = Some (True, linked_sps al, k')" "setup_at c al per N 16 k'"
proof -
  have N: "8 \<le> N" using assms(3) by simp
  obtain m where m: "setup_at c al per N 8 m"
    "\<And>p k'. target_mailboxes c al [0..<4] (half_linked al) m = Some (None, p, k') \<Longrightarrow> sps_init c al zero_sps k = Some (True, p, k')"
    by (rule sps_init_prefix [OF assms(1,2) N]) blast
  have "p_mb_ping (half_linked al) = replicate 4 None" "p_gpio (half_linked al) = replicate 4 None"
    "(half_linked al)\<lparr>p_mb_ping := p_mb_ping (linked_sps al), p_gpio := p_gpio (linked_sps al)\<rparr> = linked_sps al"
    by (simp_all add: half_linked_def linked_sps_def)
  then obtain k' where "target_mailboxes c al [0..<4] (half_linked al) m = Some (None, linked_sps al, k')" "setup_at c al per N 16 k'"
    using target_mailboxes_ok [OF assms(1), of c per 0 m 4 "half_linked al"] m(1) assms(3)
    by (auto simp: linked_sps_def simp del: upt_rec_numeral)
  with that m(2) show ?thesis by blast
qed

definition linked_host :: "allocator \<Rightarrow> host_struct" where
  "linked_host al = \<lparr>p_action_thread = Some (addr al 16), p_feedback_irq_out_handler = Some (addr al 17),
     h_irq_out = Some (addr al 4), h_irq_in = Some (addr al 5), h_targets = replicate 4 SPS_OFF, h_target_mutex = Some (addr al 18)\<rparr>"

lemma host_init_ok:
  assumes "memory_left al 23" "setup_at c al per 23 16 k"
  obtains k' where "host_init c al (Some (addr al 4)) (Some (addr al 5)) zero_host k = Some (True, linked_host al, k')"
    "setup_at c al per 23 19 k'"
proof -
  obtain k1 where k1: "create_periodic c al 16 ''host_action'' action_entry 1 1024 500 k = Some (Some (addr al 16), k1)"
    "setup_at c al per 23 (Suc 16) k1" by (rule periodic_at [OF assms, of action_entry 1 500]) (simp_all add: plan_def)
  obtain k2 where k2: "create_thread c al 17 ''host_irq_out'' feedback_entry 1 k1 = Some (Some (addr al 17), k2)"
    "setup_at c al per 23 (Suc 17) k2"
    by (rule thread_at [OF assms(1), of c per 17 k1 feedback_entry 1]) (use k1(2) in \<open>simp_all add: plan_def\<close>)
  obtain k3 where k3: "rt_mutex_create c ''host_target_sem'' RT_IPC_FLAG_FIFO (new_object al 18) k2 = Some (Some (addr al 18), k3)"
    "setup_at c al per 23 (Suc 18) k3"
    by (rule mutex_at [OF assms(1), of c per 18 k2]) (use k2(2) in \<open>simp_all add: plan_def\<close>)
  from that [of k3] k1(1) k2(1) k3 show ?thesis by (simp add: host_init_def zero_host_def linked_host_def)
qed

lemma target_period_some:
  assumes "rand (m + d) mod 100 \<ge> 10"
  shows "\<exists>per. target_period rand m = Some per \<and> 10 \<le> per \<and> per < 100"
  using assms
proof (induction d arbitrary: m)
  case 0
  have "10 \<le> (of_nat (rand m mod 100) :: u8)" "(of_nat (rand m mod 100) :: u8) < 100"
    using 0 by (simp_all add: word_le_nat_alt word_less_nat_alt unsigned_of_nat take_bit_nat_eq_self)
  then show ?case by (subst target_period.simps) (auto simp: Let_def dest: leD)
next
  case (Suc d)
  have w: "(of_nat (rand m mod 100) :: u8) < 100"
    by (simp add: word_less_nat_alt unsigned_of_nat take_bit_nat_eq_self)
  show ?case
    using Suc.IH [of "m + 1"] Suc.prems w by (subst target_period.simps) (auto simp: Let_def not_less)
qed

definition linked_target :: "allocator \<Rightarrow> nat \<Rightarrow> target_struct" where
  "linked_target al i = \<lparr>p_simulation_thread = Some (addr al (19 + i)), t_mb_gpio = Some (addr al (9 + 2 * i)),
     t_mb_ping = Some (addr al (8 + 2 * i)), t_mb_ping_ack = Some (addr al 6), t_id = of_nat i, t_status = SPS_OFF\<rparr>"

lemma init_targets_ok:
  assumes "memory_left al 23" "setup_at c al per 23 (19 + i) k" "i + d = 4" "length ts = 4"
    and "\<And>j. j < 4 \<Longrightarrow> target_period (rand j) 0 = Some (per j) \<and> 10 \<le> per j"
  shows "\<exists>k'. init_targets c al rand (linked_sps al) [i..<4] ts k = Some (RT_EOK, take i ts @ map (linked_target al) [i..<4], k') \<and>
    setup_at c al per 23 23 k'"
  using assms(2-4)
proof (induction d arbitrary: i k ts)
  case (Suc d)
  have i: "i < 4" "[i..<4] = i # [Suc i..<4]" using Suc.prems(2) by (simp_all add: upt_conv_Cons)
  have p: "target_period (rand i) 0 = Some (per i)" "unat (per i) \<noteq> 0"
    using assms(5) [OF i(1)] by (simp_all add: word_le_nat_alt)
  then have nz: "(ucast (per i) :: u32) \<noteq> 0" by (simp add: word_unat_eq_iff unsigned_ucast_eq take_bit_nat_eq_self)
  obtain k1 where k1: "create_periodic c al (19 + i) (numbered ''target'' i) simulation_entry (2 + i) 512 (ucast (per i)) k =
      Some (Some (addr al (19 + i)), k1)" "setup_at c al per 23 (Suc (19 + i)) k1"
    by (rule periodic_at [OF assms(1) Suc.prems(1), of simulation_entry "2 + i" "ucast (per i)"]) (use i nz in \<open>simp_all add: plan_def\<close>)
  have "target_init c al (rand i) (p_mb_ping (linked_sps al) ! i) (p_mb_ping_ack (linked_sps al)) (p_gpio (linked_sps al) ! i) i (ts ! i) k =
      Some (RT_EOK, linked_target al i, k1)"
    using k1(1) p(1) i(1) by (cases "ts ! i") (simp add: target_init_def linked_sps_def linked_target_def del: upt_rec_numeral)
  with Suc.IH [of "Suc i" k1 "ts[i := linked_target al i]"] k1(2) Suc.prems(2,3) i show ?case
    by (simp add: take_Suc_conv_app_nth)
qed simp

text \<open>The application's state as the structures and the mailboxes in the kernel have it.\<close>

definition power_view :: "sps_struct \<Rightarrow> host_struct \<Rightarrow> target_struct list \<Rightarrow> kernel \<Rightarrow> power_system" where
  "power_view p h ts k = \<lparr>sps_targets = s_targets p, targets_pong = s_targets_pong p,
     irq_out = mbs k (the (p_irq_out p)), irq_in = mbs k (the (p_irq_in p)),
     mb_ping = map (\<lambda>a. mbs k (the a)) (p_mb_ping p), mb_ping_ack = mbs k (the (p_mb_ping_ack p)),
     mb_ping_irq = mbs k (the (p_mb_ping_irq p)), gpio = map (\<lambda>a. mbs k (the a)) (p_gpio p),
     host_targets = h_targets h, target_status = map t_status ts\<rparr>"

lemma main_setup_ok:
  assumes "memory_left al 23" "setup_at c al per 23 0 k"
    and "\<And>j. j < 4 \<Longrightarrow> target_period (rand j) 0 = Some (per j) \<and> 10 \<le> per j"
  obtains k' where "main_setup c al rand k =
      Some (RT_EOK, linked_sps al, linked_host al, map (linked_target al) [0..<4], k')" "setup_at c al per 23 23 k'"
proof -
  obtain k1 where k1: "sps_init c al zero_sps k = Some (True, linked_sps al, k1)" "setup_at c al per 23 16 k1"
    by (rule sps_init_ok [OF assms(1,2)]) simp_all
  obtain k2 where k2: "host_init c al (Some (addr al 4)) (Some (addr al 5)) zero_host k1 = Some (True, linked_host al, k2)"
    "setup_at c al per 23 19 k2" by (rule host_init_ok [OF assms(1) k1(2)])
  obtain k3 where "init_targets c al rand (linked_sps al) [0..<4] (replicate 4 zero_target) k2 =
      Some (RT_EOK, map (linked_target al) [0..<4], k3)" "setup_at c al per 23 23 k3"
    using init_targets_ok [OF assms(1), of c per 0 k2 4 "replicate 4 zero_target" rand] k2(2) assms(3)
    by (auto simp del: upt_rec_numeral)
  moreover have "p_irq_out (linked_sps al) = Some (addr al 4)" "p_irq_in (linked_sps al) = Some (addr al 5)"
    by (simp_all add: linked_sps_def)
  ultimately show ?thesis using that k1(1) k2(1) by (simp add: main_setup_def del: upt_rec_numeral)
qed

lemma setup_done:
  assumes "setup_at c al per 23 23 k" "n < 23"
  shows "made (addr al n) (plan al per n) k" "sched_inv k"
  using assms by (auto simp: setup_at_def setup_inv_def)

definition app_mailboxes :: "sps_struct \<Rightarrow> nat option list" where
  "app_mailboxes p = [p_irq_out p, p_irq_in p, p_mb_ping_ack p, p_mb_ping_irq p] @ p_mb_ping p @ p_gpio p"

definition app_threads :: "sps_struct \<Rightarrow> host_struct \<Rightarrow> target_struct list \<Rightarrow> nat option list" where
  "app_threads p h ts = [p_irq_out_handler p, p_ping_thread p, p_irq_in_handler p, p_action_thread h, p_feedback_irq_out_handler h] @
     map p_simulation_thread ts"

lemma linked_view:
  assumes "memory_ok al k" "setup_at c al per 23 23 k'"
  shows "\<exists>junk. power_view (linked_sps al) (linked_host al) (map (linked_target al) [0..<4]) k' = power_init junk"
proof -
  define junk where "junk j = (!) (the (new_pool al (if j < 4 then 4 + j else if j < 8 then 2 * j else 2 * j - 7)))" for j :: nat
  have "mbs k' (addr al n) = fresh_mb (if n = 6 \<or> n = 7 then 4 else 1) ((!) (the (new_pool al n)))" if "4 \<le> n" "n < 16" for n
  proof -
    have "made (addr al n) (plan al per n) k'" using setup_done(1) [OF assms(2), of n] that by simp
    then have "mbs k' (addr al n) = new_mb (if n = 6 \<or> n = 7 then 4 else 1) (the (new_pool al n))"
      using that by (simp add: plan_def)
    moreover have "n < 23" using that by simp
    then have "\<exists>pool. new_pool al n = Some pool \<and> length pool = (if n = 6 \<or> n = 7 then 4 else 1)"
      using assms(1) unfolding memory_ok_def by blast
    then have "length (the (new_pool al n)) = (if n = 6 \<or> n = 7 then 4 else 1)" by auto
    ultimately show ?thesis by (auto simp: new_mb_def fresh_mb_def list_eq_iff_nth_eq simp del: upt_rec_numeral)
  qed
  note mb = this
  have "power_view (linked_sps al) (linked_host al) (map (linked_target al) [0..<4]) k' = power_init junk"
    by (simp add: power_view_def linked_sps_def linked_host_def linked_target_def power_init_def mb junk_def upt_rec numeral_eq_Suc)
  then show ?thesis by blast
qed

lemma linked_distinct:
  assumes "memory_left al 23"
  shows "distinct (app_mailboxes (linked_sps al))" "distinct (app_threads (linked_sps al) (linked_host al) (map (linked_target al) [0..<4]))"
proof -
  have ne: "addr al m = addr al n \<longleftrightarrow> m = n" if "m < 23" "n < 23" for m n
    using assms that by (auto simp: memory_left_def inj_on_eq_iff)
  show "distinct (app_mailboxes (linked_sps al))" by (simp add: app_mailboxes_def linked_sps_def ne upt_rec)
  show "distinct (app_threads (linked_sps al) (linked_host al) (map (linked_target al) [0..<4]))"
    by (simp add: app_threads_def linked_sps_def linked_host_def linked_target_def ne upt_rec)
qed

lemma linked_parts:
  "h_irq_out (linked_host al) = p_irq_out (linked_sps al)" "h_irq_in (linked_host al) = p_irq_in (linked_sps al)"
  "set (app_threads (linked_sps al) (linked_host al) (map (linked_target al) [0..<4])) = (\<lambda>n. Some (addr al n)) ` {1, 2, 3, 16, 17, 19, 20, 21, 22}"
  by (simp_all add: linked_host_def linked_sps_def linked_target_def app_threads_def upt_rec insert_commute)

lemma linked_target_parts:
  assumes "j < 4"
  shows "t_mb_ping (map (linked_target al) [0..<4] ! j) = p_mb_ping (linked_sps al) ! j"
    "t_mb_gpio (map (linked_target al) [0..<4] ! j) = p_gpio (linked_sps al) ! j"
    "t_mb_ping_ack (map (linked_target al) [0..<4] ! j) = p_mb_ping_ack (linked_sps al)"
    "t_id (map (linked_target al) [0..<4] ! j) = of_nat j"
    "p_simulation_thread (map (linked_target al) [0..<4] ! j) = Some (addr al (19 + j))"
  using assms by (simp_all add: linked_target_def linked_sps_def del: upt_rec_numeral)

text \<open>Setting up with no memory for the object number \<open>N\<close>.\<close>

lemma create_mb_fails: "setup_at c al per N n k \<Longrightarrow> new_object al m = None \<Longrightarrow> create_mb c al m name sz k = Some (None, k)"
  by (simp add: create_mb_def rt_mb_create_def rt_object_allocate_def rt_object_get_information_def rt_object_classes_def
      setup_at_def setup_inv_def)

lemma target_mailboxes_fail:
  assumes "memory_left al N" "setup_at c al per N (8 + 2 * i) k" "i + d = 4" "8 + 2 * i \<le> N" "N < 16" "new_object al N = None"
  shows "\<exists>j p' k'. target_mailboxes c al [i..<4] p k = Some (Some j, p', k')"
  using assms(2-4)
proof (induction d arbitrary: i k p)
  case (Suc d)
  have i: "i < 4" "[i..<4] = i # [Suc i..<4]" using Suc.prems(2) by (simp_all add: upt_conv_Cons)
  show ?case
  proof (cases "N = 8 + 2 * i")
    case True
    then show ?thesis using create_mb_fails [OF Suc.prems(1)] assms(6) i(2) by simp
  next
    case False
    obtain k1 where k1: "create_mb c al (8 + 2 * i) (numbered ''ping'' i) 1 k = Some (Some (addr al (8 + 2 * i)), k1)"
      "setup_at c al per N (9 + 2 * i) k1"
      by (rule mb_at [OF assms(1) Suc.prems(1)]) (use i False Suc.prems(3) in \<open>simp_all add: plan_def\<close>)
    show ?thesis
    proof (cases "N = 9 + 2 * i")
      case True
      then show ?thesis using create_mb_fails [OF k1(2)] assms(6) i(2) k1(1) by simp
    next
      case next_target: False
      obtain k2 where k2: "create_mb c al (9 + 2 * i) (numbered ''gpio'' i) 1 k1 = Some (Some (addr al (9 + 2 * i)), k2)"
        "setup_at c al per N (Suc (9 + 2 * i)) k2"
        by (rule mb_at [OF assms(1) k1(2)]) (use i False next_target Suc.prems(3) in \<open>simp_all add: plan_def\<close>)
      with Suc.IH [of "Suc i" k2] Suc.prems(2,3) False next_target i(2) k1(1) show ?thesis by simp
    qed
  qed
qed (use assms(5) in simp)

section \<open>Properties\<close>

text \<open>C18. With memory for every object, \<^verbatim>\<open>main\<close> gets to the point where the threads are started: the mailboxes of
  the kernel, seen through the three structures, are the initial state of the application; the host
  and each target have the mailboxes of the switch at their place, no two of which are the same; all
  nine threads are different, initialised and not started, the targets with a period of 10 to 99
  ticks.\<close>

theorem main_setup_builds_system:
  assumes "sched_inv k" "not_in_interrupt c k" "memory_ok al k" "\<forall>j < 4. \<exists>n. rand j n mod 100 \<ge> 10"
  shows "\<exists>p h ts k' junk. main_setup c al rand k = Some (RT_EOK, p, h, ts, k') \<and> sched_inv k' \<and>
    power_view p h ts k' = power_init junk \<and>
    h_irq_out h = p_irq_out p \<and> h_irq_in h = p_irq_in p \<and>
    (\<forall>j < 4. t_mb_ping (ts ! j) = p_mb_ping p ! j \<and> t_mb_gpio (ts ! j) = p_gpio p ! j \<and>
             t_mb_ping_ack (ts ! j) = p_mb_ping_ack p \<and> t_id (ts ! j) = of_nat j) \<and>
    distinct (app_mailboxes p) \<and> distinct (app_threads p h ts) \<and>
    (\<forall>th \<in> set (app_threads p h ts). \<exists>t. th = Some t \<and> is_thread t k' \<and> stat_of (thr k' t) = RT_THREAD_INIT) \<and>
    (\<forall>j < 4. \<exists>t. p_simulation_thread (ts ! j) = Some t \<and> 10 \<le> period (thr k' t) \<and> period (thr k' t) < 100)"
proof -
  have "\<exists>r. target_period (rand j) 0 = Some r \<and> 10 \<le> r \<and> r < 100" if "j < 4" for j
    using assms(4) that target_period_some [of "rand j" 0] by auto
  then obtain per where per: "target_period (rand j) 0 = Some (per j)" "10 \<le> per j" "per j < 100" if "j < 4" for j
    by metis
  note m = memory_okD [OF assms(3,1,2), where N = 23 and al' = al, simplified]
  obtain k' where k': "main_setup c al rand k =
      Some (RT_EOK, linked_sps al, linked_host al, map (linked_target al) [0..<4], k')" "setup_at c al per 23 23 k'"
    by (rule main_setup_ok [OF m(1) m(2) [of per]]) (use per in auto)
  note d = setup_done(1) [OF k'(2)]
  have th: "is_thread (addr al n) k' \<and> stat_of (thr k' (addr al n)) = RT_THREAD_INIT" if "n \<in> {1, 2, 3, 16, 17, 19, 20, 21, 22}" for n
    using d [of n] that by (auto simp: plan_def)
  have pr: "10 \<le> period (thr k' (addr al (19 + j))) \<and> period (thr k' (addr al (19 + j))) < 100" if "j < 4" for j
    using d [of "19 + j"] that per(2,3) [OF that]
    by (simp add: plan_def word_le_nat_alt word_less_nat_alt unsigned_ucast_eq take_bit_nat_eq_self)
  obtain junk where "power_view (linked_sps al) (linked_host al) (map (linked_target al) [0..<4]) k' = power_init junk"
    using linked_view [OF assms(3) k'(2)] by blast
  moreover have "\<exists>t. x = Some t \<and> is_thread t k' \<and> stat_of (thr k' t) = RT_THREAD_INIT"
    if "x \<in> set (app_threads (linked_sps al) (linked_host al) (map (linked_target al) [0..<4]))" for x
    using that th unfolding linked_parts(3) by blast
  moreover have "sched_inv k'" using setup_done(2) [OF k'(2), of 0] by simp
  ultimately show ?thesis
    using k'(1) linked_distinct [OF m(1)] linked_parts(1,2) [of al] linked_target_parts [of _ al] pr
    by (intro exI [of _ "linked_sps al"] exI [of _ "linked_host al"] exI [of _ "map (linked_target al) [0..<4]"]
        exI [of _ k'] exI [of _ junk]) blast
qed

text \<open>The setup at boot, with the memory numbered.\<close>

definition demo_alloc :: allocator where
  "demo_alloc = \<lparr>new_object = (\<lambda>n. Some (n + 1)), new_stack = (\<lambda>n. Some (1000 + n)),
     new_pool = (\<lambda>n. Some (replicate (if n = 6 \<or> n = 7 then 4 else 1) 0))\<rparr>"

lemma demo_alloc_ok: "memory_ok demo_alloc zero_kernel" "not_in_interrupt 0 zero_kernel"
  by (auto simp: memory_ok_def demo_alloc_def inj_on_def fresh_def off_lists_def ids_def not_in_interrupt_def zero_defs)

theorem main_setup_builds_system_witness:
  "\<exists>p h ts k' junk. main_setup 0 demo_alloc (\<lambda>_ _. 42) zero_kernel = Some (RT_EOK, p, h, ts, k') \<and>
     power_view p h ts k' = power_init junk"
  using main_setup_builds_system [OF zero_inv demo_alloc_ok(2,1), of "\<lambda>_ _. 42"] by fastforce

text \<open>When there is no memory for one of the eight mailboxes of the targets, \<^verbatim>\<open>sps_init\<close> does not return: the index
  of its cleanup loop is unsigned, so that the loop goes on past the first entry with index 255,
  outside the array.\<close>

theorem failed_setup_never_returns:
  assumes "sched_inv k" "not_in_interrupt c k" "memory_ok al k" "8 \<le> N" "N < 16"
  shows "sps_init c (al\<lparr>new_object := (new_object al)(N := None)\<rparr>) zero_sps k = None"
proof -
  let ?al = "al\<lparr>new_object := (new_object al)(N := None)\<rparr>"
  have m: "memory_left ?al N" "setup_at c ?al per N 0 k" for per
    by (rule memory_okD [OF assms(3,1,2)]; use assms(5) in simp)+
  obtain k1 where k1: "setup_at c ?al (\<lambda>_. 0) N 8 k1"
    "\<And>i p k'. target_mailboxes c ?al [0..<4] (half_linked ?al) k1 = Some (Some i, p, k') \<Longrightarrow> sps_init c ?al zero_sps k = None"
    by (rule sps_init_prefix [OF m assms(4)]) blast
  show ?thesis
    using target_mailboxes_fail [OF m(1), of c "\<lambda>_. 0" 0 k1 4 "half_linked ?al"] k1 assms(4,5) by (auto simp del: upt_rec_numeral)
qed

theorem failed_setup_never_returns_witness:
  "sps_init 0 (demo_alloc\<lparr>new_object := (new_object demo_alloc)(10 := None)\<rparr>) zero_sps zero_kernel = None"
  by (rule failed_setup_never_returns [OF zero_inv demo_alloc_ok(2,1)]) simp_all

end
