(* ===== verification/KService.thy ===== *)
theory KService
  imports Prelude
begin

text \<open>
  Memory and string functions of \<^verbatim>\<open>src/kservice.c\<close>, in the variant without \<^verbatim>\<open>RT_USING_TINY_SIZE\<close>, on a 32-bit memory of bytes. A \<^verbatim>\<open>long\<close>
  is four bytes, the lowest first; \<^verbatim>\<open>char\<close> is unsigned, as on ARM. Addresses wrap around at \<open>2\<^sup>3\<^sup>2\<close>. Loops over a
  counter are total; loops that look for the end of a string are partial functions.
\<close>

type_synonym memory = "u32 \<Rightarrow> u8"

section \<open>Setting and copying memory\<close>

definition store_long :: "u32 \<Rightarrow> u32 \<Rightarrow> memory \<Rightarrow> memory" where
  "store_long a v m = m(a := ucast v, a + 1 := ucast (drop_bit 8 v), a + 2 := ucast (drop_bit 16 v), a + 3 := ucast (drop_bit 24 v))"

definition load_long :: "memory \<Rightarrow> u32 \<Rightarrow> u32" where
  "load_long m a = ucast (m a) OR push_bit 8 (ucast (m (a + 1))) OR push_bit 16 (ucast (m (a + 2))) OR push_bit 24 (ucast (m (a + 3)))"

text \<open>The loops of \<^verbatim>\<open>rt_memset\<close>: four longs, one long, one byte at a time.\<close>

function memset_blocks :: "u32 \<Rightarrow> u32 \<Rightarrow> u32 \<Rightarrow> memory \<Rightarrow> u32 \<times> u32 \<times> memory" where
  "memset_blocks buf a n m =
     (if n \<ge> 16 then memset_blocks buf (a + 16) (n - 16)
        (store_long (a + 12) buf (store_long (a + 8) buf (store_long (a + 4) buf (store_long a buf m))))
      else (a, n, m))"
  by auto
termination
  by (relation "measure (\<lambda>(_, _, n, _). unat n)") (simp_all add: word_le_nat_alt unat_sub_u32)

function memset_longs :: "u32 \<Rightarrow> u32 \<Rightarrow> u32 \<Rightarrow> memory \<Rightarrow> u32 \<times> u32 \<times> memory" where
  "memset_longs buf a n m = (if n \<ge> 4 then memset_longs buf (a + 4) (n - 4) (store_long a buf m) else (a, n, m))"
  by auto
termination
  by (relation "measure (\<lambda>(_, _, n, _). unat n)") (simp_all add: word_le_nat_alt unat_sub_u32)

function memset_bytes :: "u8 \<Rightarrow> u32 \<Rightarrow> u32 \<Rightarrow> memory \<Rightarrow> memory" where
  "memset_bytes d a n m = (if n = 0 then m else memset_bytes d (a + 1) (n - 1) (m(a := d)))"
  by auto
termination
  by (relation "measure (\<lambda>(_, _, n, _). unat n)") (simp_all add: unat_pred unat_gt_0)

definition rt_memset :: "u32 \<Rightarrow> u32 \<Rightarrow> u32 \<Rightarrow> memory \<Rightarrow> memory" where
  "rt_memset s c n m =
     (let d = c AND 0xff in
      if \<not> n < 4 \<and> s AND 3 = 0 then
        let buffer = push_bit 8 d OR d;
            buffer = buffer OR push_bit 16 buffer;
            (a, n, m) = memset_blocks buffer s n m;
            (a, n, m) = memset_longs buffer a n m
        in memset_bytes (ucast d) a n m
      else memset_bytes (ucast d) s n m)"

text \<open>The loops of \<^verbatim>\<open>rt_memcpy\<close>. Its \<^verbatim>\<open>int len\<close> is compared with values of type \<^verbatim>\<open>size_t\<close> only, so it counts as an unsigned
  number.\<close>

definition copy_long :: "u32 \<Rightarrow> u32 \<Rightarrow> memory \<Rightarrow> memory" where
  "copy_long d s m = store_long d (load_long m s) m"

function memcpy_blocks :: "u32 \<Rightarrow> u32 \<Rightarrow> u32 \<Rightarrow> memory \<Rightarrow> u32 \<times> u32 \<times> u32 \<times> memory" where
  "memcpy_blocks d s n m =
     (if n \<ge> 16 then memcpy_blocks (d + 16) (s + 16) (n - 16)
        (copy_long (d + 12) (s + 12) (copy_long (d + 8) (s + 8) (copy_long (d + 4) (s + 4) (copy_long d s m))))
      else (d, s, n, m))"
  by auto
termination
  by (relation "measure (\<lambda>(_, _, n, _). unat n)") (simp_all add: word_le_nat_alt unat_sub_u32)

function memcpy_longs :: "u32 \<Rightarrow> u32 \<Rightarrow> u32 \<Rightarrow> memory \<Rightarrow> u32 \<times> u32 \<times> u32 \<times> memory" where
  "memcpy_longs d s n m = (if n \<ge> 4 then memcpy_longs (d + 4) (s + 4) (n - 4) (copy_long d s m) else (d, s, n, m))"
  by auto
termination
  by (relation "measure (\<lambda>(_, _, n, _). unat n)") (simp_all add: word_le_nat_alt unat_sub_u32)

function copy_up :: "u32 \<Rightarrow> u32 \<Rightarrow> u32 \<Rightarrow> memory \<Rightarrow> memory" where
  "copy_up d s n m = (if n = 0 then m else copy_up (d + 1) (s + 1) (n - 1) (m(d := m s)))"
  by auto
termination
  by (relation "measure (\<lambda>(_, _, n, _). unat n)") (simp_all add: unat_pred unat_gt_0)

definition rt_memcpy :: "u32 \<Rightarrow> u32 \<Rightarrow> u32 \<Rightarrow> memory \<Rightarrow> memory" where
  "rt_memcpy dst src n m =
     (if \<not> n < 16 \<and> (src AND 3) OR (dst AND 3) = 0 then
        let (d, s, n, m) = memcpy_blocks dst src n m;
            (d, s, n, m) = memcpy_longs d s n m
        in copy_up d s n m
      else copy_up dst src n m)"

function copy_down :: "u32 \<Rightarrow> u32 \<Rightarrow> u32 \<Rightarrow> memory \<Rightarrow> memory" where
  "copy_down d s n m = (if n = 0 then m else copy_down (d - 1) (s - 1) (n - 1) (m(d - 1 := m (s - 1))))"
  by auto
termination
  by (relation "measure (\<lambda>(_, _, n, _). unat n)") (simp_all add: unat_pred unat_gt_0)

definition rt_memmove :: "u32 \<Rightarrow> u32 \<Rightarrow> u32 \<Rightarrow> memory \<Rightarrow> memory" where
  "rt_memmove dest src n m =
     (if src < dest \<and> dest < src + n then copy_down (dest + n) (src + n) n m else copy_up dest src n m)"

function rt_memcmp :: "memory \<Rightarrow> u32 \<Rightarrow> u32 \<Rightarrow> u32 \<Rightarrow> int" where
  "rt_memcmp m cs ct n =
     (if n = 0 then 0
      else let res = uint (m cs) - uint (m ct) in
        if res \<noteq> 0 then res else rt_memcmp m (cs + 1) (ct + 1) (n - 1))"
  by auto
termination
  by (relation "measure (\<lambda>(_, _, _, n). unat n)") (simp_all add: unat_pred unat_gt_0)

section \<open>Strings\<close>

partial_function (option) strlen_loop :: "memory \<Rightarrow> u32 \<Rightarrow> u32 option" where
  "strlen_loop m sc = (if m sc \<noteq> 0 then strlen_loop m (sc + 1) else Some sc)"

definition rt_strlen :: "memory \<Rightarrow> u32 \<Rightarrow> u32 option" where
  "rt_strlen m s = map_option (\<lambda>sc. sc - s) (strlen_loop m s)"

function strnlen_loop :: "memory \<Rightarrow> u32 \<Rightarrow> u32 \<Rightarrow> u32 \<Rightarrow> u32" where
  "strnlen_loop m s maxlen sc = (if m sc \<noteq> 0 \<and> sc - s < maxlen then strnlen_loop m s maxlen (sc + 1) else sc)"
  by auto
termination
proof (relation "measure (\<lambda>(_, s, maxlen, sc). unat maxlen - unat (sc - s))")
  fix m :: memory and s maxlen sc :: u32
  assume "m sc \<noteq> 0 \<and> sc - s < maxlen"
  then have l: "unat (sc - s) < unat maxlen" by (simp add: word_less_nat_alt)
  then have "unat (sc - s + 1) = unat (sc - s) + 1"
    using unat_less_2_32 [of maxlen] by (intro unat_Suc_no_wrap) simp
  moreover have "sc - s + 1 = sc + 1 - s" by (rule diff_add_eq)
  ultimately have "unat (sc + 1 - s) = unat (sc - s) + 1" by metis
  with l show "((m, s, maxlen, sc + 1), (m, s, maxlen, sc)) \<in> measure (\<lambda>(_, s, maxlen, sc). unat maxlen - unat (sc - s))"
    by simp
qed simp

definition rt_strnlen :: "memory \<Rightarrow> u32 \<Rightarrow> u32 \<Rightarrow> u32" where
  "rt_strnlen m s maxlen = strnlen_loop m s maxlen s - s"

partial_function (option) rt_strcmp :: "memory \<Rightarrow> u32 \<Rightarrow> u32 \<Rightarrow> int option" where
  "rt_strcmp m cs ct =
     (if m cs \<noteq> 0 \<and> m cs = m ct then rt_strcmp m (cs + 1) (ct + 1) else Some (uint (m cs) - uint (m ct)))"

text \<open>\<^verbatim>\<open>__res\<close> is a \<^verbatim>\<open>signed char\<close>.\<close>

function strncmp_loop :: "memory \<Rightarrow> u32 \<Rightarrow> u32 \<Rightarrow> u32 \<Rightarrow> u8 \<Rightarrow> u8" where
  "strncmp_loop m cs ct n res =
     (if n = 0 then res
      else let res = m cs - m ct in
        if res \<noteq> 0 \<or> m cs = 0 then res else strncmp_loop m (cs + 1) (ct + 1) (n - 1) res)"
  by auto
termination
  by (relation "measure (\<lambda>(_, _, _, n, _). unat n)") (simp_all add: unat_pred unat_gt_0)

definition rt_strncmp :: "memory \<Rightarrow> u32 \<Rightarrow> u32 \<Rightarrow> u32 \<Rightarrow> int" where
  "rt_strncmp m cs ct n = sint (strncmp_loop m cs ct n 0)"

definition lower_case :: "u8 \<Rightarrow> u8" where
  "lower_case c = (if c \<ge> 65 \<and> c \<le> 90 then c + (97 - 65) else c)"

partial_function (option) rt_strcasecmp :: "memory \<Rightarrow> u32 \<Rightarrow> u32 \<Rightarrow> u32 option" where
  "rt_strcasecmp m a b =
     (let ca = lower_case (m a); cb = lower_case (m b) in
      if ca = cb \<and> ca \<noteq> 0 then rt_strcasecmp m (a + 1) (b + 1) else Some (ucast ca - ucast cb))"

lemma unat_pred_less: "(n :: u32) \<noteq> 0 \<Longrightarrow> unat (n - 1) < unat n"
  by (simp add: unat_pred unat_gt_0)

function strncpy_pad :: "u32 \<Rightarrow> u32 \<Rightarrow> memory \<Rightarrow> memory" where
  "strncpy_pad d n m = (let n = n - 1 in if n \<noteq> 0 then strncpy_pad (d + 1) n (m(d := 0)) else m)"
  by auto
termination
  by (relation "measure (\<lambda>(_, n, _). unat (n - 1))") (simp_all only: in_measure wf_measure case_prod_conv unat_pred_less simp_thms)

function strncpy_loop :: "u32 \<Rightarrow> u32 \<Rightarrow> u32 \<Rightarrow> memory \<Rightarrow> memory" where
  "strncpy_loop d s n m =
     (let m1 = m(d := m s) in
      if m s = 0 then strncpy_pad (d + 1) n m1
      else let n = n - 1 in if n \<noteq> 0 then strncpy_loop (d + 1) (s + 1) n m1 else m1)"
  by auto
termination
  by (relation "measure (\<lambda>(_, _, n, _). unat (n - 1))") (simp_all only: in_measure wf_measure case_prod_conv unat_pred_less simp_thms)

definition rt_strncpy :: "u32 \<Rightarrow> u32 \<Rightarrow> u32 \<Rightarrow> memory \<Rightarrow> memory" where
  "rt_strncpy dst src n m = (if n \<noteq> 0 then strncpy_loop dst src n m else m)"

function strstr_loop :: "memory \<Rightarrow> u32 \<Rightarrow> u32 \<Rightarrow> int \<Rightarrow> int \<Rightarrow> u32 option" where
  "strstr_loop m s1 s2 l1 l2 =
     (if l1 \<ge> l2 then
        if rt_memcmp m s1 s2 (word_of_int l2) = 0 then Some s1 else strstr_loop m (s1 + 1) s2 (l1 - 1) l2
      else None)"
  by auto
termination
  by (relation "measure (\<lambda>(_, _, _, l1, l2). nat (l1 - l2 + 1))") simp_all

definition rt_strstr :: "memory \<Rightarrow> u32 \<Rightarrow> u32 \<Rightarrow> u32 option option" where
  "rt_strstr m s1 s2 = do {
     l2 \<leftarrow> rt_strlen m s2;
     if l2 = 0 then Some (Some s1)
     else do {
       l1 \<leftarrow> rt_strlen m s1;
       Some (strstr_loop m s1 s2 (sint l1) (sint l2)) } }"

declare memset_blocks.simps [simp del] memset_longs.simps [simp del] memset_bytes.simps [simp del]
  memcpy_blocks.simps [simp del] memcpy_longs.simps [simp del] copy_up.simps [simp del] copy_down.simps [simp del]
  rt_memcmp.simps [simp del] strnlen_loop.simps [simp del] strncmp_loop.simps [simp del] strncpy_pad.simps [simp del]
  strncpy_loop.simps [simp del] strstr_loop.simps [simp del]

section \<open>What they do\<close>

definition filled :: "u8 \<Rightarrow> u32 \<Rightarrow> u32 \<Rightarrow> memory \<Rightarrow> memory" where
  "filled d a n m = (\<lambda>x. if x - a < n then d else m x)"

definition copied :: "u32 \<Rightarrow> u32 \<Rightarrow> u32 \<Rightarrow> memory \<Rightarrow> memory" where
  "copied d s n m = (\<lambda>x. if x - d < n then m (s + (x - d)) else m x)"

lemma below_split:
  fixes y k n :: u32
  assumes "k \<le> n"
  shows "y < n \<longleftrightarrow> y < k \<or> y - k < n - k" "y < k \<Longrightarrow> \<not> y - k < n - k"
  using assms unat_less_2_32 [of n] by (auto simp: word_less_nat_alt word_le_nat_alt unat_sub_u32 split: if_splits)

lemma behind: "n \<le> D \<Longrightarrow> \<not> y < k \<Longrightarrow> y < n \<Longrightarrow> \<not> y - D < (k :: u32)"
  using unat_less_2_32 [of D] by (auto simp: word_less_nat_alt word_le_nat_alt unat_sub_u32)

lemma filled_step:
  assumes "k \<le> n"
  shows "filled d (a + k) (n - k) (filled d a k m) = filled d a n m"
proof
  fix x
  show "filled d (a + k) (n - k) (filled d a k m) x = filled d a n m x"
    using below_split(1) [OF assms, of "x - a"] by (auto simp: filled_def diff_diff_eq)
qed

lemma copied_step:
  assumes "k \<le> n" "d = s \<or> d - s \<ge> n"
  shows "copied (d + k) (s + k) (n - k) (copied d s k m) = copied d s n m"
proof
  fix x
  define y where "y = x - d"
  note b = below_split [OF assms(1), of y]
  have e: "x - (d + k) = y - k" "s + k + (y - k) = s + y" by (simp_all add: y_def diff_diff_eq)
  have "\<not> s + y - d < k" if "\<not> y < k" "y < n"
  proof (cases "d = s")
    case True
    then show ?thesis using that by simp
  next
    case False
    have "s + y - d = y - (d - s)" by simp
    then show ?thesis using behind [of n "d - s" y k] False assms(2) that by metis
  qed
  then show "copied (d + k) (s + k) (n - k) (copied d s k m) x = copied d s n m x"
    using b unfolding copied_def e y_def [symmetric] by auto
qed

lemma upto_four: "(y :: u32) < 4 \<longleftrightarrow> y = 0 \<or> y = 1 \<or> y = 2 \<or> y = 3"
proof
  assume "y < 4"
  then have "unat y < 4" by (simp add: word_less_nat_alt)
  then consider "unat y = 0" | "unat y = 1" | "unat y = 2" | "unat y = 3" by linarith
  then show "y = 0 \<or> y = 1 \<or> y = 2 \<or> y = 3" by cases (simp_all add: word_unat_eq_iff)
qed auto

lemma store_long_at: "store_long a v m (a + y) = (if y < 4 then ucast (drop_bit (8 * unat y) v) else m (a + y))"
proof (cases "y < 4")
  case True
  then consider "y = 0" | "y = 1" | "y = 2" | "y = 3" unfolding upto_four by blast
  then show ?thesis by cases (simp_all add: store_long_def)
next
  case False
  then have "y \<noteq> 0" "y \<noteq> 1" "y \<noteq> 2" "y \<noteq> 3" by auto
  then show ?thesis using False by (simp add: store_long_def)
qed

lemma load_long_byte:
  assumes "y < 4"
  shows "ucast (drop_bit (8 * unat y) (load_long m a)) = m (a + y)"
proof -
  consider "y = 0" | "y = 1" | "y = 2" | "y = 3" using assms unfolding upto_four by blast
  moreover have "8 \<le> n \<Longrightarrow> \<not> bit (b :: u8) n" for b n using bit_imp_le_length [of b n] by auto
  ultimately show ?thesis
    by cases (auto intro!: bit_word_eqI simp: load_long_def bit_simps)
qed

lemma load_store_long: "load_long (store_long a v m) a = v"
proof (rule bit_word_eqI)
  fix n assume "n < LENGTH(32)"
  then consider "n < 8" | "8 \<le> n" "n < 16" | "16 \<le> n" "n < 24" | "24 \<le> n" "n < 32" by fastforce
  then show "bit (load_long (store_long a v m) a) n = bit v n"
    by cases (auto simp: load_long_def store_long_def bit_simps)
qed

lemma copy_long_eq: "copy_long d s m = copied d s 4 m"
proof
  fix x
  show "copy_long d s m x = copied d s 4 m x"
    using store_long_at [of d "load_long m s" m "x - d"] load_long_byte [of "x - d" m s] by (simp add: copy_long_def copied_def)
qed

lemma memset_bytes_eq: "memset_bytes d a n m = filled d a n m"
proof (induction d a n m rule: memset_bytes.induct)
  case (1 d a n m)
  show ?case
  proof (cases "n = 0")
    case True
    then show ?thesis by (subst memset_bytes.simps) (simp add: filled_def fun_eq_iff)
  next
    case False
    have "m(a := d) = filled d a 1 m" by (auto simp: filled_def fun_eq_iff word_less_1)
    moreover have "1 \<le> n" using False by (simp add: word_le_nat_alt Suc_le_eq unat_gt_0)
    ultimately show ?thesis using 1 [OF False] False by (subst memset_bytes.simps) (simp add: filled_step)
  qed
qed

lemma copy_up_eq: "d = s \<or> d - s \<ge> n \<Longrightarrow> copy_up d s n m = copied d s n m"
proof (induction d s n m rule: copy_up.induct)
  case (1 d s n m)
  show ?case
  proof (cases "n = 0")
    case True
    then show ?thesis by (subst copy_up.simps) (simp add: copied_def fun_eq_iff)
  next
    case False
    have "m(d := m s) = copied d s 1 m" by (auto simp: copied_def fun_eq_iff word_less_1)
    moreover have "1 \<le> n" using False by (simp add: word_le_nat_alt Suc_le_eq unat_gt_0)
    moreover have "d + 1 = s + 1 \<or> n - 1 \<le> d + 1 - (s + 1)"
      using "1.prems" False by (auto simp: word_le_nat_alt unat_pred)
    ultimately show ?thesis using 1 False copied_step [of 1 n d s] by (subst copy_up.simps) simp
  qed
qed

lemma four_longs: "filled d (a + 12) 4 (filled d (a + 8) 4 (filled d (a + 4) 4 (filled d a 4 m))) = filled d a 16 m"
  using filled_step [of 4 16 d a m] filled_step [of 4 12 d "a + 4" "filled d a 4 m"]
    filled_step [of 4 8 d "a + 8" "filled d (a + 4) 4 (filled d a 4 m)"] by (simp add: add.commute [of _ a])

lemma store_long_fill:
  assumes "\<And>i. i < 4 \<Longrightarrow> ucast (drop_bit (8 * i) buf) = d"
  shows "store_long a buf m = filled d a 4 m"
proof
  fix x
  have "x - a < 4 \<Longrightarrow> unat (x - a) < 4" by (simp add: word_less_nat_alt)
  then show "store_long a buf m x = filled d a 4 m x"
    using store_long_at [of a buf m "x - a"] assms by (simp add: filled_def)
qed

lemma memset_loops_eq:
  assumes "\<And>a m. store_long a buf m = filled d a 4 m"
  shows "\<exists>a' n' m'. memset_blocks buf a n m = (a', n', m') \<and> filled d a' n' m' = filled d a n m"
    "\<exists>a' n' m'. memset_longs buf a n m = (a', n', m') \<and> filled d a' n' m' = filled d a n m"
proof -
  show "\<exists>a' n' m'. memset_blocks buf a n m = (a', n', m') \<and> filled d a' n' m' = filled d a n m"
    using assms
  proof (induction buf a n m rule: memset_blocks.induct)
    case (1 buf a n m)
    then show ?case
      using four_longs [of d a m] filled_step [of 16 n d a m] by (subst memset_blocks.simps) (cases "n \<ge> 16"; simp)
  qed
  show "\<exists>a' n' m'. memset_longs buf a n m = (a', n', m') \<and> filled d a' n' m' = filled d a n m"
    using assms
  proof (induction buf a n m rule: memset_longs.induct)
    case (1 buf a n m)
    then show ?case
      using filled_step [of 4 n d a m] by (subst memset_longs.simps) (cases "n \<ge> 4"; simp)
  qed
qed

lemma byte_mask: "(0xff :: u32) = mask 8"
  by (simp add: mask_eq_exp_minus_1)

lemma memset_buffer:
  fixes d :: u32
  assumes "\<And>n. 8 \<le> n \<Longrightarrow> \<not> bit d n" "buffer = push_bit 8 d OR d" "i < 4"
  shows "(ucast (drop_bit (8 * i) (buffer OR push_bit 16 buffer)) :: u8) = ucast d"
proof (rule bit_word_eqI)
  fix n assume n: "n < LENGTH(8)"
  consider "i = 0" | "i = 1" | "i = 2" | "i = 3" using assms(3) by linarith
  then show "bit (ucast (drop_bit (8 * i) (buffer OR push_bit 16 buffer)) :: u8) n = bit (ucast d :: u8) n"
    using n by cases (simp_all add: assms(1,2) bit_simps)
qed

theorem memset_fills: "rt_memset s c n m = filled (ucast c) s n m"
proof -
  define d where "d = c AND 0xff"
  define b where "b = push_bit 8 d OR d"
  have c: "(ucast d :: u8) = ucast c" by (rule bit_word_eqI) (auto simp: d_def byte_mask bit_simps)
  have hi: "\<And>n. 8 \<le> n \<Longrightarrow> \<not> bit d n" by (simp add: d_def byte_mask bit_simps)
  have st: "store_long a (b OR push_bit 16 b) m = filled (ucast d) a 4 m" for a m
    by (rule store_long_fill) (rule memset_buffer [OF hi b_def])
  obtain a1 n1 m1 where 1: "memset_blocks (b OR push_bit 16 b) s n m = (a1, n1, m1)" "filled (ucast d) a1 n1 m1 = filled (ucast d) s n m"
    using memset_loops_eq(1) [OF st] by blast
  obtain a2 n2 m2 where 2: "memset_longs (b OR push_bit 16 b) a1 n1 m1 = (a2, n2, m2)" "filled (ucast d) a2 n2 m2 = filled (ucast d) a1 n1 m1"
    using memset_loops_eq(2) [OF st] by blast
  show ?thesis
    using 1 2 c by (simp add: rt_memset_def Let_def d_def [symmetric] b_def [symmetric] memset_bytes_eq)
qed

lemma four_copies:
  assumes "d = s \<or> d - s \<ge> 16"
  shows "copied (d + 12) (s + 12) 4 (copied (d + 8) (s + 8) 4 (copied (d + 4) (s + 4) 4 (copied d s 4 m))) = copied d s 16 m"
proof -
  have le: "d = s \<or> d - s \<ge> 12" "d = s \<or> d - s \<ge> 8" using assms by (auto simp: word_le_nat_alt)
  show ?thesis
    using copied_step [of 4 16 d s m] copied_step [of 4 12 "d + 4" "s + 4" "copied d s 4 m"] assms le
      copied_step [of 4 8 "d + 8" "s + 8" "copied (d + 4) (s + 4) 4 (copied d s 4 m)"] by (simp add: add.commute [of _ d] add.commute [of _ s])
qed

lemma apart_rest: "d = s \<or> d - s \<ge> n \<Longrightarrow> k \<le> n \<Longrightarrow> d + k = s + k \<or> (d + k) - (s + k) \<ge> (n - k :: u32)"
  by (auto simp: word_le_nat_alt unat_sub_u32)

lemma memcpy_loops_eq:
  assumes "d = s \<or> d - s \<ge> n"
  shows "\<exists>d' s' n' m'. memcpy_blocks d s n m = (d', s', n', m') \<and> (d' = s' \<or> d' - s' \<ge> n') \<and> copied d' s' n' m' = copied d s n m"
    "\<exists>d' s' n' m'. memcpy_longs d s n m = (d', s', n', m') \<and> (d' = s' \<or> d' - s' \<ge> n') \<and> copied d' s' n' m' = copied d s n m"
proof -
  show "\<exists>d' s' n' m'. memcpy_blocks d s n m = (d', s', n', m') \<and> (d' = s' \<or> d' - s' \<ge> n') \<and> copied d' s' n' m' = copied d s n m"
    using assms
  proof (induction d s n m rule: memcpy_blocks.induct)
    case (1 d s n m)
    show ?case
    proof (cases "n \<ge> 16")
      case True
      have "d = s \<or> d - s \<ge> 16" using "1.prems" True by auto
      note e = four_copies [OF this] and r = apart_rest [OF "1.prems" True]
      show ?thesis
        using "1.IH" [OF True] True r e copied_step [OF True "1.prems"] by (subst memcpy_blocks.simps) (simp add: copy_long_eq)
    next
      case False
      then show ?thesis using "1.prems" by (subst memcpy_blocks.simps) simp
    qed
  qed
  show "\<exists>d' s' n' m'. memcpy_longs d s n m = (d', s', n', m') \<and> (d' = s' \<or> d' - s' \<ge> n') \<and> copied d' s' n' m' = copied d s n m"
    using assms
  proof (induction d s n m rule: memcpy_longs.induct)
    case (1 d s n m)
    show ?case
    proof (cases "n \<ge> 4")
      case True
      then show ?thesis
        using "1.IH" [OF True] apart_rest [OF "1.prems" True] copied_step [OF True "1.prems"]
        by (subst memcpy_longs.simps) (simp add: copy_long_eq)
    next
      case False
      then show ?thesis using "1.prems" by (subst memcpy_longs.simps) simp
    qed
  qed
qed

lemma memcpy_copies:
  assumes "dst = src \<or> dst - src \<ge> n"
  shows "rt_memcpy dst src n m = copied dst src n m"
proof -
  obtain d1 s1 n1 m1 where 1: "memcpy_blocks dst src n m = (d1, s1, n1, m1)" "d1 = s1 \<or> d1 - s1 \<ge> n1" "copied d1 s1 n1 m1 = copied dst src n m"
    using memcpy_loops_eq(1) [OF assms] by blast
  obtain d2 s2 n2 m2 where 2: "memcpy_longs d1 s1 n1 m1 = (d2, s2, n2, m2)" "d2 = s2 \<or> d2 - s2 \<ge> n2" "copied d2 s2 n2 m2 = copied d1 s1 n1 m1"
    using memcpy_loops_eq(2) [OF 1(2)] by blast
  show ?thesis
    using 1 2 copy_up_eq [OF assms] copy_up_eq [OF 2(2)] by (simp add: rt_memcpy_def)
qed

text \<open>Copying from the end, for a source that does not start inside the destination.\<close>

lemma copied_down_step:
  assumes "n \<noteq> 0" "d = s \<or> s - d \<ge> n"
  shows "copied d s (n - 1) (m(d + (n - 1) := m (s + (n - 1)))) = copied d s n m"
proof
  fix x
  define y where "y = x - d"
  have x: "x = d + y" by (simp add: y_def)
  have b: "y < n \<longleftrightarrow> y < n - 1 \<or> y = n - 1" "\<not> n - 1 < n - 1"
    using assms(1) by (auto simp: word_less_nat_alt unat_pred word_unat_eq_iff)
  have "s + y \<noteq> d + (n - 1)" if "y < n - 1"
  proof
    assume e: "s + y = d + (n - 1)"
    then have "s - d = n - 1 - y" by (simp add: algebra_simps)
    moreover have "unat (n - 1 - y) = unat n - 1 - unat y" "unat n - 1 - unat y < unat n"
      using that assms(1) unat_gt_0 [of n] unat_sub_u32 [of "n - 1" y] by (auto simp: word_less_nat_alt unat_pred)
    ultimately have "\<not> s - d \<ge> n" by (simp add: word_le_nat_alt)
    then show False using assms(2) e that by auto
  qed
  then show "copied d s (n - 1) (m(d + (n - 1) := m (s + (n - 1)))) x = copied d s n m x"
    using b unfolding x by (auto simp: copied_def)
qed

lemma copy_down_eq: "d = s \<or> s - d \<ge> n \<Longrightarrow> copy_down (d + n) (s + n) n m = copied d s n m"
proof (induction "unat n" arbitrary: n m)
  case 0
  then show ?case by (subst copy_down.simps) (simp add: unat_eq_0 copied_def fun_eq_iff)
next
  case (Suc k)
  then have n: "n \<noteq> 0" by auto
  then have k: "k = unat (n - 1)" using Suc.hyps(2) unat_pred [of n] by simp
  have "d = s \<or> s - d \<ge> n - 1" using Suc.prems n by (auto simp: word_le_nat_alt unat_pred)
  note IH = Suc.hyps(1) [OF k this]
  have "copy_down (d + n) (s + n) n m = copy_down (d + (n - 1)) (s + (n - 1)) (n - 1) (m(d + (n - 1) := m (s + (n - 1))))"
    using n by (subst copy_down.simps) (simp add: algebra_simps)
  then show ?case using IH copied_down_step [OF n Suc.prems] by simp
qed

lemma memmove_copies:
  assumes "unat src + unat n < 2 ^ 32" "unat dest + unat n < 2 ^ 32"
  shows "rt_memmove dest src n m = copied dest src n m"
proof (cases "src < dest \<and> dest < src + n")
  case True
  have "src - dest \<ge> n" using True assms by (simp add: word_less_nat_alt word_le_nat_alt unat_sub_u32)
  then show ?thesis using True copy_down_eq [of dest src n m] by (simp add: rt_memmove_def)
next
  case False
  have "unat (src + n) = unat src + unat n" using assms(1) by (intro unat_add_no_wrap) simp
  then have "dest = src \<or> dest - src \<ge> n"
    using False assms by (auto simp: word_less_nat_alt word_le_nat_alt unat_sub_u32 word_unat_eq_iff)
  then show ?thesis using copy_up_eq [of dest src n m] unfolding rt_memmove_def if_not_P [OF False] by simp
qed

lemma memcmp_equal: "rt_memcmp m a b n = 0 \<longleftrightarrow> (\<forall>i < n. m (a + i) = m (b + i))"
proof (induction m a b n rule: rt_memcmp.induct)
  case (1 m a b n)
  show ?case
  proof (cases "n = 0 \<or> m a \<noteq> m b")
    case True
    moreover have "m a \<noteq> m b \<Longrightarrow> uint (m a) - uint (m b) \<noteq> 0" by (simp add: word_uint_eq_iff)
    ultimately show ?thesis
      by (subst rt_memcmp.simps) (auto simp: Let_def word_neq_0_conv intro!: exI [of _ 0])
  next
    case False
    then have n: "n \<noteq> 0" and e: "m a = m b" by auto
    have "(\<forall>i < n. m (a + i) = m (b + i)) \<longleftrightarrow> (\<forall>i < n - 1. m (a + 1 + i) = m (b + 1 + i))"
    proof (intro iffI allI impI)
      fix i assume l: "\<forall>i < n. m (a + i) = m (b + i)" and i: "i < n - 1"
      then have "i + 1 < n" using n by (simp add: word_less_nat_alt unat_pred unat_Suc_no_wrap) (simp add: unat_word_ariths)
      then show "m (a + 1 + i) = m (b + 1 + i)" using l [rule_format, of "i + 1"] by (simp add: ac_simps)
    next
      fix i assume l: "\<forall>i < n - 1. m (a + 1 + i) = m (b + 1 + i)" and i: "i < n"
      show "m (a + i) = m (b + i)"
      proof (cases "i = 0")
        case False
        then have "i - 1 < n - 1" using i n unat_gt_0 [of i] by (simp add: word_less_nat_alt unat_pred)
        then show ?thesis using l [rule_format, of "i - 1"] by simp
      qed (simp add: e)
    qed
    then show ?thesis using 1 n e by (subst rt_memcmp.simps) simp
  qed
qed

section \<open>What the string functions do\<close>

text \<open>The string at an address: bytes other than 0, and a 0 behind them.\<close>

fun str_at :: "memory \<Rightarrow> u32 \<Rightarrow> u8 list \<Rightarrow> bool" where
  "str_at m a [] \<longleftrightarrow> m a = 0"
| "str_at m a (x # xs) \<longleftrightarrow> x \<noteq> 0 \<and> m a = x \<and> str_at m (a + 1) xs"

fun strdiff :: "u8 list \<Rightarrow> u8 list \<Rightarrow> int" where
  "strdiff (x # xs) (y # ys) = (if x = y then strdiff xs ys else uint x - uint y)"
| "strdiff (x # xs) [] = uint x"
| "strdiff [] (y # ys) = - uint y"
| "strdiff [] [] = 0"

lemma str_at_nth: "str_at m a xs \<Longrightarrow> i \<le> length xs \<Longrightarrow> m (a + of_nat i) = (if i < length xs then xs ! i else 0)"
proof (induction xs arbitrary: a i)
  case (Cons x xs)
  show ?case
  proof (cases i)
    case (Suc j)
    then show ?thesis using Cons.IH [of "a + 1" j] Cons.prems by (simp add: add.assoc)
  qed (use Cons.prems in simp)
qed simp

lemma str_at_nonzero: "str_at m a xs \<Longrightarrow> 0 \<notin> set xs"
  by (induction xs arbitrary: a) auto

lemma strlen_loop_at: "str_at m a xs \<Longrightarrow> strlen_loop m a = Some (a + of_nat (length xs))"
proof (induction xs arbitrary: a)
  case Nil
  then show ?case by (subst strlen_loop.simps) simp
next
  case (Cons x xs)
  then show ?case by (subst strlen_loop.simps) (simp add: ac_simps)
qed

lemma strlen_at: "str_at m s xs \<Longrightarrow> rt_strlen m s = Some (of_nat (length xs))"
  by (simp add: rt_strlen_def strlen_loop_at)

lemma strcmp_at: "str_at m a xs \<Longrightarrow> str_at m b ys \<Longrightarrow> rt_strcmp m a b = Some (strdiff xs ys)"
proof (induction xs ys arbitrary: a b rule: strdiff.induct)
  case (1 x xs y ys)
  then show ?case by (subst rt_strcmp.simps) auto
qed (subst rt_strcmp.simps; auto)+

lemma strdiff_zero: "0 \<notin> set xs \<Longrightarrow> 0 \<notin> set ys \<Longrightarrow> strdiff xs ys = 0 \<longleftrightarrow> xs = ys"
  by (induction xs ys rule: strdiff.induct) (auto simp: word_uint_eq_iff)

lemma strdiff_less: "0 \<notin> set xs \<Longrightarrow> 0 \<notin> set ys \<Longrightarrow> strdiff xs ys < 0 \<longleftrightarrow> ord_class.lexordp xs ys"
proof (induction xs ys rule: strdiff.induct)
  case (3 y ys)
  then have "0 < uint y" by (metis list.set_intros(1) uint_0_iff uint_ge_0 order_le_less)
  then show ?case by simp
qed (auto simp: word_less_def word_uint_eq_iff)

lemma strdiff_bounds:
  assumes "\<forall>x \<in> set xs \<union> set ys. uint x < B" "0 < B"
  shows "- B < strdiff xs ys" "strdiff xs ys < B"
proof -
  have "- B < strdiff xs ys \<and> strdiff xs ys < B"
    using assms
  proof (induction xs ys rule: strdiff.induct)
    case (1 x xs y ys)
    then have u: "uint x < B" "uint y < B" by auto
    then have "- B < uint x - uint y" "uint x - uint y < B"
      using uint_ge_0 [of x] uint_ge_0 [of y] by linarith+
    then show ?case using 1 by simp
  next
    case (2 x xs)
    then have "- B < uint x" using uint_ge_0 [of x] by linarith
    then show ?case using 2 by simp
  next
    case (3 y ys)
    then have "- uint y < B" using uint_ge_0 [of y] by linarith
    then show ?case using 3 by simp
  qed simp
  then show "- B < strdiff xs ys" "strdiff xs ys < B" by simp_all
qed

lemma unat_Suc_pred: "Suc k = unat (n :: u32) \<Longrightarrow> n \<noteq> 0" "Suc k = unat (n :: u32) \<Longrightarrow> k = unat (n - 1)"
proof -
  show nz: "Suc k = unat n \<Longrightarrow> n \<noteq> 0" by auto
  show "Suc k = unat n \<Longrightarrow> k = unat (n - 1)" using unat_pred [OF nz] by simp
qed

lemma strncmp_loop_at:
  assumes "str_at m a xs" "str_at m b ys"
  shows "strncmp_loop m a b n 0 = word_of_int (strdiff (take (unat n) xs) (take (unat n) ys))"
  using assms
proof (induction "unat n" arbitrary: a b xs ys n)
  case 0
  then show ?case by (subst strncmp_loop.simps) (simp add: unat_eq_0)
next
  case (Suc k)
  note n = unat_Suc_pred [OF Suc.hyps(2)]
  have t: "take (unat n) zs = (case zs of [] \<Rightarrow> [] | z # zs \<Rightarrow> z # take (unat (n - 1)) zs)" for zs :: "u8 list"
    using Suc.hyps(2) n(2) by (cases zs) (simp_all add: take_Suc_Cons flip: Suc.hyps(2))
  show ?case
  proof (cases "xs = [] \<or> ys = [] \<or> hd xs \<noteq> hd ys")
    case True
    then show ?thesis
      using Suc.prems n(1) unfolding t by (cases xs; cases ys; subst strncmp_loop.simps) (auto simp: Let_def)
  next
    case False
    then obtain x xs' ys' where xy: "xs = x # xs'" "ys = x # ys'" by (cases xs; cases ys) auto
    then show ?thesis
      using Suc.hyps(1) [OF n(2), of "a + 1" xs' "b + 1" ys'] Suc.prems n(1) unfolding t
      by (subst strncmp_loop.simps) (simp add: Let_def)
  qed
qed

text \<open>The 8-bit result is 0 exactly for equal strings, and has the sign of the difference between characters below 128.\<close>

lemma strncmp_at:
  assumes "str_at m a xs" "str_at m b ys"
  shows "rt_strncmp m a b n = 0 \<longleftrightarrow> take (unat n) xs = take (unat n) ys"
    "\<forall>x \<in> set xs \<union> set ys. x < 128 \<Longrightarrow> rt_strncmp m a b n = strdiff (take (unat n) xs) (take (unat n) ys)"
proof -
  let ?d = "strdiff (take (unat n) xs) (take (unat n) ys)"
  have e: "rt_strncmp m a b n = sint (word_of_int ?d :: u8)" by (simp add: rt_strncmp_def strncmp_loop_at [OF assms])
  have nz: "0 \<notin> set (take (unat n) xs)" "0 \<notin> set (take (unat n) ys)"
    using str_at_nonzero assms by (meson in_set_takeD)+
  have byte: "uint x < 256" for x :: u8 using unsigned_less [where 'a = int, of x] by simp
  have "(word_of_int ?d :: u8) = 0 \<longleftrightarrow> ?d = 0"
    using strdiff_bounds [of "take (unat n) xs" "take (unat n) ys" 256] byte
    by (auto simp: word_of_int_eq_0_iff dest: zdvd_imp_le)
  then show "rt_strncmp m a b n = 0 \<longleftrightarrow> take (unat n) xs = take (unat n) ys"
    using e strdiff_zero [OF nz] by (metis sint_0 signed_eq_0_iff)
  assume "\<forall>x \<in> set xs \<union> set ys. x < 128"
  then have "\<forall>x \<in> set (take (unat n) xs) \<union> set (take (unat n) ys). uint x < 128"
    by (auto simp: word_less_def dest!: in_set_takeD)
  note b = strdiff_bounds [OF this]
  show "rt_strncmp m a b n = ?d" unfolding e using b by (simp add: sint_sbintrunc' signed_take_bit_int_eq_self)
qed

lemma lower_case_zero [simp]: "lower_case c = 0 \<longleftrightarrow> c = 0"
proof -
  have "c + 32 \<noteq> 0" if "c \<ge> 65" "c \<le> 90"
  proof -
    have "unat (c + 32) = unat c + 32" using that by (intro unat_add_no_wrap [of c 32, simplified]) (simp add: word_le_nat_alt)
    then show ?thesis by auto
  qed
  then show ?thesis by (auto simp: lower_case_def)
qed

lemma lower_case_0 [simp]: "lower_case 0 = 0"
  by simp

lemma strcasecmp_at:
  "str_at m a xs \<Longrightarrow> str_at m b ys \<Longrightarrow> rt_strcasecmp m a b = Some (word_of_int (strdiff (map lower_case xs) (map lower_case ys)))"
proof (induction xs arbitrary: ys a b)
  case Nil
  then show ?case by (cases ys; subst rt_strcasecmp.simps) (auto simp: Let_def)
next
  case (Cons x xs)
  show ?case
  proof (cases ys)
    case Nil
    then show ?thesis using Cons.prems by (subst rt_strcasecmp.simps) (auto simp: Let_def)
  next
    case ys: (Cons y zs)
    then show ?thesis
      using Cons.IH [of "a + 1" "b + 1" zs] Cons.prems by (subst rt_strcasecmp.simps) (auto simp: Let_def)
  qed
qed

lemma strnlen_loop_at:
  assumes "str_at m sc xs" "unat (sc - s) + length xs < 2 ^ 32" "sc - s \<le> n"
  shows "strnlen_loop m s n sc = sc + of_nat (min (unat n - unat (sc - s)) (length xs))"
  using assms
proof (induction xs arbitrary: sc)
  case Nil
  then show ?case by (subst strnlen_loop.simps) simp
next
  case (Cons x xs)
  have e: "sc + 1 - s = sc - s + 1" by (rule diff_add_eq [symmetric])
  have u: "unat (sc + 1 - s) = unat (sc - s) + 1"
    unfolding e using Cons.prems(2) by (intro unat_Suc_no_wrap) simp
  show ?case
  proof (cases "sc - s < n")
    case True
    then have "sc + 1 - s \<le> n" using u by (simp add: word_less_nat_alt word_le_nat_alt)
    then have "strnlen_loop m s n (sc + 1) = sc + 1 + of_nat (min (unat n - unat (sc + 1 - s)) (length xs))"
      using Cons.IH Cons.prems u by simp
    moreover have "unat n - unat (sc - s) = Suc (unat n - unat (sc + 1 - s))" using True u by (simp add: word_less_nat_alt)
    ultimately show ?thesis using Cons.prems(1) True by (subst strnlen_loop.simps) simp
  next
    case False
    then have "sc - s = n" using Cons.prems(3) by simp
    then show ?thesis using False by (subst strnlen_loop.simps) simp
  qed
qed

lemma strnlen_at:
  assumes "str_at m s xs" "length xs < 2 ^ 32"
  shows "rt_strnlen m s n = of_nat (min (unat n) (length xs))"
  using strnlen_loop_at [of m s xs s n] assms by (simp add: rt_strnlen_def)

text \<open>Copying a string into a field of \<open>n\<close> bytes: cut off at the end, or filled up with 0.\<close>

definition field :: "u32 \<Rightarrow> u32 \<Rightarrow> u8 list \<Rightarrow> memory \<Rightarrow> memory" where
  "field d n xs m = (\<lambda>x. if x - d < n then (if unat (x - d) < length xs then xs ! unat (x - d) else 0) else m x)"

lemma str_at_cong: "(\<And>i. i \<le> length xs \<Longrightarrow> m' (b + of_nat i) = m (a + of_nat i)) \<Longrightarrow> str_at m' b xs = str_at m a xs"
proof (induction xs arbitrary: a b)
  case Nil
  from Nil [of 0] show ?case by simp
next
  case (Cons x xs)
  have "m' (b + 1 + of_nat i) = m (a + 1 + of_nat i)" if "i \<le> length xs" for i
    using Cons.prems [of "Suc i"] that by (simp add: add.assoc)
  then show ?case using Cons.IH [of "b + 1" "a + 1"] Cons.prems [of 0] by simp
qed

lemma strncpy_pad_eq: "n \<noteq> 0 \<Longrightarrow> strncpy_pad d n m = filled 0 d (n - 1) m"
proof (induction d n m rule: strncpy_pad.induct)
  case (1 d n m)
  show ?case
  proof (cases "n - 1 = 0")
    case True
    then show ?thesis by (subst strncpy_pad.simps) (simp add: filled_def fun_eq_iff)
  next
    case False
    have "m(d := 0) = filled 0 d 1 m" by (auto simp: filled_def fun_eq_iff word_less_1)
    moreover have "1 \<le> n - 1" using False by (simp add: word_le_nat_alt Suc_le_eq unat_gt_0)
    ultimately show ?thesis
      using "1.IH" [OF refl False] False filled_step [of 1 "n - 1" 0 d m] by (subst strncpy_pad.simps) (simp add: Let_def)
  qed
qed

lemma field_step:
  assumes "n \<noteq> 0"
  shows "field (d + 1) (n - 1) xs (m(d := x)) = field d n (x # xs) m"
proof
  fix z
  define y where "y = z - d"
  have e: "z = d + y" "d + y - (d + 1) = y - 1" by (simp_all add: y_def)
  have n: "n \<noteq> 0" "1 \<le> n" using assms by (simp_all add: word_le_nat_alt Suc_le_eq unat_gt_0)
  show "field (d + 1) (n - 1) xs (m(d := x)) z = field d n (x # xs) m z"
  proof (cases "y = 0")
    case True
    then show ?thesis
      using n(1) below_split(2) [OF n(2), of 0] unfolding e by (simp add: field_def word_neq_0_conv)
  next
    case False
    then have "y < n \<longleftrightarrow> y - 1 < n - 1" "unat y = Suc (unat (y - 1))"
      using below_split(1) [OF n(2), of y] unat_gt_0 [of y] by (auto simp: word_less_1 unat_pred)
    then show ?thesis using False unfolding e by (simp add: field_def)
  qed
qed

lemma strncpy_loop_at:
  assumes "str_at m s xs" "n \<noteq> 0" "\<And>i. i \<le> length xs \<Longrightarrow> \<not> s + of_nat i - d < n"
  shows "strncpy_loop d s n m = field d n xs m"
  using assms
proof (induction xs arbitrary: d s n m)
  case Nil
  have "1 \<le> n" using Nil.prems(2) by (simp add: word_le_nat_alt Suc_le_eq unat_gt_0)
  moreover have "m(d := 0) = filled 0 d 1 m" by (auto simp: filled_def fun_eq_iff word_less_1)
  moreover have f: "field d n [] m = filled 0 d n m" by (simp add: field_def filled_def fun_eq_iff)
  ultimately have "strncpy_pad (d + 1) n (m(d := 0)) = field d n [] m"
    using filled_step [of 1 n 0 d m] strncpy_pad_eq [OF Nil.prems(2)] f by simp
  then show ?case using Nil.prems(1) by (subst strncpy_loop.simps) (simp add: Let_def)
next
  case (Cons x xs)
  have x: "m s = x" "x \<noteq> 0" "str_at m (s + 1) xs" using Cons.prems(1) by simp_all
  show ?case
  proof (cases "n - 1 = 0")
    case True
    then have "n = 1" by simp
    then show ?thesis
      using x by (subst strncpy_loop.simps) (auto simp: Let_def field_def word_less_1 fun_eq_iff)
  next
    case False
    have p: "\<not> s + 1 + of_nat i - d < n" if "i \<le> length xs" for i
      using Cons.prems(3) [of "Suc i"] that by (simp add: add.assoc)
    have "s + 1 + of_nat i \<noteq> d" if "i \<le> length xs" for i
      using p [OF that] Cons.prems(2) by (auto simp: word_neq_0_conv)
    then have "str_at (m(d := x)) (s + 1) xs" using x(3) by (subst str_at_cong [where m = m and a = "s + 1"]) auto
    moreover have "\<not> s + 1 + of_nat i - (d + 1) < n - 1" if "i \<le> length xs" for i
    proof -
      have e: "s + 1 + of_nat i - (d + 1) = s + of_nat i - d" by (simp add: algebra_simps)
      show ?thesis unfolding e using Cons.prems(3) [of i] that Cons.prems(2) by (simp add: word_less_nat_alt unat_pred)
    qed
    ultimately have "strncpy_loop (d + 1) (s + 1) (n - 1) (m(d := x)) = field (d + 1) (n - 1) xs (m(d := x))"
      using Cons.IH [OF _ False] by blast
    then show ?thesis using field_step [OF Cons.prems(2)] x(1,2) False by (subst strncpy_loop.simps) (simp add: Let_def)
  qed
qed

lemma strncpy_at:
  assumes "str_at m s xs" "\<And>i. i \<le> length xs \<Longrightarrow> \<not> s + of_nat i - d < n"
  shows "rt_strncpy d s n m = field d n xs m"
  using strncpy_loop_at [OF assms(1) _ assms(2)] by (auto simp: rt_strncpy_def field_def)

text \<open>The first place of a string in another one.\<close>

fun find_at :: "'a list \<Rightarrow> 'a list \<Rightarrow> nat option" where
  "find_at ys [] = (if ys = [] then Some 0 else None)"
| "find_at ys (x # xs) = (if take (length ys) (x # xs) = ys then Some 0 else map_option Suc (find_at ys xs))"

lemma find_at_Some: "find_at ys xs = Some i \<longleftrightarrow> i \<le> length xs \<and> take (length ys) (drop i xs) = ys \<and> (\<forall>j < i. take (length ys) (drop j xs) \<noteq> ys)"
proof (induction xs arbitrary: i)
  case (Cons x xs)
  show ?case
  proof (cases i)
    case 0
    then show ?thesis by simp
  next
    case (Suc k)
    then show ?thesis using Cons.IH [of k] by (auto simp: All_less_Suc2)
  qed
qed auto

lemma find_at_None: "find_at ys xs = None \<longleftrightarrow> (\<forall>i. take (length ys) (drop i xs) \<noteq> ys)"
proof (induction xs)
  case (Cons x xs)
  have "(\<forall>i. take (length ys) (drop i (x # xs)) \<noteq> ys) \<longleftrightarrow> take (length ys) (x # xs) \<noteq> ys \<and> (\<forall>i. take (length ys) (drop i xs) \<noteq> ys)"
    by (metis drop0 drop_Suc_Cons not0_implies_Suc)
  then show ?case using Cons.IH by (simp del: drop_Cons')
qed auto

lemma find_at_short: "length xs < length ys \<Longrightarrow> find_at ys xs = None"
  by (induction xs) auto

lemma memcmp_at:
  assumes "str_at m a xs" "str_at m b ys" "length ys \<le> length xs" "length ys < 2 ^ 32"
  shows "rt_memcmp m a b (of_nat (length ys)) = 0 \<longleftrightarrow> take (length ys) xs = ys"
proof -
  have "(\<forall>i < (of_nat (length ys) :: u32). m (a + i) = m (b + i)) \<longleftrightarrow> (\<forall>i < length ys. m (a + of_nat i) = m (b + of_nat i))"
  proof (intro iffI allI impI)
    fix i assume "\<forall>i < (of_nat (length ys) :: u32). m (a + i) = m (b + i)" "i < length ys"
    then show "m (a + of_nat i) = m (b + of_nat i)"
      using assms(4) by (auto simp: word_less_nat_alt unsigned_of_nat take_bit_nat_eq_self)
  next
    fix i :: u32 assume l: "\<forall>i < length ys. m (a + of_nat i) = m (b + of_nat i)" and "i < of_nat (length ys)"
    then have "unat i < length ys" using assms(4) by (simp add: word_less_nat_alt unsigned_of_nat take_bit_nat_eq_self)
    then show "m (a + i) = m (b + i)" using l [rule_format, of "unat i"] by simp
  qed
  also have "\<dots> \<longleftrightarrow> (\<forall>i < length ys. xs ! i = ys ! i)"
    using str_at_nth [OF assms(1)] str_at_nth [OF assms(2)] assms(3) by simp
  also have "\<dots> \<longleftrightarrow> take (length ys) xs = ys" using assms(3) by (auto simp: list_eq_iff_nth_eq)
  finally show ?thesis by (simp add: memcmp_equal)
qed

lemma strstr_loop_at:
  assumes "str_at m a xs" "str_at m b ys" "ys \<noteq> []" "length ys < 2 ^ 31"
  shows "strstr_loop m a b (int (length xs)) (int (length ys)) = map_option (\<lambda>i. a + of_nat i) (find_at ys xs)"
  using assms(1)
proof (induction xs arbitrary: a)
  case Nil
  then show ?case using assms(3) by (subst strstr_loop.simps) simp
next
  case (Cons x xs)
  show ?case
  proof (cases "length ys \<le> length (x # xs)")
    case True
    then have "rt_memcmp m a b (of_nat (length ys)) = 0 \<longleftrightarrow> take (length ys) (x # xs) = ys"
      using memcmp_at [OF Cons.prems assms(2) True] assms(4) by simp
    moreover have "strstr_loop m (a + 1) b (int (length xs)) (int (length ys)) = map_option (\<lambda>i. a + of_nat i) (map_option Suc (find_at ys xs))"
      using Cons.IH [of "a + 1"] Cons.prems by (simp add: option.map_comp comp_def add.assoc)
    ultimately show ?thesis using True by (subst strstr_loop.simps) simp
  next
    case False
    then show ?thesis using find_at_short [of "x # xs" ys] by (subst strstr_loop.simps) simp
  qed
qed

lemma strstr_at:
  assumes "str_at m a xs" "str_at m b ys" "length xs < 2 ^ 31" "length ys < 2 ^ 31"
  shows "rt_strstr m a b = Some (map_option (\<lambda>i. a + of_nat i) (find_at ys xs))"
proof -
  have s: "sint (of_nat n :: u32) = int n" if "n < 2 ^ 31" for n
    using that by (simp add: signed_of_nat signed_take_bit_int_eq_self)
  show ?thesis
  proof (cases "ys = []")
    case True
    then show ?thesis
      using strlen_at [OF assms(2)] by (cases xs) (simp_all add: rt_strstr_def)
  next
    case False
    then have "(of_nat (length ys) :: u32) \<noteq> 0"
      using assms(4) by (simp add: word_unat_eq_iff unsigned_of_nat take_bit_nat_eq_self)
    then show ?thesis
      using strlen_at [OF assms(1)] strlen_at [OF assms(2)] strstr_loop_at [OF assms(1,2) False assms(4)] s assms(3,4)
      by (simp add: rt_strstr_def)
  qed
qed

section \<open>Properties\<close>

text \<open>C27. The memory functions, which work on four longs, one long or one byte at a time and in either direction, do what the
  plain definition says for every address, length and alignment: \<^verbatim>\<open>rt_memset\<close> fills exactly the bytes from \<open>s\<close> on with the low byte of
  its argument, \<^verbatim>\<open>rt_memcpy\<close> copies when the destination does not start inside the source behind its first byte, \<^verbatim>\<open>rt_memmove\<close> for
  any overlap of areas that do not reach the end of the address space. No other byte changes.\<close>

theorem memory_routines_exact:
  "rt_memset s c n m = filled (ucast c) s n m \<and>
   (dst = src \<or> dst - src \<ge> n \<longrightarrow> rt_memcpy dst src n m = copied dst src n m) \<and>
   (unat src + unat n < 2 ^ 32 \<longrightarrow> unat dst + unat n < 2 ^ 32 \<longrightarrow> rt_memmove dst src n m = copied dst src n m)"
  using memset_fills memcpy_copies memmove_copies by blast

theorem memory_routines_exact_witness:
  "rt_memcpy 100 0 40 (\<lambda>x. ucast x) 139 = 39 \<and> rt_memmove 8 4 16 (\<lambda>x. ucast x) 23 = 19"
  using memory_routines_exact [of 0 0 40 "\<lambda>x. ucast x" 100 0] memory_routines_exact [of 0 0 16 "\<lambda>x. ucast x" 8 4]
  by (simp add: copied_def)

text \<open>The string functions on strings shorter than \<open>2\<^sup>3\<^sup>1\<close> end and are right: \<^verbatim>\<open>rt_strlen\<close> gives the length; the sign of \<^verbatim>\<open>rt_strcmp\<close>
  is that of the lexicographic order of the bytes, 0 for equal strings only; \<^verbatim>\<open>rt_strncmp\<close> is 0 exactly when the first
  \<open>n\<close> characters are equal; \<^verbatim>\<open>rt_strstr\<close> returns the address of the first place of the one string in the other, null if there is none.\<close>

theorem string_routines_exact:
  assumes "str_at m a xs" "str_at m b ys" "length xs < 2 ^ 31" "length ys < 2 ^ 31"
  shows "rt_strlen m a = Some (of_nat (length xs)) \<and>
    (\<exists>d. rt_strcmp m a b = Some d \<and> (d = 0 \<longleftrightarrow> xs = ys) \<and> (d < 0 \<longleftrightarrow> ord_class.lexordp xs ys)) \<and>
    (rt_strncmp m a b n = 0 \<longleftrightarrow> take (unat n) xs = take (unat n) ys) \<and>
    (\<exists>r. rt_strstr m a b = Some r \<and>
       (case r of None \<Rightarrow> \<forall>i. take (length ys) (drop i xs) \<noteq> ys
        | Some p \<Rightarrow> \<exists>i \<le> length xs. p = a + of_nat i \<and> take (length ys) (drop i xs) = ys \<and>
            (\<forall>j < i. take (length ys) (drop j xs) \<noteq> ys)))"
proof -
  have "case map_option (\<lambda>i. a + of_nat i) (find_at ys xs) of None \<Rightarrow> \<forall>i. take (length ys) (drop i xs) \<noteq> ys
    | Some p \<Rightarrow> \<exists>i \<le> length xs. p = a + of_nat i \<and> take (length ys) (drop i xs) = ys \<and> (\<forall>j < i. take (length ys) (drop j xs) \<noteq> ys)"
    using find_at_None [of ys xs] find_at_Some [of ys xs] by (cases "find_at ys xs") auto
  then show ?thesis
    using strlen_at [OF assms(1)] strcmp_at [OF assms(1,2)] strncmp_at(1) [OF assms(1,2)] strstr_at [OF assms]
      strdiff_zero strdiff_less str_at_nonzero [OF assms(1)] str_at_nonzero [OF assms(2)] by simp
qed

theorem string_routines_exact_witness:
  "\<exists>r. rt_strstr (\<lambda>x. if x < 5 then 65 else if x = 10 then 65 else 0) 0 10 = Some r \<and> rt_strlen (\<lambda>x. if x < 5 then 65 else if x = 10 then 65 else 0) 0 = Some 5"
  using string_routines_exact [of "\<lambda>x. if x < 5 then 65 else if x = 10 then 65 else 0" 0 "[65, 65, 65, 65, 65]" 10 "[65]" 3]
  by auto

end
