(* ===== verification/Mem.thy ===== *)
theory Mem
  imports Sem KService
begin

text \<open>
  The small memory manager (\<^verbatim>\<open>src/mem.c\<close>), which is the system heap. The heap is a row of blocks, each with
  a header in front that links it to the next and to the previous one; a free block is never next
  to another free block. A header is known by its offset from \<^verbatim>\<open>heap_ptr\<close>, as the links in the code
  are, and the pointers \<^verbatim>\<open>lfree\<close> and \<^verbatim>\<open>heap_end\<close> are offsets too; the pointers a caller gets are addresses. Headers
  and the bytes of the blocks are separate maps: theory \<open>MemProps\<close> shows that no block overlaps another one or a
  header. What \<^verbatim>\<open>heap_sem\<close> guards is one step; \<open>name\<close> is the name of the running thread, \<open>None\<close> before there is
  one.
\<close>

section \<open>The heap\<close>

abbreviation (input) HEAP_MAGIC :: u16 where "HEAP_MAGIC \<equiv> 0x1ea0"
abbreviation (input) MIN_SIZE :: u32 where "MIN_SIZE \<equiv> 12"
abbreviation (input) MIN_SIZE_ALIGNED :: u32 where "MIN_SIZE_ALIGNED \<equiv> 12"
abbreviation (input) SIZEOF_STRUCT_MEM :: u32 where "SIZEOF_STRUCT_MEM \<equiv> 16"

record heap_mem =
  h_magic :: u16
  h_used :: u16
  h_next :: u32
  h_prev :: u32
  h_thread :: string

record sys_heap =
  heads :: "u32 \<Rightarrow> heap_mem"
  heap_ptr :: u32
  heap_end :: u32
  lfree :: u32
  mem_size_aligned :: u32
  used_mem :: u32
  max_mem :: u32
  bytes :: "u32 \<Rightarrow> u8"

definition RT_ALIGN_DOWN :: "u32 \<Rightarrow> u32 \<Rightarrow> u32" where
  "RT_ALIGN_DOWN sz align = sz AND NOT (align - 1)"

definition upd_head :: "u32 \<Rightarrow> (heap_mem \<Rightarrow> heap_mem) \<Rightarrow> sys_heap \<Rightarrow> sys_heap" where
  "upd_head a f h = h\<lparr>heads := (heads h)(a := f (heads h a))\<rparr>"

definition rt_mem_setname :: "string \<Rightarrow> heap_mem \<Rightarrow> heap_mem" where
  "rt_mem_setname name m = m\<lparr>h_thread := take 4 (name @ replicate 4 (CHR '' ''))\<rparr>"

section \<open>Operations\<close>

definition plug_holes :: "u32 \<Rightarrow> sys_heap \<Rightarrow> sys_heap option" where
  "plug_holes mem h = do {
     rt_assert (mem < heap_end h);
     rt_assert (h_used (heads h mem) = 0);
     let nmem = h_next (heads h mem);
     let h1 = (if mem \<noteq> nmem \<and> h_used (heads h nmem) = 0 \<and> nmem \<noteq> heap_end h then
                 let ha = (if lfree h = nmem then h\<lparr>lfree := mem\<rparr> else h);
                     hb = upd_head mem (\<lambda>m. m\<lparr>h_next := h_next (heads ha nmem)\<rparr>) ha
                 in upd_head (h_next (heads hb nmem)) (\<lambda>m. m\<lparr>h_prev := mem\<rparr>) hb
               else h);
     let pmem = h_prev (heads h1 mem);
     Some (if pmem \<noteq> mem \<and> h_used (heads h1 pmem) = 0 then
             let ha = (if lfree h1 = mem then h1\<lparr>lfree := pmem\<rparr> else h1);
                 hb = upd_head pmem (\<lambda>m. m\<lparr>h_next := h_next (heads ha mem)\<rparr>) ha
             in upd_head (h_next (heads hb mem)) (\<lambda>m. m\<lparr>h_prev := pmem\<rparr>) hb
           else h1) }"

text \<open>\<open>hs\<close> is the semaphore \<^verbatim>\<open>heap_sem\<close>. The old values of the two headers' fields that are not set stay.\<close>

definition rt_system_heap_init ::
    "nat \<Rightarrow> nat \<Rightarrow> u32 \<Rightarrow> u32 \<Rightarrow> sys_heap \<Rightarrow> kernel \<Rightarrow> (sys_heap \<times> kernel) option" where
  "rt_system_heap_init c hs begin_addr end_addr h k = do {
     let begin_align = RT_ALIGN begin_addr 4;
     let end_align = RT_ALIGN_DOWN end_addr 4;
     rt_assert (not_in_interrupt c k);
     if end_align > 2 * SIZEOF_STRUCT_MEM \<and> end_align - 2 * SIZEOF_STRUCT_MEM \<ge> begin_align then do {
       let sz = end_align - begin_align - 2 * SIZEOF_STRUCT_MEM;
       let h1 = h\<lparr>mem_size_aligned := sz, heap_ptr := begin_align\<rparr>;
       let h2 = upd_head 0 (\<lambda>m. rt_mem_setname ''INIT''
                  (m\<lparr>h_magic := HEAP_MAGIC, h_next := sz + SIZEOF_STRUCT_MEM, h_prev := 0, h_used := 0\<rparr>)) h1;
       let h3 = h2\<lparr>heap_end := h_next (heads h2 0)\<rparr>;
       let h4 = upd_head (heap_end h3) (\<lambda>m. rt_mem_setname ''INIT''
                  (m\<lparr>h_magic := HEAP_MAGIC, h_used := 1, h_next := sz + SIZEOF_STRUCT_MEM,
                     h_prev := sz + SIZEOF_STRUCT_MEM\<rparr>)) h3;
       (_, k1) \<leftarrow> rt_sem_init hs ''heap'' 1 RT_IPC_FLAG_FIFO k;
       Some (h4\<lparr>lfree := 0\<rparr>, k1) }
     else Some (h, k) }"

text \<open>The loops of \<^verbatim>\<open>rt_malloc\<close>: the search for a block that is large enough, and the move of \<^verbatim>\<open>lfree\<close> to the next
  free block.\<close>

partial_function (option) malloc_find :: "u32 \<Rightarrow> u32 \<Rightarrow> sys_heap \<Rightarrow> u32 option option" where
  "malloc_find sz ptr h =
     (if ptr < mem_size_aligned h - sz then
        (if h_used (heads h ptr) = 0 \<and> h_next (heads h ptr) - (ptr + SIZEOF_STRUCT_MEM) \<ge> sz then Some (Some ptr)
         else malloc_find sz (h_next (heads h ptr)) h)
      else Some None)"

partial_function (option) lfree_advance :: "sys_heap \<Rightarrow> sys_heap option" where
  "lfree_advance h =
     (if h_used (heads h (lfree h)) \<noteq> 0 \<and> lfree h \<noteq> heap_end h
      then lfree_advance (h\<lparr>lfree := h_next (heads h (lfree h))\<rparr>)
      else Some h)"

definition count_used :: "u32 \<Rightarrow> sys_heap \<Rightarrow> sys_heap" where
  "count_used n h = (let h1 = h\<lparr>used_mem := used_mem h + n\<rparr> in
     if max_mem h1 < used_mem h1 then h1\<lparr>max_mem := used_mem h1\<rparr> else h1)"

text \<open>The two ways to take the block at \<^verbatim>\<open>ptr\<close>.\<close>

definition malloc_split :: "u32 \<Rightarrow> u32 \<Rightarrow> sys_heap \<Rightarrow> sys_heap" where
  "malloc_split sz ptr h =
     (let ptr2 = ptr + SIZEOF_STRUCT_MEM + sz;
          h1 = upd_head ptr2 (\<lambda>m. rt_mem_setname ''    '' (m\<lparr>h_magic := HEAP_MAGIC, h_used := 0,
                 h_next := h_next (heads h ptr), h_prev := ptr\<rparr>)) h;
          h2 = upd_head ptr (\<lambda>m. m\<lparr>h_next := ptr2, h_used := 1\<rparr>) h1;
          h3 = (if h_next (heads h2 ptr2) \<noteq> mem_size_aligned h2 + SIZEOF_STRUCT_MEM
                then upd_head (h_next (heads h2 ptr2)) (\<lambda>m. m\<lparr>h_prev := ptr2\<rparr>) h2 else h2)
      in count_used (sz + SIZEOF_STRUCT_MEM) h3)"

definition malloc_whole :: "u32 \<Rightarrow> sys_heap \<Rightarrow> sys_heap" where
  "malloc_whole ptr h =
     (let h1 = upd_head ptr (\<lambda>m. m\<lparr>h_used := 1\<rparr>) h
      in count_used (h_next (heads h1 ptr) - ptr) h1)"

definition malloc_take :: "string option \<Rightarrow> u32 \<Rightarrow> u32 \<Rightarrow> sys_heap \<Rightarrow> sys_heap option" where
  "malloc_take name sz ptr h = do {
     let h1 = (if h_next (heads h ptr) - (ptr + SIZEOF_STRUCT_MEM) \<ge> sz + SIZEOF_STRUCT_MEM + MIN_SIZE_ALIGNED
               then malloc_split sz ptr h else malloc_whole ptr h);
     let h2 = upd_head ptr (\<lambda>m. rt_mem_setname (case name of Some s \<Rightarrow> s | None \<Rightarrow> ''NONE'') (m\<lparr>h_magic := HEAP_MAGIC\<rparr>)) h1;
     if ptr = lfree h2 then do {
       h3 \<leftarrow> lfree_advance h2;
       rt_assert (lfree h3 = heap_end h3 \<or> h_used (heads h3 (lfree h3)) = 0);
       Some h3 }
     else Some h2 }"

text \<open>\<open>irq\<close> says whether the caller is an interrupt handler.\<close>

definition rt_malloc :: "bool \<Rightarrow> string option \<Rightarrow> u32 \<Rightarrow> sys_heap \<Rightarrow> (u32 option \<times> sys_heap) option" where
  "rt_malloc irq name sz h =
     (if sz = 0 then Some (None, h)
      else do {
        rt_assert (\<not> irq);
        let sz1 = RT_ALIGN sz 4;
        if sz1 > mem_size_aligned h then Some (None, h)
        else do {
          let sz2 = (if sz1 < MIN_SIZE_ALIGNED then MIN_SIZE_ALIGNED else sz1);
          found \<leftarrow> malloc_find sz2 (lfree h) h;
          (case found of
             None \<Rightarrow> Some (None, h)
           | Some ptr \<Rightarrow> do {
               h1 \<leftarrow> malloc_take name sz2 ptr h;
               let mem = heap_ptr h1 + ptr;
               rt_assert (mem + SIZEOF_STRUCT_MEM + sz2 \<le> heap_ptr h1 + heap_end h1);
               rt_assert ((mem + SIZEOF_STRUCT_MEM) mod 4 = 0);
               rt_assert (mem AND 3 = 0);
               Some (Some (mem + SIZEOF_STRUCT_MEM), h1) }) } })"

definition rt_free :: "bool \<Rightarrow> u32 option \<Rightarrow> sys_heap \<Rightarrow> sys_heap option" where
  "rt_free irq rmem h = (case rmem of
       None \<Rightarrow> Some h
     | Some r \<Rightarrow> do {
         rt_assert (\<not> irq);
         rt_assert (r AND 3 = 0);
         rt_assert (r \<ge> heap_ptr h \<and> r < heap_ptr h + heap_end h);
         let mem = r - SIZEOF_STRUCT_MEM - heap_ptr h;
         rt_assert (h_used (heads h mem) \<noteq> 0);
         rt_assert (h_magic (heads h mem) = HEAP_MAGIC);
         let h1 = upd_head mem (\<lambda>m. rt_mem_setname ''    '' (m\<lparr>h_used := 0, h_magic := HEAP_MAGIC\<rparr>)) h;
         let h2 = (if mem < lfree h1 then h1\<lparr>lfree := mem\<rparr> else h1);
         let h3 = h2\<lparr>used_mem := used_mem h2 - (h_next (heads h2 mem) - mem)\<rparr>;
         plug_holes mem h3 })"

text \<open>Shrinking a block in place: the branch of \<^verbatim>\<open>rt_realloc\<close> that splits it.\<close>

definition realloc_split :: "u32 \<Rightarrow> u32 \<Rightarrow> u32 \<Rightarrow> sys_heap \<Rightarrow> sys_heap option" where
  "realloc_split newsize sz ptr h = do {
     let h0 = h\<lparr>used_mem := used_mem h - (sz - newsize)\<rparr>;
     let ptr2 = ptr + SIZEOF_STRUCT_MEM + newsize;
     let h1 = upd_head ptr2 (\<lambda>m. rt_mem_setname ''    '' (m\<lparr>h_magic := HEAP_MAGIC, h_used := 0,
                h_next := h_next (heads h0 ptr), h_prev := ptr\<rparr>)) h0;
     let h2 = upd_head ptr (\<lambda>m. m\<lparr>h_next := ptr2\<rparr>) h1;
     let h3 = (if h_next (heads h2 ptr2) \<noteq> mem_size_aligned h2 + SIZEOF_STRUCT_MEM
               then upd_head (h_next (heads h2 ptr2)) (\<lambda>m. m\<lparr>h_prev := ptr2\<rparr>) h2 else h2);
     plug_holes ptr2 h3 }"

definition rt_realloc ::
    "bool \<Rightarrow> string option \<Rightarrow> u32 option \<Rightarrow> u32 \<Rightarrow> sys_heap \<Rightarrow> (u32 option \<times> sys_heap) option" where
  "rt_realloc irq name rmem newsize h = do {
     rt_assert (\<not> irq);
     let newsize = RT_ALIGN newsize 4;
     if newsize > mem_size_aligned h then Some (None, h)
     else if newsize = 0 then do {
       h1 \<leftarrow> rt_free irq rmem h;
       Some (None, h1) }
     else (case rmem of
       None \<Rightarrow> rt_malloc irq name newsize h
     | Some r \<Rightarrow>
         if r < heap_ptr h \<or> r \<ge> heap_ptr h + heap_end h then Some (rmem, h)
         else do {
           let ptr = r - SIZEOF_STRUCT_MEM - heap_ptr h;
           let sz = h_next (heads h ptr) - ptr - SIZEOF_STRUCT_MEM;
           if sz = newsize then Some (rmem, h)
           else if newsize + SIZEOF_STRUCT_MEM + MIN_SIZE < sz then do {
             h1 \<leftarrow> realloc_split newsize sz ptr h;
             Some (rmem, h1) }
           else do {
             (nmem, h1) \<leftarrow> rt_malloc irq name newsize h;
             (case nmem of
                None \<Rightarrow> Some (None, h1)
              | Some p \<Rightarrow> do {
                  h2 \<leftarrow> rt_free irq rmem (h1\<lparr>bytes := rt_memcpy p r (if sz < newsize then sz else newsize) (bytes h1)\<rparr>);
                  Some (nmem, h2) }) } }) }"

definition rt_calloc :: "bool \<Rightarrow> string option \<Rightarrow> u32 \<Rightarrow> u32 \<Rightarrow> sys_heap \<Rightarrow> (u32 option \<times> sys_heap) option" where
  "rt_calloc irq name count sz h = do {
     (p, h1) \<leftarrow> rt_malloc irq name (count * sz) h;
     Some (p, case p of
        None \<Rightarrow> h1
      | Some a \<Rightarrow> h1\<lparr>bytes := rt_memset a 0 (count * sz) (bytes h1)\<rparr>) }"

definition rt_memory_info :: "sys_heap \<Rightarrow> u32 \<times> u32 \<times> u32" where
  "rt_memory_info h = (mem_size_aligned h, used_mem h, max_mem h)"

section \<open>Services on the heap\<close>

text \<open>The functions of \<^verbatim>\<open>src/kservice.c\<close> that allocate. \<^verbatim>\<open>rt_malloc_align\<close> puts the address of the block into the word in front of the
  address it returns.\<close>

definition rt_strdup :: "bool \<Rightarrow> string option \<Rightarrow> u32 \<Rightarrow> sys_heap \<Rightarrow> (u32 option \<times> sys_heap) option" where
  "rt_strdup irq name s h = do {
     l \<leftarrow> rt_strlen (bytes h) s;
     let len = l + 1;
     (tmp, h1) \<leftarrow> rt_malloc irq name len h;
     Some (case tmp of
         None \<Rightarrow> (None, h1)
       | Some p \<Rightarrow> (Some p, h1\<lparr>bytes := rt_memcpy p s len (bytes h1)\<rparr>)) }"

definition align_up :: "u32 \<Rightarrow> u32 \<Rightarrow> u32" where
  "align_up align ptr = (if ptr AND (align - 1) = 0 then ptr + align else (ptr + (align - 1)) AND NOT (align - 1))"

definition rt_malloc_align :: "bool \<Rightarrow> string option \<Rightarrow> u32 \<Rightarrow> u32 \<Rightarrow> sys_heap \<Rightarrow> (u32 option \<times> sys_heap) option" where
  "rt_malloc_align irq name sz align h = do {
     let align = (align + 3) AND NOT 3;
     let align_size = ((sz + 3) AND NOT 3) + align;
     (ptr, h1) \<leftarrow> rt_malloc irq name align_size h;
     Some (case ptr of
         None \<Rightarrow> (None, h1)
       | Some p \<Rightarrow> let align_ptr = align_up align p
           in (Some align_ptr, h1\<lparr>bytes := store_long (align_ptr - 4) p (bytes h1)\<rparr>)) }"

text \<open>A null pointer in the word in front is passed on to \<^verbatim>\<open>rt_free\<close>, which ignores it.\<close>

definition rt_free_align :: "bool \<Rightarrow> u32 \<Rightarrow> sys_heap \<Rightarrow> sys_heap option" where
  "rt_free_align irq ptr h =
     (let real_ptr = load_long (bytes h) (ptr - 4)
      in rt_free irq (if real_ptr = 0 then None else Some real_ptr) h)"

end
