(* ===== verification/MemPool.thy ===== *)
theory MemPool
  imports Mem
begin

text \<open>
  Memory pools (\<^verbatim>\<open>src/mempool.c\<close>) and the error number (\<^verbatim>\<open>src/kservice.c\<close>). A pool cuts its memory into blocks of one size, each
  with a word in front: in a free block the word links to the next free block, in a block that is in use it is
  the address of the pool. The memory is that of the system heap, whether the pool was created there or is static. A call
  that waits is split where its thread stops, as for the IPC objects; the wait queue of the pool at address \<open>a\<close> is
  \<open>Suspend a\<close>. A null pointer is 0.
\<close>

section \<open>The error number\<close>

text \<open>\<^verbatim>\<open>__rt_errno\<close> with the kernel state; \<^verbatim>\<open>_rt_errno\<close> returns where the error number is.\<close>

datatype errno_ptr = Global_errno | Thread_errno nat

definition rt_errno_ptr :: "nat \<Rightarrow> kernel \<Rightarrow> errno_ptr" where
  "rt_errno_ptr c k =
     (if irq_nest (cpus k c) \<noteq> 0 then Global_errno
      else case rt_thread_self c k of Some t \<Rightarrow> Thread_errno t | None \<Rightarrow> Global_errno)"

definition rt_get_errno :: "nat \<Rightarrow> rt_err_t \<times> kernel \<Rightarrow> rt_err_t" where
  "rt_get_errno c ek =
     (if irq_nest (cpus (snd ek) c) \<noteq> 0 then fst ek
      else case rt_thread_self c (snd ek) of None \<Rightarrow> fst ek | Some t \<Rightarrow> error (thr (snd ek) t))"

definition rt_set_errno :: "nat \<Rightarrow> rt_err_t \<Rightarrow> rt_err_t \<times> kernel \<Rightarrow> rt_err_t \<times> kernel" where
  "rt_set_errno c e ek =
     (if irq_nest (cpus (snd ek) c) \<noteq> 0 then (e, snd ek)
      else case rt_thread_self c (snd ek) of None \<Rightarrow> (e, snd ek) | Some t \<Rightarrow> (fst ek, set_error t e (snd ek)))"

lemma errno_roundtrip:
  "rt_get_errno c (rt_set_errno c e ek) = e"
  "rt_get_errno c ek = (case rt_errno_ptr c (snd ek) of Global_errno \<Rightarrow> fst ek | Thread_errno t \<Rightarrow> error (thr (snd ek) t))"
  by (auto simp: rt_get_errno_def rt_set_errno_def rt_errno_ptr_def rt_thread_self_def set_error_def split: option.split)

section \<open>Pools\<close>

record rt_mempool =
  start_address :: u32
  pool_size :: u32
  block_size :: u32
  block_list :: u32
  block_total_count :: u32
  block_free_count :: u32

definition zero_mempool :: rt_mempool where
  "zero_mempool = \<lparr>start_address = 0, pool_size = 0, block_size = 0, block_list = 0, block_total_count = 0, block_free_count = 0\<rparr>"

record pool_state =
  kern :: kernel
  heap :: sys_heap
  pools :: "nat \<Rightarrow> rt_mempool"
  rt_errno :: rt_err_t

abbreviation mem_of :: "pool_state \<Rightarrow> memory" where
  "mem_of w \<equiv> bytes (heap w)"

definition set_mem :: "memory \<Rightarrow> pool_state \<Rightarrow> pool_state" where
  "set_mem m w = w\<lparr>heap := (heap w)\<lparr>bytes := m\<rparr>\<rparr>"

definition set_pool :: "nat \<Rightarrow> rt_mempool \<Rightarrow> pool_state \<Rightarrow> pool_state" where
  "set_pool a mp w = w\<lparr>pools := (pools w)(a := mp)\<rparr>"

text \<open>The loop that links the blocks, with the last value of \<^verbatim>\<open>offset\<close>, and the write of the final null pointer.\<close>

function link_blocks :: "u32 \<Rightarrow> u32 \<Rightarrow> u32 \<Rightarrow> u32 \<Rightarrow> memory \<Rightarrow> u32 \<times> memory" where
  "link_blocks block_ptr stride cnt off m =
     (if off < cnt
      then link_blocks block_ptr stride cnt (off + 1) (store_long (block_ptr + off * stride) (block_ptr + (off + 1) * stride) m)
      else (off, m))"
  by auto
termination
proof (relation "measure (\<lambda>(_, _, cnt, off, _). unat cnt - unat off)")
  fix block_ptr stride cnt off :: u32 and m :: memory
  assume "off < cnt"
  then have "unat off < unat cnt" "unat (off + 1) = unat off + 1"
    using unat_less_2_32 [of cnt] by (simp_all add: word_less_nat_alt unat_Suc_no_wrap)
  then show "((block_ptr, stride, cnt, off + 1, store_long (block_ptr + off * stride) (block_ptr + (off + 1) * stride) m),
      block_ptr, stride, cnt, off, m) \<in> measure (\<lambda>(_, _, cnt, off, _). unat cnt - unat off)" by simp
qed simp

declare link_blocks.simps [simp del]

definition init_blocks :: "rt_mempool \<Rightarrow> memory \<Rightarrow> memory" where
  "init_blocks mp m =
     (let stride = block_size mp + 4;
          (off, m) = link_blocks (start_address mp) stride (block_total_count mp) 0 m
      in store_long (start_address mp + (off - 1) * stride) 0 m)"

text \<open>A division by zero has no result.\<close>

definition rt_mp_init ::
    "nat \<Rightarrow> string \<Rightarrow> u32 \<Rightarrow> u32 \<Rightarrow> u32 \<Rightarrow> pool_state \<Rightarrow> (rt_err_t \<times> pool_state) option" where
  "rt_mp_init a name start sz block_sz w = do {
     rt_assert (start \<noteq> 0);
     rt_assert (sz > 0 \<and> block_sz > 0);
     k1 \<leftarrow> rt_object_init (Obj a) RT_Object_Class_MemPool name (kern w);
     let sz = RT_ALIGN_DOWN sz 4;
     let block_sz = RT_ALIGN block_sz 4;
     if block_sz + 4 = 0 then None
     else do {
       let cnt = sz div (block_sz + 4);
       let mp = \<lparr>start_address = start, pool_size = sz, block_size = block_sz, block_list = start,
                  block_total_count = cnt, block_free_count = cnt\<rparr>;
       Some (RT_EOK, set_mem (init_blocks mp (mem_of w)) (set_pool a mp (w\<lparr>kern := rt_ipc_object_init a k1\<rparr>))) } }"

definition rt_mp_detach :: "nat \<Rightarrow> nat \<Rightarrow> pool_state \<Rightarrow> (rt_err_t \<times> pool_state) option" where
  "rt_mp_detach c a w = do {
     rt_assert (has_class RT_Object_Class_MemPool a (kern w));
     rt_assert (rt_object_is_systemobject (Obj a) (kern w));
     k1 \<leftarrow> rt_ipc_list_resume_all c (Suspend a) (kern w);
     Some (RT_EOK, w\<lparr>kern := rt_object_detach (Obj a) k1\<rparr>) }"

text \<open>\<open>malloc\<close> is what the allocation of the object returns, \<open>tname\<close> the name of the running thread; the memory of the pool comes from the heap.\<close>

definition rt_mp_create ::
    "nat \<Rightarrow> string option \<Rightarrow> string \<Rightarrow> u32 \<Rightarrow> u32 \<Rightarrow> nat option \<Rightarrow> pool_state \<Rightarrow> (nat option \<times> pool_state) option" where
  "rt_mp_create c tname name count block_sz malloc w = do {
     rt_assert (not_in_interrupt c (kern w));
     rt_assert (count > 0 \<and> block_sz > 0);
     (mp, k1) \<leftarrow> rt_object_allocate c RT_Object_Class_MemPool name malloc (kern w);
     (case mp of
        None \<Rightarrow> Some (None, w\<lparr>kern := k1\<rparr>)
      | Some a \<Rightarrow> do {
          let block_sz = RT_ALIGN block_sz 4;
          let sz = (block_sz + 4) * count;
          (p, h1) \<leftarrow> rt_malloc (irq_nest (cpus k1 c) \<noteq> 0) tname sz (heap w);
          (case p of
             None \<Rightarrow> do {
               k2 \<leftarrow> rt_object_delete (Obj a) k1;
               Some (None, set_pool a (zero_mempool\<lparr>block_size := block_sz, pool_size := sz\<rparr>) (w\<lparr>kern := k2, heap := h1\<rparr>)) }
           | Some start \<Rightarrow> do {
               let mp = \<lparr>start_address = start, pool_size = sz, block_size = block_sz, block_list = start,
                          block_total_count = count, block_free_count = count\<rparr>;
               Some (Some a, set_mem (init_blocks mp (bytes h1))
                 (set_pool a mp (w\<lparr>kern := rt_ipc_object_init a k1, heap := h1\<rparr>))) }) }) }"

definition rt_mp_delete :: "nat \<Rightarrow> nat \<Rightarrow> pool_state \<Rightarrow> (rt_err_t \<times> pool_state) option" where
  "rt_mp_delete c a w = do {
     rt_assert (not_in_interrupt c (kern w));
     rt_assert (has_class RT_Object_Class_MemPool a (kern w));
     rt_assert (\<not> rt_object_is_systemobject (Obj a) (kern w));
     k1 \<leftarrow> rt_ipc_list_resume_all c (Suspend a) (kern w);
     let start = start_address (pools w a);
     h1 \<leftarrow> rt_free (irq_nest (cpus k1 c) \<noteq> 0) (if start = 0 then None else Some start) (heap w);
     k2 \<leftarrow> rt_object_delete (Obj a) k1;
     Some (RT_EOK, w\<lparr>kern := k2, heap := h1\<rparr>) }"

text \<open>What \<^verbatim>\<open>rt_mp_alloc\<close> returns, or what it keeps on the stack while it waits: the thread, the time left and when it began to wait.\<close>

datatype mp_outcome = Block "u32 option" | Blocked "nat \<times> u32 \<times> u32"

text \<open>The newest waiter is put at the front of the queue.\<close>

definition mp_wait :: "nat \<Rightarrow> nat \<Rightarrow> nat \<Rightarrow> u32 \<Rightarrow> kernel \<Rightarrow> kernel option" where
  "mp_wait c a t time k = do {
     (_, k1) \<leftarrow> rt_thread_suspend c t k;
     let k1 = tlist_insert_after (Suspend a) t k1;
     k2 \<leftarrow> (if 0 < sint time then do {
              (_, _, k') \<leftarrow> rt_timer_control (ThreadTimer t) Ctrl_set_time time k1;
              rt_timer_start c (ThreadTimer t) k' }
            else Some k1);
     rt_schedule c k2 }"

definition mp_take :: "nat \<Rightarrow> pool_state \<Rightarrow> (u32 \<times> pool_state) option" where
  "mp_take a w = do {
     let mp = pools w a;
     let block_ptr = block_list mp;
     rt_assert (block_ptr \<noteq> 0);
     let mp = mp\<lparr>block_free_count := block_free_count mp - 1, block_list := load_long (mem_of w) block_ptr\<rparr>;
     Some (block_ptr + 4, set_mem (store_long block_ptr (of_nat a) (mem_of w)) (set_pool a mp w)) }"

definition mp_alloc_loop :: "nat \<Rightarrow> nat \<Rightarrow> nat option \<Rightarrow> u32 \<Rightarrow> pool_state \<Rightarrow> (mp_outcome \<times> pool_state) option" where
  "mp_alloc_loop c a th time w =
     (if block_free_count (pools w a) = 0 then
        if time = 0 then
          (case rt_set_errno c (- RT_ETIMEOUT) (rt_errno w, kern w) of (e, k) \<Rightarrow> Some (Block None, w\<lparr>rt_errno := e, kern := k\<rparr>))
        else do {
          rt_assert (not_in_interrupt c (kern w));
          t \<leftarrow> th;
          let k1 = set_error t RT_EOK (kern w);
          k2 \<leftarrow> mp_wait c a t time k1;
          Some (Blocked (t, time, if 0 < sint time then rt_tick_get k1 else 0), w\<lparr>kern := k2\<rparr>) }
      else do {
        (p, w1) \<leftarrow> mp_take a w;
        Some (Block (Some p), w1) })"

definition rt_mp_alloc :: "nat \<Rightarrow> nat \<Rightarrow> u32 \<Rightarrow> pool_state \<Rightarrow> (mp_outcome \<times> pool_state) option" where
  "rt_mp_alloc c a time w = mp_alloc_loop c a (rt_thread_self c (kern w)) time w"

definition rt_mp_alloc_resume :: "nat \<Rightarrow> nat \<Rightarrow> nat \<times> u32 \<times> u32 \<Rightarrow> pool_state \<Rightarrow> (mp_outcome \<times> pool_state) option" where
  "rt_mp_alloc_resume c a s w = (case s of (t, time, before_sleep) \<Rightarrow>
     if error (thr (kern w) t) \<noteq> RT_EOK then Some (Block None, w)
     else mp_alloc_loop c a (Some t) (remaining_timeout time before_sleep (rt_tick_get (kern w))) w)"

definition rt_mp_free :: "nat \<Rightarrow> u32 \<Rightarrow> pool_state \<Rightarrow> pool_state option" where
  "rt_mp_free c block w =
     (if block = 0 then Some w
      else do {
        let block_ptr = block - 4;
        let a = unat (load_long (mem_of w) block_ptr);
        let mp = (pools w a)\<lparr>block_free_count := block_free_count (pools w a) + 1\<rparr>;
        let w1 = set_mem (store_long block_ptr (block_list mp) (mem_of w)) (set_pool a (mp\<lparr>block_list := block_ptr\<rparr>) w);
        (case tlists (kern w1) (Suspend a) of
           [] \<Rightarrow> Some w1
         | t # _ \<Rightarrow> do {
             (_, k1) \<leftarrow> rt_thread_resume c t (set_error t RT_EOK (kern w1));
             k2 \<leftarrow> rt_schedule c k1;
             Some (w1\<lparr>kern := k2\<rparr>) }) })"

section \<open>Words that are apart\<close>

lemma store_long_other: "\<not> x - a < 4 \<Longrightarrow> store_long a v m x = m x"
  using store_long_at [of a v m "x - a"] by simp

lemma apart_bytes:
  assumes "unat a + 4 \<le> unat b \<or> unat b + 4 \<le> unat a" "unat a + 4 \<le> 2 ^ 32" "unat b + 4 \<le> 2 ^ 32" "y < 4"
  shows "\<not> b + y - (a :: u32) < 4"
proof -
  have y: "unat y < 4" using assms(4) by (simp add: word_less_nat_alt)
  then have "unat (b + y) = unat b + unat y" using assms(3) by (intro unat_add_no_wrap) simp
  then show ?thesis using assms(1-3) y by (auto simp: word_less_nat_alt unat_sub_u32)
qed

lemma load_long_cong: "(\<And>y. y < 4 \<Longrightarrow> m' (a + y) = m (a + y)) \<Longrightarrow> load_long m' a = load_long m a"
proof -
  assume e: "\<And>y. y < 4 \<Longrightarrow> m' (a + y) = m (a + y)"
  have "m' a = m a" "m' (a + 1) = m (a + 1)" "m' (a + 2) = m (a + 2)" "m' (a + 3) = m (a + 3)"
    using e [of 0] e [of 1] e [of 2] e [of 3] by simp_all
  then show "load_long m' a = load_long m a" by (simp add: load_long_def)
qed

lemma load_store_other:
  assumes "unat a + 4 \<le> unat b \<or> unat b + 4 \<le> unat a" "unat a + 4 \<le> 2 ^ 32" "unat b + 4 \<le> 2 ^ 32"
  shows "load_long (store_long a v m) b = load_long m b"
  by (rule load_long_cong) (rule store_long_other [OF apart_bytes [OF assms]])

lemma store_load_long: "store_long a (load_long m a) m = m"
  using copy_long_eq [of a a m] by (simp add: copy_long_def copied_def fun_eq_iff)

lemma store_store_long: "store_long a v (store_long a u m) = store_long a v m"
proof
  fix x
  show "store_long a v (store_long a u m) x = store_long a v m x"
    using store_long_at [of a v "store_long a u m" "x - a"] store_long_at [of a v m "x - a"] store_long_at [of a u m "x - a"]
    by (simp split: if_splits)
qed

section \<open>The blocks of a pool\<close>

definition block_addr :: "rt_mempool \<Rightarrow> nat \<Rightarrow> u32" where
  "block_addr mp i = start_address mp + of_nat i * (block_size mp + 4)"

definition pool_blocks :: "rt_mempool \<Rightarrow> u32 list" where
  "pool_blocks mp = map (block_addr mp) [0..<unat (block_total_count mp)]"

text \<open>The pool is in the address space and not at the null pointer.\<close>

definition pool_fits :: "rt_mempool \<Rightarrow> bool" where
  "pool_fits mp \<longleftrightarrow> start_address mp \<noteq> 0 \<and> unat (block_size mp) + 4 < 2 ^ 32 \<and>
     unat (start_address mp) + unat (block_total_count mp) * (unat (block_size mp) + 4) < 2 ^ 32"

lemma pool_blocks_frame [simp]:
  "pool_blocks (mp\<lparr>block_list := p\<rparr>) = pool_blocks mp" "pool_blocks (mp\<lparr>block_free_count := n\<rparr>) = pool_blocks mp"
  "pool_fits (mp\<lparr>block_list := p\<rparr>) = pool_fits mp" "pool_fits (mp\<lparr>block_free_count := n\<rparr>) = pool_fits mp"
proof -
  have "block_addr (mp\<lparr>block_list := p\<rparr>) = block_addr mp" "block_addr (mp\<lparr>block_free_count := n\<rparr>) = block_addr mp"
    by (simp_all add: fun_eq_iff block_addr_def)
  then show "pool_blocks (mp\<lparr>block_list := p\<rparr>) = pool_blocks mp" "pool_blocks (mp\<lparr>block_free_count := n\<rparr>) = pool_blocks mp"
    by (simp_all add: pool_blocks_def)
qed (simp_all add: pool_fits_def)

lemma unat_of_nat_u32: "n < 2 ^ 32 \<Longrightarrow> unat (of_nat n :: u32) = n"
  by (simp add: unsigned_of_nat take_bit_nat_eq_self)

lemma unat_stride: "unat (b :: u32) + 4 < 2 ^ 32 \<Longrightarrow> unat (b + 4) = unat b + 4"
  using unat_add_no_wrap [of b 4] by simp

lemma unat_linear:
  assumes "unat s + n * unat st \<le> 2 ^ 32" "4 \<le> unat st" "j < n"
  shows "unat (s + of_nat j * (st :: u32)) = unat s + j * unat st" "unat s + j * unat st + unat st \<le> 2 ^ 32"
proof -
  have "Suc j * unat st \<le> n * unat st" using assms(3) by (intro mult_le_mono1) simp
  then show le: "unat s + j * unat st + unat st \<le> 2 ^ 32" using assms(1) by simp
  have "s + of_nat j * st = of_nat (unat s + j * unat st)" by simp
  moreover have "unat (of_nat (unat s + j * unat st) :: u32) = unat s + j * unat st"
    using le assms(2) by (intro unat_of_nat_u32) simp
  ultimately show "unat (s + of_nat j * st) = unat s + j * unat st" by metis
qed

lemma linear_apart:
  assumes "unat s + n * unat st \<le> 2 ^ 32" "4 \<le> unat st" "i < n" "j < n" "i \<noteq> j"
  shows "unat (s + of_nat i * st) + unat st \<le> unat (s + of_nat j * st) \<or>
    unat (s + of_nat j * st) + unat st \<le> unat (s + of_nat i * (st :: u32))"
proof -
  have *: "x * unat st + unat st \<le> y * unat st" if "x < y" for x y
    using that mult_le_mono1 [of "Suc x" y "unat st"] by simp
  show ?thesis
    unfolding unat_linear(1) [OF assms(1,2,3)] unat_linear(1) [OF assms(1,2,4)]
    using * [of i j] * [of j i] assms(5) by (cases "i < j") auto
qed

lemma link_blocks_links:
  assumes "unat s + n * unat st \<le> 2 ^ 32" "4 \<le> unat st" "n < 2 ^ 32" "i \<le> n"
  shows "\<exists>m'. link_blocks s st (of_nat n) (of_nat i) m = (of_nat n, m') \<and>
    (\<forall>j. i \<le> j \<longrightarrow> j < n \<longrightarrow> load_long m' (s + of_nat j * st) = s + of_nat (Suc j) * st) \<and>
    (\<forall>x. (\<forall>j. i \<le> j \<longrightarrow> j < n \<longrightarrow> \<not> x - (s + of_nat j * st) < 4) \<longrightarrow> m' x = m x)"
  using assms(4)
proof (induction "n - i" arbitrary: i m)
  case 0
  then show ?case by (subst link_blocks.simps) simp
next
  case (Suc d)
  have i: "i < n" "d = n - Suc i" "Suc i \<le> n" using Suc.hyps(2) by simp_all
  have lt: "(of_nat i :: u32) < of_nat n"
    using i(1) assms(3) by (simp add: word_less_nat_alt unat_of_nat_u32)
  define m1 where "m1 = store_long (s + of_nat i * st) (s + of_nat (Suc i) * st) m"
  obtain m' where m': "link_blocks s st (of_nat n) (of_nat (Suc i)) m1 = (of_nat n, m')"
    "\<forall>j. Suc i \<le> j \<longrightarrow> j < n \<longrightarrow> load_long m' (s + of_nat j * st) = s + of_nat (Suc j) * st"
    "\<forall>x. (\<forall>j. Suc i \<le> j \<longrightarrow> j < n \<longrightarrow> \<not> x - (s + of_nat j * st) < 4) \<longrightarrow> m' x = m1 x"
    using Suc.hyps(1) [OF i(2,3)] by blast
  have "link_blocks s st (of_nat n) (of_nat i) m = (of_nat n, m')"
    using lt m'(1) by (subst link_blocks.simps) (simp add: m1_def add.commute [of _ 1])
  moreover have "load_long m' (s + of_nat i * st) = s + of_nat (Suc i) * st"
  proof -
    have "\<not> s + of_nat i * st + y - (s + of_nat j * st) < 4" if "Suc i \<le> j" "j < n" "y < 4" for j y
      using linear_apart [OF assms(1,2) that(2) i(1)] unat_linear [OF assms(1,2) that(2)]
        unat_linear [OF assms(1,2) i(1)] that(1,3) assms(2) by (intro apart_bytes) auto
    then have "load_long m' (s + of_nat i * st) = load_long m1 (s + of_nat i * st)"
      using m'(3) by (intro load_long_cong) blast
    then show ?thesis by (simp add: m1_def load_store_long)
  qed
  moreover have "m' x = m x" if "\<forall>j. i \<le> j \<longrightarrow> j < n \<longrightarrow> \<not> x - (s + of_nat j * st) < 4" for x
  proof -
    have "m' x = m1 x" using m'(3) that by simp
    moreover have "m1 x = m x" unfolding m1_def using that i(1) by (intro store_long_other) simp
    ultimately show ?thesis by simp
  qed
  moreover have "load_long m' (s + of_nat j * st) = s + of_nat (Suc j) * st" if "Suc i \<le> j" "j < n" for j
    using m'(2) that by blast
  ultimately show ?case by (metis le_neq_implies_less Suc_leI)
qed

section \<open>The list of free blocks\<close>

fun free_blocks :: "nat \<Rightarrow> memory \<Rightarrow> u32 \<Rightarrow> u32 list" where
  "free_blocks 0 m p = []"
| "free_blocks (Suc n) m p = (if p = 0 then [] else p # free_blocks n m (load_long m p))"

fun free_chain :: "memory \<Rightarrow> u32 \<Rightarrow> u32 list \<Rightarrow> bool" where
  "free_chain m p [] \<longleftrightarrow> p = 0"
| "free_chain m p (x # xs) \<longleftrightarrow> p = x \<and> x \<noteq> 0 \<and> free_chain m (load_long m x) xs"

definition mp_free_blocks :: "nat \<Rightarrow> pool_state \<Rightarrow> u32 list" where
  "mp_free_blocks a w = free_blocks (unat (block_free_count (pools w a))) (mem_of w) (block_list (pools w a))"

text \<open>The free blocks are linked from \<^verbatim>\<open>block_list\<close>, as many as the counter says; every other block names the pool. The address of
  the pool fits into a word.\<close>

definition pool_ok :: "nat \<Rightarrow> pool_state \<Rightarrow> bool" where
  "pool_ok a w \<longleftrightarrow> (let mp = pools w a; xs = mp_free_blocks a w in
     pool_fits mp \<and> a < 2 ^ 32 \<and> free_chain (mem_of w) (block_list mp) xs \<and> length xs = unat (block_free_count mp) \<and>
     distinct xs \<and> set xs \<subseteq> set (pool_blocks mp) \<and>
     (\<forall>x \<in> set (pool_blocks mp) - set xs. load_long (mem_of w) x = of_nat a))"

lemma free_chain_free_blocks: "free_chain m p xs \<Longrightarrow> free_blocks (length xs) m p = xs"
  by (induction xs arbitrary: p) auto

lemma free_chain_cong: "(\<And>x. x \<in> set xs \<Longrightarrow> load_long m' x = load_long m x) \<Longrightarrow> free_chain m' p xs = free_chain m p xs"
  by (induction xs arbitrary: p) auto

lemma pool_okI:
  assumes "pool_fits (pools w a)" "a < 2 ^ 32" "free_chain (mem_of w) (block_list (pools w a)) xs"
    "length xs = unat (block_free_count (pools w a))" "distinct xs" "set xs \<subseteq> set (pool_blocks (pools w a))"
    "\<And>x. x \<in> set (pool_blocks (pools w a)) \<Longrightarrow> x \<notin> set xs \<Longrightarrow> load_long (mem_of w) x = of_nat a"
  shows "pool_ok a w" "mp_free_blocks a w = xs"
proof -
  show "mp_free_blocks a w = xs" using free_chain_free_blocks [OF assms(3)] by (simp add: mp_free_blocks_def assms(4))
  then show "pool_ok a w" using assms by (simp add: pool_ok_def Let_def)
qed

lemma pool_okD:
  assumes "pool_ok a w"
  shows "pool_fits (pools w a)" "a < 2 ^ 32" "free_chain (mem_of w) (block_list (pools w a)) (mp_free_blocks a w)"
    "length (mp_free_blocks a w) = unat (block_free_count (pools w a))" "distinct (mp_free_blocks a w)"
    "set (mp_free_blocks a w) \<subseteq> set (pool_blocks (pools w a))"
    "\<And>x. x \<in> set (pool_blocks (pools w a)) \<Longrightarrow> x \<notin> set (mp_free_blocks a w) \<Longrightarrow> load_long (mem_of w) x = of_nat a"
  using assms by (simp_all add: pool_ok_def Let_def)

lemma pool_block_bounds:
  assumes "pool_fits mp" "x \<in> set (pool_blocks mp)"
  shows "unat (start_address mp) \<le> unat x" "unat x + unat (block_size mp) + 4 \<le> unat (start_address mp) + unat (block_total_count mp) * (unat (block_size mp) + 4)"
    "unat x + unat (block_size mp) + 4 < 2 ^ 32" "x \<noteq> 0"
proof -
  obtain i where i: "i < unat (block_total_count mp)" "x = block_addr mp i" using assms(2) by (auto simp: pool_blocks_def)
  note p = assms(1) [unfolded pool_fits_def]
  have st: "unat (block_size mp + 4) = unat (block_size mp) + 4" using p by (intro unat_stride) simp
  note u = unat_linear [of "start_address mp" "unat (block_total_count mp)" "block_size mp + 4" i, unfolded st, OF _ _ i(1)]
  have x: "unat x = unat (start_address mp) + i * (unat (block_size mp) + 4)" using u(1) p by (simp add: i(2) block_addr_def)
  have "Suc i * (unat (block_size mp) + 4) \<le> unat (block_total_count mp) * (unat (block_size mp) + 4)"
    using i(1) by (intro mult_le_mono1) simp
  with x show "unat (start_address mp) \<le> unat x" "unat x + unat (block_size mp) + 4 \<le> unat (start_address mp) + unat (block_total_count mp) * (unat (block_size mp) + 4)"
    by simp_all
  then show "unat x + unat (block_size mp) + 4 < 2 ^ 32" "x \<noteq> 0" using p by (auto simp: word_unat_eq_iff)
qed

lemma pool_blocks_apart:
  assumes "pool_fits mp" "x \<in> set (pool_blocks mp)" "y \<in> set (pool_blocks mp)" "x \<noteq> y"
  shows "unat x + unat (block_size mp) + 4 \<le> unat y \<or> unat y + unat (block_size mp) + 4 \<le> unat x"
proof -
  obtain i j where i: "i < unat (block_total_count mp)" "x = block_addr mp i" "j < unat (block_total_count mp)" "y = block_addr mp j"
    using assms(2,3) by (auto simp: pool_blocks_def)
  with assms(4) have "i \<noteq> j" by auto
  note p = assms(1) [unfolded pool_fits_def]
  have st: "unat (block_size mp + 4) = unat (block_size mp) + 4" using p by (intro unat_stride) simp
  show ?thesis
    using linear_apart [of "start_address mp" "unat (block_total_count mp)" "block_size mp + 4" i j] i \<open>i \<noteq> j\<close> p
    by (simp add: st block_addr_def add.assoc)
qed

lemma pool_blocks_distinct: "pool_fits mp \<Longrightarrow> distinct (pool_blocks mp)"
proof -
  assume f: "pool_fits mp"
  note p = f [unfolded pool_fits_def]
  have st: "unat (block_size mp + 4) = unat (block_size mp) + 4" using p by (intro unat_stride) simp
  have "block_addr mp i \<noteq> block_addr mp j" if "i < unat (block_total_count mp)" "j < unat (block_total_count mp)" "i \<noteq> j" for i j
    using linear_apart [of "start_address mp" "unat (block_total_count mp)" "block_size mp + 4" i j] that p
    by (auto simp: st block_addr_def)
  then have "inj_on (block_addr mp) {0..<unat (block_total_count mp)}" by (intro inj_onI) (meson atLeastLessThan_iff)
  then show ?thesis by (simp add: pool_blocks_def distinct_map)
qed

lemma load_other_block:
  assumes "pool_fits mp" "x \<in> set (pool_blocks mp)" "y \<in> set (pool_blocks mp)" "x \<noteq> y"
  shows "load_long (store_long x v m) y = load_long m y"
  using pool_blocks_apart [OF assms] pool_block_bounds(3) [OF assms(1,2)] pool_block_bounds(3) [OF assms(1,3)]
  by (intro load_store_other) auto

lemma state_simps [simp]:
  "mem_of (set_mem m w) = m" "mem_of (set_pool a mp w) = mem_of w" "pools (set_mem m w) = pools w" "pools (set_pool a mp w) = (pools w)(a := mp)"
  "kern (set_mem m w) = kern w" "kern (set_pool a mp w) = kern w" "rt_errno (set_mem m w) = rt_errno w" "rt_errno (set_pool a mp w) = rt_errno w"
  by (simp_all add: set_mem_def set_pool_def)

lemma pool_ok_cong:
  assumes "pools w' a = pools w a" "mem_of w' = mem_of w"
  shows "pool_ok a w' = pool_ok a w" "mp_free_blocks a w' = mp_free_blocks a w"
  using assms by (simp_all add: pool_ok_def mp_free_blocks_def)

section \<open>Initialisation\<close>

lemma free_chain_linked:
  assumes "\<And>j. j + 1 < n \<Longrightarrow> load_long m (f j) = f (Suc j)" "\<And>j. j < n \<Longrightarrow> f j \<noteq> 0" "load_long m (f (n - 1)) = 0" "i < n"
  shows "free_chain m (f i) (map f [i..<n])"
  using assms(4)
proof (induction "n - i" arbitrary: i)
  case (Suc d)
  have u: "[i..<n] = i # [Suc i..<n]" using Suc.prems by (simp add: upt_rec)
  show ?case
  proof (cases "Suc i < n")
    case True
    have "d = n - Suc i" using Suc.hyps(2) by simp
    then have "free_chain m (f (Suc i)) (map f [Suc i..<n])" using Suc.hyps(1) True by blast
    then show ?thesis using u assms(1) [of i] assms(2) [of i] True by simp
  next
    case False
    then have "i = n - 1" "[Suc i..<n] = []" using Suc.prems by simp_all
    then show ?thesis using u assms(2) [of i] assms(3) Suc.prems by simp
  qed
qed simp

lemma init_blocks_linked:
  assumes "pool_fits mp" "block_total_count mp \<noteq> 0"
  shows "free_chain (init_blocks mp m) (start_address mp) (pool_blocks mp)"
    "\<And>x. (\<And>y. y \<in> set (pool_blocks mp) \<Longrightarrow> \<not> x - y < 4) \<Longrightarrow> init_blocks mp m x = m x"
proof -
  define n where "n = unat (block_total_count mp)"
  define st where "st = block_size mp + 4"
  note p = assms(1) [unfolded pool_fits_def]
  have st: "unat st = unat (block_size mp) + 4" unfolding st_def using p by (intro unat_stride) simp
  have g: "unat (start_address mp) + n * unat st \<le> 2 ^ 32" "4 \<le> unat st" "n < 2 ^ 32"
    using p unat_less_2_32 [of "block_total_count mp"] by (simp_all add: n_def st)
  have n: "0 < n" "of_nat n = block_total_count mp" using assms(2) by (simp_all add: n_def unat_gt_0)
  obtain m1 where m1: "link_blocks (start_address mp) st (of_nat n) (of_nat 0) m = (of_nat n, m1)"
    "\<And>j. j < n \<Longrightarrow> load_long m1 (block_addr mp j) = block_addr mp (Suc j)"
    "\<And>x. (\<And>j. j < n \<Longrightarrow> \<not> x - block_addr mp j < 4) \<Longrightarrow> m1 x = m x"
    using link_blocks_links [OF g, of 0 m] by (auto simp: block_addr_def st_def [symmetric])
  have "of_nat n - 1 = (of_nat (n - 1) :: u32)" using n(1) by (simp add: of_nat_diff)
  then have e: "init_blocks mp m = store_long (block_addr mp (n - 1)) 0 m1"
    using m1(1) by (simp add: init_blocks_def block_addr_def Let_def st_def [symmetric] n(2) [symmetric])
  have mem: "block_addr mp j \<in> set (pool_blocks mp)" if "j < n" for j using that by (simp add: pool_blocks_def n_def)
  have "load_long (init_blocks mp m) (block_addr mp j) = block_addr mp (Suc j)" if "j + 1 < n" for j
  proof -
    have "inj_on (block_addr mp) {0..<n}"
      using pool_blocks_distinct [OF assms(1)] by (simp add: pool_blocks_def n_def [symmetric] distinct_map)
    then have "block_addr mp j \<noteq> block_addr mp (n - 1)" using that by (subst inj_on_eq_iff) auto
    then have "load_long (init_blocks mp m) (block_addr mp j) = load_long m1 (block_addr mp j)"
      unfolding e using mem [of j] mem [of "n - 1"] that by (intro load_other_block [OF assms(1)]) auto
    then show ?thesis using m1(2) that by simp
  qed
  moreover have "load_long (init_blocks mp m) (block_addr mp (n - 1)) = 0" unfolding e by (rule load_store_long)
  moreover have "block_addr mp j \<noteq> 0" if "j < n" for j using pool_block_bounds(4) [OF assms(1) mem [OF that]] .
  ultimately have "free_chain (init_blocks mp m) (block_addr mp 0) (map (block_addr mp) [0..<n])"
    using n(1) by (intro free_chain_linked) auto
  then show "free_chain (init_blocks mp m) (start_address mp) (pool_blocks mp)" by (simp add: pool_blocks_def n_def block_addr_def)
  show "init_blocks mp m x = m x" if "\<And>y. y \<in> set (pool_blocks mp) \<Longrightarrow> \<not> x - y < 4" for x
  proof -
    have "m1 x = m x" using that mem by (intro m1(3)) blast
    moreover have "store_long (block_addr mp (n - 1)) 0 m1 x = m1 x" using that mem n(1) by (intro store_long_other) simp
    ultimately show ?thesis by (simp add: e)
  qed
qed

section \<open>Taking and giving back a block\<close>

lemma used_count:
  assumes "pool_ok a w" "x \<in> set (pool_blocks (pools w a))" "x \<notin> set (mp_free_blocks a w)"
  shows "unat (block_free_count (pools w a) + 1) = unat (block_free_count (pools w a)) + 1"
proof -
  note p = pool_okD [OF assms(1)]
  have "set (mp_free_blocks a w) \<subset> set (pool_blocks (pools w a))" using p(6) assms(2,3) by auto
  then have "card (set (mp_free_blocks a w)) < card (set (pool_blocks (pools w a)))" by (intro psubset_card_mono) auto
  then have "unat (block_free_count (pools w a)) < unat (block_total_count (pools w a))"
    using p(4,5) pool_blocks_distinct [OF p(1)] by (simp add: distinct_card) (simp add: pool_blocks_def)
  then show ?thesis using unat_less_2_32 [of "block_total_count (pools w a)"] by (intro unat_Suc_no_wrap) simp
qed

lemma mp_take_ok:
  assumes "pool_ok a w" "mp_free_blocks a w = x # xs"
  obtains w' where "mp_take a w = Some (x + 4, w')" "pool_ok a w'" "mp_free_blocks a w' = xs"
    "w' = set_mem (store_long x (of_nat a) (mem_of w)) (set_pool a ((pools w a)
       \<lparr>block_free_count := block_free_count (pools w a) - 1, block_list := load_long (mem_of w) x\<rparr>) w)"
proof -
  note p = pool_okD [OF assms(1), unfolded assms(2)]
  let ?mp = "(pools w a)\<lparr>block_free_count := block_free_count (pools w a) - 1, block_list := load_long (mem_of w) x\<rparr>"
  let ?w = "set_mem (store_long x (of_nat a) (mem_of w)) (set_pool a ?mp w)"
  have x: "block_list (pools w a) = x" "x \<noteq> 0" "free_chain (mem_of w) (load_long (mem_of w) x) xs" using p(3) by simp_all
  have "block_free_count (pools w a) \<noteq> 0" using p(4) by auto
  then have cnt: "length xs = unat (block_free_count (pools w a) - 1)" using p(4) by (simp add: unat_pred)
  have other: "load_long (store_long x (of_nat a) (mem_of w)) y = load_long (mem_of w) y" if "y \<in> set (pool_blocks (pools w a))" "y \<noteq> x" for y
    using that p(6) by (intro load_other_block [OF p(1)]) auto
  have "load_long (store_long x (of_nat a) (mem_of w)) y = load_long (mem_of w) y" if "y \<in> set xs" for y
    using that other p(5,6) by auto
  then have "free_chain (store_long x (of_nat a) (mem_of w)) (load_long (mem_of w) x) xs"
    using x(3) by (simp add: free_chain_cong [of xs "store_long x (of_nat a) (mem_of w)" "mem_of w"])
  moreover have "load_long (store_long x (of_nat a) (mem_of w)) y = of_nat a" if "y \<in> set (pool_blocks (pools w a))" "y \<notin> set xs" for y
    using other [OF that(1)] p(7) [OF that(1)] that(2) load_store_long by (cases "y = x") auto
  ultimately have "pool_ok a ?w" "mp_free_blocks a ?w = xs"
    using p(1,2,5,6) cnt by (intro pool_okI [of ?w a xs]; simp)+
  moreover have "mp_take a w = Some (x + 4, ?w)" using x by (simp add: mp_take_def Let_def)
  ultimately show ?thesis using that by blast
qed

text \<open>The state after the block is linked into the list.\<close>

definition mp_push :: "nat \<Rightarrow> u32 \<Rightarrow> pool_state \<Rightarrow> pool_state" where
  "mp_push a x w = set_mem (store_long x (block_list (pools w a)) (mem_of w))
     (set_pool a ((pools w a)\<lparr>block_free_count := block_free_count (pools w a) + 1, block_list := x\<rparr>) w)"

lemma mp_push_ok:
  assumes "pool_ok a w" "x \<in> set (pool_blocks (pools w a))" "x \<notin> set (mp_free_blocks a w)"
  shows "pool_ok a (mp_push a x w)" "mp_free_blocks a (mp_push a x w) = x # mp_free_blocks a w"
    "rt_mp_free c (x + 4) w = (case tlists (kern w) (Suspend a) of
           [] \<Rightarrow> Some (mp_push a x w)
         | t # _ \<Rightarrow> do {
             (_, k1) \<leftarrow> rt_thread_resume c t (set_error t RT_EOK (kern w));
             k2 \<leftarrow> rt_schedule c k1;
             Some ((mp_push a x w)\<lparr>kern := k2\<rparr>) })"
proof -
  note p = pool_okD [OF assms(1)]
  let ?mp = "(pools w a)\<lparr>block_free_count := block_free_count (pools w a) + 1, block_list := x\<rparr>"
  let ?m = "store_long x (block_list (pools w a)) (mem_of w)"
  have other: "load_long ?m y = load_long (mem_of w) y" if "y \<in> set (pool_blocks (pools w a))" "y \<noteq> x" for y
    using that assms(2) by (intro load_other_block [OF p(1)]) auto
  have "load_long ?m y = load_long (mem_of w) y" if "y \<in> set (mp_free_blocks a w)" for y
    using that other p(6) assms(3) by auto
  then have "free_chain ?m (block_list (pools w a)) (mp_free_blocks a w)"
    using p(3) by (simp add: free_chain_cong [of "mp_free_blocks a w" ?m "mem_of w"])
  then have ch: "free_chain ?m x (x # mp_free_blocks a w)"
    using pool_block_bounds(4) [OF p(1) assms(2)] by (simp add: load_store_long)
  have "load_long ?m y = of_nat a" if "y \<in> set (pool_blocks (pools w a))" "y \<notin> set (x # mp_free_blocks a w)" for y
    using other p(7) that by simp
  then show "pool_ok a (mp_push a x w)" "mp_free_blocks a (mp_push a x w) = x # mp_free_blocks a w"
    using ch p(1,2,4,5,6) used_count [OF assms] assms(2,3)
    by (intro pool_okI [of "mp_push a x w" a "x # mp_free_blocks a w"]; simp add: mp_push_def)+
  have "unat (load_long (mem_of w) x) = a" using p(2) p(7) [OF assms(2,3)] by (simp add: unat_of_nat_u32)
  moreover have "x + 4 \<noteq> 0"
    using unat_stride [of x] pool_block_bounds(3) [OF p(1) assms(2)] by (auto simp: word_unat_eq_iff)
  ultimately show "rt_mp_free c (x + 4) w = (case tlists (kern w) (Suspend a) of
           [] \<Rightarrow> Some (mp_push a x w)
         | t # _ \<Rightarrow> do {
             (_, k1) \<leftarrow> rt_thread_resume c t (set_error t RT_EOK (kern w));
             k2 \<leftarrow> rt_schedule c k1;
             Some ((mp_push a x w)\<lparr>kern := k2\<rparr>) })"
    by (simp add: rt_mp_free_def mp_push_def Let_def set_pool_def set_mem_def split: list.split)
qed

end
