(* ===== verification/MemProps.thy ===== *)
theory MemProps
  imports Mem
begin

text \<open>
  The small memory manager keeps its blocks in order: they fill the heap without gaps or overlaps,
  no two free blocks are neighbours, and the statistics count what is in use. Allocating and
  freeing change the set of allocated regions as they should, and the searches end. The last part
  shows what \<^verbatim>\<open>rt_realloc\<close> does to the pointer to the lowest free block, and the requests whose size wraps
  around.
\<close>

section \<open>Rows of blocks\<close>

text \<open>The headers at the offsets in the list, from \<open>a\<close> to \<open>e\<close>, where \<open>pv\<close> is the one before \<open>a\<close>.\<close>

definition head_ok :: "u32 \<Rightarrow> heap_mem \<Rightarrow> bool" where
  "head_ok a m \<longleftrightarrow> h_magic m = HEAP_MAGIC \<and> (h_used m = 0 \<or> h_used m = 1) \<and> unat a + 20 \<le> unat (h_next m) \<and> unat a mod 4 = 0"

primrec row :: "(u32 \<Rightarrow> heap_mem) \<Rightarrow> u32 \<Rightarrow> u32 \<Rightarrow> u32 \<Rightarrow> u32 list \<Rightarrow> bool" where
  "row H pv a e [] \<longleftrightarrow> a = e"
| "row H pv a e (b # bs) \<longleftrightarrow> b = a \<and> head_ok a (H a) \<and> h_prev (H a) = pv \<and> row H a (h_next (H a)) e bs"

definition last_or :: "u32 \<Rightarrow> u32 list \<Rightarrow> u32" where
  "last_or pv xs = (if xs = [] then pv else last xs)"

lemma last_or_simps [simp]: "last_or pv [] = pv" "last_or pv (xs @ [x]) = x" "last_or pv (x # xs) = last_or x xs"
  by (auto simp: last_or_def)

lemma row_append: "row H pv a e (xs @ ys) \<longleftrightarrow> (\<exists>m. row H pv a m xs \<and> row H (last_or pv xs) m e ys)"
  by (induction xs arbitrary: pv a) auto

lemma row_cong: "(\<And>b. b \<in> set bs \<Longrightarrow> H' b = H b) \<Longrightarrow> row H' pv a e bs = row H pv a e bs"
  by (induction bs arbitrary: pv a) auto

lemma row_upd [simp]: "m \<notin> set bs \<Longrightarrow> row (H(m := v)) pv a e bs = row H pv a e bs"
  by (intro row_cong) auto

lemma row_bounds:
  assumes "row H pv a e bs"
  shows "unat a \<le> unat e" "b \<in> set bs \<Longrightarrow> unat a \<le> unat b \<and> unat b + 20 \<le> unat (h_next (H b)) \<and> unat (h_next (H b)) \<le> unat e \<and> head_ok b (H b)"
proof -
  have "unat a \<le> unat e \<and> (b \<in> set bs \<longrightarrow> unat a \<le> unat b \<and> unat b + 20 \<le> unat (h_next (H b)) \<and> unat (h_next (H b)) \<le> unat e \<and> head_ok b (H b))"
    using assms
  proof (induction bs arbitrary: pv a)
    case (Cons x bs)
    then show ?case using Cons.IH [of a "h_next (H a)"] by (fastforce simp: head_ok_def)
  qed simp
  then show "unat a \<le> unat e" "b \<in> set bs \<Longrightarrow> unat a \<le> unat b \<and> unat b + 20 \<le> unat (h_next (H b)) \<and> unat (h_next (H b)) \<le> unat e \<and> head_ok b (H b)"
    by simp_all
qed

lemma row_distinct: "row H pv a e bs \<Longrightarrow> distinct bs"
proof (induction bs arbitrary: pv a)
  case (Cons x bs)
  then show ?case using row_bounds(2) [of H a "h_next (H a)" e bs x] by (fastforce simp: head_ok_def)
qed simp

lemma row_nil: "row H pv e e bs \<Longrightarrow> bs = []"
  using row_bounds(2) [of H pv e e bs "hd bs"] by (cases bs) auto

text \<open>Around one block of a row.\<close>

lemma row_split:
  assumes "row H pv a e (xs @ b # ys)"
  shows "row H pv a b xs" "head_ok b (H b)" "h_prev (H b) = last_or pv xs" "row H b (h_next (H b)) e ys"
    "\<And>x. x \<in> set xs \<Longrightarrow> unat (h_next (H x)) \<le> unat b" "\<And>y. y \<in> set ys \<Longrightarrow> unat (h_next (H b)) \<le> unat y"
    "b \<notin> set xs" "b \<notin> set ys" "unat b + 20 \<le> unat (h_next (H b))" "unat (h_next (H b)) \<le> unat e" "b \<noteq> e"
    "h_next (H b) \<notin> set xs" "h_next (H b) \<noteq> b"
proof -
  show r: "row H pv a b xs" "head_ok b (H b)" "h_prev (H b) = last_or pv xs" "row H b (h_next (H b)) e ys"
    using assms by (auto simp: row_append)
  show x: "\<And>x. x \<in> set xs \<Longrightarrow> unat (h_next (H x)) \<le> unat b" "\<And>y. y \<in> set ys \<Longrightarrow> unat (h_next (H b)) \<le> unat y"
    using row_bounds(2) [OF r(1)] row_bounds(2) [OF r(4)] by auto
  show "b \<notin> set xs" "b \<notin> set ys" using row_distinct [OF assms] by auto
  show n: "unat b + 20 \<le> unat (h_next (H b))" "unat (h_next (H b)) \<le> unat e"
    using r(2) row_bounds(1) [OF r(4)] by (simp_all add: head_ok_def)
  show "b \<noteq> e" "h_next (H b) \<noteq> b" using n by auto
  show "h_next (H b) \<notin> set xs" using row_bounds(2) [OF r(1)] n(1) by fastforce
qed

lemma row_relink: "row H pv m e ys \<Longrightarrow> row (H(m := (H m)\<lparr>h_prev := pv'\<rparr>)) pv' m e ys"
proof (cases ys)
  case (Cons y zs)
  assume r: "row H pv m e ys"
  then have y: "y = m" "row H m (h_next (H m)) e zs" "m \<notin> set zs" "head_ok m (H m)"
    using Cons row_distinct [OF r] by auto
  then show ?thesis using Cons by (auto simp: head_ok_def)
qed simp

text \<open>Cutting a block in two and joining two blocks.\<close>

lemma row_cut:
  assumes "row H pv a e (xs @ b # ys)" "unat b + 20 \<le> unat b2" "unat b2 + 20 \<le> unat (h_next (H b))" "unat b2 mod 4 = 0"
    and "h_magic m2 = HEAP_MAGIC" "h_used m2 = 0" "h_next m2 = h_next (H b)" "h_prev m2 = b" "u = 0 \<or> u = 1"
    and "H1 = (H(b2 := m2))(b := (H b)\<lparr>h_next := b2, h_used := u\<rparr>)"
    and "H2 = (if h_next (H b) = e then H1 else H1(h_next (H b) := (H1 (h_next (H b)))\<lparr>h_prev := b2\<rparr>))"
  shows "row H2 pv a e (xs @ b # b2 # ys)"
proof -
  note s = row_split [OF assms(1)]
  let ?n = "h_next (H b)"
  have b2: "b2 \<noteq> b" "b2 \<noteq> ?n" using assms(2,3) by auto
  have out: "b2 \<notin> set xs" "b2 \<notin> set ys"
    using row_bounds(2) [OF s(1), of b2] s(6) [of b2] assms(2,3) by auto
  have H1: "H1 x = H x" if "x \<noteq> b" "x \<noteq> b2" for x using that by (simp add: assms(10))
  have H2: "H2 x = H1 x" if "x \<noteq> ?n" for x using that by (simp add: assms(11))
  have "row H2 pv a b xs"
    using s(1,7,12) out(1) row_cong [of xs H2 H] H1 H2 by metis
  moreover have "row H2 b2 ?n e ys"
  proof (cases "?n = e")
    case True
    then have "ys = []" using s(4) row_nil by simp
    then show ?thesis using True by simp
  next
    case False
    have "row H1 b ?n e ys" using s(4,8) out(2) row_cong [of ys H1 H] H1 by metis
    from row_relink [OF this, of b2] False show ?thesis by (simp add: assms(11))
  qed
  moreover have "H2 b = (H b)\<lparr>h_next := b2, h_used := u\<rparr>" "H2 b2 = m2"
    using H2 s(13) b2 by (simp_all add: assms(10))
  ultimately show ?thesis
    using s(2,3) assms(2-9) by (auto simp: row_append head_ok_def intro!: exI [of _ b])
qed

lemma row_join:
  assumes "row H pv a e (xs @ b # c # ys)"
    and "H1 = H(b := (H b)\<lparr>h_next := h_next (H c)\<rparr>)"
    and "H2 = H1(h_next (H c) := (H1 (h_next (H c)))\<lparr>h_prev := b\<rparr>)"
  shows "row H2 pv a e (xs @ b # ys)" "c = h_next (H b)"
proof -
  note s = row_split [OF assms(1)]
  show c: "c = h_next (H b)" using s(4) by simp
  note t = row_split [of H pv a e "xs @ [b]" c ys, simplified, OF assms(1)]
  let ?n = "h_next (H c)"
  have ne: "?n \<noteq> b" "?n \<notin> set xs" "b \<notin> set ys" using t(12) s(8) by auto
  have "row H2 pv a b xs"
    using s(1,7) ne(2) by (simp add: assms(2,3))
  moreover have "row H2 b ?n e ys"
    using row_relink [of H1 c ?n e ys b] t(4) ne(3) by (simp add: assms(2,3))
  moreover have "H2 b = (H b)\<lparr>h_next := ?n\<rparr>" using ne(1) by (simp add: assms(2,3))
  ultimately show "row H2 pv a e (xs @ b # ys)"
    using s(2,3,9) t(9) c by (auto simp: row_append head_ok_def intro!: exI [of _ b])
qed

section \<open>The heap invariant\<close>

text \<open>The used blocks, from the header to the next one.\<close>

definition alloc_of :: "sys_heap \<Rightarrow> u32 list \<Rightarrow> (u32 \<times> u32) list" where
  "alloc_of h bs = map (\<lambda>b. (b, h_next (heads h b))) (filter (\<lambda>b. h_used (heads h b) \<noteq> 0) bs)"

definition layout0 :: "sys_heap \<Rightarrow> u32 list \<Rightarrow> bool" where
  "layout0 h bs \<longleftrightarrow> row (heads h) 0 0 (heap_end h) bs \<and>
     heap_end h = mem_size_aligned h + 16 \<and> unat (mem_size_aligned h) mod 4 = 0 \<and> 12 \<le> unat (mem_size_aligned h) \<and>
     unat (heap_ptr h) mod 4 = 0 \<and> unat (heap_ptr h) + unat (mem_size_aligned h) + 32 \<le> 2 ^ 32 \<and>
     h_used (heads h (heap_end h)) = 1 \<and> h_next (heads h (heap_end h)) = heap_end h \<and>
     used_mem h = (\<Sum>(b, n) \<leftarrow> alloc_of h bs. n - b)"

definition layout :: "sys_heap \<Rightarrow> u32 list \<Rightarrow> bool" where
  "layout h bs \<longleftrightarrow> layout0 h bs \<and> (lfree h = heap_end h \<or> lfree h \<in> set bs \<and> h_used (heads h (lfree h)) = 0)"

text \<open>No two free blocks next to each other; every block below \<^verbatim>\<open>lfree\<close> is in use.\<close>

definition coalesced :: "sys_heap \<Rightarrow> u32 list \<Rightarrow> bool" where
  "coalesced h bs \<longleftrightarrow> successively (\<lambda>x y. h_used (heads h x) \<noteq> 0 \<or> h_used (heads h y) \<noteq> 0) bs"

definition lowest :: "sys_heap \<Rightarrow> u32 list \<Rightarrow> bool" where
  "lowest h bs \<longleftrightarrow> (\<forall>b \<in> set bs. b < lfree h \<longrightarrow> h_used (heads h b) \<noteq> 0)"

definition same_memory :: "sys_heap \<Rightarrow> sys_heap \<Rightarrow> bool" where
  "same_memory h h' \<longleftrightarrow> heap_ptr h' = heap_ptr h \<and> heap_end h' = heap_end h \<and> mem_size_aligned h' = mem_size_aligned h \<and>
     bytes h' = bytes h"

lemma same_memory_trans: "same_memory h h1 \<Longrightarrow> same_memory h1 h' \<Longrightarrow> same_memory h h'"
  by (simp add: same_memory_def)

lemma same_memory_refl [simp]: "same_memory h h"
  by (simp add: same_memory_def)

lemma layout0D:
  assumes "layout0 h bs"
  shows "row (heads h) 0 0 (heap_end h) bs" "heap_end h = mem_size_aligned h + 16" "unat (heap_end h) = unat (mem_size_aligned h) + 16"
    "unat (mem_size_aligned h) mod 4 = 0" "12 \<le> unat (mem_size_aligned h)" "unat (heap_ptr h) mod 4 = 0"
    "unat (heap_ptr h) + unat (heap_end h) + 16 \<le> 2 ^ 32"
    "h_used (heads h (heap_end h)) = 1" "h_next (heads h (heap_end h)) = heap_end h"
    "used_mem h = (\<Sum>(b, n) \<leftarrow> alloc_of h bs. n - b)"
proof -
  show e: "heap_end h = mem_size_aligned h + 16" using assms by (simp add: layout0_def)
  show "unat (heap_end h) = unat (mem_size_aligned h) + 16"
    using assms unat_add_no_wrap [of "mem_size_aligned h" 16] by (simp add: layout0_def)
  then show "unat (heap_ptr h) + unat (heap_end h) + 16 \<le> 2 ^ 32" using assms by (simp add: layout0_def)
qed (use assms [unfolded layout0_def] in blast)+

lemma layout0I:
  assumes "layout0 h bs" "row (heads h') 0 0 (heap_end h) bs'" "used_mem h' = (\<Sum>(b, n) \<leftarrow> alloc_of h' bs'. n - b)"
    and "heap_end h' = heap_end h" "mem_size_aligned h' = mem_size_aligned h" "heap_ptr h' = heap_ptr h"
    "h_used (heads h' (heap_end h)) = 1" "h_next (heads h' (heap_end h)) = heap_end h"
  shows "layout0 h' bs'"
  using layout0D [OF assms(1)] assms(2-) unfolding layout0_def assms(4-6) by simp

lemma layoutD: "layout h bs \<Longrightarrow> layout0 h bs" "layout h bs \<Longrightarrow> lfree h = heap_end h \<or> lfree h \<in> set bs \<and> h_used (heads h (lfree h)) = 0"
  "layout h bs \<Longrightarrow> row (heads h) 0 0 (heap_end h) bs"
  unfolding layout_def layout0_def by blast+

lemma alloc_of_simps [simp]:
  "alloc_of h [] = []" "alloc_of h (xs @ ys) = alloc_of h xs @ alloc_of h ys"
  "alloc_of h (b # ys) = (if h_used (heads h b) \<noteq> 0 then (b, h_next (heads h b)) # alloc_of h ys else alloc_of h ys)"
  by (simp_all add: alloc_of_def)

lemma alloc_of_cong:
  assumes "\<And>b. b \<in> set bs \<Longrightarrow> h_used (heads h' b) = h_used (heads h b)"
    "\<And>b. b \<in> set bs \<Longrightarrow> h_used (heads h b) \<noteq> 0 \<Longrightarrow> h_next (heads h' b) = h_next (heads h b)"
  shows "alloc_of h' bs = alloc_of h bs"
  using assms by (induction bs) auto

lemma coalesced_cong:
  assumes "\<And>b. b \<in> set bs \<Longrightarrow> h_used (heads h' b) = h_used (heads h b)"
  shows "coalesced h' bs = coalesced h bs"
  using assms unfolding coalesced_def by (induction bs rule: induct_list012) auto

text \<open>Joining a free block with the free block after it, as \<^verbatim>\<open>plug_holes\<close> does in both directions.\<close>

definition join_with :: "u32 \<Rightarrow> u32 \<Rightarrow> sys_heap \<Rightarrow> sys_heap" where
  "join_with n a h =
     (let ha = (if lfree h = n then h\<lparr>lfree := a\<rparr> else h);
          hb = upd_head a (\<lambda>m. m\<lparr>h_next := h_next (heads ha n)\<rparr>) ha
      in upd_head (h_next (heads hb n)) (\<lambda>m. m\<lparr>h_prev := a\<rparr>) hb)"

abbreviation join_next :: "u32 \<Rightarrow> sys_heap \<Rightarrow> sys_heap" where
  "join_next a h \<equiv> join_with (h_next (heads h a)) a h"

definition join_forward :: "u32 \<Rightarrow> sys_heap \<Rightarrow> sys_heap" where
  "join_forward a h = (if a \<noteq> h_next (heads h a) \<and> h_used (heads h (h_next (heads h a))) = 0 \<and> h_next (heads h a) \<noteq> heap_end h
     then join_next a h else h)"

lemma plug_holes_joins:
  "plug_holes a h = (if a < heap_end h \<and> h_used (heads h a) = 0 then
     let h1 = join_forward a h; p = h_prev (heads h1 a)
     in Some (if p \<noteq> a \<and> h_used (heads h1 p) = 0 then join_with a p h1 else h1) else None)"
  unfolding plug_holes_def join_forward_def join_with_def Let_def by simp

lemma join_fields:
  assumes "n \<noteq> a"
  shows "heads (join_with n a h) = (let H1 = (heads h)(a := (heads h a)\<lparr>h_next := h_next (heads h n)\<rparr>);
      m = h_next (heads h n) in H1(m := (H1 m)\<lparr>h_prev := a\<rparr>))"
    "lfree (join_with n a h) = (if lfree h = n then a else lfree h)"
    "same_memory h (join_with n a h)" "used_mem (join_with n a h) = used_mem h" "max_mem (join_with n a h) = max_mem h"
  using assms by (simp_all add: join_with_def upd_head_def Let_def same_memory_def)

lemma join_used: "h_used (heads (join_with n a h) b) = h_used (heads h b)"
  by (simp add: join_with_def upd_head_def Let_def)

lemma join_layout:
  assumes "layout h (xs @ a # n # ys)" "h_used (heads h a) = 0" "h_used (heads h n) = 0"
  shows "layout (join_with n a h) (xs @ a # ys)" "alloc_of (join_with n a h) (xs @ a # ys) = alloc_of h (xs @ a # n # ys)"
    "lowest h (xs @ a # n # ys) \<Longrightarrow> lowest (join_with n a h) (xs @ a # ys)" "n \<noteq> a" "n = h_next (heads h a)"
proof -
  note l = layoutD(3) [OF assms(1)]
  note s = row_split [OF l]
  show n: "n = h_next (heads h a)" using s(4) by simp
  then show na: "n \<noteq> a" using s(13) by simp
  note f = join_fields [OF na, of h]
  let ?m = "h_next (heads h n)"
  have row: "row (heads (join_with n a h)) 0 0 (heap_end h) (xs @ a # ys)"
    by (rule row_join(1) [OF l refl]) (simp add: f(1) Let_def)
  have next_eq: "h_next (heads (join_with n a h) b) = (if b = a then ?m else h_next (heads h b))" for b
    by (simp add: f(1) Let_def)
  show al: "alloc_of (join_with n a h) (xs @ a # ys) = alloc_of h (xs @ a # n # ys)"
    using alloc_of_cong [of "xs @ a # ys" "join_with n a h" h] assms(2,3) join_used next_eq by fastforce
  have mem: "heap_ptr (join_with n a h) = heap_ptr h" "heap_end (join_with n a h) = heap_end h"
    "mem_size_aligned (join_with n a h) = mem_size_aligned h" using f(3) by (simp_all add: same_memory_def)
  show "layout (join_with n a h) (xs @ a # ys)"
    using row assms(1,2) al s(11)
    by (auto simp: layout_def layout0_def mem join_used next_eq f(2,4) split: if_splits)
  show "lowest (join_with n a h) (xs @ a # ys)" if "lowest h (xs @ a # n # ys)"
  proof -
    have "a < n" using s(9) n by (simp add: word_less_nat_alt)
    then show ?thesis using that assms(2) by (auto simp: lowest_def join_used f(2))
  qed
qed

text \<open>The blocks after \<^verbatim>\<open>plug_holes\<close>: the one after \<open>a\<close> goes if it is free, and \<open>a\<close> goes if the one before it is free.\<close>

definition plug_after :: "sys_heap \<Rightarrow> u32 list \<Rightarrow> u32 list" where
  "plug_after h ys = (if ys \<noteq> [] \<and> h_used (heads h (hd ys)) = 0 then tl ys else ys)"

definition plugged :: "sys_heap \<Rightarrow> u32 list \<Rightarrow> u32 \<Rightarrow> u32 list \<Rightarrow> u32 list" where
  "plugged h xs a ys = (if xs \<noteq> [] \<and> h_used (heads h (last xs)) = 0 then xs else xs @ [a]) @ plug_after h ys"

lemma plug_forward:
  assumes "layout h (xs @ a # ys)" "h_used (heads h a) = 0" "coalesced h ys"
    and "h1 = join_forward a h"
  shows "layout h1 (xs @ a # plug_after h ys)" "alloc_of h1 (xs @ a # plug_after h ys) = alloc_of h (xs @ a # ys)"
    "lowest h (xs @ a # ys) \<Longrightarrow> lowest h1 (xs @ a # plug_after h ys)" "\<And>b. h_used (heads h1 b) = h_used (heads h b)"
    "same_memory h h1" "max_mem h1 = max_mem h" "coalesced h (a # plug_after h ys)"
    "lfree h = heap_end h \<or> lfree h \<in> set (xs @ a # plug_after h ys) \<Longrightarrow> lfree h1 = lfree h"
proof -
  note s = row_split [OF layoutD(3) [OF assms(1)]]
  have all: "layout h1 (xs @ a # plug_after h ys) \<and> alloc_of h1 (xs @ a # plug_after h ys) = alloc_of h (xs @ a # ys) \<and>
    (lowest h (xs @ a # ys) \<longrightarrow> lowest h1 (xs @ a # plug_after h ys)) \<and> (\<forall>b. h_used (heads h1 b) = h_used (heads h b)) \<and>
    same_memory h h1 \<and> max_mem h1 = max_mem h \<and> coalesced h (a # plug_after h ys) \<and>
    (lfree h = heap_end h \<or> lfree h \<in> set (xs @ a # plug_after h ys) \<longrightarrow> lfree h1 = lfree h)"
  proof (cases "ys \<noteq> [] \<and> h_used (heads h (hd ys)) = 0")
    case True
    then obtain y zs where ys: "ys = y # zs" "h_used (heads h y) = 0" by (cases ys) auto
    have lay: "layout h (xs @ a # y # zs)" using assms(1) ys by simp
    note j = join_layout [OF lay assms(2) ys(2)]
    have "y \<noteq> heap_end h" using row_split(11) [of "heads h" 0 0 "heap_end h" "xs @ [a]" y zs] layoutD(3) [OF lay] by simp
    moreover have "y \<notin> set (xs @ a # zs)"
      using row_split(7,8) [of "heads h" 0 0 "heap_end h" "xs @ [a]" y zs] layoutD(3) [OF lay] by auto
    moreover have "h1 = join_with y a h" using assms(4) j(4,5) ys(2) calculation(1) by (auto simp: join_forward_def)
    ultimately show ?thesis
      using j(1-3) join_used join_fields(2,3,5) [OF j(4)] ys assms(2,3)
      by (cases zs) (auto simp: plug_after_def coalesced_def)
  next
    case False
    then have "h1 = h" using s(4) assms(4) by (cases ys) (auto simp: join_forward_def)
    with False assms(1,3) show ?thesis by (cases ys) (auto simp: plug_after_def coalesced_def)
  qed
  then show "layout h1 (xs @ a # plug_after h ys)" "alloc_of h1 (xs @ a # plug_after h ys) = alloc_of h (xs @ a # ys)"
    "lowest h (xs @ a # ys) \<Longrightarrow> lowest h1 (xs @ a # plug_after h ys)" "\<And>b. h_used (heads h1 b) = h_used (heads h b)"
    "same_memory h h1" "max_mem h1 = max_mem h" "coalesced h (a # plug_after h ys)"
    "lfree h = heap_end h \<or> lfree h \<in> set (xs @ a # plug_after h ys) \<Longrightarrow> lfree h1 = lfree h"
    by blast+
qed

lemma plug_holes_layout:
  assumes "layout h (xs @ a # ys)" "h_used (heads h a) = 0" "coalesced h xs" "coalesced h ys"
  obtains h' where "plug_holes a h = Some h'" "layout h' (plugged h xs a ys)" "coalesced h' (plugged h xs a ys)"
    "alloc_of h' (plugged h xs a ys) = alloc_of h (xs @ a # ys)"
    "lowest h (xs @ a # ys) \<Longrightarrow> lowest h' (plugged h xs a ys)" "same_memory h h'" "max_mem h' = max_mem h"
    "\<And>b. h_used (heads h' b) = h_used (heads h b)"
    "lfree h = heap_end h \<or> lfree h \<in> set (plugged h xs a ys) \<Longrightarrow> lfree h' = lfree h"
proof -
  define h1 where "h1 = join_forward a h"
  note f = plug_forward [OF assms(1,2,4) h1_def]
  note s = row_split [OF layoutD(3) [OF f(1)]]
  have a: "a < heap_end h"
    using row_split(9,10) [OF layoutD(3) [OF assms(1)]] by (simp add: word_less_nat_alt)
  show ?thesis
  proof (cases "xs \<noteq> [] \<and> h_used (heads h (last xs)) = 0")
    case True
    define p ps where "p = last xs" "ps = butlast xs"
    have xs: "xs = ps @ [p]" using True by (simp add: p_ps_def)
    have p: "h_used (heads h1 p) = 0" using True f(4) by (simp add: p_ps_def)
    note t = row_split [of "heads h1" 0 0 "heap_end h1" ps p "a # plug_after h ys"]
    have r: "row (heads h1) 0 0 (heap_end h1) (ps @ p # a # plug_after h ys)"
      using layoutD(3) [OF f(1)] xs by simp
    have n: "h_next (heads h1 p) = a" "h_prev (heads h1 a) = p" "p \<noteq> a" using t(4,13) [OF r] by auto
    have "plug_holes a h = Some (join_with a p h1)"
      using a assms(2) n p by (simp add: plug_holes_joins h1_def [symmetric] Let_def)
    moreover have "plugged h xs a ys = ps @ p # plug_after h ys" using True by (simp add: plugged_def xs)
    moreover have "layout h1 (ps @ p # a # plug_after h ys)" using f(1) xs by simp
    note j = join_layout [OF this p]
    moreover have "coalesced (join_with a p h1) (ps @ p # plug_after h ys)"
    proof -
      have "coalesced h (ps @ [p])" "coalesced h (a # plug_after h ys)" using assms(3) f(7) xs by simp_all
      then have "coalesced h (ps @ p # plug_after h ys)"
        using assms(2) by (cases "plug_after h ys") (auto simp: coalesced_def successively_append_iff)
      then show ?thesis using coalesced_cong join_used f(4) by metis
    qed
    moreover have "lfree (join_with a p h1) = lfree h" if "lfree h = heap_end h \<or> lfree h \<in> set (ps @ p # plug_after h ys)"
    proof -
      have "a \<notin> set (ps @ p # plug_after h ys)" "a \<noteq> heap_end h"
        using row_split(7,8) [of "heads h1" 0 0 "heap_end h1" "ps @ [p]" a "plug_after h ys"] r a by auto
      then have "lfree h \<noteq> a" using that by auto
      moreover have "lfree h1 = lfree h" using f(8) that xs by auto
      ultimately show ?thesis using join_fields(2) [of a p h1] n(3) by simp
    qed
    ultimately show ?thesis
      using that [of "join_with a p h1"] f(2-6) xs assms(2) join_fields(3,5) [of a p h1] n(1,3) join_used
        same_memory_trans [of h h1 "join_with a p h1"] by auto
  next
    case False
    have r: "row (heads h1) 0 0 (heap_end h1) (xs @ a # plug_after h ys)" by (rule layoutD(3) [OF f(1)])
    have "h_prev (heads h1 a) = a \<or> h_used (heads h1 (h_prev (heads h1 a))) \<noteq> 0"
      using row_split(3) [OF r] r False f(4) by (cases "xs = []") (auto simp: last_or_def)
    then have "plug_holes a h = Some h1"
      using a assms(2) f(4) by (auto simp: plug_holes_joins h1_def [symmetric] Let_def)
    moreover have "plugged h xs a ys = xs @ a # plug_after h ys" using False by (simp add: plugged_def)
    moreover have "coalesced h (xs @ a # plug_after h ys)"
      using assms(3) f(7) False by (auto simp: coalesced_def successively_append_iff)
    ultimately show ?thesis using that [of h1] f coalesced_cong [of _ h1 h] by auto
  qed
qed


section \<open>Freeing\<close>

lemma aligned_and: "(w :: u32) AND 3 = 0 \<longleftrightarrow> unat w mod 4 = 0"
proof -
  have "w AND 3 = w mod 4"
    using take_bit_eq_mask [of 2 w] take_bit_eq_mod [of 2 w] by (simp add: mask_eq_exp_minus_1)
  then show ?thesis by (simp add: word_unat_eq_iff unat_mod)
qed

text \<open>Changing the header of a block without moving it.\<close>

lemma row_mod:
  assumes "row H pv a e (xs @ b # ys)" "head_ok b m" "h_next m = h_next (H b)" "h_prev m = h_prev (H b)"
  shows "row (H(b := m)) pv a e (xs @ b # ys)"
  using row_split [OF assms(1)] assms(2-4) by (auto simp: row_append intro!: exI [of _ b])

lemma layout0_mod:
  assumes "layout0 h (xs @ b # ys)" "head_ok b m" "h_next m = h_next (heads h b)" "h_prev m = h_prev (heads h b)"
    and "u = used_mem h + (if h_used m \<noteq> 0 then h_next m - b else 0) - (if h_used (heads h b) \<noteq> 0 then h_next m - b else 0)"
    and "h' = h\<lparr>heads := (heads h)(b := m), used_mem := u, max_mem := mx, lfree := lf\<rparr>"
  shows "layout0 h' (xs @ b # ys)"
    "alloc_of h' (xs @ b # ys) = alloc_of h xs @ (if h_used m \<noteq> 0 then [(b, h_next m)] else []) @ alloc_of h ys"
proof -
  note l = layout0D [OF assms(1)]
  note s = row_split [OF l(1)]
  have al: "alloc_of h' zs = alloc_of h zs" if "b \<notin> set zs" for zs
    using that by (intro alloc_of_cong) (auto simp: assms(6))
  show alb: "alloc_of h' (xs @ b # ys) = alloc_of h xs @ (if h_used m \<noteq> 0 then [(b, h_next m)] else []) @ alloc_of h ys"
    using al [OF s(7)] al [OF s(8)] by (simp add: assms(6))
  have "row (heads h') 0 0 (heap_end h) (xs @ b # ys)"
    using row_mod [OF l(1) assms(2-4)] by (simp add: assms(6))
  moreover have "u = (\<Sum>(b, n) \<leftarrow> alloc_of h' (xs @ b # ys). n - b)"
    unfolding alb using l(10) assms(3,5) by (auto simp: algebra_simps split: if_splits)
  moreover have "heap_end h' = heap_end h" "mem_size_aligned h' = mem_size_aligned h" "heap_ptr h' = heap_ptr h"
    "h_used (heads h' (heap_end h)) = 1" "h_next (heads h' (heap_end h)) = heap_end h" "used_mem h' = u"
    using s(11) l(8,9) by (simp_all add: assms(6))
  ultimately show "layout0 h' (xs @ b # ys)"
    using layout0I [OF assms(1)] by simp
qed

lemma head_okD: "head_ok a m \<Longrightarrow> h_magic m = HEAP_MAGIC \<and> (h_used m = 0 \<or> h_used m = 1)"
  by (simp add: head_ok_def)

text \<open>Addresses of a block: the caller's pointer and the offset of its header.\<close>

lemma block_addr:
  assumes "layout0 h (xs @ b # ys)" "r = heap_ptr h + b + 16"
  shows "unat r = unat (heap_ptr h) + unat b + 16" "r - 16 - heap_ptr h = b" "r AND 3 = 0"
    "heap_ptr h \<le> r" "r < heap_ptr h + heap_end h" "unat (heap_ptr h + heap_end h) = unat (heap_ptr h) + unat (heap_end h)"
    "b < heap_end h"
proof -
  note l = layout0D [OF assms(1)]
  note s = row_split [OF l(1)]
  have a: "unat (heap_ptr h + b) = unat (heap_ptr h) + unat b"
    using l(7) s(9,10) by (intro unat_add_no_wrap) simp
  show r: "unat r = unat (heap_ptr h) + unat b + 16"
    using l(7) s(9,10) a unat_add_no_wrap [of "heap_ptr h + b" 16] by (simp add: assms(2))
  show e: "unat (heap_ptr h + heap_end h) = unat (heap_ptr h) + unat (heap_end h)"
    using l(7) by (intro unat_add_no_wrap) simp
  show "r - 16 - heap_ptr h = b" by (simp add: assms(2))
  show "r AND 3 = 0" using l(6) s(2) unfolding aligned_and r head_ok_def by (metis add.right_neutral mod_add_eq mod_self numeral_Bit0 mod_mult_self2_is_0 mult_2)
  show "heap_ptr h \<le> r" "r < heap_ptr h + heap_end h" "b < heap_end h"
    using r e s(9,10) by (simp_all add: word_le_nat_alt word_less_nat_alt)
qed

lemma rt_free_ok:
  assumes "layout h (xs @ a # ys)" "coalesced h (xs @ a # ys)" "h_used (heads h a) \<noteq> 0"
  obtains h' where "rt_free False (Some (heap_ptr h + a + 16)) h = Some h'" "layout h' (plugged h xs a ys)"
    "coalesced h' (plugged h xs a ys)" "alloc_of h' (plugged h xs a ys) = alloc_of h xs @ alloc_of h ys"
    "lowest h (xs @ a # ys) \<Longrightarrow> lowest h' (plugged h xs a ys)" "same_memory h h'" "max_mem h' = max_mem h"
proof -
  note l = layoutD [OF assms(1)]
  note s = row_split [OF l(3)]
  note ad = block_addr [OF l(1) refl]
  let ?m = "rt_mem_setname ''    '' ((heads h a)\<lparr>h_used := 0, h_magic := HEAP_MAGIC\<rparr>)"
  define h3 where "h3 = h\<lparr>heads := (heads h)(a := ?m), used_mem := used_mem h - (h_next (heads h a) - a), max_mem := max_mem h,
    lfree := (if a < lfree h then a else lfree h)\<rparr>"
  have m: "head_ok a ?m" "h_next ?m = h_next (heads h a)" "h_prev ?m = h_prev (heads h a)" "h_used ?m = 0"
    using s(2) by (simp_all add: head_ok_def rt_mem_setname_def)
  have l0: "layout0 h3 (xs @ a # ys)" "alloc_of h3 (xs @ a # ys) = alloc_of h xs @ alloc_of h ys"
    using layout0_mod [OF l(1) m(1-3) _ h3_def] assms(3) m(2,4) by simp_all
  have used: "h_used (heads h3 b) = (if b = a then 0 else h_used (heads h b))" for b using m(4) by (simp add: h3_def)
  have lay: "layout h3 (xs @ a # ys)"
    using l0(1) l(2) used by (auto simp: layout_def h3_def)
  have co: "coalesced h3 xs" "coalesced h3 ys"
  proof -
    have "coalesced h xs" "coalesced h ys" using assms(2) by (auto simp: coalesced_def successively_append_iff successively_Cons)
    then show "coalesced h3 xs" "coalesced h3 ys"
      using used s(7,8) coalesced_cong [of xs h3 h] coalesced_cong [of ys h3 h] by fastforce+
  qed
  have "h_used (heads h3 a) = 0" using used by simp
  from plug_holes_layout [OF lay this co] obtain h' where h': "plug_holes a h3 = Some h'" "layout h' (plugged h3 xs a ys)" "coalesced h' (plugged h3 xs a ys)"
    "alloc_of h' (plugged h3 xs a ys) = alloc_of h3 (xs @ a # ys)" "lowest h3 (xs @ a # ys) \<Longrightarrow> lowest h' (plugged h3 xs a ys)"
    "same_memory h3 h'" "max_mem h' = max_mem h3" by blast
  have "plugged h3 xs a ys = plugged h xs a ys"
  proof -
    have "xs \<noteq> [] \<Longrightarrow> last xs \<noteq> a" "ys \<noteq> [] \<Longrightarrow> hd ys \<noteq> a" using s(7,8) by (metis last_in_set, metis hd_in_set)
    then show ?thesis using used by (auto simp: plugged_def plug_after_def)
  qed
  moreover have "h3 = (if a < lfree h then h\<lparr>heads := (heads h)(a := ?m), lfree := a\<rparr> else h\<lparr>heads := (heads h)(a := ?m)\<rparr>)
      \<lparr>used_mem := used_mem h - (h_next (heads h a) - a)\<rparr>" by (cases h) (simp add: h3_def)
  then have "rt_free False (Some (heap_ptr h + a + 16)) h = plug_holes a h3"
    using ad(2-5) assms(3) head_okD [OF s(2)] m(2) by (simp add: rt_free_def upd_head_def Let_def)
  moreover have "lowest h3 (xs @ a # ys)" if "lowest h (xs @ a # ys)"
    using that used by (auto simp: lowest_def h3_def)
  moreover have "same_memory h h3" by (simp add: same_memory_def h3_def)
  ultimately show ?thesis
    using that [of h'] h' l0(2) same_memory_trans [of h h3 h'] by (auto simp: h3_def)
qed

section \<open>Allocating\<close>

text \<open>The first block of a list that is free and large enough, and not too close to the end for the
  condition of the loop.\<close>

definition fits :: "u32 \<Rightarrow> sys_heap \<Rightarrow> u32 \<Rightarrow> bool" where
  "fits sz h b \<longleftrightarrow> b < mem_size_aligned h - sz \<and> h_used (heads h b) = 0 \<and> h_next (heads h b) - (b + 16) \<ge> sz"

lemma malloc_find_first:
  assumes "layout0 h bs" "row (heads h) pv ptr (heap_end h) zs" "sz \<le> mem_size_aligned h"
  shows "malloc_find sz ptr h = Some (List.find (fits sz h) zs)"
  using assms(2)
proof (induction zs arbitrary: pv ptr)
  case Nil
  have "\<not> heap_end h < mem_size_aligned h - sz"
    using layout0D(3) [OF assms(1)] assms(3) by (simp add: word_less_nat_alt word_le_nat_alt unat_sub_u32)
  with Nil show ?case by (subst malloc_find.simps) simp
next
  case (Cons z zs)
  then have z: "z = ptr" "row (heads h) ptr (h_next (heads h ptr)) (heap_end h) zs" by simp_all
  show ?case
  proof (cases "ptr < mem_size_aligned h - sz")
    case True
    then have "fits sz h ptr \<longleftrightarrow> h_used (heads h ptr) = 0 \<and> h_next (heads h ptr) - (ptr + 16) \<ge> sz" by (simp add: fits_def)
    with True Cons.IH [OF z(2)] z(1) show ?thesis by (subst malloc_find.simps) simp
  next
    case False
    have "\<not> fits sz h b" if "b \<in> set (z # zs)" for b
      using row_bounds(2) [OF Cons.prems that] False z(1) by (auto simp: fits_def word_less_nat_alt)
    then have "List.find (fits sz h) (z # zs) = None" by (simp only: find_None_iff) blast
    with False show ?thesis by (subst malloc_find.simps) simp
  qed
qed

definition first_free :: "sys_heap \<Rightarrow> u32 list \<Rightarrow> u32" where
  "first_free h zs = (case List.find (\<lambda>b. h_used (heads h b) = 0) zs of Some b \<Rightarrow> b | None \<Rightarrow> heap_end h)"

lemma first_free_lfree [simp]: "first_free (h\<lparr>lfree := x\<rparr>) zs = first_free h zs"
  by (simp add: first_free_def cong: option.case_cong)

lemma lfree_advance_first:
  assumes "row (heads h) pv (lfree h) (heap_end h) zs"
  shows "lfree_advance h = Some (h\<lparr>lfree := first_free h zs\<rparr>)"
  using assms
proof (induction zs arbitrary: pv h)
  case Nil
  then show ?case by (subst lfree_advance.simps) (simp add: first_free_def)
next
  case (Cons z zs)
  have ne: "z \<noteq> heap_end h" using row_split(11) [of "heads h" pv "lfree h" "heap_end h" "[]" z zs] Cons.prems by simp
  have z: "z = lfree h" "row (heads h) z (h_next (heads h z)) (heap_end h) zs" using Cons.prems by simp_all
  have "lfree_advance (h\<lparr>lfree := h_next (heads h z)\<rparr>) = Some (h\<lparr>lfree := first_free h zs\<rparr>)"
    using Cons.IH [of "h\<lparr>lfree := h_next (heads h z)\<rparr>" z] z by simp
  then show ?case using z ne by (subst lfree_advance.simps) (auto simp: first_free_def)
qed

lemma first_free_props:
  assumes "row (heads h) pv a (heap_end h) zs"
  shows "first_free h zs = heap_end h \<or> first_free h zs \<in> set zs \<and> h_used (heads h (first_free h zs)) = 0"
    "b \<in> set zs \<Longrightarrow> b < first_free h zs \<Longrightarrow> h_used (heads h b) \<noteq> 0"
  using assms
proof (induction zs arbitrary: pv a)
  case (Cons z zs)
  {
    case 1
    then show ?case using Cons.IH(1) [of a "h_next (heads h a)"] by (auto simp: first_free_def)
  next
    case 2
    have r: "row (heads h) a (h_next (heads h a)) (heap_end h) zs" "z = a" using 2(3) by simp_all
    show ?case
    proof (cases "h_used (heads h z) = 0")
      case True
      then have "first_free h (z # zs) = z" by (simp add: first_free_def)
      with 2 row_bounds(2) [OF 2(3) 2(1)] r(2) show ?thesis by (auto simp: word_less_nat_alt)
    next
      case False
      then have "first_free h (z # zs) = first_free h zs" by (simp add: first_free_def)
      with False 2 Cons.IH(2) [OF _ _ r(1)] show ?thesis by auto
    qed
  }
qed (simp_all add: first_free_def)


text \<open>Taking a block: whole, or its beginning.\<close>

lemma count_used_fields:
  "count_used n h = h\<lparr>used_mem := used_mem h + n, max_mem := (if max_mem h < used_mem h + n then used_mem h + n else max_mem h)\<rparr>"
  by (cases h) (simp add: count_used_def)

lemma malloc_whole_layout:
  assumes "layout0 h (xs @ a # ys)" "h_used (heads h a) = 0"
  shows "layout0 (malloc_whole a h) (xs @ a # ys)"
    "alloc_of (malloc_whole a h) (xs @ a # ys) = alloc_of h xs @ (a, h_next (heads h a)) # alloc_of h ys"
    "\<And>b. h_used (heads (malloc_whole a h) b) = (if b = a then 1 else h_used (heads h b))"
    "same_memory h (malloc_whole a h)" "lfree (malloc_whole a h) = lfree h"
proof -
  note s = row_split [OF layout0D(1) [OF assms(1)]]
  let ?m = "(heads h a)\<lparr>h_used := 1\<rparr>" and ?u = "used_mem h + (h_next (heads h a) - a)"
  have w: "malloc_whole a h = h\<lparr>heads := (heads h)(a := ?m), used_mem := ?u,
      max_mem := (if max_mem h < ?u then ?u else max_mem h), lfree := lfree h\<rparr>"
    by (cases h) (simp add: malloc_whole_def count_used_fields upd_head_def)
  have m: "head_ok a ?m" using s(2) by (simp add: head_ok_def)
  show "layout0 (malloc_whole a h) (xs @ a # ys)"
    "alloc_of (malloc_whole a h) (xs @ a # ys) = alloc_of h xs @ (a, h_next (heads h a)) # alloc_of h ys"
    using layout0_mod [OF assms(1) m _ _ _ w] assms(2) by simp_all
  show "\<And>b. h_used (heads (malloc_whole a h) b) = (if b = a then 1 else h_used (heads h b))"
    "same_memory h (malloc_whole a h)" "lfree (malloc_whole a h) = lfree h"
    by (simp_all add: w same_memory_def)
qed

text \<open>The header at \<open>b2\<close> cuts block \<open>a\<close>, which is in use afterwards.\<close>

definition cut_heads :: "u32 \<Rightarrow> u32 \<Rightarrow> heap_mem \<Rightarrow> sys_heap \<Rightarrow> u32 \<Rightarrow> heap_mem" where
  "cut_heads a b2 m2 h =
     (let H1 = ((heads h)(b2 := m2))(a := (heads h a)\<lparr>h_next := b2, h_used := 1\<rparr>); n = h_next (heads h a)
      in if n = heap_end h then H1 else H1(n := (H1 n)\<lparr>h_prev := b2\<rparr>))"

lemma cut_layout:
  assumes "layout0 h (xs @ a # ys)" "unat a + 20 \<le> unat b2" "unat b2 + 20 \<le> unat (h_next (heads h a))" "unat b2 mod 4 = 0"
    and "h_magic m2 = HEAP_MAGIC" "h_used m2 = 0" "h_next m2 = h_next (heads h a)" "h_prev m2 = a"
    and "heads h' = cut_heads a b2 m2 h" "same_memory h h'"
    and "used_mem h' = used_mem h + (b2 - a) - (if h_used (heads h a) \<noteq> 0 then h_next (heads h a) - a else 0)"
  shows "layout0 h' (xs @ a # b2 # ys)" "alloc_of h' (xs @ a # b2 # ys) = alloc_of h xs @ (a, b2) # alloc_of h ys"
    "\<And>b. h_used (heads h' b) = (if b = a then 1 else if b = b2 then 0 else h_used (heads h b))"
proof -
  note l = layout0D [OF assms(1)]
  note s = row_split [OF l(1)]
  have ne: "b2 \<noteq> a" "b2 \<noteq> h_next (heads h a)" "b2 \<noteq> heap_end h" using assms(2,3) s(10) by auto
  define H1 where "H1 = ((heads h)(b2 := m2))(a := (heads h a)\<lparr>h_next := b2, h_used := 1\<rparr>)"
  have hd: "heads h' = (if h_next (heads h a) = heap_end h then H1
    else H1(h_next (heads h a) := (H1 (h_next (heads h a)))\<lparr>h_prev := b2\<rparr>))"
    by (simp add: assms(9) cut_heads_def H1_def Let_def)
  have row: "row (heads h') 0 0 (heap_end h) (xs @ a # b2 # ys)"
    by (rule row_cut [OF l(1) assms(2-8) _ H1_def hd]) simp
  show used: "h_used (heads h' b) = (if b = a then 1 else if b = b2 then 0 else h_used (heads h b))" for b
    using assms(6) by (simp add: hd H1_def)
  have nxt: "h_next (heads h' b) = (if b = a then b2 else if b = b2 then h_next (heads h a) else h_next (heads h b))" for b
    using assms(7) by (simp add: hd H1_def)
  have out: "b2 \<notin> set xs" "b2 \<notin> set ys" using row_split(7,8) [of "heads h'" 0 0 "heap_end h" "xs @ [a]" b2 ys] row by simp_all
  have "alloc_of h' xs = alloc_of h xs" "alloc_of h' ys = alloc_of h ys"
    by (rule alloc_of_cong; use s(7,8) out used nxt in auto)+
  then show al: "alloc_of h' (xs @ a # b2 # ys) = alloc_of h xs @ (a, b2) # alloc_of h ys"
    using ne(1) used nxt by simp
  have "used_mem h' = (\<Sum>(b, n) \<leftarrow> alloc_of h' (xs @ a # b2 # ys). n - b)"
    unfolding al using l(10) by (simp add: assms(11) algebra_simps)
  then show "layout0 h' (xs @ a # b2 # ys)"
    using layout0I [OF assms(1)] row assms(10) used nxt s(11) ne(3) l(8,9) by (simp add: same_memory_def)
qed

text \<open>The offset of the second part.\<close>

lemma cut_point:
  fixes a sz n :: u32
  assumes "unat a + unat sz + 32 < unat n" "unat a mod 4 = 0" "unat sz mod 4 = 0"
  shows "unat (a + 16 + sz) = unat a + 16 + unat sz" "unat (a + 16 + sz) mod 4 = 0"
proof -
  have lim: "unat n < 2 ^ 32" using unat_less_2_32 by simp
  have "unat (a + 16) = unat a + 16" using lim assms(1) unat_add_no_wrap [of a 16] by simp
  then show u: "unat (a + 16 + sz) = unat a + 16 + unat sz"
    using lim assms(1) unat_add_no_wrap [of "a + 16" sz] by simp
  show "unat (a + 16 + sz) mod 4 = 0" unfolding u using assms(2,3) by presburger
qed

lemma malloc_split_layout:
  assumes "layout0 h (xs @ a # ys)" "h_used (heads h a) = 0" "unat a + unat sz + 44 \<le> unat (h_next (heads h a))"
    and "4 \<le> unat sz" "unat sz mod 4 = 0"
  shows "layout0 (malloc_split sz a h) (xs @ a # (a + 16 + sz) # ys)"
    "alloc_of (malloc_split sz a h) (xs @ a # (a + 16 + sz) # ys) = alloc_of h xs @ (a, a + 16 + sz) # alloc_of h ys"
    "\<And>b. h_used (heads (malloc_split sz a h) b) = (if b = a then 1 else if b = a + 16 + sz then 0 else h_used (heads h b))"
    "same_memory h (malloc_split sz a h)" "lfree (malloc_split sz a h) = lfree h" "unat (a + 16 + sz) = unat a + 16 + unat sz"
proof -
  note l = layout0D [OF assms(1)]
  note s = row_split [OF l(1)]
  define b2 where "b2 = a + 16 + sz"
  have b2: "unat b2 = unat a + 16 + unat sz" "unat b2 mod 4 = 0"
    using cut_point [of a sz "h_next (heads h a)"] assms(3,5) s(2) by (simp_all add: b2_def head_ok_def)
  then show "unat (a + 16 + sz) = unat a + 16 + unat sz" by (simp add: b2_def)
  have ne: "b2 \<noteq> a" using b2 by auto
  define m2 where "m2 = rt_mem_setname ''    '' ((heads h b2)\<lparr>h_magic := HEAP_MAGIC, h_used := 0, h_next := h_next (heads h a), h_prev := a\<rparr>)"
  have m2: "h_magic m2 = HEAP_MAGIC" "h_used m2 = 0" "h_next m2 = h_next (heads h a)" "h_prev m2 = a"
    by (simp_all add: m2_def rt_mem_setname_def)
  have sp: "malloc_split sz a h = count_used (sz + 16) (h\<lparr>heads := cut_heads a b2 m2 h\<rparr>)"
    using ne m2(3) l(2) by (simp add: malloc_split_def upd_head_def Let_def b2_def [symmetric] cut_heads_def m2_def)
  show mem: "same_memory h (malloc_split sz a h)" "lfree (malloc_split sz a h) = lfree h"
    by (simp_all add: sp count_used_fields same_memory_def)
  have f: "heads (malloc_split sz a h) = cut_heads a b2 m2 h"
    "used_mem (malloc_split sz a h) = used_mem h + (b2 - a) - (if h_used (heads h a) \<noteq> 0 then h_next (heads h a) - a else 0)"
    using assms(2) by (simp_all add: sp count_used_fields b2_def)
  have lim: "unat a + 20 \<le> unat b2" "unat b2 + 20 \<le> unat (h_next (heads h a))" using b2(1) assms(3,4) by simp_all
  note c = cut_layout [OF assms(1) lim b2(2) m2 f(1) mem(1) f(2)]
  then show "layout0 (malloc_split sz a h) (xs @ a # (a + 16 + sz) # ys)"
    "alloc_of (malloc_split sz a h) (xs @ a # (a + 16 + sz) # ys) = alloc_of h xs @ (a, a + 16 + sz) # alloc_of h ys"
    "\<And>b. h_used (heads (malloc_split sz a h) b) = (if b = a then 1 else if b = a + 16 + sz then 0 else h_used (heads h b))"
    by (simp_all add: b2_def)
qed

lemma fits_room:
  assumes "layout0 h (xs @ a # ys)" "fits sz h a"
  shows "h_used (heads h a) = 0" "unat (h_next (heads h a) - (a + 16)) = unat (h_next (heads h a)) - unat a - 16"
    "unat a + 16 + unat sz \<le> unat (h_next (heads h a))"
proof -
  note s = row_split [OF layout0D(1) [OF assms(1)]]
  have "unat (a + 16) = unat a + 16"
    using s(9) unat_less_2_32 [of "h_next (heads h a)"] unat_add_no_wrap [of a 16] by simp
  then show d: "unat (h_next (heads h a) - (a + 16)) = unat (h_next (heads h a)) - unat a - 16"
    using s(9) by (simp add: unat_sub_u32)
  show "h_used (heads h a) = 0" "unat a + 16 + unat sz \<le> unat (h_next (heads h a))"
    using assms(2) d s(9) by (auto simp: fits_def word_le_nat_alt)
qed

lemma coalesced_parts:
  assumes "coalesced h (xs @ a # ys)"
  shows "coalesced h xs" "coalesced h ys" "h_used (heads h a) = 0 \<Longrightarrow> ys \<noteq> [] \<Longrightarrow> h_used (heads h (hd ys)) \<noteq> 0"
    "h_used (heads h a) = 0 \<Longrightarrow> xs \<noteq> [] \<Longrightarrow> h_used (heads h (last xs)) \<noteq> 0"
  using assms by (auto simp: coalesced_def successively_append_iff successively_Cons)

lemma coalesced_used:
  assumes "coalesced h xs" "coalesced h ys" "h_used (heads h a) \<noteq> 0"
  shows "coalesced h (xs @ a # ys)"
  using assms by (auto simp: coalesced_def successively_append_iff successively_Cons)

text \<open>The block list with block \<open>a\<close> taken, before the name is written and \<^verbatim>\<open>lfree\<close> moves on.\<close>

lemma malloc_body:
  assumes "layout h (xs @ a # ys)" "coalesced h (xs @ a # ys)" "fits sz h a" "12 \<le> unat sz" "unat sz mod 4 = 0"
    and "sz \<le> mem_size_aligned h"
    and "h1 = (if h_next (heads h a) - (a + 16) \<ge> sz + 16 + 12 then malloc_split sz a h else malloc_whole a h)"
  obtains zs e where "layout0 h1 (xs @ a # zs)" "alloc_of h1 (xs @ a # zs) = alloc_of h xs @ (a, e) # alloc_of h ys"
    "h_used (heads h1 a) = 1" "\<And>x. x \<in> set xs \<Longrightarrow> h_used (heads h1 x) = h_used (heads h x)" "coalesced h1 xs" "coalesced h1 zs"
    "same_memory h h1" "lfree h1 = lfree h" "unat a + 16 + unat sz \<le> unat e"
    "zs = ys \<and> e = h_next (heads h a) \<or> zs = e # ys \<and> h_used (heads h1 e) = 0"
    "\<And>y. y \<in> set ys \<Longrightarrow> h_used (heads h1 y) = h_used (heads h y)"
proof -
  note l = layoutD [OF assms(1)]
  note s = row_split [OF l(3)]
  note r = fits_room [OF l(1) assms(3)]
  note c = coalesced_parts [OF assms(2)]
  have "unat (sz + 16 + 12) = unat sz + 28"
    using layout0D(3,7) [OF l(1)] assms(6) unat_add_no_wrap [of sz 16] unat_add_no_wrap [of "sz + 16" 12] by (simp add: word_le_nat_alt)
  then have cond: "h_next (heads h a) - (a + 16) \<ge> sz + 16 + 12 \<longleftrightarrow> unat a + unat sz + 44 \<le> unat (h_next (heads h a))"
    using r(2) s(9) by (auto simp: word_le_nat_alt)
  show ?thesis
  proof (cases "unat a + unat sz + 44 \<le> unat (h_next (heads h a))")
    case True
    have sz: "4 \<le> unat sz" using assms(4) by simp
    note m = malloc_split_layout [OF l(1) r(1) True sz assms(5)]
    let ?b = "a + 16 + sz"
    have h1: "h1 = malloc_split sz a h" using assms(7) cond True by simp
    have out: "?b \<notin> set xs" "?b \<notin> set ys" "?b \<noteq> a"
      using row_split(7,8) [of "heads h1" 0 0 "heap_end h1" "xs @ [a]" ?b ys] layout0D(1) [OF m(1)] by (simp_all add: h1)
    have u: "h_used (heads h1 x) = h_used (heads h x)" if "x \<in> set xs \<or> x \<in> set ys" for x
      using that out s(7,8) m(3) by (auto simp: h1)
    have "coalesced h1 (?b # ys)"
      using c(2,3) r(1) u coalesced_cong [of ys h1 h] by (cases ys) (auto simp: coalesced_def)
    moreover have "coalesced h1 xs" using c(1) u coalesced_cong [of xs h1 h] by blast
    ultimately show ?thesis using that [of "?b # ys" ?b] m u out(3) by (auto simp: h1)
  next
    case False
    note m = malloc_whole_layout [OF l(1) r(1)]
    have h1: "h1 = malloc_whole a h" using assms(7) cond False by simp
    have u: "h_used (heads h1 x) = h_used (heads h x)" if "x \<in> set xs \<or> x \<in> set ys" for x
      using that s(7,8) m(3) by (auto simp: h1)
    have "coalesced h1 xs" "coalesced h1 ys"
      using c(1,2) u coalesced_cong [of xs h1 h] coalesced_cong [of ys h1 h] by blast+
    then show ?thesis using that [of ys "h_next (heads h a)"] m u r(3) by (auto simp: h1)
  qed
qed

lemma malloc_take_ok:
  assumes "layout h (xs @ a # ys)" "coalesced h (xs @ a # ys)" "fits sz h a" "12 \<le> unat sz" "unat sz mod 4 = 0"
    and "sz \<le> mem_size_aligned h"
  obtains h' zs e where "malloc_take name sz a h = Some h'" "layout h' (xs @ a # zs)" "coalesced h' (xs @ a # zs)"
    "alloc_of h' (xs @ a # zs) = alloc_of h xs @ (a, e) # alloc_of h ys" "unat a + 16 + unat sz \<le> unat e"
    "lowest h (xs @ a # ys) \<Longrightarrow> lowest h' (xs @ a # zs)" "same_memory h h'"
    "zs = ys \<and> e = h_next (heads h a) \<or> zs = e # ys \<and> h_used (heads h' e) = 0"
    "\<And>x. x \<in> set xs \<or> x \<in> set ys \<Longrightarrow> h_used (heads h' x) = h_used (heads h x)"
proof -
  define h1 where "h1 = (if h_next (heads h a) - (a + 16) \<ge> sz + 16 + 12 then malloc_split sz a h else malloc_whole a h)"
  obtain zs e where b: "layout0 h1 (xs @ a # zs)" "alloc_of h1 (xs @ a # zs) = alloc_of h xs @ (a, e) # alloc_of h ys"
    "h_used (heads h1 a) = 1" "\<And>x. x \<in> set xs \<Longrightarrow> h_used (heads h1 x) = h_used (heads h x)" "coalesced h1 xs" "coalesced h1 zs"
    "same_memory h h1" "lfree h1 = lfree h" "unat a + 16 + unat sz \<le> unat e"
    "zs = ys \<and> e = h_next (heads h a) \<or> zs = e # ys \<and> h_used (heads h1 e) = 0"
    "\<And>y. y \<in> set ys \<Longrightarrow> h_used (heads h1 y) = h_used (heads h y)"
    by (rule malloc_body [OF assms h1_def]) blast
  note s = row_split [OF layout0D(1) [OF b(1)]]
  let ?m = "rt_mem_setname (case name of Some s \<Rightarrow> s | None \<Rightarrow> ''NONE'') ((heads h1 a)\<lparr>h_magic := HEAP_MAGIC\<rparr>)"
  define L where "L = (if a = lfree h then first_free (upd_head a (\<lambda>_. ?m) h1) (a # zs) else lfree h)"
  define h' where "h' = h1\<lparr>heads := (heads h1)(a := ?m), used_mem := used_mem h1, max_mem := max_mem h1, lfree := L\<rparr>"
  have m: "head_ok a ?m" "h_next ?m = h_next (heads h1 a)" "h_prev ?m = h_prev (heads h1 a)" "h_used ?m = h_used (heads h1 a)"
    using s(2) by (simp_all add: head_ok_def rt_mem_setname_def)
  have l0: "layout0 h' (xs @ a # zs)" "alloc_of h' (xs @ a # zs) = alloc_of h1 (xs @ a # zs)"
    using layout0_mod [OF b(1) m(1-3) _ h'_def] m(2,4) b(3) by simp_all
  have used: "h_used (heads h' x) = h_used (heads h1 x)" for x using m(4) by (simp add: h'_def)
  have mem: "same_memory h h'" using b(7) by (simp add: h'_def same_memory_def)
  have ff: "first_free (upd_head a (\<lambda>_. ?m) h1) (a # zs) = first_free h' (a # zs)"
    by (simp add: first_free_def upd_head_def h'_def cong: option.case_cong)
  have row: "row (heads h') (last_or 0 xs) a (heap_end h') (a # zs)"
    using row_split [OF layout0D(1) [OF l0(1)]] by simp
  note fp = first_free_props [OF row]
  have lf: "L = heap_end h' \<or> L \<in> set (xs @ a # zs) \<and> h_used (heads h' L) = 0"
  proof (cases "a = lfree h")
    case True
    then show ?thesis using fp(1) ff by (auto simp: L_def)
  next
    case False
    have "lfree h = heap_end h \<or> lfree h \<in> set (xs @ ys) \<and> h_used (heads h (lfree h)) = 0"
      using layoutD(2) [OF assms(1)] False by auto
    then show ?thesis using False b(4,7,10,11) used mem by (auto simp: L_def same_memory_def)
  qed
  have take_eq: "malloc_take name sz a h = Some h'"
  proof (cases "a = lfree h")
    case True
    have "row (heads (upd_head a (\<lambda>_. ?m) h1)) (last_or 0 xs) (lfree (upd_head a (\<lambda>_. ?m) h1)) (heap_end (upd_head a (\<lambda>_. ?m) h1)) (a # zs)"
      using row True b(8) by (simp add: h'_def upd_head_def)
    from lfree_advance_first [OF this]
    have "lfree_advance (upd_head a (\<lambda>_. ?m) h1) = Some h'" using True by (simp add: h'_def upd_head_def L_def)
    moreover have "lfree h' = heap_end h' \<or> h_used (heads h' (lfree h')) = 0" using lf by (auto simp: h'_def)
    ultimately show ?thesis
      using True b(8) unfolding malloc_take_def Let_def h1_def [symmetric] by (simp add: upd_head_def)
  next
    case False
    then show ?thesis
      using b(8) unfolding malloc_take_def Let_def h1_def [symmetric] by (simp add: upd_head_def L_def h'_def)
  qed
  have "layout h' (xs @ a # zs)" using l0(1) lf by (auto simp: layout_def h'_def)
  moreover have "coalesced h' (xs @ a # zs)"
    using coalesced_used [OF b(5,6)] b(3) coalesced_cong [of "xs @ a # zs" h' h1] used by simp
  moreover have "lowest h' (xs @ a # zs)" if low: "lowest h (xs @ a # ys)"
    unfolding lowest_def
  proof (intro ballI impI)
    fix x assume x: "x \<in> set (xs @ a # zs)" "x < lfree h'"
    show "h_used (heads h' x) \<noteq> 0"
    proof (cases "x \<in> set (a # zs)")
      case True
      show ?thesis
      proof (cases "a = lfree h")
        case eq: True
        then show ?thesis using fp(2) [OF True] x(2) ff by (simp add: h'_def L_def)
      next
        case ne: False
        have "a \<le> x" using row_bounds(2) [OF row True] by (simp add: word_le_nat_alt)
        with x(2) ne have "a < lfree h" by (simp add: h'_def L_def)
        moreover have "h_used (heads h a) = 0" using fits_room(1) [OF layoutD(1) [OF assms(1)] assms(3)] .
        ultimately show ?thesis using low by (simp add: lowest_def)
      qed
    next
      case False
      then have xs: "x \<in> set xs" using x(1) by simp
      have "x < lfree h"
      proof (cases "a = lfree h")
        case True
        then show ?thesis using row_split(5) [OF layout0D(1) [OF l0(1)] xs] row_bounds(2) [OF row_split(1) [OF layout0D(1) [OF l0(1)]] xs]
          by (simp add: word_less_nat_alt)
      qed (use x(2) in \<open>simp add: h'_def L_def\<close>)
      then show ?thesis using low xs b(4) used by (simp add: lowest_def)
    qed
  qed
  ultimately show ?thesis using that [OF take_eq] l0(2) b mem used by auto
qed

section \<open>Block lists and regions of a heap\<close>

fun heap_walk :: "nat \<Rightarrow> (u32 \<Rightarrow> heap_mem) \<Rightarrow> u32 \<Rightarrow> u32 \<Rightarrow> u32 list" where
  "heap_walk 0 H a e = []"
| "heap_walk (Suc n) H a e = (if a = e then [] else a # heap_walk n H (h_next (H a)) e)"

definition heap_blocks :: "sys_heap \<Rightarrow> u32 list" where
  "heap_blocks h = heap_walk (unat (heap_end h)) (heads h) 0 (heap_end h)"

definition heap_ok :: "sys_heap \<Rightarrow> bool" where
  "heap_ok h \<longleftrightarrow> layout h (heap_blocks h) \<and> coalesced h (heap_blocks h)"

definition lfree_lowest :: "sys_heap \<Rightarrow> bool" where
  "lfree_lowest h \<longleftrightarrow> lowest h (heap_blocks h)"

text \<open>The regions handed out: address and length.\<close>

definition region :: "sys_heap \<Rightarrow> u32 \<times> u32 \<Rightarrow> u32 \<times> u32" where
  "region h x = (case x of (b, e) \<Rightarrow> (heap_ptr h + b + 16, e - b - 16))"

definition regions :: "sys_heap \<Rightarrow> (u32 \<times> u32) list" where
  "regions h = map (region h) (alloc_of h (heap_blocks h))"

lemma heap_walk_row: "row H pv a e bs \<Longrightarrow> length bs \<le> n \<Longrightarrow> heap_walk n H a e = bs"
proof (induction bs arbitrary: pv a n)
  case Nil
  then show ?case by (cases n) simp_all
next
  case (Cons b bs)
  have "a \<noteq> e" using row_split(11) [of H pv a e "[]" b bs] Cons.prems(1) by simp
  with Cons show ?case by (cases n) auto
qed

lemma row_length: "row H pv a e bs \<Longrightarrow> unat a + 20 * length bs \<le> unat e"
proof (induction bs arbitrary: pv a)
  case (Cons b bs)
  then show ?case using Cons.IH [of a "h_next (H a)"] by (auto simp: head_ok_def)
qed simp

lemma heap_okI:
  assumes "layout h bs" "coalesced h bs"
  shows "heap_blocks h = bs" "heap_ok h" "lfree_lowest h = lowest h bs"
proof -
  have r: "row (heads h) 0 0 (heap_end h) bs" using assms(1) by (rule layoutD)
  show b: "heap_blocks h = bs"
    unfolding heap_blocks_def by (rule heap_walk_row [OF r]) (use row_length [OF r] in simp)
  with assms show "heap_ok h" "lfree_lowest h = lowest h bs" by (simp_all add: heap_ok_def lfree_lowest_def)
qed

lemma heap_okD: "heap_ok h \<Longrightarrow> layout h (heap_blocks h)" "heap_ok h \<Longrightarrow> coalesced h (heap_blocks h)"
  by (simp_all add: heap_ok_def)

lemma row_suffix:
  assumes "row H pv a e bs" "p = e \<or> p \<in> set bs"
  obtains us zs pv' where "bs = us @ zs" "row H pv' p e zs"
proof (cases "p \<in> set bs")
  case True
  then obtain us vs where "bs = us @ p # vs" by (meson split_list)
  with that [of us "p # vs" "last_or pv us"] row_split [of H pv a e us p vs] assms(1) show ?thesis by simp
next
  case False
  with that [of bs "[]" pv] assms(2) show ?thesis by simp
qed

text \<open>A region lies in the heap, on an aligned address, behind its header.\<close>

lemma region_nat:
  assumes "layout0 h bs" "(b, e) \<in> set (alloc_of h bs)" "region h (b, e) = (p, n)"
  shows "unat p = unat (heap_ptr h) + unat b + 16" "unat n = unat e - unat b - 16" "unat b + 20 \<le> unat e" "unat e \<le> unat (heap_end h)"
    "unat p mod 4 = 0" "e = h_next (heads h b)" "b \<in> set bs" "h_used (heads h b) \<noteq> 0"
proof -
  show b: "e = h_next (heads h b)" "b \<in> set bs" "h_used (heads h b) \<noteq> 0" using assms(2) by (auto simp: alloc_of_def)
  then obtain xs ys where bs: "bs = xs @ b # ys" by (meson split_list)
  note s = row_split [of "heads h" 0 0 "heap_end h" xs b ys]
  have r: "row (heads h) 0 0 (heap_end h) (xs @ b # ys)" using layout0D(1) [OF assms(1)] bs by simp
  note ad = block_addr [of h xs b ys p]
  have p: "p = heap_ptr h + b + 16" "n = e - b - 16" using assms(3) by (simp_all add: region_def)
  show "unat p = unat (heap_ptr h) + unat b + 16" "unat p mod 4 = 0"
    using ad(1,3) assms(1) bs p(1) aligned_and [of p] by simp_all
  show le: "unat b + 20 \<le> unat e" "unat e \<le> unat (heap_end h)" using s(9,10) [OF r] b(1) by simp_all
  have "unat (e - b) = unat e - unat b" using le by (simp add: unat_sub_u32)
  then show "unat n = unat e - unat b - 16" using le p(2) by (simp add: unat_sub_u32)
qed

lemma alloc_of_row:
  assumes "row (heads h) pv a e bs" "(b, x) \<in> set (alloc_of h bs)" "(c, y) \<in> set (alloc_of h bs)" "(b, x) \<noteq> (c, y)"
  shows "unat x \<le> unat c \<or> unat y \<le> unat b"
  using assms
proof (induction bs arbitrary: pv a)
  case (Cons d bs)
  have r: "d = a" "row (heads h) a (h_next (heads h a)) e bs" using Cons.prems(1) by simp_all
  have "unat (h_next (heads h a)) \<le> unat c" if "(c, y) \<in> set (alloc_of h bs)" for c y
    using row_bounds(2) [OF r(2), of c] that by (auto simp: alloc_of_def)
  with Cons r show ?case by (auto split: if_splits)
qed simp

lemma regions_apart:
  assumes "layout h bs" "coalesced h bs" "(p, n) \<in> set (regions h)" "(q, m) \<in> set (regions h)" "(p, n) \<noteq> (q, m)"
  shows "unat p + unat n + 16 \<le> unat q \<or> unat q + unat m + 16 \<le> unat p"
proof -
  note o = heap_okI [OF assms(1,2)] and l = layoutD [OF assms(1)]
  obtain b x where b: "(b, x) \<in> set (alloc_of h bs)" "region h (b, x) = (p, n)" using assms(3) o(1) by (auto simp: regions_def)
  obtain c y where c: "(c, y) \<in> set (alloc_of h bs)" "region h (c, y) = (q, m)" using assms(4) o(1) by (auto simp: regions_def)
  have "(b, x) \<noteq> (c, y)" using b(2) c(2) assms(5) by metis
  then have "unat x \<le> unat c \<or> unat y \<le> unat b" by (rule alloc_of_row [OF l(3) b(1) c(1)])
  then show ?thesis using region_nat [OF l(1) b] region_nat [OF l(1) c] by auto
qed


section \<open>The calls\<close>

lemma unat_align:
  shows "unat (RT_ALIGN sz 4) mod 4 = 0" "unat sz + 3 < 2 ^ 32 \<Longrightarrow> unat sz \<le> unat (RT_ALIGN sz 4)"
    "unat sz + 3 < 2 ^ 32 \<Longrightarrow> unat (RT_ALIGN sz 4) = (unat sz + 3) div 4 * 4"
proof -
  define w where "w = sz + 3"
  have d: "(w AND NOT 3) + (w AND 3) = w"
    using disjunctive_add_eq_or [of "w AND NOT 3" "w AND 3"] by (simp add: and.left_commute and.assoc bit_eq_iff bit_simps) blast
  have "w AND 3 = w mod 4"
    using take_bit_eq_mask [of 2 w] take_bit_eq_mod [of 2 w] by (simp add: mask_eq_exp_minus_1)
  with d have "w AND NOT 3 = w - w mod 4" by (metis add_diff_cancel)
  moreover have "RT_ALIGN sz 4 = w AND NOT 3" by (simp add: RT_ALIGN_def w_def add.commute)
  ultimately have u: "unat (RT_ALIGN sz 4) = unat w - unat w mod 4"
    by (simp add: unat_sub_u32 unat_mod)
  then have v: "unat (RT_ALIGN sz 4) = unat w div 4 * 4" by (simp add: minus_mod_eq_div_mult)
  then show "unat (RT_ALIGN sz 4) mod 4 = 0" by simp
  show "unat sz \<le> unat (RT_ALIGN sz 4)" "unat (RT_ALIGN sz 4) = (unat sz + 3) div 4 * 4" if "unat sz + 3 < 2 ^ 32"
  proof -
    have "unat w = unat sz + 3" using that unat_add_no_wrap [of sz 3] by (simp add: w_def)
    with v show "unat (RT_ALIGN sz 4) = (unat sz + 3) div 4 * 4" "unat sz \<le> unat (RT_ALIGN sz 4)" by simp_all
  qed
qed

text \<open>The size of the block that a request needs.\<close>

definition need :: "u32 \<Rightarrow> u32" where
  "need sz = (if RT_ALIGN sz 4 < 12 then 12 else RT_ALIGN sz 4)"

lemma need_props: "12 \<le> unat (need sz)" "unat (need sz) mod 4 = 0"
  "RT_ALIGN sz 4 \<le> mem_size_aligned h \<Longrightarrow> layout0 h bs \<Longrightarrow> need sz \<le> mem_size_aligned h"
  "unat sz + 3 < 2 ^ 32 \<Longrightarrow> unat sz \<le> unat (need sz)"
  using unat_align [of sz] layout0D(5) [of h bs] by (auto simp: need_def word_less_nat_alt word_le_nat_alt)

lemma rt_malloc_null:
  assumes "layout h bs" "RT_ALIGN sz 4 \<le> mem_size_aligned h" "\<forall>b \<in> set bs. \<not> fits (need sz) h b"
  shows "rt_malloc False name sz h = Some (None, h)"
proof -
  note l = layoutD [OF assms(1)]
  obtain us zs pv where z: "bs = us @ zs" "row (heads h) pv (lfree h) (heap_end h) zs"
    using row_suffix [OF l(3), of "lfree h"] l(2) by blast
  have "malloc_find (need sz) (lfree h) h = Some (List.find (fits (need sz) h) zs)"
    by (rule malloc_find_first [OF l(1) z(2) need_props(3) [OF assms(2) l(1)]])
  moreover have "List.find (fits (need sz) h) zs = None" using assms(3) z(1) by (simp add: find_None_iff)
  ultimately show ?thesis using assms(2) by (simp add: rt_malloc_def need_def Let_def cong: if_cong)
qed


lemma rt_malloc_block:
  assumes "layout h bs" "coalesced h bs" "sz \<noteq> 0" "RT_ALIGN sz 4 \<le> mem_size_aligned h" "b \<in> set bs" "fits (need sz) h b"
    and "lowest h bs \<or> b \<ge> lfree h"
  obtains xs a ys zs e h' where "bs = xs @ a # ys" "fits (need sz) h a"
    "rt_malloc False name sz h = Some (Some (heap_ptr h + a + 16), h')" "layout h' (xs @ a # zs)" "coalesced h' (xs @ a # zs)"
    "alloc_of h' (xs @ a # zs) = alloc_of h xs @ (a, e) # alloc_of h ys" "unat a + 16 + unat (need sz) \<le> unat e"
    "lowest h bs \<Longrightarrow> lowest h' (xs @ a # zs)" "same_memory h h'"
    "zs = ys \<and> e = h_next (heads h a) \<or> zs = e # ys \<and> h_used (heads h' e) = 0"
    "\<And>x. x \<in> set xs \<or> x \<in> set ys \<Longrightarrow> h_used (heads h' x) = h_used (heads h x)"
proof -
  note l = layoutD [OF assms(1)]
  note n = need_props(1,2) [of sz] need_props(3) [OF assms(4) l(1)]
  obtain us vs pv where z: "bs = us @ vs" "row (heads h) pv (lfree h) (heap_end h) vs"
    using row_suffix [OF l(3), of "lfree h"] l(2) by blast
  have find: "malloc_find (need sz) (lfree h) h = Some (List.find (fits (need sz) h) vs)"
    by (rule malloc_find_first [OF l(1) z(2) n(3)])
  have "b \<in> set vs"
  proof (rule ccontr)
    assume "b \<notin> set vs"
    then have us: "b \<in> set us" using assms(5) z(1) by simp
    obtain m where m: "row (heads h) 0 0 m us" "row (heads h) (last_or 0 us) m (heap_end h) vs"
      using l(3) z(1) by (auto simp: row_append)
    have "m = lfree h" using m(2) z(2) by (cases vs) simp_all
    then have "b < lfree h" using row_bounds(2) [OF m(1) us] by (simp add: word_less_nat_alt)
    with assms(5-7) show False by (auto simp: lowest_def fits_def)
  qed
  then obtain a where a: "List.find (fits (need sz) h) vs = Some a"
    using assms(6) by (cases "List.find (fits (need sz) h) vs") (auto simp: find_None_iff)
  then have "a \<in> set bs" "fits (need sz) h a" using z(1) by (auto simp: find_Some_iff)
  then obtain xs ys where bs: "bs = xs @ a # ys" by (meson split_list)
  obtain h' zs e where t: "malloc_take name (need sz) a h = Some h'" "layout h' (xs @ a # zs)" "coalesced h' (xs @ a # zs)"
    "alloc_of h' (xs @ a # zs) = alloc_of h xs @ (a, e) # alloc_of h ys" "unat a + 16 + unat (need sz) \<le> unat e"
    "lowest h (xs @ a # ys) \<Longrightarrow> lowest h' (xs @ a # zs)" "same_memory h h'"
    "zs = ys \<and> e = h_next (heads h a) \<or> zs = e # ys \<and> h_used (heads h' e) = 0"
    "\<And>x. x \<in> set xs \<or> x \<in> set ys \<Longrightarrow> h_used (heads h' x) = h_used (heads h x)"
    by (rule malloc_take_ok [OF assms(1) [unfolded bs] assms(2) [unfolded bs] \<open>fits (need sz) h a\<close> n]) blast
  let ?r = "heap_ptr h + a + 16"
  note l0 = layoutD(1) [OF t(2)]
  have mem: "heap_ptr h' = heap_ptr h" "heap_end h' = heap_end h" using t(7) by (simp_all add: same_memory_def)
  have ad: "unat ?r = unat (heap_ptr h) + unat a + 16" "?r AND 3 = 0" "unat (heap_ptr h + heap_end h) = unat (heap_ptr h) + unat (heap_end h)"
    using block_addr(1,3,6) [OF l0, of ?r] mem by simp_all
  have "(a, e) \<in> set (alloc_of h' (xs @ a # zs))" unfolding t(4) by simp
  from region_nat(4) [OF l0 this] have e: "unat e \<le> unat (heap_end h)" using mem by (cases "region h' (a, e)") simp
  have nw: "unat (?r + need sz) = unat ?r + unat (need sz)"
    using ad(1) t(5) e layout0D(7) [OF l(1)] by (intro unat_add_no_wrap) simp
  have asserts: "heap_ptr h + a + 16 + need sz \<le> heap_ptr h + heap_end h" "(heap_ptr h + a + 16) mod 4 = 0" "(heap_ptr h + a) AND 3 = 0"
  proof -
    show "?r + need sz \<le> heap_ptr h + heap_end h" using nw ad(1,3) t(5) e by (simp add: word_le_nat_alt)
    have m4: "unat ?r mod 4 = 0" using ad(2) unfolding aligned_and .
    then show "?r mod 4 = 0" by (simp add: word_unat_eq_iff unat_mod)
    have "unat (heap_ptr h + a) = unat (heap_ptr h) + unat a"
      using layout0D(7) [OF l(1)] ad(1) e t(5) by (intro unat_add_no_wrap) simp
    moreover have "unat (heap_ptr h) + unat a = unat ?r - 16" using ad(1) by simp
    ultimately have "unat (heap_ptr h + a) mod 4 = 0" using m4 ad(1) by presburger
    then show "(heap_ptr h + a) AND 3 = 0" unfolding aligned_and .
  qed
  have nd: "(if RT_ALIGN sz 4 < 12 then 12 else RT_ALIGN sz 4) = need sz" by (simp add: need_def)
  have "rt_malloc False name sz h = Some (Some ?r, h')"
    using assms(3,4) find a t(1) asserts mem unfolding rt_malloc_def Let_def nd by simp
  from that [OF bs \<open>fits (need sz) h a\<close> this t(2-5) _ t(7-9)] t(6) bs show ?thesis by blast
qed

text \<open>Splitting the row at the block of a region.\<close>

lemma region_block:
  assumes "layout h bs" "coalesced h bs" "(p, n) \<in> set (regions h)"
  obtains xs b ys where "bs = xs @ b # ys" "p = heap_ptr h + b + 16" "n = h_next (heads h b) - b - 16" "h_used (heads h b) \<noteq> 0"
proof -
  obtain b where b: "b \<in> set bs" "h_used (heads h b) \<noteq> 0" "(p, n) = region h (b, h_next (heads h b))"
    using assms(3) heap_okI(1) [OF assms(1,2)] by (auto simp: regions_def alloc_of_def)
  then obtain xs ys where "bs = xs @ b # ys" by (meson split_list)
  with that b show ?thesis by (auto simp: region_def)
qed


text \<open>Shrinking a block in place. \<^verbatim>\<open>lfree\<close> is still free, but may no longer be the lowest.\<close>

lemma realloc_split_ok:
  assumes "layout h (xs @ a # ys)" "coalesced h (xs @ a # ys)" "h_used (heads h a) \<noteq> 0"
    and "unat a + unat sz + 44 < unat (h_next (heads h a))" "4 \<le> unat sz" "unat sz mod 4 = 0"
  obtains h' bs' where "realloc_split sz (h_next (heads h a) - a - 16) a h = Some h'" "layout h' bs'" "coalesced h' bs'"
    "alloc_of h' bs' = alloc_of h xs @ (a, a + 16 + sz) # alloc_of h ys" "same_memory h h'"
    "a + 16 + sz \<in> set bs'" "h_used (heads h' (a + 16 + sz)) = 0"
    "ys = [] \<or> h_used (heads h (hd ys)) \<noteq> 0 \<Longrightarrow> lfree h' = lfree h"
proof -
  note l = layoutD [OF assms(1)]
  note s = row_split [OF l(3)]
  define b2 where "b2 = a + 16 + sz"
  have b2: "unat b2 = unat a + 16 + unat sz" "unat b2 mod 4 = 0"
    using cut_point [of a sz "h_next (heads h a)"] assms(4,6) s(2) by (simp_all add: b2_def head_ok_def)
  have ne: "b2 \<noteq> a" using b2 by auto
  define m2 where "m2 = rt_mem_setname ''    '' ((heads h b2)\<lparr>h_magic := HEAP_MAGIC, h_used := 0, h_next := h_next (heads h a), h_prev := a\<rparr>)"
  have m2: "h_magic m2 = HEAP_MAGIC" "h_used m2 = 0" "h_next m2 = h_next (heads h a)" "h_prev m2 = a"
    by (simp_all add: m2_def rt_mem_setname_def)
  have u1: "h_used (heads h a) = 1" using assms(3) head_okD [OF s(2)] by simp
  define h3 where "h3 = h\<lparr>used_mem := used_mem h - (h_next (heads h a) - a - 16 - sz), heads := cut_heads a b2 m2 h\<rparr>"
  have id: "(heads h a)\<lparr>h_next := b2, h_used := 1\<rparr> = (heads h a)\<lparr>h_next := b2\<rparr>" using u1 by (cases "heads h a") simp
  have sp: "realloc_split sz (h_next (heads h a) - a - 16) a h = plug_holes b2 h3"
    using ne m2(3) layout0D(2) [OF l(1)]
    by (simp add: realloc_split_def upd_head_def Let_def b2_def [symmetric] h3_def cut_heads_def m2_def id)
  have mem: "same_memory h h3" by (simp add: h3_def same_memory_def)
  have f: "heads h3 = cut_heads a b2 m2 h"
    "used_mem h3 = used_mem h + (b2 - a) - (if h_used (heads h a) \<noteq> 0 then h_next (heads h a) - a else 0)"
    using assms(3) by (simp_all add: h3_def b2_def)
  have lim: "unat a + 20 \<le> unat b2" "unat b2 + 20 \<le> unat (h_next (heads h a))" using b2(1) assms(4,5) by simp_all
  note c = cut_layout [OF l(1) lim b2(2) m2 f(1) mem f(2)]
  note p = row_split [of "heads h3" 0 0 "heap_end h3" "xs @ [a]" b2 ys]
  have out: "b2 \<notin> set xs" "b2 \<notin> set ys" using p(7,8) layout0D(1) [OF c(1)] by simp_all
  have used: "h_used (heads h3 x) = h_used (heads h x)" if "x \<in> set xs \<or> x \<in> set ys \<or> x = a" for x
    using that out ne s(7,8) c(3) u1 by auto
  have lay: "layout h3 ((xs @ [a]) @ b2 # ys)"
    using c(1) l(2) assms(3) used mem by (auto simp: layout_def h3_def)
  have "coalesced h3 (xs @ [a])" "coalesced h3 ys"
    using coalesced_used [OF coalesced_parts(1) [OF assms(2)], of "[]" a] assms(3) coalesced_cong [of "xs @ [a]" h3 h] used
      coalesced_parts(2) [OF assms(2)] coalesced_cong [of ys h3 h] by (auto simp: coalesced_def)
  note co = this
  have "h_used (heads h3 b2) = 0" using c(3) ne by simp
  from plug_holes_layout [OF lay this co]
  obtain h' where h': "plug_holes b2 h3 = Some h'" "layout h' (plugged h3 (xs @ [a]) b2 ys)" "coalesced h' (plugged h3 (xs @ [a]) b2 ys)"
    "alloc_of h' (plugged h3 (xs @ [a]) b2 ys) = alloc_of h3 ((xs @ [a]) @ b2 # ys)" "same_memory h3 h'"
    "\<And>b. h_used (heads h' b) = h_used (heads h3 b)"
    "lfree h3 = heap_end h3 \<or> lfree h3 \<in> set (plugged h3 (xs @ [a]) b2 ys) \<Longrightarrow> lfree h' = lfree h3" by blast
  have pl: "plugged h3 (xs @ [a]) b2 ys = xs @ a # b2 # plug_after h3 ys"
    using used [of a] assms(3) by (simp add: plugged_def)
  have "lfree h' = lfree h" if "ys = [] \<or> h_used (heads h (hd ys)) \<noteq> 0"
  proof -
    have "plug_after h3 ys = ys" using that used [of "hd ys"] by (cases ys) (auto simp: plug_after_def)
    then show ?thesis using h'(7) l(2) pl mem by (auto simp: h3_def)
  qed
  with that [OF _ h'(2,3)] h'(1,4-6) sp c(2,3) ne pl same_memory_trans [OF mem] show ?thesis by (auto simp: b2_def)
qed

section \<open>The calls on regions\<close>

lemma region_same: "same_memory h h' \<Longrightarrow> region h' = region h"
  by (auto simp: same_memory_def region_def)

lemma used_mem_insert:
  assumes "layout0 h bs" "layout0 h' bs'" "alloc_of h' bs' = us @ (a, e) # vs" "alloc_of h bs = us @ vs"
  shows "used_mem h' = used_mem h + (e - a - 16) + 16"
  using layout0D(10) [OF assms(1)] layout0D(10) [OF assms(2)] unfolding assms(3,4) by (simp add: algebra_simps)

lemma malloc_on_regions:
  assumes "heap_ok h" "rt_malloc False name sz h = Some (Some p, h')"
  shows "heap_ok h'" "same_memory h h'" "lfree_lowest h \<Longrightarrow> lfree_lowest h'"
    "\<exists>us n vs. regions h = us @ vs \<and> regions h' = us @ (p, n) # vs \<and> unat (need sz) \<le> unat n \<and> used_mem h' = used_mem h + n + 16"
proof -
  note ok = heap_okD [OF assms(1)] and l = layoutD [OF heap_okD(1) [OF assms(1)]]
  have sz: "sz \<noteq> 0" "RT_ALIGN sz 4 \<le> mem_size_aligned h"
    using assms(2) by (auto simp: rt_malloc_def Let_def not_less split: if_splits)
  obtain us vs pv where z: "heap_blocks h = us @ vs" "row (heads h) pv (lfree h) (heap_end h) vs"
    using row_suffix [OF l(3), of "lfree h"] l(2) by blast
  have find: "malloc_find (need sz) (lfree h) h = Some (List.find (fits (need sz) h) vs)"
    by (rule malloc_find_first [OF l(1) z(2) need_props(3) [OF sz(2) l(1)]])
  have nd: "(if RT_ALIGN sz 4 < 12 then 12 else RT_ALIGN sz 4) = need sz" by (simp add: need_def)
  have "List.find (fits (need sz) h) vs \<noteq> None"
    using assms(2) sz find unfolding rt_malloc_def Let_def nd by (cases "List.find (fits (need sz) h) vs") (auto dest: leD split: if_splits)
  then obtain b where b: "List.find (fits (need sz) h) vs = Some b" by blast
  then have b': "b \<in> set vs" "fits (need sz) h b" by (auto simp: find_Some_iff)
  have "b \<ge> lfree h" using row_bounds(2) [OF z(2) b'(1)] by (simp add: word_le_nat_alt)
  moreover have "b \<in> set (heap_blocks h)" using b'(1) z(1) by simp
  ultimately obtain xs a ys zs e h1 where t: "heap_blocks h = xs @ a # ys" "fits (need sz) h a"
    "rt_malloc False name sz h = Some (Some (heap_ptr h + a + 16), h1)" "layout h1 (xs @ a # zs)" "coalesced h1 (xs @ a # zs)"
    "alloc_of h1 (xs @ a # zs) = alloc_of h xs @ (a, e) # alloc_of h ys" "unat a + 16 + unat (need sz) \<le> unat e"
    "lowest h (heap_blocks h) \<Longrightarrow> lowest h1 (xs @ a # zs)" "same_memory h h1"
    using rt_malloc_block [OF ok sz _ b'(2), of name] by metis
  have h1: "h1 = h'" "p = heap_ptr h + a + 16" using t(3) assms(2) by simp_all
  note o = heap_okI [OF t(4,5)]
  show "heap_ok h'" "same_memory h h'" "lfree_lowest h \<Longrightarrow> lfree_lowest h'"
    using o t(8,9) h1 by (simp_all add: lfree_lowest_def)
  have free: "h_used (heads h a) = 0" using t(2) by (simp add: fits_def)
  have al: "alloc_of h (heap_blocks h) = alloc_of h xs @ alloc_of h ys" using free by (simp add: t(1))
  have rg: "region h (a, e) = (p, e - a - 16)" using h1(2) by (simp add: region_def)
  have "(a, e) \<in> set (alloc_of h1 (xs @ a # zs))" unfolding t(6) by simp
  from region_nat(2) [OF layoutD(1) [OF t(4)] this] rg region_same [OF t(9)] t(7)
  have "unat (need sz) \<le> unat (e - a - 16)" by auto
  moreover have "used_mem h' = used_mem h + (e - a - 16) + 16"
    using used_mem_insert [OF l(1) layoutD(1) [OF t(4)] t(6) al] h1(1) by simp
  moreover have "regions h = map (region h) (alloc_of h xs) @ map (region h) (alloc_of h ys)"
    "regions h' = map (region h) (alloc_of h xs) @ (p, e - a - 16) # map (region h) (alloc_of h ys)"
    using al o(1) t(6) region_same [OF t(9)] h1(1) rg by (simp_all add: regions_def)
  ultimately show "\<exists>us n vs. regions h = us @ vs \<and> regions h' = us @ (p, n) # vs \<and> unat (need sz) \<le> unat n \<and>
      used_mem h' = used_mem h + n + 16" by blast
qed

lemma malloc_total:
  assumes "heap_ok h"
  shows "\<exists>r h'. rt_malloc False name sz h = Some (r, h') \<and> (r = None \<longrightarrow> h' = h) \<and>
    (r = None \<longrightarrow> lfree_lowest h \<longrightarrow> sz = 0 \<or> RT_ALIGN sz 4 > mem_size_aligned h \<or> (\<forall>b \<in> set (heap_blocks h). \<not> fits (need sz) h b))"
proof -
  note ok = heap_okD [OF assms] and l = layoutD [OF heap_okD(1) [OF assms]]
  consider (none) "sz = 0 \<or> RT_ALIGN sz 4 > mem_size_aligned h"
    | (empty) "sz \<noteq> 0" "RT_ALIGN sz 4 \<le> mem_size_aligned h" "\<forall>b \<in> set (heap_blocks h). \<not> fits (need sz) h b"
    | (above) b where "sz \<noteq> 0" "RT_ALIGN sz 4 \<le> mem_size_aligned h" "b \<in> set (heap_blocks h)" "fits (need sz) h b"
        "lfree_lowest h \<or> b \<ge> lfree h"
    | (below) "sz \<noteq> 0" "RT_ALIGN sz 4 \<le> mem_size_aligned h" "\<not> lfree_lowest h" "\<forall>b \<in> set (heap_blocks h). fits (need sz) h b \<longrightarrow> b < lfree h"
    by (meson not_less)
  then show ?thesis
  proof cases
    case none
    then show ?thesis by (auto simp: rt_malloc_def Let_def)
  next
    case empty
    then show ?thesis using rt_malloc_null [OF ok(1)] by blast
  next
    case (above b)
    then have "lowest h (heap_blocks h) \<or> b \<ge> lfree h" by (simp add: lfree_lowest_def)
    from rt_malloc_block [OF ok above(1-4) this] show ?thesis by blast
  next
    case below
    obtain us vs pv where z: "heap_blocks h = us @ vs" "row (heads h) pv (lfree h) (heap_end h) vs"
      using row_suffix [OF l(3), of "lfree h"] l(2) by blast
    have find: "malloc_find (need sz) (lfree h) h = Some (List.find (fits (need sz) h) vs)"
      by (rule malloc_find_first [OF l(1) z(2) need_props(3) [OF below(2) l(1)]])
    have "\<not> fits (need sz) h b" if "b \<in> set vs" for b
      using row_bounds(2) [OF z(2) that] below(4) z(1) that by (auto simp: word_less_nat_alt)
    then have "List.find (fits (need sz) h) vs = None" by (simp add: find_None_iff)
    moreover have nd: "(if RT_ALIGN sz 4 < 12 then 12 else RT_ALIGN sz 4) = need sz" by (simp add: need_def)
    ultimately show ?thesis using below(1-3) find unfolding rt_malloc_def Let_def nd by auto
  qed
qed

lemma free_on_regions:
  assumes "heap_ok h" "(p, n) \<in> set (regions h)"
  obtains h' where "rt_free False (Some p) h = Some h'" "heap_ok h'" "same_memory h h'" "lfree_lowest h \<Longrightarrow> lfree_lowest h'"
    "regions h' = remove1 (p, n) (regions h)" "used_mem h = used_mem h' + n + 16"
proof -
  note ok = heap_okD [OF assms(1)] and l = layoutD [OF heap_okD(1) [OF assms(1)]]
  obtain xs b ys where b: "heap_blocks h = xs @ b # ys" "p = heap_ptr h + b + 16" "n = h_next (heads h b) - b - 16" "h_used (heads h b) \<noteq> 0"
    by (rule region_block [OF ok assms(2)])
  obtain h' where h': "rt_free False (Some (heap_ptr h + b + 16)) h = Some h'" "layout h' (plugged h xs b ys)"
    "coalesced h' (plugged h xs b ys)" "alloc_of h' (plugged h xs b ys) = alloc_of h xs @ alloc_of h ys"
    "lowest h (xs @ b # ys) \<Longrightarrow> lowest h' (plugged h xs b ys)" "same_memory h h'"
    using rt_free_ok [OF ok(1) [unfolded b(1)] ok(2) [unfolded b(1)] b(4)] by blast
  note o = heap_okI [OF h'(2,3)]
  have al: "alloc_of h (heap_blocks h) = alloc_of h xs @ (b, h_next (heads h b)) # alloc_of h ys" using b(1,4) by simp
  have rg: "region h (b, h_next (heads h b)) = (p, n)" using b(2,3) by (simp add: region_def)
  have "(p, n) \<notin> set (map (region h) (alloc_of h xs))"
  proof
    assume "(p, n) \<in> set (map (region h) (alloc_of h xs))"
    then obtain c where c: "c \<in> set xs" "p = heap_ptr h + c + 16" by (auto simp: alloc_of_def region_def)
    with b(2) row_split(7) [OF l(3) [unfolded b(1)]] show False by simp
  qed
  moreover have "regions h = map (region h) (alloc_of h xs) @ (p, n) # map (region h) (alloc_of h ys)"
    using al rg by (simp add: regions_def)
  moreover have "regions h' = map (region h) (alloc_of h xs) @ map (region h) (alloc_of h ys)"
    using o(1) h'(4) region_same [OF h'(6)] by (simp add: regions_def)
  ultimately have "regions h' = remove1 (p, n) (regions h)" by (simp add: remove1_append)
  moreover have "used_mem h = used_mem h' + n + 16"
    using used_mem_insert [OF layoutD(1) [OF h'(2)] l(1) al h'(4)] b(3) by simp
  ultimately show ?thesis using that h' o b(1,2) by (auto simp: lfree_lowest_def)
qed

end
