(* ===== verification/MemRun.thy ===== *)
theory MemRun
  imports MemProps
begin

text \<open>
  The system heap in use: any sequence of calls from its initialisation, and the properties of the
  calls stated on the regions that they hand out.
\<close>

section \<open>Writing to memory\<close>

lemma bytes_frame [simp]:
  "heap_blocks (h\<lparr>bytes := f\<rparr>) = heap_blocks h" "heap_ok (h\<lparr>bytes := f\<rparr>) = heap_ok h" "regions (h\<lparr>bytes := f\<rparr>) = regions h"
  "lfree_lowest (h\<lparr>bytes := f\<rparr>) = lfree_lowest h"
proof -
  show b: "heap_blocks (h\<lparr>bytes := f\<rparr>) = heap_blocks h" by (simp add: heap_blocks_def)
  have a: "alloc_of (h\<lparr>bytes := f\<rparr>) bs = alloc_of h bs" for bs by (simp add: alloc_of_def)
  show "heap_ok (h\<lparr>bytes := f\<rparr>) = heap_ok h" "lfree_lowest (h\<lparr>bytes := f\<rparr>) = lfree_lowest h"
    unfolding heap_ok_def lfree_lowest_def b by (simp_all add: layout_def layout0_def coalesced_def lowest_def a)
  show "regions (h\<lparr>bytes := f\<rparr>) = regions h"
    unfolding regions_def b a by (simp add: region_def fun_eq_iff)
qed

lemma region_ok:
  assumes "heap_ok h" "(p, n) \<in> set (regions h)"
  shows "unat p mod 4 = 0" "unat (heap_ptr h) + 16 \<le> unat p" "unat p + unat n \<le> unat (heap_ptr h) + unat (heap_end h)"
    "4 \<le> unat n" "unat (heap_ptr h) + unat (heap_end h) < 2 ^ 32"
proof -
  note l = layoutD [OF heap_okD(1) [OF assms(1)]]
  obtain b e where b: "(b, e) \<in> set (alloc_of h (heap_blocks h))" "region h (b, e) = (p, n)"
    using assms(2) by (auto simp: regions_def)
  note r = region_nat [OF l(1) b]
  show "unat p mod 4 = 0" "unat (heap_ptr h) + 16 \<le> unat p" "unat p + unat n \<le> unat (heap_ptr h) + unat (heap_end h)" "4 \<le> unat n"
    using r by simp_all
  show "unat (heap_ptr h) + unat (heap_end h) < 2 ^ 32" using layout0D(7) [OF l(1)] by simp
qed

lemma regions_disjoint:
  assumes "heap_ok h" "(p, n) \<in> set (regions h)" "(q, m) \<in> set (regions h)" "(p, n) \<noteq> (q, m)"
  shows "unat p + unat n + 16 \<le> unat q \<or> unat q + unat m + 16 \<le> unat p"
  using regions_apart [OF heap_okD [OF assms(1)] assms(2-4)] .

text \<open>Bytes of one region are outside every other one.\<close>

lemma other_region:
  assumes "heap_ok h" "(p, n) \<in> set (regions h)" "(q, m) \<in> set (regions h)" "(p, n) \<noteq> (q, m)" "i < n" "c \<le> m"
  shows "\<not> (p + i) - q < c"
proof -
  note r = region_ok [OF assms(1,2)] and s = region_ok [OF assms(1,3)]
  have "unat (p + i) = unat p + unat i"
    using assms(5) r(3,5) by (intro unat_add_no_wrap) (simp add: word_less_nat_alt)
  then show ?thesis
    using regions_disjoint [OF assms(1-4)] assms(5,6) s(3,5) r(3,5)
    by (auto simp: word_less_nat_alt word_le_nat_alt unat_sub_u32 not_less)
qed

section \<open>Reallocating\<close>

text \<open>What a call of \<^verbatim>\<open>rt_realloc\<close> on the region at \<open>p\<close> with \<open>n\<close> bytes may do: nothing, release it, or leave a region of at
  least \<open>sz\<close> bytes with the same contents up to the smaller of the sizes. The other regions keep theirs.\<close>

definition kept :: "(u32 \<times> u32) \<Rightarrow> sys_heap \<Rightarrow> sys_heap \<Rightarrow> bool" where
  "kept x h h' \<longleftrightarrow> (\<forall>(a, l) \<in> set (regions h) - {x}. (a, l) \<in> set (regions h') \<and> (\<forall>i < l. bytes h' (a + i) = bytes h (a + i)))"

definition moved :: "u32 \<Rightarrow> u32 \<Rightarrow> u32 \<Rightarrow> u32 \<Rightarrow> sys_heap \<Rightarrow> sys_heap \<Rightarrow> bool" where
  "moved p n sz q h h' \<longleftrightarrow> (\<exists>m. (q, m) \<in> set (regions h') \<and> unat sz \<le> unat m \<and>
     (\<forall>i. i < n \<longrightarrow> i < sz \<longrightarrow> bytes h' (q + i) = bytes h (p + i)))"

lemma kept_subset:
  assumes "bytes h' = bytes h" "set (regions h) - {x} \<subseteq> set (regions h')"
  shows "kept x h h'"
  using assms by (auto simp: kept_def)

lemma regions_distinct:
  assumes "heap_ok h"
  shows "distinct (regions h)"
proof -
  have d: "distinct (heap_blocks h)" using row_distinct layoutD(3) heap_okD(1) [OF assms] by blast
  then have "distinct (alloc_of h (heap_blocks h))" by (simp add: alloc_of_def distinct_map inj_on_def)
  moreover have "inj_on (region h) (set (alloc_of h (heap_blocks h)))"
    by (auto simp: inj_on_def region_def)
  ultimately show ?thesis by (simp add: regions_def distinct_map)
qed

lemma shrink_on_regions:
  assumes "heap_ok h" "(p, n) \<in> set (regions h)" "unat sz + 28 < unat n" "4 \<le> unat sz" "unat sz mod 4 = 0"
  obtains h' where "realloc_split sz n (p - 16 - heap_ptr h) h = Some h'" "heap_ok h'" "same_memory h h'"
    "(p, sz) \<in> set (regions h')" "set (regions h) - {(p, n)} \<subseteq> set (regions h')"
proof -
  note ok = heap_okD [OF assms(1)] and l = layoutD [OF heap_okD(1) [OF assms(1)]]
  obtain xs b ys where b: "heap_blocks h = xs @ b # ys" "p = heap_ptr h + b + 16" "n = h_next (heads h b) - b - 16" "h_used (heads h b) \<noteq> 0"
    by (rule region_block [OF ok assms(2)])
  have al: "alloc_of h (heap_blocks h) = alloc_of h xs @ (b, h_next (heads h b)) # alloc_of h ys" using b(1,4) by simp
  have rg: "region h (b, h_next (heads h b)) = (p, n)" using b(2,3) by (simp add: region_def)
  have "unat n = unat (h_next (heads h b)) - unat b - 16" by (rule region_nat(2) [OF l(1) _ rg]) (simp add: al)
  then have room: "unat b + unat sz + 44 < unat (h_next (heads h b))" using assms(3) by simp
  obtain h' bs' where h': "realloc_split sz (h_next (heads h b) - b - 16) b h = Some h'" "layout h' bs'" "coalesced h' bs'"
    "alloc_of h' bs' = alloc_of h xs @ (b, b + 16 + sz) # alloc_of h ys" "same_memory h h'"
    by (rule realloc_split_ok [OF ok(1) [unfolded b(1)] ok(2) [unfolded b(1)] b(4) room assms(4,5)]) blast
  note o = heap_okI [OF h'(2,3)]
  have "regions h' = map (region h) (alloc_of h xs) @ (p, sz) # map (region h) (alloc_of h ys)"
    using o(1) h'(4) region_same [OF h'(5)] b(2) by (simp add: regions_def region_def)
  moreover have "regions h = map (region h) (alloc_of h xs) @ (p, n) # map (region h) (alloc_of h ys)"
    using al rg by (simp add: regions_def)
  ultimately show ?thesis using that h'(1,5) o(2) b(2,3) by auto
qed

text \<open>The branch that allocates, copies and frees.\<close>

lemma move_on_regions:
  assumes "heap_ok h" "(p, n) \<in> set (regions h)" "rt_malloc False name sz h = Some (Some q, h1)" "unat sz mod 4 = 0"
    and "sz \<le> mem_size_aligned h"
  obtains h' where "rt_free False (Some p) (h1\<lparr>bytes := rt_memcpy q p (if n < sz then n else sz) (bytes h1)\<rparr>) = Some h'" "heap_ok h'"
    "kept (p, n) h h'" "moved p n sz q h h'"
proof -
  note m = malloc_on_regions [OF assms(1,3)]
  obtain us k vs where r: "regions h = us @ vs" "regions h1 = us @ (q, k) # vs" "unat (need sz) \<le> unat k" using m(4) by blast
  let ?c = "if n < sz then n else sz"
  have "unat sz + 3 < 2 ^ 32"
    using layout0D(3,7) [OF layoutD(1) [OF heap_okD(1) [OF assms(1)]]] assms(5) by (simp add: word_le_nat_alt)
  then have sk: "unat sz \<le> unat k" using need_props(4) [of sz] r(3) by simp
  then have ck: "?c \<le> k" by (auto simp: word_le_nat_alt word_less_nat_alt)
  have p1: "(p, n) \<in> set (regions h1)" "(q, k) \<in> set (regions h1)" using assms(2) r by auto
  have "distinct (us @ (q, k) # vs)" using regions_distinct [OF m(1)] r(2) by simp
  then have pq: "(p, n) \<noteq> (q, k)" using assms(2) r(1) by auto
  have "\<not> q - p < ?c"
  proof -
    have "0 < k" using region_ok(4) [OF m(1) p1(2)] by (simp add: word_less_nat_alt)
    moreover have "?c \<le> n" by (auto simp: not_less)
    ultimately show ?thesis using other_region [OF m(1) p1(2,1) pq [symmetric], of 0 ?c] by simp
  qed
  then have cp: "rt_memcpy q p ?c x = copied q p ?c x" for x by (intro memcpy_copies) (simp add: not_less)
  define h2 where "h2 = h1\<lparr>bytes := rt_memcpy q p ?c (bytes h1)\<rparr>"
  have h2: "heap_ok h2" "regions h2 = regions h1" using m(1) by (simp_all add: h2_def)
  obtain h' where h': "rt_free False (Some p) h2 = Some h'" "heap_ok h'" "same_memory h2 h'" "regions h' = remove1 (p, n) (regions h2)"
    using free_on_regions [OF h2(1)] p1(1) h2(2) by metis
  have bt: "bytes h' x = (if x - q < ?c then bytes h (p + (x - q)) else bytes h x)" for x
    using h'(3) m(2) cp by (simp add: same_memory_def h2_def copied_def)
  have reg: "set (regions h') = set (regions h1) - {(p, n)}"
    using h'(4) h2(2) regions_distinct [OF m(1)] by simp
  have "kept (p, n) h h'"
    unfolding kept_def
  proof (rule ballI)
    fix x assume x: "x \<in> set (regions h) - {(p, n)}"
    obtain a l where al: "x = (a, l)" by (cases x)
    then have a: "(a, l) \<in> set (regions h)" "(a, l) \<noteq> (p, n)" using x by auto
    then have a1: "(a, l) \<in> set (regions h1)" "(a, l) \<noteq> (q, k)" using r \<open>distinct (us @ (q, k) # vs)\<close> by auto
    have "bytes h' (a + i) = bytes h (a + i)" if "i < l" for i
      using bt [of "a + i"] other_region [OF m(1) a1(1) p1(2) a1(2) that ck] by simp
    then show "case x of (a, l) \<Rightarrow> (a, l) \<in> set (regions h') \<and> (\<forall>i<l. bytes h' (a + i) = bytes h (a + i))"
      using a1(1) a(2) reg al by simp
  qed
  moreover have "moved p n sz q h h'"
    unfolding moved_def using reg p1(2) pq sk by (auto simp: bt intro!: exI [of _ k])
  ultimately show ?thesis using that h' by (simp add: h2_def)
qed

lemma realloc_region:
  assumes "heap_ok h" "(p, n) \<in> set (regions h)"
  shows "\<exists>r h'. rt_realloc False name (Some p) sz h = Some (r, h') \<and> heap_ok h' \<and> kept (p, n) h h' \<and>
    (case r of None \<Rightarrow> h' = h \<or> RT_ALIGN sz 4 = 0 \<and> regions h' = remove1 (p, n) (regions h)
     | Some q \<Rightarrow> moved p n (RT_ALIGN sz 4) q h h')"
proof -
  define w where "w = RT_ALIGN sz 4"
  note ok = heap_okD [OF assms(1)] and l = layoutD [OF heap_okD(1) [OF assms(1)]]
  obtain xs b ys where b: "heap_blocks h = xs @ b # ys" "p = heap_ptr h + b + 16" "n = h_next (heads h b) - b - 16" "h_used (heads h b) \<noteq> 0"
    by (rule region_block [OF ok assms(2)])
  note ad = block_addr [OF l(1) [unfolded b(1)] b(2)]
  have same: "kept (p, n) h h" by (simp add: kept_def)
  have inside: "\<not> p < heap_ptr h" "\<not> heap_ptr h + heap_end h \<le> p" using ad(4,5) by (simp_all add: not_less not_le)
  consider (big) "w > mem_size_aligned h" | (zero) "w \<le> mem_size_aligned h" "w = 0"
    | (equal) "w \<le> mem_size_aligned h" "w \<noteq> 0" "n = w"
    | (shrink) "w \<le> mem_size_aligned h" "w \<noteq> 0" "n \<noteq> w" "w + 16 + 12 < n"
    | (move) "w \<le> mem_size_aligned h" "w \<noteq> 0" "n \<noteq> w" "\<not> w + 16 + 12 < n" by fastforce
  then show ?thesis
  proof cases
    case big
    then show ?thesis using assms(1) same by (simp add: rt_realloc_def w_def [symmetric])
  next
    case zero
    obtain h' where h': "rt_free False (Some p) h = Some h'" "heap_ok h'" "same_memory h h'" "regions h' = remove1 (p, n) (regions h)"
      by (rule free_on_regions [OF assms]) blast
    moreover have "kept (p, n) h h'"
      using kept_subset [of h' h "(p, n)"] h'(3,4) regions_distinct [OF assms(1)] by (simp add: same_memory_def)
    ultimately show ?thesis using zero by (simp add: rt_realloc_def w_def [symmetric])
  next
    case equal
    have "moved p n w p h h" using equal(3) assms(2) by (auto simp: moved_def)
    then show ?thesis
      using equal ad(2) inside assms(1) b(3) same leD [OF equal(1)] by (simp add: rt_realloc_def w_def [symmetric] Let_def)
  next
    case shrink
    have w: "unat w mod 4 = 0" "unat (w + 16 + 12) = unat w + 28"
      using unat_align(1) [of sz] layout0D(3,7) [OF l(1)] shrink(1) unat_add_no_wrap [of w 16] unat_add_no_wrap [of "w + 16" 12]
      by (simp_all add: w_def word_le_nat_alt)
    then have w4: "4 \<le> unat w" using shrink(2) by (simp add: word_unat_eq_iff) presburger
    obtain h' where h': "realloc_split w n (p - 16 - heap_ptr h) h = Some h'" "heap_ok h'" "same_memory h h'"
      "(p, w) \<in> set (regions h')" "set (regions h) - {(p, n)} \<subseteq> set (regions h')"
      by (rule shrink_on_regions [OF assms _ w4 w(1)]) (use shrink(4) w(2) in \<open>simp_all add: word_less_nat_alt\<close>)
    have "moved p n w p h h'" using h'(3,4) by (auto simp: moved_def same_memory_def)
    moreover have "kept (p, n) h h'" using kept_subset h'(3,5) by (simp add: same_memory_def)
    ultimately show ?thesis
      using shrink ad(2) inside h'(1,2) b(3) leD [OF shrink(1)] by (simp add: rt_realloc_def w_def [symmetric] Let_def)
  next
    case move
    obtain r h1 where m: "rt_malloc False name w h = Some (r, h1)" "r = None \<longrightarrow> h1 = h" using malloc_total [OF assms(1)] by blast
    have eq: "rt_realloc False name (Some p) sz h = (case r of None \<Rightarrow> Some (None, h1)
        | Some q \<Rightarrow> map_option (Pair r) (rt_free False (Some p) (h1\<lparr>bytes := rt_memcpy q p (if n < w then n else w) (bytes h1)\<rparr>)))"
      using move ad(2) inside b(3) m(1) leD [OF move(1)]
      by (auto simp: rt_realloc_def w_def [symmetric] Let_def split: option.splits bind_splits)
    show ?thesis
    proof (cases r)
      case None
      then show ?thesis using eq m(2) assms(1) same by simp
    next
      case (Some q)
      obtain h' where "rt_free False (Some p) (h1\<lparr>bytes := rt_memcpy q p (if n < w then n else w) (bytes h1)\<rparr>) = Some h'" "heap_ok h'"
        "kept (p, n) h h'" "moved p n w q h h'"
        using move_on_regions [OF assms m(1) [unfolded Some] _ move(1)] unat_align(1) [of sz] by (auto simp: w_def)
      then show ?thesis using eq Some by (simp add: w_def)
    qed
  qed
qed


section \<open>Reachable heaps\<close>

lemma heap_init_ok:
  assumes "rt_system_heap_init c hs b e z k = Some (h, k')" "unat (RT_ALIGN b 4) + 44 \<le> unat (RT_ALIGN_DOWN e 4)" "used_mem z = 0"
  shows "heap_ok h" "lfree_lowest h" "regions h = []" "heap_blocks h = [0]"
proof -
  define w where "w = RT_ALIGN_DOWN e 4 - RT_ALIGN b 4 - 32"
  have al: "unat (RT_ALIGN b 4) mod 4 = 0" "unat (RT_ALIGN_DOWN e 4) mod 4 = 0"
    using unat_align(1) [of b] unat_align(1) [of "e - 3"] by (simp_all add: RT_ALIGN_def RT_ALIGN_DOWN_def)
  have w: "unat w = unat (RT_ALIGN_DOWN e 4) - unat (RT_ALIGN b 4) - 32"
    using assms(2) by (simp add: w_def unat_sub_u32)
  have w4: "unat w mod 4 = 0" using al assms(2) unfolding w by presburger
  have w16: "unat (w + 16) = unat w + 16"
    using w unat_less_2_32 [of "RT_ALIGN_DOWN e 4"] assms(2) unat_add_no_wrap [of w 16] by simp
  then have ne: "w + 16 \<noteq> 0" by auto
  have cond: "RT_ALIGN_DOWN e 4 > 2 * 16" "RT_ALIGN_DOWN e 4 - 2 * 16 \<ge> RT_ALIGN b 4"
    using assms(2) by (simp_all add: word_less_nat_alt word_le_nat_alt unat_sub_u32)
  let ?first = "rt_mem_setname ''INIT'' ((heads z 0)\<lparr>h_magic := HEAP_MAGIC, h_next := w + 16, h_prev := 0, h_used := 0\<rparr>)"
  let ?stop = "rt_mem_setname ''INIT'' ((heads z (w + 16))\<lparr>h_magic := HEAP_MAGIC, h_used := 1, h_next := w + 16, h_prev := w + 16\<rparr>)"
  have h: "h = z\<lparr>mem_size_aligned := w, heap_ptr := RT_ALIGN b 4, heads := (heads z)(0 := ?first, w + 16 := ?stop),
      heap_end := w + 16, lfree := 0\<rparr>"
    using assms(1) cond ne
    by (cases z) (auto simp: rt_system_heap_init_def Let_def w_def upd_head_def rt_mem_setname_def elim!: bind_eq_SomeE split: if_splits)
  have f: "heads h 0 = ?first" "heads h (w + 16) = ?stop" "heap_end h = w + 16" "mem_size_aligned h = w" "heap_ptr h = RT_ALIGN b 4"
    "lfree h = 0" "used_mem h = 0"
    using ne assms(3) by (simp_all add: h)
  have "row (heads h) 0 0 (heap_end h) [0]"
    using w w16 assms(2) by (simp add: f head_ok_def rt_mem_setname_def)
  moreover have "alloc_of h [0] = []" by (simp add: f rt_mem_setname_def)
  ultimately have "layout h [0]"
    using w w4 al(1) assms(2) unat_less_2_32 [of "RT_ALIGN_DOWN e 4"]
    by (simp add: layout_def layout0_def f rt_mem_setname_def)
  moreover have "coalesced h [0]" by (simp add: coalesced_def)
  ultimately show "heap_ok h" "heap_blocks h = [0]" "lfree_lowest h" "regions h = []"
    using heap_okI [of h "[0]"] \<open>alloc_of h [0] = []\<close> by (simp_all add: lowest_def f regions_def)
qed

text \<open>Calls on the heap, and writes to memory, in any order. A pointer that is freed or reallocated is one
  that was handed out and not freed since.\<close>

inductive heap_step :: "sys_heap \<Rightarrow> sys_heap \<Rightarrow> bool" where
  malloc: "rt_malloc False name sz h = Some (r, h') \<Longrightarrow> heap_step h h'"
| calloc: "rt_calloc False name count sz h = Some (r, h') \<Longrightarrow> heap_step h h'"
| free: "(p, n) \<in> set (regions h) \<Longrightarrow> rt_free False (Some p) h = Some h' \<Longrightarrow> heap_step h h'"
| realloc: "(p, n) \<in> set (regions h) \<Longrightarrow> rt_realloc False name (Some p) sz h = Some (r, h') \<Longrightarrow> heap_step h h'"
| store: "heap_step h (h\<lparr>bytes := f\<rparr>)"

lemma malloc_keeps:
  assumes "heap_ok h" "rt_malloc False name sz h = Some (r, h')"
  shows "heap_ok h'"
proof (cases r)
  case None
  then show ?thesis using malloc_total [OF assms(1), of name sz] assms by auto
next
  case (Some p)
  then show ?thesis using malloc_on_regions(1) assms by blast
qed

lemma heap_step_keeps: "heap_step h h' \<Longrightarrow> heap_ok h \<Longrightarrow> heap_ok h'"
proof (induction rule: heap_step.induct)
  case (malloc name sz h r h')
  then show ?case using malloc_keeps by blast
next
  case (calloc name count sz h r h')
  then show ?case
    using malloc_keeps [of h name "count * sz"] by (auto simp: rt_calloc_def elim!: bind_eq_SomeE split: option.splits)
next
  case (free p n h h')
  then show ?case using free_on_regions [OF free.prems free.hyps(1)] by auto
next
  case (realloc p n h name sz r h')
  then show ?case using realloc_region [OF realloc.prems realloc.hyps(1), of name sz] by auto
qed simp

lemma heap_steps_keep: "heap_step\<^sup>*\<^sup>* h h' \<Longrightarrow> heap_ok h \<Longrightarrow> heap_ok h'"
  by (induction rule: rtranclp_induct) (auto intro: heap_step_keeps)

section \<open>Allocating and freeing again\<close>

lemma row_next:
  assumes "row H pv a e bs" "row H' pv' a e bs" "b \<in> set bs"
  shows "h_next (H b) = h_next (H' b)"
  using assms
proof (induction bs arbitrary: pv pv' a)
  case (Cons c bs)
  have r: "c = a" "row H a (h_next (H a)) e bs" "row H' a (h_next (H' a)) e bs" using Cons.prems(1,2) by simp_all
  have "h_next (H a) = h_next (H' a)" using r(2,3) by (cases bs) simp_all
  with Cons.IH [OF r(2), of a] Cons.prems(3) r show ?case by auto
qed simp

lemma lowest_first:
  assumes "layout h bs" "lowest h bs"
  shows "lfree h = first_free h bs"
proof -
  note l = layoutD [OF assms(1)]
  note f = first_free_props [OF l(3)]
  have "\<not> first_free h bs < lfree h"
  proof
    assume lt: "first_free h bs < lfree h"
    have "lfree h \<le> heap_end h"
      using l(2) row_bounds(2) [OF l(3), of "lfree h"] by (auto simp: word_le_nat_alt)
    with lt f(1) assms(2) show False by (auto simp: lowest_def)
  qed
  moreover have "\<not> lfree h < first_free h bs"
  proof
    assume lt: "lfree h < first_free h bs"
    have "first_free h bs \<le> heap_end h"
      using f(1) row_bounds(2) [OF l(3), of "first_free h bs"] by (auto simp: word_le_nat_alt)
    with lt l(2) f(2) [of "lfree h"] show False by auto
  qed
  ultimately show ?thesis by simp
qed

lemma first_free_cong:
  assumes "\<And>b. b \<in> set bs \<Longrightarrow> h_used (heads h' b) = 0 \<longleftrightarrow> h_used (heads h b) = 0" "heap_end h' = heap_end h"
  shows "first_free h' bs = first_free h bs"
proof -
  have "List.find (\<lambda>b. h_used (heads h' b) = 0) bs = List.find (\<lambda>b. h_used (heads h b) = 0) bs"
    using assms(1) by (induction bs) auto
  then show ?thesis by (simp add: first_free_def assms(2) cong: option.case_cong)
qed

lemma same_split:
  assumes "us @ x # vs = us' @ y # vs'" "fst x = fst y" "fst x \<notin> fst ` set us" "fst y \<notin> fst ` set us'"
  shows "us = us' \<and> vs = vs'"
  using assms
proof (induction us arbitrary: us')
  case Nil
  then show ?case by (cases us') auto
next
  case (Cons u us)
  then show ?case by (cases us') auto
qed

lemma malloc_free_back:
  assumes "heap_ok h" "lfree_lowest h" "rt_malloc False name sz h = Some (Some p, h1)"
  obtains h2 where "rt_free False (Some p) h1 = Some h2" "heap_ok h2" "heap_blocks h2 = heap_blocks h" "regions h2 = regions h"
    "used_mem h2 = used_mem h" "lfree h2 = lfree h"
    "\<And>b. b \<in> set (heap_blocks h) \<Longrightarrow> h_next (heads h2 b) = h_next (heads h b) \<and> (h_used (heads h2 b) = 0 \<longleftrightarrow> h_used (heads h b) = 0)"
proof -
  note ok = heap_okD [OF assms(1)] and l = layoutD [OF heap_okD(1) [OF assms(1)]]
  have low: "lowest h (heap_blocks h)" using assms(2) by (simp add: lfree_lowest_def)
  have sz: "sz \<noteq> 0" "RT_ALIGN sz 4 \<le> mem_size_aligned h"
    using assms(3) by (auto simp: rt_malloc_def Let_def not_less split: if_splits)
  have "\<exists>b \<in> set (heap_blocks h). fits (need sz) h b"
    using rt_malloc_null [OF ok(1) sz(2)] assms(3) by fastforce
  then obtain b where b: "b \<in> set (heap_blocks h)" "fits (need sz) h b" by blast
  obtain xs a ys zs e h' where t: "heap_blocks h = xs @ a # ys" "fits (need sz) h a"
    "rt_malloc False name sz h = Some (Some (heap_ptr h + a + 16), h')" "layout h' (xs @ a # zs)" "coalesced h' (xs @ a # zs)"
    "alloc_of h' (xs @ a # zs) = alloc_of h xs @ (a, e) # alloc_of h ys" "unat a + 16 + unat (need sz) \<le> unat e"
    "lowest h (heap_blocks h) \<Longrightarrow> lowest h' (xs @ a # zs)" "same_memory h h'"
    "zs = ys \<and> e = h_next (heads h a) \<or> zs = e # ys \<and> h_used (heads h' e) = 0"
    "\<And>x. x \<in> set xs \<or> x \<in> set ys \<Longrightarrow> h_used (heads h' x) = h_used (heads h x)"
    by (rule rt_malloc_block [OF ok sz b disjI1 [OF low], of name]) blast
  have eq: "h' = h1" "p = heap_ptr h1 + a + 16" using t(3,9) assms(3) by (auto simp: same_memory_def)
  have free: "h_used (heads h a) = 0" using t(2) by (simp add: fits_def)
  have ua: "h_used (heads h' a) \<noteq> 0"
  proof -
    have "a \<in> fst ` set (alloc_of h' (xs @ a # zs))" unfolding t(6) by simp
    then show ?thesis by (auto simp: alloc_of_def)
  qed
  note c = coalesced_parts(3,4) [OF ok(2) [unfolded t(1)] free]
  have pl: "plugged h' xs a zs = xs @ a # ys"
  proof -
    have "xs \<noteq> [] \<Longrightarrow> h_used (heads h' (last xs)) \<noteq> 0" "ys \<noteq> [] \<Longrightarrow> h_used (heads h' (hd ys)) \<noteq> 0"
      using c t(11) by simp_all
    then show ?thesis using t(10) by (auto simp: plugged_def plug_after_def)
  qed
  obtain h2 where h2: "rt_free False (Some (heap_ptr h' + a + 16)) h' = Some h2" "layout h2 (xs @ a # ys)" "coalesced h2 (xs @ a # ys)"
    "alloc_of h2 (xs @ a # ys) = alloc_of h' xs @ alloc_of h' zs" "lowest h' (xs @ a # zs) \<Longrightarrow> lowest h2 (xs @ a # ys)" "same_memory h' h2"
    using rt_free_ok [OF t(4,5) ua] pl by metis
  have mem: "same_memory h h2" using same_memory_trans t(9) h2(6) by blast
  have "alloc_of h' xs @ (a, h_next (heads h' a)) # alloc_of h' zs = alloc_of h xs @ (a, e) # alloc_of h ys"
    using t(6) ua by simp
  moreover have "a \<notin> fst ` set (alloc_of h' xs)" "a \<notin> fst ` set (alloc_of h xs)"
    using row_split(7) [OF layoutD(3) [OF t(4)]] by (auto simp: alloc_of_def)
  ultimately have "alloc_of h' xs = alloc_of h xs \<and> alloc_of h' zs = alloc_of h ys"
    using same_split [of "alloc_of h' xs" "(a, h_next (heads h' a))" "alloc_of h' zs" "alloc_of h xs" "(a, e)" "alloc_of h ys"] by simp
  then have al: "alloc_of h2 (xs @ a # ys) = alloc_of h (heap_blocks h)" using h2(4) t(1) free by simp
  note o = heap_okI [OF h2(2,3)]
  have nx: "h_next (heads h2 b) = h_next (heads h b)" if "b \<in> set (heap_blocks h)" for b
    using row_next [of "heads h2" 0 0 "heap_end h" "heap_blocks h" "heads h" 0 b] layoutD(3) [OF h2(2)] l(3) t(1) mem that
    by (simp add: same_memory_def)
  have us: "h_used (heads h2 b) = 0 \<longleftrightarrow> h_used (heads h b) = 0" if "b \<in> set (heap_blocks h)" for b
  proof -
    have "b \<in> fst ` set (alloc_of h2 (heap_blocks h)) \<longleftrightarrow> b \<in> fst ` set (alloc_of h (heap_blocks h))" using al t(1) by simp
    then show ?thesis using that by (force simp: alloc_of_def)
  qed
  have "lfree h2 = lfree h"
  proof -
    have "lfree h2 = first_free h2 (heap_blocks h)"
      using lowest_first [OF h2(2)] h2(5) t(8) low t(1) by simp
    also have "\<dots> = first_free h (heap_blocks h)" by (rule first_free_cong) (use us mem in \<open>auto simp: same_memory_def\<close>)
    finally show ?thesis using lowest_first [OF ok(1) low] by simp
  qed
  moreover have "regions h2 = regions h" using o(1) al region_same [OF mem] t(1) by (simp add: regions_def)
  moreover have "used_mem h2 = used_mem h"
    using layout0D(10) [OF layoutD(1) [OF h2(2)]] layout0D(10) [OF l(1)] unfolding al by (simp add: word_unat_eq_iff)
  moreover have "rt_free False (Some p) h1 = Some h2" using h2(1) eq by simp
  ultimately show ?thesis using that [of h2] o(1,2) nx us t(1) by metis
qed


section \<open>Shrinking below the lowest free block\<close>

text \<open>The block after one that is below \<^verbatim>\<open>lfree\<close> is \<^verbatim>\<open>lfree\<close> itself, or not above it and in use.\<close>

lemma next_below_lfree:
  assumes "layout h (xs @ b # ys)" "lowest h (xs @ b # ys)" "h_used (heads h b) \<noteq> 0" "b < lfree h" "h_next (heads h b) \<noteq> lfree h"
  shows "ys = [] \<or> h_used (heads h (hd ys)) \<noteq> 0" "h_next (heads h b) \<le> lfree h"
proof -
  note l = layoutD [OF assms(1)]
  note s = row_split [OF l(3)]
  have nx: "h_next (heads h b) = (case ys of [] \<Rightarrow> heap_end h | y # _ \<Rightarrow> y)" using s(4) by (cases ys) simp_all
  have above: "y \<ge> h_next (heads h b)" if "y \<in> set ys" for y
    using s(6) [OF that] by (simp add: word_le_nat_alt)
  have "lfree h \<notin> set xs" using row_bounds(2) [OF s(1), of "lfree h"] assms(4) by (auto simp: word_less_nat_alt)
  then have "lfree h = heap_end h \<or> lfree h \<in> set ys" using l(2) assms(4) by auto
  then show le: "h_next (heads h b) \<le> lfree h"
    using above s(10) by (auto simp: word_le_nat_alt)
  show "ys = [] \<or> h_used (heads h (hd ys)) \<noteq> 0"
  proof (cases ys)
    case (Cons y zs)
    then have "y < lfree h" using le nx assms(5) by simp
    then show ?thesis using assms(2) Cons by (simp add: lowest_def)
  qed simp
qed

lemma shrink_below_lfree:
  assumes "heap_ok h" "lfree_lowest h" "(p, n) \<in> set (regions h)" "p < heap_ptr h + lfree h" "p + n \<noteq> heap_ptr h + lfree h"
    and "RT_ALIGN sz 4 \<noteq> 0" "unat (RT_ALIGN sz 4) + 28 < unat n"
  shows "\<exists>h'. rt_realloc False name (Some p) sz h = Some (Some p, h') \<and> p - heap_ptr h + RT_ALIGN sz 4 \<in> set (heap_blocks h') \<and>
    h_used (heads h' (p - heap_ptr h + RT_ALIGN sz 4)) = 0 \<and> p - heap_ptr h + RT_ALIGN sz 4 < lfree h' \<and> lfree h' = lfree h"
proof -
  define w where "w = RT_ALIGN sz 4"
  note ok = heap_okD [OF assms(1)] and l = layoutD [OF heap_okD(1) [OF assms(1)]]
  obtain xs b ys where b: "heap_blocks h = xs @ b # ys" "p = heap_ptr h + b + 16" "n = h_next (heads h b) - b - 16" "h_used (heads h b) \<noteq> 0"
    by (rule region_block [OF ok assms(3)])
  note ad = block_addr [OF l(1) [unfolded b(1)] b(2)] and s = row_split [OF l(3) [unfolded b(1)]]
  have rg: "region h (b, h_next (heads h b)) = (p, n)" using b(2,3) by (simp add: region_def)
  have n: "unat n = unat (h_next (heads h b)) - unat b - 16" by (rule region_nat(2) [OF l(1) _ rg]) (simp add: b(1,4))
  have lf: "unat (lfree h) \<le> unat (heap_end h)" using l(2) row_bounds(2) [OF l(3), of "lfree h"] by auto
  have "unat (heap_ptr h + lfree h) = unat (heap_ptr h) + unat (lfree h)"
    using layout0D(7) [OF l(1)] lf by (intro unat_add_no_wrap) simp
  then have below: "b < lfree h" using assms(4) ad(1) by (simp add: word_less_nat_alt)
  have "h_next (heads h b) \<noteq> lfree h" using assms(5) by (auto simp: b(2,3))
  note nb = next_below_lfree [OF ok(1) [unfolded b(1)] _ b(4) below this]
  have low: "lowest h (xs @ b # ys)" using assms(2) b(1) by (simp add: lfree_lowest_def)
  have w: "4 \<le> unat w" "unat w mod 4 = 0"
    using unat_align(1) [of sz] assms(6) by (simp_all add: w_def word_unat_eq_iff) presburger
  have room: "unat b + unat w + 44 < unat (h_next (heads h b))" using assms(7) n by (simp add: w_def)
  obtain h' bs' where h': "realloc_split w n b h = Some h'" "layout h' bs'" "coalesced h' bs'"
    "b + 16 + w \<in> set bs'" "h_used (heads h' (b + 16 + w)) = 0" "ys = [] \<or> h_used (heads h (hd ys)) \<noteq> 0 \<Longrightarrow> lfree h' = lfree h"
    by (rule realloc_split_ok [OF ok(1) [unfolded b(1)] ok(2) [unfolded b(1)] b(4) room w]) (use b(3) in blast)
  have cut: "unat (b + 16 + w) = unat b + 16 + unat w"
    using unat_add_no_wrap [of b 16] unat_add_no_wrap [of "b + 16" w] room unat_less_2_32 [of "h_next (heads h b)"] by simp
  have le: "w \<le> mem_size_aligned h" "unat (w + 16 + 12) = unat w + 28" "n \<noteq> w"
    using assms(7) n s(10) layout0D(3,7) [OF l(1)] unat_add_no_wrap [of w 16] unat_add_no_wrap [of "w + 16" 12]
    by (auto simp: w_def word_le_nat_alt)
  have lt: "w + 16 + 12 < n" using le(2) assms(7) by (simp add: word_less_nat_alt w_def)
  have "rt_realloc False name (Some p) sz h = Some (Some p, h')"
    using le(3) lt assms(6) ad(2) leD [OF ad(4)] leD [OF le(1)] not_le [THEN iffD2, OF ad(5)] h'(1) b(3)
    by (simp add: rt_realloc_def w_def [symmetric] Let_def)
  moreover have "b + 16 + w < lfree h" using nb(2) [OF low] cut room by (simp add: word_less_nat_alt word_le_nat_alt)
  moreover have "p - heap_ptr h + RT_ALIGN sz 4 = b + 16 + w" using b(2) by (simp add: w_def)
  ultimately show ?thesis using h'(4-6) nb(1) [OF low] heap_okI(1) [OF h'(2,3)] by auto
qed

section \<open>A heap at work\<close>

definition zero_heap :: sys_heap where
  "zero_heap = \<lparr>heads = (\<lambda>_. \<lparr>h_magic = 0, h_used = 0, h_next = 0, h_prev = 0, h_thread = []\<rparr>), heap_ptr = 0, heap_end = 0,
     lfree = 0, mem_size_aligned = 0, used_mem = 0, max_mem = 0, bytes = (\<lambda>_. 0)\<rparr>"

definition demo_heap :: sys_heap where
  "demo_heap = fst (the (rt_system_heap_init 0 9 0x1000 0x1100 zero_heap zero_kernel))"

lemma demo_heap_init: "\<exists>k. rt_system_heap_init 0 9 0x1000 0x1100 zero_heap zero_kernel = Some (demo_heap, k)"
proof -
  obtain y where "rt_system_heap_init 0 9 0x1000 0x1100 zero_heap zero_kernel = Some y"
    by (simp add: rt_system_heap_init_def RT_ALIGN_def RT_ALIGN_DOWN_def Let_def not_in_interrupt_def rt_sem_init_def
        rt_object_init_def rt_object_get_information_def rt_object_classes_def zero_defs)
  then show ?thesis by (cases y) (simp add: demo_heap_def)
qed

lemma demo_sizes: "unat (RT_ALIGN 0x1000 4) + 44 \<le> unat (RT_ALIGN_DOWN 0x1100 4)" "used_mem zero_heap = 0"
  by (simp_all add: RT_ALIGN_def RT_ALIGN_DOWN_def zero_heap_def)

lemma demo_heap_ok: "heap_ok demo_heap" "lfree_lowest demo_heap" "regions demo_heap = []" "heap_blocks demo_heap = [0]"
  using demo_heap_init heap_init_ok [OF _ demo_sizes] by blast+

lemma demo_heap_eq: "demo_heap = zero_heap\<lparr>mem_size_aligned := 224, heap_ptr := 4096, heap_end := 240, heads := (heads zero_heap)
    (0 := rt_mem_setname ''INIT'' ((heads zero_heap 0)\<lparr>h_magic := HEAP_MAGIC, h_next := 240, h_prev := 0, h_used := 0\<rparr>),
     240 := rt_mem_setname ''INIT'' ((heads zero_heap 240)\<lparr>h_magic := HEAP_MAGIC, h_used := 1, h_next := 240, h_prev := 240\<rparr>)), lfree := 0\<rparr>"
proof -
  obtain k where "rt_system_heap_init 0 9 0x1000 0x1100 zero_heap zero_kernel = Some (demo_heap, k)"
    using demo_heap_init by blast
  then show ?thesis
    by (auto simp: rt_system_heap_init_def RT_ALIGN_def RT_ALIGN_DOWN_def Let_def upd_head_def rt_mem_setname_def
        elim!: bind_eq_SomeE split: if_splits)
qed

lemma demo_heap_fields: "mem_size_aligned demo_heap = 224" "h_used (heads demo_heap 0) = 0" "h_next (heads demo_heap 0) = 240"
  unfolding demo_heap_eq by (simp_all add: rt_mem_setname_def)

text \<open>Two regions below the lowest free block.\<close>

lemmas heap_run = rt_malloc_def malloc_find.simps malloc_take_def malloc_split_def malloc_whole_def lfree_advance.simps
  count_used_def upd_head_def rt_mem_setname_def RT_ALIGN_def Let_def

lemma demo_two_blocks:
  obtains h1 h2 where "rt_malloc False None 100 demo_heap = Some (Some 4112, h1)" "used_mem h1 = 116"
    "rt_malloc False None 20 h1 = Some (Some 4228, h2)" "lfree h2 = 152" "heap_ptr h2 = 4096"
  unfolding demo_heap_eq zero_heap_def by (simp add: heap_run)

lemma demo_malloc: "\<exists>p h. rt_malloc False None 100 demo_heap = Some (Some p, h)"
  by (rule demo_two_blocks) blast

lemma demo_region: "\<exists>p n h. (p, n) \<in> set (regions h) \<and> heap_ok h \<and> lfree_lowest h"
proof -
  obtain p h where m: "rt_malloc False None 100 demo_heap = Some (Some p, h)" using demo_malloc by blast
  note r = malloc_on_regions [OF demo_heap_ok(1) m]
  obtain us n vs where "regions h = us @ (p, n) # vs" using r(4) by blast
  then have "(p, n) \<in> set (regions h)" by simp
  then show ?thesis using r(1) r(3) [OF demo_heap_ok(2)] by blast
qed

section \<open>Properties\<close>



text \<open>C9. \<^verbatim>\<open>rt_malloc\<close> refines the allocation of a region. It returns; when it returns a pointer, that pointer starts
  a new region, with at least the number of bytes asked for unless rounding them up wraps around, the other
  regions and the contents of memory are as before, and the new block and its header are added to the memory in use. When
  it returns null the heap is as before; and if \<^verbatim>\<open>lfree\<close> is the lowest free block then the size was 0, or larger than
  the heap, or there is no free block anywhere that the search accepts.\<close>

theorem malloc_refines:
  assumes "heap_ok h"
  shows "\<exists>r h'. rt_malloc False name sz h = Some (r, h') \<and> heap_ok h' \<and> bytes h' = bytes h \<and> (lfree_lowest h \<longrightarrow> lfree_lowest h') \<and>
    (case r of
       None \<Rightarrow> h' = h \<and> (lfree_lowest h \<longrightarrow> sz = 0 \<or> RT_ALIGN sz 4 > mem_size_aligned h \<or> (\<forall>b \<in> set (heap_blocks h). \<not> fits (need sz) h b))
     | Some p \<Rightarrow> \<exists>us n vs. regions h = us @ vs \<and> regions h' = us @ (p, n) # vs \<and>
         (unat sz + 3 < 2 ^ 32 \<longrightarrow> unat sz \<le> unat n) \<and> used_mem h' = used_mem h + n + 16)"
proof -
  obtain r h' where m: "rt_malloc False name sz h = Some (r, h')" "r = None \<longrightarrow> h' = h"
    "r = None \<longrightarrow> lfree_lowest h \<longrightarrow> sz = 0 \<or> RT_ALIGN sz 4 > mem_size_aligned h \<or> (\<forall>b \<in> set (heap_blocks h). \<not> fits (need sz) h b)"
    using malloc_total [OF assms] by blast
  show ?thesis
  proof (cases r)
    case None
    with m assms show ?thesis by simp
  next
    case (Some p)
    note r = malloc_on_regions [OF assms m(1) [unfolded Some]]
    obtain us n vs where u: "regions h = us @ vs" "regions h' = us @ (p, n) # vs" "unat (need sz) \<le> unat n" "used_mem h' = used_mem h + n + 16"
      using r(4) by blast
    have "unat sz + 3 < 2 ^ 32 \<longrightarrow> unat sz \<le> unat n" using need_props(4) u(3) le_trans by blast
    moreover have "bytes h' = bytes h" using r(2) by (simp add: same_memory_def)
    ultimately show ?thesis using m(1) Some r(1,3) u(1,2,4) by fastforce
  qed
qed

theorem malloc_refines_witness:
  "heap_ok demo_heap \<and> (\<exists>p h'. rt_malloc False None 100 demo_heap = Some (Some p, h') \<and> (\<exists>n. regions h' = [(p, n)] \<and> 100 \<le> unat n))"
proof -
  obtain p h where m: "rt_malloc False None 100 demo_heap = Some (Some p, h)" using demo_malloc by blast
  show ?thesis using malloc_refines [OF demo_heap_ok(1), of None 100] m demo_heap_ok(1,3) by auto
qed

text \<open>\<^verbatim>\<open>rt_free\<close> refines the release of a region. Given a pointer to a region that is handed out it returns, that region
  is gone and no other one changes, nor do the contents of memory; the memory in use falls by the block and its
  header, no two free blocks are neighbours, and \<^verbatim>\<open>lfree\<close> still is the lowest free block if it was.\<close>

theorem free_refines:
  assumes "heap_ok h" "(p, n) \<in> set (regions h)"
  shows "\<exists>h'. rt_free False (Some p) h = Some h' \<and> heap_ok h' \<and> coalesced h' (heap_blocks h') \<and> regions h' = remove1 (p, n) (regions h) \<and>
    bytes h' = bytes h \<and> used_mem h = used_mem h' + n + 16 \<and> (lfree_lowest h \<longrightarrow> lfree_lowest h')"
proof -
  obtain h' where h': "rt_free False (Some p) h = Some h'" "heap_ok h'" "same_memory h h'" "lfree_lowest h \<Longrightarrow> lfree_lowest h'"
    "regions h' = remove1 (p, n) (regions h)" "used_mem h = used_mem h' + n + 16"
    by (rule free_on_regions [OF assms]) blast
  then show ?thesis using heap_okD(2) [OF h'(2)] by (auto simp: same_memory_def)
qed

theorem free_refines_witness:
  "\<exists>p n h h'. (p, n) \<in> set (regions h) \<and> rt_free False (Some p) h = Some h' \<and> regions h' = remove1 (p, n) (regions h)"
proof -
  obtain p n h where r: "(p, n) \<in> set (regions h)" "heap_ok h" using demo_region by blast
  show ?thesis using free_refines [OF r(2,1)] r(1) by blast
qed

text \<open>Allocating and freeing again gives back the heap: the same blocks with the same links, the same
  ones free, the same regions, \<^verbatim>\<open>used_mem\<close> and \<^verbatim>\<open>lfree\<close>.\<close>

theorem malloc_free_roundtrip:
  assumes "heap_ok h" "lfree_lowest h" "rt_malloc False name sz h = Some (Some p, h1)"
  shows "\<exists>h2. rt_free False (Some p) h1 = Some h2 \<and> heap_ok h2 \<and> heap_blocks h2 = heap_blocks h \<and> regions h2 = regions h \<and>
    used_mem h2 = used_mem h \<and> lfree h2 = lfree h \<and>
    (\<forall>b \<in> set (heap_blocks h). h_next (heads h2 b) = h_next (heads h b) \<and> (h_used (heads h2 b) = 0 \<longleftrightarrow> h_used (heads h b) = 0))"
  by (rule malloc_free_back [OF assms]) blast

theorem malloc_free_roundtrip_witness:
  "\<exists>p h1 h2. rt_malloc False None 100 demo_heap = Some (Some p, h1) \<and> rt_free False (Some p) h1 = Some h2 \<and>
     heap_blocks h2 = [0] \<and> regions h2 = [] \<and> lfree h2 = lfree demo_heap"
proof -
  obtain p h where m: "rt_malloc False None 100 demo_heap = Some (Some p, h)" using demo_malloc by blast
  show ?thesis using malloc_free_roundtrip [OF demo_heap_ok(1,2) m] m demo_heap_ok(3,4) by metis
qed

text \<open>C10. \<^verbatim>\<open>rt_realloc\<close> of a region returns, on each of its branches, and keeps every other region with its
  contents. When it returns a pointer, there is a region of at least the rounded size with the contents of the old one up to the
  smaller of the two sizes; when it returns null the heap is as before, or the rounded size was 0 and the region is released.\<close>

theorem realloc_keeps_contents:
  assumes "heap_ok h" "(p, n) \<in> set (regions h)"
  shows "\<exists>r h'. rt_realloc False name (Some p) sz h = Some (r, h') \<and> heap_ok h' \<and> kept (p, n) h h' \<and>
    (case r of None \<Rightarrow> h' = h \<or> RT_ALIGN sz 4 = 0 \<and> regions h' = remove1 (p, n) (regions h)
     | Some q \<Rightarrow> moved p n (RT_ALIGN sz 4) q h h')"
  by (rule realloc_region [OF assms])

theorem realloc_keeps_contents_witness:
  "\<exists>p n h r h'. (p, n) \<in> set (regions h) \<and> rt_realloc False None (Some p) 8 h = Some (r, h') \<and> heap_ok h' \<and> kept (p, n) h h'"
proof -
  obtain p n h where r: "(p, n) \<in> set (regions h)" "heap_ok h" using demo_region by blast
  show ?thesis using realloc_keeps_contents [OF r(2,1), of None 8] r(1) by blast
qed

text \<open>Shrinking a region in place can leave \<^verbatim>\<open>lfree\<close> above a free block. When \<^verbatim>\<open>rt_realloc\<close> cuts the end off a region
  that lies below \<^verbatim>\<open>lfree\<close> and does not touch it, the part cut off becomes a free block and \<^verbatim>\<open>lfree\<close> stays: it is no longer the
  lowest free block, and \<^verbatim>\<open>rt_malloc\<close>, which searches upwards from \<^verbatim>\<open>lfree\<close>, does not see the new one.\<close>

theorem realloc_loses_lowest:
  assumes "heap_ok h" "lfree_lowest h" "(p, n) \<in> set (regions h)" "p < heap_ptr h + lfree h" "p + n \<noteq> heap_ptr h + lfree h"
    and "RT_ALIGN sz 4 \<noteq> 0" "unat (RT_ALIGN sz 4) + 28 < unat n"
  shows "\<exists>h'. rt_realloc False name (Some p) sz h = Some (Some p, h') \<and> \<not> lfree_lowest h' \<and> lfree h' = lfree h"
proof -
  obtain h' where "rt_realloc False name (Some p) sz h = Some (Some p, h')" "p - heap_ptr h + RT_ALIGN sz 4 \<in> set (heap_blocks h')"
    "h_used (heads h' (p - heap_ptr h + RT_ALIGN sz 4)) = 0" "p - heap_ptr h + RT_ALIGN sz 4 < lfree h'" "lfree h' = lfree h"
    using shrink_below_lfree [OF assms, of name] by blast
  then show ?thesis by (auto simp: lfree_lowest_def lowest_def)
qed

theorem realloc_loses_lowest_witness:
  "\<exists>h h'. lfree_lowest h \<and> rt_realloc False None (Some 4112) 8 h = Some (Some 4112, h') \<and> \<not> lfree_lowest h'"
proof -
  obtain h1 h2 where m: "rt_malloc False None 100 demo_heap = Some (Some 4112, h1)" "used_mem h1 = 116"
    "rt_malloc False None 20 h1 = Some (Some 4228, h2)" and f: "lfree h2 = 152" "heap_ptr h2 = 4096"
    by (rule demo_two_blocks)
  note r1 = malloc_on_regions [OF demo_heap_ok(1) m(1)]
  note r2 = malloc_on_regions [OF r1(1) m(3)]
  have "used_mem demo_heap = 0" by (simp add: demo_heap_eq zero_heap_def)
  then have "(4112, 100) \<in> set (regions h1)" using r1(4) m(2) demo_heap_ok(3) by (auto simp: eq_diff_eq [symmetric])
  then have r: "(4112, 100) \<in> set (regions h2)" using r2(4) by auto
  have low: "lfree_lowest h2" using r2(3) r1(3) demo_heap_ok(2) by blast
  have "RT_ALIGN 8 4 = 8" by (simp add: RT_ALIGN_def)
  with low show ?thesis using realloc_loses_lowest [OF r2(1) low r, of 8 None] f by auto
qed

text \<open>A size within three bytes of the largest 32-bit number wraps around to 0 when \<^verbatim>\<open>rt_malloc\<close> rounds it up,
  passes the check against the size of the heap, and is served as a request for one byte.\<close>

theorem malloc_size_wraps:
  assumes "heap_ok h" "2 ^ 32 - 3 \<le> unat sz"
  shows "rt_malloc False name sz h = rt_malloc False name 1 h"
proof -
  have "sz = 0xFFFFFFFD \<or> sz = 0xFFFFFFFE \<or> sz = 0xFFFFFFFF"
    using assms(2) unat_less_2_32 [of sz] by (simp add: word_unat_eq_iff) arith
  then have a: "RT_ALIGN sz 4 = 0" "sz \<noteq> 0" by (auto simp: RT_ALIGN_def)
  have "\<not> mem_size_aligned h < 4"
    using layout0D(5) [OF layoutD(1) [OF heap_okD(1) [OF assms(1)]]] by (simp add: word_less_nat_alt)
  moreover have "RT_ALIGN 1 4 = 4" by (simp add: RT_ALIGN_def)
  ultimately show ?thesis using a by (simp add: rt_malloc_def)
qed

theorem malloc_size_wraps_witness:
  "heap_ok demo_heap \<and> rt_malloc False None 0xFFFFFFFF demo_heap = rt_malloc False None 1 demo_heap"
proof -
  have "2 ^ 32 - 3 \<le> unat (0xFFFFFFFF :: u32)" by simp
  then show ?thesis using malloc_size_wraps [OF demo_heap_ok(1)] demo_heap_ok(1) by blast
qed

end
