(* ===== verification/MemServices.thy ===== *)
theory MemServices
  imports MemRun
begin

text \<open>
  The services on the heap: duplicating a string, and blocks at an aligned address.
\<close>

section \<open>Alignment\<close>

lemma unat_take_bit_mod: "unat (take_bit k (w :: u32)) = unat w mod 2 ^ k"
  by (subst unsigned_take_bit_eq) (rule take_bit_eq_mod)

lemma and_mask_zero: "(w :: u32) AND mask k = 0 \<longleftrightarrow> unat w mod 2 ^ k = 0"
  by (simp only: take_bit_eq_mask [symmetric] word_unat_eq_iff unat_take_bit_mod unsigned_0)

lemma and_not_mask: "unat ((w :: u32) AND NOT (mask k)) = unat w div 2 ^ k * 2 ^ k"
proof -
  have "w AND NOT (mask k) = push_bit k (drop_bit k w)" by (rule bit_word_eqI) (auto simp: bit_simps)
  then have "(w AND NOT (mask k)) + take_bit k w = w" by (simp add: bits_ident)
  then have "w AND NOT (mask k) = w - take_bit k w" by (metis add_diff_cancel_right')
  moreover have "unat (w - take_bit k w) = unat w - unat w mod 2 ^ k"
    using unat_sub_u32 [of w "take_bit k w"] unfolding unat_take_bit_mod by simp
  ultimately have "unat (w AND NOT (mask k)) = unat w - unat w mod 2 ^ k" by metis
  then show ?thesis by (simp add: minus_mod_eq_div_mult)
qed

lemma unat_power_u32: "k < 32 \<Longrightarrow> unat (2 ^ k :: u32) = 2 ^ k"
proof -
  assume k: "k < 32"
  have "(2 :: nat) ^ k < 2 ^ LENGTH(32)" using k by (intro power_strict_increasing) auto
  then have "unat (of_nat (2 ^ k) :: u32) = 2 ^ k" by (simp only: unsigned_of_nat take_bit_nat_eq_self of_nat_id)
  then show "unat (2 ^ k :: u32) = 2 ^ k" by (metis of_nat_numeral of_nat_power)
qed

lemma round_up: "0 < d \<Longrightarrow> (p :: nat) \<le> (p + (d - 1)) div d * d" "0 < d \<Longrightarrow> (p + (d - 1)) div d * d \<le> p + d - 1"
proof -
  assume d: "0 < d"
  have e: "(p + (d - 1)) div d * d + (p + (d - 1)) mod d = p + (d - 1)" by simp
  show "p \<le> (p + (d - 1)) div d * d" using e mod_less_divisor [OF d, of "p + (d - 1)"] by linarith
  show "(p + (d - 1)) div d * d \<le> p + d - 1" using e d by linarith
qed

lemma align_up_props:
  assumes "2 \<le> k" "k < 32" "unat p mod 4 = 0" "unat p + 2 ^ k < 2 ^ 32"
  shows "unat (align_up (2 ^ k) p) mod 2 ^ k = 0" "unat p + 4 \<le> unat (align_up (2 ^ k) p)" "unat (align_up (2 ^ k) p) \<le> unat p + 2 ^ k"
proof -
  have m: "(2 ^ k - 1 :: u32) = mask k" by (simp add: mask_eq_exp_minus_1)
  obtain j where j: "(2 :: nat) ^ k = 4 * j" using assms(1) by (metis le_add_diff_inverse numeral_Bit0 power2_eq_square power_add mult_2 mult_2_right)
  have "unat (align_up (2 ^ k) p) mod 2 ^ k = 0 \<and> unat p + 4 \<le> unat (align_up (2 ^ k) p) \<and> unat (align_up (2 ^ k) p) \<le> unat p + 2 ^ k"
  proof (cases "unat p mod 2 ^ k = 0")
    case True
    have "unat (p + 2 ^ k) = unat p + 2 ^ k" using assms(4) unat_power_u32 [OF assms(2)] unat_add_no_wrap [of p "2 ^ k"] by simp
    moreover have "(4 :: nat) \<le> 2 ^ k" using power_increasing [OF assms(1), of "2 :: nat"] by simp
    ultimately show ?thesis using True by (simp add: align_up_def m and_mask_zero)
  next
    case False
    have "unat (mask k :: u32) = 2 ^ k - 1" 
      using unat_power_u32 [OF assms(2)] unat_pred [of "2 ^ k :: u32"] assms(2) by (simp add: m [symmetric])
    then have "unat (p + mask k) = unat p + (2 ^ k - 1)" using assms(4) unat_add_no_wrap [of p "mask k"] by simp
    then have e: "unat (align_up (2 ^ k) p) = (unat p + (2 ^ k - 1)) div 2 ^ k * 2 ^ k"
      using False by (simp add: align_up_def m and_mask_zero and_not_mask)
    define q where "q = unat (align_up (2 ^ k) p)"
    have le: "unat p \<le> q" "q \<le> unat p + 2 ^ k - 1"
      unfolding q_def e using round_up [of "2 ^ k" "unat p"] by simp_all
    have q: "q mod 2 ^ k = 0" by (simp add: q_def e)
    then have "unat p \<noteq> q" "q mod 4 = 0" using False by (auto simp: j mod_mult2_eq)
    then have "unat p + 4 \<le> q" using le(1) assms(3) by presburger
    then show ?thesis using q le(2) by (simp add: q_def [symmetric])
  qed
  then show "unat (align_up (2 ^ k) p) mod 2 ^ k = 0" "unat p + 4 \<le> unat (align_up (2 ^ k) p)" "unat (align_up (2 ^ k) p) \<le> unat p + 2 ^ k"
    by simp_all
qed

section \<open>Aligned blocks\<close>

lemma power_aligned:
  assumes "2 \<le> k" "k < 32"
  shows "((2 ^ k :: u32) + 3) AND NOT 3 = 2 ^ k"
proof -
  have u: "unat (2 ^ k :: u32) = 2 ^ k" by (rule unat_power_u32 [OF assms(2)])
  have "(2 :: nat) ^ k \<le> 2 ^ 31" using assms(2) by (intro power_increasing) auto
  moreover have "(2 :: nat) ^ k mod 4 = 0" using le_imp_power_dvd [OF assms(1), of "2 :: nat"] by auto
  moreover have "(n + 3) div 4 * 4 = n" if "n mod 4 = 0" for n :: nat using that by presburger
  ultimately have "unat (RT_ALIGN (2 ^ k) 4) = 2 ^ k" using unat_align(3) [of "2 ^ k"] u by simp
  then have "RT_ALIGN (2 ^ k) 4 = 2 ^ k" using u by (simp only: word_unat_eq_iff)
  then show ?thesis by (simp add: RT_ALIGN_def add.commute [of 3])
qed

lemma malloc_align_block:
  assumes "heap_ok h" "2 \<le> k" "k < 32" "unat sz + 3 + 2 ^ k < 2 ^ 32" "rt_malloc_align False name sz (2 ^ k) h = Some (Some q, h1)"
  obtains p n us vs where "regions h = us @ vs" "regions h1 = us @ (p, n) # vs" "heap_ok h1" "load_long (bytes h1) (q - 4) = p"
    "unat q mod 2 ^ k = 0" "unat p + 4 \<le> unat q" "unat q + unat sz \<le> unat p + unat n"
proof -
  define S where "S = RT_ALIGN sz 4"
  have S: "unat S mod 4 = 0" "unat sz \<le> unat S" "unat S \<le> unat sz + 3"
    using unat_align [of sz] assms(4) by (simp_all add: S_def)
  have pow: "unat (2 ^ k :: u32) = 2 ^ k" "(2 :: nat) ^ k mod 4 = 0"
    using unat_power_u32 [OF assms(3)] le_imp_power_dvd [OF assms(2), of "2 :: nat"] by auto
  have tot: "unat (S + 2 ^ k) = unat S + 2 ^ k" using unat_add_no_wrap [of S "2 ^ k"] S(3) pow(1) assms(4) by simp
  have tot4: "unat (S + 2 ^ k) + 3 < 2 ^ 32"
  proof -
    have "(a :: nat) + b + 3 < 4294967296" if "a mod 4 = 0" "b mod 4 = 0" "a + b < 4294967296" for a b using that by presburger
    from this [OF S(1) pow(2)] show ?thesis using unat_less_2_32 [of "S + 2 ^ k"] unfolding tot by simp
  qed
  obtain p h0 where m: "rt_malloc False name (S + 2 ^ k) h = Some (Some p, h0)" "q = align_up (2 ^ k) p"
    "h1 = h0\<lparr>bytes := store_long (q - 4) p (bytes h0)\<rparr>"
    using assms(5) power_aligned [OF assms(2,3)]
    by (auto simp: rt_malloc_align_def S_def RT_ALIGN_def Let_def add.commute elim!: bind_eq_SomeE split: option.splits)
  note r = malloc_on_regions [OF assms(1) m(1)]
  obtain us n vs where u: "regions h = us @ vs" "regions h0 = us @ (p, n) # vs" "unat (need (S + 2 ^ k)) \<le> unat n" using r(4) by blast
  have n: "unat S + 2 ^ k \<le> unat n" using need_props(4) [OF tot4] u(3) tot by simp
  have "(p, n) \<in> set (regions h0)" using u(2) by simp
  note ro = region_ok [OF r(1) this]
  have "unat p + 2 ^ k < 2 ^ 32" using ro(3,5) n by simp
  note al = align_up_props [OF assms(2,3) ro(1) this, folded m(2)]
  have "unat q + unat sz \<le> unat p + unat n" using al(3) n S(2) by simp
  then show ?thesis using that [of us vs p n] u(1,2) r(1) al(1,2) load_store_long m(3) by simp
qed

section \<open>Strings on the heap\<close>

lemma str_at_copied:
  assumes "str_at m s xs" "length xs + 1 < 2 ^ 32"
  shows "str_at (copied p s (of_nat (length xs) + 1) m) p xs"
proof -
  have "copied p s (of_nat (length xs) + 1) m (p + of_nat i) = m (s + of_nat i)" if "i \<le> length xs" for i
  proof -
    have "unat (of_nat (length xs) + 1 :: u32) = length xs + 1" "unat (of_nat i :: u32) = i"
      using assms(2) that unat_Suc_no_wrap [of "of_nat (length xs) :: u32"]
      by (simp_all add: unsigned_of_nat take_bit_nat_eq_self)
    then show ?thesis using that by (simp add: copied_def word_less_nat_alt)
  qed
  then show ?thesis using assms(1) str_at_cong [of xs] by blast
qed

text \<open>A string that a new block cannot overlap: it lies in a region, or outside the heap.\<close>

definition safe_string :: "sys_heap \<Rightarrow> u32 \<Rightarrow> nat \<Rightarrow> bool" where
  "safe_string h s len \<longleftrightarrow> unat s + len \<le> 2 ^ 32 \<and>
     ((\<exists>(r, l) \<in> set (regions h). unat r \<le> unat s \<and> unat s + len \<le> unat r + unat l) \<or>
     unat s + len \<le> unat (heap_ptr h) \<or> unat (heap_ptr h) + unat (heap_end h) \<le> unat s)"

lemma safe_string_apart:
  assumes "heap_ok h" "heap_ok h1" "same_memory h h1" "regions h = us @ vs" "regions h1 = us @ (p, n) # vs" "safe_string h s len" "unat c = len"
  shows "p - s \<ge> c"
proof -
  have mem: "(p, n) \<in> set (regions h1)" using assms(5) by simp
  note ro = region_ok [OF assms(2) mem]
  have eq: "heap_ptr h1 = heap_ptr h" "heap_end h1 = heap_end h" using assms(3) by (simp_all add: same_memory_def)
  have "unat s + len \<le> unat p \<or> unat p < unat s"
    using assms(6) [unfolded safe_string_def, THEN conjunct2]
  proof (elim disjE bexE)
    fix x assume x: "x \<in> set (regions h)" "case x of (r, l) \<Rightarrow> unat r \<le> unat s \<and> unat s + len \<le> unat r + unat l"
    obtain r l where rl: "x = (r, l)" by (cases x)
    have "(r, l) \<in> set (regions h1)" "(r, l) \<noteq> (p, n)"
      using x(1) rl assms(4,5) regions_distinct [OF assms(2)] by auto
    from regions_disjoint [OF assms(2) mem this(1) this(2) [symmetric]] show ?thesis using x(2) rl by auto
  qed (use ro eq in auto)
  then show ?thesis
    using assms(6) unfolding safe_string_def assms(7) [symmetric] by (auto simp: word_le_nat_alt unat_sub_u32)
qed

lemma strdup_block:
  assumes "heap_ok h" "str_at (bytes h) s xs" "length xs + 4 < 2 ^ 32" "safe_string h s (length xs + 1)"
  shows "\<exists>r h'. rt_strdup False name s h = Some (r, h') \<and> heap_ok h' \<and>
    (case r of None \<Rightarrow> h' = h
     | Some p \<Rightarrow> \<exists>n. (p, n) \<in> set (regions h') - set (regions h) \<and> length xs < unat n \<and> str_at (bytes h') p xs \<and> kept (p, n) h h')"
proof -
  define c :: u32 where "c = of_nat (length xs) + 1"
  have c: "unat c = length xs + 1"
    using assms(3) unat_Suc_no_wrap [of "of_nat (length xs) :: u32"] by (simp add: c_def unsigned_of_nat take_bit_nat_eq_self)
  obtain r h1 where m: "rt_malloc False name c h = Some (r, h1)" "r = None \<longrightarrow> h1 = h" using malloc_total [OF assms(1)] by blast
  have e: "rt_strdup False name s h = Some (case r of None \<Rightarrow> (None, h1) | Some p \<Rightarrow> (Some p, h1\<lparr>bytes := rt_memcpy p s c (bytes h1)\<rparr>))"
    using strlen_at [OF assms(2)] m(1) unfolding c_def by (simp add: rt_strdup_def)
  show ?thesis
  proof (cases r)
    case None
    then show ?thesis using e m(2) assms(1) by simp
  next
    case (Some p)
    note k = malloc_on_regions [OF assms(1) m(1) [unfolded Some]]
    obtain us n vs where u: "regions h = us @ vs" "regions h1 = us @ (p, n) # vs" "unat (need c) \<le> unat n" using k(4) by blast
    have cn: "length xs < unat n" "c \<le> n" using need_props(4) [of c] u(3) c assms(3) by (simp_all add: word_le_nat_alt)
    have cp: "rt_memcpy p s c (bytes h1) = copied p s c (bytes h)"
      using safe_string_apart [OF assms(1) k(1,2) u(1,2) assms(4) c] k(2) memcpy_copies [of p s c] by (simp add: same_memory_def)
    define h' where "h' = h1\<lparr>bytes := copied p s c (bytes h)\<rparr>"
    have h': "heap_ok h'" "regions h' = regions h1" "bytes h' = copied p s c (bytes h)" using k(1) by (simp_all add: h'_def)
    have mem: "(p, n) \<in> set (regions h1)" "(p, n) \<notin> set (regions h)" using u regions_distinct [OF k(1)] by auto
    have "bytes h' (a + i) = bytes h (a + i)" if "(a, l) \<in> set (regions h)" "i < l" for a l i
    proof -
      have "(a, l) \<in> set (regions h1)" "(a, l) \<noteq> (p, n)" using that(1) u(1,2) mem(2) by auto
      then show ?thesis using other_region [OF k(1) _ mem(1) _ that(2) cn(2)] by (simp add: h'(3) copied_def)
    qed
    then have "kept (p, n) h h'" using u(1,2) h'(2) by (auto simp: kept_def)
    moreover have "str_at (bytes h') p xs" using str_at_copied [OF assms(2)] assms(3) by (simp add: h'(3) c_def)
    ultimately show ?thesis using e Some cp h'(1,2) mem cn(1) by (auto simp: h'_def)
  qed
qed

section \<open>Properties\<close>

text \<open>Blocks from \<^verbatim>\<open>rt_malloc_align\<close>. For an alignment that is a power of two of at least 4, the address it returns has that
  alignment and the bytes asked for lie inside a new region, behind the word that keeps the address of the block;
  \<^verbatim>\<open>rt_free_align\<close> of that address returns and releases exactly this region.\<close>

theorem malloc_align_roundtrip:
  assumes "heap_ok h" "2 \<le> k" "k < 32" "unat sz + 3 + 2 ^ k < 2 ^ 32" "rt_malloc_align False name sz (2 ^ k) h = Some (Some q, h1)"
  shows "unat q mod 2 ^ k = 0 \<and> heap_ok h1 \<and>
    (\<exists>p n. (p, n) \<in> set (regions h1) \<and> unat p + 4 \<le> unat q \<and> unat q + unat sz \<le> unat p + unat n) \<and>
    (\<exists>h2. rt_free_align False q h1 = Some h2 \<and> heap_ok h2 \<and> regions h2 = regions h)"
proof -
  obtain p n us vs where b: "regions h = us @ vs" "regions h1 = us @ (p, n) # vs" "heap_ok h1" "load_long (bytes h1) (q - 4) = p"
    "unat q mod 2 ^ k = 0" "unat p + 4 \<le> unat q" "unat q + unat sz \<le> unat p + unat n"
    by (rule malloc_align_block [OF assms])
  have mem: "(p, n) \<in> set (regions h1)" using b(2) by simp
  have "p \<noteq> 0" using region_ok(2) [OF b(3) mem] by auto
  obtain h2 where "rt_free False (Some p) h1 = Some h2" "heap_ok h2" "regions h2 = remove1 (p, n) (regions h1)"
    by (rule free_on_regions [OF b(3) mem]) blast
  moreover have "remove1 (p, n) (regions h1) = regions h"
    using b(1,2) regions_distinct [OF b(3)] by (simp add: remove1_append)
  ultimately have "rt_free_align False q h1 = Some h2 \<and> heap_ok h2 \<and> regions h2 = regions h"
    using b(4) \<open>p \<noteq> 0\<close> by (simp add: rt_free_align_def)
  then show ?thesis using b(3,5-7) mem by blast
qed

theorem malloc_align_roundtrip_witness:
  "\<exists>q h1 h2. rt_malloc_align False None 20 16 demo_heap = Some (Some q, h1) \<and> unat q mod 16 = 0 \<and> rt_free_align False q h1 = Some h2 \<and> regions h2 = []"
proof -
  have "\<exists>p h1. rt_malloc False None 36 demo_heap = Some (Some p, h1)"
    unfolding demo_heap_eq zero_heap_def by (simp add: heap_run)
  then obtain q h1 where m: "rt_malloc_align False None 20 16 demo_heap = Some (Some q, h1)"
    by (auto simp: rt_malloc_align_def Let_def)
  then show ?thesis using malloc_align_roundtrip [OF demo_heap_ok(1), of 4 20 None q h1] demo_heap_ok(3) by auto
qed

text \<open>\<^verbatim>\<open>rt_strdup\<close> of a string that lies in a region of the heap or outside the heap returns; when it returns a pointer
  there is a new region with that string in it, and all other regions keep their contents; when it returns null the heap is as before.\<close>

theorem strdup_copies:
  assumes "heap_ok h" "str_at (bytes h) s xs" "length xs + 4 < 2 ^ 32" "safe_string h s (length xs + 1)"
  shows "\<exists>r h'. rt_strdup False name s h = Some (r, h') \<and> heap_ok h' \<and>
    (case r of None \<Rightarrow> h' = h
     | Some p \<Rightarrow> \<exists>n. (p, n) \<in> set (regions h') - set (regions h) \<and> length xs < unat n \<and> str_at (bytes h') p xs \<and> kept (p, n) h h')"
  by (rule strdup_block [OF assms])

theorem strdup_copies_witness:
  "\<exists>r h'. rt_strdup False None 100 (demo_heap\<lparr>bytes := (\<lambda>x. if x < 105 then 65 else 0)\<rparr>) = Some (r, h') \<and> heap_ok h'"
proof -
  let ?h = "demo_heap\<lparr>bytes := (\<lambda>x. if x < 105 then 65 else 0)\<rparr>"
  have "safe_string ?h 100 (length [65, 65, 65, 65, 65 :: u8] + 1)"
    by (simp add: safe_string_def demo_heap_eq)
  then show ?thesis using strdup_copies [of ?h 100 "[65, 65, 65, 65, 65]" None] demo_heap_ok(1) by auto
qed

end
