(* ===== verification/Alloc.thy ===== *)
theory Alloc
  imports Prelude
begin

text \<open>
  The contract of a memory manager, as the system heap (\<^verbatim>\<open>src/mem.c\<close>), the memory pools (\<^verbatim>\<open>src/mempool.c\<close>) and the memory heaps (\<^verbatim>\<open>src/memheap.c\<close>) implement it:
  an allocation that returns a block or null, a release, and the set of blocks that are handed out, each a start
  address with a size. A client that releases only what it holds then never fails, whatever it does in which order,
  and holds exactly the blocks that are handed out.
\<close>

datatype 'r client_op = Alloc 'r | Release nat

text \<open>A client keeps the pointers it got; \<open>Release i\<close> gives back the one at position \<open>i\<close>.\<close>

fun client_run ::
    "('r \<Rightarrow> 's \<Rightarrow> (u32 option \<times> 's) option) \<Rightarrow> (u32 \<Rightarrow> 's \<Rightarrow> 's option) \<Rightarrow> 'r client_op list \<Rightarrow> u32 list \<Rightarrow> 's \<Rightarrow>
     (u32 list \<times> 's) option" where
  "client_run alloc release [] held s = Some (held, s)"
| "client_run alloc release (Alloc r # ops) held s = do {
     (p, s') \<leftarrow> alloc r s;
     client_run alloc release ops (case p of None \<Rightarrow> held | Some q \<Rightarrow> q # held) s' }"
| "client_run alloc release (Release i # ops) held s =
     (if i < length held then do {
        s' \<leftarrow> release (held ! i) s;
        client_run alloc release ops (take i held @ drop (Suc i) held) s' }
      else client_run alloc release ops held s)"

locale block_store =
  fixes inv :: "'s \<Rightarrow> bool" and blocks :: "'s \<Rightarrow> (u32 \<times> u32) set"
    and alloc :: "'r \<Rightarrow> 's \<Rightarrow> (u32 option \<times> 's) option" and release :: "u32 \<Rightarrow> 's \<Rightarrow> 's option"
  assumes alloc_law: "inv s \<Longrightarrow> \<exists>p s'. alloc r s = Some (p, s') \<and> inv s' \<and>
      (case p of None \<Rightarrow> blocks s' = blocks s
       | Some q \<Rightarrow> q \<notin> fst ` blocks s \<and> (\<exists>n. blocks s' = insert (q, n) (blocks s)))"
    and release_law: "inv s \<Longrightarrow> (p, n) \<in> blocks s \<Longrightarrow>
      \<exists>s'. release p s = Some s' \<and> inv s' \<and> blocks s' = blocks s - {(p, n)}"
    and apart: "inv s \<Longrightarrow> (p, n) \<in> blocks s \<Longrightarrow> (q, m) \<in> blocks s \<Longrightarrow> (p, n) \<noteq> (q, m) \<Longrightarrow>
      p \<noteq> q \<and> (unat p + unat n \<le> unat q \<or> unat q + unat m \<le> unat p)"
begin

lemma starts_removed:
  assumes "inv s" "(p, n) \<in> blocks s"
  shows "fst ` (blocks s - {(p, n)}) = fst ` blocks s - {p}"
proof -
  have "m = n" if "(p, m) \<in> blocks s" for m using apart [OF assms(1,2) that] by auto
  then show ?thesis by force
qed

lemma run_safe:
  assumes "inv s" "distinct held" "set held = fst ` blocks s"
  shows "\<exists>held' s'. client_run alloc release ops held s = Some (held', s') \<and> inv s' \<and> distinct held' \<and> set held' = fst ` blocks s'"
  using assms
proof (induction ops arbitrary: held s)
  case Nil
  then show ?case by simp
next
  case (Cons x ops)
  show ?case
  proof (cases x)
    case (Alloc r)
    obtain p s1 where s1: "alloc r s = Some (p, s1)" "inv s1"
      "case p of None \<Rightarrow> blocks s1 = blocks s | Some q \<Rightarrow> q \<notin> fst ` blocks s \<and> (\<exists>n. blocks s1 = insert (q, n) (blocks s))"
      using alloc_law [OF Cons.prems(1)] by blast
    have "distinct (case p of None \<Rightarrow> held | Some q \<Rightarrow> q # held)" "set (case p of None \<Rightarrow> held | Some q \<Rightarrow> q # held) = fst ` blocks s1"
      using s1(3) Cons.prems(2,3) by (auto split: option.splits)
    from Cons.IH [OF s1(2) this] Alloc s1(1) show ?thesis by simp
  next
    case (Release i)
    show ?thesis
    proof (cases "i < length held")
      case True
      obtain n where n: "(held ! i, n) \<in> blocks s" using Cons.prems(3) nth_mem [OF True] by auto
      obtain s1 where s1: "release (held ! i) s = Some s1" "inv s1" "blocks s1 = blocks s - {(held ! i, n)}"
        using release_law [OF Cons.prems(1) n] by blast
      have h: "held = take i held @ held ! i # drop (Suc i) held" by (rule id_take_nth_drop [OF True])
      then have "distinct (take i held @ held ! i # drop (Suc i) held)" using Cons.prems(2) by metis
      moreover have "set held = insert (held ! i) (set (take i held @ drop (Suc i) held))" by (subst h) auto
      ultimately have "distinct (take i held @ drop (Suc i) held)"
        "set (take i held @ drop (Suc i) held) = fst ` blocks s1"
        using starts_removed [OF Cons.prems(1) n] Cons.prems(3) s1(3) by auto
      from Cons.IH [OF s1(2) this] Release True s1(1) show ?thesis by simp
    next
      case False
      with Cons.IH [OF Cons.prems] Release show ?thesis by simp
    qed
  qed
qed

text \<open>From a state without blocks, what the client holds at the end are disjoint blocks.\<close>

lemma held_apart:
  assumes "inv s" "blocks s = {}"
  shows "\<exists>held s'. client_run alloc release ops [] s = Some (held, s') \<and> inv s' \<and> distinct held \<and> set held = fst ` blocks s' \<and>
    (\<forall>(p, n) \<in> blocks s'. \<forall>(q, m) \<in> blocks s'. (p, n) \<noteq> (q, m) \<longrightarrow> unat p + unat n \<le> unat q \<or> unat q + unat m \<le> unat p)"
proof -
  obtain held s' where r: "client_run alloc release ops [] s = Some (held, s')" "inv s'" "distinct held" "set held = fst ` blocks s'"
    using run_safe [OF assms(1), of "[]" ops] assms(2) by auto
  have "unat p + unat n \<le> unat q \<or> unat q + unat m \<le> unat p"
    if "(p, n) \<in> blocks s'" "(q, m) \<in> blocks s'" "(p, n) \<noteq> (q, m)" for p n q m
    using apart [OF r(2) that] by (rule conjunct2)
  then have "\<forall>(p, n) \<in> blocks s'. \<forall>(q, m) \<in> blocks s'. (p, n) \<noteq> (q, m) \<longrightarrow> unat p + unat n \<le> unat q \<or> unat q + unat m \<le> unat p"
    unfolding split_beta by (metis prod.collapse)
  with r show ?thesis by blast
qed

end

end
