(* ===== verification/MemPoolProps.thy ===== *)
theory MemPoolProps
  imports MemPool MemServices Alloc
begin

text \<open>
  Properties of memory pools: initialisation links every block, allocation and release refine taking from and putting to the
  front of a list of free blocks together with the wait queue, and any sequence of allocations and releases
  hands out blocks that are apart. The heap and the pools both keep the contract of a memory manager.
\<close>

section \<open>Waiting and waking\<close>

text \<open>The free blocks, and the threads that wait, the newest first.\<close>

definition mp_abs :: "nat \<Rightarrow> pool_state \<Rightarrow> u32 list \<times> nat list" where
  "mp_abs a w = (mp_free_blocks a w, tlists (kern w) (Suspend a))"

lemma mp_wait_total:
  assumes "sched_inv k" "may_block c t k" "time \<noteq> 0x7fffffff"
  obtains k' where "mp_wait c a t time (set_error t RT_EOK k) = Some k'" "sched_inv k'" "tlists k' (Suspend a) = t # tlists k (Suspend a)"
    "\<And>m. is_wq m \<Longrightarrow> m \<noteq> Suspend a \<Longrightarrow> tlists k' m = tlists k m" "ipc_part k' = ipc_part k"
proof -
  let ?k = "set_error t RT_EOK k" and ?B = "t # tlists k (Suspend a)"
  have k: "sched_inv ?k" "may_block c t ?k" using assms by (simp_all add: may_block_set_error)
  obtain r k0 where k0: "rt_thread_suspend c t ?k = Some (r, k0)" using suspend_total [OF k(2)] by blast
  note sr = suspend_running [OF k(1) may_blockD(6) [OF k(2)] k0]
  have B: "distinct ?B" "set ?B = insert t (set (tlists ?k (Suspend a)))"
    using sr(1,4) tlists_okD(1) [OF sched_inv_exD(1) [OF k(1)], of "Suspend a"] by (auto simp: off_lists_def)
  have e: "tlist_insert_after (Suspend a) t k0 = k0\<lparr>tlists := (tlists ?k)(Suspend a := ?B)\<rparr>"
    using sr(1) by (simp add: tlist_insert_after_def)
  obtain k2 k' where k': "(if 0 < sint time then do {
              (_, _, k') \<leftarrow> rt_timer_control (ThreadTimer t) Ctrl_set_time time (tlist_insert_after (Suspend a) t k0);
              rt_timer_start c (ThreadTimer t) k' }
            else Some (tlist_insert_after (Suspend a) t k0)) = Some k2"
    "rt_schedule c k2 = Some k'" "sched_inv k'" "ipc_part k' = ipc_part ?k"
    "tlists k' (Suspend a) = ?B" "\<And>m. is_wq m \<Longrightarrow> m \<noteq> Suspend a \<Longrightarrow> tlists k' m = tlists ?k m"
    unfolding e by (rule block_total [OF k assms(3) wq_lists(1) k0 B]) blast
  have "mp_wait c a t time ?k = Some k'" using k0 k'(1,2) by (simp add: mp_wait_def)
  with that k'(3-6) show ?thesis by simp
qed

lemma free_list_empty: "pool_ok a w \<Longrightarrow> mp_free_blocks a w = [] \<longleftrightarrow> block_free_count (pools w a) = 0"
  using pool_okD(4) [of a w] by (auto simp: unat_eq_zero)

lemma alloc_takes:
  assumes "pool_ok a w" "mp_free_blocks a w = x # xs"
  obtains w' where "mp_alloc_loop c a th time w = Some (Block (Some (x + 4)), w')" "pool_ok a w'" "mp_free_blocks a w' = xs"
    "w' = set_mem (store_long x (of_nat a) (mem_of w)) (set_pool a ((pools w a)
       \<lparr>block_free_count := block_free_count (pools w a) - 1, block_list := load_long (mem_of w) x\<rparr>) w)"
proof -
  obtain w' where w': "mp_take a w = Some (x + 4, w')" "pool_ok a w'" "mp_free_blocks a w' = xs"
    "w' = set_mem (store_long x (of_nat a) (mem_of w)) (set_pool a ((pools w a)
       \<lparr>block_free_count := block_free_count (pools w a) - 1, block_list := load_long (mem_of w) x\<rparr>) w)"
    by (rule mp_take_ok [OF assms])
  moreover have "block_free_count (pools w a) \<noteq> 0" using free_list_empty [OF assms(1)] assms(2) by simp
  ultimately show ?thesis using that [of w'] by (simp add: mp_alloc_loop_def)
qed

lemma tlists_set_errno [simp]: "tlists (snd (rt_set_errno c e ek)) = tlists (snd ek)"
  by (simp add: rt_set_errno_def split: option.split)

lemma alloc_times_out:
  assumes "pool_ok a w" "mp_free_blocks a w = []"
  obtains w' where "mp_alloc_loop c a th 0 w = Some (Block None, w')" "pool_ok a w'" "mp_abs a w' = mp_abs a w" "heap w' = heap w" "pools w' = pools w"
    "rt_get_errno c (rt_errno w', kern w') = - RT_ETIMEOUT"
proof -
  obtain e k where ek: "rt_set_errno c (- RT_ETIMEOUT) (rt_errno w, kern w) = (e, k)" by fastforce
  let ?w = "w\<lparr>rt_errno := e, kern := k\<rparr>"
  have z: "block_free_count (pools w a) = 0" using free_list_empty [OF assms(1)] assms(2) by simp
  have "mp_alloc_loop c a th 0 w = Some (Block None, ?w)" using z ek by (simp add: mp_alloc_loop_def)
  moreover have "pool_ok a ?w" "mp_free_blocks a ?w = mp_free_blocks a w" using assms(1) pool_ok_cong [of ?w a w] by simp_all
  moreover have "tlists k = tlists (kern w)" using tlists_set_errno [of c "- RT_ETIMEOUT" "(rt_errno w, kern w)"] ek by simp
  moreover have "rt_get_errno c (e, k) = - RT_ETIMEOUT" using errno_roundtrip(1) [of c "- RT_ETIMEOUT" "(rt_errno w, kern w)"] ek by simp
  ultimately show ?thesis using that [of ?w] by (simp add: mp_abs_def)
qed

section \<open>Blocks in use\<close>

definition mp_used :: "nat \<Rightarrow> pool_state \<Rightarrow> u32 set" where
  "mp_used a w = set (pool_blocks (pools w a)) - set (mp_free_blocks a w)"

text \<open>Start and size of the blocks that are handed out.\<close>

definition mp_regions :: "nat \<Rightarrow> pool_state \<Rightarrow> (u32 \<times> u32) set" where
  "mp_regions a w = (\<lambda>x. (x + 4, block_size (pools w a))) ` mp_used a w"

lemma used_finite [simp]: "finite (mp_used a w)" by (simp add: mp_used_def)

lemma used_card:
  assumes "pool_ok a w"
  shows "card (mp_used a w) + length (mp_free_blocks a w) = unat (block_total_count (pools w a))"
proof -
  note p = pool_okD [OF assms]
  have "card (mp_used a w) = card (set (pool_blocks (pools w a))) - card (set (mp_free_blocks a w))"
    unfolding mp_used_def using p(6) by (intro card_Diff_subset) auto
  moreover have "card (set (mp_free_blocks a w)) \<le> card (set (pool_blocks (pools w a)))" using p(6) by (intro card_mono) auto
  moreover have "card (set (pool_blocks (pools w a))) = unat (block_total_count (pools w a))"
    using distinct_card [OF pool_blocks_distinct [OF p(1)]] by (simp add: pool_blocks_def)
  moreover have "card (set (mp_free_blocks a w)) = length (mp_free_blocks a w)" using p(5) by (rule distinct_card)
  ultimately show ?thesis by simp
qed

lemma regions_inside:
  assumes "pool_ok a w" "(p, n) \<in> mp_regions a w"
  shows "unat (start_address (pools w a)) + 4 \<le> unat p"
    "unat p + unat n \<le> unat (start_address (pools w a)) + unat (block_total_count (pools w a)) * (unat (block_size (pools w a)) + 4)"
    "p - 4 \<in> mp_used a w" "n = block_size (pools w a)" "unat p = unat (p - 4) + 4"
proof -
  obtain x where x: "x \<in> mp_used a w" "p = x + 4" "n = block_size (pools w a)" using assms(2) by (auto simp: mp_regions_def)
  note b = pool_block_bounds [OF pool_okD(1) [OF assms(1)], of x]
  have "x \<in> set (pool_blocks (pools w a))" using x(1) by (simp add: mp_used_def)
  note b = b [OF this]
  have "unat (x + 4) = unat x + 4" using b(3) by (intro unat_stride) simp
  then show "unat (start_address (pools w a)) + 4 \<le> unat p" "p - 4 \<in> mp_used a w" "n = block_size (pools w a)" "unat p = unat (p - 4) + 4"
    "unat p + unat n \<le> unat (start_address (pools w a)) + unat (block_total_count (pools w a)) * (unat (block_size (pools w a)) + 4)"
    using b x by simp_all
qed

lemma regions_apart_pool:
  assumes "pool_ok a w" "(p, n) \<in> mp_regions a w" "(q, m) \<in> mp_regions a w" "(p, n) \<noteq> (q, m)"
  shows "p \<noteq> q" "unat p + unat n \<le> unat q \<or> unat q + unat m \<le> unat p"
proof -
  note p = regions_inside [OF assms(1,2)] and q = regions_inside [OF assms(1,3)]
  show ne: "p \<noteq> q" using assms(4) p(4) q(4) by auto
  then have "p - 4 \<noteq> q - 4" by simp
  then show "unat p + unat n \<le> unat q \<or> unat q + unat m \<le> unat p"
    using pool_blocks_apart [OF pool_okD(1) [OF assms(1)], of "p - 4" "q - 4"] p(3-5) q(3-5) by (auto simp: mp_used_def)
qed

lemma take_used:
  assumes "pool_ok a w" "mp_free_blocks a w = x # xs" "mp_free_blocks a w' = xs" "pool_blocks (pools w' a) = pool_blocks (pools w a)"
  shows "mp_used a w' = insert x (mp_used a w)" "x \<notin> mp_used a w"
  using pool_okD(5,6) [OF assms(1)] by (auto simp: mp_used_def assms(2-4))

section \<open>The contract of a memory manager\<close>

text \<open>\<^verbatim>\<open>rt_mp_alloc\<close> without waiting.\<close>

definition mp_try_alloc :: "nat \<Rightarrow> nat \<Rightarrow> unit \<Rightarrow> pool_state \<Rightarrow> (u32 option \<times> pool_state) option" where
  "mp_try_alloc c a u w = (case rt_mp_alloc c a 0 w of Some (Block p, w') \<Rightarrow> Some (p, w') | _ \<Rightarrow> None)"

definition pool_idle :: "nat \<Rightarrow> pool_state \<Rightarrow> bool" where
  "pool_idle a w \<longleftrightarrow> pool_ok a w \<and> tlists (kern w) (Suspend a) = []"

lemma add_four_inj: "(\<lambda>x :: u32. (x + 4, b)) ` (A - {y}) = (\<lambda>x. (x + 4, b)) ` A - {(y + 4, b)}"
  by auto

lemma try_alloc_law:
  assumes "pool_idle a w"
  shows "\<exists>p w'. mp_try_alloc c a u w = Some (p, w') \<and> pool_idle a w' \<and>
      (case p of None \<Rightarrow> mp_regions a w' = mp_regions a w
       | Some q \<Rightarrow> q \<notin> fst ` mp_regions a w \<and> (\<exists>n. mp_regions a w' = insert (q, n) (mp_regions a w)))"
proof (cases "mp_free_blocks a w")
  case Nil
  obtain w' where "mp_alloc_loop c a (rt_thread_self c (kern w)) 0 w = Some (Block None, w')" "pool_ok a w'" "mp_abs a w' = mp_abs a w" "pools w' = pools w"
    by (rule alloc_times_out [OF _ Nil]) (use assms in \<open>auto simp: pool_idle_def\<close>)
  then show ?thesis using assms by (simp add: mp_try_alloc_def rt_mp_alloc_def pool_idle_def mp_abs_def mp_regions_def mp_used_def)
next
  case (Cons x xs)
  have ok: "pool_ok a w" using assms by (simp add: pool_idle_def)
  obtain w' where w': "mp_alloc_loop c a (rt_thread_self c (kern w)) 0 w = Some (Block (Some (x + 4)), w')" "pool_ok a w'" "mp_free_blocks a w' = xs"
    "w' = set_mem (store_long x (of_nat a) (mem_of w)) (set_pool a ((pools w a)
       \<lparr>block_free_count := block_free_count (pools w a) - 1, block_list := load_long (mem_of w) x\<rparr>) w)"
    by (rule alloc_takes [OF ok Cons])
  have b: "pool_blocks (pools w' a) = pool_blocks (pools w a)" "block_size (pools w' a) = block_size (pools w a)"
    by (simp_all add: w'(4))
  note u = take_used [OF ok Cons w'(3) b(1)]
  have "mp_regions a w' = insert (x + 4, block_size (pools w a)) (mp_regions a w)" by (simp add: mp_regions_def u(1) b(2))
  moreover have "x + 4 \<notin> fst ` mp_regions a w" using u(2) by (auto simp: mp_regions_def)
  moreover have "pool_idle a w'" using w'(2) assms by (simp add: pool_idle_def w'(4))
  ultimately show ?thesis using w'(1) by (auto simp: mp_try_alloc_def rt_mp_alloc_def)
qed

lemma free_law:
  assumes "pool_idle a w" "(p, n) \<in> mp_regions a w"
  shows "\<exists>w'. rt_mp_free c p w = Some w' \<and> pool_idle a w' \<and> mp_regions a w' = mp_regions a w - {(p, n)}"
proof -
  have ok: "pool_ok a w" using assms(1) by (simp add: pool_idle_def)
  note r = regions_inside [OF ok assms(2)]
  have x: "p - 4 \<in> set (pool_blocks (pools w a))" "p - 4 \<notin> set (mp_free_blocks a w)" using r(3) by (simp_all add: mp_used_def)
  note f = mp_push_ok [OF ok x]
  have "mp_used a (mp_push a (p - 4) w) = mp_used a w - {p - 4}"
    using f(2) by (auto simp: mp_used_def mp_push_def)
  then have "mp_regions a (mp_push a (p - 4) w) = mp_regions a w - {(p, n)}"
    by (simp add: mp_regions_def add_four_inj r(4)) (simp add: mp_push_def)
  moreover have "pool_idle a (mp_push a (p - 4) w)" using f(1) assms(1) by (simp add: pool_idle_def) (simp add: mp_push_def)
  ultimately show ?thesis using f(3) [of c] assms(1) by (simp add: pool_idle_def)
qed

interpretation pool_store: block_store "pool_idle a" "mp_regions a" "mp_try_alloc c a" "rt_mp_free c" for a c
proof
  fix w p n q m
  assume i: "pool_idle a w"
  show "\<exists>p w'. mp_try_alloc c a u w = Some (p, w') \<and> pool_idle a w' \<and>
      (case p of None \<Rightarrow> mp_regions a w' = mp_regions a w
       | Some q \<Rightarrow> q \<notin> fst ` mp_regions a w \<and> (\<exists>n. mp_regions a w' = insert (q, n) (mp_regions a w)))" for u
    by (rule try_alloc_law [OF i])
  assume r: "(p, n) \<in> mp_regions a w"
  show "\<exists>w'. rt_mp_free c p w = Some w' \<and> pool_idle a w' \<and> mp_regions a w' = mp_regions a w - {(p, n)}"
    by (rule free_law [OF i r])
  assume "(q, m) \<in> mp_regions a w" "(p, n) \<noteq> (q, m)"
  then show "p \<noteq> q \<and> (unat p + unat n \<le> unat q \<or> unat q + unat m \<le> unat p)"
    using regions_apart_pool i r unfolding pool_idle_def by blast
qed

lemma malloc_law:
  assumes "heap_ok h"
  shows "\<exists>p h'. rt_malloc False name sz h = Some (p, h') \<and> heap_ok h' \<and>
      (case p of None \<Rightarrow> set (regions h') = set (regions h)
       | Some q \<Rightarrow> q \<notin> fst ` set (regions h) \<and> (\<exists>n. set (regions h') = insert (q, n) (set (regions h))))"
proof -
  obtain r h' where m: "rt_malloc False name sz h = Some (r, h')" "r = None \<longrightarrow> h' = h" using malloc_total [OF assms] by blast
  show ?thesis
  proof (cases r)
    case (Some p)
    note r = malloc_on_regions [OF assms m(1) [unfolded Some]]
    obtain us n vs where u: "regions h = us @ vs" "regions h' = us @ (p, n) # vs" using r(4) by blast
    have "p \<notin> fst ` set (regions h)"
    proof
      assume "p \<in> fst ` set (regions h)"
      then obtain l where "(p, l) \<in> set (regions h)" by force
      then have l: "(p, l) \<in> set (us @ vs)" using u(1) by simp
      have "(p, l) \<noteq> (p, n)" using regions_distinct [OF r(1)] l by (auto simp: u(2))
      then show False using regions_disjoint [OF r(1), of p l p n] l by (auto simp: u(2))
    qed
    then show ?thesis using m(1) Some r(1) by (auto simp: u)
  qed (use m assms in simp)
qed

interpretation heap_store: block_store heap_ok "\<lambda>h. set (regions h)" "rt_malloc False name" "\<lambda>p. rt_free False (Some p)" for name
proof
  fix h p n q m
  assume ok: "heap_ok h"
  show "\<exists>p h'. rt_malloc False name sz h = Some (p, h') \<and> heap_ok h' \<and>
      (case p of None \<Rightarrow> set (regions h') = set (regions h)
       | Some q \<Rightarrow> q \<notin> fst ` set (regions h) \<and> (\<exists>n. set (regions h') = insert (q, n) (set (regions h))))" for sz
    by (rule malloc_law [OF ok])
  assume r: "(p, n) \<in> set (regions h)"
  show "\<exists>h'. rt_free False (Some p) h = Some h' \<and> heap_ok h' \<and> set (regions h') = set (regions h) - {(p, n)}"
    by (rule free_on_regions [OF ok r]) (use regions_distinct [OF ok] in auto)
  assume "(q, m) \<in> set (regions h)" "(p, n) \<noteq> (q, m)"
  then show "p \<noteq> q \<and> (unat p + unat n \<le> unat q \<or> unat q + unat m \<le> unat p)"
    using regions_disjoint [OF ok r, of q m] by auto
qed

section \<open>Setting up a pool\<close>

lemma fresh_pool:
  assumes "pool_fits (pools w a)" "a < 2 ^ 32" "block_total_count (pools w a) \<noteq> 0" "block_list (pools w a) = start_address (pools w a)"
    "block_free_count (pools w a) = block_total_count (pools w a)"
  shows "pool_ok a (set_mem (init_blocks (pools w a) m) w)"
    "mp_free_blocks a (set_mem (init_blocks (pools w a) m) w) = pool_blocks (pools w a)"
proof -
  let ?w = "set_mem (init_blocks (pools w a) m) w"
  have ch: "free_chain (mem_of ?w) (block_list (pools ?w a)) (pool_blocks (pools w a))"
    using init_blocks_linked(1) [OF assms(1,3)] assms(4) by simp
  show "pool_ok a ?w" "mp_free_blocks a ?w = pool_blocks (pools w a)"
    using ch assms(1,2,5) pool_blocks_distinct [OF assms(1)]
    by (intro pool_okI [of ?w a "pool_blocks (pools w a)"]; simp add: pool_blocks_def [of "pools w a"])+
qed

lemma unat_align_down: "unat (RT_ALIGN_DOWN sz 4) = unat sz div 4 * 4"
  using and_not_mask [of sz 2] by (simp add: RT_ALIGN_DOWN_def mask_eq_exp_minus_1)

lemma unat_align_stride:
  assumes "unat bs + 7 < 2 ^ 32"
  shows "unat (RT_ALIGN bs 4 + 4) = (unat bs + 3) div 4 * 4 + 4" "unat (RT_ALIGN bs 4) = (unat bs + 3) div 4 * 4"
proof -
  show e: "unat (RT_ALIGN bs 4) = (unat bs + 3) div 4 * 4" using unat_align(3) [of bs] assms by simp
  have "(unat bs + 3) div 4 * 4 \<le> unat bs + 3" by simp
  then show "unat (RT_ALIGN bs 4 + 4) = (unat bs + 3) div 4 * 4 + 4" using unat_stride [of "RT_ALIGN bs 4"] e assms by simp
qed

lemma pool_blocks_cover:
  assumes "pool_fits mp" "\<not> (unat (start_address mp) \<le> unat x \<and>
    unat x < unat (start_address mp) + unat (block_total_count mp) * (unat (block_size mp) + 4))" "y \<in> set (pool_blocks mp)"
  shows "\<not> x - y < 4"
proof -
  note b = pool_block_bounds [OF assms(1,3)]
  have "unat (start_address mp) + unat (block_total_count mp) * (unat (block_size mp) + 4) < 2 ^ 32" using assms(1) by (simp add: pool_fits_def)
  then show ?thesis using b assms(2) unat_less_2_32 [of x] by (auto simp: word_less_nat_alt unat_sub_u32)
qed

lemma mp_init_ok:
  assumes "start \<noteq> 0" "0 < sz" "0 < bs" "unat start + unat sz < 2 ^ 32" "unat bs + 7 < 2 ^ 32" "a < 2 ^ 32"
    and "Obj a \<notin> set (containers (kern w) RT_Object_Class_MemPool)" "(unat bs + 3) div 4 * 4 + 4 \<le> unat sz div 4 * 4"
  obtains w' where "rt_mp_init a name start sz bs w = Some (RT_EOK, w')" "pool_ok a w'" "tlists (kern w') (Suspend a) = []"
    "mp_free_blocks a w' = pool_blocks (pools w' a)" "start_address (pools w' a) = start" "unat (block_size (pools w' a)) = (unat bs + 3) div 4 * 4"
    "unat (block_total_count (pools w' a)) = unat sz div 4 * 4 div ((unat bs + 3) div 4 * 4 + 4)"
    "\<And>x. \<not> (unat start \<le> unat x \<and> unat x < unat start + unat sz) \<Longrightarrow> mem_of w' x = mem_of w x"
proof -
  define st where "st = (unat bs + 3) div 4 * 4 + 4"
  define n where "n = unat sz div 4 * 4 div st"
  note al = unat_align_stride [OF assms(5)]
  define mp where "mp = \<lparr>start_address = start, pool_size = RT_ALIGN_DOWN sz 4, block_size = RT_ALIGN bs 4, block_list = start,
    block_total_count = RT_ALIGN_DOWN sz 4 div (RT_ALIGN bs 4 + 4), block_free_count = RT_ALIGN_DOWN sz 4 div (RT_ALIGN bs 4 + 4)\<rparr>"
  have new: "\<forall>y \<in> set (containers (kern w) RT_Object_Class_MemPool). y \<noteq> Obj a" using assms(7) by auto
  obtain k1 where k1: "rt_object_init (Obj a) RT_Object_Class_MemPool name (kern w) = Some k1"
    using new by (auto simp: rt_object_init_def rt_object_get_information_eq rt_object_classes_def)
  have cnt: "unat (block_total_count mp) = n" by (simp add: mp_def n_def st_def unat_div al(1) unat_align_down)
  have n: "0 < n" "n * st \<le> unat sz"
  proof -
    have "0 < st" by (simp add: st_def)
    then show "0 < n" using div_le_mono [OF assms(8) [folded st_def], of st] by (simp add: n_def)
    have "n * st \<le> unat sz div 4 * 4" by (simp add: n_def)
    then show "n * st \<le> unat sz" by (rule le_trans) simp
  qed
  have bs: "unat (block_size mp) = st - 4" "start_address mp = start" using al(2) by (simp_all add: mp_def st_def)
  have st: "unat (block_size mp) + 4 = st" "st < 2 ^ 32" using al(1) unat_less_2_32 [of "RT_ALIGN bs 4 + 4"] by (simp_all add: bs st_def)
  have fits: "pool_fits mp" using assms(1,4) n(2) st by (simp add: pool_fits_def cnt bs(2))
  let ?u = "set_pool a mp (w\<lparr>kern := rt_ipc_object_init a k1\<rparr>)"
  let ?w = "set_mem (init_blocks mp (mem_of w)) ?u"
  have nz: "block_total_count mp \<noteq> 0" using n(1) cnt by auto
  have stnz: "RT_ALIGN bs 4 + 4 \<noteq> 0" using al(1) by (auto simp: word_unat_eq_iff)
  have "rt_mp_init a name start sz bs w = Some (RT_EOK, ?w)"
    using assms(1-3) k1 stnz by (simp add: rt_mp_init_def Let_def mp_def)
  moreover have "pool_ok a ?w" "mp_free_blocks a ?w = pool_blocks (pools ?w a)"
    using fresh_pool [of ?u a "mem_of w"] fits nz assms(6) by (simp_all add: mp_def)
  moreover have "mem_of ?w x = mem_of w x" if "\<not> (unat start \<le> unat x \<and> unat x < unat start + unat sz)" for x
    using init_blocks_linked(2) [OF fits nz, of x "mem_of w"] pool_blocks_cover [OF fits, of x] that n(2)
    unfolding cnt st(1) bs(2) by auto
  moreover have "tlists (kern ?w) (Suspend a) = []" by (simp add: rt_ipc_object_init_def)
  ultimately show ?thesis using that [of ?w] cnt bs by (simp add: n_def st_def)
qed

lemma mp_create_ok:
  assumes "heap_ok (heap w)" "not_in_interrupt c (kern w)" "a < 2 ^ 32"
    and "unat bs + 7 < 2 ^ 32" "((unat bs + 3) div 4 * 4 + 4) * unat count + 3 < 2 ^ 32"
    and "rt_mp_create c tname name count bs (Some a) w = Some (Some a, w1)"
  obtains us n vs where "pool_idle a w1" "heap_ok (heap w1)" "length (mp_free_blocks a w1) = unat count"
    "regions (heap w) = us @ vs" "regions (heap w1) = us @ (start_address (pools w1 a), n) # vs"
    "((unat bs + 3) div 4 * 4 + 4) * unat count \<le> unat n" "start_address (pools w1 a) \<noteq> 0"
    "not_in_interrupt c (kern w1)" "o_type (obj (kern w1) (Obj a)) = RT_Object_Class_MemPool"
    "containers (kern w1) = (containers (kern w))(RT_Object_Class_MemPool := Obj a # containers (kern w) RT_Object_Class_MemPool)"
proof -
  note al = unat_align_stride [OF assms(4)]
  define st where "st = (unat bs + 3) div 4 * 4 + 4"
  define sz where "sz = (RT_ALIGN bs 4 + 4) * count"
  let ?cl = "RT_Object_Class_MemPool :: u8"
  let ?m = "memset_object ?cl a (kern w)"
  define k1 where "k1 = ?m\<lparr>obj := (obj ?m)(Obj a := \<lparr>o_name = take RT_NAME_MAX name, o_type = ?cl, o_flag = 0\<rparr>),
       containers := (containers (kern w))(?cl := Obj a # containers (kern w) ?cl)\<rparr>"
  have al1: "rt_object_allocate c ?cl name (Some a) (kern w) = Some (Some a, k1)"
    unfolding k1_def using assms(2) by (intro rt_object_allocate_Some) (simp_all add: rt_object_classes_def)
  have nest: "irq_nest (cpus k1 c) = 0" using assms(2) by (simp add: k1_def memset_object_def not_in_interrupt_def Let_def)
  have pos: "0 < count" "0 < bs" using assms(2,6) by (auto simp: rt_mp_create_def split: if_splits)
  have sz: "unat sz = st * unat count" using assms(5) al(1) by (simp add: sz_def st_def unat_word_ariths)
  obtain start h1 where m: "rt_malloc False tname sz (heap w) = Some (Some start, h1)"
    using assms(2,6) pos al1 nest
    by (auto simp: rt_mp_create_def Let_def sz_def [symmetric] elim!: bind_eq_SomeE split: option.splits)
  define mp where "mp = \<lparr>start_address = start, pool_size = sz, block_size = RT_ALIGN bs 4, block_list = start,
     block_total_count = count, block_free_count = count\<rparr>"
  let ?u = "set_pool a mp (w\<lparr>kern := rt_ipc_object_init a k1, heap := h1\<rparr>)"
  have w1: "w1 = set_mem (init_blocks mp (bytes h1)) ?u"
    using assms(2,6) pos al1 nest m by (simp add: rt_mp_create_def Let_def sz_def [symmetric] mp_def)
  note r = malloc_on_regions [OF assms(1) m]
  obtain us n vs where u: "regions (heap w) = us @ vs" "regions h1 = us @ (start, n) # vs" "unat (need sz) \<le> unat n" using r(4) by blast
  have n: "st * unat count \<le> unat n" using need_props(4) [of sz] u(3) sz assms(5) by (simp add: st_def)
  note ro = region_ok [OF r(1), of start n, unfolded u(2), simplified]
  have snz: "start \<noteq> 0" using ro(2) by (auto simp: word_unat_eq_iff)
  have "unat (block_size mp) + 4 = st" using al(2) by (simp add: mp_def st_def)
  moreover have "st < 2 ^ 32" using al(1) unat_less_2_32 [of "RT_ALIGN bs 4 + 4"] by (simp add: st_def)
  moreover have "unat start + unat count * st < 2 ^ 32" using n ro(3,5) by (simp add: mult.commute [of "unat count"])
  ultimately have "pool_fits mp" using snz by (simp add: pool_fits_def) (simp add: mp_def)
  then have ok: "pool_ok a w1" "mp_free_blocks a w1 = pool_blocks mp"
    using fresh_pool [of ?u a "bytes h1"] assms(3) pos(1) unfolding w1 by (simp_all add: mp_def)
  have w1s: "kern w1 = rt_ipc_object_init a k1" "heap w1 = h1\<lparr>bytes := init_blocks mp (bytes h1)\<rparr>" "pools w1 a = mp"
    by (simp_all add: w1 set_mem_def set_pool_def)
  have "pool_idle a w1" using ok(1) by (simp add: pool_idle_def w1s(1) rt_ipc_object_init_def)
  moreover have "length (mp_free_blocks a w1) = unat count" by (simp add: ok(2) pool_blocks_def) (simp add: mp_def)
  moreover have "start_address (pools w1 a) = start" by (simp add: w1s(3) mp_def)
  ultimately show ?thesis using that [of us vs n] r(1) u n nest snz
    by (simp add: w1s(1,2) st_def rt_ipc_object_init_def not_in_interrupt_def) (simp add: k1_def)
qed

lemma mp_delete_ok:
  assumes "heap_ok (heap w)" "(start_address (pools w a), n) \<in> set (regions (heap w))" "start_address (pools w a) \<noteq> 0"
    and "tlists (kern w) (Suspend a) = []" "not_in_interrupt c (kern w)" "o_type (obj (kern w) (Obj a)) = RT_Object_Class_MemPool"
  obtains w' where "rt_mp_delete c a w = Some (RT_EOK, w')" "heap_ok (heap w')"
    "regions (heap w') = remove1 (start_address (pools w a), n) (regions (heap w))"
    "containers (kern w') = (\<lambda>cl. removeAll (Obj a) (containers (kern w) cl))"
proof -
  let ?k = "container_remove (Obj a) (upd_obj (Obj a) (\<lambda>ob. ob\<lparr>o_type := 0\<rparr>) (kern w))"
  obtain h where h: "rt_free False (Some (start_address (pools w a))) (heap w) = Some h" "heap_ok h"
    "regions h = remove1 (start_address (pools w a), n) (regions (heap w))"
    by (rule free_on_regions [OF assms(1,2)])
  have "rt_ipc_list_resume_all c (Suspend a) (kern w) = Some (kern w)"
    using assms(4) by (subst rt_ipc_list_resume_all.simps) simp
  then have "rt_mp_delete c a w = Some (RT_EOK, w\<lparr>kern := ?k, heap := h\<rparr>)"
    using h(1) assms(3,5,6)
    by (simp add: rt_mp_delete_def not_in_interrupt_def has_class_def rt_object_get_type_def rt_object_is_systemobject_def rt_object_delete_def Let_def)
  with that [of "w\<lparr>kern := ?k, heap := h\<rparr>"] h show ?thesis by (simp add: container_remove_def)
qed

section \<open>A pool for the examples\<close>

definition no_pools :: pool_state where
  "no_pools = \<lparr>kern = zero_kernel, heap = zero_heap, pools = (\<lambda>_. zero_mempool), rt_errno = 0\<rparr>"

lemma no_pools_simps: "containers (kern no_pools) = (\<lambda>_. [])" "mem_of no_pools = (\<lambda>_. 0)"
  by (simp_all add: no_pools_def zero_defs zero_heap_def)

definition demo_mempool :: rt_mempool where
  "demo_mempool = \<lparr>start_address = 0x1000, pool_size = 24, block_size = 8, block_list = 0x1000, block_total_count = 2, block_free_count = 2\<rparr>"

definition demo_pool :: pool_state where
  "demo_pool = set_mem (init_blocks demo_mempool (\<lambda>_. 0)) \<lparr>kern = demo_object RT_Object_Class_MemPool, heap = zero_heap,
     pools = (\<lambda>_. demo_mempool), rt_errno = 0\<rparr>"

text \<open>The same pool with both blocks in use, and with one in use and thread 2 waiting.\<close>

definition demo_pool_used :: pool_state where
  "demo_pool_used = set_mem (store_long 0x100c 7 (store_long 0x1000 7 (\<lambda>_. 0)))
     (demo_pool\<lparr>pools := (\<lambda>_. demo_mempool\<lparr>block_list := 0, block_free_count := 0\<rparr>)\<rparr>)"

definition demo_pool_wait :: pool_state where
  "demo_pool_wait = demo_pool_used\<lparr>kern := demo_wait RT_Object_Class_MemPool (Suspend 7)\<rparr>"

lemma demo_fits: "pool_fits demo_mempool" "pool_blocks demo_mempool = [0x1000, 0x100c]"
  by (simp_all add: pool_fits_def demo_mempool_def pool_blocks_def block_addr_def upt_rec)

lemma demo_pool_ok: "pool_ok 7 demo_pool" "mp_free_blocks 7 demo_pool = [0x1000, 0x100c]"
  using fresh_pool [of "\<lparr>kern = demo_object RT_Object_Class_MemPool, heap = zero_heap, pools = (\<lambda>_. demo_mempool), rt_errno = 0\<rparr>" 7 "\<lambda>_. 0"] demo_fits
  by (simp_all add: demo_pool_def) (simp_all add: demo_mempool_def)

lemma demo_used_ok: "pool_ok 7 demo_pool_used" "mp_free_blocks 7 demo_pool_used = []"
proof -
  have b: "pool_blocks (demo_mempool\<lparr>block_list := 0, block_free_count := 0\<rparr>) = [0x1000, 0x100c]" "pool_fits (demo_mempool\<lparr>block_list := 0, block_free_count := 0\<rparr>)"
    using demo_fits by simp_all
  have "load_long (store_long 0x100c 7 (store_long 0x1000 7 (\<lambda>_. 0))) 0x1000 = 7"
    by (subst load_store_other) (simp_all add: load_store_long)
  then show "pool_ok 7 demo_pool_used" "mp_free_blocks 7 demo_pool_used = []"
    using b by (intro pool_okI [of demo_pool_used 7 "[]"]; auto simp: demo_pool_used_def load_store_long)+
qed

lemma demo_wait_ok: "pool_ok 7 demo_pool_wait" "mp_free_blocks 7 demo_pool_wait = []" "mp_used 7 demo_pool_wait = {0x1000, 0x100c}"
proof -
  show f: "pool_ok 7 demo_pool_wait" "mp_free_blocks 7 demo_pool_wait = []"
    using demo_used_ok pool_ok_cong [of demo_pool_wait 7 demo_pool_used] by (simp_all add: demo_pool_wait_def)
  show "mp_used 7 demo_pool_wait = {0x1000, 0x100c}"
    using demo_fits(2) by (simp add: mp_used_def f(2)) (simp add: demo_pool_wait_def demo_pool_used_def)
qed

section \<open>Properties\<close>

text \<open>\<^verbatim>\<open>rt_mp_alloc\<close> on a well-formed pool. When there is a free block it takes the first one off the list, writes only the word in
  front of that block, and returns the address behind it; the kernel is as before. Without a free block and without time it
  returns null, changes neither the pool nor the memory and sets the error number; with time the thread goes to the front of the wait
  queue, and the scheduler invariant holds. A thread that is woken gets null and changes nothing if it was
  woken with an error; otherwise it is as if it called again with the time that is left.\<close>

theorem mp_alloc_refines:
  assumes "pool_ok a w"
  shows "(\<forall>x xs. mp_free_blocks a w = x # xs \<longrightarrow> (\<exists>w'. rt_mp_alloc c a time w = Some (Block (Some (x + 4)), w') \<and> pool_ok a w' \<and>
      mp_abs a w' = (xs, snd (mp_abs a w)) \<and> mp_used a w' = insert x (mp_used a w) \<and> x \<notin> mp_used a w \<and> kern w' = kern w \<and>
      (\<forall>y. \<not> y - x < 4 \<longrightarrow> mem_of w' y = mem_of w y)))
    \<and> (mp_free_blocks a w = [] \<longrightarrow> (\<exists>w'. rt_mp_alloc c a 0 w = Some (Block None, w') \<and> pool_ok a w' \<and> mp_abs a w' = mp_abs a w \<and>
      heap w' = heap w \<and> rt_get_errno c (rt_errno w', kern w') = - RT_ETIMEOUT))
    \<and> (mp_free_blocks a w = [] \<longrightarrow> time \<noteq> 0 \<longrightarrow> time \<noteq> 0x7fffffff \<longrightarrow> sched_inv (kern w) \<longrightarrow> may_block c t (kern w) \<longrightarrow>
      (\<exists>s w'. rt_mp_alloc c a time w = Some (Blocked (t, time, s), w') \<and> pool_ok a w' \<and> mp_abs a w' = ([], t # snd (mp_abs a w)) \<and>
        heap w' = heap w \<and> sched_inv (kern w')))
    \<and> (rt_thread_self c (kern w) = Some t \<longrightarrow> rt_mp_alloc_resume c a (t, time, s) w =
      (if error (thr (kern w) t) \<noteq> RT_EOK then Some (Block None, w)
       else rt_mp_alloc c a (remaining_timeout time s (rt_tick_get (kern w))) w))"
proof (intro conjI allI impI)
  fix x xs assume f: "mp_free_blocks a w = x # xs"
  obtain w' where w': "rt_mp_alloc c a time w = Some (Block (Some (x + 4)), w')" "pool_ok a w'" "mp_free_blocks a w' = xs"
    "w' = set_mem (store_long x (of_nat a) (mem_of w)) (set_pool a ((pools w a)
       \<lparr>block_free_count := block_free_count (pools w a) - 1, block_list := load_long (mem_of w) x\<rparr>) w)"
    unfolding rt_mp_alloc_def by (rule alloc_takes [OF assms f])
  have "pool_blocks (pools w' a) = pool_blocks (pools w a)" by (simp add: w'(4))
  note u = take_used [OF assms f w'(3) this]
  have "mem_of w' y = mem_of w y" if "\<not> y - x < 4" for y using that by (simp add: w'(4) store_long_other)
  with w'(1-3) u show "\<exists>w'. rt_mp_alloc c a time w = Some (Block (Some (x + 4)), w') \<and> pool_ok a w' \<and>
      mp_abs a w' = (xs, snd (mp_abs a w)) \<and> mp_used a w' = insert x (mp_used a w) \<and> x \<notin> mp_used a w \<and> kern w' = kern w \<and>
      (\<forall>y. \<not> y - x < 4 \<longrightarrow> mem_of w' y = mem_of w y)"
    by (intro exI [of _ w']) (simp add: mp_abs_def, simp add: w'(4))
next
  assume f: "mp_free_blocks a w = []"
  show "\<exists>w'. rt_mp_alloc c a 0 w = Some (Block None, w') \<and> pool_ok a w' \<and> mp_abs a w' = mp_abs a w \<and>
      heap w' = heap w \<and> rt_get_errno c (rt_errno w', kern w') = - RT_ETIMEOUT"
    unfolding rt_mp_alloc_def by (rule alloc_times_out [OF assms f]) blast
next
  assume f: "mp_free_blocks a w = []" and t: "time \<noteq> 0" "time \<noteq> 0x7fffffff" and k: "sched_inv (kern w)" "may_block c t (kern w)"
  obtain k' where k': "mp_wait c a t time (set_error t RT_EOK (kern w)) = Some k'" "sched_inv k'"
    "tlists k' (Suspend a) = t # tlists (kern w) (Suspend a)"
    by (rule mp_wait_total [OF k t(2)])
  let ?w = "w\<lparr>kern := k'\<rparr>"
  have "pool_ok a ?w" "mp_free_blocks a ?w = []" using assms f pool_ok_cong [of ?w a w] by simp_all
  moreover have "block_free_count (pools w a) = 0" using free_list_empty [OF assms] f by simp
  ultimately show "\<exists>s w'. rt_mp_alloc c a time w = Some (Blocked (t, time, s), w') \<and> pool_ok a w' \<and> mp_abs a w' = ([], t # snd (mp_abs a w)) \<and>
        heap w' = heap w \<and> sched_inv (kern w')"
    using t(1) k' may_blockD(7,9) [OF k(2)]
    by (intro exI [of _ "if 0 < sint time then rt_tick_get (set_error t RT_EOK (kern w)) else 0"] exI [of _ ?w])
      (simp add: rt_mp_alloc_def mp_alloc_loop_def mp_abs_def in_thread_context_def)
qed (simp add: rt_mp_alloc_resume_def rt_mp_alloc_def)

theorem mp_alloc_refines_witness:
  "(\<exists>w'. rt_mp_alloc 0 7 5 demo_pool = Some (Block (Some 0x1004), w') \<and> mp_abs 7 w' = ([0x100c], snd (mp_abs 7 demo_pool))) \<and>
   (\<exists>s w'. rt_mp_alloc 0 7 5 demo_pool_used = Some (Blocked (1, 5, s), w') \<and> mp_abs 7 w' = ([], 1 # snd (mp_abs 7 demo_pool_used)))"
proof
  show "\<exists>w'. rt_mp_alloc 0 7 5 demo_pool = Some (Block (Some 0x1004), w') \<and> mp_abs 7 w' = ([0x100c], snd (mp_abs 7 demo_pool))"
    using conjunct1 [OF mp_alloc_refines [OF demo_pool_ok(1), of 0 5 1 0]] demo_pool_ok(2) by auto
  have "sched_inv (kern demo_pool_used)" "may_block 0 1 (kern demo_pool_used)"
    using demo_object_inv [of RT_Object_Class_MemPool] demo_may_block(1) by (simp_all add: demo_pool_used_def demo_pool_def)
  then show "\<exists>s w'. rt_mp_alloc 0 7 5 demo_pool_used = Some (Blocked (1, 5, s), w') \<and> mp_abs 7 w' = ([], 1 # snd (mp_abs 7 demo_pool_used))"
    using conjunct1 [OF conjunct2 [OF conjunct2 [OF mp_alloc_refines [OF demo_used_ok(1), of 0 5 1 0]]]] demo_used_ok(2) by auto
qed

text \<open>\<^verbatim>\<open>rt_mp_free\<close> of a block that is in use returns and puts the block at the front of the free list; the count goes up by one and no byte
  outside the word in front of the block changes. If threads wait the first one is woken with no error and the others stay in their order,
  and the scheduler invariant holds.\<close>

theorem mp_free_refines:
  assumes "pool_ok a w" "x \<in> mp_used a w" "sched_inv (kern w)" "cpu_live c (kern w)" "waiters_live (Suspend a) (kern w)"
  shows "\<exists>w'. rt_mp_free c (x + 4) w = Some w' \<and> pool_ok a w' \<and> mp_abs a w' = (x # mp_free_blocks a w, tl (tlists (kern w) (Suspend a))) \<and>
    mp_used a w' = mp_used a w - {x} \<and> sched_inv (kern w') \<and> ipc_part (kern w') = ipc_part (kern w) \<and>
    (\<forall>y. \<not> y - x < 4 \<longrightarrow> mem_of w' y = mem_of w y)"
proof -
  have x: "x \<in> set (pool_blocks (pools w a))" "x \<notin> set (mp_free_blocks a w)" using assms(2) by (simp_all add: mp_used_def)
  note f = mp_push_ok [OF assms(1) x]
  obtain k where k: "rt_mp_free c (x + 4) w = Some ((mp_push a x w)\<lparr>kern := k\<rparr>)" "sched_inv k" "ipc_part k = ipc_part (kern w)"
    "tlists k (Suspend a) = tl (tlists (kern w) (Suspend a))"
  proof (cases "tlists (kern w) (Suspend a)")
    case Nil
    then have "rt_mp_free c (x + 4) w = Some ((mp_push a x w)\<lparr>kern := kern w\<rparr>)" using f(3) [of c] by (simp add: mp_push_def set_mem_def set_pool_def)
    then show ?thesis using that [of "kern w"] assms(3) Nil by simp
  next
    case (Cons t ts)
    let ?k = "set_error t RT_EOK (kern w)"
    have pre: "sched_inv ?k" "cpu_live c ?k" "tlists ?k (Suspend a) = t # ts" "waiters_live (Suspend a) ?k"
      using assms(3-5) Cons by (simp_all add: may_block_set_error) (auto simp: cpu_live_def waiters_live_def is_timer_def rt_object_get_type_def no_signal_def set_error_def)
    obtain k1 k2 where k: "rt_ipc_list_resume c (Suspend a) ?k = Some k1" "rt_schedule c k1 = Some k2" "sched_inv k2"
      "ipc_part k2 = ipc_part ?k" "tlists k2 (Suspend a) = ts"
      by (rule wake_schedule [OF pre(1-3) wq_lists(1) pre(4)]) blast
    obtain r where "rt_thread_resume c t ?k = Some (r, k1)" using k(1) pre(3) by (auto simp: rt_ipc_list_resume_def)
    then have "rt_mp_free c (x + 4) w = Some ((mp_push a x w)\<lparr>kern := k2\<rparr>)" using f(3) [of c] Cons k(2) by simp
    then show ?thesis using that [of k2] k(3-5) Cons by simp
  qed
  let ?w = "(mp_push a x w)\<lparr>kern := k\<rparr>"
  have ok: "pool_ok a ?w" "mp_free_blocks a ?w = x # mp_free_blocks a w" using f(1,2) pool_ok_cong [of ?w a "mp_push a x w"] by simp_all
  moreover have "mp_used a ?w = mp_used a w - {x}" using ok(2) by (auto simp: mp_used_def mp_push_def)
  moreover have "mem_of ?w y = mem_of w y" if "\<not> y - x < 4" for y using that by (simp add: mp_push_def store_long_other)
  ultimately show ?thesis using k by (simp add: mp_abs_def)
qed

theorem mp_free_refines_witness:
  "\<exists>w'. rt_mp_free 0 0x1004 demo_pool_wait = Some w' \<and> mp_abs 7 w' = ([0x1000], [])"
proof -
  have "sched_inv (kern demo_pool_wait)" "cpu_live 0 (kern demo_pool_wait)" "waiters_live (Suspend 7) (kern demo_pool_wait)"
    using demo_wait_inv [of RT_Object_Class_MemPool "Suspend 7"] demo_wait_live by (simp_all add: demo_pool_wait_def)
  moreover have "tlists (kern demo_pool_wait) (Suspend 7) = [2]" by (simp add: demo_pool_wait_def demo_wait_def)
  ultimately show ?thesis using mp_free_refines [OF demo_wait_ok(1), where x = "0x1000" and c = 0] demo_wait_ok(2,3) by auto
qed

text \<open>Giving a block back right after taking it restores everything: the pool, every byte of the memory and the kernel.\<close>

theorem mp_alloc_free_roundtrip:
  assumes "pool_idle a w" "rt_mp_alloc c a time w = Some (Block (Some p), w1)"
  shows "rt_mp_free c p w1 = Some w"
proof -
  have ok: "pool_ok a w" and i: "tlists (kern w) (Suspend a) = []" using assms(1) by (simp_all add: pool_idle_def)
  have "block_free_count (pools w a) \<noteq> 0"
    using assms(2) by (auto simp: rt_mp_alloc_def mp_alloc_loop_def Let_def split: if_splits prod.splits elim!: bind_eq_SomeE)
  then obtain x xs where f: "mp_free_blocks a w = x # xs" using free_list_empty [OF ok] by (cases "mp_free_blocks a w") auto
  obtain w' where w': "mp_alloc_loop c a (rt_thread_self c (kern w)) time w = Some (Block (Some (x + 4)), w')" "pool_ok a w'" "mp_free_blocks a w' = xs"
    "w' = set_mem (store_long x (of_nat a) (mem_of w)) (set_pool a ((pools w a)
       \<lparr>block_free_count := block_free_count (pools w a) - 1, block_list := load_long (mem_of w) x\<rparr>) w)"
    by (rule alloc_takes [OF ok f])
  have e: "p = x + 4" "w1 = w'" using w'(1) assms(2) by (simp_all add: rt_mp_alloc_def)
  have x: "x \<in> set (pool_blocks (pools w' a))" "x \<notin> set (mp_free_blocks a w')" "block_list (pools w a) = x"
    using pool_okD(3,5,6) [OF ok] f w'(3) by (simp_all add: w'(4))
  have "(pools w a)\<lparr>block_list := x\<rparr> = pools w a" by (rule rt_mempool.equality) (use x(3) in simp_all)
  then have "(pools w)(a := (pools w a)\<lparr>block_list := x\<rparr>) = pools w" by (simp add: fun_upd_idem)
  then have "mp_push a x w' = w"
    using x(3) by (cases w) (simp add: mp_push_def w'(4) store_store_long store_load_long set_mem_def set_pool_def)
  then show ?thesis using mp_push_ok(3) [OF w'(2) x(1,2), of c] i by (simp add: e w'(4))
qed

theorem mp_alloc_free_roundtrip_witness:
  "\<exists>p w1. rt_mp_alloc 0 7 0 demo_pool = Some (Block (Some p), w1) \<and> rt_mp_free 0 p w1 = Some demo_pool"
proof -
  have i: "pool_idle 7 demo_pool" using demo_pool_ok(1) by (simp add: pool_idle_def demo_pool_def demo_object_def demo_defs)
  obtain w1 where "rt_mp_alloc 0 7 0 demo_pool = Some (Block (Some (0x1000 + 4)), w1)"
    unfolding rt_mp_alloc_def by (rule alloc_takes [OF demo_pool_ok])
  with mp_alloc_free_roundtrip [OF i this] show ?thesis by blast
qed

text \<open>\<^verbatim>\<open>rt_mp_init\<close> on memory that holds at least one block returns and makes an idle pool: as many blocks as fit, all of them on the free list in
  ascending order and none in use, and no byte outside the memory of the pool changes.\<close>

theorem mp_init_builds_pool:
  assumes "start \<noteq> 0" "0 < sz" "0 < bs" "unat start + unat sz < 2 ^ 32" "unat bs + 7 < 2 ^ 32" "a < 2 ^ 32"
    and "Obj a \<notin> set (containers (kern w) RT_Object_Class_MemPool)" "(unat bs + 3) div 4 * 4 + 4 \<le> unat sz div 4 * 4"
  shows "\<exists>w'. rt_mp_init a name start sz bs w = Some (RT_EOK, w') \<and> pool_idle a w' \<and> mp_used a w' = {} \<and>
    mp_free_blocks a w' = map (\<lambda>i. start + of_nat i * (RT_ALIGN bs 4 + 4)) [0..<unat sz div 4 * 4 div ((unat bs + 3) div 4 * 4 + 4)] \<and>
    (\<forall>x. \<not> (unat start \<le> unat x \<and> unat x < unat start + unat sz) \<longrightarrow> mem_of w' x = mem_of w x)"
proof -
  obtain w' where w': "rt_mp_init a name start sz bs w = Some (RT_EOK, w')" "pool_ok a w'" "tlists (kern w') (Suspend a) = []"
    "mp_free_blocks a w' = pool_blocks (pools w' a)" "start_address (pools w' a) = start" "unat (block_size (pools w' a)) = (unat bs + 3) div 4 * 4"
    "unat (block_total_count (pools w' a)) = unat sz div 4 * 4 div ((unat bs + 3) div 4 * 4 + 4)"
    "\<And>x. \<not> (unat start \<le> unat x \<and> unat x < unat start + unat sz) \<Longrightarrow> mem_of w' x = mem_of w x"
    by (rule mp_init_ok [OF assms, of name]) (rule that)
  have "block_size (pools w' a) = RT_ALIGN bs 4"
    using w'(6) unat_align_stride(2) [OF assms(5)] by (simp add: word_unat_eq_iff)
  then have "pool_blocks (pools w' a) = map (\<lambda>i. start + of_nat i * (RT_ALIGN bs 4 + 4)) [0..<unat sz div 4 * 4 div ((unat bs + 3) div 4 * 4 + 4)]"
    using w'(5,7) by (simp add: pool_blocks_def block_addr_def)
  with w' show ?thesis by (intro exI [of _ w']) (simp add: pool_idle_def mp_used_def)
qed

theorem mp_init_builds_pool_witness:
  "\<exists>w'. rt_mp_init 7 ''mp'' 0x1000 40 6 no_pools = Some (RT_EOK, w') \<and>
     mp_free_blocks 7 w' = [0x1000, 0x100c, 0x1018]"
  using mp_init_builds_pool [of "0x1000" 40 6 7 no_pools "''mp''"]
  by (auto simp: no_pools_simps RT_ALIGN_def upt_rec)

text \<open>C11. Any sequence of allocations without waiting and releases of held blocks, on an idle pool with no block in use, succeeds. At the end
  the client holds exactly the blocks in use; they are inside the pool and do not overlap, and with the free ones they are all
  the blocks there are.\<close>

theorem pool_client_safe:
  assumes "pool_idle a w" "mp_used a w = {}"
  shows "\<exists>held w'. client_run (mp_try_alloc c a) (rt_mp_free c) ops [] w = Some (held, w') \<and> pool_idle a w' \<and>
    distinct held \<and> set held = fst ` mp_regions a w' \<and>
    length held + length (mp_free_blocks a w') = unat (block_total_count (pools w' a)) \<and>
    (\<forall>(p, n) \<in> mp_regions a w'. unat (start_address (pools w' a)) + 4 \<le> unat p \<and>
       unat p + unat n \<le> unat (start_address (pools w' a)) + unat (block_total_count (pools w' a)) * (unat (block_size (pools w' a)) + 4)) \<and>
    (\<forall>(p, n) \<in> mp_regions a w'. \<forall>(q, m) \<in> mp_regions a w'. (p, n) \<noteq> (q, m) \<longrightarrow> unat p + unat n \<le> unat q \<or> unat q + unat m \<le> unat p)"
proof -
  have "mp_regions a w = {}" using assms(2) by (simp add: mp_regions_def)
  from pool_store.held_apart [OF assms(1) this, of c ops] obtain held w' where
    r: "client_run (mp_try_alloc c a) (rt_mp_free c) ops [] w = Some (held, w')" "pool_idle a w'" "distinct held" "set held = fst ` mp_regions a w'"
    "\<forall>(p, n) \<in> mp_regions a w'. \<forall>(q, m) \<in> mp_regions a w'. (p, n) \<noteq> (q, m) \<longrightarrow> unat p + unat n \<le> unat q \<or> unat q + unat m \<le> unat p" by blast
  have ok: "pool_ok a w'" using r(2) by (simp add: pool_idle_def)
  have "set held = (\<lambda>x. x + 4) ` mp_used a w'" using r(4) by (simp add: mp_regions_def image_image)
  then have "card (set held) = card (mp_used a w')" by (simp add: card_image)
  then have "length held + length (mp_free_blocks a w') = unat (block_total_count (pools w' a))"
    using used_card [OF ok] distinct_card [OF r(3)] by simp
  moreover have "\<forall>(p, n) \<in> mp_regions a w'. unat (start_address (pools w' a)) + 4 \<le> unat p \<and>
       unat p + unat n \<le> unat (start_address (pools w' a)) + unat (block_total_count (pools w' a)) * (unat (block_size (pools w' a)) + 4)"
    using regions_inside(1,2) [OF ok] by fast
  ultimately show ?thesis using r by blast
qed

theorem pool_client_safe_witness:
  "\<exists>held w'. client_run (mp_try_alloc 0 7) (rt_mp_free 0) [Alloc (), Alloc (), Alloc (), Release 1] [] demo_pool = Some (held, w') \<and>
     length held + length (mp_free_blocks 7 w') = unat (block_total_count (pools w' 7))"
proof -
  have "pool_idle 7 demo_pool" using demo_pool_ok(1) by (simp add: pool_idle_def demo_pool_def demo_object_def demo_defs)
  moreover have "mp_used 7 demo_pool = {}" using demo_fits(2) by (simp add: mp_used_def demo_pool_ok(2)) (simp add: demo_pool_def)
  ultimately show ?thesis using pool_client_safe [of 7 demo_pool 0 "[Alloc (), Alloc (), Alloc (), Release 1]"] by blast
qed



text \<open>On memory too small for one block \<^verbatim>\<open>rt_mp_init\<close> reports success and writes a null pointer in front of the memory it was given: the loop does
  nothing, and the write at \<^verbatim>\<open>offset - 1\<close> after it is one block below the start.\<close>

theorem mp_init_small_writes_in_front:
  assumes "start \<noteq> 0" "0 < sz" "0 < bs" "unat bs + 7 < 2 ^ 32" "unat sz div 4 * 4 < (unat bs + 3) div 4 * 4 + 4"
    and "Obj a \<notin> set (containers (kern w) RT_Object_Class_MemPool)"
  shows "\<exists>w'. rt_mp_init a name start sz bs w = Some (RT_EOK, w') \<and> block_total_count (pools w' a) = 0 \<and>
    mem_of w' = store_long (start - (RT_ALIGN bs 4 + 4)) 0 (mem_of w)"
proof -
  have new: "\<forall>y \<in> set (containers (kern w) RT_Object_Class_MemPool). y \<noteq> Obj a" using assms(6) by auto
  obtain k1 where k1: "rt_object_init (Obj a) RT_Object_Class_MemPool name (kern w) = Some k1"
    using new by (auto simp: rt_object_init_def rt_object_get_information_eq rt_object_classes_def)
  note al = unat_align_stride [OF assms(4)]
  have nz: "RT_ALIGN bs 4 + 4 \<noteq> 0" using al(1) by (auto simp: word_unat_eq_iff)
  have "unat (RT_ALIGN_DOWN sz 4 div (RT_ALIGN bs 4 + 4)) = 0" using assms(5) by (simp add: unat_div al(1) unat_align_down)
  then have z: "RT_ALIGN_DOWN sz 4 div (RT_ALIGN bs 4 + 4) = 0" by (simp only: unat_eq_zero)
  have "link_blocks start (RT_ALIGN bs 4 + 4) 0 0 (mem_of w) = (0, mem_of w)" by (subst link_blocks.simps) simp
  then show ?thesis using assms(1-3) k1 nz z by (simp add: rt_mp_init_def init_blocks_def Let_def) (simp add: algebra_simps)
qed

theorem mp_init_small_writes_in_front_witness:
  "\<exists>w'. rt_mp_init 7 ''mp'' 0x1000 8 16 no_pools = Some (RT_EOK, w') \<and>
     mem_of w' = store_long 0xfec 0 (\<lambda>_. 0)"
  using mp_init_small_writes_in_front [of "0x1000" 8 16 7 no_pools "''mp''"]
  by (auto simp: no_pools_simps RT_ALIGN_def)

end
