(* ===== verification/Printf.thy ===== *)
theory Printf
  imports KService
begin

text \<open>
  Formatted output (\<^verbatim>\<open>src/kservice.c\<close>, with \<^verbatim>\<open>RT_PRINTF_PRECISION\<close> and without \<^verbatim>\<open>RT_PRINTF_LONGLONG\<close> and \<^verbatim>\<open>RT_PRINTF_SPECIAL\<close>). A format is the list of its
  characters before the final 0; the arguments are 32-bit words, a pointer for \<^verbatim>\<open>%s\<close>. The position in the buffer goes on counting when
  the buffer is full. \<open>None\<close> stands for an argument that is missing or a string that does not end.
\<close>

type_synonym out = "u32 \<times> memory"

section \<open>Putting characters\<close>

definition put :: "u32 \<Rightarrow> u8 \<Rightarrow> out \<Rightarrow> out" where
  "put e c st = (case st of (p, m) \<Rightarrow> (p + 1, if p < e then m(p := c) else m))"

fun put_all :: "u32 \<Rightarrow> u8 list \<Rightarrow> out \<Rightarrow> out" where
  "put_all e [] st = st"
| "put_all e (c # cs) st = put_all e cs (put e c st)"

text \<open>The value of a 32-bit \<^verbatim>\<open>int\<close> after an operation.\<close>

definition s32 :: "int \<Rightarrow> int" where
  "s32 x = sint (word_of_int x :: u32)"

lemma s32_range: "- (2 ^ 31) \<le> s32 x" "s32 x < 2 ^ 31"
  using sint_ge [of "word_of_int x :: u32"] sint_lt [of "word_of_int x :: u32"] by (simp_all add: s32_def)

lemma s32_id: "- (2 ^ 31) \<le> x \<Longrightarrow> x < 2 ^ 31 \<Longrightarrow> s32 x = x"
  by (simp add: s32_def sint_sbintrunc' signed_take_bit_int_eq_self)

lemma s32_pred_less: "0 < x \<Longrightarrow> nat (s32 (x - 1)) < nat x"
proof (cases "x \<le> 2 ^ 31")
  case True
  assume "0 < x"
  then show ?thesis using True s32_id [of "x - 1"] by simp
next
  case False
  then show ?thesis using s32_range(2) [of "x - 1"] by simp
qed

text \<open>\<^verbatim>\<open>while (n-- > 0)\<close>, \<^verbatim>\<open>while (--n > 0)\<close> and \<^verbatim>\<open>while (k < n--)\<close>, with the value of \<^verbatim>\<open>n\<close> afterwards.\<close>

function pad_loop :: "u32 \<Rightarrow> u8 \<Rightarrow> int \<Rightarrow> out \<Rightarrow> int \<times> out" where
  "pad_loop e c n st = (if n > 0 then pad_loop e c (s32 (n - 1)) (put e c st) else (s32 (n - 1), st))"
  by auto
termination
  by (relation "measure (\<lambda>(_, _, n, _). nat n)") (simp_all only: in_measure wf_measure case_prod_conv s32_pred_less)

function pad_before :: "u32 \<Rightarrow> u8 \<Rightarrow> int \<Rightarrow> out \<Rightarrow> int \<times> out" where
  "pad_before e c n st = (if s32 (n - 1) > 0 then pad_before e c (s32 (n - 1)) (put e c st) else (s32 (n - 1), st))"
  by auto
termination
  by (relation "measure (\<lambda>(_, _, n, _). nat (s32 (n - 1)))") (simp_all only: in_measure wf_measure case_prod_conv s32_pred_less)

function pad_above :: "u32 \<Rightarrow> u8 \<Rightarrow> int \<Rightarrow> int \<Rightarrow> out \<Rightarrow> int \<times> out" where
  "pad_above e c k n st = (if k < n then pad_above e c k (n - 1) (put e c st) else (s32 (n - 1), st))"
  by auto
termination
  by (relation "measure (\<lambda>(_, _, k, n, _). nat (n - k))") simp_all

declare pad_loop.simps [simp del] pad_before.simps [simp del] pad_above.simps [simp del]

section \<open>Numbers\<close>

abbreviation (input) ZEROPAD :: u8 where "ZEROPAD \<equiv> 1"
abbreviation (input) SIGN :: u8 where "SIGN \<equiv> 2"
abbreviation (input) PLUS :: u8 where "PLUS \<equiv> 4"
abbreviation (input) SPACE :: u8 where "SPACE \<equiv> 8"
abbreviation (input) LEFT :: u8 where "LEFT \<equiv> 16"
abbreviation (input) SPECIAL :: u8 where "SPECIAL \<equiv> 32"
abbreviation (input) LARGE :: u8 where "LARGE \<equiv> 64"

text \<open>\<^verbatim>\<open>divide\<close>: the remainder and the new number.\<close>

definition divide :: "u32 \<Rightarrow> nat \<Rightarrow> u32 \<times> u32" where
  "divide n base = (if base = 10 then (n mod 10, n div 10) else (n mod 16, n div 16))"

definition small_digits :: "u8 list" where
  "small_digits = [48, 49, 50, 51, 52, 53, 54, 55, 56, 57, 97, 98, 99, 100, 101, 102]"

definition large_digits :: "u8 list" where
  "large_digits = [48, 49, 50, 51, 52, 53, 54, 55, 56, 57, 65, 66, 67, 68, 69, 70]"

lemma divide_less: "n \<noteq> 0 \<Longrightarrow> unat (snd (divide n base)) < unat n"
  by (simp add: divide_def unat_div unat_gt_0 div_less_dividend)

text \<open>The contents of \<^verbatim>\<open>tmp\<close>, the lowest digit first.\<close>

function digit_loop :: "u8 list \<Rightarrow> nat \<Rightarrow> u32 \<Rightarrow> u8 list" where
  "digit_loop ds base num =
     (if num = 0 then [] else ds ! unat (fst (divide num base)) # digit_loop ds base (snd (divide num base)))"
  by auto
termination
  by (relation "measure (\<lambda>(_, _, n). unat n)") (simp_all only: in_measure wf_measure case_prod_conv divide_less simp_thms)

declare digit_loop.simps [simp del]

definition number_sign :: "u8 \<Rightarrow> u32 \<Rightarrow> u8 \<times> u32" where
  "number_sign type num =
     (if type AND SIGN \<noteq> 0 then
        if sint num < 0 then (45, - num)
        else if type AND PLUS \<noteq> 0 then (43, num)
        else if type AND SPACE \<noteq> 0 then (32, num) else (0, num)
      else (0, num))"

definition print_number :: "u32 \<Rightarrow> u32 \<Rightarrow> nat \<Rightarrow> int \<Rightarrow> int \<Rightarrow> u8 \<Rightarrow> out \<Rightarrow> out" where
  "print_number e num base s precision type st =
     (let digits = (if type AND LARGE \<noteq> 0 then large_digits else small_digits);
          type = (if type AND LEFT \<noteq> 0 then type AND NOT ZEROPAD else type);
          c = (if type AND ZEROPAD \<noteq> 0 then 48 else 32);
          (sign, num) = number_sign type num;
          tmp = (if num = 0 then [48] else digit_loop digits base num);
          i = int (length tmp);
          prec = (if i > precision then i else precision);
          sz = s32 (s - prec);
          (sz, st) = (if type AND (ZEROPAD OR LEFT) = 0
                      then pad_loop e 32 (if sign \<noteq> 0 \<and> sz > 0 then sz - 1 else sz) st else (sz, st));
          (sz, st) = (if sign \<noteq> 0 then (s32 (sz - 1), put e sign st) else (sz, st));
          (sz, st) = (if type AND LEFT = 0 then pad_loop e c sz st else (sz, st));
          (_, st) = pad_above e 48 i prec st;
          st = (if precision \<noteq> 0 then put_all e (rev tmp) st else st);
          (_, st) = pad_loop e 32 sz st
      in st)"

section \<open>Formats\<close>

definition is_digit :: "u8 \<Rightarrow> bool" where
  "is_digit c \<longleftrightarrow> c - 48 < 10"

fun skip_atoi :: "int \<Rightarrow> u8 list \<Rightarrow> int \<times> u8 list" where
  "skip_atoi i (c # cs) = (if is_digit c then skip_atoi (s32 (i * 10 + uint c - 48)) cs else (i, c # cs))"
| "skip_atoi i [] = (i, [])"

fun parse_flags :: "u8 \<Rightarrow> u8 list \<Rightarrow> u8 \<times> u8 list" where
  "parse_flags fl (c # cs) =
     (if c = 45 then parse_flags (fl OR LEFT) cs
      else if c = 43 then parse_flags (fl OR PLUS) cs
      else if c = 32 then parse_flags (fl OR SPACE) cs
      else if c = 35 then parse_flags (fl OR SPECIAL) cs
      else if c = 48 then parse_flags (fl OR ZEROPAD) cs
      else (fl, c # cs))"
| "parse_flags fl [] = (fl, [])"

fun va_arg :: "u32 list \<Rightarrow> (u32 \<times> u32 list) option" where
  "va_arg [] = None"
| "va_arg (a # args) = Some (a, args)"

fun parse_width :: "u8 \<Rightarrow> u8 list \<Rightarrow> u32 list \<Rightarrow> (u8 \<times> int \<times> u8 list \<times> u32 list) option" where
  "parse_width fl [] args = Some (fl, -1, [], args)"
| "parse_width fl (c # cs) args =
     (if is_digit c then (case skip_atoi 0 (c # cs) of (w, cs) \<Rightarrow> Some (fl, w, cs, args))
      else if c = 42 then do {
        (a, args) \<leftarrow> va_arg args;
        Some (if sint a < 0 then (fl OR LEFT, s32 (- sint a), cs, args) else (fl, sint a, cs, args)) }
      else Some (fl, -1, c # cs, args))"

definition parse_number_or_arg :: "u8 list \<Rightarrow> u32 list \<Rightarrow> (int \<times> u8 list \<times> u32 list) option" where
  "parse_number_or_arg cs args = (case cs of
       [] \<Rightarrow> Some (-1, [], args)
     | c # cs' \<Rightarrow>
         if is_digit c then (case skip_atoi 0 cs of (p, cs) \<Rightarrow> Some (p, cs, args))
         else if c = 42 then do { (a, args) \<leftarrow> va_arg args; Some (sint a, cs', args) }
         else Some (-1, cs, args))"

fun parse_precision :: "u8 list \<Rightarrow> u32 list \<Rightarrow> (int \<times> u8 list \<times> u32 list) option" where
  "parse_precision [] args = Some (-1, [], args)"
| "parse_precision (c # cs) args =
     (if c = 46 then do {
        (p, cs, args) \<leftarrow> parse_number_or_arg cs args;
        Some (if p < 0 then 0 else p, cs, args) }
      else Some (-1, c # cs, args))"

fun parse_qualifier :: "u8 list \<Rightarrow> u8 \<times> u8 list" where
  "parse_qualifier [] = (0, [])"
| "parse_qualifier (c # cs) = (if c = 104 \<or> c = 108 then (c, cs) else (0, c # cs))"

fun copy_string :: "u32 \<Rightarrow> nat \<Rightarrow> u32 \<Rightarrow> out \<Rightarrow> out" where
  "copy_string e 0 s st = st"
| "copy_string e (Suc n) s st = copy_string e n (s + 1) (put e (snd st s) st)"

definition null_text :: "u8 list" where
  "null_text = [40, 78, 85, 76, 76, 41]"

text \<open>The conversions, by the character \<open>c\<close> that ends the specification.\<close>

definition conv_char :: "u32 \<Rightarrow> u8 \<Rightarrow> int \<Rightarrow> u32 \<Rightarrow> out \<Rightarrow> out" where
  "conv_char e fl w a st =
     (let (w, st) = (if fl AND LEFT = 0 then pad_before e 32 w st else (w, st));
          st = put e (ucast a) st
      in snd (pad_before e 32 w st))"

definition conv_string :: "u32 \<Rightarrow> u8 \<Rightarrow> int \<Rightarrow> int \<Rightarrow> u32 \<Rightarrow> out \<Rightarrow> out option" where
  "conv_string e fl w precision s st = do {
     len \<leftarrow> (if s = 0 then Some 6 else map_option sint (rt_strlen (snd st) s));
     let len = (if precision > 0 \<and> len > precision then precision else len);
     let (w, st) = (if fl AND LEFT = 0 then pad_above e 32 len w st else (w, st));
     let st = (if s = 0 then put_all e (take (nat len) null_text) st else copy_string e (nat len) s st);
     Some (snd (pad_above e 32 len w st)) }"

definition conv_number :: "u32 \<Rightarrow> u8 \<Rightarrow> int \<Rightarrow> int \<Rightarrow> u8 \<Rightarrow> u8 \<Rightarrow> u32 \<Rightarrow> out \<Rightarrow> out" where
  "conv_number e fl w precision q c a st =
     (let base = (if c = 111 then 8 else if c = 88 \<or> c = 120 then 16 else 10);
          fl = (if c = 88 then fl OR LARGE else if c = 100 \<or> c = 105 then fl OR SIGN else fl);
          num = (if q = 104 then if fl AND SIGN \<noteq> 0 then scast (ucast a :: u16) else ucast (ucast a :: u16) else a)
      in print_number e num base w precision fl st)"

fun convert :: "u32 \<Rightarrow> u8 \<Rightarrow> int \<Rightarrow> int \<Rightarrow> u8 \<Rightarrow> u8 list \<Rightarrow> u32 list \<Rightarrow> out \<Rightarrow> (out \<times> u8 list \<times> u32 list) option" where
  "convert e fl w precision q [] args st = Some (put e 37 st, [], args)"
| "convert e fl w precision q (c # cs) args st =
     (if c = 99 then do { (a, args) \<leftarrow> va_arg args; Some (conv_char e fl w a st, cs, args) }
      else if c = 115 then do {
        (s, args) \<leftarrow> va_arg args;
        st \<leftarrow> conv_string e fl w precision s st;
        Some (st, cs, args) }
      else if c = 112 then do {
        (a, args) \<leftarrow> va_arg args;
        let (w, fl) = (if w = -1 then (8, fl OR ZEROPAD) else (w, fl));
        Some (print_number e a 16 w precision fl st, cs, args) }
      else if c = 37 then Some (put e 37 st, cs, args)
      else if c \<in> {111, 88, 120, 100, 105, 117} then do {
        (a, args) \<leftarrow> va_arg args;
        Some (conv_number e fl w precision q c a st, cs, args) }
      else Some (put e c (put e 37 st), cs, args))"

definition conversion :: "u32 \<Rightarrow> u8 list \<Rightarrow> u32 list \<Rightarrow> out \<Rightarrow> (out \<times> u8 list \<times> u32 list) option" where
  "conversion e cs args st = do {
     let (fl, cs) = parse_flags 0 cs;
     (fl, w, cs, args) \<leftarrow> parse_width fl cs args;
     (precision, cs, args) \<leftarrow> parse_precision cs args;
     let (q, cs) = parse_qualifier cs;
     convert e fl w precision q cs args st }"

lemma skip_atoi_shorter: "length (snd (skip_atoi i cs)) \<le> length cs"
  by (induction i cs rule: skip_atoi.induct) auto

lemma parse_flags_shorter: "length (snd (parse_flags fl cs)) \<le> length cs"
  by (induction fl cs rule: parse_flags.induct) auto

lemma parse_width_shorter: "parse_width fl cs args = Some (fl', w, cs', args') \<Longrightarrow> length cs' \<le> length cs"
  using skip_atoi_shorter [of 0 cs]
  by (cases cs) (auto simp del: skip_atoi.simps elim!: bind_eq_SomeE split: if_splits prod.splits)

lemma parse_precision_shorter: "parse_precision cs args = Some (p, cs', args') \<Longrightarrow> length cs' \<le> length cs"
  using skip_atoi_shorter [of 0 "tl cs"]
  by (cases cs) (auto simp: parse_number_or_arg_def simp del: skip_atoi.simps elim!: bind_eq_SomeE split: if_splits prod.splits list.splits)

lemma parse_qualifier_shorter: "length (snd (parse_qualifier cs)) \<le> length cs"
  by (cases cs) auto

lemma convert_shorter: "convert e fl w p q cs args st = Some (st', cs', args') \<Longrightarrow> length cs' \<le> length cs"
  by (cases cs) (auto elim!: bind_eq_SomeE split: if_splits prod.splits)

lemma conversion_shorter:
  assumes "conversion e cs args st = Some (st', cs', args')"
  shows "length cs' \<le> length cs"
proof -
  obtain fl0 cs0 where 0: "parse_flags 0 cs = (fl0, cs0)" by (cases "parse_flags 0 cs")
  obtain fl w cs1 args1 p cs2 args2 where 1: "parse_width fl0 cs0 args = Some (fl, w, cs1, args1)"
    "parse_precision cs1 args1 = Some (p, cs2, args2)" "convert e fl w p (fst (parse_qualifier cs2)) (snd (parse_qualifier cs2)) args2 st = Some (st', cs', args')"
    using assms 0 by (auto simp: conversion_def Let_def case_prod_beta elim!: bind_eq_SomeE)
  show ?thesis
    using 0 parse_flags_shorter [of 0 cs] parse_width_shorter [OF 1(1)] parse_precision_shorter [OF 1(2)]
      parse_qualifier_shorter [of cs2] convert_shorter [OF 1(3)] by simp
qed

function vsn_loop :: "u32 \<Rightarrow> u8 list \<Rightarrow> u32 list \<Rightarrow> out \<Rightarrow> out option" where
  "vsn_loop e [] args st = Some st"
| "vsn_loop e (c # cs) args st =
     (if c \<noteq> 37 then vsn_loop e cs args (put e c st)
      else case conversion e cs args st of
          None \<Rightarrow> None
        | Some (st, cs, args) \<Rightarrow> vsn_loop e cs args st)"
  by pat_completeness auto
termination
  by (relation "measure (\<lambda>(_, cs, _, _). length cs)") (auto dest: conversion_shorter)

definition rt_vsnprintf :: "u32 \<Rightarrow> u32 \<Rightarrow> u8 list \<Rightarrow> u32 list \<Rightarrow> memory \<Rightarrow> (u32 \<times> memory) option" where
  "rt_vsnprintf buf sz fmt args m = do {
     let (e, sz) = (if buf + sz < buf then (- 1, - 1 - buf) else (buf + sz, sz));
     (str, m) \<leftarrow> vsn_loop e fmt args (buf, m);
     Some (str - buf, if sz > 0 then if str < e then m(str := 0) else m(e - 1 := 0) else m) }"

definition rt_snprintf :: "u32 \<Rightarrow> u32 \<Rightarrow> u8 list \<Rightarrow> u32 list \<Rightarrow> memory \<Rightarrow> (u32 \<times> memory) option" where
  "rt_snprintf buf sz fmt args m = rt_vsnprintf buf sz fmt args m"

definition rt_vsprintf :: "u32 \<Rightarrow> u8 list \<Rightarrow> u32 list \<Rightarrow> memory \<Rightarrow> (u32 \<times> memory) option" where
  "rt_vsprintf buf fmt args m = rt_vsnprintf buf (- 1) fmt args m"

definition rt_sprintf :: "u32 \<Rightarrow> u8 list \<Rightarrow> u32 list \<Rightarrow> memory \<Rightarrow> (u32 \<times> memory) option" where
  "rt_sprintf buf fmt args m = rt_vsprintf buf fmt args m"

section \<open>Every operation puts some characters\<close>

definition emits :: "u32 \<Rightarrow> out \<Rightarrow> out \<Rightarrow> bool" where
  "emits e st st' \<longleftrightarrow> (\<exists>cs. st' = put_all e cs st)"

lemma put_all_append [simp]: "put_all e (xs @ ys) st = put_all e ys (put_all e xs st)"
  by (induction xs arbitrary: st) simp_all

lemma emits_refl [simp, intro]: "emits e st st"
  unfolding emits_def by (rule exI [of _ "[]"]) simp

lemma emits_put_all [simp, intro]: "emits e st (put_all e cs st)"
  unfolding emits_def by blast

lemma emits_put [simp, intro]: "emits e st (put e c st)"
  unfolding emits_def by (rule exI [of _ "[c]"]) simp

lemma emits_trans [trans]: "emits e st st1 \<Longrightarrow> emits e st1 st2 \<Longrightarrow> emits e st st2"
  unfolding emits_def by (metis put_all_append)

lemma pad_loop_text:
  assumes "- (2 ^ 31) < n" "n < 2 ^ 31"
  shows "pad_loop e c n st = (min n 0 - 1, put_all e (replicate (nat n) c) st)"
  using assms
proof (induction e c n st rule: pad_loop.induct)
  case (1 e c n st)
  show ?case
  proof (cases "n > 0")
    case True
    have "s32 (n - 1) = n - 1" by (rule s32_id) (use True 1 in simp_all)
    moreover have "nat n = Suc (nat (n - 1))" using True by simp
    ultimately show ?thesis using 1 True by (subst pad_loop.simps) simp
  next
    case False
    have "s32 (n - 1) = n - 1" by (rule s32_id) (use False 1 in simp_all)
    then show ?thesis using False by (subst pad_loop.simps) simp
  qed
qed

lemma pad_above_text:
  assumes "- (2 ^ 31) < n" "n \<le> 2 ^ 31" "- (2 ^ 31) < k"
  shows "pad_above e c k n st = (min n k - 1, put_all e (replicate (nat (n - k)) c) st)"
  using assms(1,2)
proof (induction "nat (n - k)" arbitrary: n st)
  case 0
  then have "s32 (n - 1) = n - 1" by (intro s32_id) simp_all
  then show ?case using 0 by (subst pad_above.simps) auto
next
  case (Suc j)
  then have "k < n" "j = nat (n - 1 - k)" by auto
  moreover have "- (2 ^ 31) < n - 1" using assms(3) \<open>k < n\<close> by linarith
  ultimately show ?case using Suc.hyps(1) [of "n - 1" "put e c st"] Suc.prems Suc.hyps(2) [symmetric] by (subst pad_above.simps) auto
qed

lemma emits_pads [simp, intro]:
  "emits e st (snd (pad_loop e c n st))" "emits e st (snd (pad_before e c n st))" "emits e st (snd (pad_above e c k n st))"
proof -
  show "emits e st (snd (pad_loop e c n st))"
  proof (induction e c n st rule: pad_loop.induct)
    case (1 e c n st)
    then show ?case by (subst pad_loop.simps) (auto intro: emits_trans [OF emits_put])
  qed
  show "emits e st (snd (pad_before e c n st))"
  proof (induction e c n st rule: pad_before.induct)
    case (1 e c n st)
    then show ?case by (subst pad_before.simps) (auto intro: emits_trans [OF emits_put])
  qed
  show "emits e st (snd (pad_above e c k n st))"
  proof (induction e c k n st rule: pad_above.induct)
    case (1 e c k n st)
    then show ?case by (subst pad_above.simps) (auto intro: emits_trans [OF emits_put])
  qed
qed

lemma emits_copy_string [simp, intro]: "emits e st (copy_string e n s st)"
  by (induction e n s st rule: copy_string.induct) (auto intro: emits_trans [OF emits_put])

lemmas emits_back = emits_trans [OF _ emits_pads(1)] emits_trans [OF _ emits_pads(2)] emits_trans [OF _ emits_pads(3)]
  emits_trans [OF _ emits_put_all] emits_trans [OF _ emits_copy_string] emits_trans [OF _ emits_put]

lemma emits_print_number [simp, intro]: "emits e st (print_number e num base w p fl st)"
proof -
  define prints :: "out \<Rightarrow> bool" where "prints st' = emits e st st'" for st'
  have step: "prints st" "prints x \<Longrightarrow> prints (snd (pad_loop e c n x))" "prints x \<Longrightarrow> prints (snd (pad_above e c k n x))"
    "prints x \<Longrightarrow> prints (put_all e cs x)" "prints x \<Longrightarrow> prints (put e c x)" "prints x \<Longrightarrow> prints y \<Longrightarrow> prints (if b then x else y)"
    "prints (snd r) \<Longrightarrow> prints (snd r') \<Longrightarrow> prints (snd (if b then r else r'))" for x y c k n cs b and r r' :: "int \<times> out"
    by (auto simp: prints_def intro: emits_back)
  have "prints (print_number e num base w p fl st)"
    unfolding print_number_def Let_def case_prod_beta by (intro step) (simp_all add: step)
  then show ?thesis by (simp add: prints_def)
qed

lemma emits_conv_char: "emits e st (conv_char e fl w a st)"
  unfolding conv_char_def Let_def case_prod_beta by (auto intro!: emits_back)

lemma emits_conv_string: "conv_string e fl w p s st = Some st' \<Longrightarrow> emits e st st'"
  unfolding conv_string_def Let_def case_prod_beta by (elim bind_eq_SomeE) (auto intro!: emits_back)

lemma emits_convert:
  assumes "convert e fl w p q cs args st = Some (st', cs', args')"
  shows "emits e st st'"
proof (cases cs)
  case Nil
  then show ?thesis using assms by auto
next
  case (Cons c cs1)
  have two: "emits e st (put e c (put e 37 st))" using emits_trans [OF emits_put emits_put] .
  show ?thesis
    using assms two unfolding Cons
    by (auto simp: conv_number_def Let_def case_prod_beta intro: emits_conv_char emits_conv_string
        elim!: bind_eq_SomeE split: if_splits)
qed

lemma emits_vsn: "vsn_loop e fmt args st = Some st' \<Longrightarrow> emits e st st'"
proof (induction e fmt args st rule: vsn_loop.induct)
  case (2 e c cs args st)
  show ?case
  proof (cases "c = 37")
    case True
    then obtain st1 cs1 args1 where c: "conversion e cs args st = Some (st1, cs1, args1)" "vsn_loop e cs1 args1 st1 = Some st'"
      using "2.prems" by (auto split: option.splits)
    have "emits e st st1" 
      using c(1) by (auto simp: conversion_def Let_def case_prod_beta intro: emits_convert elim!: bind_eq_SomeE)
    then show ?thesis using "2.IH"(2) True c emits_trans by auto
  next
    case False
    then show ?thesis using 2 emits_trans [OF emits_put] by auto
  qed
qed simp

section \<open>The buffer\<close>

lemma put_all_at:
  assumes "unat p + length cs < 2 ^ 32"
  shows "put_all e cs (p, m) = (p + of_nat (length cs),
    \<lambda>x. if unat p \<le> unat x \<and> unat x < unat p + length cs \<and> x < e then cs ! (unat x - unat p) else m x)"
  using assms
proof (induction cs arbitrary: p m)
  case Nil
  then show ?case by (auto simp: fun_eq_iff)
next
  case (Cons c cs)
  have u: "unat (p + 1) = unat p + 1" using Cons.prems by (intro unat_Suc_no_wrap) simp
  let ?m = "if p < e then m(p := c) else m"
  have "put_all e (c # cs) (p, m) = put_all e cs (p + 1, ?m)" by (simp add: put_def)
  also have "\<dots> = (p + 1 + of_nat (length cs),
      \<lambda>x. if unat (p + 1) \<le> unat x \<and> unat x < unat (p + 1) + length cs \<and> x < e then cs ! (unat x - unat (p + 1)) else ?m x)"
    by (rule Cons.IH) (use Cons.prems u in simp)
  also have "\<dots> = (p + of_nat (length (c # cs)),
      \<lambda>x. if unat p \<le> unat x \<and> unat x < unat p + length (c # cs) \<and> x < e then (c # cs) ! (unat x - unat p) else m x)"
  proof -
    have "(if unat (p + 1) \<le> unat x \<and> unat x < unat (p + 1) + length cs \<and> x < e then cs ! (unat x - unat (p + 1)) else ?m x) =
        (if unat p \<le> unat x \<and> unat x < unat p + length (c # cs) \<and> x < e then (c # cs) ! (unat x - unat p) else m x)" for x
    proof (cases "x = p")
      case True
      then show ?thesis by (simp add: u)
    next
      case False
      then have "unat x \<noteq> unat p" by (simp add: word_unat_eq_iff)
      then show ?thesis by (auto simp: u nth_Cons')
    qed
    then show ?thesis by (auto simp: fun_eq_iff)
  qed
  finally show ?case .
qed

lemma put_all_above: "\<not> x < e \<Longrightarrow> snd (put_all e cs st) x = snd st x"
proof (induction cs arbitrary: st)
  case (Cons c cs)
  then show ?case by (cases st) (auto simp: put_def)
qed simp

lemma strlen_total: "m (a + of_nat j) = 0 \<Longrightarrow> strlen_loop m a \<noteq> None"
proof (induction j arbitrary: a)
  case 0
  then show ?case by (subst strlen_loop.simps) simp
next
  case (Suc j)
  then show ?case using Suc.IH [of "a + 1"] by (subst strlen_loop.simps) (simp add: add.assoc)
qed

text \<open>Arguments that a \<^verbatim>\<open>%s\<close> can take: null, or a string whose end lies behind the buffer.\<close>

definition arg_ok :: "u32 \<Rightarrow> memory \<Rightarrow> u32 \<Rightarrow> bool" where
  "arg_ok e m a \<longleftrightarrow> a = 0 \<or> (\<exists>j. m (a + of_nat j) = 0 \<and> \<not> a + of_nat j < e)"

lemma arg_ok_emits:
  assumes "emits e st st'" "arg_ok e (snd st) a"
  shows "arg_ok e (snd st') a"
proof -
  obtain cs where "st' = put_all e cs st" using assms(1) by (auto simp: emits_def)
  then show ?thesis using assms(2) put_all_above [of _ e cs st] unfolding arg_ok_def by metis
qed

lemma convert_total:
  assumes "1 \<le> length args" "\<forall>a \<in> set args. arg_ok e (snd st) a"
  shows "\<exists>st' cs' args'. convert e fl w p q cs args st = Some (st', cs', args') \<and> length args \<le> length args' + 1 \<and> set args' \<subseteq> set args"
proof -
  obtain a as where a: "args = a # as" using assms(1) by (cases args) auto
  have "\<exists>x. conv_string e fl w p a st = Some x"
  proof (cases "a = 0")
    case True
    then show ?thesis by (simp add: conv_string_def Let_def case_prod_beta)
  next
    case False
    then obtain j where "snd st (a + of_nat j) = 0" using assms(2) a by (auto simp: arg_ok_def)
    from strlen_total [where m = "snd st", OF this] obtain l where "rt_strlen (snd st) a = Some l" by (auto simp: rt_strlen_def)
    then show ?thesis using False by (simp add: conv_string_def Let_def case_prod_beta)
  qed
  then obtain x where x: "conv_string e fl w p a st = Some x" by blast
  show ?thesis
  proof (cases cs)
    case Nil
    then show ?thesis by auto
  next
    case (Cons c cs1)
    have "\<exists>y. convert e fl w p q cs args st = Some (y, cs1, as) \<or> convert e fl w p q cs args st = Some (y, cs1, args)"
      unfolding a Cons by (simp add: x Let_def case_prod_beta)
    then show ?thesis using a by auto
  qed
qed

lemma conversion_total:
  assumes "3 \<le> length args" "\<forall>a \<in> set args. arg_ok e (snd st) a"
  shows "\<exists>st' cs' args'. conversion e cs args st = Some (st', cs', args') \<and> length args \<le> length args' + 3 \<and> set args' \<subseteq> set args"
proof -
  obtain fl0 cs0 where 0: "parse_flags 0 cs = (fl0, cs0)" by (cases "parse_flags 0 cs")
  obtain a as where a: "args = a # as" using assms(1) by (cases args) auto
  have "\<exists>fl w cs1 args1. parse_width fl0 cs0 args = Some (fl, w, cs1, args1) \<and> (args1 = args \<or> args1 = as)"
    unfolding a by (cases cs0) (auto simp: case_prod_beta)
  then obtain fl w cs1 args1 where 1: "parse_width fl0 cs0 args = Some (fl, w, cs1, args1)" "args1 = args \<or> args1 = as" by blast
  obtain b bs where b: "args1 = b # bs" using 1(2) assms(1) a by (cases args1) auto
  have "\<exists>p cs2 args2. parse_precision cs1 args1 = Some (p, cs2, args2) \<and> (args2 = args1 \<or> args2 = bs)"
    unfolding b by (cases cs1) (auto simp: parse_number_or_arg_def case_prod_beta split: list.splits)
  then obtain p cs2 args2 where 2: "parse_precision cs1 args1 = Some (p, cs2, args2)" "args2 = args1 \<or> args2 = bs" by blast
  have l: "length args \<le> length args2 + 2" "set args2 \<subseteq> set args" using 1(2) 2(2) a b by auto
  then have "\<forall>a \<in> set args2. arg_ok e (snd st) a" "1 \<le> length args2" using assms by auto
  from convert_total [OF this(2,1), of fl w p "fst (parse_qualifier cs2)" "snd (parse_qualifier cs2)"]
  show ?thesis using 0 1(1) 2(1) l by (fastforce simp: conversion_def case_prod_beta)
qed

lemma vsn_total:
  assumes "3 * length fmt \<le> length args" "\<forall>a \<in> set args. arg_ok e (snd st) a"
  shows "vsn_loop e fmt args st \<noteq> None"
  using assms
proof (induction e fmt args st rule: vsn_loop.induct)
  case (2 e c cs args st)
  have keep: "\<forall>a \<in> set args. arg_ok e (snd st') a" if "emits e st st'" for st'
    using that "2.prems"(2) arg_ok_emits by blast
  show ?case
  proof (cases "c = 37")
    case True
    obtain st' cs' args' where c: "conversion e cs args st = Some (st', cs', args')" "length args \<le> length args' + 3" "set args' \<subseteq> set args"
      using conversion_total [of args e st cs] "2.prems" by auto
    have "emits e st st'" using c(1) by (auto simp: conversion_def Let_def case_prod_beta intro: emits_convert elim!: bind_eq_SomeE)
    then have "\<forall>a \<in> set args'. arg_ok e (snd st') a" using keep c(3) by blast
    moreover have "3 * length cs' \<le> length args'" using c(2) conversion_shorter [OF c(1)] "2.prems"(1) by simp
    ultimately show ?thesis using "2.IH"(2) True c(1) by simp
  next
    case False
    then show ?thesis using "2.IH"(1) "2.prems" keep [OF emits_put] by simp
  qed
qed simp

section \<open>The text of a number\<close>

definition number_text :: "nat \<Rightarrow> int \<Rightarrow> int \<Rightarrow> u8 \<Rightarrow> u32 \<Rightarrow> u8 list" where
  "number_text base w precision type num =
     (let type = (if type AND LEFT \<noteq> 0 then type AND NOT ZEROPAD else type);
          (sign, n) = number_sign type num;
          ds = (if n = 0 then [48] else rev (digit_loop (if type AND LARGE \<noteq> 0 then large_digits else small_digits) base n));
          body = replicate (nat (precision - int (length ds))) 48 @ (if precision \<noteq> 0 then ds else []);
          sg = (if sign \<noteq> 0 then [sign] else []);
          room = nat (w - max precision (int (length ds)) - int (length sg))
      in if type AND LEFT \<noteq> 0 then sg @ body @ replicate room 32
         else if type AND ZEROPAD \<noteq> 0 then sg @ replicate room 48 @ body
         else replicate room 32 @ sg @ body)"

lemma digit_loop_value:
  "foldr (\<lambda>c v. unat c - 48 + 10 * v) (digit_loop small_digits 10 n) 0 = unat n"
  "\<forall>c \<in> set (digit_loop small_digits 10 n). 48 \<le> c \<and> c \<le> 57"
proof -
  have d: "unat (small_digits ! k) = k + 48 \<and> 48 \<le> small_digits ! k \<and> small_digits ! k \<le> 57" if "k < 10" for k
  proof -
    have "k = 0 \<or> k = 1 \<or> k = 2 \<or> k = 3 \<or> k = 4 \<or> k = 5 \<or> k = 6 \<or> k = 7 \<or> k = 8 \<or> k = 9" using that by presburger
    then show ?thesis by (elim disjE) (simp_all add: small_digits_def)
  qed
  have "foldr (\<lambda>c v. unat c - 48 + 10 * v) (digit_loop small_digits 10 n) 0 = unat n \<and> (\<forall>c \<in> set (digit_loop small_digits 10 n). 48 \<le> c \<and> c \<le> 57)"
  proof (induction "unat n" arbitrary: n rule: less_induct)
    case less
    show ?case
    proof (cases "n = 0")
      case True
      then show ?thesis by (subst digit_loop.simps) (simp add: digit_loop.simps)
    next
      case False
      have m: "unat (n mod 10) = unat n mod 10" "unat (n div 10) = unat n div 10" by (simp_all add: unat_mod unat_div)
      have "unat (n div 10) < unat n" using divide_less [OF False, of 10] by (simp add: divide_def)
      note IH = less [OF this]
      show ?thesis using IH d [of "unat n mod 10"] m False by (subst (1 2) digit_loop.simps) (simp add: divide_def)
    qed
  qed
  then show "foldr (\<lambda>c v. unat c - 48 + 10 * v) (digit_loop small_digits 10 n) 0 = unat n"
    "\<forall>c \<in> set (digit_loop small_digits 10 n). 48 \<le> c \<and> c \<le> 57" by simp_all
qed

lemma digit_loop_length: "unat n < 10 ^ k \<Longrightarrow> length (digit_loop ds base n) \<le> k"
proof (induction k arbitrary: n)
  case 0
  then have "n = 0" by (simp add: unat_eq_0)
  then show ?case by (subst digit_loop.simps) simp
next
  case (Suc k)
  show ?case
  proof (cases "n = 0")
    case True
    then show ?thesis by (subst digit_loop.simps) simp
  next
    case False
    have "unat (snd (divide n base)) \<le> unat n div 10" by (simp add: divide_def unat_div div_le_mono2)
    also have "\<dots> < 10 ^ k" using Suc.prems by (simp add: div_less_iff_less_mult mult.commute)
    finally show ?thesis using Suc.IH False by (subst digit_loop.simps) simp
  qed
qed

lemma number_digits_length: "length (if n = 0 then [48] else digit_loop ds base n) \<le> 10" "0 < length (if n = 0 then [48] else digit_loop ds base n)"
proof -
  have "unat n < 10 ^ 10" using unat_less_2_32 [of n] by simp
  then show "length (if n = 0 then [48] else digit_loop ds base n) \<le> 10" using digit_loop_length [of n 10 ds base] by simp
  show "0 < length (if n = 0 then [48] else digit_loop ds base n)" by (subst digit_loop.simps) simp
qed

lemma clear_zeropad:
  fixes type :: u8
  assumes "type AND LEFT \<noteq> 0"
  shows "(type AND NOT ZEROPAD) AND LEFT \<noteq> 0" "(type AND NOT ZEROPAD) AND ZEROPAD = 0" "(type AND NOT ZEROPAD) AND LARGE = type AND LARGE"
proof -
  have "(type AND NOT ZEROPAD) AND LEFT = type AND LEFT" by (simp add: and.assoc)
  then show "(type AND NOT ZEROPAD) AND LEFT \<noteq> 0" using assms by simp
  show "(type AND NOT ZEROPAD) AND ZEROPAD = 0" "(type AND NOT ZEROPAD) AND LARGE = type AND LARGE" by (simp_all add: and.assoc)
qed

lemma pad_flags: "(type :: u8) AND (ZEROPAD OR LEFT) = 0 \<longleftrightarrow> type AND ZEROPAD = 0 \<and> type AND LEFT = 0"
proof -
  have "type AND (ZEROPAD OR LEFT) = (type AND ZEROPAD) OR (type AND LEFT)" by (rule bit.conj_disj_distrib)
  then show ?thesis by (simp add: or_eq_0_iff)
qed

lemma print_number_text:
  assumes "- 1 \<le> w" "w < 2 ^ 31" "- 1 \<le> precision" "precision < 2 ^ 31 - 8"
  shows "print_number e num base w precision type st = put_all e (number_text base w precision type num) st"
proof -
  define t where "t = (if type AND LEFT \<noteq> 0 then type AND NOT ZEROPAD else type)"
  obtain sign n where sn: "number_sign t num = (sign, n)" by (cases "number_sign t num")
  define ds where "ds = (if type AND LARGE \<noteq> 0 then large_digits else small_digits)"
  have large: "(if t AND LARGE \<noteq> 0 then large_digits else small_digits) = ds"
  proof (cases "type AND LEFT \<noteq> 0")
    case True
    show ?thesis unfolding t_def ds_def if_P [OF True] clear_zeropad(3) [OF True] by (rule refl)
  qed (simp add: t_def ds_def)
  define tmp where "tmp = (if n = 0 then [48] else digit_loop ds base n)"
  have tmp: "length tmp \<le> 10" "0 < length tmp" unfolding tmp_def by (rule number_digits_length)+
  define prec where "prec = max precision (int (length tmp))"
  have prec: "(if int (length tmp) > precision then int (length tmp) else precision) = prec" by (simp add: prec_def)
  have pb: "prec < 2 ^ 31 - 8" "int (length tmp) \<le> prec" using tmp assms(4) by (simp_all add: prec_def)
  then have pos: "0 < prec" using tmp(2) by linarith
  define r where "r = w - prec"
  have r: "- (2 ^ 31) + 4 < r" "r < 2 ^ 31" "s32 (w - prec) = r"
    using assms(1,2) pb pos by (auto simp: r_def intro!: s32_id)
  have rd: "(if n = 0 then [48] else rev (digit_loop ds base n)) = rev tmp" by (simp add: tmp_def)
  have nz: "pad_above e 48 (int (length tmp)) prec x = (int (length tmp) - 1, put_all e (replicate (nat (precision - int (length tmp))) 48) x)" for x
    using pad_above_text [of prec "int (length tmp)" e 48 x] pb pos by (simp add: prec_def max_def split: if_splits)
  define sg where "sg = (if sign \<noteq> 0 then [sign] else [])"
  define body where "body = replicate (nat (precision - int (length tmp))) 48 @ (if precision \<noteq> 0 then rev tmp else [])"
  have body: "(if precision \<noteq> 0 then put_all e (rev tmp) (snd (pad_above e 48 (int (length tmp)) prec x))
      else snd (pad_above e 48 (int (length tmp)) prec x)) = put_all e body x" for x
    unfolding nz by (simp add: body_def)
  have tx: "number_text base w precision type num =
      (if t AND LEFT \<noteq> 0 then sg @ body @ replicate (nat (r - int (length sg))) 32
       else if t AND ZEROPAD \<noteq> 0 then sg @ replicate (nat (r - int (length sg))) 48 @ body
       else replicate (nat (r - int (length sg))) 32 @ sg @ body)"
    unfolding number_text_def Let_def t_def [symmetric] sn prod.case large rd length_rev prec_def [symmetric] r_def [symmetric]
      sg_def [symmetric] body_def [symmetric] by (rule refl)
  have pr: "print_number e num base w precision type st =
      (let (sz, st) = (if t AND (ZEROPAD OR LEFT) = 0 then pad_loop e 32 (if sign \<noteq> 0 \<and> r > 0 then r - 1 else r) st else (r, st));
           (sz, st) = (if sign \<noteq> 0 then (s32 (sz - 1), put e sign st) else (sz, st));
           (sz, st) = (if t AND LEFT = 0 then pad_loop e (if t AND ZEROPAD \<noteq> 0 then 48 else 32) sz st else (sz, st))
       in snd (pad_loop e 32 sz (put_all e body st)))"
    unfolding print_number_def Let_def t_def [symmetric] sn ds_def [symmetric] case_prod_beta fst_conv snd_conv tmp_def [symmetric] prec r(3) body
    by (rule refl)
  have k: "s32 (r - 1) = r - 1" "s32 (r - 2) = r - 2" "s32 (- 1) = - 1" "s32 (- 2) = - 2" using r(1,2) by (auto intro!: s32_id)
  consider "t AND LEFT \<noteq> 0" | "t AND LEFT = 0" "t AND ZEROPAD \<noteq> 0" | "t AND LEFT = 0" "t AND ZEROPAD = 0" by blast
  then show ?thesis
  proof cases
    case 1
    then show ?thesis
      unfolding pr tx pad_flags using r(1,2) k by (simp add: pad_loop_text sg_def)
  next
    case 2
    then show ?thesis
      unfolding pr tx pad_flags using r(1,2) k by (simp add: pad_loop_text sg_def)
  next
    case 3
    then show ?thesis
      unfolding pr tx pad_flags using r(1,2) k by (simp add: pad_loop_text sg_def)
  qed
qed

text \<open>The buffer after a call that produced \<open>txt\<close>: as much of it as fits in front of a 0.\<close>

definition buffer_holds :: "u32 \<Rightarrow> u32 \<Rightarrow> u8 list \<Rightarrow> memory \<Rightarrow> memory \<Rightarrow> bool" where
  "buffer_holds buf sz cs m m' \<longleftrightarrow> (\<forall>x. m' x =
     (if unat buf \<le> unat x \<and> unat x < unat buf + unat sz then
        let i = unat x - unat buf; k = min (length cs) (unat sz - 1)
        in if i < k then cs ! i else if i = k then 0 else m x
      else m x))"

lemma vsnprintf_buffer:
  assumes "rt_vsnprintf buf sz fmt args m = Some (n, m')" "unat buf + unat sz < 2 ^ 32"
  shows "\<exists>cs. n = of_nat (length cs) \<and> (unat buf + length cs < 2 ^ 32 \<longrightarrow> buffer_holds buf sz cs m m')"
proof -
  have e: "unat (buf + sz) = unat buf + unat sz" using assms(2) by (intro unat_add_no_wrap) simp
  then have "\<not> buf + sz < buf" by (simp add: word_less_nat_alt)
  then obtain str m1 where v: "vsn_loop (buf + sz) fmt args (buf, m) = Some (str, m1)" "n = str - buf"
    "m' = (if sz > 0 then if str < buf + sz then m1(str := 0) else m1(buf + sz - 1 := 0) else m1)"
    using assms(1) by (auto simp: rt_vsnprintf_def elim!: bind_eq_SomeE)
  obtain cs where cs: "(str, m1) = put_all (buf + sz) cs (buf, m)" using emits_vsn [OF v(1)] by (auto simp: emits_def)
  have len: "fst (put_all e cs st) = fst st + of_nat (length cs)" for e st
    by (induction cs arbitrary: st) (auto simp: put_def split: prod.splits)
  have n: "n = of_nat (length cs)" using v(2) len [of "buf + sz" "(buf, m)"] by (simp flip: cs)
  have "buffer_holds buf sz cs m m'" if w: "unat buf + length cs < 2 ^ 32"
  proof -
    have p: "str = buf + of_nat (length cs)"
      "m1 = (\<lambda>x. if unat buf \<le> unat x \<and> unat x < unat buf + length cs \<and> x < buf + sz then cs ! (unat x - unat buf) else m x)"
      using put_all_at [OF w, of "buf + sz" m] cs by simp_all
    have us: "unat str = unat buf + length cs"
      using w unat_add_no_wrap [of buf "of_nat (length cs)"] by (simp add: p(1) unsigned_of_nat take_bit_nat_eq_self)
    have last: "unat (buf + sz - 1) = unat buf + unat sz - 1" if "sz > 0"
      using that e unat_pred [of "buf + sz"] unat_gt_0 [of sz] by (cases "buf + sz = 0") auto
    show ?thesis
      unfolding buffer_holds_def
    proof
      fix x
      have lt: "x < buf + sz \<longleftrightarrow> unat x < unat buf + unat sz" "str < buf + sz \<longleftrightarrow> length cs < unat sz"
        using e us by (simp_all add: word_less_nat_alt)
      consider "sz = 0" | "sz > 0" "length cs < unat sz" | "sz > 0" "\<not> length cs < unat sz"
        using word_neq_0_conv [of sz] by blast
      then show "m' x = (if unat buf \<le> unat x \<and> unat x < unat buf + unat sz then
          let i = unat x - unat buf; k = min (length cs) (unat sz - 1) in if i < k then cs ! i else if i = k then 0 else m x else m x)"
      proof cases
        case 1
        then show ?thesis using v(3) lt by (auto simp: p(2))
      next
        case 2
        have "x = str \<longleftrightarrow> unat x = unat buf + length cs" using us by (simp add: word_unat_eq_iff)
        then show ?thesis using 2 v(3) lt by (auto simp: p(2) Let_def)
      next
        case 3
        have "x = buf + sz - 1 \<longleftrightarrow> unat x = unat buf + unat sz - 1" using last [OF 3(1)] by (simp add: word_unat_eq_iff)
        moreover have "0 < unat sz" using 3(1) by (simp add: unat_gt_0 word_neq_0_conv)
        ultimately show ?thesis using 3 v(3) lt by (auto simp: p(2) Let_def)
      qed
    qed
  qed
  then show ?thesis using n by blast
qed

section \<open>Properties\<close>



text \<open>\<^verbatim>\<open>print_number\<close> puts exactly the text of the number: sign, zeros up to the precision, digits, filled up to the
  width with blanks in front, blanks behind or zeros after the sign, as the flags say. The decimal digits denote the
  number, and there are never more than ten of them, so that they fit into the array of 16 characters.\<close>

theorem print_number_exact:
  assumes "- 1 \<le> w" "w < 2 ^ 31" "- 1 \<le> precision" "precision < 2 ^ 31 - 8"
  shows "print_number e num base w precision type st = put_all e (number_text base w precision type num) st \<and>
    length (digit_loop ds base n) \<le> 10 \<and> foldr (\<lambda>c v. unat c - 48 + 10 * v) (digit_loop small_digits 10 n) 0 = unat n"
proof -
  have "unat n < 10 ^ 10" using unat_less_2_32 [of n] by simp
  then show ?thesis using print_number_text [OF assms] digit_loop_length [of n 10] digit_loop_value(1) by blast
qed

theorem print_number_exact_witness:
  "number_text 10 6 (- 1) 3 (- 42) = [45, 48, 48, 48, 52, 50] \<and>
   print_number 200 (- 42) 10 6 (- 1) 3 (100, \<lambda>_. 0) = put_all 200 [45, 48, 48, 48, 52, 50] (100, \<lambda>_. 0)"
proof -
  have "number_text 10 6 (- 1) 3 (- 42) = [45, 48, 48, 48, 52, 50]"
    by (simp add: number_text_def number_sign_def digit_loop.simps divide_def small_digits_def numeral_3_eq_3)
  then show ?thesis using print_number_exact [of 6 "- 1" 200 "- 42" 10 3 "(100, \<lambda>_. 0)" small_digits 0] by simp
qed

text \<open>\<^verbatim>\<open>%o\<close> prints what \<^verbatim>\<open>%x\<close> prints: the division knows only the bases 10 and 16.\<close>

theorem octal_prints_hexadecimal: "conv_number e fl w precision q 111 a st = conv_number e fl w precision q 120 a st"
proof -
  have dl: "digit_loop ds 8 n = digit_loop ds 16 n" for ds n
  proof (induction ds "8 :: nat" n rule: digit_loop.induct)
    case (1 ds n)
    then show ?case by (subst (1 2) digit_loop.simps) (simp add: divide_def)
  qed
  have "print_number e num 8 w precision t st = print_number e num 16 w precision t st" for num t
    unfolding print_number_def dl by (rule refl)
  then show ?thesis by (simp add: conv_number_def Let_def)
qed

end
