(* ===== verification/RingBuffer.thy ===== *)
theory RingBuffer
  imports Fifo
begin

text \<open>
  Ring buffers of bytes (\<^verbatim>\<open>components/drivers/src/ringbuffer.c\<close>). Two indices of 15 bits, each with a mirror bit; equal indices mean an empty buffer in the same
  mirror and a full one in different mirrors. The buffer and the data of a caller are lists of bytes, and a copy outside of one
  has no result. A ring buffer implements a bounded queue of bytes (an interpretation of \<open>bounded_fifo\<close>), and the block
  operations are related to that queue.
\<close>

section \<open>Operations\<close>

record rt_ringbuffer =
  buffer_ptr :: "u8 list"
  read_mirror :: bool
  read_index :: "15 word"
  write_mirror :: bool
  write_index :: "15 word"
  buffer_size :: u16

datatype rt_ringbuffer_state = RT_RINGBUFFER_EMPTY | RT_RINGBUFFER_FULL | RT_RINGBUFFER_HALFFULL

definition rt_ringbuffer_status :: "rt_ringbuffer \<Rightarrow> rt_ringbuffer_state" where
  "rt_ringbuffer_status rb =
     (if read_index rb = write_index rb then
        if read_mirror rb = write_mirror rb then RT_RINGBUFFER_EMPTY else RT_RINGBUFFER_FULL
      else RT_RINGBUFFER_HALFFULL)"

text \<open>\<^verbatim>\<open>buffer_size\<close> is a signed number of 16 bits. \<^verbatim>\<open>RT_ALIGN_DOWN(size, 4)\<close> clears its last two bits.\<close>

definition rt_ringbuffer_init :: "u8 list \<Rightarrow> u16 \<Rightarrow> rt_ringbuffer option" where
  "rt_ringbuffer_init pool sz = do {
     rt_assert (sint sz > 0);
     Some \<lparr>buffer_ptr = pool, read_mirror = False, read_index = 0, write_mirror = False, write_index = 0, buffer_size = sz AND NOT 3\<rparr> }"

definition rt_ringbuffer_data_len :: "rt_ringbuffer \<Rightarrow> u32" where
  "rt_ringbuffer_data_len rb = (case rt_ringbuffer_status rb of
       RT_RINGBUFFER_EMPTY \<Rightarrow> 0
     | RT_RINGBUFFER_FULL \<Rightarrow> scast (buffer_size rb)
     | RT_RINGBUFFER_HALFFULL \<Rightarrow>
         if write_index rb > read_index rb then word_of_int (uint (write_index rb) - uint (read_index rb))
         else word_of_int (sint (buffer_size rb) - (uint (read_index rb) - uint (write_index rb))))"

definition rt_ringbuffer_space_len :: "rt_ringbuffer \<Rightarrow> u32" where
  "rt_ringbuffer_space_len rb = scast (buffer_size rb) - rt_ringbuffer_data_len rb"

definition rt_ringbuffer_get_size :: "rt_ringbuffer \<Rightarrow> u16" where
  "rt_ringbuffer_get_size rb = buffer_size rb"

text \<open>\<^verbatim>\<open>memcpy(&dst[i], &src[j], n)\<close>; the second function is the part that reads.\<close>

definition part_of :: "u8 list \<Rightarrow> int \<Rightarrow> int \<Rightarrow> u8 list option" where
  "part_of src j n = (if 0 \<le> j \<and> 0 \<le> n \<and> j + n \<le> int (length src) then Some (take (nat n) (drop (nat j) src)) else None)"

definition memcpy_at :: "int \<Rightarrow> u8 list \<Rightarrow> int \<Rightarrow> int \<Rightarrow> u8 list \<Rightarrow> u8 list option" where
  "memcpy_at i src j n dst = do {
     ys \<leftarrow> part_of src j n;
     if 0 \<le> i \<and> i + n \<le> int (length dst) then Some (take (nat i) dst @ ys @ drop (nat i + length ys) dst) else None }"

text \<open>Copying \<open>n\<close> bytes in at \<^verbatim>\<open>write_index\<close>, in one or two parts; \<open>True\<close> when it goes into the other mirror.\<close>

definition copy_in :: "u8 list \<Rightarrow> u16 \<Rightarrow> rt_ringbuffer \<Rightarrow> (bool \<times> rt_ringbuffer) option" where
  "copy_in ptr n rb =
     (let room = sint (buffer_size rb) - uint (write_index rb) in
      if room > uint n then do {
        buf \<leftarrow> memcpy_at (uint (write_index rb)) ptr 0 (uint n) (buffer_ptr rb);
        Some (False, rb\<lparr>buffer_ptr := buf, write_index := word_of_int (uint (write_index rb) + uint n)\<rparr>) }
      else do {
        buf \<leftarrow> memcpy_at (uint (write_index rb)) ptr 0 room (buffer_ptr rb);
        buf \<leftarrow> memcpy_at 0 ptr room (uint n - room) buf;
        Some (True, rb\<lparr>buffer_ptr := buf, write_mirror := \<not> write_mirror rb, write_index := word_of_int (uint n - room)\<rparr>) })"

definition rt_ringbuffer_put :: "u8 list \<Rightarrow> u16 \<Rightarrow> rt_ringbuffer \<Rightarrow> (u32 \<times> rt_ringbuffer) option" where
  "rt_ringbuffer_put ptr n rb =
     (let sz = ucast (rt_ringbuffer_space_len rb) :: u16 in
      if sz = 0 then Some (0, rb)
      else do {
        let n = (if sz < n then sz else n);
        (_, rb) \<leftarrow> copy_in ptr n rb;
        Some (ucast n, rb) })"

definition rt_ringbuffer_put_force :: "u8 list \<Rightarrow> u16 \<Rightarrow> rt_ringbuffer \<Rightarrow> (u32 \<times> rt_ringbuffer) option" where
  "rt_ringbuffer_put_force ptr n rb = do {
     let space_length = (ucast (rt_ringbuffer_space_len rb) :: u16);
     let (ptr, n) = (if uint n > sint (buffer_size rb) then (drop (nat (uint n - sint (buffer_size rb))) ptr, buffer_size rb) else (ptr, n));
     (flip, rb) \<leftarrow> copy_in ptr n rb;
     Some (ucast n, if n > space_length then
         if flip then rb\<lparr>read_mirror := \<not> read_mirror rb, read_index := write_index rb\<rparr> else rb\<lparr>read_index := write_index rb\<rparr>
       else rb) }"

text \<open>The bytes are those written to \<^verbatim>\<open>ptr\<close>.\<close>

definition rt_ringbuffer_get :: "u16 \<Rightarrow> rt_ringbuffer \<Rightarrow> (u32 \<times> u8 list \<times> rt_ringbuffer) option" where
  "rt_ringbuffer_get n rb =
     (let sz = rt_ringbuffer_data_len rb in
      if sz = 0 then Some (0, [], rb)
      else do {
        let n = (if sz < ucast n then ucast sz else n);
        let room = sint (buffer_size rb) - uint (read_index rb);
        if room > uint n then do {
          xs \<leftarrow> part_of (buffer_ptr rb) (uint (read_index rb)) (uint n);
          Some (ucast n, xs, rb\<lparr>read_index := word_of_int (uint (read_index rb) + uint n)\<rparr>) }
        else do {
          xs \<leftarrow> part_of (buffer_ptr rb) (uint (read_index rb)) room;
          ys \<leftarrow> part_of (buffer_ptr rb) 0 (uint n - room);
          Some (ucast n, xs @ ys, rb\<lparr>read_mirror := \<not> read_mirror rb, read_index := word_of_int (uint n - room)\<rparr>) } })"

text \<open>\<^verbatim>\<open>buffer_ptr[write_index] = ch\<close> and the step of an index, which flips its mirror at the end of the buffer.\<close>

definition store_char :: "u8 \<Rightarrow> rt_ringbuffer \<Rightarrow> rt_ringbuffer option" where
  "store_char ch rb = (if unat (write_index rb) < length (buffer_ptr rb)
     then Some (rb\<lparr>buffer_ptr := (buffer_ptr rb)[unat (write_index rb) := ch]\<rparr>) else None)"

definition at_end :: "15 word \<Rightarrow> rt_ringbuffer \<Rightarrow> bool" where
  "at_end i rb \<longleftrightarrow> uint i = sint (buffer_size rb) - 1"

definition rt_ringbuffer_putchar :: "u8 \<Rightarrow> rt_ringbuffer \<Rightarrow> (u32 \<times> rt_ringbuffer) option" where
  "rt_ringbuffer_putchar ch rb =
     (if rt_ringbuffer_space_len rb = 0 then Some (0, rb)
      else do {
        rb \<leftarrow> store_char ch rb;
        Some (1, if at_end (write_index rb) rb then rb\<lparr>write_mirror := \<not> write_mirror rb, write_index := 0\<rparr>
                 else rb\<lparr>write_index := write_index rb + 1\<rparr>) })"

definition rt_ringbuffer_putchar_force :: "u8 \<Rightarrow> rt_ringbuffer \<Rightarrow> (u32 \<times> rt_ringbuffer) option" where
  "rt_ringbuffer_putchar_force ch rb = do {
     let old_state = rt_ringbuffer_status rb;
     rb \<leftarrow> store_char ch rb;
     Some (1, if at_end (write_index rb) rb then
         let rb = rb\<lparr>write_mirror := \<not> write_mirror rb, write_index := 0\<rparr>
         in if old_state = RT_RINGBUFFER_FULL then rb\<lparr>read_mirror := \<not> read_mirror rb, read_index := write_index rb\<rparr> else rb
       else
         let rb = rb\<lparr>write_index := write_index rb + 1\<rparr>
         in if old_state = RT_RINGBUFFER_FULL then rb\<lparr>read_index := write_index rb\<rparr> else rb) }"

definition rt_ringbuffer_getchar :: "rt_ringbuffer \<Rightarrow> (u32 \<times> u8 option \<times> rt_ringbuffer) option" where
  "rt_ringbuffer_getchar rb =
     (if rt_ringbuffer_data_len rb = 0 then Some (0, None, rb)
      else if unat (read_index rb) < length (buffer_ptr rb) then
        Some (1, Some (buffer_ptr rb ! unat (read_index rb)),
          if at_end (read_index rb) rb then rb\<lparr>read_mirror := \<not> read_mirror rb, read_index := 0\<rparr>
          else rb\<lparr>read_index := read_index rb + 1\<rparr>)
      else None)"

definition rt_ringbuffer_reset :: "rt_ringbuffer \<Rightarrow> rt_ringbuffer" where
  "rt_ringbuffer_reset rb = rb\<lparr>read_mirror := False, read_index := 0, write_mirror := False, write_index := 0\<rparr>"

section \<open>The ring is a queue\<close>

abbreviation rb_n :: "rt_ringbuffer \<Rightarrow> nat" where "rb_n rb \<equiv> nat (sint (buffer_size rb))"
abbreviation rb_r :: "rt_ringbuffer \<Rightarrow> nat" where "rb_r rb \<equiv> unat (read_index rb)"
abbreviation rb_w :: "rt_ringbuffer \<Rightarrow> nat" where "rb_w rb \<equiv> unat (write_index rb)"

text \<open>In the same mirror the write index is ahead, in different mirrors it has wrapped.\<close>

definition rb_ok :: "rt_ringbuffer \<Rightarrow> bool" where
  "rb_ok rb \<longleftrightarrow> 0 < sint (buffer_size rb) \<and> rb_n rb \<le> length (buffer_ptr rb) \<and> rb_r rb < rb_n rb \<and> rb_w rb < rb_n rb \<and>
     (if read_mirror rb = write_mirror rb then rb_r rb \<le> rb_w rb else rb_w rb \<le> rb_r rb)"

definition rb_len :: "rt_ringbuffer \<Rightarrow> nat" where
  "rb_len rb = (if read_mirror rb = write_mirror rb then rb_w rb - rb_r rb else rb_n rb + rb_w rb - rb_r rb)"

definition rb_contents :: "rt_ringbuffer \<Rightarrow> u8 list" where
  "rb_contents rb = map (\<lambda>i. buffer_ptr rb ! ((rb_r rb + i) mod rb_n rb)) [0..<rb_len rb]"

lemma rb_length [simp]: "length (rb_contents rb) = rb_len rb"
  by (simp add: rb_contents_def)

lemma size_bound: "sint (s :: u16) < 2 ^ 15"
  using sint_lt [of s] by simp

lemma rb_okD:
  assumes "rb_ok rb"
  shows "0 < rb_n rb" "rb_n rb < 2 ^ 15" "rb_n rb \<le> length (buffer_ptr rb)" "rb_r rb < rb_n rb" "rb_w rb < rb_n rb" "rb_len rb \<le> rb_n rb"
    "rb_w rb = (rb_r rb + rb_len rb) mod rb_n rb" "int (rb_n rb) = sint (buffer_size rb)"
proof -
  show n: "0 < rb_n rb" "rb_n rb < 2 ^ 15" "rb_n rb \<le> length (buffer_ptr rb)" "rb_r rb < rb_n rb" "rb_w rb < rb_n rb" "int (rb_n rb) = sint (buffer_size rb)"
    using assms size_bound [of "buffer_size rb"] by (simp_all add: rb_ok_def)
  show "rb_len rb \<le> rb_n rb" using assms n(4,5) by (auto simp: rb_ok_def rb_len_def split: if_splits)
  show "rb_w rb = (rb_r rb + rb_len rb) mod rb_n rb"
    using assms n(4,5) by (auto simp: rb_ok_def rb_len_def split: if_splits)
qed

lemma unat_word_of_int_small: "0 \<le> x \<Longrightarrow> x < 2 ^ LENGTH('a) \<Longrightarrow> unat (word_of_int x :: 'a::len word) = nat x"
  by (simp add: unat_eq_nat_uint uint_word_of_int)

lemma scast_size: "rb_ok rb \<Longrightarrow> unat (scast (buffer_size rb) :: u32) = rb_n rb"
proof -
  assume "rb_ok rb"
  note d = rb_okD [OF this]
  have "scast (buffer_size rb) = (word_of_int (sint (buffer_size rb)) :: u32)" by (simp add: signed_word_eqI)
  then show ?thesis using d(1,2) unat_word_of_int_small [of "sint (buffer_size rb)", where 'a = 32] by simp
qed

lemma data_len_nat: "rb_ok rb \<Longrightarrow> unat (rt_ringbuffer_data_len rb) = rb_len rb"
proof -
  assume ok: "rb_ok rb"
  note d = rb_okD [OF ok]
  have w: "unat (word_of_int (uint (write_index rb) - uint (read_index rb)) :: u32) = rb_w rb - rb_r rb" if "rb_r rb < rb_w rb"
  proof -
    have e: "uint (write_index rb) - uint (read_index rb) = int (rb_w rb - rb_r rb)" using that by (simp add: of_nat_diff)
    show ?thesis unfolding e using d(2,5) by (subst unat_word_of_int_small) auto
  qed
  have v: "unat (word_of_int (sint (buffer_size rb) - (uint (read_index rb) - uint (write_index rb))) :: u32) = rb_n rb + rb_w rb - rb_r rb"
    if "rb_w rb < rb_r rb"
  proof -
    have e: "sint (buffer_size rb) - (uint (read_index rb) - uint (write_index rb)) = int (rb_n rb + rb_w rb - rb_r rb)"
      using d(4,8) by (simp add: of_nat_diff)
    show ?thesis unfolding e using d(2) that by (subst unat_word_of_int_small) auto
  qed
  consider "rb_r rb = rb_w rb" | "rb_r rb < rb_w rb" | "rb_w rb < rb_r rb" by linarith
  then show ?thesis
  proof cases
    case 1
    then have "read_index rb = write_index rb" by (simp add: word_unat_eq_iff)
    then show ?thesis using scast_size [OF ok] by (simp add: rt_ringbuffer_data_len_def rt_ringbuffer_status_def rb_len_def)
  next
    case 2
    then have "read_index rb \<noteq> write_index rb" "read_index rb < write_index rb" "read_mirror rb = write_mirror rb"
      using ok by (auto simp: word_less_nat_alt rb_ok_def split: if_splits)
    then show ?thesis using w [OF 2] by (simp add: rt_ringbuffer_data_len_def rt_ringbuffer_status_def rb_len_def)
  next
    case 3
    then have "read_index rb \<noteq> write_index rb" "\<not> read_index rb < write_index rb" "read_mirror rb \<noteq> write_mirror rb"
      using ok by (auto simp: word_less_nat_alt rb_ok_def split: if_splits)
    then show ?thesis using v [OF 3] by (simp add: rt_ringbuffer_data_len_def rt_ringbuffer_status_def rb_len_def)
  qed
qed

lemma space_len_nat:
  assumes "rb_ok rb"
  shows "unat (rt_ringbuffer_space_len rb) = rb_n rb - rb_len rb" "unat (ucast (rt_ringbuffer_space_len rb) :: u16) = rb_n rb - rb_len rb"
proof -
  note d = rb_okD [OF assms]
  show s: "unat (rt_ringbuffer_space_len rb) = rb_n rb - rb_len rb"
    unfolding rt_ringbuffer_space_len_def unat_sub_u32 scast_size [OF assms] data_len_nat [OF assms] using d(6) by simp
  show "unat (ucast (rt_ringbuffer_space_len rb) :: u16) = rb_n rb - rb_len rb"
    using d(2) by (simp add: unsigned_ucast_eq take_bit_nat_eq_self s)
qed

section \<open>Copying\<close>

lemma part_of_Some: "j + n \<le> length src \<Longrightarrow> part_of src (int j) (int n) = Some (take n (drop j src))"
  by (simp add: part_of_def)

lemma memcpy_at_Some:
  assumes "j + n \<le> length src" "i + n \<le> length dst"
  shows "\<exists>dst'. memcpy_at (int i) src (int j) (int n) dst = Some dst' \<and> length dst' = length dst \<and>
    (\<forall>k < length dst. dst' ! k = (if i \<le> k \<and> k < i + n then src ! (j + (k - i)) else dst ! k))"
  using assms by (auto simp: memcpy_at_def part_of_Some nth_append min_def)

text \<open>What is written: the bytes at the places from the write index on, around the end of the ring.\<close>

definition ring_written :: "nat \<Rightarrow> nat \<Rightarrow> u8 list \<Rightarrow> u8 list \<Rightarrow> u8 list \<Rightarrow> bool" where
  "ring_written n w xs buf buf' \<longleftrightarrow> length buf' = length buf \<and> (\<forall>j < length xs. buf' ! ((w + j) mod n) = xs ! j) \<and>
     (\<forall>i < n. (\<forall>j < length xs. i \<noteq> (w + j) mod n) \<longrightarrow> buf' ! i = buf ! i)"

lemma wrap_mod: "(w :: nat) < n \<Longrightarrow> j < n \<Longrightarrow> (w + j) mod n = (if w + j < n then w + j else w + j - n)"
  by (auto simp: mod_if)

lemma two_parts_written:
  assumes "w < n" "length xs \<le> n" "length buf' = length buf" "n - w \<le> length xs" "n \<le> length buf"
    and "\<And>k. k < length buf \<Longrightarrow> buf' ! k = (if k < length xs - (n - w) then xs ! (n - w + k) else if w \<le> k \<and> k < n then xs ! (k - w) else buf ! k)"
  shows "ring_written n w xs buf buf'"
  unfolding ring_written_def
proof (intro conjI allI impI)
  fix j assume j: "j < length xs"
  show "buf' ! ((w + j) mod n) = xs ! j"
  proof (cases "w + j < n")
    case True
    then have "(w + j) mod n = w + j" by simp
    then show ?thesis using assms(6) [of "w + j"] assms(2,5) True by auto
  next
    case False
    then have e: "(w + j) mod n = w + j - n" using assms(1,2) j by (simp add: wrap_mod)
    show ?thesis using assms(6) [of "w + j - n"] assms(1,2,5) False j unfolding e by auto
  qed
next
  fix i assume i: "i < n" "\<forall>j < length xs. i \<noteq> (w + j) mod n"
  have "\<not> i < length xs - (n - w)"
  proof
    assume a: "i < length xs - (n - w)"
    then have "(w + (n - w + i)) mod n = i" "n - w + i < length xs" using assms(1) i(1) by simp_all
    then show False using i(2) by metis
  qed
  moreover have "\<not> (w \<le> i)" 
  proof
    assume a: "w \<le> i"
    then have "(w + (i - w)) mod n = i" using i(1) by simp
    moreover have "i - w < length xs" using i(1) assms(4) a by linarith
    ultimately show False using i(2) by metis
  qed
  ultimately show "buf' ! i = buf ! i" using assms(5) assms(6) [of i] i(1) by simp
qed (rule assms(3))

lemma one_part_written:
  assumes "w + length xs < n" "length buf' = length buf" "n \<le> length buf"
    and "\<And>k. k < length buf \<Longrightarrow> buf' ! k = (if w \<le> k \<and> k < w + length xs then xs ! (k - w) else buf ! k)"
  shows "ring_written n w xs buf buf'"
  unfolding ring_written_def
proof (intro conjI allI impI)
  fix j assume "j < length xs"
  then show "buf' ! ((w + j) mod n) = xs ! j" using assms(1,3) assms(4) [of "w + j"] by simp
next
  fix i assume i: "i < n" "\<forall>j < length xs. i \<noteq> (w + j) mod n"
  have "\<not> (w \<le> i \<and> i < w + length xs)"
  proof
    assume a: "w \<le> i \<and> i < w + length xs"
    then have "(w + (i - w)) mod n = i" "i - w < length xs" using i(1) by auto
    then show False using i(2) by metis
  qed
  then show "buf' ! i = buf ! i" using assms(3) assms(4) [of i] i(1) by auto
qed (rule assms(2))

lemma copy_in_ok:
  assumes "rb_ok rb" "unat n \<le> rb_n rb" "unat n \<le> length ptr"
  obtains buf where "copy_in ptr n rb = Some (rb_n rb \<le> rb_w rb + unat n, rb\<lparr>buffer_ptr := buf,
      write_mirror := (if rb_n rb \<le> rb_w rb + unat n then \<not> write_mirror rb else write_mirror rb),
      write_index := of_nat ((rb_w rb + unat n) mod rb_n rb)\<rparr>)"
    "ring_written (rb_n rb) (rb_w rb) (take (unat n) ptr) (buffer_ptr rb) buf"
proof -
  note d = rb_okD [OF assms(1)]
  define N W L where "N = rb_n rb" and "W = rb_w rb" and "L = unat n"
  have nw: "sint (buffer_size rb) = int N" "uint (write_index rb) = int W" "uint n = int L"
    using d(8) by (simp_all add: N_def W_def L_def)
  have b: "N \<le> length (buffer_ptr rb)" "W < N" "L \<le> N" "L \<le> length ptr" using d assms(2,3) by (simp_all add: N_def W_def L_def)
  show ?thesis
  proof (cases "W + L < N")
    case True
    obtain buf where buf: "memcpy_at (int W) ptr (int 0) (int L) (buffer_ptr rb) = Some buf" "length buf = length (buffer_ptr rb)"
      "\<forall>k < length (buffer_ptr rb). buf ! k = (if W \<le> k \<and> k < W + L then ptr ! (0 + (k - W)) else buffer_ptr rb ! k)"
      using memcpy_at_Some [of 0 L ptr W "buffer_ptr rb"] b True by auto
    have "copy_in ptr n rb = Some (False, rb\<lparr>buffer_ptr := buf, write_index := of_nat (W + L)\<rparr>)"
      using buf(1) True by (simp add: copy_in_def Let_def nw)
    moreover have "ring_written N W (take L ptr) (buffer_ptr rb) buf"
      using True b buf(2,3) by (intro one_part_written) (auto simp: min_def)
    ultimately show ?thesis using that [of buf] True by (simp add: N_def W_def L_def)
  next
    case False
    have room: "int N - int W = int (N - W)" using b(2) by (simp add: of_nat_diff)
    have nle: "\<not> int L < int (N - W)" using False by simp
    have rest: "int L - int (N - W) = int (W + L - N)" using False b(2) by (simp add: of_nat_diff)
    have pre: "0 + (N - W) \<le> length ptr" "W + (N - W) \<le> length (buffer_ptr rb)" "N - W + (W + L - N) \<le> length ptr" "0 + (W + L - N) \<le> length (buffer_ptr rb)"
      using b False by simp_all
    obtain buf1 where buf1: "memcpy_at (int W) ptr (int 0) (int (N - W)) (buffer_ptr rb) = Some buf1" "length buf1 = length (buffer_ptr rb)"
      "\<forall>k < length (buffer_ptr rb). buf1 ! k = (if W \<le> k \<and> k < W + (N - W) then ptr ! (0 + (k - W)) else buffer_ptr rb ! k)"
      using memcpy_at_Some [OF pre(1,2)] by blast
    obtain buf where buf: "memcpy_at (int 0) ptr (int (N - W)) (int (W + L - N)) buf1 = Some buf" "length buf = length buf1"
      "\<forall>k < length buf1. buf ! k = (if 0 \<le> k \<and> k < 0 + (W + L - N) then ptr ! (N - W + (k - 0)) else buf1 ! k)"
      using memcpy_at_Some [OF pre(3), of 0 buf1] pre(4) buf1(2) by auto
    have "copy_in ptr n rb = Some (True, rb\<lparr>buffer_ptr := buf, write_mirror := \<not> write_mirror rb, write_index := of_nat (W + L - N)\<rparr>)"
      using buf1(1) buf(1) nle by (simp add: copy_in_def Let_def nw room rest)
    moreover have "ring_written N W (take L ptr) (buffer_ptr rb) buf"
      using False b buf1(2,3) buf(2,3) by (intro two_parts_written) (auto simp: min_def)
    moreover have "(W + L) mod N = W + L - N"
      using False b(2,3) by (cases "L = N") (auto simp: wrap_mod)
    ultimately show ?thesis using that [of buf] False by (simp add: N_def W_def L_def)
  qed
qed

section \<open>Contents after a write\<close>

text \<open>The last \<open>n\<close> bytes of the contents followed by what is written are where the ring has them.\<close>

lemma ring_nth:
  assumes "ring_written n ((r + l) mod n) xs buf buf'" "l \<le> n" "length xs \<le> n" "q < l + length xs" "l + length xs \<le> q + n" "0 < n"
  shows "buf' ! ((r + q) mod n) = (map (\<lambda>i. buf ! ((r + i) mod n)) [0..<l] @ xs) ! q"
proof (cases "q < l")
  case True
  have "(r + q) mod n \<noteq> ((r + l) mod n + j) mod n" if "j < length xs" for j
  proof -
    have "(r + q + 0) mod n \<noteq> (r + q + (l + j - q)) mod n" using True that assms(5) by (intro ring_distinct) auto
    moreover have "r + q + (l + j - q) = r + l + j" using True by simp
    ultimately show ?thesis by (simp add: mod_simps)
  qed
  then have "buf' ! ((r + q) mod n) = buf ! ((r + q) mod n)" using assms(1,6) unfolding ring_written_def by simp
  then show ?thesis using True by (simp add: nth_append)
next
  case False
  then have "r + l + (q - l) = r + q" by simp
  then have "((r + l) mod n + (q - l)) mod n = (r + q) mod n" by (metis mod_add_left_eq)
  moreover have "q - l < length xs" using False assms(4) by simp
  ultimately have "buf' ! ((r + q) mod n) = xs ! (q - l)" using assms(1) unfolding ring_written_def by metis
  then show ?thesis using False by (simp add: nth_append)
qed

lemma rb_contents_write:
  assumes "rb_ok rb" "ring_written (rb_n rb) (rb_w rb) xs (buffer_ptr rb) buf" "length xs \<le> rb_n rb" "q < rb_len rb + length xs" "rb_len rb + length xs \<le> q + rb_n rb"
  shows "buf ! ((rb_r rb + q) mod rb_n rb) = (rb_contents rb @ xs) ! q"
proof -
  note d = rb_okD [OF assms(1)]
  show ?thesis unfolding rb_contents_def
    by (rule ring_nth) (use assms(2-5) d(1,6,7) in auto)
qed

lemma index_of_nat: "m < 2 ^ 15 \<Longrightarrow> unat (of_nat m :: 15 word) = m"
  by (simp add: unsigned_of_nat take_bit_nat_eq_self)

text \<open>Writing what fits appends it.\<close>

lemma copy_in_appends:
  assumes "rb_ok rb" "rb_len rb + unat n \<le> rb_n rb" "unat n \<le> length ptr"
  obtains f rb' where "copy_in ptr n rb = Some (f, rb')" "rb_ok rb'" "rb_contents rb' = rb_contents rb @ take (unat n) ptr"
    "buffer_size rb' = buffer_size rb"
proof -
  note d = rb_okD [OF assms(1)]
  obtain buf where b: "copy_in ptr n rb = Some (rb_n rb \<le> rb_w rb + unat n, rb\<lparr>buffer_ptr := buf,
      write_mirror := (if rb_n rb \<le> rb_w rb + unat n then \<not> write_mirror rb else write_mirror rb),
      write_index := of_nat ((rb_w rb + unat n) mod rb_n rb)\<rparr>)"
    "ring_written (rb_n rb) (rb_w rb) (take (unat n) ptr) (buffer_ptr rb) buf"
    using copy_in_ok [OF assms(1) _ assms(3)] assms(2) by (metis add_leD2)
  define rb' where "rb' = rb\<lparr>buffer_ptr := buf,
      write_mirror := (if rb_n rb \<le> rb_w rb + unat n then \<not> write_mirror rb else write_mirror rb),
      write_index := of_nat ((rb_w rb + unat n) mod rb_n rb)\<rparr>"
  have len: "length buf = length (buffer_ptr rb)" "length (take (unat n) ptr) = unat n" using b(2) assms(3) by (simp_all add: ring_written_def)
  have "(rb_w rb + unat n) mod rb_n rb < 2 ^ 15" using d(1,2) by (meson less_trans mod_less_divisor)
  then have w: "rb_w rb' = (rb_w rb + unat n) mod rb_n rb" using index_of_nat by (simp add: rb'_def)
  have m: "(rb_w rb + unat n) mod rb_n rb = (if rb_n rb \<le> rb_w rb + unat n then rb_w rb + unat n - rb_n rb else rb_w rb + unat n)"
    using d(5) assms(2) by (auto simp: le_mod_geq)
  have same: "rb_n rb' = rb_n rb" "rb_r rb' = rb_r rb" "buffer_ptr rb' = buf" "read_mirror rb' = read_mirror rb" "buffer_size rb' = buffer_size rb"
    "write_mirror rb' = (if rb_n rb \<le> rb_w rb + unat n then \<not> write_mirror rb else write_mirror rb)" by (simp_all add: rb'_def)
  have ok: "rb_ok rb'"
    using assms(1,2) d(1-5) len(1) unfolding rb_ok_def same w m by (auto simp: rb_len_def split: if_splits)
  have l: "rb_len rb' = rb_len rb + unat n"
    using assms(1,2) d(4,5) unfolding rb_len_def same w m by (auto simp: rb_ok_def rb_len_def add.assoc split: if_splits)
  have "rb_contents rb' = rb_contents rb @ take (unat n) ptr"
  proof (rule nth_equalityI)
    show "length (rb_contents rb') = length (rb_contents rb @ take (unat n) ptr)" using len(2) by (simp add: l)
    show "rb_contents rb' ! q = (rb_contents rb @ take (unat n) ptr) ! q" if "q < length (rb_contents rb')" for q
      using rb_contents_write [OF assms(1) b(2), of q] that len(2) assms(2) by (simp add: rb_contents_def [of rb'] same l)
  qed
  with that b(1) ok same(5) show ?thesis unfolding rb'_def [symmetric] by blast
qed

lemma put_spec:
  assumes "rb_ok rb" "unat n \<le> length ptr"
  obtains rb' where "rt_ringbuffer_put ptr n rb = Some (of_nat (min (unat n) (rb_n rb - rb_len rb)), rb')" "rb_ok rb'"
    "rb_contents rb' = rb_contents rb @ take (min (unat n) (rb_n rb - rb_len rb)) ptr" "buffer_size rb' = buffer_size rb"
proof -
  note d = rb_okD [OF assms(1)] and s = space_len_nat(2) [OF assms(1)]
  define sz where "sz = (ucast (rt_ringbuffer_space_len rb) :: u16)"
  show ?thesis
  proof (cases "sz = 0")
    case True
    then have "rb_n rb - rb_len rb = 0" using s by (simp add: sz_def [symmetric])
    then show ?thesis using that [of rb] assms(1) True by (simp add: rt_ringbuffer_put_def sz_def)
  next
    case False
    define k where "k = (if sz < n then sz else n)"
    have k: "unat k = min (unat n) (rb_n rb - rb_len rb)"
      using s by (auto simp: k_def sz_def [symmetric] word_less_nat_alt)
    then have "rb_len rb + unat k \<le> rb_n rb" "unat k \<le> length ptr" using d(6) assms(2) by simp_all
    then obtain f rb' where r: "copy_in ptr k rb = Some (f, rb')" "rb_ok rb'" "rb_contents rb' = rb_contents rb @ take (unat k) ptr"
      "buffer_size rb' = buffer_size rb" using copy_in_appends [OF assms(1)] by metis
    have "ucast k = (of_nat (unat k) :: u32)" by (simp add: unsigned_word_eqI)
    then show ?thesis using that [of rb'] r False unfolding k by (simp add: rt_ringbuffer_put_def Let_def sz_def [symmetric] k_def [symmetric])
  qed
qed

section \<open>Contents after a read\<close>

lemma ring_read:
  assumes "r < n" "l \<le> n" "n \<le> length buf"
  shows "map (\<lambda>i. buf ! ((r + i) mod n)) [0..<l] =
    (if r + l < n then take l (drop r buf) else take (n - r) (drop r buf) @ take (r + l - n) buf)"
proof (cases "r + l < n")
  case True
  then show ?thesis using assms by (intro nth_equalityI) auto
next
  case False
  have "map (\<lambda>i. buf ! ((r + i) mod n)) [0..<l] = take (n - r) (drop r buf) @ take (r + l - n) buf"
  proof (rule nth_equalityI)
    show "length (map (\<lambda>i. buf ! ((r + i) mod n)) [0..<l]) = length (take (n - r) (drop r buf) @ take (r + l - n) buf)"
      using assms False by simp
    show "map (\<lambda>i. buf ! ((r + i) mod n)) [0..<l] ! i = (take (n - r) (drop r buf) @ take (r + l - n) buf) ! i"
      if "i < length (map (\<lambda>i. buf ! ((r + i) mod n)) [0..<l])" for i
    proof (cases "i < n - r")
      case True
      then show ?thesis using assms that by (simp add: nth_append)
    next
      case f: False
      have "i < l" using that by simp
      then have "\<not> r + i < n" "i < n" using f assms by linarith+
      then have "(r + i) mod n = r + i - n" using assms(1) by (simp add: wrap_mod)
      moreover have "i - (n - r) = r + i - n" "r + i - n < r + l - n" using f assms(1) \<open>i < l\<close> by linarith+
      moreover have "length (take (n - r) (drop r buf)) = n - r" using assms(1,3) by simp
      then have "(take (n - r) (drop r buf) @ take (r + l - n) buf) ! i = take (r + l - n) buf ! (i - (n - r))"
        using f by (simp only: nth_append if_False)
      ultimately show ?thesis using \<open>i < l\<close> by simp
    qed
  qed
  then show ?thesis using False by simp
qed

lemma ring_drop:
  "drop k (map (\<lambda>i. buf ! ((r + i) mod n)) [0..<l]) = map (\<lambda>i. buf ! (((r + k) mod n + i) mod n)) [0..<l - k]"
  by (intro nth_equalityI) (auto simp: mod_add_left_eq add.assoc nth_upt)

lemma get_reads:
  assumes "rb_ok rb" "rt_ringbuffer_data_len rb \<noteq> 0" "unat k \<le> rb_len rb" "k = (if rt_ringbuffer_data_len rb < ucast n then ucast (rt_ringbuffer_data_len rb) else n)"
  shows "rt_ringbuffer_get n rb = Some (ucast k, take (unat k) (rb_contents rb),
    rb\<lparr>read_mirror := (if rb_n rb \<le> rb_r rb + unat k then \<not> read_mirror rb else read_mirror rb), read_index := of_nat ((rb_r rb + unat k) mod rb_n rb)\<rparr>)"
proof -
  note d = rb_okD [OF assms(1)]
  define N R L where "N = rb_n rb" and "R = rb_r rb" and "L = unat k"
  have nw: "sint (buffer_size rb) = int N" "uint (read_index rb) = int R" "uint k = int L" using d(8) by (simp_all add: N_def R_def L_def)
  have b: "N \<le> length (buffer_ptr rb)" "R < N" "L \<le> N" using d assms(3) by (simp_all add: N_def R_def L_def)
  have c: "take L (rb_contents rb) = (if R + L < N then take L (drop R (buffer_ptr rb)) else take (N - R) (drop R (buffer_ptr rb)) @ take (R + L - N) (buffer_ptr rb))"
    unfolding rb_contents_def using ring_read [OF b(2,3,1)] assms(3) by (simp add: take_map N_def [symmetric] R_def [symmetric] L_def [symmetric] min_def)
  have g: "rt_ringbuffer_get n rb = (if int N - int R > int L then do {
          xs \<leftarrow> part_of (buffer_ptr rb) (int R) (int L);
          Some (ucast k, xs, rb\<lparr>read_index := word_of_int (int R + int L)\<rparr>) }
        else do {
          xs \<leftarrow> part_of (buffer_ptr rb) (int R) (int N - int R);
          ys \<leftarrow> part_of (buffer_ptr rb) 0 (int L - (int N - int R));
          Some (ucast k, xs @ ys, rb\<lparr>read_mirror := \<not> read_mirror rb, read_index := word_of_int (int L - (int N - int R))\<rparr>) })"
    using assms(2) by (simp only: rt_ringbuffer_get_def Let_def assms(4) [symmetric] nw if_False)
  show ?thesis
  proof (cases "R + L < N")
    case True
    then show ?thesis using b part_of_Some [of R L "buffer_ptr rb"] unfolding g N_def [symmetric] R_def [symmetric] L_def [symmetric] c
      by simp
  next
    case False
    have e: "int N - int R = int (N - R)" "int L - int (N - R) = int (R + L - N)" using False b(2) by (simp_all add: of_nat_diff)
    have m: "(R + L) mod N = R + L - N" using False b(2,3) by (cases "L = N") (auto simp: wrap_mod)
    have "\<not> int L < int (N - R)" using False by simp
    then show ?thesis
      using b False part_of_Some [of R "N - R" "buffer_ptr rb"] part_of_Some [of 0 "R + L - N" "buffer_ptr rb"]
      unfolding g N_def [symmetric] R_def [symmetric] L_def [symmetric] c m e by simp
  qed
qed

lemma get_spec:
  assumes "rb_ok rb"
  obtains rb' where "rt_ringbuffer_get n rb = Some (of_nat (min (unat n) (rb_len rb)), take (unat n) (rb_contents rb), rb')" "rb_ok rb'"
    "rb_contents rb' = drop (unat n) (rb_contents rb)" "buffer_size rb' = buffer_size rb"
proof (cases "rb_len rb = 0")
  case True
  then have "rt_ringbuffer_data_len rb = 0" "rb_contents rb = []" using data_len_nat [OF assms] by (simp_all add: unat_eq_zero rb_contents_def)
  then show ?thesis using that [of rb] assms True by (simp add: rt_ringbuffer_get_def)
next
  case False
  note d = rb_okD [OF assms] and s = data_len_nat [OF assms]
  define k where "k = (if rt_ringbuffer_data_len rb < ucast n then ucast (rt_ringbuffer_data_len rb) else n)"
  have nz: "rt_ringbuffer_data_len rb \<noteq> 0" using s False by auto
  have k: "unat k = min (unat n) (rb_len rb)"
    using s d(2,6) by (auto simp: k_def word_less_nat_alt unsigned_ucast_eq take_bit_nat_eq_self)
  define rb' where "rb' = rb\<lparr>read_mirror := (if rb_n rb \<le> rb_r rb + unat k then \<not> read_mirror rb else read_mirror rb), read_index := of_nat ((rb_r rb + unat k) mod rb_n rb)\<rparr>"
  have le: "unat k \<le> rb_len rb" by (simp add: k)
  have g: "rt_ringbuffer_get n rb = Some (ucast k, take (unat k) (rb_contents rb), rb')"
    unfolding rb'_def by (rule get_reads [OF assms nz le k_def])
  have "(rb_r rb + unat k) mod rb_n rb < 2 ^ 15" using d(1,2) by (meson less_trans mod_less_divisor)
  then have r: "rb_r rb' = (rb_r rb + unat k) mod rb_n rb" using index_of_nat by (simp add: rb'_def)
  have m: "(rb_r rb + unat k) mod rb_n rb = (if rb_n rb \<le> rb_r rb + unat k then rb_r rb + unat k - rb_n rb else rb_r rb + unat k)"
    using d(4,6) le by (auto simp: le_mod_geq)
  have same: "rb_n rb' = rb_n rb" "rb_w rb' = rb_w rb" "buffer_ptr rb' = buffer_ptr rb" "write_mirror rb' = write_mirror rb" "buffer_size rb' = buffer_size rb"
    "read_mirror rb' = (if rb_n rb \<le> rb_r rb + unat k then \<not> read_mirror rb else read_mirror rb)" by (simp_all add: rb'_def)
  have ok: "rb_ok rb'" using assms le d(1-5) unfolding rb_ok_def same r m by (auto simp: rb_len_def split: if_splits)
  have l: "rb_len rb' = rb_len rb - unat k"
    using assms le d(4,5) unfolding rb_len_def same r m by (auto simp: rb_ok_def rb_len_def split: if_splits)
  have "rb_contents rb' = drop (unat k) (rb_contents rb)" unfolding rb_contents_def ring_drop by (simp add: same l r)
  moreover have "drop (unat k) (rb_contents rb) = drop (unat n) (rb_contents rb)" "take (unat k) (rb_contents rb) = take (unat n) (rb_contents rb)"
    by (simp_all add: k min_def)
  moreover have "ucast k = (of_nat (min (unat n) (rb_len rb)) :: u32)" unfolding k [symmetric] by (simp add: unsigned_word_eqI)
  ultimately show ?thesis using that [of rb'] g ok same(5) by simp
qed

section \<open>One byte at a time\<close>

text \<open>The operations on one byte do what the block operations do with a length of 1.\<close>

lemma memcpy_one: "i < length dst \<Longrightarrow> memcpy_at (int i) [ch] 0 1 dst = Some (dst[i := ch])"
  by (simp add: memcpy_at_def part_of_def upd_conv_take_nth_drop)

lemma memcpy_none: "memcpy_at 0 src 1 0 dst = (if src = [] then None else Some dst)"
  by (simp add: memcpy_at_def part_of_def) (cases src; simp)

lemma copy_in_one:
  assumes "rb_ok rb"
  shows "copy_in [ch] 1 rb = map_option (\<lambda>rb. (at_end (write_index rb) rb,
      if at_end (write_index rb) rb then rb\<lparr>write_mirror := \<not> write_mirror rb, write_index := 0\<rparr> else rb\<lparr>write_index := write_index rb + 1\<rparr>)) (store_char ch rb)"
proof -
  note d = rb_okD [OF assms]
  define N W where "N = rb_n rb" and "W = rb_w rb"
  have w: "W < length (buffer_ptr rb)" "W < N" using d(3,5) by (simp_all add: N_def W_def)
  have s: "store_char ch rb = Some (rb\<lparr>buffer_ptr := (buffer_ptr rb)[W := ch]\<rparr>)" using w(1) by (simp add: store_char_def W_def)
  have u: "uint (write_index rb) = int W" "sint (buffer_size rb) = int N" using d(8) by (simp_all add: N_def W_def)
  have e: "at_end (write_index rb) (rb\<lparr>buffer_ptr := b\<rparr>) = (int W = int N - 1)" for b by (simp add: at_end_def u)
  have one: "word_of_int (int W + 1) = write_index rb + 1" by (simp add: u(1) [symmetric])
  show ?thesis
  proof (cases "int W = int N - 1")
    case True
    then show ?thesis using memcpy_one [OF w(1), of ch] memcpy_none [of "[ch]"] by (simp add: copy_in_def Let_def s u e)
  next
    case False
    then have "int N - int W > 1" using w(2) by linarith
    then show ?thesis using memcpy_one [OF w(1), of ch] one False by (simp add: copy_in_def Let_def s u e)
  qed
qed

lemma putchar_put:
  assumes "rb_ok rb"
  shows "rt_ringbuffer_putchar ch rb = rt_ringbuffer_put [ch] 1 rb"
proof -
  have "rt_ringbuffer_space_len rb = 0 \<longleftrightarrow> (ucast (rt_ringbuffer_space_len rb) :: u16) = 0"
    using space_len_nat [OF assms] by (simp add: unat_eq_zero [symmetric])
  then show ?thesis
    by (auto simp: rt_ringbuffer_putchar_def rt_ringbuffer_put_def copy_in_one [OF assms] Let_def word_less_1 store_char_def at_end_def)
qed

lemma putchar_force_put_force:
  assumes "rb_ok rb"
  shows "rt_ringbuffer_putchar_force ch rb = rt_ringbuffer_put_force [ch] 1 rb"
proof -
  note d = rb_okD [OF assms]
  have "(ucast (rt_ringbuffer_space_len rb) :: u16) < 1 \<longleftrightarrow> rt_ringbuffer_status rb = RT_RINGBUFFER_FULL"
  proof -
    have "(ucast (rt_ringbuffer_space_len rb) :: u16) < 1 \<longleftrightarrow> rb_len rb = rb_n rb"
      using space_len_nat(2) [OF assms] d(6) by (auto simp: word_less_nat_alt)
    also have "\<dots> \<longleftrightarrow> rb_r rb = rb_w rb \<and> read_mirror rb \<noteq> write_mirror rb"
      using assms d(4,5) by (auto simp: rb_len_def rb_ok_def split: if_splits)
    also have "\<dots> \<longleftrightarrow> rt_ringbuffer_status rb = RT_RINGBUFFER_FULL" by (simp add: rt_ringbuffer_status_def word_unat_eq_iff)
    finally show ?thesis .
  qed
  moreover have "\<not> sint (buffer_size rb) < 1" using d(1) by simp
  ultimately show ?thesis
    by (simp add: rt_ringbuffer_putchar_force_def rt_ringbuffer_put_force_def copy_in_one [OF assms] Let_def store_char_def at_end_def)
qed

lemma getchar_get:
  assumes "rb_ok rb"
  shows "rt_ringbuffer_getchar rb = map_option (\<lambda>(n, xs, rb). (n, if xs = [] then None else Some (hd xs), rb)) (rt_ringbuffer_get 1 rb)"
proof (cases "rt_ringbuffer_data_len rb = 0")
  case True
  then show ?thesis by (simp add: rt_ringbuffer_getchar_def rt_ringbuffer_get_def)
next
  case False
  note d = rb_okD [OF assms]
  have nlt: "\<not> rt_ringbuffer_data_len rb < 1" using False by (simp add: word_less_1)
  have pos: "1 \<le> rb_len rb" using False data_len_nat [OF assms] by (simp add: unat_eq_zero [symmetric])
  have g: "rt_ringbuffer_get 1 rb = Some (1, take 1 (rb_contents rb),
      rb\<lparr>read_mirror := (if rb_n rb \<le> rb_r rb + 1 then \<not> read_mirror rb else read_mirror rb), read_index := of_nat ((rb_r rb + 1) mod rb_n rb)\<rparr>)"
    using get_reads [OF assms False, of 1 1] pos nlt by simp
  have "rb_contents rb \<noteq> []" "hd (take 1 (rb_contents rb)) = buffer_ptr rb ! rb_r rb"
    using pos d(4) by (auto simp: rb_contents_def hd_map upt_conv_Cons)
  moreover have "at_end (read_index rb) rb \<longleftrightarrow> rb_n rb \<le> rb_r rb + 1"
  proof -
    define N R where "N = rb_n rb" and "R = rb_r rb"
    have "uint (read_index rb) = int R" "sint (buffer_size rb) = int N" "R < N" using d(4,8) by (simp_all add: N_def R_def)
    then have "at_end (read_index rb) rb \<longleftrightarrow> N \<le> R + 1" unfolding at_end_def by linarith
    then show ?thesis by (simp add: N_def R_def)
  qed
  moreover have "(rb_r rb + 1) mod rb_n rb = (if rb_n rb \<le> rb_r rb + 1 then 0 else rb_r rb + 1)" using d(4) by (auto simp: le_Suc_eq)
  ultimately show ?thesis using False d(3,4) by (simp add: rt_ringbuffer_getchar_def g)
qed

section \<open>Writing over old data\<close>

text \<open>In different mirrors, moving the read index to the write index keeps the newest bytes; in the same mirror it empties the buffer.\<close>

lemma copy_in_overwrites:
  assumes "rb_ok rb" "unat n \<le> rb_n rb" "rb_n rb < rb_len rb + unat n" "unat n \<le> length ptr" "copy_in ptr n rb = Some (f, rb1)"
    and "rb' = (if f then rb1\<lparr>read_mirror := \<not> read_mirror rb1, read_index := write_index rb1\<rparr> else rb1\<lparr>read_index := write_index rb1\<rparr>)"
  shows "rb_ok rb'" "buffer_size rb' = buffer_size rb"
    "read_mirror rb \<noteq> write_mirror rb \<Longrightarrow> rb_contents rb' = drop (rb_len rb + unat n - rb_n rb) (rb_contents rb @ take (unat n) ptr)"
    "read_mirror rb = write_mirror rb \<Longrightarrow> rb_contents rb' = []"
proof -
  note d = rb_okD [OF assms(1)]
  obtain buf where b: "copy_in ptr n rb = Some (rb_n rb \<le> rb_w rb + unat n, rb\<lparr>buffer_ptr := buf,
      write_mirror := (if rb_n rb \<le> rb_w rb + unat n then \<not> write_mirror rb else write_mirror rb),
      write_index := of_nat ((rb_w rb + unat n) mod rb_n rb)\<rparr>)"
    "ring_written (rb_n rb) (rb_w rb) (take (unat n) ptr) (buffer_ptr rb) buf"
    by (rule copy_in_ok [OF assms(1,2,4)])
  define W where "W = (rb_w rb + unat n) mod rb_n rb"
  have f: "f = (rb_n rb \<le> rb_w rb + unat n)" using assms(5) b(1) by simp
  have "W < rb_n rb" using d(1) by (simp add: W_def)
  moreover from this have "unat (of_nat W :: 15 word) = W" using d(2) by (intro index_of_nat) simp
  moreover have len: "length buf = length (buffer_ptr rb)" "length (take (unat n) ptr) = unat n" using b(2) assms(4) by (simp_all add: ring_written_def)
  ultimately have s: "rb_n rb' = rb_n rb" "rb_r rb' = W" "rb_w rb' = W" "buffer_ptr rb' = buf" "W < rb_n rb" "buffer_size rb' = buffer_size rb"
    "read_mirror rb' = (if f then \<not> read_mirror rb else read_mirror rb)" "write_mirror rb' = (if f then \<not> write_mirror rb else write_mirror rb)"
    using assms(5) b(1) f by (auto simp: assms(6) W_def)
  show "buffer_size rb' = buffer_size rb" by (rule s(6))
  show "rb_ok rb'" using assms(1) len(1) s by (simp add: rb_ok_def)
  show "rb_contents rb' = []" if "read_mirror rb = write_mirror rb" using that by (simp add: rb_contents_def rb_len_def s)
  show "rb_contents rb' = drop (rb_len rb + unat n - rb_n rb) (rb_contents rb @ take (unat n) ptr)" if "read_mirror rb \<noteq> write_mirror rb"
  proof (rule nth_equalityI)
    have l: "rb_len rb' = rb_n rb" using that by (simp add: rb_len_def s)
    show "length (rb_contents rb') = length (drop (rb_len rb + unat n - rb_n rb) (rb_contents rb @ take (unat n) ptr))" using l assms(3) len(2) by simp
    fix i assume "i < length (rb_contents rb')"
    then have i: "i < rb_n rb" using l by simp
    let ?q = "rb_len rb + unat n - rb_n rb + i"
    have "(W + i) mod rb_n rb = (rb_r rb + rb_len rb + unat n + i) mod rb_n rb" unfolding W_def d(7) by (simp add: mod_simps)
    also have "rb_r rb + rb_len rb + unat n + i = rb_r rb + ?q + rb_n rb" using assms(3) by simp
    finally have e: "(W + i) mod rb_n rb = (rb_r rb + ?q) mod rb_n rb" by simp
    have "rb_contents rb' ! i = buf ! ((rb_r rb + ?q) mod rb_n rb)" using i l s(2) by (simp add: rb_contents_def s e)
    also have "buf ! ((rb_r rb + ?q) mod rb_n rb) = (rb_contents rb @ take (unat n) ptr) ! ?q"
      using rb_contents_write [OF assms(1) b(2), of ?q] len(2) i assms(2,3) by simp
    finally have "rb_contents rb' ! i = (rb_contents rb @ take (unat n) ptr) ! ?q" .
    moreover have "rb_len rb + unat n - rb_n rb \<le> length (rb_contents rb @ take (unat n) ptr)" using len(2) by simp
    ultimately show "rb_contents rb' ! i = drop (rb_len rb + unat n - rb_n rb) (rb_contents rb @ take (unat n) ptr) ! i"
      by (simp only: nth_drop)
  qed
qed

lemma last_bytes:
  assumes "n \<le> length ptr" "k = min n m" "length xs = l" "l \<le> m"
  shows "drop (l + k - m) (xs @ take k (drop (n - m) ptr)) = drop (l + n - m) (xs @ take n ptr)"
  using assms by (cases "n \<le> m") (simp_all add: drop_take)

lemma unat_size: "rb_ok rb \<Longrightarrow> unat (buffer_size rb) = rb_n rb"
proof -
  assume ok: "rb_ok rb"
  note d = rb_okD [OF ok]
  have "uint (buffer_size rb) = sint (buffer_size rb) mod 2 ^ 16" by (simp add: uint_sint take_bit_eq_mod)
  then have "uint (buffer_size rb) = sint (buffer_size rb)" using d(1,2) by simp
  then show ?thesis by (simp add: unat_eq_nat_uint)
qed

lemma put_force_spec:
  assumes "rb_ok rb" "unat n \<le> length ptr"
  obtains rb' where "rt_ringbuffer_put_force ptr n rb = Some (of_nat (min (unat n) (rb_n rb)), rb')" "rb_ok rb'" "buffer_size rb' = buffer_size rb"
    "rb_contents rb' = (if read_mirror rb = write_mirror rb \<and> rb_n rb < rb_len rb + min (unat n) (rb_n rb) then []
       else drop (rb_len rb + unat n - rb_n rb) (rb_contents rb @ take (unat n) ptr))"
proof -
  note d = rb_okD [OF assms(1)]
  define k q where "k = (if uint n > sint (buffer_size rb) then buffer_size rb else n)" and "q = drop (unat n - rb_n rb) ptr"
  have lt: "uint n > sint (buffer_size rb) \<longleftrightarrow> rb_n rb < unat n" using d(8) by (metis of_nat_less_iff uint_nat)
  have k: "unat k = min (unat n) (rb_n rb)" using unat_size [OF assms(1)] by (simp add: k_def lt)
  have e: "(if uint n > sint (buffer_size rb) then (drop (nat (uint n - sint (buffer_size rb))) ptr, buffer_size rb) else (ptr, n)) = (q, k)"
  proof -
    have "uint n = int (unat n)" "sint (buffer_size rb) = int (rb_n rb)" using d(8) by simp_all
    then have "nat (uint n - sint (buffer_size rb)) = unat n - rb_n rb" by linarith
    then show ?thesis by (auto simp: k_def q_def lt)
  qed
  have kq: "unat k \<le> length q" "unat k \<le> rb_n rb" using k assms(2) by (simp_all add: q_def)
  have last: "drop (rb_len rb + unat k - rb_n rb) (rb_contents rb @ take (unat k) q) = drop (rb_len rb + unat n - rb_n rb) (rb_contents rb @ take (unat n) ptr)"
    unfolding q_def by (rule last_bytes [OF assms(2) k rb_length d(6)])
  have fits: "k > ucast (rt_ringbuffer_space_len rb) \<longleftrightarrow> rb_n rb < rb_len rb + unat k"
    using space_len_nat(2) [OF assms(1)] d(6) by (auto simp: word_less_nat_alt)
  have r: "(ucast k :: u32) = of_nat (min (unat n) (rb_n rb))" unfolding k [symmetric] by (simp add: unsigned_word_eqI)
  show ?thesis
  proof (cases "rb_n rb < rb_len rb + unat k")
    case False
    then have le: "rb_len rb + unat k \<le> rb_n rb" by simp
    obtain f rb' where w: "copy_in q k rb = Some (f, rb')" "rb_ok rb'" "rb_contents rb' = rb_contents rb @ take (unat k) q" "buffer_size rb' = buffer_size rb"
      by (rule copy_in_appends [OF assms(1) le kq(1)])
    moreover have "rt_ringbuffer_put_force ptr n rb = Some (ucast k, rb')"
      using w(1) False fits by (simp add: rt_ringbuffer_put_force_def e Let_def)
    moreover have "rb_contents rb' = drop (rb_len rb + unat n - rb_n rb) (rb_contents rb @ take (unat n) ptr)"
      unfolding last [symmetric] w(3) using False by simp
    ultimately show ?thesis using that [of rb'] False unfolding r k by simp
  next
    case True
    obtain f rb1 where w: "copy_in q k rb = Some (f, rb1)" by (rule copy_in_ok [OF assms(1) kq(2,1)]) blast
    define rb' where "rb' = (if f then rb1\<lparr>read_mirror := \<not> read_mirror rb1, read_index := write_index rb1\<rparr> else rb1\<lparr>read_index := write_index rb1\<rparr>)"
    note o = copy_in_overwrites [OF assms(1) kq(2) True kq(1) w rb'_def]
    have "rt_ringbuffer_put_force ptr n rb = Some (ucast k, rb')"
      using w True fits by (simp add: rt_ringbuffer_put_force_def e Let_def rb'_def)
    then show ?thesis using that [of rb'] o True unfolding r last unfolding k by (cases "read_mirror rb = write_mirror rb") simp_all
  qed
qed

end
