(* ===== verification/RingBufferProps.thy ===== *)
theory RingBufferProps
  imports RingBuffer MemServices
begin

text \<open>
  Properties of ring buffers: they are bounded queues of bytes, their block operations are exact, and creating one on the system heap
  and destroying it gives back the heap's regions.
\<close>

section \<open>Ring buffers are bounded queues\<close>

definition rb_full :: "rt_ringbuffer \<Rightarrow> bool" where
  "rb_full rb \<longleftrightarrow> rt_ringbuffer_space_len rb = 0"

definition rb_empty :: "rt_ringbuffer \<Rightarrow> bool" where
  "rb_empty rb \<longleftrightarrow> rt_ringbuffer_data_len rb = 0"

definition rb_put :: "u8 \<Rightarrow> rt_ringbuffer \<Rightarrow> rt_ringbuffer option" where
  "rb_put ch rb = map_option snd (rt_ringbuffer_putchar ch rb)"

definition rb_get :: "rt_ringbuffer \<Rightarrow> (u8 \<times> rt_ringbuffer) option" where
  "rb_get rb = (case rt_ringbuffer_getchar rb of Some (_, Some ch, rb') \<Rightarrow> Some (ch, rb') | _ \<Rightarrow> None)"

lemma putchar_spec:
  assumes "rb_ok rb" "rb_len rb < rb_n rb"
  obtains rb' where "rt_ringbuffer_putchar ch rb = Some (1, rb')" "rb_ok rb'" "rb_contents rb' = rb_contents rb @ [ch]" "buffer_size rb' = buffer_size rb"
proof -
  obtain rb' where "rt_ringbuffer_put [ch] 1 rb = Some (of_nat (min (unat (1 :: u16)) (rb_n rb - rb_len rb)), rb')" "rb_ok rb'"
    "rb_contents rb' = rb_contents rb @ take (min (unat (1 :: u16)) (rb_n rb - rb_len rb)) [ch]" "buffer_size rb' = buffer_size rb"
    by (rule put_spec [OF assms(1), of 1 "[ch]"]) simp
  moreover have "min (unat (1 :: u16)) (rb_n rb - rb_len rb) = 1" using assms(2) by simp
  ultimately show ?thesis using that [of rb'] putchar_put [OF assms(1)] by simp
qed

lemma getchar_spec:
  assumes "rb_ok rb" "rb_contents rb = ch # cs"
  obtains rb' where "rt_ringbuffer_getchar rb = Some (1, Some ch, rb')" "rb_ok rb'" "rb_contents rb' = cs" "buffer_size rb' = buffer_size rb"
proof -
  obtain rb' where r: "rt_ringbuffer_get 1 rb = Some (of_nat (min (unat (1 :: u16)) (rb_len rb)), take (unat (1 :: u16)) (rb_contents rb), rb')" "rb_ok rb'"
    "rb_contents rb' = drop (unat (1 :: u16)) (rb_contents rb)" "buffer_size rb' = buffer_size rb"
    by (rule get_spec [OF assms(1)])
  have "0 < rb_len rb" using rb_length [of rb] assms(2) by simp
  then have "min (unat (1 :: u16)) (rb_len rb) = 1" by simp
  with r that [of rb'] getchar_get [OF assms(1)] assms(2) show ?thesis by simp
qed

lemma rb_tests:
  assumes "rb_ok rb"
  shows "rb_full rb \<longleftrightarrow> rb_len rb = rb_n rb" "rb_empty rb \<longleftrightarrow> rb_contents rb = []"
proof -
  show "rb_full rb \<longleftrightarrow> rb_len rb = rb_n rb"
    using space_len_nat(1) [OF assms] rb_okD(6) [OF assms] by (auto simp: rb_full_def unat_eq_zero [symmetric])
  have "rb_empty rb \<longleftrightarrow> rb_len rb = 0" using data_len_nat [OF assms] by (simp add: rb_empty_def unat_eq_zero [symmetric])
  then show "rb_empty rb \<longleftrightarrow> rb_contents rb = []" by (metis rb_length length_0_conv)
qed

interpretation rb_ring: bounded_fifo rb_ok rb_contents "\<lambda>rb. rb_n rb" "\<lambda>_ _. True" "(=)" rb_full rb_empty rb_put rb_get
proof
  fix rb :: rt_ringbuffer and v w :: u8 and ws
  assume ok: "rb_ok rb"
  show "length (rb_contents rb) \<le> rb_n rb" using rb_okD(6) [OF ok] by simp
  show "rb_full rb \<longleftrightarrow> length (rb_contents rb) = rb_n rb" using rb_tests(1) [OF ok] by simp
  show "rb_empty rb \<longleftrightarrow> rb_contents rb = []" by (rule rb_tests(2) [OF ok])
  show "\<exists>rb' w. rb_put v rb = Some rb' \<and> rb_ok rb' \<and> rb_contents rb' = rb_contents rb @ [w] \<and> v = w \<and> rb_n rb' = rb_n rb \<and> (\<lambda>_. True) = (\<lambda>_. True)"
    if l: "length (rb_contents rb) < rb_n rb"
  proof -
    obtain rb' where "rt_ringbuffer_putchar v rb = Some (1, rb')" "rb_ok rb'" "rb_contents rb' = rb_contents rb @ [v]" "buffer_size rb' = buffer_size rb"
      by (rule putchar_spec [OF ok]) (use l in auto)
    then show ?thesis by (simp add: rb_put_def)
  qed
  show "\<exists>rb'. rb_get rb = Some (w, rb') \<and> rb_ok rb' \<and> rb_contents rb' = ws \<and> rb_n rb' = rb_n rb \<and> (\<lambda>_. True) = (\<lambda>_. True)" if c: "rb_contents rb = w # ws"
  proof -
    obtain rb' where "rt_ringbuffer_getchar rb = Some (1, Some w, rb')" "rb_ok rb'" "rb_contents rb' = ws" "buffer_size rb' = buffer_size rb"
      by (rule getchar_spec [OF ok c])
    then show ?thesis by (simp add: rb_get_def)
  qed
qed

section \<open>On the system heap\<close>

text \<open>The structure has 12 bytes. The result is the address of the structure, the address of its buffer, and the structure; the buffer starts
  with the bytes that are in memory.\<close>

definition rt_ringbuffer_create ::
    "bool \<Rightarrow> string option \<Rightarrow> u16 \<Rightarrow> sys_heap \<Rightarrow> ((u32 \<times> u32 \<times> rt_ringbuffer) option \<times> sys_heap) option" where
  "rt_ringbuffer_create irq name sz h = do {
     rt_assert (sz > 0);
     let sz = sz AND NOT 3;
     (r, h1) \<leftarrow> rt_malloc irq name 12 h;
     (case r of
        None \<Rightarrow> Some (None, h1)
      | Some rp \<Rightarrow> do {
          (p, h2) \<leftarrow> rt_malloc irq name (ucast sz) h1;
          (case p of
             None \<Rightarrow> do {
               h3 \<leftarrow> rt_free irq (Some rp) h2;
               Some (None, h3) }
           | Some pool \<Rightarrow> do {
               rb \<leftarrow> rt_ringbuffer_init (map (\<lambda>i. bytes h2 (pool + of_nat i)) [0..<unat sz]) sz;
               Some (Some (rp, pool, rb), h2) }) }) }"

definition rt_ringbuffer_destroy :: "bool \<Rightarrow> u32 \<Rightarrow> u32 \<Rightarrow> sys_heap \<Rightarrow> sys_heap option" where
  "rt_ringbuffer_destroy irq rp pool h = do {
     h1 \<leftarrow> rt_free irq (Some pool) h;
     rt_free irq (Some rp) h1 }"

lemma aligned_size:
  assumes "(sz :: u16) AND NOT 3 = z"
  shows "unat z mod 4 = 0" "unat z \<le> unat sz" "z AND NOT 3 = z"
proof -
  show "z AND NOT 3 = z" unfolding assms [symmetric] by (simp add: and.assoc)
  have "sz AND NOT (mask k) = push_bit k (drop_bit k sz)" for k by (rule bit_word_eqI) (auto simp: bit_simps)
  from this [of 2] have "z = push_bit 2 (drop_bit 2 sz)" using assms by (simp add: mask_eq_exp_minus_1)
  then have "z + take_bit 2 sz = sz" by (simp add: bits_ident)
  then have e: "z = sz - take_bit 2 sz" by (metis add_diff_cancel_right')
  have t: "unat (take_bit 2 sz) = unat sz mod 4" by (subst unsigned_take_bit_eq) (simp add: take_bit_eq_mod)
  have "unat z = unat sz - unat sz mod 4" unfolding e using t by (simp add: unat_sub_if')
  then show "unat z mod 4 = 0" "unat z \<le> unat sz" by (simp_all add: minus_mod_eq_div_mult)
qed

lemma init_ok:
  assumes "rt_ringbuffer_init pool z = Some rb" "z AND NOT 3 = z" "unat z \<le> length pool"
  shows "rb_ok rb" "rb_contents rb = []" "rb_n rb = unat z" "0 < sint z"
proof -
  show p: "0 < sint z" using assms(1) by (simp add: rt_ringbuffer_init_def split: if_splits)
  have rb: "rb = \<lparr>buffer_ptr = pool, read_mirror = False, read_index = 0, write_mirror = False, write_index = 0, buffer_size = z\<rparr>"
    using assms(1) p unfolding rt_ringbuffer_init_def assms(2) by simp
  have "uint z = sint z mod 2 ^ 16" by (simp add: uint_sint take_bit_eq_mod)
  then have "uint z = sint z" using p size_bound [of z] by simp
  then show n: "rb_n rb = unat z" by (simp add: rb unat_eq_nat_uint)
  then show "rb_ok rb" using p assms(3) by (simp add: rb_ok_def) (simp add: rb)
  show "rb_contents rb = []" by (simp add: rb_contents_def rb_len_def rb)
qed

lemma create_steps:
  assumes "rt_ringbuffer_create irq name sz h = Some (Some (rp, pool, rb), h2)"
  obtains h1 where "rt_malloc irq name 12 h = Some (Some rp, h1)" "rt_malloc irq name (ucast (sz AND NOT 3)) h1 = Some (Some pool, h2)"
    "rt_ringbuffer_init (map (\<lambda>i. bytes h2 (pool + of_nat i)) [0..<unat (sz AND NOT 3)]) (sz AND NOT 3) = Some rb"
  using assms by (auto simp: rt_ringbuffer_create_def Let_def elim!: bind_eq_SomeE split: if_splits option.splits)

section \<open>Properties\<close>

text \<open>Any sequence of single-byte writes and reads on a ring buffer, each tried only when the buffer is not full or not empty, is a run of a bounded queue:
  it returns, the bytes read are those of the queue, and so is what remains.\<close>

theorem ringbuffer_is_queue:
  assumes "rb_ok rb"
  shows "\<exists>ws rb'. fifo_run rb_full rb_empty rb_put rb_get ops rb = Some (ws, rb') \<and> rb_ok rb' \<and> rb_n rb' = rb_n rb \<and>
    (ws, rb_contents rb') = queue_run (rb_n rb) ops (rb_contents rb)"
proof -
  obtain ws rb' where r: "fifo_run rb_full rb_empty rb_put rb_get ops rb = Some (ws, rb')" "rb_ok rb'" "rb_n rb' = rb_n rb"
    "fst (queue_run (rb_n rb) ops (rb_contents rb)) = ws" "snd (queue_run (rb_n rb) ops (rb_contents rb)) = rb_contents rb'"
    using rb_ring.run_refines [OF assms, of "rb_contents rb" ops] by (auto simp: list.rel_eq)
  then show ?thesis by (auto simp: prod_eq_iff)
qed

definition demo_rb :: rt_ringbuffer where
  "demo_rb = \<lparr>buffer_ptr = [10, 11, 12, 13, 14, 15, 16, 17], read_mirror = False, read_index = 2, write_mirror = False, write_index = 6, buffer_size = 8\<rparr>"

lemma demo_rb_ok: "rb_ok demo_rb" "rb_contents demo_rb = [12, 13, 14, 15]" "rb_n demo_rb = 8" "rb_len demo_rb = 4" "read_mirror demo_rb = write_mirror demo_rb"
  by (simp_all add: rb_ok_def rb_contents_def rb_len_def demo_rb_def upt_rec)

theorem ringbuffer_is_queue_witness:
  "\<exists>rb'. fifo_run rb_full rb_empty rb_put rb_get [Put 1, Get, Get] demo_rb = Some ([12, 13], rb') \<and> rb_contents rb' = [14, 15, 1]"
  using ringbuffer_is_queue [OF demo_rb_ok(1), of "[Put 1, Get, Get]"] by (auto simp: demo_rb_ok simp del: fifo_run.simps)

text \<open>C29. The block operations are exact. \<^verbatim>\<open>rt_ringbuffer_put\<close> appends as much as fits and returns how much that was; \<^verbatim>\<open>rt_ringbuffer_get\<close> takes that many
  bytes off the front, or all there are. What was put is what is got, across the end of the buffer.\<close>

theorem ringbuffer_put_get_exact:
  assumes "rb_ok rb" "unat n \<le> length ptr"
  shows "\<exists>rb1 rb2. rt_ringbuffer_put ptr n rb = Some (of_nat (min (unat n) (rb_n rb - rb_len rb)), rb1) \<and> rb_ok rb1 \<and>
    rb_contents rb1 = rb_contents rb @ take (min (unat n) (rb_n rb - rb_len rb)) ptr \<and>
    rt_ringbuffer_get k rb1 = Some (of_nat (min (unat k) (rb_len rb1)), take (unat k) (rb_contents rb1), rb2) \<and> rb_ok rb2 \<and>
    rb_contents rb2 = drop (unat k) (rb_contents rb1)"
proof -
  obtain rb1 where r1: "rt_ringbuffer_put ptr n rb = Some (of_nat (min (unat n) (rb_n rb - rb_len rb)), rb1)" "rb_ok rb1"
    "rb_contents rb1 = rb_contents rb @ take (min (unat n) (rb_n rb - rb_len rb)) ptr"
    by (rule put_spec [OF assms])
  obtain rb2 where "rt_ringbuffer_get k rb1 = Some (of_nat (min (unat k) (rb_len rb1)), take (unat k) (rb_contents rb1), rb2)" "rb_ok rb2"
    "rb_contents rb2 = drop (unat k) (rb_contents rb1)"
    by (rule get_spec [OF r1(2)])
  with r1 show ?thesis by blast
qed

theorem ringbuffer_put_get_exact_witness:
  "\<exists>rb1 rb2. rt_ringbuffer_put [1, 2, 3, 4, 5, 6] 6 demo_rb = Some (4, rb1) \<and> rt_ringbuffer_get 6 rb1 = Some (6, [12, 13, 14, 15, 1, 2], rb2) \<and> rb_contents rb2 = [3, 4]"
proof -
  obtain rb1 rb2 where r: "rt_ringbuffer_put [1, 2, 3, 4, 5, 6] 6 demo_rb = Some (4, rb1)" "rb_contents rb1 = [12, 13, 14, 15, 1, 2, 3, 4]"
    "rt_ringbuffer_get 6 rb1 = Some (of_nat (min (unat (6 :: u16)) (rb_len rb1)), take (unat (6 :: u16)) (rb_contents rb1), rb2)"
    "rb_contents rb2 = drop (unat (6 :: u16)) (rb_contents rb1)"
    using ringbuffer_put_get_exact [OF demo_rb_ok(1), of 6 "[1, 2, 3, 4, 5, 6]" 6] by (auto simp: demo_rb_ok)
  have "rb_len rb1 = 8" using rb_length [of rb1] by (simp add: r(2))
  then show ?thesis using r by simp
qed

text \<open>Forced writes. \<^verbatim>\<open>rt_ringbuffer_put_force\<close> keeps the newest bytes of the old contents and the new ones, as many as the buffer holds, when they fit or the
  write index has wrapped; but when it overwrites old data with both indices in the same mirror it flips the mirror of the read index as well, and
  the buffer is empty afterwards: the old and the new data are lost.\<close>

theorem ringbuffer_put_force_exact:
  assumes "rb_ok rb" "unat n \<le> length ptr"
  shows "\<exists>rb'. rt_ringbuffer_put_force ptr n rb = Some (of_nat (min (unat n) (rb_n rb)), rb') \<and> rb_ok rb' \<and>
    rb_contents rb' = (if read_mirror rb = write_mirror rb \<and> rb_n rb < rb_len rb + min (unat n) (rb_n rb) then []
       else drop (rb_len rb + unat n - rb_n rb) (rb_contents rb @ take (unat n) ptr))"
proof -
  obtain rb' where "rt_ringbuffer_put_force ptr n rb = Some (of_nat (min (unat n) (rb_n rb)), rb')" "rb_ok rb'"
    "rb_contents rb' = (if read_mirror rb = write_mirror rb \<and> rb_n rb < rb_len rb + min (unat n) (rb_n rb) then []
       else drop (rb_len rb + unat n - rb_n rb) (rb_contents rb @ take (unat n) ptr))"
    by (rule put_force_spec [OF assms])
  then show ?thesis by blast
qed

theorem ringbuffer_put_force_exact_witness:
  "\<exists>rb'. rt_ringbuffer_put_force [1, 2, 3, 4, 5, 6] 6 demo_rb = Some (6, rb') \<and> rb_contents rb' = []"
  using ringbuffer_put_force_exact [OF demo_rb_ok(1), of 6 "[1, 2, 3, 4, 5, 6]"] by (auto simp: demo_rb_ok(3-5))

text \<open>A ring buffer created on the heap is empty and has the size asked for, rounded down to words; its structure and its buffer are two new regions. Destroying it gives back
  the regions of before.\<close>

theorem ringbuffer_create_destroy:
  assumes "heap_ok h" "rt_ringbuffer_create False name sz h = Some (Some (rp, pool, rb), h2)"
  shows "rb_ok rb \<and> rb_contents rb = [] \<and> rb_n rb = unat (sz AND NOT 3) \<and> heap_ok h2 \<and>
    (\<exists>l m. 12 \<le> unat l \<and> rb_n rb \<le> unat m \<and> set (regions h2) = insert (pool, m) (insert (rp, l) (set (regions h))) \<and>
      (rp, l) \<notin> set (regions h) \<and> (pool, m) \<notin> insert (rp, l) (set (regions h))) \<and>
    (\<exists>h3. rt_ringbuffer_destroy False rp pool h2 = Some h3 \<and> heap_ok h3 \<and> set (regions h3) = set (regions h))"
proof -
  define z where "z = sz AND NOT 3"
  note a = aligned_size [OF z_def [symmetric]]
  obtain h1 where s: "rt_malloc False name 12 h = Some (Some rp, h1)" "rt_malloc False name (ucast z) h1 = Some (Some pool, h2)"
    "rt_ringbuffer_init (map (\<lambda>i. bytes h2 (pool + of_nat i)) [0..<unat z]) z = Some rb"
    unfolding z_def by (rule create_steps [OF assms(2)])
  note i = init_ok [OF s(3) a(3)]
  note r1 = malloc_on_regions [OF assms(1) s(1)]
  note r2 = malloc_on_regions [OF r1(1) s(2)]
  obtain us l vs where u: "regions h = us @ vs" "regions h1 = us @ (rp, l) # vs" "unat (need 12) \<le> unat l" using r1(4) by blast
  obtain us' m vs' where v: "regions h1 = us' @ vs'" "regions h2 = us' @ (pool, m) # vs'" "unat (need (ucast z)) \<le> unat m" using r2(4) by blast
  have z: "unat (ucast z :: u32) = unat z" "unat z < 2 ^ 16" using unsigned_less [of z, where 'a = nat] by simp_all
  have sizes: "12 \<le> unat l" "unat z \<le> unat m" using need_props(4) [of 12] need_props(4) [of "ucast z"] u(3) v(3) z by simp_all
  have sets: "set (regions h1) = insert (rp, l) (set (regions h))" "(rp, l) \<notin> set (regions h)"
    using regions_distinct [OF r1(1)] unfolding u by auto
  have sets2: "set (regions h2) = insert (pool, m) (set (regions h1))" "(pool, m) \<notin> set (regions h1)"
    using regions_distinct [OF r2(1)] unfolding v by auto
  obtain h3 where h3: "rt_free False (Some pool) h2 = Some h3" "heap_ok h3" "regions h3 = remove1 (pool, m) (regions h2)"
    by (rule free_on_regions [OF r2(1), of pool m]) (auto simp: v(2))
  have d3: "set (regions h3) = set (regions h1)" using h3(3) sets2 regions_distinct [OF r2(1)] by auto
  obtain h4 where h4: "rt_free False (Some rp) h3 = Some h4" "heap_ok h4" "regions h4 = remove1 (rp, l) (regions h3)"
    by (rule free_on_regions [OF h3(2), of rp l]) (use d3 sets(1) in auto)
  have "set (regions h4) = set (regions h)" using h4(3) d3 sets regions_distinct [OF h3(2)] by auto
  then have "\<exists>h3. rt_ringbuffer_destroy False rp pool h2 = Some h3 \<and> heap_ok h3 \<and> set (regions h3) = set (regions h)"
    using h3(1) h4(1,2) by (simp add: rt_ringbuffer_destroy_def)
  moreover have "rb_ok rb" "rb_contents rb = []" "rb_n rb = unat z" using i by simp_all
  moreover have "\<exists>l m. 12 \<le> unat l \<and> rb_n rb \<le> unat m \<and> set (regions h2) = insert (pool, m) (insert (rp, l) (set (regions h))) \<and>
      (rp, l) \<notin> set (regions h) \<and> (pool, m) \<notin> insert (rp, l) (set (regions h))"
    using sizes sets sets2 calculation(4) by (intro exI [of _ l] exI [of _ m]) simp
  ultimately show ?thesis using r2(1) by (simp add: z_def)
qed

lemma demo_rb_blocks:
  obtains h1 h2 where "rt_malloc False None 12 demo_heap = Some (Some 4112, h1)" "rt_malloc False None 16 h1 = Some (Some 4140, h2)"
  unfolding demo_heap_eq zero_heap_def by (simp add: heap_run)

theorem ringbuffer_create_destroy_witness:
  "\<exists>rb h2 h3. rt_ringbuffer_create False None 18 demo_heap = Some (Some (4112, 4140, rb), h2) \<and> rb_contents rb = [] \<and> rb_n rb = 16 \<and>
     rt_ringbuffer_destroy False 4112 4140 h2 = Some h3 \<and> regions h3 = []"
proof -
  obtain h1 h2 where h: "rt_malloc False None 12 demo_heap = Some (Some 4112, h1)" "rt_malloc False None 16 h1 = Some (Some 4140, h2)"
    by (rule demo_rb_blocks)
  obtain rb where "rt_ringbuffer_create False None 18 demo_heap = Some (Some (4112, 4140, rb), h2)"
    using h by (simp add: rt_ringbuffer_create_def rt_ringbuffer_init_def)
  from this ringbuffer_create_destroy [OF demo_heap_ok(1) this] show ?thesis by (auto simp: demo_heap_ok(3))
qed

end
