(* ===== verification/DeviceIpc.thy ===== *)
theory DeviceIpc
  imports Mailbox
begin

text \<open>
  Completions and data queues (\<^verbatim>\<open>components/drivers/src/completion.c\<close> and \<^verbatim>\<open>dataqueue.c\<close>), which device drivers use to wait for an event and to
  pass data. They are no kernel objects: the one at address \<open>a\<close> has the wait queue \<open>Suspend a\<close>, and a data queue has \<open>SuspendSender a\<close> for the threads that push.
  Suspending a thread and putting it at the end of a list is \<^verbatim>\<open>rt_ipc_list_suspend\<close> in order of arrival. A call that waits is split where its
  thread stops. A data queue calls \<^verbatim>\<open>evt_notify\<close> with an event: \<open>user\<close> is what the callback of a number does.
  While its 16-bit indices have not gone round, a data queue implements a bounded queue; after that it no longer sees that it is full.
\<close>

section \<open>Completions\<close>

abbreviation (input) RT_COMPLETED :: u32 where "RT_COMPLETED \<equiv> 1"
abbreviation (input) RT_UNCOMPLETED :: u32 where "RT_UNCOMPLETED \<equiv> 0"

text \<open>The flag of the completion and the kernel.\<close>

type_synonym comp_state = "u32 \<times> kernel"

definition rt_completion_init :: "nat \<Rightarrow> kernel \<Rightarrow> comp_state" where
  "rt_completion_init a k = (RT_UNCOMPLETED, rt_ipc_object_init a k)"

definition rt_completion_wait :: "nat \<Rightarrow> nat \<Rightarrow> u32 \<Rightarrow> comp_state \<Rightarrow> (nat outcome \<times> comp_state) option" where
  "rt_completion_wait c a timeout s = (case s of (flag, k) \<Rightarrow>
     if flag \<noteq> RT_COMPLETED then do {
       rt_assert (tlist_isempty (Suspend a) k);
       if timeout = 0 then Some (Ret (- RT_ETIMEOUT), flag, k)
       else do {
         t \<leftarrow> rt_thread_self c k;
         rt_assert (not_in_interrupt c k);
         k1 \<leftarrow> wait_on c (Suspend a) t RT_IPC_FLAG_FIFO timeout (set_error t RT_EOK k);
         Some (Wait t, flag, k1) } }
     else Some (Ret RT_EOK, RT_UNCOMPLETED, k))"

definition rt_completion_wait_resume :: "nat \<Rightarrow> comp_state \<Rightarrow> rt_err_t \<times> comp_state" where
  "rt_completion_wait_resume t s = (error (thr (snd s) t), RT_UNCOMPLETED, snd s)"

definition rt_completion_done :: "nat \<Rightarrow> nat \<Rightarrow> comp_state \<Rightarrow> comp_state option" where
  "rt_completion_done c a s = (case s of (flag, k) \<Rightarrow>
     if flag = RT_COMPLETED then Some (flag, k)
     else map_option (\<lambda>k'. (RT_COMPLETED, k')) (wake_first c (Suspend a) k))"

section \<open>Data queues\<close>

abbreviation (input) RT_DATAQUEUE_EVENT_POP :: u32 where "RT_DATAQUEUE_EVENT_POP \<equiv> 1"
abbreviation (input) RT_DATAQUEUE_EVENT_PUSH :: u32 where "RT_DATAQUEUE_EVENT_PUSH \<equiv> 2"
abbreviation (input) RT_DATAQUEUE_EVENT_LWM :: u32 where "RT_DATAQUEUE_EVENT_LWM \<equiv> 3"

record rt_data_item =
  data_ptr :: u32
  data_size :: u32

text \<open>The member \<^verbatim>\<open>waiting_lwm\<close> is used nowhere and left out.\<close>

record rt_data_queue =
  dq_size :: u16
  lwm :: u16
  get_index :: u16
  put_index :: u16
  queue :: "rt_data_item list"
  evt_notify :: "nat option"

record dq_state =
  dq_kern :: kernel
  dqs :: "nat \<Rightarrow> rt_data_queue"

definition upd_dq :: "nat \<Rightarrow> rt_data_queue \<Rightarrow> dq_state \<Rightarrow> dq_state" where
  "upd_dq a q s = s\<lparr>dqs := (dqs s)(a := q)\<rparr>"

type_synonym notify_fn = "nat \<Rightarrow> nat \<Rightarrow> u32 \<Rightarrow> dq_state \<Rightarrow> dq_state option"

definition notify :: "notify_fn \<Rightarrow> nat \<Rightarrow> u32 \<Rightarrow> dq_state \<Rightarrow> dq_state option" where
  "notify user a event s = (case evt_notify (dqs s a) of None \<Rightarrow> Some s | Some f \<Rightarrow> user f a event s)"

text \<open>\<open>items\<close> is the memory that \<^verbatim>\<open>rt_malloc\<close> returned.\<close>

definition rt_data_queue_init ::
    "nat \<Rightarrow> u16 \<Rightarrow> u16 \<Rightarrow> nat option \<Rightarrow> rt_data_item list option \<Rightarrow> dq_state \<Rightarrow> rt_err_t \<times> dq_state" where
  "rt_data_queue_init a sz low f items s =
     (let q = \<lparr>dq_size = sz, lwm = low, get_index = 0, put_index = 0, queue = [], evt_notify = f\<rparr>;
          s1 = s\<lparr>dq_kern := rt_ipc_object_init a (sender_list_init a (dq_kern s))\<rparr>
      in case items of None \<Rightarrow> (- RT_ENOMEM, upd_dq a q s1) | Some xs \<Rightarrow> (RT_EOK, upd_dq a (q\<lparr>queue := xs\<rparr>) s1))"

text \<open>\<^verbatim>\<open>put_index - get_index\<close> is computed with \<^verbatim>\<open>int\<close>.\<close>

definition dq_used :: "rt_data_queue \<Rightarrow> int" where
  "dq_used q = uint (put_index q) - uint (get_index q)"

definition dq_full :: "rt_data_queue \<Rightarrow> bool" where
  "dq_full q \<longleftrightarrow> dq_used q = uint (dq_size q)"

definition dq_empty :: "rt_data_queue \<Rightarrow> bool" where
  "dq_empty q \<longleftrightarrow> get_index q = put_index q"

text \<open>Storing and fetching an item; a size of 0 makes the remainder undefined.\<close>

definition dq_store :: "rt_data_item \<Rightarrow> rt_data_queue \<Rightarrow> rt_data_queue option" where
  "dq_store x q =
     (if dq_size q \<noteq> 0 \<and> unat (put_index q) mod unat (dq_size q) < length (queue q)
      then Some (q\<lparr>queue := (queue q)[unat (put_index q) mod unat (dq_size q) := x], put_index := put_index q + 1\<rparr>) else None)"

definition dq_peek :: "rt_data_queue \<Rightarrow> rt_data_item option" where
  "dq_peek q =
     (if dq_size q \<noteq> 0 \<and> unat (get_index q) mod unat (dq_size q) < length (queue q)
      then Some (queue q ! (unat (get_index q) mod unat (dq_size q))) else None)"

definition dq_fetch :: "rt_data_queue \<Rightarrow> (rt_data_item \<times> rt_data_queue) option" where
  "dq_fetch q = map_option (\<lambda>x. (x, q\<lparr>get_index := get_index q + 1\<rparr>)) (dq_peek q)"

text \<open>What a blocked call keeps: its thread and the time, which starts anew with every wait.\<close>

type_synonym dq_waiting = "nat \<times> u32"

definition dq_push_loop ::
    "notify_fn \<Rightarrow> nat \<Rightarrow> nat \<Rightarrow> nat option \<Rightarrow> rt_data_item \<Rightarrow> u32 \<Rightarrow> dq_state \<Rightarrow> (dq_waiting outcome \<times> dq_state) option" where
  "dq_push_loop user c a th x timeout s =
     (if dq_full (dqs s a) then
        if timeout = 0 then Some (Ret (- RT_ETIMEOUT), s)
        else do {
          rt_assert (not_in_interrupt c (dq_kern s));
          t \<leftarrow> th;
          k \<leftarrow> wait_on c (SuspendSender a) t RT_IPC_FLAG_FIFO timeout (set_error t RT_EOK (dq_kern s));
          Some (Wait (t, timeout), s\<lparr>dq_kern := k\<rparr>) }
      else do {
        q \<leftarrow> dq_store x (dqs s a);
        let s1 = upd_dq a q s;
        if \<not> tlist_isempty (Suspend a) (dq_kern s1) then do {
          k \<leftarrow> wake_first c (Suspend a) (dq_kern s1);
          Some (Ret RT_EOK, s1\<lparr>dq_kern := k\<rparr>) }
        else do {
          s2 \<leftarrow> notify user a RT_DATAQUEUE_EVENT_PUSH s1;
          Some (Ret RT_EOK, s2) } })"

definition rt_data_queue_push ::
    "notify_fn \<Rightarrow> nat \<Rightarrow> nat \<Rightarrow> rt_data_item \<Rightarrow> u32 \<Rightarrow> dq_state \<Rightarrow> (dq_waiting outcome \<times> dq_state) option" where
  "rt_data_queue_push user c a x timeout s = dq_push_loop user c a (rt_thread_self c (dq_kern s)) x timeout s"

definition rt_data_queue_push_resume ::
    "notify_fn \<Rightarrow> nat \<Rightarrow> nat \<Rightarrow> rt_data_item \<Rightarrow> dq_waiting \<Rightarrow> dq_state \<Rightarrow> (dq_waiting outcome \<times> dq_state) option" where
  "rt_data_queue_push_resume user c a x w s = (case w of (t, timeout) \<Rightarrow>
     if error (thr (dq_kern s) t) \<noteq> RT_EOK then Some (Ret (error (thr (dq_kern s) t)), s)
     else dq_push_loop user c a (Some t) x timeout s)"

text \<open>The second component of the result is what is written through \<^verbatim>\<open>data_ptr\<close> and \<^verbatim>\<open>size\<close>.\<close>

definition dq_pop_loop ::
    "notify_fn \<Rightarrow> nat \<Rightarrow> nat \<Rightarrow> nat option \<Rightarrow> u32 \<Rightarrow> dq_state \<Rightarrow> (dq_waiting outcome \<times> rt_data_item option \<times> dq_state) option" where
  "dq_pop_loop user c a th timeout s =
     (if dq_empty (dqs s a) then
        if timeout = 0 then Some (Ret (- RT_ETIMEOUT), None, s)
        else do {
          rt_assert (not_in_interrupt c (dq_kern s));
          t \<leftarrow> th;
          k \<leftarrow> wait_on c (Suspend a) t RT_IPC_FLAG_FIFO timeout (set_error t RT_EOK (dq_kern s));
          Some (Wait (t, timeout), None, s\<lparr>dq_kern := k\<rparr>) }
      else do {
        (x, q) \<leftarrow> dq_fetch (dqs s a);
        let s1 = upd_dq a q s;
        if dq_used q \<le> uint (lwm q) then do {
          k \<leftarrow> wake_first c (SuspendSender a) (dq_kern s1);
          s2 \<leftarrow> notify user a RT_DATAQUEUE_EVENT_LWM (s1\<lparr>dq_kern := k\<rparr>);
          Some (Ret RT_EOK, Some x, s2) }
        else do {
          s2 \<leftarrow> notify user a RT_DATAQUEUE_EVENT_POP s1;
          Some (Ret RT_EOK, Some x, s2) } })"

definition rt_data_queue_pop ::
    "notify_fn \<Rightarrow> nat \<Rightarrow> nat \<Rightarrow> u32 \<Rightarrow> dq_state \<Rightarrow> (dq_waiting outcome \<times> rt_data_item option \<times> dq_state) option" where
  "rt_data_queue_pop user c a timeout s = dq_pop_loop user c a (rt_thread_self c (dq_kern s)) timeout s"

definition rt_data_queue_pop_resume ::
    "notify_fn \<Rightarrow> nat \<Rightarrow> nat \<Rightarrow> dq_waiting \<Rightarrow> dq_state \<Rightarrow> (dq_waiting outcome \<times> rt_data_item option \<times> dq_state) option" where
  "rt_data_queue_pop_resume user c a w s = (case w of (t, timeout) \<Rightarrow>
     if error (thr (dq_kern s) t) \<noteq> RT_EOK then Some (Ret (error (thr (dq_kern s) t)), None, s)
     else dq_pop_loop user c a (Some t) timeout s)"

definition rt_data_queue_peak :: "nat \<Rightarrow> dq_state \<Rightarrow> (rt_err_t \<times> rt_data_item option) option" where
  "rt_data_queue_peak a s =
     (if dq_empty (dqs s a) then Some (- RT_EEMPTY, None)
      else map_option (\<lambda>x. (RT_EOK, Some x)) (dq_peek (dqs s a)))"

text \<open>The reset wakes both wait queues; the items stay.\<close>

definition rt_data_queue_reset :: "nat \<Rightarrow> nat \<Rightarrow> dq_state \<Rightarrow> dq_state option" where
  "rt_data_queue_reset c a s = do {
     let k0 = rt_enter_critical c (dq_kern s);
     k1 \<leftarrow> rt_ipc_list_resume_all c (Suspend a) k0;
     k2 \<leftarrow> rt_ipc_list_resume_all c (SuspendSender a) k1;
     k3 \<leftarrow> rt_exit_critical c k2;
     k4 \<leftarrow> rt_schedule c k3;
     Some (s\<lparr>dq_kern := k4\<rparr>) }"

section \<open>The indices and the items\<close>

definition dq_contents :: "rt_data_queue \<Rightarrow> rt_data_item list" where
  "dq_contents q = map (\<lambda>i. queue q ! ((unat (get_index q) + i) mod unat (dq_size q))) [0..<unat (put_index q) - unat (get_index q)]"

definition dq_ok :: "rt_data_queue \<Rightarrow> bool" where
  "dq_ok q \<longleftrightarrow> dq_size q \<noteq> 0 \<and> unat (dq_size q) \<le> length (queue q) \<and> unat (get_index q) \<le> unat (put_index q) \<and>
     unat (put_index q) \<le> unat (get_index q) + unat (dq_size q)"

lemma dq_okD:
  assumes "dq_ok q"
  shows "0 < unat (dq_size q)" "i mod unat (dq_size q) < length (queue q)"
    "dq_used q = int (length (dq_contents q))" "length (dq_contents q) \<le> unat (dq_size q)"
proof -
  show z: "0 < unat (dq_size q)" using assms by (simp add: dq_ok_def unat_gt_0)
  show "i mod unat (dq_size q) < length (queue q)"
    using assms mod_less_divisor [OF z, of i] by (simp add: dq_ok_def)
  show "dq_used q = int (length (dq_contents q))"
    using assms by (simp add: dq_ok_def dq_contents_def dq_used_def of_nat_diff)
  show "length (dq_contents q) \<le> unat (dq_size q)" using assms by (auto simp: dq_ok_def dq_contents_def)
qed

lemma dq_tests:
  assumes "dq_ok q"
  shows "dq_full q \<longleftrightarrow> length (dq_contents q) = unat (dq_size q)" "dq_empty q \<longleftrightarrow> dq_contents q = []"
proof -
  have "uint (dq_size q) = int (unat (dq_size q))" by simp
  then show "dq_full q \<longleftrightarrow> length (dq_contents q) = unat (dq_size q)"
    using dq_okD(3) [OF assms] unfolding dq_full_def by (metis of_nat_eq_iff)
  show "dq_empty q \<longleftrightarrow> dq_contents q = []"
    using assms by (auto simp: dq_empty_def dq_contents_def dq_ok_def word_unat_eq_iff)
qed

lemma dq_store_ok:
  assumes "dq_ok q" "\<not> dq_full q" "unat (put_index q) < 65535"
  obtains q' where "dq_store x q = Some q'" "dq_ok q'" "dq_contents q' = dq_contents q @ [x]"
    "dq_size q' = dq_size q" "lwm q' = lwm q" "evt_notify q' = evt_notify q" "put_index q' = put_index q + 1"
proof -
  let ?n = "unat (dq_size q)" let ?g = "unat (get_index q)" let ?p = "unat (put_index q)"
  let ?q = "q\<lparr>queue := (queue q)[?p mod ?n := x], put_index := put_index q + 1\<rparr>"
  have suc: "unat (put_index q + 1) = ?p + 1" using assms(3) by (simp add: unat_word_ariths)
  have le: "?g \<le> ?p" "?p - ?g < ?n"
    using assms(1) dq_tests(1) [OF assms(1)] assms(2) by (auto simp: dq_ok_def dq_contents_def)
  have keep: "(queue q)[?p mod ?n := x] ! ((?g + j) mod ?n) = queue q ! ((?g + j) mod ?n)" if "j < ?p - ?g" for j
    using ring_distinct [OF that le(2), of ?g] le(1) by (intro nth_list_update_neq) simp
  have "dq_contents ?q = dq_contents q @ [x]"
    using le(1) dq_okD(2) [OF assms(1)] by (simp add: dq_contents_def suc Suc_diff_le keep)
  moreover have "dq_ok ?q" using assms(1) le by (simp add: dq_ok_def suc)
  ultimately show ?thesis
    using that [of ?q] dq_okD(2) [OF assms(1)] assms(1) by (simp add: dq_store_def dq_ok_def)
qed

lemma dq_peek_ok: "dq_ok q \<Longrightarrow> dq_contents q = x # xs \<Longrightarrow> dq_peek q = Some x"
proof -
  assume a: "dq_ok q" "dq_contents q = x # xs"
  then have "0 < unat (put_index q) - unat (get_index q)" by (metis dq_contents_def length_Cons length_map length_upt minus_nat.diff_0 zero_less_Suc)
  then have "dq_contents q ! 0 = queue q ! (unat (get_index q) mod unat (dq_size q))" by (simp add: dq_contents_def)
  with a dq_okD(2) [OF a(1)] show ?thesis by (simp add: dq_peek_def dq_ok_def)
qed

lemma dq_fetch_ok:
  assumes "dq_ok q" "dq_contents q = x # xs"
  obtains q' where "dq_fetch q = Some (x, q')" "dq_ok q'" "dq_contents q' = xs" "dq_size q' = dq_size q"
    "lwm q' = lwm q" "evt_notify q' = evt_notify q" "put_index q' = put_index q"
proof -
  let ?n = "unat (dq_size q)" let ?g = "unat (get_index q)" let ?p = "unat (put_index q)"
  let ?q = "q\<lparr>get_index := get_index q + 1\<rparr>"
  obtain e where e: "?p - ?g = Suc e"
    using assms(2) by (cases "?p - ?g") (simp_all add: dq_contents_def)
  have "?p < 65536" using unsigned_less [of "put_index q", where 'a = nat] by simp
  with e have suc: "unat (get_index q + 1) = ?g + 1" by (simp add: unat_word_ariths)
  have "?p - (?g + 1) = e" using e by simp
  then have "dq_contents ?q = map (\<lambda>i. queue q ! ((?g + Suc i) mod ?n)) [0..<e]" by (simp add: dq_contents_def suc)
  moreover have "dq_contents q = queue q ! (?g mod ?n) # map (\<lambda>i. queue q ! ((?g + Suc i) mod ?n)) [0..<e]"
    by (simp add: dq_contents_def e upt_rec [of 0] map_Suc_upt [symmetric] del: upt_Suc)
  moreover have "dq_ok ?q" using assms(1) e by (simp add: dq_ok_def suc)
  ultimately show ?thesis using that [of ?q] assms dq_peek_ok [OF assms] by (simp add: dq_fetch_def)
qed

section \<open>Items and waiting threads\<close>

text \<open>The items, the threads that wait to pop and those that wait to push.\<close>

definition dq_abs :: "nat \<Rightarrow> dq_state \<Rightarrow> rt_data_item list \<times> nat list \<times> nat list" where
  "dq_abs a s = (dq_contents (dqs s a), tlists (dq_kern s) (Suspend a), tlists (dq_kern s) (SuspendSender a))"

lemma upd_dq_simps [simp]:
  "dq_kern (upd_dq a q s) = dq_kern s" "dqs (upd_dq a q s) a = q" "(upd_dq a q s)\<lparr>dq_kern := k\<rparr> = upd_dq a q (s\<lparr>dq_kern := k\<rparr>)"
  by (simp_all add: upd_dq_def)

lemma enqueue_fifo [simp]: "enqueue 0 p t ts = ts @ [t]"
  by (simp add: enqueue_def)

lemma may_block_irq: "may_block c t k \<Longrightarrow> not_in_interrupt c k"
  by (simp add: may_block_def not_in_interrupt_def)

lemma fifo_block:
  assumes "sched_inv k" "may_block c t k" "timeout \<noteq> 0x7fffffff" "is_wq l"
  obtains k' where "wait_on c l t RT_IPC_FLAG_FIFO timeout (set_error t RT_EOK k) = Some k'" "sched_inv k'"
    "tlists k' l = tlists k l @ [t]" "\<And>m. is_wq m \<Longrightarrow> m \<noteq> l \<Longrightarrow> tlists k' m = tlists k m"
  using block_spec [OF assms, of RT_IPC_FLAG_FIFO] by simp metis

lemma dq_push_room:
  assumes "sched_inv (dq_kern s)" "cpu_live c (dq_kern s)" "dq_ok (dqs s a)" "waiters_live (Suspend a) (dq_kern s)"
    and "\<not> dq_full (dqs s a)" "unat (put_index (dqs s a)) < 65535"
  obtains s' where
    "dq_push_loop user c a th x timeout s =
       map_option (Pair (Ret RT_EOK)) (if tlists (dq_kern s) (Suspend a) = [] then notify user a RT_DATAQUEUE_EVENT_PUSH s' else Some s')"
    "sched_inv (dq_kern s')" "dq_ok (dqs s' a)"
    "dq_abs a s' = (dq_contents (dqs s a) @ [x], tl (tlists (dq_kern s) (Suspend a)), tlists (dq_kern s) (SuspendSender a))"
proof -
  obtain q where q: "dq_store x (dqs s a) = Some q" "dq_ok q" "dq_contents q = dq_contents (dqs s a) @ [x]"
    by (rule dq_store_ok [OF assms(3,5,6)])
  obtain k where k: "wake_first c (Suspend a) (dq_kern s) = Some k" "sched_inv k"
    "tlists k (Suspend a) = tl (tlists (dq_kern s) (Suspend a))"
    "\<And>l. is_wq l \<Longrightarrow> l \<noteq> Suspend a \<Longrightarrow> tlists k l = tlists (dq_kern s) l"
    by (rule wake_first_spec [OF assms(1,2) wq_lists(1) assms(4)]) blast
  let ?s = "upd_dq a q (s\<lparr>dq_kern := k\<rparr>)"
  have none: "tlists (dq_kern s) (Suspend a) = [] \<Longrightarrow> s\<lparr>dq_kern := k\<rparr> = s" using k(1) by (simp add: wake_first_def tlist_isempty_def)
  have "dq_push_loop user c a th x timeout s = map_option (Pair (Ret RT_EOK))
      (if tlists (dq_kern s) (Suspend a) = [] then notify user a RT_DATAQUEUE_EVENT_PUSH ?s else Some ?s)"
    using assms(5) q(1) k(1) none by (simp add: dq_push_loop_def tlist_isempty_def Let_def map_conv_bind_option comp_def)
  then show ?thesis using that [of ?s] k(2,3) k(4) [OF wq_lists(2)] q by (simp add: dq_abs_def)
qed

lemma dq_push_full:
  assumes "sched_inv (dq_kern s)" "may_block c t (dq_kern s)" "timeout \<noteq> 0x7fffffff" "timeout \<noteq> 0" "dq_full (dqs s a)"
  obtains s' where "dq_push_loop user c a (Some t) x timeout s = Some (Wait (t, timeout), s')" "sched_inv (dq_kern s')"
    "dqs s' = dqs s" "dq_abs a s' = (dq_contents (dqs s a), tlists (dq_kern s) (Suspend a), tlists (dq_kern s) (SuspendSender a) @ [t])"
proof -
  obtain k where k: "wait_on c (SuspendSender a) t RT_IPC_FLAG_FIFO timeout (set_error t RT_EOK (dq_kern s)) = Some k" "sched_inv k"
    "tlists k (SuspendSender a) = tlists (dq_kern s) (SuspendSender a) @ [t]"
    "\<And>m. is_wq m \<Longrightarrow> m \<noteq> SuspendSender a \<Longrightarrow> tlists k m = tlists (dq_kern s) m"
    by (rule fifo_block [OF assms(1-3) wq_lists(2)]) blast
  show ?thesis
    using that [of "s\<lparr>dq_kern := k\<rparr>"] k(1-3) k(4) [OF wq_lists(1)] may_block_irq [OF assms(2)] assms(4,5)
    by (simp add: dq_push_loop_def dq_abs_def)
qed

lemma dq_pop_item:
  assumes "sched_inv (dq_kern s)" "cpu_live c (dq_kern s)" "dq_ok (dqs s a)" "waiters_live (SuspendSender a) (dq_kern s)"
    and "dq_contents (dqs s a) = x # xs"
  obtains s' where
    "dq_pop_loop user c a th timeout s = map_option (\<lambda>s''. (Ret RT_EOK, Some x, s''))
       (notify user a (if length xs \<le> unat (lwm (dqs s a)) then RT_DATAQUEUE_EVENT_LWM else RT_DATAQUEUE_EVENT_POP) s')"
    "sched_inv (dq_kern s')" "dq_ok (dqs s' a)"
    "dq_abs a s' = (xs, tlists (dq_kern s) (Suspend a),
       if length xs \<le> unat (lwm (dqs s a)) then tl (tlists (dq_kern s) (SuspendSender a)) else tlists (dq_kern s) (SuspendSender a))"
proof -
  obtain q where q: "dq_fetch (dqs s a) = Some (x, q)" "dq_ok q" "dq_contents q = xs" "lwm q = lwm (dqs s a)"
    by (rule dq_fetch_ok [OF assms(3,5)])
  obtain k where k: "wake_first c (SuspendSender a) (dq_kern s) = Some k" "sched_inv k"
    "tlists k (SuspendSender a) = tl (tlists (dq_kern s) (SuspendSender a))"
    "\<And>l. is_wq l \<Longrightarrow> l \<noteq> SuspendSender a \<Longrightarrow> tlists k l = tlists (dq_kern s) l"
    by (rule wake_first_spec [OF assms(1,2) wq_lists(2) assms(4)]) blast
  have ne: "\<not> dq_empty (dqs s a)" using dq_tests(2) [OF assms(3)] assms(5) by simp
  have "uint (lwm q) = int (unat (lwm q))" by simp
  then have low: "dq_used q \<le> uint (lwm q) \<longleftrightarrow> length xs \<le> unat (lwm (dqs s a))"
    using dq_okD(3) [OF q(2)] q(3,4) by (metis of_nat_le_iff)
  let ?s = "if length xs \<le> unat (lwm (dqs s a)) then upd_dq a q (s\<lparr>dq_kern := k\<rparr>) else upd_dq a q s"
  show ?thesis
  proof (rule that [of ?s])
    show "dq_pop_loop user c a th timeout s = map_option (\<lambda>s''. (Ret RT_EOK, Some x, s''))
       (notify user a (if length xs \<le> unat (lwm (dqs s a)) then RT_DATAQUEUE_EVENT_LWM else RT_DATAQUEUE_EVENT_POP) ?s)"
      using ne q(1) k(1) by (simp add: dq_pop_loop_def low Let_def map_conv_bind_option comp_def)
  qed (use k(2,3) k(4) [OF wq_lists(1)] q assms(1) in \<open>simp_all add: dq_abs_def\<close>)
qed

lemma dq_pop_empty:
  assumes "sched_inv (dq_kern s)" "may_block c t (dq_kern s)" "timeout \<noteq> 0x7fffffff" "timeout \<noteq> 0" "dq_empty (dqs s a)"
  obtains s' where "dq_pop_loop user c a (Some t) timeout s = Some (Wait (t, timeout), None, s')" "sched_inv (dq_kern s')"
    "dqs s' = dqs s" "dq_abs a s' = (dq_contents (dqs s a), tlists (dq_kern s) (Suspend a) @ [t], tlists (dq_kern s) (SuspendSender a))"
proof -
  obtain k where k: "wait_on c (Suspend a) t RT_IPC_FLAG_FIFO timeout (set_error t RT_EOK (dq_kern s)) = Some k" "sched_inv k"
    "tlists k (Suspend a) = tlists (dq_kern s) (Suspend a) @ [t]"
    "\<And>m. is_wq m \<Longrightarrow> m \<noteq> Suspend a \<Longrightarrow> tlists k m = tlists (dq_kern s) m"
    by (rule fifo_block [OF assms(1-3) wq_lists(1)]) blast
  show ?thesis
    using that [of "s\<lparr>dq_kern := k\<rparr>"] k(1-3) k(4) [OF wq_lists(2)] may_block_irq [OF assms(2)] assms(4,5)
    by (simp add: dq_pop_loop_def dq_abs_def)
qed

section \<open>States for the examples\<close>

lemma demo_queues: "tlists (demo_object cl) (Suspend a) = []" "tlists (demo_wait cl l) = (\<lambda>_. [])(l := [2])"
  by (simp_all add: demo_wait_def demo_object_def demo_defs)

text \<open>A data queue of two places at address 7 that calls nobody and holds \<open>xs\<close>; \<open>n\<close> is the value of its index for fetching.\<close>

definition demo_items :: "u16 \<Rightarrow> rt_data_item list \<Rightarrow> rt_data_queue" where
  "demo_items n xs = \<lparr>dq_size = 2, lwm = 1, get_index = n, put_index = n + of_nat (length xs),
     queue = xs @ replicate (2 - length xs) \<lparr>data_ptr = 0, data_size = 0\<rparr>, evt_notify = None\<rparr>"

definition demo_dq :: "kernel \<Rightarrow> rt_data_queue \<Rightarrow> dq_state" where
  "demo_dq k q = \<lparr>dq_kern = k, dqs = \<lambda>_. q\<rparr>"

lemma demo_dq_simps [simp]: "dq_kern (demo_dq k q) = k" "dqs (demo_dq k q) a = q"
  by (simp_all add: demo_dq_def)

lemma demo_items_ok:
  "dq_ok (demo_items 0 [])" "dq_ok (demo_items 0 [x])" "dq_ok (demo_items 0 [x, y])"
  "dq_contents (demo_items 0 []) = []" "dq_contents (demo_items 0 [x]) = [x]" "dq_contents (demo_items 0 [x, y]) = [x, y]"
  by (simp_all add: demo_items_def dq_ok_def dq_contents_def upt_rec [of _ 2] upt_rec [of 0 1])

lemma demo_items_simps [simp]:
  "dq_size (demo_items n xs) = 2" "lwm (demo_items n xs) = 1" "evt_notify (demo_items n xs) = None" "get_index (demo_items n xs) = n"
  "put_index (demo_items n xs) = n + of_nat (length xs)"
  by (simp_all add: demo_items_def)

section \<open>Properties\<close>

text \<open>A new queue is empty and correct when its memory was allocated; looking at the oldest item changes nothing.\<close>

lemma dq_init_empty:
  assumes "sz \<noteq> 0" "unat sz \<le> length xs"
  shows "\<exists>s'. rt_data_queue_init a sz low f (Some xs) s = (RT_EOK, s') \<and> dq_ok (dqs s' a) \<and> dq_contents (dqs s' a) = []"
  using assms by (simp add: rt_data_queue_init_def dq_ok_def dq_contents_def upd_dq_def Let_def)

lemma dq_peak_exact:
  assumes "dq_ok (dqs s a)"
  shows "rt_data_queue_peak a s = Some (case dq_contents (dqs s a) of [] \<Rightarrow> (- RT_EEMPTY, None) | x # _ \<Rightarrow> (RT_EOK, Some x))"
  using dq_tests(2) [OF assms] dq_peek_ok [OF assms] by (simp add: rt_data_queue_peak_def split: list.split)

text \<open>Pushing implements the bounded queue as long as the index for storing has not reached 65535: with room, the item is stored last, the longest
  waiting reader is woken, and when there is none the owner is told of the push; with a full queue it returns \<^verbatim>\<open>-RT_ETIMEOUT\<close> at once when it may not wait, and otherwise
  the thread waits behind the other writers. The invariants of queue and scheduler are kept, and only the owner's callback can fail.\<close>

theorem dq_push_refines:
  assumes "sched_inv (dq_kern s)" "cpu_live c (dq_kern s)" "dq_ok (dqs s a)" "waiters_live (Suspend a) (dq_kern s)"
    and "unat (put_index (dqs s a)) < 65535" "timeout = 0 \<or> may_block c t (dq_kern s) \<and> timeout \<noteq> 0x7fffffff"
  shows "\<exists>s'. sched_inv (dq_kern s') \<and> dq_ok (dqs s' a) \<and>
    (if length (dq_contents (dqs s a)) < unat (dq_size (dqs s a)) then
       rt_data_queue_push user c a x timeout s = map_option (Pair (Ret RT_EOK))
         (if tlists (dq_kern s) (Suspend a) = [] then notify user a RT_DATAQUEUE_EVENT_PUSH s' else Some s') \<and>
       dq_abs a s' = (dq_contents (dqs s a) @ [x], tl (tlists (dq_kern s) (Suspend a)), tlists (dq_kern s) (SuspendSender a))
     else if timeout = 0 then rt_data_queue_push user c a x timeout s = Some (Ret (- RT_ETIMEOUT), s') \<and> s' = s
     else rt_data_queue_push user c a x timeout s = Some (Wait (t, timeout), s') \<and>
       dq_abs a s' = (dq_contents (dqs s a), tlists (dq_kern s) (Suspend a), tlists (dq_kern s) (SuspendSender a) @ [t]))"
proof (cases "dq_full (dqs s a)")
  case False
  then have "length (dq_contents (dqs s a)) < unat (dq_size (dqs s a))"
    using dq_tests(1) [OF assms(3)] dq_okD(4) [OF assms(3)] by simp
  then show ?thesis
    using dq_push_room [OF assms(1-4) False assms(5), of user "rt_thread_self c (dq_kern s)" x timeout]
    unfolding rt_data_queue_push_def by (metis (no_types, lifting))
next
  case True
  then have l: "length (dq_contents (dqs s a)) = unat (dq_size (dqs s a))" using dq_tests(1) [OF assms(3)] by simp
  show ?thesis
  proof (cases "timeout = 0")
    case True
    with l \<open>dq_full (dqs s a)\<close> assms(1,3) show ?thesis by (simp add: rt_data_queue_push_def dq_push_loop_def)
  next
    case False
    then have b: "may_block c t (dq_kern s)" "timeout \<noteq> 0x7fffffff" using assms(6) by simp_all
    obtain s' where "dq_push_loop user c a (Some t) x timeout s = Some (Wait (t, timeout), s')" "sched_inv (dq_kern s')" "dqs s' = dqs s"
      "dq_abs a s' = (dq_contents (dqs s a), tlists (dq_kern s) (Suspend a), tlists (dq_kern s) (SuspendSender a) @ [t])"
      by (rule dq_push_full [OF assms(1) b False True])
    with False l assms(3) may_blockD(7) [OF b(1)] show ?thesis
      by (intro exI [of _ s']) (simp add: rt_data_queue_push_def)
  qed
qed

theorem dq_push_refines_witness:
  "\<exists>s'. rt_data_queue_push (\<lambda>_ _ _. Some) 0 7 \<lparr>data_ptr = 9, data_size = 4\<rparr> 0
       (demo_dq (demo_wait RT_Object_Class_MailBox (Suspend 7)) (demo_items 0 [\<lparr>data_ptr = 5, data_size = 1\<rparr>])) = Some (Ret RT_EOK, s') \<and>
     dq_abs 7 s' = ([\<lparr>data_ptr = 5, data_size = 1\<rparr>, \<lparr>data_ptr = 9, data_size = 4\<rparr>], [], [])"
  using dq_push_refines [of "demo_dq (demo_wait RT_Object_Class_MailBox (Suspend 7)) (demo_items 0 [\<lparr>data_ptr = 5, data_size = 1\<rparr>])"
      0 7 0 1 "\<lambda>_ _ _. Some" "\<lparr>data_ptr = 9, data_size = 4\<rparr>"]
  by (auto simp: demo_wait_inv demo_wait_live demo_items_ok demo_queues)

text \<open>Popping implements the bounded queue: with an item in the queue, the oldest one is delivered; when no more items than the low-water mark are left, the first waiting
  writer is woken and the owner is told so, and otherwise it is told of the pop; with an empty queue the call returns \<^verbatim>\<open>-RT_ETIMEOUT\<close> at once when it may not wait, and
  otherwise the thread waits behind the other readers. The invariants are kept.\<close>

theorem dq_pop_refines:
  assumes "sched_inv (dq_kern s)" "cpu_live c (dq_kern s)" "dq_ok (dqs s a)" "waiters_live (SuspendSender a) (dq_kern s)"
    and "timeout = 0 \<or> may_block c t (dq_kern s) \<and> timeout \<noteq> 0x7fffffff"
  shows "\<exists>s'. sched_inv (dq_kern s') \<and> dq_ok (dqs s' a) \<and>
    (case dq_contents (dqs s a) of
       x # xs \<Rightarrow> (let low = length xs \<le> unat (lwm (dqs s a)) in
         rt_data_queue_pop user c a timeout s = map_option (\<lambda>s''. (Ret RT_EOK, Some x, s''))
           (notify user a (if low then RT_DATAQUEUE_EVENT_LWM else RT_DATAQUEUE_EVENT_POP) s') \<and>
         dq_abs a s' = (xs, tlists (dq_kern s) (Suspend a),
           if low then tl (tlists (dq_kern s) (SuspendSender a)) else tlists (dq_kern s) (SuspendSender a)))
     | [] \<Rightarrow>
         if timeout = 0 then rt_data_queue_pop user c a timeout s = Some (Ret (- RT_ETIMEOUT), None, s') \<and> s' = s
         else rt_data_queue_pop user c a timeout s = Some (Wait (t, timeout), None, s') \<and>
           dq_abs a s' = ([], tlists (dq_kern s) (Suspend a) @ [t], tlists (dq_kern s) (SuspendSender a)))"
proof (cases "dq_contents (dqs s a)")
  case (Cons x xs)
  then show ?thesis
    using dq_pop_item [OF assms(1-4) Cons, of user "rt_thread_self c (dq_kern s)" timeout]
    unfolding rt_data_queue_pop_def Let_def Cons list.case by (metis (no_types, lifting))
next
  case Nil
  then have e: "dq_empty (dqs s a)" using dq_tests(2) [OF assms(3)] by simp
  show ?thesis
  proof (cases "timeout = 0")
    case True
    with e Nil assms(1,3) show ?thesis by (simp add: rt_data_queue_pop_def dq_pop_loop_def)
  next
    case False
    then have b: "may_block c t (dq_kern s)" "timeout \<noteq> 0x7fffffff" using assms(5) by simp_all
    obtain s' where "dq_pop_loop user c a (Some t) timeout s = Some (Wait (t, timeout), None, s')" "sched_inv (dq_kern s')" "dqs s' = dqs s"
      "dq_abs a s' = (dq_contents (dqs s a), tlists (dq_kern s) (Suspend a) @ [t], tlists (dq_kern s) (SuspendSender a))"
      by (rule dq_pop_empty [OF assms(1) b False e])
    with False Nil assms(3) may_blockD(7) [OF b(1)] show ?thesis
      by (intro exI [of _ s']) (simp add: rt_data_queue_pop_def)
  qed
qed

theorem dq_pop_refines_witness:
  "\<exists>s'. rt_data_queue_pop (\<lambda>_ _ _. Some) 0 7 0
       (demo_dq (demo_wait RT_Object_Class_MailBox (SuspendSender 7)) (demo_items 0 [\<lparr>data_ptr = 5, data_size = 1\<rparr>, \<lparr>data_ptr = 9, data_size = 4\<rparr>])) =
         Some (Ret RT_EOK, Some \<lparr>data_ptr = 5, data_size = 1\<rparr>, s') \<and>
     dq_abs 7 s' = ([\<lparr>data_ptr = 9, data_size = 4\<rparr>], [], [])"
proof -
  let ?s = "demo_dq (demo_wait RT_Object_Class_MailBox (SuspendSender 7)) (demo_items 0 [\<lparr>data_ptr = 5, data_size = 1\<rparr>, \<lparr>data_ptr = 9, data_size = 4\<rparr>])"
  have "notify (\<lambda>_ _ _. Some) 7 e s = Some s" for e s by (simp add: notify_def split: option.split)
  then show ?thesis
    using dq_pop_refines [of ?s 0 7 0 1 "\<lambda>_ _ _. Some"]
    by (auto simp: demo_wait_inv demo_wait_live demo_items_ok demo_queues Let_def)
qed

text \<open>C37. Once the index for storing has gone round and the one for fetching has not, no push finds the queue full, however many items nobody has read: it never waits, returns success
  and overwrites the place of its index.\<close>

theorem dq_push_after_wrap:
  assumes "put_index (dqs s a) < get_index (dqs s a)" "dq_size (dqs s a) \<noteq> 0" "unat (dq_size (dqs s a)) \<le> length (queue (dqs s a))"
    and "tlists (dq_kern s) (Suspend a) = []" "evt_notify (dqs s a) = None"
  shows "rt_data_queue_push user c a x timeout s = Some (Ret RT_EOK, upd_dq a ((dqs s a)\<lparr>
    queue := (queue (dqs s a))[unat (put_index (dqs s a)) mod unat (dq_size (dqs s a)) := x], put_index := put_index (dqs s a) + 1\<rparr>) s)"
proof -
  have "uint (put_index (dqs s a)) < uint (get_index (dqs s a))" using assms(1) by (simp add: word_less_def)
  then have "dq_used (dqs s a) < 0" by (simp add: dq_used_def)
  then have "\<not> dq_full (dqs s a)" using uint_ge_0 [of "dq_size (dqs s a)"] unfolding dq_full_def by linarith
  moreover have "0 < unat (dq_size (dqs s a))" using assms(2) by (simp add: unat_gt_0)
  then have "i mod unat (dq_size (dqs s a)) < length (queue (dqs s a))" for i using assms(3) mod_less_divisor less_le_trans by blast
  ultimately show ?thesis
    using assms(2,4,5) by (simp add: rt_data_queue_push_def dq_push_loop_def dq_store_def tlist_isempty_def notify_def Let_def)
qed

text \<open>A queue of two places holds two items, and a third is stored over the first.\<close>

theorem dq_push_after_wrap_witness:
  "\<exists>s'. rt_data_queue_push (\<lambda>_ _ _. Some) 0 7 \<lparr>data_ptr = 3, data_size = 1\<rparr> 0
      (demo_dq (demo_object RT_Object_Class_MailBox) (demo_items 65534 [\<lparr>data_ptr = 1, data_size = 1\<rparr>, \<lparr>data_ptr = 2, data_size = 1\<rparr>])) =
     Some (Ret RT_EOK, s') \<and> queue (dqs s' 7) = [\<lparr>data_ptr = 3, data_size = 1\<rparr>, \<lparr>data_ptr = 2, data_size = 1\<rparr>]"
  using dq_push_after_wrap [of "demo_dq (demo_object RT_Object_Class_MailBox)
      (demo_items 65534 [\<lparr>data_ptr = 1, data_size = 1\<rparr>, \<lparr>data_ptr = 2, data_size = 1\<rparr>])" 7 "\<lambda>_ _ _. Some" 0 "\<lparr>data_ptr = 3, data_size = 1\<rparr>" 0]
  by (simp add: demo_queues demo_items_def [of 65534])

text \<open>The signal and the thread that waits for it.\<close>

definition comp_abs :: "nat \<Rightarrow> comp_state \<Rightarrow> bool \<times> nat list" where
  "comp_abs a s = (fst s = RT_COMPLETED, tlists (snd s) (Suspend a))"

definition comp_ok :: "nat \<Rightarrow> comp_state \<Rightarrow> bool" where
  "comp_ok a s \<longleftrightarrow> sched_inv (snd s) \<and> (fst s = RT_UNCOMPLETED \<or> fst s = RT_COMPLETED) \<and>
     length (tlists (snd s) (Suspend a)) \<le> (if fst s = RT_COMPLETED then 0 else 1)"

text \<open>Completing is never lost: the thread that waits is woken and the signal is set, whether one waits or not; completing twice is completing once, and the next wait returns
  at once whatever its time, using the signal up.\<close>

theorem completion_done_signals:
  assumes "comp_ok a s" "cpu_live c (snd s)" "waiters_live (Suspend a) (snd s)"
  shows "\<exists>s'. rt_completion_done c a s = Some s' \<and> comp_ok a s' \<and> comp_abs a s' = (True, []) \<and>
    rt_completion_done c a s' = Some s' \<and>
    (\<forall>c' timeout. \<exists>s''. rt_completion_wait c' a timeout s' = Some (Ret RT_EOK, s'') \<and> comp_ok a s'' \<and> comp_abs a s'' = (False, []))"
proof (cases "fst s = RT_COMPLETED")
  case True
  with assms(1) show ?thesis
    by (cases s) (simp add: rt_completion_done_def rt_completion_wait_def comp_ok_def comp_abs_def)
next
  case False
  obtain k where k: "wake_first c (Suspend a) (snd s) = Some k" "sched_inv k" "tlists k (Suspend a) = tl (tlists (snd s) (Suspend a))"
    using assms wake_first_spec [OF _ assms(2) wq_lists(1) assms(3)] unfolding comp_ok_def by blast
  have "tl (tlists (snd s) (Suspend a)) = []"
    using assms(1) False by (cases "tlists (snd s) (Suspend a)") (simp_all add: comp_ok_def)
  with False k show ?thesis
    by (cases s) (simp add: rt_completion_done_def rt_completion_wait_def comp_ok_def comp_abs_def)
qed

theorem completion_done_signals_witness:
  "\<exists>s'. rt_completion_done 0 7 (RT_UNCOMPLETED, demo_wait RT_Object_Class_MailBox (Suspend 7)) = Some s' \<and> comp_abs 7 s' = (True, [])"
  using completion_done_signals [of 7 "(RT_UNCOMPLETED, demo_wait RT_Object_Class_MailBox (Suspend 7))" 0]
  by (auto simp: comp_ok_def demo_wait_inv demo_wait_live demo_queues)

text \<open>Waiting for a completion that nobody waits for: the signal is used up; without one the call returns \<^verbatim>\<open>-RT_ETIMEOUT\<close> at once or its thread becomes the one
  that waits.\<close>

theorem completion_wait_refines:
  assumes "comp_ok a s" "tlists (snd s) (Suspend a) = []" "timeout = 0 \<or> may_block c t (snd s) \<and> timeout \<noteq> 0x7fffffff"
  shows "\<exists>r s'. rt_completion_wait c a timeout s = Some (r, s') \<and> comp_ok a s' \<and>
    (if fst s = RT_COMPLETED then r = Ret RT_EOK \<and> comp_abs a s' = (False, [])
     else if timeout = 0 then r = Ret (- RT_ETIMEOUT) \<and> s' = s
     else r = Wait t \<and> comp_abs a s' = (False, [t]))"
proof (cases "fst s = RT_COMPLETED \<or> timeout = 0")
  case True
  with assms(1,2) show ?thesis by (cases s) (auto simp: rt_completion_wait_def comp_ok_def comp_abs_def tlist_isempty_def)
next
  case False
  then have b: "may_block c t (snd s)" "timeout \<noteq> 0x7fffffff" "sched_inv (snd s)" "fst s = RT_UNCOMPLETED"
    using assms(1,3) by (auto simp: comp_ok_def)
  obtain k where "wait_on c (Suspend a) t RT_IPC_FLAG_FIFO timeout (set_error t RT_EOK (snd s)) = Some k" "sched_inv k"
    "tlists k (Suspend a) = tlists (snd s) (Suspend a) @ [t]"
    by (rule fifo_block [OF b(3,1,2) wq_lists(1)])
  with False b(4) assms(2) may_blockD(7) [OF b(1)] may_block_irq [OF b(1)] show ?thesis
    by (cases s) (simp add: rt_completion_wait_def comp_ok_def comp_abs_def tlist_isempty_def)
qed

end
