(* ===== verification/Signal.thy ===== *)
theory Signal
  imports MemPoolProps
begin

text \<open>
  Signals (\<^verbatim>\<open>src/signal.c\<close>): each thread has a set of pending signals, a set of signals it lets through, a table of handlers and a list of
  nodes with the data of its pending signals. The nodes are blocks of a memory pool and the tables are regions of the system heap, so the state holds both. The list of a
  thread is the sequence of its nodes with their contents; \<open>user\<close> is what the handler of a number does. Messages for the log are left out, and so are balanced pairs
  of the CPU lock. The tail of \<^verbatim>\<open>rt_schedule\<close>, which looks for signals when its caller goes on, is here as well. A call that waits is split where its thread stops.
\<close>

abbreviation (input) RT_THREAD_STAT_SIGNAL :: u8 where "RT_THREAD_STAT_SIGNAL \<equiv> 0x10"
abbreviation (input) RT_THREAD_STAT_SIGNAL_WAIT :: u8 where "RT_THREAD_STAT_SIGNAL_WAIT \<equiv> 0x20"
abbreviation (input) SI_USER :: u16 where "SI_USER \<equiv> 1"
abbreviation (input) RT_SIG_INFO_MAX :: u32 where "RT_SIG_INFO_MAX \<equiv> 32"

section \<open>State\<close>

record siginfo =
  si_signo :: u16
  si_code :: u16
  si_value :: u32

datatype sighandler = Default_handler | User_handler nat

text \<open>The table of handlers has its address in the heap; a signal that is ignored has none.\<close>

record thread_sigs =
  sig_pending :: u32
  sig_mask :: u32
  sig_vectors :: "(u32 \<times> sighandler option list) option"
  si_list :: "(u32 \<times> siginfo) list"

record sig_state =
  sg_pool :: pool_state
  sgs :: "nat \<Rightarrow> thread_sigs"
  siginfo_pool :: "nat option"

abbreviation sg_kern :: "sig_state \<Rightarrow> kernel" where
  "sg_kern s \<equiv> kern (sg_pool s)"

definition set_kern :: "kernel \<Rightarrow> sig_state \<Rightarrow> sig_state" where
  "set_kern k s = s\<lparr>sg_pool := (sg_pool s)\<lparr>kern := k\<rparr>\<rparr>"

definition upd_sig :: "nat \<Rightarrow> (thread_sigs \<Rightarrow> thread_sigs) \<Rightarrow> sig_state \<Rightarrow> sig_state" where
  "upd_sig t f s = s\<lparr>sgs := (sgs s)(t := f (sgs s t))\<rparr>"

definition add_stat :: "nat \<Rightarrow> u8 \<Rightarrow> kernel \<Rightarrow> kernel" where
  "add_stat t b k = upd_thr t (\<lambda>x. x\<lparr>stat := stat x OR b\<rparr>) k"

definition del_stat :: "nat \<Rightarrow> u8 \<Rightarrow> kernel \<Rightarrow> kernel" where
  "del_stat t b k = upd_thr t (\<lambda>x. x\<lparr>stat := stat x AND NOT b\<rparr>) k"

type_synonym sig_user = "nat \<Rightarrow> u16 \<Rightarrow> sig_state \<Rightarrow> sig_state option"

text \<open>The macros \<^verbatim>\<open>sig_mask\<close> and \<^verbatim>\<open>sig_valid\<close>; a shift by a number that is not valid is undefined.\<close>

definition sig_bit :: "nat \<Rightarrow> u32" where
  "sig_bit n = push_bit n 1"

definition sig_valid :: "int \<Rightarrow> bool" where
  "sig_valid signo \<longleftrightarrow> 0 \<le> signo \<and> signo < 32"

abbreviation node_bit :: "u32 \<times> siginfo \<Rightarrow> u32" where
  "node_bit n \<equiv> sig_bit (unat (si_signo (snd n)))"

text \<open>The members that \<^verbatim>\<open>_rt_thread_init\<close> sets.\<close>

definition thread_sig_init :: "nat \<Rightarrow> sig_state \<Rightarrow> sig_state" where
  "thread_sig_init t s = upd_sig t (\<lambda>_. \<lparr>sig_pending = 0, sig_mask = 0, sig_vectors = None, si_list = []\<rparr>) s"

section \<open>Handling\<close>

definition call_handler :: "sig_user \<Rightarrow> sighandler option \<Rightarrow> u16 \<Rightarrow> sig_state \<Rightarrow> sig_state option" where
  "call_handler user h signo s =
     (case h of Some (User_handler n) \<Rightarrow> user n signo s | _ \<Rightarrow> Some s)"

definition free_node :: "nat \<Rightarrow> u32 \<Rightarrow> sig_state \<Rightarrow> sig_state option" where
  "free_node c p s = map_option (\<lambda>w. s\<lparr>sg_pool := w\<rparr>) (rt_mp_free c p (sg_pool s))"

text \<open>A thread without a table, and a number outside of the table, are no valid accesses.\<close>

definition handler_of :: "nat \<Rightarrow> u16 \<Rightarrow> sig_state \<Rightarrow> sighandler option option" where
  "handler_of t signo s = (case sig_vectors (sgs s t) of
     None \<Rightarrow> None
   | Some (_, vs) \<Rightarrow> if unat signo < length vs then Some (vs ! unat signo) else None)"

definition handle_one :: "sig_user \<Rightarrow> nat \<Rightarrow> nat \<Rightarrow> u32 \<times> siginfo \<Rightarrow> sig_state \<Rightarrow> sig_state option" where
  "handle_one user c t node s = do {
     let signo = si_signo (snd node);
     let s1 = upd_sig t (\<lambda>x. x\<lparr>si_list := tl (si_list x)\<rparr>) s;
     h \<leftarrow> handler_of t signo s1;
     let s2 = upd_sig t (\<lambda>x. x\<lparr>sig_pending := sig_pending x AND NOT (sig_bit (unat signo))\<rparr>) s1;
     s3 \<leftarrow> call_handler user h signo s2;
     s4 \<leftarrow> free_node c (fst node) s3;
     Some (set_kern (set_error t (- RT_EINTR) (sg_kern s4)) s4) }"

partial_function (option) handle_sig_loop :: "sig_user \<Rightarrow> nat \<Rightarrow> nat \<Rightarrow> sig_state \<Rightarrow> sig_state option" where
  "handle_sig_loop user c t s =
     (if sig_pending (sgs s t) AND sig_mask (sgs s t) \<noteq> 0 then
        (case si_list (sgs s t) of
           [] \<Rightarrow> Some s
         | node # _ \<Rightarrow> do {
             s1 \<leftarrow> handle_one user c t node s;
             handle_sig_loop user c t s1 })
      else Some s)"

declare handle_sig_loop.simps [code]

text \<open>Without \<open>clean_state\<close> the function returns with the CPU lock held.\<close>

definition rt_thread_handle_sig :: "sig_user \<Rightarrow> nat \<Rightarrow> bool \<Rightarrow> sig_state \<Rightarrow> sig_state option" where
  "rt_thread_handle_sig user c clean_state s = do {
     t \<leftarrow> rt_thread_self c (sg_kern s);
     if sig_pending (sgs s t) AND sig_mask (sgs s t) \<noteq> 0 \<and> stat (thr (sg_kern s) t) AND RT_THREAD_STAT_SIGNAL_WAIT = 0
     then do {
       s1 \<leftarrow> handle_sig_loop user c t s;
       Some (set_kern (if clean_state then del_stat t RT_THREAD_STAT_SIGNAL (sg_kern s1) else rt_cpus_lock c (sg_kern s1)) s1) }
     else Some s }"

text \<open>\<^verbatim>\<open>_signal_entry\<close>, up to the switch back to the thread.\<close>

definition signal_entry :: "sig_user \<Rightarrow> nat \<Rightarrow> sig_state \<Rightarrow> sig_state option" where
  "signal_entry user c s = do {
     tid \<leftarrow> rt_thread_self c (sg_kern s);
     s1 \<leftarrow> rt_thread_handle_sig user c False s;
     t \<leftarrow> current_thread (cpus (sg_kern s1) c);
     let k1 = upd_thr t (\<lambda>x. x\<lparr>cpus_lock_nest := cpus_lock_nest x - 1\<rparr>) (sg_kern s1);
     let k2 = (if cpus_lock_nest (thr k1 t) = 0 then upd_thr t (\<lambda>x. x\<lparr>scheduler_lock_nest := scheduler_lock_nest x - 1\<rparr>) k1 else k1);
     let k3 = del_stat tid RT_THREAD_STAT_SIGNAL k2;
     Some (set_kern (rt_cpus_lock_status_restore c tid k3) s1) }"

text \<open>\<^verbatim>\<open>rt_signal_check\<close>: whether the thread goes on in \<^verbatim>\<open>_signal_entry\<close>. Its own lock makes the nesting 1 when it was 0.\<close>

definition rt_signal_check :: "nat \<Rightarrow> kernel \<Rightarrow> (bool \<times> kernel) option" where
  "rt_signal_check c k =
     (if irq_nest (cpus k c) \<noteq> 0 then Some (False, k)
      else do {
        t \<leftarrow> current_thread (cpus k c);
        if cpus_lock_nest (thr k t) + 1 = 1 \<and> stat (thr k t) AND RT_THREAD_STAT_SIGNAL_PENDING \<noteq> 0
        then Some (True, del_stat t RT_THREAD_STAT_SIGNAL_PENDING k)
        else Some (False, k) })"

text \<open>The end of \<^verbatim>\<open>rt_schedule\<close>, which its caller \<open>t\<close> reaches when it runs again, and the whole function, up to the switch if there is one.\<close>

definition schedule_signals :: "sig_user \<Rightarrow> nat \<Rightarrow> nat \<Rightarrow> sig_state \<Rightarrow> sig_state option" where
  "schedule_signals user c t s =
     (if stat (thr (sg_kern s) t) AND RT_THREAD_STAT_SIGNAL_PENDING \<noteq> 0
      then rt_thread_handle_sig user c True (set_kern (del_stat t RT_THREAD_STAT_SIGNAL_PENDING (sg_kern s)) s)
      else Some s)"

definition sig_schedule :: "sig_user \<Rightarrow> nat \<Rightarrow> sig_state \<Rightarrow> sig_state option" where
  "sig_schedule user c s = do {
     k1 \<leftarrow> rt_schedule c (sg_kern s);
     let s1 = set_kern k1 s;
     if irq_nest (cpus (sg_kern s) c) \<noteq> 0 then Some s1
     else do {
       cur \<leftarrow> current_thread (cpus (sg_kern s) c);
       if current_thread (cpus k1 c) = Some cur then schedule_signals user c cur s1 else Some s1 } }"

text \<open>\<^verbatim>\<open>_signal_deliver\<close>.\<close>

definition signal_deliver :: "sig_user \<Rightarrow> nat \<Rightarrow> nat \<Rightarrow> sig_state \<Rightarrow> sig_state option" where
  "signal_deliver user c t s =
     (let x = thr (sg_kern s) t in
      if sig_pending (sgs s t) AND sig_mask (sgs s t) = 0 then Some s
      else if stat_of x = RT_THREAD_SUSPEND then do {
        (_, k1) \<leftarrow> rt_thread_resume c t (sg_kern s);
        sig_schedule user c (set_kern (add_stat t (RT_THREAD_STAT_SIGNAL OR RT_THREAD_STAT_SIGNAL_PENDING) k1) s) }
      else if rt_thread_self c (sg_kern s) = Some t then do {
        let s1 = set_kern (add_stat t RT_THREAD_STAT_SIGNAL (sg_kern s)) s;
        if rt_interrupt_get_nest c (sg_kern s1) = 0 then rt_thread_handle_sig user c True s1 else Some s1 }
      else if (stat x AND RT_THREAD_STAT_SIGNAL_MASK) AND RT_THREAD_STAT_SIGNAL = 0 then do {
        let k1 = add_stat t (RT_THREAD_STAT_SIGNAL OR RT_THREAD_STAT_SIGNAL_PENDING) (sg_kern s);
        let cpu_id = oncpu (thr k1 t);
        let k2 = (if cpu_id \<noteq> RT_CPU_DETACHED \<and> unat cpu_id \<noteq> c then rt_hw_ipi_send (RT_CPU_MASK XOR push_bit (unat cpu_id) 1) k1 else k1);
        sig_schedule user c (set_kern k2 s) }
      else Some s)"

section \<open>The operations\<close>

text \<open>\<open>tname\<close> is the name of the running thread, for the allocator.\<close>

definition rt_thread_alloc_sig :: "nat \<Rightarrow> string option \<Rightarrow> nat \<Rightarrow> sig_state \<Rightarrow> sig_state option" where
  "rt_thread_alloc_sig c tname t s = do {
     (p, h) \<leftarrow> rt_malloc (irq_nest (cpus (sg_kern s) c) \<noteq> 0) tname 128 (heap (sg_pool s));
     v \<leftarrow> p;
     Some (upd_sig t (\<lambda>x. x\<lparr>sig_vectors := Some (v, replicate 32 (Some Default_handler))\<rparr>) (s\<lparr>sg_pool := (sg_pool s)\<lparr>heap := h\<rparr>\<rparr>)) }"

fun free_nodes :: "nat \<Rightarrow> (u32 \<times> siginfo) list \<Rightarrow> sig_state \<Rightarrow> sig_state option" where
  "free_nodes c [] s = Some s"
| "free_nodes c (n # ns) s = free_node c (fst n) s \<bind> free_nodes c ns"

definition rt_thread_free_sig :: "nat \<Rightarrow> nat \<Rightarrow> sig_state \<Rightarrow> sig_state option" where
  "rt_thread_free_sig c t s = do {
     let nodes = si_list (sgs s t);
     let vectors = sig_vectors (sgs s t);
     s1 \<leftarrow> free_nodes c nodes (upd_sig t (\<lambda>x. x\<lparr>si_list := [], sig_vectors := None\<rparr>) s);
     (case vectors of
        None \<Rightarrow> Some s1
      | Some (v, _) \<Rightarrow> do {
          h \<leftarrow> rt_free (irq_nest (cpus (sg_kern s1) c) \<noteq> 0) (Some v) (heap (sg_pool s1));
          Some (s1\<lparr>sg_pool := (sg_pool s1)\<lparr>heap := h\<rparr>\<rparr>) }) }"

datatype sig_action = SIG_IGN | SIG_DFL | SIG_FN nat
datatype sig_old = SIG_ERR | Old "sighandler option"

definition rt_signal_install :: "nat \<Rightarrow> string option \<Rightarrow> int \<Rightarrow> sig_action \<Rightarrow> sig_state \<Rightarrow> (sig_old \<times> sig_state) option" where
  "rt_signal_install c tname signo handler s =
     (if \<not> sig_valid signo then Some (SIG_ERR, s)
      else do {
        t \<leftarrow> rt_thread_self c (sg_kern s);
        s1 \<leftarrow> (if sig_vectors (sgs s t) = None then rt_thread_alloc_sig c tname t s else Some s);
        (case sig_vectors (sgs s1 t) of
           None \<Rightarrow> Some (Old None, s1)
         | Some (v, vs) \<Rightarrow>
             (let h = (case handler of SIG_IGN \<Rightarrow> None | SIG_DFL \<Rightarrow> Some Default_handler | SIG_FN n \<Rightarrow> Some (User_handler n))
              in if nat signo < length vs then Some (Old (vs ! nat signo), upd_sig t (\<lambda>x. x\<lparr>sig_vectors := Some (v, vs[nat signo := h])\<rparr>) s1) else None)) })"

definition rt_signal_mask :: "nat \<Rightarrow> int \<Rightarrow> sig_state \<Rightarrow> sig_state option" where
  "rt_signal_mask c signo s = do {
     t \<leftarrow> rt_thread_self c (sg_kern s);
     if sig_valid signo then Some (upd_sig t (\<lambda>x. x\<lparr>sig_mask := sig_mask x AND NOT (sig_bit (nat signo))\<rparr>) s) else None }"

definition rt_signal_unmask :: "sig_user \<Rightarrow> nat \<Rightarrow> int \<Rightarrow> sig_state \<Rightarrow> sig_state option" where
  "rt_signal_unmask user c signo s = do {
     t \<leftarrow> rt_thread_self c (sg_kern s);
     if sig_valid signo then do {
       let s1 = upd_sig t (\<lambda>x. x\<lparr>sig_mask := sig_mask x OR sig_bit (nat signo)\<rparr>) s;
       if sig_mask (sgs s1 t) AND sig_pending (sgs s1 t) \<noteq> 0 then signal_deliver user c t s1 else Some s1 }
     else None }"

text \<open>The search for the first node of a set of signals, and its removal.\<close>

fun si_take :: "u32 \<Rightarrow> (u32 \<times> siginfo) list \<Rightarrow> ((u32 \<times> siginfo) \<times> (u32 \<times> siginfo) list) option" where
  "si_take sset [] = None"
| "si_take sset (n # ns) =
     (if node_bit n AND sset \<noteq> 0 then Some (n, ns)
      else map_option (\<lambda>(m, ms). (m, n # ms)) (si_take sset ns))"

definition zero_siginfo :: siginfo where
  "zero_siginfo = \<lparr>si_signo = 0, si_code = 0, si_value = 0\<rparr>"

text \<open>From the label \<^verbatim>\<open>__done\<close> on. The second component of a result is what is written through \<^verbatim>\<open>si\<close>.\<close>

definition sigwait_done :: "nat \<Rightarrow> nat \<Rightarrow> u32 \<Rightarrow> sig_state \<Rightarrow> (nat outcome \<times> siginfo option \<times> sig_state) option" where
  "sigwait_done c t sset s = (case si_take sset (si_list (sgs s t)) of
     None \<Rightarrow> Some (Ret RT_EOK, Some zero_siginfo, s)
   | Some (n, ns) \<Rightarrow> do {
       s1 \<leftarrow> free_node c (fst n) (upd_sig t (\<lambda>x. x\<lparr>si_list := ns, sig_pending := sig_pending x AND NOT (node_bit n)\<rparr>) s);
       Some (Ret RT_EOK, Some (snd n), s1) })"

definition rt_signal_wait ::
    "sig_user \<Rightarrow> nat \<Rightarrow> u32 option \<Rightarrow> bool \<Rightarrow> u32 \<Rightarrow> sig_state \<Rightarrow> (nat outcome \<times> siginfo option \<times> sig_state) option" where
  "rt_signal_wait user c sset si_null timeout s = do {
     rt_assert (in_thread_context c (sg_kern s));
     t \<leftarrow> rt_thread_self c (sg_kern s);
     (case sset of
        None \<Rightarrow> Some (Ret (- RT_EINVAL), None, s)
      | Some st \<Rightarrow>
          if st = 0 \<or> si_null then Some (Ret (- RT_EINVAL), None, s)
          else if sig_pending (sgs s t) AND st \<noteq> 0 then sigwait_done c t st s
          else if timeout = 0 then Some (Ret (- RT_ETIMEOUT), Some zero_siginfo, s)
          else do {
            (_, k1) \<leftarrow> rt_thread_suspend c t (sg_kern s);
            let k2 = add_stat t RT_THREAD_STAT_SIGNAL_WAIT k1;
            k3 \<leftarrow> (if timeout \<noteq> - 1 then do {
                     (_, _, k') \<leftarrow> rt_timer_control (ThreadTimer t) Ctrl_set_time timeout k2;
                     rt_timer_start c (ThreadTimer t) k' }
                   else Some k2);
            s1 \<leftarrow> sig_schedule user c (set_kern k3 s);
            Some (Wait t, Some zero_siginfo, s1) }) }"

definition rt_signal_wait_resume :: "nat \<Rightarrow> u32 \<Rightarrow> nat \<Rightarrow> sig_state \<Rightarrow> (nat outcome \<times> siginfo option \<times> sig_state) option" where
  "rt_signal_wait_resume c sset t s = do {
     let s1 = set_kern (del_stat t RT_THREAD_STAT_SIGNAL_WAIT (sg_kern s)) s;
     if error (thr (sg_kern s1) t) = - RT_ETIMEOUT
     then Some (Ret (- RT_ETIMEOUT), None, set_kern (set_error t RT_EOK (sg_kern s1)) s1)
     else sigwait_done c t sset s1 }"

text \<open>The data of a signal that is pending already is replaced; this is the end of the call.\<close>

fun si_update :: "siginfo \<Rightarrow> (u32 \<times> siginfo) list \<Rightarrow> (u32 \<times> siginfo) list option" where
  "si_update si [] = None"
| "si_update si (n # ns) =
     (if si_signo (snd n) = si_signo si then Some ((fst n, si) # ns) else map_option ((#) n) (si_update si ns))"

definition rt_thread_kill :: "sig_user \<Rightarrow> nat \<Rightarrow> nat \<Rightarrow> int \<Rightarrow> sig_state \<Rightarrow> (rt_err_t \<times> sig_state) option" where
  "rt_thread_kill user c t sig s =
     (if \<not> sig_valid sig then Some (- RT_EINVAL, s)
      else do {
        let si = \<lparr>si_signo = of_int sig, si_code = SI_USER, si_value = 0\<rparr>;
        (case (if sig_pending (sgs s t) AND sig_bit (nat sig) \<noteq> 0 then si_update si (si_list (sgs s t)) else None) of
           Some ns \<Rightarrow> Some (0, upd_sig t (\<lambda>x. x\<lparr>si_list := ns\<rparr>) s)
         | None \<Rightarrow> do {
             a \<leftarrow> siginfo_pool s;
             (r, w) \<leftarrow> rt_mp_alloc c a 0 (sg_pool s);
             let s1 = s\<lparr>sg_pool := w\<rparr>;
             s2 \<leftarrow> signal_deliver user c t (case r of
               Block (Some p) \<Rightarrow> upd_sig t (\<lambda>x. x\<lparr>si_list := si_list x @ [(p, si)], sig_pending := sig_pending x OR sig_bit (nat sig)\<rparr>) s1
             | _ \<Rightarrow> s1);
             Some (RT_EOK, s2) }) })"

definition rt_system_signal_init :: "nat \<Rightarrow> string option \<Rightarrow> nat option \<Rightarrow> sig_state \<Rightarrow> (rt_err_t \<times> sig_state) option" where
  "rt_system_signal_init c tname malloc s = do {
     (mp, w) \<leftarrow> rt_mp_create c tname ''signal'' RT_SIG_INFO_MAX 12 malloc (sg_pool s);
     rt_assert (mp \<noteq> None);
     Some (0, s\<lparr>sg_pool := w, siginfo_pool := mp\<rparr>) }"

section \<open>Pending signals and their nodes\<close>

abbreviation signo_of :: "u32 \<times> siginfo \<Rightarrow> nat" where
  "signo_of n \<equiv> unat (si_signo (snd n))"

text \<open>The pending signals are exactly those with a node, and each has one node.\<close>

definition sigs_ok :: "thread_sigs \<Rightarrow> bool" where
  "sigs_ok x \<longleftrightarrow> distinct (map signo_of (si_list x)) \<and> (\<forall>n. bit (sig_pending x) n \<longleftrightarrow> n \<in> signo_of ` set (si_list x))"

lemma bit_sig_bit: "n < 32 \<Longrightarrow> bit (sig_bit n) m \<longleftrightarrow> m = n"
  by (auto simp: sig_bit_def push_bit_eq_mult bit_exp_iff)

lemma nonzero_bit: "(w :: u32) \<noteq> 0 \<longleftrightarrow> (\<exists>n. bit w n)"
  using bit_eqI [of w 0] by auto

lemma sig_bit_and: "n < 32 \<Longrightarrow> w AND sig_bit n \<noteq> 0 \<longleftrightarrow> bit w n" "n < 32 \<Longrightarrow> sig_bit n AND w \<noteq> 0 \<longleftrightarrow> bit w n"
  by (auto simp: nonzero_bit bit_and_iff bit_sig_bit)

lemma sigs_ok_valid: "sigs_ok x \<Longrightarrow> n \<in> set (si_list x) \<Longrightarrow> signo_of n < 32"
proof -
  assume "sigs_ok x" "n \<in> set (si_list x)"
  then have "bit (sig_pending x) (signo_of n)" by (auto simp: sigs_ok_def)
  then show "signo_of n < 32" using bit_imp_le_length [of "sig_pending x" "signo_of n"] by simp
qed

lemma sigs_ok_interest: "sigs_ok x \<Longrightarrow> sig_pending x AND m \<noteq> 0 \<longleftrightarrow> (\<exists>n \<in> set (si_list x). bit m (signo_of n))"
  by (auto simp: sigs_ok_def nonzero_bit bit_and_iff)

lemma sigs_ok_remove:
  assumes "sigs_ok x" "si_list x = ms @ n # ns"
  shows "sigs_ok (x\<lparr>si_list := ms @ ns, sig_pending := sig_pending x AND NOT (node_bit n)\<rparr>)"
proof -
  have n: "signo_of n < 32" using sigs_ok_valid [OF assms(1)] assms(2) by simp
  have d: "distinct (map signo_of (ms @ ns))" "signo_of n \<notin> signo_of ` set (ms @ ns)" using assms by (auto simp: sigs_ok_def)
  have r: "bit (sig_pending x AND NOT (node_bit n)) m \<longleftrightarrow> bit (sig_pending x) m \<and> m \<noteq> signo_of n" for m
    using bit_imp_le_length [of "sig_pending x" m] by (auto simp: bit_and_iff bit_not_iff bit_sig_bit [OF n])
  have p: "bit (sig_pending x) m \<longleftrightarrow> m = signo_of n \<or> m \<in> signo_of ` set (ms @ ns)" for m
    using assms by (auto simp: sigs_ok_def)
  have "bit (sig_pending x AND NOT (node_bit n)) m \<longleftrightarrow> m \<in> signo_of ` set (ms @ ns)" for m
    unfolding r p using d(2) by (cases "m = signo_of n") simp_all
  then show ?thesis using d(1) by (simp add: sigs_ok_def)
qed

lemma sigs_ok_add:
  assumes "sigs_ok x" "signo_of n < 32" "\<not> bit (sig_pending x) (signo_of n)"
  shows "sigs_ok (x\<lparr>si_list := si_list x @ [n], sig_pending := sig_pending x OR node_bit n\<rparr>)"
  using assms by (auto simp: sigs_ok_def bit_or_iff bit_sig_bit)

text \<open>The whole state: the nodes are blocks of the pool in use, each in one list.\<close>

definition sig_nodes :: "sig_state \<Rightarrow> nat \<Rightarrow> u32 list" where
  "sig_nodes s t = map fst (si_list (sgs s t))"

definition sig_inv :: "nat \<Rightarrow> sig_state \<Rightarrow> bool" where
  "sig_inv a s \<longleftrightarrow> siginfo_pool s = Some a \<and> pool_idle a (sg_pool s) \<and> (\<forall>t. sigs_ok (sgs s t)) \<and>
     (\<forall>t. distinct (sig_nodes s t) \<and> set (sig_nodes s t) \<subseteq> fst ` mp_regions a (sg_pool s)) \<and>
     (\<forall>t u. t \<noteq> u \<longrightarrow> set (sig_nodes s t) \<inter> set (sig_nodes s u) = {})"

lemma sig_invD:
  assumes "sig_inv a s"
  shows "siginfo_pool s = Some a" "pool_idle a (sg_pool s)" "sigs_ok (sgs s t)" "distinct (sig_nodes s t)"
    "set (sig_nodes s t) \<subseteq> fst ` mp_regions a (sg_pool s)" "t \<noteq> u \<Longrightarrow> set (sig_nodes s t) \<inter> set (sig_nodes s u) = {}"
  using assms by (simp_all add: sig_inv_def)

lemma sig_simps [simp]:
  "sgs (upd_sig t f s) = (sgs s)(t := f (sgs s t))" "sg_pool (upd_sig t f s) = sg_pool s" "siginfo_pool (upd_sig t f s) = siginfo_pool s"
  "sgs (set_kern k s) = sgs s" "sg_pool (set_kern k s) = (sg_pool s)\<lparr>kern := k\<rparr>" "siginfo_pool (set_kern k s) = siginfo_pool s"
  by (simp_all add: upd_sig_def set_kern_def)

text \<open>Taking a node out of a list and giving it back to the pool.\<close>

lemma idle_kern:
  "tlists k (Suspend a) = tlists (kern w) (Suspend a) \<Longrightarrow> pool_idle a (w\<lparr>kern := k\<rparr>) = pool_idle a w"
  "mp_regions a (w\<lparr>kern := k\<rparr>) = mp_regions a w"
  using pool_ok_cong [of "w\<lparr>kern := k\<rparr>" a w] by (simp_all add: pool_idle_def mp_regions_def mp_used_def mp_free_blocks_def)

lemma sig_inv_kern: "tlists k = tlists (sg_kern s) \<Longrightarrow> sig_inv a (set_kern k s) = sig_inv a s"
  using idle_kern(1) [of k a "sg_pool s"] by (simp add: sig_inv_def sig_nodes_def idle_kern(2))

lemma pool_free_block:
  assumes "pool_idle a w" "p \<in> fst ` mp_regions a w"
  obtains w' where "rt_mp_free c p w = Some w'" "pool_idle a w'" "fst ` mp_regions a w' = fst ` mp_regions a w - {p}" "kern w' = kern w"
    "rt_errno w' = rt_errno w"
proof -
  obtain n where n: "(p, n) \<in> mp_regions a w" using assms(2) by force
  have ok: "pool_ok a w" "tlists (kern w) (Suspend a) = []" using assms(1) by (simp_all add: pool_idle_def)
  note r = regions_inside [OF ok(1) n]
  have x: "p - 4 \<in> set (pool_blocks (pools w a))" "p - 4 \<notin> set (mp_free_blocks a w)" using r(3) by (simp_all add: mp_used_def)
  have f: "rt_mp_free c p w = Some (mp_push a (p - 4) w)" using mp_push_ok(3) [OF ok(1) x, of c] ok(2) by simp
  obtain w' where w': "rt_mp_free c p w = Some w'" "pool_idle a w'" "mp_regions a w' = mp_regions a w - {(p, n)}"
    using free_law [OF assms(1) n, of c] by blast
  have "fst ` (mp_regions a w - {(p, n)}) = fst ` mp_regions a w - {p}" by (auto simp: mp_regions_def r(4))
  moreover have "kern w' = kern w" "rt_errno w' = rt_errno w" using f w'(1) by (auto simp: mp_push_def)
  ultimately show ?thesis using that [of w'] w' by simp
qed

lemma unlink_ok:
  assumes "sig_inv a s" "si_list (sgs s t) = ms @ n # ns"
  defines "s' \<equiv> upd_sig t (\<lambda>x. x\<lparr>si_list := ms @ ns, sig_pending := sig_pending x AND NOT (node_bit n)\<rparr>) s"
  shows "sig_inv a s'" "fst n \<in> fst ` mp_regions a (sg_pool s')" "fst n \<notin> set (sig_nodes s' u)"
proof -
  note d = sig_invD [OF assms(1)]
  have nt: "sig_nodes s t = map fst ms @ fst n # map fst ns" using assms(2) by (simp add: sig_nodes_def)
  show "fst n \<in> fst ` mp_regions a (sg_pool s')" using d(5) [of t] nt by (auto simp: s'_def)
  have l: "sig_nodes s' u = (if u = t then map fst ms @ map fst ns else sig_nodes s u)" for u by (simp add: sig_nodes_def s'_def)
  show "fst n \<notin> set (sig_nodes s' u)" using d(4) [of t] d(6) [of t u] nt by (auto simp: l)
  have sub: "set (sig_nodes s' u) \<subseteq> set (sig_nodes s u)" for u using nt by (auto simp: l)
  have "distinct (sig_nodes s' u)" for u using d(4) [of u] nt by (cases "u = t") (simp_all add: l)
  moreover have "set (sig_nodes s' u) \<subseteq> fst ` mp_regions a (sg_pool s')" for u
    using subset_trans [OF sub d(5)] by (simp add: s'_def)
  moreover have "set (sig_nodes s' u) \<inter> set (sig_nodes s' v) = {}" if "u \<noteq> v" for u v
    using d(6) [OF that] Int_mono [OF sub [of u] sub [of v]] by simp
  moreover have "sigs_ok (sgs s' u)" for u using d(3) [of u] sigs_ok_remove [OF d(3) assms(2)] by (simp add: s'_def)
  ultimately show "sig_inv a s'" using d(1,2) by (simp add: sig_inv_def s'_def)
qed

lemma free_node_ok:
  assumes "sig_inv a s" "p \<in> fst ` mp_regions a (sg_pool s)" "\<And>u. p \<notin> set (sig_nodes s u)"
  obtains s' where "free_node c p s = Some s'" "sig_inv a s'" "sgs s' = sgs s" "sg_kern s' = sg_kern s"
    "fst ` mp_regions a (sg_pool s') = fst ` mp_regions a (sg_pool s) - {p}"
proof -
  note d = sig_invD [OF assms(1)]
  obtain w where w: "rt_mp_free c p (sg_pool s) = Some w" "pool_idle a w" "fst ` mp_regions a w = fst ` mp_regions a (sg_pool s) - {p}"
    "kern w = sg_kern s"
    by (rule pool_free_block [OF d(2) assms(2)])
  let ?s = "s\<lparr>sg_pool := w\<rparr>"
  have l: "sig_nodes ?s u = sig_nodes s u" for u by (simp add: sig_nodes_def)
  have "set (sig_nodes s u) \<subseteq> fst ` mp_regions a w" for u using d(5) [of u] assms(3) [of u] unfolding w(3) by (simp add: subset_Diff_insert)
  then have "sig_inv a ?s" using d w(2) by (simp add: sig_inv_def l)
  then show ?thesis using that [of ?s] w by (simp add: free_node_def)
qed

section \<open>Handling all signals\<close>

text \<open>Handlers that leave the signals alone, but may do anything else.\<close>

definition quiet :: "nat \<Rightarrow> sig_user \<Rightarrow> bool" where
  "quiet a user \<longleftrightarrow> (\<forall>n g s. sig_inv a s \<longrightarrow> (\<exists>s'. user n g s = Some s' \<and> sig_inv a s' \<and> sgs s' = sgs s \<and>
     mp_regions a (sg_pool s) \<subseteq> mp_regions a (sg_pool s')))"

lemma call_handler_ok:
  assumes "quiet a user" "sig_inv a s"
  obtains s' where "call_handler user h g s = Some s'" "sig_inv a s'" "sgs s' = sgs s" "mp_regions a (sg_pool s) \<subseteq> mp_regions a (sg_pool s')"
proof (cases "\<exists>n. h = Some (User_handler n)")
  case True
  then obtain n where "h = Some (User_handler n)" by blast
  with assms that show ?thesis unfolding quiet_def call_handler_def by fastforce
next
  case False
  then have "call_handler user h g s = Some s" by (auto simp: call_handler_def split: option.split sighandler.split)
  with that [of s] assms(2) show ?thesis by simp
qed

lemma handle_one_ok:
  assumes "sig_inv a s" "quiet a user" "si_list (sgs s t) = n # ns" "sig_vectors (sgs s t) = Some (v, vs)" "length vs = 32"
  obtains s' where "handle_one user c t n s = Some s'" "sig_inv a s'"
    "sgs s' = (sgs s)(t := (sgs s t)\<lparr>si_list := ns, sig_pending := sig_pending (sgs s t) AND NOT (node_bit n)\<rparr>)"
    "error (thr (sg_kern s') t) = - RT_EINTR"
proof -
  have valid: "signo_of n < 32" using sigs_ok_valid [OF sig_invD(3) [OF assms(1)], of n t] assms(3) by simp
  let ?s1 = "upd_sig t (\<lambda>x. x\<lparr>si_list := tl (si_list x)\<rparr>) s"
  let ?s2 = "upd_sig t (\<lambda>x. x\<lparr>si_list := ns, sig_pending := sig_pending x AND NOT (node_bit n)\<rparr>) s"
  have s2: "upd_sig t (\<lambda>x. x\<lparr>sig_pending := sig_pending x AND NOT (node_bit n)\<rparr>) ?s1 = ?s2"
    using assms(3) by (simp add: upd_sig_def)
  note u = unlink_ok [OF assms(1), of t "[]" n ns, simplified append_Nil, OF assms(3)]
  have h: "handler_of t (si_signo (snd n)) ?s1 = Some (vs ! signo_of n)" using assms(4,5) valid by (simp add: handler_of_def)
  obtain s3 where s3: "call_handler user (vs ! signo_of n) (si_signo (snd n)) ?s2 = Some s3" "sig_inv a s3" "sgs s3 = sgs ?s2"
    "mp_regions a (sg_pool ?s2) \<subseteq> mp_regions a (sg_pool s3)"
    by (rule call_handler_ok [OF assms(2) u(1)])
  have in_pool: "fst n \<in> fst ` mp_regions a (sg_pool s3)" using u(2) s3(4) by auto
  have gone: "fst n \<notin> set (sig_nodes s3 x)" for x using u(3) [of x] s3(3) by (simp add: sig_nodes_def)
  obtain s4 where s4: "free_node c (fst n) s3 = Some s4" "sig_inv a s4" "sgs s4 = sgs s3"
    by (rule free_node_ok [OF s3(2) in_pool gone])
  let ?s' = "set_kern (set_error t (- RT_EINTR) (sg_kern s4)) s4"
  have "sig_inv a ?s'" using s4(2) by (simp add: sig_inv_kern)
  moreover have "handle_one user c t n s = Some ?s'" using h s3(1) s4(1) s2 by (simp add: handle_one_def Let_def)
  ultimately show ?thesis using that [of ?s'] s4(3) s3(3) by (simp add: set_error_def)
qed

text \<open>The nodes that are handled, and what is left: the longest end of the list without a signal that is let through.\<close>

fun handled :: "u32 \<Rightarrow> (u32 \<times> siginfo) list \<Rightarrow> (u32 \<times> siginfo) list" where
  "handled m [] = []"
| "handled m (n # ns) = (if \<exists>k \<in> set (n # ns). bit m (signo_of k) then n # handled m ns else [])"

fun left_over :: "u32 \<Rightarrow> (u32 \<times> siginfo) list \<Rightarrow> (u32 \<times> siginfo) list" where
  "left_over m [] = []"
| "left_over m (n # ns) = (if \<exists>k \<in> set (n # ns). bit m (signo_of k) then left_over m ns else n # ns)"

lemma handled_left: "handled m ns @ left_over m ns = ns" "\<forall>n \<in> set (left_over m ns). \<not> bit m (signo_of n)"
  by (induction ns) auto

fun handle_each :: "sig_user \<Rightarrow> nat \<Rightarrow> nat \<Rightarrow> (u32 \<times> siginfo) list \<Rightarrow> sig_state \<Rightarrow> sig_state option" where
  "handle_each user c t [] s = Some s"
| "handle_each user c t (n # ns) s = handle_one user c t n s \<bind> handle_each user c t ns"

lemma handle_loop_ok:
  assumes "sig_inv a s" "quiet a user" "sig_vectors (sgs s t) = Some (v, vs)" "length vs = 32"
  shows "\<exists>s'. handle_sig_loop user c t s = Some s' \<and> handle_each user c t (handled (sig_mask (sgs s t)) (si_list (sgs s t))) s = Some s' \<and>
    sig_inv a s' \<and> si_list (sgs s' t) = left_over (sig_mask (sgs s t)) (si_list (sgs s t)) \<and>
    (\<forall>u. u \<noteq> t \<longrightarrow> sgs s' u = sgs s u) \<and> sig_mask (sgs s' t) = sig_mask (sgs s t) \<and> sig_vectors (sgs s' t) = sig_vectors (sgs s t)"
  using assms
proof (induction "si_list (sgs s t)" arbitrary: s)
  case Nil
  then have "sig_pending (sgs s t) AND sig_mask (sgs s t) = 0"
    using sigs_ok_interest [OF sig_invD(3) [OF Nil.prems(1)], of t "sig_mask (sgs s t)"] by simp
  with Nil.hyps Nil.prems(1) show ?case by (subst handle_sig_loop.simps) (simp add: Nil.hyps [symmetric])
next
  case (Cons n ns)
  note eq = Cons.hyps(2) [symmetric]
  note i = sigs_ok_interest [OF sig_invD(3) [OF Cons.prems(1)], of t "sig_mask (sgs s t)", unfolded eq]
  show ?case
  proof (cases "sig_pending (sgs s t) AND sig_mask (sgs s t) = 0")
    case True
    with i have "\<not> (\<exists>k \<in> set (n # ns). bit (sig_mask (sgs s t)) (signo_of k))" by simp
    then have "handled (sig_mask (sgs s t)) (n # ns) = []" "left_over (sig_mask (sgs s t)) (n # ns) = n # ns" by auto
    with True eq Cons.prems(1) show ?thesis by (subst handle_sig_loop.simps) simp
  next
    case False
    with i have h: "handled (sig_mask (sgs s t)) (n # ns) = n # handled (sig_mask (sgs s t)) ns"
      "left_over (sig_mask (sgs s t)) (n # ns) = left_over (sig_mask (sgs s t)) ns" by simp_all
    obtain s1 where s1: "handle_one user c t n s = Some s1" "sig_inv a s1"
      "sgs s1 = (sgs s)(t := (sgs s t)\<lparr>si_list := ns, sig_pending := sig_pending (sgs s t) AND NOT (node_bit n)\<rparr>)"
      by (rule handle_one_ok [OF Cons.prems(1,2) eq Cons.prems(3,4)])
    have "handle_sig_loop user c t s = handle_sig_loop user c t s1" using False eq s1(1) by (subst handle_sig_loop.simps) simp
    with Cons.hyps(1) [of s1] Cons.prems s1 eq h show ?thesis by simp
  qed
qed

section \<open>Sending and waiting\<close>

text \<open>A new node at the end of a list, in a block that the pool has just given out.\<close>

lemma link_ok:
  assumes "sig_inv a s" "pool_idle a w" "p \<notin> fst ` mp_regions a (sg_pool s)" "mp_regions a w = insert (p, m) (mp_regions a (sg_pool s))"
    and "unat (si_signo i) < 32" "\<not> bit (sig_pending (sgs s t)) (unat (si_signo i))"
  shows "sig_inv a (upd_sig t (\<lambda>x. x\<lparr>si_list := si_list x @ [(p, i)], sig_pending := sig_pending x OR sig_bit (unat (si_signo i))\<rparr>) (s\<lparr>sg_pool := w\<rparr>))"
    (is "sig_inv a ?s")
proof -
  note d = sig_invD [OF assms(1)]
  have l: "sig_nodes ?s u = (if u = t then sig_nodes s t @ [p] else sig_nodes s u)" for u by (simp add: sig_nodes_def)
  have new: "p \<notin> set (sig_nodes s u)" for u using d(5) [of u] assms(3) by blast
  have "distinct (sig_nodes ?s u)" for u using d(4) [of u] new [of u] by (auto simp: l)
  moreover have "set (sig_nodes ?s u) \<subseteq> fst ` mp_regions a w" for u using d(5) [of u] by (auto simp: l assms(4))
  moreover have "set (sig_nodes ?s u) \<inter> set (sig_nodes ?s v) = {}" if "u \<noteq> v" for u v
    using d(6) [OF that] new [of u] new [of v] that by (auto simp: l)
  moreover have "sigs_ok (sgs ?s u)" for u using d(3) [of u] sigs_ok_add [OF d(3) [of t], of "(p, i)"] assms(5,6) by simp
  ultimately show ?thesis using d(1) assms(2) by (simp add: sig_inv_def)
qed

lemma si_update_some:
  "(\<exists>n \<in> set ns. si_signo (snd n) = si_signo i) \<Longrightarrow>
     \<exists>ns'. si_update i ns = Some ns' \<and> map fst ns' = map fst ns \<and> map (\<lambda>n. si_signo (snd n)) ns' = map (\<lambda>n. si_signo (snd n)) ns \<and> i \<in> snd ` set ns'"
proof (induction ns)
  case (Cons n ns)
  show ?case
  proof (cases "si_signo (snd n) = si_signo i")
    case False
    with Cons obtain ns' where "si_update i ns = Some ns'" "map fst ns' = map fst ns" "map (\<lambda>n. si_signo (snd n)) ns' = map (\<lambda>n. si_signo (snd n)) ns"
      "i \<in> snd ` set ns'" by auto
    with False show ?thesis by simp
  qed simp
qed simp

lemma sig_inv_renew:
  assumes "sig_inv a s" "map fst ns = map fst (si_list (sgs s t))" "map (\<lambda>n. si_signo (snd n)) ns = map (\<lambda>n. si_signo (snd n)) (si_list (sgs s t))"
  shows "sig_inv a (upd_sig t (\<lambda>x. x\<lparr>si_list := ns\<rparr>) s)"
proof -
  note d = sig_invD [OF assms(1)]
  have "sig_nodes (upd_sig t (\<lambda>x. x\<lparr>si_list := ns\<rparr>) s) u = sig_nodes s u" for u using assms(2) by (simp add: sig_nodes_def)
  moreover have "map signo_of ns = map unat (map (\<lambda>n. si_signo (snd n)) ns)" for ns :: "(u32 \<times> siginfo) list" by (simp add: comp_def)
  then have m: "map signo_of ns = map signo_of (si_list (sgs s t))" using assms(3) by metis
  then have "signo_of ` set ns = signo_of ` set (si_list (sgs s t))" by (metis set_map)
  then have "sigs_ok ((sgs s t)\<lparr>si_list := ns\<rparr>)" using d(3) [of t] m by (simp add: sigs_ok_def)
  ultimately show ?thesis using d by (simp add: sig_inv_def)
qed

lemma sig_alloc:
  assumes "pool_idle a w"
  obtains (none) w' where "rt_mp_alloc c a 0 w = Some (Block None, w')" "mp_free_blocks a w = []" "pool_idle a w'" "mp_regions a w' = mp_regions a w"
  | (block) p m w' where "rt_mp_alloc c a 0 w = Some (Block (Some p), w')" "mp_free_blocks a w \<noteq> []" "pool_idle a w'"
      "p \<notin> fst ` mp_regions a w" "mp_regions a w' = insert (p, m) (mp_regions a w)" "kern w' = kern w"
proof (cases "mp_free_blocks a w")
  case Nil
  obtain w' where w': "rt_mp_alloc c a 0 w = Some (Block None, w')" "pool_ok a w'" "mp_abs a w' = mp_abs a w" "heap w' = heap w" "pools w' = pools w"
    unfolding rt_mp_alloc_def by (rule alloc_times_out [OF _ Nil]) (use assms in \<open>auto simp: pool_idle_def\<close>)
  with none [OF w'(1) Nil] assms show ?thesis by (simp add: pool_idle_def mp_abs_def mp_regions_def mp_used_def)
next
  case (Cons x xs)
  have ok: "pool_ok a w" using assms by (simp add: pool_idle_def)
  obtain w' where w': "rt_mp_alloc c a 0 w = Some (Block (Some (x + 4)), w')" "kern w' = kern w"
    unfolding rt_mp_alloc_def using alloc_takes [OF ok Cons, of c "rt_thread_self c (kern w)" 0] by (metis state_simps(5,6))
  obtain p v where "mp_try_alloc c a () w = Some (p, v)" "pool_idle a v"
    "case p of None \<Rightarrow> mp_regions a v = mp_regions a w | Some q \<Rightarrow> q \<notin> fst ` mp_regions a w \<and> (\<exists>n. mp_regions a v = insert (q, n) (mp_regions a w))"
    using try_alloc_law [OF assms, of c "()"] by blast
  with w' block [OF w'(1)] Cons show ?thesis by (auto simp: mp_try_alloc_def)
qed

lemma si_take_some:
  "(\<exists>n \<in> set ns. node_bit n AND sset \<noteq> 0) \<Longrightarrow>
     \<exists>ms n ks. ns = ms @ n # ks \<and> si_take sset ns = Some (n, ms @ ks) \<and> node_bit n AND sset \<noteq> 0 \<and> (\<forall>m \<in> set ms. node_bit m AND sset = 0)"
proof (induction ns)
  case (Cons n ns)
  show ?case
  proof (cases "node_bit n AND sset = 0")
    case True
    with Cons obtain ms m ks where "ns = ms @ m # ks" "si_take sset ns = Some (m, ms @ ks)" "node_bit m AND sset \<noteq> 0"
      "\<forall>m \<in> set ms. node_bit m AND sset = 0" by auto
    with True show ?thesis by (intro exI [of _ "n # ms"] exI [of _ m] exI [of _ ks]) simp
  next
    case False
    then show ?thesis by (intro exI [of _ "[]"] exI [of _ n] exI [of _ ns]) simp
  qed
qed simp

section \<open>States for the examples\<close>

text \<open>The example pool at address 7 with the signals of thread 1: none, and the two numbers 3 and 5, of which only 5 is let through.\<close>

definition no_sigs :: thread_sigs where
  "no_sigs = \<lparr>sig_pending = 0, sig_mask = 0, sig_vectors = None, si_list = []\<rparr>"

definition demo_sig :: sig_state where
  "demo_sig = \<lparr>sg_pool = demo_pool, sgs = \<lambda>_. no_sigs, siginfo_pool = Some 7\<rparr>"

definition demo_two :: sig_state where
  "demo_two = \<lparr>sg_pool = demo_pool_used, sgs = (\<lambda>_. no_sigs)(1 := \<lparr>sig_pending = 0x28, sig_mask = 0x20,
     sig_vectors = Some (0x2000, replicate 32 (Some Default_handler)),
     si_list = [(0x1004, \<lparr>si_signo = 3, si_code = 1, si_value = 0\<rparr>), (0x1010, \<lparr>si_signo = 5, si_code = 1, si_value = 0\<rparr>)]\<rparr>), siginfo_pool = Some 7\<rparr>"

lemma demo_sig_inv: "sig_inv 7 demo_sig"
proof -
  have "pool_idle 7 demo_pool"
    using demo_pool_ok(1) by (simp add: pool_idle_def demo_pool_def demo_object_def demo_defs)
  then show ?thesis by (simp add: sig_inv_def demo_sig_def no_sigs_def sigs_ok_def sig_nodes_def)
qed

lemma demo_two_inv: "sig_inv 7 demo_two"
proof -
  have i: "pool_idle 7 demo_pool_used"
    using demo_used_ok(1) by (simp add: pool_idle_def demo_pool_used_def demo_pool_def demo_object_def demo_defs)
  have "bit (0x28 :: u32) n \<longleftrightarrow> n = 3 \<or> n = 5" for n
  proof -
    have "(0x28 :: u32) = push_bit 3 1 OR push_bit 5 1" by simp
    then show ?thesis by (simp only: bit_or_iff bit_sig_bit [unfolded sig_bit_def])
  qed
  then have "sigs_ok (sgs demo_two u)" for u by (auto simp: sigs_ok_def demo_two_def no_sigs_def)
  moreover have "pool_blocks (pools demo_pool_used 7) = [0x1000, 0x100c]" "mp_free_blocks 7 demo_pool_used = []"
    using demo_fits(2) demo_used_ok(2) by (simp_all add: demo_pool_used_def demo_pool_def)
  then have "fst ` mp_regions 7 demo_pool_used = {0x1004, 0x1010}" by (auto simp: mp_regions_def mp_used_def)
  ultimately show ?thesis using i by (simp add: sig_inv_def sig_nodes_def) (simp add: demo_two_def no_sigs_def)
qed

section \<open>Properties\<close>



text \<open>Sending a signal. One that is pending already only has its data renewed, and the call ends there. Otherwise, when the pool has a block, the signal is pending afterwards, with one new node at
  the end of the list, and is delivered; when it has none, the signal is lost, and the call reports success all the same. The pending signals and their nodes correspond at all times.\<close>

theorem kill_exact:
  assumes "sig_inv a s" "sig_valid sig"
  shows "(bit (sig_pending (sgs s t)) (nat sig) \<longrightarrow> (\<exists>s'. rt_thread_kill user c t sig s = Some (RT_EOK, s') \<and> sig_inv a s' \<and> sg_pool s' = sg_pool s \<and>
      map signo_of (si_list (sgs s' t)) = map signo_of (si_list (sgs s t)) \<and> sig_pending (sgs s' t) = sig_pending (sgs s t)))
    \<and> (\<not> bit (sig_pending (sgs s t)) (nat sig) \<longrightarrow> mp_free_blocks a (sg_pool s) \<noteq> [] \<longrightarrow> (\<exists>p s'.
      rt_thread_kill user c t sig s = map_option (Pair RT_EOK) (signal_deliver user c t s') \<and> sig_inv a s' \<and> sg_kern s' = sg_kern s \<and>
      si_list (sgs s' t) = si_list (sgs s t) @ [(p, \<lparr>si_signo = of_int sig, si_code = SI_USER, si_value = 0\<rparr>)] \<and> bit (sig_pending (sgs s' t)) (nat sig)))
    \<and> (\<not> bit (sig_pending (sgs s t)) (nat sig) \<longrightarrow> mp_free_blocks a (sg_pool s) = [] \<longrightarrow> (\<exists>s'.
      rt_thread_kill user c t sig s = map_option (Pair RT_EOK) (signal_deliver user c t s') \<and> sig_inv a s' \<and> sgs s' = sgs s))"
proof -
  note d = sig_invD [OF assms(1)]
  have n: "nat sig < 32" "unat (of_int sig :: u16) = nat sig"
  proof -
    show "nat sig < 32" using assms(2) unfolding sig_valid_def by linarith
    moreover have "(of_int sig :: u16) = of_nat (nat sig)" using assms(2) by (simp add: sig_valid_def)
    ultimately show "unat (of_int sig :: u16) = nat sig" by (simp only:) (simp add: unsigned_of_nat take_bit_nat_eq_self)
  qed
  let ?i = "\<lparr>si_signo = of_int sig, si_code = SI_USER, si_value = 0\<rparr> :: siginfo"
  show ?thesis
  proof (cases "bit (sig_pending (sgs s t)) (nat sig)")
    case True
    then obtain m where "m \<in> set (si_list (sgs s t))" "signo_of m = nat sig" using d(3) [of t] by (auto simp: sigs_ok_def)
    then have "\<exists>m \<in> set (si_list (sgs s t)). si_signo (snd m) = si_signo ?i" using n(2) by (auto simp: word_unat_eq_iff)
    from si_update_some [OF this] obtain ns where ns: "si_update ?i (si_list (sgs s t)) = Some ns" "map fst ns = map fst (si_list (sgs s t))"
      "map (\<lambda>n. si_signo (snd n)) ns = map (\<lambda>n. si_signo (snd n)) (si_list (sgs s t))" by blast
    let ?s = "upd_sig t (\<lambda>x. x\<lparr>si_list := ns\<rparr>) s"
    have "rt_thread_kill user c t sig s = Some (RT_EOK, ?s)" using ns(1) True n(1) assms(2) by (simp add: rt_thread_kill_def sig_bit_and Let_def)
    moreover have "map signo_of ns = map signo_of (si_list (sgs s t))" using arg_cong [OF ns(3), of "map unat"] by (simp add: comp_def)
    ultimately show ?thesis using sig_inv_renew [OF assms(1) ns(2,3)] True by simp
  next
    case False
    then have np: "sig_pending (sgs s t) AND sig_bit (nat sig) = 0" using sig_bit_and(1) [OF n(1)] by blast
    show ?thesis
    proof (cases rule: sig_alloc [OF d(2), of c, case_names none block])
      case (none w')
      have "sig_inv a (s\<lparr>sg_pool := w'\<rparr>)" using none(3,4) d by (simp add: sig_inv_def sig_nodes_def)
      then show ?thesis using none(1,2) np False assms(2) d(1)
        by (auto simp: rt_thread_kill_def Let_def map_conv_bind_option comp_def intro!: exI [of _ "s\<lparr>sg_pool := w'\<rparr>"])
    next
      case (block p m w')
      let ?s = "upd_sig t (\<lambda>x. x\<lparr>si_list := si_list x @ [(p, ?i)], sig_pending := sig_pending x OR sig_bit (nat sig)\<rparr>) (s\<lparr>sg_pool := w'\<rparr>)"
      have "sig_inv a ?s" using link_ok [OF assms(1) block(3-5), of ?i t] False n by simp
      moreover have "rt_thread_kill user c t sig s = map_option (Pair RT_EOK) (signal_deliver user c t ?s)"
        using block(1) np assms(2) d(1) by (simp add: rt_thread_kill_def Let_def map_conv_bind_option comp_def)
      ultimately show ?thesis using block(2,6) False n(1)
        by (intro conjI impI) (auto simp: bit_or_iff bit_sig_bit intro!: exI [of _ p] exI [of _ ?s])
    qed
  qed
qed

theorem kill_exact_witness:
  "\<exists>p s'. rt_thread_kill (\<lambda>_ _. Some) 0 1 9 demo_sig = map_option (Pair RT_EOK) (signal_deliver (\<lambda>_ _. Some) 0 1 s') \<and>
     si_list (sgs s' 1) = [(p, \<lparr>si_signo = 9, si_code = SI_USER, si_value = 0\<rparr>)] \<and> bit (sig_pending (sgs s' 1)) 9"
proof -
  have "\<not> bit (sig_pending (sgs demo_sig 1)) 9" "mp_free_blocks 7 (sg_pool demo_sig) \<noteq> []" "si_list (sgs demo_sig 1) = []"
    using demo_pool_ok(2) by (simp_all add: demo_sig_def no_sigs_def)
  then show ?thesis using kill_exact [OF demo_sig_inv, of 9 1 "\<lambda>_ _. Some" 0] by (auto simp: sig_valid_def)
qed

text \<open>Waiting for a set of signals of which one is pending returns at once with the data of the one that was sent first, takes it out of the pending signals and gives its block back; the others
  stay in their order.\<close>

theorem sigwait_takes_first:
  assumes "sig_inv a s" "in_thread_context c (sg_kern s)" "rt_thread_self c (sg_kern s) = Some t" "sig_pending (sgs s t) AND sset \<noteq> 0" "sset \<noteq> 0"
  shows "\<exists>ms n ns s'. rt_signal_wait user c (Some sset) False timeout s = Some (Ret RT_EOK, Some (snd n), s') \<and> sig_inv a s' \<and>
    si_list (sgs s t) = ms @ n # ns \<and> bit sset (signo_of n) \<and> (\<forall>m \<in> set ms. \<not> bit sset (signo_of m)) \<and>
    si_list (sgs s' t) = ms @ ns \<and> \<not> bit (sig_pending (sgs s' t)) (signo_of n) \<and> (\<forall>u. u \<noteq> t \<longrightarrow> sgs s' u = sgs s u)"
proof -
  note ok = sig_invD(3) [OF assms(1), of t]
  have v: "signo_of m < 32" if "m \<in> set (si_list (sgs s t))" for m by (rule sigs_ok_valid [OF ok that])
  have "\<exists>m \<in> set (si_list (sgs s t)). node_bit m AND sset \<noteq> 0"
    using sigs_ok_interest [OF ok, of sset] assms(4) v by (auto simp: sig_bit_and)
  from si_take_some [OF this] obtain ms n ns where t: "si_list (sgs s t) = ms @ n # ns" "si_take sset (si_list (sgs s t)) = Some (n, ms @ ns)"
    "node_bit n AND sset \<noteq> 0" "\<forall>m \<in> set ms. node_bit m AND sset = 0" by blast
  have nv: "signo_of n < 32" "\<And>m. m \<in> set ms \<Longrightarrow> signo_of m < 32" using v t(1) by simp_all
  note u = unlink_ok [OF assms(1) t(1)]
  let ?s = "upd_sig t (\<lambda>x. x\<lparr>si_list := ms @ ns, sig_pending := sig_pending x AND NOT (node_bit n)\<rparr>) s"
  obtain s' where s': "free_node c (fst n) ?s = Some s'" "sig_inv a s'" "sgs s' = sgs ?s"
    by (rule free_node_ok [OF u(1,2,3)])
  have "rt_signal_wait user c (Some sset) False timeout s = Some (Ret RT_EOK, Some (snd n), s')"
    using assms(2-5) t(2) s'(1) by (simp add: rt_signal_wait_def sigwait_done_def)
  moreover have "\<not> bit (sig_pending (sgs s' t)) (signo_of n)" using s'(3) nv(1) by (simp add: bit_and_iff bit_not_iff bit_sig_bit)
  moreover have "bit sset (signo_of n)" "\<forall>m \<in> set ms. \<not> bit sset (signo_of m)" using t(3,4) nv sig_bit_and(2) by blast+
  ultimately show ?thesis using s'(2,3) t(1) by (intro exI [of _ ms] exI [of _ n] exI [of _ ns] exI [of _ s']) simp
qed

theorem sigwait_takes_first_witness:
  "\<exists>s'. rt_signal_wait (\<lambda>_ _. Some) 0 (Some 0x20) False 0 demo_two = Some (Ret RT_EOK, Some \<lparr>si_signo = 5, si_code = 1, si_value = 0\<rparr>, s') \<and>
     si_list (sgs s' 1) = [(0x1004, \<lparr>si_signo = 3, si_code = 1, si_value = 0\<rparr>)]"
proof -
  have "rt_thread_self 0 (sg_kern demo_two) = Some 1" "in_thread_context 0 (sg_kern demo_two)"
    using demo_may_block(1) [THEN may_blockD(7)] demo_may_block(1) [THEN may_blockD(9)] by (simp_all add: demo_two_def demo_pool_used_def demo_pool_def)
  moreover have "\<not> bit (0x20 :: u32) 3" "sig_pending (sgs demo_two 1) AND 0x20 \<noteq> 0" by (simp_all add: bit_iff_odd demo_two_def)
  ultimately show ?thesis
    using sigwait_takes_first [OF demo_two_inv, of 0 1 "0x20" "\<lambda>_ _. Some" 0] by (auto simp: demo_two_def Cons_eq_append_conv)
qed

text \<open>C39. A thread that goes on in \<^verbatim>\<open>_signal_entry\<close> without the CPU lock and finds nothing to handle, because the signals were handled in the meantime or because the thread waits for signals, releases
  the lock that nobody took: its nesting counter becomes 65535.\<close>

theorem signal_entry_unbalanced:
  assumes "current_thread (cpus (sg_kern s) c) = Some t" "cpus_lock_nest (thr (sg_kern s) t) = 0"
    and "sig_pending (sgs s t) AND sig_mask (sgs s t) = 0 \<or> stat (thr (sg_kern s) t) AND RT_THREAD_STAT_SIGNAL_WAIT \<noteq> 0"
  shows "\<exists>s'. signal_entry user c s = Some s' \<and> cpus_lock_nest (thr (sg_kern s') t) = 65535 \<and>
    scheduler_lock_nest (thr (sg_kern s') t) = scheduler_lock_nest (thr (sg_kern s) t)"
proof -
  have "rt_thread_handle_sig user c False s = Some s"
    using assms(1,3) by (auto simp: rt_thread_handle_sig_def rt_thread_self_def)
  then show ?thesis
    using assms(1,2) by (simp add: signal_entry_def rt_thread_self_def Let_def del_stat_def rt_cpus_lock_status_restore_def)
qed

theorem signal_entry_unbalanced_witness:
  "\<exists>s'. signal_entry (\<lambda>_ _. Some) 0 demo_sig = Some s' \<and> cpus_lock_nest (thr (sg_kern s') 1) = 65535"
  using signal_entry_unbalanced [of demo_sig 0 1 "\<lambda>_ _. Some"]
  by (auto simp: demo_sig_def no_sigs_def demo_pool_def demo_object_def demo_defs)

text \<open>When a signal is sent to a thread that runs on the other CPU, the interrupt that should make that CPU look at its signals goes to the CPU of the sender and not to the one where the thread
  runs.\<close>

theorem signal_ipi_misses_target:
  assumes "sig_pending (sgs s t) AND sig_mask (sgs s t) \<noteq> 0" "stat_of (thr (sg_kern s) t) \<noteq> RT_THREAD_SUSPEND"
    and "(stat (thr (sg_kern s) t) AND RT_THREAD_STAT_SIGNAL_MASK) AND RT_THREAD_STAT_SIGNAL = 0" "rt_thread_self c (sg_kern s) \<noteq> Some t"
    and "c < 2" "c' < 2" "c \<noteq> c'" "oncpu (thr (sg_kern s) t) = of_nat c'" "irq_nest (cpus (sg_kern s) c) \<noteq> 0"
  shows "\<exists>s'. signal_deliver user c t s = Some s' \<and> ipi (sg_kern s') c \<and> ipi (sg_kern s') c' = ipi (sg_kern s) c' \<and>
    stat (thr (sg_kern s') t) AND RT_THREAD_STAT_SIGNAL_PENDING \<noteq> 0"
proof -
  have cc: "c' = 0 \<and> c = 1 \<or> c' = 1 \<and> c = 0" using assms(5-7) by linarith
  have "(x OR 0x50) AND (0x40 :: u8) \<noteq> 0" for x :: u8
  proof -
    have "bit (0x40 :: u8) 6" "bit (0x50 :: u8) 6" by (simp_all add: bit_iff_odd)
    then have "bit ((x OR 0x50) AND (0x40 :: u8)) 6" by (simp add: bit_and_iff bit_or_iff)
    then show ?thesis by auto
  qed
  with cc assms(1-4,8,9) show ?thesis
    by (auto simp: signal_deliver_def sig_schedule_def rt_schedule_def add_stat_def rt_hw_ipi_send_def bit_iff_odd Let_def)
qed

theorem signal_ipi_misses_target_witness:
  "\<exists>s'. signal_deliver (\<lambda>_ _. Some) 1 1 (set_kern (upd_cpu 1 (\<lambda>p. p\<lparr>irq_nest := 1\<rparr>) (sg_kern demo_two)) demo_two) = Some s' \<and>
     ipi (sg_kern s') 1 \<and> \<not> ipi (sg_kern s') 0"
proof -
  let ?s = "set_kern (upd_cpu 1 (\<lambda>p. p\<lparr>irq_nest := 1\<rparr>) (sg_kern demo_two)) demo_two"
  have s: "sgs ?s = sgs demo_two" "thr (sg_kern ?s) 1 = thr demo_kernel 1" "rt_thread_self 1 (sg_kern ?s) = rt_thread_self 1 demo_kernel"
    "irq_nest (cpus (sg_kern ?s) 1) \<noteq> 0" "ipi (sg_kern ?s) 0 = ipi demo_kernel 0"
    by (simp_all add: demo_two_def demo_pool_used_def demo_pool_def demo_object_def rt_thread_self_def)
  show ?thesis
    using signal_ipi_misses_target [of ?s 1 1 0 "\<lambda>_ _. Some", unfolded s]
    by (auto simp: demo_two_def rt_thread_self_def demo_defs)
qed

text \<open>A thread that had a timeout before, in another call, and has not cleared its error number is told by \<^verbatim>\<open>rt_signal_wait\<close> that the time is over although the signal it waited for is
  there: the function never resets the number before it waits.\<close>

theorem sigwait_stale_error:
  assumes "error (thr (sg_kern s) t) = - RT_ETIMEOUT"
  shows "\<exists>s'. rt_signal_wait_resume c sset t s = Some (Ret (- RT_ETIMEOUT), None, s') \<and> sgs s' = sgs s"
  using assms by (simp add: rt_signal_wait_resume_def del_stat_def)

end
