(* ===== verification/Idle.thy ===== *)
theory Idle
  imports Signal
begin

text \<open>
  The idle thread (\<^verbatim>\<open>src/idle.c\<close>): it calls the hooks, and it takes the threads that have ended off the list of defunct threads, calls their cleanup functions, frees their signal data and
  their stacks and deletes their objects. \<open>user\<close> is what a cleanup function or a hook does. The list is read inside the critical section, so the second test for an empty list is the first
  one again. The CPU lock is written out, because \<^verbatim>\<open>rt_exit_critical\<close> looks at its nesting.
\<close>

section \<open>Hooks\<close>

text \<open>The four entries of \<^verbatim>\<open>idle_hook_list\<close>; the loops look for the first entry with a value.\<close>

fun replace_first :: "'a \<Rightarrow> 'a \<Rightarrow> 'a list \<Rightarrow> 'a list option" where
  "replace_first x y [] = None"
| "replace_first x y (z # zs) = (if z = x then Some (y # zs) else map_option ((#) z) (replace_first x y zs))"

abbreviation (input) RT_IDLE_HOOK_LIST_SIZE :: nat where "RT_IDLE_HOOK_LIST_SIZE \<equiv> 4"

type_synonym idle_hooks = "nat option list"

definition rt_thread_idle_sethook :: "nat option \<Rightarrow> idle_hooks \<Rightarrow> rt_err_t \<times> idle_hooks" where
  "rt_thread_idle_sethook hook hs = (case replace_first None hook hs of None \<Rightarrow> (- RT_EFULL, hs) | Some hs' \<Rightarrow> (RT_EOK, hs'))"

definition rt_thread_idle_delhook :: "nat option \<Rightarrow> idle_hooks \<Rightarrow> rt_err_t \<times> idle_hooks" where
  "rt_thread_idle_delhook hook hs = (case replace_first hook None hs of None \<Rightarrow> (- RT_ENOSYS, hs) | Some hs' \<Rightarrow> (RT_EOK, hs'))"

section \<open>Ended threads\<close>

type_synonym cleanup_fn = "code_ptr \<Rightarrow> nat \<Rightarrow> sig_state \<Rightarrow> sig_state option"

definition map_kern :: "(kernel \<Rightarrow> kernel) \<Rightarrow> sig_state \<Rightarrow> sig_state" where
  "map_kern f s = set_kern (f (sg_kern s)) s"

text \<open>The critical section of one round, for the first thread of the list; it returns whether the thread is a static one, which is only detached.\<close>

definition reap :: "cleanup_fn \<Rightarrow> nat \<Rightarrow> nat \<Rightarrow> sig_state \<Rightarrow> (bool \<times> sig_state) option" where
  "reap user c t s = do {
     let s1 = map_kern (rt_enter_critical c \<circ> tlist_remove t \<circ> rt_cpus_lock c) s;
     s2 \<leftarrow> (case cleanup (thr (sg_kern s1) t) of None \<Rightarrow> Some s1 | Some f \<Rightarrow> user f t s1);
     s3 \<leftarrow> rt_thread_free_sig c t s2;
     let static = rt_object_is_systemobject (Obj t) (sg_kern s3);
     let s4 = (if static then map_kern (rt_object_detach (Obj t)) s3 else s3);
     k \<leftarrow> rt_exit_critical c (sg_kern s4);
     Some (static, set_kern (rt_cpus_unlock c k) s4) }"

definition free_thread :: "nat \<Rightarrow> nat \<Rightarrow> sig_state \<Rightarrow> sig_state option" where
  "free_thread c t s = do {
     let stack = stack_addr (thr (sg_kern s) t);
     h \<leftarrow> rt_free (irq_nest (cpus (sg_kern s) c) \<noteq> 0) (if stack = 0 then None else Some (of_nat stack)) (heap (sg_pool s));
     k \<leftarrow> rt_object_delete (Obj t) (sg_kern s);
     Some (set_kern k (s\<lparr>sg_pool := (sg_pool s)\<lparr>heap := h\<rparr>\<rparr>)) }"

partial_function (option) rt_thread_idle_excute :: "cleanup_fn \<Rightarrow> nat \<Rightarrow> sig_state \<Rightarrow> sig_state option" where
  "rt_thread_idle_excute user c s =
     (case tlists (sg_kern s) Defunct of
        [] \<Rightarrow> Some s
      | t # _ \<Rightarrow> do {
          rt_assert (not_in_interrupt c (sg_kern s));
          (static, s1) \<leftarrow> reap user c t s;
          if static then Some s1
          else do {
            s2 \<leftarrow> free_thread c t s1;
            rt_thread_idle_excute user c s2 } })"

section \<open>The thread itself\<close>

fun call_hooks :: "(nat \<Rightarrow> sig_state \<Rightarrow> sig_state option) \<Rightarrow> idle_hooks \<Rightarrow> sig_state \<Rightarrow> sig_state option" where
  "call_hooks user [] s = Some s"
| "call_hooks user (h # hs) s = do {
     s1 \<leftarrow> (case h of None \<Rightarrow> Some s | Some f \<Rightarrow> user f s);
     call_hooks user hs s1 }"

text \<open>One round of the endless loop of \<^verbatim>\<open>rt_thread_idle_entry\<close> on CPU 0; the other CPU only waits for interrupts.\<close>

definition idle_round ::
    "(nat \<Rightarrow> sig_state \<Rightarrow> sig_state option) \<Rightarrow> cleanup_fn \<Rightarrow> nat \<Rightarrow> idle_hooks \<Rightarrow> sig_state \<Rightarrow> sig_state option" where
  "idle_round hook user c hs s =
     (if c \<noteq> 0 then Some s
      else do {
        s1 \<leftarrow> call_hooks hook hs s;
        rt_thread_idle_excute user c s1 })"

text \<open>\<open>idle\<close> and \<open>stack\<close> are the addresses of the static threads and their stacks; \<open>ent\<close> is \<^verbatim>\<open>rt_thread_idle_entry\<close>.\<close>

definition idle_init_one :: "(nat \<Rightarrow> nat) \<Rightarrow> (nat \<Rightarrow> nat) \<Rightarrow> code_ptr \<Rightarrow> nat \<Rightarrow> nat \<Rightarrow> kernel \<Rightarrow> kernel option" where
  "idle_init_one idle stack ent c i k = do {
     k1 \<leftarrow> rt_thread_init (idle i) (''tidle'' @ [char_of (48 + i)]) ent 0 (stack i) 1024 31 32 k;
     (_, k2) \<leftarrow> rt_thread_control c (idle i) (Ctrl_bind_cpu (of_nat i)) k1;
     rt_thread_startup c (idle i) k2 }"

definition rt_thread_idle_init :: "(nat \<Rightarrow> nat) \<Rightarrow> (nat \<Rightarrow> nat) \<Rightarrow> code_ptr \<Rightarrow> nat \<Rightarrow> kernel \<Rightarrow> kernel option" where
  "rt_thread_idle_init idle stack ent c k = do {
     k1 \<leftarrow> idle_init_one idle stack ent c 0 k;
     idle_init_one idle stack ent c 1 k1 }"

definition rt_thread_idle_gethandler :: "(nat \<Rightarrow> nat) \<Rightarrow> nat \<Rightarrow> nat" where
  "rt_thread_idle_gethandler idle c = idle c"

section \<open>Critical sections inside the lock\<close>

lemma exit_inside_lock:
  assumes "current_thread (cpus k c) = Some i" "scheduler_lock_nest (thr k i) \<noteq> 0"
    and "thr k' = thr (rt_enter_critical c k)" "cpus k' = cpus k"
  shows "rt_exit_critical c k' = Some (k'\<lparr>thr := thr k\<rparr>)"
proof -
  have "thr (upd_thr i (\<lambda>x. x\<lparr>scheduler_lock_nest := scheduler_lock_nest x - 1, critical_lock_nest := critical_lock_nest x - 1\<rparr>) k') = thr k"
    using assms(1,3) by (auto simp: rt_enter_critical_def fun_eq_iff)
  then have "upd_thr i (\<lambda>x. x\<lparr>scheduler_lock_nest := scheduler_lock_nest x - 1, critical_lock_nest := critical_lock_nest x - 1\<rparr>) k' = k'\<lparr>thr := thr k\<rparr>"
    by simp
  then show ?thesis using assms(1,2,4) by (simp add: rt_exit_critical_def Let_def)
qed

lemma unlock_restores:
  assumes "current_thread (cpus k c) = Some i" "cpus_lock_nest (thr k i) \<noteq> - 1" "thr k' = thr (rt_cpus_lock c k)" "cpus k' = cpus k"
  shows "rt_cpus_unlock c k' = k'\<lparr>thr := thr k\<rparr>"
proof -
  have "thr (rt_cpus_unlock c k') = thr (rt_cpus_unlock c (rt_cpus_lock c k))"
    using assms(1,3,4) by (simp add: rt_cpus_unlock_def rt_cpus_lock_def Let_def)
  also have "\<dots> = thr k" using cpus_lock_unlock [of k c] assms(1,2) by simp
  finally have "thr (rt_cpus_unlock c k') = thr k" .
  moreover have "rt_cpus_unlock c k' = k'\<lparr>thr := thr (rt_cpus_unlock c k')\<rparr>"
    using assms(1,4) by (simp add: rt_cpus_unlock_def Let_def)
  ultimately show ?thesis by simp
qed

text \<open>The state in which the idle thread \<open>i\<close> looks at the list of CPU \<open>c\<close>.\<close>

definition idle_running :: "nat \<Rightarrow> nat \<Rightarrow> kernel \<Rightarrow> bool" where
  "idle_running c i k \<longleftrightarrow> current_thread (cpus k c) = Some i \<and> irq_nest (cpus k c) = 0 \<and> cpus_lock_nest (thr k i) = 0 \<and>
     scheduler_lock_nest (thr k i) = 0 \<and> tlists_ok (tlists k)"

text \<open>What is freed with an ended thread: its handler table, and its stack unless it is static.\<close>

definition freed :: "sig_state \<Rightarrow> nat \<Rightarrow> u32 list" where
  "freed s t = (case sig_vectors (sgs s t) of None \<Rightarrow> [] | Some (v, _) \<Rightarrow> [v]) @
     (if rt_object_is_systemobject (Obj t) (sg_kern s) then [] else [of_nat (stack_addr (thr (sg_kern s) t))])"

fun reaped :: "(nat \<Rightarrow> bool) \<Rightarrow> nat list \<Rightarrow> nat list" where
  "reaped static [] = []"
| "reaped static (t # ts) = (if static t then [t] else t # reaped static ts)"

lemma free_start:
  assumes "heap_ok h" "p \<in> fst ` set (regions h)"
  obtains h' where "rt_free False (Some p) h = Some h'" "heap_ok h'" "bytes h' = bytes h" "fst ` set (regions h') = fst ` set (regions h) - {p}"
proof -
  obtain n where n: "(p, n) \<in> set (regions h)" using assms(2) by force
  obtain h' where h': "rt_free False (Some p) h = Some h'" "heap_ok h'" "same_memory h h'" "regions h' = remove1 (p, n) (regions h)"
    by (rule free_on_regions [OF assms(1) n]) blast
  have "set (regions h') = set (regions h) - {(p, n)}" using h'(4) regions_distinct [OF assms(1)] by simp
  then have "fst ` set (regions h') = fst ` set (regions h) - {p}" using heap_store.starts_removed [OF assms(1) n] by simp
  then show ?thesis using that [of h'] h'(1-3) by (simp add: same_memory_def)
qed

abbreviation set_heap :: "sys_heap \<Rightarrow> sig_state \<Rightarrow> sig_state" where
  "set_heap h s \<equiv> s\<lparr>sg_pool := (sg_pool s)\<lparr>heap := h\<rparr>\<rparr>"

abbreviation table_start :: "sig_state \<Rightarrow> nat \<Rightarrow> u32 set" where
  "table_start s t \<equiv> (case sig_vectors (sgs s t) of None \<Rightarrow> {} | Some (v, _) \<Rightarrow> {v})"

lemma free_sig_table:
  assumes "irq_nest (cpus (sg_kern s) c) = 0" "si_list (sgs s t) = []" "heap_ok (heap (sg_pool s))"
    and "table_start s t \<subseteq> fst ` set (regions (heap (sg_pool s)))"
  obtains h where "heap_ok h" "bytes h = bytes (heap (sg_pool s))"
    "fst ` set (regions h) = fst ` set (regions (heap (sg_pool s))) - table_start s t"
    "rt_thread_free_sig c t s = Some (upd_sig t (\<lambda>x. x\<lparr>sig_vectors := None\<rparr>) (set_heap h s))"
proof -
  have e: "(sgs s t)\<lparr>si_list := [], sig_vectors := None\<rparr> = (sgs s t)\<lparr>sig_vectors := None\<rparr>"
    by (rule thread_sigs.equality) (simp_all add: assms(2))
  show ?thesis
  proof (cases "sig_vectors (sgs s t)")
    case None
    have "rt_thread_free_sig c t s = Some (upd_sig t (\<lambda>x. x\<lparr>sig_vectors := None\<rparr>) (set_heap (heap (sg_pool s)) s))"
      using assms(2) None by (simp add: rt_thread_free_sig_def upd_sig_def e)
    with that None assms(3) show ?thesis by simp
  next
    case (Some p)
    obtain v vs where p: "p = (v, vs)" by (cases p)
    have "v \<in> fst ` set (regions (heap (sg_pool s)))" using assms(4) Some p by simp
    with assms(3) obtain h where h: "rt_free False (Some v) (heap (sg_pool s)) = Some h" "heap_ok h" "bytes h = bytes (heap (sg_pool s))"
      "fst ` set (regions h) = fst ` set (regions (heap (sg_pool s))) - {v}" by (rule free_start)
    have "rt_thread_free_sig c t s = Some (upd_sig t (\<lambda>x. x\<lparr>sig_vectors := None\<rparr>) (set_heap h s))"
      using assms(1,2) Some p h(1) by (simp add: rt_thread_free_sig_def upd_sig_def Let_def e)
    with that h Some p show ?thesis by simp
  qed
qed

lemma reap_ok:
  assumes "idle_running c i (sg_kern s)" "t \<noteq> i" "cleanup (thr (sg_kern s) t) = None" "si_list (sgs s t) = []"
    and "heap_ok (heap (sg_pool s))" "table_start s t \<subseteq> fst ` set (regions (heap (sg_pool s)))"
  defines "static \<equiv> rt_object_is_systemobject (Obj t) (sg_kern s)"
  obtains h where "heap_ok h" "bytes h = bytes (heap (sg_pool s))"
    "fst ` set (regions h) = fst ` set (regions (heap (sg_pool s))) - table_start s t"
    "reap user c t s = Some (static, upd_sig t (\<lambda>x. x\<lparr>sig_vectors := None\<rparr>)
       (set_heap h (set_kern ((if static then rt_object_detach (Obj t) else id) (tlist_remove t (sg_kern s))) s)))"
proof -
  let ?k = "sg_kern s"
  let ?k1 = "tlist_remove t (rt_cpus_lock c ?k)" let ?s1 = "set_kern (rt_enter_critical c ?k1) s"
  note r = assms(1) [unfolded idle_running_def]
  have k1: "cpus ?k1 = cpus ?k" "thr ?k1 = thr (rt_cpus_lock c ?k)" "scheduler_lock_nest (thr ?k1 i) = 1"
    using r by (simp_all add: rt_cpus_lock_def tlist_remove_def Let_def)
  have s1: "irq_nest (cpus (sg_kern ?s1) c) = 0" "thr (sg_kern ?s1) t = thr ?k t" "obj (sg_kern ?s1) = obj ?k"
    using r assms(2) by (simp_all add: rt_enter_critical_def rt_cpus_lock_def tlist_remove_def Let_def)
  obtain h where h: "heap_ok h" "bytes h = bytes (heap (sg_pool s))" "fst ` set (regions h) = fst ` set (regions (heap (sg_pool s))) - table_start s t"
    "rt_thread_free_sig c t ?s1 = Some (upd_sig t (\<lambda>x. x\<lparr>sig_vectors := None\<rparr>) (set_heap h ?s1))"
    using free_sig_table [OF s1(1)] assms(4-6) by (simp add: set_kern_def) metis
  let ?f = "if static then rt_object_detach (Obj t) else id"
  let ?k2 = "?f (rt_enter_critical c ?k1)"
  have f: "cpus (?f x) = cpus x" "thr (?f x) = thr x" "?f (x\<lparr>thr := y\<rparr>) = (?f x)\<lparr>thr := y\<rparr>" for x :: kernel and y
    by (simp_all add: rt_object_detach_def container_remove_def)
  have "rt_exit_critical c ?k2 = Some (?k2\<lparr>thr := thr ?k1\<rparr>)"
    by (rule exit_inside_lock [of ?k1 c i]) (use r k1 f in \<open>simp_all add: rt_enter_critical_def\<close>)
  moreover have "rt_cpus_unlock c (?k2\<lparr>thr := thr ?k1\<rparr>) = ?k2\<lparr>thr := thr ?k\<rparr>"
    using unlock_restores [of ?k c i "?k2\<lparr>thr := thr ?k1\<rparr>"] r k1 f by (simp add: rt_enter_critical_def)
  moreover have "(rt_enter_critical c ?k1)\<lparr>thr := thr ?k\<rparr> = tlist_remove t ?k"
    using r by (simp add: rt_enter_critical_def rt_cpus_lock_def tlist_remove_def Let_def)
  then have "?k2\<lparr>thr := thr ?k\<rparr> = ?f (tlist_remove t ?k)" using f(3) by metis
  ultimately have x: "\<exists>k. rt_exit_critical c ?k2 = Some k \<and> rt_cpus_unlock c k = ?f (tlist_remove t ?k)" by simp
  have st: "rt_object_is_systemobject (Obj t) (rt_enter_critical c ?k1) = static"
    using s1(3) by (simp add: static_def rt_object_is_systemobject_def)
  have "reap user c t s = Some (static, upd_sig t (\<lambda>x. x\<lparr>sig_vectors := None\<rparr>) (set_heap h (set_kern (?f (tlist_remove t ?k)) s)))"
    using x h(4) s1(2) assms(3) st
    by (auto simp: reap_def map_kern_def set_kern_def upd_sig_def Let_def split: if_splits)
  with that h show ?thesis by blast
qed

lemma free_thread_ok:
  assumes "idle_running c i (sg_kern s)" "heap_ok (heap (sg_pool s))" "stack_addr (thr (sg_kern s) t) \<noteq> 0"
    and "of_nat (stack_addr (thr (sg_kern s) t)) \<in> fst ` set (regions (heap (sg_pool s)))" "\<not> rt_object_is_systemobject (Obj t) (sg_kern s)"
  obtains h where "heap_ok h" "bytes h = bytes (heap (sg_pool s))"
    "fst ` set (regions h) = fst ` set (regions (heap (sg_pool s))) - {of_nat (stack_addr (thr (sg_kern s) t))}"
    "free_thread c t s = Some (set_heap h (set_kern (rt_object_detach (Obj t) (sg_kern s)) s))"
proof -
  obtain h where h: "rt_free False (Some (of_nat (stack_addr (thr (sg_kern s) t)))) (heap (sg_pool s)) = Some h" "heap_ok h"
    "bytes h = bytes (heap (sg_pool s))" "fst ` set (regions h) = fst ` set (regions (heap (sg_pool s))) - {of_nat (stack_addr (thr (sg_kern s) t))}"
    by (rule free_start [OF assms(2,4)])
  have "free_thread c t s = Some (set_heap h (set_kern (rt_object_detach (Obj t) (sg_kern s)) s))"
    using h(1) assms(1,3,5) by (simp add: free_thread_def idle_running_def rt_object_delete_def rt_object_is_systemobject_def rt_object_detach_def Let_def set_kern_def)
  with that h show ?thesis by blast
qed

lemma reaped_cong: "(\<And>t. t \<in> set ts \<Longrightarrow> f t = g t) \<Longrightarrow> reaped f ts = reaped g ts"
  by (induction ts) auto

lemma freed_cong:
  "sgs s' t = sgs s t \<Longrightarrow> thr (sg_kern s') t = thr (sg_kern s) t \<Longrightarrow> obj (sg_kern s') (Obj t) = obj (sg_kern s) (Obj t) \<Longrightarrow> freed s' t = freed s t"
  by (simp add: freed_def rt_object_is_systemobject_def)

lemma tlists_ok_first:
  assumes "tlists_ok A" "A l = t # ts"
  shows "distinct ts" "t \<notin> set ts" "m \<noteq> l \<Longrightarrow> t \<notin> set (A m)" "m \<noteq> l \<Longrightarrow> set ts \<inter> set (A m) = {}"
proof -
  have d: "distinct (t # ts)" using assms by (metis tlists_ok_def)
  then show "distinct ts" "t \<notin> set ts" by simp_all
  show "t \<notin> set (A m)" "set ts \<inter> set (A m) = {}" if "m \<noteq> l"
  proof -
    have "set (A l) \<inter> set (A m) = {}" using assms(1) that unfolding tlists_ok_def by metis
    then show "t \<notin> set (A m)" "set ts \<inter> set (A m) = {}" by (simp_all add: assms(2))
  qed
qed

lemma remove_first:
  assumes "tlists_ok A" "A l = t # ts"
  shows "(\<lambda>m. removeAll t (A m)) = A(l := ts)" "tlists_ok (A(l := ts))"
proof -
  note f = tlists_ok_first [OF assms]
  show "(\<lambda>m. removeAll t (A m)) = A(l := ts)" using f(2,3) assms(2) by (auto simp: fun_eq_iff)
  have "distinct (A m)" "m \<noteq> n \<Longrightarrow> set (A m) \<inter> set (A n) = {}" for m n using assms(1) unfolding tlists_ok_def by metis+
  with f(1,4) show "tlists_ok (A(l := ts))" unfolding tlists_ok_def by (auto simp: Int_commute)
qed

text \<open>A thread on the list that the idle thread can free without running anything of the user.\<close>

definition defunct_ok :: "nat \<Rightarrow> sig_state \<Rightarrow> nat \<Rightarrow> bool" where
  "defunct_ok i s t \<longleftrightarrow> t \<noteq> i \<and> cleanup (thr (sg_kern s) t) = None \<and> si_list (sgs s t) = [] \<and>
     (rt_object_is_systemobject (Obj t) (sg_kern s) \<or> stack_addr (thr (sg_kern s) t) \<noteq> 0)"

abbreviation static_in :: "sig_state \<Rightarrow> nat \<Rightarrow> bool" where
  "static_in s t \<equiv> rt_object_is_systemobject (Obj t) (sg_kern s)"

definition reap_all :: "sig_state \<Rightarrow> nat list" where
  "reap_all s = reaped (static_in s) (tlists (sg_kern s) Defunct)"

text \<open>The state after a call that reaped the threads \<open>rs\<close> of the list \<open>ts\<close>.\<close>

definition reaped_state :: "nat list \<Rightarrow> nat list \<Rightarrow> sig_state \<Rightarrow> sig_state \<Rightarrow> bool" where
  "reaped_state rs ts s s' \<longleftrightarrow> heap_ok (heap (sg_pool s')) \<and> bytes (heap (sg_pool s')) = bytes (heap (sg_pool s)) \<and>
     fst ` set (regions (heap (sg_pool s'))) = fst ` set (regions (heap (sg_pool s))) - set (concat (map (freed s) rs)) \<and>
     tlists (sg_kern s') = (tlists (sg_kern s))(Defunct := drop (length rs) ts) \<and>
     containers (sg_kern s') = (\<lambda>x. filter (\<lambda>y. y \<notin> Obj ` set rs) (containers (sg_kern s) x)) \<and>
     thr (sg_kern s') = thr (sg_kern s) \<and> cpus (sg_kern s') = cpus (sg_kern s)"

lemma detach_simps [simp]:
  "thr (rt_object_detach x k) = thr k" "cpus (rt_object_detach x k) = cpus k" "tlists (rt_object_detach x k) = tlists k"
  "containers (rt_object_detach x k) = (\<lambda>c. removeAll x (containers k c))" "y \<noteq> x \<Longrightarrow> obj (rt_object_detach x k) y = obj k y"
  by (simp_all add: rt_object_detach_def container_remove_def)

lemma removeAll_Obj: "removeAll (Obj t) xs = filter (\<lambda>y. y \<noteq> Obj t) xs"
  by (induction xs) auto

lemma reap_static:
  assumes "idle_running c i (sg_kern s)" "tlists (sg_kern s) Defunct = t # ts" "heap_ok (heap (sg_pool s))" "defunct_ok i s t"
    and "set (freed s t) \<subseteq> fst ` set (regions (heap (sg_pool s)))" "static_in s t"
  shows "\<exists>s'. rt_thread_idle_excute user c s = Some s' \<and> reaped_state [t] (t # ts) s s'"
proof -
  note d = assms(4) [unfolded defunct_ok_def] and r = assms(1) [unfolded idle_running_def]
  have f: "set (freed s t) = table_start s t" using assms(6) by (simp add: freed_def split: option.split)
  obtain h where h: "heap_ok h" "bytes h = bytes (heap (sg_pool s))" "fst ` set (regions h) = fst ` set (regions (heap (sg_pool s))) - table_start s t"
    "reap user c t s = Some (True, upd_sig t (\<lambda>x. x\<lparr>sig_vectors := None\<rparr>)
       (set_heap h (set_kern (rt_object_detach (Obj t) (tlist_remove t (sg_kern s))) s)))"
    using reap_ok [OF assms(1) _ _ _ assms(3), of t user] d assms(5,6) f by auto
  let ?s = "upd_sig t (\<lambda>x. x\<lparr>sig_vectors := None\<rparr>) (set_heap h (set_kern (rt_object_detach (Obj t) (tlist_remove t (sg_kern s))) s))"
  have "rt_thread_idle_excute user c s = Some ?s"
    using h(4) assms(2) r by (subst rt_thread_idle_excute.simps) (simp add: not_in_interrupt_def)
  moreover have "reaped_state [t] (t # ts) s ?s"
    using h(1-3) f remove_first(1) [of "tlists (sg_kern s)" Defunct t ts] r assms(2)
    by (simp add: reaped_state_def tlist_remove_def removeAll_Obj)
  ultimately show ?thesis by blast
qed

lemma reap_dynamic:
  assumes "idle_running c i (sg_kern s)" "tlists (sg_kern s) Defunct = t # ts" "heap_ok (heap (sg_pool s))" "defunct_ok i s t"
    and "set (freed s t) \<subseteq> fst ` set (regions (heap (sg_pool s)))" "distinct (freed s t)" "\<not> static_in s t"
  obtains s1 where "rt_thread_idle_excute user c s = rt_thread_idle_excute user c s1" "reaped_state [t] (t # ts) s s1"
    "\<And>u. u \<noteq> t \<Longrightarrow> sgs s1 u = sgs s u" "\<And>u. u \<noteq> t \<Longrightarrow> obj (sg_kern s1) (Obj u) = obj (sg_kern s) (Obj u)"
proof -
  note d = assms(4) [unfolded defunct_ok_def] and r = assms(1) [unfolded idle_running_def]
  let ?stack = "of_nat (stack_addr (thr (sg_kern s) t)) :: u32"
  have f: "set (freed s t) = insert ?stack (table_start s t)" "?stack \<notin> table_start s t"
    using assms(6,7) by (auto simp: freed_def split: option.splits)
  obtain h where h: "heap_ok h" "bytes h = bytes (heap (sg_pool s))" "fst ` set (regions h) = fst ` set (regions (heap (sg_pool s))) - table_start s t"
    "reap user c t s = Some (False, upd_sig t (\<lambda>x. x\<lparr>sig_vectors := None\<rparr>) (set_heap h (set_kern (tlist_remove t (sg_kern s)) s)))"
    using reap_ok [OF assms(1) _ _ _ assms(3), of t user] d assms(5,7) f by auto
  let ?s = "upd_sig t (\<lambda>x. x\<lparr>sig_vectors := None\<rparr>) (set_heap h (set_kern (tlist_remove t (sg_kern s)) s))"
  have k: "sg_kern ?s = tlist_remove t (sg_kern s)" "heap (sg_pool ?s) = h" by simp_all
  have tl: "tlists (tlist_remove t (sg_kern s)) = (tlists (sg_kern s))(Defunct := ts)"
    using remove_first(1) [of "tlists (sg_kern s)" Defunct t ts] r assms(2) by (simp add: tlist_remove_def)
  have run: "idle_running c i (sg_kern ?s)"
    unfolding k using r tl remove_first(2) [of "tlists (sg_kern s)" Defunct t ts] assms(2) by (simp add: idle_running_def)
  have st: "stack_addr (thr (sg_kern ?s) t) = stack_addr (thr (sg_kern s) t)" "\<not> static_in ?s t"
    using assms(7) by (simp_all add: tlist_remove_def rt_object_is_systemobject_def)
  obtain h1 where h1: "heap_ok h1" "bytes h1 = bytes h" "fst ` set (regions h1) = fst ` set (regions h) - {?stack}"
    "free_thread c t ?s = Some (set_heap h1 (set_kern (rt_object_detach (Obj t) (sg_kern ?s)) ?s))"
    using free_thread_ok [OF run, of t] h(1,3) d assms(5,7) f st by (auto simp: k)
  let ?s1 = "set_heap h1 (set_kern (rt_object_detach (Obj t) (sg_kern ?s)) ?s)"
  have "rt_thread_idle_excute user c s = rt_thread_idle_excute user c ?s1"
    using h(4) h1(4) assms(2) r by (subst rt_thread_idle_excute.simps) (simp add: not_in_interrupt_def)
  moreover have "reaped_state [t] (t # ts) s ?s1"
    using h(2,3) h1(1-3) f tl by (auto simp: reaped_state_def removeAll_Obj) (simp_all add: tlist_remove_def)
  ultimately show ?thesis using that [of ?s1] by (simp add: tlist_remove_def)
qed

lemma reaped_state_trans:
  assumes "reaped_state [t] (t # ts) s s1" "reaped_state rs ts s1 s'" "\<And>u. u \<in> set rs \<Longrightarrow> freed s1 u = freed s u"
  shows "reaped_state (t # rs) (t # ts) s s'"
proof -
  have "map (freed s1) rs = map (freed s) rs" using assms(3) by simp
  then show ?thesis using assms(1,2) by (auto simp: reaped_state_def filter_filter intro!: filter_cong)
qed

lemma idle_excute_ok:
  assumes "idle_running c i (sg_kern s)" "tlists (sg_kern s) Defunct = ts" "heap_ok (heap (sg_pool s))" "\<forall>t \<in> set ts. defunct_ok i s t"
    and "distinct (concat (map (freed s) ts))" "set (concat (map (freed s) ts)) \<subseteq> fst ` set (regions (heap (sg_pool s)))"
  shows "\<exists>s'. rt_thread_idle_excute user c s = Some s' \<and> reaped_state (reaped (static_in s) ts) ts s s'"
  using assms
proof (induction ts arbitrary: s)
  case Nil
  then show ?case by (subst rt_thread_idle_excute.simps) (simp add: reaped_state_def fun_upd_idem)
next
  case (Cons t ts)
  show ?case
  proof (cases "static_in s t")
    case True
    then show ?thesis using reap_static [OF Cons.prems(1-3)] Cons.prems(4,6) by simp
  next
    case False
    obtain s1 where s1: "rt_thread_idle_excute user c s = rt_thread_idle_excute user c s1" "reaped_state [t] (t # ts) s s1"
      "\<And>u. u \<noteq> t \<Longrightarrow> sgs s1 u = sgs s u" "\<And>u. u \<noteq> t \<Longrightarrow> obj (sg_kern s1) (Obj u) = obj (sg_kern s) (Obj u)"
      using reap_dynamic [OF Cons.prems(1-3) _ _ _ False] Cons.prems(4-6) by auto
    note r = s1(2) [unfolded reaped_state_def] and run = Cons.prems(1) [unfolded idle_running_def]
    have new: "u \<noteq> t" if "u \<in> set ts" for u using that tlists_ok_first(2) [of _ Defunct t ts] run Cons.prems(2) by blast
    have same: "freed s1 u = freed s u" "static_in s1 u = static_in s u" "defunct_ok i s1 u = defunct_ok i s u" if "u \<in> set ts" for u
    proof -
      have o: "obj (sg_kern s1) (Obj u) = obj (sg_kern s) (Obj u)" "sgs s1 u = sgs s u" using s1(3,4) new [OF that] by auto
      then show "freed s1 u = freed s u" using r by (intro freed_cong) simp_all
      show "static_in s1 u = static_in s u" using o by (simp add: rt_object_is_systemobject_def)
      then show "defunct_ok i s1 u = defunct_ok i s u" using o r by (simp add: defunct_ok_def)
    qed
    have m: "map (freed s1) ts = map (freed s) ts" "reaped (static_in s1) ts = reaped (static_in s) ts"
      using same(1,2) by (simp_all cong: reaped_cong)
    have "idle_running c i (sg_kern s1)"
      using run r remove_first(2) [of "tlists (sg_kern s)" Defunct t ts] Cons.prems(2) by (simp add: idle_running_def)
    moreover have "set (concat (map (freed s) ts)) \<subseteq> fst ` set (regions (heap (sg_pool s1)))" using Cons.prems(5,6) r by auto
    ultimately obtain s' where s': "rt_thread_idle_excute user c s1 = Some s'" "reaped_state (reaped (static_in s) ts) ts s1 s'"
      using Cons.IH [of s1] r Cons.prems(2,4,5) same(3) by (auto simp: m)
    have sub: "set (reaped f xs) \<subseteq> set xs" for f and xs :: "nat list" by (induction xs) auto
    have "reaped_state (t # reaped (static_in s) ts) (t # ts) s s'"
      by (rule reaped_state_trans [OF s1(2) s'(2)]) (use same(1) sub in blast)
    then show ?thesis using s1(1) s'(1) False by simp
  qed
qed

section \<open>Properties\<close>

text \<open>A hook can be set while an entry is free, is called from then on, and deleting it restores the list.\<close>

lemma replace_first_some: "x \<in> set zs \<Longrightarrow> y \<notin> set zs \<Longrightarrow> \<exists>zs'. replace_first x y zs = Some zs' \<and> replace_first y x zs' = Some zs \<and> y \<in> set zs' \<and> length zs' = length zs"
  by (induction zs) auto

lemma replace_first_none: "x \<notin> set zs \<Longrightarrow> replace_first x y zs = None"
  by (induction zs) auto

theorem idle_hook_roundtrip:
  assumes "Some f \<notin> set hs"
  shows "if None \<in> set hs
    then \<exists>hs'. rt_thread_idle_sethook (Some f) hs = (RT_EOK, hs') \<and> Some f \<in> set hs' \<and> length hs' = length hs \<and> rt_thread_idle_delhook (Some f) hs' = (RT_EOK, hs)
    else rt_thread_idle_sethook (Some f) hs = (- RT_EFULL, hs) \<and> rt_thread_idle_delhook (Some f) hs = (- RT_ENOSYS, hs)"
proof (cases "None \<in> set hs")
  case True
  then obtain hs' where "replace_first None (Some f) hs = Some hs'" "replace_first (Some f) None hs' = Some hs" "Some f \<in> set hs'" "length hs' = length hs"
    using replace_first_some [OF _ assms, of None] by blast
  with True show ?thesis by (simp add: rt_thread_idle_sethook_def rt_thread_idle_delhook_def)
next
  case False
  with assms show ?thesis by (simp add: rt_thread_idle_sethook_def rt_thread_idle_delhook_def replace_first_none)
qed



end
