(* ===== verification/Startup.thy ===== *)
theory Startup
  imports Idle SpsInitProps
begin

text \<open>
  The start of the system (\<^verbatim>\<open>src/components.c\<close>): the order in which the kernel is initialised, the main thread, and the components initialised by tables that the linker makes, which are
  lists of functions here. The initialisation of the board is a parameter; it also sets up the heap. The kernel threads and their stacks are static, at addresses that are arguments.
\<close>

section \<open>Operations\<close>

text \<open>The table between two marks, called in order; what the functions return is not looked at.\<close>

fun call_table :: "('s \<Rightarrow> (int \<times> 's) option) list \<Rightarrow> 's \<Rightarrow> 's option" where
  "call_table [] s = Some s"
| "call_table (f # fs) s = do { (_, s1) \<leftarrow> f s; call_table fs s1 }"

definition rt_components_board_init :: "('s \<Rightarrow> (int \<times> 's) option) list \<Rightarrow> 's \<Rightarrow> 's option" where
  "rt_components_board_init board_table s = call_table board_table s"

definition rt_components_init :: "('s \<Rightarrow> (int \<times> 's) option) list \<Rightarrow> 's \<Rightarrow> 's option" where
  "rt_components_init init_table s = call_table init_table s"

definition main_thread_entry :: "('s \<Rightarrow> (int \<times> 's) option) list \<Rightarrow> ('s \<Rightarrow> 's option) \<Rightarrow> ('s \<Rightarrow> 'r option) \<Rightarrow> 's \<Rightarrow> 'r option" where
  "main_thread_entry init_table secondary_cpu_up app_main s = do {
     s1 \<leftarrow> rt_components_init init_table s;
     s2 \<leftarrow> secondary_cpu_up s1;
     app_main s2 }"

definition rt_application_init :: "nat \<Rightarrow> code_ptr \<Rightarrow> nat option \<Rightarrow> nat option \<Rightarrow> kernel \<Rightarrow> kernel option" where
  "rt_application_init c ent malloc ms k = do {
     (tid, k1) \<leftarrow> rt_thread_create c ''main'' ent 0 2048 10 20 malloc ms k;
     t \<leftarrow> tid;
     rt_thread_startup c t k1 }"

text \<open>What start-up gets from the linker and from the allocator.\<close>

record boot_env =
  be_pool :: "nat option"
  be_main :: "nat option"
  be_stack :: "nat option"
  be_entry :: code_ptr
  be_timer_stack :: nat
  be_idle :: "nat \<Rightarrow> nat"
  be_idle_stack :: "nat \<Rightarrow> nat"
  be_idle_entry :: code_ptr

definition rtthread_startup :: "boot_env \<Rightarrow> (sig_state \<Rightarrow> sig_state option) \<Rightarrow> nat \<Rightarrow> sig_state \<Rightarrow> sig_state option" where
  "rtthread_startup e rt_hw_board_init c s = do {
     s1 \<leftarrow> rt_hw_board_init (map_kern (rt_cpus_lock c) s);
     let s2 = map_kern (rt_system_scheduler_init \<circ> rt_system_timer_init) s1;
     (_, s3) \<leftarrow> rt_system_signal_init c None (be_pool e) s2;
     k4 \<leftarrow> rt_application_init c (be_entry e) (be_main e) (be_stack e) (sg_kern s3);
     k5 \<leftarrow> rt_system_timer_thread_init c (be_timer_stack e) k4;
     k6 \<leftarrow> rt_thread_idle_init (be_idle e) (be_idle_stack e) (be_idle_entry e) c k5;
     k7 \<leftarrow> rt_system_scheduler_start c k6;
     Some (set_kern k7 s3) }"

section \<open>Threads before the scheduler runs\<close>

text \<open>Nothing runs yet; \<open>q\<close> are the ready queues.\<close>

definition boot :: "(lid \<Rightarrow> nat list) \<Rightarrow> kernel \<Rightarrow> bool" where
  "boot q k \<longleftrightarrow> sched_inv k \<and> (\<forall>l. is_rq l \<longrightarrow> tlists k l = q l) \<and> (\<forall>d < 2. current_thread (cpus k d) = None \<and> irq_nest (cpus k d) = 0)"

text \<open>A thread that is initialised and not started.\<close>

definition newborn :: "nat \<Rightarrow> u8 \<Rightarrow> kernel \<Rightarrow> bool" where
  "newborn t p k \<longleftrightarrow> is_thread t k \<and> is_timer (ThreadTimer t) k \<and> stat (thr k t) = RT_THREAD_INIT \<and> init_priority (thr k t) = p \<and>
     oncpu (thr k t) = RT_CPU_DETACHED \<and> period (thr k t) = 0 \<and> scheduler_lock_nest (thr k t) = 0"

lemma static_thread_init:
  assumes "boot q k" "fresh t k" "period (thr k t) = 0" "stk \<noteq> 0" "p < 32"
  obtains k' where "rt_thread_init t name ent param stk sz p ticks k = Some k'" "boot q k'" "touches t k k'" "newborn t p k'" "bind_cpu (thr k' t) = RT_CPUS_NR"
    "timer_thread k' = timer_thread k"
proof -
  have off: "\<forall>y \<in> set (containers k 10). y \<noteq> ThreadTimer t" "\<forall>y \<in> set (containers k 1). y \<noteq> Obj t"
    using assms(2) by (auto simp: fresh_def ids_def)
  obtain k' where k': "rt_thread_init t name ent param stk sz p ticks k = Some k'"
    using assms(4,5) off by (simp add: rt_thread_init_def thread_defs alloc_defs Let_def)
  have t: "touches t k k'" "newborn t p k'" "bind_cpu (thr k' t) = RT_CPUS_NR" "timer_thread k' = timer_thread k"
    using k' assms(3,4,5) off
    by (auto simp: rt_thread_init_def thread_defs alloc_defs Let_def touches_def newborn_def is_thread_def is_timer_def
        rt_object_get_type_def ids_def split: if_splits)
  have "sched_inv k'"
    by (rule sched_inv_new_thread [where t = t and k = k])
      (use assms(1,2,5) t in \<open>auto simp: boot_def fresh_def touches_def newborn_def stat_of_def fresh_ok_def is_thread_def rt_object_get_type_def word_less_nat_alt\<close>)
  then have "boot q k'" using assms(1) t(1) by (simp add: boot_def touches_def)
  with that k' t show ?thesis by blast
qed

text \<open>The thread of a call, and what stays the same for the others.\<close>

definition keeps_others :: "nat \<Rightarrow> kernel \<Rightarrow> kernel \<Rightarrow> bool" where
  "keeps_others t k k' \<longleftrightarrow> (\<forall>b. b \<noteq> t \<longrightarrow> thr k' b = thr k b \<and> (fresh b k \<longrightarrow> fresh b k')) \<and>
     (\<forall>y. y \<notin> ids t \<longrightarrow> rt_object_get_type y k' = rt_object_get_type y k) \<and> timer_thread k' = timer_thread k \<and>
     (soft_timer_list k = [] \<longrightarrow> soft_timer_list k' = [])"

lemma touches_keeps: "touches t k k' \<Longrightarrow> timer_thread k' = timer_thread k \<Longrightarrow> keeps_others t k k'"
  using touches_fresh [of t k k'] by (auto simp: keeps_others_def touches_def rt_object_get_type_def)

lemma keeps_trans: "keeps_others t k k1 \<Longrightarrow> keeps_others t k1 k' \<Longrightarrow> keeps_others t k k'"
  by (simp add: keeps_others_def)

lemma start_frame:
  assumes "rt_timer_stop x k = Some (r, k')"
  shows "containers (rt_schedule_insert_thread c t k') = containers k" "timer_thread (rt_schedule_insert_thread c t k') = timer_thread k"
    "soft_timer_list k = [] \<Longrightarrow> soft_timer_list (rt_schedule_insert_thread c t k') = []"
  using assms by (auto simp: rt_timer_stop_def rt_timer_remove_def rt_schedule_insert_thread_def rt_hw_ipi_send_def tlist_insert_before_def Let_def split: if_splits)

lemma startup_boot:
  assumes "boot q k" "newborn t p k" "c < 2" "p < 32"
    and "l = (if bind_cpu (thr k t) = RT_CPUS_NR then Ready (unat p) else CpuReady (unat (bind_cpu (thr k t))) (unat p))"
  obtains k' where "rt_thread_startup c t k = Some k'" "boot (q(l := q l @ [t])) k'" "keeps_others t k k'" "is_thread t k'" "is_timer (ThreadTimer t) k'"
    "no_signal (thr k' t)" "scheduler_lock_nest (thr k' t) = 0" "current_priority (thr k' t) = p"
proof -
  let ?k1 = "upd_thr t (\<lambda>x. x\<lparr>current_priority := init_priority x, number_mask := push_bit (unat (init_priority x)) 1, stat := RT_THREAD_SUSPEND\<rparr>) k"
  note n = assms(2) [unfolded newborn_def] and b = assms(1) [unfolded boot_def]
  have off: "off_lists t k" using off_lists_by_stat [OF sched_inv_exD(3) [OF conjunct1 [OF b]], of t] n by (simp add: stat_of_def)
  have tr: "tlist_remove t ?k1 = ?k1" using off by (simp add: tlist_remove_def off_lists_def)
  have "is_thread t ?k1" "is_timer (ThreadTimer t) ?k1" using n by (simp_all add: is_timer_def)
  then obtain r k2 where k2: "rt_thread_resume c t ?k1 = Some (r, k2)" using resume_total by blast
  have st: "stat_of (thr ?k1 t) = RT_THREAD_SUSPEND" by (simp add: stat_of_def)
  obtain r' k3 where k3: "rt_timer_stop (ThreadTimer t) ?k1 = Some (r', k3)" "k2 = rt_schedule_insert_thread c t k3"
    using k2 st tr by (elim resumeE) (simp_all)
  note fr = timer_stop_frame [OF k3(1)]
  have h: "home (thr k3 t) = l" using assms(5) n by (simp add: home_def fr)
  have oc: "oncpu (thr k3 t) = RT_CPU_DETACHED" using n by (simp add: fr)
  note ins = insert_thread_detached [OF oc, of c]
  have self: "rt_thread_self c k2 = None" using b assms(3) by (simp add: k3(2) rt_thread_self_def fr)
  have "rt_thread_startup c t k = Some k2" using n k2 self by (simp add: rt_thread_startup_def thread_startup_def stat_of_def Let_def)
  moreover have inv: "sched_inv k2" using thread_startup_keeps [of k c t k2] calculation b assms(3) n by (simp add: rt_thread_startup_def)
  have tl: "tlists k2 = (tlists k)(l := tlists k l @ [t])" using ins(1) h by (simp add: k3(2) fr)
  have l: "is_rq l" using assms(5) by (cases "bind_cpu (thr k t) = RT_CPUS_NR") simp_all
  moreover have "boot (q(l := q l @ [t])) k2" using b inv l by (simp add: boot_def tl) (simp add: k3(2) fr)
  moreover have "keeps_others t k k2"
  proof -
    have c: "containers k2 = containers k" "timer_thread k2 = timer_thread k" "rt_object_get_type y k2 = rt_object_get_type y k"
      "soft_timer_list k = [] \<Longrightarrow> soft_timer_list k2 = []" for y
      using start_frame [OF k3(1)] by (simp_all add: k3(2) fr rt_object_get_type_def)
    have "fresh b' k2" if "fresh b' k" "b' \<noteq> t" for b'
      using that l unfolding fresh_def off_lists_def tl c by (auto simp: k3(2) fr)
    then show ?thesis using c by (simp add: keeps_others_def k3(2) insert_thread_thr fr)
  qed
  moreover have "is_thread t k2" "is_timer (ThreadTimer t) k2" "no_signal (thr k2 t)" "scheduler_lock_nest (thr k2 t) = 0" "current_priority (thr k2 t) = p"
    using n oc by (simp_all add: k3(2) insert_thread_thr fr is_thread_def is_timer_def rt_object_get_type_def no_signal_def set_stat_def)
  ultimately show ?thesis using that by blast
qed

lemma static_thread_started:
  assumes "boot q k" "fresh t k" "period (thr k t) = 0" "stk \<noteq> 0" "p < 32" "c < 2"
  obtains k1 k' where "rt_thread_init t name ent param stk sz p ticks k = Some k1" "rt_thread_startup c t k1 = Some k'" "timer_thread k1 = timer_thread k"
    "boot (q(Ready (unat p) := q (Ready (unat p)) @ [t])) k'" "keeps_others t k k'" "is_thread t k'" "is_timer (ThreadTimer t) k'"
    "no_signal (thr k' t)" "scheduler_lock_nest (thr k' t) = 0" "current_priority (thr k' t) = p"
proof -
  obtain k1 where k1: "rt_thread_init t name ent param stk sz p ticks k = Some k1" "boot q k1" "touches t k k1" "newborn t p k1" "bind_cpu (thr k1 t) = RT_CPUS_NR"
    "timer_thread k1 = timer_thread k" by (rule static_thread_init [OF assms(1-5)])
  obtain k' where k': "rt_thread_startup c t k1 = Some k'" "boot (q(Ready (unat p) := q (Ready (unat p)) @ [t])) k'" "keeps_others t k1 k'" "is_thread t k'"
    "is_timer (ThreadTimer t) k'" "no_signal (thr k' t)" "scheduler_lock_nest (thr k' t) = 0" "current_priority (thr k' t) = p"
    by (rule startup_boot [OF k1(2,4) assms(6,5), of "Ready (unat p)"]) (use k1(5) in auto)
  show ?thesis using that [OF k1(1) k'(1) k1(6) k'(2) keeps_trans [OF touches_keeps [OF k1(3,6)] k'(3)] k'(4-8)] .
qed

lemma idle_thread_started:
  assumes "boot q k" "fresh (idle i) k" "period (thr k (idle i)) = 0" "stack i \<noteq> 0" "c < 2" "i < 2"
  obtains k' where "idle_init_one idle stack ent c i k = Some k'" "boot (q(CpuReady i 31 := q (CpuReady i 31) @ [idle i])) k'" "keeps_others (idle i) k k'"
    "is_thread (idle i) k'" "is_timer (ThreadTimer (idle i)) k'" "no_signal (thr k' (idle i))" "scheduler_lock_nest (thr k' (idle i)) = 0"
proof -
  have p: "(31 :: u8) < 32" by simp
  obtain k1 where k1: "rt_thread_init (idle i) (''tidle'' @ [char_of (48 + i)]) ent 0 (stack i) 1024 31 32 k = Some k1" "boot q k1" "touches (idle i) k k1" "newborn (idle i) 31 k1"
    "timer_thread k1 = timer_thread k" by (rule static_thread_init [OF assms(1-4) p]) blast
  let ?k2 = "upd_thr (idle i) (\<lambda>x. x\<lparr>bind_cpu := of_nat i\<rparr>) k1"
  have i: "unat (of_nat i :: u8) = i" "(of_nat i :: u8) \<noteq> RT_CPUS_NR" "\<not> (of_nat i :: u8) > RT_CPUS_NR" using assms(6) by (auto simp: less_2_cases_iff)
  have ctl: "rt_thread_control c (idle i) (Ctrl_bind_cpu (of_nat i)) k1 = Some (RT_EOK, ?k2)"
    using k1(4) i(3) by (simp add: rt_thread_control_def newborn_def stat_of_def)
  have "sched_inv ?k2" by (rule bind_cpu_keeps) (use k1(2,4) i(1) assms(6) in \<open>simp_all add: boot_def newborn_def stat_of_def\<close>)
  then have b2: "boot q ?k2" "newborn (idle i) 31 ?k2" using k1(2,4) by (simp_all add: boot_def newborn_def is_timer_def)
  have t2: "touches (idle i) k ?k2" using k1(3) by (simp add: touches_def)
  obtain k' where k': "rt_thread_startup c (idle i) ?k2 = Some k'" "boot (q(CpuReady i 31 := q (CpuReady i 31) @ [idle i])) k'" "keeps_others (idle i) ?k2 k'" "is_thread (idle i) k'"
    "is_timer (ThreadTimer (idle i)) k'" "no_signal (thr k' (idle i))" "scheduler_lock_nest (thr k' (idle i)) = 0"
    by (rule startup_boot [OF b2 assms(5) p, of "CpuReady i 31"]) (use i in auto)
  have "idle_init_one idle stack ent c i k = Some k'" using k1(1) ctl k'(1) by (simp add: idle_init_one_def)
  then show ?thesis using that k'(2,4-7) keeps_trans [OF touches_keeps [OF t2] k'(3)] k1(5) by simp
qed

lemma main_thread_started:
  assumes "boot q k" "fresh m k" "c < 2"
  obtains k' where "rt_application_init c ent (Some m) (Some stk) k = Some k'" "boot (q(Ready 10 := q (Ready 10) @ [m])) k'" "keeps_others m k k'"
    "is_thread m k'" "is_timer (ThreadTimer m) k'" "no_signal (thr k' m)" "scheduler_lock_nest (thr k' m) = 0"
proof -
  have ni: "not_in_interrupt c k" using assms(1,3) by (simp add: boot_def not_in_interrupt_def)
  have off: "\<forall>y \<in> set (containers k 10). y \<noteq> ThreadTimer m" using assms(2) by (auto simp: fresh_def ids_def)
  obtain k1 where k1: "rt_thread_create c ''main'' ent 0 2048 10 20 (Some m) (Some stk) k = Some (Some m, k1)"
    using ni off by (simp add: thread_defs alloc_defs Let_def)
  have t: "touches m k k1" "newborn m 10 k1" "bind_cpu (thr k1 m) = RT_CPUS_NR" "timer_thread k1 = timer_thread k"
    using k1 ni off
    by (auto simp: thread_defs alloc_defs Let_def touches_def newborn_def is_thread_def is_timer_def zero_thread_def rt_object_get_type_def ids_def split: if_splits)
  have "sched_inv k1" by (rule thread_create_keeps [OF _ _ k1]) (use assms(1,2) in \<open>auto simp: boot_def fresh_def\<close>)
  then have b: "boot q k1" using assms(1) t(1) by (simp add: boot_def touches_def)
  obtain k' where k': "rt_thread_startup c m k1 = Some k'" "boot (q(Ready 10 := q (Ready 10) @ [m])) k'" "keeps_others m k1 k'" "is_thread m k'"
    "is_timer (ThreadTimer m) k'" "no_signal (thr k' m)" "scheduler_lock_nest (thr k' m) = 0"
    by (rule startup_boot [OF b t(2) assms(3), of "Ready 10"]) (use t(3) in auto)
  have "rt_application_init c ent (Some m) (Some stk) k = Some k'" using k1 k'(1) by (simp add: rt_application_init_def)
  then show ?thesis using that k'(2,4-7) keeps_trans [OF touches_keeps [OF t(1,4)] k'(3)] by blast
qed

section \<open>The whole start-up\<close>

text \<open>The kernel after the initialisation of the board: no threads, and nobody waits.\<close>

definition cold :: "kernel \<Rightarrow> bool" where
  "cold k \<longleftrightarrow> (\<forall>t. thr k t = zero_thread \<and> \<not> is_thread t k) \<and> (\<forall>l. tlists k l = []) \<and> (\<forall>d < 2. irq_nest (cpus k d) = 0)"

lemma cold_boot:
  assumes "cold k"
  shows "boot (\<lambda>_. []) (rt_system_scheduler_init (rt_system_timer_init k))" "\<forall>l. tlists (rt_system_scheduler_init (rt_system_timer_init k)) l = []"
proof -
  let ?k = "rt_system_scheduler_init (rt_system_timer_init k)"
  have f: "thr ?k = thr k" "is_thread t ?k = is_thread t k" "ready_priority_group ?k = 0" "d < 2 \<Longrightarrow> priority_group (cpus ?k d) = 0 \<and> current_thread (cpus ?k d) = None" for t d
    by (simp_all add: rt_system_scheduler_init_def rt_system_timer_init_def is_thread_def rt_object_get_type_def)
  show l: "\<forall>l. tlists ?k l = []" using assms by (auto simp: cold_def rt_system_scheduler_init_def rt_system_timer_init_def split: lid.splits)
  have "sched_inv ?k"
    using assms f l by (auto simp: cold_def sched_inv_ex_def bits_ok_def bitmap_ok_def queued_ok_def thread_ok_def tlists_ok_def started_def stat_of_def zero_thread_def)
  moreover have "irq_nest (cpus ?k d) = 0" if "d < 2" for d using assms that by (simp add: cold_def rt_system_scheduler_init_def rt_system_timer_init_def)
  ultimately show "boot (\<lambda>_. []) ?k" using f l by (simp add: boot_def)
qed

lemma signal_init_boot:
  assumes "rt_system_signal_init c tname (Some a) s = Some (r, s')" "boot q (sg_kern s)" "fresh a (sg_kern s)"
  shows "boot q (sg_kern s')" "touches a (sg_kern s) (sg_kern s')" "timer_thread (sg_kern s') = timer_thread (sg_kern s)"
proof -
  obtain k1 where k1: "rt_object_allocate c RT_Object_Class_MemPool ''signal'' (Some a) (sg_kern s) = Some (Some a, k1)" "sg_kern s' = rt_ipc_object_init a k1"
    using assms(1) by (auto simp: rt_system_signal_init_def rt_mp_create_def rt_object_allocate_def set_mem_def set_pool_def Let_def split: bind_splits if_splits option.splits)
  have t: "touches a (sg_kern s) (sg_kern s')" "timer_thread (sg_kern s') = timer_thread (sg_kern s)" "thr (sg_kern s') = thr (sg_kern s)"
    "is_thread t (sg_kern s') \<Longrightarrow> is_thread t (sg_kern s)" for t
    using k1 assms(3)
    by (auto simp: alloc_defs Let_def touches_def fresh_def is_thread_def rt_object_get_type_def fun_upd_idem split: if_splits bind_splits)
  have "sched_inv (sg_kern s')"
    by (rule sched_inv_object [of "sg_kern s"]) (use assms(2) t in \<open>auto simp: boot_def touches_def\<close>)
  then show "boot q (sg_kern s')" using assms(2) t(1) by (simp add: boot_def touches_def)
  show "touches a (sg_kern s) (sg_kern s')" "timer_thread (sg_kern s') = timer_thread (sg_kern s)" using t by blast+
qed

text \<open>The memory of start-up: the signal pool, the main thread, the timer thread and the two idle threads, all different and in no container; with stacks.\<close>

definition boot_memory :: "boot_env \<Rightarrow> nat \<Rightarrow> nat \<Rightarrow> kernel \<Rightarrow> bool" where
  "boot_memory e a m k \<longleftrightarrow> be_pool e = Some a \<and> be_main e = Some m \<and> be_stack e \<noteq> None \<and> be_timer_stack e \<noteq> 0 \<and> be_idle_stack e 0 \<noteq> 0 \<and> be_idle_stack e 1 \<noteq> 0 \<and>
     distinct [a, m, timer_thread k, be_idle e 0, be_idle e 1] \<and>
     (\<forall>b \<in> {a, m, timer_thread k, be_idle e 0, be_idle e 1}. \<forall>cl. set (containers k cl) \<inter> ids b = {})"

text \<open>Which thread the scheduler takes first.\<close>

lemma start_first:
  assumes "boot q k" "c < 2" "q (Ready p) = t # ts" "p < 32" "\<forall>n < p. q (Ready n) = []" "\<forall>n \<le> p. q (CpuReady c n) = []"
  obtains k' where "rt_system_scheduler_start c k = Some k'" "sched_inv k'" "current_thread (cpus k' c) = Some t" "d \<noteq> c \<Longrightarrow> d < 2 \<Longrightarrow> current_thread (cpus k' d) = None"
    "\<forall>l. tlists k' l = removeAll t (tlists k l)" "stat (thr k' t) = RT_THREAD_RUNNING" "\<forall>x. rt_object_get_type x k' = rt_object_get_type x k"
    "\<forall>s. scheduler_lock_nest (thr k' s) = scheduler_lock_nest (thr k s)" "soft_timer_list k' = soft_timer_list k" "irq_nest (cpus k' c) = 0"
proof -
  note b = assms(1) [unfolded boot_def]
  have e: "eligible c k n = set (q (Ready n)) \<union> set (q (CpuReady c n))" for n using b by (simp add: eligible_def)
  have "bit (ready_priority_group k) p" using sched_inv_exD(2) [OF conjunct1 [OF b]] assms(3) b by (simp add: bits_ok_def bitmap_ok_def)
  then have "ready_priority_group k \<noteq> 0" by auto
  then obtain u n us l where h: "get_highest_priority_thread c k = Some (u, of_nat n)" "n < 32" "l = Ready n \<or> l = CpuReady c n" "tlists k l = u # us" "\<forall>i < n. eligible c k i = {}"
    using get_highest_spec [OF sched_inv_exD(2) [OF conjunct1 [OF b]] assms(2)] by metis
  have "n \<le> p" using h(5) e [of p] assms(3) by (metis Un_empty leI list.set_intros(1) equals0D empty_set set_empty2)
  moreover have ql: "q l = u # us" using b h(3,4) by auto
  ultimately have "n = p \<and> l = Ready p" using h(3) assms(5,6) by (cases "n = p") auto
  then have u: "u = t" using ql assms(3) by simp
  let ?k = "rt_cpus_lock_status_restore c t (upd_thr t (\<lambda>x. x\<lparr>stat := RT_THREAD_RUNNING\<rparr>) (rt_schedule_remove_thread t (upd_thr t (\<lambda>x. x\<lparr>oncpu := of_nat c\<rparr>) k)))"
  have s: "rt_system_scheduler_start c k = Some ?k" using h(1) u by (simp add: rt_system_scheduler_start_def Let_def)
  have "sched_inv ?k" by (rule scheduler_start_keeps [OF _ assms(2) _ s]) (use b assms(2) in simp_all)
  moreover have "current_thread (cpus ?k c) = Some t" "stat (thr ?k t) = RT_THREAD_RUNNING" "soft_timer_list ?k = soft_timer_list k" "\<forall>l. tlists ?k l = removeAll t (tlists k l)"
    "\<forall>x. rt_object_get_type x ?k = rt_object_get_type x k" "\<forall>s. scheduler_lock_nest (thr ?k s) = scheduler_lock_nest (thr k s)"
    "d \<noteq> c \<Longrightarrow> d < 2 \<Longrightarrow> current_thread (cpus ?k d) = None" "irq_nest (cpus ?k c) = 0"
    using b assms(2)
    by (simp_all add: rt_cpus_lock_status_restore_def rt_schedule_remove_thread_def rt_object_get_type_def tlist_remove_def tlist_isempty_def Let_def)
  ultimately show ?thesis using that s by blast
qed

text \<open>The ready queues before the scheduler starts.\<close>

definition boot_queues :: "nat \<Rightarrow> nat \<Rightarrow> (nat \<Rightarrow> nat) \<Rightarrow> lid \<Rightarrow> nat list" where
  "boot_queues m t idle = (\<lambda>_. [])(Ready 10 := [m], Ready 4 := [t], CpuReady 0 31 := [idle 0], CpuReady 1 31 := [idle 1])"

lemma kept:
  assumes "keeps_others t k k'" "b \<noteq> t"
  shows "fresh b k \<Longrightarrow> fresh b k'" "thr k' b = thr k b" "is_thread b k' = is_thread b k" "is_timer (ThreadTimer b) k' = is_timer (ThreadTimer b) k"
  using assms by (simp_all add: keeps_others_def is_thread_def is_timer_def)

lemma touched_thread: "touches t k k' \<Longrightarrow> b \<noteq> t \<Longrightarrow> thr k' b = thr k b"
  by (simp add: touches_def)

lemma startup_threads:
  assumes "boot (\<lambda>_. []) k" "c < 2" "boot_memory e a m k0" "timer_thread k = timer_thread k0" "\<forall>b \<in> {m, timer_thread k0, be_idle e 0, be_idle e 1}. fresh b k \<and> thr k b = zero_thread"
  obtains k4 k5 k6 where "rt_application_init c (be_entry e) (be_main e) (be_stack e) k = Some k4" "rt_system_timer_thread_init c (be_timer_stack e) k4 = Some k5"
    "rt_thread_idle_init (be_idle e) (be_idle_stack e) (be_idle_entry e) c k5 = Some k6" "boot (boot_queues m (timer_thread k0) (be_idle e)) k6" "soft_timer_list k6 = []"
    "\<forall>b \<in> {m, timer_thread k0}. is_thread b k6 \<and> is_timer (ThreadTimer b) k6 \<and> no_signal (thr k6 b) \<and> scheduler_lock_nest (thr k6 b) = 0" "timer_thread k6 = timer_thread k0"
proof -
  let ?t = "timer_thread k0" let ?i = "be_idle e"
  note bm = assms(3) [unfolded boot_memory_def]
  obtain stk where stk: "be_stack e = Some stk" using bm by auto
  have d: "m \<noteq> ?t" "m \<noteq> ?i 0" "m \<noteq> ?i 1" "?t \<noteq> ?i 0" "?t \<noteq> ?i 1" "?i 0 \<noteq> ?i 1" using bm by auto
  obtain k4 where k4: "rt_application_init c (be_entry e) (Some m) (Some stk) k = Some k4" "boot ((\<lambda>_. [])(Ready 10 := [] @ [m])) k4" "keeps_others m k k4" "is_thread m k4"
    "is_timer (ThreadTimer m) k4" "no_signal (thr k4 m)" "scheduler_lock_nest (thr k4 m) = 0"
    by (rule main_thread_started [OF assms(1) _ assms(2)]) (use assms(5) in auto)
  let ?k = "k4\<lparr>soft_timer_list := []\<rparr>"
  have i4: "boot ((\<lambda>_. [])(Ready 10 := [] @ [m])) ?k" "fresh ?t ?k" "period (thr ?k ?t) = 0"
  proof -
    have "sched_inv ?k = sched_inv k4" by (rule sched_inv_ex_cong) (simp_all add: is_thread_def rt_object_get_type_def)
    then show "boot ((\<lambda>_. [])(Ready 10 := [] @ [m])) ?k" using k4(2) by (simp add: boot_def)
    show "fresh ?t ?k" "period (thr ?k ?t) = 0" using kept [OF k4(3) d(1) [symmetric]] assms(5) by (simp_all add: fresh_def off_lists_def zero_thread_def)
  qed
  have p4: "(4 :: u8) < 32" by simp
  obtain k1 k5 where k5: "rt_thread_init ?t ''timer'' Timer_entry 0 (be_timer_stack e) 1024 4 10 ?k = Some k1" "rt_thread_startup c ?t k1 = Some k5" "timer_thread k1 = timer_thread ?k"
    "boot (((\<lambda>_. [])(Ready 10 := [] @ [m]))(Ready (unat (4 :: u8)) := ((\<lambda>_. [])(Ready 10 := [] @ [m])) (Ready (unat (4 :: u8))) @ [?t])) k5" "keeps_others ?t ?k k5" "is_thread ?t k5"
    "is_timer (ThreadTimer ?t) k5" "no_signal (thr k5 ?t)" "scheduler_lock_nest (thr k5 ?t) = 0"
    by (rule static_thread_started [OF i4 _ p4 assms(2)]) (use bm in auto)
  have tt: "timer_thread k4 = ?t" using k4(3) assms(4) by (simp add: keeps_others_def)
  have t5: "rt_system_timer_thread_init c (be_timer_stack e) k4 = Some k5" using k5(1-3) tt by (simp add: rt_system_timer_thread_init_def Let_def)
  have q5: "boot ((\<lambda>_. [])(Ready 10 := [m], Ready 4 := [?t])) k5" using k5(4) by (simp add: fun_upd_twist)
  have f5: "fresh (?i n) k5 \<and> thr k5 (?i n) = zero_thread" if "n < 2" for n
  proof -
    have "fresh (?i n) k \<and> thr k (?i n) = zero_thread" "?i n \<noteq> m" "?i n \<noteq> ?t" using assms(5) d that by (auto simp: less_2_cases_iff)
    moreover have "fresh b ?k = fresh b k4" for b by (simp add: fresh_def off_lists_def)
    ultimately show ?thesis using kept(1,2) [OF k4(3), of "?i n"] kept(1,2) [OF k5(5), of "?i n"] by simp
  qed
  obtain k' where k': "idle_init_one ?i (be_idle_stack e) (be_idle_entry e) c 0 k5 = Some k'"
    "boot (((\<lambda>_. [])(Ready 10 := [m], Ready 4 := [?t]))(CpuReady 0 31 := ((\<lambda>_. [])(Ready 10 := [m], Ready 4 := [?t])) (CpuReady 0 31) @ [?i 0])) k'" "keeps_others (?i 0) k5 k'"
    by (rule idle_thread_started [where idle = "be_idle e" and stack = "be_idle_stack e" and ent = "be_idle_entry e" and c = c and i = 0, OF q5]) (use f5 [of 0] bm assms(2) in \<open>auto simp: zero_thread_def\<close>)
  have f6: "fresh (?i 1) k'" "period (thr k' (?i 1)) = 0" using kept(1,2) [OF k'(3), of "?i 1"] f5 [of 1] d(6) by (simp_all add: zero_thread_def)
  obtain k6 where k6: "idle_init_one ?i (be_idle_stack e) (be_idle_entry e) c 1 k' = Some k6"
    "boot ((((\<lambda>_. [])(Ready 10 := [m], Ready 4 := [?t]))(CpuReady 0 31 := ((\<lambda>_. [])(Ready 10 := [m], Ready 4 := [?t])) (CpuReady 0 31) @ [?i 0]))(CpuReady 1 31 :=
      (((\<lambda>_. [])(Ready 10 := [m], Ready 4 := [?t]))(CpuReady 0 31 := ((\<lambda>_. [])(Ready 10 := [m], Ready 4 := [?t])) (CpuReady 0 31) @ [?i 0])) (CpuReady 1 31) @ [?i 1])) k6" "keeps_others (?i 1) k' k6"
    by (rule idle_thread_started [where idle = "be_idle e" and stack = "be_idle_stack e" and ent = "be_idle_entry e" and c = c and i = 1, OF k'(2) f6]) (use bm assms(2) in auto)
  have b6: "boot (boot_queues m ?t ?i) k6" using k6(2) by (simp add: boot_queues_def)
  have s6: "soft_timer_list k6 = []" "timer_thread k6 = ?t" using k5(5) k'(3) k6(3) tt by (simp_all add: keeps_others_def)
  have th: "is_thread b k6 \<and> is_timer (ThreadTimer b) k6 \<and> no_signal (thr k6 b) \<and> scheduler_lock_nest (thr k6 b) = 0"
    if "is_thread b k5 \<and> is_timer (ThreadTimer b) k5 \<and> no_signal (thr k5 b) \<and> scheduler_lock_nest (thr k5 b) = 0" "b \<noteq> ?i 0" "b \<noteq> ?i 1" for b
    using kept(2-4) [OF k'(3) that(2)] kept(2-4) [OF k6(3) that(3)] that(1) by simp
  have "is_thread m ?k" "is_timer (ThreadTimer m) ?k" using k4(4,5) by (simp_all add: is_timer_def is_thread_def rt_object_get_type_def)
  then have "is_thread m k5 \<and> is_timer (ThreadTimer m) k5 \<and> no_signal (thr k5 m) \<and> scheduler_lock_nest (thr k5 m) = 0"
    using kept(2-4) [OF k5(5) d(1)] k4(6,7) by simp
  then have "\<forall>b \<in> {m, ?t}. is_thread b k6 \<and> is_timer (ThreadTimer b) k6 \<and> no_signal (thr k6 b) \<and> scheduler_lock_nest (thr k6 b) = 0"
    using th [of m] th [of ?t] k5(6-9) d by simp
  moreover have "rt_thread_idle_init ?i (be_idle_stack e) (be_idle_entry e) c k5 = Some k6" using k'(1) k6(1) by (simp add: rt_thread_idle_init_def)
  moreover have "rt_application_init c (be_entry e) (be_main e) (be_stack e) k = Some k4" using k4(1) bm stk by simp
  ultimately show ?thesis using that t5 b6 s6 by blast
qed

text \<open>The running thread suspends itself and the next one gets the CPU.\<close>

lemma suspend_self:
  assumes "sched_inv k" "c < 2" "current_thread (cpus k c) = Some t" "stat (thr k t) = RT_THREAD_RUNNING" "is_thread t k" "is_timer (ThreadTimer t) k"
    and "scheduler_lock_nest (thr k t) = 0" "irq_nest (cpus k c) = 0" "tlists k (Ready p) = u # us" "p < 32" "\<forall>n < p. tlists k (Ready n) = []" "\<forall>n \<le> p. tlists k (CpuReady c n) = []"
  obtains r k1 k' where "rt_thread_suspend c t k = Some (r, k1)" "rt_schedule c k1 = Some k'" "sched_inv k'" "current_thread (cpus k' c) = Some u" "stat_of (thr k' u) = RT_THREAD_RUNNING"
    "stat_of (thr k' t) = RT_THREAD_SUSPEND" "\<forall>l. tlists k' l = removeAll u (tlists k l)"
proof -
  have run: "stat_of (thr k t) = RT_THREAD_RUNNING" "rt_thread_self c k = Some t" "no_signal (thr k t)"
    using assms(3,4) by (simp_all add: stat_of_def rt_thread_self_def no_signal_def)
  have "\<exists>r k1. rt_thread_suspend c t k = Some (r, k1)"
    using run assms(5,6) by (auto simp: rt_thread_suspend_def rt_timer_stop_def is_timer_def Let_def)
  then obtain r k1 where k1: "rt_thread_suspend c t k = Some (r, k1)" by blast
  note sr = suspend_running [OF assms(1) run(1) k1] and se = suspend_effect [OF k1]
  have i1: "sched_inv k1" by (rule suspend_keeps [OF assms(1) k1])
  have "scheduler_lock_nest (thr k1 t) = 0" using k1 assms(7) by (elim suspendE) (simp_all add: timer_stop_frame)
  moreover have "no_signal (thr k1 t)" using run(3) suspend_no_signal [OF k1] by simp
  ultimately have sch: "rt_schedule c k1 = schedule_switch c t k1"
    using se(4,6) assms(3,8) by (simp add: rt_schedule_def signal_wakeup_def no_signal_def)
  have c1: "current_thread (cpus k1 c) = Some t" using se(4) assms(3) by simp
  have e: "eligible c k1 n = set (tlists k (Ready n)) \<union> set (tlists k (CpuReady c n))" for n by (simp add: eligible_def sr(1))
  show ?thesis using i1 assms(2) c1
  proof (cases rule: schedule_switch_cases)
    case idle
    then show ?thesis using e [of p] assms(9) by simp
  next
    case (keep n)
    then show ?thesis using sr(3) by simp
  next
    case (switch to n ts l k3)
    have "n \<le> p" using switch(5) e [of p] assms(9) by (metis Un_empty leI list.set_intros(1) equals0D empty_set set_empty2)
    then have "l = Ready p" using switch(3,4) assms(11,12) sr(1) by (cases "n = p") auto
    then have to: "to = u" using switch(4) sr(1) assms(9) by simp
    have k3: "k3 = upd_thr t (\<lambda>x. x\<lparr>oncpu := RT_CPU_DETACHED\<rparr>) k1" using switch(6) sr(3) by simp
    have tu: "t \<noteq> u" using sr(4) switch(4) to unfolding off_lists_def by (metis list.set_intros(1))
    let ?k = "give_cpu c u (of_nat n) k3"
    have k': "rt_schedule c k1 = Some ?k" using sch switch(1) to by simp
    have "sched_inv ?k" by (rule rt_schedule_keeps [OF i1 assms(2) k'])
    moreover have "current_thread (cpus ?k c) = Some u" "stat_of (thr ?k u) = RT_THREAD_RUNNING" "stat_of (thr ?k t) = RT_THREAD_SUSPEND" "\<forall>l. tlists ?k l = removeAll u (tlists k l)"
      using tu sr(1,3)
      by (simp_all add: k3 give_cpu_simps)
    ultimately show ?thesis using that k1 k' by blast
  qed
qed

lemma startup_to_scheduler:
  assumes "cold (sg_kern s1)" "boot_memory e a m (sg_kern s1)" "c < 2"
    and "rt_system_signal_init c None (Some a) (map_kern (rt_system_scheduler_init \<circ> rt_system_timer_init) s1) = Some (r, s3)"
  obtains k4 k5 k6 where "rt_application_init c (be_entry e) (be_main e) (be_stack e) (sg_kern s3) = Some k4" "rt_system_timer_thread_init c (be_timer_stack e) k4 = Some k5"
    "rt_thread_idle_init (be_idle e) (be_idle_stack e) (be_idle_entry e) c k5 = Some k6" "boot (boot_queues m (timer_thread (sg_kern s1)) (be_idle e)) k6" "soft_timer_list k6 = []"
    "\<forall>b \<in> {m, timer_thread (sg_kern s1)}. is_thread b k6 \<and> is_timer (ThreadTimer b) k6 \<and> no_signal (thr k6 b) \<and> scheduler_lock_nest (thr k6 b) = 0"
proof -
  let ?t = "timer_thread (sg_kern s1)" let ?s2 = "map_kern (rt_system_scheduler_init \<circ> rt_system_timer_init) s1" let ?q = "boot_queues m ?t (be_idle e)"
  have g2: "sg_kern ?s2 = rt_system_scheduler_init (rt_system_timer_init (sg_kern s1))" by (simp add: map_kern_def set_kern_def)
  note bm = assms(2) [unfolded boot_memory_def]
  have z2: "containers (sg_kern ?s2) = containers (sg_kern s1)" "thr (sg_kern ?s2) = thr (sg_kern s1)" "timer_thread (sg_kern ?s2) = ?t"
    by (simp_all add: g2 rt_system_scheduler_init_def rt_system_timer_init_def)
  have b2: "boot (\<lambda>_. []) (sg_kern ?s2)" "\<forall>l. tlists (sg_kern ?s2) l = []" unfolding g2 by (rule cold_boot [OF assms(1)])+
  have fr: "fresh b (sg_kern ?s2) \<and> thr (sg_kern ?s2) b = zero_thread" if "\<forall>cl. set (containers (sg_kern s1) cl) \<inter> ids b = {}" for b
    using b2 that assms(1) by (simp add: fresh_def off_lists_def z2 boot_def cold_def)
  have "fresh a (sg_kern ?s2)" using fr bm by simp
  note si = signal_init_boot [OF assms(4) b2(1) this]
  have f: "fresh b (sg_kern s3) \<and> thr (sg_kern s3) b = zero_thread" if "b \<noteq> a" "\<forall>cl. set (containers (sg_kern s1) cl) \<inter> ids b = {}" for b
    using touches_fresh [OF si(2) _ that(1)] touched_thread [OF si(2) that(1)] fr [OF that(2)] by simp
  have f3: "\<forall>b \<in> {m, ?t, be_idle e 0, be_idle e 1}. fresh b (sg_kern s3) \<and> thr (sg_kern s3) b = zero_thread"
    using bm by (intro ballI f) auto
  have t3: "timer_thread (sg_kern s3) = ?t" using si(3) z2(3) by simp
  show ?thesis by (rule startup_threads [OF si(1) assms(3,2) t3 f3], rule that)
qed

text \<open>C19. With memory for its threads and pools the system starts, on either CPU: the timer thread runs first, finds no timer and goes to sleep in its first round, and then the main thread runs, with
  the idle thread of each CPU ready and nothing else. The scheduler invariant holds from the start of the scheduler on.\<close>

theorem startup_reaches_main:
  assumes "rt_hw_board_init (map_kern (rt_cpus_lock c) s) = Some s1" "cold (sg_kern s1)" "boot_memory e a m (sg_kern s1)" "c < 2"
    and "rt_system_signal_init c None (Some a) (map_kern (rt_system_scheduler_init \<circ> rt_system_timer_init) s1) = Some (r, s3)"
  shows "\<exists>s' k'. rtthread_startup e rt_hw_board_init c s = Some s' \<and> sched_inv (sg_kern s') \<and> current_thread (cpus (sg_kern s') c) = Some (timer_thread (sg_kern s1)) \<and>
    timer_entry_wait c (sg_kern s') = Some k' \<and> sched_inv k' \<and> stat_of (thr k' (timer_thread (sg_kern s1))) = RT_THREAD_SUSPEND \<and>
    current_thread (cpus k' c) = Some m \<and> stat_of (thr k' m) = RT_THREAD_RUNNING \<and> (\<forall>l. is_rq l \<longrightarrow> tlists k' l = (if l = CpuReady 0 31 then [be_idle e 0] else if l = CpuReady 1 31 then [be_idle e 1] else []))"
proof -
  let ?t = "timer_thread (sg_kern s1)" let ?q = "boot_queues m ?t (be_idle e)"
  note bm = assms(3) [unfolded boot_memory_def]
  obtain k4 k5 k6 where k: "rt_application_init c (be_entry e) (be_main e) (be_stack e) (sg_kern s3) = Some k4" "rt_system_timer_thread_init c (be_timer_stack e) k4 = Some k5"
    "rt_thread_idle_init (be_idle e) (be_idle_stack e) (be_idle_entry e) c k5 = Some k6" "boot ?q k6" "soft_timer_list k6 = []"
    "\<forall>b \<in> {m, ?t}. is_thread b k6 \<and> is_timer (ThreadTimer b) k6 \<and> no_signal (thr k6 b) \<and> scheduler_lock_nest (thr k6 b) = 0"
    by (rule startup_to_scheduler [OF assms(2-5)])
  have q: "?q (Ready 4) = [?t]" "\<forall>n < 4. ?q (Ready n) = []" "\<forall>n \<le> 4. ?q (CpuReady c n) = []" by (auto simp: boot_queues_def)
  obtain k7 where k7: "rt_system_scheduler_start c k6 = Some k7" "sched_inv k7" "current_thread (cpus k7 c) = Some ?t" "\<forall>l. tlists k7 l = removeAll ?t (tlists k6 l)"
    "stat (thr k7 ?t) = RT_THREAD_RUNNING" "\<forall>x. rt_object_get_type x k7 = rt_object_get_type x k6" "\<forall>s. scheduler_lock_nest (thr k7 s) = scheduler_lock_nest (thr k6 s)"
    "soft_timer_list k7 = soft_timer_list k6" "irq_nest (cpus k7 c) = 0"
    by (rule start_first [OF k(4) assms(4) q(1) _ q(2,3)]) auto
  have st: "rtthread_startup e rt_hw_board_init c s = Some (set_kern k7 s3)"
    using assms(1,5) bm k(1-3) k7(1) by (simp add: rtthread_startup_def Let_def)
  have q6: "is_rq l \<Longrightarrow> tlists k7 l = removeAll ?t (?q l)" for l using k(4) k7(4) by (simp add: boot_def)
  have d: "?t \<noteq> m" "?t \<noteq> be_idle e 0" "?t \<noteq> be_idle e 1" "m \<noteq> be_idle e 0" "m \<noteq> be_idle e 1" using bm by auto
  have l7: "tlists k7 (Ready 10) = [m]" "\<forall>n < 10. tlists k7 (Ready n) = []" "\<forall>n \<le> 10. tlists k7 (CpuReady c n) = []" using d by (simp_all add: q6 boot_queues_def)
  have th: "is_thread ?t k7" "is_timer (ThreadTimer ?t) k7" "scheduler_lock_nest (thr k7 ?t) = 0" using k(6) k7(6,7) by (simp_all add: is_thread_def is_timer_def)
  obtain r' k8 k' where k': "rt_thread_suspend c ?t k7 = Some (r', k8)" "rt_schedule c k8 = Some k'" "sched_inv k'" "current_thread (cpus k' c) = Some m" "stat_of (thr k' m) = RT_THREAD_RUNNING"
    "stat_of (thr k' ?t) = RT_THREAD_SUSPEND" "\<forall>l. tlists k' l = removeAll m (tlists k7 l)"
    by (rule suspend_self [OF k7(2) assms(4) k7(3,5) th k7(9) l7(1) _ l7(2,3)]) auto
  have "timer_entry_wait c k7 = Some k'"
    using k(5) k7(3,8) k'(1,2) by (simp add: timer_entry_wait_def rt_timer_list_next_timeout_def rt_thread_self_def)
  moreover have "\<forall>l. is_rq l \<longrightarrow> tlists k' l = (if l = CpuReady 0 31 then [be_idle e 0] else if l = CpuReady 1 31 then [be_idle e 1] else [])"
    using d by (simp add: k'(7) q6 boot_queues_def)
  ultimately show ?thesis using st k7(2,3) k'(3-6) by (intro exI [of _ "set_kern k7 s3"] exI [of _ k']) (simp add: set_kern_def)
qed

text \<open>A heap of four kilobytes, which has room for the pool of signals.\<close>

lemma boot_heap: "\<exists>h p h'. rt_malloc False None 512 h = Some (Some p, h')"
proof -
  let ?h = "zero_heap\<lparr>mem_size_aligned := 4064, heap_ptr := 4096, heap_end := 4080, heads := (heads zero_heap)
    (0 := rt_mem_setname ''INIT'' ((heads zero_heap 0)\<lparr>h_magic := HEAP_MAGIC, h_next := 4080, h_prev := 0, h_used := 0\<rparr>),
     4080 := rt_mem_setname ''INIT'' ((heads zero_heap 4080)\<lparr>h_magic := HEAP_MAGIC, h_used := 1, h_next := 4080, h_prev := 4080\<rparr>)), lfree := 0\<rparr>"
  have i: "\<exists>k. rt_system_heap_init 0 9 0x1000 0x2000 zero_heap zero_kernel = Some (?h, k)"
    by (simp add: rt_system_heap_init_def RT_ALIGN_def RT_ALIGN_DOWN_def Let_def not_in_interrupt_def rt_sem_init_def
        rt_object_init_def rt_object_get_information_def rt_object_classes_def zero_defs upd_head_def rt_mem_setname_def)
  then obtain k where k: "rt_system_heap_init 0 9 0x1000 0x2000 zero_heap zero_kernel = Some (?h, k)" ..
  have "unat (RT_ALIGN 0x1000 4) + 44 \<le> unat (RT_ALIGN_DOWN 0x2000 4)" by (simp add: RT_ALIGN_def RT_ALIGN_DOWN_def)
  note ok = heap_init_ok [OF k this demo_sizes(2)]
  have "fits (need 512) ?h 0" "\<not> RT_ALIGN 512 4 > mem_size_aligned ?h" by (simp_all add: fits_def need_def RT_ALIGN_def rt_mem_setname_def)
  then have "\<exists>p h'. rt_malloc False None 512 ?h = Some (Some p, h')" using malloc_total [OF ok(1), of None 512] ok(2,4) by auto
  then show ?thesis by blast
qed

definition demo_env :: boot_env where
  "demo_env = \<lparr>be_pool = Some 50, be_main = Some 51, be_stack = Some 90, be_entry = Code 1, be_timer_stack = 91, be_idle = (\<lambda>i. 52 + i), be_idle_stack = (\<lambda>i. 92 + i),
     be_idle_entry = Code 2\<rparr>"

theorem startup_reaches_main_witness:
  "\<exists>h s' k'. rtthread_startup demo_env Some 0 \<lparr>sg_pool = no_pools\<lparr>heap := h\<rparr>, sgs = (\<lambda>_. no_sigs), siginfo_pool = None\<rparr> = Some s' \<and>
     current_thread (cpus (sg_kern s') 0) = Some 0 \<and> timer_entry_wait 0 (sg_kern s') = Some k' \<and> current_thread (cpus k' 0) = Some 51"
proof -
  obtain h p h' where h: "rt_malloc False None 512 h = Some (Some p, h')" using boot_heap by blast
  let ?s = "\<lparr>sg_pool = no_pools\<lparr>heap := h\<rparr>, sgs = (\<lambda>_. no_sigs), siginfo_pool = None\<rparr>"
  have k: "sg_kern ?s = zero_kernel" by (simp add: no_pools_def)
  have 1: "Some (map_kern (rt_cpus_lock 0) ?s) = Some ?s" by (simp add: map_kern_def set_kern_def rt_cpus_lock_def no_pools_def zero_defs)
  have 2: "cold (sg_kern ?s)" unfolding k by (simp add: cold_def is_thread_def rt_object_get_type_def zero_defs)
  have 3: "boot_memory demo_env 50 51 (sg_kern ?s)" unfolding k by (simp add: boot_memory_def demo_env_def zero_defs)
  have "\<exists>s3. rt_system_signal_init 0 None (Some 50) (map_kern (rt_system_scheduler_init \<circ> rt_system_timer_init) ?s) = Some (0, s3)"
    using h by (simp add: rt_system_signal_init_def rt_mp_create_def rt_object_allocate_Some rt_object_classes_def memset_object_def RT_ALIGN_def map_kern_def set_kern_def
        rt_system_scheduler_init_def rt_system_timer_init_def no_pools_def not_in_interrupt_def zero_defs Let_def)
  then obtain s3 where 4: "rt_system_signal_init 0 None (Some 50) (map_kern (rt_system_scheduler_init \<circ> rt_system_timer_init) ?s) = Some (0, s3)" ..
  have "timer_thread (sg_kern ?s) = 0" unfolding k by (simp add: zero_defs)
  with startup_reaches_main [where rt_hw_board_init = Some, OF 1 2 3 _ 4] show ?thesis by auto
qed

end
