(* ===== verification/Device.thy ===== *)
theory Device
  imports MemPoolProps
begin

text \<open>
  Devices (\<^verbatim>\<open>src/device.c\<close>): kernel objects with a table of driver operations, a count of how often they are open, and flags. The operations of a driver are code of the
  driver: \<open>drv\<close> gives for a table (by its number) the functions in it, and a driver may change everything. A device without a table has none to call, which is a null pointer access. The state holds
  the kernel, the error number and the heap, from which devices are created.
\<close>

abbreviation (input) RT_DEVICE_FLAG_STANDALONE :: u16 where "RT_DEVICE_FLAG_STANDALONE \<equiv> 0x8"
abbreviation (input) RT_DEVICE_FLAG_ACTIVATED :: u16 where "RT_DEVICE_FLAG_ACTIVATED \<equiv> 0x10"
abbreviation (input) RT_DEVICE_OFLAG_CLOSE :: u16 where "RT_DEVICE_OFLAG_CLOSE \<equiv> 0"
abbreviation (input) RT_DEVICE_OFLAG_OPEN :: u16 where "RT_DEVICE_OFLAG_OPEN \<equiv> 0x8"
abbreviation (input) RT_DEVICE_OFLAG_MASK :: u16 where "RT_DEVICE_OFLAG_MASK \<equiv> 0xf0f"

section \<open>State\<close>

text \<open>The wait queue is set up when a device is registered; \<^verbatim>\<open>fops\<close> is a table of the file system, which is set to null.\<close>

record rt_device =
  d_type :: int
  d_flag :: u16
  open_flag :: u16
  ref_count :: u8
  device_id :: u8
  rx_indicate :: "nat option"
  tx_complete :: "nat option"
  ops :: "nat option"
  fops :: "nat option"
  wait_flag :: u32
  wait_list :: "nat list"
  user_data :: u32

definition zero_device :: rt_device where
  "zero_device = \<lparr>d_type = 0, d_flag = 0, open_flag = 0, ref_count = 0, device_id = 0, rx_indicate = None, tx_complete = None, ops = None,
     fops = None, wait_flag = 0, wait_list = [], user_data = 0\<rparr>"

text \<open>A driver may keep fields of its own behind the device structure: \<open>pin_hw\<close> is the table that follows the device in \<^verbatim>\<open>struct rt_device_pin\<close>.\<close>

record dev_state =
  dv_pool :: pool_state
  devs :: "nat \<Rightarrow> rt_device"
  pin_hw :: "nat \<Rightarrow> nat option"

abbreviation dv_kern :: "dev_state \<Rightarrow> kernel" where
  "dv_kern s \<equiv> kern (dv_pool s)"

definition set_dkern :: "kernel \<Rightarrow> dev_state \<Rightarrow> dev_state" where
  "set_dkern k s = s\<lparr>dv_pool := (dv_pool s)\<lparr>kern := k\<rparr>\<rparr>"

definition upd_dev :: "nat \<Rightarrow> (rt_device \<Rightarrow> rt_device) \<Rightarrow> dev_state \<Rightarrow> dev_state" where
  "upd_dev a f s = s\<lparr>devs := (devs s)(a := f (devs s a))\<rparr>"

definition dev_errno :: "nat \<Rightarrow> rt_err_t \<Rightarrow> dev_state \<Rightarrow> dev_state" where
  "dev_errno c e s = (case rt_set_errno c e (rt_errno (dv_pool s), dv_kern s) of (e', k) \<Rightarrow>
     s\<lparr>dv_pool := (dv_pool s)\<lparr>rt_errno := e', kern := k\<rparr>\<rparr>)"

text \<open>The operations of a driver; reading and writing get a position, an address and a size, and return a size.\<close>

record device_ops =
  op_init :: "(nat \<Rightarrow> dev_state \<Rightarrow> (rt_err_t \<times> dev_state) option) option"
  op_open :: "(nat \<Rightarrow> u16 \<Rightarrow> dev_state \<Rightarrow> (rt_err_t \<times> dev_state) option) option"
  op_close :: "(nat \<Rightarrow> dev_state \<Rightarrow> (rt_err_t \<times> dev_state) option) option"
  op_read :: "(nat \<Rightarrow> u32 \<Rightarrow> u32 \<Rightarrow> u32 \<Rightarrow> dev_state \<Rightarrow> (u32 \<times> dev_state) option) option"
  op_write :: "(nat \<Rightarrow> u32 \<Rightarrow> u32 \<Rightarrow> u32 \<Rightarrow> dev_state \<Rightarrow> (u32 \<times> dev_state) option) option"
  op_control :: "(nat \<Rightarrow> int \<Rightarrow> u32 \<Rightarrow> dev_state \<Rightarrow> (rt_err_t \<times> dev_state) option) option"

type_synonym drivers = "nat \<Rightarrow> device_ops"

definition is_device :: "nat \<Rightarrow> dev_state \<Rightarrow> bool" where
  "is_device a s \<longleftrightarrow> rt_object_get_type (Obj a) (dv_kern s) = RT_Object_Class_Device"

definition dev_ops :: "drivers \<Rightarrow> nat \<Rightarrow> dev_state \<Rightarrow> device_ops option" where
  "dev_ops drv a s = map_option drv (ops (devs s a))"

section \<open>Registration\<close>

definition rt_device_find :: "nat \<Rightarrow> string \<Rightarrow> dev_state \<Rightarrow> (oid option \<times> dev_state) option" where
  "rt_device_find c name s = do {
     let k1 = (if rt_thread_self c (dv_kern s) \<noteq> None then rt_enter_critical c (dv_kern s) else dv_kern s);
     information \<leftarrow> rt_object_get_information RT_Object_Class_Device;
     let found = List.find (\<lambda>x. take RT_NAME_MAX (o_name (obj k1 x)) = take RT_NAME_MAX name) (containers k1 information);
     k2 \<leftarrow> (if rt_thread_self c k1 \<noteq> None then rt_exit_critical c k1 else Some k1);
     Some (found, set_dkern k2 s) }"

definition rt_device_register :: "nat \<Rightarrow> nat option \<Rightarrow> string \<Rightarrow> u16 \<Rightarrow> dev_state \<Rightarrow> (rt_err_t \<times> dev_state) option" where
  "rt_device_register c dev name flags s = (case dev of
     None \<Rightarrow> Some (- RT_ERROR, s)
   | Some a \<Rightarrow> do {
       (found, s1) \<leftarrow> rt_device_find c name s;
       if found \<noteq> None then Some (- RT_ERROR, s1)
       else do {
         k \<leftarrow> rt_object_init (Obj a) RT_Object_Class_Device name (dv_kern s1);
         Some (RT_EOK, upd_dev a (\<lambda>d. d\<lparr>d_flag := flags, ref_count := 0, open_flag := 0, fops := None, wait_flag := 0, wait_list := []\<rparr>)
           (set_dkern k s1)) } })"

definition rt_device_unregister :: "nat \<Rightarrow> dev_state \<Rightarrow> (rt_err_t \<times> dev_state) option" where
  "rt_device_unregister a s = do {
     rt_assert (is_device a s);
     rt_assert (rt_object_is_systemobject (Obj a) (dv_kern s));
     Some (RT_EOK, set_dkern (rt_object_detach (Obj a) (dv_kern s)) s) }"

definition rt_device_init_all :: rt_err_t where
  "rt_device_init_all = RT_EOK"

text \<open>The structure of a device is 64 bytes long; \<open>tname\<close> is the name of the running thread, for the allocator.\<close>

definition rt_device_create :: "nat \<Rightarrow> string option \<Rightarrow> int \<Rightarrow> u32 \<Rightarrow> dev_state \<Rightarrow> (nat option \<times> dev_state) option" where
  "rt_device_create c tname type attach_size s = do {
     (p, h) \<leftarrow> rt_malloc (irq_nest (cpus (dv_kern s) c) \<noteq> 0) tname (64 + RT_ALIGN attach_size 4) (heap (dv_pool s));
     let s1 = s\<lparr>dv_pool := (dv_pool s)\<lparr>heap := h\<rparr>\<rparr>;
     Some (case p of
        None \<Rightarrow> (None, s1)
      | Some q \<Rightarrow> (Some (unat q), upd_dev (unat q) (\<lambda>_. zero_device\<lparr>d_type := type\<rparr>)
          (set_dkern (upd_obj (Obj (unat q)) (\<lambda>_. zero_object) (dv_kern s1)) s1))) }"

definition rt_device_destroy :: "nat \<Rightarrow> nat \<Rightarrow> dev_state \<Rightarrow> dev_state option" where
  "rt_device_destroy c a s = do {
     rt_assert (is_device a s);
     rt_assert (\<not> rt_object_is_systemobject (Obj a) (dv_kern s));
     let s1 = set_dkern (rt_object_detach (Obj a) (dv_kern s)) s;
     h \<leftarrow> rt_free (irq_nest (cpus (dv_kern s1) c) \<noteq> 0) (Some (of_nat a)) (heap (dv_pool s1));
     Some (s1\<lparr>dv_pool := (dv_pool s1)\<lparr>heap := h\<rparr>\<rparr>) }"

section \<open>Access\<close>

definition rt_device_init :: "drivers \<Rightarrow> nat \<Rightarrow> dev_state \<Rightarrow> (rt_err_t \<times> dev_state) option" where
  "rt_device_init drv a s = do {
     t \<leftarrow> dev_ops drv a s;
     (case op_init t of
        None \<Rightarrow> Some (RT_EOK, s)
      | Some f \<Rightarrow>
          if d_flag (devs s a) AND RT_DEVICE_FLAG_ACTIVATED = 0 then do {
            (result, s1) \<leftarrow> f a s;
            Some (result, if result \<noteq> RT_EOK then s1 else upd_dev a (\<lambda>d. d\<lparr>d_flag := d_flag d OR RT_DEVICE_FLAG_ACTIVATED\<rparr>) s1) }
          else Some (RT_EOK, s)) }"

text \<open>The first part of \<^verbatim>\<open>rt_device_open\<close>: the device is initialised when it is not.\<close>

definition open_activate :: "drivers \<Rightarrow> nat \<Rightarrow> dev_state \<Rightarrow> (rt_err_t \<times> dev_state) option" where
  "open_activate drv a s =
     (if d_flag (devs s a) AND RT_DEVICE_FLAG_ACTIVATED = 0 then do {
        t \<leftarrow> dev_ops drv a s;
        (result, s1) \<leftarrow> (case op_init t of None \<Rightarrow> Some (RT_EOK, s) | Some f \<Rightarrow> f a s);
        Some (result, if result \<noteq> RT_EOK then s1 else upd_dev a (\<lambda>d. d\<lparr>d_flag := d_flag d OR RT_DEVICE_FLAG_ACTIVATED\<rparr>) s1) }
      else Some (RT_EOK, s))"

definition rt_device_open :: "drivers \<Rightarrow> nat \<Rightarrow> u16 \<Rightarrow> dev_state \<Rightarrow> (rt_err_t \<times> dev_state) option" where
  "rt_device_open drv a oflag s = do {
     rt_assert (is_device a s);
     (result, s1) \<leftarrow> open_activate drv a s;
     if result \<noteq> RT_EOK then Some (result, s1)
     else if d_flag (devs s1 a) AND RT_DEVICE_FLAG_STANDALONE \<noteq> 0 \<and> open_flag (devs s1 a) AND RT_DEVICE_OFLAG_OPEN \<noteq> 0
     then Some (- RT_EBUSY, s1)
     else do {
       t \<leftarrow> dev_ops drv a s1;
       (result, s2) \<leftarrow> (case op_open t of
          Some f \<Rightarrow> f a oflag s1
        | None \<Rightarrow> Some (RT_EOK, upd_dev a (\<lambda>d. d\<lparr>open_flag := oflag AND RT_DEVICE_OFLAG_MASK\<rparr>) s1));
       if result = RT_EOK \<or> result = - RT_ENOSYS then do {
         let s3 = upd_dev a (\<lambda>d. d\<lparr>open_flag := open_flag d OR RT_DEVICE_OFLAG_OPEN, ref_count := ref_count d + 1\<rparr>) s2;
         rt_assert (ref_count (devs s3 a) \<noteq> 0);
         Some (result, s3) }
       else Some (result, s2) } }"

definition rt_device_close :: "drivers \<Rightarrow> nat \<Rightarrow> dev_state \<Rightarrow> (rt_err_t \<times> dev_state) option" where
  "rt_device_close drv a s = do {
     rt_assert (is_device a s);
     if ref_count (devs s a) = 0 then Some (- RT_ERROR, s)
     else do {
       let s1 = upd_dev a (\<lambda>d. d\<lparr>ref_count := ref_count d - 1\<rparr>) s;
       if ref_count (devs s1 a) \<noteq> 0 then Some (RT_EOK, s1)
       else do {
         t \<leftarrow> dev_ops drv a s1;
         (result, s2) \<leftarrow> (case op_close t of None \<Rightarrow> Some (RT_EOK, s1) | Some f \<Rightarrow> f a s1);
         Some (result, if result = RT_EOK \<or> result = - RT_ENOSYS then upd_dev a (\<lambda>d. d\<lparr>open_flag := RT_DEVICE_OFLAG_CLOSE\<rparr>) s2 else s2) } } }"

definition rt_device_read :: "drivers \<Rightarrow> nat \<Rightarrow> nat \<Rightarrow> u32 \<Rightarrow> u32 \<Rightarrow> u32 \<Rightarrow> dev_state \<Rightarrow> (u32 \<times> dev_state) option" where
  "rt_device_read drv c a pos buffer sz s = do {
     rt_assert (is_device a s);
     if ref_count (devs s a) = 0 then Some (0, dev_errno c (- RT_ERROR) s)
     else do {
       t \<leftarrow> dev_ops drv a s;
       (case op_read t of Some f \<Rightarrow> f a pos buffer sz s | None \<Rightarrow> Some (0, dev_errno c (- RT_ENOSYS) s)) } }"

definition rt_device_write :: "drivers \<Rightarrow> nat \<Rightarrow> nat \<Rightarrow> u32 \<Rightarrow> u32 \<Rightarrow> u32 \<Rightarrow> dev_state \<Rightarrow> (u32 \<times> dev_state) option" where
  "rt_device_write drv c a pos buffer sz s = do {
     rt_assert (is_device a s);
     if ref_count (devs s a) = 0 then Some (0, dev_errno c (- RT_ERROR) s)
     else do {
       t \<leftarrow> dev_ops drv a s;
       (case op_write t of Some f \<Rightarrow> f a pos buffer sz s | None \<Rightarrow> Some (0, dev_errno c (- RT_ENOSYS) s)) } }"

definition rt_device_control :: "drivers \<Rightarrow> nat \<Rightarrow> int \<Rightarrow> u32 \<Rightarrow> dev_state \<Rightarrow> (rt_err_t \<times> dev_state) option" where
  "rt_device_control drv a cmd arg s = do {
     rt_assert (is_device a s);
     t \<leftarrow> dev_ops drv a s;
     (case op_control t of Some f \<Rightarrow> f a cmd arg s | None \<Rightarrow> Some (- RT_ENOSYS, s)) }"

definition rt_device_set_rx_indicate :: "nat \<Rightarrow> nat option \<Rightarrow> dev_state \<Rightarrow> (rt_err_t \<times> dev_state) option" where
  "rt_device_set_rx_indicate a rx_ind s = do {
     rt_assert (is_device a s);
     Some (RT_EOK, upd_dev a (\<lambda>d. d\<lparr>rx_indicate := rx_ind\<rparr>) s) }"

definition rt_device_set_tx_complete :: "nat \<Rightarrow> nat option \<Rightarrow> dev_state \<Rightarrow> (rt_err_t \<times> dev_state) option" where
  "rt_device_set_tx_complete a tx_done s = do {
     rt_assert (is_device a s);
     Some (RT_EOK, upd_dev a (\<lambda>d. d\<lparr>tx_complete := tx_done\<rparr>) s) }"

section \<open>The contract of a driver\<close>

definition dev_standalone :: "nat \<Rightarrow> dev_state \<Rightarrow> bool" where
  "dev_standalone a s \<longleftrightarrow> d_flag (devs s a) AND RT_DEVICE_FLAG_STANDALONE \<noteq> 0"

definition dev_opened :: "nat \<Rightarrow> dev_state \<Rightarrow> bool" where
  "dev_opened a s \<longleftrightarrow> open_flag (devs s a) AND RT_DEVICE_OFLAG_OPEN \<noteq> 0"

text \<open>What belongs to the device layer and not to the driver: the count, the table, and whether the device is for one user only.\<close>

definition dev_kept :: "nat \<Rightarrow> dev_state \<Rightarrow> dev_state \<Rightarrow> bool" where
  "dev_kept a s s' \<longleftrightarrow> is_device a s' = is_device a s \<and> ref_count (devs s' a) = ref_count (devs s a) \<and> ops (devs s' a) = ops (devs s a) \<and>
     dev_standalone a s' = dev_standalone a s"

definition dev_ok_result :: "rt_err_t \<Rightarrow> bool" where
  "dev_ok_result r \<longleftrightarrow> r = RT_EOK \<or> r = - RT_ENOSYS"

text \<open>A device is open exactly as long as somebody uses it, and one for a single user has one user at most.\<close>

definition dev_ok :: "drivers \<Rightarrow> nat \<Rightarrow> device_ops \<Rightarrow> dev_state \<Rightarrow> bool" where
  "dev_ok drv a t s \<longleftrightarrow> is_device a s \<and> dev_ops drv a s = Some t \<and> (dev_opened a s \<longleftrightarrow> ref_count (devs s a) \<noteq> 0) \<and>
     (dev_standalone a s \<longrightarrow> unat (ref_count (devs s a)) \<le> 1)"

lemma upd_dev_simps [simp]:
  "devs (upd_dev a f s) = (devs s)(a := f (devs s a))" "dv_pool (upd_dev a f s) = dv_pool s" "is_device b (upd_dev a f s) = is_device b s"
  by (simp_all add: upd_dev_def is_device_def)

lemma and_bits: "(x OR 0x10) AND 8 = x AND (8 :: u16)" "(x OR 8) AND 8 \<noteq> (0 :: u16)"
proof -
  show "(x OR 0x10) AND 8 = x AND (8 :: u16)" by (simp add: bit.conj_disj_distrib2)
  have "(x OR 8) AND 8 = (8 :: u16)" by (simp add: and.commute [of _ 8])
  then show "(x OR 8) AND 8 \<noteq> (0 :: u16)" by simp
qed

lemma kept_trans: "dev_kept a s s1 \<Longrightarrow> dev_kept a s1 s2 \<Longrightarrow> dev_kept a s s2"
  by (simp add: dev_kept_def)

text \<open>A client that opens and closes the device; \<open>users\<close> is how many opened it and have not closed it, by the results they got.\<close>

datatype dev_op = Open u16 | Close

fun device_run :: "drivers \<Rightarrow> nat \<Rightarrow> dev_op list \<Rightarrow> dev_state \<Rightarrow> (rt_err_t list \<times> dev_state) option" where
  "device_run drv a [] s = Some ([], s)"
| "device_run drv a (x # xs) s = do {
     (r, s1) \<leftarrow> (case x of Open oflag \<Rightarrow> rt_device_open drv a oflag s | Close \<Rightarrow> rt_device_close drv a s);
     (rs, s2) \<leftarrow> device_run drv a xs s1;
     Some (r # rs, s2) }"

fun users :: "nat \<Rightarrow> (dev_op \<times> rt_err_t) list \<Rightarrow> nat" where
  "users n [] = n"
| "users n ((Open _, r) # xs) = users (if dev_ok_result r then Suc n else n) xs"
| "users n ((Close, _) # xs) = users (n - 1) xs"

text \<open>The operations that open and close return and keep that; initialising, which does not answer that it is not implemented, and a failing open leave the device as open as it was, and closing does not fail.\<close>

locale device_driver =
  fixes t :: device_ops and a :: nat
  assumes init_law: "op_init t = Some f \<Longrightarrow> \<exists>r s'. f a s = Some (r, s') \<and> dev_kept a s s' \<and> dev_opened a s' = dev_opened a s \<and> r \<noteq> - RT_ENOSYS"
    and open_law: "op_open t = Some g \<Longrightarrow> \<exists>r s'. g a oflag s = Some (r, s') \<and> dev_kept a s s' \<and> (\<not> dev_ok_result r \<longrightarrow> dev_opened a s' = dev_opened a s)"
    and close_law: "op_close t = Some h \<Longrightarrow> \<exists>r s'. h a s = Some (r, s') \<and> dev_kept a s s' \<and> dev_ok_result r"
begin

lemma activate_ok:
  assumes "dev_ops drv a s = Some t"
  shows "\<exists>r s'. open_activate drv a s = Some (r, s') \<and> dev_kept a s s' \<and> dev_opened a s' = dev_opened a s \<and> r \<noteq> - RT_ENOSYS"
proof (cases "d_flag (devs s a) AND RT_DEVICE_FLAG_ACTIVATED = 0")
  case True
  obtain r s1 where s1: "(case op_init t of None \<Rightarrow> Some (RT_EOK, s) | Some f \<Rightarrow> f a s) = Some (r, s1)" "dev_kept a s s1" "dev_opened a s1 = dev_opened a s" "r \<noteq> - RT_ENOSYS"
    using init_law [of _ s] by (cases "op_init t") (auto simp: dev_kept_def)
  let ?s = "if r \<noteq> RT_EOK then s1 else upd_dev a (\<lambda>d. d\<lparr>d_flag := d_flag d OR RT_DEVICE_FLAG_ACTIVATED\<rparr>) s1"
  have "open_activate drv a s = Some (r, ?s)" using True assms s1(1) by (simp add: open_activate_def)
  moreover have "dev_kept a s1 ?s" "dev_opened a ?s = dev_opened a s1"
    by (simp_all add: dev_kept_def dev_opened_def dev_standalone_def and_bits)
  ultimately show ?thesis using s1(2-4) kept_trans by blast
qed (simp add: open_activate_def dev_kept_def)

lemma open_ok:
  assumes "dev_ok drv a t s" "unat (ref_count (devs s a)) < 255"
  obtains r s' where "rt_device_open drv a oflag s = Some (r, s')" "dev_ok drv a t s'" "dev_standalone a s' = dev_standalone a s"
    "unat (ref_count (devs s' a)) = (if dev_ok_result r then Suc (unat (ref_count (devs s a))) else unat (ref_count (devs s a)))"
    "dev_standalone a s \<Longrightarrow> ref_count (devs s a) \<noteq> 0 \<Longrightarrow> \<not> dev_ok_result r"
proof -
  note o = assms(1) [unfolded dev_ok_def]
  obtain r0 s1 where s1: "open_activate drv a s = Some (r0, s1)" "dev_kept a s s1" "dev_opened a s1 = dev_opened a s" "r0 \<noteq> - RT_ENOSYS"
    using activate_ok o by blast
  note k1 = s1(2) [unfolded dev_kept_def]
  have ok1: "dev_ok drv a t s1" using o k1 s1(3) by (simp add: dev_ok_def dev_ops_def)
  consider (failed) "r0 \<noteq> RT_EOK" | (busy) "r0 = RT_EOK" "dev_standalone a s" "dev_opened a s" | (free) "r0 = RT_EOK" "\<not> (dev_standalone a s \<and> dev_opened a s)"
    by blast
  then show ?thesis
  proof cases
    case failed
    have "rt_device_open drv a oflag s = Some (r0, s1)" using failed o s1(1) by (simp add: rt_device_open_def)
    with failed s1(4) that [of r0 s1] ok1 k1 show ?thesis by (simp add: dev_ok_result_def)
  next
    case busy
    then have "rt_device_open drv a oflag s = Some (- RT_EBUSY, s1)"
      using o s1(1,3) k1 by (simp add: rt_device_open_def dev_standalone_def dev_opened_def)
    with that [of "- RT_EBUSY" s1] ok1 k1 show ?thesis by (simp add: dev_ok_result_def)
  next
    case free
    obtain r s2 where s2: "(case op_open t of Some f \<Rightarrow> f a oflag s1 | None \<Rightarrow> Some (RT_EOK, upd_dev a (\<lambda>d. d\<lparr>open_flag := oflag AND RT_DEVICE_OFLAG_MASK\<rparr>) s1)) = Some (r, s2)"
      "dev_kept a s1 s2" "\<not> dev_ok_result r \<longrightarrow> dev_opened a s2 = dev_opened a s1"
      using open_law [of _ oflag s1] by (cases "op_open t") (auto simp: dev_kept_def dev_standalone_def dev_ok_result_def)
    note k2 = s2(2) [unfolded dev_kept_def]
    have t1: "dev_ops drv a s1 = Some t" using ok1 by (simp add: dev_ok_def)
    have free1: "\<not> (d_flag (devs s1 a) AND RT_DEVICE_FLAG_STANDALONE \<noteq> 0 \<and> open_flag (devs s1 a) AND RT_DEVICE_OFLAG_OPEN \<noteq> 0)"
      using free(2) k1 s1(3) by (simp add: dev_standalone_def dev_opened_def)
    show ?thesis
    proof (cases "dev_ok_result r")
      case False
      have "rt_device_open drv a oflag s = Some (r, s2)"
        using o s1(1) free(1) t1 s2(1) False by (simp add: rt_device_open_def dev_ok_result_def) (use free1 in blast)
      moreover have "dev_ok drv a t s2" using ok1 k2 s2(3) False by (simp add: dev_ok_def dev_ops_def)
      ultimately show ?thesis using that [of r s2] False k1 k2 by simp
    next
      case True
      let ?s = "upd_dev a (\<lambda>d. d\<lparr>open_flag := open_flag d OR RT_DEVICE_OFLAG_OPEN, ref_count := ref_count d + 1\<rparr>) s2"
      have n: "unat (ref_count (devs s2 a) + 1) = Suc (unat (ref_count (devs s a)))" using assms(2) k1 k2 by (simp add: unat_word_ariths)
      then have nz: "ref_count (devs s2 a) + 1 \<noteq> 0" by (metis nat.distinct(1) unat_0)
      have "rt_device_open drv a oflag s = Some (r, ?s)"
        using o s1(1) free(1) t1 s2(1) True nz by (simp add: rt_device_open_def dev_ok_result_def Let_def) (use free1 in blast)
      moreover have sa: "dev_standalone a ?s = dev_standalone a s" "dev_opened a ?s" using k1 k2 by (simp_all add: dev_standalone_def dev_opened_def and_bits)
      moreover have "dev_standalone a s \<Longrightarrow> unat (ref_count (devs s a)) = 0" using free(2) o by auto
      then have "dev_ok drv a t ?s" using ok1 k1 k2 n nz sa by (auto simp: dev_ok_def dev_ops_def)
      ultimately show ?thesis using that [of r ?s] True n free(2) o by simp
    qed
  qed
qed

lemma close_ok:
  assumes "dev_ok drv a t s"
  obtains r s' where "rt_device_close drv a s = Some (r, s')" "dev_ok drv a t s'" "dev_standalone a s' = dev_standalone a s"
    "unat (ref_count (devs s' a)) = unat (ref_count (devs s a)) - 1" "dev_ok_result r \<longleftrightarrow> ref_count (devs s a) \<noteq> 0"
proof (cases "ref_count (devs s a) = 0")
  case True
  then have "rt_device_close drv a s = Some (- RT_ERROR, s)" using assms by (simp add: rt_device_close_def dev_ok_def)
  with True assms that [of "- RT_ERROR" s] show ?thesis by (simp add: dev_ok_result_def)
next
  case False
  note o = assms [unfolded dev_ok_def]
  let ?s1 = "upd_dev a (\<lambda>d. d\<lparr>ref_count := ref_count d - 1\<rparr>) s"
  have n: "unat (ref_count (devs s a) - 1) = unat (ref_count (devs s a)) - 1" by (rule unat_pred [OF False])
  have st: "dev_standalone a ?s1 = dev_standalone a s" "dev_opened a ?s1 = dev_opened a s" "dev_ops drv a ?s1 = Some t"
    using o by (simp_all add: dev_standalone_def dev_opened_def dev_ops_def)
  show ?thesis
  proof (cases "ref_count (devs s a) - 1 = 0")
    case last: False
    then have "rt_device_close drv a s = Some (RT_EOK, ?s1)" using o False by (simp add: rt_device_close_def Let_def)
    moreover have "dev_ok drv a t ?s1" using o st n last False by (auto simp: dev_ok_def)
    ultimately show ?thesis using that [of RT_EOK ?s1] st n False by (simp add: dev_ok_result_def)
  next
    case True
    obtain r s2 where s2: "(case op_close t of None \<Rightarrow> Some (RT_EOK, ?s1) | Some f \<Rightarrow> f a ?s1) = Some (r, s2)" "dev_kept a ?s1 s2" "dev_ok_result r"
      using close_law [of _ ?s1] by (cases "op_close t") (auto simp: dev_kept_def dev_ok_result_def)
    note k2 = s2(2) [unfolded dev_kept_def]
    let ?s = "upd_dev a (\<lambda>d. d\<lparr>open_flag := RT_DEVICE_OFLAG_CLOSE\<rparr>) s2"
    have "rt_device_close drv a s = Some (r, ?s)" using o False True st s2(1,3) by (simp add: rt_device_close_def dev_ok_result_def Let_def)
    moreover have sa: "dev_standalone a ?s = dev_standalone a s" "\<not> dev_opened a ?s" "ref_count (devs ?s a) = 0"
      using k2 st True by (simp_all add: dev_standalone_def dev_opened_def)
    moreover have "dev_ok drv a t ?s" using o k2 sa by (simp add: dev_ok_def dev_ops_def)
    ultimately show ?thesis using that [of r ?s] n True False s2(3) by simp
  qed
qed

lemma run_ok:
  assumes "dev_ok drv a t s" "unat (ref_count (devs s a)) + length xs < 256"
  shows "\<exists>rs s'. device_run drv a xs s = Some (rs, s') \<and> length rs = length xs \<and> dev_ok drv a t s' \<and> dev_standalone a s' = dev_standalone a s \<and>
    unat (ref_count (devs s' a)) = users (unat (ref_count (devs s a))) (zip xs rs)"
  using assms
proof (induction xs arbitrary: s)
  case (Cons x xs)
  show ?case
  proof (cases x)
    case (Open oflag)
    have "unat (ref_count (devs s a)) < 255" using Cons.prems(2) by simp
    then obtain r s1 where s1: "rt_device_open drv a oflag s = Some (r, s1)" "dev_ok drv a t s1" "dev_standalone a s1 = dev_standalone a s"
      "unat (ref_count (devs s1 a)) = (if dev_ok_result r then Suc (unat (ref_count (devs s a))) else unat (ref_count (devs s a)))"
      using open_ok [OF Cons.prems(1)] by metis
    have "unat (ref_count (devs s1 a)) + length xs < 256" using Cons.prems(2) s1(4) by (simp split: if_splits)
    from Cons.IH [OF s1(2) this] Open s1 show ?thesis by auto
  next
    case Close
    obtain r s1 where s1: "rt_device_close drv a s = Some (r, s1)" "dev_ok drv a t s1" "dev_standalone a s1 = dev_standalone a s"
      "unat (ref_count (devs s1 a)) = unat (ref_count (devs s a)) - 1"
      by (rule close_ok [OF Cons.prems(1)])
    have "unat (ref_count (devs s1 a)) + length xs < 256" using Cons.prems(2) s1(4) by simp
    from Cons.IH [OF s1(2) this] Close s1 show ?thesis by auto
  qed
qed simp

end

section \<open>Properties\<close>

lemma set_dkern_simps [simp]: "dv_kern (set_dkern k s) = k" "devs (set_dkern k s) = devs s"
  by (simp_all add: set_dkern_def)

text \<open>What registering leaves behind.\<close>

lemma registered:
  assumes "rt_device_register c (Some a) name flags s = Some (RT_EOK, s')"
  shows "o_type (obj (dv_kern s') (Obj a)) = RT_Object_Class_Device OR RT_Object_Class_Static"
    and "devs s' a = (devs s a)\<lparr>d_flag := flags, ref_count := 0, open_flag := 0, fops := None, wait_flag := 0, wait_list := []\<rparr>"
proof -
  obtain found s1 where f: "rt_device_find c name s = Some (found, s1)"
    using assms by (auto simp: rt_device_register_def split: option.splits bind_splits)
  have d: "devs s1 = devs s" using f by (auto simp: rt_device_find_def Let_def split: bind_splits)
  obtain k where k: "rt_object_init (Obj a) RT_Object_Class_Device name (dv_kern s1) = Some k"
    "s' = upd_dev a (\<lambda>d. d\<lparr>d_flag := flags, ref_count := 0, open_flag := 0, fops := None, wait_flag := 0, wait_list := []\<rparr>) (set_dkern k s1)"
    using assms f by (auto simp: rt_device_register_def split: if_splits bind_splits)
  show "devs s' a = (devs s a)\<lparr>d_flag := flags, ref_count := 0, open_flag := 0, fops := None, wait_flag := 0, wait_list := []\<rparr>"
    using k(2) d by simp
  have "o_type (obj k (Obj a)) = RT_Object_Class_Device OR RT_Object_Class_Static"
    using k(1) by (auto simp: rt_object_init_def Let_def split: bind_splits if_splits)
  then show "o_type (obj (dv_kern s') (Obj a)) = RT_Object_Class_Device OR RT_Object_Class_Static" using k(2) by simp
qed

text \<open>A device that \<^verbatim>\<open>rt_device_create\<close> made cannot be given back: \<^verbatim>\<open>rt_device_destroy\<close> fails an assertion when it was never registered, because it has
  no class; when it is registered, because \<^verbatim>\<open>rt_object_init\<close> made it a static object; and when it was unregistered, because it has no class again.\<close>

theorem device_destroy_never_returns:
  assumes "rt_device_create c tname type n s = Some (Some a, s1)"
    and "rt_device_register c (Some a) name flags s1 = Some (RT_EOK, s2)"
    and "rt_device_unregister a s2 = Some (r, s3)"
  shows "rt_device_destroy c a s1 = None \<and> rt_device_destroy c a s2 = None \<and> rt_device_destroy c a s3 = None"
proof (intro conjI)
  have "o_type (obj (dv_kern s1) (Obj a)) = 0"
    using assms(1) by (auto simp: rt_device_create_def Let_def zero_object_def split: bind_splits option.splits)
  then show "rt_device_destroy c a s1 = None" by (simp add: rt_device_destroy_def is_device_def rt_object_get_type_def)
  show "rt_device_destroy c a s2 = None"
    using registered(1) [OF assms(2)] by (simp add: rt_device_destroy_def rt_object_is_systemobject_def)
  have "o_type (obj (dv_kern s3) (Obj a)) = 0"
    using assms(3) by (auto simp: rt_device_unregister_def rt_object_detach_def container_remove_def split: bind_splits if_splits)
  then show "rt_device_destroy c a s3 = None" by (simp add: rt_device_destroy_def is_device_def rt_object_get_type_def)
qed

definition no_devices :: dev_state where
  "no_devices = \<lparr>dv_pool = no_pools\<lparr>heap := demo_heap\<rparr>, devs = (\<lambda>_. zero_device), pin_hw = (\<lambda>_. None)\<rparr>"

lemma register_first:
  assumes "current_thread (cpus (dv_kern s) c) = None" "containers (dv_kern s) RT_Object_Class_Device = []"
  shows "\<exists>s'. rt_device_register c (Some a) name flags s = Some (RT_EOK, s')"
  using assms
  by (simp add: rt_device_register_def rt_device_find_def rt_thread_self_def rt_object_init_def rt_object_get_information_eq rt_object_classes_def set_dkern_def Let_def)

lemma no_devices_simps: "current_thread (cpus (dv_kern no_devices) c) = None" "containers (dv_kern no_devices) cl = []"
  "irq_nest (cpus (dv_kern no_devices) c) = 0" "heap (dv_pool no_devices) = demo_heap"
  by (simp_all add: no_devices_def no_pools_def zero_defs)

theorem device_destroy_never_returns_witness:
  "\<exists>a s1 s2 s3. rt_device_create 0 None 5 36 no_devices = Some (Some a, s1) \<and> rt_device_register 0 (Some a) ''dev'' 0 s1 = Some (RT_EOK, s2) \<and>
     rt_device_unregister a s2 = Some (RT_EOK, s3) \<and> rt_device_destroy 0 a s1 = None \<and> rt_device_destroy 0 a s2 = None \<and> rt_device_destroy 0 a s3 = None"
proof -
  obtain p h where p: "rt_malloc False None 100 demo_heap = Some (Some p, h)" using demo_malloc by blast
  then obtain s1 where s1: "rt_device_create 0 None 5 36 no_devices = Some (Some (unat p), s1)"
    "current_thread (cpus (dv_kern s1) 0) = None" "containers (dv_kern s1) RT_Object_Class_Device = []"
    by (simp add: rt_device_create_def no_devices_simps RT_ALIGN_def Let_def)
  obtain s2 where s2: "rt_device_register 0 (Some (unat p)) ''dev'' 0 s1 = Some (RT_EOK, s2)" using register_first [OF s1(2,3)] by blast
  then have "\<exists>s3. rt_device_unregister (unat p) s2 = Some (RT_EOK, s3)"
    using registered(1) [OF s2] by (simp add: rt_device_unregister_def is_device_def rt_object_get_type_def rt_object_is_systemobject_def)
  then obtain s3 where s3: "rt_device_unregister (unat p) s2 = Some (RT_EOK, s3)" ..
  show ?thesis using device_destroy_never_returns [OF s1(1) s2 s3] s1(1) s2 s3 by blast
qed

text \<open>When the driver of a device for a single user fails to close it, the device layer forgets the user and keeps the device open: from then on every attempt
  to open it is answered with \<^verbatim>\<open>-RT_EBUSY\<close> and every attempt to close it with \<^verbatim>\<open>-RT_ERROR\<close>, whatever is tried, and nothing changes any more.\<close>

theorem failed_close_locks_device:
  assumes "is_device a s" "dev_ops drv a s = Some t" "ref_count (devs s a) = 1"
    and "op_close t = Some f" "f a (upd_dev a (\<lambda>d. d\<lparr>ref_count := 0\<rparr>) s) = Some (r, s')" "dev_kept a (upd_dev a (\<lambda>d. d\<lparr>ref_count := 0\<rparr>) s) s'"
    and "dev_standalone a s'" "dev_opened a s'" "d_flag (devs s' a) AND RT_DEVICE_FLAG_ACTIVATED \<noteq> 0" "\<not> dev_ok_result r"
  shows "rt_device_close drv a s = Some (r, s') \<and>
    device_run drv a xs s' = Some (map (\<lambda>x. case x of Open _ \<Rightarrow> - RT_EBUSY | Close \<Rightarrow> - RT_ERROR) xs, s')"
proof
  let ?s = "upd_dev a (\<lambda>d. d\<lparr>ref_count := 0\<rparr>) s"
  have e: "upd_dev a (\<lambda>d. d\<lparr>ref_count := ref_count d - 1\<rparr>) s = ?s" using assms(3) by (simp add: upd_dev_def)
  have "dev_ops drv a ?s = Some t" using assms(2) by (simp add: dev_ops_def)
  then show "rt_device_close drv a s = Some (r, s')"
    using assms(1,3-5,10) by (simp add: e rt_device_close_def dev_ok_result_def Let_def)
  have d: "is_device a s'" "ref_count (devs s' a) = 0" using assms(1,6) by (simp_all add: dev_kept_def)
  then have c: "rt_device_close drv a s' = Some (- RT_ERROR, s')" by (simp add: rt_device_close_def)
  have "rt_device_open drv a oflag s' = Some (- RT_EBUSY, s')" for oflag
    using d assms(7-9) by (simp add: rt_device_open_def open_activate_def dev_standalone_def dev_opened_def)
  with c show "device_run drv a xs s' = Some (map (\<lambda>x. case x of Open _ \<Rightarrow> - RT_EBUSY | Close \<Rightarrow> - RT_ERROR) xs, s')"
    by (induction xs) (auto split: dev_op.split)
qed

text \<open>A driver that cannot close, on the device with address 7.\<close>

definition stuck_ops :: device_ops where
  "stuck_ops = \<lparr>op_init = None, op_open = None, op_close = Some (\<lambda>_ s. Some (- RT_ERROR, s)), op_read = None, op_write = None, op_control = None\<rparr>"

definition stuck_dev :: dev_state where
  "stuck_dev = upd_dev 7 (\<lambda>d. d\<lparr>d_flag := 0x18, open_flag := 8, ref_count := 1, ops := Some 0\<rparr>)
     (set_dkern (upd_obj (Obj 7) (\<lambda>ob. ob\<lparr>o_type := RT_Object_Class_Device\<rparr>) (dv_kern no_devices)) no_devices)"

theorem failed_close_locks_device_witness:
  "rt_device_close (\<lambda>_. stuck_ops) 7 stuck_dev = Some (- RT_ERROR, upd_dev 7 (\<lambda>d. d\<lparr>ref_count := 0\<rparr>) stuck_dev) \<and>
   device_run (\<lambda>_. stuck_ops) 7 [Open 0, Close, Open 3] (upd_dev 7 (\<lambda>d. d\<lparr>ref_count := 0\<rparr>) stuck_dev) =
     Some ([- RT_EBUSY, - RT_ERROR, - RT_EBUSY], upd_dev 7 (\<lambda>d. d\<lparr>ref_count := 0\<rparr>) stuck_dev)"
proof -
  let ?s = "upd_dev 7 (\<lambda>d. d\<lparr>ref_count := 0\<rparr>) stuck_dev"
  have "is_device 7 stuck_dev" by (simp add: stuck_dev_def is_device_def rt_object_get_type_def)
  moreover have "dev_ops (\<lambda>_. stuck_ops) 7 stuck_dev = Some stuck_ops" "ref_count (devs stuck_dev 7) = 1" by (simp_all add: stuck_dev_def dev_ops_def)
  moreover have "dev_kept 7 ?s ?s" "dev_standalone 7 ?s" "dev_opened 7 ?s" "d_flag (devs ?s 7) AND RT_DEVICE_FLAG_ACTIVATED \<noteq> 0"
    by (simp_all add: stuck_dev_def dev_kept_def dev_standalone_def dev_opened_def)
  ultimately show ?thesis
    using failed_close_locks_device [of 7 stuck_dev "\<lambda>_. stuck_ops" stuck_ops "\<lambda>_ s. Some (- RT_ERROR, s)" "- RT_ERROR" ?s "[Open 0, Close, Open 3]"]
    by (simp add: stuck_ops_def dev_ok_result_def)
qed

end
