(* ===== verification/Pin.thy ===== *)
theory Pin
  imports Device
begin

text \<open>
  The pin device (\<^verbatim>\<open>components/drivers/misc/pin.c\<close>): general purpose pins behind the device interface and behind functions of their own. The functions that drive
  the hardware are code of the board: \<open>hw\<close> gives for a table (by its number) the functions in it. Registers are memory, so they are part of the state. The driver is an
  instance of the contract of \<open>Device\<close>, which gives what a client may rely on.
\<close>

abbreviation (input) RT_Device_Class_Miscellaneous :: int where "RT_Device_Class_Miscellaneous \<equiv> 18"
abbreviation (input) RT_DEVICE_FLAG_RDWR :: u16 where "RT_DEVICE_FLAG_RDWR \<equiv> 0x3"

record rt_pin_ops =
  pin_mode :: "(nat \<Rightarrow> int \<Rightarrow> int \<Rightarrow> dev_state \<Rightarrow> dev_state option) option"
  pin_write :: "(nat \<Rightarrow> int \<Rightarrow> int \<Rightarrow> dev_state \<Rightarrow> dev_state option) option"
  pin_read :: "(nat \<Rightarrow> int \<Rightarrow> dev_state \<Rightarrow> (int \<times> dev_state) option) option"
  pin_attach_irq :: "(nat \<Rightarrow> int \<Rightarrow> u32 \<Rightarrow> nat option \<Rightarrow> u32 \<Rightarrow> dev_state \<Rightarrow> (rt_err_t \<times> dev_state) option) option"
  pin_detach_irq :: "(nat \<Rightarrow> int \<Rightarrow> dev_state \<Rightarrow> (rt_err_t \<times> dev_state) option) option"
  pin_irq_enable :: "(nat \<Rightarrow> int \<Rightarrow> u32 \<Rightarrow> dev_state \<Rightarrow> (rt_err_t \<times> dev_state) option) option"

type_synonym pin_tables = "nat \<Rightarrow> rt_pin_ops"

text \<open>Half words, the lower byte first. Both structures a client passes are two half words: the pin, and its mode or its status.\<close>

definition load_half :: "memory \<Rightarrow> u32 \<Rightarrow> u16" where
  "load_half m a = ucast (m a) OR push_bit 8 (ucast (m (a + 1)))"

definition store_half :: "u32 \<Rightarrow> u16 \<Rightarrow> memory \<Rightarrow> memory" where
  "store_half a v m = m(a := ucast v, a + 1 := ucast (drop_bit 8 v))"

abbreviation dv_mem :: "dev_state \<Rightarrow> memory" where
  "dv_mem s \<equiv> mem_of (dv_pool s)"

definition set_dmem :: "memory \<Rightarrow> dev_state \<Rightarrow> dev_state" where
  "set_dmem m s = s\<lparr>dv_pool := set_mem m (dv_pool s)\<rparr>"

section \<open>The device\<close>

definition pin_table :: "pin_tables \<Rightarrow> nat \<Rightarrow> dev_state \<Rightarrow> rt_pin_ops option" where
  "pin_table hw a s = map_option hw (pin_hw s a)"

definition dev_pin_read :: "pin_tables \<Rightarrow> nat \<Rightarrow> u32 \<Rightarrow> u32 \<Rightarrow> u32 \<Rightarrow> dev_state \<Rightarrow> (u32 \<times> dev_state) option" where
  "dev_pin_read hw a pos buffer sz s =
     (if buffer = 0 \<or> sz \<noteq> 4 then Some (0, s)
      else do {
        t \<leftarrow> pin_table hw a s;
        f \<leftarrow> pin_read t;
        (v, s1) \<leftarrow> f a (uint (load_half (dv_mem s) buffer)) s;
        Some (sz, set_dmem (store_half (buffer + 2) (word_of_int v) (dv_mem s1)) s1) })"

definition dev_pin_write :: "pin_tables \<Rightarrow> nat \<Rightarrow> u32 \<Rightarrow> u32 \<Rightarrow> u32 \<Rightarrow> dev_state \<Rightarrow> (u32 \<times> dev_state) option" where
  "dev_pin_write hw a pos buffer sz s =
     (if buffer = 0 \<or> sz \<noteq> 4 then Some (0, s)
      else do {
        t \<leftarrow> pin_table hw a s;
        f \<leftarrow> pin_write t;
        s1 \<leftarrow> f a (uint (load_half (dv_mem s) buffer)) (uint (load_half (dv_mem s) (buffer + 2))) s;
        Some (sz, s1) })"

definition dev_pin_control :: "pin_tables \<Rightarrow> nat \<Rightarrow> int \<Rightarrow> u32 \<Rightarrow> dev_state \<Rightarrow> (rt_err_t \<times> dev_state) option" where
  "dev_pin_control hw a cmd args s =
     (if args = 0 then Some (- RT_ERROR, s)
      else do {
        t \<leftarrow> pin_table hw a s;
        f \<leftarrow> pin_mode t;
        s1 \<leftarrow> f a (uint (load_half (dv_mem s) args)) (uint (load_half (dv_mem s) (args + 2))) s;
        Some (0, s1) })"

definition pin_ops :: "pin_tables \<Rightarrow> device_ops" where
  "pin_ops hw = \<lparr>op_init = None, op_open = None, op_close = None, op_read = Some (dev_pin_read hw), op_write = Some (dev_pin_write hw),
     op_control = Some (dev_pin_control hw)\<rparr>"

text \<open>\<open>hp\<close> is the address of \<^verbatim>\<open>_hw_pin\<close> and \<open>pt\<close> the number of the table \<^verbatim>\<open>pin_ops\<close>.\<close>

definition rt_device_pin_register :: "nat \<Rightarrow> nat \<Rightarrow> nat \<Rightarrow> string \<Rightarrow> nat option \<Rightarrow> u32 \<Rightarrow> dev_state \<Rightarrow> (int \<times> dev_state) option" where
  "rt_device_pin_register c hp pt name table data s = do {
     let s1 = upd_dev hp (\<lambda>d. d\<lparr>d_type := RT_Device_Class_Miscellaneous, rx_indicate := None, tx_complete := None, ops := Some pt, user_data := data\<rparr>) s;
     (_, s2) \<leftarrow> rt_device_register c (Some hp) name RT_DEVICE_FLAG_RDWR (s1\<lparr>pin_hw := (pin_hw s1)(hp := table)\<rparr>);
     Some (0, s2) }"

section \<open>The functions for pins\<close>

definition rt_pin_attach_irq ::
    "pin_tables \<Rightarrow> nat \<Rightarrow> int \<Rightarrow> u32 \<Rightarrow> nat option \<Rightarrow> u32 \<Rightarrow> dev_state \<Rightarrow> (rt_err_t \<times> dev_state) option" where
  "rt_pin_attach_irq hw hp pin mode hdr args s = do {
     t \<leftarrow> pin_table hw hp s;
     (case pin_attach_irq t of Some f \<Rightarrow> f hp pin mode hdr args s | None \<Rightarrow> Some (RT_ENOSYS, s)) }"

definition rt_pin_detach_irq :: "pin_tables \<Rightarrow> nat \<Rightarrow> int \<Rightarrow> dev_state \<Rightarrow> (rt_err_t \<times> dev_state) option" where
  "rt_pin_detach_irq hw hp pin s = do {
     t \<leftarrow> pin_table hw hp s;
     (case pin_detach_irq t of Some f \<Rightarrow> f hp pin s | None \<Rightarrow> Some (RT_ENOSYS, s)) }"

definition rt_pin_irq_enable :: "pin_tables \<Rightarrow> nat \<Rightarrow> int \<Rightarrow> u32 \<Rightarrow> dev_state \<Rightarrow> (rt_err_t \<times> dev_state) option" where
  "rt_pin_irq_enable hw hp pin enabled s = do {
     t \<leftarrow> pin_table hw hp s;
     (case pin_irq_enable t of Some f \<Rightarrow> f hp pin enabled s | None \<Rightarrow> Some (RT_ENOSYS, s)) }"

definition rt_pin_mode :: "pin_tables \<Rightarrow> nat \<Rightarrow> int \<Rightarrow> int \<Rightarrow> dev_state \<Rightarrow> dev_state option" where
  "rt_pin_mode hw hp pin mode s = do {
     t \<leftarrow> pin_table hw hp s;
     f \<leftarrow> pin_mode t;
     f hp pin mode s }"

definition rt_pin_write :: "pin_tables \<Rightarrow> nat \<Rightarrow> int \<Rightarrow> int \<Rightarrow> dev_state \<Rightarrow> dev_state option" where
  "rt_pin_write hw hp pin v s = do {
     t \<leftarrow> pin_table hw hp s;
     f \<leftarrow> pin_write t;
     f hp pin v s }"

definition rt_pin_read :: "pin_tables \<Rightarrow> nat \<Rightarrow> int \<Rightarrow> dev_state \<Rightarrow> (int \<times> dev_state) option" where
  "rt_pin_read hw hp pin s = do {
     t \<leftarrow> pin_table hw hp s;
     f \<leftarrow> pin_read t;
     f hp pin s }"

section \<open>Properties\<close>

interpretation pin_driver: device_driver "pin_ops hw" a for hw a
  by unfold_locales (simp_all add: pin_ops_def)

lemma store_load_half: "load_half (store_half a v m) a = v"
  by (rule bit_word_eqI) (auto simp: load_half_def store_half_def bit_or_iff bit_push_bit_iff bit_ucast_iff bit_drop_bit_eq)

lemma store_half_above: "load_half (store_half (a + 2) v m) a = load_half m a"
proof -
  have "a \<noteq> a + 2" "a \<noteq> a + 2 + 1" "a + 1 \<noteq> a + 2" "a + 1 \<noteq> a + 2 + 1" for a :: u32
    by (simp_all add: add.assoc)
  then show ?thesis by (simp add: load_half_def store_half_def)
qed

text \<open>C32. From registration on, and for every driver that keeps its contract, a device is open exactly as long as somebody has it open: after any sequence of fewer than 256
  opens and closes each of them has returned, the count is the number of users by the results they got, and a device for a single user has at most one.\<close>

theorem device_lifecycle:
  assumes "rt_device_register c (Some a) name flags s0 = Some (RT_EOK, s)" "dev_ops drv a s0 = Some t" "device_driver t a" "length xs < 256"
  shows "\<exists>rs s'. device_run drv a xs s = Some (rs, s') \<and> length rs = length xs \<and> is_device a s' \<and>
    unat (ref_count (devs s' a)) = users 0 (zip xs rs) \<and> (dev_opened a s' \<longleftrightarrow> users 0 (zip xs rs) \<noteq> 0) \<and>
    (flags AND RT_DEVICE_FLAG_STANDALONE \<noteq> 0 \<longrightarrow> users 0 (zip xs rs) \<le> 1)"
proof -
  note r = registered [OF assms(1)]
  have "dev_ok drv a t s" using r assms(2)
    by (simp add: dev_ok_def is_device_def rt_object_get_type_def dev_ops_def dev_opened_def)
  moreover have "unat (ref_count (devs s a)) + length xs < 256" "unat (ref_count (devs s a)) = 0" "dev_standalone a s \<longleftrightarrow> flags AND RT_DEVICE_FLAG_STANDALONE \<noteq> 0"
    using r(2) assms(4) by (simp_all add: dev_standalone_def)
  ultimately show ?thesis using device_driver.run_ok [OF assms(3), of drv s xs] unfolding dev_ok_def by (metis unat_eq_0)
qed

definition gpio :: rt_pin_ops where
  "gpio = \<lparr>pin_mode = None,
     pin_write = Some (\<lambda>_ p v s. Some (set_dmem ((dv_mem s)(0x2000 + word_of_int p := word_of_int v)) s)),
     pin_read = Some (\<lambda>_ p s. Some (uint (dv_mem s (0x2000 + word_of_int p)), s)), pin_attach_irq = None, pin_detach_irq = None, pin_irq_enable = None\<rparr>"

theorem device_lifecycle_witness:
  "\<exists>s rs s'. rt_device_register 0 (Some 7) ''pin'' 3 (upd_dev 7 (\<lambda>d. d\<lparr>ops := Some 1\<rparr>) no_devices) = Some (RT_EOK, s) \<and>
     device_run (\<lambda>_. pin_ops (\<lambda>_. gpio)) 7 [Open 3, Open 3, Close] s = Some (rs, s') \<and> length rs = 3 \<and>
     unat (ref_count (devs s' 7)) = users 0 (zip [Open 3, Open 3, Close] rs)"
proof -
  let ?s0 = "upd_dev 7 (\<lambda>d. d\<lparr>ops := Some 1\<rparr>) no_devices"
  obtain s where s: "rt_device_register 0 (Some 7) ''pin'' 3 ?s0 = Some (RT_EOK, s)"
    using register_first [of ?s0 0 7 "''pin''" 3] no_devices_simps(1,2) by (auto simp: upd_dev_simps(2))
  have "dev_ops (\<lambda>_. pin_ops (\<lambda>_. gpio)) 7 ?s0 = Some (pin_ops (\<lambda>_. gpio))" by (simp add: dev_ops_def)
  from device_lifecycle [OF s this pin_driver.device_driver_axioms, of "[Open 3, Open 3, Close]"] s show ?thesis by auto
qed

text \<open>Reading the pin device with a status of four bytes asks the board for the pin named in it and stores the low half of the answer behind the pin, which stays; a null buffer or
  another size gives 0 and changes nothing.\<close>

theorem pin_read_stores_status:
  assumes "is_device a s" "ref_count (devs s a) \<noteq> 0" "dev_ops drv a s = Some (pin_ops hw)"
    and "pin_table hw a s = Some t" "pin_read t = Some f" "f a (uint (load_half (dv_mem s) buffer)) s = Some (v, s1)" "buffer \<noteq> 0"
  shows "rt_device_read drv c a pos 0 4 s = Some (0, s) \<and> (sz \<noteq> 4 \<longrightarrow> rt_device_read drv c a pos buffer sz s = Some (0, s)) \<and>
    (\<exists>s'. rt_device_read drv c a pos buffer 4 s = Some (4, s') \<and> load_half (dv_mem s') (buffer + 2) = word_of_int v \<and>
      load_half (dv_mem s') buffer = load_half (dv_mem s1) buffer \<and> devs s' = devs s1 \<and> dv_kern s' = dv_kern s1)"
  using assms by (simp add: rt_device_read_def pin_ops_def dev_pin_read_def set_dmem_def set_mem_def store_load_half store_half_above)

definition demo_pin :: dev_state where
  "demo_pin = set_dmem (store_half 0x3000 5 ((\<lambda>_. 0)(0x2005 := 1))) (stuck_dev\<lparr>pin_hw := (\<lambda>_. Some 0)\<rparr>)"

lemma demo_pin_device:
  "is_device 7 demo_pin" "ref_count (devs demo_pin 7) \<noteq> 0" "dev_ops (\<lambda>_. t) 7 demo_pin = Some t" "pin_table (\<lambda>_. g) 7 demo_pin = Some g"
  by (simp_all add: demo_pin_def stuck_dev_def set_dmem_def set_mem_def is_device_def rt_object_get_type_def dev_ops_def pin_table_def upd_dev_def set_dkern_def)

theorem pin_read_stores_status_witness:
  "\<exists>s'. rt_device_read (\<lambda>_. pin_ops (\<lambda>_. gpio)) 0 7 0 0x3000 4 demo_pin = Some (4, s') \<and> load_half (dv_mem s') 0x3002 = 1"
proof -
  have "load_half (dv_mem demo_pin) 0x3000 = 5" "dv_mem demo_pin 0x2005 = 1"
    by (simp_all add: demo_pin_def set_dmem_def set_mem_def store_load_half store_half_def [of "0x3000"])
       (simp_all add: load_half_def)
  then have "the (pin_read gpio) 7 (uint (load_half (dv_mem demo_pin) 0x3000)) demo_pin = Some (1, demo_pin)" by (simp add: gpio_def)
  moreover have "pin_read gpio = Some (the (pin_read gpio))" by (simp add: gpio_def)
  ultimately show ?thesis
    using pin_read_stores_status [OF demo_pin_device(1,2), of "\<lambda>_. pin_ops (\<lambda>_. gpio)" "\<lambda>_. gpio" gpio "the (pin_read gpio)" "0x3000" 1 demo_pin 0 0]
    by (auto simp: demo_pin_device(3,4))
qed

end
