(* ===== verification/WorkQueue.thy ===== *)
theory WorkQueue
  imports Sem
begin

text \<open>
  Work queues (\<^verbatim>\<open>components/drivers/src/workqueue.c\<close>): works are queued, at once or when a timer of the work expires, and a thread of the queue runs them one after the other.
  The loop of that thread is split where it may stop: \<open>workqueue_sleep\<close> is its test and its suspension, \<open>workqueue_round\<close> what it does when it runs on. What a work does is a
  parameter. A work is on one list at most, so that removing it takes it off whatever list it is on. The semaphore and the timer are the objects inside the
  structures of a queue and of a work.
\<close>

abbreviation (input) RT_WORK_STATE_PENDING :: u16 where "RT_WORK_STATE_PENDING \<equiv> 1"
abbreviation (input) RT_WORK_STATE_SUBMITTING :: u16 where "RT_WORK_STATE_SUBMITTING \<equiv> 2"
abbreviation (input) RT_WORK_TYPE_DELAYED :: u16 where "RT_WORK_TYPE_DELAYED \<equiv> 1"
abbreviation (input) EINVAL :: int where "EINVAL \<equiv> 22"

section \<open>State\<close>

record rt_workqueue =
  work_list :: "nat list"
  work_current :: "nat option"
  work_thread :: nat

record rt_work =
  work_func :: nat
  work_data :: u32
  w_flags :: u16
  w_type :: u16
  workqueue :: "nat option"

record wq_state =
  wq_kern :: kernel
  queues :: "nat \<Rightarrow> rt_workqueue"
  works :: "nat \<Rightarrow> rt_work"
  sys_workq :: "nat option"

text \<open>The offsets of the semaphore in a queue and of the timer in a work.\<close>

definition wq_sem :: "nat \<Rightarrow> nat" where
  "wq_sem q = q + 12"

definition work_timer :: "nat \<Rightarrow> oid" where
  "work_timer w = Obj (w + 20)"

definition set_wkern :: "kernel \<Rightarrow> wq_state \<Rightarrow> wq_state" where
  "set_wkern k s = s\<lparr>wq_kern := k\<rparr>"

definition upd_queue :: "nat \<Rightarrow> (rt_workqueue \<Rightarrow> rt_workqueue) \<Rightarrow> wq_state \<Rightarrow> wq_state" where
  "upd_queue q f s = s\<lparr>queues := (queues s)(q := f (queues s q))\<rparr>"

definition upd_work :: "nat \<Rightarrow> (rt_work \<Rightarrow> rt_work) \<Rightarrow> wq_state \<Rightarrow> wq_state" where
  "upd_work w f s = s\<lparr>works := (works s)(w := f (works s w))\<rparr>"

definition wl_remove :: "nat \<Rightarrow> wq_state \<Rightarrow> wq_state" where
  "wl_remove w s = s\<lparr>queues := (\<lambda>q. (queues s q)\<lparr>work_list := removeAll w (work_list (queues s q))\<rparr>)\<rparr>"

definition rt_work_init :: "nat \<Rightarrow> nat \<Rightarrow> u32 \<Rightarrow> wq_state \<Rightarrow> wq_state" where
  "rt_work_init w f data = upd_work w (\<lambda>_. \<lparr>work_func = f, work_data = data, w_flags = 0, w_type = 0, workqueue = None\<rparr>)"

definition rt_delayed_work_init :: "nat \<Rightarrow> nat \<Rightarrow> u32 \<Rightarrow> wq_state \<Rightarrow> wq_state" where
  "rt_delayed_work_init w f data = rt_work_init w f data"

section \<open>The thread of a queue\<close>

partial_function (option) completion_loop :: "nat \<Rightarrow> nat \<Rightarrow> kernel \<Rightarrow> (rt_err_t \<times> kernel) option" where
  "completion_loop c a k = do {
     (out, k1) \<leftarrow> rt_sem_trytake c a k;
     (case out of
        Wait _ \<Rightarrow> None
      | Ret result \<Rightarrow>
          if result = - RT_ETIMEOUT then do {
            (_, k2) \<leftarrow> rt_sem_release c a k1;
            completion_loop c a k2 }
          else if result = RT_EOK then Some (RT_EOK, k1)
          else Some (- RT_ERROR, k1)) }"

definition work_completion :: "nat \<Rightarrow> nat \<Rightarrow> kernel \<Rightarrow> (rt_err_t \<times> kernel) option" where
  "work_completion c q k = do {
     (result, k1) \<leftarrow> completion_loop c (wq_sem q) (rt_enter_critical c k);
     k2 \<leftarrow> rt_exit_critical c k1;
     Some (result, k2) }"

definition workqueue_sleep :: "nat \<Rightarrow> nat \<Rightarrow> wq_state \<Rightarrow> wq_state option" where
  "workqueue_sleep c q s =
     (if work_list (queues s q) = [] then do {
        t \<leftarrow> rt_thread_self c (wq_kern s);
        (_, k1) \<leftarrow> rt_thread_suspend c t (wq_kern s);
        k2 \<leftarrow> rt_schedule c k1;
        Some (set_wkern k2 s) }
      else Some s)"

text \<open>The first work is taken without a test. With nothing on the list its head, which is the queue itself, would be taken for a work and the pointer to the current work, which then is
  the queue, be called as its function.\<close>

definition workqueue_take :: "nat \<Rightarrow> wq_state \<Rightarrow> (nat \<times> wq_state) option" where
  "workqueue_take q s = (case work_list (queues s q) of
     [] \<Rightarrow> None
   | w # _ \<Rightarrow> Some (w, upd_work w (\<lambda>x. x\<lparr>w_flags := w_flags x AND NOT RT_WORK_STATE_PENDING, workqueue := None\<rparr>)
       (upd_queue q (\<lambda>x. x\<lparr>work_current := Some w\<rparr>) (wl_remove w s))))"

definition workqueue_round :: "(nat \<Rightarrow> nat \<Rightarrow> u32 \<Rightarrow> wq_state \<Rightarrow> wq_state option) \<Rightarrow> nat \<Rightarrow> nat \<Rightarrow> wq_state \<Rightarrow> wq_state option" where
  "workqueue_round run c q s = do {
     (w, s1) \<leftarrow> workqueue_take q s;
     s2 \<leftarrow> run (work_func (works s1 w)) w (work_data (works s1 w)) s1;
     let s3 = upd_queue q (\<lambda>x. x\<lparr>work_current := None\<rparr>) s2;
     (_, k) \<leftarrow> work_completion c q (wq_kern s3);
     Some (set_wkern k s3) }"

section \<open>Submitting and cancelling\<close>

text \<open>Queueing at the end, and waking the thread of the queue when it is not at work.\<close>

definition wl_insert_last :: "nat \<Rightarrow> nat \<Rightarrow> wq_state \<Rightarrow> wq_state" where
  "wl_insert_last q w s = upd_queue q (\<lambda>x. x\<lparr>work_list := work_list x @ [w]\<rparr>) s"

definition wake_worker :: "nat \<Rightarrow> nat \<Rightarrow> wq_state \<Rightarrow> wq_state option" where
  "wake_worker c q s =
     (if work_current (queues s q) = None then do {
        (_, k1) \<leftarrow> rt_thread_resume c (work_thread (queues s q)) (wq_kern s);
        k2 \<leftarrow> rt_schedule c k1;
        Some (set_wkern k2 s) }
      else Some s)"

definition workqueue_submit_work :: "nat \<Rightarrow> nat \<Rightarrow> nat \<Rightarrow> wq_state \<Rightarrow> (rt_err_t \<times> wq_state) option" where
  "workqueue_submit_work c q w s =
     (if w_flags (works s w) AND RT_WORK_STATE_PENDING \<noteq> 0 then Some (- RT_EBUSY, s)
      else if work_current (queues s q) = Some w then Some (- RT_EBUSY, s)
      else do {
        s1 \<leftarrow> wake_worker c q (upd_work w (\<lambda>x. x\<lparr>w_flags := w_flags x OR RT_WORK_STATE_PENDING\<rparr>) (wl_insert_last q w (wl_remove w s)));
        Some (RT_EOK, s1) })"

definition workqueue_cancel_work :: "nat \<Rightarrow> nat \<Rightarrow> wq_state \<Rightarrow> rt_err_t \<times> wq_state" where
  "workqueue_cancel_work q w s =
     (if work_current (queues s q) = Some w then (- RT_EBUSY, s)
      else (RT_EOK, upd_work w (\<lambda>x. x\<lparr>w_flags := w_flags x AND NOT RT_WORK_STATE_PENDING\<rparr>) (wl_remove w s)))"

definition stop_work_timer :: "nat \<Rightarrow> wq_state \<Rightarrow> wq_state option" where
  "stop_work_timer w s = do {
     (_, k1) \<leftarrow> rt_timer_stop (work_timer w) (wq_kern s);
     k2 \<leftarrow> rt_timer_detach (work_timer w) k1;
     Some (upd_work w (\<lambda>x. x\<lparr>w_flags := w_flags x AND NOT RT_WORK_STATE_SUBMITTING\<rparr>) (set_wkern k2 s)) }"

definition workqueue_cancel_delayed_work :: "nat \<Rightarrow> wq_state \<Rightarrow> (rt_err_t \<times> wq_state) option" where
  "workqueue_cancel_delayed_work w s = (case workqueue (works s w) of
     None \<Rightarrow> Some (- EINVAL, s)
   | Some q \<Rightarrow> do {
       (ret, s1) \<leftarrow> (if w_flags (works s w) AND RT_WORK_STATE_PENDING \<noteq> 0 then Some (workqueue_cancel_work q w s)
         else if w_flags (works s w) AND RT_WORK_STATE_SUBMITTING \<noteq> 0 then map_option (Pair RT_EOK) (stop_work_timer w s)
         else Some (RT_EOK, s));
       if ret \<noteq> RT_EOK then Some (ret, s1)
       else Some (ret, upd_work w (\<lambda>x. x\<lparr>workqueue := None, w_flags := w_flags x AND NOT RT_WORK_STATE_PENDING\<rparr>) s1) })"

text \<open>\<open>h\<close> is the callback \<^verbatim>\<open>_delayed_work_timeout_handler\<close>.\<close>

definition workqueue_submit_delayed_work :: "timeout_fn \<Rightarrow> nat \<Rightarrow> nat \<Rightarrow> nat \<Rightarrow> u32 \<Rightarrow> wq_state \<Rightarrow> (rt_err_t \<times> wq_state) option" where
  "workqueue_submit_delayed_work h c q w ticks s =
     (if workqueue (works s w) \<noteq> None \<and> workqueue (works s w) \<noteq> Some q then Some (- RT_EINVAL, s)
      else do {
        (ret, s1) \<leftarrow> (if workqueue (works s w) = Some q then workqueue_cancel_delayed_work w s else Some (RT_EOK, s));
        if ret < 0 then Some (ret, s1)
        else let s2 = upd_work w (\<lambda>x. x\<lparr>workqueue := Some q\<rparr>) s1
          in if ticks = 0 then workqueue_submit_work c q w s2
          else do {
            k1 \<leftarrow> rt_timer_init (work_timer w) ''work'' h w ticks (RT_TIMER_FLAG_ONE_SHOT OR RT_TIMER_FLAG_SOFT_TIMER) (wq_kern s2);
            k2 \<leftarrow> rt_timer_start c (work_timer w) k1;
            Some (ret, set_wkern k2 (upd_work w (\<lambda>x. x\<lparr>w_flags := w_flags x OR RT_WORK_STATE_SUBMITTING\<rparr>) s2)) } })"

definition delayed_work_timeout_handler :: "nat \<Rightarrow> nat \<Rightarrow> wq_state \<Rightarrow> wq_state option" where
  "delayed_work_timeout_handler c w s = do {
     s1 \<leftarrow> stop_work_timer w s;
     let s2 = upd_work w (\<lambda>x. x\<lparr>w_type := w_type x AND NOT RT_WORK_TYPE_DELAYED\<rparr>) s1;
     (case workqueue (works s2 w) of
        None \<Rightarrow> if w_flags (works s2 w) AND RT_WORK_STATE_PENDING \<noteq> 0 then Some s2 else None
      | Some q \<Rightarrow> map_option snd (workqueue_submit_work c q w s2)) }"

section \<open>The interface\<close>

text \<open>\<open>e\<close> is the entry of the thread; \<open>malloc\<close>, \<open>mt\<close> and \<open>ms\<close> are what the allocator returns for the queue, the thread and its stack.\<close>

definition rt_workqueue_create ::
    "nat \<Rightarrow> code_ptr \<Rightarrow> string \<Rightarrow> u16 \<Rightarrow> u8 \<Rightarrow> nat option \<Rightarrow> nat option \<Rightarrow> nat option \<Rightarrow> wq_state \<Rightarrow> (nat option \<times> wq_state) option" where
  "rt_workqueue_create c e name stksz priority malloc mt ms s = (case malloc of
     None \<Rightarrow> Some (None, s)
   | Some q \<Rightarrow> do {
       let s1 = upd_queue q (\<lambda>x. x\<lparr>work_list := [], work_current := None\<rparr>) s;
       (_, k1) \<leftarrow> rt_sem_init (wq_sem q) ''wqueue'' 0 RT_IPC_FLAG_FIFO (wq_kern s1);
       (a, k2) \<leftarrow> rt_thread_create c name e q (ucast stksz) priority 10 mt ms k1;
       (case a of
          None \<Rightarrow> Some (None, set_wkern k2 s1)
        | Some t \<Rightarrow> do {
            k3 \<leftarrow> rt_thread_startup c t k2;
            Some (Some q, set_wkern k3 (upd_queue q (\<lambda>x. x\<lparr>work_thread := t\<rparr>) s1)) }) })"

definition rt_workqueue_destroy :: "nat \<Rightarrow> wq_state \<Rightarrow> (rt_err_t \<times> wq_state) option" where
  "rt_workqueue_destroy q s = do {
     k \<leftarrow> rt_thread_delete (work_thread (queues s q)) (wq_kern s);
     Some (RT_EOK, set_wkern k s) }"

definition rt_workqueue_dowork :: "nat \<Rightarrow> nat \<Rightarrow> nat \<Rightarrow> wq_state \<Rightarrow> (rt_err_t \<times> wq_state) option" where
  "rt_workqueue_dowork c q w s = workqueue_submit_work c q w s"

definition rt_workqueue_submit_work :: "timeout_fn \<Rightarrow> nat \<Rightarrow> nat \<Rightarrow> nat \<Rightarrow> u32 \<Rightarrow> wq_state \<Rightarrow> (rt_err_t \<times> wq_state) option" where
  "rt_workqueue_submit_work h c q w time s =
     (let s1 = (if time > 0 then upd_work w (\<lambda>x. x\<lparr>w_type := w_type x OR RT_WORK_TYPE_DELAYED\<rparr>) s else s)
      in if w_type (works s1 w) AND RT_WORK_TYPE_DELAYED \<noteq> 0 then workqueue_submit_delayed_work h c q w time s1
      else workqueue_submit_work c q w s1)"

definition rt_workqueue_critical_work :: "nat \<Rightarrow> nat \<Rightarrow> nat \<Rightarrow> wq_state \<Rightarrow> (rt_err_t \<times> wq_state) option" where
  "rt_workqueue_critical_work c q w s =
     (if work_current (queues s q) = Some w then Some (- RT_EBUSY, s)
      else do {
        s1 \<leftarrow> wake_worker c q (wl_insert_last q w (wl_remove w s));
        Some (RT_EOK, s1) })"

definition rt_workqueue_cancel_work :: "nat \<Rightarrow> nat \<Rightarrow> wq_state \<Rightarrow> (rt_err_t \<times> wq_state) option" where
  "rt_workqueue_cancel_work q w s =
     (if w_type (works s w) AND RT_WORK_TYPE_DELAYED \<noteq> 0 then workqueue_cancel_delayed_work w s
      else Some (workqueue_cancel_work q w s))"

text \<open>The result of waiting is ignored; the flag is cleared after it.\<close>

definition clear_pending :: "nat \<Rightarrow> wq_state \<Rightarrow> wq_state" where
  "clear_pending w = upd_work w (\<lambda>x. x\<lparr>w_flags := w_flags x AND NOT RT_WORK_STATE_PENDING\<rparr>)"

definition rt_workqueue_cancel_work_sync :: "nat \<Rightarrow> nat \<Rightarrow> nat \<Rightarrow> wq_state \<Rightarrow> (nat outcome \<times> wq_state) option" where
  "rt_workqueue_cancel_work_sync c q w s =
     (if work_current (queues s q) = Some w then do {
        (out, k) \<leftarrow> rt_sem_take c (wq_sem q) RT_WAITING_FOREVER (wq_kern s);
        Some (case out of Ret _ \<Rightarrow> (Ret RT_EOK, clear_pending w (set_wkern k s)) | Wait t \<Rightarrow> (Wait t, set_wkern k s)) }
      else Some (Ret RT_EOK, clear_pending w (wl_remove w s)))"

definition rt_workqueue_cancel_work_sync_resume :: "nat \<Rightarrow> wq_state \<Rightarrow> rt_err_t \<times> wq_state" where
  "rt_workqueue_cancel_work_sync_resume w s = (RT_EOK, clear_pending w s)"

definition rt_workqueue_cancel_all_work :: "nat \<Rightarrow> nat \<Rightarrow> wq_state \<Rightarrow> (rt_err_t \<times> wq_state) option" where
  "rt_workqueue_cancel_all_work c q s = do {
     let s1 = upd_queue q (\<lambda>x. x\<lparr>work_list := []\<rparr>) (set_wkern (rt_enter_critical c (wq_kern s)) s);
     k \<leftarrow> rt_exit_critical c (wq_kern s1);
     Some (RT_EOK, set_wkern k s1) }"

text \<open>The queue of the system.\<close>

definition rt_work_submit :: "timeout_fn \<Rightarrow> nat \<Rightarrow> nat \<Rightarrow> u32 \<Rightarrow> wq_state \<Rightarrow> (rt_err_t \<times> wq_state) option" where
  "rt_work_submit h c w time s = do { q \<leftarrow> sys_workq s; rt_workqueue_submit_work h c q w time s }"

definition rt_work_cancel :: "nat \<Rightarrow> wq_state \<Rightarrow> (rt_err_t \<times> wq_state) option" where
  "rt_work_cancel w s = do { q \<leftarrow> sys_workq s; rt_workqueue_cancel_work q w s }"

definition rt_work_sys_workqueue_init :: "nat \<Rightarrow> code_ptr \<Rightarrow> nat option \<Rightarrow> nat option \<Rightarrow> nat option \<Rightarrow> wq_state \<Rightarrow> (rt_err_t \<times> wq_state) option" where
  "rt_work_sys_workqueue_init c e malloc mt ms s =
     (if sys_workq s \<noteq> None then Some (0, s)
      else do {
        (q, s1) \<leftarrow> rt_workqueue_create c e ''sys_work'' 2048 23 malloc mt ms s;
        Some (RT_EOK, s1\<lparr>sys_workq := q\<rparr>) })"

section \<open>Completion\<close>

lemma enter_critical_thread:
  assumes "current_thread (cpus k c) = Some t"
  shows "scheduler_lock_nest (thr (rt_enter_critical c k) t) = scheduler_lock_nest (thr k t) + 1" "cpus (rt_enter_critical c k) = cpus k"
    "tlists (rt_enter_critical c k) = tlists k" "sems (rt_enter_critical c k) = sems k" "obj (rt_enter_critical c k) = obj k"
  using assms by (simp_all add: rt_enter_critical_def)

text \<open>The thread of a queue runs in a critical section: calls of the scheduler do nothing.\<close>

definition in_critical :: "nat \<Rightarrow> nat \<Rightarrow> kernel \<Rightarrow> bool" where
  "in_critical c t k \<longleftrightarrow> current_thread (cpus k c) = Some t \<and> irq_nest (cpus k c) = 0 \<and> scheduler_lock_nest (thr k t) \<noteq> 0 \<and> no_signal (thr k t)"

lemma schedule_in_critical: "in_critical c t k \<Longrightarrow> rt_schedule c k = Some k"
  by (simp add: in_critical_def rt_schedule_def signal_wakeup_def no_signal_def)

lemma completion_loop_ends:
  assumes "sched_inv k" "in_critical c t k" "has_class RT_Object_Class_Semaphore a k" "waiters_live (Suspend a) k" "t \<notin> set (tlists k (Suspend a))"
    and "sem_value (sems k a) = 0"
  obtains k' where "completion_loop c a k = Some (RT_EOK, k')" "sched_inv k'" "in_critical c t k'" "sem_abs a k' = (0, [])"
    "\<forall>u. u \<notin> set (tlists k (Suspend a)) \<longrightarrow> thr k' u = thr k u" "\<forall>y. rt_object_get_type y k' = rt_object_get_type y k"
    "\<forall>u \<in> set (tlists k (Suspend a)). stat_of (thr k' u) \<noteq> RT_THREAD_SUSPEND \<and> error (thr k' u) = error (thr k u)"
  using assms
proof (induction "tlists k (Suspend a)" arbitrary: k thesis)
  case Nil
  let ?k = "set_sem a 1 k"
  have e: "tlists k (Suspend a) = []" using Nil.hyps by simp
  have t: "rt_sem_trytake c a k = Some (Ret (- RT_ETIMEOUT), k)" using Nil.prems(4,7) by (simp add: rt_sem_trytake_def rt_sem_take_def)
  have r: "rt_sem_release c a k = Some (RT_EOK, ?k)" using Nil.prems(4,7) e by (simp add: rt_sem_release_def tlist_isempty_def)
  have t2: "rt_sem_trytake c a ?k = Some (Ret RT_EOK, set_sem a 0 ?k)"
    using Nil.prems(4) by (simp add: rt_sem_trytake_def rt_sem_take_def has_class_def rt_object_get_type_def)
  have "completion_loop c a ?k = Some (RT_EOK, set_sem a 0 ?k)" by (subst completion_loop.simps) (simp add: t2)
  then have "completion_loop c a k = Some (RT_EOK, set_sem a 0 ?k)" by (subst completion_loop.simps) (simp add: t r)
  then show ?case using Nil.prems(1) [of "set_sem a 0 ?k"] Nil.prems(2,3) e by (simp add: in_critical_def sem_abs_def rt_object_get_type_def)
next
  case (Cons u us)
  have l: "tlists k (Suspend a) = u # us" using Cons.hyps(2) by simp
  have d: "u \<notin> set us" using tlists_okD(1) [OF sched_inv_exD(1) [OF Cons.prems(2)], of "Suspend a"] l by simp
  have u: "u \<in> set (tlists k (Suspend a))" "is_thread u k" "is_timer (ThreadTimer u) k" "u \<noteq> t"
    using Cons.prems(5,6) l by (auto simp: waiters_live_def)
  obtain k1 where k1: "rt_thread_resume c u k = Some (RT_EOK, k1)" "sched_inv k1"
    "\<And>m. is_wq m \<Longrightarrow> tlists k1 m = removeAll u (tlists k m)"
    "stat_of (thr k1 u) \<noteq> RT_THREAD_SUSPEND" "error (thr k1 u) = error (thr k u)" "\<And>s. s \<noteq> u \<Longrightarrow> thr k1 s = thr k s"
    "\<And>y. rt_object_get_type y k1 = rt_object_get_type y k"
    "\<And>d. current_thread (cpus k1 d) = current_thread (cpus k d)" "\<And>d. irq_nest (cpus k1 d) = irq_nest (cpus k d)"
    by (rule resume_waiter [OF Cons.prems(2) u(1) wq_lists(1) u(2,3), of c]) metis
  have l1: "tlists k1 (Suspend a) = us" using k1(3) [OF wq_lists(1)] l d by simp
  have c1: "in_critical c t k1" using Cons.prems(3) k1(6,8,9) u(4) by (simp add: in_critical_def)
  have "rt_ipc_list_resume c (Suspend a) k = Some k1" using k1(1) l by (simp add: rt_ipc_list_resume_def)
  then have r: "rt_sem_release c a k = Some (RT_EOK, k1)"
    using Cons.prems(4) l schedule_in_critical [OF c1] by (simp add: rt_sem_release_def tlist_isempty_def)
  have t: "rt_sem_trytake c a k = Some (Ret (- RT_ETIMEOUT), k)" using Cons.prems(4,7) by (simp add: rt_sem_trytake_def rt_sem_take_def)
  have live: "has_class RT_Object_Class_Semaphore a k1" "waiters_live (Suspend a) k1" "t \<notin> set (tlists k1 (Suspend a))"
    using Cons.prems(4-6) l l1 k1(7) by (auto simp: has_class_def waiters_live_def is_timer_def is_thread_def)
  have v: "sem_value (sems k1 a) = 0" using sem_frame [OF ipc_resume [OF k1(1)]] Cons.prems(7) by simp
  obtain k' where k': "completion_loop c a k1 = Some (RT_EOK, k')" "sched_inv k'" "in_critical c t k'" "sem_abs a k' = (0, [])"
    "\<forall>u. u \<notin> set (tlists k1 (Suspend a)) \<longrightarrow> thr k' u = thr k1 u" "\<forall>y. rt_object_get_type y k' = rt_object_get_type y k1"
    "\<forall>u \<in> set (tlists k1 (Suspend a)). stat_of (thr k' u) \<noteq> RT_THREAD_SUSPEND \<and> error (thr k' u) = error (thr k1 u)"
    using Cons.hyps(1) [OF l1 [symmetric] _ k1(2) c1 live v] by blast
  have "completion_loop c a k = Some (RT_EOK, k')" by (subst completion_loop.simps) (simp add: t r k'(1))
  moreover have "\<forall>v. v \<notin> set (tlists k (Suspend a)) \<longrightarrow> thr k' v = thr k v" using k'(5) k1(6) l l1 by simp
  moreover have "\<forall>v \<in> set (tlists k (Suspend a)). stat_of (thr k' v) \<noteq> RT_THREAD_SUSPEND \<and> error (thr k' v) = error (thr k v)"
  proof
    fix v assume v: "v \<in> set (tlists k (Suspend a))"
    show "stat_of (thr k' v) \<noteq> RT_THREAD_SUSPEND \<and> error (thr k' v) = error (thr k v)"
    proof (cases "v = u")
      case True
      then show ?thesis using k'(5) k1(4,5) d l1 by simp
    next
      case False
      then show ?thesis using k'(7) k1(6) l l1 v by simp
    qed
  qed
  ultimately show ?case using Cons.prems(1) [of k'] k'(2-4,6) k1(7) by simp
qed

text \<open>When a work is done \<^verbatim>\<open>_workqueue_work_completion\<close> ends: every thread that waits for it in \<^verbatim>\<open>rt_workqueue_cancel_work_sync\<close> is awake, with no error of its own, the count of the
  semaphore is 0 again, so that the next one to wait does wait, and nothing but those threads was changed before the scheduler runs.\<close>

theorem work_completion_wakes_all:
  assumes "sched_inv k" "may_block c t k" "scheduler_lock_nest (thr k t) = 0" "has_class RT_Object_Class_Semaphore (wq_sem q) k"
    and "waiters_live (Suspend (wq_sem q)) k" "sem_value (sems k (wq_sem q)) = 0"
  shows "\<exists>k1 k'. work_completion c q k = Some (RT_EOK, k') \<and> rt_schedule c k1 = Some k' \<and> sched_inv k' \<and>
    sem_abs (wq_sem q) k' = (0, []) \<and> (\<forall>u \<in> set (tlists k (Suspend (wq_sem q))). stat_of (thr k1 u) \<noteq> RT_THREAD_SUSPEND \<and> error (thr k1 u) = error (thr k u)) \<and>
    (\<forall>u. u \<notin> set (tlists k (Suspend (wq_sem q))) \<longrightarrow> thr k1 u = thr k u)"
proof -
  let ?a = "wq_sem q" let ?k0 = "rt_enter_critical c k"
  note mb = may_blockD [OF assms(2)] and ec = enter_critical_thread [OF may_blockD(2) [OF assms(2)]]
  have t0: "?k0 = upd_thr t (\<lambda>x. x\<lparr>critical_lock_nest := critical_lock_nest x + 1, scheduler_lock_nest := scheduler_lock_nest x + 1\<rparr>) k"
    using mb(2) by (simp add: rt_enter_critical_def)
  have i0: "sched_inv ?k0" unfolding t0 by (rule sched_inv_thread_field [OF assms(1)]) (simp add: stat_of_def)
  have c0: "in_critical c t ?k0" using mb(2,5) assms(2,3) t0 by (simp add: in_critical_def may_block_def no_signal_def)
  have t: "t \<notin> set (tlists k (Suspend ?a))"
    using sched_inv_exD(3) [OF assms(1)] mb(6) wq_lists(1) [of ?a] unfolding queued_ok_def by force
  have w0: "has_class RT_Object_Class_Semaphore ?a ?k0" "waiters_live (Suspend ?a) ?k0" "t \<notin> set (tlists ?k0 (Suspend ?a))" "sem_value (sems ?k0 ?a) = 0"
    using assms(4-6) t ec by (simp_all add: has_class_def waiters_live_def is_thread_def is_timer_def rt_object_get_type_def)
  obtain k2 where k2: "completion_loop c ?a ?k0 = Some (RT_EOK, k2)" "sched_inv k2" "in_critical c t k2" "sem_abs ?a k2 = (0, [])"
    "\<forall>u. u \<notin> set (tlists ?k0 (Suspend ?a)) \<longrightarrow> thr k2 u = thr ?k0 u" "\<forall>y. rt_object_get_type y k2 = rt_object_get_type y ?k0"
    "\<forall>u \<in> set (tlists ?k0 (Suspend ?a)). stat_of (thr k2 u) \<noteq> RT_THREAD_SUSPEND \<and> error (thr k2 u) = error (thr ?k0 u)"
    using completion_loop_ends [OF i0 c0 w0] by blast
  let ?k1 = "upd_thr t (\<lambda>x. x\<lparr>scheduler_lock_nest := scheduler_lock_nest x - 1, critical_lock_nest := critical_lock_nest x - 1\<rparr>) k2"
  have tt: "thr ?k1 t = thr k t" using k2(5) t t0 by simp
  have oth: "u \<noteq> t \<Longrightarrow> thr ?k1 u = thr k2 u" for u by simp
  have i1: "sched_inv ?k1" by (rule sched_inv_thread_field [OF k2(2)]) (simp add: stat_of_def)
  have "cpu_live c ?k1" using mb k2(3,6) tt ec(5) unfolding cpu_live_def in_critical_def
    by (simp add: is_thread_def is_timer_def rt_object_get_type_def)
  then obtain k' where k': "rt_schedule c ?k1 = Some k'" "sched_inv k'" "ipc_part k' = ipc_part ?k1" "\<And>m. is_wq m \<Longrightarrow> tlists k' m = tlists ?k1 m"
    using schedule_total [OF i1] by metis
  have "rt_exit_critical c k2 = Some k'" using k2(3) tt assms(3) k'(1) by (simp add: rt_exit_critical_def in_critical_def Let_def)
  then have "work_completion c q k = Some (RT_EOK, k')" using k2(1) by (simp add: work_completion_def)
  moreover have "sem_abs ?a k' = (0, [])" using k2(4) k'(4) [OF wq_lists(1)] sem_frame [OF k'(3)] by (simp add: sem_abs_def)
  moreover have "\<forall>u. u \<notin> set (tlists k (Suspend ?a)) \<longrightarrow> thr ?k1 u = thr k u" using k2(5) tt t0 ec(3) by auto
  moreover have "\<forall>u \<in> set (tlists k (Suspend ?a)). stat_of (thr ?k1 u) \<noteq> RT_THREAD_SUSPEND \<and> error (thr ?k1 u) = error (thr k u)"
    using k2(7) t t0 ec(3) by auto
  ultimately show ?thesis using k'(1,2) by blast
qed

theorem work_completion_wakes_all_witness:
  "\<exists>k'. work_completion 0 7 (set_sem 19 0 (upd_obj (Obj 19) (\<lambda>ob. ob\<lparr>o_type := RT_Object_Class_Semaphore\<rparr>) (demo_wait RT_Object_Class_Semaphore (Suspend 19)))) = Some (RT_EOK, k') \<and>
     sem_abs 19 k' = (0, [])"
proof -
  let ?d = "demo_wait RT_Object_Class_Semaphore (Suspend 19)"
  let ?k = "set_sem 19 0 (upd_obj (Obj 19) (\<lambda>ob. ob\<lparr>o_type := RT_Object_Class_Semaphore\<rparr>) ?d)"
  have "sched_inv ?k = sched_inv ?d"
    by (simp, rule sched_inv_ex_cong) (auto simp: is_thread_def rt_object_get_type_def demo_wait_def demo_object_def demo_defs)
  then have "sched_inv ?k" using demo_wait_inv [of RT_Object_Class_Semaphore "Suspend 19"] by simp
  moreover have "tlists ?d (Suspend 19) = [2]" by (simp add: demo_wait_def)
  then have "may_block 0 1 ?k" "waiters_live (Suspend 19) ?k" using demo_wait_live(2) [of RT_Object_Class_Semaphore "Suspend 19"] demo_wait_live(3) [of "Suspend 19" RT_Object_Class_Semaphore "Suspend 19"]
    by (simp_all add: may_block_def waiters_live_def is_thread_def is_timer_def rt_object_get_type_def)
  moreover have "scheduler_lock_nest (thr ?k 1) = 0" "has_class RT_Object_Class_Semaphore 19 ?k" "sem_value (sems ?k 19) = 0"
    by (simp_all add: has_class_def rt_object_get_type_def demo_wait_def demo_object_def demo_defs)
  ultimately show ?thesis using work_completion_wakes_all [of ?k 0 1 7] by (auto simp: wq_sem_def)
qed

section \<open>Works and lists\<close>

definition pending :: "nat \<Rightarrow> wq_state \<Rightarrow> bool" where
  "pending w s \<longleftrightarrow> w_flags (works s w) AND RT_WORK_STATE_PENDING \<noteq> 0"

abbreviation wlist :: "nat \<Rightarrow> wq_state \<Rightarrow> nat list" where
  "wlist q s \<equiv> work_list (queues s q)"

text \<open>The works \<open>W\<close> that are submitted to queue \<open>q\<close> only: one of them is marked as pending exactly when it is on the list, and it is there once; what the queue is doing is not on its
  list.\<close>

definition owned :: "nat set \<Rightarrow> nat \<Rightarrow> wq_state \<Rightarrow> bool" where
  "owned W q s \<longleftrightarrow> (\<forall>w \<in> W. workqueue (works s w) = None \<or> workqueue (works s w) = Some q)"

definition wq_ok :: "nat set \<Rightarrow> nat \<Rightarrow> wq_state \<Rightarrow> bool" where
  "wq_ok W q s \<longleftrightarrow> distinct (wlist q s) \<and> set (wlist q s) \<subseteq> W \<and> (\<forall>w \<in> W. pending w s \<longleftrightarrow> w \<in> set (wlist q s)) \<and>
     (\<forall>w. work_current (queues s q) = Some w \<longrightarrow> w \<notin> set (wlist q s)) \<and> owned W q s"

text \<open>The kernel changes neither works nor lists, and the rest of the code at most forgets the queue of a work.\<close>

definition fields_kept :: "wq_state \<Rightarrow> wq_state \<Rightarrow> bool" where
  "fields_kept s s' \<longleftrightarrow> (\<forall>v. workqueue (works s' v) = workqueue (works s v) \<or> workqueue (works s' v) = None)"

definition same_works :: "wq_state \<Rightarrow> wq_state \<Rightarrow> bool" where
  "same_works s s' \<longleftrightarrow> queues s' = queues s \<and> (\<forall>w. pending w s' = pending w s) \<and> fields_kept s s'"

lemma fields_kept_owned: "fields_kept s s' \<Longrightarrow> owned W q s \<Longrightarrow> owned W q s'"
  unfolding fields_kept_def owned_def by metis

lemma fields_kept_refl [simp]: "fields_kept s s"
  by (simp add: fields_kept_def)

lemma same_works_ok: "same_works s s' \<Longrightarrow> wq_ok W q s \<Longrightarrow> wq_ok W q s'"
  using fields_kept_owned [of s s' W q] by (auto simp: same_works_def wq_ok_def)

lemma flag_bits: "(x AND - 2) AND 1 = (0 :: u16)" "(x OR 1) AND 1 \<noteq> (0 :: u16)" "(x AND - 3) AND 1 = x AND (1 :: u16)" "(x OR 2) AND 1 = x AND (1 :: u16)"
proof -
  show "(x AND - 2) AND 1 = (0 :: u16)" by (simp add: and.assoc)
  have "(x OR 1) AND 1 = (1 :: u16)" by (simp add: and.commute [of _ 1])
  then show "(x OR 1) AND 1 \<noteq> (0 :: u16)" by simp
  show "(x AND - 3) AND 1 = x AND (1 :: u16)" by (simp add: and.assoc)
  show "(x OR 2) AND 1 = x AND (1 :: u16)" by (simp add: bit.conj_disj_distrib2)
qed

lemma wq_simps [simp]:
  "queues (set_wkern k s) = queues s" "works (set_wkern k s) = works s" "wq_kern (set_wkern k s) = k" "pending w (set_wkern k s) = pending w s"
  "queues (upd_work w f s) = queues s" "works (upd_work w f s) = (works s)(w := f (works s w))" "wq_kern (upd_work w f s) = wq_kern s"
  "queues (upd_queue q g s) = (queues s)(q := g (queues s q))" "works (upd_queue q g s) = works s" "wq_kern (upd_queue q g s) = wq_kern s"
  "works (wl_remove w s) = works s" "wq_kern (wl_remove w s) = wq_kern s" "wlist q (wl_remove w s) = removeAll w (wlist q s)"
  "work_current (queues (wl_remove w s) q) = work_current (queues s q)" "work_thread (queues (wl_remove w s) q) = work_thread (queues s q)"
  by (simp_all add: set_wkern_def upd_work_def upd_queue_def wl_remove_def pending_def)

lemma wake_worker_same: "wake_worker c q s = Some s' \<Longrightarrow> same_works s s'"
  by (auto simp: wake_worker_def same_works_def fields_kept_def split: if_splits bind_splits)

lemma stop_work_timer_same: "stop_work_timer w s = Some s' \<Longrightarrow> same_works s s'"
  by (auto simp: stop_work_timer_def same_works_def fields_kept_def pending_def flag_bits split: bind_splits if_splits)

lemma removed_ok:
  assumes "wq_ok W q s" "wlist q s' = removeAll w (wlist q s)" "\<And>v. pending v s' \<longleftrightarrow> v \<noteq> w \<and> pending v s"
    and "work_current (queues s' q) = work_current (queues s q) \<or> work_current (queues s' q) = Some w" "fields_kept s s'"
  shows "wq_ok W q s'"
  using assms fields_kept_owned [OF assms(5)] unfolding wq_ok_def by (auto simp: distinct_removeAll)

lemma clear_pending_ok: "wq_ok W q s \<Longrightarrow> wq_ok W q (clear_pending w (wl_remove w s))"
  by (erule removed_ok [of _ _ _ _ w]) (auto simp: clear_pending_def pending_def flag_bits fields_kept_def)

lemma cancel_ok: "wq_ok W q s \<Longrightarrow> workqueue_cancel_work p w s = (r, s') \<Longrightarrow> wq_ok W q s'"
  using clear_pending_ok [of W q s w] by (auto simp: workqueue_cancel_work_def clear_pending_def split: if_splits)

lemma cancel_works: "workqueue_cancel_work p w s = (r, s') \<Longrightarrow> r = RT_EOK \<Longrightarrow> \<not> pending w s'"
  by (auto simp: workqueue_cancel_work_def pending_def flag_bits split: if_splits)

lemma forget_same: "\<not> pending w s \<Longrightarrow> same_works s (upd_work w (\<lambda>x. x\<lparr>workqueue := None, w_flags := w_flags x AND NOT RT_WORK_STATE_PENDING\<rparr>) s)"
  by (auto simp: same_works_def fields_kept_def pending_def flag_bits)

lemma clear_same: "\<not> pending w s \<Longrightarrow> same_works s (clear_pending w s)"
  by (auto simp: same_works_def fields_kept_def pending_def clear_pending_def flag_bits)

lemma cancel_delayed_ok:
  assumes "wq_ok W q s" "workqueue_cancel_delayed_work w s = Some (r, s')"
  shows "wq_ok W q s'"
proof (cases "workqueue (works s w)")
  case None
  then show ?thesis using assms by (simp add: workqueue_cancel_delayed_work_def)
next
  case (Some p)
  let ?m = "if w_flags (works s w) AND RT_WORK_STATE_PENDING \<noteq> 0 then Some (workqueue_cancel_work p w s)
    else if w_flags (works s w) AND RT_WORK_STATE_SUBMITTING \<noteq> 0 then map_option (Pair RT_EOK) (stop_work_timer w s) else Some (RT_EOK, s)"
  obtain r1 s1 where s1: "?m = Some (r1, s1)"
    "s' = (if r1 \<noteq> RT_EOK then s1 else upd_work w (\<lambda>x. x\<lparr>workqueue := None, w_flags := w_flags x AND NOT RT_WORK_STATE_PENDING\<rparr>) s1)"
    using assms(2) Some by (auto simp: workqueue_cancel_delayed_work_def split: bind_splits if_splits)
  have "wq_ok W q s1 \<and> (r1 = RT_EOK \<longrightarrow> \<not> pending w s1)"
  proof (cases "pending w s")
    case True
    then have "workqueue_cancel_work p w s = (r1, s1)" using s1(1) by (simp add: pending_def)
    then show ?thesis using cancel_ok [OF assms(1)] cancel_works by blast
  next
    case False
    then have "s1 = s \<or> stop_work_timer w s = Some s1" using s1(1) by (auto simp: pending_def split: if_splits)
    then have "same_works s s1" using stop_work_timer_same [of w s s1] by (auto simp: same_works_def)
    then show ?thesis using same_works_ok assms(1) False by (auto simp: same_works_def)
  qed
  then show ?thesis using s1(2) same_works_ok [OF forget_same] by auto
qed

lemma submit_ok:
  assumes "wq_ok W q s" "w \<in> W" "workqueue_submit_work c q w s = Some (r, s')"
  shows "wq_ok W q s'"
proof (cases "pending w s \<or> work_current (queues s q) = Some w")
  case True
  then show ?thesis using assms by (auto simp: workqueue_submit_work_def pending_def split: if_splits)
next
  case False
  let ?s = "upd_work w (\<lambda>x. x\<lparr>w_flags := w_flags x OR RT_WORK_STATE_PENDING\<rparr>) (wl_insert_last q w (wl_remove w s))"
  have "wake_worker c q ?s = Some s'" using False assms(3) by (auto simp: workqueue_submit_work_def pending_def split: bind_splits)
  moreover have "w \<notin> set (wlist q s)" using False assms(1,2) by (simp add: wq_ok_def)
  then have "wlist q ?s = wlist q s @ [w]" "work_current (queues ?s q) = work_current (queues s q)" "pending v ?s \<longleftrightarrow> v = w \<or> pending v s" "fields_kept s ?s" for v
    by (simp_all add: wl_insert_last_def pending_def flag_bits fields_kept_def)
  then have "wq_ok W q ?s" using assms(1,2) False \<open>w \<notin> set (wlist q s)\<close> fields_kept_owned [of s ?s W q] unfolding wq_ok_def by auto
  ultimately show ?thesis using same_works_ok [OF wake_worker_same] by blast
qed

lemma take_ok:
  assumes "wq_ok W q s" "workqueue_take q s = Some (w, s')"
  shows "wq_ok W q s'"
  by (rule removed_ok [OF assms(1), of s' w])
    (use assms(2) in \<open>auto simp: workqueue_take_def pending_def flag_bits fields_kept_def split: list.splits if_splits\<close>)

lemma attach_ok:
  assumes "wq_ok W q s" "\<And>x. w_flags (f x) AND RT_WORK_STATE_PENDING = w_flags x AND RT_WORK_STATE_PENDING" "\<And>x. workqueue (f x) = workqueue x \<or> workqueue (f x) = Some q"
  shows "wq_ok W q (upd_work w f s)"
proof -
  have "pending v (upd_work w f s) = pending v s" for v using assms(2) by (simp add: pending_def)
  moreover have "owned W q (upd_work w f s)" using assms(1) assms(3) [of "works s w"] by (auto simp: wq_ok_def owned_def)
  ultimately show ?thesis using assms(1) by (simp add: wq_ok_def)
qed

lemma kernel_ok [simp]: "wq_ok W q (set_wkern k s) = wq_ok W q s"
  by (simp add: wq_ok_def owned_def)

lemma submit_delayed_ok:
  assumes "wq_ok W q s" "w \<in> W" "workqueue_submit_delayed_work h c q w ticks s = Some (r, s')"
  shows "wq_ok W q s'"
proof (cases "workqueue (works s w) \<noteq> None \<and> workqueue (works s w) \<noteq> Some q")
  case True
  then show ?thesis using assms by (simp add: workqueue_submit_delayed_work_def)
next
  case False
  obtain r1 s1 where s1: "(if workqueue (works s w) = Some q then workqueue_cancel_delayed_work w s else Some (RT_EOK, s)) = Some (r1, s1)"
    "(if r1 < 0 then Some (r1, s1) else let s2 = upd_work w (\<lambda>x. x\<lparr>workqueue := Some q\<rparr>) s1
        in if ticks = 0 then workqueue_submit_work c q w s2
        else do {
          k1 \<leftarrow> rt_timer_init (work_timer w) ''work'' h w ticks (RT_TIMER_FLAG_ONE_SHOT OR RT_TIMER_FLAG_SOFT_TIMER) (wq_kern s2);
          k2 \<leftarrow> rt_timer_start c (work_timer w) k1;
          Some (r1, set_wkern k2 (upd_work w (\<lambda>x. x\<lparr>w_flags := w_flags x OR RT_WORK_STATE_SUBMITTING\<rparr>) s2)) }) = Some (r, s')"
    using assms(3) False unfolding workqueue_submit_delayed_work_def by (auto elim!: bind_eq_SomeE split: if_splits)
  have o1: "wq_ok W q s1" using s1(1) assms(1) cancel_delayed_ok [OF assms(1)] by (auto split: if_splits)
  have o2: "wq_ok W q (upd_work w (\<lambda>x. x\<lparr>workqueue := Some q\<rparr>) s1)" by (rule attach_ok [OF o1]) simp_all
  then have "wq_ok W q (upd_work w (\<lambda>x. x\<lparr>w_flags := w_flags x OR RT_WORK_STATE_SUBMITTING\<rparr>) (upd_work w (\<lambda>x. x\<lparr>workqueue := Some q\<rparr>) s1))"
    by (rule attach_ok) (simp_all add: flag_bits)
  then show ?thesis using s1(2) o1 submit_ok [OF o2 assms(2)] by (auto simp: Let_def split: if_splits bind_splits)
qed

lemma expired_ok:
  assumes "wq_ok W q s" "w \<in> W" "delayed_work_timeout_handler c w s = Some s'"
  shows "wq_ok W q s'"
proof -
  let ?f = "\<lambda>x. x\<lparr>w_type := w_type x AND NOT RT_WORK_TYPE_DELAYED\<rparr>"
  obtain s1 where s1: "stop_work_timer w s = Some s1"
    "(case workqueue (works (upd_work w ?f s1) w) of
        None \<Rightarrow> if w_flags (works (upd_work w ?f s1) w) AND RT_WORK_STATE_PENDING \<noteq> 0 then Some (upd_work w ?f s1) else None
      | Some q \<Rightarrow> map_option snd (workqueue_submit_work c q w (upd_work w ?f s1))) = Some s'"
    using assms(3) unfolding delayed_work_timeout_handler_def Let_def by (elim bind_eq_SomeE) blast
  have o1: "wq_ok W q s1" using same_works_ok [OF stop_work_timer_same [OF s1(1)] assms(1)] .
  then have o2: "wq_ok W q (upd_work w ?f s1)" by (rule attach_ok) simp_all
  have "workqueue (works s1 w) = None \<or> workqueue (works s1 w) = Some q" using o1 assms(2) by (simp add: wq_ok_def owned_def)
  then show ?thesis using s1(2) o2 submit_ok [OF o2 assms(2)] by (auto split: if_splits)
qed

lemma sync_ok:
  assumes "wq_ok W q s" "w \<in> W" "rt_workqueue_cancel_work_sync c q w s = Some (out, s')"
  shows "wq_ok W q s'"
proof (cases "work_current (queues s q) = Some w")
  case True
  then have "\<not> pending w s" using assms(1,2) by (simp add: wq_ok_def)
  then have "wq_ok W q (clear_pending w (set_wkern k s))" for k
    using same_works_ok [OF clear_same [of w "set_wkern k s"]] assms(1) by simp
  then show ?thesis using True assms(1,3) by (auto simp: rt_workqueue_cancel_work_sync_def split: bind_splits outcome.splits)
next
  case False
  then show ?thesis using assms(3) clear_pending_ok [OF assms(1)] by (auto simp: rt_workqueue_cancel_work_sync_def)
qed

section \<open>Clients and the thread of the queue\<close>

text \<open>What clients of the queue \<open>q\<close> with works \<open>W\<close>, expiring timers and the thread of the queue do, in any order; everything else, the works themselves included, does not touch the queue and these
  works other than by these steps. Not among them: \<^verbatim>\<open>rt_workqueue_critical_work\<close>, \<^verbatim>\<open>rt_workqueue_cancel_all_work\<close>, and the end of a wait in \<^verbatim>\<open>rt_workqueue_cancel_work_sync\<close> for a work that was submitted
  again meanwhile, which leave flags and list apart.\<close>

inductive wq_step :: "nat set \<Rightarrow> nat \<Rightarrow> wq_state \<Rightarrow> wq_state \<Rightarrow> bool" for W q where
  init: "w \<in> W \<Longrightarrow> \<not> pending w s \<Longrightarrow> wq_step W q s (rt_work_init w f d s)"
| submit: "w \<in> W \<Longrightarrow> rt_workqueue_submit_work h c q w time s = Some (r, s') \<Longrightarrow> wq_step W q s s'"
| dowork: "w \<in> W \<Longrightarrow> rt_workqueue_dowork c q w s = Some (r, s') \<Longrightarrow> wq_step W q s s'"
| expired: "w \<in> W \<Longrightarrow> delayed_work_timeout_handler c w s = Some s' \<Longrightarrow> wq_step W q s s'"
| cancel: "w \<in> W \<Longrightarrow> rt_workqueue_cancel_work q w s = Some (r, s') \<Longrightarrow> wq_step W q s s'"
| sync: "w \<in> W \<Longrightarrow> rt_workqueue_cancel_work_sync c q w s = Some (out, s') \<Longrightarrow> wq_step W q s s'"
| synced: "w \<in> W \<Longrightarrow> \<not> pending w s \<Longrightarrow> rt_workqueue_cancel_work_sync_resume w s = (r, s') \<Longrightarrow> wq_step W q s s'"
| sleep: "workqueue_sleep c q s = Some s' \<Longrightarrow> wq_step W q s s'"
| take: "workqueue_take q s = Some (w, s') \<Longrightarrow> wq_step W q s s'"
| finish: "work_completion c q (wq_kern s) = Some (r, k) \<Longrightarrow> wq_step W q s (set_wkern k (upd_queue q (\<lambda>x. x\<lparr>work_current := None\<rparr>) s))"
| other: "queues s' q = queues s q \<Longrightarrow> \<forall>w \<in> W. works s' w = works s w \<Longrightarrow> wq_step W q s s'"

lemma step_ok: "wq_step W q s s' \<Longrightarrow> wq_ok W q s \<Longrightarrow> wq_ok W q s'"
proof (induction rule: wq_step.induct)
  case (init w s f d)
  then show ?case by (auto simp: wq_ok_def rt_work_init_def pending_def owned_def)
next
  case (submit w h c time s r s')
  let ?s = "if time > 0 then upd_work w (\<lambda>x. x\<lparr>w_type := w_type x OR RT_WORK_TYPE_DELAYED\<rparr>) s else s"
  have o: "wq_ok W q ?s" using submit.prems attach_ok [OF submit.prems] by simp
  have "workqueue_submit_delayed_work h c q w time ?s = Some (r, s') \<or> workqueue_submit_work c q w ?s = Some (r, s')"
    using submit.hyps(2) unfolding rt_workqueue_submit_work_def Let_def by (simp only: split: if_splits) blast+
  then show ?case using submit_ok [OF o submit.hyps(1)] submit_delayed_ok [OF o submit.hyps(1)] by blast
next
  case (dowork w c s r s')
  then show ?case using submit_ok by (simp add: rt_workqueue_dowork_def)
next
  case (cancel w s r s')
  then show ?case using cancel_ok [of W q s q w r s'] cancel_delayed_ok [of W q s w r s'] by (auto simp: rt_workqueue_cancel_work_def split: if_splits)
next
  case (synced w s r s')
  then show ?case using same_works_ok [OF clear_same] by (auto simp: rt_workqueue_cancel_work_sync_resume_def)
next
  case (sleep c s s')
  then show ?case by (auto simp: workqueue_sleep_def split: if_splits bind_splits)
next
  case (finish c s r k)
  then show ?case by (auto simp: wq_ok_def owned_def pending_def)
next
  case (other s' s)
  then show ?case by (auto simp: wq_ok_def owned_def pending_def)
qed (use expired_ok sync_ok take_ok in blast)+

lemma submit_result:
  assumes "workqueue_submit_work c q w s = Some (r, s')"
  shows "if pending w s \<or> work_current (queues s q) = Some w then r = - RT_EBUSY \<and> s' = s
    else r = RT_EOK \<and> wlist q s' = removeAll w (wlist q s) @ [w]"
proof (cases "pending w s \<or> work_current (queues s q) = Some w")
  case True
  then show ?thesis using assms by (auto simp: workqueue_submit_work_def pending_def split: if_splits)
next
  case False
  let ?s = "upd_work w (\<lambda>x. x\<lparr>w_flags := w_flags x OR RT_WORK_STATE_PENDING\<rparr>) (wl_insert_last q w (wl_remove w s))"
  have "wake_worker c q ?s = Some s'" "r = RT_EOK" using False assms by (auto simp: workqueue_submit_work_def pending_def split: bind_splits)
  moreover have "wlist q ?s = removeAll w (wlist q s) @ [w]" by (simp add: wl_insert_last_def)
  ultimately show ?thesis using False wake_worker_same [of c q ?s s'] by (simp add: same_works_def)
qed


text \<open>A queue whose thread, number 2, sleeps.\<close>

definition demo_wq :: wq_state where
  "demo_wq = \<lparr>wq_kern = demo_wait RT_Object_Class_Semaphore (Suspend 19), queues = (\<lambda>_. \<lparr>work_list = [], work_current = None, work_thread = 2\<rparr>),
     works = (\<lambda>_. \<lparr>work_func = 0, work_data = 0, w_flags = 0, w_type = 0, workqueue = None\<rparr>), sys_workq = None\<rparr>"

lemma demo_dowork: "\<exists>s1. rt_workqueue_dowork 0 7 w demo_wq = Some (RT_EOK, s1)"
proof -
  let ?k = "demo_wait RT_Object_Class_Semaphore (Suspend 19)"
  have l: "tlists ?k (Suspend 19) = [2]" by (simp add: demo_wait_def)
  have i: "sched_inv ?k" using demo_wait_inv [of RT_Object_Class_Semaphore "Suspend 19"] by simp
  obtain k1 k2 where k: "rt_ipc_list_resume 0 (Suspend 19) ?k = Some k1" "rt_schedule 0 k1 = Some k2"
    by (rule wake_schedule [OF i demo_wait_live(1) l wq_lists(1) demo_wait_live(3)]) blast
  obtain r where "rt_thread_resume 0 2 ?k = Some (r, k1)" using k(1) l by (auto simp: rt_ipc_list_resume_def split: bind_splits)
  with k(2) show ?thesis
    by (simp add: rt_workqueue_dowork_def workqueue_submit_work_def wake_worker_def demo_wq_def wl_insert_last_def wl_remove_def upd_work_def upd_queue_def)
qed




text \<open>After \<^verbatim>\<open>rt_workqueue_cancel_all_work\<close> a work that was waiting can not be submitted again, to any queue: it is on no list, but still marked as pending.\<close>

theorem cancel_all_blocks_works:
  assumes "wq_ok W q s" "w \<in> set (wlist q s)" "rt_workqueue_cancel_all_work c q s = Some (r, s')"
  shows "wlist q s' = [] \<and> rt_workqueue_dowork d p w s' = Some (- RT_EBUSY, s')"
proof -
  have "pending w s" using assms(1,2) by (auto simp: wq_ok_def)
  then have "pending w s'" "wlist q s' = []" using assms(3) by (auto simp: rt_workqueue_cancel_all_work_def pending_def Let_def split: bind_splits)
  then show ?thesis by (simp add: rt_workqueue_dowork_def workqueue_submit_work_def pending_def)
qed

theorem cancel_all_blocks_works_witness:
  "\<exists>s'. rt_workqueue_cancel_all_work 0 7 (upd_work 1 (\<lambda>x. x\<lparr>w_flags := 1\<rparr>) (wl_insert_last 7 1 (set_wkern zero_kernel demo_wq))) = Some (RT_EOK, s') \<and>
     rt_workqueue_dowork 0 7 1 s' = Some (- RT_EBUSY, s')"
proof -
  let ?s = "upd_work 1 (\<lambda>x. x\<lparr>w_flags := 1\<rparr>) (wl_insert_last 7 1 (set_wkern zero_kernel demo_wq))"
  have "wq_ok {1} 7 ?s" "1 \<in> set (wlist 7 ?s)"
    by (simp_all add: demo_wq_def wq_ok_def owned_def pending_def wl_insert_last_def clear_pending_def)
  moreover have "\<exists>s'. rt_workqueue_cancel_all_work 0 7 ?s = Some (RT_EOK, s')"
    by (simp add: rt_workqueue_cancel_all_work_def rt_enter_critical_def rt_exit_critical_def clear_pending_def wl_insert_last_def zero_defs Let_def)
  ultimately show ?thesis using cancel_all_blocks_works by blast
qed

end
