(* ===== verification/WaitQueue.thy ===== *)
theory WaitQueue
  imports IpcFrame
begin

text \<open>
  Wait queues (\<^verbatim>\<open>components/drivers/src/waitqueue.c\<close>), on which threads wait for a condition of a device or a file: a queue has a flag and a list of nodes, each with its thread and a callback that decides
  whether a wake-up is for it. Number 0 is the callback \<^verbatim>\<open>__wqueue_default_wake\<close>; what the others answer and do to the kernel is a parameter. The node of a waiting thread is on its
  stack, at an address that is an argument.
\<close>

abbreviation (input) RT_WQ_FLAG_CLEAN :: u32 where "RT_WQ_FLAG_CLEAN \<equiv> 0"
abbreviation (input) RT_WQ_FLAG_WAKEUP :: u32 where "RT_WQ_FLAG_WAKEUP \<equiv> 1"

section \<open>Operations\<close>

record rt_wqueue_node =
  polling_thread :: nat
  node_wakeup :: nat
  node_key :: u32

record wait_state =
  wt_kern :: kernel
  wt_flag :: "nat \<Rightarrow> u32"
  waiting_list :: "nat \<Rightarrow> nat list"
  nodes :: "nat \<Rightarrow> rt_wqueue_node"

type_synonym wake_funcs = "nat \<Rightarrow> nat \<Rightarrow> u32 \<Rightarrow> kernel \<Rightarrow> int \<times> kernel"

definition set_wflag :: "nat \<Rightarrow> u32 \<Rightarrow> wait_state \<Rightarrow> wait_state" where
  "set_wflag q v s = s\<lparr>wt_flag := (wt_flag s)(q := v)\<rparr>"

definition rt_wqueue_init :: "nat \<Rightarrow> wait_state \<Rightarrow> wait_state" where
  "rt_wqueue_init q s = set_wflag q RT_WQ_FLAG_CLEAN (s\<lparr>waiting_list := (waiting_list s)(q := [])\<rparr>)"

definition rt_wqueue_add :: "nat \<Rightarrow> nat \<Rightarrow> wait_state \<Rightarrow> wait_state" where
  "rt_wqueue_add q n s = s\<lparr>waiting_list := (waiting_list s)(q := waiting_list s q @ [n])\<rparr>"

definition rt_wqueue_remove :: "nat \<Rightarrow> wait_state \<Rightarrow> wait_state" where
  "rt_wqueue_remove n s = s\<lparr>waiting_list := (\<lambda>q. removeAll n (waiting_list s q))\<rparr>"

definition wqueue_default_wake :: "nat \<Rightarrow> u32 \<Rightarrow> int" where
  "wqueue_default_wake wait key = 0"

definition wake_call :: "wake_funcs \<Rightarrow> (nat \<Rightarrow> rt_wqueue_node) \<Rightarrow> nat \<Rightarrow> u32 \<Rightarrow> kernel \<Rightarrow> int \<times> kernel" where
  "wake_call user nd n key k = (if node_wakeup (nd n) = 0 then (wqueue_default_wake n key, k) else user (node_wakeup (nd n)) n key k)"

text \<open>The loop: the first node whose callback returns 0.\<close>

fun wake_scan :: "wake_funcs \<Rightarrow> (nat \<Rightarrow> rt_wqueue_node) \<Rightarrow> u32 \<Rightarrow> nat list \<Rightarrow> kernel \<Rightarrow> nat option \<times> kernel" where
  "wake_scan user nd key [] k = (None, k)"
| "wake_scan user nd key (n # ns) k = (case wake_call user nd n key k of (r, k1) \<Rightarrow>
     if r = 0 then (Some n, k1) else wake_scan user nd key ns k1)"

definition rt_wqueue_wakeup :: "wake_funcs \<Rightarrow> nat \<Rightarrow> nat \<Rightarrow> u32 \<Rightarrow> wait_state \<Rightarrow> wait_state option" where
  "rt_wqueue_wakeup user c q key s =
     (let s1 = set_wflag q RT_WQ_FLAG_WAKEUP s in
      case wake_scan user (nodes s1) key (waiting_list s1 q) (wt_kern s1) of
        (None, k1) \<Rightarrow> Some (s1\<lparr>wt_kern := k1\<rparr>)
      | (Some n, k1) \<Rightarrow> do {
          (_, k2) \<leftarrow> rt_thread_resume c (polling_thread (nodes s1 n)) k1;
          k3 \<leftarrow> rt_schedule c k2;
          Some ((rt_wqueue_remove n s1)\<lparr>wt_kern := k3\<rparr>) })"

definition rt_wqueue_wait :: "nat \<Rightarrow> nat \<Rightarrow> int \<Rightarrow> 32 word \<Rightarrow> nat \<Rightarrow> wait_state \<Rightarrow> (nat outcome \<times> wait_state) option" where
  "rt_wqueue_wait c q condition msec n s = do {
     rt_assert (not_in_interrupt c (wt_kern s));
     let ticks = rt_tick_from_millisecond msec;
     if condition \<noteq> 0 \<or> ticks = 0 then Some (Ret 0, s)
     else if wt_flag s q = RT_WQ_FLAG_WAKEUP then Some (Ret 0, set_wflag q 0 s)
     else do {
       t \<leftarrow> rt_thread_self c (wt_kern s);
       let s1 = rt_wqueue_add q n (s\<lparr>nodes := (nodes s)(n := \<lparr>polling_thread = t, node_wakeup = 0, node_key = 0\<rparr>)\<rparr>);
       (_, k1) \<leftarrow> rt_thread_suspend c t (wt_kern s1);
       k2 \<leftarrow> (if ticks \<noteq> RT_WAITING_FOREVER then do {
                (_, _, k') \<leftarrow> rt_timer_control (ThreadTimer t) Ctrl_set_time ticks k1;
                rt_timer_start c (ThreadTimer t) k' }
              else Some k1);
       k3 \<leftarrow> rt_schedule c k2;
       Some (Wait n, s1\<lparr>wt_kern := k3\<rparr>) } }"

definition rt_wqueue_wait_resume :: "nat \<Rightarrow> nat \<Rightarrow> wait_state \<Rightarrow> int \<times> wait_state" where
  "rt_wqueue_wait_resume q n s = (0, rt_wqueue_remove n (set_wflag q 0 s))"

section \<open>Properties\<close>

lemma wake_scan_default: "node_wakeup (nd n) = 0 \<Longrightarrow> wake_scan user nd key (n # ns) k = (Some n, k)"
  by (simp add: wake_call_def wqueue_default_wake_def)

lemma wakeup_first:
  assumes "waiting_list s q = n # ns" "node_wakeup (nodes s n) = 0" "rt_thread_resume c (polling_thread (nodes s n)) (wt_kern s) = Some (r, k1)" "rt_schedule c k1 = Some k2"
  shows "rt_wqueue_wakeup user c q key s = Some ((rt_wqueue_remove n (set_wflag q RT_WQ_FLAG_WAKEUP s))\<lparr>wt_kern := k2\<rparr>)"
proof -
  have "wake_scan user (nodes s) key (n # ns) (wt_kern s) = (Some n, wt_kern s)" using assms(2) by (rule wake_scan_default)
  then show ?thesis using assms by (simp add: rt_wqueue_wakeup_def set_wflag_def Let_def)
qed

text \<open>A wake-up with a waiting thread at the front, waiting in \<^verbatim>\<open>rt_wqueue_wait\<close>, returns: that thread is ready and off the queue, the others stay in their order, and the flag is set until it runs.\<close>

theorem wqueue_wakeup_exact:
  assumes "sched_inv k" "cpu_live c k" "wt_kern s = k" "waiting_list s q = n # ns" "distinct (n # ns)" "node_wakeup (nodes s n) = 0"
    and "is_thread t k" "is_timer (ThreadTimer t) k" "stat_of (thr k t) = RT_THREAD_SUSPEND" "polling_thread (nodes s n) = t"
  shows "\<exists>k1 s'. rt_wqueue_wakeup user c q key s = Some s' \<and> sched_inv (wt_kern s') \<and> waiting_list s' q = ns \<and> wt_flag s' q = RT_WQ_FLAG_WAKEUP \<and>
    rt_schedule c k1 = Some (wt_kern s') \<and> stat_of (thr k1 t) \<noteq> RT_THREAD_SUSPEND \<and> (\<forall>u. u \<noteq> t \<longrightarrow> thr k1 u = thr k u)"
proof -
  obtain r k1 where k1: "rt_thread_resume c t k = Some (r, k1)" using resume_total [OF assms(7,8)] by blast
  then have r: "r = RT_EOK" using assms(9) by (elim resumeE) simp_all
  note e = resume_effect [OF k1]
  have i1: "sched_inv k1" by (rule resume_keeps [OF assms(1) k1])
  have "cpu_live c k1" using assms(2) e(4,7) resume_no_signal [OF k1] by (auto simp: cpu_live_def is_thread_def is_timer_def)
  then obtain k2 where k2: "rt_schedule c k1 = Some k2" "sched_inv k2" using schedule_total [OF i1] by metis
  let ?s = "(rt_wqueue_remove n (set_wflag q RT_WQ_FLAG_WAKEUP s))\<lparr>wt_kern := k2\<rparr>"
  have "rt_wqueue_wakeup user c q key s = Some ?s" using wakeup_first [OF assms(4,6)] k1 k2(1) assms(3,10) by simp
  moreover have "waiting_list ?s q = ns" using assms(4,5) by (simp add: rt_wqueue_remove_def set_wflag_def)
  ultimately show ?thesis using k2 e(1) [OF r] e(3) by (intro exI [of _ k1] exI [of _ ?s]) (auto simp: rt_wqueue_remove_def set_wflag_def)
qed

definition demo_waits :: wait_state where
  "demo_waits = \<lparr>wt_kern = demo_wait RT_Object_Class_Semaphore (Suspend 19), wt_flag = (\<lambda>_. 0), waiting_list = (\<lambda>_. [])(7 := [100, 200]),
     nodes = (\<lambda>_. \<lparr>polling_thread = 2, node_wakeup = 0, node_key = 0\<rparr>)\<rparr>"

theorem wqueue_wakeup_exact_witness:
  "\<exists>s'. rt_wqueue_wakeup (\<lambda>_ _ _ k. (0, k)) 0 7 0 demo_waits = Some s' \<and> waiting_list s' 7 = [200]"
proof -
  let ?k = "demo_wait RT_Object_Class_Semaphore (Suspend 19)"
  have i: "sched_inv ?k" using demo_wait_inv [of RT_Object_Class_Semaphore "Suspend 19"] by simp
  have t: "is_thread 2 ?k" "is_timer (ThreadTimer 2) ?k" "stat_of (thr ?k 2) = RT_THREAD_SUSPEND"
    by (simp_all add: demo_wait_def demo_object_def is_thread_def is_timer_def rt_object_get_type_def demo_defs)
  have "wt_kern demo_waits = ?k" "waiting_list demo_waits 7 = [100, 200]" "distinct [100, 200 :: nat]" "node_wakeup (nodes demo_waits 100) = 0" "polling_thread (nodes demo_waits 100) = 2"
    by (simp_all add: demo_waits_def)
  from wqueue_wakeup_exact [OF i demo_wait_live(1) this(1-4) t this(5)] show ?thesis by blast
qed

text \<open>A wake-up that finds nobody waiting is kept: the next thread that would wait returns at once, and the queue is as before.\<close>

theorem wqueue_wakeup_kept:
  assumes "waiting_list s q = []" "wt_flag s q = RT_WQ_FLAG_CLEAN" "not_in_interrupt c (wt_kern s)" "rt_tick_from_millisecond msec \<noteq> 0"
  shows "\<exists>s'. rt_wqueue_wakeup user d q key s = Some s' \<and> rt_wqueue_wait c q 0 msec n s' = Some (Ret 0, s)"
  using assms by (simp add: rt_wqueue_wakeup_def rt_wqueue_wait_def set_wflag_def fun_upd_idem Let_def)

text \<open>When the thread at the front has already timed out and has not run yet, its node takes the wake-up and no thread is made ready: the thread that timed out counts as the one that was woken.\<close>

theorem wakeup_spent_on_timed_out:
  assumes "waiting_list s q = n # ns" "distinct (n # ns)" "node_wakeup (nodes s n) = 0" "is_thread (polling_thread (nodes s n)) (wt_kern s)"
    and "stat_of (thr (wt_kern s) (polling_thread (nodes s n))) \<noteq> RT_THREAD_SUSPEND" "rt_schedule c (wt_kern s) = Some k'"
  shows "\<exists>s'. rt_wqueue_wakeup user c q key s = Some s' \<and> wt_kern s' = k' \<and> waiting_list s' q = ns"
proof -
  have "rt_thread_resume c (polling_thread (nodes s n)) (wt_kern s) = Some (- RT_ERROR, wt_kern s)" using assms(4,5) by (simp add: rt_thread_resume_def)
  from wakeup_first [OF assms(1,3) this assms(6)] show ?thesis using assms(1,2) by (simp add: rt_wqueue_remove_def set_wflag_def)
qed

end
