(* ===== verification/MemHeap.thy ===== *)
theory MemHeap
  imports MemPoolProps
begin

text \<open>
  Memory heaps (\<^verbatim>\<open>src/memheap.c\<close>): a memory manager for any number of memory areas. An area is a row of items, each with a header in front that links it to its neighbours in a ring; the free
  ones are on a second ring through a header inside the heap object. Headers and the bytes of the blocks are separate maps, as for the system heap: the properties show that no item
  overlaps another. What the semaphore of a heap guards is one step. The functions that make such a heap the system heap (\<^verbatim>\<open>RT_USING_MEMHEAP_AS_HEAP\<close>) are not compiled.
\<close>

abbreviation (input) RT_MEMHEAP_MAGIC :: u32 where "RT_MEMHEAP_MAGIC \<equiv> 0x1ea01ea0"
abbreviation (input) RT_MEMHEAP_MASK :: u32 where "RT_MEMHEAP_MASK \<equiv> 0xfffffffe"
abbreviation (input) RT_MEMHEAP_USED :: u32 where "RT_MEMHEAP_USED \<equiv> 1"
abbreviation (input) RT_MEMHEAP_MINIALLOC :: u32 where "RT_MEMHEAP_MINIALLOC \<equiv> 12"
abbreviation (input) RT_MEMHEAP_SIZE :: u32 where "RT_MEMHEAP_SIZE \<equiv> 24"

section \<open>State\<close>

record rt_memheap_item =
  it_magic :: u32
  pool_ptr :: nat
  it_next :: u32
  it_prev :: u32
  next_free :: u32
  prev_free :: u32

record rt_memheap =
  start_addr :: u32
  mh_pool_size :: u32
  available_size :: u32
  max_used_size :: u32
  mh_block_list :: u32
  free_list :: u32

record mh_state =
  mh_kern :: kernel
  mheaps :: "nat \<Rightarrow> rt_memheap"
  items :: "u32 \<Rightarrow> rt_memheap_item"
  mh_bytes :: memory

text \<open>The offsets of the list header and of the semaphore in a heap object.\<close>

definition free_header :: "nat \<Rightarrow> u32" where
  "free_header h = of_nat h + 44"

definition mh_lock :: "nat \<Rightarrow> nat" where
  "mh_lock h = h + 68"

definition upd_heap :: "nat \<Rightarrow> (rt_memheap \<Rightarrow> rt_memheap) \<Rightarrow> mh_state \<Rightarrow> mh_state" where
  "upd_heap h f s = s\<lparr>mheaps := (mheaps s)(h := f (mheaps s h))\<rparr>"

definition upd_item :: "u32 \<Rightarrow> (rt_memheap_item \<Rightarrow> rt_memheap_item) \<Rightarrow> mh_state \<Rightarrow> mh_state" where
  "upd_item a f s = s\<lparr>items := (items s)(a := f (items s a))\<rparr>"

definition MEMITEM_SIZE :: "u32 \<Rightarrow> mh_state \<Rightarrow> u32" where
  "MEMITEM_SIZE x s = it_next (items s x) - x - RT_MEMHEAP_SIZE"

definition RT_MEMHEAP_IS_USED :: "u32 \<Rightarrow> mh_state \<Rightarrow> bool" where
  "RT_MEMHEAP_IS_USED x s \<longleftrightarrow> it_magic (items s x) AND RT_MEMHEAP_USED \<noteq> 0"

definition is_memheap :: "nat \<Rightarrow> mh_state \<Rightarrow> bool" where
  "is_memheap h s \<longleftrightarrow> rt_object_get_type (Obj h) (mh_kern s) = RT_Object_Class_MemHeap"

section \<open>The rings\<close>

text \<open>The statements that the operations share: putting an item at the front of the free list, taking one out, and counting.\<close>

definition insert_free :: "nat \<Rightarrow> u32 \<Rightarrow> mh_state \<Rightarrow> mh_state" where
  "insert_free h x s =
     (let fl = free_list (mheaps s h);
          s1 = upd_item x (\<lambda>i. i\<lparr>next_free := next_free (items s fl), prev_free := fl\<rparr>) s;
          s2 = upd_item (next_free (items s1 fl)) (\<lambda>i. i\<lparr>prev_free := x\<rparr>) s1
      in upd_item fl (\<lambda>i. i\<lparr>next_free := x\<rparr>) s2)"

definition unlink_free :: "u32 \<Rightarrow> mh_state \<Rightarrow> mh_state" where
  "unlink_free x s =
     (let s1 = upd_item (next_free (items s x)) (\<lambda>i. i\<lparr>prev_free := prev_free (items s x)\<rparr>) s
      in upd_item (prev_free (items s1 x)) (\<lambda>i. i\<lparr>next_free := next_free (items s1 x)\<rparr>) s1)"

definition use_size :: "nat \<Rightarrow> u32 \<Rightarrow> mh_state \<Rightarrow> mh_state" where
  "use_size h n s = upd_heap h (\<lambda>m. let a = available_size m - n
     in m\<lparr>available_size := a, max_used_size := if mh_pool_size m - a > max_used_size m then mh_pool_size m - a else max_used_size m\<rparr>) s"

text \<open>A new free item \<open>n\<close> behind \<open>x\<close> in the row.\<close>

definition insert_item :: "nat \<Rightarrow> u32 \<Rightarrow> u32 \<Rightarrow> mh_state \<Rightarrow> mh_state" where
  "insert_item h x n s =
     (let s1 = upd_item n (\<lambda>i. i\<lparr>it_magic := RT_MEMHEAP_MAGIC, pool_ptr := h\<rparr>) s;
          s2 = upd_item n (\<lambda>i. i\<lparr>it_prev := x, it_next := it_next (items s1 x)\<rparr>) s1;
          s3 = upd_item (it_next (items s2 x)) (\<lambda>i. i\<lparr>it_prev := n\<rparr>) s2
      in upd_item x (\<lambda>i. i\<lparr>it_next := n\<rparr>) s3)"

section \<open>Operations\<close>

definition rt_memheap_init :: "nat \<Rightarrow> string \<Rightarrow> u32 \<Rightarrow> u32 \<Rightarrow> mh_state \<Rightarrow> (rt_err_t \<times> mh_state) option" where
  "rt_memheap_init h name start sz s = do {
     k1 \<leftarrow> rt_object_init (Obj h) RT_Object_Class_MemHeap name (mh_kern s);
     let psize = RT_ALIGN_DOWN sz 4;
     let avail = psize - 2 * RT_MEMHEAP_SIZE;
     let fh = free_header h;
     let s1 = upd_item fh (\<lambda>_. \<lparr>it_magic = RT_MEMHEAP_MAGIC, pool_ptr = h, it_next = 0, it_prev = 0, next_free = fh, prev_free = fh\<rparr>)
       (upd_heap h (\<lambda>m. m\<lparr>start_addr := start, mh_pool_size := psize, available_size := avail, max_used_size := psize - avail, free_list := fh\<rparr>) (s\<lparr>mh_kern := k1\<rparr>));
     let tail = start + avail + RT_MEMHEAP_SIZE;
     let s2 = upd_heap h (\<lambda>m. m\<lparr>mh_block_list := start\<rparr>)
       (upd_item start (\<lambda>_. \<lparr>it_magic = RT_MEMHEAP_MAGIC, pool_ptr = h, it_next = tail, it_prev = tail, next_free = start, prev_free = start\<rparr>) s1);
     let s3 = insert_free h start s2;
     let s4 = upd_item tail (\<lambda>_. \<lparr>it_magic = RT_MEMHEAP_MAGIC OR RT_MEMHEAP_USED, pool_ptr = h, it_next = start, it_prev = start, next_free = 0, prev_free = 0\<rparr>) s3;
     (_, k2) \<leftarrow> rt_sem_init (mh_lock h) name 1 RT_IPC_FLAG_FIFO (mh_kern s4);
     Some (RT_EOK, s4\<lparr>mh_kern := k2\<rparr>) }"

definition rt_memheap_detach :: "nat \<Rightarrow> mh_state \<Rightarrow> (rt_err_t \<times> mh_state) option" where
  "rt_memheap_detach h s = do {
     rt_assert (is_memheap h s);
     rt_assert (rt_object_is_systemobject (Obj h) (mh_kern s));
     Some (RT_EOK, s\<lparr>mh_kern := rt_object_detach (Obj h) (rt_object_detach (Obj (mh_lock h)) (mh_kern s))\<rparr>) }"

text \<open>The search of the free list, which ends at its header or with an item that is large enough.\<close>

partial_function (option) memheap_find :: "u32 \<Rightarrow> u32 \<Rightarrow> u32 \<Rightarrow> u32 \<Rightarrow> mh_state \<Rightarrow> (u32 \<times> u32) option" where
  "memheap_find fl sz x free_size s =
     (if x \<noteq> fl \<and> free_size < sz then
        (let f = MEMITEM_SIZE x s in
         if f < sz then memheap_find fl sz (next_free (items s x)) f s else memheap_find fl sz x f s)
      else Some (x, free_size))"

text \<open>Taking the item \<open>x\<close>: with the rest split off, or as a whole.\<close>

definition memheap_take :: "nat \<Rightarrow> u32 \<Rightarrow> u32 \<Rightarrow> u32 \<Rightarrow> mh_state \<Rightarrow> mh_state" where
  "memheap_take h sz x free_size s =
     (let out = (\<lambda>s. upd_item x (\<lambda>i. i\<lparr>next_free := 0, prev_free := 0\<rparr>) (unlink_free x s));
          s1 = (if free_size \<ge> sz + RT_MEMHEAP_SIZE + RT_MEMHEAP_MINIALLOC
                then let n = x + sz + RT_MEMHEAP_SIZE in use_size h (sz + RT_MEMHEAP_SIZE) (insert_free h n (out (insert_item h x n s)))
                else out (use_size h free_size s))
      in upd_item x (\<lambda>i. i\<lparr>it_magic := it_magic i OR RT_MEMHEAP_USED\<rparr>) s1)"

definition mh_round :: "u32 \<Rightarrow> u32" where
  "mh_round sz = (if RT_ALIGN sz 4 < RT_MEMHEAP_MINIALLOC then RT_MEMHEAP_MINIALLOC else RT_ALIGN sz 4)"

definition rt_memheap_alloc :: "nat \<Rightarrow> u32 \<Rightarrow> mh_state \<Rightarrow> (u32 option \<times> mh_state) option" where
  "rt_memheap_alloc h sz s = do {
     rt_assert (is_memheap h s);
     let sz = mh_round sz;
     if sz < available_size (mheaps s h) then do {
       let fl = free_list (mheaps s h);
       (x, free_size) \<leftarrow> memheap_find fl sz (next_free (items s fl)) 0 s;
       if free_size \<ge> sz then Some (Some (x + RT_MEMHEAP_SIZE), memheap_take h sz x free_size s)
       else Some (None, s) }
     else Some (None, s) }"

text \<open>The two merges of \<^verbatim>\<open>rt_memheap_free\<close>: with the item before, which gives the item to go on with and whether it still has to be inserted, and with the item behind.\<close>

definition merge_left :: "nat \<Rightarrow> u32 \<Rightarrow> mh_state \<Rightarrow> u32 \<times> bool \<times> mh_state" where
  "merge_left h x s =
     (let w = it_prev (items s x) in
      if \<not> RT_MEMHEAP_IS_USED w s then
        let s1 = upd_heap h (\<lambda>m. m\<lparr>available_size := available_size m + RT_MEMHEAP_SIZE\<rparr>) s;
            s2 = upd_item w (\<lambda>i. i\<lparr>it_next := it_next (items s1 x)\<rparr>) s1;
            s3 = upd_item (it_next (items s2 x)) (\<lambda>i. i\<lparr>it_prev := it_prev (items s2 x)\<rparr>) s2
        in (it_prev (items s3 x), False, s3)
      else (x, True, s))"

definition merge_right :: "nat \<Rightarrow> u32 \<Rightarrow> mh_state \<Rightarrow> mh_state" where
  "merge_right h x s =
     (let y = it_next (items s x) in
      if \<not> RT_MEMHEAP_IS_USED y s then
        let s1 = upd_heap h (\<lambda>m. m\<lparr>available_size := available_size m + RT_MEMHEAP_SIZE\<rparr>) s;
            s2 = upd_item (it_next (items s1 y)) (\<lambda>i. i\<lparr>it_prev := x\<rparr>) s1;
            s3 = upd_item x (\<lambda>i. i\<lparr>it_next := it_next (items s2 y)\<rparr>) s2
        in unlink_free y s3
      else s)"

definition rt_memheap_free :: "u32 option \<Rightarrow> mh_state \<Rightarrow> mh_state option" where
  "rt_memheap_free ptr s = (case ptr of
     None \<Rightarrow> Some s
   | Some p \<Rightarrow> do {
       let x = p - RT_MEMHEAP_SIZE;
       rt_assert (it_magic (items s x) AND RT_MEMHEAP_MASK = RT_MEMHEAP_MAGIC);
       rt_assert (RT_MEMHEAP_IS_USED x s);
       rt_assert (it_magic (items s (it_next (items s x))) AND RT_MEMHEAP_MASK = RT_MEMHEAP_MAGIC);
       let h = pool_ptr (items s x);
       rt_assert (h \<noteq> 0);
       rt_assert (is_memheap h s);
       let s1 = upd_item x (\<lambda>i. i\<lparr>it_magic := it_magic i AND NOT RT_MEMHEAP_USED\<rparr>) s;
       let s2 = upd_heap h (\<lambda>m. m\<lparr>available_size := available_size m + MEMITEM_SIZE x s1\<rparr>) s1;
       let (y, ins, s3) = merge_left h x s2;
       let s4 = merge_right h y s3;
       Some (if ins then insert_free h y s4 else s4) })"

text \<open>The two branches of \<^verbatim>\<open>rt_memheap_realloc\<close> that work in place: the header behind the block \<open>x\<close> is moved up, or the end of the block is split off and
  merged with a free item behind it.\<close>

definition unlink_item :: "u32 \<Rightarrow> mh_state \<Rightarrow> mh_state" where
  "unlink_item y s =
     (let s1 = upd_item (it_next (items s y)) (\<lambda>i. i\<lparr>it_prev := it_prev (items s y)\<rparr>) s
      in upd_item (it_prev (items s1 y)) (\<lambda>i. i\<lparr>it_next := it_next (items s1 y)\<rparr>) s1)"

definition memheap_grow :: "nat \<Rightarrow> u32 \<Rightarrow> u32 \<Rightarrow> u32 \<Rightarrow> mh_state \<Rightarrow> mh_state" where
  "memheap_grow h x newsize oldsize s =
     (let y = it_next (items s x);
          s1 = use_size h (newsize - oldsize) s;
          s2 = unlink_item y (unlink_free y s1);
          n = x + RT_MEMHEAP_SIZE + newsize
      in insert_free h n (insert_item h x n s2))"

definition memheap_shrink :: "nat \<Rightarrow> u32 \<Rightarrow> u32 \<Rightarrow> mh_state \<Rightarrow> mh_state" where
  "memheap_shrink h x newsize s =
     (let n = x + newsize + RT_MEMHEAP_SIZE;
          s1 = insert_item h x n s;
          y = it_next (items s1 n);
          s2 = (if \<not> RT_MEMHEAP_IS_USED y s1 then
                  let t1 = upd_heap h (\<lambda>m. m\<lparr>available_size := available_size m - MEMITEM_SIZE y s1\<rparr>) s1;
                      t2 = upd_item (it_next (items t1 y)) (\<lambda>i. i\<lparr>it_prev := n\<rparr>) t1;
                      t3 = upd_item n (\<lambda>i. i\<lparr>it_next := it_next (items t2 y)\<rparr>) t2
                  in unlink_free y t3
                else s1);
          s3 = insert_free h n s2
      in upd_heap h (\<lambda>m. m\<lparr>available_size := available_size m + MEMITEM_SIZE n s3\<rparr>) s3)"

definition rt_memheap_realloc :: "nat \<Rightarrow> u32 option \<Rightarrow> u32 \<Rightarrow> mh_state \<Rightarrow> (u32 option \<times> mh_state) option" where
  "rt_memheap_realloc h ptr newsize s = do {
     rt_assert (is_memheap h s);
     if newsize = 0 then do {
       s1 \<leftarrow> rt_memheap_free ptr s;
       Some (None, s1) }
     else do {
       let newsize = mh_round newsize;
       (case ptr of
          None \<Rightarrow> rt_memheap_alloc h newsize s
        | Some p \<Rightarrow> do {
            let x = p - RT_MEMHEAP_SIZE;
            let oldsize = MEMITEM_SIZE x s;
            if newsize > oldsize then do {
              let y = it_next (items s x);
              rt_assert (y > x);
              if \<not> RT_MEMHEAP_IS_USED y s \<and> MEMITEM_SIZE y s + oldsize > newsize + RT_MEMHEAP_MINIALLOC
              then Some (Some p, memheap_grow h x newsize oldsize s)
              else do {
                (q, s1) \<leftarrow> rt_memheap_alloc h newsize s;
                (case q of
                   None \<Rightarrow> Some (None, s1)
                 | Some r \<Rightarrow> do {
                     s2 \<leftarrow> rt_memheap_free ptr (s1\<lparr>mh_bytes := rt_memcpy r p (if oldsize < newsize then oldsize else newsize) (mh_bytes s1)\<rparr>);
                     Some (q, s2) }) } }
            else if newsize + RT_MEMHEAP_SIZE + RT_MEMHEAP_MINIALLOC \<ge> oldsize then Some (Some p, s)
            else Some (Some p, memheap_shrink h x newsize s) }) } }"

section \<open>What the operations write\<close>

text \<open>The fields of the headers, each as a map from addresses.\<close>

definition nx :: "mh_state \<Rightarrow> u32 \<Rightarrow> u32" where "nx s = (\<lambda>a. it_next (items s a))"
definition pv :: "mh_state \<Rightarrow> u32 \<Rightarrow> u32" where "pv s = (\<lambda>a. it_prev (items s a))"
definition nf :: "mh_state \<Rightarrow> u32 \<Rightarrow> u32" where "nf s = (\<lambda>a. next_free (items s a))"
definition pf :: "mh_state \<Rightarrow> u32 \<Rightarrow> u32" where "pf s = (\<lambda>a. prev_free (items s a))"
definition mg :: "mh_state \<Rightarrow> u32 \<Rightarrow> u32" where "mg s = (\<lambda>a. it_magic (items s a))"
definition po :: "mh_state \<Rightarrow> u32 \<Rightarrow> nat" where "po s = (\<lambda>a. pool_ptr (items s a))"

named_theorems mh_eff "the fields of the headers after an operation"

lemmas fields = nx_def pv_def nf_def pf_def mg_def po_def
lemmas fold_fields = fields [THEN fun_cong, symmetric]

lemma fields_upd_item [mh_eff]:
  "nx (upd_item a f s) = (nx s)(a := it_next (f (items s a)))" "pv (upd_item a f s) = (pv s)(a := it_prev (f (items s a)))"
  "nf (upd_item a f s) = (nf s)(a := next_free (f (items s a)))" "pf (upd_item a f s) = (pf s)(a := prev_free (f (items s a)))"
  "mg (upd_item a f s) = (mg s)(a := it_magic (f (items s a)))" "po (upd_item a f s) = (po s)(a := pool_ptr (f (items s a)))"
  "mheaps (upd_item a f s) = mheaps s" "mh_kern (upd_item a f s) = mh_kern s" "mh_bytes (upd_item a f s) = mh_bytes s"
  by (auto simp: upd_item_def fields)

lemma fields_upd_heap [mh_eff]:
  "nx (upd_heap h g s) = nx s" "pv (upd_heap h g s) = pv s" "nf (upd_heap h g s) = nf s" "pf (upd_heap h g s) = pf s"
  "mg (upd_heap h g s) = mg s" "po (upd_heap h g s) = po s" "mheaps (upd_heap h g s) = (mheaps s)(h := g (mheaps s h))"
  "mh_kern (upd_heap h g s) = mh_kern s" "mh_bytes (upd_heap h g s) = mh_bytes s"
  by (auto simp: upd_heap_def fields)

lemma fields_kern [mh_eff]:
  "nx (s\<lparr>mh_kern := k\<rparr>) = nx s" "pv (s\<lparr>mh_kern := k\<rparr>) = pv s" "nf (s\<lparr>mh_kern := k\<rparr>) = nf s" "pf (s\<lparr>mh_kern := k\<rparr>) = pf s"
  "mg (s\<lparr>mh_kern := k\<rparr>) = mg s" "po (s\<lparr>mh_kern := k\<rparr>) = po s" "nx (s\<lparr>mh_bytes := b\<rparr>) = nx s" "pv (s\<lparr>mh_bytes := b\<rparr>) = pv s"
  "nf (s\<lparr>mh_bytes := b\<rparr>) = nf s" "pf (s\<lparr>mh_bytes := b\<rparr>) = pf s" "mg (s\<lparr>mh_bytes := b\<rparr>) = mg s" "po (s\<lparr>mh_bytes := b\<rparr>) = po s"
  by (simp_all add: fields)

lemma used_eq: "RT_MEMHEAP_IS_USED x s \<longleftrightarrow> mg s x AND 1 \<noteq> 0"
  by (simp add: RT_MEMHEAP_IS_USED_def mg_def)

lemma size_eq: "MEMITEM_SIZE x s = nx s x - x - 24"
  by (simp add: MEMITEM_SIZE_def nx_def)

lemma is_memheap_cong: "mh_kern s' = mh_kern s \<Longrightarrow> is_memheap h s' = is_memheap h s"
  by (simp add: is_memheap_def)

text \<open>Each of the shared groups of statements, as updates of the maps.\<close>

lemma insert_item_eff [mh_eff]:
  assumes "n \<noteq> x" "nx s x \<noteq> n"
  shows "nx (insert_item h x n s) = (nx s)(n := nx s x, x := n)" "pv (insert_item h x n s) = (pv s)(n := x, nx s x := n)"
    "nf (insert_item h x n s) = nf s" "pf (insert_item h x n s) = pf s" "mg (insert_item h x n s) = (mg s)(n := RT_MEMHEAP_MAGIC)"
    "po (insert_item h x n s) = (po s)(n := h)" "mheaps (insert_item h x n s) = mheaps s" "mh_kern (insert_item h x n s) = mh_kern s"
    "mh_bytes (insert_item h x n s) = mh_bytes s"
  using assms by (auto simp: insert_item_def Let_def mh_eff fold_fields)

lemma unlink_item_eff [mh_eff]:
  assumes "nx s y \<noteq> y" "pv s y \<noteq> y"
  shows "nx (unlink_item y s) = (nx s)(pv s y := nx s y)" "pv (unlink_item y s) = (pv s)(nx s y := pv s y)"
    "nf (unlink_item y s) = nf s" "pf (unlink_item y s) = pf s" "mg (unlink_item y s) = mg s" "po (unlink_item y s) = po s"
    "mheaps (unlink_item y s) = mheaps s" "mh_kern (unlink_item y s) = mh_kern s" "mh_bytes (unlink_item y s) = mh_bytes s"
  using assms by (auto simp: unlink_item_def Let_def mh_eff fold_fields)

lemma insert_free_eff [mh_eff]:
  assumes "free_list (mheaps s h) = fl" "fl \<noteq> x"
  shows "nf (insert_free h x s) = (nf s)(x := nf s fl, fl := x)" "pf (insert_free h x s) = (pf s)(x := fl, nf s fl := x)"
    "nx (insert_free h x s) = nx s" "pv (insert_free h x s) = pv s" "mg (insert_free h x s) = mg s" "po (insert_free h x s) = po s"
    "mheaps (insert_free h x s) = mheaps s" "mh_kern (insert_free h x s) = mh_kern s" "mh_bytes (insert_free h x s) = mh_bytes s"
  using assms by (auto simp: insert_free_def Let_def mh_eff fold_fields)

lemma unlink_free_eff [mh_eff]:
  assumes "nf s x \<noteq> x" "pf s x \<noteq> x"
  shows "nf (unlink_free x s) = (nf s)(pf s x := nf s x)" "pf (unlink_free x s) = (pf s)(nf s x := pf s x)"
    "nx (unlink_free x s) = nx s" "pv (unlink_free x s) = pv s" "mg (unlink_free x s) = mg s" "po (unlink_free x s) = po s"
    "mheaps (unlink_free x s) = mheaps s" "mh_kern (unlink_free x s) = mh_kern s" "mh_bytes (unlink_free x s) = mh_bytes s"
  using assms by (auto simp: unlink_free_def Let_def mh_eff fold_fields)

lemma use_size_eff [mh_eff]:
  "nx (use_size h n s) = nx s" "pv (use_size h n s) = pv s" "nf (use_size h n s) = nf s" "pf (use_size h n s) = pf s" "mg (use_size h n s) = mg s"
  "po (use_size h n s) = po s" "available_size (mheaps (use_size h n s) h) = available_size (mheaps s h) - n"
  "free_list (mheaps (use_size h n s) h) = free_list (mheaps s h)" "start_addr (mheaps (use_size h n s) h) = start_addr (mheaps s h)"
  "mh_pool_size (mheaps (use_size h n s) h) = mh_pool_size (mheaps s h)"
  "mh_kern (use_size h n s) = mh_kern s" "mh_bytes (use_size h n s) = mh_bytes s"
  by (simp_all add: use_size_def mh_eff Let_def)

end
