(* ===== verification/MemHeapProps.thy ===== *)
theory MemHeapProps
  imports MemHeap
begin

text \<open>
  The correctness of the memory heaps: the row of items and the free list as rings over the headers, the invariant that the operations keep, the blocks that are handed out, and that
  such a heap is a memory manager in the sense of \<open>block_store\<close>.
\<close>

section \<open>Rings\<close>

text \<open>Every element of the list points to the next one, and that one back to it.\<close>

fun linked :: "('a \<Rightarrow> 'a) \<Rightarrow> ('a \<Rightarrow> 'a) \<Rightarrow> 'a list \<Rightarrow> bool" where
  "linked f g (a # b # xs) \<longleftrightarrow> f a = b \<and> g b = a \<and> linked f g (b # xs)"
| "linked f g xs \<longleftrightarrow> True"

lemma linked_append: "linked f g (xs @ a # ys) \<longleftrightarrow> linked f g (xs @ [a]) \<and> linked f g (a # ys)"
  by (induction f g xs rule: linked.induct) auto

lemma linked_cong:
  assumes "\<And>a. a \<in> set (butlast xs) \<Longrightarrow> f' a = f a" "\<And>a. a \<in> set (tl xs) \<Longrightarrow> g' a = g a"
  shows "linked f' g' xs = linked f g xs"
  using assms by (induction f g xs rule: linked.induct) (auto split: if_splits)

lemma linked_insert:
  assumes "linked f g (xs @ a # b # ys)" "distinct (butlast (xs @ a # b # ys))" "distinct (tl (xs @ a # b # ys))" "n \<notin> set (xs @ a # b # ys)"
  shows "linked (f(n := b, a := n)) (g(n := a, b := n)) (xs @ a # n # b # ys)"
proof -
  let ?f = "f(n := b, a := n)" and ?g = "g(n := a, b := n)"
  have l: "linked f g (xs @ [a])" "linked f g (b # ys)" using assms(1) linked_append [of f g xs a "b # ys"] by auto
  have d: "a \<notin> set xs" "a \<notin> set (butlast (b # ys))" "b \<notin> set ys" "b \<notin> set (tl (xs @ [a]))"
    using assms(2,3) by (cases xs; auto simp: butlast_append split: if_splits)+
  have "linked ?f ?g (xs @ [a])" using l(1) assms(4) d(1,4) by (subst linked_cong [of _ _ f _ g]) (auto dest: list.set_sel(2) [rotated])
  moreover have "linked ?f ?g (b # ys)" using l(2) assms(4) d(2,3) by (subst linked_cong [of _ _ f _ g]) (auto dest: in_set_butlastD split: if_splits)
  moreover have "a \<noteq> n" "b \<noteq> n" using assms(4) by auto
  ultimately show ?thesis by (subst linked_append) auto
qed

lemma linked_remove:
  assumes "linked f g (xs @ a # m # b # ys)" "distinct (butlast (xs @ a # m # b # ys))" "distinct (tl (xs @ a # m # b # ys))"
  shows "linked (f(a := b)) (g(b := a)) (xs @ a # b # ys)"
proof -
  let ?f = "f(a := b)" and ?g = "g(b := a)"
  have l: "linked f g (xs @ [a])" "linked f g (b # ys)" using assms(1) linked_append [of f g xs a "m # b # ys"] by auto
  have d: "a \<notin> set xs" "a \<notin> set (butlast (b # ys))" "b \<notin> set ys" "b \<notin> set (tl (xs @ [a]))"
    using assms(2,3) by (cases xs; auto simp: butlast_append split: if_splits)+
  have "linked ?f ?g (xs @ [a])" using l(1) d(1,4) by (subst linked_cong [of _ _ f _ g]) auto
  moreover have "linked ?f ?g (b # ys)" using l(2) d(2,3) by (subst linked_cong [of _ _ f _ g]) auto
  ultimately show ?thesis by (subst linked_append) auto
qed

lemma linked_nth: "linked f g (xs @ a # b # ys) \<Longrightarrow> f a = b \<and> g b = a"
  by (subst (asm) linked_append) simp

section \<open>The invariant\<close>

definition gap :: "u32 \<Rightarrow> u32 \<Rightarrow> bool" where
  "gap x y \<longleftrightarrow> unat x + 36 \<le> unat y"

text \<open>The row of items of a heap: a ring in ascending order, with room for the smallest block between two headers, each header with the magic number and the pointer to the heap; the
  last one is the tailer, which is never free. The header of the free list is outside, and the area is not at the very beginning of the address space.\<close>

definition row_ok :: "nat \<Rightarrow> u32 list \<Rightarrow> mh_state \<Rightarrow> bool" where
  "row_ok h bs s \<longleftrightarrow> is_memheap h s \<and> h \<noteq> 0 \<and> bs \<noteq> [] \<and> start_addr (mheaps s h) = hd bs \<and> linked (nx s) (pv s) (bs @ [hd bs]) \<and> sorted_wrt gap bs \<and> 36 \<le> unat (hd bs) \<and>
     hd bs + (mh_pool_size (mheaps s h) - 24) = last bs \<and>
     (unat (free_list (mheaps s h)) < unat (hd bs) \<or> unat (last bs) < unat (free_list (mheaps s h))) \<and>
     (\<forall>x \<in> set bs. mg s x AND RT_MEMHEAP_MASK = RT_MEMHEAP_MAGIC \<and> po s x = h) \<and> RT_MEMHEAP_IS_USED (last bs) s"

definition ring_ok :: "nat \<Rightarrow> u32 list \<Rightarrow> mh_state \<Rightarrow> bool" where
  "ring_ok h fs s \<longleftrightarrow> (let fl = free_list (mheaps s h) in linked (nf s) (pf s) (fl # fs @ [fl]) \<and> distinct (fl # fs))"

definition free_items :: "u32 list \<Rightarrow> mh_state \<Rightarrow> u32 set" where
  "free_items bs s = {x \<in> set bs. \<not> RT_MEMHEAP_IS_USED x s}"

text \<open>No two neighbours are free.\<close>

definition no_free_pair :: "u32 list \<Rightarrow> mh_state \<Rightarrow> bool" where
  "no_free_pair bs s \<longleftrightarrow> successively (\<lambda>x y. RT_MEMHEAP_IS_USED x s \<or> RT_MEMHEAP_IS_USED y s) bs"

definition heap_wf :: "nat \<Rightarrow> u32 list \<Rightarrow> u32 list \<Rightarrow> mh_state \<Rightarrow> bool" where
  "heap_wf h bs fs s \<longleftrightarrow> row_ok h bs s \<and> ring_ok h fs s \<and> set fs = free_items bs s \<and> no_free_pair bs s \<and>
     available_size (mheaps s h) = (\<Sum>x \<in> free_items bs s. MEMITEM_SIZE x s)"

definition same_heap :: "nat \<Rightarrow> mh_state \<Rightarrow> mh_state \<Rightarrow> bool" where
  "same_heap h s s' \<longleftrightarrow> mh_kern s' = mh_kern s \<and> start_addr (mheaps s' h) = start_addr (mheaps s h) \<and> free_list (mheaps s' h) = free_list (mheaps s h) \<and>
     mh_pool_size (mheaps s' h) = mh_pool_size (mheaps s h)"

lemma gap_less: "gap x y \<Longrightarrow> unat x < unat y" "gap x y \<Longrightarrow> x \<noteq> y" "gap x y \<Longrightarrow> gap y z \<Longrightarrow> gap x z"
  by (auto simp: gap_def)

lemma sorted_gap_distinct: "sorted_wrt gap bs \<Longrightarrow> distinct bs"
  by (induction bs) (auto dest: gap_less(2))

lemma row_neighbours:
  assumes "row_ok h (P @ x # y # Q) s"
  shows "nx s x = y" "pv s y = x" "gap x y" "distinct (P @ x # y # Q)"
proof -
  show "nx s x = y" "pv s y = x" using assms linked_nth [of "nx s" "pv s" P x y "Q @ [hd (P @ x # y # Q)]"] by (auto simp: row_ok_def)
  show "gap x y" using assms by (simp add: row_ok_def sorted_wrt_append)
  show "distinct (P @ x # y # Q)" using assms by (simp only: row_ok_def sorted_gap_distinct)
qed

lemma closed_distinct:
  assumes "distinct bs" "bs \<noteq> []"
  shows "distinct (butlast (bs @ [hd bs]))" "distinct (tl (bs @ [hd bs]))"
  using assms by (cases bs; auto)+

lemma row_remove:
  assumes "row_ok h (P @ x # m # y # Q) s" "same_heap h s s'" "nx s' = (nx s)(x := y)" "pv s' = (pv s)(y := x)" "mg s' = mg s" "po s' = po s"
  shows "row_ok h (P @ x # y # Q) s'"
proof -
  let ?e = "hd (P @ x # m # y # Q)"
  have h: "hd (P @ x # y # Q) = ?e" by (cases P) auto
  have d: "distinct (P @ x # m # y # Q)" by (rule row_neighbours(4) [OF assms(1)])
  have l: "linked (nx s) (pv s) (P @ x # m # y # Q @ [?e])" using assms(1) by (simp add: row_ok_def)
  have "linked (nx s') (pv s') (P @ x # y # Q @ [?e])"
    using linked_remove [OF l] closed_distinct [OF d] assms(3,4) by simp
  with assms h show ?thesis
    by (auto simp: row_ok_def sorted_wrt_append used_eq same_heap_def is_memheap_def)
qed

lemma between_row:
  assumes "row_ok h (P @ x # y # Q) s" "gap x n" "gap n y"
  shows "n \<notin> set (P @ x # y # Q)" "n \<noteq> free_list (mheaps s h)" "sorted_wrt gap (P @ x # n # y # Q)"
proof -
  have s: "sorted_wrt gap (P @ x # y # Q)" using assms(1) by (simp add: row_ok_def)
  show t: "sorted_wrt gap (P @ x # n # y # Q)"
    using s assms(2,3) by (auto simp: sorted_wrt_append intro: gap_less(3))
  then show "n \<notin> set (P @ x # y # Q)" using sorted_gap_distinct [OF t] by auto
  have "unat (hd (P @ x # y # Q)) \<le> unat x" using s by (cases P) (auto simp: sorted_wrt_append gap_def)
  moreover have "unat y \<le> unat (last (P @ x # y # Q))" using s by (cases Q rule: rev_cases) (auto simp: sorted_wrt_append gap_def)
  ultimately show "n \<noteq> free_list (mheaps s h)" using assms by (auto simp: row_ok_def gap_def)
qed

lemma row_insert:
  assumes "row_ok h (P @ x # y # Q) s" "gap x n" "gap n y" "same_heap h s s'" "nx s' = (nx s)(n := y, x := n)" "pv s' = (pv s)(n := x, y := n)"
    "mg s' = (mg s)(n := RT_MEMHEAP_MAGIC)" "po s' = (po s)(n := h)"
  shows "row_ok h (P @ x # n # y # Q) s'"
proof -
  let ?e = "hd (P @ x # y # Q)"
  note b = between_row [OF assms(1-3)]
  have h: "hd (P @ x # n # y # Q) = ?e" by (cases P) auto
  have e: "?e \<in> set (P @ x # y # Q)" by (cases P) auto
  have l: "linked (nx s) (pv s) (P @ x # y # Q @ [?e])" using assms(1) by (simp add: row_ok_def)
  have "n \<notin> set (P @ x # y # Q @ [?e])" using b(1) e by auto
  then have "linked (nx s') (pv s') (P @ x # n # y # Q @ [?e])"
    using linked_insert [OF l] closed_distinct [OF row_neighbours(4) [OF assms(1)]] assms(5,6) by simp
  with assms(1,4,7,8) h b show ?thesis
    by (auto simp: row_ok_def used_eq same_heap_def is_memheap_def)
qed

lemma row_mark:
  assumes "row_ok h bs s" "same_heap h s s'" "nx s' = nx s" "pv s' = pv s" "mg s' = (mg s)(x := v)" "po s' = po s"
    "v AND RT_MEMHEAP_MASK = RT_MEMHEAP_MAGIC" "x \<noteq> last bs"
  shows "row_ok h bs s'"
  using assms by (auto simp: row_ok_def same_heap_def is_memheap_def used_eq)

lemma row_same:
  assumes "row_ok h bs s" "same_heap h s s'" "nx s' = nx s" "pv s' = pv s" "mg s' = mg s" "po s' = po s"
  shows "row_ok h bs s'"
  using assms by (auto simp: row_ok_def same_heap_def is_memheap_def used_eq)

lemma ring_same:
  assumes "ring_ok h fs s" "same_heap h s s'" "nf s' = nf s" "pf s' = pf s"
  shows "ring_ok h fs s'"
  using assms by (auto simp: ring_ok_def same_heap_def)

lemma ring_insert:
  assumes "ring_ok h fs s" "x \<notin> set fs" "x \<noteq> free_list (mheaps s h)"
  shows "ring_ok h (x # fs) (insert_free h x s)"
proof -
  define fl where "fl = free_list (mheaps s h)"
  obtain y ys where y: "fs @ [fl] = y # ys" by (cases fs) auto
  have r: "linked (nf s) (pf s) (fl # y # ys)" "distinct (fl # fs)" using assms(1) y by (auto simp: ring_ok_def Let_def fl_def)
  have d: "distinct (butlast (fl # y # ys))" "distinct (tl (fl # y # ys))" using r(2) by (auto simp: y [symmetric] butlast_append)
  have "set (fl # y # ys) = insert fl (set fs)" by (simp add: y [symmetric] del: list.set(2)) auto
  then have n: "x \<notin> set (fl # y # ys)" using assms(2,3) by (simp add: fl_def)
  note e = insert_free_eff [OF fl_def [symmetric] assms(3) [folded fl_def, symmetric]]
  have "nf s fl = y" using r(1) by simp
  then have "linked (nf (insert_free h x s)) (pf (insert_free h x s)) (fl # x # y # ys)"
    using linked_insert [of "nf s" "pf s" "[]" fl y ys x] r(1) d n by (simp add: e del: linked.simps)
  with r(2) assms(2,3) show ?thesis
    by (simp add: ring_ok_def Let_def e y fl_def [symmetric] del: linked.simps)
qed

lemma ring_split:
  assumes "ring_ok h (f1 @ x # f2) s"
  obtains xs a b ys where "free_list (mheaps s h) # f1 = xs @ [a]" "f2 @ [free_list (mheaps s h)] = b # ys"
    "linked (nf s) (pf s) (xs @ a # x # b # ys)" "distinct (butlast (xs @ a # x # b # ys))" "distinct (tl (xs @ a # x # b # ys))"
    "pf s x = a" "nf s x = b" "a \<noteq> x" "b \<noteq> x"
proof -
  define fl where "fl = free_list (mheaps s h)"
  obtain xs a where a: "fl # f1 = xs @ [a]" by (metis append_butlast_last_id list.distinct(1))
  obtain b ys where b: "f2 @ [fl] = b # ys" by (cases f2) auto
  have c: "fl # (f1 @ x # f2) @ [fl] = xs @ a # x # b # ys" using a b by (metis append.assoc append_Cons append_Nil)
  have r: "linked (nf s) (pf s) (xs @ a # x # b # ys)" "distinct (fl # f1 @ x # f2)"
    using assms by (simp_all only: ring_ok_def Let_def c [symmetric] fl_def)
  have d: "distinct (butlast (xs @ a # x # b # ys))" "distinct (tl (xs @ a # x # b # ys))"
    using r(2) by (auto simp: c [symmetric] butlast_append)
  have n: "pf s x = a" "nf s x = b" using linked_nth [OF r(1)] linked_nth [of "nf s" "pf s" "xs @ [a]" x b ys] r(1) by auto
  have "a \<in> set (fl # f1)" "b \<in> set (f2 @ [fl])" by (simp_all only: a b) auto
  then have "a \<noteq> x" "b \<noteq> x" using r(2) by auto
  with that a b r(1) d n show thesis by (simp add: fl_def)
qed

lemma ring_self: "ring_ok h fs s \<Longrightarrow> x \<in> set fs \<Longrightarrow> nf s x \<noteq> x" "ring_ok h fs s \<Longrightarrow> x \<in> set fs \<Longrightarrow> pf s x \<noteq> x"
  by (auto dest!: split_list elim: ring_split)

lemma ring_remove:
  assumes "ring_ok h (f1 @ x # f2) s" "same_heap h s s'"
    "\<And>a. a \<noteq> x \<Longrightarrow> nf s' a = ((nf s)(pf s x := nf s x)) a" "\<And>a. a \<noteq> x \<Longrightarrow> pf s' a = ((pf s)(nf s x := pf s x)) a"
  shows "ring_ok h (f1 @ f2) s'"
proof -
  define fl where "fl = free_list (mheaps s h)"
  obtain xs a b ys where c: "fl # f1 = xs @ [a]" "f2 @ [fl] = b # ys"
    and r: "linked (nf s) (pf s) (xs @ a # x # b # ys)" "distinct (butlast (xs @ a # x # b # ys))" "distinct (tl (xs @ a # x # b # ys))"
    and n: "pf s x = a" "nf s x = b" by (rule ring_split [OF assms(1), folded fl_def])
  have e: "xs @ a # b # ys = fl # (f1 @ f2) @ [fl]" using c by (metis append.assoc append_Cons append_Nil)
  have d: "distinct (fl # f1 @ x # f2)" using assms(1) by (simp add: ring_ok_def Let_def fl_def)
  then have x: "x \<notin> set (xs @ a # b # ys)" by (simp only: e) auto
  have "linked ((nf s)(a := b)) ((pf s)(b := a)) (xs @ a # b # ys)" by (rule linked_remove [OF r])
  then have "linked (nf s') (pf s') (xs @ a # b # ys)"
    by (subst linked_cong [where f = "(nf s)(a := b)" and g = "(pf s)(b := a)"])
      (use x assms(3,4) n in \<open>metis in_set_butlastD\<close>, use x assms(3,4) n in \<open>metis list.set_sel(2) tl_Nil list.distinct(1) append_is_Nil_conv\<close>)
  then show ?thesis using d assms(2) by (simp add: e ring_ok_def Let_def same_heap_def fl_def del: linked.simps)
qed

lemma gap_size: "gap x y \<Longrightarrow> unat (y - x - 24) = unat y - unat x - 24"
  by (simp add: gap_def unat_sub word_le_nat_alt)

lemma row_size:
  assumes "row_ok h (P @ x # y # Q) s"
  shows "unat (MEMITEM_SIZE x s) = unat y - unat x - 24" "unat x + 24 + unat (MEMITEM_SIZE x s) = unat y" "12 \<le> unat (MEMITEM_SIZE x s)"
    "36 \<le> unat x"
proof -
  show "unat (MEMITEM_SIZE x s) = unat y - unat x - 24" "unat x + 24 + unat (MEMITEM_SIZE x s) = unat y" "12 \<le> unat (MEMITEM_SIZE x s)"
    using row_neighbours [OF assms] gap_size [of x y] by (auto simp: size_eq gap_def)
  show "36 \<le> unat x" using assms by (cases P) (auto simp: row_ok_def gap_def)
qed

text \<open>The blocks that are handed out: the used items but the tailer.\<close>

definition row_blocks :: "u32 list \<Rightarrow> mh_state \<Rightarrow> (u32 \<times> u32) set" where
  "row_blocks bs s = (\<lambda>x. (x + RT_MEMHEAP_SIZE, MEMITEM_SIZE x s)) ` {x \<in> set bs. x \<noteq> last bs \<and> RT_MEMHEAP_IS_USED x s}"

lemma row_blocks_insert:
  assumes "{a \<in> set bs'. a \<noteq> last bs' \<and> RT_MEMHEAP_IS_USED a s'} = insert x {a \<in> set bs. a \<noteq> last bs \<and> RT_MEMHEAP_IS_USED a s}"
    "\<And>a. a \<in> set bs \<Longrightarrow> a \<noteq> last bs \<Longrightarrow> RT_MEMHEAP_IS_USED a s \<Longrightarrow> MEMITEM_SIZE a s' = MEMITEM_SIZE a s"
  shows "row_blocks bs' s' = insert (x + 24, MEMITEM_SIZE x s') (row_blocks bs s)"
  unfolding row_blocks_def assms(1) using assms(2) by auto

lemma row_blocks_same:
  assumes "{a \<in> set bs'. a \<noteq> last bs' \<and> RT_MEMHEAP_IS_USED a s'} = {a \<in> set bs. a \<noteq> last bs \<and> RT_MEMHEAP_IS_USED a s}"
    "\<And>a. a \<in> set bs \<Longrightarrow> a \<noteq> last bs \<Longrightarrow> RT_MEMHEAP_IS_USED a s \<Longrightarrow> MEMITEM_SIZE a s' = MEMITEM_SIZE a s"
  shows "row_blocks bs' s' = row_blocks bs s"
  unfolding row_blocks_def assms(1) using assms(2) by auto

text \<open>First fit: the search returns the first item of the free list that is large enough.\<close>

lemma memheap_find_eq:
  assumes "linked (nf s) (pf s) (l @ [fl])" "fl \<notin> set l" "f < sz"
  shows "\<exists>f'. f' < sz \<and> memheap_find fl sz (hd (l @ [fl])) f s =
    Some (case List.find (\<lambda>z. sz \<le> MEMITEM_SIZE z s) l of Some z \<Rightarrow> (z, MEMITEM_SIZE z s) | None \<Rightarrow> (fl, f'))"
  using assms
proof (induction l arbitrary: f)
  case Nil
  then show ?case by (subst memheap_find.simps) auto
next
  case (Cons a l)
  have n: "nf s a = hd (l @ [fl])" "linked (nf s) (pf s) (l @ [fl])" using Cons.prems(1) by (cases l; simp)+
  show ?case
  proof (cases "sz \<le> MEMITEM_SIZE a s")
    case True
    then have "memheap_find fl sz a f s = Some (a, MEMITEM_SIZE a s)"
      using Cons.prems by (subst memheap_find.simps) (auto simp add: Let_def leD memheap_find.simps)
    with True Cons.prems(3) show ?thesis by auto
  next
    case False
    then have "memheap_find fl sz a f s = memheap_find fl sz (hd (l @ [fl])) (MEMITEM_SIZE a s) s"
      using Cons.prems n(1) by (subst memheap_find.simps) (auto simp add: Let_def fold_fields)
    with Cons.IH [OF n(2), of "MEMITEM_SIZE a s"] Cons.prems(2) False show ?thesis by auto
  qed
qed

lemma find_in_ring:
  assumes "ring_ok h fs s" "0 < sz"
  obtains f' where "f' < sz" "memheap_find (free_list (mheaps s h)) sz (nf s (free_list (mheaps s h))) 0 s =
    Some (case List.find (\<lambda>z. sz \<le> MEMITEM_SIZE z s) fs of Some z \<Rightarrow> (z, MEMITEM_SIZE z s) | None \<Rightarrow> (free_list (mheaps s h), f'))"
proof -
  let ?fl = "free_list (mheaps s h)"
  have "linked (nf s) (pf s) (fs @ [?fl])" "?fl \<notin> set fs" "nf s ?fl = hd (fs @ [?fl])"
    using assms(1) by (cases fs; simp add: ring_ok_def Let_def)+
  with memheap_find_eq [of s fs ?fl 0 sz] assms(2) that show thesis by (auto simp: word_gt_0)
qed

lemma magic_bits:
  fixes v :: u32
  assumes "v AND RT_MEMHEAP_MASK = RT_MEMHEAP_MAGIC"
  shows "(v OR 1) AND RT_MEMHEAP_MASK = RT_MEMHEAP_MAGIC" "(v AND NOT 1) AND RT_MEMHEAP_MASK = RT_MEMHEAP_MAGIC" "(v OR 1) AND 1 \<noteq> 0" "(v AND NOT 1) AND 1 = 0"
proof -
  show "(v OR 1) AND RT_MEMHEAP_MASK = RT_MEMHEAP_MAGIC" using assms by (simp add: bit.conj_disj_distrib2)
  show "(v AND NOT 1) AND RT_MEMHEAP_MASK = RT_MEMHEAP_MAGIC" using assms by (simp add: ac_simps)
  show "(v OR 1) AND 1 \<noteq> 0" by (simp add: bit.conj_disj_distrib2)
  show "(v AND NOT 1) AND 1 = 0" by (simp only: and.assoc bit.conj_cancel_left bit.conj_zero_right)
qed

section \<open>Allocation\<close>

lemma finite_free_items [simp]: "finite (free_items bs s)"
  by (simp add: free_items_def)

lemma sum_replace:
  fixes f f' :: "'a \<Rightarrow> u32"
  assumes "finite A" "x \<in> A" "n \<notin> A" "\<And>a. a \<in> A - {x} \<Longrightarrow> f' a = f a"
  shows "sum f' (insert n (A - {x})) = f' n + (sum f A - f x)"
  using assms sum_diff1 [of A f x] by simp

lemma free_not_last: "row_ok h bs s \<Longrightarrow> x \<in> free_items bs s \<Longrightarrow> x \<noteq> last bs"
  by (auto simp: row_ok_def free_items_def)

lemma row_magic: "row_ok h bs s \<Longrightarrow> x \<in> set bs \<Longrightarrow> mg s x AND RT_MEMHEAP_MASK = RT_MEMHEAP_MAGIC" "row_ok h bs s \<Longrightarrow> x \<in> set bs \<Longrightarrow> po s x = h"
  by (simp_all add: row_ok_def)

lemma fl_outside: "row_ok h bs s \<Longrightarrow> free_list (mheaps s h) \<notin> set bs"
proof
  assume r: "row_ok h bs s" and m: "free_list (mheaps s h) \<in> set bs"
  have "unat (hd bs) \<le> unat x" "unat x \<le> unat (last bs)" if "x \<in> set bs" "sorted_wrt gap bs" for x
    subgoal using that by (cases bs) (auto simp: gap_def)
    subgoal using that by (cases bs rule: rev_cases) (auto simp: gap_def sorted_wrt_append)
    done
  with r m show False by (auto simp: row_ok_def dest!: leD)
qed

lemma row_item_split:
  assumes "x \<in> set bs" "x \<noteq> last bs"
  obtains P y Q where "bs = P @ x # y # Q"
  using assms by (metis last_snoc list.exhaust split_list)

lemma take_whole:
  assumes wf: "heap_wf h (P @ x # y # Q) (f1 @ x # f2) s" and small: "\<not> MEMITEM_SIZE x s \<ge> sz + RT_MEMHEAP_SIZE + RT_MEMHEAP_MINIALLOC"
  defines "s' \<equiv> memheap_take h sz x (MEMITEM_SIZE x s) s"
  shows "heap_wf h (P @ x # y # Q) (f1 @ f2) s'" "row_blocks (P @ x # y # Q) s' = insert (x + 24, MEMITEM_SIZE x s) (row_blocks (P @ x # y # Q) s)"
    "mh_bytes s' = mh_bytes s" "MEMITEM_SIZE x s' = MEMITEM_SIZE x s"
proof -
  let ?bs = "P @ x # y # Q"
  have w: "row_ok h ?bs s" "ring_ok h (f1 @ x # f2) s" "set (f1 @ x # f2) = free_items ?bs s" "no_free_pair ?bs s"
    "available_size (mheaps s h) = (\<Sum>x \<in> free_items ?bs s. MEMITEM_SIZE x s)" using wf by (simp_all only: heap_wf_def)
  have r: "nf s x \<noteq> x" "pf s x \<noteq> x" using ring_self [OF w(2)] by simp_all
  have e: "nx s' = nx s" "pv s' = pv s" "mg s' = (mg s)(x := mg s x OR 1)" "po s' = po s" "same_heap h s s'" "mh_bytes s' = mh_bytes s"
    "available_size (mheaps s' h) = available_size (mheaps s h) - MEMITEM_SIZE x s"
    "a \<noteq> x \<Longrightarrow> nf s' a = ((nf s)(pf s x := nf s x)) a" "a \<noteq> x \<Longrightarrow> pf s' a = ((pf s)(nf s x := pf s x)) a" for a
    using small by (simp_all add: s'_def memheap_take_def Let_def mh_eff r same_heap_def fold_fields)
  show "mh_bytes s' = mh_bytes s" "MEMITEM_SIZE x s' = MEMITEM_SIZE x s" by (simp_all add: e size_eq)
  have x: "x \<in> free_items ?bs s" unfolding w(3) [symmetric] by simp
  note l = free_not_last [OF w(1) x]
  note m = magic_bits [OF row_magic(1) [OF w(1), of x, simplified]]
  have u: "RT_MEMHEAP_IS_USED a s' \<longleftrightarrow> a = x \<or> RT_MEMHEAP_IS_USED a s" for a using m(3) by (simp add: used_eq e)
  have f: "free_items ?bs s' = free_items ?bs s - {x}" by (auto simp: free_items_def u)
  have sz: "MEMITEM_SIZE a s' = MEMITEM_SIZE a s" for a by (simp add: size_eq e)
  have "row_ok h ?bs s'" by (rule row_mark [OF w(1) e(5,1,2,3,4) m(1) l])
  moreover have "ring_ok h (f1 @ f2) s'" by (rule ring_remove [OF w(2) e(5,8,9)])
  moreover have "set (f1 @ f2) = free_items ?bs s'" using w(2) f unfolding w(3) [symmetric] by (auto simp: ring_ok_def Let_def)
  moreover have "no_free_pair ?bs s'" using w(4) by (auto simp: no_free_pair_def u elim: successively_mono)
  moreover have "available_size (mheaps s' h) = (\<Sum>x \<in> free_items ?bs s'. MEMITEM_SIZE x s')"
    using x by (simp add: e(7) f sz w(5) sum_diff1)
  ultimately show "heap_wf h ?bs (f1 @ f2) s'" by (simp add: heap_wf_def)
  show "row_blocks ?bs s' = insert (x + 24, MEMITEM_SIZE x s) (row_blocks ?bs s)"
    unfolding sz [symmetric] using l by (intro row_blocks_insert) (auto simp: u sz)
qed

lemma split_fits:
  assumes "row_ok h (P @ x # y # Q) s" "12 \<le> sz" "unat sz + 36 \<le> unat (MEMITEM_SIZE x s)"
  shows "unat (x + sz + 24) = unat x + unat sz + 24" "gap x (x + sz + 24)" "gap (x + sz + 24) y"
proof -
  note s = row_size [OF assms(1)]
  have "unat (x + sz) = unat x + unat sz" using s assms(3) unat_less_2_32 [of y] by (intro unat_add_no_wrap) simp
  then show u: "unat (x + sz + 24) = unat x + unat sz + 24" using s assms(3) unat_less_2_32 [of y] unat_add_no_wrap [of "x + sz" 24] by simp
  show "gap x (x + sz + 24)" "gap (x + sz + 24) y" using s assms(2,3) by (simp_all add: gap_def u word_le_nat_alt)
qed

lemma size_plus_36:
  assumes "row_ok h (P @ x # y # Q) s" "sz \<le> MEMITEM_SIZE x s"
  shows "unat (sz + 24 + 12) = unat sz + 36"
  using row_size [OF assms(1)] assms(2) unat_less_2_32 [of y] unat_add_no_wrap [of 36 sz] by (simp add: word_le_nat_alt)

lemma take_split_eff:
  assumes wf: "heap_wf h (P @ x # y # Q) (f1 @ x # f2) s" and sz: "12 \<le> sz" "sz \<le> MEMITEM_SIZE x s" "MEMITEM_SIZE x s \<ge> sz + RT_MEMHEAP_SIZE + RT_MEMHEAP_MINIALLOC"
  defines "s' \<equiv> memheap_take h sz x (MEMITEM_SIZE x s) s" and "n \<equiv> x + sz + RT_MEMHEAP_SIZE"
  shows "nx s' = (nx s)(n := y, x := n)" "pv s' = (pv s)(n := x, y := n)" "mg s' = (mg s)(n := RT_MEMHEAP_MAGIC, x := mg s x OR 1)" "po s' = (po s)(n := h)"
    "same_heap h s s'" "mh_bytes s' = mh_bytes s" "available_size (mheaps s' h) = available_size (mheaps s h) - (sz + 24)" "ring_ok h (n # f1 @ f2) s'"
    "row_ok h (P @ x # n # y # Q) s'" "n \<notin> set (P @ x # y # Q)"
proof -
  let ?bs = "P @ x # y # Q" and ?bs' = "P @ x # n # y # Q"
  have w: "row_ok h ?bs s" "ring_ok h (f1 @ x # f2) s" "set (f1 @ x # f2) = free_items ?bs s" "no_free_pair ?bs s"
    "available_size (mheaps s h) = (\<Sum>x \<in> free_items ?bs s. MEMITEM_SIZE x s)" using wf by (simp_all only: heap_wf_def)
  note s = row_size [OF w(1)] and nb = row_neighbours [OF w(1)]
  have "unat sz + 36 \<le> unat (MEMITEM_SIZE x s)" using size_plus_36 [OF w(1) sz(2)] sz(3) by (simp add: word_le_nat_alt)
  note g = split_fits [OF w(1) sz(1) this, folded n_def]
  note b = between_row [OF w(1) g(2,3)]
  define s1 where "s1 = insert_item h x n s"
  define s2 where "s2 = upd_item x (\<lambda>i. i\<lparr>next_free := 0, prev_free := 0\<rparr>) (unlink_free x s1)"
  define s3 where "s3 = insert_free h n s2"
  have s': "s' = upd_item x (\<lambda>i. i\<lparr>it_magic := it_magic i OR RT_MEMHEAP_USED\<rparr>) (use_size h (sz + 24) s3)"
    using sz(3) by (simp add: s'_def memheap_take_def Let_def s3_def s2_def s1_def n_def)
  have ne: "n \<noteq> x" "n \<noteq> y" "nx s x \<noteq> n" "x \<noteq> y" "free_list (mheaps s h) \<noteq> n" using b(1,2) nb by auto
  have r: "nf s x \<noteq> x" "pf s x \<noteq> x" using ring_self [OF w(2)] by simp_all
  note e1 = insert_item_eff [OF ne(1,3), of h, folded s1_def, unfolded nb]
  have e2: "nx s2 = nx s1" "pv s2 = pv s1" "mg s2 = mg s1" "po s2 = po s1" "mheaps s2 = mheaps s" "mh_kern s2 = mh_kern s" "mh_bytes s2 = mh_bytes s"
    "a \<noteq> x \<Longrightarrow> nf s2 a = ((nf s)(pf s x := nf s x)) a" "a \<noteq> x \<Longrightarrow> pf s2 a = ((pf s)(nf s x := pf s x)) a" for a
    using r ne by (auto simp add: s2_def mh_eff e1 fold_fields fun_eq_iff)
  have fl: "free_list (mheaps s2 h) = free_list (mheaps s h)" by (simp add: e2)
  note e3 = insert_free_eff [OF fl ne(5), folded s3_def]
  show e: "nx s' = (nx s)(n := y, x := n)" "pv s' = (pv s)(n := x, y := n)" "mg s' = (mg s)(n := RT_MEMHEAP_MAGIC, x := mg s x OR 1)" "po s' = (po s)(n := h)"
    "same_heap h s s'" "mh_bytes s' = mh_bytes s" "available_size (mheaps s' h) = available_size (mheaps s h) - (sz + 24)"
    using ne by (auto simp add: s' mh_eff e3 e2 e1 same_heap_def fold_fields)
  show "n \<notin> set ?bs" by (rule b(1))
  have x: "x \<in> free_items ?bs s" unfolding w(3) [symmetric] by simp
  have nn: "n \<notin> set (f1 @ x # f2)" unfolding w(3) using b(1) by (auto simp: free_items_def)
  have row1: "row_ok h ?bs' s1" by (rule row_insert [OF w(1) g(2,3)]) (simp_all add: e1 same_heap_def)
  show "row_ok h ?bs' s'" using free_not_last [OF w(1) x] e
    by (intro row_mark [OF row1 _ _ _ _ _ magic_bits(1) [OF row_magic(1) [OF w(1), of x, simplified]]]) (simp_all add: e1 same_heap_def fun_upd_twist)
  have "ring_ok h (f1 @ f2) s2" by (rule ring_remove [OF w(2) _ e2(8,9)]) (simp_all add: e2 same_heap_def)
  then have "ring_ok h (n # f1 @ f2) s3" unfolding s3_def using nn ne(5) by (intro ring_insert) (simp_all add: fl)
  then show "ring_ok h (n # f1 @ f2) s'" by (rule ring_same) (simp_all add: s' mh_eff fold_fields same_heap_def)
qed

lemma take_split:
  assumes wf: "heap_wf h (P @ x # y # Q) (f1 @ x # f2) s" and sz: "12 \<le> sz" "sz \<le> MEMITEM_SIZE x s" "MEMITEM_SIZE x s \<ge> sz + RT_MEMHEAP_SIZE + RT_MEMHEAP_MINIALLOC"
  defines "s' \<equiv> memheap_take h sz x (MEMITEM_SIZE x s) s" and "n \<equiv> x + sz + RT_MEMHEAP_SIZE"
  shows "heap_wf h (P @ x # n # y # Q) (n # f1 @ f2) s'" "row_blocks (P @ x # n # y # Q) s' = insert (x + 24, sz) (row_blocks (P @ x # y # Q) s)"
    "mh_bytes s' = mh_bytes s" "MEMITEM_SIZE x s' = sz"
proof -
  let ?bs = "P @ x # y # Q" and ?bs' = "P @ x # n # y # Q"
  have w: "row_ok h ?bs s" "ring_ok h (f1 @ x # f2) s" "set (f1 @ x # f2) = free_items ?bs s" "no_free_pair ?bs s"
    "available_size (mheaps s h) = (\<Sum>x \<in> free_items ?bs s. MEMITEM_SIZE x s)" using wf by (simp_all only: heap_wf_def)
  note nb = row_neighbours [OF w(1)] and e = take_split_eff [OF wf sz, folded s'_def n_def]
  have ne: "n \<noteq> x" "n \<noteq> y" "x \<noteq> y" using e(10) nb by auto
  show "mh_bytes s' = mh_bytes s" by (rule e)
  show sx: "MEMITEM_SIZE x s' = sz" using ne by (simp add: size_eq e n_def)
  have x: "x \<in> free_items ?bs s" unfolding w(3) [symmetric] by simp
  note m = magic_bits [OF row_magic(1) [OF w(1), of x, simplified]]
  have u: "RT_MEMHEAP_IS_USED a s' \<longleftrightarrow> a = x \<or> a \<noteq> n \<and> RT_MEMHEAP_IS_USED a s" for a using m(3) by (simp add: used_eq e)
  have f: "free_items ?bs' s' = insert n (free_items ?bs s - {x})" using ne by (auto simp: free_items_def u)
  have sz': "MEMITEM_SIZE a s' = (if a = n then MEMITEM_SIZE x s - (sz + 24) else MEMITEM_SIZE a s)" if "a \<noteq> x" for a
    using ne that nb by (auto simp: size_eq e n_def)
  have nn: "n \<notin> free_items ?bs s" using e(10) by (auto simp: free_items_def)
  have "set (n # f1 @ f2) = free_items ?bs' s'"
    using w(2) unfolding f w(3) [symmetric] by (auto simp: ring_ok_def Let_def)
  moreover have "no_free_pair ?bs' s'" using w(4) x e(10)
    by (auto simp: no_free_pair_def successively_append_iff successively_Cons u free_items_def elim!: successively_mono)
  moreover have "available_size (mheaps s' h) = (\<Sum>x \<in> free_items ?bs' s'. MEMITEM_SIZE x s')"
    unfolding f using x nn ne by (subst sum_replace [where f = "\<lambda>a. MEMITEM_SIZE a s"]) (auto simp: w(5) sz' e(7))
  ultimately show "heap_wf h ?bs' (n # f1 @ f2) s'" using e(8,9) by (simp add: heap_wf_def)
  show "row_blocks ?bs' s' = insert (x + 24, sz) (row_blocks ?bs s)"
    unfolding sx [symmetric]
  proof (rule row_blocks_insert)
    show "{a \<in> set ?bs'. a \<noteq> last ?bs' \<and> RT_MEMHEAP_IS_USED a s'} = insert x {a \<in> set ?bs. a \<noteq> last ?bs \<and> RT_MEMHEAP_IS_USED a s}"
      using e(10) free_not_last [OF w(1) x] by (auto simp: u)
  next
    fix a assume "a \<in> set ?bs" "RT_MEMHEAP_IS_USED a s"
    then have "a \<noteq> x" "a \<noteq> n" using x e(10) by (auto simp: free_items_def)
    then show "MEMITEM_SIZE a s' = MEMITEM_SIZE a s" by (simp add: sz')
  qed
qed

lemma mh_round_ge: "12 \<le> mh_round sz" "0 < mh_round sz"
  by (auto simp: mh_round_def not_less word_le_nat_alt word_less_nat_alt)

text \<open>An allocation in full: which item it takes, and what becomes of the heap.\<close>

lemma alloc_step:
  assumes wf: "heap_wf h bs fs s"
  shows "case if mh_round sz < available_size (mheaps s h) then List.find (\<lambda>x. mh_round sz \<le> MEMITEM_SIZE x s) fs else None of
      None \<Rightarrow> rt_memheap_alloc h sz s = Some (None, s)
    | Some x \<Rightarrow> x \<in> free_items bs s \<and> (\<exists>bs' fs' s'. rt_memheap_alloc h sz s = Some (Some (x + 24), s') \<and> heap_wf h bs' fs' s' \<and> mh_bytes s' = mh_bytes s \<and>
        mh_round sz \<le> MEMITEM_SIZE x s' \<and> row_blocks bs' s' = insert (x + 24, MEMITEM_SIZE x s') (row_blocks bs s))"
proof -
  let ?n = "mh_round sz" and ?fl = "free_list (mheaps s h)"
  have w: "row_ok h bs s" "ring_ok h fs s" "set fs = free_items bs s" using wf by (simp_all add: heap_wf_def)
  have hp: "is_memheap h s" using w(1) by (simp add: row_ok_def)
  obtain f' where f': "f' < ?n" "memheap_find ?fl ?n (nf s ?fl) 0 s =
    Some (case List.find (\<lambda>z. ?n \<le> MEMITEM_SIZE z s) fs of Some z \<Rightarrow> (z, MEMITEM_SIZE z s) | None \<Rightarrow> (?fl, f'))"
    by (rule find_in_ring [OF w(2) mh_round_ge(2)])
  show ?thesis
  proof (cases "if ?n < available_size (mheaps s h) then List.find (\<lambda>x. ?n \<le> MEMITEM_SIZE x s) fs else None")
    case None
    then show ?thesis using hp f' by (auto simp: rt_memheap_alloc_def Let_def fold_fields not_less split: if_splits)
  next
    case (Some x)
    then have x: "List.find (\<lambda>x. ?n \<le> MEMITEM_SIZE x s) fs = Some x" "?n < available_size (mheaps s h)" by (auto split: if_splits)
    then have xs: "x \<in> set fs" "?n \<le> MEMITEM_SIZE x s" by (auto simp: find_Some_iff)
    have a: "rt_memheap_alloc h sz s = Some (Some (x + 24), memheap_take h ?n x (MEMITEM_SIZE x s) s)"
      using hp f' x xs(2) by (simp add: rt_memheap_alloc_def Let_def fold_fields)
    have xf: "x \<in> free_items bs s" using xs(1) by (simp add: w(3))
    obtain f1 f2 where f: "fs = f1 @ x # f2" using split_list [OF xs(1)] by blast
    obtain P y Q where bs: "bs = P @ x # y # Q" using row_item_split [OF _ free_not_last [OF w(1) xf]] xf by (auto simp: free_items_def)
    note t = take_whole [OF wf [unfolded f bs]] take_split [OF wf [unfolded f bs] mh_round_ge(1) xs(2)]
    show ?thesis
    proof (cases "MEMITEM_SIZE x s \<ge> ?n + RT_MEMHEAP_SIZE + RT_MEMHEAP_MINIALLOC")
      case True
      show ?thesis unfolding Some using t(5-8) [OF True] xf a by (auto simp: bs)
    next
      case False
      show ?thesis unfolding Some using t(1-4) [OF False] xf xs(2) a by (auto simp: bs)
    qed
  qed
qed

section \<open>Release\<close>

text \<open>The states in the middle of a release: some free items are not on the free list yet, and an item may have a free one behind it.\<close>

definition wf_except :: "nat \<Rightarrow> u32 list \<Rightarrow> u32 list \<Rightarrow> u32 set \<Rightarrow> u32 set \<Rightarrow> mh_state \<Rightarrow> bool" where
  "wf_except h bs fs X E s \<longleftrightarrow> row_ok h bs s \<and> ring_ok h fs s \<and> X \<subseteq> free_items bs s \<and> set fs = free_items bs s - X \<and>
     successively (\<lambda>x y. RT_MEMHEAP_IS_USED x s \<or> RT_MEMHEAP_IS_USED y s \<or> x \<in> E) bs \<and>
     available_size (mheaps s h) = (\<Sum>x \<in> free_items bs s. MEMITEM_SIZE x s)"

lemma wf_except_empty: "wf_except h bs fs {} {} s \<longleftrightarrow> heap_wf h bs fs s"
  by (auto simp: wf_except_def heap_wf_def no_free_pair_def)

lemma sum_absorb:
  fixes f f' :: "'a \<Rightarrow> u32"
  assumes "finite A" "x \<in> A" "y \<in> A" "x \<noteq> y" "f' x = f x + f y + c" "\<And>a. a \<in> A \<Longrightarrow> a \<noteq> x \<Longrightarrow> f' a = f a"
  shows "sum f' (A - {y}) = sum f A + c"
proof -
  have "sum f' (A - {y} - {x}) = sum f (A - {y} - {x})" using assms(6) by (intro sum.cong) auto
  moreover have "sum g A = g x + (g y + sum g (A - {y} - {x}))" "sum g (A - {y}) = g x + sum g (A - {y} - {x})" for g :: "'a \<Rightarrow> u32"
    using assms(1-4) by (simp_all add: sum.remove [of A y] sum.remove [of "A - {y}" x] ac_simps)
  ultimately show ?thesis using assms(5) by simp
qed

text \<open>A free item takes over the free item behind it.\<close>

lemma absorb:
  assumes row: "row_ok h (P @ a # m # b # Q) s" and free: "\<not> RT_MEMHEAP_IS_USED a s" "\<not> RT_MEMHEAP_IS_USED m s"
    and av: "available_size (mheaps s h) = (\<Sum>x \<in> free_items (P @ a # m # b # Q) s. MEMITEM_SIZE x s)"
    and e: "same_heap h s s'" "nx s' = (nx s)(a := b)" "pv s' = (pv s)(b := a)" "mg s' = mg s" "po s' = po s"
      "available_size (mheaps s' h) = available_size (mheaps s h) + 24"
  shows "row_ok h (P @ a # b # Q) s'" "free_items (P @ a # b # Q) s' = free_items (P @ a # m # b # Q) s - {m}"
    "available_size (mheaps s' h) = (\<Sum>x \<in> free_items (P @ a # b # Q) s'. MEMITEM_SIZE x s')"
    "row_blocks (P @ a # b # Q) s' = row_blocks (P @ a # m # b # Q) s" "\<And>x. RT_MEMHEAP_IS_USED x s' = RT_MEMHEAP_IS_USED x s"
proof -
  let ?bs = "P @ a # m # b # Q" and ?bs' = "P @ a # b # Q"
  have d: "distinct ?bs" by (rule row_neighbours(4) [OF row])
  have n: "nx s a = m" "nx s m = b" using row_neighbours(1) [OF row] row_neighbours(1) [of h "P @ [a]" m b Q s] row by simp_all
  show "row_ok h ?bs' s'" by (rule row_remove [OF row e(1-5)])
  show u: "RT_MEMHEAP_IS_USED x s' = RT_MEMHEAP_IS_USED x s" for x by (simp add: used_eq e)
  show f: "free_items ?bs' s' = free_items ?bs s - {m}" using d by (auto simp: free_items_def u)
  have "MEMITEM_SIZE a s' = MEMITEM_SIZE a s + MEMITEM_SIZE m s + 24" by (simp add: size_eq e n)
  moreover have sz: "x \<noteq> a \<Longrightarrow> MEMITEM_SIZE x s' = MEMITEM_SIZE x s" for x by (simp add: size_eq e)
  ultimately have "(\<Sum>x \<in> free_items ?bs s - {m}. MEMITEM_SIZE x s') = (\<Sum>x \<in> free_items ?bs s. MEMITEM_SIZE x s) + 24"
    using free d by (intro sum_absorb [of _ a]) (auto simp: free_items_def)
  then show "available_size (mheaps s' h) = (\<Sum>x \<in> free_items ?bs' s'. MEMITEM_SIZE x s')" by (simp add: e f av)
  have "MEMITEM_SIZE x s' = MEMITEM_SIZE x s" if "RT_MEMHEAP_IS_USED x s" for x using sz [of x] that free by blast
  then show "row_blocks ?bs' s' = row_blocks ?bs s"
    using free by (intro row_blocks_same) (auto simp: u)
qed

lemma successively_exempt: "a \<notin> set xs \<Longrightarrow> successively (\<lambda>x y. U x \<or> U y \<or> x = a) xs = successively (\<lambda>x y. U x \<or> U y) xs"
  by (rule successively_cong) auto

lemma successively_exempt2: "a \<notin> set xs \<Longrightarrow> successively (\<lambda>x y. U x \<or> U y \<or> x = a \<or> y = a) xs = successively (\<lambda>x y. U x \<or> U y) xs"
  by (rule successively_cong) auto

lemma coalesced_left:
  assumes "successively (\<lambda>x y. U x \<or> U y \<or> x = a \<or> y = a) (P @ a # b # Q)" "distinct (P @ a # b # Q)" "P = [] \<or> U (last P)"
  shows "successively (\<lambda>x y. U x \<or> U y \<or> x \<in> {a}) (P @ a # b # Q)"
  using assms by (auto simp: successively_append_iff successively_Cons successively_exempt successively_exempt2)

lemma coalesced_at:
  assumes "successively (\<lambda>x y. U x \<or> U y \<or> x \<in> {a}) (P @ a # b # Q)" "distinct (P @ a # b # Q)" "U b"
  shows "successively (\<lambda>x y. U x \<or> U y \<or> x \<in> {}) (P @ a # b # Q)"
  using assms by (auto simp: successively_append_iff successively_Cons successively_exempt)

lemma merge_right_step:
  assumes wf: "wf_except h bs fs X {x} s" and x: "x \<in> free_items bs s" "X \<subseteq> {x}"
  shows "\<exists>bs' fs'. wf_except h bs' fs' X {} (merge_right h x s) \<and> row_blocks bs' (merge_right h x s) = row_blocks bs s \<and>
    mh_bytes (merge_right h x s) = mh_bytes s"
proof -
  have w: "row_ok h bs s" "ring_ok h fs s" "X \<subseteq> free_items bs s" "set fs = free_items bs s - X"
    "successively (\<lambda>a b. RT_MEMHEAP_IS_USED a s \<or> RT_MEMHEAP_IS_USED b s \<or> a \<in> {x}) bs"
    "available_size (mheaps s h) = (\<Sum>x \<in> free_items bs s. MEMITEM_SIZE x s)" using wf by (simp_all only: wf_except_def)
  obtain P y Q where bs: "bs = P @ x # y # Q" using row_item_split [OF _ free_not_last [OF w(1) x(1)]] x(1) by (auto simp: free_items_def)
  note nb = row_neighbours [OF w(1) [unfolded bs]]
  show ?thesis
  proof (cases "RT_MEMHEAP_IS_USED y s")
    case True
    then have "merge_right h x s = s" by (simp add: merge_right_def Let_def fold_fields nb)
    moreover have "wf_except h bs fs X {} s"
      using w coalesced_at [OF w(5) [unfolded bs] nb(4) True] by (simp add: wf_except_def bs)
    ultimately show ?thesis by auto
  next
    case False
    then have yf: "y \<in> free_items bs s" by (simp add: bs free_items_def)
    then obtain z Q' where Q: "Q = z # Q'" using free_not_last [OF w(1) yf] by (cases Q) (auto simp: bs)
    have y: "y \<in> set fs" using yf x(2) nb(4) by (auto simp: w(4))
    obtain f1 f2 where f: "fs = f1 @ y # f2" using split_list [OF y] by blast
    note r = ring_self [OF w(2) y]
    have yz: "nx s y = z" "y \<noteq> z" "x \<noteq> z" "y \<noteq> x" using row_neighbours [of h "P @ [x]" y z Q' s] w(1) nb(4) by (auto simp: bs Q)
    define s' where "s' = merge_right h x s"
    have e: "same_heap h s s'" "nx s' = (nx s)(x := z)" "pv s' = (pv s)(z := x)" "mg s' = mg s" "po s' = po s" "mh_bytes s' = mh_bytes s"
      "available_size (mheaps s' h) = available_size (mheaps s h) + 24" "nf s' = (nf s)(pf s y := nf s y)" "pf s' = (pf s)(nf s y := pf s y)"
      using False r yz by (auto simp: s'_def merge_right_def Let_def fold_fields nb mh_eff same_heap_def)
    note a = absorb [OF w(1) [unfolded bs Q] _ False w(6) [unfolded bs Q] e(1-5,7)]
    have xu: "\<not> RT_MEMHEAP_IS_USED x s" using x(1) by (simp add: free_items_def)
    note a = a [OF xu]
    have "ring_ok h (f1 @ f2) s'" by (rule ring_remove [OF w(2) [unfolded f] e(1)]) (simp_all add: e)
    moreover have "set (f1 @ f2) = free_items (P @ x # z # Q') s' - X"
      using w(2,4) by (auto simp: a(2) f bs Q ring_ok_def Let_def)
    moreover have "X \<subseteq> free_items (P @ x # z # Q') s'" using w(3) x(2) yz by (auto simp: a(2) bs Q)
    moreover have "successively (\<lambda>a b. RT_MEMHEAP_IS_USED a s' \<or> RT_MEMHEAP_IS_USED b s' \<or> a \<in> {}) (P @ x # z # Q')"
      using w(5) nb(4) False yz(4) by (auto simp: bs Q a(5) successively_append_iff successively_Cons successively_exempt)
    ultimately have "wf_except h (P @ x # z # Q') (f1 @ f2) X {} s'" using a(1,3) by (simp add: wf_except_def)
    with a(4) e(6) show ?thesis by (auto simp: s'_def bs Q)
  qed
qed

lemma insert_free_step:
  assumes wf: "wf_except h bs fs {x} {} s"
  shows "heap_wf h bs (x # fs) (insert_free h x s)" "row_blocks bs (insert_free h x s) = row_blocks bs s" "mh_bytes (insert_free h x s) = mh_bytes s"
    "nx (insert_free h x s) = nx s" "mheaps (insert_free h x s) = mheaps s"
proof -
  let ?s = "insert_free h x s"
  have w: "row_ok h bs s" "ring_ok h fs s" "x \<in> free_items bs s" "set fs = free_items bs s - {x}" "no_free_pair bs s"
    "available_size (mheaps s h) = (\<Sum>x \<in> free_items bs s. MEMITEM_SIZE x s)" using wf by (simp_all add: wf_except_def no_free_pair_def)
  have n: "free_list (mheaps s h) \<noteq> x" using fl_outside [OF w(1)] w(3) by (auto simp: free_items_def)
  note e = insert_free_eff [OF refl n]
  have u: "RT_MEMHEAP_IS_USED a ?s = RT_MEMHEAP_IS_USED a s" "MEMITEM_SIZE a ?s = MEMITEM_SIZE a s" for a by (simp_all add: used_eq size_eq e)
  have f: "free_items bs ?s = free_items bs s" by (simp add: free_items_def u)
  have "row_ok h bs ?s" by (rule row_same [OF w(1)]) (simp_all add: e same_heap_def)
  moreover have "ring_ok h (x # fs) ?s" using n w(4) by (intro ring_insert w(2)) auto
  ultimately show "heap_wf h bs (x # fs) ?s" using w(3-6) by (auto simp: heap_wf_def f e u no_free_pair_def)
  show "row_blocks bs ?s = row_blocks bs s" by (simp add: row_blocks_def u)
  show "mh_bytes ?s = mh_bytes s" "nx ?s = nx s" "mheaps ?s = mheaps s" by (simp_all add: e)
qed

text \<open>Marking an item free, and the merge with the item before.\<close>

lemma mark_free_step:
  assumes wf: "heap_wf h (P @ x # y # Q) fs s" and x: "RT_MEMHEAP_IS_USED x s"
    and e: "same_heap h s s'" "nx s' = nx s" "pv s' = pv s" "nf s' = nf s" "pf s' = pf s" "mg s' = (mg s)(x := mg s x AND NOT 1)" "po s' = po s"
      "available_size (mheaps s' h) = available_size (mheaps s h) + MEMITEM_SIZE x s"
  shows "row_ok h (P @ x # y # Q) s'" "ring_ok h fs s'" "\<And>a. RT_MEMHEAP_IS_USED a s' \<longleftrightarrow> a \<noteq> x \<and> RT_MEMHEAP_IS_USED a s"
    "free_items (P @ x # y # Q) s' = insert x (free_items (P @ x # y # Q) s)" "x \<notin> free_items (P @ x # y # Q) s"
    "available_size (mheaps s' h) = (\<Sum>a \<in> free_items (P @ x # y # Q) s'. MEMITEM_SIZE a s')"
    "row_blocks (P @ x # y # Q) s' = row_blocks (P @ x # y # Q) s - {(x + 24, MEMITEM_SIZE x s)}"
proof -
  let ?bs = "P @ x # y # Q"
  have w: "row_ok h ?bs s" "ring_ok h fs s" "available_size (mheaps s h) = (\<Sum>x \<in> free_items ?bs s. MEMITEM_SIZE x s)" using wf by (simp_all add: heap_wf_def)
  note m = magic_bits [OF row_magic(1) [OF w(1), of x, simplified]]
  have l: "x \<noteq> last ?bs" using row_neighbours(4) [OF w(1)] by (cases Q rule: rev_cases) auto
  show "row_ok h ?bs s'" by (rule row_mark [OF w(1) e(1,2,3,6,7) m(2) l])
  show "ring_ok h fs s'" by (rule ring_same [OF w(2) e(1,4,5)])
  show u: "RT_MEMHEAP_IS_USED a s' \<longleftrightarrow> a \<noteq> x \<and> RT_MEMHEAP_IS_USED a s" for a using m(4) by (simp add: used_eq e del: bit.compl_one)
  have sz: "MEMITEM_SIZE a s' = MEMITEM_SIZE a s" for a by (simp add: size_eq e)
  show f: "free_items ?bs s' = insert x (free_items ?bs s)" by (auto simp: free_items_def u)
  show n: "x \<notin> free_items ?bs s" using x by (simp add: free_items_def)
  show "available_size (mheaps s' h) = (\<Sum>a \<in> free_items ?bs s'. MEMITEM_SIZE a s')" using n by (simp add: e(8) f sz w(3))
  show "row_blocks ?bs s' = row_blocks ?bs s - {(x + 24, MEMITEM_SIZE x s)}" by (auto simp: row_blocks_def u sz)
qed

lemma row_prev:
  assumes "row_ok h (P @ x # Q) s"
  shows "pv s x = (if P = [] then last (x # Q) else last P)"
proof (cases P rule: rev_cases)
  case Nil
  have "butlast (x # Q) @ [last (x # Q), x] = (x # Q) @ [x]"
    using append_butlast_last_id [of "x # Q"] by (metis append.assoc append_Cons append_Nil list.distinct(1))
  then have "linked (nx s) (pv s) (butlast (x # Q) @ [last (x # Q), x])" using assms Nil by (simp only: row_ok_def append_Nil list.sel)
  then show ?thesis using linked_nth [of "nx s" "pv s" "butlast (x # Q)" "last (x # Q)" x "[]"] Nil by simp
next
  case (snoc P' w)
  then show ?thesis using row_neighbours(2) [of h P' w x Q s] assms by simp
qed

lemma merge_left_step:
  assumes row: "row_ok h (P @ x # y # Q) s" and ring: "ring_ok h fs s" "set fs = free_items (P @ x # y # Q) s - {x}"
    and co: "successively (\<lambda>a b. RT_MEMHEAP_IS_USED a s \<or> RT_MEMHEAP_IS_USED b s \<or> a = x \<or> b = x) (P @ x # y # Q)" and x: "\<not> RT_MEMHEAP_IS_USED x s"
    and av: "available_size (mheaps s h) = (\<Sum>a \<in> free_items (P @ x # y # Q) s. MEMITEM_SIZE a s)"
  shows "\<exists>z ins s' bs'. merge_left h x s = (z, ins, s') \<and> wf_except h bs' fs (if ins then {z} else {}) {z} s' \<and> z \<in> free_items bs' s' \<and>
    row_blocks bs' s' = row_blocks (P @ x # y # Q) s \<and> mh_bytes s' = mh_bytes s"
proof -
  let ?bs = "P @ x # y # Q"
  have d: "distinct ?bs" by (rule row_neighbours(4) [OF row])
  have lu: "RT_MEMHEAP_IS_USED (last ?bs) s" using row by (simp add: row_ok_def)
  have p: "pv s x = (if P = [] then last ?bs else last P)" using row_prev [OF row] by simp
  show ?thesis
  proof (cases "RT_MEMHEAP_IS_USED (pv s x) s")
    case True
    then have m: "merge_left h x s = (x, True, s)" by (simp add: merge_left_def Let_def fold_fields)
    have xf: "x \<in> free_items ?bs s" using x by (simp add: free_items_def)
    have "successively (\<lambda>a b. RT_MEMHEAP_IS_USED a s \<or> RT_MEMHEAP_IS_USED b s \<or> a \<in> {x}) ?bs"
      using True p by (intro coalesced_left [OF co d]) (auto split: if_splits)
    then have "wf_except h ?bs fs {x} {x} s" unfolding wf_except_def using row ring av xf by (intro conjI) (assumption | simp)+
    with m xf show ?thesis by (intro exI [of _ x] exI [of _ True] exI [of _ s] exI [of _ ?bs]) simp
  next
    case False
    then obtain P' w where P: "P = P' @ [w]" using p lu by (cases P rule: rev_cases) auto
    then have w: "pv s x = w" "\<not> RT_MEMHEAP_IS_USED w s" using p False by auto
    have nb: "nx s x = y" using row_neighbours [OF row] by simp
    define s' where "s' = snd (snd (merge_left h x s))"
    have ne: "w \<noteq> x" "w \<noteq> y" "x \<noteq> y" using d by (auto simp: P)
    have m: "merge_left h x s = (w, False, s')" using ne w by (simp add: s'_def merge_left_def Let_def fold_fields mh_eff nb)
    have e: "same_heap h s s'" "nx s' = (nx s)(w := y)" "pv s' = (pv s)(y := w)" "mg s' = mg s" "po s' = po s" "mh_bytes s' = mh_bytes s"
      "available_size (mheaps s' h) = available_size (mheaps s h) + 24" "nf s' = nf s" "pf s' = pf s"
      using ne w by (auto simp: s'_def merge_left_def Let_def fold_fields nb mh_eff same_heap_def)
    have r: "row_ok h (P' @ w # x # y # Q) s" "available_size (mheaps s h) = (\<Sum>a \<in> free_items (P' @ w # x # y # Q) s. MEMITEM_SIZE a s)"
      using row av by (simp_all add: P)
    note a = absorb [OF r(1) w(2) x r(2) e(1-5,7)]
    have "ring_ok h fs s'" by (rule ring_same [OF ring(1) e(1,8,9)])
    moreover have "successively (\<lambda>a b. RT_MEMHEAP_IS_USED a s' \<or> RT_MEMHEAP_IS_USED b s' \<or> a \<in> {w}) (P' @ w # y # Q)"
      using co d x w(2) by (auto simp: P a(5) successively_append_iff successively_Cons successively_exempt successively_exempt2 dest: hd_in_set)
    ultimately have "wf_except h (P' @ w # y # Q) fs {} {w} s'" using a(1-3) ring(2) by (simp add: wf_except_def P)
    moreover have "w \<in> free_items (P' @ w # y # Q) s'" using w(2) by (simp add: free_items_def a(5))
    ultimately show ?thesis using m a(4) e(6)
      by (intro exI [of _ w] exI [of _ False] exI [of _ s'] exI [of _ "P' @ w # y # Q"]) (simp add: P)
  qed
qed

lemma free_step:
  assumes wf: "heap_wf h bs fs s" and x: "x \<in> set bs" "x \<noteq> last bs" "RT_MEMHEAP_IS_USED x s"
  shows "\<exists>bs' fs' s'. rt_memheap_free (Some (x + 24)) s = Some s' \<and> heap_wf h bs' fs' s' \<and> row_blocks bs' s' = row_blocks bs s - {(x + 24, MEMITEM_SIZE x s)} \<and>
    mh_bytes s' = mh_bytes s"
proof -
  obtain P y Q where bs: "bs = P @ x # y # Q" using row_item_split [OF x(1,2)] by blast
  have w: "row_ok h bs s" "set fs = free_items bs s" "no_free_pair bs s" using wf by (simp_all only: heap_wf_def)
  note nb = row_neighbours [OF w(1) [unfolded bs]]
  define s1 where "s1 = upd_item x (\<lambda>i. i\<lparr>it_magic := it_magic i AND NOT RT_MEMHEAP_USED\<rparr>) s"
  define s2 where "s2 = upd_heap h (\<lambda>m. m\<lparr>available_size := available_size m + MEMITEM_SIZE x s1\<rparr>) s1"
  have e: "same_heap h s s2" "nx s2 = nx s" "pv s2 = pv s" "nf s2 = nf s" "pf s2 = pf s" "mg s2 = (mg s)(x := mg s x AND NOT 1)" "po s2 = po s"
    "available_size (mheaps s2 h) = available_size (mheaps s h) + MEMITEM_SIZE x s" "mh_bytes s2 = mh_bytes s"
    by (simp_all add: s2_def s1_def mh_eff same_heap_def fold_fields size_eq del: bit.compl_one)
  note m = mark_free_step [OF wf [unfolded bs] x(3) e(1-8)]
  have fs: "set fs = free_items (P @ x # y # Q) s2 - {x}" using m(5) by (simp add: m(4) w(2) bs)
  have co: "successively (\<lambda>a b. RT_MEMHEAP_IS_USED a s2 \<or> RT_MEMHEAP_IS_USED b s2 \<or> a = x \<or> b = x) (P @ x # y # Q)"
    using w(3) unfolding no_free_pair_def bs by (rule successively_mono) (auto simp: m(3))
  have xu: "\<not> RT_MEMHEAP_IS_USED x s2" by (simp add: m(3))
  obtain z ins s3 bs3 where l: "merge_left h x s2 = (z, ins, s3)" "wf_except h bs3 fs (if ins then {z} else {}) {z} s3" "z \<in> free_items bs3 s3"
    "row_blocks bs3 s3 = row_blocks (P @ x # y # Q) s2" "mh_bytes s3 = mh_bytes s2"
    using merge_left_step [OF m(1,2) fs co xu m(6)] by blast
  have "(if ins then {z} else {}) \<subseteq> {z}" by simp
  then obtain bs4 fs4 where r: "wf_except h bs4 fs4 (if ins then {z} else {}) {} (merge_right h z s3)" "row_blocks bs4 (merge_right h z s3) = row_blocks bs3 s3"
    "mh_bytes (merge_right h z s3) = mh_bytes s3"
    using merge_right_step [OF l(2,3)] by blast
  define s4 where "s4 = (if ins then insert_free h z (merge_right h z s3) else merge_right h z s3)"
  have fin: "\<exists>fs'. heap_wf h bs4 fs' s4 \<and> row_blocks bs4 s4 = row_blocks bs3 s3 \<and> mh_bytes s4 = mh_bytes s3"
    using r insert_free_step [of h bs4 fs4 z "merge_right h z s3"] by (cases ins) (auto simp: s4_def wf_except_empty)
  have "rt_memheap_free (Some (x + 24)) s = Some s4"
    using x row_magic [OF w(1), of x] row_magic [OF w(1), of y] w(1) l(1)
    by (simp add: rt_memheap_free_def Let_def fold_fields nb s4_def bs row_ok_def s2_def s1_def)
  with fin l(4,5) m(7) e(9) show ?thesis by (auto simp: bs)
qed

section \<open>A memory manager\<close>

text \<open>The row of a heap, read from its first item by following the links.\<close>

partial_function (option) read_row :: "u32 \<Rightarrow> u32 \<Rightarrow> mh_state \<Rightarrow> u32 list option" where
  "read_row a b s = (if it_next (items s b) = a then Some [b] else do {
     r \<leftarrow> read_row a (it_next (items s b)) s;
     Some (b # r) })"

definition mh_row :: "nat \<Rightarrow> mh_state \<Rightarrow> u32 list" where
  "mh_row h s = (case read_row (start_addr (mheaps s h)) (start_addr (mheaps s h)) s of Some r \<Rightarrow> r | None \<Rightarrow> [])"

definition mh_blocks :: "nat \<Rightarrow> mh_state \<Rightarrow> (u32 \<times> u32) set" where
  "mh_blocks h s = row_blocks (mh_row h s) s"

definition mh_inv :: "nat \<Rightarrow> mh_state \<Rightarrow> bool" where
  "mh_inv h s \<longleftrightarrow> (\<exists>fs. heap_wf h (mh_row h s) fs s)"

lemma read_row_eq: "linked (nx s) (pv s) (b # xs @ [a]) \<Longrightarrow> a \<notin> set xs \<Longrightarrow> read_row a b s = Some (b # xs)"
proof (induction xs arbitrary: b)
  case Nil
  then show ?case by (subst read_row.simps) (simp add: fold_fields)
next
  case (Cons c xs)
  then show ?case by (subst read_row.simps) (auto simp add: fold_fields)
qed

lemma heap_wf_row: "heap_wf h bs fs s \<Longrightarrow> mh_row h s = bs"
proof -
  assume wf: "heap_wf h bs fs s"
  then obtain b xs where bs: "bs = b # xs" by (cases bs) (auto simp: heap_wf_def row_ok_def)
  have "row_ok h (b # xs) s" using wf by (simp add: heap_wf_def bs)
  then have "linked (nx s) (pv s) (b # xs @ [b])" "b \<notin> set xs" "start_addr (mheaps s h) = b"
    by (auto simp: row_ok_def dest: gap_less(2))
  then show ?thesis by (simp add: mh_row_def read_row_eq bs)
qed

lemma heap_wf_inv: "heap_wf h bs fs s \<Longrightarrow> mh_inv h s" "heap_wf h bs fs s \<Longrightarrow> mh_blocks h s = row_blocks bs s"
  by (auto simp: mh_inv_def mh_blocks_def heap_wf_row)

lemma item_extent:
  assumes "row_ok h bs s" "x \<in> set bs" "x \<noteq> last bs"
  shows "unat (x + 24) = unat x + 24" "\<And>z. z \<in> set bs \<Longrightarrow> z \<noteq> x \<Longrightarrow> unat z < unat x \<or> unat (x + 24) + unat (MEMITEM_SIZE x s) \<le> unat z"
proof -
  obtain P y Q where bs: "bs = P @ x # y # Q" using row_item_split [OF assms(2,3)] by blast
  note s = row_size [OF assms(1) [unfolded bs]]
  show u: "unat (x + 24) = unat x + 24" using s(2) unat_less_2_32 [of y] unat_add_no_wrap [of x 24] by simp
  have o: "sorted_wrt gap (P @ x # y # Q)" using assms(1) by (simp add: row_ok_def bs)
  show "unat z < unat x \<or> unat (x + 24) + unat (MEMITEM_SIZE x s) \<le> unat z" if "z \<in> set bs" "z \<noteq> x" for z
    using that o s(2) by (auto simp: bs u sorted_wrt_append gap_def)
qed

lemma row_blocks_apart:
  assumes "row_ok h bs s" "(p, n) \<in> row_blocks bs s" "(q, m) \<in> row_blocks bs s" "(p, n) \<noteq> (q, m)"
  shows "p \<noteq> q \<and> (unat p + unat n \<le> unat q \<or> unat q + unat m \<le> unat p)"
proof -
  obtain x z where x: "x \<in> set bs" "x \<noteq> last bs" "p = x + 24" "n = MEMITEM_SIZE x s" and z: "z \<in> set bs" "z \<noteq> last bs" "q = z + 24" "m = MEMITEM_SIZE z s"
    using assms(2,3) by (auto simp: row_blocks_def)
  have ne: "x \<noteq> z" using assms(4) x z by auto
  note ex = item_extent [OF assms(1) x(1,2)] and ez = item_extent [OF assms(1) z(1,2)]
  show ?thesis using ne ex(1) ez(1) ex(2) [OF z(1)] ez(2) [OF x(1)] by (auto simp: x(3,4) z(3,4))
qed

lemma memheap_alloc_law:
  assumes "mh_inv h s"
  shows "\<exists>p s'. rt_memheap_alloc h sz s = Some (p, s') \<and> mh_inv h s' \<and>
    (case p of None \<Rightarrow> mh_blocks h s' = mh_blocks h s | Some q \<Rightarrow> q \<notin> fst ` mh_blocks h s \<and> (\<exists>n. mh_blocks h s' = insert (q, n) (mh_blocks h s)))"
proof -
  obtain bs fs where wf: "heap_wf h bs fs s" using assms by (auto simp: mh_inv_def)
  note w = heap_wf_inv [OF wf] and a = alloc_step [OF wf, of sz]
  show ?thesis
  proof (cases "if mh_round sz < available_size (mheaps s h) then List.find (\<lambda>x. mh_round sz \<le> MEMITEM_SIZE x s) fs else None")
    case None
    with a assms show ?thesis by auto
  next
    case (Some x)
    then obtain bs' fs' s' where s': "rt_memheap_alloc h sz s = Some (Some (x + 24), s')" "heap_wf h bs' fs' s'" "x \<in> free_items bs s"
      "row_blocks bs' s' = insert (x + 24, MEMITEM_SIZE x s') (row_blocks bs s)" using a by auto
    have "x + 24 \<notin> fst ` row_blocks bs s" using s'(3) by (auto simp: row_blocks_def free_items_def)
    then show ?thesis using s'(1) heap_wf_inv [OF s'(2)] s'(4) w(2) by auto
  qed
qed

lemma memheap_free_law:
  assumes "mh_inv h s" "(p, n) \<in> mh_blocks h s"
  shows "\<exists>s'. rt_memheap_free (Some p) s = Some s' \<and> mh_inv h s' \<and> mh_blocks h s' = mh_blocks h s - {(p, n)}"
proof -
  obtain bs fs where wf: "heap_wf h bs fs s" using assms by (auto simp: mh_inv_def)
  obtain x where x: "x \<in> set bs" "x \<noteq> last bs" "RT_MEMHEAP_IS_USED x s" "p = x + 24" "n = MEMITEM_SIZE x s"
    using assms(2) by (auto simp: heap_wf_inv(2) [OF wf] row_blocks_def)
  obtain bs' fs' s' where "rt_memheap_free (Some (x + 24)) s = Some s'" "heap_wf h bs' fs' s'" "row_blocks bs' s' = row_blocks bs s - {(x + 24, MEMITEM_SIZE x s)}"
    using free_step [OF wf x(1-3)] by blast
  then show ?thesis using heap_wf_inv [of h bs' fs' s'] by (auto simp: x heap_wf_inv(2) [OF wf])
qed

text \<open>No operation moves a heap or changes its size.\<close>

definition area :: "nat \<Rightarrow> mh_state \<Rightarrow> u32 \<times> u32" where
  "area h s = (start_addr (mheaps s h), mh_pool_size (mheaps s h))"

lemma area_upd [simp]: "area h (upd_item a f s) = area h s"
  "(\<And>m. start_addr (g m) = start_addr m \<and> mh_pool_size (g m) = mh_pool_size m) \<Longrightarrow> area h (upd_heap k g s) = area h s"
  by (simp_all add: area_def mh_eff)

lemma area_steps [simp]: "area h (insert_free k x s) = area h s" "area h (unlink_free x s) = area h s" "area h (insert_item k x n s) = area h s"
  "area h (use_size k n s) = area h s" "area h (memheap_take k sz x n s) = area h s" "area h (merge_right k x s) = area h s"
  "area h (snd (snd (merge_left k x s))) = area h s"
  by (simp_all add: insert_free_def unlink_free_def insert_item_def use_size_def memheap_take_def merge_right_def merge_left_def Let_def)

lemma area_alloc: "rt_memheap_alloc k sz s = Some (p, s') \<Longrightarrow> area h s' = area h s"
  by (auto simp: rt_memheap_alloc_def Let_def split: bind_splits if_splits)

lemma area_merge_left: "merge_left k x s = (y, ins, s') \<Longrightarrow> area h s' = area h s"
  using area_steps(7) [of h k x s] by simp

lemma area_free: "rt_memheap_free p s = Some s' \<Longrightarrow> area h s' = area h s"
  by (auto simp: rt_memheap_free_def Let_def area_merge_left split: bind_splits if_splits option.splits prod.splits)

definition mh_at :: "nat \<Rightarrow> u32 \<times> u32 \<Rightarrow> mh_state \<Rightarrow> bool" where
  "mh_at h a s \<longleftrightarrow> mh_inv h s \<and> area h s = a"

interpretation memheap_store: block_store "mh_at h a" "mh_blocks h" "rt_memheap_alloc h" "\<lambda>p. rt_memheap_free (Some p)" for h a
proof unfold_locales
  show "\<exists>p s'. rt_memheap_alloc h r s = Some (p, s') \<and> mh_at h a s' \<and>
    (case p of None \<Rightarrow> mh_blocks h s' = mh_blocks h s | Some q \<Rightarrow> q \<notin> fst ` mh_blocks h s \<and> (\<exists>n. mh_blocks h s' = insert (q, n) (mh_blocks h s)))"
    if "mh_at h a s" for s r
    using memheap_alloc_law [of h s r] area_alloc [of h r s] that by (fastforce simp: mh_at_def)
  show "\<exists>s'. rt_memheap_free (Some p) s = Some s' \<and> mh_at h a s' \<and> mh_blocks h s' = mh_blocks h s - {(p, n)}"
    if "mh_at h a s" "(p, n) \<in> mh_blocks h s" for s p n
    using memheap_free_law [of h s p n] area_free [of "Some p" s] that by (fastforce simp: mh_at_def)
  show "p \<noteq> q \<and> (unat p + unat n \<le> unat q \<or> unat q + unat m \<le> unat p)"
    if "mh_at h a s" "(p, n) \<in> mh_blocks h s" "(q, m) \<in> mh_blocks h s" "(p, n) \<noteq> (q, m)" for s p n q m
  proof -
    have "row_ok h (mh_row h s) s" using that(1) by (auto simp: mh_at_def mh_inv_def heap_wf_def)
    then show ?thesis using that(2-4) unfolding mh_blocks_def by (rule row_blocks_apart)
  qed
qed

section \<open>A new heap\<close>

lemma init_kernel:
  assumes "Obj h \<notin> set (containers k RT_Object_Class_MemHeap)" "Obj (mh_lock h) \<notin> set (containers k RT_Object_Class_Semaphore)"
  obtains k1 k2 where "rt_object_init (Obj h) RT_Object_Class_MemHeap name k = Some k1" "rt_sem_init (mh_lock h) name 1 RT_IPC_FLAG_FIFO k1 = Some (RT_EOK, k2)"
    "rt_object_get_type (Obj h) k2 = RT_Object_Class_MemHeap"
proof -
  have new: "\<forall>y \<in> set (containers k RT_Object_Class_MemHeap). y \<noteq> Obj h" "\<forall>y \<in> set (containers k RT_Object_Class_Semaphore). y \<noteq> Obj (mh_lock h)"
    using assms by auto
  have "\<exists>k1. rt_object_init (Obj h) RT_Object_Class_MemHeap name k = Some k1 \<and> o_type (obj k1 (Obj h)) = 135 \<and>
      containers k1 RT_Object_Class_Semaphore = containers k RT_Object_Class_Semaphore"
    using new(1) by (simp add: rt_object_init_def rt_object_get_information_eq rt_object_classes_def)
  then obtain k1 where k1: "rt_object_init (Obj h) RT_Object_Class_MemHeap name k = Some k1" "o_type (obj k1 (Obj h)) = 135"
      "containers k1 RT_Object_Class_Semaphore = containers k RT_Object_Class_Semaphore" by blast
  have "\<exists>k2. rt_sem_init (mh_lock h) name 1 RT_IPC_FLAG_FIFO k1 = Some (RT_EOK, k2) \<and> o_type (obj k2 (Obj h)) = 135"
    using new(2) k1 by (simp add: rt_sem_init_def rt_object_init_def rt_object_get_information_eq rt_object_classes_def set_flag_def set_sem_def
      rt_ipc_object_init_def mh_lock_def)
  then obtain k2 where k2: "rt_sem_init (mh_lock h) name 1 RT_IPC_FLAG_FIFO k1 = Some (RT_EOK, k2)" "o_type (obj k2 (Obj h)) = 135" by blast
  show thesis using that [OF k1(1) k2(1)] k2(2) by (simp add: rt_object_get_type_def)
qed

lemma memheap_init_step:
  assumes "Obj h \<notin> set (containers (mh_kern s) RT_Object_Class_MemHeap)" "Obj (mh_lock h) \<notin> set (containers (mh_kern s) RT_Object_Class_Semaphore)"
    and "84 \<le> unat sz" "36 \<le> unat start" "unat start + unat sz \<le> 2 ^ 32" "h \<noteq> 0" "h + 100 \<le> unat start \<or> unat start + unat sz \<le> h \<and> h + 100 \<le> 2 ^ 32"
  shows "\<exists>s'. rt_memheap_init h name start sz s = Some (RT_EOK, s') \<and> heap_wf h [start, start + (RT_ALIGN_DOWN sz 4 - 24)] [start] s' \<and>
    available_size (mheaps s' h) = RT_ALIGN_DOWN sz 4 - 48 \<and> mh_bytes s' = mh_bytes s"
proof -
  define ps where "ps = RT_ALIGN_DOWN sz 4"
  have ups: "unat ps = unat sz div 4 * 4" "84 \<le> unat ps" "unat ps \<le> unat sz" using assms(3) by (simp_all add: ps_def unat_align_down)
  define tail where "tail = start + (ps - 24)"
  define fh where "fh = free_header h"
  have ut: "unat tail = unat start + unat ps - 24" using ups assms(5) by (simp add: tail_def unat_add_no_wrap unat_sub word_le_nat_alt)
  have ufh: "unat fh = h + 44" using assms(5,7) unat_less_2_32 [of start] by (auto simp: fh_def free_header_def unat_word_ariths unat_of_nat)
  have fh: "unat fh < unat start \<or> unat tail < unat fh" using assms(7) ufh ut ups by auto
  have g: "gap start tail" using ut ups by (simp add: gap_def)
  have ne: "start \<noteq> tail" "fh \<noteq> start" "fh \<noteq> tail" using g fh ut ups by (auto simp: gap_def)
  have t': "start + ps - 24 = tail" "ps \<noteq> 24" using ups by (auto simp: tail_def)
  obtain k1 k2 where k: "rt_object_init (Obj h) RT_Object_Class_MemHeap name (mh_kern s) = Some k1" "rt_sem_init (mh_lock h) name 1 RT_IPC_FLAG_FIFO k1 = Some (RT_EOK, k2)"
    "rt_object_get_type (Obj h) k2 = RT_Object_Class_MemHeap" by (rule init_kernel [OF assms(1,2)])
  define s' where "s' = snd (the (rt_memheap_init h name start sz s))"
  have i: "rt_memheap_init h name start sz s = Some (RT_EOK, s')"
    using k by (simp add: s'_def rt_memheap_init_def Let_def mh_eff insert_free_def)
  have e: "nx s' start = tail" "nx s' tail = start" "pv s' start = tail" "pv s' tail = start" "nf s' fh = start" "pf s' fh = start" "nf s' start = fh" "pf s' start = fh"
    "mg s' start = RT_MEMHEAP_MAGIC" "mg s' tail = RT_MEMHEAP_MAGIC OR 1" "po s' start = h" "po s' tail = h" "mh_kern s' = k2" "mh_bytes s' = mh_bytes s"
    "start_addr (mheaps s' h) = start" "free_list (mheaps s' h) = fh" "available_size (mheaps s' h) = ps - 48" "mh_pool_size (mheaps s' h) = ps"
    using k ne by (simp_all add: s'_def rt_memheap_init_def Let_def insert_free_def mh_eff fold_fields fh_def [symmetric] ps_def [symmetric] t')
  have u: "\<not> RT_MEMHEAP_IS_USED start s'" "RT_MEMHEAP_IS_USED tail s'" by (simp_all add: used_eq e)
  have tp: "ps = 24 + (tail - start)" by (simp add: tail_def)
  have f: "free_items [start, tail] s' = {start}" by (auto simp: free_items_def u)
  have "heap_wf h [start, tail] [start] s'"
    using e u fh g ne k(3) assms(4,6) tp by (simp add: heap_wf_def row_ok_def ring_ok_def no_free_pair_def f is_memheap_def size_eq Let_def tail_def [symmetric])
  then show ?thesis using i e(14,17) by (simp add: tail_def ps_def)
qed

section \<open>Resizing\<close>

text \<open>Both ways to resize in place end with a split: the end of a used item becomes a free item, which is merged with a free one behind it. Growing first takes over the free item behind
  the block. The invariant and the blocks depend on the headers and the count of free bytes only.\<close>

definition agree :: "nat \<Rightarrow> mh_state \<Rightarrow> mh_state \<Rightarrow> bool" where
  "agree h s t \<longleftrightarrow> same_heap h s t \<and> nx t = nx s \<and> pv t = pv s \<and> nf t = nf s \<and> pf t = pf s \<and> mg t = mg s \<and> po t = po s \<and>
     available_size (mheaps t h) = available_size (mheaps s h) \<and> mh_bytes t = mh_bytes s"

lemma heap_wf_agree:
  assumes "agree h s t"
  shows "heap_wf h bs fs s \<Longrightarrow> heap_wf h bs fs t" "row_blocks bs t = row_blocks bs s"
proof -
  have a: "same_heap h s t" "nx t = nx s" "pv t = pv s" "nf t = nf s" "pf t = pf s" "mg t = mg s" "po t = po s"
    "available_size (mheaps t h) = available_size (mheaps s h)" using assms by (simp_all add: agree_def)
  have u: "RT_MEMHEAP_IS_USED x t = RT_MEMHEAP_IS_USED x s" "MEMITEM_SIZE x t = MEMITEM_SIZE x s" for x by (simp_all add: used_eq size_eq a)
  show "heap_wf h bs fs s \<Longrightarrow> heap_wf h bs fs t"
    using row_same [OF _ a(1,2,3,6,7), of bs] ring_same [OF _ a(1,4,5), of fs] by (simp add: heap_wf_def free_items_def no_free_pair_def u a(8))
  show "row_blocks bs t = row_blocks bs s" by (simp add: row_blocks_def u)
qed

lemma row_blocks_resize:
  assumes "x \<in> set bs" "x \<noteq> last bs" "RT_MEMHEAP_IS_USED x s"
    "{a \<in> set bs'. a \<noteq> last bs' \<and> RT_MEMHEAP_IS_USED a s'} = {a \<in> set bs. a \<noteq> last bs \<and> RT_MEMHEAP_IS_USED a s}"
    "\<And>a. RT_MEMHEAP_IS_USED a s \<Longrightarrow> a \<in> set bs \<Longrightarrow> a \<noteq> x \<Longrightarrow> MEMITEM_SIZE a s' = MEMITEM_SIZE a s"
  shows "row_blocks bs' s' = insert (x + 24, MEMITEM_SIZE x s') (row_blocks bs s - {(x + 24, MEMITEM_SIZE x s)})"
  unfolding row_blocks_def assms(4) using assms(1-3,5) by (auto simp: image_iff) metis

lemma takeover_step:
  assumes wf: "heap_wf h (P @ x # y # z # Q) (f1 @ y # f2) s" and xy: "RT_MEMHEAP_IS_USED x s" "\<not> RT_MEMHEAP_IS_USED y s"
    and e: "same_heap h s s'" "nx s' = (nx s)(x := z)" "pv s' = (pv s)(z := x)" "mg s' = mg s" "po s' = po s"
      "nf s' = (nf s)(pf s y := nf s y)" "pf s' = (pf s)(nf s y := pf s y)" "available_size (mheaps s' h) = available_size (mheaps s h) - MEMITEM_SIZE y s"
  shows "heap_wf h (P @ x # z # Q) (f1 @ f2) s'" "MEMITEM_SIZE x s' = MEMITEM_SIZE x s + 24 + MEMITEM_SIZE y s" "RT_MEMHEAP_IS_USED z s'" "RT_MEMHEAP_IS_USED x s'"
    "row_blocks (P @ x # z # Q) s' = insert (x + 24, MEMITEM_SIZE x s') (row_blocks (P @ x # y # z # Q) s - {(x + 24, MEMITEM_SIZE x s)})"
proof -
  let ?bs = "P @ x # y # z # Q" and ?bs' = "P @ x # z # Q"
  have w: "row_ok h ?bs s" "ring_ok h (f1 @ y # f2) s" "set (f1 @ y # f2) = free_items ?bs s" "no_free_pair ?bs s"
    "available_size (mheaps s h) = (\<Sum>x \<in> free_items ?bs s. MEMITEM_SIZE x s)" using wf by (simp_all only: heap_wf_def)
  have d: "distinct ?bs" by (rule row_neighbours(4) [OF w(1)])
  have n: "nx s x = y" "nx s y = z" using row_neighbours(1) [OF w(1)] row_neighbours(1) [of h "P @ [x]" y z Q s] w(1) by simp_all
  have u: "RT_MEMHEAP_IS_USED a s' = RT_MEMHEAP_IS_USED a s" for a by (simp add: used_eq e)
  have sz: "a \<noteq> x \<Longrightarrow> MEMITEM_SIZE a s' = MEMITEM_SIZE a s" for a by (simp add: size_eq e)
  show "MEMITEM_SIZE x s' = MEMITEM_SIZE x s + 24 + MEMITEM_SIZE y s" by (simp add: size_eq e n)
  show "RT_MEMHEAP_IS_USED x s'" using xy by (simp add: u)
  show zu: "RT_MEMHEAP_IS_USED z s'" using w(4) xy by (simp add: u no_free_pair_def successively_append_iff)
  have f: "free_items ?bs' s' = free_items ?bs s - {y}" using d by (auto simp: free_items_def u)
  have yf: "y \<in> free_items ?bs s" "x \<notin> free_items ?bs s" using xy by (simp_all add: free_items_def)
  have "row_ok h ?bs' s'" by (rule row_remove [OF w(1) e(1-5)])
  moreover have "ring_ok h (f1 @ f2) s'" by (rule ring_remove [OF w(2) e(1)]) (simp_all add: e)
  moreover have "set (f1 @ f2) = free_items ?bs' s'" using w(2) unfolding f w(3) [symmetric] by (auto simp: ring_ok_def Let_def)
  moreover have "no_free_pair ?bs' s'" using w(4) xy by (auto simp: no_free_pair_def u successively_append_iff successively_Cons)
  moreover have "available_size (mheaps s' h) = (\<Sum>x \<in> free_items ?bs' s'. MEMITEM_SIZE x s')"
  proof -
    have "(\<Sum>a \<in> free_items ?bs s - {y}. MEMITEM_SIZE a s') = (\<Sum>a \<in> free_items ?bs s - {y}. MEMITEM_SIZE a s)"
      using yf(2) by (intro sum.cong refl sz) auto
    then show ?thesis using yf(1) by (simp add: e(8) f w(5) sum_diff1)
  qed
  ultimately show "heap_wf h ?bs' (f1 @ f2) s'" by (simp add: heap_wf_def)
  show "row_blocks ?bs' s' = insert (x + 24, MEMITEM_SIZE x s') (row_blocks ?bs s - {(x + 24, MEMITEM_SIZE x s)})"
    using xy d by (intro row_blocks_resize sz) (auto simp: u)
qed

lemma split_used_step:
  assumes wf: "heap_wf h (P @ x # y # Q) fs s" and x: "RT_MEMHEAP_IS_USED x s" and sz: "12 \<le> sz" "unat sz + 36 \<le> unat (MEMITEM_SIZE x s)"
  defines "n \<equiv> x + sz + 24"
  defines "s1 \<equiv> upd_heap h (\<lambda>m. m\<lparr>available_size := available_size m + (MEMITEM_SIZE x s - sz - 24)\<rparr>) (insert_item h x n s)"
  shows "\<exists>bs' fs'. heap_wf h bs' fs' (insert_free h n (merge_right h n s1)) \<and>
    row_blocks bs' (insert_free h n (merge_right h n s1)) = insert (x + 24, sz) (row_blocks (P @ x # y # Q) s - {(x + 24, MEMITEM_SIZE x s)}) \<and>
    mh_bytes (insert_free h n (merge_right h n s1)) = mh_bytes s"
proof -
  let ?bs = "P @ x # y # Q" and ?bs' = "P @ x # n # y # Q"
  have w: "row_ok h ?bs s" "ring_ok h fs s" "set fs = free_items ?bs s" "no_free_pair ?bs s"
    "available_size (mheaps s h) = (\<Sum>x \<in> free_items ?bs s. MEMITEM_SIZE x s)" using wf by (simp_all only: heap_wf_def)
  note nb = row_neighbours [OF w(1)] and g = split_fits [OF w(1) sz, folded n_def]
  note b = between_row [OF w(1) g(2,3)]
  have ne: "n \<noteq> x" "n \<noteq> y" "nx s x \<noteq> n" "x \<noteq> y" using b(1) nb by auto
  note e1 = insert_item_eff [OF ne(1,3), of h, unfolded nb]
  have e: "nx s1 = (nx s)(n := y, x := n)" "pv s1 = (pv s)(n := x, y := n)" "nf s1 = nf s" "pf s1 = pf s" "mg s1 = (mg s)(n := RT_MEMHEAP_MAGIC)"
    "po s1 = (po s)(n := h)" "same_heap h s s1" "mh_bytes s1 = mh_bytes s" "available_size (mheaps s1 h) = available_size (mheaps s h) + (MEMITEM_SIZE x s - sz - 24)"
    by (simp_all add: s1_def mh_eff e1 same_heap_def)
  have u: "RT_MEMHEAP_IS_USED a s1 \<longleftrightarrow> a \<noteq> n \<and> RT_MEMHEAP_IS_USED a s" for a by (simp add: used_eq e)
  have f: "free_items ?bs' s1 = insert n (free_items ?bs s)" "n \<notin> free_items ?bs s" "x \<notin> free_items ?bs s" using ne x b(1) by (auto simp: free_items_def u)
  have szs: "MEMITEM_SIZE x s1 = sz" "MEMITEM_SIZE n s1 = MEMITEM_SIZE x s - sz - 24" "a \<noteq> x \<Longrightarrow> a \<noteq> n \<Longrightarrow> MEMITEM_SIZE a s1 = MEMITEM_SIZE a s" for a
    using ne nb by (simp_all add: size_eq e n_def)
  have "row_ok h ?bs' s1" by (rule row_insert [OF w(1) g(2,3) e(7,1,2,5,6)])
  moreover have "ring_ok h fs s1" by (rule ring_same [OF w(2) e(7,3,4)])
  moreover have "successively (\<lambda>a b. RT_MEMHEAP_IS_USED a s1 \<or> RT_MEMHEAP_IS_USED b s1 \<or> a \<in> {n}) ?bs'"
    using w(4) x b(1) by (auto simp: no_free_pair_def u successively_append_iff successively_Cons elim!: successively_mono)
  moreover have "available_size (mheaps s1 h) = (\<Sum>x \<in> free_items ?bs' s1. MEMITEM_SIZE x s1)"
  proof -
    have "(\<Sum>a \<in> free_items ?bs s. MEMITEM_SIZE a s1) = (\<Sum>a \<in> free_items ?bs s. MEMITEM_SIZE a s)"
      using f(2,3) by (intro sum.cong refl szs(3)) auto
    then show ?thesis using f(2) by (simp add: e(9) f(1) w(5) szs(2))
  qed
  ultimately have wx: "wf_except h ?bs' fs {n} {n} s1" using f(1,2) w(3) by (simp add: wf_except_def)
  have rb: "row_blocks ?bs' s1 = insert (x + 24, sz) (row_blocks ?bs s - {(x + 24, MEMITEM_SIZE x s)})"
  proof (subst szs(1) [symmetric], rule row_blocks_resize)
    show "x \<noteq> last ?bs" using nb(4) by (cases Q rule: rev_cases) auto
    show "{a \<in> set ?bs'. a \<noteq> last ?bs' \<and> RT_MEMHEAP_IS_USED a s1} = {a \<in> set ?bs. a \<noteq> last ?bs \<and> RT_MEMHEAP_IS_USED a s}" using b(1) by (auto simp: u)
    show "MEMITEM_SIZE a s1 = MEMITEM_SIZE a s" if "a \<in> set ?bs" "a \<noteq> x" for a using that b(1) by (intro szs(3)) auto
  qed (simp_all add: x)
  have "n \<in> free_items ?bs' s1" by (simp add: f(1))
  from merge_right_step [OF wx this subset_refl] obtain bs2 fs2 where
    m: "wf_except h bs2 fs2 {n} {} (merge_right h n s1)" "row_blocks bs2 (merge_right h n s1) = row_blocks ?bs' s1" "mh_bytes (merge_right h n s1) = mh_bytes s1" by blast
  show ?thesis using insert_free_step [OF m(1)] m(2,3) rb e(8) by auto
qed

lemma shrink_step:
  assumes wf: "heap_wf h (P @ x # y # Q) fs s" and x: "RT_MEMHEAP_IS_USED x s" and sz: "12 \<le> sz" "unat sz + 36 \<le> unat (MEMITEM_SIZE x s)"
  defines "s' \<equiv> memheap_shrink h x sz s"
  shows "\<exists>bs' fs'. heap_wf h bs' fs' s' \<and> row_blocks bs' s' = insert (x + 24, sz) (row_blocks (P @ x # y # Q) s - {(x + 24, MEMITEM_SIZE x s)}) \<and> mh_bytes s' = mh_bytes s"
proof -
  let ?bs = "P @ x # y # Q"
  define n where "n = x + sz + 24"
  define s0 where "s0 = insert_item h x n s"
  define s1 where "s1 = upd_heap h (\<lambda>m. m\<lparr>available_size := available_size m + (MEMITEM_SIZE x s - sz - 24)\<rparr>) s0"
  have w: "row_ok h ?bs s" "ring_ok h fs s" "set fs = free_items ?bs s" using wf by (simp_all only: heap_wf_def)
  note nb = row_neighbours [OF w(1)] and g = split_fits [OF w(1) sz, folded n_def]
  note b = between_row [OF w(1) g(2,3)]
  have ne: "n \<noteq> x" "n \<noteq> y" "nx s x \<noteq> n" "x \<noteq> y" "free_list (mheaps s h) \<noteq> n" using b(1,2) nb by auto
  note e0 = insert_item_eff [OF ne(1,3), of h, folded s0_def, unfolded nb]
  have nn: "24 - n = - sz - x" "- n = - 24 - x - sz" by (simp_all add: n_def)
  have u: "RT_MEMHEAP_IS_USED y s0 = RT_MEMHEAP_IS_USED y s" "RT_MEMHEAP_IS_USED y s1 = RT_MEMHEAP_IS_USED y s" using ne by (simp_all add: used_eq s1_def mh_eff e0)
  have "agree h (insert_free h n (merge_right h n s1)) s'"
  proof (cases "RT_MEMHEAP_IS_USED y s")
    case True
    then show ?thesis using ne nb u nn
      by (simp add: agree_def s'_def memheap_shrink_def merge_right_def Let_def n_def [symmetric] s0_def [symmetric] fold_fields s1_def same_heap_def mh_eff e0 size_eq)
  next
    case False
    then have yf: "y \<in> free_items ?bs s" by (simp add: free_items_def)
    then obtain z Q' where Q: "Q = z # Q'" using free_not_last [OF w(1) yf] by (cases Q) auto
    have r: "nf s y \<noteq> y" "pf s y \<noteq> y" using ring_self [OF w(2), of y] yf by (simp_all add: w(3))
    have yz: "nx s y = z" "y \<noteq> z" "x \<noteq> z" "n \<noteq> z" using row_neighbours [of h "P @ [x]" y z Q' s] w(1) nb(4) b(1) by (auto simp: Q)
    show ?thesis using False ne nb u nn r yz
      by (simp add: agree_def s'_def memheap_shrink_def merge_right_def Let_def n_def [symmetric] s0_def [symmetric] fold_fields s1_def same_heap_def mh_eff e0 size_eq)
  qed
  then show ?thesis
    using split_used_step [OF wf x sz, folded n_def, folded s0_def, folded s1_def] heap_wf_agree by (metis agree_def)
qed

lemma grow_step:
  assumes wf: "heap_wf h (P @ x # y # Q) fs s" and xy: "RT_MEMHEAP_IS_USED x s" "\<not> RT_MEMHEAP_IS_USED y s"
    and sz: "12 \<le> sz" "unat (MEMITEM_SIZE x s) < unat sz" "unat sz + 12 < unat (MEMITEM_SIZE y s) + unat (MEMITEM_SIZE x s)"
  defines "s' \<equiv> memheap_grow h x sz (MEMITEM_SIZE x s) s"
  shows "\<exists>bs' fs'. heap_wf h bs' fs' s' \<and> row_blocks bs' s' = insert (x + 24, sz) (row_blocks (P @ x # y # Q) s - {(x + 24, MEMITEM_SIZE x s)}) \<and> mh_bytes s' = mh_bytes s"
proof -
  have w: "row_ok h (P @ x # y # Q) s" "ring_ok h fs s" "set fs = free_items (P @ x # y # Q) s" using wf by (simp_all only: heap_wf_def)
  note nb = row_neighbours [OF w(1)]
  have yf: "y \<in> free_items (P @ x # y # Q) s" using xy by (simp add: free_items_def)
  then obtain z Q' where Q: "Q = z # Q'" using free_not_last [OF w(1) yf] by (cases Q) auto
  obtain f1 f2 where f: "fs = f1 @ y # f2" using split_list [of y fs] yf by (auto simp: w(3))
  have r: "nf s y \<noteq> y" "pf s y \<noteq> y" using ring_self [OF w(2), of y] by (simp_all add: f)
  have yz: "nx s y = z" "y \<noteq> z" "x \<noteq> z" "x \<noteq> y" using row_neighbours [of h "P @ [x]" y z Q' s] w(1) nb(4) by (auto simp: Q)
  define t where "t = upd_heap h (\<lambda>m. m\<lparr>available_size := available_size m - MEMITEM_SIZE y s\<rparr>) (unlink_item y (unlink_free y s))"
  have e: "same_heap h s t" "nx t = (nx s)(x := z)" "pv t = (pv s)(z := x)" "mg t = mg s" "po t = po s"
    "nf t = (nf s)(pf s y := nf s y)" "pf t = (pf s)(nf s y := pf s y)" "available_size (mheaps t h) = available_size (mheaps s h) - MEMITEM_SIZE y s"
    "mh_bytes t = mh_bytes s"
    using r yz nb by (simp_all add: t_def mh_eff same_heap_def)
  note k = takeover_step [OF wf [unfolded Q f] xy e(1-8)]
  have tw: "row_ok h (P @ x # z # Q') t" using k(1) by (simp add: heap_wf_def)
  have "unat x + 24 + unat (MEMITEM_SIZE x s) = unat y" "unat y + 24 + unat (MEMITEM_SIZE y s) = unat z" "unat x + 24 + unat (MEMITEM_SIZE x t) = unat z"
    using row_size(2) [OF w(1)] row_size(2) [of h "P @ [x]" y z Q' s] w(1) row_size(2) [OF tw] by (simp_all add: Q)
  then have sz': "unat sz + 36 \<le> unat (MEMITEM_SIZE x t)" using sz(3) by simp
  define n where "n = x + sz + 24"
  note g = split_fits [OF tw sz(1) sz', folded n_def] and b = between_row [OF tw]
  have ne: "n \<noteq> x" "n \<noteq> z" "nx t x \<noteq> n" "free_list (mheaps s h) \<noteq> n" using b(1,2) [OF g(2,3)] e(1,2) by (auto simp: same_heap_def)
  define t1 where "t1 = upd_heap h (\<lambda>m. m\<lparr>available_size := available_size m + (MEMITEM_SIZE x t - sz - 24)\<rparr>) (insert_item h x n t)"
  note e1 = insert_item_eff [OF ne(1,3)]
  have "RT_MEMHEAP_IS_USED z t1" using k(3) ne by (simp add: used_eq t1_def mh_eff e1)
  then have m: "merge_right h n t1 = t1" using ne by (simp add: merge_right_def Let_def fold_fields t1_def mh_eff e1 e)
  have nn: "x + 24 + sz = n" "- n = - 24 - x - sz" by (simp_all add: n_def)
  define s2 where "s2 = unlink_item y (unlink_free y (use_size h (sz - MEMITEM_SIZE x s) s))"
  have s': "s' = insert_free h n (insert_item h x n s2)" by (simp add: s'_def memheap_grow_def Let_def fold_fields nb s2_def nn(1))
  have e2: "nx s2 = nx t" "pv s2 = pv t" "nf s2 = nf t" "pf s2 = pf t" "mg s2 = mg t" "po s2 = po t" "same_heap h s s2" "mh_bytes s2 = mh_bytes s"
    "available_size (mheaps s2 h) = available_size (mheaps s h) - (sz - MEMITEM_SIZE x s)"
    using r yz nb by (simp_all add: s2_def e mh_eff same_heap_def)
  have ag: "agree h (insert_free h n t1) s'" using ne e e2 by (simp add: agree_def s' t1_def mh_eff e1 same_heap_def k(2))
  have rb: "row_blocks (P @ x # z # Q') t - {(x + 24, MEMITEM_SIZE x t)} = row_blocks (P @ x # y # Q) s - {(x + 24, MEMITEM_SIZE x s)}"
  proof -
    have "(x + 24, MEMITEM_SIZE x t) \<notin> row_blocks (P @ x # y # z # Q') s - {(x + 24, MEMITEM_SIZE x s)}" by (auto simp: row_blocks_def)
    then show ?thesis unfolding k(5) Q by (rule Diff_insert_absorb)
  qed
  from split_used_step [OF k(1,4) sz(1) sz', folded n_def, folded t1_def, unfolded m rb e(9)] obtain bs' fs' where
    b': "heap_wf h bs' fs' (insert_free h n t1)" "row_blocks bs' (insert_free h n t1) = insert (x + 24, sz) (row_blocks (P @ x # y # Q) s - {(x + 24, MEMITEM_SIZE x s)})"
    "mh_bytes (insert_free h n t1) = mh_bytes s" by blast
  show ?thesis using heap_wf_agree [OF ag, of bs'] b' ag by (auto simp: agree_def)
qed

end
