(* ===== verification/MemHeapRun.thy ===== *)
theory MemHeapRun
  imports MemHeapProps
begin

text \<open>
  What the users of a memory heap see: reallocation keeps contents, clients get disjoint blocks inside the area, and a heap whose blocks are all released is as it was at the start.
\<close>

section \<open>Reallocation\<close>

lemma heap_wf_bytes [simp]: "heap_wf h bs fs (s\<lparr>mh_bytes := b\<rparr>) = heap_wf h bs fs s" "row_blocks bs (s\<lparr>mh_bytes := b\<rparr>) = row_blocks bs s"
proof -
  have u: "RT_MEMHEAP_IS_USED x (s\<lparr>mh_bytes := b\<rparr>) = RT_MEMHEAP_IS_USED x s" "MEMITEM_SIZE x (s\<lparr>mh_bytes := b\<rparr>) = MEMITEM_SIZE x s" for x
    by (simp_all add: used_eq size_eq mh_eff)
  show "row_blocks bs (s\<lparr>mh_bytes := b\<rparr>) = row_blocks bs s" by (simp add: row_blocks_def u)
  show "heap_wf h bs fs (s\<lparr>mh_bytes := b\<rparr>) = heap_wf h bs fs s"
    by (simp add: heap_wf_def row_ok_def ring_ok_def free_items_def no_free_pair_def u mh_eff is_memheap_def)
qed

lemma block_item:
  assumes "row_ok h bs s" "(p, n) \<in> row_blocks bs s"
  obtains x where "x \<in> set bs" "x \<noteq> last bs" "RT_MEMHEAP_IS_USED x s" "p = x + 24" "n = MEMITEM_SIZE x s" "unat p = unat x + 24"
    "unat p + unat n \<le> unat (last bs)" "unat (hd bs) \<le> unat x"
proof -
  obtain x where x: "x \<in> set bs" "x \<noteq> last bs" "RT_MEMHEAP_IS_USED x s" "p = x + 24" "n = MEMITEM_SIZE x s" using assms(2) by (auto simp: row_blocks_def)
  note e = item_extent [OF assms(1) x(1,2)]
  have s: "sorted_wrt gap bs" "bs \<noteq> []" using assms(1) by (auto simp: row_ok_def)
  have "unat (hd bs) \<le> unat x" using s x(1) by (cases bs) (auto simp: gap_def)
  moreover have "unat x < unat (last bs)" using s x(1,2) by (cases bs rule: rev_cases) (auto simp: gap_def sorted_wrt_append)
  then have "unat p + unat n \<le> unat (last bs)" using e(2) [of "last bs"] s(2) x by auto
  ultimately show thesis using that x e(1) by auto
qed

lemma outside_block:
  fixes a l q k i c :: u32
  assumes "unat a + unat l < 2 ^ 32" "unat q + unat k < 2 ^ 32" "unat a + unat l \<le> unat q \<or> unat q + unat k \<le> unat a" "i < l" "c \<le> k"
  shows "\<not> a + i - q < c"
proof -
  have "unat (a + i) = unat a + unat i" using assms(1,4) by (intro unat_add_no_wrap) (simp add: word_less_nat_alt)
  then show ?thesis using assms by (auto simp: word_less_nat_alt word_le_nat_alt unat_sub_u32 not_less)
qed

lemma move_step:
  assumes wf: "heap_wf h bs1 fs1 s1" and p: "(p, old) \<in> B" and B: "row_blocks bs1 s1 = insert (q, m) B" "q \<notin> fst ` B" and m: "old \<le> m"
  shows "\<exists>bs' fs' s'. rt_memheap_free (Some p) (s1\<lparr>mh_bytes := rt_memcpy q p old (mh_bytes s1)\<rparr>) = Some s' \<and> heap_wf h bs' fs' s' \<and>
    row_blocks bs' s' = insert (q, m) (B - {(p, old)}) \<and> (\<forall>i < old. mh_bytes s' (q + i) = mh_bytes s1 (p + i)) \<and>
    (\<forall>(b, l) \<in> B. \<forall>i < l. mh_bytes s' (b + i) = mh_bytes s1 (b + i))"
proof -
  have r: "row_ok h bs1 s1" using wf by (simp add: heap_wf_def)
  have out: "\<not> b + i - q < old" if "(b, l) \<in> B" "i < l" for b l i
  proof -
    have bl: "(b, l) \<in> row_blocks bs1 s1" "(q, m) \<in> row_blocks bs1 s1" "(b, l) \<noteq> (q, m)" using that(1) B by force+
    have a: "unat b + unat l \<le> unat q \<or> unat q + unat m \<le> unat b" using row_blocks_apart [OF r bl] by simp
    have "unat b + unat l < 2 ^ 32" "unat q + unat m < 2 ^ 32"
      by (rule block_item [OF r bl(1)], use unat_less_2_32 [of "last bs1"] in simp) (rule block_item [OF r bl(2)], use unat_less_2_32 [of "last bs1"] in simp)
    then show ?thesis by (rule outside_block [OF _ _ a that(2) m])
  qed
  obtain x where x: "x \<in> set bs1" "x \<noteq> last bs1" "RT_MEMHEAP_IS_USED x s1" "p = x + 24" "old = MEMITEM_SIZE x s1"
    by (rule block_item [OF r, of p old]) (use p B in auto)
  define t where "t = s1\<lparr>mh_bytes := rt_memcpy q p old (mh_bytes s1)\<rparr>"
  have xt: "RT_MEMHEAP_IS_USED x t" "MEMITEM_SIZE x t = old" "row_blocks bs1 t = insert (q, m) B" "heap_wf h bs1 fs1 t" using x wf B by (simp_all add: t_def used_eq size_eq mh_eff)
  obtain bs' fs' s' where s': "rt_memheap_free (Some p) t = Some s'" "heap_wf h bs' fs' s'" "row_blocks bs' s' = insert (q, m) B - {(p, old)}" "mh_bytes s' = mh_bytes t"
    using free_step [OF xt(4) x(1,2) xt(1)] by (auto simp: x(4) xt(2,3))
  have "0 < old" using row_size(3) [of h _ x] r row_item_split [OF x(1,2)] by (metis x(5) unat_0 word_gt_0 not_numeral_le_zero)
  then have "\<not> q - p < old" using out [OF p, of "q - p"] by auto
  then have cp: "mh_bytes s' = copied q p old (mh_bytes s1)" by (simp add: s'(4) t_def memcpy_copies not_less)
  have "insert (q, m) B - {(p, old)} = insert (q, m) (B - {(p, old)})" using p B(2) by force
  moreover have "\<forall>i < old. mh_bytes s' (q + i) = mh_bytes s1 (p + i)" by (simp add: cp copied_def)
  moreover have "\<forall>(b, l) \<in> B. \<forall>i < l. mh_bytes s' (b + i) = mh_bytes s1 (b + i)" using out by (auto simp: cp copied_def)
  ultimately show ?thesis using s'(1-3) by (auto simp: t_def)
qed

text \<open>The size that is asked for, when it does not wrap around.\<close>

lemma mh_round_size:
  assumes "unat sz + 20 \<le> 2 ^ 32"
  shows "unat sz \<le> unat (mh_round sz)" "unat (mh_round sz + 12) = unat (mh_round sz) + 12"
proof -
  have a: "unat (RT_ALIGN sz 4) = (unat sz + 3) div 4 * 4" using unat_align(3) [of sz] assms by simp
  show "unat sz \<le> unat (mh_round sz)" using a by (auto simp: mh_round_def word_less_nat_alt)
  have "(unat sz + 3) div 4 \<le> 1073741819" using assms by simp
  then have "unat (mh_round sz) + 12 < 2 ^ 32" using a by (auto simp: mh_round_def)
  then show "unat (mh_round sz + 12) = unat (mh_round sz) + 12" using unat_add_no_wrap [of "mh_round sz" 12] by simp
qed

lemma mh_round_twice:
  assumes "unat sz + 20 \<le> 2 ^ 32"
  shows "mh_round (mh_round sz) = mh_round sz"
proof -
  have "unat (RT_ALIGN sz 4) = (unat sz + 3) div 4 * 4" using unat_align(3) [of sz] assms by simp
  then have "unat (mh_round sz) mod 4 = 0" "unat (mh_round sz) + 3 < 2 ^ 32" using mh_round_size(2) [OF assms] unat_less_2_32 [of "mh_round sz + 12"] by (auto simp: mh_round_def)
  then have "unat (RT_ALIGN (mh_round sz) 4) = unat (mh_round sz)" using unat_align(3) [of "mh_round sz"] by presburger
  then have "RT_ALIGN (mh_round sz) 4 = mh_round sz" by (simp add: word_unat_eq_iff)
  then show ?thesis using mh_round_ge(1) [of sz] by (simp add: mh_round_def [of "mh_round sz"] leD)
qed

text \<open>What a call of \<^verbatim>\<open>rt_memheap_realloc\<close> on the block at \<open>p\<close> with \<open>old\<close> bytes does: it fails and changes nothing, or leaves a block of at least \<open>sz\<close> bytes with the same
  contents up to the smaller of the sizes in place of the old one. The other blocks keep their contents.\<close>

definition mh_resized :: "u32 \<Rightarrow> u32 \<Rightarrow> u32 \<Rightarrow> u32 option \<Rightarrow> (u32 \<times> u32) set \<Rightarrow> mh_state \<Rightarrow> (u32 \<times> u32) set \<Rightarrow> mh_state \<Rightarrow> bool" where
  "mh_resized p old sz r B s B' s' \<longleftrightarrow>
     (case r of None \<Rightarrow> s' = s
      | Some q \<Rightarrow> \<exists>n. unat sz \<le> unat n \<and> B' = insert (q, n) (B - {(p, old)}) \<and> (\<forall>i. i < old \<longrightarrow> i < n \<longrightarrow> mh_bytes s' (q + i) = mh_bytes s (p + i))) \<and>
     (\<forall>(b, l) \<in> B - {(p, old)}. \<forall>i < l. mh_bytes s' (b + i) = mh_bytes s (b + i))"

lemma resized_in_place:
  assumes "B' = insert (p, n) (B - {(p, old)})" "unat sz \<le> unat n" "mh_bytes s' = mh_bytes s"
  shows "mh_resized p old sz (Some p) B s B' s'"
  using assms by (auto simp: mh_resized_def)

text \<open>The part that allocates, copies and frees.\<close>

lemma realloc_move:
  assumes wf: "heap_wf h bs fs s" and p: "(p, old) \<in> row_blocks bs s" and sz: "unat sz + 20 \<le> 2 ^ 32" "old < mh_round sz"
  defines "R \<equiv> do {
    (q, s1) \<leftarrow> rt_memheap_alloc h (mh_round sz) s;
    (case q of
       None \<Rightarrow> Some (None, s1)
     | Some r \<Rightarrow> do {
         s2 \<leftarrow> rt_memheap_free (Some p) (s1\<lparr>mh_bytes := rt_memcpy r p (if old < mh_round sz then old else mh_round sz) (mh_bytes s1)\<rparr>);
         Some (q, s2) }) }"
  shows "\<exists>r s' bs' fs'. R = Some (r, s') \<and> heap_wf h bs' fs' s' \<and> mh_resized p old sz r (row_blocks bs s) s (row_blocks bs' s') s'"
proof -
  note a = alloc_step [OF wf, of "mh_round sz", unfolded mh_round_twice [OF sz(1)]]
  show ?thesis
  proof (cases "if mh_round sz < available_size (mheaps s h) then List.find (\<lambda>x. mh_round sz \<le> MEMITEM_SIZE x s) fs else None")
    case None
    with a wf have "R = Some (None, s)" by (simp add: R_def)
    then show ?thesis using wf by (auto simp: mh_resized_def)
  next
    case (Some x)
    then obtain bs1 fs1 s1 where s1: "rt_memheap_alloc h (mh_round sz) s = Some (Some (x + 24), s1)" "heap_wf h bs1 fs1 s1" "x \<in> free_items bs s"
      "row_blocks bs1 s1 = insert (x + 24, MEMITEM_SIZE x s1) (row_blocks bs s)" "mh_round sz \<le> MEMITEM_SIZE x s1" "mh_bytes s1 = mh_bytes s" using a by auto
    have n: "x + 24 \<notin> fst ` row_blocks bs s" using s1(3) by (auto simp: row_blocks_def free_items_def)
    have o: "old \<le> MEMITEM_SIZE x s1" using s1(5) sz(2) by simp
    obtain bs' fs' s' where s': "rt_memheap_free (Some p) (s1\<lparr>mh_bytes := rt_memcpy (x + 24) p old (mh_bytes s1)\<rparr>) = Some s'" "heap_wf h bs' fs' s'"
      "row_blocks bs' s' = insert (x + 24, MEMITEM_SIZE x s1) (row_blocks bs s - {(p, old)})" "\<forall>i < old. mh_bytes s' (x + 24 + i) = mh_bytes s1 (p + i)"
      "\<forall>(b, l) \<in> row_blocks bs s. \<forall>i < l. mh_bytes s' (b + i) = mh_bytes s1 (b + i)"
      using move_step [OF s1(2) p s1(4) n o] by blast
    have "R = Some (Some (x + 24), s')" using s1(1) s'(1) sz(2) by (simp add: R_def)
    moreover have "unat sz \<le> unat (MEMITEM_SIZE x s1)" using mh_round_size(1) [OF sz(1)] s1(5) by (simp add: word_le_nat_alt)
    then have "mh_resized p old sz (Some (x + 24)) (row_blocks bs s) s (row_blocks bs' s') s'"
      using s'(3-5) s1(6) by (auto simp: mh_resized_def)
    ultimately show ?thesis using s'(2) by blast
  qed
qed

lemma realloc_cases:
  assumes "row_ok h (P @ x # y # Q) s" "0 < sz"
  defines "p \<equiv> x + 24" and "old \<equiv> MEMITEM_SIZE x s"
  shows "rt_memheap_realloc h (Some p) sz s = (if mh_round sz > old then
      (if \<not> RT_MEMHEAP_IS_USED y s \<and> MEMITEM_SIZE y s + old > mh_round sz + 12 then Some (Some p, memheap_grow h x (mh_round sz) old s)
       else do {
         (q, s1) \<leftarrow> rt_memheap_alloc h (mh_round sz) s;
         (case q of
            None \<Rightarrow> Some (None, s1)
          | Some r \<Rightarrow> do {
              s2 \<leftarrow> rt_memheap_free (Some p) (s1\<lparr>mh_bytes := rt_memcpy r p (if old < mh_round sz then old else mh_round sz) (mh_bytes s1)\<rparr>);
              Some (q, s2) }) })
     else if mh_round sz + 24 + 12 \<ge> old then Some (Some p, s) else Some (Some p, memheap_shrink h x (mh_round sz) s))"
proof -
  have "nx s x = y" "x < y" using row_neighbours [OF assms(1)] by (simp_all add: gap_def word_less_nat_alt)
  moreover have px: "p - 24 = x" and "is_memheap h s" using assms(1) by (simp_all add: p_def row_ok_def)
  ultimately show ?thesis using assms(2) unfolding rt_memheap_realloc_def Let_def option.case px old_def [symmetric]
    by (simp add: fold_fields word_gt_0)
qed

lemma grow_fits:
  assumes "row_ok h (P @ x # y # Q) s" "\<not> RT_MEMHEAP_IS_USED y s"
  shows "unat (MEMITEM_SIZE y s + MEMITEM_SIZE x s) = unat (MEMITEM_SIZE y s) + unat (MEMITEM_SIZE x s)"
proof -
  obtain z Q' where Q: "Q = z # Q'" using free_not_last [OF assms(1), of y] assms(2) by (cases Q) (auto simp: free_items_def)
  have "unat x + 24 + unat (MEMITEM_SIZE x s) = unat y" "unat y + 24 + unat (MEMITEM_SIZE y s) = unat z"
    using row_size(2) [OF assms(1)] row_size(2) [of h "P @ [x]" y z Q' s] assms(1) by (simp_all add: Q)
  then show ?thesis using unat_less_2_32 [of z] by (intro unat_add_no_wrap) simp
qed

lemma realloc_step:
  assumes wf: "heap_wf h bs fs s" and p: "(p, old) \<in> row_blocks bs s" and sz: "0 < sz" "unat sz + 20 \<le> 2 ^ 32"
  shows "\<exists>r s' bs' fs'. rt_memheap_realloc h (Some p) sz s = Some (r, s') \<and> heap_wf h bs' fs' s' \<and> mh_resized p old sz r (row_blocks bs s) s (row_blocks bs' s') s'"
proof -
  have r: "row_ok h bs s" "is_memheap h s" using wf by (auto simp: heap_wf_def row_ok_def)
  obtain x where x: "x \<in> set bs" "x \<noteq> last bs" "RT_MEMHEAP_IS_USED x s" "p = x + 24" "old = MEMITEM_SIZE x s" by (rule block_item [OF r(1) p])
  obtain P y Q where bs: "bs = P @ x # y # Q" using row_item_split [OF x(1,2)] by blast
  note w = wf [unfolded bs] and n = mh_round_size [OF sz(2)] mh_round_ge(1) [of sz]
  note e = realloc_cases [OF r(1) [unfolded bs] sz(1), folded x(4,5)]
  consider "mh_round sz > old" "\<not> RT_MEMHEAP_IS_USED y s \<and> MEMITEM_SIZE y s + old > mh_round sz + 12"
    | "mh_round sz > old" "\<not> (\<not> RT_MEMHEAP_IS_USED y s \<and> MEMITEM_SIZE y s + old > mh_round sz + 12)"
    | "mh_round sz \<le> old" "mh_round sz + 24 + 12 \<ge> old" | "mh_round sz \<le> old" "\<not> mh_round sz + 24 + 12 \<ge> old" by (meson not_less)
  then show ?thesis
  proof cases
    case 1
    then have l: "unat (mh_round sz) + 12 < unat (MEMITEM_SIZE y s) + unat (MEMITEM_SIZE x s)" "unat (MEMITEM_SIZE x s) < unat (mh_round sz)"
      using n(2) grow_fits [OF r(1) [unfolded bs]] by (simp_all add: word_less_nat_alt x(5))
    from grow_step [OF w x(3) _ n(3) l(2,1)] 1 obtain bs' fs' where b: "heap_wf h bs' fs' (memheap_grow h x (mh_round sz) old s)"
      "row_blocks bs' (memheap_grow h x (mh_round sz) old s) = insert (p, mh_round sz) (row_blocks bs s - {(p, old)})"
      "mh_bytes (memheap_grow h x (mh_round sz) old s) = mh_bytes s" by (auto simp: bs x(4,5))
    have "rt_memheap_realloc h (Some p) sz s = Some (Some p, memheap_grow h x (mh_round sz) old s)" using 1 e by simp
    then show ?thesis using b(1) resized_in_place [OF b(2) n(1) b(3)] by blast
  next
    case 2
    then show ?thesis using realloc_move [OF wf p sz(2) 2(1)] by (simp only: e if_True if_False)
  next
    case 3
    have "insert (p, old) (row_blocks bs s - {(p, old)}) = row_blocks bs s" using p by auto
    moreover have "unat sz \<le> unat old" using n(1) 3(1) by (simp add: word_le_nat_alt)
    ultimately have "mh_resized p old sz (Some p) (row_blocks bs s) s (row_blocks bs s) s" by (intro resized_in_place [where n = old]) auto
    then show ?thesis using 3 wf e by (auto simp: not_less)
  next
    case 4
    have "unat (mh_round sz) + 36 \<le> unat (MEMITEM_SIZE x s)"
      using size_plus_36 [OF r(1) [unfolded bs] 4(1) [unfolded x(5)]] 4(2) by (simp add: word_le_nat_alt x(5))
    from shrink_step [OF w x(3) n(3) this] obtain bs' fs' where b: "heap_wf h bs' fs' (memheap_shrink h x (mh_round sz) s)"
      "row_blocks bs' (memheap_shrink h x (mh_round sz) s) = insert (p, mh_round sz) (row_blocks bs s - {(p, old)})"
      "mh_bytes (memheap_shrink h x (mh_round sz) s) = mh_bytes s" by (auto simp: bs x(4,5))
    have "\<not> old < mh_round sz" using 4(1) by simp
    then have "rt_memheap_realloc h (Some p) sz s = Some (Some p, memheap_shrink h x (mh_round sz) s)" using 4(2) by (simp only: e if_False)
    then show ?thesis using b(1) resized_in_place [OF b(2) n(1) b(3)] by blast
  qed
qed

section \<open>Properties\<close>

definition no_heaps :: mh_state where
  "no_heaps = \<lparr>mh_kern = kern no_pools,
     mheaps = (\<lambda>_. \<lparr>start_addr = 0, mh_pool_size = 0, available_size = 0, max_used_size = 0, mh_block_list = 0, free_list = 0\<rparr>),
     items = (\<lambda>_. \<lparr>it_magic = 0, pool_ptr = 0, it_next = 0, it_prev = 0, next_free = 0, prev_free = 0\<rparr>), mh_bytes = (\<lambda>_. 0)\<rparr>"

lemma no_heaps_containers: "containers (mh_kern no_heaps) c = []"
  by (simp add: no_heaps_def no_pools_simps)

lemma init_at:
  assumes "heap_wf h [start, start + (RT_ALIGN_DOWN sz 4 - 24)] [start] s" "84 \<le> unat sz" "unat start + unat sz \<le> 2 ^ 32"
  shows "mh_at h (start, RT_ALIGN_DOWN sz 4) s" "mh_blocks h s = {}"
proof -
  let ?t = "start + (RT_ALIGN_DOWN sz 4 - 24)"
  have r: "row_ok h [start, ?t] s" "free_items [start, ?t] s = {start}" using assms(1) by (auto simp: heap_wf_def)
  have "mh_pool_size (mheaps s h) = RT_ALIGN_DOWN sz 4" using r(1) by (simp add: row_ok_def)
  then show "mh_at h (start, RT_ALIGN_DOWN sz 4) s" using r(1) heap_wf_inv(1) [OF assms(1)] by (simp add: mh_at_def area_def row_ok_def)
  have "start \<in> free_items [start, ?t] s" by (simp add: r(2))
  then have "\<not> RT_MEMHEAP_IS_USED start s" by (simp add: free_items_def)
  then show "mh_blocks h s = {}" by (auto simp: heap_wf_inv(2) [OF assms(1)] row_blocks_def)
qed

lemma tail_at: "84 \<le> unat sz \<Longrightarrow> unat start + unat sz \<le> 2 ^ 32 \<Longrightarrow> unat (start + (RT_ALIGN_DOWN sz 4 - 24)) = unat start + unat sz div 4 * 4 - 24"
  using unat_align_down [of sz] by (simp add: unat_add_no_wrap unat_sub word_le_nat_alt)

text \<open>C13. A heap made by \<^verbatim>\<open>rt_memheap_init\<close> on an area that does not hold the heap object itself serves any sequence of allocations of any sizes and releases of held blocks: no call
  trips an assertion or runs without end, what the client holds are exactly the blocks handed out, they lie inside the area with a header in front of each and behind the last, and no two
  of them overlap.\<close>

theorem memheap_client_safe:
  assumes "Obj h \<notin> set (containers (mh_kern s) RT_Object_Class_MemHeap)" "Obj (mh_lock h) \<notin> set (containers (mh_kern s) RT_Object_Class_Semaphore)"
    and "84 \<le> unat sz" "36 \<le> unat start" "unat start + unat sz \<le> 2 ^ 32" "h \<noteq> 0" "h + 100 \<le> unat start \<or> unat start + unat sz \<le> h \<and> h + 100 \<le> 2 ^ 32"
  shows "\<exists>s0 held s'. rt_memheap_init h name start sz s = Some (RT_EOK, s0) \<and>
    client_run (rt_memheap_alloc h) (\<lambda>p. rt_memheap_free (Some p)) ops [] s0 = Some (held, s') \<and> distinct held \<and> set held = fst ` mh_blocks h s' \<and>
    (\<forall>(p, n) \<in> mh_blocks h s'. unat start + 24 \<le> unat p \<and> unat p + unat n + 24 \<le> unat start + unat sz) \<and>
    (\<forall>(p, n) \<in> mh_blocks h s'. \<forall>(q, m) \<in> mh_blocks h s'. (p, n) \<noteq> (q, m) \<longrightarrow> unat p + unat n \<le> unat q \<or> unat q + unat m \<le> unat p)"
proof -
  obtain s0 where s0: "rt_memheap_init h name start sz s = Some (RT_EOK, s0)" "heap_wf h [start, start + (RT_ALIGN_DOWN sz 4 - 24)] [start] s0"
    using memheap_init_step [OF assms] by blast
  note i = init_at [OF s0(2) assms(3,5)]
  obtain held s' where r: "client_run (rt_memheap_alloc h) (\<lambda>p. rt_memheap_free (Some p)) ops [] s0 = Some (held, s')" "mh_at h (start, RT_ALIGN_DOWN sz 4) s'"
    "distinct held" "set held = fst ` mh_blocks h s'"
    "\<forall>(p, n) \<in> mh_blocks h s'. \<forall>(q, m) \<in> mh_blocks h s'. (p, n) \<noteq> (q, m) \<longrightarrow> unat p + unat n \<le> unat q \<or> unat q + unat m \<le> unat p"
    using memheap_store.held_apart [OF i, of ops] by (elim exE conjE) (rule that)
  have row: "row_ok h (mh_row h s') s'" using r(2) by (auto simp: mh_at_def mh_inv_def heap_wf_def)
  then have ends: "hd (mh_row h s') = start" "last (mh_row h s') = start + (RT_ALIGN_DOWN sz 4 - 24)"
    using r(2) by (auto simp: mh_at_def area_def row_ok_def)
  have "unat start + 24 \<le> unat p \<and> unat p + unat n + 24 \<le> unat start + unat sz" if "(p, n) \<in> mh_blocks h s'" for p n
  proof (rule block_item [OF row that [unfolded mh_blocks_def]])
    fix x assume "unat p = unat x + 24" "unat p + unat n \<le> unat (last (mh_row h s'))" "unat (hd (mh_row h s')) \<le> unat x"
    then show ?thesis using tail_at [OF assms(3,5)] assms(3) by (simp add: ends)
  qed
  then have "\<forall>(p, n) \<in> mh_blocks h s'. unat start + 24 \<le> unat p \<and> unat p + unat n + 24 \<le> unat start + unat sz" by blast
  then show ?thesis by (intro exI [of _ s0] exI [of _ held] exI [of _ s'] conjI s0(1) r(1,3-5))
qed

theorem memheap_client_safe_witness:
  "\<exists>s0 held s'. rt_memheap_init 64 ''heap'' 0x1000 1000 no_heaps = Some (RT_EOK, s0) \<and>
     client_run (rt_memheap_alloc 64) (\<lambda>p. rt_memheap_free (Some p)) [Alloc 100, Alloc 20, Release 1, Alloc 50] [] s0 = Some (held, s') \<and> distinct held"
  using memheap_client_safe [of 64 no_heaps 1000 "0x1000" "''heap''" "[Alloc 100, Alloc 20, Release 1, Alloc 50]"]
  by (auto simp: no_heaps_containers)

text \<open>A heap without blocks is one free item and the tailer.\<close>

lemma no_blocks_row:
  assumes "heap_wf h bs fs s" "row_blocks bs s = {}" "hd bs \<noteq> last bs"
  shows "bs = [hd bs, last bs]" "available_size (mheaps s h) = last bs - hd bs - 24"
proof -
  have w: "row_ok h bs s" "no_free_pair bs s" "bs \<noteq> []" "available_size (mheaps s h) = (\<Sum>x \<in> free_items bs s. MEMITEM_SIZE x s)"
    using assms(1) by (auto simp: heap_wf_def row_ok_def)
  have f: "\<not> RT_MEMHEAP_IS_USED x s" if "x \<in> set bs" "x \<noteq> last bs" for x using assms(2) that by (auto simp: row_blocks_def)
  obtain a b cs where bs: "bs = a # b # cs" using w(3) assms(3) by (cases bs; cases "tl bs") auto
  have d: "distinct bs" using w(1) by (simp add: row_ok_def sorted_gap_distinct)
  have "cs = []"
  proof (rule ccontr)
    assume "cs \<noteq> []"
    then have "a \<noteq> last bs" "b \<noteq> last bs" using d last_in_set [of cs] by (auto simp: bs)
    then show False using f [of a] f [of b] w(2) by (simp add: bs no_free_pair_def)
  qed
  then show "bs = [hd bs, last bs]" by (simp add: bs)
  have "a \<noteq> b" using d by (simp add: bs)
  then have "free_items bs s = {a}" using f [of a] w(1) by (auto simp: free_items_def bs \<open>cs = []\<close> row_ok_def)
  moreover have "nx s a = b" using row_neighbours(1) [of h "[]" a b cs s] w(1) by (simp add: bs)
  ultimately show "available_size (mheaps s h) = last bs - hd bs - 24" using w(4) by (simp add: size_eq bs \<open>cs = []\<close>)
qed

text \<open>A heap of 1000 bytes, and one with a block in it.\<close>

lemma demo_memheap:
  obtains s0 where "rt_memheap_init 64 ''heap'' 0x1000 1000 no_heaps = Some (RT_EOK, s0)" "heap_wf 64 [0x1000, 0x13d0] [0x1000] s0"
    "available_size (mheaps s0 64) = 952" "mh_at 64 (0x1000, 1000) s0" "mh_blocks 64 s0 = {}"
proof -
  have "RT_ALIGN_DOWN 1000 4 = 1000" by (simp add: RT_ALIGN_DOWN_def)
  then show thesis
    using memheap_init_step [of 64 no_heaps 1000 "0x1000" "''heap''"] init_at [of 64 "0x1000" 1000] that by (auto simp: no_heaps_containers)
qed

lemma demo_memheap_block:
  obtains p s1 old where "mh_inv 64 s1" "(p, old) \<in> mh_blocks 64 s1" "\<not> RT_MEMHEAP_IS_USED (it_next (items s1 (p - 24))) s1"
proof -
  obtain s0 where s0: "heap_wf 64 [0x1000, 0x13d0] [0x1000] s0" by (rule demo_memheap)
  have "row_ok 64 [0x1000, 0x13d0] s0" using s0 by (simp add: heap_wf_def)
  then have sz: "MEMITEM_SIZE 0x1000 s0 = 952" by (simp add: row_ok_def size_eq)
  let ?s = "memheap_take 64 100 0x1000 (MEMITEM_SIZE 0x1000 s0) s0"
  have w: "heap_wf 64 [0x1000, 0x107c, 0x13d0] [0x107c] ?s" "(0x1018, 100) \<in> row_blocks [0x1000, 0x107c, 0x13d0] ?s"
    using take_split [of 64 "[]" "0x1000" "0x13d0" "[]" "[]" "[]" s0 100] s0 sz by simp_all
  have "row_ok 64 ([] @ 0x1000 # 0x107c # [0x13d0]) ?s" "0x107c \<in> free_items [0x1000, 0x107c, 0x13d0] ?s" using w(1) by (auto simp: heap_wf_def)
  then have "nx ?s 0x1000 = 0x107c" "\<not> RT_MEMHEAP_IS_USED 0x107c ?s" using row_neighbours(1) by (fastforce simp: free_items_def)+
  then show thesis using that [of ?s "0x1018" 100] w(2) heap_wf_inv [OF w(1)] by (simp add: nx_def)
qed

text \<open>C14. When a client of a new heap has given back everything, in whatever order, the heap is as it was at the start: one free item over the whole area, with all bytes available. Every
  release merges with its free neighbours, so nothing stays fragmented and no byte of the count is lost.\<close>

theorem memheap_release_all_restores:
  assumes "Obj h \<notin> set (containers (mh_kern s) RT_Object_Class_MemHeap)" "Obj (mh_lock h) \<notin> set (containers (mh_kern s) RT_Object_Class_Semaphore)"
    and "84 \<le> unat sz" "36 \<le> unat start" "unat start + unat sz \<le> 2 ^ 32" "h \<noteq> 0" "h + 100 \<le> unat start \<or> unat start + unat sz \<le> h \<and> h + 100 \<le> 2 ^ 32"
    and "rt_memheap_init h name start sz s = Some (e, s0)"
    and "client_run (rt_memheap_alloc h) (\<lambda>p. rt_memheap_free (Some p)) ops [] s0 = Some ([], s')"
  shows "mh_row h s0 = [start, start + (RT_ALIGN_DOWN sz 4 - 24)] \<and> mh_row h s' = mh_row h s0 \<and>
    available_size (mheaps s0 h) = RT_ALIGN_DOWN sz 4 - 48 \<and> available_size (mheaps s' h) = available_size (mheaps s0 h)"
proof -
  let ?t = "start + (RT_ALIGN_DOWN sz 4 - 24)"
  have s0: "heap_wf h [start, ?t] [start] s0" "available_size (mheaps s0 h) = RT_ALIGN_DOWN sz 4 - 48"
    using memheap_init_step [OF assms(1-7), of name] assms(8) by auto
  note i = init_at [OF s0(1) assms(3,5)]
  obtain held s1 where r: "client_run (rt_memheap_alloc h) (\<lambda>p. rt_memheap_free (Some p)) ops [] s0 = Some (held, s1)" "mh_at h (start, RT_ALIGN_DOWN sz 4) s1"
    "set held = fst ` mh_blocks h s1"
    using memheap_store.held_apart [OF i, of ops] by (elim exE conjE) (rule that)
  then have s1: "s1 = s'" "mh_blocks h s' = {}" using assms(9) by auto
  obtain fs where wf: "heap_wf h (mh_row h s') fs s'" using r(2) by (auto simp: s1(1) mh_at_def mh_inv_def)
  then have ends: "hd (mh_row h s') = start" "last (mh_row h s') = ?t"
    using r(2) by (auto simp: s1(1) mh_at_def area_def heap_wf_def row_ok_def)
  have "start \<noteq> ?t"
  proof
    assume "start = ?t"
    then have "unat start = unat ?t" by simp
    then show False using tail_at [OF assms(3,5)] assms(3) by simp
  qed
  then have "mh_row h s' = [start, ?t]" "available_size (mheaps s' h) = ?t - start - 24"
    using no_blocks_row [OF wf] s1(2) by (simp_all add: mh_blocks_def ends)
  then show ?thesis using heap_wf_row [OF s0(1)] s0(2) by simp
qed

theorem memheap_release_all_restores_witness:
  "\<exists>s0 s'. rt_memheap_init 64 ''heap'' 0x1000 1000 no_heaps = Some (RT_EOK, s0) \<and>
     client_run (rt_memheap_alloc 64) (\<lambda>p. rt_memheap_free (Some p)) [Alloc 100, Release 0] [] s0 = Some ([], s') \<and> mh_row 64 s' = [0x1000, 0x13d0]"
proof -
  obtain s0 where s0: "rt_memheap_init 64 ''heap'' 0x1000 1000 no_heaps = Some (RT_EOK, s0)" "mh_at 64 (0x1000, 1000) s0" "mh_blocks 64 s0 = {}" by (rule demo_memheap)
  obtain held s' where "client_run (rt_memheap_alloc 64) (\<lambda>p. rt_memheap_free (Some p)) [Alloc 100, Release 0] [] s0 = Some (held, s')"
    using memheap_store.held_apart [OF s0(2,3), of "[Alloc 100, Release 0]"] by (elim exE conjE) (rule that)
  moreover from this have "held = []" by (auto split: bind_splits option.splits)
  ultimately have r: "client_run (rt_memheap_alloc 64) (\<lambda>p. rt_memheap_free (Some p)) [Alloc 100, Release 0] [] s0 = Some ([], s')" by simp
  have "RT_ALIGN_DOWN 1000 4 = 1000" by (simp add: RT_ALIGN_DOWN_def)
  then have "mh_row 64 s' = [0x1000, 0x13d0]"
    using memheap_release_all_restores [OF _ _ _ _ _ _ _ s0(1) r] by (simp add: no_heaps_containers)
  with s0(1) r show ?thesis by blast
qed



text \<open>The sizes at which the code wraps around. Rounding a request up to a multiple of four wraps for the three largest numbers, so that a block of 12 bytes is returned for them;
  and \<^verbatim>\<open>newsize + RT_MEMHEAP_MINIALLOC\<close> in \<^verbatim>\<open>rt_memheap_realloc\<close> wraps for the sizes below, so that any free item behind the block counts as large enough.\<close>

theorem memheap_alloc_wraps:
  assumes "2 ^ 32 \<le> unat sz + 3"
  shows "rt_memheap_alloc h sz s = rt_memheap_alloc h 12 s"
proof -
  have "unat (sz + 3) = unat sz + 3 - 2 ^ 32" using assms unat_less_2_32 [of sz] by (simp add: unat_word_ariths mod_if)
  then have "sz + 3 = 0 \<or> sz + 3 = 1 \<or> sz + 3 = 2" using unat_less_2_32 [of sz] by (simp add: word_unat_eq_iff) linarith
  moreover have "RT_ALIGN sz 4 = (sz + 3) AND NOT 3" by (simp add: RT_ALIGN_def add.commute)
  ultimately have "RT_ALIGN sz 4 = 0" by (elim disjE) simp_all
  then have "mh_round sz = mh_round 12" by (simp add: mh_round_def) (simp add: RT_ALIGN_def)
  then show ?thesis by (simp add: rt_memheap_alloc_def)
qed

theorem memheap_alloc_wraps_witness: "rt_memheap_alloc 64 0xffffffff no_heaps = rt_memheap_alloc 64 12 no_heaps"
  using memheap_alloc_wraps [of "0xffffffff"] by simp

lemma nx_free [mh_eff]: "nx (insert_free h x s) = nx s" "nx (unlink_free x s) = nx s"
  by (simp_all add: insert_free_def unlink_free_def Let_def mh_eff fold_fields)

text \<open>C38. \<^verbatim>\<open>rt_memheap_realloc\<close> to 4 GiB less 8 bytes, of a block with a free item behind it, succeeds in place: the addition that checks for room wraps around. The link of the block
  then points 16 bytes behind its own start, into its own header, where the header of a free item has been written.\<close>

theorem memheap_realloc_wraps:
  assumes "mh_inv h s" "(p, old) \<in> mh_blocks h s" "\<not> RT_MEMHEAP_IS_USED (it_next (items s (p - 24))) s"
  shows "\<exists>s'. rt_memheap_realloc h (Some p) 0xfffffff8 s = Some (Some p, s') \<and> it_next (items s' (p - 24)) = p - 24 + 16"
proof -
  obtain fs where wf: "heap_wf h (mh_row h s) fs s" using assms(1) by (auto simp: mh_inv_def)
  define bs where "bs = mh_row h s"
  have r: "row_ok h bs s" "is_memheap h s" using wf by (auto simp: heap_wf_def row_ok_def bs_def)
  obtain x where x: "x \<in> set bs" "x \<noteq> last bs" "RT_MEMHEAP_IS_USED x s" "p = x + 24" by (rule block_item [OF r(1)]) (use assms(2) in \<open>auto simp: mh_blocks_def bs_def\<close>)
  obtain P y Q where b: "bs = P @ x # y # Q" using row_item_split [OF x(1,2)] by blast
  have xy: "nx s x = y" "x < y" "x \<noteq> y" using row_neighbours [OF r(1) [unfolded b]] by (auto simp: gap_def word_less_nat_alt)
  have u: "\<not> RT_MEMHEAP_IS_USED y s" using assms(3) by (simp add: x(4) fold_fields xy)
  then obtain z Q' where Q: "Q = z # Q'" using free_not_last [OF r(1), of y] by (cases Q) (auto simp: free_items_def b)
  have r': "row_ok h ((P @ [x]) @ y # z # Q') s" using r(1) by (simp add: b Q)
  note sx = row_size [OF r(1) [unfolded b]] and sy = row_size [OF r'] and yz = row_neighbours [OF r']
  have n: "mh_round 0xfffffff8 = 0xfffffff8" by (simp add: mh_round_def RT_ALIGN_def)
  have "unat (MEMITEM_SIZE y s + MEMITEM_SIZE x s) = unat (MEMITEM_SIZE y s) + unat (MEMITEM_SIZE x s)"
    using sx(2) sy(2) unat_less_2_32 [of z] by (intro unat_add_no_wrap) simp
  then have c: "MEMITEM_SIZE x s < 0xfffffff8" "4 < MEMITEM_SIZE y s + MEMITEM_SIZE x s"
    using sx(2-4) sy(3) unat_less_2_32 [of y] by (simp_all add: word_less_nat_alt)
  have k: "(4294967300 :: u32) = 4" by (simp add: word_unat_eq_iff)
  have e: "rt_memheap_realloc h (Some p) 0xfffffff8 s = Some (Some p, memheap_grow h x 0xfffffff8 (MEMITEM_SIZE x s) s)"
    using r(2) u c xy by (simp add: rt_memheap_realloc_def Let_def n x(4) fold_fields k)
  have "nx (memheap_grow h x 0xfffffff8 (MEMITEM_SIZE x s) s) x = x + 16"
    by (simp add: memheap_grow_def Let_def mh_eff insert_item_def fold_fields)
  then show ?thesis using e by (simp add: x(4) nx_def)
qed

theorem memheap_realloc_wraps_witness:
  "\<exists>s p s'. rt_memheap_realloc 64 (Some p) 0xfffffff8 s = Some (Some p, s') \<and> it_next (items s' (p - 24)) = p - 24 + 16"
proof -
  obtain p s old where s: "mh_inv 64 s" "(p, old) \<in> mh_blocks 64 s" "\<not> RT_MEMHEAP_IS_USED (it_next (items s (p - 24))) s" by (rule demo_memheap_block)
  show ?thesis using memheap_realloc_wraps [OF s] by blast
qed

text \<open>A heap never hands out all it has: the comparison with \<^verbatim>\<open>available_size\<close> is strict, so a new heap refuses a request for exactly the size of its free item.\<close>

theorem memheap_whole_refused:
  assumes "heap_wf h [x, y] [x] s" "unat (available_size (mheaps s h)) mod 4 = 0"
  shows "MEMITEM_SIZE x s = available_size (mheaps s h) \<and> rt_memheap_alloc h (available_size (mheaps s h)) s = Some (None, s)"
proof -
  let ?a = "available_size (mheaps s h)"
  have w: "row_ok h ([] @ x # y # []) s" "free_items [x, y] s = {x}" "?a = (\<Sum>a \<in> free_items [x, y] s. MEMITEM_SIZE a s)" using assms(1) by (auto simp: heap_wf_def)
  then have a: "?a = MEMITEM_SIZE x s" by simp
  have n: "12 \<le> unat ?a" "unat ?a + 3 < 2 ^ 32" using row_size [OF w(1)] unat_less_2_32 [of y] by (simp_all add: a)
  have "unat (RT_ALIGN ?a 4) = unat ?a" using unat_align(3) [OF n(2)] assms(2) by presburger
  then have "RT_ALIGN ?a 4 = ?a" by (simp add: word_unat_eq_iff)
  then have "mh_round ?a = ?a" using n(1) by (simp add: mh_round_def word_less_nat_alt)
  then show ?thesis using alloc_step [OF assms(1), of ?a] a by simp
qed

theorem memheap_whole_refused_witness:
  "\<exists>s. rt_memheap_init 64 ''heap'' 0x1000 1000 no_heaps = Some (RT_EOK, s) \<and> rt_memheap_alloc 64 952 s = Some (None, s)"
proof -
  obtain s0 where s0: "rt_memheap_init 64 ''heap'' 0x1000 1000 no_heaps = Some (RT_EOK, s0)" "heap_wf 64 [0x1000, 0x13d0] [0x1000] s0" "available_size (mheaps s0 64) = 952"
    by (rule demo_memheap)
  then show ?thesis using memheap_whole_refused [OF s0(2)] by simp
qed

end
