(* ===== verification/Spec2Isabelle.thy ===== *)
theory Spec2Isabelle
  imports TimerProps MsgQueueProps SpsInitProps MemPoolProps Printf RingBufferProps DeviceIpc Startup Pin WorkQueue WaitQueue MemHeapRun
begin

text \<open>
  \<^bold>\<open>The Smart Power Switch on RT-Thread.\<close>

  The program is an application of six kinds of threads on the RT-Thread 4.0.2 kernel, for a machine
  with two CPUs. A \<^emph>\<open>switch\<close> (\<^verbatim>\<open>src/applications/sps.c\<close>) pings four \<^emph>\<open>targets\<close> (\<^verbatim>\<open>target.c\<close>) over mailboxes, declares a
  target frozen after three unanswered pings and reports that to the \<^emph>\<open>host\<close> (\<^verbatim>\<open>host.c\<close>); the host sends
  commands that the switch puts on the targets' power lines, which are mailboxes too. Everything
  they use is the kernel's (\<^verbatim>\<open>src/rt-thread/src\<close>): threads, some of them periodic, timers, mutexes and
  mailboxes. The configuration is \<^verbatim>\<open>src/rtconfig.h\<close>: \<^verbatim>\<open>RT_USING_SMP\<close>, two CPUs, 32 priorities, 100 ticks per
  second, assertions on, soft timers on.

  \<^bold>\<open>Theories, from the bottom up.\<close>

  \<^item> \<open>Prelude\<close>: machine types, error codes, assertions and the generic lemmas.
  \<^item> \<open>RtList\<close> (\<^verbatim>\<open>include/rtservice.h\<close>): the intrusive lists as a heap of nodes with \<^verbatim>\<open>next\<close> and \<^verbatim>\<open>prev\<close>, loops as
    partial functions. Locale \<open>node_store\<close> is what the kernel relies on: each list head has a list of
    nodes, a node is on at most one list; it is interpreted on the pointer heap (\<open>ptr\<close>) and on the
    kernel state (\<open>kl\<close>), where the lists are lists of thread numbers. Removing and inserting on pointers
    refines removing and inserting on lists.
  \<^item> \<open>KState\<close> (\<^verbatim>\<open>include/rtdef.h\<close>): the structures as records, and the record \<open>kernel\<close> of all kernel state: objects
    by identity, threads, timers, the two CPUs, the thread lists, the object containers, the timer
    lists, and one map for each kind of IPC object.
  \<^item> \<open>Cpu\<close> (\<^verbatim>\<open>cpu.c\<close>, \<^verbatim>\<open>irq.c\<close>): the CPU lock and interrupt nesting; taking and giving back the lock restores the
    state at any depth.
  \<^item> \<open>KObject\<close> (\<^verbatim>\<open>object.c\<close>): containers and the life of an object; allocate, find and delete round trip.
  \<^item> \<open>TimerCore\<close>, \<open>TimerProps\<close> (\<^verbatim>\<open>timer.c\<close>, \<^verbatim>\<open>clock.c\<close>): timers and ticks at 32 bits. The timer list stays in order of
    expiry across the wrap of the tick; \<^verbatim>\<open>rt_timer_check\<close> ends, fires the timers that are due and re-arms the
    periodic ones.
  \<^item> \<open>Sched\<close>, \<open>SchedInv\<close> (\<^verbatim>\<open>scheduler.c\<close>, \<^verbatim>\<open>__rt_ffs\<close> of \<^verbatim>\<open>kservice.c\<close>): the SMP scheduler. \<open>sched_inv\<close> ties the bitmaps, the ready
    queues, the thread states and the current threads together; \<^verbatim>\<open>rt_schedule\<close> keeps it and runs a thread
    of the highest priority.
  \<^item> \<open>Thread\<close>, \<open>ThreadInv\<close> (\<^verbatim>\<open>thread.c\<close>): all thread operations keep \<open>sched_inv\<close>, so every state that the step relation
    \<open>sched_step\<close> reaches from boot has it.
  \<^item> \<open>Ipc\<close>, \<open>IpcFrame\<close>, \<open>Sem\<close>, \<open>Mutex\<close>, \<open>Event\<close>, \<open>Fifo\<close>, \<open>Mailbox\<close>, \<open>MsgQueue\<close>, \<open>MsgQueueProps\<close> (\<^verbatim>\<open>ipc.c\<close>): what the IPC objects share
    (wait queues in FIFO or priority order, blocking, waking), that scheduling and IPC state do not
    interfere, and one theory for each kind of object. Each operation refines an abstract one on the object's
    value and its wait queues, on every branch. Locale \<open>bounded_fifo\<close> is the contract of a bounded
    queue; the mailbox ring (\<open>mb_ring\<close>) and the slot lists of a message queue (\<open>mq_fifo\<close>) are
    interpretations, and any sequence of operations on them is one on a list. Message queues enable
    interrupts while they fill and read slots: \<open>mq_run\<close> interleaves the sections of any number of
    senders and receivers.
  \<^item> \<open>Sps\<close>, \<open>SpsProps\<close>: the threads of the application on mailbox rings. \<open>power_run\<close> interleaves their sections; no
    section fails in a reachable state, and a round of pings follows a table of the targets.
  \<^item> \<open>SpsInit\<close>, \<open>SpsInitProps\<close>: \<^verbatim>\<open>main\<close> and the functions that set up, start and take down the application, on the
    kernel operations. The kernel objects after the setup are the initial state of \<open>power_run\<close>.
  \<^item> \<open>KService\<close> (\<^verbatim>\<open>kservice.c\<close>): the memory and string functions on a memory of bytes; the loops over words, the directions of a move
    and the loops over strings do what plain definitions say.
  \<^item> \<open>Printf\<close> (\<^verbatim>\<open>kservice.c\<close>): formatted output. Every conversion puts some characters (\<open>emits\<close>), so the output is one text, the buffer
    is never overrun, and a number is printed as \<open>number_text\<close> says.
  \<^item> \<open>Mem\<close>, \<open>MemProps\<close>, \<open>MemRun\<close>, \<open>MemServices\<close> (\<^verbatim>\<open>mem.c\<close>, and the functions of \<^verbatim>\<open>kservice.c\<close> that allocate): the system heap, a row of blocks with headers at offsets in a 32-bit address space.
    \<open>heap_ok\<close> says that the headers form a row from the first to the last one without two free neighbours and that
    the counters agree with it; \<open>regions\<close> lists what is handed out. Any sequence of calls (\<open>heap_step\<close>) keeps it,
    allocation and release refine adding and removing a region, and reallocation keeps contents.
  \<^item> \<open>MemPool\<close>, \<open>MemPoolProps\<close> (\<^verbatim>\<open>mempool.c\<close>, the error number of \<^verbatim>\<open>kservice.c\<close>): pools of blocks of one size, linked through words in
    the memory. \<open>pool_ok\<close> says that the free blocks form a chain and that all others name their pool; allocation and
    release refine a list of free blocks with a wait queue.
  \<^item> \<open>Alloc\<close>: locale \<open>block_store\<close>, the contract of a memory manager, with the heap (\<open>heap_store\<close>), the pools (\<open>pool_store\<close>) and the memory heaps as
    interpretations: a client that releases only what it holds never fails, and what it holds does not overlap.
  \<^item> \<open>RingBuffer\<close>, \<open>RingBufferProps\<close> (\<^verbatim>\<open>components/drivers/src/ringbuffer.c\<close>): ring buffers of bytes with mirror bits; a bounded queue (\<open>rb_ring\<close>), with exact
    block operations, and on the heap.
  \<^item> \<open>DeviceIpc\<close> (\<^verbatim>\<open>components/drivers/src/completion.c\<close>, \<^verbatim>\<open>dataqueue.c\<close>): completions and data queues of device drivers; completing is never lost, and pushing and
    popping implement the bounded queue until the 16-bit indices go round.
  \<^item> \<open>Signal\<close> (\<^verbatim>\<open>signal.c\<close> and the end of \<^verbatim>\<open>rt_schedule\<close>): signals, with their nodes in a memory pool and their handler tables on the heap; pending signals and nodes correspond, handling ends
    and is exact, and so is sending.
  \<^item> \<open>Idle\<close> (\<^verbatim>\<open>idle.c\<close>): the hooks and the freeing of ended threads with their stacks, signal data and objects.
  \<^item> \<open>Device\<close> (\<^verbatim>\<open>device.c\<close>): devices, with locale \<open>device_driver\<close>, the contract of a driver: it keeps what belongs to the device layer, and closing does not fail. A device is then open exactly
    while it has users.
  \<^item> \<open>Pin\<close> (\<^verbatim>\<open>components/drivers/misc/pin.c\<close>): the pin device, an instance of that contract (\<open>pin_driver\<close>), and the functions for pins.
  \<^item> \<open>WorkQueue\<close> (\<^verbatim>\<open>components/drivers/src/workqueue.c\<close>): work queues, with a step relation for their clients, timers and threads; flags and lists agree, completion wakes every waiter,
    and what breaks this.
  \<^item> \<open>WaitQueue\<close> (\<^verbatim>\<open>components/drivers/src/waitqueue.c\<close>): wait queues; a wake-up goes to the first thread it is for, or is kept.
  \<^item> \<open>Startup\<close> (\<^verbatim>\<open>components.c\<close>): the start of the system, which puts the initialisations of the other parts together; it ends with the main thread running.
  \<^item> \<open>MemHeap\<close>, \<open>MemHeapProps\<close>, \<open>MemHeapRun\<close> (\<^verbatim>\<open>memheap.c\<close>): memory heaps. \<open>heap_wf\<close> says that the headers form a ring in ascending order without two free neighbours, that the free
    ones form a second ring and that the count of free bytes is right; a heap is a memory manager (\<open>memheap_store\<close>), reallocation keeps contents, and releasing everything restores it.

  \<^bold>\<open>Conventions.\<close> An operation takes the number of the CPU it runs on (\<open>c\<close>) and the state, and returns an
  option: \<open>None\<close> is an assertion that fails, an access outside an array or through a null pointer, or a
  loop that does not end. Theorems say that the result is \<open>Some\<close> wherever they speak of a result.
  Integers have their width as words; error codes are integers, negative as in the code. A call
  that blocks is split where the thread stops: the call returns \<open>Wait\<close> with what it keeps on its stack, and the
  \<^verbatim>\<open>_resume\<close> definition continues. What an allocator, \<^verbatim>\<open>rand\<close> or a callback outside the kernel returns is an
  argument. Sections between disabling and enabling interrupts are atomic: the CPU lock makes them
  so on two CPUs.

  \<^bold>\<open>Loops and bounds.\<close> Loops over lists that the code may have broken (\<open>rt_list_len\<close>, \<open>timer_check_loop\<close>,
  \<open>soft_timer_loop\<close>, \<open>pong_read\<close>, \<open>mq_reset_loop\<close>, \<open>mb_delete_ping\<close>, \<open>target_period\<close>) are partial functions, with lemmas that they
  return where they do; so are the searches of the heaps (\<open>malloc_find\<close>, \<open>lfree_advance\<close>, \<open>memheap_find\<close>) and for the end of a string. The only bounds are those of
  \<open>walk\<close>, which lists the slots of a message queue for the abstraction and needs no more steps than the
  queue has slots, and of \<open>heap_walk\<close>, which lists the blocks of the heap and needs no more steps than the heap
  has bytes. Loops over fixed arrays recurse over
  the list of indices.

  \<^bold>\<open>Not modelled.\<close> The saved register contexts and stacks and the assembly of the port
  (\<^verbatim>\<open>libcpu\<close>, \<^verbatim>\<open>bsp\<close>); the console and the assertion handler (\<^verbatim>\<open>kservice.c\<close>); the slab allocator
  (\<^verbatim>\<open>slab.c\<close>, not built) and the use of a memory heap as system heap (not compiled; in the object operations the result of an allocation is an argument); the other drivers; the
  components the application does not use (file systems, network stacks, shell, libc layer).
\<close>

end
